(* ===== verification/Prelude.thy ===== *)
theory Prelude
  imports Main "HOL-Library.Word" "HOL-Library.Signed_Division"
begin

text \<open>
  Shared vocabulary of the development: how a C++ call that may not return normally is
  written, what \<^verbatim>\<open>memcpy\<close> does on a byte array, the C++ remainder, and little-endian
  images of machine words.  The lemmas proved here are collected in three bundles:
  \<open>run_simps\<close> (calls that return), \<open>mem_simps\<close> (block copies) and \<open>le_simps\<close>
  (byte images of words).
\<close>

unbundle bit_operations_syntax

named_theorems run_simps \<open>equations about calls that return normally\<close>
named_theorems mem_simps \<open>equations about block copies\<close>
named_theorems le_simps \<open>equations about little-endian byte images\<close>

section \<open>Calls that may fail\<close>

text \<open>
  The ways a call of the program can end other than by returning:
  \<^verbatim>\<open>Crash()\<close> (a deliberate write through a null pointer that ends the process), the C++
  exceptions \<^verbatim>\<open>PacketExcept\<close> and \<^verbatim>\<open>FreeListException\<close>, a null or foreign pointer that is
  dereferenced, an access outside an array, a loop that waits for another thread, a call
  whose behaviour the C++ standard leaves undefined, and a library exception that no handler
  of the program catches.
\<close>

datatype fault =
    Crash
  | PacketExcept
  | FreeListUnderflow
  | FreeListOverflow
  | NullDeref
  | OutOfBounds
  | Blocked
  | Undefined
  | Escaped

type_synonym byte = "8 word"
type_synonym 'a run = "fault + 'a"

definition bnd :: "'a run \<Rightarrow> ('a \<Rightarrow> 'b run) \<Rightarrow> 'b run" where
  "bnd m f = (case m of Inl e \<Rightarrow> Inl e | Inr x \<Rightarrow> f x)"

definition crash_if :: "bool \<Rightarrow> unit run" where
  "crash_if b = (if b then Inl Crash else Inr ())"

lemma bnd_Inl [simp]: "bnd (Inl e) f = Inl e"
  by (simp add: bnd_def)

lemma bnd_Inr [simp]: "bnd (Inr x) f = f x"
  by (simp add: bnd_def)

lemma bnd_assoc: "bnd (bnd m f) g = bnd m (\<lambda>x. bnd (f x) g)"
  by (cases m) simp_all

lemma bnd_eq_Inr [run_simps]: "bnd m f = Inr y \<longleftrightarrow> (\<exists>x. m = Inr x \<and> f x = Inr y)"
  by (cases m) auto

lemma bnd_eq_Inl [run_simps]:
  "bnd m f = Inl e \<longleftrightarrow> m = Inl e \<or> (\<exists>x. m = Inr x \<and> f x = Inl e)"
  by (cases m) auto

lemma bnd_cong [fundef_cong]:
  "m = m' \<Longrightarrow> (\<And>x. m' = Inr x \<Longrightarrow> f x = f' x) \<Longrightarrow> bnd m f = bnd m' f'"
  by (cases m') simp_all

lemma crash_if_False [simp]: "crash_if False = Inr ()"
  by (simp add: crash_if_def)

lemma crash_if_True [simp]: "crash_if True = Inl Crash"
  by (simp add: crash_if_def)

lemma crash_if_eq_Inr [run_simps]: "crash_if b = Inr u \<longleftrightarrow> \<not> b"
  by (simp add: crash_if_def)

lemma crash_if_eq_Inl [run_simps]: "crash_if b = Inl e \<longleftrightarrow> b \<and> e = Crash"
  by (auto simp: crash_if_def)

section \<open>The C++ remainder\<close>

text \<open>
  \<^verbatim>\<open>%\<close> on \<^verbatim>\<open>int32_t\<close> truncates towards zero, so a negative dividend has a negative
  remainder: it is \<^const>\<open>signed_modulo\<close>, not \<^term>\<open>(mod)\<close>.
\<close>

lemma smod_nonneg [run_simps]: "0 \<le> a \<Longrightarrow> 0 \<le> b \<Longrightarrow> a smod b = a mod (b::int)"
  by (cases "a = 0") (simp_all add: signed_modulo_int_def)

lemma smod_minus_one: "1 < b \<Longrightarrow> (- 1) smod b = (- 1 :: int)"
  by (simp add: signed_modulo_int_def)

section \<open>Lists\<close>

text \<open>An update outside a list changes nothing.\<close>

lemma nth_update_if:
  "xs[p := b] ! q = (if q = p \<and> p < length xs then b else xs ! q)"
  by (cases "p < length xs") (auto simp: list_update_beyond)

section \<open>Block copies\<close>

text \<open>
  A byte array is a list; a pointer into it is an offset.  \<^verbatim>\<open>memcpy\<close> with a negative
  \<^verbatim>\<open>int\<close> length converts it to a huge \<^verbatim>\<open>size_t\<close>; that and every copy that leaves the
  array is \<^const>\<open>OutOfBounds\<close>.
\<close>

definition mem_write :: "'a list \<Rightarrow> nat \<Rightarrow> 'a list \<Rightarrow> 'a list" where
  "mem_write buf off bs = take off buf @ bs @ drop (off + length bs) buf"

definition memcpy_in :: "'a list \<Rightarrow> int \<Rightarrow> 'a list \<Rightarrow> 'a list run" where
  "memcpy_in buf off bs =
     (if 0 \<le> off \<and> nat off + length bs \<le> length buf
      then Inr (mem_write buf (nat off) bs) else Inl OutOfBounds)"

definition memcpy_out :: "'a list \<Rightarrow> int \<Rightarrow> int \<Rightarrow> 'a list run" where
  "memcpy_out buf off n =
     (if 0 \<le> off \<and> 0 \<le> n \<and> off + n \<le> int (length buf)
      then Inr (take (nat n) (drop (nat off) buf)) else Inl OutOfBounds)"

lemma length_mem_write [simp]:
  "off + length bs \<le> length buf \<Longrightarrow> length (mem_write buf off bs) = length buf"
  by (simp add: mem_write_def)

lemma nth_mem_write [mem_simps]:
  assumes "off + length bs \<le> length buf" and "i < length buf"
  shows "mem_write buf off bs ! i =
    (if off \<le> i \<and> i < off + length bs then bs ! (i - off) else buf ! i)"
  using assms by (auto simp: mem_write_def nth_append min_def not_le)

lemma mem_write_Nil [simp]: "mem_write buf off [] = buf"
  by (simp add: mem_write_def)

lemma memcpy_in_ok [mem_simps]:
  "0 \<le> off \<Longrightarrow> nat off + length bs \<le> length buf
   \<Longrightarrow> memcpy_in buf off bs = Inr (mem_write buf (nat off) bs)"
  by (simp add: memcpy_in_def)

lemma memcpy_out_ok [mem_simps]:
  "0 \<le> off \<Longrightarrow> 0 \<le> n \<Longrightarrow> off + n \<le> int (length buf)
   \<Longrightarrow> memcpy_out buf off n = Inr (take (nat n) (drop (nat off) buf))"
  by (simp add: memcpy_out_def)

lemma memcpy_in_eq_Inr [run_simps]:
  "memcpy_in buf off bs = Inr buf' \<longleftrightarrow>
     0 \<le> off \<and> nat off + length bs \<le> length buf \<and> buf' = mem_write buf (nat off) bs"
  by (auto simp: memcpy_in_def)

lemma memcpy_out_eq_Inr [run_simps]:
  "memcpy_out buf off n = Inr bs \<longleftrightarrow>
     0 \<le> off \<and> 0 \<le> n \<and> off + n \<le> int (length buf) \<and> bs = take (nat n) (drop (nat off) buf)"
  by (auto simp: memcpy_out_def)

lemma take_drop_mem_write_same [mem_simps]:
  "off + length bs \<le> length buf \<Longrightarrow> take (length bs) (drop off (mem_write buf off bs)) = bs"
  by (simp add: mem_write_def)

lemma take_mem_write_before [mem_simps]:
  "n \<le> off \<Longrightarrow> off + length bs \<le> length buf \<Longrightarrow> take n (mem_write buf off bs) = take n buf"
  by (simp add: mem_write_def min_def)

section \<open>Little-endian images of words\<close>

text \<open>
  \<^verbatim>\<open>memcpy\<close> of a scalar copies its object representation; on the x64 target that is
  little-endian.  \<open>le_bytes n w\<close> are the \<open>n\<close> low bytes of \<open>w\<close>, lowest first, and
  \<open>of_le\<close> reads them back.
\<close>

definition le_bytes :: "nat \<Rightarrow> 'a::len word \<Rightarrow> byte list" where
  "le_bytes n w = map (\<lambda>i. ucast (drop_bit (8 * i) w)) [0..<n]"

primrec of_le :: "byte list \<Rightarrow> 'a::len word" where
  "of_le [] = 0"
| "of_le (b # bs) = ucast b OR push_bit 8 (of_le bs)"

lemma length_le_bytes [simp]: "length (le_bytes n w) = n"
  by (simp add: le_bytes_def)

lemma bit_of_le:
  "bit (of_le bs :: 'a::len word) k \<longleftrightarrow>
     k < LENGTH('a) \<and> k div 8 < length bs \<and> bit (bs ! (k div 8)) (k mod 8)"
proof (induction bs arbitrary: k)
  case Nil
  then show ?case by simp
next
  case (Cons b bs)
  show ?case
  proof (cases "k < 8")
    case True
    then show ?thesis by (auto simp: bit_or_iff bit_push_bit_iff bit_ucast_iff)
  next
    case False
    then have div: "k div 8 = Suc ((k - 8) div 8)" and md: "k mod 8 = (k - 8) mod 8"
      using le_div_geq [of 8 k] le_mod_geq [of 8 k] by simp_all
    have "\<not> bit b k" using False by (auto dest: bit_imp_le_length)
    then show ?thesis
      using False Cons.IH [of "k - 8"] unfolding div md
      by (auto simp: bit_or_iff bit_push_bit_iff bit_ucast_iff)
  qed
qed

lemma of_le_le_bytes [le_simps]:
  assumes "LENGTH('a) \<le> 8 * n"
  shows "of_le (le_bytes n w) = (w :: 'a::len word)"
proof (rule bit_word_eqI)
  fix k assume k: "k < LENGTH('a)"
  with assms have "k div 8 < n" by simp
  moreover have "8 * (k div 8) + k mod 8 = k" by simp
  ultimately show "bit (of_le (le_bytes n w) :: 'a word) k = bit w k"
    using k by (simp add: bit_of_le le_bytes_def bit_ucast_iff bit_drop_bit_eq)
qed

lemma le_bytes_of_le [le_simps]:
  assumes "length bs = n" and "8 * n \<le> LENGTH('a)"
  shows "le_bytes n (of_le bs :: 'a::len word) = bs"
proof (rule nth_equalityI)
  show "length (le_bytes n (of_le bs :: 'a word)) = length bs" using assms by simp
next
  fix i assume "i < length (le_bytes n (of_le bs :: 'a word))"
  then have i: "i < n" by simp
  show "le_bytes n (of_le bs :: 'a word) ! i = bs ! i"
  proof (rule bit_word_eqI)
    fix k assume "k < LENGTH(8)"
    then have k: "k < 8" by simp
    with i assms have "8 * i + k < LENGTH('a)" by simp
    with i k assms show "bit (le_bytes n (of_le bs :: 'a word) ! i) k = bit (bs ! i) k"
      by (simp add: le_bytes_def bit_of_le bit_ucast_iff bit_drop_bit_eq)
  qed
qed

text \<open>A count within the range of \<^verbatim>\<open>LONG\<close> is the number it stands for.\<close>

lemma sint_LONG: "- (2 ^ 31) \<le> v \<Longrightarrow> v < 2 ^ 31 \<Longrightarrow> sint (word_of_int v :: 32 word) = v"
  by (simp add: signed_of_int signed_take_bit_int_eq_self)

end
