(* ===== verification/Contracts.thy ===== *)
theory Contracts
  imports Prelude
begin

text \<open>
  The interfaces between the components, as locales: what a client of a byte ring, of a
  message queue, of a stack of indices and of a pool of objects relies on.  Each is proved of
  the code's model in the theory of the component that provides it.
\<close>

section \<open>A bounded stream of bytes\<close>

text \<open>
  The client of a receive ring puts what the network delivered and gets what it can parse.
  \<open>put\<close> answers how many bytes it took, \<open>get\<close> the bytes it removed.
\<close>

datatype stream_op = Put "byte list" | Get nat

fun stream_op_ok :: "stream_op \<Rightarrow> bool" where
  "stream_op_ok (Put bs) = (bs \<noteq> [])"
| "stream_op_ok (Get n) = (0 < n)"

primrec stream_run ::
  "('q \<Rightarrow> byte list \<Rightarrow> (int \<times> 'q) run) \<Rightarrow> ('q \<Rightarrow> nat \<Rightarrow> (byte list \<times> 'q) run)
   \<Rightarrow> 'q \<Rightarrow> stream_op list \<Rightarrow> (byte list \<times> byte list \<times> 'q) run" where
  "stream_run put get q [] = Inr ([], [], q)"
| "stream_run put get q (a # ops) =
     (case a of
        Put bs \<Rightarrow> bnd (put q bs) (\<lambda>(k, q').
                  bnd (stream_run put get q' ops) (\<lambda>(acc, del, q'').
                    Inr (take (nat k) bs @ acc, del, q'')))
      | Get n \<Rightarrow> bnd (get q n) (\<lambda>(bs, q').
                 bnd (stream_run put get q' ops) (\<lambda>(acc, del, q'').
                   Inr (acc, bs @ del, q''))))"

locale byte_stream =
  fixes inv :: "'q \<Rightarrow> bool"
    and abs :: "'q \<Rightarrow> byte list"
    and cap :: nat
    and put :: "'q \<Rightarrow> byte list \<Rightarrow> (int \<times> 'q) run"
    and get :: "'q \<Rightarrow> nat \<Rightarrow> (byte list \<times> 'q) run"
  assumes abs_cap: "inv q \<Longrightarrow> length (abs q) \<le> cap"
    and put_law: "inv q \<Longrightarrow> bs \<noteq> [] \<Longrightarrow>
      \<exists>q'. put q bs = Inr (int (min (length bs) (cap - length (abs q))), q') \<and> inv q' \<and>
           abs q' = abs q @ take (cap - length (abs q)) bs"
    and get_law: "inv q \<Longrightarrow> 0 < n \<Longrightarrow>
      \<exists>q'. get q n = Inr (take n (abs q), q') \<and> inv q' \<and> abs q' = drop n (abs q)"
begin

text \<open>No sequence of puts and gets faults, loses, repeats or reorders a byte.\<close>

lemma stream_order:
  assumes "inv q" and "list_all stream_op_ok ops"
  shows "\<exists>acc del q'. stream_run put get q ops = Inr (acc, del, q') \<and> inv q' \<and>
           abs q @ acc = del @ abs q'"
  using assms
proof (induction ops arbitrary: q)
  case Nil
  then show ?case by simp
next
  case (Cons a ops)
  have rest: "list_all stream_op_ok ops" using Cons.prems by simp
  show ?case
  proof (cases a)
    case (Put bs)
    then have "bs \<noteq> []" using Cons.prems by simp
    from put_law [OF Cons.prems(1) this] obtain q1 where put:
        "put q bs = Inr (int (min (length bs) (cap - length (abs q))), q1)" "inv q1"
        "abs q1 = abs q @ take (cap - length (abs q)) bs"
      by blast
    from Cons.IH [OF put(2) rest] obtain acc del q' where
        "stream_run put get q1 ops = Inr (acc, del, q')" "inv q'" "abs q1 @ acc = del @ abs q'"
      by blast
    with put Put show ?thesis by (auto simp: min_def)
  next
    case (Get n)
    then have "0 < n" using Cons.prems by simp
    from get_law [OF Cons.prems(1) this] obtain q1 where get:
        "get q n = Inr (take n (abs q), q1)" "inv q1" "abs q1 = drop n (abs q)"
      by blast
    from Cons.IH [OF get(2) rest] obtain acc del q' where
        "stream_run put get q1 ops = Inr (acc, del, q')" "inv q'" "abs q1 @ acc = del @ abs q'"
      by blast
    moreover have "abs q @ acc = take n (abs q) @ abs q1 @ acc" using get by simp
    ultimately show ?thesis using get Get by auto
  qed
qed

end

section \<open>A pool of objects\<close>

text \<open>
  The client allocates objects on some thread and frees, on any thread, only what it holds.
  \<open>inv s U\<close> says that the pool is well formed and \<open>U\<close> are the objects handed out.
\<close>

datatype 't pool_op = AllocOp 't | FreeOp nat

primrec pool_run ::
  "('t \<Rightarrow> 's \<Rightarrow> ('p \<times> 's) run) \<Rightarrow> ('p \<Rightarrow> 's \<Rightarrow> 's run) \<Rightarrow> 't pool_op list \<Rightarrow> 'p list \<Rightarrow> 's
   \<Rightarrow> ('p list \<times> 's) run" where
  "pool_run alloc free [] held s = Inr (held, s)"
| "pool_run alloc free (a # ops) held s =
     (case a of
        AllocOp t \<Rightarrow> bnd (alloc t s) (\<lambda>(p, s'). pool_run alloc free ops (p # held) s')
      | FreeOp i \<Rightarrow>
          (if i < length held
           then bnd (free (held ! i) s) (\<lambda>s'. pool_run alloc free ops (take i held @ drop (Suc i) held) s')
           else pool_run alloc free ops held s))"

lemma set_remove_nth:
  assumes "distinct xs" "i < length xs"
  shows "set (take i xs @ drop (Suc i) xs) = set xs - {xs ! i}" "distinct (take i xs @ drop (Suc i) xs)"
proof -
  have eq: "xs = take i xs @ xs ! i # drop (Suc i) xs" using assms(2) by (rule id_take_nth_drop)
  have "distinct (take i xs @ xs ! i # drop (Suc i) xs)" using assms(1) eq by simp
  then have d: "distinct (take i xs @ drop (Suc i) xs)" "xs ! i \<notin> set (take i xs @ drop (Suc i) xs)"
    by auto
  have "set xs = insert (xs ! i) (set (take i xs @ drop (Suc i) xs))"
    by (subst eq) auto
  with d show "set (take i xs @ drop (Suc i) xs) = set xs - {xs ! i}" by auto
  show "distinct (take i xs @ drop (Suc i) xs)" by (rule d)
qed

locale object_pool =
  fixes inv :: "'s \<Rightarrow> 'p set \<Rightarrow> bool"
    and val :: "'s \<Rightarrow> 'p \<Rightarrow> 'd"
    and alloc :: "'t \<Rightarrow> 's \<Rightarrow> ('p \<times> 's) run"
    and free :: "'p \<Rightarrow> 's \<Rightarrow> 's run"
  assumes alloc_law: "inv s U \<Longrightarrow>
      \<exists>p s'. alloc t s = Inr (p, s') \<and> p \<notin> U \<and> inv s' (insert p U) \<and> (\<forall>q\<in>U. val s' q = val s q)"
    and free_law: "inv s U \<Longrightarrow> p \<in> U \<Longrightarrow>
      \<exists>s'. free p s = Inr s' \<and> inv s' (U - {p}) \<and> (\<forall>q\<in>U - {p}. val s' q = val s q)"
begin

text \<open>
  A disciplined client never sees a fault, never holds one object twice, and finds every
  object it kept throughout unchanged.
\<close>

lemma pool_discipline:
  assumes "inv s U" and "distinct held" and "set held \<subseteq> U"
  shows "\<exists>held' s'. pool_run alloc free ops held s = Inr (held', s') \<and> distinct held' \<and>
           inv s' ((U - set held) \<union> set held') \<and> set held' \<inter> (U - set held) = {} \<and>
           (\<forall>q\<in>U - set held. val s' q = val s q)"
  using assms
proof (induction ops arbitrary: held s U)
  case Nil
  moreover from Nil have "(U - set held) \<union> set held = U" by blast
  ultimately show ?case by auto
next
  case (Cons a ops)
  show ?case
  proof (cases a)
    case (AllocOp t)
    from alloc_law [OF Cons.prems(1), of t] obtain p s1 where a: "alloc t s = Inr (p, s1)" "p \<notin> U"
        "inv s1 (insert p U)" "\<forall>q\<in>U. val s1 q = val s q" by blast
    have "distinct (p # held)" "set (p # held) \<subseteq> insert p U" using Cons.prems a(2) by auto
    from Cons.IH [OF a(3) this] obtain held' s' where
      "pool_run alloc free ops (p # held) s1 = Inr (held', s')" "distinct held'"
      "inv s' ((insert p U - set (p # held)) \<union> set held')"
      "set held' \<inter> (insert p U - set (p # held)) = {}"
      "\<forall>q\<in>insert p U - set (p # held). val s' q = val s1 q" by blast
    moreover have "insert p U - set (p # held) = U - set held" using a(2) by auto
    ultimately show ?thesis using AllocOp a by auto
  next
    case (FreeOp i)
    show ?thesis
    proof (cases "i < length held")
      case True
      let ?p = "held ! i" and ?h = "take i held @ drop (Suc i) held"
      note h = set_remove_nth [OF Cons.prems(2) True]
      have "?p \<in> U" using True Cons.prems(3) by auto
      from free_law [OF Cons.prems(1) this] obtain s1 where f: "free ?p s = Inr s1"
          "inv s1 (U - {?p})" "\<forall>q\<in>U - {?p}. val s1 q = val s q" by blast
      have "set ?h \<subseteq> U - {?p}" unfolding h(1) using Cons.prems(3) by auto
      from Cons.IH [OF f(2) h(2) this] obtain held' s' where
        "pool_run alloc free ops ?h s1 = Inr (held', s')" "distinct held'"
        "inv s' ((U - {?p} - set ?h) \<union> set held')" "set held' \<inter> (U - {?p} - set ?h) = {}"
        "\<forall>q\<in>U - {?p} - set ?h. val s' q = val s1 q" by blast
      moreover have "U - {?p} - set ?h = U - set held" unfolding h(1) using True by auto
      ultimately show ?thesis using FreeOp True f by auto
    next
      case False
      then show ?thesis using Cons.IH [OF Cons.prems] FreeOp by simp
    qed
  qed
qed

end

section \<open>A stack of resources\<close>

text \<open>
  The client pops a resource, an index of a session slot, and pushes back only what it holds.
  \<open>pop\<close> answers \<^const>\<open>None\<close> on an empty stack; there is room for \<open>limit\<close> resources.
\<close>

datatype stack_op = PopOp | PushBackOp nat

primrec stack_run ::
  "('a \<Rightarrow> 's \<Rightarrow> 's run) \<Rightarrow> ('s \<Rightarrow> ('a option \<times> 's) run) \<Rightarrow> stack_op list \<Rightarrow> 'a list \<Rightarrow> 's
   \<Rightarrow> ('a list \<times> 's) run" where
  "stack_run push pop [] held s = Inr (held, s)"
| "stack_run push pop (a # ops) held s =
     (case a of
        PopOp \<Rightarrow> bnd (pop s) (\<lambda>(r, s'). stack_run push pop ops (case r of None \<Rightarrow> held | Some x \<Rightarrow> x # held) s')
      | PushBackOp i \<Rightarrow>
          (if i < length held
           then bnd (push (held ! i) s) (\<lambda>s'. stack_run push pop ops (take i held @ drop (Suc i) held) s')
           else stack_run push pop ops held s))"

locale resource_stack =
  fixes inv :: "'s \<Rightarrow> bool"
    and abs :: "'s \<Rightarrow> 'a list"
    and limit :: nat
    and push :: "'a \<Rightarrow> 's \<Rightarrow> 's run"
    and pop :: "'s \<Rightarrow> ('a option \<times> 's) run"
  assumes push_law: "inv s \<Longrightarrow> length (abs s) < limit \<Longrightarrow> \<exists>s'. push x s = Inr s' \<and> inv s' \<and> abs s' = x # abs s"
    and pop_law: "inv s \<Longrightarrow> \<exists>s'. pop s = Inr (case abs s of [] \<Rightarrow> None | x # xs \<Rightarrow> Some x, s') \<and> inv s' \<and>
                    abs s' = tl (abs s)"
begin

text \<open>
  No fault, and the resources held together with those on the stack are always the initial
  ones, each exactly once.
\<close>

lemma resources_partition:
  assumes "inv s" and "distinct (held @ abs s)" and "length (held @ abs s) \<le> limit"
  shows "\<exists>held' s'. stack_run push pop ops held s = Inr (held', s') \<and> inv s' \<and>
           distinct (held' @ abs s') \<and> set (held' @ abs s') = set (held @ abs s)"
  using assms
proof (induction ops arbitrary: held s)
  case Nil
  then show ?case by auto
next
  case (Cons a ops)
  show ?case
  proof (cases a)
    case PopOp
    from pop_law [OF Cons.prems(1)] obtain s1 where pop:
        "pop s = Inr (case abs s of [] \<Rightarrow> None | x # xs \<Rightarrow> Some x, s1)" "inv s1" "abs s1 = tl (abs s)"
      by blast
    let ?h = "case abs s of [] \<Rightarrow> held | x # xs \<Rightarrow> x # held"
    have "distinct (?h @ abs s1)" "set (?h @ abs s1) = set (held @ abs s)" "length (?h @ abs s1) \<le> limit"
      using Cons.prems(2,3) pop(3) by (auto split: list.split)
    with Cons.IH [OF pop(2), of ?h] show ?thesis
      using PopOp pop(1) by (auto split: list.splits)
  next
    case (PushBackOp i)
    show ?thesis
    proof (cases "i < length held")
      case True
      let ?h = "take i held @ drop (Suc i) held"
      have "length (abs s) < limit" using True Cons.prems(3) by simp
      from push_law [OF Cons.prems(1) this] obtain s1 where push:
          "push (held ! i) s = Inr s1" "inv s1" "abs s1 = held ! i # abs s" by blast
      have d: "distinct held" "distinct (abs s)" "set held \<inter> set (abs s) = {}" using Cons.prems(2) by auto
      note h = set_remove_nth [OF d(1) True]
      have "held ! i \<in> set held" using True by simp
      then have "distinct (?h @ abs s1)" "set (?h @ abs s1) = set (held @ abs s)"
        using h d unfolding distinct_append set_append push(3) by auto
      moreover have "length (?h @ abs s1) \<le> limit" using Cons.prems(3) True push(3) by simp
      ultimately show ?thesis using Cons.IH [OF push(2), of ?h] PushBackOp True push(1) by simp
    next
      case False
      then show ?thesis using Cons.IH [OF Cons.prems] PushBackOp by simp
    qed
  qed
qed

end

section \<open>A queue of messages\<close>

datatype 'a queue_op = EnqOp 'a | DeqOp

primrec queue_run ::
  "('a \<Rightarrow> 's \<Rightarrow> (bool \<times> 's) run) \<Rightarrow> ('s \<Rightarrow> ('a option \<times> 's) run) \<Rightarrow> 'a queue_op list \<Rightarrow> 's
   \<Rightarrow> ('a list \<times> 'a list \<times> 's) run" where
  "queue_run enq deq [] s = Inr ([], [], s)"
| "queue_run enq deq (a # ops) s =
     (case a of
        EnqOp x \<Rightarrow> bnd (enq x s) (\<lambda>(ok, s'). bnd (queue_run enq deq ops s') (\<lambda>(sent, got, s'').
                    Inr (if ok then x # sent else sent, got, s'')))
      | DeqOp \<Rightarrow> bnd (deq s) (\<lambda>(r, s'). bnd (queue_run enq deq ops s') (\<lambda>(sent, got, s'').
                    Inr (sent, case r of None \<Rightarrow> got | Some x \<Rightarrow> x # got, s''))))"

text \<open>
  A run fits when the queue is below its limit at every message put in; the number of
  operations is not bounded by it.  \<open>enqueued\<close> are the messages of a run in their order.
\<close>

primrec queue_fits :: "nat \<Rightarrow> nat \<Rightarrow> 'a queue_op list \<Rightarrow> bool" where
  "queue_fits limit n [] = True"
| "queue_fits limit n (a # ops) =
     (case a of EnqOp x \<Rightarrow> n < limit \<and> queue_fits limit (Suc n) ops
              | DeqOp \<Rightarrow> queue_fits limit (n - 1) ops)"

definition enqueued :: "'a queue_op list \<Rightarrow> 'a list" where
  "enqueued ops = concat (map (\<lambda>a. case a of EnqOp x \<Rightarrow> [x] | DeqOp \<Rightarrow> []) ops)"

lemma enqueued_simps [simp]:
  "enqueued [] = []" "enqueued (EnqOp x # ops) = x # enqueued ops" "enqueued (DeqOp # ops) = enqueued ops"
  by (simp_all add: enqueued_def)

text \<open>
  \<open>limit s\<close> is how many messages the queue holds at most without a fault, \<open>stamps s\<close> how many
  more it takes in all its life: each message uses up one stamp.
\<close>

locale message_queue =
  fixes inv :: "'s \<Rightarrow> bool"
    and abs :: "'s \<Rightarrow> 'a list"
    and limit :: "'s \<Rightarrow> nat"
    and stamps :: "'s \<Rightarrow> nat"
    and enq :: "'a \<Rightarrow> 's \<Rightarrow> (bool \<times> 's) run"
    and deq :: "'s \<Rightarrow> ('a option \<times> 's) run"
  assumes enq_law: "inv s \<Longrightarrow> length (abs s) < limit s \<Longrightarrow> 0 < stamps s \<Longrightarrow>
      \<exists>s'. enq x s = Inr (True, s') \<and> inv s' \<and> abs s' = abs s @ [x] \<and> limit s' = limit s \<and>
           Suc (stamps s') = stamps s"
    and deq_law: "inv s \<Longrightarrow>
      \<exists>s'. deq s = Inr (case abs s of [] \<Rightarrow> None | x # xs \<Rightarrow> Some x, s') \<and> inv s' \<and>
           abs s' = tl (abs s) \<and> limit s' = limit s \<and> stamps s' = stamps s"
begin

text \<open>
  As long as the run fits, every message is accepted and the messages come out in the order
  they went in.
\<close>

lemma queue_order:
  assumes "inv s" and "queue_fits (limit s) (length (abs s)) ops" and "length (enqueued ops) \<le> stamps s"
  shows "\<exists>got s'. queue_run enq deq ops s = Inr (enqueued ops, got, s') \<and> inv s' \<and>
           abs s @ enqueued ops = got @ abs s' \<and> limit s' = limit s \<and>
           stamps s' + length (enqueued ops) = stamps s"
  using assms
proof (induction ops arbitrary: s)
  case Nil
  then show ?case by simp
next
  case (Cons a ops)
  show ?case
  proof (cases a)
    case (EnqOp x)
    have "length (abs s) < limit s" "0 < stamps s" using Cons.prems(2,3) EnqOp by simp_all
    from enq_law [OF Cons.prems(1) this] obtain s1 where e:
        "enq x s = Inr (True, s1)" "inv s1" "abs s1 = abs s @ [x]" "limit s1 = limit s"
        "Suc (stamps s1) = stamps s" by blast
    have "queue_fits (limit s1) (length (abs s1)) ops" "length (enqueued ops) \<le> stamps s1"
      using Cons.prems(2,3) EnqOp e by simp_all
    from Cons.IH [OF e(2) this] e EnqOp show ?thesis by auto
  next
    case DeqOp
    from deq_law [OF Cons.prems(1)] obtain s1 where d:
        "deq s = Inr (case abs s of [] \<Rightarrow> None | x # xs \<Rightarrow> Some x, s1)" "inv s1" "abs s1 = tl (abs s)"
        "limit s1 = limit s" "stamps s1 = stamps s" by blast
    have "queue_fits (limit s1) (length (abs s1)) ops" "length (enqueued ops) \<le> stamps s1"
      using Cons.prems(2,3) DeqOp d by simp_all
    from Cons.IH [OF d(2) this] d DeqOp show ?thesis by (cases "abs s") auto
  qed
qed

end

end
