(* ===== verification/RingBuffer.thy ===== *)
theory RingBuffer
  imports Contracts
begin

text \<open>
  \<^verbatim>\<open>RingQ\<close> of RingBuffer.cpp: a ring of 10000 bytes with a front and a rear index.  The slot
  the front index names is never used, so the ring holds at most 9999 bytes.  Indices are
  \<^verbatim>\<open>int32_t\<close>; they stay within one ring length of zero, so they are integers here, and
  \<^verbatim>\<open>%\<close> is the truncating remainder.  A byte pointer into the ring is an offset, a null
  pointer is \<^const>\<open>None\<close>; a caller's buffer is a byte list with a start offset.
\<close>

section \<open>The ring as the code has it\<close>

definition RING_BUFFER_SIZE :: int where
  "RING_BUFFER_SIZE = 10000"

record RingQ =
  m_Front :: int
  m_Rear :: int
  ring_Buffer :: "byte list"

record DirectData =
  Direct1 :: int
  Direct2 :: int
  bufferPtr1 :: "int option"
  bufferPtr2 :: "int option"

definition RingQ_new :: RingQ where
  "RingQ_new = \<lparr>m_Front = 0, m_Rear = 0, ring_Buffer = replicate (nat RING_BUFFER_SIZE) 0\<rparr>"

subsection \<open>Sizes\<close>

definition GetFreeSize_at :: "int \<Rightarrow> int \<Rightarrow> int" where
  "GetFreeSize_at front rear =
     (if (rear + 1) smod RING_BUFFER_SIZE = front then 0
      else if front > rear then front - rear - 1
      else front + (RING_BUFFER_SIZE - 1) - rear)"

definition GetUsedSize_at :: "int \<Rightarrow> int \<Rightarrow> int" where
  "GetUsedSize_at front rear =
     (if rear = front then 0
      else if front < rear then rear - front
      else rear + (RING_BUFFER_SIZE - 1) - front + 1)"

definition GetFreeSize :: "RingQ \<Rightarrow> int" where
  "GetFreeSize q =
     (let copyFront = m_Front q; copyRear = m_Rear q in
      if (copyRear + 1) smod RING_BUFFER_SIZE = copyFront then 0
      else if copyFront > copyRear then copyFront - copyRear - 1
      else copyFront + (RING_BUFFER_SIZE - 1) - copyRear)"

definition GetUsedSize :: "RingQ \<Rightarrow> int" where
  "GetUsedSize q =
     (let copyRear = m_Rear q; copyFront = m_Front q in
      if copyRear = copyFront then 0
      else if copyFront < copyRear then copyRear - copyFront
      else copyRear + (RING_BUFFER_SIZE - 1) - copyFront + 1)"

definition GetDirectEnqueueSize_at :: "int \<Rightarrow> int \<Rightarrow> int" where
  "GetDirectEnqueueSize_at copyFront copyRear =
     (if (copyRear + 1) smod RING_BUFFER_SIZE = copyFront then 0
      else let rearNext = (copyRear + 1) smod RING_BUFFER_SIZE in
           if rearNext < copyFront then copyFront - rearNext
           else (RING_BUFFER_SIZE - 1) - rearNext + 1)"

definition GetDirectDequeueSize_at :: "int \<Rightarrow> int \<Rightarrow> int" where
  "GetDirectDequeueSize_at copyFront copyRear =
     (if copyFront = copyRear then 0
      else let nextFront = (copyFront + 1) smod RING_BUFFER_SIZE in
           if nextFront \<le> copyRear then copyRear - nextFront + 1
           else (RING_BUFFER_SIZE - 1) - nextFront + 1)"

definition GetDirectEnqueueSize :: "RingQ \<Rightarrow> int" where
  "GetDirectEnqueueSize q =
     (let copyFront = m_Front q; copyRear = m_Rear q in
      if (copyRear + 1) smod RING_BUFFER_SIZE = copyFront then 0
      else let rearNext = (copyRear + 1) smod RING_BUFFER_SIZE in
           if rearNext < copyFront then copyFront - rearNext
           else (RING_BUFFER_SIZE - 1) - rearNext + 1)"

definition GetDirectDequeueSize :: "RingQ \<Rightarrow> int" where
  "GetDirectDequeueSize q =
     (let copyRear = m_Rear q; copyFront = m_Front q in
      if copyFront = copyRear then 0
      else let nextFront = (copyFront + 1) smod RING_BUFFER_SIZE in
           if nextFront \<le> copyRear then copyRear - nextFront + 1
           else (RING_BUFFER_SIZE - 1) - nextFront + 1)"

subsection \<open>Pointers and moves\<close>

definition GetFrontBufferPtr_at :: "int \<Rightarrow> int \<Rightarrow> int option" where
  "GetFrontBufferPtr_at copyFront copyRear =
     (if copyRear = copyFront then None else Some ((copyFront + 1) smod RING_BUFFER_SIZE))"

definition GetRearBufferPtr_at :: "int \<Rightarrow> int \<Rightarrow> int option" where
  "GetRearBufferPtr_at copyFront copyRear =
     (if (copyRear + 1) smod RING_BUFFER_SIZE = copyFront then None
      else Some ((copyRear + 1) smod RING_BUFFER_SIZE))"

definition GetFrontBufferPtr :: "RingQ \<Rightarrow> int option" where
  "GetFrontBufferPtr q =
     (let copyRear = m_Rear q; copyFront = m_Front q in
      if copyRear = copyFront then None else Some ((copyFront + 1) smod RING_BUFFER_SIZE))"

definition GetRearBufferPtr :: "RingQ \<Rightarrow> int option" where
  "GetRearBufferPtr q =
     (let copyFront = m_Front q; copyRear = m_Rear q in
      if (copyRear + 1) smod RING_BUFFER_SIZE = copyFront then None
      else Some ((copyRear + 1) smod RING_BUFFER_SIZE))"

definition GetFront :: "RingQ \<Rightarrow> int" where
  "GetFront q = m_Front q"

definition GetRear :: "RingQ \<Rightarrow> int" where
  "GetRear q = m_Rear q"

definition ClearBuffer :: "RingQ \<Rightarrow> RingQ" where
  "ClearBuffer q = q\<lparr>m_Front := 0, m_Rear := 0\<rparr>"

definition MoveRear :: "int \<Rightarrow> RingQ \<Rightarrow> RingQ" where
  "MoveRear sz q =
     (if sz < 0 then q
      else let copyRear = m_Rear q in q\<lparr>m_Rear := (copyRear + sz) smod RING_BUFFER_SIZE\<rparr>)"

definition MoveFront :: "int \<Rightarrow> RingQ \<Rightarrow> RingQ" where
  "MoveFront sz q =
     (if sz < 0 then q
      else let copyFront = m_Front q in q\<lparr>m_Front := (copyFront + sz) smod RING_BUFFER_SIZE\<rparr>)"

definition MoveFrontTest :: "int \<Rightarrow> RingQ \<Rightarrow> RingQ" where
  "MoveFrontTest sz q =
     (if sz < 0 then q
      else let copyFront = m_Front q in q\<lparr>m_Front := (copyFront + sz) smod RING_BUFFER_SIZE\<rparr>)"

definition GetDirectEnQData :: "RingQ \<Rightarrow> DirectData" where
  "GetDirectEnQData q =
     (let copyFront = m_Front q; copyRear = m_Rear q;
          ptr1 = GetRearBufferPtr_at copyFront copyRear;
          directEnQSize = GetDirectEnqueueSize_at copyFront copyRear;
          copyRear = (copyRear + directEnQSize) smod RING_BUFFER_SIZE
      in \<lparr>Direct1 = directEnQSize,
          Direct2 = GetDirectEnqueueSize_at copyFront copyRear,
          bufferPtr1 = ptr1,
          bufferPtr2 = GetRearBufferPtr_at copyFront copyRear\<rparr>)"

definition GetDirectDeQData :: "RingQ \<Rightarrow> DirectData" where
  "GetDirectDeQData q =
     (let copyRear = m_Rear q; copyFront = m_Front q;
          ptr1 = GetFrontBufferPtr_at copyFront copyRear;
          directDeQSize = GetDirectDequeueSize_at copyFront copyRear;
          copyFront = (copyFront + directDeQSize) smod RING_BUFFER_SIZE
      in \<lparr>Direct1 = directDeQSize,
          Direct2 = GetDirectDequeueSize_at copyFront copyRear,
          bufferPtr1 = ptr1,
          bufferPtr2 = GetFrontBufferPtr_at copyFront copyRear\<rparr>)"

text \<open>The overload for debugging takes a session pointer it does not use.\<close>

definition GetDirectDeQData_session :: "'ptr \<Rightarrow> RingQ \<Rightarrow> DirectData" where
  "GetDirectDeQData_session curSession q =
     (let copyRear = m_Rear q; copyFront = m_Front q;
          ptr1 = GetFrontBufferPtr_at copyFront copyRear;
          directDeQSize = GetDirectDequeueSize_at copyFront copyRear;
          copyFront = (copyFront + directDeQSize) smod RING_BUFFER_SIZE
      in \<lparr>Direct1 = directDeQSize,
          Direct2 = GetDirectDequeueSize_at copyFront copyRear,
          bufferPtr1 = ptr1,
          bufferPtr2 = GetFrontBufferPtr_at copyFront copyRear\<rparr>)"

subsection \<open>Copies in and out\<close>

definition Enqueue :: "RingQ \<Rightarrow> byte list \<Rightarrow> int \<Rightarrow> (int \<times> RingQ) run" where
  "Enqueue q buffer sz =
     (let copyFront = m_Front q; copyRear = m_Rear q;
          copyFreeSize = GetFreeSize_at copyFront copyRear;
          sz' = (if copyFreeSize < sz then copyFreeSize else sz)
      in if copyFreeSize < sz \<and> sz' \<le> 0 then Inr (0, q)
         else
           let directSize = GetDirectEnqueueSize_at copyFront copyRear;
               copyRear = (copyRear + 1) smod RING_BUFFER_SIZE
           in if directSize < sz' then
                bnd (memcpy_out buffer 0 directSize) (\<lambda>part1.
                bnd (memcpy_in (ring_Buffer q) copyRear part1) (\<lambda>buf1.
                  let copyRear = (copyRear + directSize - 1) smod RING_BUFFER_SIZE;
                      diff = sz' - directSize;
                      copyRear = (copyRear + 1) smod RING_BUFFER_SIZE
                  in bnd (memcpy_out buffer directSize diff) (\<lambda>part2.
                     bnd (memcpy_in buf1 copyRear part2) (\<lambda>buf2.
                       Inr (sz', q\<lparr>ring_Buffer := buf2,
                                   m_Rear := (copyRear + diff - 1) smod RING_BUFFER_SIZE\<rparr>)))))
              else
                bnd (memcpy_out buffer 0 sz') (\<lambda>part.
                bnd (memcpy_in (ring_Buffer q) copyRear part) (\<lambda>buf1.
                  Inr (sz', q\<lparr>ring_Buffer := buf1,
                              m_Rear := (copyRear + sz' - 1) smod RING_BUFFER_SIZE\<rparr>))))"

definition Dequeue :: "RingQ \<Rightarrow> byte list \<Rightarrow> int \<Rightarrow> int \<Rightarrow> (int \<times> byte list \<times> RingQ) run" where
  "Dequeue q dest at sz =
     (let copyRear = m_Rear q; copyFront = m_Front q;
          copyUsedSize = GetUsedSize_at copyFront copyRear;
          sz' = (if copyUsedSize < sz then copyUsedSize else sz)
      in if copyUsedSize < sz \<and> sz' \<le> 0 then Inr (0, dest, q)
         else
           let directSize = GetDirectDequeueSize_at copyFront copyRear;
               copyFront = (copyFront + 1) smod RING_BUFFER_SIZE
           in if directSize < sz' then
                bnd (memcpy_out (ring_Buffer q) copyFront directSize) (\<lambda>part1.
                bnd (memcpy_in dest at part1) (\<lambda>dest1.
                  let copyFront = (copyFront + directSize - 1) smod RING_BUFFER_SIZE;
                      diff = sz' - directSize;
                      copyFront = (copyFront + 1) smod RING_BUFFER_SIZE
                  in bnd (memcpy_out (ring_Buffer q) copyFront diff) (\<lambda>part2.
                     bnd (memcpy_in dest1 (at + directSize) part2) (\<lambda>dest2.
                       Inr (sz', dest2,
                            q\<lparr>m_Front := (copyFront + diff - 1) smod RING_BUFFER_SIZE\<rparr>)))))
              else
                bnd (memcpy_out (ring_Buffer q) copyFront sz') (\<lambda>part.
                bnd (memcpy_in dest at part) (\<lambda>dest1.
                  Inr (sz', dest1,
                       q\<lparr>m_Front := (copyFront + sz' - 1) smod RING_BUFFER_SIZE\<rparr>))))"

definition Peek :: "RingQ \<Rightarrow> byte list \<Rightarrow> int \<Rightarrow> int \<Rightarrow> (int \<times> byte list) run" where
  "Peek q dest at sz =
     (let copyRear = m_Rear q; copyFront = m_Front q;
          tempUsedSize = GetUsedSize_at copyFront copyRear;
          sz' = (if tempUsedSize < sz then tempUsedSize else sz)
      in if tempUsedSize < sz \<and> sz' \<le> 0 then Inr (0, dest)
         else
           let directSize = GetDirectDequeueSize q;
               copyFront = (copyFront + 1) smod RING_BUFFER_SIZE
           in if directSize < sz' then
                bnd (memcpy_out (ring_Buffer q) copyFront directSize) (\<lambda>part1.
                bnd (memcpy_in dest at part1) (\<lambda>dest1.
                  let copyFront = (copyFront + directSize - 1) smod RING_BUFFER_SIZE;
                      diff = sz' - directSize;
                      copyFront = (copyFront + 1) smod RING_BUFFER_SIZE
                  in bnd (memcpy_out (ring_Buffer q) copyFront diff) (\<lambda>part2.
                     bnd (memcpy_in dest1 (at + directSize) part2) (\<lambda>dest2.
                       Inr (sz', dest2)))))
              else
                bnd (memcpy_out (ring_Buffer q) copyFront sz') (\<lambda>part.
                bnd (memcpy_in dest at part) (\<lambda>dest1. Inr (sz', dest1))))"

text \<open>The debugging overload of \<^const>\<open>Enqueue\<close>: the same text, with an unused session pointer.\<close>

definition Enqueue_session :: "'ptr \<Rightarrow> RingQ \<Rightarrow> byte list \<Rightarrow> int \<Rightarrow> (int \<times> RingQ) run" where
  "Enqueue_session curSession q buffer sz = Enqueue q buffer sz"


section \<open>Circular reads and writes\<close>

text \<open>
  What the two block copies of an operation that wraps around amount to: a read of \<open>n\<close> bytes
  from \<open>p\<close> on, and a write of a byte list at \<open>p\<close>, both modulo the length of the array.
\<close>

definition ring_read :: "'a list \<Rightarrow> nat \<Rightarrow> nat \<Rightarrow> 'a list" where
  "ring_read buf p n = map (\<lambda>k. buf ! ((p + k) mod length buf)) [0..<n]"

definition ring_write :: "'a list \<Rightarrow> nat \<Rightarrow> 'a list \<Rightarrow> 'a list" where
  "ring_write buf p bs =
     map (\<lambda>j. let k = (j + length buf - p) mod length buf
              in if k < length bs then bs ! k else buf ! j) [0..<length buf]"

named_theorems ring_simps \<open>equations about circular reads and writes\<close>

lemma length_ring_read [simp]: "length (ring_read buf p n) = n"
  by (simp add: ring_read_def)

lemma length_ring_write [simp]: "length (ring_write buf p bs) = length buf"
  by (simp add: ring_write_def)

lemma ring_read_0 [simp]: "ring_read buf p 0 = []"
  by (simp add: ring_read_def)

lemma ring_read_mod [ring_simps]: "ring_read buf (p mod length buf) n = ring_read buf p n"
  by (simp add: ring_read_def mod_add_left_eq)

lemma ring_read_add: "ring_read buf p (m + n) = ring_read buf p m @ ring_read buf (p + m) n"
  by (rule nth_equalityI) (auto simp: ring_read_def nth_append add.assoc)

lemma take_ring_read [ring_simps]: "m \<le> n \<Longrightarrow> take m (ring_read buf p n) = ring_read buf p m"
  by (simp add: ring_read_def take_map)

lemma drop_ring_read [ring_simps]:
  "m \<le> n \<Longrightarrow> drop m (ring_read buf p n) = ring_read buf (p + m) (n - m)"
  using ring_read_add [of buf p m "n - m"] by simp

lemma ring_read_direct [ring_simps]:
  "p + n \<le> length buf \<Longrightarrow> ring_read buf p n = take n (drop p buf)"
  by (rule nth_equalityI) (auto simp: ring_read_def)

lemma ring_read_wrap [ring_simps]:
  assumes "p + m = length buf" and "n \<le> length buf"
  shows "ring_read buf p (m + n) = take m (drop p buf) @ take n buf"
proof -
  have "ring_read buf (length buf) n = ring_read buf 0 n"
    using ring_read_mod [of buf "length buf" n] by simp
  then show ?thesis
    using assms by (simp add: ring_read_add ring_read_direct)
qed

lemma ring_offset:
  assumes "j < N" and "p < (N::nat)"
  shows "(j + N - p) mod N = (if p \<le> j then j - p else j + N - p)"
proof (cases "p \<le> j")
  case True
  then have "j + N - p = (j - p) + N" by simp
  then have "(j + N - p) mod N = (j - p) mod N" by simp
  with True assms show ?thesis by simp
qed (use assms in simp)

lemma ring_offset_mod:
  assumes "i < N" and "u \<le> (N::nat)" and "0 < N"
  shows "((f + i) mod N + N - (f + u) mod N) mod N = (if u \<le> i then i - u else i + N - u)"
proof -
  have le: "(f + u) mod N \<le> N" using assms(3) by (simp add: less_imp_le)
  have "int (((f + i) mod N + N - (f + u) mod N) mod N)
        = (int ((f + i) mod N) + int N - int ((f + u) mod N)) mod int N"
    using le by (simp add: zmod_int of_nat_diff)
  also have "\<dots> = (int (f + i) mod int N + int N - int (f + u) mod int N) mod int N"
    by (simp only: zmod_int)
  also have "\<dots> = (int (f + i) mod int N - int (f + u) mod int N + int N) mod int N"
    by (simp only: algebra_simps)
  also have "\<dots> = (int (f + i) - int (f + u)) mod int N"
    by (simp only: mod_add_self2 mod_diff_eq)
  also have "\<dots> = (int i - int u + int N) mod int N"
    by (simp only: mod_add_self2) simp
  also have "\<dots> = int (if u \<le> i then i - u else i + N - u)"
  proof (cases "u \<le> i")
    case False
    then have "(int i - int u + int N) mod int N = int i - int u + int N"
      using assms by (intro mod_pos_pos_trivial) simp_all
    with False assms show ?thesis by (simp add: of_nat_diff)
  qed (use assms in \<open>simp add: of_nat_diff\<close>)
  finally show ?thesis by (simp only: of_nat_eq_iff)
qed

lemma ring_write_direct [ring_simps]:
  assumes "p + length bs \<le> length buf" and "p < length buf"
  shows "mem_write buf p bs = ring_write buf p bs"
proof (rule nth_equalityI)
  show "length (mem_write buf p bs) = length (ring_write buf p bs)" using assms by simp
next
  fix j assume "j < length (mem_write buf p bs)"
  then have j: "j < length buf" using assms by simp
  have k: "(j + length buf - p) mod length buf = (if p \<le> j then j - p else j + length buf - p)"
    using j assms(2) by (rule ring_offset)
  show "mem_write buf p bs ! j = ring_write buf p bs ! j"
    using j assms by (auto simp: nth_mem_write ring_write_def Let_def k)
qed

lemma ring_write_Nil [simp]: "p < length buf \<Longrightarrow> ring_write buf p [] = buf"
  using ring_write_direct [of p "[]" buf] by simp

lemma ring_write_wrap [ring_simps]:
  assumes "p + length xs = length buf" and "length ys \<le> p" and "p < length buf"
  shows "mem_write (mem_write buf p xs) 0 ys = ring_write buf p (xs @ ys)"
proof (rule nth_equalityI)
  show "length (mem_write (mem_write buf p xs) 0 ys) = length (ring_write buf p (xs @ ys))"
    using assms by simp
next
  fix j assume "j < length (mem_write (mem_write buf p xs) 0 ys)"
  then have j: "j < length buf" using assms by simp
  have k: "(j + length buf - p) mod length buf = (if p \<le> j then j - p else j + length buf - p)"
    using j assms(3) by (rule ring_offset)
  show "mem_write (mem_write buf p xs) 0 ys ! j = ring_write buf p (xs @ ys) ! j"
    using j assms by (auto simp: nth_mem_write ring_write_def Let_def k nth_append)
qed

lemma ring_read_write:
  assumes f: "f < length buf" and room: "u + length bs \<le> length buf"
  shows "ring_read (ring_write buf ((f + u) mod length buf) bs) f (u + length bs)
         = ring_read buf f u @ bs"
proof (rule nth_equalityI)
  let ?N = "length buf" and ?p = "(f + u) mod length buf"
  fix i assume "i < length (ring_read (ring_write buf ?p bs) f (u + length bs))"
  then have i: "i < u + length bs" by simp
  have N: "0 < ?N" using f by (cases buf) simp_all
  then have j: "(f + i) mod ?N < ?N" by (rule mod_less_divisor)
  have k: "((f + i) mod ?N + ?N - ?p) mod ?N = (if u \<le> i then i - u else i + ?N - u)"
    using i room N by (intro ring_offset_mod) simp_all
  show "ring_read (ring_write buf ?p bs) f (u + length bs) ! i = (ring_read buf f u @ bs) ! i"
    using i j room by (auto simp: ring_read_def ring_write_def nth_append Let_def k)
qed simp

section \<open>The ring as a queue of bytes\<close>

text \<open>
  The promise of the component: behind the two indices there is a byte string, \<open>contents\<close>;
  \<^const>\<open>Enqueue\<close> appends to it, \<^const>\<open>Dequeue\<close> takes its head off, \<^const>\<open>Peek\<close> copies the head
  and changes nothing.
\<close>

definition ring_inv :: "RingQ \<Rightarrow> bool" where
  "ring_inv q \<longleftrightarrow>
     0 \<le> m_Front q \<and> m_Front q < RING_BUFFER_SIZE \<and>
     0 \<le> m_Rear q \<and> m_Rear q < RING_BUFFER_SIZE \<and>
     length (ring_Buffer q) = nat RING_BUFFER_SIZE"

definition contents :: "RingQ \<Rightarrow> byte list" where
  "contents q =
     ring_read (ring_Buffer q) (nat ((m_Front q + 1) mod RING_BUFFER_SIZE)) (nat (GetUsedSize q))"

named_theorems size_simps \<open>the size functions as arithmetic modulo the ring length\<close>

lemma GetUsedSize_at_mod [size_simps]:
  assumes "0 \<le> f" "f < RING_BUFFER_SIZE" "0 \<le> r" "r < RING_BUFFER_SIZE"
  shows "GetUsedSize_at f r = (r - f) mod RING_BUFFER_SIZE"
proof (cases "f \<le> r")
  case False
  have "(r - f) mod RING_BUFFER_SIZE = (r - f + RING_BUFFER_SIZE) mod RING_BUFFER_SIZE" by simp
  also have "\<dots> = r - f + RING_BUFFER_SIZE"
    using False assms by (intro mod_pos_pos_trivial) simp_all
  finally show ?thesis using False by (simp add: GetUsedSize_at_def)
qed (use assms in \<open>auto simp: GetUsedSize_at_def\<close>)

lemma smod_succ [size_simps]:
  assumes "0 \<le> r" "r < RING_BUFFER_SIZE"
  shows "(r + 1) smod RING_BUFFER_SIZE = (if r = RING_BUFFER_SIZE - 1 then 0 else r + 1)"
  using assms by (auto simp: smod_nonneg RING_BUFFER_SIZE_def)

lemma mod_succ:
  assumes "0 \<le> r" "r < RING_BUFFER_SIZE"
  shows "(r + 1) mod RING_BUFFER_SIZE = (if r = RING_BUFFER_SIZE - 1 then 0 else r + 1)"
  using assms by (auto simp: RING_BUFFER_SIZE_def)

lemma GetFreeSize_at_used [size_simps]:
  assumes "0 \<le> f" "f < RING_BUFFER_SIZE" "0 \<le> r" "r < RING_BUFFER_SIZE"
  shows "GetFreeSize_at f r = RING_BUFFER_SIZE - 1 - GetUsedSize_at f r"
  using assms by (auto simp: GetFreeSize_at_def GetUsedSize_at_def smod_succ)

lemma GetDirectEnqueueSize_at_min [size_simps]:
  assumes "0 \<le> f" "f < RING_BUFFER_SIZE" "0 \<le> r" "r < RING_BUFFER_SIZE"
  shows "GetDirectEnqueueSize_at f r =
           min (GetFreeSize_at f r) (RING_BUFFER_SIZE - (r + 1) mod RING_BUFFER_SIZE)"
  using assms
  by (auto simp: GetDirectEnqueueSize_at_def GetFreeSize_at_def smod_succ mod_succ Let_def
      min_def)

lemma GetDirectDequeueSize_at_min [size_simps]:
  assumes "0 \<le> f" "f < RING_BUFFER_SIZE" "0 \<le> r" "r < RING_BUFFER_SIZE"
  shows "GetDirectDequeueSize_at f r =
           min (GetUsedSize_at f r) (RING_BUFFER_SIZE - (f + 1) mod RING_BUFFER_SIZE)"
  using assms
  by (auto simp: GetDirectDequeueSize_at_def GetUsedSize_at_def smod_succ mod_succ Let_def
      min_def)

lemma size_members:
  "GetFreeSize q = GetFreeSize_at (m_Front q) (m_Rear q)"
  "GetUsedSize q = GetUsedSize_at (m_Front q) (m_Rear q)"
  "GetDirectEnqueueSize q = GetDirectEnqueueSize_at (m_Front q) (m_Rear q)"
  "GetDirectDequeueSize q = GetDirectDequeueSize_at (m_Front q) (m_Rear q)"
  by (simp_all only: GetFreeSize_def GetFreeSize_at_def GetUsedSize_def GetUsedSize_at_def
      GetDirectEnqueueSize_def GetDirectEnqueueSize_at_def GetDirectDequeueSize_def
      GetDirectDequeueSize_at_def Let_def)

lemma ring_size_pos [simp]: "0 < RING_BUFFER_SIZE"
  by (simp add: RING_BUFFER_SIZE_def)

lemma used_bounds:
  assumes "ring_inv q"
  shows "0 \<le> GetUsedSize q" "GetUsedSize q < RING_BUFFER_SIZE"
  using assms pos_mod_bound [of RING_BUFFER_SIZE] pos_mod_sign [of RING_BUFFER_SIZE]
  by (simp_all add: size_members GetUsedSize_at_mod ring_inv_def)

lemma used_eq: "ring_inv q \<Longrightarrow> GetUsedSize q = (m_Rear q - m_Front q) mod RING_BUFFER_SIZE"
  by (simp add: size_members GetUsedSize_at_mod ring_inv_def)

lemma free_eq: "ring_inv q \<Longrightarrow> GetFreeSize q = RING_BUFFER_SIZE - 1 - GetUsedSize q"
  by (simp add: size_members GetFreeSize_at_used ring_inv_def)

lemma length_contents: "ring_inv q \<Longrightarrow> int (length (contents q)) = GetUsedSize q"
  using used_bounds [of q] by (simp add: contents_def)

lemma smod_back [size_simps]:
  assumes "0 < k" "k \<le> RING_BUFFER_SIZE - (r + 1) mod RING_BUFFER_SIZE"
      and "0 \<le> r" "r < RING_BUFFER_SIZE"
  shows "((r + 1) mod RING_BUFFER_SIZE + k - 1) smod RING_BUFFER_SIZE = (r + k) mod RING_BUFFER_SIZE"
proof -
  have nn: "0 \<le> (r + 1) mod RING_BUFFER_SIZE" by simp
  have "((r + 1) mod RING_BUFFER_SIZE + k - 1) smod RING_BUFFER_SIZE
             = ((r + 1) mod RING_BUFFER_SIZE + (k - 1)) mod RING_BUFFER_SIZE"
    using add_nonneg_pos [OF nn assms(1)] smod_nonneg [of "(r + 1) mod RING_BUFFER_SIZE + (k - 1)" RING_BUFFER_SIZE]
    by (simp add: add_diff_eq less_imp_le)
  also have "\<dots> = (r + 1 + (k - 1)) mod RING_BUFFER_SIZE"
    by (rule mod_add_left_eq)
  finally show ?thesis by simp
qed

lemma smod_last: "(RING_BUFFER_SIZE - 1) smod RING_BUFFER_SIZE = RING_BUFFER_SIZE - 1"
  by (simp add: RING_BUFFER_SIZE_def smod_nonneg)

lemma smod_succ_mod:
  "0 \<le> r \<Longrightarrow> (r + 1) smod RING_BUFFER_SIZE = (r + 1) mod RING_BUFFER_SIZE"
  by (simp add: smod_nonneg less_imp_le)

text \<open>The wrapped case: the first copy ends at the last slot, the second starts at slot 0.\<close>

lemma wrap_indices:
  assumes "d = RING_BUFFER_SIZE - (r + 1) mod RING_BUFFER_SIZE"
      and "0 \<le> r" "r < RING_BUFFER_SIZE" "0 < e" "e < RING_BUFFER_SIZE"
  shows "((r + 1) mod RING_BUFFER_SIZE + d - 1) smod RING_BUFFER_SIZE = RING_BUFFER_SIZE - 1"
    and "(RING_BUFFER_SIZE - 1 + 1) smod RING_BUFFER_SIZE = 0"
    and "(0 + e - 1) smod RING_BUFFER_SIZE = (r + (d + e)) mod RING_BUFFER_SIZE"
proof -
  show "((r + 1) mod RING_BUFFER_SIZE + d - 1) smod RING_BUFFER_SIZE = RING_BUFFER_SIZE - 1"
    using assms(1) by (simp add: smod_last)
  show "(RING_BUFFER_SIZE - 1 + 1) smod RING_BUFFER_SIZE = 0"
    by (simp add: smod_nonneg less_imp_le)
  have "r + (d + e) = (e - 1) + ((r + 1) - (r + 1) mod RING_BUFFER_SIZE) + RING_BUFFER_SIZE"
    using assms(1) by linarith
  then have "(r + (d + e)) mod RING_BUFFER_SIZE
        = ((e - 1) + ((r + 1) - (r + 1) mod RING_BUFFER_SIZE) + RING_BUFFER_SIZE) mod RING_BUFFER_SIZE"
    by (simp only:)
  also have "\<dots> = ((e - 1) + ((r + 1) - (r + 1) mod RING_BUFFER_SIZE)) mod RING_BUFFER_SIZE"
    by (rule mod_add_self2)
  also have "\<dots> = (e - 1) mod RING_BUFFER_SIZE"
    by (simp add: minus_mod_eq_mult_div)
  also have "\<dots> = e - 1" using assms by (simp add: mod_pos_pos_trivial)
  finally show "(0 + e - 1) smod RING_BUFFER_SIZE = (r + (d + e)) mod RING_BUFFER_SIZE"
    using assms by (simp add: smod_nonneg)
qed

lemma slot_bounds:
  "0 \<le> (r + 1) mod RING_BUFFER_SIZE" "(r + 1) mod RING_BUFFER_SIZE < RING_BUFFER_SIZE"
  by simp_all

lemma Enqueue_eq:
  assumes inv: "ring_inv q" and sz: "0 < sz" "sz \<le> int (length src)"
  defines "k \<equiv> min sz (GetFreeSize q)"
  shows "Enqueue q src sz =
    Inr (k, q\<lparr>ring_Buffer := ring_write (ring_Buffer q)
                 (nat ((m_Rear q + 1) mod RING_BUFFER_SIZE)) (take (nat k) src),
              m_Rear := (m_Rear q + k) mod RING_BUFFER_SIZE\<rparr>)"
proof -
  let ?N = RING_BUFFER_SIZE and ?f = "m_Front q" and ?r = "m_Rear q" and ?buf = "ring_Buffer q"
  let ?p = "(?r + 1) mod ?N" and ?free = "GetFreeSize_at ?f ?r"
  let ?d = "GetDirectEnqueueSize_at ?f ?r"
  have bd: "0 \<le> ?f" "?f < ?N" "0 \<le> ?r" "?r < ?N" and len: "length ?buf = nat ?N"
    using inv by (simp_all add: ring_inv_def)
  have p: "0 \<le> ?p" "?p < ?N" by (rule slot_bounds)+
  have free: "0 \<le> ?free" "?free < ?N"
    using used_bounds [OF inv] free_eq [OF inv] by (simp_all add: size_members)
  have d: "?d = min ?free (?N - ?p)" using bd by (rule GetDirectEnqueueSize_at_min)
  have k: "k = min sz ?free" by (simp add: k_def size_members)
  have idx: "(?r + 1) smod ?N = ?p" using bd(3) by (rule smod_succ_mod)
  consider "?free = 0" | "0 < ?free" "?d < k" | "0 < ?free" "k \<le> ?d" using free by linarith
  moreover have kk: "(if ?free < sz then ?free else sz) = k" by (simp add: k)
  moreover have kpos: "0 < ?free \<Longrightarrow> (?free < sz \<and> k \<le> 0) = False" using k sz by auto
  ultimately show ?thesis
  proof cases
    case 1
    then show ?thesis
      using sz bd p len by (simp add: Enqueue_def Let_def k)
  next
    case 2
    then have dp: "?d = ?N - ?p" and e: "0 < k - ?d" "k - ?d < ?N" and d0: "0 \<le> ?d"
      using d k sz free p by linarith+
    note wrap = wrap_indices [OF dp bd(3,4) e]
    have split: "take (nat ?d) src @ take (nat (k - ?d)) (drop (nat ?d) src) = take (nat k) src"
      using 2 d0 by (simp add: take_add [symmetric] nat_add_distrib [symmetric])
    have np: "nat ?p + nat ?d = nat ?N"
      unfolding nat_add_distrib [OF p(1) d0, symmetric] using dp by simp
    have "mem_write (mem_write ?buf (nat ?p) (take (nat ?d) src)) 0
            (take (nat (k - ?d)) (drop (nat ?d) src))
          = ring_write ?buf (nat ?p) (take (nat k) src)"
      unfolding split [symmetric]
    proof (rule ring_write_wrap)
      show "nat ?p + length (take (nat ?d) src) = length ?buf"
      proof -
        have "nat ?d \<le> length src" using 2 k sz by linarith
        then show ?thesis using np len by (simp add: min_absorb2)
      qed
      have "nat (k - ?d) \<le> nat ?p" using dp k free p by (intro nat_mono) linarith
      then show "length (take (nat (k - ?d)) (drop (nat ?d) src)) \<le> nat ?p" by simp
      show "nat ?p < length ?buf" using p len by simp
    qed
    moreover have "memcpy_out src 0 ?d = Inr (take (nat ?d) src)"
      using memcpy_out_ok [of 0 ?d src] d0 2 k sz by simp
    moreover have "memcpy_in ?buf ?p (take (nat ?d) src) = Inr (mem_write ?buf (nat ?p) (take (nat ?d) src))"
      using np len by (intro memcpy_in_ok p(1)) (simp add: min_def)
    moreover have "memcpy_out src ?d (k - ?d) = Inr (take (nat (k - ?d)) (drop (nat ?d) src))"
      using d0 e k sz by (intro memcpy_out_ok) simp_all
    moreover have "memcpy_in (mem_write ?buf (nat ?p) (take (nat ?d) src)) 0
                     (take (nat (k - ?d)) (drop (nat ?d) src))
        = Inr (mem_write (mem_write ?buf (nat ?p) (take (nat ?d) src)) (nat 0)
                 (take (nat (k - ?d)) (drop (nat ?d) src)))"
    proof (intro memcpy_in_ok)
      have "length (mem_write ?buf (nat ?p) (take (nat ?d) src)) = nat ?N"
        using np len by (subst length_mem_write) auto
      then show "nat 0 + length (take (nat (k - ?d)) (drop (nat ?d) src))
                   \<le> length (mem_write ?buf (nat ?p) (take (nat ?d) src))"
        using nat_mono [OF less_imp_le [OF e(2)]] by (simp add: min_le_iff_disj)
    qed simp
    ultimately show ?thesis
      using 2 kpos unfolding Enqueue_def Let_def kk idx wrap
      by (simp only: if_True if_False simp_thms bnd_Inr wrap nat_0 diff_add_cancel add_diff_eq) simp
  next
    case 3
    then have k1: "0 < k" "k \<le> ?N - ?p" "k \<le> int (length src)" and dk: "\<not> ?d < k"
      using d k sz by linarith+
    have np: "nat ?p + nat k \<le> length ?buf"
      unfolding nat_add_distrib [OF p(1) less_imp_le [OF k1(1)], symmetric] len
      using k1 by (intro nat_mono) simp
    have lk: "length (take (nat k) src) = nat k" using k1 by simp
    have "mem_write ?buf (nat ?p) (take (nat k) src) = ring_write ?buf (nat ?p) (take (nat k) src)"
      using np p len lk by (intro ring_write_direct) simp_all
    moreover have "memcpy_out src 0 k = Inr (take (nat k) src)"
      using memcpy_out_ok [of 0 k src] k1 by simp
    moreover have "memcpy_in ?buf ?p (take (nat k) src) = Inr (mem_write ?buf (nat ?p) (take (nat k) src))"
      using np lk by (intro memcpy_in_ok p(1)) simp
    ultimately show ?thesis
      using 3 kpos dk k1(1) unfolding Enqueue_def Let_def kk idx
      by (simp add: smod_back [OF k1(1,2) bd(3,4)])
  qed
qed

text \<open>
  The two copies out of the ring, and the one: \<open>k\<close> bytes of \<^const>\<open>ring_read\<close>.
\<close>

lemma ring_read_two:
  assumes "0 \<le> p" "p < RING_BUFFER_SIZE" "length buf = nat RING_BUFFER_SIZE"
      and "d = RING_BUFFER_SIZE - p" "0 \<le> e" "e < RING_BUFFER_SIZE"
  shows "take (nat d) (drop (nat p) buf) @ take (nat e) (drop 0 buf)
         = ring_read buf (nat p) (nat (d + e))"
proof -
  have "nat p + nat d = length buf"
    using assms by (simp add: nat_add_distrib [symmetric])
  moreover have "nat e \<le> length buf" using assms by simp
  ultimately have "ring_read buf (nat p) (nat d + nat e) = take (nat d) (drop (nat p) buf) @ take (nat e) buf"
    by (rule ring_read_wrap)
  moreover have "nat (d + e) = nat d + nat e" using assms by (intro nat_add_distrib) simp_all
  ultimately show ?thesis by simp
qed

lemma mem_write_two:
  "off + length xs + length ys \<le> length buf \<Longrightarrow>
   mem_write (mem_write buf off xs) (off + length xs) ys = mem_write buf off (xs @ ys)"
  by (simp add: mem_write_def add.assoc add.commute add.left_commute)

lemma Dequeue_eq:
  assumes inv: "ring_inv q" and sz: "0 < sz"
  defines "k \<equiv> min sz (GetUsedSize q)"
  assumes dest: "0 \<le> at" "at + k \<le> int (length dest)"
  shows "Dequeue q dest at sz =
    Inr (k, mem_write dest (nat at) (take (nat k) (contents q)),
         q\<lparr>m_Front := (m_Front q + k) mod RING_BUFFER_SIZE\<rparr>)"
proof -
  let ?N = RING_BUFFER_SIZE and ?f = "m_Front q" and ?r = "m_Rear q" and ?buf = "ring_Buffer q"
  let ?p = "(?f + 1) mod ?N" and ?used = "GetUsedSize_at ?f ?r"
  let ?d = "GetDirectDequeueSize_at ?f ?r"
  have bd: "0 \<le> ?f" "?f < ?N" "0 \<le> ?r" "?r < ?N" and len: "length ?buf = nat ?N"
    using inv by (simp_all add: ring_inv_def)
  have p: "0 \<le> ?p" "?p < ?N" by (rule slot_bounds)+
  have used: "0 \<le> ?used" "?used < ?N"
    using used_bounds [OF inv] by (simp_all add: size_members)
  have d: "?d = min ?used (?N - ?p)" using bd by (rule GetDirectDequeueSize_at_min)
  have k: "k = min sz ?used" by (simp add: k_def size_members)
  have idx: "(?f + 1) smod ?N = ?p" using bd(1) by (rule smod_succ_mod)
  have cont: "take (nat k) (contents q) = ring_read ?buf (nat ?p) (nat k)"
    using k used by (simp add: contents_def size_members take_ring_read)
  consider "?used = 0" | "0 < ?used" "?d < k" | "0 < ?used" "k \<le> ?d" using used by linarith
  moreover have kk: "(if ?used < sz then ?used else sz) = k" by (simp add: k)
  moreover have kpos: "0 < ?used \<Longrightarrow> (?used < sz \<and> k \<le> 0) = False" using k sz by auto
  ultimately show ?thesis
  proof cases
    case 1
    then show ?thesis
      using sz bd p len by (simp add: Dequeue_def Let_def k)
  next
    case 2
    then have dp: "?d = ?N - ?p" and e: "0 < k - ?d" "k - ?d < ?N" and d0: "0 \<le> ?d"
      using d k sz used p by linarith+
    note wrap = wrap_indices [OF dp bd(1,2) e]
    let ?a = "take (nat ?d) (drop (nat ?p) ?buf)" and ?b = "take (nat (k - ?d)) (drop 0 ?buf)"
    have la: "length ?a = nat ?d"
      unfolding dp length_take length_drop len nat_diff_distrib [OF p(1) less_imp_le [OF p(2)]]
      by simp
    have lb: "length ?b = nat (k - ?d)" using e len by simp
    have at: "nat (at + ?d) = nat at + length ?a"
      unfolding la using dest(1) d0 by (rule nat_add_distrib)
    have room: "nat at + length ?a + length ?b \<le> length dest"
    proof -
      have "nat (at + ?d + (k - ?d)) = nat at + nat ?d + nat (k - ?d)"
        using dest(1) d0 e(1) by (simp add: nat_add_distrib)
      then show ?thesis unfolding la lb using dest by simp
    qed
    have "?a @ ?b = ring_read ?buf (nat ?p) (nat k)"
      using ring_read_two [OF p len dp _ e(2)] e(1) by simp
    then have "mem_write (mem_write dest (nat at) ?a) (nat (at + ?d)) ?b
               = mem_write dest (nat at) (take (nat k) (contents q))"
      unfolding at cont using room by (subst mem_write_two) auto
    moreover have "memcpy_out ?buf ?p ?d = Inr ?a"
      using dp len d0 p less_imp_le [OF p(2)] by (intro memcpy_out_ok) auto
    moreover have "memcpy_in dest at ?a = Inr (mem_write dest (nat at) ?a)"
      using room dest(1) by (intro memcpy_in_ok) simp_all
    moreover have "memcpy_out ?buf 0 (k - ?d) = Inr (take (nat (k - ?d)) (drop (nat 0) ?buf))"
      using e len by (intro memcpy_out_ok) simp_all
    moreover have "memcpy_in (mem_write dest (nat at) ?a) (at + ?d) ?b
        = Inr (mem_write (mem_write dest (nat at) ?a) (nat (at + ?d)) ?b)"
    proof (intro memcpy_in_ok)
      have "length (mem_write dest (nat at) ?a) = length dest"
        using room by (intro length_mem_write) simp
      then show "nat (at + ?d) + length ?b \<le> length (mem_write dest (nat at) ?a)"
        unfolding at using room by (simp only:)
    qed (use dest(1) d0 in simp)
    ultimately show ?thesis
      using 2 kpos unfolding Dequeue_def Let_def kk idx wrap
      by (simp only: if_True if_False simp_thms bnd_Inr wrap nat_0 diff_add_cancel add_diff_eq) simp
  next
    case 3
    then have k1: "0 < k" "k \<le> ?N - ?p" and dk: "\<not> ?d < k"
      using d k sz by linarith+
    have np: "nat ?p + nat k \<le> length ?buf"
      unfolding nat_add_distrib [OF p(1) less_imp_le [OF k1(1)], symmetric] len
      using k1 by (intro nat_mono) simp
    let ?a = "take (nat k) (drop (nat ?p) ?buf)"
    have "nat at + nat k = nat (at + k)" using dest k1 by (simp add: nat_add_distrib)
    then have room: "nat at + length ?a \<le> length dest" using np dest by simp
    have "?a = take (nat k) (contents q)"
      unfolding cont using np by (rule ring_read_direct [symmetric])
    moreover have "memcpy_out ?buf ?p k = Inr ?a"
      using k1 len p(1) by (intro memcpy_out_ok) simp_all
    moreover have "memcpy_in dest at ?a = Inr (mem_write dest (nat at) ?a)"
      using room dest(1) by (intro memcpy_in_ok) simp_all
    ultimately show ?thesis
      using 3 kpos dk k1(1) unfolding Dequeue_def Let_def kk idx
      by (simp add: smod_back [OF k1(1,2) bd(1,2)])
  qed
qed

subsection \<open>What the operations promise\<close>

lemma ring_inv_new [simp]: "ring_inv RingQ_new"
  by (simp add: ring_inv_def RingQ_new_def)

lemma ring_inv_moves [intro]:
  assumes "ring_inv q"
  shows "ring_inv (MoveRear k q)" "ring_inv (MoveFront k q)" "ring_inv (ClearBuffer q)"
  using assms by (auto simp: ring_inv_def MoveRear_def MoveFront_def ClearBuffer_def Let_def
      smod_nonneg less_imp_le)

lemma contents_new [simp]: "contents RingQ_new = []"
  by (simp add: contents_def GetUsedSize_def RingQ_new_def)

lemma contents_ClearBuffer [simp]: "contents (ClearBuffer q) = []"
  by (simp add: contents_def GetUsedSize_def ClearBuffer_def)

text \<open>The two state changes every operation reduces to.\<close>

lemma used_after_append:
  assumes "0 \<le> k" "k \<le> RING_BUFFER_SIZE - 1 - (r - f) mod RING_BUFFER_SIZE"
  shows "((r + k) mod RING_BUFFER_SIZE - f) mod RING_BUFFER_SIZE = (r - f) mod RING_BUFFER_SIZE + k"
proof -
  have "((r + k) mod RING_BUFFER_SIZE - f) mod RING_BUFFER_SIZE
        = ((r - f) mod RING_BUFFER_SIZE + k) mod RING_BUFFER_SIZE"
    by (simp only: mod_simps) (simp add: algebra_simps)
  also have "\<dots> = (r - f) mod RING_BUFFER_SIZE + k"
    using assms by (intro mod_pos_pos_trivial) (simp_all add: add_nonneg_nonneg)
  finally show ?thesis .
qed

lemma used_after_drop:
  assumes "0 \<le> k" "k \<le> (r - f) mod RING_BUFFER_SIZE"
  shows "(r - (f + k) mod RING_BUFFER_SIZE) mod RING_BUFFER_SIZE = (r - f) mod RING_BUFFER_SIZE - k"
proof -
  have "(r - (f + k) mod RING_BUFFER_SIZE) mod RING_BUFFER_SIZE
        = ((r - f) mod RING_BUFFER_SIZE - k) mod RING_BUFFER_SIZE"
    by (simp only: mod_simps) (simp add: algebra_simps)
  also have "\<dots> = (r - f) mod RING_BUFFER_SIZE - k"
    using assms pos_mod_bound [OF ring_size_pos, of "r - f"]
    by (intro mod_pos_pos_trivial) linarith+
  finally show ?thesis .
qed

lemma append_step:
  assumes inv: "ring_inv q" and bs: "int (length bs) \<le> GetFreeSize q"
  defines "q' \<equiv> q\<lparr>ring_Buffer := ring_write (ring_Buffer q)
                     (nat ((m_Rear q + 1) mod RING_BUFFER_SIZE)) bs,
                  m_Rear := (m_Rear q + int (length bs)) mod RING_BUFFER_SIZE\<rparr>"
  shows "ring_inv q'" and "contents q' = contents q @ bs"
    and "GetUsedSize q' = GetUsedSize q + int (length bs)"
proof -
  show inv': "ring_inv q'" using inv by (simp add: ring_inv_def q'_def)
  have room: "int (length bs) \<le> RING_BUFFER_SIZE - 1 - (m_Rear q - m_Front q) mod RING_BUFFER_SIZE"
    using bs by (simp add: free_eq [OF inv] used_eq [OF inv])
  show used': "GetUsedSize q' = GetUsedSize q + int (length bs)"
    unfolding used_eq [OF inv] used_eq [OF inv'] using used_after_append [OF _ room]
    by (simp add: q'_def)
  let ?N = "length (ring_Buffer q)" and ?f = "nat ((m_Front q + 1) mod RING_BUFFER_SIZE)"
  have N: "int ?N = RING_BUFFER_SIZE" using inv by (simp add: ring_inv_def less_imp_le)
  have f: "?f < ?N" using inv by (simp add: ring_inv_def)
  have "int ((?f + nat (GetUsedSize q)) mod ?N)
        = ((m_Front q + 1) mod RING_BUFFER_SIZE + GetUsedSize q) mod RING_BUFFER_SIZE"
    using used_bounds [OF inv] by (simp add: zmod_int N)
  also have "\<dots> = (m_Rear q + 1) mod RING_BUFFER_SIZE"
    unfolding used_eq [OF inv] by (simp only: mod_simps) (simp add: algebra_simps)
  finally have p: "nat ((m_Rear q + 1) mod RING_BUFFER_SIZE) = (?f + nat (GetUsedSize q)) mod ?N"
    by simp
  have u: "nat (GetUsedSize q) + length bs \<le> ?N"
    using used_bounds [OF inv] bs N by (simp add: free_eq [OF inv])
  have n: "nat (GetUsedSize q') = nat (GetUsedSize q) + length bs"
    using used' used_bounds [OF inv] by simp
  show "contents q' = contents q @ bs"
    unfolding contents_def n using ring_read_write [OF f u] by (simp add: q'_def p)
qed

lemma drop_step:
  assumes inv: "ring_inv q" and k: "0 \<le> k" "k \<le> GetUsedSize q"
  defines "q' \<equiv> q\<lparr>m_Front := (m_Front q + k) mod RING_BUFFER_SIZE\<rparr>"
  shows "ring_inv q'" and "contents q' = drop (nat k) (contents q)"
    and "GetUsedSize q' = GetUsedSize q - k"
proof -
  show inv': "ring_inv q'" using inv by (simp add: ring_inv_def q'_def)
  show used': "GetUsedSize q' = GetUsedSize q - k"
    using k used_after_drop [of k "m_Rear q" "m_Front q"]
    by (simp add: used_eq [OF inv] used_eq [OF inv']) (simp add: q'_def)
  let ?N = "length (ring_Buffer q)" and ?f = "nat ((m_Front q + 1) mod RING_BUFFER_SIZE)"
  have N: "int ?N = RING_BUFFER_SIZE" using inv by (simp add: ring_inv_def less_imp_le)
  have front': "m_Front q' = (m_Front q + k) mod RING_BUFFER_SIZE" by (simp add: q'_def)
  have "int ((?f + nat k) mod ?N) = ((m_Front q + 1) mod RING_BUFFER_SIZE + k) mod RING_BUFFER_SIZE"
    using k by (simp add: zmod_int N)
  also have "\<dots> = (m_Front q' + 1) mod RING_BUFFER_SIZE"
    unfolding front' by (simp only: mod_simps) (simp add: algebra_simps)
  finally have p: "nat ((m_Front q' + 1) mod RING_BUFFER_SIZE) = (?f + nat k) mod ?N"
    by simp
  have n: "nat (GetUsedSize q') = nat (GetUsedSize q) - nat k"
    using used' k by (simp add: nat_diff_distrib)
  have "contents q' = ring_read (ring_Buffer q) ((?f + nat k) mod ?N) (nat (GetUsedSize q) - nat k)"
    unfolding contents_def n p by (simp add: q'_def)
  also have "\<dots> = drop (nat k) (contents q)"
    unfolding contents_def ring_read_mod using k by (simp add: drop_ring_read nat_mono)
  finally show "contents q' = drop (nat k) (contents q)" .
qed

lemma length_take_free:
  "0 < sz \<Longrightarrow> sz \<le> int (length src) \<Longrightarrow> 0 \<le> g \<Longrightarrow>
   int (length (take (nat (min sz g)) src)) = min sz g"
  by (subst length_take, subst min_absorb2) (linarith, simp)

lemma free_nonneg: "ring_inv q \<Longrightarrow> 0 \<le> GetFreeSize q"
  using used_bounds [of q] by (simp add: free_eq)

lemma Enqueue_step:
  assumes "ring_inv q" "0 < sz" "sz \<le> int (length src)"
  obtains q' where "Enqueue q src sz = Inr (min sz (GetFreeSize q), q')" and "ring_inv q'"
    and "contents q' = contents q @ take (nat (min sz (GetFreeSize q))) src"
    and "m_Front q' = m_Front q"
proof -
  let ?k = "min sz (GetFreeSize q)" and ?bs = "take (nat (min sz (GetFreeSize q))) src"
  have l: "int (length ?bs) = ?k"
    using assms free_nonneg by (intro length_take_free) simp_all
  have free: "int (length ?bs) \<le> GetFreeSize q" unfolding l by simp
  show thesis
    using that Enqueue_eq [OF assms] append_step(1,2) [OF assms(1) free] unfolding l by simp
qed

lemma Dequeue_step:
  assumes "ring_inv q" "0 < sz" "0 \<le> at" "at + min sz (GetUsedSize q) \<le> int (length dest)"
  obtains q' where "Dequeue q dest at sz =
      Inr (min sz (GetUsedSize q),
           mem_write dest (nat at) (take (nat (min sz (GetUsedSize q))) (contents q)), q')"
    and "ring_inv q'"
    and "contents q' = drop (nat (min sz (GetUsedSize q))) (contents q)"
    and "ring_Buffer q' = ring_Buffer q" "m_Rear q' = m_Rear q"
proof -
  let ?k = "min sz (GetUsedSize q)"
  have k: "0 \<le> ?k" "?k \<le> GetUsedSize q" using assms used_bounds [of q] by simp_all
  show thesis
    using that Dequeue_eq [OF assms] drop_step(1,2) [OF assms(1) k] by simp
qed

subsection \<open>The ring provides the byte stream contract\<close>

definition ring_put :: "RingQ \<Rightarrow> byte list \<Rightarrow> (int \<times> RingQ) run" where
  "ring_put q bs = Enqueue q bs (int (length bs))"

definition ring_get :: "RingQ \<Rightarrow> nat \<Rightarrow> (byte list \<times> RingQ) run" where
  "ring_get q n = bnd (Dequeue q (replicate n 0) 0 (int n))
     (\<lambda>(k, dest, q'). Inr (take (nat k) dest, q'))"

interpretation ring_stream: byte_stream ring_inv contents "nat (RING_BUFFER_SIZE - 1)" ring_put ring_get
proof unfold_locales
  fix q assume inv: "ring_inv q"
  show "length (contents q) \<le> nat (RING_BUFFER_SIZE - 1)"
    using length_contents [OF inv] used_bounds [OF inv] by linarith
next
  fix q bs assume inv: "ring_inv q" and bs: "bs \<noteq> ([] :: byte list)"
  let ?free = "nat (RING_BUFFER_SIZE - 1) - length (contents q)"
  have free: "GetFreeSize q = int ?free"
    using length_contents [OF inv] used_bounds [OF inv] by (simp add: free_eq [OF inv])
  have k: "min (int (length bs)) (GetFreeSize q) = int (min (length bs) ?free)"
    unfolding free by simp
  from inv bs obtain q' where
      "ring_put q bs = Inr (int (min (length bs) ?free), q')" "ring_inv q'"
      "contents q' = contents q @ take (min (length bs) ?free) bs"
    unfolding ring_put_def using Enqueue_step [of q "int (length bs)" bs] by (auto simp: k)
  then show "\<exists>q'. ring_put q bs = Inr (int (min (length bs) ?free), q') \<and> ring_inv q' \<and>
                contents q' = contents q @ take ?free bs"
    by (auto simp: min_def)
next
  fix q and n :: nat assume inv: "ring_inv q" and n: "0 < n"
  have k: "min (int n) (GetUsedSize q) = int (min n (length (contents q)))"
    using length_contents [OF inv] by simp
  from inv n obtain q' where
      "Dequeue q (replicate n 0) 0 (int n) =
         Inr (int (min n (length (contents q))),
              mem_write (replicate n 0) 0 (take (min n (length (contents q))) (contents q)), q')"
      "ring_inv q'" "contents q' = drop (min n (length (contents q))) (contents q)"
    using Dequeue_step [of q "int n" 0 "replicate n 0"] by (auto simp: k)
  then show "\<exists>q'. ring_get q n = Inr (take n (contents q), q') \<and> ring_inv q' \<and>
                contents q' = drop n (contents q)"
    by (auto simp: ring_get_def mem_write_def min_def)
qed

section \<open>Properties\<close>

lemma rear_slot:
  assumes "0 \<le> f" "f < RING_BUFFER_SIZE" "0 \<le> r" "r < RING_BUFFER_SIZE" "0 < GetFreeSize_at f r"
  shows "GetRearBufferPtr_at f r = Some ((r + 1) mod RING_BUFFER_SIZE)"
  using assms by (auto simp: GetRearBufferPtr_at_def GetFreeSize_at_def smod_succ_mod)

lemma direct_segments:
  assumes inv: "ring_inv q"
  defines "d \<equiv> GetDirectEnQData q"
  shows "Direct1 d = min (GetFreeSize q) (RING_BUFFER_SIZE - (m_Rear q + 1) mod RING_BUFFER_SIZE)"
    and "Direct1 d + Direct2 d = GetFreeSize q"
    and "0 < GetFreeSize q \<Longrightarrow> bufferPtr1 d = Some ((m_Rear q + 1) mod RING_BUFFER_SIZE)"
    and "0 < Direct2 d \<Longrightarrow> bufferPtr2 d = Some 0"
proof -
  let ?N = RING_BUFFER_SIZE and ?f = "m_Front q" and ?r = "m_Rear q"
  let ?p = "(?r + 1) mod ?N" and ?d = "GetDirectEnqueueSize_at ?f ?r"
  let ?r2 = "(?r + ?d) mod ?N"
  have bd: "0 \<le> ?f" "?f < ?N" "0 \<le> ?r" "?r < ?N" using inv by (simp_all add: ring_inv_def)
  have bd2: "0 \<le> ?r2" "?r2 < ?N" by simp_all
  have p: "0 \<le> ?p" "?p < ?N" by (rule slot_bounds)+
  note free0 = free_nonneg [OF inv]
  have d: "?d = min (GetFreeSize q) (?N - ?p)"
    using GetDirectEnqueueSize_at_min [OF bd] by (simp only: size_members)
  have d0: "0 \<le> ?d" unfolding d using free0 less_imp_le [OF p(2)] by simp
  have eq: "d = \<lparr>Direct1 = ?d, Direct2 = GetDirectEnqueueSize_at ?f ?r2,
              bufferPtr1 = GetRearBufferPtr_at ?f ?r, bufferPtr2 = GetRearBufferPtr_at ?f ?r2\<rparr>"
    using bd d0 by (simp add: d_def GetDirectEnQData_def Let_def smod_nonneg less_imp_le)
  have "?d \<le> ?N - 1 - (?r - ?f) mod ?N"
    using d free_eq [OF inv] used_eq [OF inv] by linarith
  from used_after_append [OF d0 this]
  have free2: "GetFreeSize_at ?f ?r2 = GetFreeSize q - ?d"
    unfolding GetFreeSize_at_used [OF bd(1,2) bd2] GetUsedSize_at_mod [OF bd(1,2) bd2]
    using free_eq [OF inv] used_eq [OF inv] by simp
  have slot2: "(?r2 + 1) mod ?N = 0" if "?d < GetFreeSize q"
  proof -
    have "?d = ?N - ?p" using that d by linarith
    then have "?r + ?d + 1 = (?r + 1) - ?p + ?N" by linarith
    then have "(?r + ?d + 1) mod ?N = ((?r + 1) - ?p) mod ?N" by (simp only: mod_add_self2)
    also have "\<dots> = 0" by (simp add: minus_mod_eq_mult_div)
    finally show ?thesis by (simp only: mod_simps)
  qed
  show "Direct1 d = min (GetFreeSize q) (?N - ?p)" by (simp add: eq d)
  have two: "GetDirectEnqueueSize_at ?f ?r2 = GetFreeSize q - ?d"
  proof (cases "?d < GetFreeSize q")
    case True
    have "GetFreeSize q < ?N" using used_bounds [OF inv] by (simp add: free_eq [OF inv])
    then show ?thesis
      unfolding GetDirectEnqueueSize_at_min [OF bd(1,2) bd2] free2 slot2 [OF True] using d0 by simp
  next
    case False
    then have "?d = GetFreeSize q" using d by linarith
    moreover have "0 \<le> ?N - (?r2 + 1) mod ?N" using slot_bounds(2) [of ?r2] by linarith
    ultimately show ?thesis unfolding GetDirectEnqueueSize_at_min [OF bd(1,2) bd2] free2 by simp
  qed
  then show "Direct1 d + Direct2 d = GetFreeSize q" by (simp add: eq)
  show "0 < GetFreeSize q \<Longrightarrow> bufferPtr1 d = Some ?p"
    using rear_slot [OF bd] by (simp add: eq size_members)
  assume "0 < Direct2 d"
  then have pos: "?d < GetFreeSize q" using two by (simp add: eq)
  then show "bufferPtr2 d = Some 0"
    using rear_slot [OF bd(1,2) bd2] slot2 [OF pos] by (simp add: eq free2)
qed

text \<open>
  What an overlapped receive into the two segments leaves: \<^verbatim>\<open>WSARecv\<close> fills the buffers of its
  array in order, so the first segment is filled before the second.
\<close>

definition wsabuf_fill :: "DirectData \<Rightarrow> byte list \<Rightarrow> byte list \<Rightarrow> byte list" where
  "wsabuf_fill d bs buf =
     (let part1 = take (nat (Direct1 d)) bs; part2 = drop (nat (Direct1 d)) bs;
          buf1 = (case bufferPtr1 d of None \<Rightarrow> buf | Some p \<Rightarrow> mem_write buf (nat p) part1)
      in (case bufferPtr2 d of None \<Rightarrow> buf1 | Some p \<Rightarrow> mem_write buf1 (nat p) part2))"

lemma fill_is_ring_write:
  assumes inv: "ring_inv q" and len: "0 < int (length bs)" "int (length bs) \<le> GetFreeSize q"
  shows "wsabuf_fill (GetDirectEnQData q) bs (ring_Buffer q)
         = ring_write (ring_Buffer q) (nat ((m_Rear q + 1) mod RING_BUFFER_SIZE)) bs"
proof -
  let ?d = "GetDirectEnQData q" and ?N = RING_BUFFER_SIZE and ?buf = "ring_Buffer q"
  let ?p = "(m_Rear q + 1) mod ?N"
  have L: "length ?buf = nat ?N" using inv by (simp add: ring_inv_def)
  have p: "0 \<le> ?p" "?p < ?N" by (rule slot_bounds)+
  note seg = direct_segments [OF inv]
  have p1: "bufferPtr1 ?d = Some ?p" using seg(3) len by simp
  have plt: "nat ?p < length ?buf" using p L by simp
  show ?thesis
  proof (cases "int (length bs) \<le> Direct1 ?d")
    case True
    then have "int (length bs) \<le> ?N - ?p" using seg(1) by simp
    then have "nat ?p + length bs \<le> length ?buf" using p L by linarith
    then show ?thesis
      using True plt p1 by (auto simp: wsabuf_fill_def Let_def ring_write_direct split: option.split)
  next
    case False
    then have D1: "Direct1 ?d = ?N - ?p" and D2: "0 < Direct2 ?d" using seg(1,2) len by linarith+
    let ?xs = "take (nat (Direct1 ?d)) bs" and ?ys = "drop (nat (Direct1 ?d)) bs"
    have d0: "0 \<le> ?N - ?p" using p by linarith
    have "nat ?p + nat (?N - ?p) = length ?buf"
      unfolding L nat_add_distrib [OF p(1) d0, symmetric] by simp
    then have "nat ?p + length ?xs = length ?buf" using False D1 by simp
    moreover have "length ?ys \<le> nat ?p"
      using False D1 p len(2) used_bounds(1) [OF inv] by (simp add: free_eq [OF inv])
    ultimately have "mem_write (mem_write ?buf (nat ?p) ?xs) 0 ?ys = ring_write ?buf (nat ?p) (?xs @ ?ys)"
      using plt by (rule ring_write_wrap)
    then show ?thesis using p1 seg(4) [OF D2] by (simp add: wsabuf_fill_def Let_def)
  qed
qed

text \<open>
  \<open>Enqueue\<close> of a positive size not above the source's length takes the first
  \<open>min size free\<close> bytes, appends exactly those to the contents, answers how many it took,
  leaves the front index alone and never faults.
\<close>

theorem Enqueue_appends:
  assumes "ring_inv q" "0 < sz" "sz \<le> int (length src)"
  shows "\<exists>q'. Enqueue q src sz = Inr (min sz (GetFreeSize q), q') \<and> ring_inv q' \<and>
           contents q' = contents q @ take (nat (min sz (GetFreeSize q))) src \<and>
           m_Front q' = m_Front q"
  using Enqueue_step [OF assms] by blast

theorem Enqueue_appends_witness:
  "\<exists>q'. Enqueue (RingQ_new\<lparr>m_Front := 9997, m_Rear := 9997\<rparr>) [1, 2, 3, 4] 4 = Inr (4, q') \<and>
     contents q' = [1, 2, 3, 4]"
  using Enqueue_appends [of "RingQ_new\<lparr>m_Front := 9997, m_Rear := 9997\<rparr>" 4 "[1, 2, 3, 4]"]
  by (auto simp: ring_inv_def RingQ_new_def RING_BUFFER_SIZE_def GetFreeSize_def contents_def
      GetUsedSize_def smod_nonneg)

text \<open>
  \<open>Dequeue\<close> of a positive size into a buffer with room hands out the first
  \<open>min size used\<close> bytes of the contents, removes exactly those, and touches neither the
  array nor the rear index.
\<close>

theorem Dequeue_takes:
  assumes "ring_inv q" "0 < sz" "0 \<le> at" "at + min sz (GetUsedSize q) \<le> int (length dest)"
  shows "\<exists>q'. Dequeue q dest at sz =
           Inr (min sz (GetUsedSize q),
                mem_write dest (nat at) (take (nat (min sz (GetUsedSize q))) (contents q)), q') \<and>
           ring_inv q' \<and> contents q' = drop (nat (min sz (GetUsedSize q))) (contents q) \<and>
           ring_Buffer q' = ring_Buffer q \<and> m_Rear q' = m_Rear q"
  using Dequeue_step [OF assms] by metis

theorem Dequeue_takes_witness:
  "\<exists>q'. Dequeue (RingQ_new\<lparr>m_Front := 9998, m_Rear := 2\<rparr>) [7, 7, 7, 7] 1 3
       = Inr (3, [7, 0, 0, 0], q')"
  using Dequeue_takes [of "RingQ_new\<lparr>m_Front := 9998, m_Rear := 2\<rparr>" 3 1 "[7, 7, 7, 7]"]
  by (auto simp: ring_inv_def RingQ_new_def RING_BUFFER_SIZE_def GetUsedSize_def contents_def
      ring_read_def mem_write_def upt_rec)

text \<open>
  \<open>Peek\<close> copies what \<open>Dequeue\<close> would copy and answers what it would answer, on every
  ring, size and destination, faults included; only the removal is missing.
\<close>

theorem Peek_is_Dequeue_without_moving:
  "Peek q dest at sz = bnd (Dequeue q dest at sz) (\<lambda>(k, dest', q'). Inr (k, dest'))"
  by (simp add: Peek_def Dequeue_def Let_def size_members bnd_assoc)

text \<open>
  The zero-copy receive: with at most \<open>free\<close> received bytes scattered over the two
  segments of \<open>GetDirectEnQData\<close>, \<open>MoveRear\<close> of their number gives the very ring that
  \<open>Enqueue\<close> of them would give.
\<close>

theorem zero_copy_receive:
  assumes "ring_inv q" "bs \<noteq> []" "int (length bs) \<le> GetFreeSize q"
  shows "Enqueue q bs (int (length bs)) =
    Inr (int (length bs),
         MoveRear (int (length bs))
           (q\<lparr>ring_Buffer := wsabuf_fill (GetDirectEnQData q) bs (ring_Buffer q)\<rparr>))"
proof -
  have sz: "0 < int (length bs)" using assms by simp
  have k: "min (int (length bs)) (GetFreeSize q) = int (length bs)" using assms by simp
  have fill: "wsabuf_fill (GetDirectEnQData q) bs (ring_Buffer q)
              = ring_write (ring_Buffer q) (nat ((m_Rear q + 1) mod RING_BUFFER_SIZE)) bs"
    using assms(1,3) sz by (intro fill_is_ring_write) simp_all
  have "0 \<le> m_Rear q" using assms(1) by (simp add: ring_inv_def)
  then show ?thesis
    using Enqueue_eq [OF assms(1) sz order_refl, unfolded k]
    by (simp add: fill MoveRear_def smod_nonneg less_imp_le)
qed

theorem zero_copy_receive_witness:
  "Enqueue (RingQ_new\<lparr>m_Front := 9997, m_Rear := 9997\<rparr>) [1, 2, 3, 4] 4 =
   Inr (4, MoveRear 4 (RingQ_new\<lparr>m_Front := 9997, m_Rear := 9997,
         ring_Buffer := wsabuf_fill (GetDirectEnQData (RingQ_new\<lparr>m_Front := 9997, m_Rear := 9997\<rparr>))
                          [1, 2, 3, 4] (ring_Buffer RingQ_new)\<rparr>))"
  using zero_copy_receive [of "RingQ_new\<lparr>m_Front := 9997, m_Rear := 9997\<rparr>" "[1, 2, 3, 4]"]
  by (simp add: ring_inv_def RingQ_new_def RING_BUFFER_SIZE_def GetFreeSize_def smod_nonneg)

text \<open>
  C31. Any sequence of enqueues of at least one byte and dequeues of at least one byte runs
  without a fault, and the bytes accepted come out in order: what was in the ring followed by
  what was accepted is what was delivered followed by what is in the ring now.
\<close>

theorem ring_is_fifo:
  assumes "ring_inv q" and "list_all stream_op_ok ops"
  shows "\<exists>acc del q'. stream_run ring_put ring_get q ops = Inr (acc, del, q') \<and> ring_inv q' \<and>
           contents q @ acc = del @ contents q'"
  using assms by (rule ring_stream.stream_order)

theorem ring_is_fifo_witness:
  "\<exists>acc del q'. stream_run ring_put ring_get RingQ_new [Put [1, 2], Get 1, Put [3], Get 5]
     = Inr (acc, del, q') \<and> acc = del @ contents q'"
  using ring_is_fifo [of RingQ_new "[Put [1, 2], Get 1, Put [3], Get 5]"] by auto

text \<open>
  A size of zero is not harmless: with the rear index on the last slot and a byte free,
  \<open>Enqueue\<close> of zero bytes answers zero and sets the rear index to -1, outside the ring; from
  then on the ring invariant is gone.
\<close>

theorem Enqueue_zero_leaves_ring:
  assumes "ring_inv q" "m_Rear q = RING_BUFFER_SIZE - 1"
  shows "Enqueue q src 0 = Inr (0, q\<lparr>m_Rear := - 1\<rparr>) \<and> \<not> ring_inv (q\<lparr>m_Rear := - 1\<rparr>)"
proof -
  have bd: "0 \<le> m_Front q" "m_Front q < RING_BUFFER_SIZE" using assms(1) by (simp_all add: ring_inv_def)
  have "\<not> GetFreeSize_at (m_Front q) (m_Rear q) < 0"
    and "\<not> GetDirectEnqueueSize_at (m_Front q) (m_Rear q) < 0"
    using free_nonneg [OF assms(1)] bd slot_bounds(2) [of "m_Rear q"] assms(2)
    by (simp_all add: size_members GetDirectEnqueueSize_at_min)
  moreover have "(RING_BUFFER_SIZE - 1 + 1) smod RING_BUFFER_SIZE = 0" "(0 + 0 - 1) smod RING_BUFFER_SIZE = - 1"
    by (simp_all add: smod_nonneg less_imp_le smod_minus_one RING_BUFFER_SIZE_def)
  ultimately show ?thesis
    using assms(2) by (simp add: Enqueue_def Let_def memcpy_out_def memcpy_in_def ring_inv_def)
qed

theorem Enqueue_zero_leaves_ring_witness:
  "Enqueue (RingQ_new\<lparr>m_Front := 5, m_Rear := 9999\<rparr>) [] 0
   = Inr (0, RingQ_new\<lparr>m_Front := 5, m_Rear := - 1\<rparr>)"
  using Enqueue_zero_leaves_ring [of "RingQ_new\<lparr>m_Front := 5, m_Rear := 9999\<rparr>" "[]"]
  by (simp add: ring_inv_def RingQ_new_def RING_BUFFER_SIZE_def)

end
