(* ===== verification/FreeList.thy ===== *)
theory FreeList
  imports Contracts
begin

text \<open>
  \<^verbatim>\<open>FreeList<T>\<close> of FreeList.h, the pool the other containers take their nodes from: blocks with
  a guard word on either side, obtained from the heap when the list of free nodes is empty and
  never given back before the pool dies.  The \<open>k\<close>-th block obtained is block \<open>k\<close>; a pointer to a
  node is the number of its block.  The operations here are those of one caller at a time: the
  128 bit compare-exchange succeeds at its first try.  \<open>ctor\<close> is the value a default
  constructed \<^verbatim>\<open>T\<close> has, \<open>dtor\<close> what its destructor leaves.  The three counters are the
  32 bit \<^verbatim>\<open>LONG\<close>s of the class, which wrap, and the tag beside the top pointer is 64 bits wide.
\<close>

section \<open>State and operations\<close>

type_synonym addr = nat

record Mark =
  MarkID :: "64 word"
  MarkValue :: "64 word"

record 'd AllocMemory =
  FrontMark :: Mark
  node_Data :: 'd
  node_Next :: "addr option"
  RearMark :: Mark

record 'd FreeList =
  fl_TopPtr :: "addr option"
  fl_TopID :: "64 word"
  fl_bPlacementNew :: bool
  fl_MarkValue :: "64 word"
  fl_PoolCount :: "32 word"
  fl_UseCount :: "32 word"
  fl_AllocCount :: "32 word"
  fl_blocks :: "'d AllocMemory list"

definition MARK_FRONT :: "64 word" where
  "MARK_FRONT = 0x1234567876543210"

definition MARK_REAR :: "64 word" where
  "MARK_REAR = 0x8765432101234567"

text \<open>The constructor takes the next value of the global counter \<^verbatim>\<open>g_Mark\<close>.\<close>

definition FreeList_new :: "int \<Rightarrow> bool \<Rightarrow> 'd FreeList" where
  "FreeList_new mark placementNew =
     \<lparr>fl_TopPtr = None, fl_TopID = 0, fl_bPlacementNew = placementNew, fl_MarkValue = word_of_int mark,
      fl_PoolCount = 0, fl_UseCount = 0, fl_AllocCount = 0, fl_blocks = []\<rparr>"

definition FreeList_AllocateNewMemory :: "'d \<Rightarrow> 'd FreeList \<Rightarrow> addr \<times> 'd FreeList" where
  "FreeList_AllocateNewMemory ctor s =
     (length (fl_blocks s),
      s\<lparr>fl_blocks := fl_blocks s @
          [\<lparr>FrontMark = \<lparr>MarkID = fl_MarkValue s, MarkValue = MARK_FRONT\<rparr>,
            node_Data = ctor, node_Next = None,
            RearMark = \<lparr>MarkID = fl_MarkValue s, MarkValue = MARK_REAR\<rparr>\<rparr>],
        fl_AllocCount := fl_AllocCount s + 1,
        fl_UseCount := fl_UseCount s + 1\<rparr>)"

definition FreeList_Free :: "('d \<Rightarrow> 'd) \<Rightarrow> addr \<Rightarrow> 'd FreeList \<Rightarrow> 'd FreeList run" where
  "FreeList_Free dtor ptr s =
     (if length (fl_blocks s) \<le> ptr then Inl OutOfBounds
      else
        let block = fl_blocks s ! ptr in
        if MarkID (FrontMark block) \<noteq> fl_MarkValue s \<or> MarkValue (FrontMark block) \<noteq> MARK_FRONT
        then Inl FreeListUnderflow
        else if MarkID (RearMark block) \<noteq> fl_MarkValue s \<or> MarkValue (RearMark block) \<noteq> MARK_REAR
        then Inl FreeListOverflow
        else
          let block = (if fl_bPlacementNew s then block\<lparr>node_Data := dtor (node_Data block)\<rparr> else block) in
          Inr (s\<lparr>fl_blocks := (fl_blocks s)[ptr := block\<lparr>node_Next := fl_TopPtr s\<rparr>],
                 fl_TopPtr := Some ptr,
                 fl_TopID := fl_TopID s + 1,
                 fl_UseCount := fl_UseCount s - 1,
                 fl_PoolCount := fl_PoolCount s + 1\<rparr>))"

definition FreeList_Alloc :: "'d \<Rightarrow> 'd FreeList \<Rightarrow> (addr \<times> 'd FreeList) run" where
  "FreeList_Alloc ctor s =
     (case fl_TopPtr s of
        None \<Rightarrow> Inr (FreeList_AllocateNewMemory ctor s)
      | Some ptr \<Rightarrow>
          (if length (fl_blocks s) \<le> ptr then Inl OutOfBounds
           else
             let block = fl_blocks s ! ptr in
             Inr (ptr, s\<lparr>fl_TopPtr := node_Next block,
                         fl_TopID := fl_TopID s + 1,
                         fl_UseCount := fl_UseCount s + 1,
                         fl_PoolCount := fl_PoolCount s - 1,
                         fl_blocks := (if fl_bPlacementNew s
                                       then (fl_blocks s)[ptr := block\<lparr>node_Data := ctor\<rparr>]
                                       else fl_blocks s)\<rparr>)))"

text \<open>The constructor that fills the pool.\<close>

primrec FreeList_fill :: "('d \<Rightarrow> 'd) \<Rightarrow> 'd \<Rightarrow> nat \<Rightarrow> 'd FreeList \<Rightarrow> 'd FreeList run" where
  "FreeList_fill dtor ctor 0 s = Inr s"
| "FreeList_fill dtor ctor (Suc n) s =
     (case FreeList_AllocateNewMemory ctor s of
        (data, s) \<Rightarrow> bnd (FreeList_Free dtor data s) (FreeList_fill dtor ctor n))"

definition FreeList_new_blocks ::
  "('d \<Rightarrow> 'd) \<Rightarrow> 'd \<Rightarrow> int \<Rightarrow> nat \<Rightarrow> bool \<Rightarrow> 'd FreeList run" where
  "FreeList_new_blocks dtor ctor mark blockNum placementNew =
     FreeList_fill dtor ctor blockNum (FreeList_new mark placementNew)"

definition FreeList_GetPoolCount :: "'d FreeList \<Rightarrow> int" where
  "FreeList_GetPoolCount s = sint (fl_PoolCount s)"

definition FreeList_GetUseCount :: "'d FreeList \<Rightarrow> int" where
  "FreeList_GetUseCount s = sint (fl_UseCount s)"

definition FreeList_GetAllocCount :: "'d FreeList \<Rightarrow> int" where
  "FreeList_GetAllocCount s = sint (fl_AllocCount s)"

text \<open>Reading and writing an object through its pointer.\<close>

definition fl_get :: "'d FreeList \<Rightarrow> addr \<Rightarrow> 'd" where
  "fl_get s p = node_Data (fl_blocks s ! p)"

definition fl_put :: "addr \<Rightarrow> 'd \<Rightarrow> 'd FreeList \<Rightarrow> 'd FreeList" where
  "fl_put p d s = s\<lparr>fl_blocks := (fl_blocks s)[p := (fl_blocks s ! p)\<lparr>node_Data := d\<rparr>]\<rparr>"

section \<open>The chain of free nodes\<close>

fun free_chain :: "'d AllocMemory list \<Rightarrow> addr option \<Rightarrow> addr list \<Rightarrow> bool" where
  "free_chain bs tp [] \<longleftrightarrow> tp = None"
| "free_chain bs tp (p # ps) \<longleftrightarrow> tp = Some p \<and> p < length bs \<and> free_chain bs (node_Next (bs ! p)) ps"

definition marks_ok :: "64 word \<Rightarrow> 'd AllocMemory \<Rightarrow> bool" where
  "marks_ok mark b \<longleftrightarrow>
     FrontMark b = \<lparr>MarkID = mark, MarkValue = MARK_FRONT\<rparr> \<and>
     RearMark b = \<lparr>MarkID = mark, MarkValue = MARK_REAR\<rparr>"

text \<open>
  \<open>U\<close> are the blocks handed out: with the free chain they make up all blocks, the chain has
  no node twice, and the three counters are the three sizes modulo \<open>2 ^ 32\<close>.
\<close>

definition fl_inv :: "'d FreeList \<Rightarrow> addr set \<Rightarrow> bool" where
  "fl_inv s U \<longleftrightarrow>
     (\<exists>ps. free_chain (fl_blocks s) (fl_TopPtr s) ps \<and> distinct ps \<and>
           U = {0..<length (fl_blocks s)} - set ps \<and> fl_PoolCount s = of_nat (length ps)) \<and>
     fl_AllocCount s = of_nat (length (fl_blocks s)) \<and>
     fl_UseCount s = fl_AllocCount s - fl_PoolCount s \<and>
     list_all (marks_ok (fl_MarkValue s)) (fl_blocks s)"

lemma free_chain_less: "free_chain bs tp ps \<Longrightarrow> p \<in> set ps \<Longrightarrow> p < length bs"
  by (induction bs tp ps rule: free_chain.induct) auto

lemma free_chain_cong:
  assumes "free_chain bs tp ps" "length bs \<le> length bs'"
    and "\<And>p. p \<in> set ps \<Longrightarrow> node_Next (bs' ! p) = node_Next (bs ! p)"
  shows "free_chain bs' tp ps"
  using assms by (induction bs tp ps rule: free_chain.induct) auto

lemma free_chain_update [simp]:
  "p \<notin> set ps \<Longrightarrow> free_chain (bs[p := b]) tp ps \<longleftrightarrow> free_chain bs tp ps"
  by (induction bs tp ps rule: free_chain.induct) auto

lemma free_chain_update_data [simp]:
  "free_chain (bs[p := (bs ! p)\<lparr>node_Data := d\<rparr>]) tp ps \<longleftrightarrow> free_chain bs tp ps"
  by (induction bs tp ps rule: free_chain.induct) (auto simp: nth_update_if)

lemma fl_inv_new [simp]: "fl_inv (FreeList_new mark b) {}"
  by (auto simp: fl_inv_def FreeList_new_def intro: exI [of _ "[]"])

lemma fl_inv_less: "fl_inv s U \<Longrightarrow> p \<in> U \<Longrightarrow> p < length (fl_blocks s)"
  by (auto simp: fl_inv_def)

lemma marks_update:
  "list_all (marks_ok m) bs \<Longrightarrow> marks_ok m b \<Longrightarrow> list_all (marks_ok m) (bs[p := b])"
  by (auto simp: list_all_length nth_update_if)

lemma fl_inv_put [simp]: "fl_inv (fl_put p d s) U \<longleftrightarrow> fl_inv s U"
proof (cases "p < length (fl_blocks s)")
  case True
  have "list_all (marks_ok m) ((fl_blocks s)[p := (fl_blocks s ! p)\<lparr>node_Data := d\<rparr>])
        = list_all (marks_ok m) (fl_blocks s)" for m
    using True by (auto simp: list_all_length nth_update_if marks_ok_def)
  then show ?thesis by (simp add: fl_inv_def fl_put_def)
qed (simp add: fl_put_def list_update_beyond)

lemma fl_get_put:
  "fl_get (fl_put p d s) q = (if q = p \<and> p < length (fl_blocks s) then d else fl_get s q)"
  by (auto simp: fl_get_def fl_put_def nth_update_if)

lemma FreeList_Alloc_ok:
  assumes inv: "fl_inv s U"
  shows "\<exists>p s'. FreeList_Alloc ctor s = Inr (p, s') \<and> p \<notin> U \<and> fl_inv s' (insert p U) \<and>
           (\<forall>q\<in>U. fl_get s' q = fl_get s q)"
proof -
  obtain ps where ps: "free_chain (fl_blocks s) (fl_TopPtr s) ps" "distinct ps"
      "U = {0..<length (fl_blocks s)} - set ps" "fl_PoolCount s = of_nat (length ps)"
    and c: "fl_AllocCount s = of_nat (length (fl_blocks s))" "fl_UseCount s = fl_AllocCount s - fl_PoolCount s"
    and m: "list_all (marks_ok (fl_MarkValue s)) (fl_blocks s)"
    using inv by (auto simp: fl_inv_def)
  show ?thesis
  proof (cases ps)
    case Nil
    then have top: "fl_TopPtr s = None" using ps(1) by simp
    let ?s' = "snd (FreeList_AllocateNewMemory ctor s)"
    have "fl_inv ?s' (insert (length (fl_blocks s)) U)"
      unfolding fl_inv_def using Nil ps c m top
      by (auto simp: FreeList_AllocateNewMemory_def marks_ok_def intro!: exI [of _ "[]"])
    moreover have "fl_get ?s' q = fl_get s q" if "q \<in> U" for q
      using that ps(3) by (simp add: FreeList_AllocateNewMemory_def fl_get_def nth_append)
    moreover have "length (fl_blocks s) \<notin> U" using ps(3) by simp
    ultimately show ?thesis
      using top by (simp add: FreeList_Alloc_def) (simp add: FreeList_AllocateNewMemory_def)
  next
    case (Cons p qs)
    then have top: "fl_TopPtr s = Some p" and p: "p < length (fl_blocks s)"
      and ch: "free_chain (fl_blocks s) (node_Next (fl_blocks s ! p)) qs" and nq: "p \<notin> set qs"
      using ps by auto
    have mp: "marks_ok (fl_MarkValue s) (fl_blocks s ! p)" using m p by (simp add: list_all_length)
    obtain s' where s': "FreeList_Alloc ctor s = Inr (p, s')"
      "s' = s\<lparr>fl_TopPtr := node_Next (fl_blocks s ! p), fl_TopID := fl_TopID s + 1,
              fl_UseCount := fl_UseCount s + 1, fl_PoolCount := fl_PoolCount s - 1,
              fl_blocks := (if fl_bPlacementNew s
                then (fl_blocks s)[p := (fl_blocks s ! p)\<lparr>node_Data := ctor\<rparr>] else fl_blocks s)\<rparr>"
      using top p by (simp add: FreeList_Alloc_def Let_def)
    have ms: "list_all (marks_ok (fl_MarkValue s)) (fl_blocks s')"
      using m mp unfolding s'(2) by (auto intro: marks_update simp: marks_ok_def)
    have "fl_inv s' (insert p U)"
      unfolding fl_inv_def
    proof (intro conjI exI [of _ qs])
      show "free_chain (fl_blocks s') (fl_TopPtr s') qs" using ch nq by (simp add: s'(2))
      show "distinct qs" using ps(2) Cons by simp
      show "insert p U = {0..<length (fl_blocks s')} - set qs" using ps(3) Cons p nq by (auto simp: s'(2))
    qed (use ps(4) Cons c ms in \<open>simp_all add: s'(2)\<close>)
    moreover have "p \<notin> U" using ps(3) Cons by simp
    moreover from this have "\<forall>q\<in>U. fl_get s' q = fl_get s q"
      by (auto simp: s'(2) fl_get_def nth_update_if)
    ultimately show ?thesis using s'(1) by blast
  qed
qed

lemma FreeList_Free_ok:
  assumes inv: "fl_inv s U" and p: "p \<in> U"
  shows "\<exists>s'. FreeList_Free dtor p s = Inr s' \<and> fl_inv s' (U - {p}) \<and>
           (\<forall>q\<in>U - {p}. fl_get s' q = fl_get s q)"
proof -
  obtain ps where ps: "free_chain (fl_blocks s) (fl_TopPtr s) ps" "distinct ps"
      "U = {0..<length (fl_blocks s)} - set ps" "fl_PoolCount s = of_nat (length ps)"
    and c: "fl_AllocCount s = of_nat (length (fl_blocks s))" "fl_UseCount s = fl_AllocCount s - fl_PoolCount s"
    and m: "list_all (marks_ok (fl_MarkValue s)) (fl_blocks s)"
    using inv by (auto simp: fl_inv_def)
  have lt: "p < length (fl_blocks s)" and np: "p \<notin> set ps" using p ps(3) by auto
  have mp: "marks_ok (fl_MarkValue s) (fl_blocks s ! p)" using m lt by (simp add: list_all_length)
  let ?b = "if fl_bPlacementNew s then (fl_blocks s ! p)\<lparr>node_Data := dtor (node_Data (fl_blocks s ! p))\<rparr>
            else fl_blocks s ! p"
  obtain s' where s': "FreeList_Free dtor p s = Inr s'"
    "s' = s\<lparr>fl_blocks := (fl_blocks s)[p := ?b\<lparr>node_Next := fl_TopPtr s\<rparr>],
            fl_TopPtr := Some p, fl_TopID := fl_TopID s + 1,
            fl_UseCount := fl_UseCount s - 1, fl_PoolCount := fl_PoolCount s + 1\<rparr>"
    using lt mp by (simp add: FreeList_Free_def Let_def marks_ok_def)
  have ms: "list_all (marks_ok (fl_MarkValue s)) (fl_blocks s')"
    using m mp unfolding s'(2) by (auto intro: marks_update simp: marks_ok_def)
  have "fl_inv s' (U - {p})"
    unfolding fl_inv_def
  proof (intro conjI exI [of _ "p # ps"])
    show "free_chain (fl_blocks s') (fl_TopPtr s') (p # ps)" using ps(1) np lt by (simp add: s'(2))
    show "U - {p} = {0..<length (fl_blocks s')} - set (p # ps)" using ps(3) by (auto simp: s'(2))
  qed (use ps(2,4) np c ms in \<open>simp_all add: s'(2)\<close>)
  moreover have "\<forall>q\<in>U - {p}. fl_get s' q = fl_get s q"
    by (auto simp: s'(2) fl_get_def nth_update_if)
  ultimately show ?thesis using s'(1) by blast
qed

text \<open>What the counters hold, from the blocks and the objects handed out.\<close>

lemma sint_of_nat_LONG: "n < 2 ^ 31 \<Longrightarrow> sint (of_nat n :: 32 word) = int n"
  using sint_LONG [of "int n"] by simp

lemma fl_inv_counts:
  assumes "fl_inv s U"
  shows "card U \<le> length (fl_blocks s)"
    and "fl_UseCount s = of_nat (card U)"
    and "fl_PoolCount s = of_nat (length (fl_blocks s) - card U)"
    and "fl_AllocCount s = of_nat (length (fl_blocks s))"
proof -
  obtain ps where ps: "distinct ps" "U = {0..<length (fl_blocks s)} - set ps"
      "free_chain (fl_blocks s) (fl_TopPtr s) ps"
    and c: "fl_PoolCount s = of_nat (length ps)" "fl_AllocCount s = of_nat (length (fl_blocks s))"
      "fl_UseCount s = fl_AllocCount s - fl_PoolCount s"
    using assms by (auto simp: fl_inv_def)
  have "set ps \<subseteq> {0..<length (fl_blocks s)}" using free_chain_less [OF ps(3)] by auto
  then have "card U + card (set ps) = card {0..<length (fl_blocks s)}"
    unfolding ps(2) by (metis card_Diff_subset card_mono finite_atLeastLessThan finite_set le_add_diff_inverse2)
  then have sum: "length (fl_blocks s) = card U + length ps" using ps(1) by (simp add: distinct_card)
  then show "card U \<le> length (fl_blocks s)" by simp
  show "fl_UseCount s = of_nat (card U)" "fl_PoolCount s = of_nat (length (fl_blocks s) - card U)"
    "fl_AllocCount s = of_nat (length (fl_blocks s))"
    using c sum by simp_all
qed

text \<open>The pool asks the heap for a block only when every block it has is in use.\<close>

lemma FreeList_Alloc_blocks:
  assumes "FreeList_Alloc ctor s = Inr (p, s')" "fl_inv s U"
  shows "length (fl_blocks s') \<le> max (length (fl_blocks s)) (Suc (card U))"
proof (cases "fl_TopPtr s")
  case None
  then obtain ps where ps: "free_chain (fl_blocks s) None ps" "U = {0..<length (fl_blocks s)} - set ps"
    using assms(2) by (auto simp: fl_inv_def)
  from ps(1) have "ps = []" by (cases ps) simp_all
  then show ?thesis
    using assms(1) None ps(2) by (auto simp: FreeList_Alloc_def FreeList_AllocateNewMemory_def)
next
  case (Some q)
  then show ?thesis using assms(1) by (auto simp: FreeList_Alloc_def Let_def split: if_splits)
qed

text \<open>
  What the operations do to the memory when there is no placement construction: every old
  object keeps its value.
\<close>

lemma FreeList_Alloc_data:
  assumes "FreeList_Alloc ctor s = Inr (p, s')" "\<not> fl_bPlacementNew s"
  shows "\<not> fl_bPlacementNew s'" "length (fl_blocks s) \<le> length (fl_blocks s')" "p < length (fl_blocks s')"
    and "length (fl_blocks s') \<le> Suc (length (fl_blocks s))"
    and "\<And>q. q < length (fl_blocks s) \<Longrightarrow> fl_get s' q = fl_get s q"
    and "\<And>q. q < length (fl_blocks s') \<Longrightarrow> length (fl_blocks s) \<le> q \<Longrightarrow> q = p \<and> fl_get s' p = ctor"
  using assms
  by (auto simp: FreeList_Alloc_def FreeList_AllocateNewMemory_def Let_def fl_get_def nth_append
      split: option.splits if_splits)

lemma FreeList_Free_data:
  assumes "FreeList_Free dtor p s = Inr s'" "\<not> fl_bPlacementNew s"
  shows "\<not> fl_bPlacementNew s'" "length (fl_blocks s') = length (fl_blocks s)"
    and "fl_get s' q = fl_get s q"
  using assms
  by (auto simp: FreeList_Free_def Let_def fl_get_def nth_update_if split: if_splits)

lemma fl_put_fields [simp]:
  "fl_bPlacementNew (fl_put p d s) = fl_bPlacementNew s"
  "length (fl_blocks (fl_put p d s)) = length (fl_blocks s)"
  by (simp_all add: fl_put_def)

section \<open>The free list provides the pool contract\<close>

interpretation fl_pool: object_pool fl_inv fl_get "\<lambda>t :: nat. FreeList_Alloc ctor" "FreeList_Free dtor"
  for ctor :: 'd and dtor :: "'d \<Rightarrow> 'd"
  by unfold_locales (erule FreeList_Alloc_ok, erule (1) FreeList_Free_ok)

section \<open>Properties\<close>

text \<open>
  C36. From an empty free list, any sequence of allocations and of frees of objects held runs
  without a fault and never hands one block out twice.  Its three counters, 32 bit words that
  wrap, are at every end of such a run the number of objects held, the number of pooled blocks
  and the number of blocks ever obtained modulo \<open>2 ^ 32\<close>; as long as fewer than \<open>2 ^ 31\<close> blocks
  have been obtained, the three getters answer exactly those numbers, however long the run.
\<close>

theorem FreeList_discipline:
  "\<exists>held s. pool_run (\<lambda>t :: nat. FreeList_Alloc ctor) (FreeList_Free dtor) ops []
      (FreeList_new mark placement) = Inr (held, s) \<and>
     distinct held \<and> set held \<subseteq> {0..<length (fl_blocks s)} \<and>
     fl_UseCount s = of_nat (length held) \<and>
     fl_PoolCount s = of_nat (length (fl_blocks s) - length held) \<and>
     fl_AllocCount s = of_nat (length (fl_blocks s)) \<and>
     (length (fl_blocks s) < 2 ^ 31 \<longrightarrow>
        FreeList_GetUseCount s = int (length held) \<and>
        FreeList_GetPoolCount s = int (length (fl_blocks s)) - int (length held) \<and>
        FreeList_GetAllocCount s = int (length (fl_blocks s)))"
proof -
  have new: "fl_inv (FreeList_new mark placement :: 'a FreeList) {}" by simp
  have none: "distinct ([] :: addr list)" "set ([] :: addr list) \<subseteq> {}" by simp_all
  obtain held s where r: "pool_run (\<lambda>t :: nat. FreeList_Alloc ctor) (FreeList_Free dtor) ops []
        (FreeList_new mark placement) = Inr (held, s)" "distinct held" "fl_inv s (set held)"
    using fl_pool.pool_discipline [OF new none, of ctor dtor ops] by auto
  note c = fl_inv_counts [OF r(3)]
  have "card (set held) = length held" using r(2) by (rule distinct_card)
  then have n: "length held \<le> length (fl_blocks s)" "fl_UseCount s = of_nat (length held)"
      "fl_PoolCount s = of_nat (length (fl_blocks s) - length held)"
      "fl_AllocCount s = of_nat (length (fl_blocks s))"
    using c by metis+
  have exact: "FreeList_GetUseCount s = int (length held)" "FreeList_GetAllocCount s = int (length (fl_blocks s))"
      "FreeList_GetPoolCount s = int (length (fl_blocks s)) - int (length held)"
    if few: "length (fl_blocks s) < 2 ^ 31"
  proof -
    have "length (fl_blocks s) - length held < 2 ^ 31" using few by simp
    from sint_of_nat_LONG [OF this]
    show "FreeList_GetPoolCount s = int (length (fl_blocks s)) - int (length held)"
      using n(1) unfolding FreeList_GetPoolCount_def n(3) by simp
  qed (use few n(1) in \<open>simp_all add: FreeList_GetUseCount_def FreeList_GetAllocCount_def n(2,4) sint_of_nat_LONG\<close>)
  have "set held \<subseteq> {0..<length (fl_blocks s)}" using fl_inv_less [OF r(3)] by auto
  then show ?thesis using r(1,2) n exact by blast
qed

theorem FreeList_discipline_witness:
  "\<exists>held s. pool_run (\<lambda>t :: nat. FreeList_Alloc (7 :: nat)) (FreeList_Free id) [AllocOp 0, AllocOp 0, FreeOp 1, AllocOp 0] []
      (FreeList_new 1 False) = Inr (held, s) \<and> length (fl_blocks s) = 2 \<and> held = [0, 1] \<and>
     FreeList_GetUseCount s = 2 \<and> FreeList_GetPoolCount s = 0 \<and> FreeList_GetAllocCount s = 2"
proof -
  obtain held s where r: "pool_run (\<lambda>t :: nat. FreeList_Alloc (7 :: nat)) (FreeList_Free id)
        [AllocOp 0, AllocOp 0, FreeOp 1, AllocOp 0] [] (FreeList_new 1 False) = Inr (held, s)"
      "length (fl_blocks s) < 2 ^ 31 \<longrightarrow>
        FreeList_GetUseCount s = int (length held) \<and>
        FreeList_GetPoolCount s = int (length (fl_blocks s)) - int (length held) \<and>
        FreeList_GetAllocCount s = int (length (fl_blocks s))"
    using FreeList_discipline [of "7 :: nat" id "[AllocOp 0, AllocOp 0, FreeOp 1, AllocOp 0]" 1 False] by blast
  have "held = [0, 1] \<and> length (fl_blocks s) = 2"
    using r(1) by (auto simp: FreeList_new_def FreeList_Alloc_def FreeList_AllocateNewMemory_def
        FreeList_Free_def Let_def MARK_FRONT_def MARK_REAR_def)
  with r show ?thesis by auto
qed

text \<open>
  A second free of the same block is not noticed (its check is commented out in the
  source): both frees succeed, the block becomes its own successor, and the next two
  allocations hand out the same block.
\<close>

theorem FreeList_double_free_aliases:
  assumes "fl_inv s U" "p \<in> U"
  shows "\<exists>s1 s2 s3 s4. FreeList_Free dtor p s = Inr s1 \<and> FreeList_Free dtor p s1 = Inr s2 \<and>
           FreeList_Alloc ctor s2 = Inr (p, s3) \<and> FreeList_Alloc ctor s3 = Inr (p, s4)"
proof -
  have lt: "p < length (fl_blocks s)" using assms by (rule fl_inv_less)
  then have "marks_ok (fl_MarkValue s) (fl_blocks s ! p)"
    using assms(1) by (simp add: fl_inv_def list_all_length)
  with lt show ?thesis
    by (simp add: FreeList_Free_def FreeList_Alloc_def Let_def marks_ok_def)
qed

theorem FreeList_double_free_aliases_witness:
  "\<exists>s1 s2 s3 s4. FreeList_Free id 0 (snd (FreeList_AllocateNewMemory (7::nat) (FreeList_new 1 False))) = Inr s1 \<and>
     FreeList_Free id 0 s1 = Inr s2 \<and> FreeList_Alloc 7 s2 = Inr (0, s3) \<and> FreeList_Alloc 7 s3 = Inr (0, s4)"
proof -
  have "fl_inv (snd (FreeList_AllocateNewMemory (7::nat) (FreeList_new 1 False))) {0}"
    by (auto simp: FreeList_AllocateNewMemory_def FreeList_new_def fl_inv_def marks_ok_def
        intro: exI [of _ "[]"])
  from FreeList_double_free_aliases [OF this, of 0 id 7] show ?thesis by simp
qed

end
