(* ===== verification/MemoryPool.thy ===== *)
theory MemoryPool
  imports FreeList
begin

text \<open>
  \<^verbatim>\<open>MemoryPool_TLS<T>\<close> of MemoryPool_TLS.h: every thread owns a chunk of \<open>m_ObjectCount\<close> objects
  and hands them out from the last to the first without synchronisation; when the chunk is
  used up the thread takes the next one from a \<open>FreeList\<close> of chunks.  Objects may be freed on
  any thread; the chunk counts its objects down and goes back to the list with the last one.
  A pointer to an object is the chunk's block number with an index; the object's own mark names
  the chunk it belongs to.  A thread local slot is a function of the thread.
\<close>

section \<open>State and operations\<close>

type_synonym objptr = "addr \<times> nat"
type_synonym tid = nat

record 'd ChunkAllocMemory =
  ca_ChunkPtr :: "addr option"
  ca_MarkValue :: "64 word"
  ca_Data :: 'd

record 'd ChunkMemory =
  m_Chunk :: "'d ChunkAllocMemory list option"
  ck_bPlacementNew :: bool
  ck_ObjectCount :: nat
  m_AllocIndex :: nat
  m_FreeCount :: int

record 'd MemoryPool =
  m_ChunkMemoryPool :: "'d ChunkMemory FreeList"
  m_TLSChunk :: "tid \<Rightarrow> addr option"
  mp_bPlacementNew :: bool
  mp_ObjectCount :: nat

text \<open>The constructor of a chunk sets the array pointer only; the rest is set by \<open>AllocInit\<close>.\<close>

definition ChunkMemory_new :: "'d ChunkMemory" where
  "ChunkMemory_new = \<lparr>m_Chunk = None, ck_bPlacementNew = False, ck_ObjectCount = 0,
     m_AllocIndex = 0, m_FreeCount = 0\<rparr>"

definition MemoryPool_new :: "int \<Rightarrow> nat \<Rightarrow> bool \<Rightarrow> 'd MemoryPool" where
  "MemoryPool_new mark objectCount placementNew =
     \<lparr>m_ChunkMemoryPool = FreeList_new mark False, m_TLSChunk = (\<lambda>t. None),
      mp_bPlacementNew = placementNew, mp_ObjectCount = objectCount\<rparr>"

text \<open>
  \<open>ctor\<close> is what \<^verbatim>\<open>new T\<close> constructs, \<open>raw\<close> what \<^verbatim>\<open>malloc\<close> leaves in an object; \<open>this\<close> is the
  chunk's own address.
\<close>

definition ChunkMemory_AllocInit ::
  "'d \<Rightarrow> 'd \<Rightarrow> addr \<Rightarrow> bool \<Rightarrow> nat \<Rightarrow> 'd ChunkMemory \<Rightarrow> 'd ChunkMemory" where
  "ChunkMemory_AllocInit ctor raw this placementNew objectCount ck =
     (case m_Chunk ck of
        None \<Rightarrow>
          ck\<lparr>ck_ObjectCount := objectCount, ck_bPlacementNew := placementNew,
             m_AllocIndex := objectCount, m_FreeCount := int objectCount,
             m_Chunk := Some (replicate objectCount
               \<lparr>ca_ChunkPtr = Some this, ca_MarkValue = MARK_FRONT,
                ca_Data = (if placementNew then raw else ctor)\<rparr>)\<rparr>
      | Some arr \<Rightarrow>
          ck\<lparr>m_FreeCount := int (ck_ObjectCount ck), m_AllocIndex := ck_ObjectCount ck\<rparr>)"

definition MemoryPool_ChunkSetting ::
  "'d \<Rightarrow> 'd \<Rightarrow> tid \<Rightarrow> 'd MemoryPool \<Rightarrow> (addr \<times> 'd MemoryPool) run" where
  "MemoryPool_ChunkSetting ctor raw t s =
     bnd (FreeList_Alloc ChunkMemory_new (m_ChunkMemoryPool s)) (\<lambda>(c, pool).
       let ck = ChunkMemory_AllocInit ctor raw c (mp_bPlacementNew s) (mp_ObjectCount s) (fl_get pool c)
       in Inr (c, s\<lparr>m_ChunkMemoryPool := fl_put c ck pool,
                    m_TLSChunk := (m_TLSChunk s)(t := Some c)\<rparr>))"

definition ChunkMemory_Alloc ::
  "'d \<Rightarrow> 'd \<Rightarrow> tid \<Rightarrow> addr \<Rightarrow> 'd MemoryPool \<Rightarrow> (objptr \<times> 'd MemoryPool) run" where
  "ChunkMemory_Alloc ctor raw t c s =
     (let ck = fl_get (m_ChunkMemoryPool s) c in
      case m_Chunk ck of
        None \<Rightarrow> Inl NullDeref
      | Some arr \<Rightarrow>
          (if m_AllocIndex ck = 0 \<or> length arr < m_AllocIndex ck then Inl OutOfBounds
           else
             let i = m_AllocIndex ck - 1;
                 arr = (if ck_bPlacementNew ck then arr[i := (arr ! i)\<lparr>ca_Data := ctor\<rparr>] else arr);
                 ck = ck\<lparr>m_AllocIndex := i, m_Chunk := Some arr\<rparr>;
                 s = s\<lparr>m_ChunkMemoryPool := fl_put c ck (m_ChunkMemoryPool s)\<rparr>
             in if i = 0 then bnd (MemoryPool_ChunkSetting ctor raw t s) (\<lambda>(_, s). Inr ((c, i), s))
                else Inr ((c, i), s)))"

definition MemoryPool_Alloc ::
  "'d \<Rightarrow> 'd \<Rightarrow> tid \<Rightarrow> 'd MemoryPool \<Rightarrow> (objptr \<times> 'd MemoryPool) run" where
  "MemoryPool_Alloc ctor raw t s =
     (case m_TLSChunk s t of
        None \<Rightarrow> bnd (MemoryPool_ChunkSetting ctor raw t s) (\<lambda>(c, s). ChunkMemory_Alloc ctor raw t c s)
      | Some c \<Rightarrow> ChunkMemory_Alloc ctor raw t c s)"

text \<open>An object as the pool's memory holds it; \<^const>\<open>None\<close> where there is none.\<close>

definition mp_object :: "'d MemoryPool \<Rightarrow> objptr \<Rightarrow> 'd ChunkAllocMemory option" where
  "mp_object s p =
     (case p of (c, i) \<Rightarrow>
        if length (fl_blocks (m_ChunkMemoryPool s)) \<le> c then None
        else case m_Chunk (fl_get (m_ChunkMemoryPool s) c) of
               None \<Rightarrow> None
             | Some arr \<Rightarrow> if length arr \<le> i then None else Some (arr ! i))"

definition ChunkMemory_Free ::
  "('d \<Rightarrow> 'd) \<Rightarrow> objptr \<Rightarrow> addr \<Rightarrow> 'd MemoryPool \<Rightarrow> (bool \<times> 'd MemoryPool) run" where
  "ChunkMemory_Free dtor data this s =
     (case (data, mp_object s data) of
        (_, None) \<Rightarrow> Inl OutOfBounds
      | ((c, i), Some obj) \<Rightarrow>
          (if ca_MarkValue obj \<noteq> MARK_FRONT then Inl FreeListUnderflow
           else if length (fl_blocks (m_ChunkMemoryPool s)) \<le> this then Inl OutOfBounds
           else
             let ck = fl_get (m_ChunkMemoryPool s) this;
                 owner = fl_get (m_ChunkMemoryPool s) c;
                 owner = owner\<lparr>m_Chunk := map_option (\<lambda>arr. arr[i := obj\<lparr>ca_Data := dtor (ca_Data obj)\<rparr>])
                                           (m_Chunk owner)\<rparr>;
                 pool = (if ck_bPlacementNew ck then fl_put c owner (m_ChunkMemoryPool s)
                         else m_ChunkMemoryPool s);
                 ck = fl_get pool this;
                 pool = fl_put this (ck\<lparr>m_FreeCount := m_FreeCount ck - 1\<rparr>) pool
             in if m_FreeCount ck - 1 = 0
                then bnd (FreeList_Free id this pool) (\<lambda>pool. Inr (True, s\<lparr>m_ChunkMemoryPool := pool\<rparr>))
                else Inr (False, s\<lparr>m_ChunkMemoryPool := pool\<rparr>)))"

definition MemoryPool_Free :: "('d \<Rightarrow> 'd) \<Rightarrow> objptr \<Rightarrow> 'd MemoryPool \<Rightarrow> 'd MemoryPool run" where
  "MemoryPool_Free dtor data s =
     (case mp_object s data of
        None \<Rightarrow> Inl OutOfBounds
      | Some obj \<Rightarrow>
          (case ca_ChunkPtr obj of
             None \<Rightarrow> Inl NullDeref
           | Some c \<Rightarrow> bnd (ChunkMemory_Free dtor data c s) (\<lambda>(_, s). Inr s)))"

definition MemoryPool_GetChunkCount :: "'d MemoryPool \<Rightarrow> int" where
  "MemoryPool_GetChunkCount s = FreeList_GetAllocCount (m_ChunkMemoryPool s)"

definition MemoryPool_GetPoolCount :: "'d MemoryPool \<Rightarrow> int" where
  "MemoryPool_GetPoolCount s = FreeList_GetPoolCount (m_ChunkMemoryPool s)"

definition MemoryPool_GetUseCount :: "'d MemoryPool \<Rightarrow> int" where
  "MemoryPool_GetUseCount s = FreeList_GetUseCount (m_ChunkMemoryPool s)"

text \<open>Reading and writing an object through its pointer.\<close>

definition mp_get :: "'d MemoryPool \<Rightarrow> objptr \<Rightarrow> 'd" where
  "mp_get s p = ca_Data (the (m_Chunk (fl_get (m_ChunkMemoryPool s) (fst p))) ! snd p)"

definition mp_put :: "objptr \<Rightarrow> 'd \<Rightarrow> 'd MemoryPool \<Rightarrow> 'd MemoryPool" where
  "mp_put p d s =
     (let ck = fl_get (m_ChunkMemoryPool s) (fst p) in
      s\<lparr>m_ChunkMemoryPool := fl_put (fst p)
          (ck\<lparr>m_Chunk := map_option (\<lambda>arr. arr[snd p := (arr ! snd p)\<lparr>ca_Data := d\<rparr>]) (m_Chunk ck)\<rparr>)
          (m_ChunkMemoryPool s)\<rparr>)"


section \<open>The pool's invariant\<close>

definition chunk_wf :: "nat \<Rightarrow> bool \<Rightarrow> addr \<Rightarrow> 'd ChunkMemory \<Rightarrow> bool" where
  "chunk_wf n b c ck \<longleftrightarrow>
     (case m_Chunk ck of
        None \<Rightarrow> True
      | Some arr \<Rightarrow> length arr = n \<and> ck_ObjectCount ck = n \<and> ck_bPlacementNew ck = b \<and>
          (\<forall>i<n. ca_ChunkPtr (arr ! i) = Some c \<and> ca_MarkValue (arr ! i) = MARK_FRONT))"

text \<open>
  A chunk \<open>c\<close> in use holds the objects handed out at or above its allocation index; its count
  is the number of those plus the number still to be handed out.
\<close>

definition chunk_used :: "nat \<Rightarrow> objptr set \<Rightarrow> addr \<Rightarrow> 'd ChunkMemory \<Rightarrow> bool" where
  "chunk_used n U c ck \<longleftrightarrow>
     m_Chunk ck \<noteq> None \<and> m_AllocIndex ck \<le> n \<and> (\<forall>i. (c, i) \<in> U \<longrightarrow> m_AllocIndex ck \<le> i \<and> i < n) \<and>
     m_FreeCount ck = int (card {i. (c, i) \<in> U}) + int (m_AllocIndex ck) \<and> 0 < m_FreeCount ck"

definition mp_core :: "'d MemoryPool \<Rightarrow> objptr set \<Rightarrow> addr set \<Rightarrow> bool" where
  "mp_core s U V \<longleftrightarrow>
     0 < mp_ObjectCount s \<and> fl_inv (m_ChunkMemoryPool s) V \<and>
     \<not> fl_bPlacementNew (m_ChunkMemoryPool s) \<and>
     (\<forall>c<length (fl_blocks (m_ChunkMemoryPool s)).
        chunk_wf (mp_ObjectCount s) (mp_bPlacementNew s) c (fl_get (m_ChunkMemoryPool s) c)) \<and>
     (\<forall>c\<in>V. chunk_used (mp_ObjectCount s) U c (fl_get (m_ChunkMemoryPool s) c)) \<and>
     fst ` U \<subseteq> V"

definition mp_tls :: "tid set \<Rightarrow> 'd MemoryPool \<Rightarrow> addr set \<Rightarrow> bool" where
  "mp_tls T s V \<longleftrightarrow>
     (\<forall>t\<in>T. \<forall>c. m_TLSChunk s t = Some c \<longrightarrow>
        c \<in> V \<and> 0 < m_AllocIndex (fl_get (m_ChunkMemoryPool s) c) \<and>
        (\<forall>t'\<in>T. m_TLSChunk s t' = Some c \<longrightarrow> t' = t))"

definition mp_inv :: "'d MemoryPool \<Rightarrow> objptr set \<Rightarrow> bool" where
  "mp_inv s U \<longleftrightarrow> (\<exists>V. mp_core s U V \<and> mp_tls UNIV s V)"

lemma mp_inv_new: "0 < n \<Longrightarrow> mp_inv (MemoryPool_new mark n b) {}"
  by (auto simp: mp_inv_def mp_core_def mp_tls_def MemoryPool_new_def FreeList_new_def fl_inv_def
      intro!: exI [of _ "{}"] exI [of _ "[]"])

lemma chunk_wf_AllocInit:
  "chunk_wf n b c ck \<Longrightarrow> chunk_wf n b c (ChunkMemory_AllocInit ctor raw c b n ck)"
  by (auto simp: chunk_wf_def ChunkMemory_AllocInit_def split: option.splits)

lemma chunk_used_AllocInit:
  assumes "chunk_wf n b c ck" "0 < n" "\<And>i. (c, i) \<notin> U"
  shows "chunk_used n U c (ChunkMemory_AllocInit ctor raw c b n ck)"
    and "m_AllocIndex (ChunkMemory_AllocInit ctor raw c b n ck) = n"
  using assms by (auto simp: chunk_used_def chunk_wf_def ChunkMemory_AllocInit_def split: option.splits)

lemma mp_get_cong:
  "fl_get (m_ChunkMemoryPool s') (fst q) = fl_get (m_ChunkMemoryPool s) (fst q) \<Longrightarrow> mp_get s' q = mp_get s q"
  by (simp add: mp_get_def)

lemma mp_tlsD:
  assumes "mp_tls T s V" "t \<in> T" "m_TLSChunk s t = Some c"
  shows "c \<in> V" "0 < m_AllocIndex (fl_get (m_ChunkMemoryPool s) c)"
    and "t' \<in> T \<Longrightarrow> m_TLSChunk s t' = Some c \<Longrightarrow> t' = t"
  using assms unfolding mp_tls_def by blast+

lemma ChunkSetting_ok:
  assumes core: "mp_core s U V" and tls: "mp_tls (- {t}) s V"
  shows "\<exists>c s'. MemoryPool_ChunkSetting ctor raw t s = Inr (c, s') \<and> c \<notin> V \<and>
     mp_core s' U (insert c V) \<and> mp_tls UNIV s' (insert c V) \<and> m_TLSChunk s' t = Some c \<and>
     (\<forall>q\<in>U. mp_get s' q = mp_get s q)"
proof -
  let ?n = "mp_ObjectCount s" and ?b = "mp_bPlacementNew s" and ?pool = "m_ChunkMemoryPool s"
  have c: "0 < ?n" "fl_inv ?pool V" "\<not> fl_bPlacementNew ?pool" "fst ` U \<subseteq> V"
    and wf: "\<And>c. c < length (fl_blocks ?pool) \<Longrightarrow> chunk_wf ?n ?b c (fl_get ?pool c)"
    and us: "\<And>c. c \<in> V \<Longrightarrow> chunk_used ?n U c (fl_get ?pool c)"
    using core by (auto simp: mp_core_def)
  from FreeList_Alloc_ok [OF c(2), of ChunkMemory_new] obtain p pool where a:
      "FreeList_Alloc ChunkMemory_new ?pool = Inr (p, pool)" "p \<notin> V" "fl_inv pool (insert p V)"
      "\<forall>q\<in>V. fl_get pool q = fl_get ?pool q" by blast
  note d = FreeList_Alloc_data [OF a(1) c(3)]
  let ?ck = "ChunkMemory_AllocInit ctor raw p ?b ?n (fl_get pool p)"
  define s' where "s' = s\<lparr>m_ChunkMemoryPool := fl_put p ?ck pool, m_TLSChunk := (m_TLSChunk s)(t := Some p)\<rparr>"
  have eq: "MemoryPool_ChunkSetting ctor raw t s = Inr (p, s')"
    by (simp add: MemoryPool_ChunkSetting_def a(1) Let_def s'_def)
  have wf': "chunk_wf ?n ?b q (fl_get pool q)" if "q < length (fl_blocks pool)" for q
  proof (cases "q < length (fl_blocks ?pool)")
    case False
    then have "q = p" "fl_get pool p = ChunkMemory_new" using d(6) [OF that] by simp_all
    then show ?thesis by (simp add: chunk_wf_def ChunkMemory_new_def)
  qed (use wf d(5) in simp)
  have new: "chunk_used ?n U p ?ck" "m_AllocIndex ?ck = ?n"
    using chunk_used_AllocInit [OF wf' [OF d(3)] c(1), of U ctor raw] a(2) c(4) by force+
  have core': "mp_core s' U (insert p V)"
    unfolding mp_core_def
  proof (intro conjI allI impI ballI)
    fix q assume "q < length (fl_blocks (m_ChunkMemoryPool s'))"
    then show "chunk_wf (mp_ObjectCount s') (mp_bPlacementNew s') q (fl_get (m_ChunkMemoryPool s') q)"
      using wf' [of q] chunk_wf_AllocInit [OF wf' [OF d(3)]] by (simp add: s'_def fl_get_put)
  next
    fix q assume "q \<in> insert p V"
    then show "chunk_used (mp_ObjectCount s') U q (fl_get (m_ChunkMemoryPool s') q)"
      using us new(1) a(2,4) d(3) by (auto simp: s'_def fl_get_put)
  qed (use c a d in \<open>auto simp: s'_def\<close>)
  have "mp_tls UNIV s' (insert p V)"
    unfolding mp_tls_def
  proof (intro ballI allI impI)
    fix u q assume u: "m_TLSChunk s' u = Some q"
    have other: "m_TLSChunk s v = Some q" "v \<noteq> t" if "m_TLSChunk s' v = Some q" "q \<noteq> p" for v
      using that by (auto simp: s'_def split: if_splits)
    have old: "w \<in> V" if "m_TLSChunk s v = Some w" "v \<noteq> t" for v w
      using mp_tlsD(1) [OF tls _ that(1)] that(2) by simp
    have only_t: "v = t" if "m_TLSChunk s' v = Some p" for v
      using that old [of v p] a(2) by (auto simp: s'_def split: if_splits)
    show "q \<in> insert p V \<and> 0 < m_AllocIndex (fl_get (m_ChunkMemoryPool s') q) \<and>
          (\<forall>v\<in>UNIV. m_TLSChunk s' v = Some q \<longrightarrow> v = u)"
    proof (cases "q = p")
      case True
      have "0 < m_AllocIndex (fl_get (m_ChunkMemoryPool s') p)"
        using new(2) c(1) d(3) by (simp add: s'_def fl_get_put)
      then show ?thesis using only_t u True by blast
    next
      case False
      have ut: "m_TLSChunk s u = Some q" "u \<noteq> t" using other [OF u False] by simp_all
      then have "u \<in> - {t}" by simp
      note D = mp_tlsD [OF tls this ut(1)]
      have "v = u" if "m_TLSChunk s' v = Some q" for v
        using D(3) [of v] other [OF that False] by simp
      moreover note D(1,2)
      moreover have "fl_get (m_ChunkMemoryPool s') q = fl_get ?pool q"
        using False a(4) D(1) by (simp add: s'_def fl_get_put)
      ultimately show ?thesis by simp
    qed
  qed
  moreover have "mp_get s' q = mp_get s q" if "q \<in> U" for q
  proof (rule mp_get_cong)
    have "fst q \<in> V" using that c(4) by auto
    then show "fl_get (m_ChunkMemoryPool s') (fst q) = fl_get (m_ChunkMemoryPool s) (fst q)"
      using a(2,4) by (auto simp: s'_def fl_get_put)
  qed
  ultimately show ?thesis using eq a(2) core' by (auto simp: s'_def)
qed

text \<open>Replacing one chunk in use.\<close>

lemma mp_core_put:
  assumes core: "mp_core s U V" and c: "c \<in> V"
    and wf: "chunk_wf (mp_ObjectCount s) (mp_bPlacementNew s) c ck"
    and used: "chunk_used (mp_ObjectCount s) U' c ck"
    and same: "\<And>c' i. c' \<noteq> c \<Longrightarrow> (c', i) \<in> U' \<longleftrightarrow> (c', i) \<in> U" and V: "fst ` U' \<subseteq> V"
  shows "mp_core (s\<lparr>m_ChunkMemoryPool := fl_put c ck (m_ChunkMemoryPool s)\<rparr>) U' V"
proof -
  let ?pool = "m_ChunkMemoryPool s"
  have old: "0 < mp_ObjectCount s" "fl_inv ?pool V" "\<not> fl_bPlacementNew ?pool"
    and wfs: "\<And>c. c < length (fl_blocks ?pool) \<Longrightarrow>
                 chunk_wf (mp_ObjectCount s) (mp_bPlacementNew s) c (fl_get ?pool c)"
    and us: "\<And>c. c \<in> V \<Longrightarrow> chunk_used (mp_ObjectCount s) U c (fl_get ?pool c)"
    using core by (auto simp: mp_core_def)
  have "c < length (fl_blocks ?pool)" using old(2) c by (rule fl_inv_less)
  moreover have "chunk_used (mp_ObjectCount s) U' c' (fl_get ?pool c')" if "c' \<in> V" "c' \<noteq> c" for c'
    using us [OF that(1)] same [OF that(2)] by (simp add: chunk_used_def)
  ultimately show ?thesis
    using old wfs wf used V by (auto simp: mp_core_def fl_get_put)
qed

lemma mp_core_chunk:
  assumes "mp_core s U V" "c \<in> V"
  obtains arr where "m_Chunk (fl_get (m_ChunkMemoryPool s) c) = Some arr"
    and "length arr = mp_ObjectCount s"
    and "chunk_wf (mp_ObjectCount s) (mp_bPlacementNew s) c (fl_get (m_ChunkMemoryPool s) c)"
    and "chunk_used (mp_ObjectCount s) U c (fl_get (m_ChunkMemoryPool s) c)"
    and "c < length (fl_blocks (m_ChunkMemoryPool s))"
proof -
  have lt: "c < length (fl_blocks (m_ChunkMemoryPool s))"
    using assms fl_inv_less by (auto simp: mp_core_def)
  have u: "chunk_used (mp_ObjectCount s) U c (fl_get (m_ChunkMemoryPool s) c)"
    and w: "chunk_wf (mp_ObjectCount s) (mp_bPlacementNew s) c (fl_get (m_ChunkMemoryPool s) c)"
    using assms lt by (auto simp: mp_core_def)
  then obtain arr where "m_Chunk (fl_get (m_ChunkMemoryPool s) c) = Some arr"
    by (auto simp: chunk_used_def)
  with lt u w show thesis by (intro that) (auto simp: chunk_wf_def)
qed

lemma finite_objects: "chunk_used n U c ck \<Longrightarrow> finite {i. (c, i) \<in> U}"
  by (rule finite_subset [of _ "{..<n}"]) (auto simp: chunk_used_def)

text \<open>With placement construction an allocated object holds what the constructor leaves.\<close>

definition placed :: "'d \<Rightarrow> 'd MemoryPool \<Rightarrow> objptr \<Rightarrow> 'd MemoryPool \<Rightarrow> bool" where
  "placed ctor s p s' \<longleftrightarrow> mp_bPlacementNew s' = mp_bPlacementNew s \<and> (mp_bPlacementNew s \<longrightarrow> mp_get s' p = ctor)"

lemma ChunkSetting_placement:
  "MemoryPool_ChunkSetting ctor raw t s = Inr (c, s') \<Longrightarrow> mp_bPlacementNew s' = mp_bPlacementNew s"
  by (auto simp: MemoryPool_ChunkSetting_def run_simps Let_def split: prod.splits)

lemma ChunkMemory_Alloc_ok:
  assumes core: "mp_core s U V" and tls: "mp_tls UNIV s V" and t: "m_TLSChunk s t = Some c"
  shows "\<exists>p s'. ChunkMemory_Alloc ctor raw t c s = Inr (p, s') \<and> p \<notin> U \<and> mp_inv s' (insert p U) \<and>
           (\<forall>q\<in>U. mp_get s' q = mp_get s q) \<and> placed ctor s p s'"
proof -
  let ?n = "mp_ObjectCount s" and ?b = "mp_bPlacementNew s" and ?pool = "m_ChunkMemoryPool s"
  let ?ck = "fl_get ?pool c"
  note D = mp_tlsD [OF tls UNIV_I t]
  obtain arr where arr: "m_Chunk ?ck = Some arr" "length arr = ?n" and wf: "chunk_wf ?n ?b c ?ck"
    and us: "chunk_used ?n U c ?ck" and lt: "c < length (fl_blocks ?pool)"
    using mp_core_chunk [OF core D(1)] .
  define i where "i = m_AllocIndex ?ck - 1"
  have k: "0 < m_AllocIndex ?ck" "m_AllocIndex ?ck \<le> ?n" "m_AllocIndex ?ck = Suc i" "i < ?n"
    using D(2) us by (auto simp: chunk_used_def i_def)
  define arr' where "arr' = (if ck_bPlacementNew ?ck then arr[i := (arr ! i)\<lparr>ca_Data := ctor\<rparr>] else arr)"
  define ck' where "ck' = ?ck\<lparr>m_AllocIndex := i, m_Chunk := Some arr'\<rparr>"
  define s1 where "s1 = s\<lparr>m_ChunkMemoryPool := fl_put c ck' ?pool\<rparr>"
  have fresh: "(c, i) \<notin> U" using us k(3) by (auto simp: chunk_used_def)
  have "{j. (c, j) \<in> insert (c, i) U} = insert i {j. (c, j) \<in> U}" by auto
  then have card: "card {j. (c, j) \<in> insert (c, i) U} = Suc (card {j. (c, j) \<in> U})"
    using finite_objects [OF us] fresh by simp
  have core1: "mp_core s1 (insert (c, i) U) V"
    unfolding s1_def
  proof (rule mp_core_put [OF core D(1)])
    show "chunk_wf ?n ?b c ck'"
      using wf arr by (auto simp: chunk_wf_def ck'_def arr'_def nth_update_if)
    show "chunk_used ?n (insert (c, i) U) c ck'"
      using us k card unfolding chunk_used_def ck'_def by auto
    show "fst ` insert (c, i) U \<subseteq> V" using core D(1) by (auto simp: mp_core_def)
  qed auto
  have pool1: "fl_get (m_ChunkMemoryPool s1) d = (if d = c then ck' else fl_get ?pool d)" for d
    using lt by (simp add: s1_def fl_get_put)
  have tls1: "mp_tls T s1 V" if "T = - {t} \<or> 0 < i" for T
    unfolding mp_tls_def
  proof (intro ballI allI impI)
    fix u d assume u: "u \<in> T" "m_TLSChunk s1 u = Some d"
    then have us: "m_TLSChunk s u = Some d" by (simp add: s1_def)
    note E = mp_tlsD [OF tls UNIV_I us]
    have "0 < m_AllocIndex (fl_get (m_ChunkMemoryPool s1) d)"
    proof (cases "d = c")
      case True
      then have "t = u" using E(3) [OF UNIV_I] t by simp
      then show ?thesis using that u(1) True by (auto simp: pool1 ck'_def)
    qed (use E(2) in \<open>simp add: pool1\<close>)
    moreover have "\<forall>v\<in>T. m_TLSChunk s1 v = Some d \<longrightarrow> v = u" using E(3) by (simp add: s1_def)
    ultimately show "d \<in> V \<and> 0 < m_AllocIndex (fl_get (m_ChunkMemoryPool s1) d) \<and>
        (\<forall>v\<in>T. m_TLSChunk s1 v = Some d \<longrightarrow> v = u)" using E(1) by blast
  qed
  have get1: "mp_get s1 q = mp_get s q" if "q \<in> U" for q
  proof (cases "fst q = c")
    case True
    then have "snd q \<noteq> i" using that fresh by (cases q) auto
    then show ?thesis using True arr by (simp add: mp_get_def pool1 ck'_def arr'_def nth_update_if)
  qed (simp add: mp_get_def pool1)
  have "ck_bPlacementNew ?ck = ?b" using wf arr(1) by (simp add: chunk_wf_def)
  then have placed1: "placed ctor s (c, i) s1"
    using arr k(4) by (simp add: placed_def mp_get_def pool1 ck'_def arr'_def) (simp add: s1_def)
  have step: "ChunkMemory_Alloc ctor raw t c s =
      (if i = 0 then bnd (MemoryPool_ChunkSetting ctor raw t s1) (\<lambda>(_, s). Inr ((c, i), s)) else Inr ((c, i), s1))"
    using arr k by (simp add: ChunkMemory_Alloc_def Let_def s1_def ck'_def arr'_def)
  show ?thesis
  proof (cases "i = 0")
    case True
    have "mp_tls (- {t}) s1 V" by (intro tls1) simp
    from ChunkSetting_ok [OF core1 this] obtain c2 s2 where
        "MemoryPool_ChunkSetting ctor raw t s1 = Inr (c2, s2)"
        "mp_core s2 (insert (c, i) U) (insert c2 V)" "mp_tls UNIV s2 (insert c2 V)"
        "\<forall>q\<in>insert (c, i) U. mp_get s2 q = mp_get s1 q"
      by blast
    then have s2: "MemoryPool_ChunkSetting ctor raw t s1 = Inr (c2, s2)" "mp_inv s2 (insert (c, i) U)"
        "\<forall>q\<in>U. mp_get s2 q = mp_get s1 q" "mp_get s2 (c, i) = mp_get s1 (c, i)"
      by (auto simp: mp_inv_def)
    have "placed ctor s (c, i) s2"
      using placed1 ChunkSetting_placement [OF s2(1)] s2(4) by (simp add: placed_def)
    note s2 = s2(1-3) this
    have "ChunkMemory_Alloc ctor raw t c s = Inr ((c, i), s2)" using step True s2(1) by simp
    then show ?thesis using fresh s2(2-4) get1 by metis
  next
    case False
    then have "mp_tls UNIV s1 V" by (intro tls1) simp
    then have "mp_inv s1 (insert (c, i) U)" using core1 by (auto simp: mp_inv_def)
    moreover have "ChunkMemory_Alloc ctor raw t c s = Inr ((c, i), s1)" using step False by simp
    ultimately show ?thesis using fresh get1 placed1 by metis
  qed
qed

lemma MemoryPool_Alloc_placed:
  assumes "mp_inv s U"
  shows "\<exists>p s'. MemoryPool_Alloc ctor raw t s = Inr (p, s') \<and> p \<notin> U \<and> mp_inv s' (insert p U) \<and>
           (\<forall>q\<in>U. mp_get s' q = mp_get s q) \<and> placed ctor s p s'"
proof -
  obtain V where core: "mp_core s U V" and tls: "mp_tls UNIV s V" using assms by (auto simp: mp_inv_def)
  show ?thesis
  proof (cases "m_TLSChunk s t")
    case None
    have "mp_tls (- {t}) s V" using tls by (auto simp: mp_tls_def)
    from ChunkSetting_ok [OF core this] obtain c s1 where s1:
        "MemoryPool_ChunkSetting ctor raw t s = Inr (c, s1)" "mp_core s1 U (insert c V)"
        "mp_tls UNIV s1 (insert c V)" "m_TLSChunk s1 t = Some c" "\<forall>q\<in>U. mp_get s1 q = mp_get s q"
      by blast
    from ChunkMemory_Alloc_ok [OF s1(2-4), of ctor raw] show ?thesis
      using None s1(1,5) ChunkSetting_placement [OF s1(1)] by (fastforce simp: MemoryPool_Alloc_def placed_def)
  next
    case (Some c)
    then show ?thesis
      using ChunkMemory_Alloc_ok [OF core tls Some, of ctor raw] by (simp add: MemoryPool_Alloc_def)
  qed
qed

lemma MemoryPool_Alloc_ok:
  assumes "mp_inv s U"
  shows "\<exists>p s'. MemoryPool_Alloc ctor raw t s = Inr (p, s') \<and> p \<notin> U \<and> mp_inv s' (insert p U) \<and>
           (\<forall>q\<in>U. mp_get s' q = mp_get s q)"
  using MemoryPool_Alloc_placed [OF assms, of ctor raw t] by blast

lemma mp_object_used:
  assumes core: "mp_core s U V" and p: "(c, i) \<in> U"
  obtains obj where "mp_object s (c, i) = Some obj" and "ca_ChunkPtr obj = Some c"
    and "ca_MarkValue obj = MARK_FRONT" and "ca_Data obj = mp_get s (c, i)"
proof -
  have c: "c \<in> V" using core p by (force simp: mp_core_def)
  obtain arr where arr: "m_Chunk (fl_get (m_ChunkMemoryPool s) c) = Some arr" "length arr = mp_ObjectCount s"
      "chunk_wf (mp_ObjectCount s) (mp_bPlacementNew s) c (fl_get (m_ChunkMemoryPool s) c)"
      "chunk_used (mp_ObjectCount s) U c (fl_get (m_ChunkMemoryPool s) c)"
      "c < length (fl_blocks (m_ChunkMemoryPool s))"
    using mp_core_chunk [OF core c] .
  have "i < mp_ObjectCount s" using arr(4) p by (simp add: chunk_used_def)
  with arr show thesis
    by (intro that [of "arr ! i"]) (simp_all add: mp_object_def chunk_wf_def mp_get_def)
qed

lemma mp_tls_put:
  assumes "mp_tls UNIV s V" and "m_AllocIndex ck = m_AllocIndex (fl_get (m_ChunkMemoryPool s) c)"
  shows "mp_tls UNIV (s\<lparr>m_ChunkMemoryPool := fl_put c ck (m_ChunkMemoryPool s)\<rparr>) V"
  using assms unfolding mp_tls_def by (simp add: fl_get_put)

lemma MemoryPool_Free_ok:
  assumes inv: "mp_inv s U" and p: "p \<in> U"
  shows "\<exists>s'. MemoryPool_Free dtor p s = Inr s' \<and> mp_inv s' (U - {p}) \<and>
           (\<forall>q\<in>U - {p}. mp_get s' q = mp_get s q)"
proof -
  obtain V where core: "mp_core s U V" and tls: "mp_tls UNIV s V" using inv by (auto simp: mp_inv_def)
  obtain c i where pc: "p = (c, i)" by (cases p)
  let ?n = "mp_ObjectCount s" and ?b = "mp_bPlacementNew s" and ?pool = "m_ChunkMemoryPool s"
  let ?ck = "fl_get ?pool c"
  have c: "c \<in> V" using core p pc by (force simp: mp_core_def)
  obtain arr where arr: "m_Chunk ?ck = Some arr" "length arr = ?n" and wf: "chunk_wf ?n ?b c ?ck"
    and us: "chunk_used ?n U c ?ck" and lt: "c < length (fl_blocks ?pool)"
    using mp_core_chunk [OF core c] .
  obtain obj where obj: "mp_object s (c, i) = Some obj" "ca_ChunkPtr obj = Some c"
      "ca_MarkValue obj = MARK_FRONT"
    using mp_object_used [OF core p [unfolded pc]] by blast
  have objarr: "obj = arr ! i" "i < length arr"
    using obj(1) arr(1) lt by (auto simp: mp_object_def split: if_splits)
  define arr' where "arr' = (if ck_bPlacementNew ?ck then arr[i := obj\<lparr>ca_Data := dtor (ca_Data obj)\<rparr>] else arr)"
  define ck' where "ck' = ?ck\<lparr>m_Chunk := Some arr', m_FreeCount := m_FreeCount ?ck - 1\<rparr>"
  define pool1 where "pool1 = fl_put c ck' ?pool"
  have put_put: "fl_put c b (fl_put c a ?pool) = fl_put c b ?pool" for a b
    using lt by (simp add: fl_put_def)
  have ck_same: "?ck\<lparr>m_Chunk := Some arr, m_FreeCount := x\<rparr> = ?ck\<lparr>m_FreeCount := x\<rparr>" for x
    using arr(1) by (cases ?ck) simp
  have step: "MemoryPool_Free dtor p s =
      (if m_FreeCount ?ck - 1 = 0 then bnd (FreeList_Free id c pool1) (\<lambda>pool. Inr (s\<lparr>m_ChunkMemoryPool := pool\<rparr>))
       else Inr (s\<lparr>m_ChunkMemoryPool := pool1\<rparr>))"
    using obj arr lt
    by (cases "ck_bPlacementNew ?ck")
       (simp_all add: MemoryPool_Free_def ChunkMemory_Free_def pc Let_def fl_get_put put_put
          pool1_def ck'_def arr'_def bnd_assoc split_def ck_same)
  have "{j. (c, j) \<in> U} = insert i {j. (c, j) \<in> U - {p}}" using p pc by auto
  moreover have "i \<notin> {j. (c, j) \<in> U - {p}}" "finite {j. (c, j) \<in> U - {p}}"
    using pc finite_subset [OF _ finite_objects [OF us], of "{j. (c, j) \<in> U - {p}}"] by auto
  ultimately have card: "card {j. (c, j) \<in> U} = Suc (card {j. (c, j) \<in> U - {p}})"
    by (metis card_insert_disjoint)
  have wf1: "chunk_wf ?n ?b c ck'"
    using wf arr(1) objarr by (auto simp: chunk_wf_def ck'_def arr'_def nth_update_if)
  have get1: "mp_get (s\<lparr>m_ChunkMemoryPool := pool1\<rparr>) q = mp_get s q" if "q \<in> U - {p}" for q
    using that arr(1) lt pc by (cases q) (auto simp: mp_get_def pool1_def fl_get_put ck'_def arr'_def nth_update_if)
  show ?thesis
  proof (cases "m_FreeCount ?ck - 1 = 0")
    case False
    have "chunk_used ?n (U - {p}) c ck'"
      using us card False by (auto simp: chunk_used_def ck'_def)
    then have "mp_core (s\<lparr>m_ChunkMemoryPool := pool1\<rparr>) (U - {p}) V"
      unfolding pool1_def using core pc by (intro mp_core_put [OF core c wf1]) (auto simp: mp_core_def)
    moreover have "mp_tls UNIV (s\<lparr>m_ChunkMemoryPool := pool1\<rparr>) V"
      unfolding pool1_def using tls by (rule mp_tls_put) (simp add: ck'_def)
    ultimately show ?thesis using step False get1 by (auto simp: mp_inv_def)
  next
    case True
    then have none: "card {j. (c, j) \<in> U - {p}} = 0" "m_AllocIndex ?ck = 0"
      using us card by (auto simp: chunk_used_def)
    have "finite {j. (c, j) \<in> U - {p}}"
      by (rule finite_subset [OF _ finite_objects [OF us]]) auto
    then have "{j. (c, j) \<in> U - {p}} = {}" using none(1) by (simp only: card_0_eq)
    then have empty: "d \<in> V - {c}" if "(d, j) \<in> U - {p}" for d j
      using that core by (force simp: mp_core_def)
    then have V: "fst ` (U - {p}) \<subseteq> V - {c}" by force
    have "fl_inv pool1 V" using core by (simp add: pool1_def mp_core_def)
    from FreeList_Free_ok [OF this c, of id] obtain pool2 where f:
        "FreeList_Free id c pool1 = Inr pool2" "fl_inv pool2 (V - {c})" by blast
    have np: "\<not> fl_bPlacementNew pool1" using core by (simp add: pool1_def mp_core_def)
    note d = FreeList_Free_data [OF f(1) np]
    let ?s2 = "s\<lparr>m_ChunkMemoryPool := pool2\<rparr>"
    have get2: "fl_get pool2 q = (if q = c then ck' else fl_get ?pool q)" for q
      using d(3) lt by (simp add: pool1_def fl_get_put)
    have "mp_core ?s2 (U - {p}) (V - {c})"
      unfolding mp_core_def
    proof (intro conjI allI impI ballI)
      fix q assume "q < length (fl_blocks (m_ChunkMemoryPool ?s2))"
      then show "chunk_wf (mp_ObjectCount ?s2) (mp_bPlacementNew ?s2) q (fl_get (m_ChunkMemoryPool ?s2) q)"
        using core wf1 d(2) by (simp add: get2 mp_core_def pool1_def)
    next
      fix q assume q: "q \<in> V - {c}"
      then have "{j. (q, j) \<in> U - {p}} = {j. (q, j) \<in> U}" using pc by auto
      then show "chunk_used (mp_ObjectCount ?s2) (U - {p}) q (fl_get (m_ChunkMemoryPool ?s2) q)"
        using core q by (auto simp: get2 mp_core_def chunk_used_def)
    qed (use core f(2) d(1) V in \<open>simp_all add: mp_core_def\<close>)
    moreover have "mp_tls UNIV ?s2 (V - {c})"
      unfolding mp_tls_def
    proof (intro ballI allI impI)
      fix u d assume "m_TLSChunk ?s2 u = Some d"
      then have us: "m_TLSChunk s u = Some d" by simp
      note E = mp_tlsD [OF tls UNIV_I us]
      have "d \<noteq> c" using E(2) none(2) by auto
      then show "d \<in> V - {c} \<and> 0 < m_AllocIndex (fl_get (m_ChunkMemoryPool ?s2) d) \<and>
          (\<forall>v\<in>UNIV. m_TLSChunk ?s2 v = Some d \<longrightarrow> v = u)"
        using E(1,2) E(3) [OF UNIV_I] by (simp add: get2)
    qed
    moreover have "mp_get ?s2 q = mp_get s q" if "q \<in> U - {p}" for q
      using get1 [OF that] d(3) by (simp add: mp_get_def)
    ultimately show ?thesis using step True f(1) by (auto simp: mp_inv_def)
  qed
qed

section \<open>The pool provides the pool contract\<close>

interpretation tls_pool: object_pool mp_inv mp_get "MemoryPool_Alloc ctor raw" "MemoryPool_Free dtor"
  for ctor raw :: 'd and dtor :: "'d \<Rightarrow> 'd"
  by unfold_locales (erule MemoryPool_Alloc_ok, erule (1) MemoryPool_Free_ok)

text \<open>Writing to an object held leaves the pool and the other objects as they are.\<close>

lemma mp_put_ok:
  assumes inv: "mp_inv s U" and p: "p \<in> U"
  shows "mp_inv (mp_put p d s) U" and "mp_get (mp_put p d s) p = d"
    and "q \<in> U \<Longrightarrow> q \<noteq> p \<Longrightarrow> mp_get (mp_put p d s) q = mp_get s q"
proof -
  obtain V where core: "mp_core s U V" and tls: "mp_tls UNIV s V" using inv by (auto simp: mp_inv_def)
  obtain c i where pc: "p = (c, i)" by (cases p)
  have c: "c \<in> V" using core p pc by (force simp: mp_core_def)
  obtain arr where arr: "m_Chunk (fl_get (m_ChunkMemoryPool s) c) = Some arr" "length arr = mp_ObjectCount s"
      "chunk_wf (mp_ObjectCount s) (mp_bPlacementNew s) c (fl_get (m_ChunkMemoryPool s) c)"
      "chunk_used (mp_ObjectCount s) U c (fl_get (m_ChunkMemoryPool s) c)"
      "c < length (fl_blocks (m_ChunkMemoryPool s))"
    using mp_core_chunk [OF core c] .
  have i: "i < length arr" using arr(2,4) p pc by (simp add: chunk_used_def)
  let ?ck = "(fl_get (m_ChunkMemoryPool s) c)\<lparr>m_Chunk := Some (arr[i := (arr ! i)\<lparr>ca_Data := d\<rparr>])\<rparr>"
  have eq: "mp_put p d s = s\<lparr>m_ChunkMemoryPool := fl_put c ?ck (m_ChunkMemoryPool s)\<rparr>"
    using arr(1) by (simp add: mp_put_def pc Let_def)
  have "mp_core (mp_put p d s) U V"
    unfolding eq using core arr
    by (intro mp_core_put [OF core c]) (auto simp: mp_core_def chunk_wf_def chunk_used_def nth_update_if)
  moreover have "mp_tls UNIV (mp_put p d s) V"
    unfolding eq using tls by (rule mp_tls_put) simp
  ultimately show "mp_inv (mp_put p d s) U" by (auto simp: mp_inv_def)
  show "mp_get (mp_put p d s) p = d"
    using arr i by (simp add: eq [unfolded pc] mp_get_def pc fl_get_put)
  show "q \<in> U \<Longrightarrow> q \<noteq> p \<Longrightarrow> mp_get (mp_put p d s) q = mp_get s q"
    using arr by (cases q) (auto simp: eq [unfolded pc] mp_get_def pc fl_get_put nth_update_if)
qed

section \<open>Properties\<close>

text \<open>
  C32. The thread local pool over any interleaving of threads: allocations by any threads and
  frees of objects held, on any thread, run without a fault; no object is handed out twice,
  chunk boundaries and recycled chunks included, and an object kept throughout keeps its value.
\<close>

theorem MemoryPool_discipline:
  assumes "mp_inv s U" "distinct held" "set held \<subseteq> U"
  shows "\<exists>held' s'. pool_run (MemoryPool_Alloc ctor raw) (MemoryPool_Free dtor) ops held s = Inr (held', s') \<and>
           distinct held' \<and> mp_inv s' ((U - set held) \<union> set held') \<and>
           set held' \<inter> (U - set held) = {} \<and> (\<forall>q\<in>U - set held. mp_get s' q = mp_get s q)"
  using assms by (rule tls_pool.pool_discipline)

theorem MemoryPool_discipline_witness:
  "\<exists>held' s'. pool_run (MemoryPool_Alloc (5::nat) 0) (MemoryPool_Free id)
      [AllocOp 1, AllocOp 2, AllocOp 1, FreeOp 1, AllocOp 2, FreeOp 0] [] (MemoryPool_new 1 2 True)
    = Inr (held', s') \<and> distinct held'"
proof -
  have "mp_inv (MemoryPool_new 1 2 True :: nat MemoryPool) {}" by (rule mp_inv_new) simp
  from MemoryPool_discipline [OF this, of "[]" 5 0 id
      "[AllocOp 1, AllocOp 2, AllocOp 1, FreeOp 1, AllocOp 2, FreeOp 0]"]
  show ?thesis by auto
qed

end
