(* ===== verification/Packet.thy ===== *)
theory Packet
  imports Prelude
begin

text \<open>
  The serialisation buffers of SerializeBuffer.cpp: \<^verbatim>\<open>LanPacket\<close> (1000 bytes, a 2 byte header)
  and \<^verbatim>\<open>NetPacket\<close> (300 bytes, a 5 byte header).  The payload is written at \<open>m_WritePos\<close> and
  read at \<open>m_ReadPos\<close>, both relative to \<open>m_PayloadPtr\<close>, here an offset into \<open>m_Buffer\<close>.  The
  sizes are \<^verbatim>\<open>int32_t\<close> that the code compares with \<^verbatim>\<open>sizeof\<close>, an unsigned 64 bit number.
  \<^verbatim>\<open>PacketExcept\<close> is the exception the operators throw; a copy that leaves \<open>m_Buffer\<close> is
  \<^const>\<open>OutOfBounds\<close>.  A scalar is its bits: \<^verbatim>\<open>float\<close> and \<^verbatim>\<open>double\<close> are copied as 32 and 64.
\<close>

section \<open>State\<close>

record SerBuf =
  m_PayloadFreeSize :: int
  m_PayloadSize :: int
  m_bSetHeader :: bool
  m_Buffer :: "byte list"
  m_PayloadPtr :: int
  m_WritePos :: int
  m_ReadPos :: int
  m_RefCount :: "32 word"

type_synonym LanPacket = SerBuf

record NetPacket = SerBuf +
  m_bEencode :: bool

definition LanPacket_BUFFER_SIZE :: int where
  "LanPacket_BUFFER_SIZE = 1000"

definition NetPacket_BUFFER_SIZE :: int where
  "NetPacket_BUFFER_SIZE = 300"

definition sizeof_LanHeader :: int where
  "sizeof_LanHeader = 2"

definition sizeof_NetHeader :: int where
  "sizeof_NetHeader = 5"

definition LanPacket_new :: LanPacket where
  "LanPacket_new =
     \<lparr>m_PayloadFreeSize = LanPacket_BUFFER_SIZE - sizeof_LanHeader, m_PayloadSize = 0,
      m_bSetHeader = False, m_Buffer = replicate (nat LanPacket_BUFFER_SIZE) 0,
      m_PayloadPtr = sizeof_LanHeader, m_WritePos = 0, m_ReadPos = 0, m_RefCount = 1\<rparr>"

definition NetPacket_new :: NetPacket where
  "NetPacket_new =
     \<lparr>m_PayloadFreeSize = NetPacket_BUFFER_SIZE - sizeof_NetHeader, m_PayloadSize = 0,
      m_bSetHeader = False, m_Buffer = replicate (nat NetPacket_BUFFER_SIZE) 0,
      m_PayloadPtr = sizeof_NetHeader, m_WritePos = 0, m_ReadPos = 0, m_RefCount = 1,
      m_bEencode = False\<rparr>"

section \<open>What both classes share\<close>

text \<open>
  An \<^verbatim>\<open>int32_t\<close> compared with \<^verbatim>\<open>sizeof\<close> becomes unsigned, so a negative size is never below it.
\<close>

definition lt_sizeof :: "int \<Rightarrow> int \<Rightarrow> bool" where
  "lt_sizeof a n \<longleftrightarrow> 0 \<le> a \<and> a < n"

text \<open>The body every \<^verbatim>\<open>operator<<\<close> has, for the bytes of its argument.\<close>

definition put_scalar :: "byte list \<Rightarrow> 'a SerBuf_scheme \<Rightarrow> 'a SerBuf_scheme run" where
  "put_scalar bs p =
     (let n = int (length bs) in
      if lt_sizeof (m_PayloadFreeSize p) n then Inl PacketExcept
      else bnd (memcpy_in (m_Buffer p) (m_PayloadPtr p + m_WritePos p) bs) (\<lambda>buf.
        Inr (p\<lparr>m_Buffer := buf,
               m_WritePos := m_WritePos p + n,
               m_PayloadSize := m_PayloadSize p + n,
               m_PayloadFreeSize := m_PayloadFreeSize p - n\<rparr>)))"

text \<open>The body every \<^verbatim>\<open>operator>>\<close> has, for a value of \<open>n\<close> bytes.\<close>

definition get_scalar :: "int \<Rightarrow> 'a SerBuf_scheme \<Rightarrow> (byte list \<times> 'a SerBuf_scheme) run" where
  "get_scalar n p =
     (if lt_sizeof (m_PayloadSize p) n then Inl PacketExcept
      else bnd (memcpy_out (m_Buffer p) (m_PayloadPtr p + m_ReadPos p) n) (\<lambda>bs.
        Inr (bs, p\<lparr>m_ReadPos := m_ReadPos p + n,
                   m_PayloadSize := m_PayloadSize p - n,
                   m_PayloadFreeSize := m_PayloadFreeSize p + n\<rparr>)))"

definition get_word :: "int \<Rightarrow> 'a SerBuf_scheme \<Rightarrow> ('w::len word \<times> 'a SerBuf_scheme) run" where
  "get_word n p = bnd (get_scalar n p) (\<lambda>(bs, p'). Inr (of_le bs, p'))"

section \<open>\<^verbatim>\<open>LanPacket\<close>\<close>

definition LanPacket_Clear :: "LanPacket \<Rightarrow> LanPacket" where
  "LanPacket_Clear p =
     p\<lparr>m_PayloadFreeSize := LanPacket_BUFFER_SIZE - sizeof_LanHeader, m_ReadPos := 0, m_WritePos := 0,
       m_PayloadSize := 0, m_bSetHeader := False, m_RefCount := 1\<rparr>"

definition LanPacket_Release :: "LanPacket \<Rightarrow> LanPacket" where
  "LanPacket_Release p = p"

definition LanPacket_GetFreeFullBufferSize :: "LanPacket \<Rightarrow> int" where
  "LanPacket_GetFreeFullBufferSize p =
     (if m_bSetHeader p then m_PayloadFreeSize p - sizeof_LanHeader else m_PayloadFreeSize p)"

definition LanPacket_GetFreePayloadBufferSize :: "LanPacket \<Rightarrow> int" where
  "LanPacket_GetFreePayloadBufferSize p = m_PayloadFreeSize p"

definition LanPacket_GetPayloadSize :: "LanPacket \<Rightarrow> int" where
  "LanPacket_GetPayloadSize p = m_PayloadSize p"

definition LanPacket_GetFullPacketSize :: "LanPacket \<Rightarrow> int" where
  "LanPacket_GetFullPacketSize p =
     (if m_bSetHeader p then m_PayloadSize p + sizeof_LanHeader else m_PayloadSize p)"

definition LanPacket_GetBufferPtr :: "LanPacket \<Rightarrow> int" where
  "LanPacket_GetBufferPtr p = 0"

definition LanPacket_GetPayloadPtr :: "LanPacket \<Rightarrow> int" where
  "LanPacket_GetPayloadPtr p = LanPacket_GetBufferPtr p + sizeof_LanHeader"

definition LanPacket_MoveWritePos :: "int \<Rightarrow> LanPacket \<Rightarrow> int \<times> LanPacket" where
  "LanPacket_MoveWritePos sz p =
     (if sz < 0 then (0, p)
      else let sz = (if m_PayloadFreeSize p \<le> sz then m_PayloadFreeSize p else sz) in
        (sz, p\<lparr>m_WritePos := m_WritePos p + sz,
               m_PayloadSize := m_PayloadSize p + sz,
               m_PayloadFreeSize := m_PayloadFreeSize p - sz\<rparr>))"

definition LanPacket_MoveReadPos :: "int \<Rightarrow> LanPacket \<Rightarrow> int \<times> LanPacket" where
  "LanPacket_MoveReadPos sz p =
     (if sz < 0 then (0, p)
      else let sz = (if m_PayloadSize p \<le> sz then m_PayloadSize p else sz) in
        (sz, p\<lparr>m_ReadPos := m_ReadPos p + sz,
               m_PayloadSize := m_PayloadSize p - sz,
               m_PayloadFreeSize := m_PayloadFreeSize p + sz\<rparr>))"

text \<open>The operators, one per type.\<close>

definition LanPacket_put_BYTE :: "8 word \<Rightarrow> LanPacket \<Rightarrow> LanPacket run" where
  "LanPacket_put_BYTE inValue p = put_scalar (le_bytes 1 inValue) p"

definition LanPacket_put_char :: "8 word \<Rightarrow> LanPacket \<Rightarrow> LanPacket run" where
  "LanPacket_put_char inValue p = put_scalar (le_bytes 1 inValue) p"

definition LanPacket_put_short :: "16 word \<Rightarrow> LanPacket \<Rightarrow> LanPacket run" where
  "LanPacket_put_short inValue p = put_scalar (le_bytes 2 inValue) p"

definition LanPacket_put_WORD :: "16 word \<Rightarrow> LanPacket \<Rightarrow> LanPacket run" where
  "LanPacket_put_WORD inValue p = put_scalar (le_bytes 2 inValue) p"

definition LanPacket_put_int32 :: "32 word \<Rightarrow> LanPacket \<Rightarrow> LanPacket run" where
  "LanPacket_put_int32 inValue p = put_scalar (le_bytes 4 inValue) p"

definition LanPacket_put_DWORD :: "32 word \<Rightarrow> LanPacket \<Rightarrow> LanPacket run" where
  "LanPacket_put_DWORD inValue p = put_scalar (le_bytes 4 inValue) p"

definition LanPacket_put_float :: "32 word \<Rightarrow> LanPacket \<Rightarrow> LanPacket run" where
  "LanPacket_put_float inValue p = put_scalar (le_bytes 4 inValue) p"

definition LanPacket_put_int64 :: "64 word \<Rightarrow> LanPacket \<Rightarrow> LanPacket run" where
  "LanPacket_put_int64 inValue p = put_scalar (le_bytes 8 inValue) p"

definition LanPacket_put_double :: "64 word \<Rightarrow> LanPacket \<Rightarrow> LanPacket run" where
  "LanPacket_put_double inValue p = put_scalar (le_bytes 8 inValue) p"

definition LanPacket_get_BYTE :: "LanPacket \<Rightarrow> (8 word \<times> LanPacket) run" where
  "LanPacket_get_BYTE p = get_word 1 p"

definition LanPacket_get_char :: "LanPacket \<Rightarrow> (8 word \<times> LanPacket) run" where
  "LanPacket_get_char p = get_word 1 p"

definition LanPacket_get_short :: "LanPacket \<Rightarrow> (16 word \<times> LanPacket) run" where
  "LanPacket_get_short p = get_word 2 p"

definition LanPacket_get_WORD :: "LanPacket \<Rightarrow> (16 word \<times> LanPacket) run" where
  "LanPacket_get_WORD p = get_word 2 p"

definition LanPacket_get_int32 :: "LanPacket \<Rightarrow> (32 word \<times> LanPacket) run" where
  "LanPacket_get_int32 p = get_word 4 p"

definition LanPacket_get_DWORD :: "LanPacket \<Rightarrow> (32 word \<times> LanPacket) run" where
  "LanPacket_get_DWORD p = get_word 4 p"

definition LanPacket_get_float :: "LanPacket \<Rightarrow> (32 word \<times> LanPacket) run" where
  "LanPacket_get_float p = get_word 4 p"

definition LanPacket_get_int64 :: "LanPacket \<Rightarrow> (64 word \<times> LanPacket) run" where
  "LanPacket_get_int64 p = get_word 8 p"

definition LanPacket_get_double :: "LanPacket \<Rightarrow> (64 word \<times> LanPacket) run" where
  "LanPacket_get_double p = get_word 8 p"

definition LanPacket_GetData :: "byte list \<Rightarrow> int \<Rightarrow> LanPacket \<Rightarrow> (int \<times> byte list \<times> LanPacket) run" where
  "LanPacket_GetData dest sz p =
     (let sz = (if m_PayloadSize p \<le> sz then m_PayloadSize p else sz) in
      bnd (memcpy_out (m_Buffer p) (m_PayloadPtr p + m_ReadPos p) sz) (\<lambda>bs.
      bnd (memcpy_in dest 0 bs) (\<lambda>dest'.
        Inr (sz, dest', p\<lparr>m_ReadPos := m_ReadPos p + sz,
                         m_PayloadSize := m_PayloadSize p - sz,
                         m_PayloadFreeSize := m_PayloadFreeSize p + sz\<rparr>))))"

definition LanPacket_PutData :: "byte list \<Rightarrow> int \<Rightarrow> LanPacket \<Rightarrow> (int \<times> LanPacket) run" where
  "LanPacket_PutData src sz p =
     (let sz = (if m_PayloadFreeSize p < sz then m_PayloadFreeSize p else sz) in
      bnd (memcpy_out src 0 sz) (\<lambda>bs.
      bnd (memcpy_in (m_Buffer p) (m_PayloadPtr p + m_WritePos p) bs) (\<lambda>buf.
        Inr (sz, p\<lparr>m_Buffer := buf,
                   m_WritePos := m_WritePos p + sz,
                   m_PayloadSize := m_PayloadSize p + sz,
                   m_PayloadFreeSize := m_PayloadFreeSize p - sz\<rparr>))))"

definition LanPacket_IncrementRefCount :: "LanPacket \<Rightarrow> 32 word \<times> LanPacket" where
  "LanPacket_IncrementRefCount p = (m_RefCount p + 1, p\<lparr>m_RefCount := m_RefCount p + 1\<rparr>)"

definition LanPacket_DecrementRefCount :: "LanPacket \<Rightarrow> 32 word \<times> LanPacket" where
  "LanPacket_DecrementRefCount p = (m_RefCount p - 1, p\<lparr>m_RefCount := m_RefCount p - 1\<rparr>)"

definition LanPacket_SetHeader :: "byte list \<Rightarrow> LanPacket \<Rightarrow> LanPacket run" where
  "LanPacket_SetHeader header p =
     bnd (memcpy_in (m_Buffer p) 0 header) (\<lambda>buf. Inr (p\<lparr>m_bSetHeader := True, m_Buffer := buf\<rparr>))"

section \<open>\<^verbatim>\<open>NetPacket\<close>\<close>

definition NetPacket_Clear :: "NetPacket \<Rightarrow> NetPacket" where
  "NetPacket_Clear p =
     p\<lparr>m_PayloadFreeSize := NetPacket_BUFFER_SIZE - sizeof_NetHeader, m_ReadPos := 0, m_WritePos := 0,
       m_PayloadSize := 0, m_bSetHeader := False, m_bEencode := False, m_RefCount := 1\<rparr>"

definition NetPacket_Release :: "NetPacket \<Rightarrow> NetPacket" where
  "NetPacket_Release p = p"

definition NetPacket_GetFreeFullBufferSize :: "NetPacket \<Rightarrow> int" where
  "NetPacket_GetFreeFullBufferSize p =
     (if m_bSetHeader p then m_PayloadFreeSize p - sizeof_NetHeader else m_PayloadFreeSize p)"

definition NetPacket_GetFreePayloadBufferSize :: "NetPacket \<Rightarrow> int" where
  "NetPacket_GetFreePayloadBufferSize p = m_PayloadFreeSize p"

definition NetPacket_GetPayloadSize :: "NetPacket \<Rightarrow> int" where
  "NetPacket_GetPayloadSize p = m_PayloadSize p"

definition NetPacket_GetFullPacketSize :: "NetPacket \<Rightarrow> int" where
  "NetPacket_GetFullPacketSize p =
     (if m_bSetHeader p then m_PayloadSize p + sizeof_NetHeader else m_PayloadSize p)"

definition NetPacket_GetBufferPtr :: "NetPacket \<Rightarrow> int" where
  "NetPacket_GetBufferPtr p = 0"

definition NetPacket_GetPayloadPtr :: "NetPacket \<Rightarrow> int" where
  "NetPacket_GetPayloadPtr p = NetPacket_GetBufferPtr p + sizeof_NetHeader"

definition NetPacket_MoveWritePos :: "int \<Rightarrow> NetPacket \<Rightarrow> int \<times> NetPacket" where
  "NetPacket_MoveWritePos sz p =
     (if sz < 0 then (0, p)
      else let sz = (if m_PayloadFreeSize p \<le> sz then m_PayloadFreeSize p else sz) in
        (sz, p\<lparr>m_WritePos := m_WritePos p + sz,
               m_PayloadSize := m_PayloadSize p + sz,
               m_PayloadFreeSize := m_PayloadFreeSize p - sz\<rparr>))"

definition NetPacket_MoveReadPos :: "int \<Rightarrow> NetPacket \<Rightarrow> int \<times> NetPacket" where
  "NetPacket_MoveReadPos sz p =
     (if sz < 0 then (0, p)
      else let sz = (if m_PayloadSize p \<le> sz then m_PayloadSize p else sz) in
        (sz, p\<lparr>m_ReadPos := m_ReadPos p + sz,
               m_PayloadSize := m_PayloadSize p - sz,
               m_PayloadFreeSize := m_PayloadFreeSize p + sz\<rparr>))"

text \<open>The operators, one per type.\<close>

definition NetPacket_put_BYTE :: "8 word \<Rightarrow> NetPacket \<Rightarrow> NetPacket run" where
  "NetPacket_put_BYTE inValue p = put_scalar (le_bytes 1 inValue) p"

definition NetPacket_put_char :: "8 word \<Rightarrow> NetPacket \<Rightarrow> NetPacket run" where
  "NetPacket_put_char inValue p = put_scalar (le_bytes 1 inValue) p"

definition NetPacket_put_short :: "16 word \<Rightarrow> NetPacket \<Rightarrow> NetPacket run" where
  "NetPacket_put_short inValue p = put_scalar (le_bytes 2 inValue) p"

definition NetPacket_put_WORD :: "16 word \<Rightarrow> NetPacket \<Rightarrow> NetPacket run" where
  "NetPacket_put_WORD inValue p = put_scalar (le_bytes 2 inValue) p"

definition NetPacket_put_int32 :: "32 word \<Rightarrow> NetPacket \<Rightarrow> NetPacket run" where
  "NetPacket_put_int32 inValue p = put_scalar (le_bytes 4 inValue) p"

definition NetPacket_put_DWORD :: "32 word \<Rightarrow> NetPacket \<Rightarrow> NetPacket run" where
  "NetPacket_put_DWORD inValue p = put_scalar (le_bytes 4 inValue) p"

definition NetPacket_put_float :: "32 word \<Rightarrow> NetPacket \<Rightarrow> NetPacket run" where
  "NetPacket_put_float inValue p = put_scalar (le_bytes 4 inValue) p"

definition NetPacket_put_int64 :: "64 word \<Rightarrow> NetPacket \<Rightarrow> NetPacket run" where
  "NetPacket_put_int64 inValue p = put_scalar (le_bytes 8 inValue) p"

definition NetPacket_put_double :: "64 word \<Rightarrow> NetPacket \<Rightarrow> NetPacket run" where
  "NetPacket_put_double inValue p = put_scalar (le_bytes 8 inValue) p"

definition NetPacket_get_BYTE :: "NetPacket \<Rightarrow> (8 word \<times> NetPacket) run" where
  "NetPacket_get_BYTE p = get_word 1 p"

definition NetPacket_get_char :: "NetPacket \<Rightarrow> (8 word \<times> NetPacket) run" where
  "NetPacket_get_char p = get_word 1 p"

definition NetPacket_get_short :: "NetPacket \<Rightarrow> (16 word \<times> NetPacket) run" where
  "NetPacket_get_short p = get_word 2 p"

definition NetPacket_get_WORD :: "NetPacket \<Rightarrow> (16 word \<times> NetPacket) run" where
  "NetPacket_get_WORD p = get_word 2 p"

definition NetPacket_get_int32 :: "NetPacket \<Rightarrow> (32 word \<times> NetPacket) run" where
  "NetPacket_get_int32 p = get_word 4 p"

definition NetPacket_get_DWORD :: "NetPacket \<Rightarrow> (32 word \<times> NetPacket) run" where
  "NetPacket_get_DWORD p = get_word 4 p"

definition NetPacket_get_float :: "NetPacket \<Rightarrow> (32 word \<times> NetPacket) run" where
  "NetPacket_get_float p = get_word 4 p"

definition NetPacket_get_int64 :: "NetPacket \<Rightarrow> (64 word \<times> NetPacket) run" where
  "NetPacket_get_int64 p = get_word 8 p"

definition NetPacket_get_double :: "NetPacket \<Rightarrow> (64 word \<times> NetPacket) run" where
  "NetPacket_get_double p = get_word 8 p"

definition NetPacket_GetData :: "byte list \<Rightarrow> int \<Rightarrow> NetPacket \<Rightarrow> (int \<times> byte list \<times> NetPacket) run" where
  "NetPacket_GetData dest sz p =
     (let sz = (if m_PayloadSize p \<le> sz then m_PayloadSize p else sz) in
      bnd (memcpy_out (m_Buffer p) (m_PayloadPtr p + m_ReadPos p) sz) (\<lambda>bs.
      bnd (memcpy_in dest 0 bs) (\<lambda>dest'.
        Inr (sz, dest', p\<lparr>m_ReadPos := m_ReadPos p + sz,
                         m_PayloadSize := m_PayloadSize p - sz,
                         m_PayloadFreeSize := m_PayloadFreeSize p + sz\<rparr>))))"

definition NetPacket_PutData :: "byte list \<Rightarrow> int \<Rightarrow> NetPacket \<Rightarrow> (int \<times> NetPacket) run" where
  "NetPacket_PutData src sz p =
     (let sz = (if m_PayloadFreeSize p < sz then m_PayloadFreeSize p else sz) in
      bnd (memcpy_out src 0 sz) (\<lambda>bs.
      bnd (memcpy_in (m_Buffer p) (m_PayloadPtr p + m_WritePos p) bs) (\<lambda>buf.
        Inr (sz, p\<lparr>m_Buffer := buf,
                   m_WritePos := m_WritePos p + sz,
                   m_PayloadSize := m_PayloadSize p + sz,
                   m_PayloadFreeSize := m_PayloadFreeSize p - sz\<rparr>))))"

definition NetPacket_IncrementRefCount :: "NetPacket \<Rightarrow> 32 word \<times> NetPacket" where
  "NetPacket_IncrementRefCount p = (m_RefCount p + 1, p\<lparr>m_RefCount := m_RefCount p + 1\<rparr>)"

definition NetPacket_DecrementRefCount :: "NetPacket \<Rightarrow> 32 word \<times> NetPacket" where
  "NetPacket_DecrementRefCount p = (m_RefCount p - 1, p\<lparr>m_RefCount := m_RefCount p - 1\<rparr>)"

definition NetPacket_SetHeader :: "byte list \<Rightarrow> NetPacket \<Rightarrow> NetPacket run" where
  "NetPacket_SetHeader header p =
     (if \<not> m_bSetHeader p
      then bnd (memcpy_in (m_Buffer p) 0 header) (\<lambda>buf.
             Inr (p\<lparr>m_bSetHeader := True, m_Buffer := buf\<rparr>))
      else Inl Crash)"

section \<open>The payload as a queue of bytes\<close>

text \<open>
  \<open>serbuf_inv hdr cap\<close>: a buffer of \<open>cap\<close> bytes whose payload starts after \<open>hdr\<close> of them, with
  the two positions in order and the two sizes derived from them.  The free size counts the
  bytes already read as free although nothing moves the positions back: writing after reading
  is the one way to leave the buffer.
\<close>

definition serbuf_inv :: "int \<Rightarrow> int \<Rightarrow> 'a SerBuf_scheme \<Rightarrow> bool" where
  "serbuf_inv hdr cap p \<longleftrightarrow>
     0 \<le> hdr \<and> hdr \<le> cap \<and> int (length (m_Buffer p)) = cap \<and> m_PayloadPtr p = hdr \<and>
     0 \<le> m_ReadPos p \<and> m_ReadPos p \<le> m_WritePos p \<and> m_WritePos p \<le> cap - hdr \<and>
     m_PayloadSize p = m_WritePos p - m_ReadPos p \<and>
     m_PayloadFreeSize p = cap - hdr - m_PayloadSize p"

definition payload :: "'a SerBuf_scheme \<Rightarrow> byte list" where
  "payload p = take (nat (m_PayloadSize p)) (drop (nat (m_PayloadPtr p + m_ReadPos p)) (m_Buffer p))"

definition header_bytes :: "'a SerBuf_scheme \<Rightarrow> byte list" where
  "header_bytes p = take (nat (m_PayloadPtr p)) (m_Buffer p)"

definition net_inv :: "NetPacket \<Rightarrow> bool" where
  "net_inv p \<longleftrightarrow> serbuf_inv sizeof_NetHeader NetPacket_BUFFER_SIZE p"

definition lan_inv :: "LanPacket \<Rightarrow> bool" where
  "lan_inv p \<longleftrightarrow> serbuf_inv sizeof_LanHeader LanPacket_BUFFER_SIZE p"

lemmas packet_consts = NetPacket_BUFFER_SIZE_def LanPacket_BUFFER_SIZE_def
  sizeof_NetHeader_def sizeof_LanHeader_def

lemma net_inv_new [simp]: "net_inv NetPacket_new"
  by (simp add: net_inv_def serbuf_inv_def NetPacket_new_def packet_consts)

lemma lan_inv_new [simp]: "lan_inv LanPacket_new"
  by (simp add: lan_inv_def serbuf_inv_def LanPacket_new_def packet_consts)

lemma payload_new [simp]: "payload NetPacket_new = []" "payload LanPacket_new = []"
  by (simp_all add: payload_def NetPacket_new_def LanPacket_new_def)

lemma net_inv_Clear: "net_inv p \<Longrightarrow> net_inv (NetPacket_Clear p)"
  by (simp add: net_inv_def serbuf_inv_def NetPacket_Clear_def packet_consts)

lemma lan_inv_Clear: "lan_inv p \<Longrightarrow> lan_inv (LanPacket_Clear p)"
  by (simp add: lan_inv_def serbuf_inv_def LanPacket_Clear_def packet_consts)

lemma length_payload: "serbuf_inv hdr cap p \<Longrightarrow> int (length (payload p)) = m_PayloadSize p"
  by (auto simp: serbuf_inv_def payload_def min_def nat_diff_distrib)

lemma take_drop_mem_write_append [mem_simps]:
  assumes "a + s + length bs \<le> length buf"
  shows "take (s + length bs) (drop a (mem_write buf (a + s) bs)) = take s (drop a buf) @ bs"
proof -
  have l: "length (take s (drop a buf)) = s" using assms by simp
  have "drop a (mem_write buf (a + s) bs) = (take s (drop a buf) @ bs) @ drop (a + s + length bs) buf"
    using assms by (simp add: mem_write_def drop_take min_absorb2)
  then show ?thesis using l by simp
qed

lemma payload_append:
  assumes inv: "serbuf_inv hdr cap p" and n: "n = int (length bs)"
    and room: "m_WritePos p + n \<le> cap - hdr"
  defines "p' \<equiv> p\<lparr>m_Buffer := mem_write (m_Buffer p) (nat (m_PayloadPtr p + m_WritePos p)) bs,
                  m_WritePos := m_WritePos p + n,
                  m_PayloadSize := m_PayloadSize p + n,
                  m_PayloadFreeSize := m_PayloadFreeSize p - n\<rparr>"
  shows "serbuf_inv hdr cap p'" "payload p' = payload p @ bs" "header_bytes p' = header_bytes p"
    and "memcpy_in (m_Buffer p) (m_PayloadPtr p + m_WritePos p) bs = Inr (m_Buffer p')"
proof -
  let ?a = "nat (m_PayloadPtr p + m_ReadPos p)" and ?s = "nat (m_PayloadSize p)"
  have w: "nat (m_PayloadPtr p + m_WritePos p) = ?a + ?s" and s: "0 \<le> m_PayloadSize p"
    and ptr: "nat (m_PayloadPtr p) \<le> ?a"
    using inv by (simp_all add: serbuf_inv_def nat_add_distrib [symmetric] nat_mono)
  have fit: "?a + ?s + length bs \<le> length (m_Buffer p)"
    using inv room n unfolding serbuf_inv_def w [symmetric] by (elim conjE) linarith
  have len: "length (mem_write (m_Buffer p) (?a + ?s) bs) = length (m_Buffer p)"
    using fit by simp
  show "serbuf_inv hdr cap p'"
    using inv room n len w by (simp add: serbuf_inv_def p'_def)
  have "nat (m_PayloadSize p + n) = ?s + length bs" using s n by simp
  then show "payload p' = payload p @ bs"
    using take_drop_mem_write_append [OF fit] by (simp add: payload_def p'_def w)
  show "header_bytes p' = header_bytes p"
    using fit ptr by (simp add: header_bytes_def p'_def w take_mem_write_before)
  show "memcpy_in (m_Buffer p) (m_PayloadPtr p + m_WritePos p) bs = Inr (m_Buffer p')"
    using inv fit w by (simp add: p'_def memcpy_in_ok serbuf_inv_def)
qed

lemma payload_drop:
  assumes inv: "serbuf_inv hdr cap p" and n: "0 \<le> n" "n \<le> m_PayloadSize p"
  defines "p' \<equiv> p\<lparr>m_ReadPos := m_ReadPos p + n, m_PayloadSize := m_PayloadSize p - n,
                  m_PayloadFreeSize := m_PayloadFreeSize p + n\<rparr>"
  shows "serbuf_inv hdr cap p'" "payload p' = drop (nat n) (payload p)"
    and "memcpy_out (m_Buffer p) (m_PayloadPtr p + m_ReadPos p) n = Inr (take (nat n) (payload p))"
proof -
  let ?a = "nat (m_PayloadPtr p + m_ReadPos p)"
  show "serbuf_inv hdr cap p'" using inv n by (simp add: serbuf_inv_def p'_def)
  have "nat (m_PayloadPtr p + (m_ReadPos p + n)) = nat n + ?a"
    using inv n by (simp add: serbuf_inv_def nat_add_distrib [symmetric] algebra_simps)
  then show "payload p' = drop (nat n) (payload p)"
    using n by (simp add: payload_def p'_def drop_take nat_diff_distrib)
  show "memcpy_out (m_Buffer p) (m_PayloadPtr p + m_ReadPos p) n = Inr (take (nat n) (payload p))"
    using inv n by (simp add: serbuf_inv_def memcpy_out_ok payload_def nat_mono min_absorb1)
qed

subsection \<open>The three outcomes of a write, the two of a read\<close>

lemma put_scalar_ok:
  assumes inv: "serbuf_inv hdr cap p" and room: "m_WritePos p + int (length bs) \<le> cap - hdr"
  obtains p' where "put_scalar bs p = Inr p'" and "serbuf_inv hdr cap p'"
    and "payload p' = payload p @ bs" and "header_bytes p' = header_bytes p"
    and "m_WritePos p' = m_WritePos p + int (length bs)" and "m_ReadPos p' = m_ReadPos p"
    and "m_RefCount p' = m_RefCount p" and "m_bSetHeader p' = m_bSetHeader p"
proof -
  have "\<not> lt_sizeof (m_PayloadFreeSize p) (int (length bs))"
    using inv room by (simp add: serbuf_inv_def lt_sizeof_def)
  with that payload_append [OF inv refl room] show thesis
    by (simp add: put_scalar_def Let_def)
qed

lemma put_scalar_full:
  assumes "serbuf_inv hdr cap p" "m_PayloadFreeSize p < int (length bs)"
  shows "put_scalar bs p = Inl PacketExcept"
  using assms by (simp add: put_scalar_def serbuf_inv_def lt_sizeof_def)

lemma put_scalar_overflow:
  assumes "serbuf_inv hdr cap p" "int (length bs) \<le> m_PayloadFreeSize p"
    and "cap - hdr < m_WritePos p + int (length bs)"
  shows "put_scalar bs p = Inl OutOfBounds"
proof -
  have "\<not> nat (m_PayloadPtr p + m_WritePos p) + length bs \<le> length (m_Buffer p)"
    using assms unfolding serbuf_inv_def by (elim conjE) linarith
  with assms show ?thesis
    by (simp add: put_scalar_def Let_def lt_sizeof_def memcpy_in_def)
qed

lemma get_scalar_ok:
  assumes inv: "serbuf_inv hdr cap p" and n: "0 \<le> n" "n \<le> m_PayloadSize p"
  obtains p' where "get_scalar n p = Inr (take (nat n) (payload p), p')" and "serbuf_inv hdr cap p'"
    and "payload p' = drop (nat n) (payload p)" and "m_WritePos p' = m_WritePos p"
    and "m_ReadPos p' = m_ReadPos p + n"
    and "m_Buffer p' = m_Buffer p" and "m_RefCount p' = m_RefCount p"
proof -
  have "\<not> lt_sizeof (m_PayloadSize p) n" using n by (simp add: lt_sizeof_def)
  with that payload_drop [OF inv n] show thesis by (simp add: get_scalar_def)
qed

lemma get_scalar_short:
  assumes "serbuf_inv hdr cap p" "m_PayloadSize p < n"
  shows "get_scalar n p = Inl PacketExcept"
  using assms by (simp add: get_scalar_def serbuf_inv_def lt_sizeof_def)

section \<open>Typed fields\<close>

text \<open>
  A message body is a sequence of typed values written by \<^verbatim>\<open>operator<<\<close> and read back by
  \<^verbatim>\<open>operator>>\<close> of the same types.
\<close>

datatype field =
    F_BYTE "8 word"
  | F_char "8 word"
  | F_short "16 word"
  | F_WORD "16 word"
  | F_int32 "32 word"
  | F_DWORD "32 word"
  | F_float "32 word"
  | F_int64 "64 word"
  | F_double "64 word"

datatype ftype = T_BYTE | T_char | T_short | T_WORD | T_int32 | T_DWORD | T_float | T_int64 | T_double

fun ftype_of :: "field \<Rightarrow> ftype" where
  "ftype_of (F_BYTE v) = T_BYTE"
| "ftype_of (F_char v) = T_char"
| "ftype_of (F_short v) = T_short"
| "ftype_of (F_WORD v) = T_WORD"
| "ftype_of (F_int32 v) = T_int32"
| "ftype_of (F_DWORD v) = T_DWORD"
| "ftype_of (F_float v) = T_float"
| "ftype_of (F_int64 v) = T_int64"
| "ftype_of (F_double v) = T_double"

fun fsize :: "ftype \<Rightarrow> nat" where
  "fsize T_BYTE = 1"
| "fsize T_char = 1"
| "fsize T_short = 2"
| "fsize T_WORD = 2"
| "fsize T_int32 = 4"
| "fsize T_DWORD = 4"
| "fsize T_float = 4"
| "fsize T_int64 = 8"
| "fsize T_double = 8"

fun fbytes :: "field \<Rightarrow> byte list" where
  "fbytes (F_BYTE v) = le_bytes 1 v"
| "fbytes (F_char v) = le_bytes 1 v"
| "fbytes (F_short v) = le_bytes 2 v"
| "fbytes (F_WORD v) = le_bytes 2 v"
| "fbytes (F_int32 v) = le_bytes 4 v"
| "fbytes (F_DWORD v) = le_bytes 4 v"
| "fbytes (F_float v) = le_bytes 4 v"
| "fbytes (F_int64 v) = le_bytes 8 v"
| "fbytes (F_double v) = le_bytes 8 v"

fun mk_field :: "ftype \<Rightarrow> byte list \<Rightarrow> field" where
  "mk_field T_BYTE bs = F_BYTE (of_le bs)"
| "mk_field T_char bs = F_char (of_le bs)"
| "mk_field T_short bs = F_short (of_le bs)"
| "mk_field T_WORD bs = F_WORD (of_le bs)"
| "mk_field T_int32 bs = F_int32 (of_le bs)"
| "mk_field T_DWORD bs = F_DWORD (of_le bs)"
| "mk_field T_float bs = F_float (of_le bs)"
| "mk_field T_int64 bs = F_int64 (of_le bs)"
| "mk_field T_double bs = F_double (of_le bs)"

fun NetPacket_put_field :: "field \<Rightarrow> NetPacket \<Rightarrow> NetPacket run" where
  "NetPacket_put_field (F_BYTE v) p = NetPacket_put_BYTE v p"
| "NetPacket_put_field (F_char v) p = NetPacket_put_char v p"
| "NetPacket_put_field (F_short v) p = NetPacket_put_short v p"
| "NetPacket_put_field (F_WORD v) p = NetPacket_put_WORD v p"
| "NetPacket_put_field (F_int32 v) p = NetPacket_put_int32 v p"
| "NetPacket_put_field (F_DWORD v) p = NetPacket_put_DWORD v p"
| "NetPacket_put_field (F_float v) p = NetPacket_put_float v p"
| "NetPacket_put_field (F_int64 v) p = NetPacket_put_int64 v p"
| "NetPacket_put_field (F_double v) p = NetPacket_put_double v p"

fun NetPacket_get_field :: "ftype \<Rightarrow> NetPacket \<Rightarrow> (field \<times> NetPacket) run" where
  "NetPacket_get_field T_BYTE p = bnd (NetPacket_get_BYTE p) (\<lambda>(v, p'). Inr (F_BYTE v, p'))"
| "NetPacket_get_field T_char p = bnd (NetPacket_get_char p) (\<lambda>(v, p'). Inr (F_char v, p'))"
| "NetPacket_get_field T_short p = bnd (NetPacket_get_short p) (\<lambda>(v, p'). Inr (F_short v, p'))"
| "NetPacket_get_field T_WORD p = bnd (NetPacket_get_WORD p) (\<lambda>(v, p'). Inr (F_WORD v, p'))"
| "NetPacket_get_field T_int32 p = bnd (NetPacket_get_int32 p) (\<lambda>(v, p'). Inr (F_int32 v, p'))"
| "NetPacket_get_field T_DWORD p = bnd (NetPacket_get_DWORD p) (\<lambda>(v, p'). Inr (F_DWORD v, p'))"
| "NetPacket_get_field T_float p = bnd (NetPacket_get_float p) (\<lambda>(v, p'). Inr (F_float v, p'))"
| "NetPacket_get_field T_int64 p = bnd (NetPacket_get_int64 p) (\<lambda>(v, p'). Inr (F_int64 v, p'))"
| "NetPacket_get_field T_double p = bnd (NetPacket_get_double p) (\<lambda>(v, p'). Inr (F_double v, p'))"

fun LanPacket_put_field :: "field \<Rightarrow> LanPacket \<Rightarrow> LanPacket run" where
  "LanPacket_put_field (F_BYTE v) p = LanPacket_put_BYTE v p"
| "LanPacket_put_field (F_char v) p = LanPacket_put_char v p"
| "LanPacket_put_field (F_short v) p = LanPacket_put_short v p"
| "LanPacket_put_field (F_WORD v) p = LanPacket_put_WORD v p"
| "LanPacket_put_field (F_int32 v) p = LanPacket_put_int32 v p"
| "LanPacket_put_field (F_DWORD v) p = LanPacket_put_DWORD v p"
| "LanPacket_put_field (F_float v) p = LanPacket_put_float v p"
| "LanPacket_put_field (F_int64 v) p = LanPacket_put_int64 v p"
| "LanPacket_put_field (F_double v) p = LanPacket_put_double v p"

fun LanPacket_get_field :: "ftype \<Rightarrow> LanPacket \<Rightarrow> (field \<times> LanPacket) run" where
  "LanPacket_get_field T_BYTE p = bnd (LanPacket_get_BYTE p) (\<lambda>(v, p'). Inr (F_BYTE v, p'))"
| "LanPacket_get_field T_char p = bnd (LanPacket_get_char p) (\<lambda>(v, p'). Inr (F_char v, p'))"
| "LanPacket_get_field T_short p = bnd (LanPacket_get_short p) (\<lambda>(v, p'). Inr (F_short v, p'))"
| "LanPacket_get_field T_WORD p = bnd (LanPacket_get_WORD p) (\<lambda>(v, p'). Inr (F_WORD v, p'))"
| "LanPacket_get_field T_int32 p = bnd (LanPacket_get_int32 p) (\<lambda>(v, p'). Inr (F_int32 v, p'))"
| "LanPacket_get_field T_DWORD p = bnd (LanPacket_get_DWORD p) (\<lambda>(v, p'). Inr (F_DWORD v, p'))"
| "LanPacket_get_field T_float p = bnd (LanPacket_get_float p) (\<lambda>(v, p'). Inr (F_float v, p'))"
| "LanPacket_get_field T_int64 p = bnd (LanPacket_get_int64 p) (\<lambda>(v, p'). Inr (F_int64 v, p'))"
| "LanPacket_get_field T_double p = bnd (LanPacket_get_double p) (\<lambda>(v, p'). Inr (F_double v, p'))"

primrec put_fields :: "(field \<Rightarrow> 'p \<Rightarrow> 'p run) \<Rightarrow> field list \<Rightarrow> 'p \<Rightarrow> 'p run" where
  "put_fields put [] p = Inr p"
| "put_fields put (f # fs) p = bnd (put f p) (put_fields put fs)"

primrec get_fields :: "(ftype \<Rightarrow> 'p \<Rightarrow> (field \<times> 'p) run) \<Rightarrow> ftype list \<Rightarrow> 'p \<Rightarrow> (field list \<times> 'p) run" where
  "get_fields get [] p = Inr ([], p)"
| "get_fields get (t # ts) p =
     bnd (get t p) (\<lambda>(f, p'). bnd (get_fields get ts p') (\<lambda>(fs, p''). Inr (f # fs, p'')))"

lemma length_fbytes [simp]: "length (fbytes f) = fsize (ftype_of f)"
  by (cases f) simp_all

lemma mk_field_fbytes [simp]: "mk_field (ftype_of f) (fbytes f) = f"
  by (cases f) (simp_all add: of_le_le_bytes)

lemmas packet_put_defs =
  NetPacket_put_BYTE_def NetPacket_put_char_def NetPacket_put_short_def
  NetPacket_put_WORD_def NetPacket_put_int32_def NetPacket_put_DWORD_def
  NetPacket_put_float_def NetPacket_put_int64_def NetPacket_put_double_def
  LanPacket_put_BYTE_def LanPacket_put_char_def LanPacket_put_short_def
  LanPacket_put_WORD_def LanPacket_put_int32_def LanPacket_put_DWORD_def
  LanPacket_put_float_def LanPacket_put_int64_def LanPacket_put_double_def

lemmas packet_get_defs =
  NetPacket_get_BYTE_def NetPacket_get_char_def NetPacket_get_short_def
  NetPacket_get_WORD_def NetPacket_get_int32_def NetPacket_get_DWORD_def
  NetPacket_get_float_def NetPacket_get_int64_def NetPacket_get_double_def
  LanPacket_get_BYTE_def LanPacket_get_char_def LanPacket_get_short_def
  LanPacket_get_WORD_def LanPacket_get_int32_def LanPacket_get_DWORD_def
  LanPacket_get_float_def LanPacket_get_int64_def LanPacket_get_double_def

lemma put_field_eq:
  "NetPacket_put_field f p = put_scalar (fbytes f) p"
  "LanPacket_put_field f q = put_scalar (fbytes f) q"
  by (cases f; simp add: packet_put_defs)+

lemma get_field_eq:
  "NetPacket_get_field t p = bnd (get_scalar (int (fsize t)) p) (\<lambda>(bs, p'). Inr (mk_field t bs, p'))"
  "LanPacket_get_field t q = bnd (get_scalar (int (fsize t)) q) (\<lambda>(bs, q'). Inr (mk_field t bs, q'))"
  by (cases t; simp add: packet_get_defs get_word_def bnd_assoc split_def)+

text \<open>The same proof serves both classes: the contract is that of a buffer whose operators are
  the shared bodies.\<close>

locale field_buffer =
  fixes hdr cap :: int
    and put :: "field \<Rightarrow> 'a SerBuf_scheme \<Rightarrow> 'a SerBuf_scheme run"
    and get :: "ftype \<Rightarrow> 'a SerBuf_scheme \<Rightarrow> (field \<times> 'a SerBuf_scheme) run"
  assumes put_law: "put f p = put_scalar (fbytes f) p"
    and get_law: "get t p = bnd (get_scalar (int (fsize t)) p) (\<lambda>(bs, p'). Inr (mk_field t bs, p'))"
begin

lemma put_fields_ok:
  assumes "serbuf_inv hdr cap p"
    and "m_WritePos p + (\<Sum>f\<leftarrow>fs. int (fsize (ftype_of f))) \<le> cap - hdr"
  shows "\<exists>p'. put_fields put fs p = Inr p' \<and> serbuf_inv hdr cap p' \<and>
           payload p' = payload p @ concat (map fbytes fs) \<and> m_ReadPos p' = m_ReadPos p"
  using assms
proof (induction fs arbitrary: p)
  case Nil
  then show ?case by simp
next
  case (Cons f fs)
  have nn: "0 \<le> (\<Sum>f\<leftarrow>fs. int (fsize (ftype_of f)))" by (induction fs) simp_all
  have "m_WritePos p + int (length (fbytes f)) \<le> cap - hdr" using Cons.prems(2) nn by simp
  from put_scalar_ok [OF Cons.prems(1) this] obtain p1 where p1:
      "put_scalar (fbytes f) p = Inr p1" "serbuf_inv hdr cap p1"
      "payload p1 = payload p @ fbytes f"
      "m_WritePos p1 = m_WritePos p + int (length (fbytes f))" "m_ReadPos p1 = m_ReadPos p"
    by metis
  then show ?case
    using Cons.IH [OF p1(2)] Cons.prems(2) by (simp add: put_law algebra_simps)
qed

lemma get_fields_ok:
  assumes "serbuf_inv hdr cap p" and "payload p = concat (map fbytes fs) @ rest"
  shows "\<exists>p'. get_fields get (map ftype_of fs) p = Inr (fs, p') \<and> serbuf_inv hdr cap p' \<and>
           payload p' = rest"
  using assms
proof (induction fs arbitrary: p)
  case Nil
  then show ?case by simp
next
  case (Cons f fs)
  let ?n = "int (fsize (ftype_of f))"
  have n: "0 \<le> ?n" "?n \<le> m_PayloadSize p"
    using length_payload [OF Cons.prems(1)] Cons.prems(2) by simp_all
  from get_scalar_ok [OF Cons.prems(1) n] obtain p1 where p1:
      "get_scalar ?n p = Inr (take (nat ?n) (payload p), p1)" "serbuf_inv hdr cap p1"
      "payload p1 = drop (nat ?n) (payload p)"
    by metis
  have "take (nat ?n) (payload p) = fbytes f" using Cons.prems(2) by simp
  moreover have "payload p1 = concat (map fbytes fs) @ rest" using p1(3) Cons.prems(2) by simp
  ultimately show ?case using Cons.IH [OF p1(2)] p1(1) by (auto simp: get_law)
qed

end

interpretation net_fields: field_buffer sizeof_NetHeader NetPacket_BUFFER_SIZE
  NetPacket_put_field NetPacket_get_field
  by unfold_locales (simp_all add: put_field_eq get_field_eq)

interpretation lan_fields: field_buffer sizeof_LanHeader LanPacket_BUFFER_SIZE
  LanPacket_put_field LanPacket_get_field
  by unfold_locales (simp_all add: put_field_eq get_field_eq)

section \<open>Properties\<close>

text \<open>
  C39. What is written to a fresh packet is what is read back: any sequence of typed values of
  at most 295 bytes in all goes in without a fault and comes out equal, value by value, and
  leaves no payload behind.
\<close>

theorem NetPacket_fields_roundtrip:
  assumes "(\<Sum>f\<leftarrow>fs. int (fsize (ftype_of f))) \<le> NetPacket_BUFFER_SIZE - sizeof_NetHeader"
  shows "\<exists>p p'. put_fields NetPacket_put_field fs NetPacket_new = Inr p \<and> net_inv p \<and>
           payload p = concat (map fbytes fs) \<and>
           get_fields NetPacket_get_field (map ftype_of fs) p = Inr (fs, p') \<and> payload p' = []"
proof -
  have inv: "serbuf_inv sizeof_NetHeader NetPacket_BUFFER_SIZE NetPacket_new"
    using net_inv_new by (simp only: net_inv_def)
  have "m_WritePos NetPacket_new + (\<Sum>f\<leftarrow>fs. int (fsize (ftype_of f)))
        \<le> NetPacket_BUFFER_SIZE - sizeof_NetHeader"
    using assms by (simp add: NetPacket_new_def)
  from net_fields.put_fields_ok [OF inv this] obtain p where
      p: "put_fields NetPacket_put_field fs NetPacket_new = Inr p"
      "serbuf_inv sizeof_NetHeader NetPacket_BUFFER_SIZE p" "payload p = concat (map fbytes fs)"
    by auto
  from net_fields.get_fields_ok [OF p(2), of fs "[]"] p show ?thesis by (auto simp: net_inv_def)
qed

theorem NetPacket_fields_roundtrip_witness:
  "\<exists>p p'. put_fields NetPacket_put_field [F_WORD 0x1234, F_int64 (- 2), F_BYTE 7] NetPacket_new = Inr p \<and>
     get_fields NetPacket_get_field [T_WORD, T_int64, T_BYTE] p
     = Inr ([F_WORD 0x1234, F_int64 (- 2), F_BYTE 7], p')"
  using NetPacket_fields_roundtrip [of "[F_WORD 0x1234, F_int64 (- 2), F_BYTE 7]"]
  by (auto simp: packet_consts)

text \<open>
  The three outcomes of every \<^verbatim>\<open>operator<<\<close> on a well-formed packet: it throws
  exactly when the free size is below the width; otherwise it appends the value exactly when
  the bytes fit behind the write position; otherwise it writes outside the packet's array.
  The last case needs bytes already read, which count as free but lie before the position.
\<close>

theorem put_field_outcomes:
  fixes f :: field
  assumes "net_inv p"
  defines "n \<equiv> int (fsize (ftype_of f))"
  shows "(NetPacket_put_field f p = Inl PacketExcept \<longleftrightarrow> m_PayloadFreeSize p < n) \<and>
    (NetPacket_put_field f p = Inl OutOfBounds \<longleftrightarrow>
       n \<le> m_PayloadFreeSize p \<and> m_PayloadFreeSize p < n + m_ReadPos p) \<and>
    (n + m_ReadPos p \<le> m_PayloadFreeSize p \<longrightarrow>
       (\<exists>p'. NetPacket_put_field f p = Inr p' \<and> net_inv p' \<and> payload p' = payload p @ fbytes f))"
proof -
  let ?bs = "fbytes f"
  have n: "int (length ?bs) = n" by (simp add: n_def)
  have inv: "serbuf_inv sizeof_NetHeader NetPacket_BUFFER_SIZE p" using assms by (simp add: net_inv_def)
  have w: "m_WritePos p = NetPacket_BUFFER_SIZE - sizeof_NetHeader - m_PayloadFreeSize p + m_ReadPos p"
    and r: "0 \<le> m_ReadPos p"
    using inv by (simp_all add: serbuf_inv_def)
  consider "m_PayloadFreeSize p < n" | "n \<le> m_PayloadFreeSize p" "m_PayloadFreeSize p < n + m_ReadPos p"
    | "n + m_ReadPos p \<le> m_PayloadFreeSize p" by linarith
  then show ?thesis
  proof cases
    case 1
    then show ?thesis
      using put_scalar_full [OF inv, of ?bs] r by (simp add: put_field_eq n_def)
  next
    case 2
    then show ?thesis
      using put_scalar_overflow [OF inv, of ?bs] w by (simp add: put_field_eq n_def)
  next
    case 3
    then have "m_WritePos p + int (length ?bs) \<le> NetPacket_BUFFER_SIZE - sizeof_NetHeader"
      using w n by simp
    from put_scalar_ok [OF inv this] obtain p' where "put_scalar ?bs p = Inr p'"
        "serbuf_inv sizeof_NetHeader NetPacket_BUFFER_SIZE p'" "payload p' = payload p @ ?bs"
      by blast
    then show ?thesis using 3 r by (simp add: put_field_eq net_inv_def)
  qed
qed

theorem put_field_outcomes_witness:
  "NetPacket_put_field (F_int64 5) (NetPacket_new\<lparr>m_WritePos := 290, m_ReadPos := 20,
      m_PayloadSize := 270, m_PayloadFreeSize := 25\<rparr>) = Inl OutOfBounds"
  using put_field_outcomes [of "NetPacket_new\<lparr>m_WritePos := 290, m_ReadPos := 20,
      m_PayloadSize := 270, m_PayloadFreeSize := 25\<rparr>" "F_int64 5"]
  by (simp add: net_inv_def serbuf_inv_def NetPacket_new_def packet_consts)

subsection \<open>Raw data\<close>

lemma NetPacket_PutData_ok:
  assumes inv: "net_inv p" and r: "m_ReadPos p = 0" and n: "0 \<le> sz" "sz \<le> int (length src)"
  defines "k \<equiv> min sz (m_PayloadFreeSize p)"
  obtains p' where "NetPacket_PutData src sz p = Inr (k, p')" and "net_inv p'"
    and "payload p' = payload p @ take (nat k) src" and "header_bytes p' = header_bytes p"
    and "m_ReadPos p' = 0" and "m_bSetHeader p' = m_bSetHeader p" and "m_bEencode p' = m_bEencode p"
    and "m_RefCount p' = m_RefCount p"
proof -
  have si: "serbuf_inv sizeof_NetHeader NetPacket_BUFFER_SIZE p" using inv by (simp add: net_inv_def)
  then have free: "0 \<le> m_PayloadFreeSize p"
      "m_WritePos p + m_PayloadFreeSize p = NetPacket_BUFFER_SIZE - sizeof_NetHeader"
    using r by (simp_all add: serbuf_inv_def)
  have k: "0 \<le> k" "k \<le> sz" "k \<le> m_PayloadFreeSize p" using n free by (simp_all add: k_def)
  have kk: "(if m_PayloadFreeSize p < sz then m_PayloadFreeSize p else sz) = k" by (simp add: k_def)
  have l: "k = int (length (take (nat k) src))" using k n by simp
  have "memcpy_out src 0 k = Inr (take (nat k) src)" using memcpy_out_ok [of 0 k src] k n by simp
  with that payload_append [OF si l] k free r show thesis
    by (simp add: NetPacket_PutData_def Let_def kk net_inv_def)
qed

lemma NetPacket_GetData_ok:
  assumes inv: "net_inv p" and n: "0 \<le> sz"
  defines "k \<equiv> min sz (m_PayloadSize p)"
  assumes dest: "k \<le> int (length dest)"
  obtains p' where "NetPacket_GetData dest sz p = Inr (k, mem_write dest 0 (take (nat k) (payload p)), p')"
    and "net_inv p'" and "payload p' = drop (nat k) (payload p)"
    and "m_RefCount p' = m_RefCount p"
proof -
  have si: "serbuf_inv sizeof_NetHeader NetPacket_BUFFER_SIZE p" using inv by (simp add: net_inv_def)
  then have s: "0 \<le> m_PayloadSize p" by (simp add: serbuf_inv_def)
  have k: "0 \<le> k" "k \<le> m_PayloadSize p" using n s by (simp_all add: k_def)
  have kk: "(if m_PayloadSize p \<le> sz then m_PayloadSize p else sz) = k" by (simp add: k_def)
  have "memcpy_in dest 0 (take (nat k) (payload p)) = Inr (mem_write dest 0 (take (nat k) (payload p)))"
    using memcpy_in_ok [of 0 "take (nat k) (payload p)" dest] dest k by simp
  with that payload_drop [OF si k] show thesis
    by (simp add: NetPacket_GetData_def Let_def kk net_inv_def)
qed

end
