(* ===== verification/Cipher.thy ===== *)
theory Cipher
  imports Packet
begin

text \<open>
  The packet header of Protocol.h and the obfuscation of SerializeBuffer.cpp: a check sum over
  the payload and a byte-wise chained XOR of check sum and payload with a fixed key and a
  random key that travels in the header.  The arithmetic of the code is on \<^verbatim>\<open>int\<close> and cut to a
  byte at every store, which is arithmetic on 8 bit words.  The lock around the encoding has no
  content for one caller; the value of \<^verbatim>\<open>rand()\<close> is an argument.
\<close>

section \<open>Header\<close>

record NetHeader =
  h_Code :: "8 word"
  h_Len :: "16 word"
  h_RandKey :: "8 word"
  h_CheckSum :: "8 word"

definition dfPACKET_CODE :: "8 word" where
  "dfPACKET_CODE = 0x77"

definition dfPACKET_KEY :: "8 word" where
  "dfPACKET_KEY = 0x32"

text \<open>The packed layout of the struct, and its reading.\<close>

definition NetHeader_bytes :: "NetHeader \<Rightarrow> byte list" where
  "NetHeader_bytes h = [h_Code h] @ le_bytes 2 (h_Len h) @ [h_RandKey h, h_CheckSum h]"

definition NetHeader_of_bytes :: "byte list \<Rightarrow> NetHeader" where
  "NetHeader_of_bytes bs =
     \<lparr>h_Code = bs ! 0, h_Len = of_le [bs ! 1, bs ! 2], h_RandKey = bs ! 3, h_CheckSum = bs ! 4\<rparr>"

section \<open>Check sum, decoding, encoding\<close>

primrec checksum_loop :: "byte \<Rightarrow> byte list \<Rightarrow> byte" where
  "checksum_loop acc [] = acc"
| "checksum_loop acc (b # bs) = checksum_loop (acc + b) bs"

text \<open>The loops run over \<open>m_PayloadSize\<close> bytes from \<open>m_PayloadPtr\<close>, whatever has been read.\<close>

definition GetCheckSum :: "NetPacket \<Rightarrow> byte run" where
  "GetCheckSum p =
     bnd (memcpy_out (m_Buffer p) (m_PayloadPtr p) (max 0 (m_PayloadSize p))) (\<lambda>bs.
       Inr (checksum_loop 0 bs))"

primrec decode_loop :: "byte \<Rightarrow> nat \<Rightarrow> byte \<Rightarrow> byte \<Rightarrow> byte list \<Rightarrow> byte list" where
  "decode_loop randKey i eData pData [] = []"
| "decode_loop randKey i eData pData (d # ds) =
     (let ePrevData = eData; eData = d;
          pPrevData = pData; pData = eData XOR (ePrevData + dfPACKET_KEY + of_nat i + 2)
      in (pData XOR (pPrevData + randKey + of_nat i + 2))
         # decode_loop randKey (Suc i) eData pData ds)"

definition Decoding :: "NetHeader \<Rightarrow> NetPacket \<Rightarrow> (bool \<times> NetHeader \<times> NetPacket) run" where
  "Decoding header p =
     (let randKey = h_RandKey header;
          eData = h_CheckSum header;
          pData = eData XOR (dfPACKET_KEY + 1);
          header = header\<lparr>h_CheckSum := pData XOR (randKey + 1)\<rparr>
      in bnd (memcpy_out (m_Buffer p) (m_PayloadPtr p) (max 0 (m_PayloadSize p))) (\<lambda>data.
         bnd (memcpy_in (m_Buffer p) (m_PayloadPtr p) (decode_loop randKey 0 eData pData data)) (\<lambda>buf.
           let p = p\<lparr>m_Buffer := buf\<rparr> in
           bnd (GetCheckSum p) (\<lambda>cs. Inr (h_CheckSum header = cs, header, p)))))"

primrec encode_loop :: "byte \<Rightarrow> nat \<Rightarrow> byte \<Rightarrow> byte \<Rightarrow> byte list \<Rightarrow> byte list" where
  "encode_loop randKey i eData pData [] = []"
| "encode_loop randKey i eData pData (d # ds) =
     (let pData = d XOR (pData + randKey + of_nat i + 2);
          eData = pData XOR (eData + dfPACKET_KEY + of_nat i + 2)
      in eData # encode_loop randKey (Suc i) eData pData ds)"

definition HeaderSettingAndEncoding :: "int \<Rightarrow> NetPacket \<Rightarrow> (bool \<times> NetPacket) run" where
  "HeaderSettingAndEncoding rnd p =
     (if \<not> m_bEencode p then
        bnd (GetCheckSum p) (\<lambda>cs.
        let header = \<lparr>h_Code = dfPACKET_CODE, h_Len = word_of_int (m_PayloadSize p),
                      h_RandKey = word_of_int (rnd smod 256), h_CheckSum = cs\<rparr>
        in bnd (NetPacket_SetHeader (NetHeader_bytes header) p) (\<lambda>p.
           let randKey = h_RandKey header in
           bnd (memcpy_out (m_Buffer p) 4 1) (\<lambda>c.
           let pData = hd c XOR (randKey + 1);
               eData = pData XOR (dfPACKET_KEY + 1)
           in bnd (memcpy_in (m_Buffer p) 4 [eData]) (\<lambda>buf.
              bnd (memcpy_out buf 5 (max 0 (m_PayloadSize p))) (\<lambda>data.
              bnd (memcpy_in buf 5 (encode_loop randKey 0 eData pData data)) (\<lambda>buf.
                Inr (True, p\<lparr>m_Buffer := buf, m_bEencode := True\<rparr>)))))))
      else Inr (True, p))"

section \<open>Lemmas\<close>

lemma length_decode_loop [simp]: "length (decode_loop rk i e p ds) = length ds"
  by (induction ds arbitrary: i e p) (simp_all add: Let_def)

lemma length_encode_loop [simp]: "length (encode_loop rk i e p ds) = length ds"
  by (induction ds arbitrary: i e p) (simp_all add: Let_def)

lemma xor_cancel_right [simp]: "(a XOR b) XOR b = (a :: 'a::len word)"
  by (simp add: xor.assoc)

lemma decode_encode_loop: "decode_loop rk i e p (encode_loop rk i e p ds) = ds"
  by (induction ds arbitrary: i e p) (simp_all add: Let_def)

lemma encode_decode_loop: "encode_loop rk i e p (decode_loop rk i e p ds) = ds"
  by (induction ds arbitrary: i e p) (simp_all add: Let_def)

lemma length_NetHeader_bytes [simp]: "length (NetHeader_bytes h) = 5"
  by (simp add: NetHeader_bytes_def)

lemma NetHeader_of_bytes_inverse: "NetHeader_of_bytes (NetHeader_bytes h @ rest) = h"
proof -
  have "of_le [le_bytes 2 (h_Len h) ! 0, le_bytes 2 (h_Len h) ! 1] = h_Len h"
    using of_le_le_bytes [of 2 "h_Len h"] by (simp add: le_bytes_def upt_rec numeral_2_eq_2)
  then show ?thesis
    by (simp add: NetHeader_of_bytes_def NetHeader_bytes_def nth_append nth_Cons')
qed

lemma payload_unread:
  assumes "net_inv p" "m_ReadPos p = 0"
  shows "memcpy_out (m_Buffer p) (m_PayloadPtr p) (max 0 (m_PayloadSize p)) = Inr (payload p)"
    and "m_PayloadPtr p = 5" and "0 \<le> m_PayloadSize p" and "m_PayloadSize p \<le> 295"
    and "length (m_Buffer p) = 300" and "int (length (payload p)) = m_PayloadSize p"
proof -
  have si: "serbuf_inv sizeof_NetHeader NetPacket_BUFFER_SIZE p" using assms by (simp add: net_inv_def)
  then show s: "m_PayloadPtr p = 5" "0 \<le> m_PayloadSize p" "m_PayloadSize p \<le> 295"
      "length (m_Buffer p) = 300" "int (length (payload p)) = m_PayloadSize p"
    using assms length_payload [OF si] by (simp_all add: serbuf_inv_def packet_consts)
  then show "memcpy_out (m_Buffer p) (m_PayloadPtr p) (max 0 (m_PayloadSize p)) = Inr (payload p)"
    using assms by (simp only: max_absorb2 memcpy_out_ok payload_def) (simp add: memcpy_out_ok)
qed

lemma GetCheckSum_payload:
  "net_inv p \<Longrightarrow> m_ReadPos p = 0 \<Longrightarrow> GetCheckSum p = Inr (checksum_loop 0 (payload p))"
  by (simp only: GetCheckSum_def payload_unread(1) bnd_Inr)

lemma drop_mem_write_after [mem_simps]:
  "off + length bs \<le> n \<Longrightarrow> off + length bs \<le> length buf \<Longrightarrow> drop n (mem_write buf off bs) = drop n buf"
  by (simp add: mem_write_def min_absorb2)

text \<open>Rewriting the payload in place, and the bytes in front of it.\<close>

lemma payload_overwrite:
  assumes inv: "net_inv p" and r: "m_ReadPos p = 0" and l: "length bs = length (payload p)"
  defines "p' \<equiv> p\<lparr>m_Buffer := mem_write (m_Buffer p) 5 bs\<rparr>"
  shows "memcpy_in (m_Buffer p) 5 bs = Inr (mem_write (m_Buffer p) 5 bs)"
    and "net_inv p'" and "payload p' = bs" and "header_bytes p' = header_bytes p"
proof -
  note u = payload_unread [OF inv r]
  have fit: "5 + length bs \<le> length (m_Buffer p)" using u l by simp
  then show "memcpy_in (m_Buffer p) 5 bs = Inr (mem_write (m_Buffer p) 5 bs)"
    using memcpy_in_ok [of 5 bs "m_Buffer p"] by simp
  show "net_inv p'"
    using inv fit by (simp add: net_inv_def serbuf_inv_def p'_def)
  have "nat (m_PayloadSize p) = length bs" using u(6) l by simp
  then show "payload p' = bs"
    using u(2) r take_drop_mem_write_same [OF fit] by (simp add: payload_def p'_def)
  show "header_bytes p' = header_bytes p"
    using u(2) fit by (simp add: header_bytes_def p'_def take_mem_write_before)
qed

lemma Decoding_payload:
  fixes h :: NetHeader
  assumes inv: "net_inv p" and r: "m_ReadPos p = 0"
  defines "pl \<equiv> decode_loop (h_RandKey h) 0 (h_CheckSum h) (h_CheckSum h XOR (dfPACKET_KEY + 1)) (payload p)"
    and "cs \<equiv> (h_CheckSum h XOR (dfPACKET_KEY + 1)) XOR (h_RandKey h + 1)"
  obtains p' where "Decoding h p = Inr (cs = checksum_loop 0 pl, h\<lparr>h_CheckSum := cs\<rparr>, p')"
    and "net_inv p'" and "payload p' = pl" and "m_ReadPos p' = 0"
    and "m_RefCount p' = m_RefCount p" and "m_bSetHeader p' = m_bSetHeader p"
    and "m_bEencode p' = m_bEencode p" and "header_bytes p' = header_bytes p"
proof -
  let ?p = "p\<lparr>m_Buffer := mem_write (m_Buffer p) 5 pl\<rparr>"
  note u = payload_unread [OF inv r]
  have l: "length pl = length (payload p)" by (simp add: pl_def)
  note o = payload_overwrite [OF inv r l]
  have r': "m_ReadPos ?p = 0" using r by simp
  have "GetCheckSum ?p = Inr (checksum_loop 0 pl)"
    using GetCheckSum_payload [OF o(2) r'] by (simp only: o(3))
  then have "Decoding h p = Inr (cs = checksum_loop 0 pl, h\<lparr>h_CheckSum := cs\<rparr>, ?p)"
    using u(1) o(1) unfolding u(2)
    by (simp add: Decoding_def Let_def u(2) pl_def [symmetric] cs_def [symmetric])
  then show thesis using o(2-4) r by (intro that [of ?p]) simp_all
qed

lemma Encoding_payload:
  fixes rnd :: int
  assumes inv: "net_inv p" and r: "m_ReadPos p = 0" and fresh: "\<not> m_bEencode p" "\<not> m_bSetHeader p"
  defines "rk \<equiv> word_of_int (rnd smod 256)"
    and "cs \<equiv> checksum_loop 0 (payload p)"
  defines "pd \<equiv> cs XOR (rk + 1)"
  defines "ed \<equiv> pd XOR (dfPACKET_KEY + 1)"
  obtains p' where "HeaderSettingAndEncoding rnd p = Inr (True, p')"
    and "net_inv p'" and "payload p' = encode_loop rk 0 ed pd (payload p)"
    and "header_bytes p' = NetHeader_bytes
           \<lparr>h_Code = dfPACKET_CODE, h_Len = word_of_int (m_PayloadSize p), h_RandKey = rk, h_CheckSum = ed\<rparr>"
    and "m_ReadPos p' = 0" and "m_bEencode p'" and "m_bSetHeader p'" and "m_RefCount p' = m_RefCount p"
    and "m_PayloadSize p' = m_PayloadSize p"
proof -
  let ?h = "\<lparr>h_Code = dfPACKET_CODE, h_Len = word_of_int (m_PayloadSize p), h_RandKey = rk, h_CheckSum = cs\<rparr>"
  let ?b1 = "mem_write (m_Buffer p) 0 (NetHeader_bytes ?h)"
  let ?b2 = "mem_write ?b1 4 [ed]"
  let ?p1 = "p\<lparr>m_bSetHeader := True, m_Buffer := ?b1\<rparr>"
  let ?p2 = "p\<lparr>m_bSetHeader := True, m_bEencode := True, m_Buffer := ?b2\<rparr>"
  note u = payload_unread [OF inv r]
  have b1: "length ?b1 = 300" and b2: "length ?b2 = 300" using u(5) by simp_all
  have take_b1: "take 5 ?b1 = NetHeader_bytes ?h"
    using u(5) by (simp add: mem_write_def)
  have rest: "drop 5 ?b2 = drop 5 (m_Buffer p)"
    using u(5) b1 by (simp add: drop_mem_write_after)
  have front: "take 5 ?b2 = NetHeader_bytes (?h\<lparr>h_CheckSum := ed\<rparr>)"
  proof -
    have "take 5 ?b2 = take 4 (take 5 ?b1) @ [ed]"
      using b1 by (simp add: mem_write_def)
    then show ?thesis unfolding take_b1 by (simp add: NetHeader_bytes_def le_bytes_def)
  qed
  have inv2: "net_inv ?p2" using inv b2 u(5) by (simp add: net_inv_def serbuf_inv_def)
  have pl2: "payload ?p2 = payload p" using u(2) r rest by (simp add: payload_def)
  let ?pl = "encode_loop rk 0 ed pd (payload p)"
  have l: "length ?pl = length (payload ?p2)" by (simp add: pl2)
  have r2: "m_ReadPos ?p2 = 0" using r by simp
  note o = payload_overwrite [OF inv2 r2 l]
  let ?p' = "?p2\<lparr>m_Buffer := mem_write (m_Buffer ?p2) 5 ?pl\<rparr>"
  have sh: "NetPacket_SetHeader (NetHeader_bytes ?h) p = Inr ?p1"
    using fresh u(5) memcpy_in_ok [of 0 "NetHeader_bytes ?h" "m_Buffer p"]
    by (simp add: NetPacket_SetHeader_def)
  have c: "memcpy_out ?b1 4 1 = Inr [cs]"
  proof -
    have "take 1 (drop 4 ?b1) = drop 4 (take 5 ?b1)" by (simp add: drop_take)
    also have "\<dots> = [cs]" unfolding take_b1 by (simp add: NetHeader_bytes_def le_bytes_def)
    finally show ?thesis using memcpy_out_ok [of 4 1 ?b1] b1 by simp
  qed
  have e: "memcpy_in ?b1 4 [ed] = Inr ?b2" using memcpy_in_ok [of 4 "[ed]" ?b1] b1 by simp
  have d: "memcpy_out ?b2 5 (max 0 (m_PayloadSize p)) = Inr (payload p)"
    using payload_unread(1) [OF inv2 r2] u(2) by (simp add: pl2)
  have "HeaderSettingAndEncoding rnd p = Inr (True, ?p')"
    using fresh sh c e d o(1) GetCheckSum_payload [OF inv r]
    by (simp add: HeaderSettingAndEncoding_def Let_def rk_def [symmetric] cs_def [symmetric]
        pd_def [symmetric] ed_def [symmetric])
  moreover have "header_bytes ?p' = NetHeader_bytes (?h\<lparr>h_CheckSum := ed\<rparr>)"
    using o(4) front u(2) by (simp add: header_bytes_def)
  ultimately show thesis
    using o(2,3) r pl2 by (intro that [of ?p']) simp_all
qed

lemma HeaderSettingAndEncoding_again:
  "m_bEencode p \<Longrightarrow> HeaderSettingAndEncoding rnd p = Inr (True, p)"
  by (simp add: HeaderSettingAndEncoding_def)

section \<open>Properties\<close>

text \<open>
  C21. Decoding undoes encoding.  A packet with an unread payload is encoded with any random
  number; any other packet that holds the encoded payload, decoded with the header that the
  first five encoded bytes spell, passes its check sum test and holds the original payload;
  the header carries the code and the payload length.
\<close>

theorem decode_encode:
  assumes "net_inv p" "m_ReadPos p = 0" "\<not> m_bEencode p" "\<not> m_bSetHeader p"
    and "HeaderSettingAndEncoding rnd p = Inr (ok, p')"
    and "net_inv q" "m_ReadPos q = 0" "payload q = payload p'"
  defines "h \<equiv> NetHeader_of_bytes (header_bytes p')"
  shows "ok \<and> h_Code h = dfPACKET_CODE \<and> unat (h_Len h) = length (payload p) \<and>
    (\<exists>h' q'. Decoding h q = Inr (True, h', q') \<and> net_inv q' \<and> payload q' = payload p \<and>
             h_CheckSum h' = checksum_loop 0 (payload p))"
proof -
  let ?rk = "word_of_int (rnd smod 256) :: 8 word" and ?cs = "checksum_loop 0 (payload p)"
  let ?pd = "?cs XOR (?rk + 1)"
  let ?ed = "?pd XOR (dfPACKET_KEY + 1)"
  have p': "ok" "payload p' = encode_loop ?rk 0 ?ed ?pd (payload p)"
      "header_bytes p' = NetHeader_bytes \<lparr>h_Code = dfPACKET_CODE, h_Len = word_of_int (m_PayloadSize p),
         h_RandKey = ?rk, h_CheckSum = ?ed\<rparr>"
    by (rule Encoding_payload [OF assms(1-4), of rnd]; use assms(5) in simp)+
  have h: "h = \<lparr>h_Code = dfPACKET_CODE, h_Len = word_of_int (m_PayloadSize p), h_RandKey = ?rk, h_CheckSum = ?ed\<rparr>"
    using NetHeader_of_bytes_inverse [of _ "[]"] by (simp add: h_def p'(3))
  note u = payload_unread [OF assms(1,2)]
  have "uint (word_of_int (m_PayloadSize p) :: 16 word) = m_PayloadSize p"
    using u(3,4) by (simp add: uint_word_of_int)
  then have len: "unat (h_Len h) = length (payload p)" using u(6) by (simp add: h unat_eq_nat_uint)
  obtain q' where "Decoding h q = Inr (True, h\<lparr>h_CheckSum := ?cs\<rparr>, q')" "net_inv q'"
      "payload q' = payload p"
    using Decoding_payload [OF assms(6,7), of h] by (simp add: assms(8) p'(2) h decode_encode_loop) blast
  then show ?thesis using p'(1) len by (auto simp: h)
qed

definition sample_packet :: NetPacket where
  "sample_packet = NetPacket_new\<lparr>m_Buffer := mem_write (m_Buffer NetPacket_new) 5 [1, 2, 3],
     m_WritePos := 3, m_PayloadSize := 3, m_PayloadFreeSize := 292\<rparr>"

lemma sample_packet_facts:
  "net_inv sample_packet" "m_ReadPos sample_packet = 0" "\<not> m_bEencode sample_packet"
  "\<not> m_bSetHeader sample_packet" "payload sample_packet = [1, 2, 3]"
  by (simp_all add: sample_packet_def NetPacket_new_def net_inv_def serbuf_inv_def payload_def
      packet_consts mem_write_def)

theorem decode_encode_witness:
  "\<exists>p' h' q'. HeaderSettingAndEncoding 41 sample_packet = Inr (True, p') \<and>
     Decoding (NetHeader_of_bytes (header_bytes p')) p' = Inr (True, h', q') \<and> payload q' = [1, 2, 3]"
proof -
  obtain p' where p': "HeaderSettingAndEncoding 41 sample_packet = Inr (True, p')" "net_inv p'"
      "m_ReadPos p' = 0"
    by (rule Encoding_payload [OF sample_packet_facts(1-4), of 41]) blast
  show ?thesis
    using decode_encode [OF sample_packet_facts(1-4) p' refl] p'(1) by (auto simp: sample_packet_facts)
qed

text \<open>
  A packet queued to many sessions is encoded once: after a successful encoding a second
  call, with whatever random number, changes nothing.
\<close>

theorem encode_once:
  assumes "HeaderSettingAndEncoding rnd p = Inr (ok, p')"
  shows "m_bEencode p' \<and> HeaderSettingAndEncoding rnd' p' = Inr (True, p')"
proof -
  have "m_bEencode p'"
    using assms by (auto simp: HeaderSettingAndEncoding_def Let_def run_simps split: if_splits)
  then show ?thesis by (simp add: HeaderSettingAndEncoding_again)
qed

theorem encode_once_witness:
  "\<exists>p'. HeaderSettingAndEncoding 41 sample_packet = Inr (True, p') \<and>
     HeaderSettingAndEncoding 7 p' = Inr (True, p')"
proof -
  obtain p' where "HeaderSettingAndEncoding 41 sample_packet = Inr (True, p')"
    by (rule Encoding_payload [OF sample_packet_facts(1-4), of 41]) blast
  then show ?thesis using encode_once [of 41 sample_packet True p' 7] by blast
qed

end
