(* ===== verification/PacketPool.thy ===== *)
theory PacketPool
  imports MemoryPool Cipher
begin

text \<open>
  The packet pools of SerializeBuffer.cpp: \<^verbatim>\<open>Alloc\<close> and \<^verbatim>\<open>Free\<close> of \<^verbatim>\<open>LanPacket\<close> and
  \<^verbatim>\<open>NetPacket\<close> over their static \<open>MemoryPool_TLS\<close>.  A packet is constructed once, with its
  chunk; from then on it is the \<^verbatim>\<open>Clear\<close> in \<^verbatim>\<open>Free\<close> that makes the next holder find it
  fresh.  \<open>p\<close> is the pointer, \<open>t\<close> the calling thread.
\<close>

type_synonym NetPacketPool = "NetPacket MemoryPool"
type_synonym LanPacketPool = "LanPacket MemoryPool"

text \<open>The static members.\<close>

definition NetPacketPool_new :: "int \<Rightarrow> NetPacketPool" where
  "NetPacketPool_new mark = MemoryPool_new mark 1000 False"

definition LanPacketPool_new :: "int \<Rightarrow> LanPacketPool" where
  "LanPacketPool_new mark = MemoryPool_new mark 500 False"

definition NetPacket_Alloc :: "tid \<Rightarrow> NetPacketPool \<Rightarrow> (objptr \<times> NetPacketPool) run" where
  "NetPacket_Alloc t pool = MemoryPool_Alloc NetPacket_new NetPacket_new t pool"

definition NetPacket_Free :: "objptr \<Rightarrow> NetPacketPool \<Rightarrow> NetPacketPool run" where
  "NetPacket_Free p pool =
     (case mp_object pool p of
        None \<Rightarrow> Inl OutOfBounds
      | Some obj \<Rightarrow> MemoryPool_Free id p (mp_put p (NetPacket_Clear (mp_get pool p)) pool))"

definition LanPacket_Alloc :: "tid \<Rightarrow> LanPacketPool \<Rightarrow> (objptr \<times> LanPacketPool) run" where
  "LanPacket_Alloc t pool = MemoryPool_Alloc LanPacket_new LanPacket_new t pool"

definition LanPacket_Free :: "objptr \<Rightarrow> LanPacketPool \<Rightarrow> LanPacketPool run" where
  "LanPacket_Free p pool =
     (case mp_object pool p of
        None \<Rightarrow> Inl OutOfBounds
      | Some obj \<Rightarrow> MemoryPool_Free id p (mp_put p (LanPacket_Clear (mp_get pool p)) pool))"

definition NetPacket_GetMemoryPoolAllocCount :: "NetPacketPool \<Rightarrow> int" where
  "NetPacket_GetMemoryPoolAllocCount pool = MemoryPool_GetChunkCount pool"

definition NetPacket_GetPoolCount :: "NetPacketPool \<Rightarrow> int" where
  "NetPacket_GetPoolCount pool = MemoryPool_GetPoolCount pool"

definition NetPacket_GetUseCount :: "NetPacketPool \<Rightarrow> int" where
  "NetPacket_GetUseCount pool = MemoryPool_GetUseCount pool"

definition LanPacket_GetMemoryPoolAllocCount :: "LanPacketPool \<Rightarrow> int" where
  "LanPacket_GetMemoryPoolAllocCount pool = MemoryPool_GetChunkCount pool"

section \<open>What the objects of a pool hold\<close>

definition pool_data :: "'d MemoryPool \<Rightarrow> objptr \<Rightarrow> 'd option" where
  "pool_data s p = map_option ca_Data (mp_object s p)"

text \<open>Without placement construction an allocation changes no object, it may add new ones.\<close>

definition data_grow :: "'d \<Rightarrow> 'd MemoryPool \<Rightarrow> 'd MemoryPool \<Rightarrow> bool" where
  "data_grow ctor s s' \<longleftrightarrow>
     (\<forall>p d. pool_data s' p = Some d \<longrightarrow> pool_data s p = Some d \<or> d = ctor) \<and>
     mp_bPlacementNew s' = mp_bPlacementNew s"

lemma data_grow_refl [simp]: "data_grow ctor s s"
  by (simp add: data_grow_def)

lemma data_grow_trans: "data_grow ctor s s1 \<Longrightarrow> data_grow ctor s1 s2 \<Longrightarrow> data_grow ctor s s2"
  unfolding data_grow_def by metis

lemma pool_data_eq:
  "pool_data s p =
     (if fst p < length (fl_blocks (m_ChunkMemoryPool s))
      then case m_Chunk (fl_get (m_ChunkMemoryPool s) (fst p)) of
             None \<Rightarrow> None
           | Some arr \<Rightarrow> if snd p < length arr then Some (ca_Data (arr ! snd p)) else None
      else None)"
  by (cases p) (auto simp: pool_data_def mp_object_def split: option.split)

lemma ChunkSetting_grow:
  assumes "MemoryPool_ChunkSetting ctor raw t s = Inr (c, s')"
    and "\<not> fl_bPlacementNew (m_ChunkMemoryPool s)" "\<not> mp_bPlacementNew s"
  shows "data_grow ctor s s'"
proof -
  let ?pool = "m_ChunkMemoryPool s"
  obtain pool where a: "FreeList_Alloc ChunkMemory_new ?pool = Inr (c, pool)"
    and s': "s' = s\<lparr>m_ChunkMemoryPool := fl_put c (ChunkMemory_AllocInit ctor raw c (mp_bPlacementNew s)
                       (mp_ObjectCount s) (fl_get pool c)) pool,
                   m_TLSChunk := (m_TLSChunk s)(t := Some c)\<rparr>"
    using assms(1) by (auto simp: MemoryPool_ChunkSetting_def run_simps Let_def)
  note d = FreeList_Alloc_data [OF a assms(2)]
  have "pool_data s q = Some x \<or> x = ctor" if "pool_data s' q = Some x" for q x
  proof -
    let ?ck = "fl_get pool c"
    have lt: "fst q < length (fl_blocks pool)" using that by (auto simp: pool_data_eq s' split: if_splits)
    show ?thesis
    proof (cases "fst q < length (fl_blocks ?pool)")
      case True
      then have old: "fl_get pool (fst q) = fl_get ?pool (fst q)" by (rule d(5))
      show ?thesis
        using that True lt old d(3) assms(3)
        by (cases "fst q = c"; cases "m_Chunk (fl_get ?pool c)")
           (auto simp: pool_data_eq s' fl_get_put ChunkMemory_AllocInit_def split: option.splits if_splits)
    next
      case False
      then have "fst q = c" "fl_get pool c = ChunkMemory_new" using d(6) [OF lt] by simp_all
      then show ?thesis
        using that d(3) assms(3)
        by (auto simp: pool_data_eq s' fl_get_put ChunkMemory_AllocInit_def ChunkMemory_new_def
            split: if_splits)
    qed
  qed
  then show ?thesis by (simp add: data_grow_def s')
qed

lemma ChunkMemory_Alloc_grow:
  assumes "ChunkMemory_Alloc ctor raw t c s = Inr (p, s')"
    and "\<not> fl_bPlacementNew (m_ChunkMemoryPool s)" "\<not> mp_bPlacementNew s"
    and "\<not> ck_bPlacementNew (fl_get (m_ChunkMemoryPool s) c)"
    and "c < length (fl_blocks (m_ChunkMemoryPool s))"
  shows "data_grow ctor s s'"
proof -
  let ?pool = "m_ChunkMemoryPool s" and ?ck = "fl_get (m_ChunkMemoryPool s) c"
  obtain arr where arr: "m_Chunk ?ck = Some arr" using assms(1)
    by (cases "m_Chunk ?ck") (auto simp: ChunkMemory_Alloc_def Let_def)
  define s1 where "s1 = s\<lparr>m_ChunkMemoryPool :=
      fl_put c (?ck\<lparr>m_AllocIndex := m_AllocIndex ?ck - 1, m_Chunk := Some arr\<rparr>) ?pool\<rparr>"
  have "pool_data s1 q = pool_data s q" for q
    using assms(5) arr by (auto simp: pool_data_eq s1_def fl_get_put)
  then have g1: "data_grow ctor s s1" by (simp add: data_grow_def) (simp add: s1_def)
  consider "s' = s1" | c2 where "MemoryPool_ChunkSetting ctor raw t s1 = Inr (c2, s')"
    using assms(1,4) arr by (auto simp: ChunkMemory_Alloc_def Let_def s1_def run_simps split: if_splits)
  then show ?thesis
  proof cases
    case 2
    then show ?thesis
      using assms(2,3) by (intro data_grow_trans [OF g1] ChunkSetting_grow) (simp_all add: s1_def)
  qed (use g1 in simp)
qed

lemma MemoryPool_Alloc_grow:
  assumes inv: "mp_inv s U" and np: "\<not> mp_bPlacementNew s"
    and a: "MemoryPool_Alloc ctor raw t s = Inr (p, s')"
  shows "data_grow ctor s s'"
proof -
  obtain V where core: "mp_core s U V" and tls: "mp_tls UNIV s V" using inv by (auto simp: mp_inv_def)
  have fnp: "\<not> fl_bPlacementNew (m_ChunkMemoryPool s)" using core by (simp add: mp_core_def)
  have chunk: "data_grow ctor s1 s'"
    if c1: "mp_core s1 U V1" "mp_tls UNIV s1 V1" "m_TLSChunk s1 t = Some c" "\<not> mp_bPlacementNew s1"
      and st: "ChunkMemory_Alloc ctor raw t c s1 = Inr (p, s')" for s1 V1 c
  proof (rule ChunkMemory_Alloc_grow [OF st])
    have c: "c \<in> V1" by (rule mp_tlsD(1) [OF c1(2) UNIV_I c1(3)])
    obtain arr where arr: "m_Chunk (fl_get (m_ChunkMemoryPool s1) c) = Some arr"
        "chunk_wf (mp_ObjectCount s1) (mp_bPlacementNew s1) c (fl_get (m_ChunkMemoryPool s1) c)"
        "c < length (fl_blocks (m_ChunkMemoryPool s1))"
      by (rule mp_core_chunk [OF c1(1) c])
    show "\<not> ck_bPlacementNew (fl_get (m_ChunkMemoryPool s1) c)" "c < length (fl_blocks (m_ChunkMemoryPool s1))"
      using arr c1(4) by (simp_all add: chunk_wf_def)
  qed (use c1 in \<open>simp_all add: mp_core_def\<close>)
  show ?thesis
  proof (cases "m_TLSChunk s t")
    case (Some c)
    then show ?thesis using chunk [OF core tls Some np] a by (simp add: MemoryPool_Alloc_def)
  next
    case None
    have "mp_tls (- {t}) s V" using tls by (auto simp: mp_tls_def)
    from ChunkSetting_ok [OF core this, of ctor raw] obtain c s1 where s1:
        "MemoryPool_ChunkSetting ctor raw t s = Inr (c, s1)" "mp_core s1 U (insert c V)"
        "mp_tls UNIV s1 (insert c V)" "m_TLSChunk s1 t = Some c"
      by blast
    have g: "data_grow ctor s s1" using s1(1) fnp np by (rule ChunkSetting_grow)
    then have "\<not> mp_bPlacementNew s1" using np by (simp add: data_grow_def)
    from chunk [OF s1(2-4) this] show ?thesis
      using a None s1(1) g by (auto simp: MemoryPool_Alloc_def intro: data_grow_trans)
  qed
qed

lemma pool_data_get: "pool_data s p = Some d \<Longrightarrow> mp_get s p = d"
  by (cases p) (auto simp: pool_data_eq mp_get_def split: if_splits option.splits)

lemma pool_data_used: "mp_inv s U \<Longrightarrow> p \<in> U \<Longrightarrow> pool_data s p = Some (mp_get s p)"
  unfolding mp_inv_def by (cases p) (auto simp: pool_data_def elim: mp_object_used)

lemma pool_data_put:
  assumes "pool_data s p = Some x"
  shows "pool_data (mp_put p d s) q = (if q = p then Some d else pool_data s q)"
proof -
  obtain c i where pc: "p = (c, i)" by (cases p)
  show ?thesis
    using assms
    by (cases q) (auto simp: pc pool_data_eq mp_put_def Let_def fl_get_put nth_update_if
        split: if_splits option.splits)
qed

text \<open>A free with the trivial destructor changes no object.\<close>

definition same_data :: "'d ChunkMemory FreeList \<Rightarrow> 'd ChunkMemory FreeList \<Rightarrow> bool" where
  "same_data pool pool' \<longleftrightarrow>
     length (fl_blocks pool') = length (fl_blocks pool) \<and>
     (\<forall>c. map_option (map ca_Data) (m_Chunk (fl_get pool' c))
        = map_option (map ca_Data) (m_Chunk (fl_get pool c)))"

lemma same_data_put:
  "map_option (map ca_Data) (m_Chunk ck) = map_option (map ca_Data) (m_Chunk (fl_get pool c))
   \<Longrightarrow> same_data pool (fl_put c ck pool)"
  by (auto simp: same_data_def fl_get_put)

lemma same_data_trans: "same_data a b \<Longrightarrow> same_data b c \<Longrightarrow> same_data a c"
  by (simp add: same_data_def)

lemma same_data_pool_data:
  assumes "same_data (m_ChunkMemoryPool s) (m_ChunkMemoryPool s')"
  shows "pool_data s' q = pool_data s q"
proof -
  have m: "map_option (map ca_Data) (m_Chunk (fl_get (m_ChunkMemoryPool s') (fst q)))
           = map_option (map ca_Data) (m_Chunk (fl_get (m_ChunkMemoryPool s) (fst q)))"
    and l: "length (fl_blocks (m_ChunkMemoryPool s')) = length (fl_blocks (m_ChunkMemoryPool s))"
    using assms by (simp_all add: same_data_def)
  show ?thesis
  proof (cases "m_Chunk (fl_get (m_ChunkMemoryPool s) (fst q))")
    case None
    then show ?thesis using m l by (simp add: pool_data_eq)
  next
    case (Some arr)
    then obtain arr' where arr': "m_Chunk (fl_get (m_ChunkMemoryPool s') (fst q)) = Some arr'"
        "map ca_Data arr' = map ca_Data arr" using m by auto
    then have "length arr' = length arr" "\<And>i. i < length arr \<Longrightarrow> ca_Data (arr' ! i) = ca_Data (arr ! i)"
      by (metis length_map, metis length_map nth_map)
    then show ?thesis using Some arr'(1) l by (simp add: pool_data_eq)
  qed
qed

lemma MemoryPool_Free_data:
  assumes f: "MemoryPool_Free id p s = Inr s'" and np: "\<not> fl_bPlacementNew (m_ChunkMemoryPool s)"
  shows "pool_data s' q = pool_data s q" "mp_bPlacementNew s' = mp_bPlacementNew s"
proof -
  obtain c i where pc: "p = (c, i)" by (cases p)
  obtain obj this where obj: "mp_object s p = Some obj"
    and f2: "bnd (ChunkMemory_Free id p this s) (\<lambda>(_, s). Inr s) = Inr s'"
    using f by (auto simp: MemoryPool_Free_def split: option.splits)
  define pool where "pool = (if ck_bPlacementNew (fl_get (m_ChunkMemoryPool s) this)
      then fl_put c ((fl_get (m_ChunkMemoryPool s) c)\<lparr>m_Chunk := map_option (\<lambda>arr. arr[i := obj])
                        (m_Chunk (fl_get (m_ChunkMemoryPool s) c))\<rparr>) (m_ChunkMemoryPool s)
      else m_ChunkMemoryPool s)"
  define pool1 where "pool1 = fl_put this ((fl_get pool this)\<lparr>m_FreeCount := m_FreeCount (fl_get pool this) - 1\<rparr>) pool"
  have objarr: "map_option (\<lambda>arr. arr[i := obj]) (m_Chunk (fl_get (m_ChunkMemoryPool s) c))
      = m_Chunk (fl_get (m_ChunkMemoryPool s) c)"
    using obj by (auto simp: pc mp_object_def split: if_splits option.splits)
  have d0: "same_data (m_ChunkMemoryPool s) pool"
    by (simp add: pool_def objarr same_data_put) (simp add: same_data_def)
  then have d1: "same_data (m_ChunkMemoryPool s) pool1"
    by (rule same_data_trans) (simp add: pool1_def same_data_put)
  have np1: "\<not> fl_bPlacementNew pool1" using np by (simp add: pool1_def pool_def)
  consider "s' = s\<lparr>m_ChunkMemoryPool := pool1\<rparr>"
    | pool2 where "FreeList_Free id this pool1 = Inr pool2" "s' = s\<lparr>m_ChunkMemoryPool := pool2\<rparr>"
    using f2 obj unfolding pool1_def pool_def pc
    by (auto simp: ChunkMemory_Free_def Let_def run_simps split: if_splits)
  then have "same_data (m_ChunkMemoryPool s) (m_ChunkMemoryPool s') \<and> mp_bPlacementNew s' = mp_bPlacementNew s"
  proof cases
    case 2
    then show ?thesis
      using d1 FreeList_Free_data [OF 2(1) np1] by (simp add: same_data_def)
  qed (use d1 in simp)
  then show "pool_data s' q = pool_data s q" "mp_bPlacementNew s' = mp_bPlacementNew s"
    using same_data_pool_data by blast+
qed

section \<open>The packet pool\<close>

text \<open>A packet as its constructor leaves it, up to the bytes in its buffer.\<close>

definition fresh_packet :: "NetPacket \<Rightarrow> bool" where
  "fresh_packet d \<longleftrightarrow> net_inv d \<and> m_PayloadSize d = 0 \<and> m_WritePos d = 0 \<and> m_ReadPos d = 0 \<and>
     \<not> m_bSetHeader d \<and> \<not> m_bEencode d \<and> m_RefCount d = 1"

lemma fresh_packet_new [simp]: "fresh_packet NetPacket_new"
  by (simp add: fresh_packet_def) (simp add: NetPacket_new_def)

text \<open>What \<open>Clear\<close> needs to make a packet fresh; no operation changes it.\<close>

definition packet_shape :: "NetPacket \<Rightarrow> bool" where
  "packet_shape d \<longleftrightarrow> length (m_Buffer d) = 300 \<and> m_PayloadPtr d = 5"

lemma fresh_packet_Clear: "packet_shape d \<Longrightarrow> fresh_packet (NetPacket_Clear d)"
  by (simp add: fresh_packet_def packet_shape_def NetPacket_Clear_def net_inv_def serbuf_inv_def packet_consts)

lemma packet_shape_fresh: "fresh_packet d \<Longrightarrow> packet_shape d"
  by (simp add: fresh_packet_def packet_shape_def net_inv_def serbuf_inv_def packet_consts)

definition packet_pool_inv :: "NetPacketPool \<Rightarrow> objptr set \<Rightarrow> bool" where
  "packet_pool_inv s U \<longleftrightarrow> mp_inv s U \<and> \<not> mp_bPlacementNew s \<and>
     (\<forall>p d. pool_data s p = Some d \<longrightarrow> (if p \<in> U then packet_shape d else fresh_packet d))"

lemma packet_pool_inv_new: "packet_pool_inv (NetPacketPool_new mark) {}"
proof -
  have "mp_inv (NetPacketPool_new mark) {}" by (simp add: NetPacketPool_new_def mp_inv_new)
  then show ?thesis
    by (auto simp: packet_pool_inv_def) (simp_all add: NetPacketPool_new_def MemoryPool_new_def
        FreeList_new_def pool_data_eq)
qed

lemma NetPacket_Alloc_ok:
  assumes inv: "packet_pool_inv s U"
  shows "\<exists>p s'. NetPacket_Alloc t s = Inr (p, s') \<and> p \<notin> U \<and> packet_pool_inv s' (insert p U) \<and>
           fresh_packet (mp_get s' p) \<and> (\<forall>q\<in>U. mp_get s' q = mp_get s q)"
proof -
  have mp: "mp_inv s U" and np: "\<not> mp_bPlacementNew s"
    and d: "\<And>p d. pool_data s p = Some d \<Longrightarrow> if p \<in> U then packet_shape d else fresh_packet d"
    using inv by (auto simp: packet_pool_inv_def)
  from MemoryPool_Alloc_ok [OF mp, of NetPacket_new NetPacket_new t] obtain p s' where a:
      "MemoryPool_Alloc NetPacket_new NetPacket_new t s = Inr (p, s')" "p \<notin> U" "mp_inv s' (insert p U)"
      "\<forall>q\<in>U. mp_get s' q = mp_get s q" by blast
  note g = MemoryPool_Alloc_grow [OF mp np a(1)]
  have fr: "fresh_packet x" if "pool_data s' q = Some x" "q \<notin> U" for q x
  proof -
    have "pool_data s q = Some x \<or> x = NetPacket_new"
      using g that(1) unfolding data_grow_def by blast
    then show ?thesis using d [of q x] that(2) by auto
  qed
  have "fresh_packet (mp_get s' p)"
    using fr [OF pool_data_used [OF a(3)]] a(2) by simp
  moreover have "if q \<in> insert p U then packet_shape x else fresh_packet x" if "pool_data s' q = Some x" for q x
  proof (cases "q \<in> U")
    case True
    then have "x = mp_get s q" using a(4) pool_data_get [OF that] by simp
    then show ?thesis using d [of q x] pool_data_used [OF mp True] True by simp
  next
    case False
    then show ?thesis using fr [OF that False] packet_shape_fresh by simp
  qed
  moreover have "\<not> mp_bPlacementNew s'" using g np by (simp add: data_grow_def)
  ultimately show ?thesis using a by (auto simp: NetPacket_Alloc_def packet_pool_inv_def)
qed

lemma NetPacket_Free_ok:
  assumes inv: "packet_pool_inv s U" and p: "p \<in> U"
  shows "\<exists>s'. NetPacket_Free p s = Inr s' \<and> packet_pool_inv s' (U - {p}) \<and>
           (\<forall>q\<in>U - {p}. mp_get s' q = mp_get s q)"
proof -
  have mp: "mp_inv s U" and np: "\<not> mp_bPlacementNew s"
    and d: "\<And>p d. pool_data s p = Some d \<Longrightarrow> if p \<in> U then packet_shape d else fresh_packet d"
    using inv by (auto simp: packet_pool_inv_def)
  let ?s1 = "mp_put p (NetPacket_Clear (mp_get s p)) s"
  note pd = pool_data_used [OF mp p]
  note put = mp_put_ok [OF mp p, where d = "NetPacket_Clear (mp_get s p)"]
  from MemoryPool_Free_ok [OF put(1) p, of id] obtain s' where f:
      "MemoryPool_Free id p ?s1 = Inr s'" "mp_inv s' (U - {p})" "\<forall>q\<in>U - {p}. mp_get s' q = mp_get ?s1 q"
    by blast
  have "\<not> fl_bPlacementNew (m_ChunkMemoryPool ?s1)"
    using put(1) by (auto simp: mp_inv_def mp_core_def)
  note fd = MemoryPool_Free_data [OF f(1) this]
  have "fresh_packet (NetPacket_Clear (mp_get s p))"
    using d [OF pd] p by (simp add: fresh_packet_Clear)
  then have "if q \<in> U - {p} then packet_shape x else fresh_packet x" if "pool_data s' q = Some x" for q x
    using that d [of q x] p pool_data_put [OF pd] by (auto simp: fd(1) split: if_splits)
  moreover have "NetPacket_Free p s = Inr s'"
    using pd f(1) by (auto simp: NetPacket_Free_def pool_data_def)
  moreover have "\<not> mp_bPlacementNew s'" using fd(2) np by (simp add: mp_put_def Let_def)
  ultimately show ?thesis using f(2,3) put(3) by (auto simp: packet_pool_inv_def)
qed

interpretation net_packets: object_pool packet_pool_inv mp_get NetPacket_Alloc NetPacket_Free
proof unfold_locales
  show "\<And>s U t. packet_pool_inv s U \<Longrightarrow> \<exists>p s'. NetPacket_Alloc t s = Inr (p, s') \<and> p \<notin> U \<and>
      packet_pool_inv s' (insert p U) \<and> (\<forall>q\<in>U. mp_get s' q = mp_get s q)"
    using NetPacket_Alloc_ok by blast
qed (erule (1) NetPacket_Free_ok)

section \<open>What the holder of a packet does with it\<close>

text \<open>
  The operations that change a packet: writing and reading a value, writing and reading a
  block, moving a position, the header, encoding and decoding, the two reference counts.
\<close>

datatype packet_use =
    PutField field
  | GetField ftype
  | PutBlock "byte list" int
  | GetBlock "byte list" int
  | MoveWrite int
  | MoveRead int
  | PutHeader "byte list"
  | Encode int
  | Decode NetHeader
  | CountUp
  | CountDown

fun use_packet :: "packet_use \<Rightarrow> NetPacket \<Rightarrow> NetPacket run" where
  "use_packet (PutField f) d = NetPacket_put_field f d"
| "use_packet (GetField t) d = bnd (NetPacket_get_field t d) (\<lambda>(_, d). Inr d)"
| "use_packet (PutBlock src n) d = bnd (NetPacket_PutData src n d) (\<lambda>(_, d). Inr d)"
| "use_packet (GetBlock dest n) d = bnd (NetPacket_GetData dest n d) (\<lambda>(_, _, d). Inr d)"
| "use_packet (MoveWrite n) d = Inr (snd (NetPacket_MoveWritePos n d))"
| "use_packet (MoveRead n) d = Inr (snd (NetPacket_MoveReadPos n d))"
| "use_packet (PutHeader bs) d = NetPacket_SetHeader bs d"
| "use_packet (Encode rnd) d = bnd (HeaderSettingAndEncoding rnd d) (\<lambda>(_, d). Inr d)"
| "use_packet (Decode h) d = bnd (Decoding h d) (\<lambda>(_, _, d). Inr d)"
| "use_packet CountUp d = Inr (snd (NetPacket_IncrementRefCount d))"
| "use_packet CountDown d = Inr (snd (NetPacket_DecrementRefCount d))"

lemma put_scalar_shape:
  "put_scalar bs d = Inr d' \<Longrightarrow> length (m_Buffer d') = length (m_Buffer d) \<and> m_PayloadPtr d' = m_PayloadPtr d"
  by (auto simp: put_scalar_def Let_def run_simps split: if_splits)

lemma get_scalar_shape:
  "get_scalar n d = Inr (bs, d') \<Longrightarrow> m_Buffer d' = m_Buffer d \<and> m_PayloadPtr d' = m_PayloadPtr d"
  by (auto simp: get_scalar_def run_simps split: if_splits)

lemma use_packet_shape:
  assumes "use_packet u d = Inr d'" and "packet_shape d"
  shows "packet_shape d'"
  using assms
proof (cases u)
  case (PutField f)
  then show ?thesis using assms put_scalar_shape by (fastforce simp: put_field_eq packet_shape_def)
next
  case (GetField t)
  then show ?thesis using assms get_scalar_shape by (fastforce simp: get_field_eq packet_shape_def run_simps)
qed (auto simp: packet_shape_def run_simps Let_def NetPacket_PutData_def NetPacket_GetData_def
    NetPacket_MoveWritePos_def NetPacket_MoveReadPos_def NetPacket_SetHeader_def
    HeaderSettingAndEncoding_def Decoding_def NetPacket_IncrementRefCount_def
    NetPacket_DecrementRefCount_def split: if_splits)

text \<open>A holder may use a packet in any way that keeps its shape.\<close>

lemma packet_pool_put:
  assumes inv: "packet_pool_inv s U" and p: "p \<in> U" and d: "packet_shape d"
  shows "packet_pool_inv (mp_put p d s) U" "mp_get (mp_put p d s) p = d"
    "q \<in> U \<Longrightarrow> q \<noteq> p \<Longrightarrow> mp_get (mp_put p d s) q = mp_get s q"
proof -
  have mp: "mp_inv s U" using inv by (simp add: packet_pool_inv_def)
  note put = mp_put_ok [OF mp p, where d = d]
  show "packet_pool_inv (mp_put p d s) U"
    using inv put(1) p d pool_data_put [OF pool_data_used [OF mp p], of d]
    by (auto simp: packet_pool_inv_def) (simp_all add: mp_put_def Let_def)
  show "mp_get (mp_put p d s) p = d" "q \<in> U \<Longrightarrow> q \<noteq> p \<Longrightarrow> mp_get (mp_put p d s) q = mp_get s q"
    using put by auto
qed

text \<open>A run of clients that allocate packets, use those they hold, and free them.\<close>

datatype packet_op = AllocPacket tid | UsePacket nat packet_use | FreePacket nat

primrec packet_run :: "packet_op list \<Rightarrow> objptr list \<Rightarrow> NetPacketPool \<Rightarrow> (objptr list \<times> NetPacketPool) run" where
  "packet_run [] held s = Inr (held, s)"
| "packet_run (a # ops) held s =
     (case a of
        AllocPacket t \<Rightarrow> bnd (NetPacket_Alloc t s) (\<lambda>(p, s). packet_run ops (p # held) s)
      | UsePacket i u \<Rightarrow>
          (if i < length held
           then bnd (use_packet u (mp_get s (held ! i))) (\<lambda>d. packet_run ops held (mp_put (held ! i) d s))
           else packet_run ops held s)
      | FreePacket i \<Rightarrow>
          (if i < length held
           then bnd (NetPacket_Free (held ! i) s) (packet_run ops (take i held @ drop (Suc i) held))
           else packet_run ops held s))"

lemma packet_run_inv:
  assumes "packet_run ops held s = Inr (held', s')" and "packet_pool_inv s (set held)" and "distinct held"
  shows "packet_pool_inv s' (set held')" "distinct held'"
proof -
  have "packet_pool_inv s' (set held') \<and> distinct held'"
    using assms
  proof (induction ops arbitrary: held s)
    case (Cons a ops)
    show ?case
    proof (cases a)
      case (AllocPacket t)
      obtain p s1 where "NetPacket_Alloc t s = Inr (p, s1)" "p \<notin> set held" "packet_pool_inv s1 (insert p (set held))"
        using NetPacket_Alloc_ok [OF Cons.prems(2)] by blast
      then show ?thesis using Cons.IH [of "p # held" s1] Cons.prems AllocPacket by simp
    next
      case (UsePacket i u)
      show ?thesis
      proof (cases "i < length held")
        case True
        then obtain d where d: "use_packet u (mp_get s (held ! i)) = Inr d"
            "packet_run ops held (mp_put (held ! i) d s) = Inr (held', s')"
          using Cons.prems(1) UsePacket by (auto simp: run_simps)
        have "held ! i \<in> set held" using True by simp
        moreover from this have "packet_shape (mp_get s (held ! i))"
          using Cons.prems(2) pool_data_used [of s "set held"] unfolding packet_pool_inv_def by metis
        ultimately have "packet_pool_inv (mp_put (held ! i) d s) (set held)"
          using packet_pool_put(1) [OF Cons.prems(2)] use_packet_shape [OF d(1)] by blast
        then show ?thesis using Cons.IH [OF d(2)] Cons.prems(3) by simp
      qed (use Cons UsePacket in simp)
    next
      case (FreePacket i)
      show ?thesis
      proof (cases "i < length held")
        case True
        note h = set_remove_nth [OF Cons.prems(3) True]
        obtain s1 where "NetPacket_Free (held ! i) s = Inr s1" "packet_pool_inv s1 (set held - {held ! i})"
          using NetPacket_Free_ok [OF Cons.prems(2), of "held ! i"] True by auto
        then show ?thesis
          using Cons.IH [of "take i held @ drop (Suc i) held" s1] Cons.prems(1) True FreePacket h by simp
      qed (use Cons FreePacket in simp)
    qed
  qed simp
  then show "packet_pool_inv s' (set held')" "distinct held'" by blast+
qed

section \<open>Properties\<close>

text \<open>
  C34. Packets are allocated, used and freed in any order by any threads: those held are written,
  read, given a header, encoded, decoded and counted up and down.  If such a run meets no
  exception, a packet allocated after it is not held by anybody and is fresh: no payload, both
  positions at the start, no header set, not encoded, one reference; the packets held are not
  touched by the allocation.  It is the \<open>Clear\<close> in \<open>Free\<close> that makes a used packet fresh again.
\<close>

theorem allocated_packet_is_fresh:
  assumes "packet_run ops [] (NetPacketPool_new mark) = Inr (held, s)"
  shows "\<exists>p s'. NetPacket_Alloc t s = Inr (p, s') \<and> p \<notin> set held \<and> fresh_packet (mp_get s' p) \<and>
    (\<forall>q\<in>set held. mp_get s' q = mp_get s q)"
proof -
  have "packet_pool_inv (NetPacketPool_new mark) (set [])" by (simp add: packet_pool_inv_new)
  from packet_run_inv(1) [OF assms this] have "packet_pool_inv s (set held)" by simp
  from NetPacket_Alloc_ok [OF this, of t] show ?thesis by blast
qed

text \<open>A packet written, encoded and counted up, then freed.\<close>

lemma used_and_freed:
  "\<exists>held s d. packet_run [AllocPacket 1, UsePacket 0 (PutField (F_WORD 7)), UsePacket 0 CountUp,
        UsePacket 0 (Encode 3), AllocPacket 2, FreePacket 1] [] (NetPacketPool_new 1) = Inr (held, s) \<and>
     use_packet (PutField (F_WORD 7)) NetPacket_new = Inr d \<and> \<not> fresh_packet d"
proof -
  have inv0: "packet_pool_inv (NetPacketPool_new 1) {}" by (rule packet_pool_inv_new)
  obtain p s1 where a: "NetPacket_Alloc 1 (NetPacketPool_new 1) = Inr (p, s1)" "packet_pool_inv s1 {p}"
      "fresh_packet (mp_get s1 p)" using NetPacket_Alloc_ok [OF inv0] by blast
  let ?d = "mp_get s1 p"
  have inv: "serbuf_inv 5 300 ?d" "m_WritePos ?d = 0" "\<not> m_bSetHeader ?d" "\<not> m_bEencode ?d"
    using a(3) by (simp_all add: fresh_packet_def net_inv_def packet_consts)
  obtain d1 where d1: "use_packet (PutField (F_WORD 7)) ?d = Inr d1" "length (m_Buffer d1) = 300"
      "m_PayloadPtr d1 = 5" "m_PayloadSize d1 = 2" "\<not> m_bSetHeader d1" "\<not> m_bEencode d1"
    using inv by (auto simp: serbuf_inv_def put_field_eq put_scalar_def Let_def lt_sizeof_def memcpy_in_def)
  let ?d2 = "snd (NetPacket_IncrementRefCount d1)"
  obtain d3 where d3: "use_packet (Encode 3) ?d2 = Inr d3"
    using d1(2-6) by (auto simp: HeaderSettingAndEncoding_def NetPacket_IncrementRefCount_def GetCheckSum_def
        NetPacket_SetHeader_def memcpy_in_def memcpy_out_def Let_def)
  have sh: "packet_shape d1" "packet_shape ?d2" "packet_shape d3"
    using d1(2,3) use_packet_shape [OF d3] by (simp_all add: packet_shape_def NetPacket_IncrementRefCount_def)
  define s2 where "s2 = mp_put p d1 s1"
  define s3 where "s3 = mp_put p ?d2 s2"
  define s4 where "s4 = mp_put p d3 s3"
  have i2: "packet_pool_inv s2 {p}" "mp_get s2 p = d1"
    unfolding s2_def by (rule packet_pool_put [OF a(2) _ sh(1)]; simp)+
  have i3: "packet_pool_inv s3 {p}" "mp_get s3 p = ?d2"
    unfolding s3_def by (rule packet_pool_put [OF i2(1) _ sh(2)]; simp)+
  have i4: "packet_pool_inv s4 {p}" unfolding s4_def by (rule packet_pool_put [OF i3(1) _ sh(3)]) simp
  obtain q s5 where b: "NetPacket_Alloc 2 s4 = Inr (q, s5)" "packet_pool_inv s5 {q, p}"
    using NetPacket_Alloc_ok [OF i4] by blast
  obtain s6 where c: "NetPacket_Free p s5 = Inr s6" using NetPacket_Free_ok [OF b(2), of p] by blast
  have "packet_run [AllocPacket 1, UsePacket 0 (PutField (F_WORD 7)), UsePacket 0 CountUp,
        UsePacket 0 (Encode 3), AllocPacket 2, FreePacket 1] [] (NetPacketPool_new 1) = Inr ([q], s6)"
    using a(1) d1(1) d3 i2(2) i3(2) b(1) c by (simp add: s2_def [symmetric] s3_def [symmetric] s4_def [symmetric])
  moreover have "\<exists>d. use_packet (PutField (F_WORD 7)) NetPacket_new = Inr d \<and> \<not> fresh_packet d"
    by (simp add: put_field_eq put_scalar_def NetPacket_new_def packet_consts Let_def lt_sizeof_def memcpy_in_def fresh_packet_def)
  ultimately show ?thesis by blast
qed

theorem allocated_packet_is_fresh_witness:
  "\<exists>held s p s'. packet_run [AllocPacket 1, UsePacket 0 (PutField (F_WORD 7)), UsePacket 0 CountUp,
        UsePacket 0 (Encode 3), AllocPacket 2, FreePacket 1] [] (NetPacketPool_new 1) = Inr (held, s) \<and>
     NetPacket_Alloc 2 s = Inr (p, s') \<and> p \<notin> set held \<and> fresh_packet (mp_get s' p)"
proof -
  obtain held s where r: "packet_run [AllocPacket 1, UsePacket 0 (PutField (F_WORD 7)), UsePacket 0 CountUp,
        UsePacket 0 (Encode 3), AllocPacket 2, FreePacket 1] [] (NetPacketPool_new 1) = Inr (held, s)"
    using used_and_freed by blast
  with allocated_packet_is_fresh [OF r, of 2] show ?thesis by blast
qed

end
