(* ===== verification/LockFreeStack.thy ===== *)
theory LockFreeStack
  imports FreeList
begin

text \<open>
  \<^verbatim>\<open>LockFreeStack<T>\<close> of LockFreeStack.h for one caller at a time: a linked list of nodes taken
  from a \<open>FreeList\<close>, a tagged top pointer, and a count that \<open>Pop\<close> decrements before it looks at
  the list.  The count is a 32 bit \<^verbatim>\<open>LONG\<close> and the tag 64 bits wide, both wrap.  The interleaving
  of several callers is the subject of another theory.
\<close>

section \<open>State and operations\<close>

record 'a StackNode =
  sn_Data :: 'a
  sn_Next :: "addr option"

record 'a LockFreeStack =
  ls_TopPtr :: "addr option"
  ls_TopID :: "64 word"
  ls_Count :: "32 word"
  ls_MemoryPool :: "'a StackNode FreeList"

text \<open>\<open>d0\<close> is the value a node's data has before it is set.\<close>

definition StackNode_new :: "'a \<Rightarrow> 'a StackNode" where
  "StackNode_new d0 = \<lparr>sn_Data = d0, sn_Next = None\<rparr>"

definition LockFreeStack_new :: "int \<Rightarrow> 'a LockFreeStack" where
  "LockFreeStack_new mark =
     \<lparr>ls_TopPtr = None, ls_TopID = - 1, ls_Count = 0, ls_MemoryPool = FreeList_new mark False\<rparr>"

definition LockFreeStack_Push :: "'a \<Rightarrow> 'a \<Rightarrow> 'a LockFreeStack \<Rightarrow> 'a LockFreeStack run" where
  "LockFreeStack_Push d0 data s =
     bnd (FreeList_Alloc (StackNode_new d0) (ls_MemoryPool s)) (\<lambda>(newNode, pool).
       Inr (s\<lparr>ls_MemoryPool := fl_put newNode \<lparr>sn_Data = data, sn_Next = ls_TopPtr s\<rparr> pool,
              ls_TopPtr := Some newNode,
              ls_TopID := ls_TopID s + 1,
              ls_Count := ls_Count s + 1\<rparr>))"

definition LockFreeStack_Pop :: "'a LockFreeStack \<Rightarrow> ('a option \<times> 'a LockFreeStack) run" where
  "LockFreeStack_Pop s =
     (if sint (ls_Count s - 1) < 0 then Inr (None, s)
      else
        let s = s\<lparr>ls_Count := ls_Count s - 1\<rparr> in
        case ls_TopPtr s of
          None \<Rightarrow> Inl NullDeref
        | Some p \<Rightarrow>
            let node = fl_get (ls_MemoryPool s) p in
            bnd (FreeList_Free id p (ls_MemoryPool s)) (\<lambda>pool.
              Inr (Some (sn_Data node),
                   s\<lparr>ls_TopPtr := sn_Next node, ls_TopID := ls_TopID s + 1, ls_MemoryPool := pool\<rparr>)))"

definition LockFreeStack_GetStackCount :: "'a LockFreeStack \<Rightarrow> int" where
  "LockFreeStack_GetStackCount s = sint (ls_Count s)"

definition LockFreeStack_GetMemoryAllocCount :: "'a LockFreeStack \<Rightarrow> int" where
  "LockFreeStack_GetMemoryAllocCount s = FreeList_GetAllocCount (ls_MemoryPool s)"

text \<open>The destructor gives the nodes back one by one; the fuel is the number of nodes.\<close>

fun LockFreeStack_drain :: "nat \<Rightarrow> addr option \<Rightarrow> 'a StackNode FreeList \<Rightarrow> 'a StackNode FreeList run" where
  "LockFreeStack_drain fuel None pool = Inr pool"
| "LockFreeStack_drain 0 (Some p) pool = Inl Blocked"
| "LockFreeStack_drain (Suc fuel) (Some p) pool =
     (let nxt = sn_Next (fl_get pool p) in
      bnd (FreeList_Free id p pool) (LockFreeStack_drain fuel nxt))"

section \<open>The list behind the pointers\<close>

fun stack_chain :: "'a StackNode FreeList \<Rightarrow> addr option \<Rightarrow> addr list \<Rightarrow> bool" where
  "stack_chain pool tp [] \<longleftrightarrow> tp = None"
| "stack_chain pool tp (p # ps) \<longleftrightarrow> tp = Some p \<and> stack_chain pool (sn_Next (fl_get pool p)) ps"

text \<open>\<open>stack_addrs\<close> walks at most \<open>ls_Count\<close> nodes; \<open>stack_list\<close> are their data, top first.\<close>

fun stack_walk :: "'a StackNode FreeList \<Rightarrow> nat \<Rightarrow> addr option \<Rightarrow> addr list" where
  "stack_walk pool (Suc n) (Some p) = p # stack_walk pool n (sn_Next (fl_get pool p))"
| "stack_walk pool _ _ = []"

definition stack_addrs :: "'a LockFreeStack \<Rightarrow> addr list" where
  "stack_addrs s = stack_walk (ls_MemoryPool s) (nat (sint (ls_Count s))) (ls_TopPtr s)"

definition stack_list :: "'a LockFreeStack \<Rightarrow> 'a list" where
  "stack_list s = map (\<lambda>p. sn_Data (fl_get (ls_MemoryPool s) p)) (stack_addrs s)"

definition stack_inv :: "'a LockFreeStack \<Rightarrow> bool" where
  "stack_inv s \<longleftrightarrow>
     (\<exists>ps. stack_chain (ls_MemoryPool s) (ls_TopPtr s) ps \<and> distinct ps \<and>
           ls_Count s = of_nat (length ps) \<and> length ps < 2 ^ 31 \<and> fl_inv (ls_MemoryPool s) (set ps))"

lemma stack_chain_cong:
  "(\<And>p. p \<in> set ps \<Longrightarrow> fl_get pool' p = fl_get pool p) \<Longrightarrow> stack_chain pool' tp ps = stack_chain pool tp ps"
  by (induction ps arbitrary: tp) auto

lemma stack_walk_chain: "stack_chain pool tp ps \<Longrightarrow> stack_walk pool (length ps) tp = ps"
  by (induction ps arbitrary: tp) auto

lemma stack_addrs_chain:
  "stack_chain (ls_MemoryPool s) (ls_TopPtr s) ps \<Longrightarrow> ls_Count s = of_nat (length ps) \<Longrightarrow>
   length ps < 2 ^ 31 \<Longrightarrow> stack_addrs s = ps"
  by (simp add: stack_addrs_def stack_walk_chain sint_of_nat_LONG)

lemma stack_inv_new [simp]: "stack_inv (LockFreeStack_new mark)"
  by (auto simp: stack_inv_def LockFreeStack_new_def intro!: exI [of _ "[]"])

lemma stack_list_new [simp]: "stack_list (LockFreeStack_new mark) = []"
  by (simp add: stack_list_def stack_addrs_def LockFreeStack_new_def)

lemma length_stack_list: "stack_inv s \<Longrightarrow> int (length (stack_list s)) = sint (ls_Count s)"
  by (auto simp: stack_inv_def stack_list_def stack_addrs_chain sint_of_nat_LONG)

text \<open>How many entries the count can stand for.\<close>

definition stack_limit :: nat where
  "stack_limit = 2 ^ 31 - 1"

lemma LockFreeStack_Push_ok:
  assumes inv: "stack_inv s" and room: "length (stack_list s) < stack_limit"
  shows "\<exists>s'. LockFreeStack_Push d0 data s = Inr s' \<and> stack_inv s' \<and> stack_list s' = data # stack_list s"
proof -
  obtain ps where ps: "stack_chain (ls_MemoryPool s) (ls_TopPtr s) ps" "distinct ps"
      "ls_Count s = of_nat (length ps)" "fl_inv (ls_MemoryPool s) (set ps)" and small: "length ps < 2 ^ 31"
    using inv by (auto simp: stack_inv_def)
  have addrs: "stack_addrs s = ps" using ps(1,3) small by (rule stack_addrs_chain)
  then have more: "Suc (length ps) < 2 ^ 31" using room by (simp add: stack_list_def stack_limit_def)
  from FreeList_Alloc_ok [OF ps(4), of "StackNode_new d0"] obtain p pool where a:
      "FreeList_Alloc (StackNode_new d0) (ls_MemoryPool s) = Inr (p, pool)" "p \<notin> set ps"
      "fl_inv pool (insert p (set ps))" "\<forall>q\<in>set ps. fl_get pool q = fl_get (ls_MemoryPool s) q"
    by blast
  define pool' where "pool' = fl_put p \<lparr>sn_Data = data, sn_Next = ls_TopPtr s\<rparr> pool"
  define s' where "s' = s\<lparr>ls_MemoryPool := pool', ls_TopPtr := Some p, ls_TopID := ls_TopID s + 1,
                          ls_Count := ls_Count s + 1\<rparr>"
  have lt: "p < length (fl_blocks pool)" using a(3) by (rule fl_inv_less) simp
  have new: "fl_get pool' p = \<lparr>sn_Data = data, sn_Next = ls_TopPtr s\<rparr>"
    using lt by (simp add: pool'_def fl_get_put)
  have old: "fl_get pool' q = fl_get (ls_MemoryPool s) q" if "q \<in> set ps" for q
    using that a(2,4) by (auto simp: pool'_def fl_get_put)
  have ch: "stack_chain pool' (Some p) (p # ps)"
    using ps(1) stack_chain_cong [OF old] by (simp add: new)
  have "stack_inv s'"
    unfolding stack_inv_def using ch ps(2,3) a(2,3) more
    by (intro exI [of _ "p # ps"]) (simp add: s'_def pool'_def)
  moreover have "stack_addrs s' = p # ps"
    using ch ps(3) more by (intro stack_addrs_chain) (simp_all add: s'_def)
  then have "stack_list s' = data # stack_list s"
    by (simp add: stack_list_def addrs) (simp add: s'_def new old)
  moreover have "LockFreeStack_Push d0 data s = Inr s'"
    by (simp add: LockFreeStack_Push_def a(1) s'_def pool'_def)
  ultimately show ?thesis by blast
qed

lemma LockFreeStack_Pop_ok:
  assumes inv: "stack_inv s"
  shows "\<exists>s'. LockFreeStack_Pop s = Inr (case stack_list s of [] \<Rightarrow> None | x # xs \<Rightarrow> Some x, s') \<and>
           stack_inv s' \<and> stack_list s' = tl (stack_list s)"
proof -
  obtain ps where ps: "stack_chain (ls_MemoryPool s) (ls_TopPtr s) ps" "distinct ps"
      "ls_Count s = of_nat (length ps)" "fl_inv (ls_MemoryPool s) (set ps)" and small: "length ps < 2 ^ 31"
    using inv by (auto simp: stack_inv_def)
  have addrs: "stack_addrs s = ps" using ps(1,3) small by (rule stack_addrs_chain)
  show ?thesis
  proof (cases ps)
    case Nil
    then show ?thesis
      using inv ps(3) addrs by (simp add: LockFreeStack_Pop_def stack_list_def)
  next
    case (Cons p qs)
    then have top: "ls_TopPtr s = Some p" using ps(1) by simp
    have cnt: "ls_Count s - 1 = of_nat (length qs)" and fewer: "length qs < 2 ^ 31"
      using ps(3) small Cons by simp_all
    have pos: "\<not> sint (ls_Count s - 1) < 0" unfolding cnt sint_of_nat_LONG [OF fewer] by simp
    have "p \<in> set ps" using Cons by simp
    from FreeList_Free_ok [OF ps(4) this, of id] obtain pool where f:
        "FreeList_Free id p (ls_MemoryPool s) = Inr pool" "fl_inv pool (set ps - {p})"
        "\<forall>q\<in>set ps - {p}. fl_get pool q = fl_get (ls_MemoryPool s) q" by blast
    define s' where "s' = s\<lparr>ls_Count := ls_Count s - 1, ls_TopPtr := sn_Next (fl_get (ls_MemoryPool s) p),
        ls_TopID := ls_TopID s + 1, ls_MemoryPool := pool\<rparr>"
    have old: "fl_get pool q = fl_get (ls_MemoryPool s) q" if "q \<in> set qs" for q
      using f(3) that Cons ps(2) by auto
    have ch: "stack_chain pool (ls_TopPtr s') qs"
      using ps(1) Cons stack_chain_cong [OF old] by (simp add: s'_def)
    have "set ps - {p} = set qs" using Cons ps(2) by auto
    then have "stack_inv s'"
      unfolding stack_inv_def using ch ps(2) f(2) cnt fewer Cons by (intro exI [of _ qs]) (simp add: s'_def)
    moreover have "stack_addrs s' = qs"
      using ch cnt fewer by (intro stack_addrs_chain) (simp_all add: s'_def)
    then have "stack_list s' = tl (stack_list s)"
      using Cons by (simp add: stack_list_def addrs old) (simp add: s'_def old)
    moreover have "LockFreeStack_Pop s = Inr (Some (sn_Data (fl_get (ls_MemoryPool s) p)), s')"
      using pos top f(1) by (simp add: LockFreeStack_Pop_def Let_def s'_def)
    moreover have "stack_list s = sn_Data (fl_get (ls_MemoryPool s) p) # tl (stack_list s)"
      using Cons by (simp add: stack_list_def addrs)
    ultimately show ?thesis by (metis list.case(2))
  qed
qed

interpretation index_stack: resource_stack stack_inv stack_list stack_limit "LockFreeStack_Push d0" LockFreeStack_Pop
  for d0 :: 'a
  by unfold_locales (erule (1) LockFreeStack_Push_ok, erule LockFreeStack_Pop_ok)

section \<open>Properties\<close>

text \<open>
  The stack of free session slots: whatever sequence of pops and of pushes of slots held,
  no call faults, and the slots held together with those on the stack are always the initial
  ones, each exactly once; in particular no slot is given to two sessions.  There are fewer than
  \<open>2 ^ 31\<close> of them, what the count can stand for.
\<close>

theorem index_stack_partition:
  assumes "stack_inv s" and "distinct (held @ stack_list s)" and "length (held @ stack_list s) \<le> stack_limit"
  shows "\<exists>held' s'. stack_run (LockFreeStack_Push d0) LockFreeStack_Pop ops held s = Inr (held', s') \<and>
           stack_inv s' \<and> distinct (held' @ stack_list s') \<and>
           set (held' @ stack_list s') = set (held @ stack_list s)"
  using assms by (rule index_stack.resources_partition)

theorem index_stack_partition_witness:
  "\<exists>held' s'. stack_run (LockFreeStack_Push (0::nat)) LockFreeStack_Pop [PopOp, PopOp, PushBackOp 1] [4, 2]
      (LockFreeStack_new 1) = Inr (held', s') \<and> distinct (held' @ stack_list s') \<and>
     set (held' @ stack_list s') = {2, 4}"
  using index_stack_partition [of "LockFreeStack_new 1" "[4, 2 :: nat]" 0
      "[PopOp, PopOp, PushBackOp 1]"]
  by (auto simp del: stack_run.simps simp: insert_commute stack_limit_def)

end
