(* ===== verification/LockFreeQ.thy ===== *)
theory LockFreeQ
  imports FreeList
begin

text \<open>
  \<^verbatim>\<open>LockFreeQ<T>\<close> of LockFreeQ.h as it is configured (\<^verbatim>\<open>ENQ_MODE 2\<close>), for one caller at a time:
  a list with a dummy node in front, whose last node holds in \<open>qn_Next\<close> not a null pointer but a
  tag, a number of at least \<^verbatim>\<open>KERNEL_ADDRESS\<close> that is used once; the tag is repeated beside the
  rear pointer, and appending replaces it by a compare-exchange.  A \<open>qn_Next\<close> is the 64 bit value
  the code casts to and fro: node \<open>k\<close> is the number \<open>k\<close>, so nodes stay below \<^verbatim>\<open>KERNEL_ADDRESS\<close>
  as long as the pool has fewer blocks.  The counts are 32 bit \<^verbatim>\<open>LONG\<close>s, links, identifiers and
  tags 64 bit words; all of them wrap.  The loops that wait for other callers have fuel; out of
  fuel is \<^const>\<open>Blocked\<close>.
\<close>

section \<open>State and operations\<close>

record 'a QNode =
  qn_Data :: 'a
  qn_Next :: "64 word"

record 'a LockFreeQ =
  q_Count :: "32 word"
  q_DeQTPS :: "32 word"
  q_EnQTPS :: "32 word"
  q_FrontPtr :: addr
  q_FrontID :: "64 word"
  q_RearPtr :: addr
  q_RearCheckID :: "64 word"
  q_RearID :: "64 word"
  q_MemoryPool :: "'a QNode FreeList"
  q_MaxQCount :: "32 word"

definition KERNEL_ADDRESS :: int where
  "KERNEL_ADDRESS = 0x80000000000"

definition QNode_new :: "'a \<Rightarrow> 'a QNode" where
  "QNode_new d0 = \<lparr>qn_Data = d0, qn_Next = 0\<rparr>"

definition LockFreeQ_new :: "'a \<Rightarrow> int \<Rightarrow> int \<Rightarrow> 'a LockFreeQ run" where
  "LockFreeQ_new d0 mark maxQCount =
     bnd (FreeList_Alloc (QNode_new d0) (FreeList_new mark False)) (\<lambda>(node, pool).
       let rearID = word_of_int KERNEL_ADDRESS in
       Inr \<lparr>q_Count = 0, q_DeQTPS = 0, q_EnQTPS = 0,
            q_FrontPtr = node, q_FrontID = 0, q_RearPtr = node, q_RearCheckID = rearID,
            q_RearID = rearID,
            q_MemoryPool = fl_put node ((fl_get pool node)\<lparr>qn_Next := rearID\<rparr>) pool,
            q_MaxQCount = word_of_int maxQCount\<rparr>)"

text \<open>The two compare-exchanges: on the tagged rear pointer, on the tagged front pointer.\<close>

definition cas_rear :: "addr \<times> 64 word \<Rightarrow> addr \<times> 64 word \<Rightarrow> 'a LockFreeQ \<Rightarrow> bool \<times> 'a LockFreeQ" where
  "cas_rear expected new s =
     (if (q_RearPtr s, q_RearCheckID s) = expected
      then (True, s\<lparr>q_RearPtr := fst new, q_RearCheckID := snd new\<rparr>) else (False, s))"

definition cas_front :: "addr \<times> 64 word \<Rightarrow> addr \<times> 64 word \<Rightarrow> 'a LockFreeQ \<Rightarrow> bool \<times> 'a LockFreeQ" where
  "cas_front expected new s =
     (if (q_FrontPtr s, q_FrontID s) = expected
      then (True, s\<lparr>q_FrontPtr := fst new, q_FrontID := snd new\<rparr>) else (False, s))"

text \<open>Nodes are read through the pool; a number at or above its block count is no node.\<close>

definition q_node :: "'a LockFreeQ \<Rightarrow> 64 word \<Rightarrow> 'a QNode run" where
  "q_node s p =
     (if unat p < length (fl_blocks (q_MemoryPool s))
      then Inr (fl_get (q_MemoryPool s) (unat p)) else Inl OutOfBounds)"

primrec EnQ_loop :: "nat \<Rightarrow> addr \<Rightarrow> 'a LockFreeQ \<Rightarrow> 'a LockFreeQ run" where
  "EnQ_loop 0 newNode s = Inl Blocked"
| "EnQ_loop (Suc fuel) newNode s =
     (let tempRear = (q_RearPtr s, q_RearCheckID s) in
      if fst tempRear = newNode then Inl Crash
      else bnd (q_node s (of_nat (fst tempRear))) (\<lambda>node.
        if qn_Next node = snd tempRear then
          let s = s\<lparr>q_MemoryPool := fl_put (fst tempRear) (node\<lparr>qn_Next := of_nat newNode\<rparr>) (q_MemoryPool s)\<rparr>
          in bnd (q_node s (of_nat newNode)) (\<lambda>nn.
             Inr (snd (cas_rear tempRear (newNode, qn_Next nn) s)))
        else
          let change = qn_Next node in
          if KERNEL_ADDRESS \<le> sint change then EnQ_loop fuel newNode s
          else bnd (q_node s change) (\<lambda>cn.
               EnQ_loop fuel newNode (snd (cas_rear tempRear (unat change, qn_Next cn) s)))))"

definition LockFreeQ_EnQ :: "nat \<Rightarrow> 'a \<Rightarrow> 'a \<Rightarrow> 'a LockFreeQ \<Rightarrow> (bool \<times> 'a LockFreeQ) run" where
  "LockFreeQ_EnQ fuel d0 data s =
     (if sint (q_MaxQCount s) < sint (q_Count s) then Inl Crash
      else
        bnd (FreeList_Alloc (QNode_new d0) (q_MemoryPool s)) (\<lambda>(newNode, pool).
        let s = s\<lparr>q_RearID := q_RearID s + 1,
                  q_MemoryPool := fl_put newNode \<lparr>qn_Data = data, qn_Next = q_RearID s + 1\<rparr> pool\<rparr>
        in bnd (EnQ_loop fuel newNode s) (\<lambda>s.
           Inr (True, s\<lparr>q_Count := q_Count s + 1, q_EnQTPS := q_EnQTPS s + 1\<rparr>))))"

text \<open>
  On a tag in the front node the loop of \<open>DeQ\<close> continues without reading the front again.
\<close>

primrec DeQ_loop :: "nat \<Rightarrow> addr \<times> 64 word \<Rightarrow> 'a LockFreeQ \<Rightarrow> (addr \<times> 'a \<times> 'a LockFreeQ) run" where
  "DeQ_loop 0 tempFront s = Inl Blocked"
| "DeQ_loop (Suc fuel) tempFront s =
     bnd (q_node s (of_nat (fst tempFront))) (\<lambda>node.
       let change = qn_Next node in
       if KERNEL_ADDRESS \<le> sint change then DeQ_loop fuel tempFront s
       else bnd (q_node s change) (\<lambda>cn.
         let tempData = qn_Data cn in
         case cas_front tempFront (unat change, snd tempFront + 1) s of
           (True, s) \<Rightarrow> Inr (fst tempFront, tempData, s)
         | (False, s) \<Rightarrow> DeQ_loop fuel (q_FrontPtr s, q_FrontID s) s))"

definition LockFreeQ_DeQ :: "nat \<Rightarrow> 'a LockFreeQ \<Rightarrow> ('a option \<times> 'a LockFreeQ) run" where
  "LockFreeQ_DeQ fuel s =
     (if sint (q_Count s - 1) < 0 then Inr (None, s)
      else
        let s = s\<lparr>q_Count := q_Count s - 1\<rparr> in
        bnd (DeQ_loop fuel (q_FrontPtr s, q_FrontID s) s) (\<lambda>(old, tempData, s).
        let s = s\<lparr>q_DeQTPS := q_DeQTPS s + 1\<rparr> in
        bnd (FreeList_Free id old (q_MemoryPool s)) (\<lambda>pool.
          Inr (Some tempData, s\<lparr>q_MemoryPool := pool\<rparr>))))"

definition LockFreeQ_GetQCount :: "'a LockFreeQ \<Rightarrow> int" where
  "LockFreeQ_GetQCount s = sint (q_Count s)"

definition LockFreeQ_GetMemoryPoolAllocCount :: "'a LockFreeQ \<Rightarrow> int" where
  "LockFreeQ_GetMemoryPoolAllocCount s = FreeList_GetAllocCount (q_MemoryPool s)"

section \<open>The list behind the pointers\<close>

text \<open>\<open>q_chain pool ps tag\<close>: the nodes \<open>ps\<close> are linked in order and the last one holds the tag.\<close>

fun q_chain :: "'a QNode FreeList \<Rightarrow> addr list \<Rightarrow> 64 word \<Rightarrow> bool" where
  "q_chain pool [] tag \<longleftrightarrow> False"
| "q_chain pool [p] tag \<longleftrightarrow> qn_Next (fl_get pool p) = tag"
| "q_chain pool (p # q # ps) tag \<longleftrightarrow> qn_Next (fl_get pool p) = of_nat q \<and> q_chain pool (q # ps) tag"

primrec q_walk :: "'a QNode FreeList \<Rightarrow> nat \<Rightarrow> addr \<Rightarrow> addr list" where
  "q_walk pool 0 p = []"
| "q_walk pool (Suc n) p = (let q = unat (qn_Next (fl_get pool p)) in q # q_walk pool n q)"

definition queue_addrs :: "'a LockFreeQ \<Rightarrow> addr list" where
  "queue_addrs s = q_walk (q_MemoryPool s) (nat (LockFreeQ_GetQCount s)) (q_FrontPtr s)"

definition queue_list :: "'a LockFreeQ \<Rightarrow> 'a list" where
  "queue_list s = map (\<lambda>p. qn_Data (fl_get (q_MemoryPool s) p)) (queue_addrs s)"

definition queue_inv :: "'a LockFreeQ \<Rightarrow> bool" where
  "queue_inv s \<longleftrightarrow>
     (\<exists>ps. q_chain (q_MemoryPool s) (q_FrontPtr s # ps) (q_RearCheckID s) \<and>
           q_RearPtr s = last (q_FrontPtr s # ps) \<and> distinct (q_FrontPtr s # ps) \<and>
           q_Count s = of_nat (length ps) \<and> length ps < 2 ^ 31 \<and>
           fl_inv (q_MemoryPool s) (set (q_FrontPtr s # ps))) \<and>
     KERNEL_ADDRESS \<le> sint (q_RearCheckID s) \<and> sint (q_RearCheckID s) \<le> sint (q_RearID s) \<and>
     length (fl_blocks (q_MemoryPool s)) \<le> 2 ^ 31 \<and>
     \<not> fl_bPlacementNew (q_MemoryPool s)"

text \<open>
  How many messages the queue holds: the configured maximum plus one, in the range of the
  count.  How many it takes in all its life: the tags left.  \<open>queue_cap\<close> messages are taken
  whatever is the case.
\<close>

definition queue_limit :: "'a LockFreeQ \<Rightarrow> nat" where
  "queue_limit s = nat (min (sint (q_MaxQCount s) + 1) (2 ^ 31 - 1))"

definition queue_stamps :: "'a LockFreeQ \<Rightarrow> nat" where
  "queue_stamps s = nat (2 ^ 63 - 1 - sint (q_RearID s))"

definition queue_cap :: "'a LockFreeQ \<Rightarrow> nat" where
  "queue_cap s = min (queue_limit s) (queue_stamps s)"

lemma q_chain_cong:
  "(\<And>p. p \<in> set ps \<Longrightarrow> fl_get pool' p = fl_get pool p) \<Longrightarrow> q_chain pool' ps tag = q_chain pool ps tag"
  by (induction pool ps tag rule: q_chain.induct) auto

lemma unat_addr: "p < 2 ^ 64 \<Longrightarrow> unat (of_nat p :: 64 word) = p"
  by (simp add: unat_of_nat)

lemma sint_addr: "p \<le> 2 ^ 31 \<Longrightarrow> sint (of_nat p :: 64 word) = int p"
  by (simp add: sint_word_ariths signed_of_nat signed_take_bit_int_eq_self)

lemma q_walk_chain:
  "q_chain pool (p # ps) tag \<Longrightarrow> \<forall>q\<in>set ps. q < 2 ^ 64 \<Longrightarrow> q_walk pool (length ps) p = ps"
  by (induction ps arbitrary: p) (auto simp: Let_def unat_of_nat)

lemma q_chain_last: "q_chain pool ps tag \<Longrightarrow> qn_Next (fl_get pool (last ps)) = tag"
  by (induction pool ps tag rule: q_chain.induct) auto

lemma queue_addrs_chain:
  assumes "q_chain (q_MemoryPool s) (q_FrontPtr s # ps) tag" "q_Count s = of_nat (length ps)"
    and "length ps < 2 ^ 31" "fl_inv (q_MemoryPool s) U" "set ps \<subseteq> U"
    and "length (fl_blocks (q_MemoryPool s)) \<le> 2 ^ 31"
  shows "queue_addrs s = ps"
proof -
  have "\<forall>q\<in>set ps. q < 2 ^ 64"
    using fl_inv_less [OF assms(4)] assms(5,6) by fastforce
  with q_walk_chain [OF assms(1)] show ?thesis
    using assms(2,3) by (simp add: queue_addrs_def LockFreeQ_GetQCount_def sint_of_nat_LONG)
qed

lemma sint_KERNEL_ADDRESS: "sint (word_of_int KERNEL_ADDRESS :: 64 word) = KERNEL_ADDRESS"
  by (simp add: KERNEL_ADDRESS_def)

lemma queue_inv_new:
  "\<exists>s. LockFreeQ_new d0 mark n = Inr s \<and> queue_inv s \<and> queue_list s = [] \<and> q_MaxQCount s = word_of_int n"
proof -
  obtain s where s: "LockFreeQ_new d0 mark n = Inr s"
    by (simp add: LockFreeQ_new_def FreeList_Alloc_def FreeList_AllocateNewMemory_def FreeList_new_def Let_def)
  note d = s [symmetric, unfolded LockFreeQ_new_def FreeList_Alloc_def FreeList_AllocateNewMemory_def
      FreeList_new_def Let_def, simplified]
  have "fl_inv (q_MemoryPool s) {0}"
    unfolding fl_inv_def by (auto simp: d fl_put_def marks_ok_def intro!: exI [of _ "[]"])
  then have "queue_inv s"
    unfolding queue_inv_def
    by (auto simp: d fl_get_def fl_put_def sint_KERNEL_ADDRESS intro!: exI [of _ "[]"])
  moreover have "queue_list s = []" by (simp add: d queue_list_def queue_addrs_def LockFreeQ_GetQCount_def)
  moreover have "q_MaxQCount s = word_of_int n" by (simp add: d)
  ultimately show ?thesis using s by blast
qed

lemma queue_new_cap:
  assumes "LockFreeQ_new d0 mark n = Inr s" "- (2 ^ 31) \<le> n" "n < 2 ^ 31"
  shows "queue_limit s = nat (min (n + 1) (2 ^ 31 - 1))" "queue_stamps s = 2 ^ 63 - 1 - 2 ^ 43"
    and "queue_cap s = nat (min (n + 1) (2 ^ 31 - 1))"
proof -
  have "q_MaxQCount s = word_of_int n" "q_RearID s = word_of_int KERNEL_ADDRESS"
    using assms(1) by (auto simp: LockFreeQ_new_def bnd_def Let_def split: sum.splits)
  then show l: "queue_limit s = nat (min (n + 1) (2 ^ 31 - 1))" and t: "queue_stamps s = 2 ^ 63 - 1 - 2 ^ 43"
    using sint_LONG [OF assms(2,3)]
    by (simp_all add: queue_limit_def queue_stamps_def sint_KERNEL_ADDRESS) (simp add: KERNEL_ADDRESS_def)
  show "queue_cap s = nat (min (n + 1) (2 ^ 31 - 1))" unfolding queue_cap_def l t by simp
qed

lemma length_queue_list:
  assumes "queue_inv s"
  shows "int (length (queue_list s)) = LockFreeQ_GetQCount s"
proof -
  obtain ps where ps: "q_chain (q_MemoryPool s) (q_FrontPtr s # ps) (q_RearCheckID s)"
      "q_Count s = of_nat (length ps)" "length ps < 2 ^ 31" "fl_inv (q_MemoryPool s) (set (q_FrontPtr s # ps))"
      "length (fl_blocks (q_MemoryPool s)) \<le> 2 ^ 31"
    using assms by (auto simp: queue_inv_def)
  have "queue_addrs s = ps" by (rule queue_addrs_chain [OF ps(1-4) _ ps(5)]) auto
  then show ?thesis using ps(2,3) by (simp add: queue_list_def LockFreeQ_GetQCount_def sint_of_nat_LONG)
qed

text \<open>Appending a node to a chain.\<close>

lemma q_chain_append:
  assumes "q_chain pool ps tag" "ps \<noteq> []" "distinct ps" "n \<notin> set ps"
    and "\<And>p. p \<in> set ps \<Longrightarrow> p \<noteq> last ps \<Longrightarrow> fl_get pool' p = fl_get pool p"
    and "qn_Next (fl_get pool' (last ps)) = of_nat n" and "qn_Next (fl_get pool' n) = tag'"
  shows "q_chain pool' (ps @ [n]) tag'"
  using assms
proof (induction pool ps tag rule: q_chain.induct)
  case (3 pool p q ps tag)
  then have "p \<noteq> last (q # ps)" by (metis distinct.simps(2) last_in_set list.distinct(1))
  with 3 show ?case by auto
qed auto

lemma q_node_used:
  assumes "fl_inv (q_MemoryPool s) U" "p \<in> U" "length (fl_blocks (q_MemoryPool s)) \<le> 2 ^ 31"
  shows "q_node s (of_nat p) = Inr (fl_get (q_MemoryPool s) p)"
proof -
  have "p < length (fl_blocks (q_MemoryPool s))" by (rule fl_inv_less [OF assms(1,2)])
  moreover from this have "unat (of_nat p :: 64 word) = p" using assms(3) by (intro unat_addr) simp
  ultimately show ?thesis by (simp add: q_node_def)
qed

text \<open>The next tag: one above the last, a tag again while there are some left.\<close>

lemma next_tag:
  assumes "KERNEL_ADDRESS \<le> sint x" and "0 < nat (2 ^ 63 - 1 - sint (x :: 64 word))"
  shows "sint (x + 1) = sint x + 1"
proof -
  have "0 \<le> sint x" using assms(1) by (simp add: KERNEL_ADDRESS_def)
  then have "- (2 ^ 63) \<le> sint x + 1" "sint x + 1 < 2 ^ 63" using assms(2) by simp_all
  then show ?thesis by (simp add: sint_word_ariths(1) signed_take_bit_int_eq_self)
qed

lemma LockFreeQ_EnQ_ok:
  assumes inv: "queue_inv s" and room: "length (queue_list s) < queue_limit s" and left: "0 < queue_stamps s"
  shows "\<exists>s'. LockFreeQ_EnQ (Suc fuel) d0 data s = Inr (True, s') \<and> queue_inv s' \<and>
           queue_list s' = queue_list s @ [data] \<and> queue_limit s' = queue_limit s \<and>
           Suc (queue_stamps s') = queue_stamps s \<and> q_MaxQCount s' = q_MaxQCount s"
proof -
  let ?pool = "q_MemoryPool s"
  obtain ps where ch: "q_chain ?pool (q_FrontPtr s # ps) (q_RearCheckID s)"
      and rear: "q_RearPtr s = last (q_FrontPtr s # ps)" and dist: "distinct (q_FrontPtr s # ps)"
      and cnt: "q_Count s = of_nat (length ps)" and small: "length ps < 2 ^ 31" and fl: "fl_inv ?pool (set (q_FrontPtr s # ps))"
      and tag: "KERNEL_ADDRESS \<le> sint (q_RearCheckID s)" "sint (q_RearCheckID s) \<le> sint (q_RearID s)"
      and np: "\<not> fl_bPlacementNew ?pool" and len: "length (fl_blocks ?pool) \<le> 2 ^ 31"
    using inv unfolding queue_inv_def by blast
  define ns where "ns = q_FrontPtr s # ps"
  have ns: "ns \<noteq> []" "last ns \<in> set ns" "last ns = q_RearPtr s" using rear by (simp_all add: ns_def)
  have addrs: "queue_addrs s = ps" by (rule queue_addrs_chain [OF ch cnt small fl _ len]) auto
  have scnt: "sint (q_Count s) = int (length ps)" unfolding cnt by (rule sint_of_nat_LONG [OF small])
  have qlen: "length (queue_list s) = length ps" by (simp add: queue_list_def addrs)
  have cap: "\<not> sint (q_MaxQCount s) < sint (q_Count s)" "Suc (length ps) < 2 ^ 31"
    using room unfolding qlen scnt queue_limit_def by (simp_all add: zless_nat_eq_int_zless)
  have tag1: "sint (q_RearID s + 1) = sint (q_RearID s) + 1"
    using tag left unfolding queue_stamps_def by (intro next_tag) simp_all
  from FreeList_Alloc_ok [OF fl, of "QNode_new d0"] obtain n pool where a:
      "FreeList_Alloc (QNode_new d0) ?pool = Inr (n, pool)" "n \<notin> set ns" "fl_inv pool (insert n (set ns))"
      "\<forall>q\<in>set ns. fl_get pool q = fl_get ?pool q"
    unfolding ns_def by blast
  note d = FreeList_Alloc_data [OF a(1) np]
  have "card (set ns) = Suc (length ps)" using dist by (simp add: ns_def distinct_card)
  then have lenp: "length (fl_blocks pool) \<le> 2 ^ 31"
    using FreeList_Alloc_blocks [OF a(1) fl] cap(2) len unfolding ns_def by simp
  define pool1 where "pool1 = fl_put n \<lparr>qn_Data = data, qn_Next = q_RearID s + 1\<rparr> pool"
  define r where "r = (fl_get pool1 (last ns))\<lparr>qn_Next := of_nat n\<rparr>"
  define pool2 where "pool2 = fl_put (last ns) r pool1"
  define s' where "s' = s\<lparr>q_RearID := q_RearID s + 1, q_MemoryPool := pool2, q_RearPtr := n,
      q_RearCheckID := q_RearID s + 1, q_Count := q_Count s + 1, q_EnQTPS := q_EnQTPS s + 1\<rparr>"
  have inv1: "fl_inv pool1 (insert n (set ns))" and inv2: "fl_inv pool2 (insert n (set ns))"
    using a(3) by (simp_all add: pool1_def pool2_def)
  have lt: "n < length (fl_blocks pool)" "last ns < length (fl_blocks pool)"
    using fl_inv_less [OF a(3)] ns(2) by auto
  have ne: "n \<noteq> last ns" using a(2) ns(2) by auto
  have g1: "fl_get pool1 q = fl_get ?pool q" if "q \<in> set ns" for q
    using that a(2,4) by (auto simp: pool1_def fl_get_put)
  have g2: "fl_get pool2 q = fl_get ?pool q" if "q \<in> set ns" "q \<noteq> last ns" for q
    using that g1 by (auto simp: pool2_def fl_get_put)
  have gr: "fl_get pool2 (last ns) = (fl_get ?pool (last ns))\<lparr>qn_Next := of_nat n\<rparr>"
    using lt g1 [OF ns(2)] by (simp add: pool2_def pool1_def fl_get_put r_def)
  have gn1: "fl_get pool1 n = \<lparr>qn_Data = data, qn_Next = q_RearID s + 1\<rparr>"
    and gn: "fl_get pool2 n = \<lparr>qn_Data = data, qn_Next = q_RearID s + 1\<rparr>"
    using lt ne by (simp_all add: pool2_def pool1_def fl_get_put)
  have ch': "q_chain pool2 (ns @ [n]) (q_RearID s + 1)"
    by (rule q_chain_append [OF ch [folded ns_def] ns(1)]) (use dist a(2) g2 gr gn in \<open>simp_all add: ns_def\<close>)
  have last_next: "qn_Next (fl_get pool1 (last ns)) = q_RearCheckID s"
    using q_chain_last [OF ch] g1 [OF ns(2)] by (simp add: ns_def)
  let ?s1 = "s\<lparr>q_RearID := q_RearID s + 1, q_MemoryPool := pool1\<rparr>"
  have len1: "length (fl_blocks pool1) \<le> 2 ^ 31" and len2: "length (fl_blocks pool2) \<le> 2 ^ 31"
    using lenp by (simp_all add: pool2_def pool1_def)
  have "q_node ?s1 (of_nat (last ns)) = Inr (fl_get pool1 (last ns))"
    using q_node_used [of ?s1 "insert n (set ns)" "last ns"] inv1 ns(2) len1 by simp
  moreover have "q_node (?s1\<lparr>q_MemoryPool := pool2\<rparr>) (of_nat n) = Inr (fl_get pool2 n)"
    using q_node_used [of "?s1\<lparr>q_MemoryPool := pool2\<rparr>" "insert n (set ns)" n] inv2 len2 by simp
  ultimately have loop: "EnQ_loop (Suc fuel) n ?s1 =
      Inr (?s1\<lparr>q_MemoryPool := pool2, q_RearPtr := n, q_RearCheckID := q_RearID s + 1\<rparr>)"
    using ne ns(3) last_next gn by (simp add: Let_def cas_rear_def pool2_def r_def)
  then have eq: "LockFreeQ_EnQ (Suc fuel) d0 data s = Inr (True, s')"
    using cap(1) a(1) by (simp add: LockFreeQ_EnQ_def Let_def pool1_def s'_def del: EnQ_loop.simps)
  have inv': "queue_inv s'"
    unfolding queue_inv_def
  proof (intro conjI exI [of _ "ps @ [n]"])
    show "q_chain (q_MemoryPool s') (q_FrontPtr s' # ps @ [n]) (q_RearCheckID s')"
      using ch' by (simp add: s'_def ns_def)
    show "fl_inv (q_MemoryPool s') (set (q_FrontPtr s' # ps @ [n]))"
      using inv2 by (simp add: s'_def ns_def insert_commute)
    show "length (fl_blocks (q_MemoryPool s')) \<le> 2 ^ 31" using len2 by (simp add: s'_def)
    show "length (ps @ [n]) < 2 ^ 31" using cap(2) by simp
  qed (use dist a(2) cnt tag tag1 d(1) in \<open>auto simp: s'_def ns_def pool2_def pool1_def\<close>)
  have "queue_addrs s' = ps @ [n]"
  proof (rule queue_addrs_chain)
    show "q_chain (q_MemoryPool s') (q_FrontPtr s' # ps @ [n]) (q_RearID s + 1)"
      using ch' by (simp add: s'_def ns_def)
    show "fl_inv (q_MemoryPool s') (insert n (set ns))" using inv2 by (simp add: s'_def)
    show "set (ps @ [n]) \<subseteq> insert n (set ns)" by (auto simp: ns_def)
  qed (use cnt cap(2) len2 in \<open>simp_all add: s'_def\<close>)
  moreover have "qn_Data (fl_get pool2 q) = qn_Data (fl_get ?pool q)" if "q \<in> set ps" for q
    using that g2 [of q] gr by (cases "q = last ns") (auto simp: ns_def)
  ultimately have "queue_list s' = queue_list s @ [data]"
    using gn by (simp add: queue_list_def addrs) (simp add: s'_def gn)
  moreover have "queue_limit s' = queue_limit s" by (simp add: queue_limit_def s'_def)
  moreover have "Suc (queue_stamps s') = queue_stamps s"
    using left tag1 unfolding queue_stamps_def by (simp add: s'_def)
  ultimately show ?thesis using eq inv' by (auto simp: s'_def)
qed

lemma LockFreeQ_DeQ_ok:
  assumes inv: "queue_inv s"
  shows "\<exists>s'. LockFreeQ_DeQ (Suc fuel) s = Inr (case queue_list s of [] \<Rightarrow> None | x # xs \<Rightarrow> Some x, s') \<and>
           queue_inv s' \<and> queue_list s' = tl (queue_list s) \<and> queue_limit s' = queue_limit s \<and>
           queue_stamps s' = queue_stamps s \<and> q_MaxQCount s' = q_MaxQCount s"
proof -
  let ?pool = "q_MemoryPool s"
  obtain ps where ch: "q_chain ?pool (q_FrontPtr s # ps) (q_RearCheckID s)"
      and rear: "q_RearPtr s = last (q_FrontPtr s # ps)" and dist: "distinct (q_FrontPtr s # ps)"
      and cnt: "q_Count s = of_nat (length ps)" and small: "length ps < 2 ^ 31" and fl: "fl_inv ?pool (set (q_FrontPtr s # ps))"
      and tag: "KERNEL_ADDRESS \<le> sint (q_RearCheckID s)" "sint (q_RearCheckID s) \<le> sint (q_RearID s)"
      and np: "\<not> fl_bPlacementNew ?pool"
      and len: "length (fl_blocks ?pool) \<le> 2 ^ 31"
    using inv unfolding queue_inv_def by blast
  have addrs: "queue_addrs s = ps" by (rule queue_addrs_chain [OF ch cnt small fl _ len]) auto
  show ?thesis
  proof (cases ps)
    case Nil
    then show ?thesis
      using inv np cnt addrs by (simp add: LockFreeQ_DeQ_def queue_list_def)
  next
    case (Cons p qs)
    let ?f = "q_FrontPtr s"
    have nxt: "qn_Next (fl_get ?pool ?f) = of_nat p" and ch1: "q_chain ?pool (p # qs) (q_RearCheckID s)"
      using ch Cons by simp_all
    have cnt1: "q_Count s - 1 = of_nat (length qs)" and fewer: "length qs < 2 ^ 31"
      using cnt small Cons by simp_all
    have pos: "\<not> sint (q_Count s - 1) < 0" unfolding cnt1 sint_of_nat_LONG [OF fewer] by simp
    have p31: "p < 2 ^ 31" using fl_inv_less [OF fl, of p] len Cons by simp
    then have plt: "\<not> KERNEL_ADDRESS \<le> sint (of_nat p :: 64 word)" and up: "unat (of_nat p :: 64 word) = p"
      by (simp_all add: sint_addr unat_addr KERNEL_ADDRESS_def)
    have nodes: "q_node t (of_nat ?f) = Inr (fl_get ?pool ?f)" "q_node t (of_nat p) = Inr (fl_get ?pool p)"
      if "q_MemoryPool t = ?pool" for t
      using q_node_used [of t "set (?f # ps)"] fl Cons that len by simp_all
    from FreeList_Free_ok [OF fl, of ?f id] obtain pool where f:
        "FreeList_Free id ?f ?pool = Inr pool" "fl_inv pool (set (?f # ps) - {?f})"
        "\<forall>q\<in>set (?f # ps) - {?f}. fl_get pool q = fl_get ?pool q" by auto
    note d = FreeList_Free_data [OF f(1) np]
    define s' where "s' = s\<lparr>q_Count := q_Count s - 1, q_FrontPtr := p, q_FrontID := q_FrontID s + 1,
        q_DeQTPS := q_DeQTPS s + 1, q_MemoryPool := pool\<rparr>"
    have eq: "LockFreeQ_DeQ (Suc fuel) s = Inr (Some (qn_Data (fl_get ?pool p)), s')"
      using pos f(1) nxt plt up
      by (simp add: LockFreeQ_DeQ_def Let_def nodes cas_front_def s'_def)
    have ch': "q_chain pool (p # qs) (q_RearCheckID s)"
      using ch1 q_chain_cong [of "p # qs" pool ?pool] d(3) by blast
    have sub: "set (?f # ps) - {?f} = set (p # qs)" using dist Cons by auto
    have inv': "queue_inv s'"
      unfolding queue_inv_def
    proof (intro conjI exI [of _ qs])
      show "q_chain (q_MemoryPool s') (q_FrontPtr s' # qs) (q_RearCheckID s')"
        using ch' by (simp add: s'_def)
      show "fl_inv (q_MemoryPool s') (set (q_FrontPtr s' # qs))"
        using f(2) unfolding sub by (simp add: s'_def)
      show "q_Count s' = of_nat (length qs)" using cnt1 by (simp add: s'_def)
      show "length (fl_blocks (q_MemoryPool s')) \<le> 2 ^ 31" using len d(2) by (simp add: s'_def)
    qed (use dist rear tag fewer d(1) Cons in \<open>auto simp: s'_def\<close>)
    have "queue_addrs s' = qs"
    proof (rule queue_addrs_chain)
      show "q_chain (q_MemoryPool s') (q_FrontPtr s' # qs) (q_RearCheckID s)" using ch' by (simp add: s'_def)
      show "fl_inv (q_MemoryPool s') (set (p # qs))" using f(2) unfolding sub by (simp add: s'_def)
    qed (use cnt1 fewer len d(2) in \<open>auto simp: s'_def\<close>)
    then have "queue_list s' = tl (queue_list s)"
      using Cons d(3) by (simp add: queue_list_def addrs) (simp add: s'_def d(3))
    moreover have "queue_list s = qn_Data (fl_get ?pool p) # tl (queue_list s)"
      using Cons by (simp add: queue_list_def addrs)
    then have "(case queue_list s of [] \<Rightarrow> None | x # xs \<Rightarrow> Some x) = Some (qn_Data (fl_get ?pool p))"
      by (metis list.case(2))
    moreover have "queue_limit s' = queue_limit s" "queue_stamps s' = queue_stamps s"
      by (simp_all add: queue_limit_def queue_stamps_def s'_def)
    ultimately show ?thesis using eq inv' by (auto simp: s'_def)
  qed
qed

text \<open>The spinning fuel the callers of this library use; one turn is enough for one caller.\<close>

definition spin_fuel :: nat where
  "spin_fuel = 2"

lemma spin_fuel_Suc: "spin_fuel = Suc 1"
  by (simp add: spin_fuel_def)

interpretation send_queue: message_queue queue_inv queue_list queue_limit queue_stamps
    "LockFreeQ_EnQ spin_fuel d0" "LockFreeQ_DeQ spin_fuel"
  for d0 :: 'a
proof unfold_locales
  fix s :: "'a LockFreeQ" and x
  assume "queue_inv s" "length (queue_list s) < queue_limit s" "0 < queue_stamps s"
  from LockFreeQ_EnQ_ok [OF this, of 1 d0 x]
  show "\<exists>s'. LockFreeQ_EnQ spin_fuel d0 x s = Inr (True, s') \<and> queue_inv s' \<and>
           queue_list s' = queue_list s @ [x] \<and> queue_limit s' = queue_limit s \<and>
           Suc (queue_stamps s') = queue_stamps s"
    unfolding spin_fuel_Suc by auto
next
  fix s :: "'a LockFreeQ"
  assume "queue_inv s"
  from LockFreeQ_DeQ_ok [OF this, of 1]
  show "\<exists>s'. LockFreeQ_DeQ spin_fuel s = Inr (case queue_list s of [] \<Rightarrow> None | x # xs \<Rightarrow> Some x, s') \<and>
           queue_inv s' \<and> queue_list s' = tl (queue_list s) \<and> queue_limit s' = queue_limit s \<and>
           queue_stamps s' = queue_stamps s"
    unfolding spin_fuel_Suc by auto
qed

text \<open>The two laws in terms of \<open>queue_cap\<close>, as the server's lemmas use them.\<close>

lemma queue_enq:
  assumes "queue_inv s" "length (queue_list s) < queue_cap s"
  shows "\<exists>s'. LockFreeQ_EnQ spin_fuel d0 x s = Inr (True, s') \<and> queue_inv s' \<and>
           queue_list s' = queue_list s @ [x] \<and> queue_cap s \<le> queue_cap s' + 1"
  using send_queue.enq_law [OF assms(1), of d0 x] assms(2) by (fastforce simp: queue_cap_def)

lemma queue_deq:
  assumes "queue_inv s"
  shows "\<exists>s'. LockFreeQ_DeQ spin_fuel s = Inr (case queue_list s of [] \<Rightarrow> None | x # xs \<Rightarrow> Some x, s') \<and>
           queue_inv s' \<and> queue_list s' = tl (queue_list s) \<and> queue_cap s' = queue_cap s"
  using send_queue.deq_law [OF assms] by (auto simp: queue_cap_def)

section \<open>Properties\<close>

text \<open>
  C33. The queue is first in, first out and loses nothing.  The run may be of any length: what
  is asked is that at every \<open>EnQ\<close> the queue holds no more messages than the configured maximum
  (and fewer than the 32 bit count can stand for), and that the messages put in all together
  are no more than the tags left, \<open>2 ^ 63 - 1 - 2 ^ 43\<close> for a new queue.  Then no call faults or
  spins, every message is accepted, and the queued messages followed by those sent are those
  received followed by those still queued; the limit is the same afterwards.
\<close>

theorem LockFreeQ_is_fifo:
  assumes "queue_inv s" and "queue_fits (queue_limit s) (length (queue_list s)) ops"
    and "length (enqueued ops) \<le> queue_stamps s"
  shows "\<exists>got s'. queue_run (LockFreeQ_EnQ spin_fuel d0) (LockFreeQ_DeQ spin_fuel) ops s = Inr (enqueued ops, got, s') \<and>
           queue_inv s' \<and> queue_list s @ enqueued ops = got @ queue_list s' \<and>
           queue_limit s' = queue_limit s \<and> queue_stamps s' + length (enqueued ops) = queue_stamps s"
  using assms by (rule send_queue.queue_order)

text \<open>Ten thousand messages through a queue that holds at most two.\<close>

lemma queue_fits_pairs:
  "0 < limit \<Longrightarrow> queue_fits limit 0 (concat (replicate n [EnqOp x, DeqOp]))"
  by (induction n) simp_all

lemma enqueued_pairs: "enqueued (concat (replicate n [EnqOp x, DeqOp])) = replicate n x"
  by (induction n) simp_all

theorem LockFreeQ_is_fifo_witness:
  "\<exists>s got s'. LockFreeQ_new (0::nat) 1 1 = Inr s \<and> queue_limit s = 2 \<and>
     queue_run (LockFreeQ_EnQ spin_fuel 0) (LockFreeQ_DeQ spin_fuel) (concat (replicate 10000 [EnqOp 7, DeqOp])) s
       = Inr (replicate 10000 7, got, s') \<and> replicate 10000 7 = got @ queue_list s'"
proof -
  obtain s where s: "LockFreeQ_new (0::nat) 1 1 = Inr s" "queue_inv s" "queue_list s = []"
    using queue_inv_new [of 0 1 1] by auto
  note c = queue_new_cap [OF s(1), simplified]
  let ?ops = "concat (replicate 10000 [EnqOp 7, DeqOp])"
  have "queue_fits (queue_limit s) (length (queue_list s)) ?ops"
    using queue_fits_pairs [of "queue_limit s" 10000] c(1) s(3) by simp
  moreover have "length (enqueued ?ops) \<le> queue_stamps s"
    unfolding enqueued_pairs c(2) length_replicate by simp
  ultimately obtain got s' where
      "queue_run (LockFreeQ_EnQ spin_fuel 0) (LockFreeQ_DeQ spin_fuel) ?ops s = Inr (enqueued ?ops, got, s')"
      "queue_list s @ enqueued ?ops = got @ queue_list s'"
    using LockFreeQ_is_fifo [OF s(2), of ?ops 0] by blast
  then show ?thesis using s(1,3) c(1) unfolding enqueued_pairs by auto
qed

text \<open>
  A full queue is not reported: with more messages than the maximum \<open>EnQ\<close> ends the process,
  and no call of \<open>EnQ\<close> ever answers false, so the callers' disconnection on false is dead code.
\<close>

theorem EnQ_full_crashes:
  "(sint (q_MaxQCount s) < sint (q_Count s) \<longrightarrow> LockFreeQ_EnQ fuel d0 data s = Inl Crash) \<and>
   (\<forall>s'. LockFreeQ_EnQ fuel d0 data s \<noteq> Inr (False, s'))"
  by (auto simp: LockFreeQ_EnQ_def run_simps Let_def)

theorem EnQ_full_crashes_witness:
  "\<exists>s. LockFreeQ_new (0::nat) 1 (- 1) = Inr s \<and> LockFreeQ_EnQ 5 0 3 s = Inl Crash"
proof -
  obtain s where s: "LockFreeQ_new (0::nat) 1 (- 1) = Inr s" "queue_inv s" "queue_list s = []"
      "q_MaxQCount s = - 1"
    using queue_inv_new [of 0 1 "- 1"] by auto
  then have "sint (q_Count s) = 0" using length_queue_list [OF s(2)] by (simp add: LockFreeQ_GetQCount_def)
  then show ?thesis using EnQ_full_crashes [of s 5 0 3] s(1,4) by auto
qed

end
