(* ===== verification/ServerState.thy ===== *)
theory ServerState
  imports RingBuffer PacketPool LockFreeStack LockFreeQ
begin

text \<open>
  The state of the chat server: what one object of \<^verbatim>\<open>MyChattingServer\<close> with its base class
  \<^verbatim>\<open>NetServer\<close> and the globals of Global.cpp holds, and the outside world as the code meets it.
  Operating system calls whose results the code examines are answered by an \<open>env\<close>, an argument
  of every handler; calls it makes for their effect are appended to \<open>w_io\<close>.  The memory logs
  and the text log are written and never read by the program, and are left out.
\<close>

section \<open>Data\<close>

datatype eJobTYPE = ON_CLIENT_JOIN | ON_CLIENT_LEAVE | ON_MESSAGE | ON_TIMEOUT | ON_LOGIN_RESULT

record Job =
  j_TYPE :: eJobTYPE
  j_SessionID :: "64 word"
  j_NetPacketPtr :: "objptr option"

record RedisJob =
  r_SessionID :: "64 word"
  r_AccoutAno :: "64 word"
  r_SessionKey :: "byte list"

record Client =
  c_SessionID :: "64 word"
  c_SectorX :: "16 word"
  c_SectorY :: "16 word"
  c_AccoutNo :: "64 word"
  c_ID :: "byte list"
  c_NickName :: "byte list"
  c_SessionKey :: "byte list"

definition Client_new :: Client where
  "Client_new =
     \<lparr>c_SessionID = 0, c_SectorX = 0xffff, c_SectorY = 0xffff, c_AccoutNo = 0,
      c_ID = replicate 40 0, c_NickName = replicate 40 0, c_SessionKey = replicate 64 0\<rparr>"

record TimeOutOption =
  OptionOn :: bool
  LoginTimeOut :: "32 word"
  HeartBeatTimeOut :: "32 word"

definition INVALID_SOCKET :: "64 word" where
  "INVALID_SOCKET = - 1"

text \<open>
  A session slot.  The two overlapped structures are owned by the operating system while a
  request is open and only compared by address, so they are tags of completions, not fields;
  a pointer in the packet array is null or a packet.
\<close>

definition DEQ_PACKET_ARRAY_SIZE :: nat where
  "DEQ_PACKET_ARRAY_SIZE = 100"

record Session =
  s_Socket :: "64 word"
  s_ID :: "64 word"
  s_Index :: "64 word"
  s_USED :: bool
  s_RecvRingQ :: RingQ
  s_SendQ :: "objptr option LockFreeQ"
  s_DeQPacketArray :: "objptr option list"
  s_DeQArraySize :: nat
  s_IOCount :: "32 word"
  s_CloseFlag :: "32 word"
  s_SendFlag :: "32 word"
  s_bIOCancel :: bool
  s_SendByte :: "32 word"
  s_LastRecvTime :: "32 word"
  s_TimeOut :: "32 word"
  s_IP :: string
  s_Port :: "16 word"
  s_bReserveDiscon :: bool
  s_SessionOrder :: "64 word"
  s_OrderIndex :: "64 word"
  s_LastSessionID :: "(64 word \<times> 64 word \<times> 64 word) list"
  s_ErrorCode :: int
  s_GQCSRtn :: bool
  s_IOFail :: bool
  s_TransferZero :: int
  s_AccountNo :: "64 word"

text \<open>
  The constructor does not set \<open>_CloseFlag\<close>, \<open>_SendFlag\<close>, \<open>_ErrorCode\<close>, \<open>_GQCSRtn\<close>, the packet
  array, the address and the debug array: they are what the memory held, a record \<open>raw\<close>.
\<close>

definition Session_new :: "Session \<Rightarrow> int \<Rightarrow> Session run" where
  "Session_new raw mark =
     bnd (LockFreeQ_new None mark 5000) (\<lambda>sendQ.
       Inr (raw\<lparr>s_SendQ := sendQ, s_RecvRingQ := RingQ_new, s_Socket := 0, s_IOCount := 1, s_ID := 0,
                s_SendByte := 0, s_USED := False, s_SessionOrder := 0, s_OrderIndex := 0,
                s_Index := - 1, s_DeQArraySize := 0, s_LastRecvTime := 0, s_TimeOut := 3000,
                s_AccountNo := - 1, s_TransferZero := 0, s_IOFail := False, s_bIOCancel := False,
                s_bReserveDiscon := False\<rparr>))"

section \<open>The outside world\<close>

text \<open>
  The overlapped pointer of a completion: null, one of the two of the completion's session, or a
  session identifier that was posted as a pointer; and the calls made for their effect.
\<close>

datatype overlap = NullOL | RecvOL | SendOL | KeyOL "64 word"

record completion =
  q_gqcsRtn :: bool
  q_errorCode :: int
  q_transferByte :: "32 word"
  q_Session :: "nat option"
  q_Overlap :: overlap

text \<open>
  What \<^verbatim>\<open>QueueUserAPC\<close> is given for the thread: a value that stands for a thread handle, or the
  address of a function that was converted to one.
\<close>

datatype apc_thread = ThreadHandle "64 word" | FunctionAddress string

datatype io_event =
    WSARecv "64 word" "(int \<times> int) list"
  | WSASend "64 word" "byte list list"
  | CancelIoEx "64 word"
  | CloseSocket "64 word"
  | PostQueued "64 word"
  | PostExit
  | SetUpdateEvent
  | QueueUserAPC apc_thread RedisJob

text \<open>
  The jobs that a thread will run: \<open>is_thread\<close> says which values are handles of threads of the
  process; a call with any other value fails and queues nothing.  The code ignores the result.
\<close>

definition apc_jobs :: "(apc_thread \<Rightarrow> bool) \<Rightarrow> io_event list \<Rightarrow> RedisJob list" where
  "apc_jobs is_thread evs =
     concat (map (\<lambda>ev. case ev of QueueUserAPC h job \<Rightarrow> if is_thread h then [job] else [] | _ \<Rightarrow> []) evs)"

datatype wsa_result = WsaOk | WsaError int

record env =
  e_tid :: tid
  e_time :: "32 word"
  e_rand :: int
  e_WSARecv :: wsa_result
  e_WSASend :: wsa_result
  e_IoIncomplete :: bool
  e_IocpAttach :: bool

definition WSA_IO_PENDING :: int where "WSA_IO_PENDING = 997"
definition WSAEINTR :: int where "WSAEINTR = 10004"
definition WSAENOTSOCK :: int where "WSAENOTSOCK = 10038"
definition WSAECONNABORTED :: int where "WSAECONNABORTED = 10053"
definition WSAECONNRESET :: int where "WSAECONNRESET = 10054"
definition ERROR_NETNAME_DELETED :: int where "ERROR_NETNAME_DELETED = 64"
definition ERROR_SEM_TIMEOUT :: int where "ERROR_SEM_TIMEOUT = 121"
definition ERROR_OPERATION_ABORTED :: int where "ERROR_OPERATION_ABORTED = 995"

text \<open>
  The server object.  The statistics are machine words as in the code and wrap.  A null
  \<open>m_IndexStack\<close> is \<^const>\<open>None\<close>, a null \<open>m_SessionArray\<close> the empty list.
\<close>

record World =
  w_NetPacketPool :: NetPacketPool
  w_io :: "io_event list"
  m_IndexStack :: "64 word LockFreeStack option"
  m_TimeOutOption :: TimeOutOption
  m_SessionID :: "64 word"
  m_MaxUserCount :: "32 word"
  m_SessionCount :: "32 word"
  m_SessionArray :: "Session list"
  m_WorkerThreadCount :: "32 word"
  m_NetworkTraffic :: "32 word"
  m_RecvTPS :: "32 word"
  m_SendTPS :: "32 word"
  m_AcceptTPS :: "32 word"
  m_RecvTPS_To_Main :: "32 word"
  m_SendTPS_To_Main :: "32 word"
  m_AcceptTPS_To_Main :: "32 word"
  m_NetworkTraffic_To_Main :: "32 word"
  m_SendQMemory :: "32 word"
  m_AcceptCount :: "64 word"
  m_JobPool :: "Job MemoryPool"
  m_ThreadQ :: "objptr option LockFreeQ"
  m_ClientPool :: "Client MemoryPool"
  m_ClientMap :: "64 word \<Rightarrow> objptr option"
  m_Sector :: "nat \<Rightarrow> nat \<Rightarrow> objptr list"
  m_WhiteIPList :: "string list"
  m_UpdateTPS :: "32 word"
  m_WakeTime :: "32 word"
  g_FreeMemoryCount :: "32 word"
  g_AllocMemoryCount :: "32 word"
  g_OnClientLeaveCall :: "32 word"
  g_DisconnectCount :: "32 word"
  g_TCPTimeoutReleaseCnt :: "32 word"

section \<open>Access to the parts\<close>

definition sess :: "World \<Rightarrow> nat \<Rightarrow> Session" where
  "sess w i = m_SessionArray w ! i"

definition upd_sess :: "nat \<Rightarrow> (Session \<Rightarrow> Session) \<Rightarrow> World \<Rightarrow> World" where
  "upd_sess i f w = w\<lparr>m_SessionArray := (m_SessionArray w)[i := f (sess w i)]\<rparr>"

definition emit :: "io_event \<Rightarrow> World \<Rightarrow> World" where
  "emit ev w = w\<lparr>w_io := w_io w @ [ev]\<rparr>"

text \<open>A packet behind its pointer, and an operation of it.\<close>

definition packet_at :: "objptr \<Rightarrow> World \<Rightarrow> NetPacket run" where
  "packet_at p w =
     (case mp_object (w_NetPacketPool w) p of
        None \<Rightarrow> Inl OutOfBounds
      | Some obj \<Rightarrow> Inr (mp_get (w_NetPacketPool w) p))"

definition on_packet :: "objptr \<Rightarrow> (NetPacket \<Rightarrow> ('a \<times> NetPacket) run) \<Rightarrow> World \<Rightarrow> ('a \<times> World) run" where
  "on_packet p f w =
     bnd (packet_at p w) (\<lambda>d.
     bnd (f d) (\<lambda>(x, d').
       Inr (x, w\<lparr>w_NetPacketPool := mp_put p d' (w_NetPacketPool w)\<rparr>)))"

definition packet_Alloc :: "env \<Rightarrow> World \<Rightarrow> (objptr \<times> World) run" where
  "packet_Alloc e w =
     bnd (NetPacket_Alloc (e_tid e) (w_NetPacketPool w)) (\<lambda>(p, pool).
       Inr (p, w\<lparr>w_NetPacketPool := pool\<rparr>))"

definition packet_Free :: "objptr \<Rightarrow> World \<Rightarrow> World run" where
  "packet_Free p w =
     bnd (NetPacket_Free p (w_NetPacketPool w)) (\<lambda>pool. Inr (w\<lparr>w_NetPacketPool := pool\<rparr>))"

definition packet_IncRef :: "objptr \<Rightarrow> World \<Rightarrow> World run" where
  "packet_IncRef p w =
     bnd (on_packet p (\<lambda>d. Inr (NetPacket_IncrementRefCount d)) w) (\<lambda>(_, w). Inr w)"

text \<open>The server's idiom: decrement, and on zero free the packet and count it.\<close>

definition packet_DecRef :: "objptr \<Rightarrow> World \<Rightarrow> World run" where
  "packet_DecRef p w =
     bnd (on_packet p (\<lambda>d. Inr (NetPacket_DecrementRefCount d)) w) (\<lambda>(n, w).
       if n = 0
       then packet_Free p (w\<lparr>g_FreeMemoryCount := g_FreeMemoryCount w + 1\<rparr>)
       else Inr w)"

section \<open>Reading after writing\<close>

text \<open>
  How the access functions commute with updates.  Session slots are read with \<^const>\<open>sess\<close> and
  written with \<^const>\<open>upd_sess\<close> only, so these equations make the session array opaque.
\<close>

named_theorems world_simps \<open>equations about the parts of the server state\<close>

lemma upd_sess_fields [simp]:
  "w_NetPacketPool (upd_sess i f w) = w_NetPacketPool w"
  "w_io (upd_sess i f w) = w_io w"
  "m_IndexStack (upd_sess i f w) = m_IndexStack w"
  "m_TimeOutOption (upd_sess i f w) = m_TimeOutOption w"
  "m_SessionID (upd_sess i f w) = m_SessionID w"
  "m_MaxUserCount (upd_sess i f w) = m_MaxUserCount w"
  "m_SessionCount (upd_sess i f w) = m_SessionCount w"
  "m_WorkerThreadCount (upd_sess i f w) = m_WorkerThreadCount w"
  "m_NetworkTraffic (upd_sess i f w) = m_NetworkTraffic w"
  "m_RecvTPS (upd_sess i f w) = m_RecvTPS w"
  "m_SendTPS (upd_sess i f w) = m_SendTPS w"
  "m_AcceptTPS (upd_sess i f w) = m_AcceptTPS w"
  "m_RecvTPS_To_Main (upd_sess i f w) = m_RecvTPS_To_Main w"
  "m_SendTPS_To_Main (upd_sess i f w) = m_SendTPS_To_Main w"
  "m_AcceptTPS_To_Main (upd_sess i f w) = m_AcceptTPS_To_Main w"
  "m_NetworkTraffic_To_Main (upd_sess i f w) = m_NetworkTraffic_To_Main w"
  "m_SendQMemory (upd_sess i f w) = m_SendQMemory w"
  "m_AcceptCount (upd_sess i f w) = m_AcceptCount w"
  "m_JobPool (upd_sess i f w) = m_JobPool w"
  "m_ThreadQ (upd_sess i f w) = m_ThreadQ w"
  "m_ClientPool (upd_sess i f w) = m_ClientPool w"
  "m_ClientMap (upd_sess i f w) = m_ClientMap w"
  "m_Sector (upd_sess i f w) = m_Sector w"
  "m_WhiteIPList (upd_sess i f w) = m_WhiteIPList w"
  "m_UpdateTPS (upd_sess i f w) = m_UpdateTPS w"
  "m_WakeTime (upd_sess i f w) = m_WakeTime w"
  "g_FreeMemoryCount (upd_sess i f w) = g_FreeMemoryCount w"
  "g_AllocMemoryCount (upd_sess i f w) = g_AllocMemoryCount w"
  "g_OnClientLeaveCall (upd_sess i f w) = g_OnClientLeaveCall w"
  "g_DisconnectCount (upd_sess i f w) = g_DisconnectCount w"
  "g_TCPTimeoutReleaseCnt (upd_sess i f w) = g_TCPTimeoutReleaseCnt w"
  "length (m_SessionArray (upd_sess i f w)) = length (m_SessionArray w)"
  by (simp_all add: upd_sess_def)

lemma emit_fields [simp]:
  "w_NetPacketPool (emit ev w) = w_NetPacketPool w"
  "m_IndexStack (emit ev w) = m_IndexStack w"
  "m_TimeOutOption (emit ev w) = m_TimeOutOption w"
  "m_SessionID (emit ev w) = m_SessionID w"
  "m_MaxUserCount (emit ev w) = m_MaxUserCount w"
  "m_SessionCount (emit ev w) = m_SessionCount w"
  "m_WorkerThreadCount (emit ev w) = m_WorkerThreadCount w"
  "m_NetworkTraffic (emit ev w) = m_NetworkTraffic w"
  "m_RecvTPS (emit ev w) = m_RecvTPS w"
  "m_SendTPS (emit ev w) = m_SendTPS w"
  "m_AcceptTPS (emit ev w) = m_AcceptTPS w"
  "m_RecvTPS_To_Main (emit ev w) = m_RecvTPS_To_Main w"
  "m_SendTPS_To_Main (emit ev w) = m_SendTPS_To_Main w"
  "m_AcceptTPS_To_Main (emit ev w) = m_AcceptTPS_To_Main w"
  "m_NetworkTraffic_To_Main (emit ev w) = m_NetworkTraffic_To_Main w"
  "m_SendQMemory (emit ev w) = m_SendQMemory w"
  "m_AcceptCount (emit ev w) = m_AcceptCount w"
  "m_JobPool (emit ev w) = m_JobPool w"
  "m_ThreadQ (emit ev w) = m_ThreadQ w"
  "m_ClientPool (emit ev w) = m_ClientPool w"
  "m_ClientMap (emit ev w) = m_ClientMap w"
  "m_Sector (emit ev w) = m_Sector w"
  "m_WhiteIPList (emit ev w) = m_WhiteIPList w"
  "m_UpdateTPS (emit ev w) = m_UpdateTPS w"
  "m_WakeTime (emit ev w) = m_WakeTime w"
  "g_FreeMemoryCount (emit ev w) = g_FreeMemoryCount w"
  "g_AllocMemoryCount (emit ev w) = g_AllocMemoryCount w"
  "g_OnClientLeaveCall (emit ev w) = g_OnClientLeaveCall w"
  "g_DisconnectCount (emit ev w) = g_DisconnectCount w"
  "g_TCPTimeoutReleaseCnt (emit ev w) = g_TCPTimeoutReleaseCnt w"
  "w_io (emit ev w) = w_io w @ [ev]" "m_SessionArray (emit ev w) = m_SessionArray w"
  by (simp_all add: emit_def)

lemma sess_fields [simp]:
  "sess (w\<lparr>w_NetPacketPool := x_w_NetPacketPool\<rparr>) i = sess w i"
  "sess (w\<lparr>w_io := x_w_io\<rparr>) i = sess w i"
  "sess (w\<lparr>m_IndexStack := x_m_IndexStack\<rparr>) i = sess w i"
  "sess (w\<lparr>m_TimeOutOption := x_m_TimeOutOption\<rparr>) i = sess w i"
  "sess (w\<lparr>m_SessionID := x_m_SessionID\<rparr>) i = sess w i"
  "sess (w\<lparr>m_MaxUserCount := x_m_MaxUserCount\<rparr>) i = sess w i"
  "sess (w\<lparr>m_SessionCount := x_m_SessionCount\<rparr>) i = sess w i"
  "sess (w\<lparr>m_WorkerThreadCount := x_m_WorkerThreadCount\<rparr>) i = sess w i"
  "sess (w\<lparr>m_NetworkTraffic := x_m_NetworkTraffic\<rparr>) i = sess w i"
  "sess (w\<lparr>m_RecvTPS := x_m_RecvTPS\<rparr>) i = sess w i"
  "sess (w\<lparr>m_SendTPS := x_m_SendTPS\<rparr>) i = sess w i"
  "sess (w\<lparr>m_AcceptTPS := x_m_AcceptTPS\<rparr>) i = sess w i"
  "sess (w\<lparr>m_RecvTPS_To_Main := x_m_RecvTPS_To_Main\<rparr>) i = sess w i"
  "sess (w\<lparr>m_SendTPS_To_Main := x_m_SendTPS_To_Main\<rparr>) i = sess w i"
  "sess (w\<lparr>m_AcceptTPS_To_Main := x_m_AcceptTPS_To_Main\<rparr>) i = sess w i"
  "sess (w\<lparr>m_NetworkTraffic_To_Main := x_m_NetworkTraffic_To_Main\<rparr>) i = sess w i"
  "sess (w\<lparr>m_SendQMemory := x_m_SendQMemory\<rparr>) i = sess w i"
  "sess (w\<lparr>m_AcceptCount := x_m_AcceptCount\<rparr>) i = sess w i"
  "sess (w\<lparr>m_JobPool := x_m_JobPool\<rparr>) i = sess w i"
  "sess (w\<lparr>m_ThreadQ := x_m_ThreadQ\<rparr>) i = sess w i"
  "sess (w\<lparr>m_ClientPool := x_m_ClientPool\<rparr>) i = sess w i"
  "sess (w\<lparr>m_ClientMap := x_m_ClientMap\<rparr>) i = sess w i"
  "sess (w\<lparr>m_Sector := x_m_Sector\<rparr>) i = sess w i"
  "sess (w\<lparr>m_WhiteIPList := x_m_WhiteIPList\<rparr>) i = sess w i"
  "sess (w\<lparr>m_UpdateTPS := x_m_UpdateTPS\<rparr>) i = sess w i"
  "sess (w\<lparr>m_WakeTime := x_m_WakeTime\<rparr>) i = sess w i"
  "sess (w\<lparr>g_FreeMemoryCount := x_g_FreeMemoryCount\<rparr>) i = sess w i"
  "sess (w\<lparr>g_AllocMemoryCount := x_g_AllocMemoryCount\<rparr>) i = sess w i"
  "sess (w\<lparr>g_OnClientLeaveCall := x_g_OnClientLeaveCall\<rparr>) i = sess w i"
  "sess (w\<lparr>g_DisconnectCount := x_g_DisconnectCount\<rparr>) i = sess w i"
  "sess (w\<lparr>g_TCPTimeoutReleaseCnt := x_g_TCPTimeoutReleaseCnt\<rparr>) i = sess w i"
  "sess (emit ev w) i = sess w i"
  by (simp_all add: sess_def emit_def)

lemma sess_upd [world_simps]:
  "i < length (m_SessionArray w) \<Longrightarrow> sess (upd_sess i f w) j = (if j = i then f (sess w i) else sess w j)"
  by (auto simp: sess_def upd_sess_def)

lemma upd_sess_upd [world_simps]: "upd_sess i f (upd_sess i g w) = upd_sess i (\<lambda>s. f (g s)) w"
  by (cases "i < length (m_SessionArray w)") (simp_all add: sess_def upd_sess_def list_update_beyond)

lemma upd_sess_same [world_simps]: "f (sess w i) = sess w i \<Longrightarrow> upd_sess i f w = w"
  by (simp add: upd_sess_def sess_def)

lemma upd_sess_cong [fundef_cong]:
  "w = w' \<Longrightarrow> i = i' \<Longrightarrow> f (sess w' i') = f' (sess w' i') \<Longrightarrow> upd_sess i f w = upd_sess i' f' w'"
  by (simp add: upd_sess_def)

section \<open>Jobs for the update thread\<close>

text \<open>A new job has no constructor; every field is set before the queue gets it.\<close>

definition Job_raw :: Job where
  "Job_raw = \<lparr>j_TYPE = ON_CLIENT_JOIN, j_SessionID = 0, j_NetPacketPtr = None\<rparr>"

definition MakeJobNEnQ :: "env \<Rightarrow> eJobTYPE \<Rightarrow> 64 word \<Rightarrow> objptr option \<Rightarrow> World \<Rightarrow> World run" where
  "MakeJobNEnQ e type sessionID netPacket w =
     bnd (MemoryPool_Alloc Job_raw Job_raw (e_tid e) (m_JobPool w)) (\<lambda>(jobPtr, pool).
     let w = w\<lparr>m_JobPool := mp_put jobPtr
                 \<lparr>j_TYPE = type, j_SessionID = sessionID, j_NetPacketPtr = netPacket\<rparr> pool\<rparr>
     in bnd (LockFreeQ_EnQ spin_fuel None (Some jobPtr) (m_ThreadQ w)) (\<lambda>(_, q).
        Inr (emit SetUpdateEvent (w\<lparr>m_ThreadQ := q\<rparr>))))"

end
