(* ===== verification/NetServer.thy ===== *)
theory NetServer
  imports ServerState
begin

text \<open>
  \<^verbatim>\<open>NetServer\<close> of NetServerLib.cpp: sessions with a reference count of open operations and
  holders, of which the top bit is the release flag; sending through a queue per session;
  receiving into a ring, from which packets are cut and decoded; accepting, releasing and the
  worker and monitor threads.  A session is named by its slot \<open>i\<close>.  One handler runs at a
  time; the interleaving of several threads on one session is the subject of another theory.
\<close>

section \<open>Session identifiers\<close>

definition GetSessionID :: "64 word \<Rightarrow> World \<Rightarrow> 64 word \<times> World" where
  "GetSessionID index w =
     (let w = w\<lparr>m_SessionID := m_SessionID w + 1\<rparr> in (push_bit 48 index OR m_SessionID w, w))"

definition GetSessionIndex :: "64 word \<Rightarrow> World \<Rightarrow> 16 word run" where
  "GetSessionIndex sessionID w =
     (let tempIndex = ucast (drop_bit 48 (0xffff000000000000 AND sessionID)) :: 16 word in
      if m_MaxUserCount w - 1 < ucast tempIndex then Inl Crash else Inr tempIndex)"

definition FindSession :: "64 word \<Rightarrow> World \<Rightarrow> nat run" where
  "FindSession sessionID w =
     bnd (GetSessionIndex sessionID w) (\<lambda>index.
       if unat index < length (m_SessionArray w) then Inr (unat index) else Inl OutOfBounds)"

section \<open>The callbacks of the server class\<close>

text \<open>They write a session's memory log, for which they look the session up.\<close>

definition OnClientJoin :: "env \<Rightarrow> 64 word \<Rightarrow> World \<Rightarrow> World run" where
  "OnClientJoin e sessionID w =
     bnd (FindSession sessionID w) (\<lambda>_. MakeJobNEnQ e ON_CLIENT_JOIN sessionID None w)"

definition OnClientLeave :: "env \<Rightarrow> 64 word \<Rightarrow> World \<Rightarrow> World run" where
  "OnClientLeave e sessionID w =
     bnd (FindSession sessionID w) (\<lambda>_. MakeJobNEnQ e ON_CLIENT_LEAVE sessionID None w)"

definition OnRecv :: "env \<Rightarrow> 64 word \<Rightarrow> objptr \<Rightarrow> World \<Rightarrow> World run" where
  "OnRecv e sessionID packet w =
     bnd (FindSession sessionID w) (\<lambda>_. MakeJobNEnQ e ON_MESSAGE sessionID (Some packet) w)"

definition OnTimeOut :: "env \<Rightarrow> 64 word \<Rightarrow> World \<Rightarrow> World run" where
  "OnTimeOut e sessionID w = MakeJobNEnQ e ON_TIMEOUT sessionID None w"

section \<open>Release\<close>

definition ReleaseSocket :: "nat \<Rightarrow> World \<Rightarrow> World" where
  "ReleaseSocket i w =
     (let flag = s_CloseFlag (sess w i);
          w = upd_sess i (\<lambda>s. s\<lparr>s_CloseFlag := 1\<rparr>) w
      in if flag = 0 then
           let temp = s_Socket (sess w i) in
           emit (CloseSocket temp) (upd_sess i (\<lambda>s. s\<lparr>s_Socket := INVALID_SOCKET\<rparr>) w)
         else w)"

primrec DeQPacket_loop :: "nat list \<Rightarrow> nat \<Rightarrow> World \<Rightarrow> World run" where
  "DeQPacket_loop [] i w = Inr w"
| "DeQPacket_loop (k # ks) i w =
     (if length (s_DeQPacketArray (sess w i)) \<le> k then Inl OutOfBounds
      else
        let delNetPacket = s_DeQPacketArray (sess w i) ! k;
            w = upd_sess i (\<lambda>s. s\<lparr>s_DeQPacketArray := (s_DeQPacketArray s)[k := None]\<rparr>) w
        in case delNetPacket of
             None \<Rightarrow> Inl NullDeref
           | Some p \<Rightarrow> bnd (packet_DecRef p w) (\<lambda>w.
               DeQPacket_loop ks i (w\<lparr>m_SendTPS := m_SendTPS w + 1\<rparr>)))"

definition DeQPacket :: "nat \<Rightarrow> World \<Rightarrow> World run" where
  "DeQPacket i w =
     bnd (DeQPacket_loop [0..<s_DeQArraySize (sess w i)] i w) (\<lambda>w.
       Inr (upd_sess i (\<lambda>s. s\<lparr>s_DeQArraySize := 0\<rparr>) w))"

text \<open>The fuel of a loop over a queue is the queue's count and one more for the last, empty, turn.\<close>

primrec ReleasePacket_loop :: "nat \<Rightarrow> nat \<Rightarrow> World \<Rightarrow> World run" where
  "ReleasePacket_loop 0 i w = Inl Blocked"
| "ReleasePacket_loop (Suc fuel) i w =
     bnd (LockFreeQ_DeQ spin_fuel (s_SendQ (sess w i))) (\<lambda>(r, q).
       let w = upd_sess i (\<lambda>s. s\<lparr>s_SendQ := q\<rparr>) w in
       case r of
         None \<Rightarrow> Inr w
       | Some None \<Rightarrow> Inl NullDeref
       | Some (Some p) \<Rightarrow> bnd (packet_DecRef p w) (ReleasePacket_loop fuel i))"

definition ReleasePacket :: "nat \<Rightarrow> World \<Rightarrow> World run" where
  "ReleasePacket i w =
     bnd (ReleasePacket_loop (Suc (nat (LockFreeQ_GetQCount (s_SendQ (sess w i))))) i w) (\<lambda>w.
       if 0 < s_DeQArraySize (sess w i) then DeQPacket i w else Inr w)"

definition SessionClear :: "nat \<Rightarrow> World \<Rightarrow> World run" where
  "SessionClear i w =
     (let tempID = s_ID (sess w i);
          w = upd_sess i (\<lambda>s. s\<lparr>s_Socket := INVALID_SOCKET, s_CloseFlag := 0,
                              s_IOCount := s_IOCount s + 1, s_SendFlag := 0\<rparr>) w
      in bnd (crash_if (0 < LockFreeQ_GetQCount (s_SendQ (sess w i)))) (\<lambda>_.
         let w = upd_sess i (\<lambda>s. s\<lparr>s_RecvRingQ := ClearBuffer (s_RecvRingQ s), s_IP := [], s_Port := 0,
                   s_SendByte := 0, s_USED := False, s_ErrorCode := 0, s_GQCSRtn := True,
                   s_TransferZero := 0, s_IOFail := False, s_bIOCancel := False,
                   s_bReserveDiscon := False\<rparr>) w
         in bnd (GetSessionIndex tempID w) (\<lambda>index.
            case m_IndexStack w of
              None \<Rightarrow> Inl NullDeref
            | Some st \<Rightarrow> bnd (LockFreeStack_Push 0 (ucast index) st) (\<lambda>st.
                Inr (w\<lparr>m_IndexStack := Some st\<rparr>)))))"

definition ReleaseSession :: "env \<Rightarrow> nat \<Rightarrow> World \<Rightarrow> World run" where
  "ReleaseSession e i w =
     (if s_IOCount (sess w i) \<noteq> 0 then Inr w
      else
        let w = upd_sess i (\<lambda>s. s\<lparr>s_IOCount := 0x80000000\<rparr>) w in
        bnd (crash_if (\<not> s_bReserveDiscon (sess w i))) (\<lambda>_.
        bnd (crash_if (s_ErrorCode (sess w i)
               \<notin> {ERROR_SEM_TIMEOUT, ERROR_NETNAME_DELETED, 0, ERROR_OPERATION_ABORTED})) (\<lambda>_.
        let tempSessionID = s_ID (sess w i);
            w = (if s_ErrorCode (sess w i) = ERROR_SEM_TIMEOUT
                 then w\<lparr>g_TCPTimeoutReleaseCnt := g_TCPTimeoutReleaseCnt w + 1\<rparr> else w);
            w = ReleaseSocket i w
        in bnd (crash_if (s_IOCount (sess w i) < 0x80000000)) (\<lambda>_.
           bnd (ReleasePacket i w) (\<lambda>w.
           bnd (crash_if (0 < LockFreeQ_GetQCount (s_SendQ (sess w i)))) (\<lambda>_.
           bnd (crash_if (s_DeQPacketArray (sess w i) ! 0 \<noteq> None)) (\<lambda>_.
           bnd (SessionClear i w) (\<lambda>w.
           bnd (OnClientLeave e tempSessionID w) (\<lambda>w.
             Inr (w\<lparr>m_SessionCount := m_SessionCount w - 1\<rparr>))))))))))"

text \<open>The pairing of a decrement with the release of the session at zero, as it stands in many places.\<close>

definition IO_Decrement :: "env \<Rightarrow> nat \<Rightarrow> World \<Rightarrow> World run" where
  "IO_Decrement e i w =
     (let w = upd_sess i (\<lambda>s. s\<lparr>s_IOCount := s_IOCount s - 1\<rparr>) w in
      if s_IOCount (sess w i) = 0 then ReleaseSession e i w else Inr w)"

definition IO_Increment :: "nat \<Rightarrow> World \<Rightarrow> World" where
  "IO_Increment i w = upd_sess i (\<lambda>s. s\<lparr>s_IOCount := s_IOCount s + 1\<rparr>) w"

section \<open>Holding a session\<close>

text \<open>The overload with an out parameter answers the slot even where it fails.\<close>

definition AcquireSession_out :: "env \<Rightarrow> 64 word \<Rightarrow> World \<Rightarrow> (bool \<times> nat \<times> World) run" where
  "AcquireSession_out e sessionID w =
     bnd (FindSession sessionID w) (\<lambda>i.
     let w = IO_Increment i w in
     if s_IOCount (sess w i) AND 0x80000000 \<noteq> 0 \<or> s_ID (sess w i) \<noteq> sessionID
     then bnd (IO_Decrement e i w) (\<lambda>w. Inr (False, i, w))
     else Inr (True, i, w))"

definition AcquireSession :: "env \<Rightarrow> 64 word \<Rightarrow> World \<Rightarrow> (bool \<times> World) run" where
  "AcquireSession e sessionID w =
     bnd (FindSession sessionID w) (\<lambda>i.
     let w = IO_Increment i w in
     if s_IOCount (sess w i) AND 0x80000000 \<noteq> 0 \<or> s_ID (sess w i) \<noteq> sessionID
     then bnd (IO_Decrement e i w) (\<lambda>w. Inr (False, w))
     else Inr (True, w))"

definition IO_Cancel :: "nat \<Rightarrow> World \<Rightarrow> World" where
  "IO_Cancel i w = emit (CancelIoEx (s_Socket (sess w i))) w"

definition Disconnect :: "env \<Rightarrow> 64 word \<Rightarrow> World \<Rightarrow> (bool \<times> World) run" where
  "Disconnect e sessionID w =
     bnd (FindSession sessionID w) (\<lambda>_.
     bnd (AcquireSession e sessionID w) (\<lambda>(ok, w).
       if ok then
         let w = w\<lparr>g_DisconnectCount := g_DisconnectCount w + 1\<rparr> in
         bnd (FindSession sessionID w) (\<lambda>i.
         let w = IO_Cancel i (upd_sess i (\<lambda>s. s\<lparr>s_bIOCancel := True\<rparr>) w) in
         bnd (IO_Decrement e i w) (\<lambda>w. Inr (True, w)))
       else Inr (True, w)))"

definition SetTimeOut :: "env \<Rightarrow> 64 word \<Rightarrow> World \<Rightarrow> World run" where
  "SetTimeOut e sessionID w =
     bnd (AcquireSession_out e sessionID w) (\<lambda>(ok, i, w).
       if ok then
         let w = upd_sess i (\<lambda>s. s\<lparr>s_TimeOut := HeartBeatTimeOut (m_TimeOutOption w)\<rparr>) w in
         IO_Decrement e i w
       else Inr w)"

definition SetTimeOut_at :: "env \<Rightarrow> 64 word \<Rightarrow> 32 word \<Rightarrow> World \<Rightarrow> World run" where
  "SetTimeOut_at e sessionID timeOut w =
     bnd (AcquireSession_out e sessionID w) (\<lambda>(ok, i, w).
       if ok then IO_Decrement e i (upd_sess i (\<lambda>s. s\<lparr>s_TimeOut := timeOut\<rparr>) w)
       else Inr w)"

section \<open>Sending\<close>

definition SendPacket :: "env \<Rightarrow> 64 word \<Rightarrow> objptr \<Rightarrow> World \<Rightarrow> (bool \<times> World) run" where
  "SendPacket e sessionID packet w =
     bnd (AcquireSession_out e sessionID w) (\<lambda>(ok, i, w).
       if \<not> ok then bnd (packet_DecRef packet w) (\<lambda>w. Inr (False, w))
       else
         bnd (on_packet packet (HeaderSettingAndEncoding (e_rand e)) w) (\<lambda>(_, w).
         bnd (packet_at packet w) (\<lambda>d.
         bnd (crash_if (NetPacket_GetPayloadSize d \<le> 0)) (\<lambda>_.
         bnd (LockFreeQ_EnQ spin_fuel None (Some packet) (s_SendQ (sess w i))) (\<lambda>(queued, q).
         bnd (crash_if (\<not> queued)) (\<lambda>_.
         bnd (IO_Decrement e i (upd_sess i (\<lambda>s. s\<lparr>s_SendQ := q\<rparr>) w)) (\<lambda>w. Inr (True, w))))))))"

definition SendUnicast :: "env \<Rightarrow> 64 word \<Rightarrow> objptr \<Rightarrow> World \<Rightarrow> World run" where
  "SendUnicast e sessionID packet w =
     bnd (packet_IncRef packet w) (\<lambda>w.
     bnd (SendPacket e sessionID packet w) (\<lambda>(sent, w).
       if \<not> sent then packet_DecRef packet w
       else packet_DecRef packet (emit (PostQueued sessionID) w)))"

definition SendNDiscon :: "env \<Rightarrow> 64 word \<Rightarrow> objptr \<Rightarrow> World \<Rightarrow> World run" where
  "SendNDiscon e sessionID packet w =
     bnd (SendUnicast e sessionID packet w) (SetTimeOut_at e sessionID 2000)"

definition SpecialErrorCodeCheck :: "int \<Rightarrow> unit run" where
  "SpecialErrorCodeCheck errorCode =
     crash_if (errorCode \<noteq> WSAECONNRESET \<and> errorCode \<noteq> WSAECONNABORTED \<and>
               errorCode \<noteq> WSAENOTSOCK \<and> errorCode \<noteq> WSAEINTR)"

text \<open>
  Moving the send queue into the packet array.  The loop returns the buffers it set, each a
  packet with the number of bytes to send.
\<close>

primrec SendPost_drain ::
  "nat \<Rightarrow> nat \<Rightarrow> World \<Rightarrow> ((objptr \<times> int) list \<times> World) run" where
  "SendPost_drain 0 i w = Inl Blocked"
| "SendPost_drain (Suc fuel) i w =
     bnd (LockFreeQ_DeQ spin_fuel (s_SendQ (sess w i))) (\<lambda>(r, q).
       let w = upd_sess i (\<lambda>s. s\<lparr>s_SendQ := q\<rparr>) w in
       case r of
         None \<Rightarrow> Inr ([], w)
       | Some None \<Rightarrow> Inl Crash
       | Some (Some deQPacket) \<Rightarrow>
           bnd (crash_if (s_DeQArraySize (sess w i) > DEQ_PACKET_ARRAY_SIZE - 1)) (\<lambda>_.
           bnd (packet_at deQPacket w) (\<lambda>d.
           bnd (memcpy_out (m_Buffer d) (NetPacket_GetBufferPtr d) sizeof_NetHeader) (\<lambda>hdr.
           let tempHeader = NetHeader_of_bytes hdr in
           bnd (crash_if (h_Code tempHeader \<noteq> dfPACKET_CODE)) (\<lambda>_.
           bnd (crash_if (NetPacket_GetPayloadSize d \<le> 0)) (\<lambda>_.
           let len = NetPacket_GetFullPacketSize d;
               w = upd_sess i (\<lambda>s. s\<lparr>s_SendByte := s_SendByte s + word_of_int len,
                     s_DeQPacketArray := (s_DeQPacketArray s)[s_DeQArraySize s := Some deQPacket],
                     s_DeQArraySize := s_DeQArraySize s + 1\<rparr>) w
           in bnd (SendPost_drain fuel i w) (\<lambda>(bufs, w). Inr ((deQPacket, len) # bufs, w))))))))"

text \<open>The bytes a send buffer names at the time of the call.\<close>

definition wsabuf_bytes :: "World \<Rightarrow> objptr \<times> int \<Rightarrow> byte list" where
  "wsabuf_bytes w b = take (nat (snd b)) (m_Buffer (mp_get (w_NetPacketPool w) (fst b)))"

text \<open>The body of the loop once the send flag is won and the queue is not empty.\<close>

definition SendPost_send :: "env \<Rightarrow> nat \<Rightarrow> World \<Rightarrow> (bool \<times> World) run" where
  "SendPost_send e i w =
     (let w = IO_Increment i w in
      bnd (crash_if (s_IOCount (sess w i) = 0)) (\<lambda>_.
      bnd (crash_if (0 < s_DeQArraySize (sess w i))) (\<lambda>_.
      bnd (SendPost_drain (Suc (nat (LockFreeQ_GetQCount (s_SendQ (sess w i))))) i w) (\<lambda>(bufs, w).
      bnd (crash_if (s_SendByte (sess w i) = 0)) (\<lambda>_.
      bnd (crash_if (s_IOCount (sess w i) = 0)) (\<lambda>_.
      if s_bIOCancel (sess w i) then
        bnd (IO_Decrement e i w) (\<lambda>w.
        bnd (IO_Decrement e i w) (\<lambda>w. Inr (False, w)))
      else
        let w = emit (WSASend (s_Socket (sess w i)) (map (wsabuf_bytes w) bufs)) w in
        bnd (crash_if (s_IOCount (sess w i) = 0)) (\<lambda>_.
        bnd (case e_WSASend e of
               WsaOk \<Rightarrow> Inr w
             | WsaError errorCode \<Rightarrow>
                 (if errorCode = WSA_IO_PENDING then Inr w
                  else let w = upd_sess i (\<lambda>s. s\<lparr>s_IOFail := True\<rparr>) w in
                    bnd (SpecialErrorCodeCheck errorCode) (\<lambda>_. IO_Decrement e i w)))
          (\<lambda>w. bnd (IO_Decrement e i w) (\<lambda>w. Inr (True, w))))))))))"

text \<open>
  \<open>None\<close> is leaving the loop without a return.  After resetting the flag on an empty queue the
  loop tests the queue again, so a message that came in between is not forgotten.
\<close>

primrec SendPost_loop :: "nat \<Rightarrow> env \<Rightarrow> nat \<Rightarrow> World \<Rightarrow> (bool option \<times> World) run" where
  "SendPost_loop 0 e i w = Inl Blocked"
| "SendPost_loop (Suc fuel) e i w =
     (let flag = s_SendFlag (sess w i);
          w = upd_sess i (\<lambda>s. s\<lparr>s_SendFlag := 1\<rparr>) w
      in if flag = 0 then
           (if LockFreeQ_GetQCount (s_SendQ (sess w i)) \<le> 0 then
              let w = upd_sess i (\<lambda>s. s\<lparr>s_SendFlag := 0\<rparr>) w in
              if 0 < LockFreeQ_GetQCount (s_SendQ (sess w i)) then SendPost_loop fuel e i w else Inr (None, w)
            else bnd (SendPost_send e i w) (\<lambda>(r, w). Inr (Some r, w)))
         else Inr (None, w))"

definition SendPost :: "env \<Rightarrow> 64 word \<Rightarrow> World \<Rightarrow> (bool \<times> World) run" where
  "SendPost e sessionID w =
     bnd (AcquireSession_out e sessionID w) (\<lambda>(ok, i, w).
       if \<not> ok then Inr (False, w)
       else
         bnd (SendPost_loop spin_fuel e i w) (\<lambda>(r, w).
           case r of
             Some b \<Rightarrow> Inr (b, w)
           | None \<Rightarrow> bnd (IO_Decrement e i w) (\<lambda>w. Inr (True, w))))"

section \<open>Receiving\<close>

definition RecvPost :: "env \<Rightarrow> nat \<Rightarrow> World \<Rightarrow> (bool \<times> World) run" where
  "RecvPost e i w =
     (if GetFreeSize (s_RecvRingQ (sess w i)) \<le> 0 then
        bnd (Disconnect e (s_ID (sess w i)) w) (\<lambda>(_, w). Inr (False, w))
      else
        bnd (crash_if (s_IOCount (sess w i) = 0)) (\<lambda>_.
        let directData = GetDirectEnQData (s_RecvRingQ (sess w i));
            seg = (\<lambda>ptr len. case ptr of None \<Rightarrow> [] | Some off \<Rightarrow> [(off, len)]);
            wsaRecvBuf = seg (bufferPtr1 directData) (Direct1 directData) @
              (if Direct2 directData \<noteq> 0 then seg (bufferPtr2 directData) (Direct2 directData) else [])
        in bnd (crash_if (Direct1 directData < 0 \<or> Direct2 directData < 0 \<or>
                          Direct1 directData > RING_BUFFER_SIZE \<or> Direct2 directData > RING_BUFFER_SIZE)) (\<lambda>_.
           bnd (crash_if (s_IOCount (sess w i) = 0)) (\<lambda>_.
           let w = IO_Increment i w in
           bnd (crash_if (s_IOCount (sess w i) = 0)) (\<lambda>_.
           if s_bIOCancel (sess w i) then
             bnd (IO_Decrement e i w) (\<lambda>w. Inr (False, w))
           else
             let w = emit (WSARecv (s_Socket (sess w i)) wsaRecvBuf) w in
             bnd (crash_if (s_IOCount (sess w i) = 0)) (\<lambda>_.
             case e_WSARecv e of
               WsaOk \<Rightarrow> Inr (True, w)
             | WsaError errorCode \<Rightarrow>
                 (if errorCode = WSA_IO_PENDING then Inr (True, w)
                  else
                    let w = upd_sess i (\<lambda>s. s\<lparr>s_IOFail := True, s_IOCount := s_IOCount s - 1\<rparr>) w;
                        tempIOCount = s_IOCount (sess w i)
                    in bnd (SpecialErrorCodeCheck errorCode) (\<lambda>_.
                       bnd (crash_if (tempIOCount = 0 \<or> sint tempIOCount < 0)) (\<lambda>_.
                         Inr (False, w))))))))))"

text \<open>
  One turn of the loop that cuts packets from the ring: leave the loop, return from the
  handler after a disconnect, or go on.
\<close>

datatype recv_turn = LeaveLoop | ReturnFalse | NextPacket

definition RecvPacket_fail :: "env \<Rightarrow> nat \<Rightarrow> World \<Rightarrow> (recv_turn \<times> World) run" where
  "RecvPacket_fail e i w =
     bnd (Disconnect e (s_ID (sess w i)) w) (\<lambda>(_, w). Inr (ReturnFalse, w))"

text \<open>
  The payload of one packet: \<open>Dequeue\<close> copies as many bytes as the header says into the packet's
  buffer, whatever its size.
\<close>

definition RecvPacket_payload :: "env \<Rightarrow> nat \<Rightarrow> NetHeader \<Rightarrow> World \<Rightarrow> (recv_turn \<times> World) run" where
  "RecvPacket_payload e i header w =
     bnd (packet_Alloc e w) (\<lambda>(packet, w).
     let w = w\<lparr>g_AllocMemoryCount := g_AllocMemoryCount w + 1\<rparr> in
     bnd (packet_at packet w) (\<lambda>d.
     bnd (Dequeue (s_RecvRingQ (sess w i)) (m_Buffer d) (NetPacket_GetPayloadPtr d) (uint (h_Len header)))
       (\<lambda>(deQRtn, buf, q).
     let w = upd_sess i (\<lambda>s. s\<lparr>s_RecvRingQ := q\<rparr>) w in
     bnd (crash_if (deQRtn \<noteq> uint (h_Len header))) (\<lambda>_.
     bnd (on_packet packet (\<lambda>d. Inr (NetPacket_MoveWritePos deQRtn (d\<lparr>m_Buffer := buf\<rparr>))) w) (\<lambda>(_, w).
     bnd (packet_at packet w) (\<lambda>d.
     bnd (crash_if (NetPacket_GetPayloadSize d = 0)) (\<lambda>_.
     bnd (on_packet packet (\<lambda>d. bnd (Decoding header d) (\<lambda>(ok, _, d). Inr (ok, d))) w) (\<lambda>(ok, w).
       if \<not> ok then
         bnd (packet_Free packet (w\<lparr>g_FreeMemoryCount := g_FreeMemoryCount w + 1\<rparr>)) (RecvPacket_fail e i)
       else
         bnd (OnRecv e (s_ID (sess w i)) packet (w\<lparr>m_RecvTPS := m_RecvTPS w + 1\<rparr>)) (\<lambda>w.
           Inr (NextPacket, w))))))))))"

text \<open>
  The bytes behind the header are compared with its length as \<^verbatim>\<open>size_t\<close>, unsigned and 64 bits wide.
\<close>

definition RecvPacket_turn :: "env \<Rightarrow> nat \<Rightarrow> World \<Rightarrow> (recv_turn \<times> World) run" where
  "RecvPacket_turn e i w =
     (let q = s_RecvRingQ (sess w i); usedSize = GetUsedSize q in
      if lt_sizeof usedSize sizeof_NetHeader then Inr (LeaveLoop, w)
      else
        bnd (Peek q (replicate (nat sizeof_NetHeader) 0) 0 sizeof_NetHeader) (\<lambda>(_, bytes).
        let header = NetHeader_of_bytes bytes in
        if h_Code header \<noteq> dfPACKET_CODE then RecvPacket_fail e i w
        else if h_Len header = 0 then RecvPacket_fail e i w
        else if (word_of_int usedSize - word_of_int sizeof_NetHeader :: 64 word) < ucast (h_Len header) then
          (if uint (h_Len header) > GetFreeSize q then RecvPacket_fail e i w
           else Inr (LeaveLoop, w))
        else
          RecvPacket_payload e i header
            (upd_sess i (\<lambda>s. s\<lparr>s_RecvRingQ := MoveFront sizeof_NetHeader (s_RecvRingQ s)\<rparr>) w)))"

text \<open>Every turn that goes on takes bytes from the ring, so the number of bytes bounds the turns.\<close>

primrec RecvPacket_loop :: "nat \<Rightarrow> env \<Rightarrow> nat \<Rightarrow> World \<Rightarrow> (bool \<times> World) run" where
  "RecvPacket_loop 0 e i w = Inl Blocked"
| "RecvPacket_loop (Suc fuel) e i w =
     bnd (RecvPacket_turn e i w) (\<lambda>(t, w).
       case t of
         LeaveLoop \<Rightarrow> Inr (True, w)
       | ReturnFalse \<Rightarrow> Inr (False, w)
       | NextPacket \<Rightarrow> RecvPacket_loop fuel e i w)"

definition RecvPacket :: "env \<Rightarrow> nat \<Rightarrow> 32 word \<Rightarrow> World \<Rightarrow> (bool \<times> World) run" where
  "RecvPacket e i transferByte w =
     (if sint transferByte > GetFreeSize (s_RecvRingQ (sess w i)) then
        bnd (Disconnect e (s_ID (sess w i)) w) (\<lambda>(_, w). Inr (False, w))
      else
        let w = upd_sess i (\<lambda>s. s\<lparr>s_RecvRingQ := MoveRear (sint transferByte) (s_RecvRingQ s),
                                s_LastRecvTime := e_time e\<rparr>) w
        in bnd (RecvPacket_loop (Suc (nat (GetUsedSize (s_RecvRingQ (sess w i))))) e i w) (\<lambda>(go, w).
             if go then bnd (RecvPost e i w) (\<lambda>(_, w). Inr (True, w)) else Inr (False, w)))"

section \<open>Accepting\<close>

text \<open>
  \<open>AcceptUser\<close> waits for a free slot; with nobody to release one it waits forever.
\<close>

definition AcceptUser_init :: "env \<Rightarrow> nat \<Rightarrow> 64 word \<Rightarrow> string \<Rightarrow> 16 word \<Rightarrow> World \<Rightarrow> World run" where
  "AcceptUser_init e i socket ip port w =
     (let index = of_nat i;
          w = upd_sess i (\<lambda>s. s\<lparr>s_Index := index, s_Socket := socket\<rparr>) w;
          (newID, w) = GetSessionID index w;
          w = upd_sess i (\<lambda>s. s\<lparr>s_ID := newID, s_IOCount := s_IOCount s AND 0x7fffffff\<rparr>) w
      in if 17 \<le> length ip then Inl OutOfBounds
         else
           let w = upd_sess i (\<lambda>s. s\<lparr>s_IP := ip, s_Port := port, s_USED := True\<rparr>) w;
               w = (if OptionOn (m_TimeOutOption w)
                    then upd_sess i (\<lambda>s. s\<lparr>s_TimeOut := LoginTimeOut (m_TimeOutOption w)\<rparr>) w else w);
               w = upd_sess i (\<lambda>s. s\<lparr>s_LastRecvTime := e_time e\<rparr>) w;
               tempOrderIndex = unat (s_OrderIndex (sess w i) mod 3)
           in Inr (upd_sess i (\<lambda>s. s\<lparr>s_OrderIndex := s_OrderIndex s + 1,
                     s_LastSessionID := (s_LastSessionID s)
                       [tempOrderIndex := (s_SessionOrder s, s_ID s, socket)],
                     s_SessionOrder := s_SessionOrder s + 1\<rparr>) w))"

definition AcceptUser_post :: "env \<Rightarrow> nat \<Rightarrow> World \<Rightarrow> World run" where
  "AcceptUser_post e i w =
     (let q = s_RecvRingQ (sess w i);
          tempBuffer = (case GetRearBufferPtr q of
                          None \<Rightarrow> [] | Some off \<Rightarrow> [(off, GetDirectEnqueueSize q)])
      in bnd (crash_if (GetDirectEnqueueSize q = 0)) (\<lambda>_.
         let w = emit (WSARecv (s_Socket (sess w i)) tempBuffer) w in
         case e_WSARecv e of
           WsaOk \<Rightarrow> Inr w
         | WsaError errorCode \<Rightarrow>
             (if errorCode = WSA_IO_PENDING then Inr w
              else
                let w = upd_sess i (\<lambda>s. s\<lparr>s_IOFail := True, s_IOCount := s_IOCount s - 1\<rparr>) w in
                bnd (SpecialErrorCodeCheck errorCode) (\<lambda>_.
                  if s_IOCount (sess w i) = 0 then ReleaseSession e i w else Inr w))))"

definition AcceptUser :: "env \<Rightarrow> 64 word \<Rightarrow> string \<Rightarrow> 16 word \<Rightarrow> World \<Rightarrow> World run" where
  "AcceptUser e socket ip port w =
     (case m_IndexStack w of
        None \<Rightarrow> Inl NullDeref
      | Some st \<Rightarrow>
          bnd (LockFreeStack_Pop st) (\<lambda>(r, st).
          let w = w\<lparr>m_IndexStack := Some st\<rparr> in
          case r of
            None \<Rightarrow> Inl Blocked
          | Some index \<Rightarrow>
              let i = unat index in
              if length (m_SessionArray w) \<le> i then Inl OutOfBounds
              else
                bnd (AcceptUser_init e i socket ip port w) (\<lambda>w.
                bnd (crash_if (e_IoIncomplete e)) (\<lambda>_.
                bnd (crash_if (m_SessionID w > - 1 - 1)) (\<lambda>_.
                if \<not> e_IocpAttach e then
                  Inr (upd_sess i (\<lambda>s. s\<lparr>s_USED := False\<rparr>) w)
                else
                  let w = w\<lparr>m_SessionCount := m_SessionCount w + 1\<rparr> in
                  bnd (OnClientJoin e (s_ID (sess w i)) w) (AcceptUser_post e i))))))"

section \<open>The worker threads\<close>

definition WorkerThread_zero :: "nat \<Rightarrow> completion \<Rightarrow> World \<Rightarrow> World run" where
  "WorkerThread_zero i c w =
     (case q_Overlap c of
        RecvOL \<Rightarrow> bnd (crash_if (q_gqcsRtn c)) (\<lambda>_.
                  Inr (upd_sess i (\<lambda>s. s\<lparr>s_TransferZero := 5\<rparr>) w))
      | SendOL \<Rightarrow> bnd (crash_if (q_gqcsRtn c)) (\<lambda>_.
                  Inr (upd_sess i (\<lambda>s. s\<lparr>s_TransferZero := 6\<rparr>) w))
      | _ \<Rightarrow> Inr w)"

definition WorkerThread_send :: "env \<Rightarrow> nat \<Rightarrow> 32 word \<Rightarrow> World \<Rightarrow> World run" where
  "WorkerThread_send e i transferByte w =
     bnd (crash_if (s_IOCount (sess w i) = 0)) (\<lambda>_.
     bnd (crash_if (s_SendByte (sess w i) \<noteq> transferByte)) (\<lambda>_.
     bnd (DeQPacket i w) (\<lambda>w.
     let w = upd_sess i (\<lambda>s. s\<lparr>s_SendByte := 0, s_SendFlag := 0\<rparr>) w in
     bnd (SendPost e (s_ID (sess w i)) w) (\<lambda>(_, w).
       Inr (w\<lparr>m_NetworkTraffic := m_NetworkTraffic w + (transferByte + 40)\<rparr>)))))"

definition WorkerThread_io :: "env \<Rightarrow> nat \<Rightarrow> completion \<Rightarrow> World \<Rightarrow> World run" where
  "WorkerThread_io e i c w =
     (if q_transferByte c = 0 then WorkerThread_zero i c w
      else case q_Overlap c of
             RecvOL \<Rightarrow> bnd (crash_if (s_IOCount (sess w i) = 0)) (\<lambda>_.
                       bnd (RecvPacket e i (q_transferByte c) w) (\<lambda>(_, w). Inr w))
           | SendOL \<Rightarrow> WorkerThread_send e i (q_transferByte c) w
           | _ \<Rightarrow> Inl Crash)"

text \<open>One turn; the answer is whether the thread goes on.\<close>

definition WorkerThread_turn :: "env \<Rightarrow> completion \<Rightarrow> World \<Rightarrow> (bool \<times> World) run" where
  "WorkerThread_turn e c w =
     bnd (if q_gqcsRtn c then Inr w
          else case q_Session c of
                 None \<Rightarrow> Inl NullDeref
               | Some i \<Rightarrow> Inr (upd_sess i (\<lambda>s. s\<lparr>s_ErrorCode := q_errorCode c\<rparr>) w)) (\<lambda>w.
     if q_Overlap c = NullOL \<and> q_Session c = None \<and> q_transferByte c = 0 then Inr (False, w)
     else if q_transferByte c = - 1 \<and> q_Session c = None then
       (case q_Overlap c of
          KeyOL sessionID \<Rightarrow>
            bnd (FindSession sessionID w) (\<lambda>_.
            bnd (SendPost e sessionID w) (\<lambda>(_, w). Inr (True, w)))
        | _ \<Rightarrow> bnd (FindSession 0 w) (\<lambda>_. bnd (SendPost e 0 w) (\<lambda>(_, w). Inr (True, w))))
     else
       (case q_Session c of
          None \<Rightarrow> Inl Crash
        | Some i \<Rightarrow>
            bnd (crash_if (s_IOCount (sess w i) = 0)) (\<lambda>_.
            let w = upd_sess i (\<lambda>s. s\<lparr>s_GQCSRtn := q_gqcsRtn c\<rparr>) w in
            bnd (WorkerThread_io e i c w) (\<lambda>w.
            bnd (crash_if (s_IOCount (sess w i) = 0)) (\<lambda>_.
            bnd (IO_Decrement e i w) (\<lambda>w. Inr (True, w)))))))"

primrec WorkerThread :: "(env \<times> completion) list \<Rightarrow> World \<Rightarrow> World run" where
  "WorkerThread [] w = Inr w"
| "WorkerThread (c # cs) w =
     bnd (WorkerThread_turn (fst c) (snd c) w) (\<lambda>(go, w). if go then WorkerThread cs w else Inr w)"

section \<open>The monitor thread\<close>

text \<open>One turn after a wait that timed out; the sessions are looked at in order.\<close>

primrec Monitor_SendQMemory :: "nat list \<Rightarrow> World \<Rightarrow> World run" where
  "Monitor_SendQMemory [] w = Inr w"
| "Monitor_SendQMemory (i # is) w =
     (if length (m_SessionArray w) \<le> i then Inl OutOfBounds
      else Monitor_SendQMemory is (w\<lparr>m_SendQMemory := m_SendQMemory w +
             word_of_int (LockFreeQ_GetMemoryPoolAllocCount (s_SendQ (sess w i)))\<rparr>))"

primrec Monitor_TimeOut :: "env \<Rightarrow> nat list \<Rightarrow> World \<Rightarrow> World run" where
  "Monitor_TimeOut e [] w = Inr w"
| "Monitor_TimeOut e (i # is) w =
     (if length (m_SessionArray w) \<le> i then Inl OutOfBounds
      else if \<not> s_USED (sess w i) then Monitor_TimeOut e is w
      else
        bnd (AcquireSession e (s_ID (sess w i)) w) (\<lambda>(ok, w).
          if \<not> ok then Monitor_TimeOut e is w
          else
            bnd (if e_time e - s_LastRecvTime (sess w i) > s_TimeOut (sess w i)
                 then OnTimeOut e (s_ID (sess w i)) w else Inr w) (\<lambda>w.
            bnd (IO_Decrement e i w) (Monitor_TimeOut e is))))"

definition MonitorThread_turn :: "env \<Rightarrow> World \<Rightarrow> World run" where
  "MonitorThread_turn e w =
     bnd (Monitor_SendQMemory [0..<unat (m_MaxUserCount w)] (w\<lparr>m_SendQMemory := 0\<rparr>)) (\<lambda>w.
     bnd (if OptionOn (m_TimeOutOption w) then Monitor_TimeOut e [0..<unat (m_MaxUserCount w)] w
          else Inr w) (\<lambda>w.
       Inr (w\<lparr>m_RecvTPS_To_Main := m_RecvTPS w, m_SendTPS_To_Main := m_SendTPS w,
              m_AcceptTPS_To_Main := m_AcceptTPS w, m_NetworkTraffic_To_Main := m_NetworkTraffic w,
              m_RecvTPS := 0, m_SendTPS := 0, m_AcceptTPS := 0, m_NetworkTraffic := 0\<rparr>)))"

section \<open>Starting and stopping\<close>

record SocketOption =
  TCPNoDelay :: bool
  SendBufferZero :: bool
  Linger :: bool
  KeepAlive :: bool

definition SocketOption_new :: SocketOption where
  "SocketOption_new = \<lparr>TCPNoDelay = True, SendBufferZero = True, Linger = True, KeepAlive = False\<rparr>"

text \<open>Which of the set-up calls succeed, and the options set on the listening socket.\<close>

record net_env =
  ne_WSAStartup :: bool
  ne_socket :: bool
  ne_bind :: bool
  ne_listen :: bool

datatype sock_call = SndBufZero | LingerOn | NoDelay | KeepAliveVals | Bind "string option" "16 word"

definition NetworkInit :: "net_env \<Rightarrow> string option \<Rightarrow> 16 word \<Rightarrow> SocketOption \<Rightarrow> bool \<times> sock_call list" where
  "NetworkInit ne ip port opt =
     (if \<not> ne_WSAStartup ne then (False, [])
      else if \<not> ne_socket ne then (False, [])
      else
        let calls = (if SendBufferZero opt then [SndBufZero] else []) @
                    (if Linger opt then [LingerOn] else []) @
                    (if TCPNoDelay opt then [NoDelay] else []) @
                    (if KeepAlive opt then [KeepAliveVals] else []) @
                    [Bind ip port]
        in if \<not> ne_bind ne then (False, calls) else (True, calls))"

definition ThreadInit :: "32 word \<Rightarrow> World \<Rightarrow> World" where
  "ThreadInit workerThreadCount w = w\<lparr>m_WorkerThreadCount := workerThreadCount\<rparr>"

text \<open>\<open>raw k\<close> is what the memory of the \<open>k\<close>-th session reads as before its constructor runs.\<close>

primrec new_sessions :: "(nat \<Rightarrow> Session) \<Rightarrow> nat list \<Rightarrow> Session list run" where
  "new_sessions raw [] = Inr []"
| "new_sessions raw (k # ks) =
     bnd (Session_new (raw k) 1) (\<lambda>s. bnd (new_sessions raw ks) (\<lambda>ss. Inr (s # ss)))"

primrec push_indices :: "nat list \<Rightarrow> 64 word LockFreeStack \<Rightarrow> 64 word LockFreeStack run" where
  "push_indices [] st = Inr st"
| "push_indices (i # is) st = bnd (LockFreeStack_Push 0 (of_nat i) st) (push_indices is)"

text \<open>A failing \<open>NetworkInit\<close> is logged and otherwise ignored.\<close>

definition ServerStart ::
  "net_env \<Rightarrow> (nat \<Rightarrow> Session) \<Rightarrow> string option \<Rightarrow> 16 word \<Rightarrow> SocketOption \<Rightarrow> 32 word \<Rightarrow> 32 word \<Rightarrow> TimeOutOption
   \<Rightarrow> World \<Rightarrow> (bool \<times> sock_call list \<times> World) run" where
  "ServerStart ne raw ip port opt workerThreadCount maxUserCount timeOutOption w =
     (let (_, calls) = NetworkInit ne ip port opt in
      bnd (new_sessions raw [0..<unat maxUserCount]) (\<lambda>sessions.
      let w = w\<lparr>m_TimeOutOption := timeOutOption, m_SessionArray := sessions,
                m_MaxUserCount := maxUserCount\<rparr>
      in bnd (push_indices [0..<unat maxUserCount] (LockFreeStack_new 1)) (\<lambda>st.
         let w = ThreadInit workerThreadCount (w\<lparr>m_IndexStack := Some st\<rparr>) in
         Inr (ne_listen ne, calls, w))))"

text \<open>Waiting until no session is in use ends only by the work of other threads.\<close>

definition DisconnectAllUser :: "World \<Rightarrow> (bool \<times> World) run" where
  "DisconnectAllUser w =
     (let w = fold (\<lambda>i w. if s_USED (sess w i) then ReleaseSocket i w else w)
                [0..<length (m_SessionArray w)] w
      in if list_ex s_USED (m_SessionArray w) then Inl Blocked
         else Inr (True, w\<lparr>m_SessionArray := []\<rparr>))"

definition ServerStop :: "World \<Rightarrow> World run" where
  "ServerStop w =
     bnd (DisconnectAllUser w) (\<lambda>(_, w).
     let w = fold (\<lambda>_. emit PostExit) [0..<unat (m_WorkerThreadCount w)] w in
     bnd (case m_IndexStack w of
            None \<Rightarrow> Inr w
          | Some st \<Rightarrow> bnd (LockFreeStack_drain (nat (LockFreeStack_GetStackCount st)) (ls_TopPtr st) (ls_MemoryPool st)) (\<lambda>_. Inr w))
       (\<lambda>w. Inr (w\<lparr>m_IndexStack := None, m_AcceptCount := 0, m_AcceptTPS := 0, m_RecvTPS := 0,
                m_SendTPS := 0, m_SendQMemory := 0, m_AcceptTPS_To_Main := 0,
                m_SendTPS_To_Main := 0, m_RecvTPS_To_Main := 0\<rparr>)))"

section \<open>Counters\<close>

definition GetAcceptCount :: "World \<Rightarrow> 64 word" where
  "GetAcceptCount w = m_AcceptCount w"

definition GetAcceptTPS :: "World \<Rightarrow> 32 word" where
  "GetAcceptTPS w = m_AcceptTPS_To_Main w"

definition GetSendTPS :: "World \<Rightarrow> 32 word" where
  "GetSendTPS w = m_SendTPS_To_Main w"

definition GetRecvTPS :: "World \<Rightarrow> 32 word" where
  "GetRecvTPS w = m_RecvTPS_To_Main w"

definition GetNetworkTraffic :: "World \<Rightarrow> 32 word" where
  "GetNetworkTraffic w = m_NetworkTraffic_To_Main w"

definition GetSessionCount :: "World \<Rightarrow> 32 word" where
  "GetSessionCount w = m_SessionCount w"

definition GetMemoryAllocCount :: "World \<Rightarrow> int" where
  "GetMemoryAllocCount w = NetPacket_GetMemoryPoolAllocCount (w_NetPacketPool w)"

definition GetSendQMeomryCount :: "World \<Rightarrow> 32 word" where
  "GetSendQMeomryCount w = m_SendQMemory w"

definition GetLockFreeStackMemoryCount :: "World \<Rightarrow> int" where
  "GetLockFreeStackMemoryCount w =
     (case m_IndexStack w of None \<Rightarrow> 0 | Some st \<Rightarrow> LockFreeStack_GetMemoryAllocCount st)"

end
