(* ===== verification/PacketProcess.thy ===== *)
theory PacketProcess
  imports Cipher
begin

text \<open>
  The message types of CommonProtocol.h that the chat server knows and the replies that
  PacketProcess.cpp builds.  A wide character string is its bytes.
\<close>

definition en_PACKET_CS_CHAT_REQ_LOGIN :: "16 word" where "en_PACKET_CS_CHAT_REQ_LOGIN = 1"
definition en_PACKET_CS_CHAT_RES_LOGIN :: "16 word" where "en_PACKET_CS_CHAT_RES_LOGIN = 2"
definition en_PACKET_CS_CHAT_REQ_SECTOR_MOVE :: "16 word" where "en_PACKET_CS_CHAT_REQ_SECTOR_MOVE = 3"
definition en_PACKET_CS_CHAT_RES_SECTOR_MOVE :: "16 word" where "en_PACKET_CS_CHAT_RES_SECTOR_MOVE = 4"
definition en_PACKET_CS_CHAT_REQ_MESSAGE :: "16 word" where "en_PACKET_CS_CHAT_REQ_MESSAGE = 5"
definition en_PACKET_CS_CHAT_RES_MESSAGE :: "16 word" where "en_PACKET_CS_CHAT_RES_MESSAGE = 6"
definition en_PACKET_CS_CHAT_REQ_HEARTBEAT :: "16 word" where "en_PACKET_CS_CHAT_REQ_HEARTBEAT = 7"

lemmas packet_types = en_PACKET_CS_CHAT_REQ_LOGIN_def en_PACKET_CS_CHAT_RES_LOGIN_def
  en_PACKET_CS_CHAT_REQ_SECTOR_MOVE_def en_PACKET_CS_CHAT_RES_SECTOR_MOVE_def
  en_PACKET_CS_CHAT_REQ_MESSAGE_def en_PACKET_CS_CHAT_RES_MESSAGE_def
  en_PACKET_CS_CHAT_REQ_HEARTBEAT_def

definition MakePacket_RES_LOGIN :: "16 word \<Rightarrow> 8 word \<Rightarrow> 64 word \<Rightarrow> NetPacket \<Rightarrow> NetPacket run" where
  "MakePacket_RES_LOGIN type status accountNo p =
     bnd (NetPacket_put_WORD type p) (\<lambda>p.
     bnd (NetPacket_put_BYTE status p) (NetPacket_put_int64 accountNo))"

definition MakePacket_RES_SECTOR_MOVE ::
  "16 word \<Rightarrow> 64 word \<Rightarrow> 16 word \<Rightarrow> 16 word \<Rightarrow> NetPacket \<Rightarrow> NetPacket run" where
  "MakePacket_RES_SECTOR_MOVE type accountNo sectorX sectorY p =
     bnd (NetPacket_put_WORD type p) (\<lambda>p.
     bnd (NetPacket_put_int64 accountNo p) (\<lambda>p.
     bnd (NetPacket_put_WORD sectorX p) (NetPacket_put_WORD sectorY)))"

text \<open>The length of the message counts bytes in the request and wide characters here.\<close>

definition MakePacket_RES_MESSAGE ::
  "16 word \<Rightarrow> 64 word \<Rightarrow> byte list \<Rightarrow> byte list \<Rightarrow> 16 word \<Rightarrow> byte list \<Rightarrow> NetPacket \<Rightarrow> NetPacket run" where
  "MakePacket_RES_MESSAGE type accountNo cid nickName messageLen message p =
     bnd (NetPacket_put_WORD type p) (\<lambda>p.
     bnd (NetPacket_put_int64 accountNo p) (\<lambda>p.
     bnd (NetPacket_PutData cid (20 * 2) p) (\<lambda>(_, p).
     bnd (NetPacket_PutData nickName (20 * 2) p) (\<lambda>(_, p).
     bnd (NetPacket_put_WORD messageLen p) (\<lambda>p.
     bnd (NetPacket_PutData message (uint messageLen * 2) p) (\<lambda>(_, p). Inr p))))))"

end
