(* ===== verification/ChatServer.thy ===== *)
theory ChatServer
  imports NetServer PacketProcess
begin

text \<open>
  \<^verbatim>\<open>MyChattingServer\<close> of ChattingServer.cpp: one update thread takes the jobs that the network
  threads queued and keeps the clients, by session identifier and by sector of a 50 by 50 map.
\<close>

section \<open>Clients\<close>

definition dfSECTOR_X_MAX :: "16 word" where "dfSECTOR_X_MAX = 50"
definition dfSECTOR_Y_MAX :: "16 word" where "dfSECTOR_Y_MAX = 50"

text \<open>A new server; the address lists are those of the constructor.\<close>

definition MyChattingServer_new :: "NetPacketPool \<Rightarrow> World run" where
  "MyChattingServer_new packets =
     bnd (LockFreeQ_new None 1 0x7fffffff) (\<lambda>threadQ.
       Inr \<lparr>w_NetPacketPool = packets, w_io = [], m_IndexStack = None,
            m_TimeOutOption = \<lparr>OptionOn = False, LoginTimeOut = 0, HeartBeatTimeOut = 0\<rparr>,
            m_SessionID = 0, m_MaxUserCount = 0, m_SessionCount = 0, m_SessionArray = [],
            m_WorkerThreadCount = 0, m_NetworkTraffic = 0, m_RecvTPS = 0, m_SendTPS = 0,
            m_AcceptTPS = 0, m_RecvTPS_To_Main = 0, m_SendTPS_To_Main = 0,
            m_AcceptTPS_To_Main = 0, m_NetworkTraffic_To_Main = 0, m_SendQMemory = 0,
            m_AcceptCount = 0, m_JobPool = MemoryPool_new 1 500 False, m_ThreadQ = threadQ,
            m_ClientPool = MemoryPool_new 1 500 True, m_ClientMap = (\<lambda>_. None),
            m_Sector = (\<lambda>_ _. []),
            m_WhiteIPList = [''127.0.0.1'', ''10.0.1.2'', ''10.0.2.2''],
            m_UpdateTPS = 0, m_WakeTime = 0, g_FreeMemoryCount = 0, g_AllocMemoryCount = 0,
            g_OnClientLeaveCall = 0, g_DisconnectCount = 0, g_TCPTimeoutReleaseCnt = 0\<rparr>)"

definition client_at :: "objptr \<Rightarrow> World \<Rightarrow> Client run" where
  "client_at c w =
     (case mp_object (m_ClientPool w) c of
        None \<Rightarrow> Inl OutOfBounds
      | Some obj \<Rightarrow> Inr (mp_get (m_ClientPool w) c))"

definition upd_client :: "objptr \<Rightarrow> (Client \<Rightarrow> Client) \<Rightarrow> World \<Rightarrow> World" where
  "upd_client c f w =
     w\<lparr>m_ClientPool := mp_put c (f (mp_get (m_ClientPool w) c)) (m_ClientPool w)\<rparr>"

definition FindClient :: "64 word \<Rightarrow> World \<Rightarrow> objptr option" where
  "FindClient sessionID w = m_ClientMap w sessionID"

text \<open>\<open>insert\<close> of an unordered map keeps an entry that is there.\<close>

definition CreateNewUser :: "env \<Rightarrow> 64 word \<Rightarrow> World \<Rightarrow> World run" where
  "CreateNewUser e sessionID w =
     bnd (FindSession sessionID w) (\<lambda>_.
     bnd (MemoryPool_Alloc Client_new Client_new (e_tid e) (m_ClientPool w)) (\<lambda>(newClient, pool).
     let w = upd_client newClient (\<lambda>c. c\<lparr>c_SessionID := sessionID\<rparr>) (w\<lparr>m_ClientPool := pool\<rparr>) in
     Inr (w\<lparr>m_ClientMap := (case m_ClientMap w sessionID of
              None \<Rightarrow> (m_ClientMap w)(sessionID \<mapsto> newClient)
            | Some _ \<Rightarrow> m_ClientMap w)\<rparr>)))"

text \<open>A list of the sector array, and the removal of the first entry equal to the client.\<close>

definition sector_erase :: "16 word \<Rightarrow> 16 word \<Rightarrow> objptr \<Rightarrow> World \<Rightarrow> World run" where
  "sector_erase y x c w =
     (if dfSECTOR_Y_MAX \<le> y \<or> dfSECTOR_X_MAX \<le> x then Inl OutOfBounds
      else Inr (w\<lparr>m_Sector := (m_Sector w)(unat y := (m_Sector w (unat y))
                   (unat x := remove1 c (m_Sector w (unat y) (unat x))))\<rparr>))"

definition sector_push :: "16 word \<Rightarrow> 16 word \<Rightarrow> objptr \<Rightarrow> World \<Rightarrow> World run" where
  "sector_push y x c w =
     (if dfSECTOR_Y_MAX \<le> y \<or> dfSECTOR_X_MAX \<le> x then Inl OutOfBounds
      else Inr (w\<lparr>m_Sector := (m_Sector w)(unat y := (m_Sector w (unat y))
                   (unat x := m_Sector w (unat y) (unat x) @ [c]))\<rparr>))"

definition client_Free :: "objptr \<Rightarrow> World \<Rightarrow> World run" where
  "client_Free c w =
     bnd (MemoryPool_Free id c (m_ClientPool w)) (\<lambda>pool. Inr (w\<lparr>m_ClientPool := pool\<rparr>))"

definition DeleteUser :: "64 word \<Rightarrow> World \<Rightarrow> World run" where
  "DeleteUser sessionID w =
     (let w = w\<lparr>g_OnClientLeaveCall := g_OnClientLeaveCall w + 1\<rparr> in
      bnd (FindSession sessionID w) (\<lambda>_.
      case m_ClientMap w sessionID of
        None \<Rightarrow> Inl Crash
      | Some delClient \<Rightarrow>
          let w = w\<lparr>m_ClientMap := (m_ClientMap w)(sessionID := None)\<rparr> in
          bnd (client_at delClient w) (\<lambda>c.
            if c_SectorY c > dfSECTOR_Y_MAX - 1 \<or> c_SectorX c > dfSECTOR_X_MAX - 1
            then client_Free delClient w
            else bnd (sector_erase (c_SectorY c) (c_SectorX c) delClient w) (client_Free delClient))))"

section \<open>Messages\<close>

text \<open>A message that is refused: its packet is freed, whoever sent it is disconnected.\<close>

definition refuse_message :: "env \<Rightarrow> 64 word \<Rightarrow> objptr \<Rightarrow> World \<Rightarrow> World run" where
  "refuse_message e sessionID netPacket w =
     bnd (packet_Free netPacket (w\<lparr>g_FreeMemoryCount := g_FreeMemoryCount w + 1\<rparr>)) (\<lambda>w.
     bnd (Disconnect e sessionID w) (\<lambda>(_, w). Inr w))"

definition build_packet :: "objptr \<Rightarrow> (NetPacket \<Rightarrow> NetPacket run) \<Rightarrow> World \<Rightarrow> World run" where
  "build_packet p f w =
     bnd (on_packet p (\<lambda>d. bnd (f d) (\<lambda>d. Inr ((), d))) w) (\<lambda>(_, w). Inr w)"

definition packet_GetData :: "objptr \<Rightarrow> byte list \<Rightarrow> int \<Rightarrow> World \<Rightarrow> (byte list \<times> World) run" where
  "packet_GetData p dest n w =
     on_packet p (\<lambda>d. bnd (NetPacket_GetData dest n d) (\<lambda>(_, bs, d). Inr (bs, d))) w"

definition REQ_LOGIN_size :: int where
  "REQ_LOGIN_size = 8 + 2 * 20 + 2 * 20 + 1 * 64"

text \<open>The thread the lookup is meant for is named by its function, not by a handle.\<close>

definition PacketProcess_REQ_LOGIN :: "env \<Rightarrow> 64 word \<Rightarrow> objptr \<Rightarrow> World \<Rightarrow> World run" where
  "PacketProcess_REQ_LOGIN e sessionID netPacket w =
     (case FindClient sessionID w of
        None \<Rightarrow> Inl Crash
      | Some client \<Rightarrow>
          bnd (packet_at netPacket w) (\<lambda>d.
          if NetPacket_GetPayloadSize d \<noteq> REQ_LOGIN_size then refuse_message e sessionID netPacket w
          else
            bnd (client_at client w) (\<lambda>c.
            bnd (on_packet netPacket NetPacket_get_int64 w) (\<lambda>(accountNo, w).
            bnd (packet_GetData netPacket (c_ID c) (2 * 20) w) (\<lambda>(cid, w).
            bnd (packet_GetData netPacket (c_NickName c) (2 * 20) w) (\<lambda>(nickName, w).
            bnd (packet_GetData netPacket (c_SessionKey c) 64 w) (\<lambda>(sessionKey, w).
            let w = upd_client client (\<lambda>c. c\<lparr>c_AccoutNo := accountNo, c_ID := cid,
                      c_NickName := nickName, c_SessionKey := sessionKey\<rparr>) w
            in bnd (build_packet netPacket (\<lambda>d. Inr (NetPacket_Clear d)) w) (\<lambda>w.
               bnd (on_packet netPacket (\<lambda>d. Inr (NetPacket_DecrementRefCount d)) w) (\<lambda>(n, w).
               bnd (if n = 0 then packet_Free netPacket w else Inr w) (\<lambda>w.
               let w = emit (QueueUserAPC (FunctionAddress ''RedisAPCThread'')
                         \<lparr>r_SessionID = sessionID, r_AccoutAno = accountNo, r_SessionKey = sessionKey\<rparr>) w
               in bnd (FindSession sessionID w) (\<lambda>i.
                  let w = upd_sess i (\<lambda>s. s\<lparr>s_AccountNo := accountNo\<rparr>) w in
                  bnd (build_packet netPacket
                         (MakePacket_RES_LOGIN en_PACKET_CS_CHAT_RES_LOGIN 1 accountNo) w)
                    (SendUnicast e sessionID netPacket))))))))))))"

definition PacketProcess_REQ_SECTOR_MOVE :: "env \<Rightarrow> 64 word \<Rightarrow> objptr \<Rightarrow> World \<Rightarrow> World run" where
  "PacketProcess_REQ_SECTOR_MOVE e sessionID netPacket w =
     (case FindClient sessionID w of
        None \<Rightarrow> Inl Crash
      | Some client \<Rightarrow>
          bnd (packet_at netPacket w) (\<lambda>d.
          if NetPacket_GetPayloadSize d \<noteq> 8 + 2 + 2 then refuse_message e sessionID netPacket w
          else
            bnd (on_packet netPacket NetPacket_get_int64 w) (\<lambda>(accountNo, w).
            bnd (client_at client w) (\<lambda>c.
            if accountNo \<noteq> c_AccoutNo c then refuse_message e sessionID netPacket w
            else
              bnd (if c_SectorX c \<noteq> 0xffff \<and> c_SectorY c \<noteq> 0xffff
                   then sector_erase (c_SectorY c) (c_SectorX c) client w else Inr w) (\<lambda>w.
              bnd (on_packet netPacket NetPacket_get_WORD w) (\<lambda>(sectorX, w).
              bnd (on_packet netPacket NetPacket_get_WORD w) (\<lambda>(sectorY, w).
              let w = upd_client client (\<lambda>c. c\<lparr>c_SectorX := sectorX, c_SectorY := sectorY\<rparr>) w in
              bnd (crash_if (sectorX > dfSECTOR_X_MAX - 1 \<or> sectorY > dfSECTOR_Y_MAX - 1)) (\<lambda>_.
              bnd (sector_push sectorY sectorX client w) (\<lambda>w.
              bnd (build_packet netPacket (\<lambda>d. Inr (NetPacket_Clear d)) w) (\<lambda>w.
              bnd (build_packet netPacket (MakePacket_RES_SECTOR_MOVE en_PACKET_CS_CHAT_RES_SECTOR_MOVE
                     (c_AccoutNo c) sectorX sectorY) w)
                (SendUnicast e sessionID netPacket)))))))))))"

text \<open>The neighbourhood of a sector, row by row, without what lies outside the map.\<close>

definition around :: "16 word \<Rightarrow> nat list" where
  "around s = map nat (filter (\<lambda>v. 0 \<le> v \<and> v \<le> 49) [uint s - 1, uint s, uint s + 1])"

definition sector_clients :: "World \<Rightarrow> 16 word \<Rightarrow> 16 word \<Rightarrow> objptr list" where
  "sector_clients w sectorX sectorY =
     concat (map (\<lambda>y. concat (map (\<lambda>x. m_Sector w y x) (around sectorX))) (around sectorY))"

primrec SendSector_loop ::
  "env \<Rightarrow> objptr \<Rightarrow> objptr list \<Rightarrow> nat \<Rightarrow> World \<Rightarrow> (nat \<times> World) run" where
  "SendSector_loop e packet [] sendCount w = Inr (sendCount, w)"
| "SendSector_loop e packet (client # cs) sendCount w =
     bnd (client_at client w) (\<lambda>c.
     let tempSessionID = c_SessionID c in
     bnd (packet_IncRef packet w) (\<lambda>w.
     bnd (packet_at packet w) (\<lambda>d.
     bnd (crash_if (NetPacket_GetPayloadSize d \<le> 0)) (\<lambda>_.
     bnd (SendPacket e tempSessionID packet w) (\<lambda>(sent, w).
       if \<not> sent then SendSector_loop e packet cs sendCount w
       else SendSector_loop e packet cs (sendCount + 1) (emit (PostQueued tempSessionID) w))))))"

definition SendSector :: "env \<Rightarrow> 16 word \<Rightarrow> 16 word \<Rightarrow> objptr \<Rightarrow> World \<Rightarrow> World run" where
  "SendSector e sectorX sectorY packet w =
     bnd (crash_if (sectorY > dfSECTOR_Y_MAX - 1)) (\<lambda>_.
     bnd (crash_if (sectorX > dfSECTOR_X_MAX - 1)) (\<lambda>_.
     bnd (SendSector_loop e packet (sector_clients w sectorX sectorY) 0 w) (\<lambda>(sendCount, w).
     bnd (on_packet packet (\<lambda>d. Inr (NetPacket_DecrementRefCount d)) w) (\<lambda>(n, w).
     let bFree = (n = 0) in
     bnd (if bFree then packet_Free packet (w\<lparr>g_FreeMemoryCount := g_FreeMemoryCount w + 1\<rparr>) else Inr w) (\<lambda>w.
     bnd (crash_if (sendCount = 0 \<and> \<not> bFree)) (\<lambda>_. Inr w))))))"

text \<open>\<open>wcscmp\<close> with a single equals sign.\<close>

definition is_discon_message :: "byte list \<Rightarrow> bool" where
  "is_discon_message message \<longleftrightarrow> take 4 message = [0x3d, 0, 0, 0]"

definition PacketProcess_REQ_MESSAGE :: "env \<Rightarrow> 64 word \<Rightarrow> objptr \<Rightarrow> World \<Rightarrow> World run" where
  "PacketProcess_REQ_MESSAGE e sessionID netPacket w =
     (case FindClient sessionID w of
        None \<Rightarrow> Inl Crash
      | Some client \<Rightarrow>
          bnd (packet_at netPacket w) (\<lambda>d.
          if lt_sizeof (NetPacket_GetPayloadSize d) (8 + 2) then refuse_message e sessionID netPacket w
          else
            bnd (on_packet netPacket NetPacket_get_int64 w) (\<lambda>(accountNo, w).
            bnd (client_at client w) (\<lambda>c.
            if accountNo \<noteq> c_AccoutNo c then refuse_message e sessionID netPacket w
            else
              bnd (on_packet netPacket NetPacket_get_WORD w) (\<lambda>(messageLen, w).
              bnd (packet_at netPacket w) (\<lambda>d.
              if NetPacket_GetPayloadSize d < uint messageLen then refuse_message e sessionID netPacket w
              else
                bnd (packet_GetData netPacket (replicate 10000 0) (uint messageLen) w) (\<lambda>(tempMessage, w).
                bnd (if is_discon_message tempMessage then
                       bnd (AcquireSession_out e sessionID w) (\<lambda>(ok, i, w).
                         if ok then IO_Decrement e i (upd_sess i (\<lambda>s. s\<lparr>s_bReserveDiscon := True\<rparr>) w)
                         else Inr w)
                     else Inr w) (\<lambda>w.
                bnd (build_packet netPacket (\<lambda>d. Inr (NetPacket_Clear d)) w) (\<lambda>w.
                bnd (packet_at netPacket w) (\<lambda>d.
                bnd (crash_if (m_bSetHeader d)) (\<lambda>_.
                bnd (build_packet netPacket (MakePacket_RES_MESSAGE en_PACKET_CS_CHAT_RES_MESSAGE
                       (c_AccoutNo c) (c_ID c) (c_NickName c) messageLen tempMessage) w)
                  (SendSector e (c_SectorX c) (c_SectorY c) netPacket))))))))))))"

definition MessageMarshalling :: "env \<Rightarrow> 64 word \<Rightarrow> objptr \<Rightarrow> World \<Rightarrow> World run" where
  "MessageMarshalling e sessionID netPacket w =
     bnd (packet_at netPacket w) (\<lambda>d.
     bnd (crash_if (lt_sizeof (NetPacket_GetPayloadSize d) 2)) (\<lambda>_.
     bnd (on_packet netPacket NetPacket_get_WORD w) (\<lambda>(type, w).
     bnd (FindSession sessionID w) (\<lambda>_.
       if type = en_PACKET_CS_CHAT_REQ_LOGIN then PacketProcess_REQ_LOGIN e sessionID netPacket w
       else if type = en_PACKET_CS_CHAT_REQ_SECTOR_MOVE then PacketProcess_REQ_SECTOR_MOVE e sessionID netPacket w
       else if type = en_PACKET_CS_CHAT_REQ_MESSAGE then PacketProcess_REQ_MESSAGE e sessionID netPacket w
       else if type = en_PACKET_CS_CHAT_REQ_HEARTBEAT then Inl Crash
       else refuse_message e sessionID netPacket w))))"

section \<open>The update thread\<close>

definition UpdateThread_job :: "env \<Rightarrow> objptr \<Rightarrow> World \<Rightarrow> World run" where
  "UpdateThread_job e jobPtr w =
     (case mp_object (m_JobPool w) jobPtr of
        None \<Rightarrow> Inl OutOfBounds
      | Some _ \<Rightarrow>
          let job = mp_get (m_JobPool w) jobPtr; sessionID = j_SessionID job in
          bnd (FindSession sessionID w) (\<lambda>_.
          bnd (case j_TYPE job of
                 ON_CLIENT_JOIN \<Rightarrow> CreateNewUser e sessionID w
               | ON_CLIENT_LEAVE \<Rightarrow> DeleteUser sessionID w
               | ON_MESSAGE \<Rightarrow>
                   (case j_NetPacketPtr job of
                      None \<Rightarrow> Inl NullDeref | Some p \<Rightarrow> MessageMarshalling e sessionID p w)
               | ON_TIMEOUT \<Rightarrow> bnd (Disconnect e sessionID w) (\<lambda>(_, w). Inr w)
               | ON_LOGIN_RESULT \<Rightarrow>
                   (case j_NetPacketPtr job of
                      None \<Rightarrow> Inl NullDeref | Some p \<Rightarrow> SendUnicast e sessionID p w)) (\<lambda>w.
          bnd (MemoryPool_Free id jobPtr (m_JobPool w)) (\<lambda>pool.
            Inr (w\<lparr>m_JobPool := pool, m_UpdateTPS := m_UpdateTPS w + 1\<rparr>)))))"

text \<open>Up to as many jobs as the list has environments, one for each job; it ends early on an empty queue.\<close>

primrec UpdateThread_loop :: "env list \<Rightarrow> World \<Rightarrow> World run" where
  "UpdateThread_loop [] w = Inr w"
| "UpdateThread_loop (e # es) w =
     bnd (LockFreeQ_DeQ spin_fuel (m_ThreadQ w)) (\<lambda>(r, q).
       let w = w\<lparr>m_ThreadQ := q\<rparr> in
       case r of
         None \<Rightarrow> Inr w
       | Some None \<Rightarrow> Inl NullDeref
       | Some (Some jobPtr) \<Rightarrow> bnd (UpdateThread_job e jobPtr w) (UpdateThread_loop es))"

datatype wait_result = WAIT_FAILED | StopEvent | UpdateEvent

text \<open>One turn: the times before and after the wait, what woke the thread; the answer is whether it goes on.\<close>

definition UpdateThread_turn ::
  "32 word \<Rightarrow> 32 word \<Rightarrow> wait_result \<Rightarrow> env list \<Rightarrow> World \<Rightarrow> (bool \<times> World) run" where
  "UpdateThread_turn lastWakeTime now rtnWait es w =
     (let w = w\<lparr>m_WakeTime := now - lastWakeTime\<rparr> in
      case rtnWait of
        WAIT_FAILED \<Rightarrow> Inl Crash
      | StopEvent \<Rightarrow> Inr (False, w)
      | UpdateEvent \<Rightarrow> bnd (UpdateThread_loop es w) (\<lambda>w. Inr (True, w)))"

section \<open>The login callback\<close>

text \<open>
  The stored key comes from the data base, \<^const>\<open>None\<close> where it has none.  It is compared with the
  client's key as a C string: without a zero byte the comparison reads on behind the array.
\<close>

definition c_string :: "byte list \<Rightarrow> byte list run" where
  "c_string bs = (if 0 \<in> set bs then Inr (takeWhile (\<lambda>b. b \<noteq> 0) bs) else Inl OutOfBounds)"

definition APCCompleteCallBack :: "env \<Rightarrow> byte list option \<Rightarrow> RedisJob \<Rightarrow> World \<Rightarrow> World run" where
  "APCCompleteCallBack e result redisJob w =
     bnd (packet_Alloc e w) (\<lambda>(packet, w).
     bnd (case result of
            None \<Rightarrow> Inr 0
          | Some key \<Rightarrow> bnd (c_string (r_SessionKey redisJob)) (\<lambda>k. Inr (if key \<noteq> k then 0 else 1)))
       (\<lambda>status.
     bnd (build_packet packet
            (MakePacket_RES_LOGIN en_PACKET_CS_CHAT_RES_LOGIN status (r_AccoutAno redisJob)) w) (\<lambda>w.
       MakeJobNEnQ e ON_LOGIN_RESULT (r_SessionID redisJob) (Some packet) w)))"

section \<open>Accepting, starting and stopping\<close>

definition OnConnectionRequest :: "string \<Rightarrow> World \<Rightarrow> bool" where
  "OnConnectionRequest ip w \<longleftrightarrow> list_ex (\<lambda>x. x = ip) (m_WhiteIPList w)"

text \<open>One turn of the accept thread; \<^const>\<open>None\<close> is a failed \<^verbatim>\<open>accept\<close>, which ends the thread.\<close>

definition AcceptThread_turn ::
  "env \<Rightarrow> (64 word \<times> string \<times> 16 word) option \<Rightarrow> World \<Rightarrow> (bool \<times> World) run" where
  "AcceptThread_turn e conn w =
     (case conn of
        None \<Rightarrow> Inr (False, w)
      | Some (clientSocket, ip, port) \<Rightarrow>
          let w = w\<lparr>m_AcceptCount := m_AcceptCount w + 1\<rparr> in
          if \<not> OnConnectionRequest ip w then Inr (True, emit (CloseSocket clientSocket) w)
          else bnd (AcceptUser e clientSocket ip port w) (\<lambda>w.
                 Inr (True, w\<lparr>m_AcceptTPS := m_AcceptTPS w + 1\<rparr>)))"

text \<open>The result of \<open>ServerStart\<close> is dropped.\<close>

definition ChattingServerStart ::
  "net_env \<Rightarrow> (nat \<Rightarrow> Session) \<Rightarrow> string option \<Rightarrow> 16 word \<Rightarrow> SocketOption \<Rightarrow> 32 word \<Rightarrow> 32 word \<Rightarrow> TimeOutOption
   \<Rightarrow> World \<Rightarrow> (bool \<times> sock_call list \<times> World) run" where
  "ChattingServerStart ne raw ip port opt workerThreadCount maxUserCount timeOutOption w =
     bnd (ServerStart ne raw ip port opt workerThreadCount maxUserCount timeOutOption w)
       (\<lambda>(_, calls, w). Inr (True, calls, w))"

definition ChattingServerStop :: "World \<Rightarrow> (bool \<times> World) run" where
  "ChattingServerStop w = bnd (ServerStop w) (\<lambda>w. Inr (True, w))"

end
