(* ===== verification/SessionFacts.thy ===== *)
theory SessionFacts
  imports NetServer
begin

text \<open>
  Session identifiers and the reference count of a slot, for one handler at a time: an identifier
  names its slot and is never issued twice; acquiring succeeds exactly on the live session the
  identifier was issued for, and a failed attempt leaves no trace.
\<close>

section \<open>Identifiers\<close>

definition session_id :: "nat \<Rightarrow> nat \<Rightarrow> 64 word" where
  "session_id i n = push_bit 48 (of_nat i) OR of_nat n"

lemma bit_of_nat_word: "bit (of_nat n :: 'a::len word) k \<longleftrightarrow> k < LENGTH('a) \<and> bit n k"
  by (simp add: bit_simps)

lemma bit_small_nat: "(n::nat) < 2 ^ m \<Longrightarrow> m \<le> k \<Longrightarrow> \<not> bit n k"
  by (metis bit_take_bit_iff leD take_bit_nat_eq_self)

lemma session_id_index:
  assumes "n < 2 ^ 48"
  shows "drop_bit 48 (0xffff000000000000 AND session_id i n) = (of_nat i AND mask 16 :: 64 word)"
proof (rule bit_word_eqI)
  fix k assume k: "k < LENGTH(64)"
  have m: "(0xffff000000000000 :: 64 word) = push_bit 48 (mask 16)" by (simp add: mask_eq_exp_minus_1)
  have "\<not> bit n (48 + k)" using assms by (rule bit_small_nat) simp
  then show "bit (drop_bit 48 (0xffff000000000000 AND session_id i n)) k
      = bit (of_nat i AND mask 16 :: 64 word) k"
    unfolding m session_id_def
    by (auto simp: bit_simps add.commute)
qed

lemma session_id_slot:
  assumes "n < 2 ^ 48" "i < 2 ^ 16"
  shows "ucast (drop_bit 48 (0xffff000000000000 AND session_id i n)) = (of_nat i :: 16 word)"
  unfolding session_id_index [OF assms(1)]
  by (rule bit_word_eqI) (auto simp: bit_simps)

lemma session_id_number:
  assumes "n < 2 ^ 48"
  shows "session_id i n AND mask 48 = of_nat n"
proof (rule bit_word_eqI)
  fix k assume "k < LENGTH(64)"
  then show "bit (session_id i n AND mask 48) k = bit (of_nat n :: 64 word) k"
    using bit_small_nat [OF assms, of k] by (cases "k < 48") (auto simp: session_id_def bit_simps)
qed

lemma session_id_inject:
  assumes "n < 2 ^ 48" "m < 2 ^ 48" "i < 2 ^ 16" "j < 2 ^ 16"
  shows "session_id i n = session_id j m \<longleftrightarrow> i = j \<and> n = m"
proof
  assume eq: "session_id i n = session_id j m"
  have "(of_nat i :: 16 word) = of_nat j"
    using session_id_slot [OF assms(1,3)] session_id_slot [OF assms(2,4)] eq by simp
  moreover have "(of_nat n :: 64 word) = of_nat m"
    using session_id_number [OF assms(1), of i] session_id_number [OF assms(2), of j] eq by simp
  ultimately show "i = j \<and> n = m"
    using assms by (simp add: word_of_nat_eq_iff take_bit_nat_eq_self)
qed simp

lemma GetSessionID_eq:
  assumes "unat (m_SessionID w) + 1 < 2 ^ 48"
  shows "GetSessionID (of_nat i) w =
    (session_id i (unat (m_SessionID w) + 1), w\<lparr>m_SessionID := of_nat (unat (m_SessionID w) + 1)\<rparr>)"
  by (simp add: GetSessionID_def session_id_def add.commute)

lemma GetSessionIndex_id:
  assumes "n < 2 ^ 48" "i < unat (m_MaxUserCount w)" "unat (m_MaxUserCount w) \<le> 2 ^ 16"
  shows "GetSessionIndex (session_id i n) w = Inr (of_nat i)"
proof -
  have i: "i < 2 ^ 16" using assms(2,3) by simp
  have "unat (ucast (of_nat i :: 16 word) :: 32 word) = i"
    using i by (simp add: unsigned_ucast_eq unsigned_of_nat take_bit_nat_eq_self)
  moreover have "unat (m_MaxUserCount w - 1) = unat (m_MaxUserCount w) - 1"
    using assms(2) by (intro unat_minus_one) auto
  ultimately have "\<not> m_MaxUserCount w - 1 < (ucast (of_nat i :: 16 word) :: 32 word)"
    using assms(2) by (simp add: word_less_nat_alt)
  then show ?thesis
    by (simp only: GetSessionIndex_def session_id_slot [OF assms(1) i] Let_def if_False)
qed

lemma FindSession_id:
  assumes "n < 2 ^ 48" "i < unat (m_MaxUserCount w)" "unat (m_MaxUserCount w) \<le> 2 ^ 16"
    and "length (m_SessionArray w) = unat (m_MaxUserCount w)"
  shows "FindSession (session_id i n) w = Inr i"
proof -
  have "unat (of_nat i :: 16 word) = i" using assms(2,3) by (simp add: unsigned_of_nat take_bit_nat_eq_self)
  then show ?thesis using assms by (simp add: FindSession_def GetSessionIndex_id)
qed

lemma FindSession_less: "FindSession sid w = Inr i \<Longrightarrow> i < length (m_SessionArray w)"
  by (auto simp: FindSession_def run_simps split: if_splits)

text \<open>\<open>FindSession\<close> depends on two parts of the state only.\<close>

lemma FindSession_cong [world_simps]:
  "m_MaxUserCount w' = m_MaxUserCount w \<Longrightarrow> length (m_SessionArray w') = length (m_SessionArray w)
   \<Longrightarrow> FindSession sid w' = FindSession sid w"
  by (simp add: FindSession_def GetSessionIndex_def)

section \<open>The reference count\<close>

text \<open>The release flag is the top bit.\<close>

definition released :: "Session \<Rightarrow> bool" where
  "released s \<longleftrightarrow> bit (s_IOCount s) 31"

lemma bit_flag: "bit (0x80000000 :: 32 word) k \<longleftrightarrow> k = 31"
proof -
  have "(0x80000000 :: 32 word) = 2 ^ 31" by simp
  then show ?thesis by (simp only: bit_exp_iff) auto
qed

lemma flag_eq: "x AND 0x80000000 \<noteq> 0 \<longleftrightarrow> bit (x :: 32 word) 31"
proof
  assume "x AND 0x80000000 \<noteq> 0"
  then obtain k where "bit (x AND 0x80000000) k"
    by (metis bit_eqI bit_0_eq bot_apply bot_bool_def)
  then have "bit x k \<and> k = 31" unfolding bit_and_iff bit_flag .
  then show "bit x 31" by blast
next
  assume "bit x 31"
  then have "bit (x AND 0x80000000) 31" by (simp only: bit_and_iff bit_flag refl simp_thms)
  then show "x AND 0x80000000 \<noteq> 0" by (metis bit_0_eq bot_apply bot_bool_def)
qed

lemma flag_less: "bit (x :: 32 word) 31 \<longleftrightarrow> 0x80000000 \<le> x"
proof -
  have "unat x < 2 ^ 32" using unsigned_less [of x] by simp
  then have "unat x div 2 ^ 31 < 2" by (simp add: div_less_iff_less_mult)
  moreover have "odd n \<longleftrightarrow> 0 < n" if "n < 2" for n :: nat using that by presburger
  ultimately have "odd (unat x div 2 ^ 31) \<longleftrightarrow> 0 < unat x div 2 ^ 31" by blast
  then have "bit (unat x) 31 \<longleftrightarrow> 2 ^ 31 \<le> unat x" by (simp add: bit_iff_odd div_greater_zero_iff)
  then show ?thesis by (simp add: word_le_nat_alt bit_unsigned_iff)
qed

text \<open>A slot in a state between handlers: its count is neither zero nor about to change the flag.\<close>

definition count_ok :: "Session \<Rightarrow> bool" where
  "count_ok s \<longleftrightarrow> s_IOCount s \<noteq> 0 \<and> s_IOCount s \<noteq> 0x7fffffff \<and> s_IOCount s \<noteq> - 1"

lemma released_incr:
  assumes "count_ok s"
  shows "bit (s_IOCount s + 1) 31 \<longleftrightarrow> bit (s_IOCount s) 31"
proof -
  have ne: "s_IOCount s \<noteq> - 1" "s_IOCount s \<noteq> 0x7fffffff" using assms by (simp_all add: count_ok_def)
  then have "unat (s_IOCount s + 1) = unat (s_IOCount s) + 1"
    by (metis Suc_eq_plus1 add.commute add.inverse_inverse add_eq_0_iff unatSuc)
  moreover have "unat (s_IOCount s) \<noteq> 0x7fffffff" 
    using ne(2) word_unat_eq_iff [of "s_IOCount s" "0x7fffffff"] by simp
  ultimately show ?thesis by (simp add: flag_less word_le_nat_alt) linarith
qed

lemma small_count:
  assumes "\<not> released s" and "count_ok s"
  shows "s_IOCount s + 1 \<noteq> 0" "s_IOCount s + 1 + 1 \<noteq> 0" "s_IOCount s + 1 + 1 \<noteq> 1"
proof -
  have "unat (s_IOCount s) < 2 ^ 31" using assms(1) by (simp add: released_def flag_less word_le_nat_alt)
  then have n: "unat (s_IOCount s + 1) = unat (s_IOCount s) + 1" "unat (s_IOCount s + 1 + 1) = unat (s_IOCount s) + 2"
    by (simp_all add: unat_word_ariths)
  show "s_IOCount s + 1 \<noteq> 0" using n(1) by (metis add_is_0 one_neq_zero unat_0)
  show "s_IOCount s + 1 + 1 \<noteq> 0" using n(2) by (metis add_is_0 unat_0 zero_neq_numeral)
  show "s_IOCount s + 1 + 1 \<noteq> 1"
  proof
    assume "s_IOCount s + 1 + 1 = 1"
    then have "unat (s_IOCount s + 1 + 1) = 1" by (simp only: unat_1)
    with n(2) show False by simp
  qed
qed

lemma AcquireSession_outcome:
  assumes f: "FindSession sid w = Inr i" and c: "count_ok (sess w i)"
  shows "AcquireSession_out e sid w =
    (if \<not> released (sess w i) \<and> s_ID (sess w i) = sid then Inr (True, i, IO_Increment i w)
     else Inr (False, i, w))"
proof -
  have i: "i < length (m_SessionArray w)" using f by (rule FindSession_less)
  have "s_IOCount (sess w i) \<noteq> 0" using c by (simp add: count_ok_def)
  then show ?thesis
    using f i released_incr [OF c]
    by (auto simp: AcquireSession_out_def IO_Increment_def IO_Decrement_def Let_def flag_eq released_def
        sess_upd upd_sess_upd intro!: upd_sess_same)
qed

lemma AcquireSession_fst:
  "AcquireSession e sid w = bnd (AcquireSession_out e sid w) (\<lambda>(ok, _, w). Inr (ok, w))"
  by (auto simp: AcquireSession_def AcquireSession_out_def Let_def bnd_def split: sum.splits prod.splits)

section \<open>Properties\<close>

text \<open>
  Session identifiers: with at most 65536 slots and fewer than \<open>2^48\<close> accepted sessions the
  identifier issued for a slot is found under that slot, and two identifiers are equal only if
  they were issued by the same accept for the same slot, so no identifier is ever reused.
\<close>

theorem session_ids:
  assumes "unat (m_SessionID w) + 1 < 2 ^ 48" and "unat (m_SessionID v) + 1 < 2 ^ 48"
    and "i < unat (m_MaxUserCount w)" and "j < unat (m_MaxUserCount w)"
    and "unat (m_MaxUserCount w) \<le> 2 ^ 16"
  shows "(case GetSessionID (of_nat i) w of (sid, w') \<Rightarrow> GetSessionIndex sid w' = Inr (of_nat i)) \<and>
    (fst (GetSessionID (of_nat i) w) = fst (GetSessionID (of_nat j) v) \<longleftrightarrow>
       i = j \<and> m_SessionID w = m_SessionID v)"
proof
  show "case GetSessionID (of_nat i) w of (sid, w') \<Rightarrow> GetSessionIndex sid w' = Inr (of_nat i)"
    using GetSessionIndex_id [OF assms(1), of i w] assms(3,5)
    unfolding GetSessionID_eq [OF assms(1)] by (simp add: GetSessionIndex_def)
next
  have "i < 2 ^ 16" "j < 2 ^ 16" using assms(3-5) by simp_all
  from session_id_inject [OF assms(1,2) this]
  show "fst (GetSessionID (of_nat i) w) = fst (GetSessionID (of_nat j) v) \<longleftrightarrow>
      i = j \<and> m_SessionID w = m_SessionID v"
    unfolding GetSessionID_eq [OF assms(1)] GetSessionID_eq [OF assms(2)]
    by (simp add: word_unat_eq_iff)
qed

theorem session_ids_witness:
  "\<exists>w :: World. m_SessionID w = 41 \<and> m_MaxUserCount w = 3 \<and>
     (case GetSessionID (of_nat 2) w of (sid, w') \<Rightarrow> GetSessionIndex sid w' = Inr (of_nat 2)) \<and>
     fst (GetSessionID (of_nat 2) w) \<noteq> fst (GetSessionID (of_nat 1) w)"
proof -
  define w :: World where "w = undefined\<lparr>m_SessionID := 41, m_MaxUserCount := 3\<rparr>"
  have "unat (m_SessionID w) = 41" "unat (m_MaxUserCount w) = 3" by (simp_all add: w_def)
  then show ?thesis
    using session_ids [of w w 2 1] by (intro exI [of _ w]) (simp add: w_def)
qed

text \<open>
  C14. Acquiring: it succeeds exactly where the slot is not released and still belongs to the
  session the identifier names, and then only counts one more holder; otherwise the increment
  is taken back and nothing has changed, so an identifier kept after its session is gone is
  harmless.
\<close>

theorem acquire_iff_live:
  assumes "FindSession sid w = Inr i" and "count_ok (sess w i)"
  shows "AcquireSession e sid w =
    (if \<not> released (sess w i) \<and> s_ID (sess w i) = sid
     then Inr (True, upd_sess i (\<lambda>s. s\<lparr>s_IOCount := s_IOCount s + 1\<rparr>) w)
     else Inr (False, w))"
  using AcquireSession_outcome [OF assms, of e]
  by (simp add: AcquireSession_fst IO_Increment_def split: if_splits)

theorem acquire_iff_live_witness:
  "\<exists>w :: World. s_IOCount (sess w 0) = 1 \<and>
     (\<forall>e. AcquireSession e 42 w = Inr (True, upd_sess 0 (\<lambda>s. s\<lparr>s_IOCount := s_IOCount s + 1\<rparr>) w)) \<and>
     (\<forall>e. AcquireSession e 43 w = Inr (False, w))"
proof -
  define s :: Session where "s = undefined\<lparr>s_IOCount := 1, s_ID := 42\<rparr>"
  define w :: World where "w = undefined\<lparr>m_MaxUserCount := 1, m_SessionArray := [s]\<rparr>"
  have f: "FindSession 42 w = Inr 0" "FindSession 43 w = Inr 0"
    by (simp_all add: FindSession_def GetSessionIndex_def w_def)
  have s: "sess w 0 = s" by (simp add: sess_def w_def)
  have c: "count_ok (sess w 0)" "\<not> released (sess w 0)" "s_ID (sess w 0) = 42" "s_IOCount (sess w 0) = 1"
    unfolding s by (simp_all add: s_def count_ok_def released_def)
  from acquire_iff_live [OF f(1) c(1)] acquire_iff_live [OF f(2) c(1)] show ?thesis
    using c(2-4) by (intro exI [of _ w]) simp
qed

end
