(* ===== verification/PacketRefs.thy ===== *)
theory PacketRefs
  imports ServerState "HOL-Library.Multiset"
begin

text \<open>
  Reference counting of packets.  Every place that keeps a pointer to a packet, a send queue,
  a packet array, a queued job or a running handler, owns one reference; \<open>packets_inv pool R\<close>
  says that the multiset \<open>R\<close> of the references owned is what the counts in the packets say,
  and that the packets referenced are exactly those handed out by the pool.
\<close>

section \<open>Counted packets in a pool\<close>

definition packets_inv :: "NetPacketPool \<Rightarrow> objptr multiset \<Rightarrow> bool" where
  "packets_inv pool R \<longleftrightarrow>
     packet_pool_inv pool (set_mset R) \<and>
     (\<forall>p\<in>#R. m_RefCount (mp_get pool p) = of_nat (count R p)) \<and>
     (\<forall>p. count R p < 2 ^ 32)"

text \<open>Two packets that differ at most in their count.\<close>

definition same_packet :: "NetPacket \<Rightarrow> NetPacket \<Rightarrow> bool" where
  "same_packet d d' \<longleftrightarrow> d\<lparr>m_RefCount := 0\<rparr> = d'\<lparr>m_RefCount := 0\<rparr>"

lemma same_packet_refl [simp]: "same_packet d d"
  by (simp add: same_packet_def)

lemma same_packet_count [simp]: "same_packet d (d\<lparr>m_RefCount := n\<rparr>)" "same_packet (d\<lparr>m_RefCount := n\<rparr>) d"
  by (simp_all add: same_packet_def)

lemma same_packet_trans: "same_packet a b \<Longrightarrow> same_packet b c \<Longrightarrow> same_packet a c"
  by (simp add: same_packet_def)

lemma same_packet_sym: "same_packet a b \<Longrightarrow> same_packet b a"
  by (simp add: same_packet_def)

lemma same_packetD:
  assumes "same_packet d d'"
  shows "m_Buffer d' = m_Buffer d" "m_PayloadSize d' = m_PayloadSize d" "m_PayloadPtr d' = m_PayloadPtr d"
    "m_ReadPos d' = m_ReadPos d" "m_WritePos d' = m_WritePos d" "m_bSetHeader d' = m_bSetHeader d"
    "m_bEencode d' = m_bEencode d" "m_PayloadFreeSize d' = m_PayloadFreeSize d"
  using assms by (cases d; cases d'; simp add: same_packet_def)+

lemma same_packet_inv: "same_packet d d' \<Longrightarrow> net_inv d' = net_inv d" "same_packet d d' \<Longrightarrow> payload d' = payload d"
  by (simp_all add: net_inv_def serbuf_inv_def payload_def same_packetD)

text \<open>What may change when references come and go: the count of the packets still referenced.\<close>

definition pool_keeps :: "objptr set \<Rightarrow> NetPacketPool \<Rightarrow> NetPacketPool \<Rightarrow> bool" where
  "pool_keeps U pool pool' \<longleftrightarrow> (\<forall>q\<in>U. same_packet (mp_get pool q) (mp_get pool' q))"

lemma pool_keeps_refl [simp]: "pool_keeps U pool pool"
  by (simp add: pool_keeps_def)

lemma pool_keeps_trans: "pool_keeps U a b \<Longrightarrow> pool_keeps V b c \<Longrightarrow> V \<subseteq> U \<Longrightarrow> pool_keeps V a c"
  unfolding pool_keeps_def by (meson same_packet_trans subsetD)

lemma pool_keeps_mono: "pool_keeps U a b \<Longrightarrow> V \<subseteq> U \<Longrightarrow> pool_keeps V a b"
  unfolding pool_keeps_def by blast

section \<open>Writing to a packet held\<close>

lemma packet_pool_object:
  "packet_pool_inv pool U \<Longrightarrow> p \<in> U \<Longrightarrow> \<exists>obj. mp_object pool p = Some obj"
  using pool_data_used [of pool U p] by (auto simp: packet_pool_inv_def pool_data_def)

lemma packets_at:
  "packets_inv (w_NetPacketPool w) R \<Longrightarrow> p \<in># R \<Longrightarrow> packet_at p w = Inr (mp_get (w_NetPacketPool w) p)"
  using packet_pool_object [of "w_NetPacketPool w" "set_mset R" p]
  by (auto simp: packet_at_def packets_inv_def)

lemma packets_put:
  assumes inv: "packets_inv pool R" and p: "p \<in># R" and d: "packet_shape d"
    and n: "m_RefCount d = m_RefCount (mp_get pool p)"
  shows "packets_inv (mp_put p d pool) R"
  using inv p n packet_pool_put [OF _ p d]
  unfolding packets_inv_def by metis

lemma packet_shape_get:
  assumes "packets_inv pool R" "p \<in># R"
  shows "packet_shape (mp_get pool p)"
proof -
  have "packet_pool_inv pool (set_mset R)" using assms(1) by (simp add: packets_inv_def)
  then have "mp_inv pool (set_mset R)"
    and d: "\<And>d. pool_data pool p = Some d \<Longrightarrow> if p \<in># R then packet_shape d else fresh_packet d"
    unfolding packet_pool_inv_def by blast+
  from pool_data_used [OF this(1)] assms(2) d show ?thesis by simp
qed

section \<open>Taking and giving back a reference\<close>

lemma count_word_zero: "n < 2 ^ 32 \<Longrightarrow> (of_nat n :: 32 word) = 0 \<longleftrightarrow> n = 0"
  using nat_dvd_not_less [of n "2 ^ 32"] by (auto simp: word_of_nat_eq_0_iff)

lemma packets_less: "packets_inv pool R \<Longrightarrow> count R p < 2 ^ 32"
  unfolding packets_inv_def by blast

lemma packets_count: "packets_inv pool R \<Longrightarrow> p \<in># R \<Longrightarrow> m_RefCount (mp_get pool p) = of_nat (count R p)"
  by (simp add: packets_inv_def)

text \<open>The common core: writing the new count to a packet that stays referenced.\<close>

lemma packets_recount:
  assumes pool: "packet_pool_inv pool (set_mset R)" and p: "p \<in># R" "set_mset S = set_mset R"
    and old: "\<forall>q\<in>#R. q \<noteq> p \<longrightarrow> m_RefCount (mp_get pool q) = of_nat (count S q)"
    and shape: "packet_shape (mp_get pool p)" and small: "\<forall>q. count S q < 2 ^ 32"
  defines "pool' \<equiv> mp_put p ((mp_get pool p)\<lparr>m_RefCount := of_nat (count S p)\<rparr>) pool"
  shows "packets_inv pool' S" "pool_keeps (set_mset R) pool pool'"
proof -
  have shape': "packet_shape ((mp_get pool p)\<lparr>m_RefCount := of_nat (count S p)\<rparr>)"
    using shape by (simp add: packet_shape_def)
  note put = packet_pool_put [OF pool p(1) shape']
  show "packets_inv pool' S"
    unfolding packets_inv_def pool'_def
  proof (intro conjI ballI)
    fix q assume q: "q \<in># S"
    show "m_RefCount (mp_get (mp_put p ((mp_get pool p)\<lparr>m_RefCount := of_nat (count S p)\<rparr>) pool) q)
        = of_nat (count S q)"
      using old q p put(2,3) by (cases "q = p") simp_all
  qed (use put(1) p(2) small in simp_all)
  show "pool_keeps (set_mset R) pool pool'"
    unfolding pool_keeps_def
  proof
    fix q assume "q \<in># R"
    then show "same_packet (mp_get pool q) (mp_get pool' q)"
      using put(2,3) by (cases "q = p") (simp_all add: pool'_def)
  qed
qed

lemma packet_IncRef_ok:
  assumes inv: "packets_inv (w_NetPacketPool w) R" and p: "p \<in># R" and room: "count R p + 1 < 2 ^ 32"
  shows "\<exists>pool'. packet_IncRef p w = Inr (w\<lparr>w_NetPacketPool := pool'\<rparr>) \<and>
           packets_inv pool' (add_mset p R) \<and> pool_keeps (set_mset R) (w_NetPacketPool w) pool'"
proof -
  let ?pool = "w_NetPacketPool w" and ?d = "mp_get (w_NetPacketPool w) p"
  have pool: "packet_pool_inv ?pool (set_mset R)" using inv by (simp add: packets_inv_def)
  have n: "m_RefCount ?d + 1 = of_nat (count (add_mset p R) p)"
    using packets_count [OF inv p] by (simp add: add.commute)
  have eq: "packet_IncRef p w = Inr (w\<lparr>w_NetPacketPool :=
      mp_put p (?d\<lparr>m_RefCount := of_nat (count (add_mset p R) p)\<rparr>) ?pool\<rparr>)"
    unfolding n [symmetric]
    by (simp add: packet_IncRef_def on_packet_def packets_at [OF inv p] NetPacket_IncrementRefCount_def)
  have "packets_inv (mp_put p (?d\<lparr>m_RefCount := of_nat (count (add_mset p R) p)\<rparr>) ?pool) (add_mset p R)"
    "pool_keeps (set_mset R) ?pool (mp_put p (?d\<lparr>m_RefCount := of_nat (count (add_mset p R) p)\<rparr>) ?pool)"
    using room packets_less [OF inv] packets_count [OF inv] p
    by (intro packets_recount [OF pool p _ _ packet_shape_get [OF inv p]]; auto)+
  with eq show ?thesis by blast
qed

text \<open>
  Giving a reference back frees the packet with the last one and counts the free; the packets
  still referenced keep everything but their count.
\<close>

lemma packet_DecRef_ok:
  assumes inv: "packets_inv (w_NetPacketPool w) (add_mset p R)"
  shows "\<exists>pool' n. packet_DecRef p w = Inr (w\<lparr>w_NetPacketPool := pool', g_FreeMemoryCount := n\<rparr>) \<and>
           packets_inv pool' R \<and> pool_keeps (set_mset R) (w_NetPacketPool w) pool' \<and>
           n = (if p \<in># R then g_FreeMemoryCount w else g_FreeMemoryCount w + 1)"
proof -
  let ?pool = "w_NetPacketPool w" and ?d = "mp_get (w_NetPacketPool w) p"
  have pin: "p \<in># add_mset p R" by simp
  have pool: "packet_pool_inv ?pool (insert p (set_mset R))" using inv by (simp add: packets_inv_def)
  have small: "count R q < 2 ^ 32" for q
    using packets_less [OF inv, of q] by (auto split: if_splits)
  have n: "m_RefCount ?d - 1 = of_nat (count R p)"
    using packets_count [OF inv pin] by (simp add: add.commute)
  let ?d' = "?d\<lparr>m_RefCount := of_nat (count R p)\<rparr>"
  let ?pool' = "mp_put p ?d' ?pool"
  have dec: "on_packet p (\<lambda>d. Inr (NetPacket_DecrementRefCount d)) w =
      Inr (of_nat (count R p), w\<lparr>w_NetPacketPool := ?pool'\<rparr>)"
    unfolding n [symmetric]
    by (simp add: on_packet_def packets_at [OF inv pin] NetPacket_DecrementRefCount_def)
  show ?thesis
  proof (cases "p \<in># R")
    case True
    then have ins: "set_mset R = set_mset (add_mset p R)" by auto
    have pool': "packet_pool_inv ?pool (set_mset (add_mset p R))" using pool by simp
    have old: "\<forall>q\<in>#add_mset p R. q \<noteq> p \<longrightarrow> m_RefCount (mp_get ?pool q) = of_nat (count R q)"
      using packets_count [OF inv] by simp
    have "of_nat (count R p) \<noteq> (0 :: 32 word)" using True small [of p] by (simp add: count_word_zero)
    then have "packet_DecRef p w = Inr (w\<lparr>w_NetPacketPool := ?pool', g_FreeMemoryCount := g_FreeMemoryCount w\<rparr>)"
      by (simp add: packet_DecRef_def dec)
    moreover have "packets_inv ?pool' R" "pool_keeps (set_mset (add_mset p R)) ?pool ?pool'"
      by (intro packets_recount [OF pool' pin ins old packet_shape_get [OF inv pin]] allI small)+
    moreover have "pool_keeps (set_mset R) ?pool ?pool'"
      using calculation(3) by (rule pool_keeps_mono) auto
    ultimately show ?thesis
      using True by (intro exI [of _ ?pool'] exI [of _ "g_FreeMemoryCount w"]) simp
  next
    case False
    then have z: "count R p = 0" by (simp add: not_in_iff)
    have shape: "packet_shape ?d'" using packet_shape_get [OF inv pin] by (simp add: packet_shape_def)
    note put = packet_pool_put [OF pool insertI1 shape]
    have rest: "insert p (set_mset R) - {p} = set_mset R" using False by auto
    obtain pool2 where f: "NetPacket_Free p ?pool' = Inr pool2" "packet_pool_inv pool2 (set_mset R)"
        "\<forall>q\<in>set_mset R. mp_get pool2 q = mp_get ?pool' q"
      using NetPacket_Free_ok [OF put(1) insertI1, unfolded rest] by blast
    have get: "mp_get pool2 q = mp_get ?pool q" if q: "q \<in># R" for q
    proof -
      have "q \<noteq> p" using q False by auto
      from put(3) [OF insertI2 [OF q] this] f(3) q show ?thesis by simp
    qed
    have "packets_inv pool2 R"
      unfolding packets_inv_def
    proof (intro conjI ballI allI)
      fix q assume q: "q \<in># R"
      then show "m_RefCount (mp_get pool2 q) = of_nat (count R q)"
        using packets_count [OF inv, of q] get False by auto
    qed (use f(2) small in simp_all)
    moreover have "pool_keeps (set_mset R) ?pool pool2" using get by (simp add: pool_keeps_def)
    moreover have "packet_DecRef p w =
        Inr (w\<lparr>w_NetPacketPool := pool2, g_FreeMemoryCount := g_FreeMemoryCount w + 1\<rparr>)"
      using z f(1) by (simp add: packet_DecRef_def dec packet_Free_def)
    ultimately show ?thesis
      using False by (intro exI [of _ pool2] exI [of _ "g_FreeMemoryCount w + 1"]) simp
  qed
qed

lemma packet_Alloc_ok:
  assumes inv: "packets_inv (w_NetPacketPool w) R"
  shows "\<exists>p pool'. packet_Alloc e w = Inr (p, w\<lparr>w_NetPacketPool := pool'\<rparr>) \<and> p \<notin># R \<and>
           packets_inv pool' (add_mset p R) \<and> fresh_packet (mp_get pool' p) \<and>
           pool_keeps (set_mset R) (w_NetPacketPool w) pool'"
proof -
  have pool: "packet_pool_inv (w_NetPacketPool w) (set_mset R)" using inv by (simp add: packets_inv_def)
  from NetPacket_Alloc_ok [OF this, of "e_tid e"] obtain p pool' where a:
      "NetPacket_Alloc (e_tid e) (w_NetPacketPool w) = Inr (p, pool')" "p \<notin># R"
      "packet_pool_inv pool' (insert p (set_mset R))" "fresh_packet (mp_get pool' p)"
      "\<forall>q\<in>set_mset R. mp_get pool' q = mp_get (w_NetPacketPool w) q" by blast
  have "packets_inv pool' (add_mset p R)"
    unfolding packets_inv_def
  proof (intro conjI ballI allI)
    fix q assume "q \<in># add_mset p R"
    then show "m_RefCount (mp_get pool' q) = of_nat (count (add_mset p R) q)"
      using a(2,4,5) packets_count [OF inv, of q] by (auto simp: fresh_packet_def not_in_iff)
  next
    fix q show "count (add_mset p R) q < 2 ^ 32"
      using packets_less [OF inv, of q] a(2) by (auto simp: not_in_iff)
  qed (use a(3) in simp)
  then show ?thesis using a by (auto simp: packet_Alloc_def pool_keeps_def)
qed

end
