(* ===== verification/ServerInv.thy ===== *)
theory ServerInv
  imports SessionFacts PacketRefs
begin

text \<open>
  The invariant of the server between two handlers, and what the steps that handlers are made of
  do to it.  It says that every reference to a packet is accounted for: those in the send queues
  and packet arrays of the sessions, those in the queued jobs, and those held by the running
  handler, a multiset \<open>H\<close>; \<open>J\<close> are the jobs a handler holds.
\<close>

section \<open>References\<close>

primrec somes :: "'a option list \<Rightarrow> 'a list" where
  "somes [] = []"
| "somes (x # xs) = (case x of None \<Rightarrow> somes xs | Some y \<Rightarrow> y # somes xs)"

lemma somes_append [simp]: "somes (xs @ ys) = somes xs @ somes ys"
  by (induction xs) (auto split: option.split)

lemma somes_map_Some [simp]: "somes (map Some xs) = xs"
  by (induction xs) auto

lemma set_somes: "set (somes xs) = {x. Some x \<in> set xs}"
  by (induction xs) (auto split: option.split)

lemma map_Some_somes: "None \<notin> set xs \<Longrightarrow> map Some (somes xs) = xs"
proof (induction xs)
  case (Cons x xs)
  then show ?case by (cases x) auto
qed simp

lemma somes_replicate_None [simp]: "somes (replicate n None) = []"
  by (induction n) auto

lemma somes_update_None:
  "k < length xs \<Longrightarrow> xs ! k = Some p \<Longrightarrow> mset (somes xs) = add_mset p (mset (somes (xs[k := None])))"
  by (induction xs arbitrary: k) (auto split: option.splits nat.splits simp: nth_Cons' less_Suc_eq_0_disj)

lemma somes_update_Some:
  "k < length xs \<Longrightarrow> xs ! k = None \<Longrightarrow> mset (somes (xs[k := Some p])) = add_mset p (mset (somes xs))"
  by (induction xs arbitrary: k) (auto split: option.splits nat.splits simp: nth_Cons' less_Suc_eq_0_disj)

definition session_refs :: "Session \<Rightarrow> objptr multiset" where
  "session_refs s = mset (somes (queue_list (s_SendQ s))) + mset (somes (s_DeQPacketArray s))"

definition job_list :: "World \<Rightarrow> objptr list" where
  "job_list w = somes (queue_list (m_ThreadQ w))"

definition job_of :: "World \<Rightarrow> objptr \<Rightarrow> Job" where
  "job_of w j = mp_get (m_JobPool w) j"

definition job_packets :: "World \<Rightarrow> objptr list" where
  "job_packets w = somes (map (\<lambda>j. j_NetPacketPtr (job_of w j)) (job_list w))"

definition refs :: "World \<Rightarrow> objptr multiset" where
  "refs w = sum_list (map session_refs (m_SessionArray w)) + mset (job_packets w)"

section \<open>The invariant\<close>

definition session_ok :: "Session \<Rightarrow> bool" where
  "session_ok s \<longleftrightarrow>
     queue_inv (s_SendQ s) \<and> None \<notin> set (queue_list (s_SendQ s)) \<and>
     length (s_DeQPacketArray s) = DEQ_PACKET_ARRAY_SIZE \<and> s_DeQArraySize s \<le> DEQ_PACKET_ARRAY_SIZE \<and>
     (\<forall>k<DEQ_PACKET_ARRAY_SIZE. s_DeQArraySize s \<le> k \<longrightarrow> s_DeQPacketArray s ! k = None) \<and>
     ring_inv (s_RecvRingQ s)"

text \<open>A packet in a send queue is encoded: its header carries the code.\<close>

definition queued_ok :: "NetPacket \<Rightarrow> bool" where
  "queued_ok d \<longleftrightarrow> net_inv d \<and> m_ReadPos d = 0 \<and> m_bSetHeader d \<and> m_bEencode d \<and> 0 < m_PayloadSize d \<and>
     m_Buffer d ! 0 = dfPACKET_CODE"

definition jobs_inv :: "World \<Rightarrow> objptr set \<Rightarrow> bool" where
  "jobs_inv w J \<longleftrightarrow>
     queue_inv (m_ThreadQ w) \<and> None \<notin> set (queue_list (m_ThreadQ w)) \<and> distinct (job_list w) \<and>
     set (job_list w) \<inter> J = {} \<and> mp_inv (m_JobPool w) (set (job_list w) \<union> J)"

definition slots_inv :: "World \<Rightarrow> bool" where
  "slots_inv w \<longleftrightarrow>
     length (m_SessionArray w) = unat (m_MaxUserCount w) \<and> unat (m_MaxUserCount w) \<le> 2 ^ 16 \<and>
     (\<exists>st. m_IndexStack w = Some st \<and> stack_inv st)"

definition sessions_inv :: "World \<Rightarrow> bool" where
  "sessions_inv w \<longleftrightarrow>
     (\<forall>s\<in>set (m_SessionArray w). session_ok s \<and>
        (\<forall>p\<in>set (somes (queue_list (s_SendQ s))). queued_ok (mp_get (w_NetPacketPool w) p)))"

definition world_core :: "World \<Rightarrow> objptr multiset \<Rightarrow> objptr set \<Rightarrow> bool" where
  "world_core w H J \<longleftrightarrow>
     packets_inv (w_NetPacketPool w) (refs w + H) \<and> sessions_inv w \<and> jobs_inv w J \<and> slots_inv w"

text \<open>Between handlers the entries of a packet array below its size are all there.\<close>

definition array_full :: "Session \<Rightarrow> bool" where
  "array_full s \<longleftrightarrow> (\<forall>k < s_DeQArraySize s. s_DeQPacketArray s ! k \<noteq> None)"

definition world_inv :: "World \<Rightarrow> objptr multiset \<Rightarrow> objptr set \<Rightarrow> bool" where
  "world_inv w H J \<longleftrightarrow> world_core w H J \<and> (\<forall>k<length (m_SessionArray w). array_full (sess w k))"

lemma world_coreD:
  assumes "world_core w H J"
  shows "packets_inv (w_NetPacketPool w) (refs w + H)" "sessions_inv w" "jobs_inv w J" "slots_inv w"
  using assms by (simp_all add: world_core_def)

text \<open>The parts depend on few fields.\<close>

lemma refs_cong:
  "m_SessionArray w' = m_SessionArray w \<Longrightarrow> m_ThreadQ w' = m_ThreadQ w \<Longrightarrow> m_JobPool w' = m_JobPool w
   \<Longrightarrow> refs w' = refs w"
  by (simp add: refs_def job_packets_def job_of_def job_list_def)

lemma jobs_inv_cong:
  "m_ThreadQ w' = m_ThreadQ w \<Longrightarrow> m_JobPool w' = m_JobPool w \<Longrightarrow> jobs_inv w' J = jobs_inv w J"
  by (simp add: jobs_inv_def job_list_def)

lemma slots_inv_cong:
  "length (m_SessionArray w') = length (m_SessionArray w) \<Longrightarrow> m_MaxUserCount w' = m_MaxUserCount w
   \<Longrightarrow> m_IndexStack w' = m_IndexStack w \<Longrightarrow> slots_inv w' = slots_inv w"
  by (simp add: slots_inv_def)

lemma job_packets_cong:
  "m_ThreadQ w' = m_ThreadQ w \<Longrightarrow> m_JobPool w' = m_JobPool w \<Longrightarrow> job_packets w' = job_packets w"
  by (simp add: job_packets_def job_of_def job_list_def)

lemma session_refs_in: "s \<in> set (m_SessionArray w) \<Longrightarrow> p \<in># session_refs s \<Longrightarrow> p \<in># refs w"
  by (auto simp: refs_def)

lemma sum_list_update_refs:
  fixes f :: "'a \<Rightarrow> 'b::cancel_comm_monoid_add"
  assumes "i < length xs"
  shows "sum_list (map f (xs[i := y])) + f (xs ! i) = sum_list (map f xs) + f y"
  using assms
proof (induction xs arbitrary: i)
  case (Cons x xs)
  show ?case
  proof (cases i)
    case (Suc j)
    with Cons show ?thesis by (simp add: add.assoc)
  qed (simp add: ac_simps)
qed simp

text \<open>A slot that changes moves references between itself and the running handler.\<close>

lemma refs_upd_sess:
  assumes i: "i < length (m_SessionArray w)"
    and move: "session_refs (f (sess w i)) + H' = session_refs (sess w i) + H"
  shows "refs (upd_sess i f w) + H' = refs w + H"
proof -
  let ?s = "sess w i"
  have "sum_list (map session_refs ((m_SessionArray w)[i := f ?s])) + session_refs ?s
      = sum_list (map session_refs (m_SessionArray w)) + session_refs (f ?s)"
    using sum_list_update_refs [OF i, of session_refs "f ?s"] by (simp add: sess_def)
  moreover have "refs (upd_sess i f w) = sum_list (map session_refs ((m_SessionArray w)[i := f ?s])) + mset (job_packets w)"
    unfolding refs_def job_packets_cong [of "upd_sess i f w" w, simplified] by (simp add: upd_sess_def)
  ultimately have "refs (upd_sess i f w) + session_refs ?s = refs w + session_refs (f ?s)"
    by (simp add: refs_def ac_simps)
  then have "refs (upd_sess i f w) + H' + session_refs ?s = refs w + (session_refs (f ?s) + H')"
    by (simp add: ac_simps)
  also have "\<dots> = refs w + H + session_refs ?s" unfolding move by (simp add: ac_simps)
  finally show ?thesis by simp
qed

lemma sessions_inv_nth:
  "sessions_inv w \<longleftrightarrow> (\<forall>k<length (m_SessionArray w). session_ok (sess w k) \<and>
     (\<forall>p\<in>set (somes (queue_list (s_SendQ (sess w k)))). queued_ok (mp_get (w_NetPacketPool w) p)))"
  unfolding sessions_inv_def all_set_conv_all_nth [of "m_SessionArray w"] sess_def ..

lemma sessions_invD:
  "sessions_inv w \<Longrightarrow> i < length (m_SessionArray w) \<Longrightarrow> session_ok (sess w i)"
  "sessions_inv w \<Longrightarrow> i < length (m_SessionArray w) \<Longrightarrow> p \<in> set (somes (queue_list (s_SendQ (sess w i)))) \<Longrightarrow>
     queued_ok (mp_get (w_NetPacketPool w) p)"
  by (simp_all add: sessions_inv_nth)

text \<open>An update of one slot, and an update of the packets.\<close>

lemma world_core_upd_sess:
  assumes inv: "world_core w H J" and i: "i < length (m_SessionArray w)"
    and move: "session_refs (f (sess w i)) + H' = session_refs (sess w i) + H"
    and ok: "session_ok (f (sess w i))"
    and q: "\<forall>p\<in>set (somes (queue_list (s_SendQ (f (sess w i))))). queued_ok (mp_get (w_NetPacketPool w) p)"
  shows "world_core (upd_sess i f w) H' J"
proof -
  have old: "session_ok (sess w k) \<and>
      (\<forall>p\<in>set (somes (queue_list (s_SendQ (sess w k)))). queued_ok (mp_get (w_NetPacketPool w) p))"
    if "k < length (m_SessionArray w)" for k
    using world_coreD(2) [OF inv] that unfolding sessions_inv_nth by blast
  have "sessions_inv (upd_sess i f w)"
    unfolding sessions_inv_nth sess_upd [OF i] upd_sess_fields
  proof (intro allI impI)
    fix k assume k: "k < length (m_SessionArray w)"
    show "session_ok (if k = i then f (sess w i) else sess w k) \<and>
      (\<forall>p\<in>set (somes (queue_list (s_SendQ (if k = i then f (sess w i) else sess w k)))).
         queued_ok (mp_get (w_NetPacketPool w) p))"
    proof (cases "k = i")
      case True
      show ?thesis unfolding if_P [OF True] using ok q by (rule conjI)
    next
      case False
      show ?thesis unfolding if_not_P [OF False] using old [OF k] .
    qed
  qed
  moreover have "jobs_inv (upd_sess i f w) J" 
    using world_coreD(3) [OF inv] jobs_inv_cong [of "upd_sess i f w" w J] by simp
  moreover have "slots_inv (upd_sess i f w)" 
    using world_coreD(4) [OF inv] slots_inv_cong [of "upd_sess i f w" w] by simp
  moreover have "packets_inv (w_NetPacketPool (upd_sess i f w)) (refs (upd_sess i f w) + H')"

    unfolding refs_upd_sess [where f = f, OF i move] using world_coreD(1) [OF inv] by simp
  ultimately show ?thesis by (simp add: world_core_def)
qed

text \<open>Fields that carry neither references nor anything the invariant reads.\<close>

lemma world_core_session_field:
  assumes "world_core w H J" and "i < length (m_SessionArray w)"
    and "s_SendQ (f (sess w i)) = s_SendQ (sess w i)"
      "s_DeQPacketArray (f (sess w i)) = s_DeQPacketArray (sess w i)"
      "s_DeQArraySize (f (sess w i)) = s_DeQArraySize (sess w i)"
      "ring_inv (s_RecvRingQ (f (sess w i)))"
  shows "world_core (upd_sess i f w) H J"
proof (rule world_core_upd_sess [OF assms(1,2)])
  have "session_ok (sess w i)" by (rule sessions_invD [OF world_coreD(2) [OF assms(1)] assms(2)])
  then show "session_ok (f (sess w i))" using assms(3-6) by (simp add: session_ok_def)
  show "\<forall>p\<in>set (somes (queue_list (s_SendQ (f (sess w i))))). queued_ok (mp_get (w_NetPacketPool w) p)"
    using sessions_invD(2) [OF world_coreD(2) [OF assms(1)] assms(2)] assms(3) by simp
qed (use assms(3,4) in \<open>simp add: session_refs_def\<close>)

lemma queued_ok_same: "same_packet d d' \<Longrightarrow> queued_ok d \<Longrightarrow> queued_ok d'"
  by (simp add: queued_ok_def same_packet_inv same_packetD)

lemma world_core_pool_refs:
  assumes inv: "world_core w H J"
    and pool: "packets_inv pool' (refs w + H')"
    and keep: "pool_keeps (set_mset (refs w)) (w_NetPacketPool w) pool'"
    and same: "m_SessionArray w' = m_SessionArray w" "m_ThreadQ w' = m_ThreadQ w" "m_JobPool w' = m_JobPool w"
      "m_MaxUserCount w' = m_MaxUserCount w" "m_IndexStack w' = m_IndexStack w" "w_NetPacketPool w' = pool'"
  shows "world_core w' H' J"
proof -
  have refs: "refs w' = refs w" by (rule refs_cong [OF same(1-3)])
  have "sessions_inv w'"
    unfolding sessions_inv_def same(1,6)
  proof (intro ballI conjI)
    fix s p assume s: "s \<in> set (m_SessionArray w)"
    then show "session_ok s" using world_coreD(2) [OF inv] by (simp add: sessions_inv_def)
    assume p: "p \<in> set (somes (queue_list (s_SendQ s)))"
    have "p \<in># refs w" by (rule session_refs_in [OF s]) (use p in \<open>simp add: session_refs_def\<close>)
    then have "same_packet (mp_get (w_NetPacketPool w) p) (mp_get pool' p)"
      using keep by (simp add: pool_keeps_def)
    moreover have "queued_ok (mp_get (w_NetPacketPool w) p)"
      using world_coreD(2) [OF inv] s p by (simp add: sessions_inv_def)
    ultimately show "queued_ok (mp_get pool' p)" by (rule queued_ok_same)
  qed
  then show ?thesis
    using world_coreD(3,4) [OF inv] pool jobs_inv_cong [OF same(2,3)] slots_inv_cong [of w' w] same
    by (simp add: world_core_def refs)
qed

lemma world_core_pool:
  assumes "world_core w H J" and "packets_inv pool' (refs w + H')"
    and keep: "pool_keeps (set_mset (refs w + H')) (w_NetPacketPool w) pool'"
    and "m_SessionArray w' = m_SessionArray w" "m_ThreadQ w' = m_ThreadQ w" "m_JobPool w' = m_JobPool w"
      "m_MaxUserCount w' = m_MaxUserCount w" "m_IndexStack w' = m_IndexStack w" "w_NetPacketPool w' = pool'"
  shows "world_core w' H' J"
  by (rule world_core_pool_refs [OF assms(1,2) pool_keeps_mono [OF keep] assms(4-9)]) auto

lemma packet_DecRef_world:
  assumes inv: "world_core w (add_mset p H) J"
  shows "\<exists>pool' n. packet_DecRef p w = Inr (w\<lparr>w_NetPacketPool := pool', g_FreeMemoryCount := n\<rparr>) \<and>
           world_core (w\<lparr>w_NetPacketPool := pool', g_FreeMemoryCount := n\<rparr>) H J \<and>
           pool_keeps (set_mset (refs w + H)) (w_NetPacketPool w) pool' \<and>
           n = (if p \<in># refs w + H then g_FreeMemoryCount w else g_FreeMemoryCount w + 1)"
proof -
  have "packets_inv (w_NetPacketPool w) (add_mset p (refs w + H))"
    using world_coreD(1) [OF inv] by simp
  from packet_DecRef_ok [OF this] obtain pool' n where d:
      "packet_DecRef p w = Inr (w\<lparr>w_NetPacketPool := pool', g_FreeMemoryCount := n\<rparr>)"
      "packets_inv pool' (refs w + H)" "pool_keeps (set_mset (refs w + H)) (w_NetPacketPool w) pool'"
      "n = (if p \<in># refs w + H then g_FreeMemoryCount w else g_FreeMemoryCount w + 1)" by blast
  have "world_core (w\<lparr>w_NetPacketPool := pool', g_FreeMemoryCount := n\<rparr>) H J"
    by (rule world_core_pool [OF inv d(2,3)]) simp_all
  with d show ?thesis by blast
qed

lemma packet_IncRef_world:
  assumes inv: "world_core w H J" and p: "p \<in># refs w + H" and room: "count (refs w + H) p + 1 < 2 ^ 32"
  shows "\<exists>pool'. packet_IncRef p w = Inr (w\<lparr>w_NetPacketPool := pool'\<rparr>) \<and>
           world_core (w\<lparr>w_NetPacketPool := pool'\<rparr>) (add_mset p H) J \<and>
           pool_keeps (set_mset (refs w + H)) (w_NetPacketPool w) pool'"
proof -
  from packet_IncRef_ok [OF world_coreD(1) [OF inv] p room] obtain pool' where d:
      "packet_IncRef p w = Inr (w\<lparr>w_NetPacketPool := pool'\<rparr>)" "packets_inv pool' (refs w + add_mset p H)"
      "pool_keeps (set_mset (refs w + H)) (w_NetPacketPool w) pool'" by auto
  have "set_mset (refs w + add_mset p H) = set_mset (refs w + H)" using p by auto
  then have "world_core (w\<lparr>w_NetPacketPool := pool'\<rparr>) (add_mset p H) J"
    using d(3) by (intro world_core_pool [OF inv d(2)]) simp_all
  with d show ?thesis by blast
qed

lemma world_invD:
  assumes "world_inv w H J"
  shows "world_core w H J" "k < length (m_SessionArray w) \<Longrightarrow> array_full (sess w k)"
  using assms by (simp_all add: world_inv_def)

lemma world_invI:
  assumes "world_core w' H' J'" and "world_inv w H J"
    and "length (m_SessionArray w') = length (m_SessionArray w)"
    and "\<And>k. k < length (m_SessionArray w) \<Longrightarrow> array_full (sess w k) \<Longrightarrow> array_full (sess w' k)"
  shows "world_inv w' H' J'"
  using assms by (simp add: world_inv_def)

section \<open>Send queues\<close>

definition send_list :: "Session \<Rightarrow> objptr list" where
  "send_list s = somes (queue_list (s_SendQ s))"

lemma session_queue:
  assumes "session_ok s"
  shows "queue_inv (s_SendQ s)" "queue_list (s_SendQ s) = map Some (send_list s)"
    "LockFreeQ_GetQCount (s_SendQ s) = int (length (send_list s))"
proof -
  show "queue_inv (s_SendQ s)" using assms by (simp add: session_ok_def)
  show eq: "queue_list (s_SendQ s) = map Some (send_list s)"
    unfolding send_list_def using assms by (subst map_Some_somes) (simp_all add: session_ok_def)
  show "LockFreeQ_GetQCount (s_SendQ s) = int (length (send_list s))"
    using length_queue_list [of "s_SendQ s"] assms by (simp add: eq session_ok_def)
qed

definition queue_room :: "'a LockFreeQ \<Rightarrow> bool" where
  "queue_room q \<longleftrightarrow> length (queue_list q) < queue_cap q"

lemma session_EnQ:
  assumes inv: "world_core w (add_mset p H) J" and i: "i < length (m_SessionArray w)"
    and p: "queued_ok (mp_get (w_NetPacketPool w) p)" and room: "queue_room (s_SendQ (sess w i))"
  shows "\<exists>q. LockFreeQ_EnQ spin_fuel None (Some p) (s_SendQ (sess w i)) = Inr (True, q) \<and>
           world_core (upd_sess i (\<lambda>s. s\<lparr>s_SendQ := q\<rparr>) w) H J \<and>
           queue_list q = queue_list (s_SendQ (sess w i)) @ [Some p] \<and>
           queue_cap (s_SendQ (sess w i)) \<le> queue_cap q + 1"
proof -
  let ?s = "sess w i"
  have ok: "session_ok ?s" by (rule sessions_invD [OF world_coreD(2) [OF inv] i])
  from queue_enq [of "s_SendQ ?s" None "Some p"] ok room obtain q where q:
      "LockFreeQ_EnQ spin_fuel None (Some p) (s_SendQ ?s) = Inr (True, q)" "queue_inv q"
      "queue_list q = queue_list (s_SendQ ?s) @ [Some p]" "queue_cap (s_SendQ ?s) \<le> queue_cap q + 1"
    by (auto simp: session_ok_def queue_room_def)
  have "world_core (upd_sess i (\<lambda>s. s\<lparr>s_SendQ := q\<rparr>) w) H J"
  proof (rule world_core_upd_sess [OF inv i])
    show "session_ok (?s\<lparr>s_SendQ := q\<rparr>)" using ok q by (simp add: session_ok_def)
    show "\<forall>p\<in>set (somes (queue_list (s_SendQ (?s\<lparr>s_SendQ := q\<rparr>)))). queued_ok (mp_get (w_NetPacketPool w) p)"
      using p q sessions_invD(2) [OF world_coreD(2) [OF inv] i] by auto
  qed (use q in \<open>simp add: session_refs_def\<close>)
  with q show ?thesis by blast
qed

lemma session_DeQ:
  assumes inv: "world_core w H J" and i: "i < length (m_SessionArray w)"
  shows "\<exists>q. LockFreeQ_DeQ spin_fuel (s_SendQ (sess w i)) =
             Inr (case send_list (sess w i) of [] \<Rightarrow> None | p # ps \<Rightarrow> Some (Some p), q) \<and>
           queue_list q = map Some (tl (send_list (sess w i))) \<and>
           world_core (upd_sess i (\<lambda>s. s\<lparr>s_SendQ := q\<rparr>) w) (mset (take 1 (send_list (sess w i))) + H) J"
proof -
  let ?s = "sess w i"
  have ok: "session_ok ?s" by (rule sessions_invD [OF world_coreD(2) [OF inv] i])
  note sq = session_queue [OF ok]
  from queue_deq [OF sq(1)] obtain q where q:
      "LockFreeQ_DeQ spin_fuel (s_SendQ ?s) = Inr (case queue_list (s_SendQ ?s) of [] \<Rightarrow> None | x # xs \<Rightarrow> Some x, q)"
      "queue_inv q" "queue_list q = tl (queue_list (s_SendQ ?s))"
    by blast
  have ql: "queue_list q = map Some (tl (send_list ?s))" using q(3) by (simp add: sq(2) map_tl)
  have "world_core (upd_sess i (\<lambda>s. s\<lparr>s_SendQ := q\<rparr>) w) (mset (take 1 (send_list ?s)) + H) J"
  proof (rule world_core_upd_sess [OF inv i])
    show "session_ok (?s\<lparr>s_SendQ := q\<rparr>)" using ok q(2) ql by (auto simp: session_ok_def)
    have "set (tl (send_list ?s)) \<subseteq> set (somes (queue_list (s_SendQ ?s)))"
      by (auto simp: sq(2) intro: list.set_sel(2) dest: list.set_sel(2) split: list.splits)
    then show "\<forall>p\<in>set (somes (queue_list (s_SendQ (?s\<lparr>s_SendQ := q\<rparr>)))). queued_ok (mp_get (w_NetPacketPool w) p)"
      using sessions_invD(2) [OF world_coreD(2) [OF inv] i] by (auto simp: ql)
    show "session_refs (?s\<lparr>s_SendQ := q\<rparr>) + (mset (take 1 (send_list ?s)) + H) = session_refs ?s + H"
      by (cases "send_list ?s") (simp_all add: session_refs_def ql sq(2) ac_simps)
  qed
  moreover have "(case queue_list (s_SendQ ?s) of [] \<Rightarrow> None | x # xs \<Rightarrow> Some x)
      = (case send_list ?s of [] \<Rightarrow> None | p # ps \<Rightarrow> Some (Some p))"
    by (simp add: sq(2) split: list.split)
  ultimately show ?thesis using q(1) ql by auto
qed

section \<open>Working on a packet held\<close>

lemma queued_shape: "net_inv d \<Longrightarrow> packet_shape d"
  by (simp add: packet_shape_def net_inv_def serbuf_inv_def packet_consts)

lemma on_packet_world:
  assumes inv: "world_core w H J" and p: "p \<in># refs w + H"
    and f: "f (mp_get (w_NetPacketPool w) p) = Inr (x, d)"
    and d: "packet_shape d" "m_RefCount d = m_RefCount (mp_get (w_NetPacketPool w) p)"
    and q: "\<And>k. k < length (m_SessionArray w) \<Longrightarrow> p \<in> set (send_list (sess w k)) \<Longrightarrow> queued_ok d"
  defines "w' \<equiv> w\<lparr>w_NetPacketPool := mp_put p d (w_NetPacketPool w)\<rparr>"
  shows "on_packet p f w = Inr (x, w')" "world_core w' H J" "mp_get (w_NetPacketPool w') p = d"
    and "r \<in># refs w + H \<Longrightarrow> r \<noteq> p \<Longrightarrow> mp_get (w_NetPacketPool w') r = mp_get (w_NetPacketPool w) r"
proof -
  note pk = world_coreD(1) [OF inv]
  have pool: "packet_pool_inv (w_NetPacketPool w) (set_mset (refs w + H))"
    using pk by (simp only: packets_inv_def)
  note put = packet_pool_put [OF pool p d(1)]
  show "on_packet p f w = Inr (x, w')"
    by (simp add: on_packet_def packets_at [OF pk p] f w'_def)
  show get: "mp_get (w_NetPacketPool w') p = d" using put(2) by (simp add: w'_def)
  show other: "mp_get (w_NetPacketPool w') r = mp_get (w_NetPacketPool w) r"
    if "r \<in># refs w + H" "r \<noteq> p" for r
    using put(3) [OF that] by (simp add: w'_def)
  have "sessions_inv w'"
    unfolding sessions_inv_nth
  proof (intro allI impI conjI ballI)
    fix k r assume "k < length (m_SessionArray w')"
    then have k: "k < length (m_SessionArray w)" by (simp add: w'_def)
    have s: "sess w' k = sess w k" by (simp add: w'_def)
    show "session_ok (sess w' k)" using sessions_invD(1) [OF world_coreD(2) [OF inv] k] by (simp add: s)
    assume "r \<in> set (somes (queue_list (s_SendQ (sess w' k))))"
    then have r: "r \<in> set (send_list (sess w k))" by (simp add: s send_list_def)
    have "r \<in># refs w"
      by (rule session_refs_in [of "sess w k"]) (use r k in \<open>simp_all add: sess_def session_refs_def send_list_def\<close>)
    then show "queued_ok (mp_get (w_NetPacketPool w') r)"
      using q [OF k] r get other [of r] sessions_invD(2) [OF world_coreD(2) [OF inv] k, of r]
      by (cases "r = p") (simp_all add: send_list_def)
  qed
  moreover have "packets_inv (w_NetPacketPool w') (refs w' + H)"
    using packets_put [OF pk p d] refs_cong [of w' w] by (simp add: w'_def)
  moreover have "jobs_inv w' J" using world_coreD(3) [OF inv] jobs_inv_cong [of w' w J] by (simp add: w'_def)
  moreover have "slots_inv w'" using world_coreD(4) [OF inv] slots_inv_cong [of w' w] by (simp add: w'_def)
  ultimately show "world_core w' H J" by (simp add: world_core_def)
qed

section \<open>Sending to a session\<close>

text \<open>A packet that can be sent: a payload nobody has read from, encoded or not begun.\<close>

definition ready :: "NetPacket \<Rightarrow> bool" where
  "ready d \<longleftrightarrow> net_inv d \<and> m_ReadPos d = 0 \<and> 0 < m_PayloadSize d \<and> m_bSetHeader d = m_bEencode d \<and>
     (m_bEencode d \<longrightarrow> m_Buffer d ! 0 = dfPACKET_CODE)"

lemma ready_same: "same_packet d d' \<Longrightarrow> ready d \<Longrightarrow> ready d'"
  by (simp add: ready_def same_packet_inv same_packetD)

lemma queued_ready: "queued_ok d \<Longrightarrow> ready d"
  by (simp add: queued_ok_def ready_def)

lemma encode_ready:
  assumes "ready d"
  shows "\<exists>d'. HeaderSettingAndEncoding rnd d = Inr (True, d') \<and> queued_ok d' \<and> m_RefCount d' = m_RefCount d"
proof (cases "m_bEencode d")
  case True
  then show ?thesis using assms by (auto simp: HeaderSettingAndEncoding_again ready_def queued_ok_def)
next
  case False
  then have a: "net_inv d" "m_ReadPos d = 0" "\<not> m_bEencode d" "\<not> m_bSetHeader d" "0 < m_PayloadSize d"
    using assms by (simp_all add: ready_def)
  from Encoding_payload [OF a(1-4), of rnd] obtain d' where d':
      "HeaderSettingAndEncoding rnd d = Inr (True, d')" "net_inv d'" "m_ReadPos d' = 0" "m_bEencode d'"
      "m_bSetHeader d'" "m_RefCount d' = m_RefCount d" "m_PayloadSize d' = m_PayloadSize d"
      "\<exists>h. h_Code h = dfPACKET_CODE \<and> header_bytes d' = NetHeader_bytes h"
    by (metis NetHeader.select_convs(1))
  have "m_PayloadPtr d' = 5" "length (m_Buffer d') = 300"
    using payload_unread(2,5) [OF d'(2,3)] .
  then have "header_bytes d' ! 0 = m_Buffer d' ! 0" by (simp add: header_bytes_def)
  moreover have "header_bytes d' ! 0 = dfPACKET_CODE" using d'(8) by (auto simp: NetHeader_bytes_def)
  ultimately have "m_Buffer d' ! 0 = dfPACKET_CODE" by simp
  then have "queued_ok d'" using d' a(5) by (simp add: queued_ok_def)
  with d' show ?thesis by blast
qed

definition live :: "64 word \<Rightarrow> nat \<Rightarrow> World \<Rightarrow> bool" where
  "live sid i w \<longleftrightarrow> FindSession sid w = Inr i \<and> count_ok (sess w i) \<and> \<not> released (sess w i) \<and> s_ID (sess w i) = sid"

definition dead :: "64 word \<Rightarrow> World \<Rightarrow> bool" where
  "dead sid w \<longleftrightarrow> (\<exists>i. FindSession sid w = Inr i \<and> count_ok (sess w i) \<and>
     (released (sess w i) \<or> s_ID (sess w i) \<noteq> sid))"

lemma live_less: "live sid i w \<Longrightarrow> i < length (m_SessionArray w)"
  using FindSession_less [of sid w i] by (simp add: live_def)

lemma live_acquire: "live sid i w \<Longrightarrow> AcquireSession_out e sid w = Inr (True, i, IO_Increment i w)"
  using AcquireSession_outcome [of sid w i e] by (simp add: live_def)

lemma dead_acquire: "dead sid w \<Longrightarrow> \<exists>i. AcquireSession_out e sid w = Inr (False, i, w)"
  using AcquireSession_outcome [of sid w _ e] by (auto simp: dead_def)

text \<open>Holding a session once more and letting go of it changes nothing else.\<close>

lemma IO_Decrement_held:
  assumes "i < length (m_SessionArray w)" and "s_IOCount (sess w i) \<noteq> 1"
  shows "IO_Decrement e i w = Inr (upd_sess i (\<lambda>s. s\<lparr>s_IOCount := s_IOCount s - 1\<rparr>) w)"
  using assms by (simp add: IO_Decrement_def Let_def sess_upd)

lemma SendPacket_live:
  assumes inv: "world_core w (add_mset p H) J" and lv: "live sid i w"
    and p: "ready (mp_get (w_NetPacketPool w) p)" and room: "queue_room (s_SendQ (sess w i))"
  shows "\<exists>pool' q. let w' = upd_sess i (\<lambda>s. s\<lparr>s_SendQ := q\<rparr>) (w\<lparr>w_NetPacketPool := pool'\<rparr>) in
           SendPacket e sid p w = Inr (True, w') \<and> world_core w' H J \<and>
           queue_list q = queue_list (s_SendQ (sess w i)) @ [Some p] \<and>
           queue_cap (s_SendQ (sess w i)) \<le> queue_cap q + 1 \<and>
           queued_ok (mp_get pool' p) \<and>
           (\<forall>r\<in>#refs w + H. r \<noteq> p \<longrightarrow> mp_get pool' r = mp_get (w_NetPacketPool w) r)"
proof -
  have i: "i < length (m_SessionArray w)" using lv by (rule live_less)
  let ?w1 = "IO_Increment i w" and ?d = "mp_get (w_NetPacketPool w) p"
  have ring: "ring_inv (s_RecvRingQ (sess w i))"
    using sessions_invD(1) [OF world_coreD(2) [OF inv] i] by (simp add: session_ok_def)
  have inv1: "world_core ?w1 (add_mset p H) J"
    unfolding IO_Increment_def by (rule world_core_session_field [OF inv i]) (simp_all add: ring)
  have pool1: "w_NetPacketPool ?w1 = w_NetPacketPool w" by (simp add: IO_Increment_def)
  from encode_ready [OF p, of "e_rand e"] obtain d where d:
      "HeaderSettingAndEncoding (e_rand e) ?d = Inr (True, d)" "queued_ok d" "m_RefCount d = m_RefCount ?d"
    by blast
  let ?w2 = "?w1\<lparr>w_NetPacketPool := mp_put p d (w_NetPacketPool ?w1)\<rparr>"
  have "p \<in># refs ?w1 + add_mset p H" by simp
  note enc = on_packet_world [OF inv1 this, of "HeaderSettingAndEncoding (e_rand e)" True d, unfolded pool1, OF d(1)
      queued_shape d(3) d(2)]
  have inv2: "world_core ?w2 (add_mset p H) J" and get: "mp_get (w_NetPacketPool ?w2) p = d"
    and on: "on_packet p (HeaderSettingAndEncoding (e_rand e)) ?w1 = Inr (True, ?w2)"
    using enc(1-3) d(2) by (simp_all add: queued_ok_def pool1)
  have i2: "i < length (m_SessionArray ?w2)" using i by (simp add: IO_Increment_def)
  have q0: "s_SendQ (sess ?w2 i) = s_SendQ (sess w i)" "s_SendQ (sess ?w1 i) = s_SendQ (sess w i)"
    using i by (simp_all add: IO_Increment_def sess_upd)
  from session_EnQ [OF inv2 i2] obtain q where q:
      "LockFreeQ_EnQ spin_fuel None (Some p) (s_SendQ (sess w i)) = Inr (True, q)"
      "world_core (upd_sess i (\<lambda>s. s\<lparr>s_SendQ := q\<rparr>) ?w2) H J"
      "queue_list q = queue_list (s_SendQ (sess w i)) @ [Some p]" "queue_cap (s_SendQ (sess w i)) \<le> queue_cap q + 1"
    using d(2) room unfolding get q0 by blast
  let ?pool = "mp_put p d (w_NetPacketPool w)"
  let ?w' = "upd_sess i (\<lambda>s. s\<lparr>s_SendQ := q\<rparr>) (w\<lparr>w_NetPacketPool := ?pool\<rparr>)"
  let ?w3 = "upd_sess i (\<lambda>s. s\<lparr>s_SendQ := q\<rparr>) ?w2"
  have "s_IOCount (sess ?w3 i) \<noteq> 1"
    using lv i by (simp add: IO_Increment_def sess_upd live_def count_ok_def)
  then have dec: "IO_Decrement e i ?w3 = Inr (upd_sess i (\<lambda>s. s\<lparr>s_IOCount := s_IOCount s - 1\<rparr>) ?w3)"
    using i by (intro IO_Decrement_held) (simp_all add: IO_Increment_def)
  also have "upd_sess i (\<lambda>s. s\<lparr>s_IOCount := s_IOCount s - 1\<rparr>) ?w3 = ?w'"
    using i by (simp add: IO_Increment_def upd_sess_def sess_def)
  finally have dec': "IO_Decrement e i ?w3 = Inr ?w'" .
  have "packet_at p ?w2 = Inr d"
    using packets_at [OF world_coreD(1) [OF inv2], of p] get by simp
  then have "SendPacket e sid p w = Inr (True, ?w')"
    using on q(1) d(2) dec'
    by (simp add: SendPacket_def live_acquire [OF lv] q0 NetPacket_GetPayloadSize_def queued_ok_def)
  moreover have "world_core ?w' H J"
  proof -
    have ring3: "ring_inv (s_RecvRingQ (sess ?w3 i))" using i ring by (simp add: IO_Increment_def sess_upd)
    have i3: "i < length (m_SessionArray ?w3)" using i by (simp add: IO_Increment_def)
    have "world_core (upd_sess i (\<lambda>s. s\<lparr>s_IOCount := s_IOCount s - 1\<rparr>) ?w3) H J"
      by (rule world_core_session_field [OF q(2) i3]) (simp_all add: ring3)
    then show ?thesis
      using \<open>upd_sess i (\<lambda>s. s\<lparr>s_IOCount := s_IOCount s - 1\<rparr>) ?w3 = ?w'\<close> by simp
  qed
  moreover have "mp_get ?pool r = mp_get (w_NetPacketPool w) r" if "r \<in># refs w + H" "r \<noteq> p" for r
  proof -
    have "packet_pool_inv (w_NetPacketPool w) (set_mset (refs w + add_mset p H))"
      using world_coreD(1) [OF inv] by (simp only: packets_inv_def)
    then show ?thesis
      by (rule packet_pool_put(3)) (use that d(2) in \<open>auto simp: queued_ok_def intro: queued_shape\<close>)
  qed
  ultimately show ?thesis
    using q(3,4) get d(2) unfolding Let_def pool1
    by (intro exI [of _ ?pool] exI [of _ q]) simp
qed

lemma SendPacket_dead:
  assumes inv: "world_core w (add_mset p H) J" and dd: "dead sid w"
  shows "\<exists>pool' n. let w' = w\<lparr>w_NetPacketPool := pool', g_FreeMemoryCount := n\<rparr> in
           SendPacket e sid p w = Inr (False, w') \<and> world_core w' H J \<and>
           pool_keeps (set_mset (refs w + H)) (w_NetPacketPool w) pool'"
proof -
  obtain i where a: "AcquireSession_out e sid w = Inr (False, i, w)" using dead_acquire [OF dd] by blast
  from packet_DecRef_world [OF inv] obtain pool' n where d:
      "packet_DecRef p w = Inr (w\<lparr>w_NetPacketPool := pool', g_FreeMemoryCount := n\<rparr>)"
      "world_core (w\<lparr>w_NetPacketPool := pool', g_FreeMemoryCount := n\<rparr>) H J"
      "pool_keeps (set_mset (refs w + H)) (w_NetPacketPool w) pool'" by blast
  have "SendPacket e sid p w = Inr (False, w\<lparr>w_NetPacketPool := pool', g_FreeMemoryCount := n\<rparr>)"
    by (simp add: SendPacket_def a d(1))
  then show ?thesis
    unfolding Let_def using d(2,3) by (intro exI [of _ pool'] exI [of _ n] conjI)
qed

end
