(* ===== verification/Sending.thy ===== *)
theory Sending
  imports ServerInv
begin

text \<open>
  The way of a packet to the network: \<open>SendUnicast\<close> puts it into a session's queue, \<open>SendPost\<close>
  moves the queue into the packet array and starts one send, the completion of the send gives
  the references back, and so does the release of a session with packets still in flight.
\<close>

section \<open>\<open>SendUnicast\<close>\<close>

lemma send_list_upd [simp]: "send_list (s\<lparr>s_SendQ := q\<rparr>) = somes (queue_list q)"
  by (simp add: send_list_def)

lemma array_full_fields [simp]: "array_full (s\<lparr>s_SendQ := q\<rparr>) = array_full s"
  "array_full (s\<lparr>s_IOCount := c\<rparr>) = array_full s" "array_full (s\<lparr>s_SendFlag := c\<rparr>) = array_full s"
  by (simp_all add: array_full_def)

lemma world_core_emit [simp]: "world_core (emit ev w) H J = world_core w H J"
proof -
  have "refs (emit ev w) = refs w" by (rule refs_cong) simp_all
  moreover have "jobs_inv (emit ev w) J = jobs_inv w J" by (rule jobs_inv_cong) simp_all
  moreover have "slots_inv (emit ev w) = slots_inv w" by (rule slots_inv_cong) simp_all
  ultimately show ?thesis by (simp add: world_core_def sessions_inv_def)
qed

lemma live_pool: "live sid i (w\<lparr>w_NetPacketPool := pool\<rparr>) = live sid i w"
  by (simp add: live_def FindSession_def GetSessionIndex_def)

lemma dead_pool: "dead sid (w\<lparr>w_NetPacketPool := pool\<rparr>) = dead sid w"
  by (simp add: dead_def FindSession_def GetSessionIndex_def)

lemma SendUnicast_live:
  assumes inv: "world_core w (add_mset p H) J" and lv: "live sid i w"
    and p: "ready (mp_get (w_NetPacketPool w) p)" and room: "queue_room (s_SendQ (sess w i))"
    and few: "count (refs w + add_mset p H) p + 1 < 2 ^ 32"
  shows "\<exists>pool' q n. let w' = (upd_sess i (\<lambda>s. s\<lparr>s_SendQ := q\<rparr>)
             (emit (PostQueued sid) (w\<lparr>w_NetPacketPool := pool', g_FreeMemoryCount := n\<rparr>))) in
           SendUnicast e sid p w = Inr w' \<and> world_core w' H J \<and>
           queue_list q = queue_list (s_SendQ (sess w i)) @ [Some p] \<and> n = g_FreeMemoryCount w \<and>
           queue_cap (s_SendQ (sess w i)) \<le> queue_cap q + 1"
proof -
  have i: "i < length (m_SessionArray w)" using lv by (rule live_less)
  have "p \<in># refs w + add_mset p H" by simp
  from packet_IncRef_world [OF inv this few] obtain pool1 where a:
      "packet_IncRef p w = Inr (w\<lparr>w_NetPacketPool := pool1\<rparr>)"
      "world_core (w\<lparr>w_NetPacketPool := pool1\<rparr>) (add_mset p (add_mset p H)) J"
      "pool_keeps (set_mset (refs w + add_mset p H)) (w_NetPacketPool w) pool1" by blast
  let ?w1 = "w\<lparr>w_NetPacketPool := pool1\<rparr>"
  have "same_packet (mp_get (w_NetPacketPool w) p) (mp_get pool1 p)" using a(3) by (simp add: pool_keeps_def)
  then have p1: "ready (mp_get (w_NetPacketPool ?w1) p)" using p by (simp add: ready_same)
  have lv1: "live sid i ?w1" using lv by (simp add: live_pool)
  have room1: "queue_room (s_SendQ (sess ?w1 i))" using room by simp
  from SendPacket_live [OF a(2) lv1 p1 room1, of e] obtain pool2 q where b:
      "SendPacket e sid p ?w1 = Inr (True, upd_sess i (\<lambda>s. s\<lparr>s_SendQ := q\<rparr>) (w\<lparr>w_NetPacketPool := pool2\<rparr>))"
      "world_core (upd_sess i (\<lambda>s. s\<lparr>s_SendQ := q\<rparr>) (w\<lparr>w_NetPacketPool := pool2\<rparr>)) (add_mset p H) J"
      "queue_list q = queue_list (s_SendQ (sess w i)) @ [Some p]" "queue_cap (s_SendQ (sess w i)) \<le> queue_cap q + 1"
    by (auto simp: Let_def)
  let ?w2 = "emit (PostQueued sid) (upd_sess i (\<lambda>s. s\<lparr>s_SendQ := q\<rparr>) (w\<lparr>w_NetPacketPool := pool2\<rparr>))"
  have "world_core ?w2 (add_mset p H) J" using b(2) by simp
  from packet_DecRef_world [OF this] obtain pool3 n where c:
      "packet_DecRef p ?w2 = Inr (?w2\<lparr>w_NetPacketPool := pool3, g_FreeMemoryCount := n\<rparr>)"
      "world_core (?w2\<lparr>w_NetPacketPool := pool3, g_FreeMemoryCount := n\<rparr>) H J"
      "n = (if p \<in># refs ?w2 + H then g_FreeMemoryCount ?w2 else g_FreeMemoryCount ?w2 + 1)" by blast
  have "p \<in># session_refs (sess ?w2 i)"
    using i b(3) by (simp add: sess_upd session_refs_def)
  then have "p \<in># refs ?w2"
    using i by (intro session_refs_in [of "sess ?w2 i"]) (simp_all add: sess_def)
  then have n: "n = g_FreeMemoryCount w" using c(3) by simp
  have eq: "?w2\<lparr>w_NetPacketPool := pool3, g_FreeMemoryCount := n\<rparr> = upd_sess i (\<lambda>s. s\<lparr>s_SendQ := q\<rparr>)
      (emit (PostQueued sid) (w\<lparr>w_NetPacketPool := pool3, g_FreeMemoryCount := n\<rparr>))"
    by (simp add: emit_def upd_sess_def sess_def)
  have "SendUnicast e sid p w = Inr (?w2\<lparr>w_NetPacketPool := pool3, g_FreeMemoryCount := n\<rparr>)"
    using a(1) b(1) c(1) by (simp add: SendUnicast_def)
  with c(2) b(3,4) n show ?thesis
    unfolding Let_def eq by (intro exI [of _ pool3] exI [of _ q] exI [of _ n] conjI)
qed

lemma SendUnicast_dead:
  assumes inv: "world_core w (add_mset p H) J" and dd: "dead sid w"
    and few: "count (refs w + add_mset p H) p + 1 < 2 ^ 32"
  shows "\<exists>pool' n. let w' = w\<lparr>w_NetPacketPool := pool', g_FreeMemoryCount := n\<rparr> in
           SendUnicast e sid p w = Inr w' \<and> world_core w' H J"
proof -
  have "p \<in># refs w + add_mset p H" by simp
  from packet_IncRef_world [OF inv this few] obtain pool1 where a:
      "packet_IncRef p w = Inr (w\<lparr>w_NetPacketPool := pool1\<rparr>)"
      "world_core (w\<lparr>w_NetPacketPool := pool1\<rparr>) (add_mset p (add_mset p H)) J" by blast
  have "dead sid (w\<lparr>w_NetPacketPool := pool1\<rparr>)" using dd by (simp add: dead_pool)
  from SendPacket_dead [OF a(2) this, of e] obtain pool2 n2 where b:
      "SendPacket e sid p (w\<lparr>w_NetPacketPool := pool1\<rparr>)
         = Inr (False, w\<lparr>w_NetPacketPool := pool2, g_FreeMemoryCount := n2\<rparr>)"
      "world_core (w\<lparr>w_NetPacketPool := pool2, g_FreeMemoryCount := n2\<rparr>) (add_mset p H) J"
    by (auto simp: Let_def)
  from packet_DecRef_world [OF b(2)] obtain pool3 n3 where c:
      "packet_DecRef p (w\<lparr>w_NetPacketPool := pool2, g_FreeMemoryCount := n2\<rparr>)
         = Inr (w\<lparr>w_NetPacketPool := pool3, g_FreeMemoryCount := n3\<rparr>)"
      "world_core (w\<lparr>w_NetPacketPool := pool3, g_FreeMemoryCount := n3\<rparr>) H J" by auto
  have "SendUnicast e sid p w = Inr (w\<lparr>w_NetPacketPool := pool3, g_FreeMemoryCount := n3\<rparr>)"
    using a(1) b(1) c(1) by (simp add: SendUnicast_def)
  with c(2) show ?thesis
    unfolding Let_def by (intro exI [of _ pool3] exI [of _ n3] conjI)
qed

section \<open>Giving the sent packets back\<close>

lemma world_core_cong:
  assumes "m_SessionArray w' = m_SessionArray w" "m_ThreadQ w' = m_ThreadQ w" "m_JobPool w' = m_JobPool w"
    "m_MaxUserCount w' = m_MaxUserCount w" "m_IndexStack w' = m_IndexStack w"
    "w_NetPacketPool w' = w_NetPacketPool w"
  shows "world_core w' H J = world_core w H J"
proof -
  have "refs w' = refs w" by (rule refs_cong [OF assms(1-3)])
  moreover have "jobs_inv w' J = jobs_inv w J" by (rule jobs_inv_cong [OF assms(2,3)])
  moreover have "slots_inv w' = slots_inv w" using assms by (intro slots_inv_cong) simp_all
  ultimately show ?thesis using assms by (simp add: world_core_def sessions_inv_def)
qed

definition clear_slots :: "nat list \<Rightarrow> 'a option list \<Rightarrow> 'a option list" where
  "clear_slots ks a = fold (\<lambda>k a. a[k := None]) ks a"

lemma clear_slots_simps [simp]:
  "clear_slots [] a = a" "clear_slots (k # ks) a = clear_slots ks (a[k := None])"
  by (simp_all add: clear_slots_def)

lemma length_clear_slots [simp]: "length (clear_slots ks a) = length a"
  by (induction ks arbitrary: a) simp_all

lemma nth_clear_slots: "k < length a \<Longrightarrow> clear_slots ks a ! k = (if k \<in> set ks then None else a ! k)"
  by (induction ks arbitrary: a) (auto simp: nth_list_update)

lemma DeQPacket_loop_ok:
  assumes "world_core w H J" and "i < length (m_SessionArray w)" and "distinct ks"
    and "\<forall>k\<in>set ks. k < DEQ_PACKET_ARRAY_SIZE \<and> s_DeQPacketArray (sess w i) ! k \<noteq> None"
  shows "\<exists>pool' n. let w' = (upd_sess i (\<lambda>s. s\<lparr>s_DeQPacketArray := clear_slots ks (s_DeQPacketArray s)\<rparr>) w)
             \<lparr>w_NetPacketPool := pool', g_FreeMemoryCount := n, m_SendTPS := m_SendTPS w + of_nat (length ks)\<rparr> in
           DeQPacket_loop ks i w = Inr w' \<and> world_core w' H J"
  using assms
proof (induction ks arbitrary: w)
  case Nil
  have "upd_sess i (\<lambda>s. s\<lparr>s_DeQPacketArray := clear_slots [] (s_DeQPacketArray s)\<rparr>) w = w"
    by (rule upd_sess_same) simp
  then show ?case
    using Nil by (intro exI [of _ "w_NetPacketPool w"] exI [of _ "g_FreeMemoryCount w"]) simp
next
  case (Cons k ks)
  note inv = Cons.prems(1) and i = Cons.prems(2)
  let ?s = "sess w i"
  let ?f = "\<lambda>s. s\<lparr>s_DeQPacketArray := (s_DeQPacketArray s)[k := None]\<rparr>"
  obtain p where p: "s_DeQPacketArray ?s ! k = Some p" and k: "k < DEQ_PACKET_ARRAY_SIZE"
    using Cons.prems(4) by auto
  have ok: "session_ok ?s" by (rule sessions_invD [OF world_coreD(2) [OF inv] i])
  then have len: "length (s_DeQPacketArray ?s) = DEQ_PACKET_ARRAY_SIZE" by (simp add: session_ok_def)
  have inv1: "world_core (upd_sess i ?f w) (add_mset p H) J"
  proof (rule world_core_upd_sess [OF inv i])
    show "session_refs (?f ?s) + add_mset p H = session_refs ?s + H"
      using somes_update_None [of k "s_DeQPacketArray ?s" p] p k len by (simp add: session_refs_def)
    show "session_ok (?f ?s)" using ok by (simp add: session_ok_def nth_update_if)
    show "\<forall>p\<in>set (somes (queue_list (s_SendQ (?f ?s)))). queued_ok (mp_get (w_NetPacketPool w) p)"
      using sessions_invD(2) [OF world_coreD(2) [OF inv] i] by simp
  qed
  from packet_DecRef_world [OF inv1] obtain pool n where d:
      "packet_DecRef p (upd_sess i ?f w) = Inr ((upd_sess i ?f w)\<lparr>w_NetPacketPool := pool, g_FreeMemoryCount := n\<rparr>)"
      "world_core ((upd_sess i ?f w)\<lparr>w_NetPacketPool := pool, g_FreeMemoryCount := n\<rparr>) H J" by blast
  let ?w2 = "(upd_sess i ?f w)\<lparr>w_NetPacketPool := pool, g_FreeMemoryCount := n, m_SendTPS := m_SendTPS w + 1\<rparr>"
  have inv2: "world_core ?w2 H J"
    by (rule iffD2 [OF world_core_cong d(2)]) simp_all
  have s2: "sess ?w2 i = ?f ?s" using i by (simp add: sess_upd)
  have "\<forall>k\<in>set ks. k < DEQ_PACKET_ARRAY_SIZE \<and> s_DeQPacketArray (sess ?w2 i) ! k \<noteq> None"
  proof
    fix j assume j: "j \<in> set ks"
    then have "j \<noteq> k" using Cons.prems(3) by auto
    with j show "j < DEQ_PACKET_ARRAY_SIZE \<and> s_DeQPacketArray (sess ?w2 i) ! j \<noteq> None"
      unfolding s2 using Cons.prems(4) by simp
  qed
  moreover have "i < length (m_SessionArray ?w2)" "distinct ks" using i Cons.prems(3) by simp_all
  ultimately obtain pool' n' where e:
      "DeQPacket_loop ks i ?w2 = Inr ((upd_sess i (\<lambda>s. s\<lparr>s_DeQPacketArray := clear_slots ks (s_DeQPacketArray s)\<rparr>) ?w2)
         \<lparr>w_NetPacketPool := pool', g_FreeMemoryCount := n', m_SendTPS := m_SendTPS ?w2 + of_nat (length ks)\<rparr>)"
      "world_core ((upd_sess i (\<lambda>s. s\<lparr>s_DeQPacketArray := clear_slots ks (s_DeQPacketArray s)\<rparr>) ?w2)
         \<lparr>w_NetPacketPool := pool', g_FreeMemoryCount := n', m_SendTPS := m_SendTPS ?w2 + of_nat (length ks)\<rparr>) H J"
    using Cons.IH [OF inv2] unfolding Let_def by blast
  have eq: "(upd_sess i (\<lambda>s. s\<lparr>s_DeQPacketArray := clear_slots ks (s_DeQPacketArray s)\<rparr>) ?w2)
         \<lparr>w_NetPacketPool := pool', g_FreeMemoryCount := n', m_SendTPS := m_SendTPS ?w2 + of_nat (length ks)\<rparr>
      = (upd_sess i (\<lambda>s. s\<lparr>s_DeQPacketArray := clear_slots (k # ks) (s_DeQPacketArray s)\<rparr>) w)
         \<lparr>w_NetPacketPool := pool', g_FreeMemoryCount := n', m_SendTPS := m_SendTPS w + of_nat (length (k # ks))\<rparr>"
    using i by (simp add: upd_sess_def sess_def add.assoc)
  have "DeQPacket_loop (k # ks) i w = DeQPacket_loop ks i ?w2"
    using p k len d(1) by (simp add: Let_def)
  then show ?case
    unfolding Let_def using e eq by (intro exI [of _ pool'] exI [of _ n']) simp
qed

text \<open>A send that completed: every packet of the array gives its reference back.\<close>

lemma DeQPacket_ok:
  assumes inv: "world_core w H J" and i: "i < length (m_SessionArray w)" and full: "array_full (sess w i)"
  shows "\<exists>pool' n a. let w' = (upd_sess i (\<lambda>s. s\<lparr>s_DeQPacketArray := a, s_DeQArraySize := 0\<rparr>) w)
             \<lparr>w_NetPacketPool := pool', g_FreeMemoryCount := n,
              m_SendTPS := m_SendTPS w + of_nat (s_DeQArraySize (sess w i))\<rparr> in
           DeQPacket i w = Inr w' \<and> world_core w' H J \<and> a = replicate DEQ_PACKET_ARRAY_SIZE None"
proof -
  let ?s = "sess w i" and ?ks = "[0..<s_DeQArraySize (sess w i)]"
  have ok: "session_ok ?s" by (rule sessions_invD [OF world_coreD(2) [OF inv] i])
  have "\<forall>k\<in>set ?ks. k < DEQ_PACKET_ARRAY_SIZE \<and> s_DeQPacketArray ?s ! k \<noteq> None"
    using ok full by (auto simp: session_ok_def array_full_def)
  from DeQPacket_loop_ok [OF inv i distinct_upt this] obtain pool' n where d:
      "DeQPacket_loop ?ks i w = Inr ((upd_sess i (\<lambda>s. s\<lparr>s_DeQPacketArray := clear_slots ?ks (s_DeQPacketArray s)\<rparr>) w)
             \<lparr>w_NetPacketPool := pool', g_FreeMemoryCount := n, m_SendTPS := m_SendTPS w + of_nat (length ?ks)\<rparr>)"
      "world_core ((upd_sess i (\<lambda>s. s\<lparr>s_DeQPacketArray := clear_slots ?ks (s_DeQPacketArray s)\<rparr>) w)
             \<lparr>w_NetPacketPool := pool', g_FreeMemoryCount := n, m_SendTPS := m_SendTPS w + of_nat (length ?ks)\<rparr>) H J"
    unfolding Let_def by blast
  let ?w1 = "(upd_sess i (\<lambda>s. s\<lparr>s_DeQPacketArray := clear_slots ?ks (s_DeQPacketArray s)\<rparr>) w)
             \<lparr>w_NetPacketPool := pool', g_FreeMemoryCount := n, m_SendTPS := m_SendTPS w + of_nat (length ?ks)\<rparr>"
  have empty: "clear_slots ?ks (s_DeQPacketArray ?s) = replicate DEQ_PACKET_ARRAY_SIZE None"
    using ok by (intro nth_equalityI) (auto simp: session_ok_def nth_clear_slots)
  have i1: "i < length (m_SessionArray ?w1)" using i by simp
  have s1: "sess ?w1 i = ?s\<lparr>s_DeQPacketArray := clear_slots ?ks (s_DeQPacketArray ?s)\<rparr>"
    using i by (simp add: sess_upd)
  have inv2: "world_core (upd_sess i (\<lambda>s. s\<lparr>s_DeQArraySize := 0\<rparr>) ?w1) H J"
  proof (rule world_core_upd_sess [OF d(2) i1])
    show "session_ok (sess ?w1 i\<lparr>s_DeQArraySize := 0\<rparr>)"
      unfolding s1 empty using ok by (simp add: session_ok_def)
    show "\<forall>p\<in>set (somes (queue_list (s_SendQ (sess ?w1 i\<lparr>s_DeQArraySize := 0\<rparr>)))).
        queued_ok (mp_get (w_NetPacketPool ?w1) p)"
      using sessions_invD(2) [OF world_coreD(2) [OF d(2)] i1] by simp
  qed (simp add: session_refs_def)
  have eq: "upd_sess i (\<lambda>s. s\<lparr>s_DeQArraySize := 0\<rparr>) ?w1 =
      (upd_sess i (\<lambda>s. s\<lparr>s_DeQPacketArray := clear_slots ?ks (s_DeQPacketArray ?s), s_DeQArraySize := 0\<rparr>) w)
             \<lparr>w_NetPacketPool := pool', g_FreeMemoryCount := n,
              m_SendTPS := m_SendTPS w + of_nat (s_DeQArraySize ?s)\<rparr>"
    using i by (simp add: upd_sess_def sess_def)
  have "DeQPacket i w = Inr (upd_sess i (\<lambda>s. s\<lparr>s_DeQArraySize := 0\<rparr>) ?w1)"
    by (simp add: DeQPacket_def d(1))
  with inv2 empty show ?thesis
    unfolding Let_def eq
    by (intro exI [of _ pool'] exI [of _ n] exI [of _ "clear_slots ?ks (s_DeQPacketArray ?s)"] conjI)
qed

end
