(* ===== verification/Jobs.thy ===== *)
theory Jobs
  imports Sending
begin

text \<open>
  The queue of jobs between the network threads and the update thread: queueing a job passes the
  reference to its packet on, taking a job gives it to the update thread.
\<close>

definition job_ref :: "objptr option \<Rightarrow> objptr multiset" where
  "job_ref po = mset (somes [po])"

lemma job_ref_simps [simp]: "job_ref None = {#}" "job_ref (Some p) = {#p#}"
  by (simp_all add: job_ref_def)

lemma map_somes_job: "somes (map f (xs @ [x])) = somes (map f xs) @ somes [f x]"
  by simp

lemma somes_map_cong: "(\<And>x. x \<in> set xs \<Longrightarrow> f x = g x) \<Longrightarrow> somes (map f xs) = somes (map g xs)"
  by (metis map_cong)

lemma MakeJobNEnQ_world:
  assumes inv: "world_core w (job_ref po + H) J" and room: "queue_room (m_ThreadQ w)"
  shows "\<exists>pool q j. let w' = emit SetUpdateEvent (w\<lparr>m_JobPool := pool, m_ThreadQ := q\<rparr>) in
           MakeJobNEnQ e type sid po w = Inr w' \<and> world_core w' H J \<and>
           j \<notin> set (job_list w) \<union> J \<and> job_list w' = job_list w @ [j] \<and>
           job_of w' j = \<lparr>j_TYPE = type, j_SessionID = sid, j_NetPacketPtr = po\<rparr> \<and>
           (\<forall>k\<in>set (job_list w) \<union> J. job_of w' k = job_of w k) \<and>
           queue_cap (m_ThreadQ w) \<le> queue_cap q + 1"
proof -
  let ?U = "set (job_list w) \<union> J" and ?job = "\<lparr>j_TYPE = type, j_SessionID = sid, j_NetPacketPtr = po\<rparr>"
  have jobs: "queue_inv (m_ThreadQ w)" "None \<notin> set (queue_list (m_ThreadQ w))" "distinct (job_list w)"
      "set (job_list w) \<inter> J = {}" "mp_inv (m_JobPool w) ?U"
    using world_coreD(3) [OF inv] by (simp_all add: jobs_inv_def)
  from MemoryPool_Alloc_ok [OF jobs(5), of Job_raw Job_raw "e_tid e"] obtain j pool where a:
      "MemoryPool_Alloc Job_raw Job_raw (e_tid e) (m_JobPool w) = Inr (j, pool)" "j \<notin> ?U"
      "mp_inv pool (insert j ?U)" "\<forall>q\<in>?U. mp_get pool q = mp_get (m_JobPool w) q" by blast
  define pool' where "pool' = mp_put j ?job pool"
  note put = mp_put_ok [OF a(3), of j, where d = ?job]
  have p1: "mp_inv pool' (insert j ?U)" and p2: "mp_get pool' j = ?job"
    using put(1,2) by (simp_all add: pool'_def)
  have p3: "mp_get pool' k = mp_get (m_JobPool w) k" if "k \<in> ?U" for k
    using put(3) [of k] a(2,4) that by (auto simp: pool'_def)
  from queue_enq [OF jobs(1), of None "Some j"] room obtain q where q:
      "LockFreeQ_EnQ spin_fuel None (Some j) (m_ThreadQ w) = Inr (True, q)" "queue_inv q"
      "queue_list q = queue_list (m_ThreadQ w) @ [Some j]" "queue_cap (m_ThreadQ w) \<le> queue_cap q + 1"
    by (auto simp: queue_room_def)
  let ?w1 = "w\<lparr>m_JobPool := pool', m_ThreadQ := q\<rparr>"
  let ?w' = "emit SetUpdateEvent ?w1"
  have jl: "job_list ?w1 = job_list w @ [j]" by (simp add: job_list_def q(3))
  have jo: "job_of ?w1 j = ?job" "\<And>k. k \<in> ?U \<Longrightarrow> job_of ?w1 k = job_of w k"
    by (simp_all add: job_of_def p2 p3)
  have "somes (map (\<lambda>j. j_NetPacketPtr (job_of ?w1 j)) (job_list w)) = job_packets w"
    unfolding job_packets_def by (rule somes_map_cong) (simp add: jo(2))
  then have jp: "job_packets ?w1 = job_packets w @ somes [po]"
    unfolding job_packets_def [of ?w1] jl map_somes_job jo(1) by simp
  have refs: "refs ?w1 = refs w + job_ref po"
    by (simp add: refs_def jp job_ref_def)
  have "jobs_inv ?w1 J"
  proof -
    have "set (job_list ?w1) \<union> J = insert j ?U" by (simp add: jl)
    moreover have "j \<notin> set (job_list w)" "j \<notin> J" using a(2) by auto
    ultimately show ?thesis
      unfolding jobs_inv_def jl using jobs q(2) p1 by (simp add: q(3))
  qed
  moreover have "packets_inv (w_NetPacketPool ?w1) (refs ?w1 + H)"
    unfolding refs using world_coreD(1) [OF inv] by (simp add: add.assoc)
  moreover have "sessions_inv ?w1" using world_coreD(2) [OF inv] by (simp add: sessions_inv_def)
  moreover have "slots_inv ?w1" using world_coreD(4) [OF inv] by (simp add: slots_inv_def)
  ultimately have "world_core ?w1 H J" by (simp add: world_core_def)
  then have core: "world_core ?w' H J" by simp
  have "MakeJobNEnQ e type sid po w = Inr ?w'"
    by (simp add: MakeJobNEnQ_def a(1) q(1) pool'_def)
  moreover have "job_list ?w' = job_list w @ [j]" using jl by (simp add: job_list_def)
  moreover have "job_of ?w' j = ?job" "\<forall>k\<in>?U. job_of ?w' k = job_of w k"
    using jo by (simp_all add: job_of_def)
  ultimately show ?thesis
    unfolding Let_def using core a(2) q(4) by (intro exI [of _ pool'] exI [of _ q] exI [of _ j] conjI)
qed

text \<open>The references after a job was queued.\<close>

lemma refs_new_job:
  assumes "job_list w' = job_list w @ [j]" and "\<forall>k\<in>set (job_list w). job_of w' k = job_of w k"
    and "m_SessionArray w' = m_SessionArray w"
  shows "refs w' = refs w + job_ref (j_NetPacketPtr (job_of w' j))"
proof -
  have "somes (map (\<lambda>j. j_NetPacketPtr (job_of w' j)) (job_list w)) = job_packets w"
    unfolding job_packets_def by (rule somes_map_cong) (use assms(2) in simp)
  then have "job_packets w' = job_packets w @ somes [j_NetPacketPtr (job_of w' j)]"
    unfolding job_packets_def [of w'] assms(1) map_somes_job by simp
  then show ?thesis using assms(3) by (simp add: refs_def job_ref_def)
qed

end
