(* ===== verification/Startup.thy ===== *)
theory Startup
  imports ChatServer Jobs
begin

text \<open>
  A new server and \<open>ServerStart\<close>: the invariant of the server holds from the beginning, provided
  the memory the sessions are built in reads as zero where their constructor does not write.
\<close>

section \<open>The session array and the stack of free slots\<close>

text \<open>Memory that happens to be zero where the constructor of a session leaves it as it is.\<close>

definition zeroed :: "Session \<Rightarrow> bool" where
  "zeroed raw \<longleftrightarrow> s_DeQPacketArray raw = replicate DEQ_PACKET_ARRAY_SIZE None \<and> s_SendFlag raw = 0 \<and>
     s_CloseFlag raw = 0 \<and> s_ErrorCode raw = 0"

text \<open>A session slot that has never been used.\<close>

definition unused :: "Session \<Rightarrow> bool" where
  "unused s \<longleftrightarrow> session_ok s \<and> send_list s = [] \<and> s_DeQArraySize s = 0 \<and>
     s_DeQPacketArray s = replicate DEQ_PACKET_ARRAY_SIZE None \<and> s_SendFlag s = 0 \<and> s_CloseFlag s = 0 \<and>
     s_ErrorCode s = 0 \<and> s_SendByte s = 0 \<and> s_RecvRingQ s = RingQ_new \<and> queue_cap (s_SendQ s) = 5001 \<and> s_IOCount s = 1 \<and> s_ID s = 0 \<and>
     \<not> s_USED s \<and> \<not> s_bIOCancel s \<and> \<not> s_bReserveDiscon s"

lemma Session_new_ok:
  assumes "zeroed raw"
  shows "\<exists>s. Session_new raw mark = Inr s \<and> unused s"
proof -
  obtain q where q: "LockFreeQ_new (None :: objptr option) mark 5000 = Inr q" "queue_inv q" "queue_list q = []"
      "q_MaxQCount q = word_of_int 5000"
    using queue_inv_new [of "None :: objptr option" mark 5000] by blast
  moreover have "queue_cap q = 5001" using queue_new_cap(3) [OF q(1)] by simp
  ultimately show ?thesis
    using assms by (simp add: Session_new_def zeroed_def unused_def session_ok_def send_list_def)
qed

lemma new_sessions_ok:
  assumes "\<forall>k\<in>set ks. zeroed (raw k)"
  shows "\<exists>ss. new_sessions raw ks = Inr ss \<and> length ss = length ks \<and> (\<forall>s\<in>set ss. unused s)"
  using assms
proof (induction ks)
  case (Cons k ks)
  then obtain ss where "new_sessions raw ks = Inr ss" "length ss = length ks" "\<forall>s\<in>set ss. unused s" by auto
  moreover obtain s where "Session_new (raw k) 1 = Inr s" "unused s" using Session_new_ok [of "raw k" 1] Cons.prems by auto
  ultimately show ?case by simp
qed simp

lemma unused_full [simp]: "unused s \<Longrightarrow> array_full s"
  by (simp add: unused_def array_full_def)

lemma unused_refs [simp]: "unused s \<Longrightarrow> session_refs s = {#}"
  by (simp add: unused_def session_refs_def send_list_def)

lemma unused_no_refs: "\<forall>s\<in>set ss. unused s \<Longrightarrow> sum_list (map session_refs ss) = {#}"
  by (induction ss) simp_all

lemma push_indices_ok:
  assumes "stack_inv st" and "length is + length (stack_list st) \<le> stack_limit"
  shows "\<exists>st'. push_indices is st = Inr st' \<and> stack_inv st' \<and> stack_list st' = rev (map of_nat is) @ stack_list st"
  using assms
proof (induction "is" arbitrary: st)
  case (Cons i "is")
  have "length (stack_list st) < stack_limit" using Cons.prems(2) by simp
  from LockFreeStack_Push_ok [OF Cons.prems(1) this, of 0 "of_nat i"] obtain st1 where st1:
      "LockFreeStack_Push 0 (of_nat i) st = Inr st1" "stack_inv st1" "stack_list st1 = of_nat i # stack_list st" by blast
  have "length is + length (stack_list st1) \<le> stack_limit" using Cons.prems(2) st1(3) by simp
  from Cons.IH [OF st1(2) this] obtain st2 where
      "push_indices is st1 = Inr st2" "stack_inv st2" "stack_list st2 = rev (map of_nat is) @ stack_list st1" by blast
  with st1 show ?case by simp
qed simp

section \<open>The new server\<close>

definition free_slots :: "World \<Rightarrow> 64 word list" where
  "free_slots w = (case m_IndexStack w of None \<Rightarrow> [] | Some st \<Rightarrow> stack_list st)"

text \<open>A server without clients.\<close>

definition no_clients :: "World \<Rightarrow> bool" where
  "no_clients w \<longleftrightarrow> m_ClientMap w = (\<lambda>_. None) \<and> m_Sector w = (\<lambda>_ _. []) \<and> m_ClientPool w = MemoryPool_new 1 500 True"

lemma MyChattingServer_new_ok:
  "\<exists>w. MyChattingServer_new packets = Inr w \<and> w_NetPacketPool w = packets \<and> m_SessionArray w = [] \<and>
     m_JobPool w = MemoryPool_new 1 500 False \<and> queue_inv (m_ThreadQ w) \<and> queue_list (m_ThreadQ w) = [] \<and>
     m_SessionID w = 0 \<and> no_clients w \<and> queue_cap (m_ThreadQ w) = 2 ^ 31 - 1"
proof -
  obtain q where q: "LockFreeQ_new (None :: objptr option) 1 0x7fffffff = Inr q" "queue_inv q" "queue_list q = []"
    using queue_inv_new [where ?d0.0 = "None :: objptr option" and mark = 1 and n = "0x7fffffff"] by blast
  moreover have "queue_cap q = 2 ^ 31 - 1" using queue_new_cap(3) [OF q(1)] by simp
  ultimately show ?thesis by (simp add: MyChattingServer_new_def no_clients_def)
qed

lemma ServerStart_world:
  assumes new: "MyChattingServer_new packets = Inr w0" and pool: "packets_inv packets {#}"
    and raw: "\<forall>k<unat maxUserCount. zeroed (raw k)" and max: "unat maxUserCount \<le> 2 ^ 16"
  shows "\<exists>calls w. ServerStart ne raw ip port opt workers maxUserCount topt w0 = Inr (ne_listen ne, calls, w) \<and>
           world_inv w {#} {} \<and> free_slots w = rev (map of_nat [0..<unat maxUserCount]) \<and>
           length (m_SessionArray w) = unat maxUserCount \<and> (\<forall>s\<in>set (m_SessionArray w). unused s) \<and>
           m_MaxUserCount w = maxUserCount \<and> job_list w = [] \<and> m_SessionID w = 0 \<and> queue_room (m_ThreadQ w) \<and>
           queue_cap (m_ThreadQ w) = 2 ^ 31 - 1 \<and> no_clients w"
proof -
  obtain w1 where w1: "MyChattingServer_new packets = Inr w1" "w_NetPacketPool w1 = packets"
      "m_SessionArray w1 = []" "m_JobPool w1 = MemoryPool_new 1 500 False" "queue_inv (m_ThreadQ w1)"
      "queue_list (m_ThreadQ w1) = []" "m_SessionID w1 = 0" "queue_cap (m_ThreadQ w1) = 2 ^ 31 - 1" "no_clients w1"
    using MyChattingServer_new_ok [of packets] by blast
  have w0: "w1 = w0" using w1(1) new by simp
  have "\<forall>k\<in>set [0..<unat maxUserCount]. zeroed (raw k)" using raw by simp
  from new_sessions_ok [OF this] obtain ss where s: "new_sessions raw [0..<unat maxUserCount] = Inr ss"
      "length ss = unat maxUserCount" "\<forall>s\<in>set ss. unused s" by auto
  have "stack_inv (LockFreeStack_new 1 :: 64 word LockFreeStack)" by simp
  moreover have "length [0..<unat maxUserCount] + length (stack_list (LockFreeStack_new 1 :: 64 word LockFreeStack)) \<le> stack_limit"
    using max by (simp add: stack_limit_def)
  ultimately obtain st where st:
      "push_indices [0..<unat maxUserCount] (LockFreeStack_new 1) = Inr st" "stack_inv st"
      "stack_list st = rev (map of_nat [0..<unat maxUserCount])"
    using push_indices_ok by fastforce
  define w where "w = ThreadInit workers (w0\<lparr>m_TimeOutOption := topt, m_SessionArray := ss,
      m_MaxUserCount := maxUserCount, m_IndexStack := Some st\<rparr>)"
  have fields: "m_SessionArray w = ss" "m_MaxUserCount w = maxUserCount"
      "m_IndexStack w = Some st" "m_ThreadQ w = m_ThreadQ w0" "m_JobPool w = m_JobPool w0"
      "w_NetPacketPool w = w_NetPacketPool w0" "m_SessionID w = m_SessionID w0"
      "m_ClientMap w = m_ClientMap w0" "m_Sector w = m_Sector w0" "m_ClientPool w = m_ClientPool w0"
    by (simp_all add: w_def ThreadInit_def)
  have jl: "job_list w = []" using w1(6) by (simp add: job_list_def fields w0)
  have refs: "refs w = {#}" using unused_no_refs [OF s(3)] by (simp add: refs_def job_packets_def jl fields)
  have "jobs_inv w {}"
    using w1(4,5,6) mp_inv_new [of 500 1 False] by (simp add: jobs_inv_def jl) (simp add: fields w0)
  moreover have "slots_inv w" using max st(2) s(2) by (simp add: slots_inv_def fields)
  moreover have "sessions_inv w"
    using s(3) by (auto simp: sessions_inv_def fields unused_def send_list_def)
  ultimately have "world_core w {#} {}"
    using pool w1(2) by (simp add: world_core_def refs) (simp add: fields w0)
  then have "world_inv w {#} {}" using s(3) by (simp add: world_inv_def sess_def fields)
  moreover have "\<exists>calls. ServerStart ne raw ip port opt workers maxUserCount topt w0 = Inr (ne_listen ne, calls, w)"
    by (simp add: ServerStart_def s(1) st(1) w_def Let_def split: prod.split)
  ultimately show ?thesis
    using s(2,3) jl w1(6-9) st(3) by (auto simp: fields free_slots_def queue_room_def w0 no_clients_def)
qed

section \<open>Properties\<close>

lemma packets_inv_new: "packets_inv (NetPacketPool_new mark) {#}"
  using packet_pool_inv_new [of mark] by (simp add: packets_inv_def)

text \<open>
  C23. A started server is well formed: with at most 65536 users and every session built in memory that
  reads as zero (its own for each), \<open>ServerStart\<close> on a new chat server ends without a fault in a state that
  satisfies the invariant of the server, with no packet referenced, no job queued, every slot
  unused and all slots on the stack, the last one on top; its answer is that of \<open>listen\<close> alone.
\<close>

theorem ServerStart_well_formed:
  assumes "\<forall>k<unat maxUserCount. zeroed (raw k)" and "unat maxUserCount \<le> 2 ^ 16"
  shows "\<exists>w0 calls w. MyChattingServer_new (NetPacketPool_new mark) = Inr w0 \<and>
    ServerStart ne raw ip port opt workers maxUserCount topt w0 = Inr (ne_listen ne, calls, w) \<and>
    world_inv w {#} {} \<and> job_list w = [] \<and> (\<forall>i<unat maxUserCount. unused (sess w i)) \<and>
    free_slots w = rev (map of_nat [0..<unat maxUserCount])"
proof -
  obtain w0 where w0: "MyChattingServer_new (NetPacketPool_new mark) = Inr w0"
    using MyChattingServer_new_ok by blast
  from ServerStart_world [OF w0 packets_inv_new assms, of ne ip port opt workers topt] obtain calls w where
      w: "ServerStart ne raw ip port opt workers maxUserCount topt w0 = Inr (ne_listen ne, calls, w)"
      "world_inv w {#} {}" "free_slots w = rev (map of_nat [0..<unat maxUserCount])"
      "length (m_SessionArray w) = unat maxUserCount" "\<forall>s\<in>set (m_SessionArray w). unused s" "job_list w = []" by blast
  then have "\<forall>i<unat maxUserCount. unused (sess w i)" by (simp add: sess_def)
  with w0 w show ?thesis by blast
qed

theorem ServerStart_well_formed_witness:
  "\<exists>raw w0 calls w. (\<forall>k. zeroed (raw k)) \<and> s_Port (raw 0) \<noteq> s_Port (raw 1) \<and> MyChattingServer_new (NetPacketPool_new 1) = Inr w0 \<and>
    ServerStart \<lparr>ne_WSAStartup = True, ne_socket = True, ne_bind = False, ne_listen = True\<rparr> raw None 6000
      SocketOption_new 4 3 \<lparr>OptionOn = False, LoginTimeOut = 0, HeartBeatTimeOut = 0\<rparr> w0 = Inr (True, calls, w) \<and>
    world_inv w {#} {} \<and> free_slots w = [2, 1, 0]"
proof -
  define raw :: "nat \<Rightarrow> Session" where "raw k = undefined\<lparr>s_DeQPacketArray := replicate DEQ_PACKET_ARRAY_SIZE None,
    s_SendFlag := 0, s_CloseFlag := 0, s_ErrorCode := 0, s_Port := of_nat k\<rparr>" for k
  have zs: "\<forall>k. zeroed (raw k)" and ports: "s_Port (raw 0) \<noteq> s_Port (raw 1)" by (simp_all add: zeroed_def raw_def)
  then have z: "\<forall>k<unat (3 :: 32 word). zeroed (raw k)" by blast
  have le: "unat (3 :: 32 word) \<le> 2 ^ 16" by simp
  have three: "rev (map of_nat [0..<3]) = [2, 1, 0 :: 64 word]" by (simp add: upt_rec numeral_eq_Suc)
  from ServerStart_well_formed [OF z le, of 1 "\<lparr>ne_WSAStartup = True, ne_socket = True, ne_bind = False, ne_listen = True\<rparr>"
      None 6000 SocketOption_new 4 "\<lparr>OptionOn = False, LoginTimeOut = 0, HeartBeatTimeOut = 0\<rparr>"]
  show ?thesis using zs ports three by auto
qed

end
