(* ===== verification/Accepting.thy ===== *)
theory Accepting
  imports Startup
begin

text \<open>
  Accepting a connection: a free slot becomes a live session with a fresh identifier, the update
  thread is told, and the first receive is posted into the slot's empty ring.
\<close>

section \<open>Slots waiting on the stack\<close>

definition idle_slot :: "Session \<Rightarrow> bool" where
  "idle_slot s \<longleftrightarrow> s_IOCount s \<in> {1, 0x80000001} \<and> send_list s = [] \<and> s_DeQArraySize s = 0 \<and>
     contents (s_RecvRingQ s) = [] \<and> s_SendFlag s = 0 \<and> s_SendByte s = 0 \<and> s_CloseFlag s = 0 \<and> s_ErrorCode s = 0 \<and>
     \<not> s_USED s \<and> \<not> s_bIOCancel s \<and> \<not> s_bReserveDiscon s"

lemma unused_idle: "unused s \<Longrightarrow> idle_slot s"
  by (simp add: unused_def idle_slot_def)

definition free_inv :: "World \<Rightarrow> bool" where
  "free_inv w \<longleftrightarrow> distinct (free_slots w) \<and>
     (\<forall>x\<in>set (free_slots w). unat x < length (m_SessionArray w) \<and> idle_slot (sess w (unat x)))"

lemma direct_room:
  assumes inv: "ring_inv q" and e: "contents q = []"
  shows "\<exists>off. GetRearBufferPtr q = Some off \<and> 0 \<le> off \<and> 0 < GetDirectEnqueueSize q \<and>
           off + GetDirectEnqueueSize q \<le> RING_BUFFER_SIZE"
proof -
  have bounds: "0 \<le> m_Front q" "m_Front q < RING_BUFFER_SIZE" "0 \<le> m_Rear q" "m_Rear q < RING_BUFFER_SIZE"
    using inv by (simp_all add: ring_inv_def)
  have u: "GetUsedSize q = 0" using length_contents [OF inv] e by simp
  then have f: "GetFreeSize_at (m_Front q) (m_Rear q) = RING_BUFFER_SIZE - 1"
    using free_eq [OF inv] size_members(1) [of q] by simp
  have m: "0 \<le> (m_Rear q + 1) mod RING_BUFFER_SIZE" "(m_Rear q + 1) mod RING_BUFFER_SIZE < RING_BUFFER_SIZE"
    using pos_mod_sign [of RING_BUFFER_SIZE] pos_mod_bound [of RING_BUFFER_SIZE] by simp_all
  have d: "GetDirectEnqueueSize q = min (RING_BUFFER_SIZE - 1) (RING_BUFFER_SIZE - (m_Rear q + 1) mod RING_BUFFER_SIZE)"
    unfolding size_members(3) GetDirectEnqueueSize_at_min [OF bounds] f ..
  have ne: "(m_Rear q + 1) smod RING_BUFFER_SIZE \<noteq> m_Front q"
    using f unfolding GetFreeSize_at_used [OF bounds] GetFreeSize_at_def
    by (auto simp: RING_BUFFER_SIZE_def GetUsedSize_at_def smod_succ [OF bounds(3,4)] split: if_splits)
  have "GetRearBufferPtr q = Some ((m_Rear q + 1) mod RING_BUFFER_SIZE)"
    using ne smod_succ [OF bounds(3,4)] by (simp add: GetRearBufferPtr_def mod_succ [OF bounds(3,4)])
  then show ?thesis using d m by (auto simp: RING_BUFFER_SIZE_def)
qed

section \<open>Setting the session up\<close>

definition accepted :: "env \<Rightarrow> nat \<Rightarrow> 64 word \<Rightarrow> string \<Rightarrow> 16 word \<Rightarrow> World \<Rightarrow> Session \<Rightarrow> Session" where
  "accepted e i socket ip port w s = s\<lparr>s_Index := of_nat i, s_Socket := socket,
     s_ID := push_bit 48 (of_nat i) OR (m_SessionID w + 1), s_IOCount := s_IOCount s AND 0x7fffffff,
     s_IP := ip, s_Port := port, s_USED := True,
     s_TimeOut := (if OptionOn (m_TimeOutOption w) then LoginTimeOut (m_TimeOutOption w) else s_TimeOut s),
     s_LastRecvTime := e_time e, s_OrderIndex := s_OrderIndex s + 1,
     s_LastSessionID := (s_LastSessionID s)[unat (s_OrderIndex s mod 3) :=
       (s_SessionOrder s, push_bit 48 (of_nat i) OR (m_SessionID w + 1), socket)],
     s_SessionOrder := s_SessionOrder s + 1\<rparr>"

lemma upd_sess_number: "(upd_sess i f w)\<lparr>m_SessionID := n\<rparr> = upd_sess i f (w\<lparr>m_SessionID := n\<rparr>)"
  by (simp add: upd_sess_def sess_def)

lemma AcceptUser_init_eq:
  assumes "i < length (m_SessionArray w)" and "length ip < 17"
  shows "AcceptUser_init e i socket ip port w =
    Inr (upd_sess i (accepted e i socket ip port w) (w\<lparr>m_SessionID := m_SessionID w + 1\<rparr>))"
  using assms
  by (simp add: AcceptUser_init_def GetSessionID_def Let_def sess_upd upd_sess_upd upd_sess_number)
    (intro conjI impI upd_sess_cong; simp add: accepted_def)

lemma accepted_fields [simp]:
  "s_SendQ (accepted e i socket ip port w s) = s_SendQ s"
  "s_DeQPacketArray (accepted e i socket ip port w s) = s_DeQPacketArray s"
  "s_DeQArraySize (accepted e i socket ip port w s) = s_DeQArraySize s"
  "s_RecvRingQ (accepted e i socket ip port w s) = s_RecvRingQ s"
  "s_IOCount (accepted e i socket ip port w s) = s_IOCount s AND 0x7fffffff"
  "s_ID (accepted e i socket ip port w s) = push_bit 48 (of_nat i) OR (m_SessionID w + 1)"
  "s_Socket (accepted e i socket ip port w s) = socket"
  "s_SendFlag (accepted e i socket ip port w s) = s_SendFlag s"
  "s_SendByte (accepted e i socket ip port w s) = s_SendByte s"
  "s_bIOCancel (accepted e i socket ip port w s) = s_bIOCancel s"
  "s_bReserveDiscon (accepted e i socket ip port w s) = s_bReserveDiscon s"
  "s_USED (accepted e i socket ip port w s)"
  by (simp_all add: accepted_def)

text \<open>A session that has just been accepted.\<close>

definition new_session :: "64 word \<Rightarrow> 64 word \<Rightarrow> Session \<Rightarrow> bool" where
  "new_session sid socket s \<longleftrightarrow> s_ID s = sid \<and> s_Socket s = socket \<and> s_IOCount s = 1 \<and> s_USED s \<and>
     s_SendFlag s = 0 \<and> s_SendByte s = 0 \<and> send_list s = [] \<and> s_DeQArraySize s = 0 \<and>
     contents (s_RecvRingQ s) = [] \<and> \<not> s_bIOCancel s \<and> \<not> s_bReserveDiscon s"

lemma accepted_new:
  assumes "idle_slot s" and "unat (m_SessionID w) + 1 < 2 ^ 48"
  shows "new_session (session_id i (unat (m_SessionID w) + 1)) socket (accepted e i socket ip port w s)"
proof -
  have "s_IOCount s AND 0x7fffffff = 1" using assms(1) by (auto simp: idle_slot_def)
  moreover have "push_bit 48 (of_nat i) OR (m_SessionID w + 1) = session_id i (unat (m_SessionID w) + 1)"
    by (simp add: session_id_def add.commute)
  ultimately show ?thesis
    using assms(1) by (simp add: new_session_def idle_slot_def send_list_def)
qed

lemma new_session_live:
  assumes "new_session sid socket (sess w i)" and "FindSession sid w = Inr i"
  shows "live sid i w"
proof -
  have "s_IOCount (sess w i) = 1" "s_ID (sess w i) = sid" using assms(1) by (simp_all add: new_session_def)
  then show ?thesis using assms(2) by (simp add: live_def count_ok_def released_def)
qed

lemma pop_free_slot:
  assumes inv: "world_core w H J" and free: "free_slots w = x # xs"
  shows "\<exists>st st'. m_IndexStack w = Some st \<and> LockFreeStack_Pop st = Inr (Some x, st') \<and>
    world_core (w\<lparr>m_IndexStack := Some st'\<rparr>) H J \<and> stack_list st' = xs"
proof -
  obtain st where st: "m_IndexStack w = Some st" "stack_inv st" "stack_list st = x # xs"
    using world_coreD(4) [OF inv] free by (auto simp: slots_inv_def free_slots_def)
  from LockFreeStack_Pop_ok [OF st(2)] obtain st' where st':
      "LockFreeStack_Pop st = Inr (Some x, st')" "stack_inv st'" "stack_list st' = xs" by (auto simp: st(3))
  let ?w = "w\<lparr>m_IndexStack := Some st'\<rparr>"
  have "refs ?w = refs w" by (rule refs_cong) simp_all
  moreover have "jobs_inv ?w J = jobs_inv w J" by (rule jobs_inv_cong) simp_all
  ultimately have "world_core ?w H J"
    using inv st'(2) st by (simp add: world_core_def sessions_inv_def slots_inv_def)
  with st st' show ?thesis by blast
qed

definition recv_ok :: "env \<Rightarrow> bool" where
  "recv_ok e \<longleftrightarrow> e_WSARecv e = WsaOk \<or> e_WSARecv e = WsaError WSA_IO_PENDING"

lemma AcceptUser_post_ok:
  assumes "ring_inv (s_RecvRingQ (sess w i))" "contents (s_RecvRingQ (sess w i)) = []" and "recv_ok e"
  shows "\<exists>off n. 0 \<le> off \<and> 0 < n \<and> off + n \<le> RING_BUFFER_SIZE \<and>
    AcceptUser_post e i w = Inr (emit (WSARecv (s_Socket (sess w i)) [(off, n)]) w)"
proof -
  from direct_room [OF assms(1,2)] obtain off where off: "GetRearBufferPtr (s_RecvRingQ (sess w i)) = Some off" "0 \<le> off"
      "0 < GetDirectEnqueueSize (s_RecvRingQ (sess w i))" "off + GetDirectEnqueueSize (s_RecvRingQ (sess w i)) \<le> RING_BUFFER_SIZE"
    by blast
  then have "AcceptUser_post e i w = Inr (emit (WSARecv (s_Socket (sess w i)) [(off, GetDirectEnqueueSize (s_RecvRingQ (sess w i)))]) w)"
    using assms(3) by (auto simp: AcceptUser_post_def Let_def recv_ok_def)
  with off show ?thesis by blast
qed

lemma AcceptUser_world:
  assumes inv: "world_inv w H J" and fi: "free_inv w" and free: "free_slots w = x # xs"
    and num: "unat (m_SessionID w) + 1 < 2 ^ 48" and ip: "length ip < 17" and room: "queue_room (m_ThreadQ w)"
    and env: "\<not> e_IoIncomplete e" "e_IocpAttach e" "recv_ok e"
  defines "i \<equiv> unat x" and "sid \<equiv> session_id (unat x) (unat (m_SessionID w) + 1)"
  shows "\<exists>w' j off n. AcceptUser e socket ip port w = Inr w' \<and> world_inv w' H J \<and>
    new_session sid socket (sess w' i) \<and> live sid i w' \<and> free_slots w' = xs \<and>
    s_SendQ (sess w' i) = s_SendQ (sess w i) \<and> (\<forall>k. k \<noteq> i \<longrightarrow> sess w' k = sess w k) \<and> length (m_SessionArray w') = length (m_SessionArray w) \<and>
    job_list w' = job_list w @ [j] \<and>
    job_of w' j = \<lparr>j_TYPE = ON_CLIENT_JOIN, j_SessionID = sid, j_NetPacketPtr = None\<rparr> \<and>
    w_io w' = w_io w @ [SetUpdateEvent, WSARecv socket [(off, n)]] \<and> 0 \<le> off \<and> 0 < n \<and> off + n \<le> RING_BUFFER_SIZE \<and>
    queue_cap (m_ThreadQ w) \<le> queue_cap (m_ThreadQ w') + 1 \<and> m_ClientMap w' = m_ClientMap w \<and>
    m_Sector w' = m_Sector w \<and> m_ClientPool w' = m_ClientPool w"
proof -
  note core = world_invD(1) [OF inv]
  obtain st st' where st: "m_IndexStack w = Some st" "LockFreeStack_Pop st = Inr (Some x, st')"
      "world_core (w\<lparr>m_IndexStack := Some st'\<rparr>) H J" "stack_list st' = xs"
    using pop_free_slot [OF core free] by blast
  have i: "i < length (m_SessionArray w)" and idle: "idle_slot (sess w i)"
    using fi free by (auto simp: free_inv_def i_def)
  let ?w1 = "w\<lparr>m_IndexStack := Some st'\<rparr>"
  let ?F = "accepted e i socket ip port ?w1"
  let ?w2 = "upd_sess i ?F (?w1\<lparr>m_SessionID := m_SessionID w + 1\<rparr>)"
  let ?w3 = "?w2\<lparr>m_SessionCount := m_SessionCount w + 1\<rparr>"
  have i1: "i < length (m_SessionArray (?w1\<lparr>m_SessionID := m_SessionID w + 1\<rparr>))" using i by simp
  have ring: "ring_inv (s_RecvRingQ (sess w i))"
    using sessions_invD(1) [OF world_coreD(2) [OF core] i] by (simp add: session_ok_def)
  have c1: "world_core (?w1\<lparr>m_SessionID := m_SessionID w + 1\<rparr>) H J"
    by (rule iffD2 [OF world_core_cong st(3)]) simp_all
  have c2: "world_core ?w2 H J" by (rule world_core_session_field [OF c1 i1]) (simp_all add: ring)
  have c3: "world_core ?w3 H J" by (rule iffD2 [OF world_core_cong c2]) simp_all
  have s3: "sess ?w3 i = ?F (sess w i)" "\<And>k. k \<noteq> i \<Longrightarrow> sess ?w3 k = sess w k"
    using i by (simp_all add: sess_upd)
  have sid: "sid = session_id i (unat (m_SessionID w) + 1)" by (simp add: sid_def i_def)
  have new3: "new_session sid socket (sess ?w3 i)"
    unfolding s3(1) sid using accepted_new [OF idle, of ?w1] num by simp
  have find: "FindSession sid v = Inr i"
    if "m_MaxUserCount v = m_MaxUserCount w" "length (m_SessionArray v) = length (m_SessionArray w)" for v
    unfolding sid
    by (rule FindSession_id) (use that num world_coreD(4) [OF core] i in \<open>auto simp: slots_inv_def\<close>)
  have c3': "world_core ?w3 (job_ref None + H) J" using c3 by simp
  have room3: "queue_room (m_ThreadQ ?w3)" using room by simp
  from MakeJobNEnQ_world [OF c3' room3, of e ON_CLIENT_JOIN sid] obtain pool q j where m:
      "MakeJobNEnQ e ON_CLIENT_JOIN sid None ?w3 = Inr (emit SetUpdateEvent (?w3\<lparr>m_JobPool := pool, m_ThreadQ := q\<rparr>))"
      "world_core (emit SetUpdateEvent (?w3\<lparr>m_JobPool := pool, m_ThreadQ := q\<rparr>)) H J"
      "job_list (emit SetUpdateEvent (?w3\<lparr>m_JobPool := pool, m_ThreadQ := q\<rparr>)) = job_list ?w3 @ [j]"
      "job_of (emit SetUpdateEvent (?w3\<lparr>m_JobPool := pool, m_ThreadQ := q\<rparr>)) j =
         \<lparr>j_TYPE = ON_CLIENT_JOIN, j_SessionID = sid, j_NetPacketPtr = None\<rparr>"
      "queue_cap (m_ThreadQ ?w3) \<le> queue_cap q + 1"
    unfolding Let_def by blast
  let ?w4 = "emit SetUpdateEvent (?w3\<lparr>m_JobPool := pool, m_ThreadQ := q\<rparr>)"
  have id3: "s_ID (sess ?w3 i) = sid" using new3 by (simp add: new_session_def)
  have join: "OnClientJoin e sid ?w3 = Inr ?w4" by (simp add: OnClientJoin_def find m(1))
  have s4: "sess ?w4 k = sess ?w3 k" for k by simp
  have "ring_inv (s_RecvRingQ (sess ?w4 i))" "contents (s_RecvRingQ (sess ?w4 i)) = []"
    unfolding s4 s3(1) using ring idle by (simp_all add: idle_slot_def)
  from AcceptUser_post_ok [OF this env(3)] obtain off n where post: "0 \<le> off" "0 < n" "off + n \<le> RING_BUFFER_SIZE"
      "AcceptUser_post e i ?w4 = Inr (emit (WSARecv (s_Socket (sess ?w4 i)) [(off, n)]) ?w4)" by blast
  have sock: "s_Socket (sess ?w4 i) = socket" unfolding s4 using new3 by (simp add: new_session_def)
  let ?w5 = "emit (WSARecv socket [(off, n)]) ?w4"
  have small: "\<not> m_SessionID ?w2 > - 1 - 1"
  proof -
    have "unat (m_SessionID w + 1) < 2 ^ 48" using num by (simp add: unat_word_ariths)
    then show ?thesis by (simp add: word_less_nat_alt)
  qed
  have ip': "length ip < 17" by (rule ip)
  have "AcceptUser e socket ip port w = Inr ?w5"
    using i env(1,2) small AcceptUser_init_eq [of i ?w1, OF _ ip'] join post(4) id3 sock
    by (simp add: AcceptUser_def st(1,2) i_def [symmetric] Let_def)
  moreover have "world_inv ?w5 H J"
  proof (rule world_invI [OF _ inv])
    show "world_core ?w5 H J" using m(2) by simp
    show "array_full (sess ?w5 k)" if "k < length (m_SessionArray w)" "array_full (sess w k)" for k
      using that s3 by (cases "k = i") (simp_all add: array_full_def)
  qed simp
  moreover have "new_session sid socket (sess ?w5 i)" using new3 by simp
  moreover have "live sid i ?w5" by (rule new_session_live [of sid socket]) (use new3 find in simp_all)
  moreover have "free_slots ?w5 = xs" using st(4) by (simp add: free_slots_def)
  moreover have "s_SendQ (sess ?w5 i) = s_SendQ (sess w i)" using s3(1) by simp
  moreover have "\<forall>k. k \<noteq> i \<longrightarrow> sess ?w5 k = sess w k" using s3(2) by simp
  moreover have "length (m_SessionArray ?w5) = length (m_SessionArray w)" by simp
  moreover have "job_list ?w5 = job_list w @ [j]" using m(3) by (simp add: job_list_def)
  moreover have "job_of ?w5 j = \<lparr>j_TYPE = ON_CLIENT_JOIN, j_SessionID = sid, j_NetPacketPtr = None\<rparr>"
    using m(4) by (simp add: job_of_def)
  moreover have "w_io ?w5 = w_io w @ [SetUpdateEvent, WSARecv socket [(off, n)]]" by simp
  moreover have "queue_cap (m_ThreadQ w) \<le> queue_cap (m_ThreadQ ?w5) + 1" using m(5) by simp
  moreover have "m_ClientMap ?w5 = m_ClientMap w" "m_Sector ?w5 = m_Sector w" "m_ClientPool ?w5 = m_ClientPool w" by simp_all
  ultimately show ?thesis using post(1-3) by blast
qed

lemma free_inv_pop:
  assumes fi: "free_inv w" and free: "free_slots w = x # xs" "free_slots w' = xs"
    and same: "\<forall>k. k \<noteq> unat x \<longrightarrow> sess w' k = sess w k" "length (m_SessionArray w') = length (m_SessionArray w)"
  shows "free_inv w'"
proof -
  have "unat y \<noteq> unat x" if "y \<in> set xs" for y
    using fi free(1) that by (auto simp: free_inv_def word_unat_eq_iff [symmetric])
  then show ?thesis using fi free same by (auto simp: free_inv_def)
qed

text \<open>A started server with three slots and a quiet network, for examples.\<close>

definition quiet :: env where
  "quiet = \<lparr>e_tid = 0, e_time = 0, e_rand = 0, e_WSARecv = WsaOk, e_WSASend = WsaOk,
     e_IoIncomplete = False, e_IocpAttach = True\<rparr>"

lemma started_server:
  "\<exists>w. world_inv w {#} {} \<and> free_inv w \<and> free_slots w = [2, 1, 0] \<and> queue_room (m_ThreadQ w) \<and>
     m_SessionID w = 0 \<and> job_list w = [] \<and> queue_cap (m_ThreadQ w) = 2 ^ 31 - 1 \<and> no_clients w \<and> refs w = {#} \<and> length (m_SessionArray w) = 3 \<and>
     (\<forall>k<3. queue_room (s_SendQ (sess w k)) \<and> 4000 \<le> queue_cap (s_SendQ (sess w k)) \<and>
       s_DeQPacketArray (sess w k) = replicate DEQ_PACKET_ARRAY_SIZE None)"
proof -
  obtain w0 where w0: "MyChattingServer_new (NetPacketPool_new 1) = Inr w0" using MyChattingServer_new_ok by blast
  define raw :: "nat \<Rightarrow> Session" where "raw k = undefined\<lparr>s_DeQPacketArray := replicate DEQ_PACKET_ARRAY_SIZE None,
    s_SendFlag := 0, s_CloseFlag := 0, s_ErrorCode := 0\<rparr>" for k
  have z: "\<forall>k<unat (3 :: 32 word). zeroed (raw k)" by (simp add: zeroed_def raw_def)
  have le: "unat (3 :: 32 word) \<le> 2 ^ 16" by simp
  obtain w where w: "world_inv w {#} {}" "free_slots w = rev (map of_nat [0..<unat (3 :: 32 word)])"
      "length (m_SessionArray w) = unat (3 :: 32 word)" "\<forall>s\<in>set (m_SessionArray w). unused s" "job_list w = []" "m_SessionID w = 0"
      "queue_room (m_ThreadQ w)" "queue_cap (m_ThreadQ w) = 2 ^ 31 - 1" "no_clients w"
    using ServerStart_world [OF w0 packets_inv_new z le] by blast
  have "unat (3 :: 32 word) = 3" by simp
  moreover have "rev (map of_nat [0..<3]) = [2, 1, 0 :: 64 word]" by (simp add: upt_rec numeral_eq_Suc)
  ultimately have f: "free_slots w = [2, 1, 0]" using w(2) by (simp only:)
  have s: "unused (sess w k)" if "k < 3" for k using w(3,4) that by (simp add: sess_def)
  then have "free_inv w" using f w(3) unused_idle by (simp add: free_inv_def)
  moreover have "queue_room (s_SendQ (sess w k))" if "k < 3" for k
    using s [OF that] session_queue(2) [of "sess w k"] by (simp add: unused_def queue_room_def)
  moreover have "refs w = {#}" using w(5) unused_no_refs [OF w(4)] by (simp add: refs_def job_packets_def)
  ultimately show ?thesis using w f s by (auto simp: unused_def)
qed

section \<open>Properties\<close>

text \<open>
  C10. Accepting: with a slot on the stack \<open>AcceptUser\<close> takes the top one and makes it the live
  session of an identifier not issued before, with one reference, that of the receive it posts
  into free space of the slot's ring; it queues one job for the update thread, leaves the other
  slots alone and keeps the invariants of the server and of the free slots.
\<close>

theorem AcceptUser_opens_session:
  assumes "world_inv w H J" and "free_inv w" and "free_slots w = x # xs"
    and "unat (m_SessionID w) + 1 < 2 ^ 48" and "length ip < 17" and "queue_room (m_ThreadQ w)"
    and "\<not> e_IoIncomplete e" and "e_IocpAttach e" and "recv_ok e"
  shows "\<exists>w' j off n sid. AcceptUser e socket ip port w = Inr w' \<and> world_inv w' H J \<and> free_inv w' \<and>
    sid = session_id (unat x) (unat (m_SessionID w) + 1) \<and> free_slots w' = xs \<and>
    live sid (unat x) w' \<and> s_IOCount (sess w' (unat x)) = 1 \<and> s_Socket (sess w' (unat x)) = socket \<and>
    (\<forall>k. k \<noteq> unat x \<longrightarrow> sess w' k = sess w k) \<and>
    job_list w' = job_list w @ [j] \<and> j_TYPE (job_of w' j) = ON_CLIENT_JOIN \<and> j_SessionID (job_of w' j) = sid \<and>
    w_io w' = w_io w @ [SetUpdateEvent, WSARecv socket [(off, n)]] \<and>
    0 \<le> off \<and> 0 < n \<and> off + n \<le> RING_BUFFER_SIZE"
proof -
  let ?sid = "session_id (unat x) (unat (m_SessionID w) + 1)"
  from AcceptUser_world [OF assms, of socket port] obtain w' j off n where w':
      "AcceptUser e socket ip port w = Inr w'" "world_inv w' H J" "new_session ?sid socket (sess w' (unat x))"
      "live ?sid (unat x) w'" "free_slots w' = xs" "\<forall>k. k \<noteq> unat x \<longrightarrow> sess w' k = sess w k"
      "length (m_SessionArray w') = length (m_SessionArray w)" "job_list w' = job_list w @ [j]"
      "job_of w' j = \<lparr>j_TYPE = ON_CLIENT_JOIN, j_SessionID = ?sid, j_NetPacketPtr = None\<rparr>"
      "w_io w' = w_io w @ [SetUpdateEvent, WSARecv socket [(off, n)]]" "0 \<le> off" "0 < n" "off + n \<le> RING_BUFFER_SIZE"
    by blast
  from free_inv_pop [OF assms(2,3) w'(5-7)] have "free_inv w'" .
  with w' show ?thesis
    by (intro exI [of _ w'] exI [of _ j] exI [of _ off] exI [of _ n] exI [of _ ?sid]) (simp add: new_session_def)
qed

lemma quiet_env [simp]: "\<not> e_IoIncomplete quiet" "e_IocpAttach quiet" "recv_ok quiet"
  by (simp_all add: quiet_def recv_ok_def)

theorem AcceptUser_opens_session_witness:
  "\<exists>w w'. world_inv w {#} {} \<and> AcceptUser quiet 77 ''10.0.1.2'' 4000 w = Inr w' \<and> world_inv w' {#} {} \<and>
     live (session_id 2 1) 2 w' \<and> free_slots w' = [1, 0]"
proof -
  obtain w where w: "world_inv w {#} {}" "free_inv w" "free_slots w = [2, 1, 0]" "queue_room (m_ThreadQ w)"
      "m_SessionID w = 0" using started_server by blast
  have num: "unat (m_SessionID w) + 1 < 2 ^ 48" using w(5) by simp
  have ip: "length ''10.0.1.2'' < 17" by simp
  from AcceptUser_opens_session [OF w(1-3) num ip w(4) quiet_env, of 77 4000]
  obtain w' where w': "AcceptUser quiet 77 ''10.0.1.2'' 4000 w = Inr w'" "world_inv w' {#} {}"
      "live (session_id 2 1) 2 w'" "free_slots w' = [1, 0]" using w(5) by auto
  with w(1) show ?thesis by blast
qed

end
