(* ===== verification/Releasing.thy ===== *)
theory Releasing
  imports Accepting
begin

text \<open>
  The release of a session: the packets still queued or in flight give their references back, the
  socket is closed, the slot is cleared and returned to the stack, the update thread is told.
\<close>

section \<open>What a step on one slot leaves alone\<close>

definition other_parts :: "nat \<Rightarrow> World \<Rightarrow> World \<Rightarrow> bool" where
  "other_parts i w w' \<longleftrightarrow>
     (\<forall>k. k \<noteq> i \<longrightarrow> sess w' k = sess w k) \<and> length (m_SessionArray w') = length (m_SessionArray w) \<and>
     m_MaxUserCount w' = m_MaxUserCount w \<and> m_IndexStack w' = m_IndexStack w \<and>
     m_ThreadQ w' = m_ThreadQ w \<and> m_JobPool w' = m_JobPool w \<and> w_io w' = w_io w \<and>
     m_SessionID w' = m_SessionID w \<and> m_SessionCount w' = m_SessionCount w \<and>
     m_TimeOutOption w' = m_TimeOutOption w \<and> m_ClientPool w' = m_ClientPool w \<and>
     m_ClientMap w' = m_ClientMap w \<and> m_Sector w' = m_Sector w"

lemma other_parts_refl [simp]: "other_parts i w w"
  by (simp add: other_parts_def)

lemma other_parts_trans [trans]: "other_parts i w w' \<Longrightarrow> other_parts i w' w'' \<Longrightarrow> other_parts i w w''"
  by (simp add: other_parts_def)

lemma other_parts_upd [simp]:
  assumes "i < length (m_SessionArray w)"
  shows "other_parts i w (upd_sess i f w)"
  using assms by (simp add: other_parts_def sess_upd)

lemma other_parts_counters [simp]:
  "other_parts i w (w'\<lparr>w_NetPacketPool := pool, g_FreeMemoryCount := n\<rparr>) = other_parts i w w'"
  "other_parts i w (w'\<lparr>m_SendTPS := k\<rparr>) = other_parts i w w'"
  by (simp_all add: other_parts_def)

section \<open>Giving the packets back\<close>

lemma ReleasePacket_loop_ok:
  assumes "world_core w H J" and "i < length (m_SessionArray w)" and "length (send_list (sess w i)) < fuel"
  shows "\<exists>w' q. ReleasePacket_loop fuel i w = Inr w' \<and> world_core w' H J \<and> other_parts i w w' \<and>
    sess w' i = (sess w i)\<lparr>s_SendQ := q\<rparr> \<and> queue_list q = []"
  using assms
proof (induction fuel arbitrary: w)
  case (Suc fuel)
  note inv = Suc.prems(1) and i = Suc.prems(2)
  from session_DeQ [OF inv i] obtain q where q:
      "LockFreeQ_DeQ spin_fuel (s_SendQ (sess w i)) =
         Inr (case send_list (sess w i) of [] \<Rightarrow> None | p # ps \<Rightarrow> Some (Some p), q)"
      "queue_list q = map Some (tl (send_list (sess w i)))"
      "world_core (upd_sess i (\<lambda>s. s\<lparr>s_SendQ := q\<rparr>) w) (mset (take 1 (send_list (sess w i))) + H) J" by blast
  let ?w1 = "upd_sess i (\<lambda>s. s\<lparr>s_SendQ := q\<rparr>) w"
  have s1: "sess ?w1 i = (sess w i)\<lparr>s_SendQ := q\<rparr>" using i by (simp add: sess_upd)
  show ?case
  proof (cases "send_list (sess w i)")
    case Nil
    then have "ReleasePacket_loop (Suc fuel) i w = Inr ?w1" using q(1) by simp
    moreover have "world_core ?w1 H J" using q(3) Nil by simp
    ultimately show ?thesis
      using s1 i q(2) Nil by (intro exI [of _ ?w1] exI [of _ q]) simp
  next
    case (Cons p ps)
    then have "world_core ?w1 (add_mset p H) J" using q(3) by simp
    from packet_DecRef_world [OF this] obtain pool n where d:
        "packet_DecRef p ?w1 = Inr (?w1\<lparr>w_NetPacketPool := pool, g_FreeMemoryCount := n\<rparr>)"
        "world_core (?w1\<lparr>w_NetPacketPool := pool, g_FreeMemoryCount := n\<rparr>) H J" by blast
    let ?w2 = "?w1\<lparr>w_NetPacketPool := pool, g_FreeMemoryCount := n\<rparr>"
    have s2: "sess ?w2 i = (sess w i)\<lparr>s_SendQ := q\<rparr>" using s1 by simp
    have "send_list (sess ?w2 i) = ps" unfolding s2 using q(2) Cons by simp
    then have "length (send_list (sess ?w2 i)) < fuel" using Suc.prems(3) Cons by simp
    from Suc.IH [OF d(2) _ this] i obtain w' q' where w':
        "ReleasePacket_loop fuel i ?w2 = Inr w'" "world_core w' H J" "other_parts i ?w2 w'"
        "sess w' i = (sess ?w2 i)\<lparr>s_SendQ := q'\<rparr>" "queue_list q' = []" by auto
    have "other_parts i w ?w2" using i by simp
    with w'(3) have "other_parts i w w'" by (rule other_parts_trans [rotated])
    moreover have "ReleasePacket_loop (Suc fuel) i w = Inr w'" using q(1) Cons d(1) w'(1) by simp
    moreover have "sess w' i = (sess w i)\<lparr>s_SendQ := q'\<rparr>" using w'(4) unfolding s2 by simp
    ultimately show ?thesis using w'(2,5) by blast
  qed
qed simp

definition drained :: "Session \<Rightarrow> Session \<Rightarrow> bool" where
  "drained s s' \<longleftrightarrow> (\<exists>q. queue_list q = [] \<and>
     s' = s\<lparr>s_SendQ := q, s_DeQPacketArray := replicate DEQ_PACKET_ARRAY_SIZE None, s_DeQArraySize := 0\<rparr>)"

lemma empty_array:
  assumes "session_ok s" and "s_DeQArraySize s = 0"
  shows "s_DeQPacketArray s = replicate DEQ_PACKET_ARRAY_SIZE None"
  using assms by (intro nth_equalityI) (simp_all add: session_ok_def)

lemma ReleasePacket_ok:
  assumes inv: "world_core w H J" and i: "i < length (m_SessionArray w)" and full: "array_full (sess w i)"
  shows "\<exists>w'. ReleasePacket i w = Inr w' \<and> world_core w' H J \<and> other_parts i w w' \<and> drained (sess w i) (sess w' i)"
proof -
  have ok: "session_ok (sess w i)" by (rule sessions_invD [OF world_coreD(2) [OF inv] i])
  have "length (send_list (sess w i)) < Suc (nat (LockFreeQ_GetQCount (s_SendQ (sess w i))))"
    using session_queue(3) [OF ok] by simp
  from ReleasePacket_loop_ok [OF inv i this] obtain w1 q where w1:
      "ReleasePacket_loop (Suc (nat (LockFreeQ_GetQCount (s_SendQ (sess w i))))) i w = Inr w1" "world_core w1 H J"
      "other_parts i w w1" "sess w1 i = (sess w i)\<lparr>s_SendQ := q\<rparr>" "queue_list q = []" by blast
  have i1: "i < length (m_SessionArray w1)" using i w1(3) by (simp add: other_parts_def)
  show ?thesis
  proof (cases "0 < s_DeQArraySize (sess w1 i)")
    case False
    have "s_DeQArraySize (sess w i) = 0" using False w1(4) by simp
    then have "sess w1 i = (sess w i)\<lparr>s_SendQ := q, s_DeQPacketArray := replicate DEQ_PACKET_ARRAY_SIZE None, s_DeQArraySize := 0\<rparr>"
      using w1(4) empty_array [OF ok] by simp
    then have "drained (sess w i) (sess w1 i)" using w1(5) unfolding drained_def by blast
    moreover have "ReleasePacket i w = Inr w1" using w1(1) False by (simp add: ReleasePacket_def)
    ultimately show ?thesis using w1 by blast
  next
    case True
    have "array_full (sess w1 i)" using full w1(4) by simp
    from DeQPacket_ok [OF w1(2) i1 this] obtain w2 pool n where w2:
        "w2 = (upd_sess i (\<lambda>s. s\<lparr>s_DeQPacketArray := replicate DEQ_PACKET_ARRAY_SIZE None, s_DeQArraySize := 0\<rparr>) w1)
             \<lparr>w_NetPacketPool := pool, g_FreeMemoryCount := n,
              m_SendTPS := m_SendTPS w1 + of_nat (s_DeQArraySize (sess w1 i))\<rparr>"
        "DeQPacket i w1 = Inr w2" "world_core w2 H J" unfolding Let_def by blast
    have s2: "sess w2 i = (sess w i)\<lparr>s_SendQ := q, s_DeQPacketArray := replicate DEQ_PACKET_ARRAY_SIZE None, s_DeQArraySize := 0\<rparr>"
      unfolding w2(1) using i1 w1(4) by (simp add: sess_upd)
    then have "drained (sess w i) (sess w2 i)" using w1(5) unfolding drained_def by blast
    moreover have "other_parts i w1 w2" unfolding w2(1) using i1 by simp
    with w1(3) have "other_parts i w w2" by (rule other_parts_trans)
    moreover have "ReleasePacket i w = Inr w2" using w1(1) True w2(2) by (simp add: ReleasePacket_def)
    ultimately show ?thesis using w2(3) by blast
  qed
qed

section \<open>Clearing the slot\<close>

definition cleared :: "Session \<Rightarrow> Session" where
  "cleared s = s\<lparr>s_Socket := INVALID_SOCKET, s_CloseFlag := 0, s_IOCount := s_IOCount s + 1, s_SendFlag := 0,
     s_RecvRingQ := ClearBuffer (s_RecvRingQ s), s_IP := [], s_Port := 0, s_SendByte := 0, s_USED := False,
     s_ErrorCode := 0, s_GQCSRtn := True, s_TransferZero := 0, s_IOFail := False, s_bIOCancel := False,
     s_bReserveDiscon := False\<rparr>"

lemma cleared_fields [simp]:
  "s_SendQ (cleared s) = s_SendQ s" "s_DeQPacketArray (cleared s) = s_DeQPacketArray s"
  "s_DeQArraySize (cleared s) = s_DeQArraySize s" "s_RecvRingQ (cleared s) = ClearBuffer (s_RecvRingQ s)"
  "s_IOCount (cleared s) = s_IOCount s + 1" "s_ID (cleared s) = s_ID s"
  by (simp_all add: cleared_def)

lemma FindSession_slot:
  assumes "FindSession sid w = Inr i"
  shows "\<exists>index. GetSessionIndex sid w = Inr index \<and> unat index = i \<and> ucast index = (of_nat i :: 64 word)"
proof -
  obtain index where "GetSessionIndex sid w = Inr index" "unat index = i"
    using assms by (auto simp: FindSession_def run_simps split: if_splits)
  moreover have "ucast index = (of_nat (unat index) :: 64 word)" by simp
  ultimately show ?thesis by auto
qed

lemma push_free_slot:
  assumes inv: "world_core w H J" and few: "length (free_slots w) < stack_limit"
  shows "\<exists>st st'. m_IndexStack w = Some st \<and> LockFreeStack_Push 0 x st = Inr st' \<and>
    world_core (w\<lparr>m_IndexStack := Some st'\<rparr>) H J \<and> stack_list st' = x # free_slots w"
proof -
  obtain st where st: "m_IndexStack w = Some st" "stack_inv st"
    using world_coreD(4) [OF inv] by (auto simp: slots_inv_def)
  have "length (stack_list st) < stack_limit" using few st(1) by (simp add: free_slots_def)
  from LockFreeStack_Push_ok [OF st(2) this, of 0 x] obtain st' where st':
      "LockFreeStack_Push 0 x st = Inr st'" "stack_inv st'" "stack_list st' = x # stack_list st" by blast
  let ?w = "w\<lparr>m_IndexStack := Some st'\<rparr>"
  have "refs ?w = refs w" by (rule refs_cong) simp_all
  moreover have "jobs_inv ?w J = jobs_inv w J" by (rule jobs_inv_cong) simp_all
  ultimately have "world_core ?w H J"
    using inv st'(2) st by (simp add: world_core_def sessions_inv_def slots_inv_def)
  with st st' show ?thesis by (auto simp: free_slots_def)
qed

lemma SessionClear_ok:
  assumes inv: "world_core w H J" and i: "i < length (m_SessionArray w)" and e: "send_list (sess w i) = []"
    and f: "FindSession (s_ID (sess w i)) w = Inr i" and few: "length (free_slots w) < stack_limit"
  shows "\<exists>st'. let w' = (upd_sess i cleared w)\<lparr>m_IndexStack := Some st'\<rparr> in
    SessionClear i w = Inr w' \<and> world_core w' H J \<and> stack_list st' = of_nat i # free_slots w"
proof -
  have ok: "session_ok (sess w i)" by (rule sessions_invD [OF world_coreD(2) [OF inv] i])
  have ring: "ring_inv (s_RecvRingQ (sess w i))" using ok by (simp add: session_ok_def)
  have q0: "LockFreeQ_GetQCount (s_SendQ (sess w i)) = 0" using session_queue(3) [OF ok] e by simp
  let ?w1 = "upd_sess i cleared w"
  have "world_core ?w1 H J"
    by (rule world_core_session_field [OF inv i]) (use ring in auto)
  moreover have "length (free_slots ?w1) < stack_limit" using few by (simp add: free_slots_def)
  ultimately obtain st st' where st: "m_IndexStack ?w1 = Some st"
      "LockFreeStack_Push 0 (of_nat i) st = Inr st'" "world_core (?w1\<lparr>m_IndexStack := Some st'\<rparr>) H J"
      "stack_list st' = of_nat i # free_slots ?w1" using push_free_slot [of ?w1 H J "of_nat i"] by blast
  obtain index where ix: "GetSessionIndex (s_ID (sess w i)) w = Inr index" "ucast index = (of_nat i :: 64 word)"
    using FindSession_slot [OF f] by blast
  have cl: "(\<lambda>s. s\<lparr>s_Socket := INVALID_SOCKET, s_CloseFlag := 0, s_IOCount := s_IOCount s + 1, s_SendFlag := 0,
      s_RecvRingQ := ClearBuffer (s_RecvRingQ s), s_IP := [], s_Port := 0, s_SendByte := 0, s_USED := False,
      s_ErrorCode := 0, s_GQCSRtn := True, s_TransferZero := 0, s_IOFail := False, s_bIOCancel := False,
      s_bReserveDiscon := False\<rparr>) = cleared" by (simp add: cleared_def fun_eq_iff)
  have "GetSessionIndex (s_ID (sess w i)) (upd_sess i f w) = Inr index" for f
    using ix(1) by (simp add: GetSessionIndex_def)
  then have "SessionClear i w = Inr (?w1\<lparr>m_IndexStack := Some st'\<rparr>)"
    using i q0 st(1,2) ix(2) by (simp add: SessionClear_def Let_def sess_upd upd_sess_upd cl)
  moreover have "free_slots ?w1 = free_slots w" by (simp add: free_slots_def)
  ultimately show ?thesis unfolding Let_def using st(3,4) by (intro exI [of _ st'] conjI) simp_all
qed

section \<open>The release\<close>

definition release_code :: "int \<Rightarrow> bool" where
  "release_code c \<longleftrightarrow> c \<in> {ERROR_SEM_TIMEOUT, ERROR_NETNAME_DELETED, 0, ERROR_OPERATION_ABORTED}"

text \<open>The part before the packets: the flag, the counter of time-outs, the socket.\<close>

definition flagged :: "nat \<Rightarrow> World \<Rightarrow> World" where
  "flagged i w = (let w = upd_sess i (\<lambda>s. s\<lparr>s_IOCount := 0x80000000\<rparr>) w;
     w = (if s_ErrorCode (sess w i) = ERROR_SEM_TIMEOUT
          then w\<lparr>g_TCPTimeoutReleaseCnt := g_TCPTimeoutReleaseCnt w + 1\<rparr> else w)
   in ReleaseSocket i w)"

lemma upd_sess_timeouts:
  "upd_sess i f (w\<lparr>g_TCPTimeoutReleaseCnt := n\<rparr>) = (upd_sess i f w)\<lparr>g_TCPTimeoutReleaseCnt := n\<rparr>"
  by (simp add: upd_sess_def sess_def)

lemma flagged_world:
  assumes inv: "world_core w H J" and i: "i < length (m_SessionArray w)" and fl: "s_CloseFlag (sess w i) = 0"
  shows "world_core (flagged i w) H J"
    "sess (flagged i w) k = (if k = i then (sess w i)\<lparr>s_IOCount := 0x80000000, s_CloseFlag := 1, s_Socket := INVALID_SOCKET\<rparr> else sess w k)"
    "w_io (flagged i w) = w_io w @ [CloseSocket (s_Socket (sess w i))]"
    "other_parts i (w\<lparr>w_io := w_io (flagged i w)\<rparr>) (flagged i w)"
proof -
  have ring: "ring_inv (s_RecvRingQ (sess w i))"
    using sessions_invD(1) [OF world_coreD(2) [OF inv] i] by (simp add: session_ok_def)
  let ?f = "\<lambda>s. s\<lparr>s_IOCount := 0x80000000, s_CloseFlag := 1, s_Socket := INVALID_SOCKET\<rparr>"
  have eq: "\<exists>n. flagged i w = emit (CloseSocket (s_Socket (sess w i))) ((upd_sess i ?f w)\<lparr>g_TCPTimeoutReleaseCnt := n\<rparr>)"
    using i fl by (cases "s_ErrorCode (sess w i) = ERROR_SEM_TIMEOUT")
      (auto simp: flagged_def ReleaseSocket_def Let_def sess_upd upd_sess_upd upd_sess_timeouts intro: exI [of _ "g_TCPTimeoutReleaseCnt w"])
  then obtain n where n: "flagged i w = emit (CloseSocket (s_Socket (sess w i))) ((upd_sess i ?f w)\<lparr>g_TCPTimeoutReleaseCnt := n\<rparr>)" ..
  have c1: "world_core (upd_sess i ?f w) H J"
    by (rule world_core_session_field [OF inv i]) (simp_all add: ring)
  show "world_core (flagged i w) H J"
    unfolding n world_core_emit by (rule iffD2 [OF world_core_cong c1]) simp_all
  show "sess (flagged i w) k = (if k = i then ?f (sess w i) else sess w k)"
    unfolding n using i by (simp add: sess_upd)
  show "w_io (flagged i w) = w_io w @ [CloseSocket (s_Socket (sess w i))]" unfolding n by simp
  show "other_parts i (w\<lparr>w_io := w_io (flagged i w)\<rparr>) (flagged i w)"
    unfolding n using i by (simp add: other_parts_def sess_upd)
qed

lemma drained_fields:
  assumes "drained s s'"
  shows "s_IOCount s' = s_IOCount s" "s_ID s' = s_ID s" "send_list s' = []" "s_DeQArraySize s' = 0"
    "s_DeQPacketArray s' = replicate DEQ_PACKET_ARRAY_SIZE None"
  using assms by (auto simp: drained_def send_list_def)

lemma cleared_idle:
  assumes "drained s s'" and "s_IOCount s = 0x80000000"
  shows "idle_slot (cleared s')" "array_full (cleared s')"
  using drained_fields [OF assms(1)] assms(2)
  by (simp_all add: idle_slot_def cleared_def send_list_def array_full_def)

lemma find_other: "other_parts i w w' \<Longrightarrow> FindSession sid w' = FindSession sid w"
  by (rule FindSession_cong) (simp_all add: other_parts_def)

lemma ReleaseSession_unfold:
  assumes "s_IOCount (sess w i) = 0" and "s_bReserveDiscon (sess w i)" and "release_code (s_ErrorCode (sess w i))"
    and i: "i < length (m_SessionArray w)" and big: "s_IOCount (sess (flagged i w) i) = 0x80000000"
  shows "ReleaseSession e i w =
    bnd (ReleasePacket i (flagged i w)) (\<lambda>w1.
    bnd (crash_if (0 < LockFreeQ_GetQCount (s_SendQ (sess w1 i)))) (\<lambda>_.
    bnd (crash_if (s_DeQPacketArray (sess w1 i) ! 0 \<noteq> None)) (\<lambda>_.
    bnd (SessionClear i w1) (\<lambda>w1.
    bnd (OnClientLeave e (s_ID (sess w i)) w1) (\<lambda>w1. Inr (w1\<lparr>m_SessionCount := m_SessionCount w1 - 1\<rparr>))))))"
  using assms by (cases "s_ErrorCode (sess w i) = ERROR_SEM_TIMEOUT")
    (auto simp: ReleaseSession_def sess_upd release_code_def flagged_def Let_def)

lemma ReleaseSession_world:
  assumes inv: "world_inv w H J" and i: "i < length (m_SessionArray w)" and zero: "s_IOCount (sess w i) = 0"
    and fl: "s_CloseFlag (sess w i) = 0" and res: "s_bReserveDiscon (sess w i)" "release_code (s_ErrorCode (sess w i))"
    and find: "FindSession (s_ID (sess w i)) w = Inr i" and room: "queue_room (m_ThreadQ w)"
    and few: "length (free_slots w) < stack_limit"
  shows "\<exists>w' j. ReleaseSession e i w = Inr w' \<and> world_inv w' H J \<and> idle_slot (sess w' i) \<and>
    session_refs (sess w' i) = {#} \<and> free_slots w' = of_nat i # free_slots w \<and>
    (\<forall>k. k \<noteq> i \<longrightarrow> sess w' k = sess w k) \<and> length (m_SessionArray w') = length (m_SessionArray w) \<and>
    job_list w' = job_list w @ [j] \<and>
    job_of w' j = \<lparr>j_TYPE = ON_CLIENT_LEAVE, j_SessionID = s_ID (sess w i), j_NetPacketPtr = None\<rparr> \<and>
    w_io w' = w_io w @ [CloseSocket (s_Socket (sess w i)), SetUpdateEvent] \<and> m_SessionCount w' = m_SessionCount w - 1"
proof -
  note core = world_invD(1) [OF inv]
  let ?sid = "s_ID (sess w i)"
  let ?w1 = "flagged i w"
  note w1 = flagged_world [OF core i fl]
  have s1: "sess ?w1 i = (sess w i)\<lparr>s_IOCount := 0x80000000, s_CloseFlag := 1, s_Socket := INVALID_SOCKET\<rparr>"
    using w1(2) [of i] by simp
  have l1: "length (m_SessionArray ?w1) = length (m_SessionArray w)" using w1(4) by (simp add: other_parts_def)
  have i1: "i < length (m_SessionArray ?w1)" using i l1 by simp
  have "array_full (sess ?w1 i)" using world_invD(2) [OF inv i] by (simp add: s1 array_full_def)
  from ReleasePacket_ok [OF w1(1) i1 this] obtain w2 where w2: "ReleasePacket i ?w1 = Inr w2" "world_core w2 H J"
      "other_parts i ?w1 w2" "drained (sess ?w1 i) (sess w2 i)" by blast
  note dr = drained_fields [OF w2(4)]
  have l2: "length (m_SessionArray w2) = length (m_SessionArray w)" using w2(3) l1 by (simp add: other_parts_def)
  have i2: "i < length (m_SessionArray w2)" using i l2 by simp
  have id2: "s_ID (sess w2 i) = ?sid" using dr(2) by (simp add: s1)
  have find2: "FindSession ?sid w2 = Inr i"
    using find find_other [OF w2(3)] find_other [OF w1(4)] by (simp add: FindSession_def GetSessionIndex_def)
  have ok2: "session_ok (sess w2 i)" by (rule sessions_invD [OF world_coreD(2) [OF w2(2)] i2])
  have q2: "LockFreeQ_GetQCount (s_SendQ (sess w2 i)) = 0" using session_queue(3) [OF ok2] dr(3) by simp
  have a2: "s_DeQPacketArray (sess w2 i) ! 0 = None" by (simp add: dr(5) DEQ_PACKET_ARRAY_SIZE_def)
  have find2': "FindSession (s_ID (sess w2 i)) w2 = Inr i" using find2 id2 by simp
  have "length (free_slots w2) < stack_limit"
    using few w1(4) w2(3) by (simp add: free_slots_def other_parts_def)
  from SessionClear_ok [OF w2(2) i2 dr(3) find2' this] obtain w3 st' where w3:
      "w3 = (upd_sess i cleared w2)\<lparr>m_IndexStack := Some st'\<rparr>" "SessionClear i w2 = Inr w3" "world_core w3 H J"
      "stack_list st' = of_nat i # free_slots w2" unfolding Let_def by blast
  have s3: "sess w3 k = (if k = i then cleared (sess w2 i) else sess w2 k)" for k
    unfolding w3(1) using i2 by (simp add: sess_upd)
  have tq: "m_ThreadQ w3 = m_ThreadQ w" "m_JobPool w3 = m_JobPool w"
    using w1(4) w2(3) unfolding w3(1) by (simp_all add: other_parts_def)
  have l3: "length (m_SessionArray w3) = length (m_SessionArray w)" unfolding w3(1) using l2 by simp
  have "m_MaxUserCount w3 = m_MaxUserCount w2" unfolding w3(1) by simp
  then have find3: "FindSession ?sid w3 = Inr i" using find2 l3 l2 FindSession_cong [of w3 w2 ?sid] by simp
  have c3: "world_core w3 (job_ref None + H) J" using w3(3) by simp
  have room3: "queue_room (m_ThreadQ w3)" using room tq by simp
  from MakeJobNEnQ_world [OF c3 room3, of e ON_CLIENT_LEAVE ?sid] obtain w4 pool q j where m:
      "w4 = emit SetUpdateEvent (w3\<lparr>m_JobPool := pool, m_ThreadQ := q\<rparr>)"
      "MakeJobNEnQ e ON_CLIENT_LEAVE ?sid None w3 = Inr w4" "world_core w4 H J" "job_list w4 = job_list w3 @ [j]"
      "job_of w4 j = \<lparr>j_TYPE = ON_CLIENT_LEAVE, j_SessionID = ?sid, j_NetPacketPtr = None\<rparr>"
    unfolding Let_def by blast
  define w5 where "w5 = w4\<lparr>m_SessionCount := m_SessionCount w4 - 1\<rparr>"
  have big: "s_IOCount (sess ?w1 i) = 0x80000000" by (simp add: s1)
  have "OnClientLeave e ?sid w3 = Inr w4" using find3 m(2) by (simp add: OnClientLeave_def)
  then have run: "ReleaseSession e i w = Inr w5"
    using ReleaseSession_unfold [OF zero res i big, of e] w2(1) q2 a2 w3(2) by (simp add: w5_def)
  have s5: "sess w5 k = (if k = i then cleared (sess w2 i) else sess w k)" for k
    using s3 [of k] w2(3) w1(2) [of k] by (auto simp: w5_def m(1) other_parts_def)
  have c5: "world_core w5 H J" unfolding w5_def by (rule iffD2 [OF world_core_cong m(3)]) simp_all
  note idle = cleared_idle [OF w2(4) big]
  have l5: "length (m_SessionArray w5) = length (m_SessionArray w)" using l3 by (simp add: w5_def m(1))
  have "world_inv w5 H J"
    by (rule world_invI [OF c5 inv l5]) (use s5 idle(2) in auto)
  moreover have "free_slots w5 = of_nat i # free_slots w"
    using w3(4) w1(4) w2(3) by (simp add: w5_def m(1) w3(1) free_slots_def other_parts_def)
  moreover have "session_refs (sess w5 i) = {#}"
    using s5 [of i] dr(3,5) by (simp add: session_refs_def send_list_def)
  moreover have "job_list w5 = job_list w @ [j]" using m(4) tq by (simp add: w5_def job_list_def)
  moreover have "job_of w5 j = job_of w4 j" by (simp add: w5_def job_of_def)
  moreover have "w_io w5 = w_io w @ [CloseSocket (s_Socket (sess w i)), SetUpdateEvent]"
    using w1(3) w2(3) by (simp add: w5_def m(1) w3(1) other_parts_def)
  moreover have "m_SessionCount w5 = m_SessionCount w - 1"
    using w1(4) w2(3) by (simp add: w5_def m(1) w3(1) other_parts_def)
  ultimately show ?thesis using run idle(1) s5 m(5) l5 by (intro exI [of _ w5] exI [of _ j]) simp
qed

lemma free_inv_push:
  assumes fi: "free_inv w" and i: "i < 2 ^ 16" "of_nat i \<notin> set (free_slots w)"
    and s: "free_slots w' = of_nat i # free_slots w" "idle_slot (sess w' i)" "i < length (m_SessionArray w')"
    and same: "\<forall>k. k \<noteq> i \<longrightarrow> sess w' k = sess w k" "length (m_SessionArray w') = length (m_SessionArray w)"
  shows "free_inv w'"
proof -
  have u: "unat (of_nat i :: 64 word) = i" using i(1) by (simp add: unsigned_of_nat take_bit_nat_eq_self)
  have "unat y \<noteq> i" if "y \<in> set (free_slots w)" for y
    using that i(2) by auto
  then show ?thesis using fi s same i(2) u by (auto simp: free_inv_def)
qed

lemma free_slots_few:
  assumes "free_inv w"
  shows "length (free_slots w) \<le> length (m_SessionArray w)"
proof -
  have "inj_on unat (set (free_slots w))" by (rule inj_onI) (simp add: word_unat_eq_iff)
  then have "card (unat ` set (free_slots w)) = length (free_slots w)"
    using assms by (simp add: card_image free_inv_def distinct_card)
  moreover have "unat ` set (free_slots w) \<subseteq> {..<length (m_SessionArray w)}"
    using assms by (auto simp: free_inv_def)
  moreover from this have "card (unat ` set (free_slots w)) \<le> card {..<length (m_SessionArray w)}"
    by (intro card_mono) simp_all
  ultimately show ?thesis by simp
qed

text \<open>
  A client that goes away without having sent the message with a single equals sign, or on an
  error code outside a list of four, ends the server: the last decrement of its session's count
  ends in \<open>Crash()\<close>.
\<close>

lemma release_crash:
  assumes "i < length (m_SessionArray w)" and "s_IOCount (sess w i) = 0"
    and "\<not> (s_bReserveDiscon (sess w i) \<and> release_code (s_ErrorCode (sess w i)))"
  shows "ReleaseSession e i w = Inl Crash"
  using assms by (cases "s_bReserveDiscon (sess w i)")
    (auto simp: ReleaseSession_def sess_upd release_code_def Let_def)

lemma release_unannounced_crashes:
  assumes "i < length (m_SessionArray w)" and "s_IOCount (sess w i) = 1"
    and "\<not> s_bReserveDiscon (sess w i) \<or> \<not> release_code (s_ErrorCode (sess w i))"
  shows "IO_Decrement e i w = Inl Crash"
  using assms release_crash [of i "upd_sess i (\<lambda>s. s\<lparr>s_IOCount := s_IOCount s - 1\<rparr>) w" e]
  by (simp add: IO_Decrement_def sess_upd)

text \<open>A session whose last reference is gone, for examples: it is the first one accepted.\<close>

lemma ended_session:
  "\<exists>w. world_inv w {#} {} \<and> free_inv w \<and> free_slots w = [1, 0] \<and> queue_room (m_ThreadQ w) \<and>
     length (m_SessionArray w) = 3 \<and> s_IOCount (sess w 2) = 0 \<and> s_CloseFlag (sess w 2) = 0 \<and>
     s_ErrorCode (sess w 2) = 0 \<and> s_Socket (sess w 2) = 77 \<and> s_bReserveDiscon (sess w 2) = reserved \<and>
     FindSession (s_ID (sess w 2)) w = Inr 2"
proof -
  obtain w where w: "world_inv w {#} {}" "free_inv w" "free_slots w = [2, 1, 0]" "queue_room (m_ThreadQ w)"
      "m_SessionID w = 0" "length (m_SessionArray w) = 3" using started_server by blast
  note core = world_invD(1) [OF w(1)]
  obtain st' where st: "world_core (w\<lparr>m_IndexStack := Some st'\<rparr>) {#} {}" "stack_list st' = [1, 0]"
    using pop_free_slot [OF core w(3)] by blast
  let ?w1 = "w\<lparr>m_IndexStack := Some st'\<rparr>"
  let ?f = "\<lambda>s. s\<lparr>s_ID := session_id 2 1, s_IOCount := 0, s_Socket := 77, s_bReserveDiscon := reserved\<rparr>"
  let ?w2 = "upd_sess 2 ?f ?w1"
  have i: "2 < length (m_SessionArray ?w1)" using w(6) by simp
  have idle: "idle_slot (sess w 2)" using w(2,3) by (simp add: free_inv_def)
  have "ring_inv (s_RecvRingQ (sess w 2))"
    using sessions_invD(1) [OF world_coreD(2) [OF core], of 2] w(6) by (simp add: session_ok_def)
  then have c2: "world_core ?w2 {#} {}" by (intro world_core_session_field [OF st(1) i]) simp_all
  have s2: "sess ?w2 k = (if k = 2 then ?f (sess w 2) else sess w k)" for k using i by (simp add: sess_upd)
  have "world_inv ?w2 {#} {}"
    by (rule world_invI [OF c2 w(1)]) (use s2 in \<open>auto simp: array_full_def\<close>)
  moreover have "free_slots ?w2 = [1, 0]" using st(2) by (simp add: free_slots_def)
  moreover have "free_inv ?w2" by (rule free_inv_pop [OF w(2,3)]) (use s2 calculation(2) in auto)
  moreover have "FindSession (s_ID (sess ?w2 2)) ?w2 = Inr 2"
    unfolding s2 using FindSession_id [of 1 2 ?w2] world_coreD(4) [OF c2] w(6) by (simp add: slots_inv_def)
  moreover have "s_CloseFlag (sess ?w2 2) = 0" "s_ErrorCode (sess ?w2 2) = 0"
    unfolding s2 using idle by (simp_all add: idle_slot_def)
  ultimately show ?thesis using w(4,6) s2 by (intro exI [of _ ?w2]) simp
qed

section \<open>Properties\<close>

text \<open>
  C9. Releasing: what \<open>ReleaseSession\<close> does with a session whose count is zero, whose socket has
  not been closed and whose identifier leads to its slot, while the slot is not on the stack.
  If the client announced that it goes (\<open>s_bReserveDiscon\<close>, set by the message of a single
  equals sign) and the error code is one of the four accepted ones, every reference to packets
  in its queue and its array is given back, the socket is closed, one leave job with the
  identifier it had is queued, and the slot returns, idle and cleared, to the stack; the other
  slots and the invariants of the server are kept.  In every other case, the ordinary
  disconnection of a client that announced nothing among them, it ends the process by \<open>Crash()\<close>.
\<close>

theorem ReleaseSession_returns_slot:
  assumes "world_inv w H J" and "free_inv w" and "i < length (m_SessionArray w)" and "s_IOCount (sess w i) = 0"
    and "s_CloseFlag (sess w i) = 0"
    and "FindSession (s_ID (sess w i)) w = Inr i" and "queue_room (m_ThreadQ w)" and "of_nat i \<notin> set (free_slots w)"
  shows "if s_bReserveDiscon (sess w i) \<and> release_code (s_ErrorCode (sess w i))
    then \<exists>w' j. ReleaseSession e i w = Inr w' \<and> world_inv w' H J \<and> free_inv w' \<and>
      free_slots w' = of_nat i # free_slots w \<and> session_refs (sess w' i) = {#} \<and> idle_slot (sess w' i) \<and>
      (\<forall>k. k \<noteq> i \<longrightarrow> sess w' k = sess w k) \<and> job_list w' = job_list w @ [j] \<and>
      job_of w' j = \<lparr>j_TYPE = ON_CLIENT_LEAVE, j_SessionID = s_ID (sess w i), j_NetPacketPtr = None\<rparr> \<and>
      w_io w' = w_io w @ [CloseSocket (s_Socket (sess w i)), SetUpdateEvent]
    else ReleaseSession e i w = Inl Crash"
proof (cases "s_bReserveDiscon (sess w i) \<and> release_code (s_ErrorCode (sess w i))")
  case True
  have "length (m_SessionArray w) \<le> 2 ^ 16" using world_invD(1) [OF assms(1)] by (simp add: world_core_def slots_inv_def)
  then have small: "i < 2 ^ 16" and few: "length (free_slots w) < stack_limit"
    using assms(3) free_slots_few [OF assms(2)] by (simp_all add: stack_limit_def)
  from ReleaseSession_world [OF assms(1,3-5) conjunct1 [OF True] conjunct2 [OF True] assms(6,7) few, of e] obtain w' j where w':
      "ReleaseSession e i w = Inr w'" "world_inv w' H J" "idle_slot (sess w' i)" "session_refs (sess w' i) = {#}"
      "free_slots w' = of_nat i # free_slots w" "\<forall>k. k \<noteq> i \<longrightarrow> sess w' k = sess w k"
      "length (m_SessionArray w') = length (m_SessionArray w)" "job_list w' = job_list w @ [j]"
      "job_of w' j = \<lparr>j_TYPE = ON_CLIENT_LEAVE, j_SessionID = s_ID (sess w i), j_NetPacketPtr = None\<rparr>"
      "w_io w' = w_io w @ [CloseSocket (s_Socket (sess w i)), SetUpdateEvent]" by blast
  from free_inv_push [OF assms(2) small assms(8) w'(5,3) _ w'(6,7)] assms(3) w'(7) have "free_inv w'" by simp
  with w' show ?thesis unfolding if_P [OF True] by blast
next
  case False
  with release_crash [OF assms(3,4)] show ?thesis unfolding if_not_P [OF False] by blast
qed

theorem ReleaseSession_returns_slot_witness:
  "(\<exists>w w'. s_IOCount (sess w 2) = 0 \<and> ReleaseSession quiet 2 w = Inr w' \<and> world_inv w' {#} {} \<and>
     free_slots w' = [2, 1, 0] \<and> w_io w' = w_io w @ [CloseSocket 77, SetUpdateEvent]) \<and>
   (\<exists>w. s_IOCount (sess w 2) = 0 \<and> \<not> s_bReserveDiscon (sess w 2) \<and> ReleaseSession quiet 2 w = Inl Crash)"
proof
  obtain w where w: "world_inv w {#} {}" "free_inv w" "free_slots w = [1, 0]" "queue_room (m_ThreadQ w)"
      "length (m_SessionArray w) = 3" "s_IOCount (sess w 2) = 0" "s_CloseFlag (sess w 2) = 0"
      "s_ErrorCode (sess w 2) = 0" "s_Socket (sess w 2) = 77" "s_bReserveDiscon (sess w 2)"
      "FindSession (s_ID (sess w 2)) w = Inr 2" using ended_session [of True] by auto
  have i: "2 < length (m_SessionArray w)" and n: "of_nat 2 \<notin> set (free_slots w)" using w by simp_all
  have "s_bReserveDiscon (sess w 2) \<and> release_code (s_ErrorCode (sess w 2))" using w(8,10) by (simp add: release_code_def)
  with ReleaseSession_returns_slot [OF w(1,2) i w(6,7,11,4) n, of quiet] obtain w' where
      "ReleaseSession quiet 2 w = Inr w'" "world_inv w' {#} {}" "free_slots w' = [2, 1, 0]"
      "w_io w' = w_io w @ [CloseSocket 77, SetUpdateEvent]" using w(3,9) by auto
  with w(6) show "\<exists>w w'. s_IOCount (sess w 2) = 0 \<and> ReleaseSession quiet 2 w = Inr w' \<and> world_inv w' {#} {} \<and>
     free_slots w' = [2, 1, 0] \<and> w_io w' = w_io w @ [CloseSocket 77, SetUpdateEvent]" by blast
next
  obtain w where w: "world_inv w {#} {}" "free_inv w" "free_slots w = [1, 0]" "queue_room (m_ThreadQ w)"
      "length (m_SessionArray w) = 3" "s_IOCount (sess w 2) = 0" "s_CloseFlag (sess w 2) = 0"
      "\<not> s_bReserveDiscon (sess w 2)" "FindSession (s_ID (sess w 2)) w = Inr 2" using ended_session [of False] by auto
  have i: "2 < length (m_SessionArray w)" and n: "of_nat 2 \<notin> set (free_slots w)" using w by simp_all
  from ReleaseSession_returns_slot [OF w(1,2) i w(6,7,9,4) n, of quiet] w(8)
  have "ReleaseSession quiet 2 w = Inl Crash" by simp
  with w(6,8) show "\<exists>w. s_IOCount (sess w 2) = 0 \<and> \<not> s_bReserveDiscon (sess w 2) \<and> ReleaseSession quiet 2 w = Inl Crash" by blast
qed

end
