(* ===== verification/Transition.thy ===== *)
theory Transition
  imports Main
begin

text \<open>
  Concurrent protocols as transition systems: reachable states, the contract of an inductive
  invariant, and the contract of a set of finishing steps that a number bounds.
\<close>

inductive reachable :: "('s \<Rightarrow> bool) \<Rightarrow> ('s \<Rightarrow> 's \<Rightarrow> bool) \<Rightarrow> 's \<Rightarrow> bool"
  for init :: "'s \<Rightarrow> bool" and step :: "'s \<Rightarrow> 's \<Rightarrow> bool" where
  reachable_init: "init s \<Longrightarrow> reachable init step s"
| reachable_step: "reachable init step s \<Longrightarrow> step s s' \<Longrightarrow> reachable init step s'"

locale inductive_invariant =
  fixes init :: "'s \<Rightarrow> bool"
    and step :: "'s \<Rightarrow> 's \<Rightarrow> bool"
    and inv :: "'s \<Rightarrow> bool"
  assumes inv_init: "init s \<Longrightarrow> inv s"
    and inv_step: "inv s \<Longrightarrow> step s s' \<Longrightarrow> inv s'"
begin

lemma inv_reachable: "reachable init step s \<Longrightarrow> inv s"
  by (induction rule: reachable.induct) (auto intro: inv_init inv_step)

end

text \<open>
  Some of the steps only finish work that has begun.  They cannot go on for ever, so a state in
  which none is left is reached whatever order the threads run in.
\<close>

locale finishing_steps = inductive_invariant init step inv
  for init :: "'s \<Rightarrow> bool" and step :: "'s \<Rightarrow> 's \<Rightarrow> bool" and inv :: "'s \<Rightarrow> bool" +
  fixes finish :: "'s \<Rightarrow> 's \<Rightarrow> bool"
    and work :: "'s \<Rightarrow> nat"
  assumes finish_step: "finish s s' \<Longrightarrow> step s s'"
    and finish_less: "inv s \<Longrightarrow> finish s s' \<Longrightarrow> work s' < work s"
begin

lemma finish_inv: "inv s \<Longrightarrow> finish s s' \<Longrightarrow> inv s'"
  by (rule inv_step) (auto intro: finish_step)

lemma finish_bound: "inv s \<Longrightarrow> (finish ^^ k) s s' \<Longrightarrow> inv s' \<and> k + work s' \<le> work s"
proof (induction k arbitrary: s')
  case (Suc k)
  then obtain t where t: "(finish ^^ k) s t" "finish t s'" by auto
  with Suc have "inv t" "k + work t \<le> work s" by auto
  then show ?case using finish_inv [OF _ t(2)] finish_less [OF _ t(2)] by auto
qed simp

lemma finish_end: "inv s \<Longrightarrow> \<exists>s'. finish\<^sup>*\<^sup>* s s' \<and> inv s' \<and> (\<nexists>t. finish s' t)"
proof (induction "work s" arbitrary: s rule: less_induct)
  case less
  show ?case
  proof (cases "\<exists>t. finish s t")
    case True
    then obtain t where t: "finish s t" ..
    from less(1) [OF finish_less [OF less(2) t] finish_inv [OF less(2) t]] t show ?thesis
      by (meson converse_rtranclp_into_rtranclp)
  next
    case False
    with less(2) show ?thesis by auto
  qed
qed

end

end
