(* ===== verification/SessionProtocol.thy ===== *)
theory SessionProtocol
  imports Transition SessionFacts "HOL-Library.Multiset"
begin

text \<open>
  One session slot under any number of threads, instruction by instruction: the reference count
  with its release flag, the identifier, the stack of free slots.  The interlocked operations
  and the plain reads of \<open>_IOCount\<close> and \<open>_ID\<close> are one step each; what lies between them is
  where a thread is.  Threads differ only in that, so their positions are a multiset; a pending
  receive or send holds its reference like a thread.
\<close>

section \<open>The slot and where the threads are\<close>

text \<open>
  \<open>Entered\<close> has counted itself in \<open>AcquireSession\<close>, \<open>Checked\<close> has seen the flag clear, \<open>Holding\<close>
  has seen the identifier too, \<open>Failing\<close> has not; \<open>Zero\<close> has brought the count to zero and is
  about to call \<open>ReleaseSession\<close>, \<open>Releasing\<close> has set the flag, \<open>Cleared\<close> has counted the
  reference for the slot's next session.  \<open>Popped\<close>, \<open>Named\<close> and \<open>Opened\<close> are in \<open>AcceptUser\<close>: the
  index is taken, the identifier set, the flag cleared.
\<close>

datatype pc = Idle | Entered "64 word" | Checked "64 word" | Holding "64 word" | Failing
  | Zero | Releasing | Cleared | Popped | Named | Opened "64 word"

text \<open>
  \<open>sl_free\<close> says that the slot's index is on the stack, \<open>sl_lost\<close> that an accept that failed to
  attach its socket to the completion port went away with the index and left its reference in
  the count.  The last three fields are kept for the
  properties only: the number of the slot's session, how many sessions were opened, and the
  numbers of those that were released.
\<close>

record Slot =
  sl_IOCount :: "32 word"
  sl_ID :: "64 word"
  sl_free :: bool
  sl_lost :: bool
  sl_threads :: "pc multiset"
  sl_number :: nat
  sl_opened :: nat
  sl_log :: "nat list"

definition after_decrement :: "32 word \<Rightarrow> pc" where
  "after_decrement n = (if n = 0 then Zero else Idle)"

text \<open>
  The steps.  Their first argument of type \<^typ>\<open>bool\<close> says whether the step begins something:
  entering \<open>AcquireSession\<close>, starting an operation under a reference held, or accepting.
\<close>

text \<open>
  \<open>AcquireSession\<close>.  Nobody knows an identifier of a slot that never had a session.
\<close>

inductive acquire_step :: "bool \<Rightarrow> Slot \<Rightarrow> Slot \<Rightarrow> bool" where
  enter: "sl_threads s = add_mset Idle T \<Longrightarrow> 0 < sl_opened s \<Longrightarrow>
    acquire_step True s (s\<lparr>sl_IOCount := sl_IOCount s + 1, sl_threads := add_mset (Entered sid) T\<rparr>)"
| test_flag: "sl_threads s = add_mset (Entered sid) T \<Longrightarrow>
    acquire_step False s (s\<lparr>sl_threads :=
      add_mset (if sl_IOCount s AND 0x80000000 \<noteq> 0 then Failing else Checked sid) T\<rparr>)"
| test_id: "sl_threads s = add_mset (Checked sid) T \<Longrightarrow>
    acquire_step False s (s\<lparr>sl_threads :=
      add_mset (if sl_ID s \<noteq> sid then Failing else Holding sid) T\<rparr>)"
| fail: "sl_threads s = add_mset Failing T \<Longrightarrow>
    acquire_step False s (s\<lparr>sl_IOCount := sl_IOCount s - 1,
      sl_threads := add_mset (after_decrement (sl_IOCount s - 1)) T\<rparr>)"

text \<open>
  A holder lets go of its reference, or counts one more for a receive or send it starts.
\<close>

inductive holder_step :: "bool \<Rightarrow> Slot \<Rightarrow> Slot \<Rightarrow> bool" where
  leave: "sl_threads s = add_mset (Holding sid) T \<Longrightarrow>
    holder_step False s (s\<lparr>sl_IOCount := sl_IOCount s - 1,
      sl_threads := add_mset (after_decrement (sl_IOCount s - 1)) T\<rparr>)"
| start_io: "sl_threads s = add_mset (Holding sid) (add_mset Idle T) \<Longrightarrow>
    holder_step True s (s\<lparr>sl_IOCount := sl_IOCount s + 1,
      sl_threads := add_mset (Holding sid) (add_mset (Holding sid) T)\<rparr>)"

text \<open>
  \<open>ReleaseSession\<close> and \<open>SessionClear\<close>: the compare-exchange, the reference for the next session, the
  return of the index.
\<close>

inductive release_step :: "bool \<Rightarrow> Slot \<Rightarrow> Slot \<Rightarrow> bool" where
  release: "sl_threads s = add_mset Zero T \<Longrightarrow> sl_IOCount s = 0 \<Longrightarrow>
    release_step False s (s\<lparr>sl_IOCount := 0x80000000, sl_threads := add_mset Releasing T,
      sl_log := sl_number s # sl_log s\<rparr>)"
| no_release: "sl_threads s = add_mset Zero T \<Longrightarrow> sl_IOCount s \<noteq> 0 \<Longrightarrow>
    release_step False s (s\<lparr>sl_threads := add_mset Idle T\<rparr>)"
| clear: "sl_threads s = add_mset Releasing T \<Longrightarrow>
    release_step False s (s\<lparr>sl_IOCount := sl_IOCount s + 1, sl_threads := add_mset Cleared T\<rparr>)"
| push: "sl_threads s = add_mset Cleared T \<Longrightarrow>
    release_step False s (s\<lparr>sl_free := True, sl_threads := add_mset Idle T\<rparr>)"

text \<open>
  \<open>AcceptUser\<close> on slot \<open>i\<close>: other slots may have taken numbers since, so any later one can come.
  Once the flag is cleared, \<^verbatim>\<open>CreateIoCompletionPort\<close> succeeds, and the reference is that of the
  receive posted next, or it fails, and \<open>AcceptUser\<close> returns: nothing pushes the index back and
  nothing takes the reference out of the count.
\<close>

inductive accept_step :: "nat \<Rightarrow> bool \<Rightarrow> Slot \<Rightarrow> Slot \<Rightarrow> bool" for i :: nat where
  pop: "sl_threads s = add_mset Idle T \<Longrightarrow> sl_free s \<Longrightarrow>
    accept_step i True s (s\<lparr>sl_free := False, sl_threads := add_mset Popped T\<rparr>)"
| set_id: "sl_threads s = add_mset Popped T \<Longrightarrow> sl_number s < n \<Longrightarrow>
    accept_step i False s (s\<lparr>sl_ID := session_id i n, sl_number := n, sl_threads := add_mset Named T\<rparr>)"
| open_slot: "sl_threads s = add_mset Named T \<Longrightarrow>
    accept_step i False s (s\<lparr>sl_IOCount := sl_IOCount s AND 0x7fffffff, sl_opened := sl_opened s + 1,
      sl_threads := add_mset (Opened (sl_ID s)) T\<rparr>)"
| attach: "sl_threads s = add_mset (Opened sid) T \<Longrightarrow>
    accept_step i False s (s\<lparr>sl_threads := add_mset (Holding sid) T\<rparr>)"
| attach_fails: "sl_threads s = add_mset (Opened sid) T \<Longrightarrow>
    accept_step i False s (s\<lparr>sl_lost := True, sl_threads := add_mset Idle T\<rparr>)"

definition slot_step :: "nat \<Rightarrow> bool \<Rightarrow> Slot \<Rightarrow> Slot \<Rightarrow> bool" where
  "slot_step i new s s' \<longleftrightarrow>
     acquire_step new s s' \<or> holder_step new s s' \<or> release_step new s s' \<or> accept_step i new s s'"


lemma slot_stepI:
  "acquire_step new s s' \<Longrightarrow> slot_step i new s s'" "holder_step new s s' \<Longrightarrow> slot_step i new s s'"
  "release_step new s s' \<Longrightarrow> slot_step i new s s'" "accept_step i new s s' \<Longrightarrow> slot_step i new s s'"
  by (simp_all add: slot_step_def)

text \<open>A new slot as the constructor and \<open>ServerStart\<close> leave it, and \<open>n\<close> threads elsewhere.\<close>

definition slot_init :: "nat \<Rightarrow> Slot \<Rightarrow> bool" where
  "slot_init n s \<longleftrightarrow> s = \<lparr>sl_IOCount = 1, sl_ID = 0, sl_free = True, sl_lost = False, sl_threads = replicate_mset n Idle,
     sl_number = 0, sl_opened = 0, sl_log = []\<rparr>"

section \<open>The invariant\<close>

text \<open>A thread that is counted, and one that owns the slot alone.\<close>

fun counted :: "pc \<Rightarrow> bool" where
  "counted (Entered sid) = True"
| "counted (Checked sid) = True"
| "counted (Holding sid) = True"
| "counted Failing = True"
| "counted (Opened sid) = True"
| "counted _ = False"

fun owner :: "pc \<Rightarrow> bool" where
  "owner Releasing = True"
| "owner Cleared = True"
| "owner Popped = True"
| "owner Named = True"
| "owner _ = False"

definition holders :: "Slot \<Rightarrow> nat" where
  "holders s = size (filter_mset counted (sl_threads s))"

definition owners :: "Slot \<Rightarrow> nat" where
  "owners s = size (filter_mset owner (sl_threads s)) + (if sl_free s then 1 else 0)"

text \<open>
  What the count is made of: the holders, the reference nobody holds any more, the flag, the
  reference for the next session.
\<close>

definition lost_count :: "Slot \<Rightarrow> nat" where
  "lost_count s = (if sl_lost s then 1 else 0)"

fun opened_pc :: "pc \<Rightarrow> bool" where
  "opened_pc (Opened sid) = True"
| "opened_pc _ = False"

definition attaching :: "Slot \<Rightarrow> nat" where
  "attaching s = size (filter_mset opened_pc (sl_threads s))"

definition base_count :: "Slot \<Rightarrow> nat" where
  "base_count s =
     (if owners s = 0 then 0
      else (if sl_opened s = 0 then 0 else 2 ^ 31) + (if Releasing \<in># sl_threads s then 0 else 1))"

definition count_inv :: "Slot \<Rightarrow> bool" where
  "count_inv s \<longleftrightarrow> unat (sl_IOCount s) = holders s + lost_count s + base_count s \<and> owners s \<le> 1 \<and>
     (sl_lost s \<longrightarrow> owners s = 0) \<and> attaching s + lost_count s \<le> 1 \<and> size (sl_threads s) < 2 ^ 31 - 2"

definition thread_ok :: "Slot \<Rightarrow> pc \<Rightarrow> bool" where
  "thread_ok s p \<longleftrightarrow>
     (case p of
        Checked sid \<Rightarrow> owners s = 0
      | Holding sid \<Rightarrow> owners s = 0 \<and> sl_ID s = sid
      | Opened sid \<Rightarrow> owners s = 0 \<and> sl_ID s = sid
      | _ \<Rightarrow> True)"

definition slot_inv :: "Slot \<Rightarrow> bool" where
  "slot_inv s \<longleftrightarrow> count_inv s \<and> (\<forall>p\<in>#sl_threads s. thread_ok s p) \<and>
     (owners s = 0 \<and> holders s = 0 \<and> \<not> sl_lost s \<longrightarrow> Zero \<in># sl_threads s) \<and>
     (sl_opened s = 0 \<longrightarrow> owners s = 1 \<and> (\<forall>p\<in>#sl_threads s. p \<in> {Idle, Popped, Named})) \<and>
     (0 < sl_opened s \<longrightarrow> (sl_number s \<in> set (sl_log s) \<longleftrightarrow> owners s = 1 \<and> Named \<notin># sl_threads s)) \<and>
     distinct (sl_log s) \<and> (\<forall>n\<in>set (sl_log s). n \<le> sl_number s) \<and> (sl_opened s = 0 \<longrightarrow> sl_log s = [])"

section \<open>The invariant is kept\<close>

lemma unat_inc: "unat x + 1 < 2 ^ 32 \<Longrightarrow> unat (x + 1 :: 32 word) = unat x + 1"
  by (simp add: unat_word_ariths)

lemma unat_dec: "x \<noteq> 0 \<Longrightarrow> unat (x - 1 :: 32 word) = unat x - 1"
  by (rule unat_minus_one)

lemma unat_unflag: "unat (x AND 0x7fffffff :: 32 word) = unat x mod 2 ^ 31"
proof -
  have "(0x7fffffff :: 32 word) = mask 31" by (simp add: mask_eq_exp_minus_1)
  then have "x AND 0x7fffffff = take_bit 31 x" by (simp only: take_bit_eq_mask)
  then show ?thesis by (simp add: unsigned_take_bit_eq) (simp add: take_bit_eq_mod)
qed

lemma flag_iff: "x AND 0x80000000 \<noteq> 0 \<longleftrightarrow> 2 ^ 31 \<le> unat (x :: 32 word)"
  unfolding flag_eq flag_less by (simp add: word_le_nat_alt)

lemma holders_le: "holders s \<le> size (sl_threads s)"
  unfolding holders_def by (rule size_filter_mset_lesseq)

text \<open>The flag is set exactly while the slot has an owner, except before its first session.\<close>

lemma flag_owner:
  assumes "slot_inv s"
  shows "2 ^ 31 \<le> unat (sl_IOCount s) \<longleftrightarrow> owners s = 1 \<and> 0 < sl_opened s"
  using assms holders_le [of s]
  by (auto simp: slot_inv_def count_inv_def base_count_def lost_count_def split: if_splits)

lemma counted_opened: "\<not> counted p \<Longrightarrow> \<not> opened_pc p"
  by (cases p) simp_all

lemma attaching_moved:
  "sl_threads s = add_mset p T \<Longrightarrow> sl_threads s' = add_mset q T \<Longrightarrow> \<not> opened_pc q \<Longrightarrow> attaching s' \<le> attaching s"
  by (simp add: attaching_def)

lemmas slot_defs = holders_def owners_def attaching_def lost_count_def base_count_def thread_ok_def after_decrement_def

lemma inv_thread: "slot_inv s \<Longrightarrow> p \<in># sl_threads s \<Longrightarrow> thread_ok s p"
  by (simp add: slot_inv_def)

lemma thread_ok_cong: "owners s' = owners s \<Longrightarrow> sl_ID s' = sl_ID s \<Longrightarrow> thread_ok s' p = thread_ok s p"
  by (simp add: thread_ok_def split: pc.split)

lemma decrement_ok:
  assumes inv: "slot_inv s" and T: "sl_threads s = add_mset p T" and p: "counted p"
  defines "s' \<equiv> s\<lparr>sl_IOCount := sl_IOCount s - 1,
      sl_threads := add_mset (after_decrement (sl_IOCount s - 1)) T\<rparr>"
  shows "slot_inv s'"
proof -
  have c: "count_inv s" and op: "sl_opened s = 0 \<longrightarrow> owners s = 1 \<and> (\<forall>p\<in>#sl_threads s. p \<in> {Idle, Popped, Named})"
    using inv by (simp_all add: slot_inv_def)
  have np: "\<not> owner p" using p by (cases p) auto
  have opened: "0 < sl_opened s" using op p T by (cases p) auto
  have h: "holders s = Suc (size (filter_mset counted T))" using p T by (simp add: holders_def)
  then have ne: "sl_IOCount s \<noteq> 0" using c by (auto simp: count_inv_def)
  let ?z = "after_decrement (sl_IOCount s - 1)"
  have z: "\<not> counted ?z" "\<not> owner ?z" "?z \<noteq> Named" "?z \<noteq> Releasing" by (auto simp: after_decrement_def)
  have pn: "p \<noteq> Releasing" "p \<noteq> Named" using p by auto
  have o: "owners s' = owners s" using T np z by (simp add: owners_def s'_def)
  have h': "holders s' + 1 = holders s" using h z by (simp add: holders_def s'_def)
  have b: "base_count s' = base_count s" using T z pn o by (auto simp: base_count_def s'_def)
  have l: "lost_count s' = lost_count s" "sl_lost s' = sl_lost s" by (simp_all add: lost_count_def s'_def)
  have n: "unat (sl_IOCount s') = unat (sl_IOCount s) - 1" using unat_dec [OF ne] by (simp add: s'_def)
  have "attaching s' \<le> attaching s"
    by (rule attaching_moved [OF T, of _ ?z]) (simp_all add: s'_def counted_opened [OF z(1)])
  then have c': "count_inv s'" using c o h' b l n T by (simp add: count_inv_def s'_def)
  have "Zero \<in># sl_threads s'" if "owners s' = 0" "holders s' = 0" "\<not> sl_lost s'"
  proof -
    have "unat (sl_IOCount s') = 0" using c' that by (simp add: count_inv_def base_count_def lost_count_def)
    then have "sl_IOCount s - 1 = 0" by (simp add: s'_def unat_eq_0)
    then show ?thesis by (simp add: s'_def after_decrement_def)
  qed
  moreover have "\<forall>q\<in>#sl_threads s'. thread_ok s' q"
  proof
    fix q assume "q \<in># sl_threads s'"
    then have "q = ?z \<or> q \<in># sl_threads s" using T by (auto simp: s'_def)
    then show "thread_ok s' q"
      using inv_thread [OF inv] thread_ok_cong [of s' s, OF o] by (auto simp: after_decrement_def thread_ok_def s'_def)
  qed
  moreover have "Named \<in># sl_threads s' \<longleftrightarrow> Named \<in># sl_threads s" using T z pn by (auto simp: s'_def)
  ultimately show ?thesis
    using inv c' o opened by (simp add: slot_inv_def s'_def)
qed

text \<open>Steps that leave the count alone, or add to it for a thread that is counted from now on.\<close>

lemma move_ok:
  assumes inv: "slot_inv s" and T: "sl_threads s = add_mset p T" and opened: "0 < sl_opened s"
    and same: "counted q = counted p" "\<not> owner p" "\<not> owner q" "\<not> opened_pc q" "p = Zero \<longrightarrow> sl_IOCount s \<noteq> 0"
    and q: "thread_ok s q"
  shows "slot_inv (s\<lparr>sl_threads := add_mset q T\<rparr>)"
proof -
  let ?s' = "s\<lparr>sl_threads := add_mset q T\<rparr>"
  have c: "count_inv s" using inv by (simp add: slot_inv_def)
  have pn: "p \<noteq> Releasing" "p \<noteq> Named" "q \<noteq> Releasing" "q \<noteq> Named" using same by auto
  have o: "owners ?s' = owners s" and h: "holders ?s' = holders s"
    using T same by (simp_all add: owners_def holders_def)
  have b: "base_count ?s' = base_count s" using T pn o by (auto simp: base_count_def)
  have "attaching ?s' \<le> attaching s" by (rule attaching_moved [OF T _ same(4)]) simp
  then have c': "count_inv ?s'" using c o h b T by (simp add: count_inv_def lost_count_def)
  have "Zero \<in># sl_threads ?s'" if z: "owners ?s' = 0" "holders ?s' = 0" "\<not> sl_lost ?s'"
  proof -
    have "sl_IOCount s = 0" using c z o h by (simp add: count_inv_def base_count_def lost_count_def unat_eq_0)
    moreover have "Zero \<in># sl_threads s" using inv z o h by (simp add: slot_inv_def)
    ultimately show ?thesis using T same(5) by auto
  qed
  moreover have "\<forall>r\<in>#sl_threads ?s'. thread_ok ?s' r"
  proof
    fix r assume "r \<in># sl_threads ?s'"
    then have "r = q \<or> r \<in># sl_threads s" using T by auto
    then show "thread_ok ?s' r"
      using inv_thread [OF inv] thread_ok_cong [of "?s'" s, OF o] q by auto
  qed
  moreover have "Named \<in># sl_threads ?s' \<longleftrightarrow> Named \<in># sl_threads s" using T pn by auto
  ultimately show ?thesis using inv c' o opened by (simp add: slot_inv_def)
qed

lemma enter_ok:
  assumes inv: "slot_inv s" and T: "sl_threads s = add_mset Idle T" and opened: "0 < sl_opened s"
    and q: "counted q" "thread_ok s q" "\<not> opened_pc q"
  shows "slot_inv (s\<lparr>sl_IOCount := sl_IOCount s + 1, sl_threads := add_mset q T\<rparr>)"
proof -
  let ?s' = "s\<lparr>sl_IOCount := sl_IOCount s + 1, sl_threads := add_mset q T\<rparr>"
  have c: "count_inv s" using inv by (simp add: slot_inv_def)
  have nq: "\<not> owner q" "q \<noteq> Releasing" "q \<noteq> Named" using q(1) by (cases q; simp)+
  have o: "owners ?s' = owners s" and h: "holders ?s' = holders s + 1"
    using T q nq by (simp_all add: owners_def holders_def)
  have b: "base_count ?s' = base_count s" using T nq o by (auto simp: base_count_def)
  have "unat (sl_IOCount s) + 1 < 2 ^ 32"
    using c holders_le [of s] by (auto simp: count_inv_def base_count_def lost_count_def split: if_splits)
  then have n: "unat (sl_IOCount ?s') = unat (sl_IOCount s) + 1" by (simp add: unat_inc)
  have "attaching ?s' \<le> attaching s" by (rule attaching_moved [OF T _ q(3)]) simp
  then have c': "count_inv ?s'" using c o h b n T by (simp add: count_inv_def lost_count_def)
  moreover have "\<forall>r\<in>#sl_threads ?s'. thread_ok ?s' r"
  proof
    fix r assume "r \<in># sl_threads ?s'"
    then have "r = q \<or> r \<in># sl_threads s" using T by auto
    then show "thread_ok ?s' r"
      using inv_thread [OF inv] thread_ok_cong [of "?s'" s, OF o] q by auto
  qed
  moreover have "Named \<in># sl_threads ?s' \<longleftrightarrow> Named \<in># sl_threads s" using T nq by auto
  ultimately show ?thesis using inv c' o h opened by (simp add: slot_inv_def)
qed

lemma zero_owners:
  assumes inv: "slot_inv s" and T: "sl_threads s = add_mset Zero T" and z: "sl_IOCount s = 0"
  shows "owners s = 0 \<and> holders s = 0 \<and> \<not> sl_lost s \<and> 0 < sl_opened s"
proof -
  have c: "holders s + lost_count s + base_count s = 0" using inv z by (simp add: slot_inv_def count_inv_def)
  have op: "0 < sl_opened s" using inv T by (auto simp: slot_inv_def)
  then have "owners s = 0" using c by (auto simp: base_count_def split: if_splits)
  with c op show ?thesis by (simp add: lost_count_def split: if_splits)
qed

text \<open>The steps of an owner: the count and the flag follow the owner's position.\<close>

lemma owner_ok:
  assumes inv: "slot_inv s" and T: "sl_threads s = add_mset p T" "sl_threads s' = add_mset q T"
    and one: "owners s' = 1" "\<not> sl_lost s'" and nc: "\<not> counted p" "\<not> counted q"
    and was: "owners s = 1 \<or> holders s = 0"
    and n: "unat (sl_IOCount s') = holders s + base_count s'"
    and op: "sl_opened s' = sl_opened s" "sl_opened s = 0 \<longrightarrow> q \<in> {Idle, Popped, Named}"
    and log: "0 < sl_opened s \<longrightarrow> (sl_number s' \<in> set (sl_log s') \<longleftrightarrow> Named \<notin># sl_threads s')"
      "distinct (sl_log s')" "\<forall>n\<in>set (sl_log s'). n \<le> sl_number s'" "sl_opened s = 0 \<longrightarrow> sl_log s' = []"
  shows "slot_inv s'"
proof -
  have h: "holders s' = holders s" using T nc by (simp add: holders_def)
  have "attaching s' \<le> attaching s" by (rule attaching_moved [OF T counted_opened [OF nc(2)]])
  then have "count_inv s'" using inv n one h T by (simp add: slot_inv_def count_inv_def lost_count_def)
  moreover have "\<forall>r\<in>#sl_threads s'. thread_ok s' r"
  proof
    fix r assume r: "r \<in># sl_threads s'"
    have "\<not> (\<exists>sid. r = Checked sid \<or> r = Holding sid \<or> r = Opened sid)"
    proof
      assume ex: "\<exists>sid. r = Checked sid \<or> r = Holding sid \<or> r = Opened sid"
      then have ct: "counted r" by auto
      then have "r \<in># T" using r T(2) nc by auto
      then have rs: "r \<in># sl_threads s" using T(1) by simp
      with ct have "r \<in># filter_mset counted (sl_threads s)" by simp
      then have "0 < holders s" unfolding holders_def by (auto simp: size_eq_0_iff_empty nonempty_has_size [symmetric])
      moreover have "owners s = 0"
        using inv_thread [OF inv rs] ex by (auto simp: thread_ok_def)
      ultimately show False using was by simp
    qed
    then show "thread_ok s' r" by (simp add: thread_ok_def split: pc.split)
  qed
  moreover have "\<forall>r\<in>#sl_threads s'. r \<in> {Idle, Popped, Named}" if "sl_opened s = 0"
    using inv that T op(2) by (auto simp: slot_inv_def)
  ultimately show ?thesis using one op log by (simp add: slot_inv_def)
qed

lemma filter_none: "filter_mset P M = {#} \<Longrightarrow> x \<in># M \<Longrightarrow> \<not> P x"
  by (induction M) (auto split: if_splits)

lemma sole_owner:
  assumes inv: "slot_inv s" and T: "sl_threads s = add_mset p T" and p: "owner p"
  shows "owners s = 1" "\<not> sl_free s" "filter_mset owner T = {#}" "Releasing \<notin># T" "Named \<notin># T" "\<not> sl_lost s"
proof -
  have le: "owners s \<le> 1" using inv by (simp add: slot_inv_def count_inv_def)
  then show one: "owners s = 1" and "\<not> sl_free s"
    using T p by (simp_all add: owners_def split: if_splits)
  show e: "filter_mset owner T = {#}" using le T p by (simp add: owners_def split: if_splits)
  show "Releasing \<notin># T" "Named \<notin># T" using filter_none [OF e] by fastforce+
  show "\<not> sl_lost s" using inv one by (auto simp: slot_inv_def count_inv_def)
qed

lemma free_owner:
  assumes inv: "slot_inv s" and free: "sl_free s"
  shows "owners s = 1" "filter_mset owner (sl_threads s) = {#}" "Releasing \<notin># sl_threads s" "Named \<notin># sl_threads s"
    "\<not> sl_lost s"
proof -
  have le: "owners s \<le> 1" using inv by (simp add: slot_inv_def count_inv_def)
  then show one: "owners s = 1" and e: "filter_mset owner (sl_threads s) = {#}"
    using free by (simp_all add: owners_def)
  show "Releasing \<notin># sl_threads s" "Named \<notin># sl_threads s" using filter_none [OF e] by fastforce+
  show "\<not> sl_lost s" using inv one by (auto simp: slot_inv_def count_inv_def)
qed

lemma slot_inv_log:
  assumes "slot_inv s"
  shows "distinct (sl_log s)" "\<forall>n\<in>set (sl_log s). n \<le> sl_number s" "sl_opened s = 0 \<longrightarrow> sl_log s = []"
    "0 < sl_opened s \<Longrightarrow> sl_number s \<in> set (sl_log s) \<longleftrightarrow> owners s = 1 \<and> Named \<notin># sl_threads s"
    "\<not> sl_lost s \<Longrightarrow> unat (sl_IOCount s) = holders s + base_count s"
  using assms by (simp_all add: slot_inv_def count_inv_def lost_count_def)

lemma release_ok:
  assumes inv: "slot_inv s" and T: "sl_threads s = add_mset Zero T" and z: "sl_IOCount s = 0"
  shows "slot_inv (s\<lparr>sl_IOCount := 0x80000000, sl_threads := add_mset Releasing T, sl_log := sl_number s # sl_log s\<rparr>)"
    (is "slot_inv ?s'")
proof -
  note zo = zero_owners [OF inv T z] and lg = slot_inv_log [OF inv]
  have e: "filter_mset owner T = {#}" "\<not> sl_free s" using zo T by (auto simp: owners_def)
  have nn: "Named \<notin># T" using filter_none [OF e(1)] by fastforce
  have one: "owners ?s' = 1" using e by (simp add: owners_def)
  show ?thesis
  proof (rule owner_ok [OF inv T, where q = Releasing])
    show "unat (sl_IOCount ?s') = holders s + base_count ?s'" using zo one by (simp add: base_count_def)
    show "distinct (sl_log ?s')" using lg(1) lg(4) zo by simp
  qed (use zo lg(2,3) one nn in auto)
qed

lemma clear_ok:
  assumes inv: "slot_inv s" and T: "sl_threads s = add_mset Releasing T"
  shows "slot_inv (s\<lparr>sl_IOCount := sl_IOCount s + 1, sl_threads := add_mset Cleared T\<rparr>)" (is "slot_inv ?s'")
proof -
  have ow: "owner Releasing" by simp
  note so = sole_owner [OF inv T ow] and lg = slot_inv_log [OF inv]
  have one: "owners ?s' = 1" using so by (simp add: owners_def)
  have op: "0 < sl_opened s" using inv T by (auto simp: slot_inv_def)
  have b: "base_count s = 2 ^ 31" "base_count ?s' = 2 ^ 31 + 1" using so one op T by (simp_all add: base_count_def)
  have "size (sl_threads s) < 2 ^ 31 - 2" using inv by (simp add: slot_inv_def count_inv_def)
  then have n: "unat (sl_IOCount s + 1) = unat (sl_IOCount s) + 1"
    using lg(5) [OF so(6)] b(1) holders_le [of s] by (intro unat_inc) simp
  show ?thesis
  proof (rule owner_ok [OF inv T, where q = Cleared])
    show "unat (sl_IOCount ?s') = holders s + base_count ?s'" using n lg(5) [OF so(6)] b by simp
    show "0 < sl_opened s \<longrightarrow> (sl_number ?s' \<in> set (sl_log ?s') \<longleftrightarrow> Named \<notin># sl_threads ?s')"
      using lg(4) so T by simp
  qed (use so lg(1-3) one op in auto)
qed

lemma push_ok:
  assumes inv: "slot_inv s" and T: "sl_threads s = add_mset Cleared T"
  shows "slot_inv (s\<lparr>sl_free := True, sl_threads := add_mset Idle T\<rparr>)" (is "slot_inv ?s'")
proof -
  have ow: "owner Cleared" by simp
  note so = sole_owner [OF inv T ow] and lg = slot_inv_log [OF inv]
  have one: "owners ?s' = 1" using so by (simp add: owners_def)
  have op: "0 < sl_opened s" using inv T by (auto simp: slot_inv_def)
  have "base_count ?s' = base_count s" using so one T by (simp add: base_count_def)
  then have n: "unat (sl_IOCount ?s') = holders s + base_count ?s'" using lg(5) [OF so(6)] by simp
  show ?thesis
  proof (rule owner_ok [OF inv T, where q = Idle])
    show "0 < sl_opened s \<longrightarrow> (sl_number ?s' \<in> set (sl_log ?s') \<longleftrightarrow> Named \<notin># sl_threads ?s')"
      using lg(4) so T by simp
  qed (use so lg(1-3) one op n in auto)
qed

lemma pop_ok:
  assumes inv: "slot_inv s" and T: "sl_threads s = add_mset Idle T" and free: "sl_free s"
  shows "slot_inv (s\<lparr>sl_free := False, sl_threads := add_mset Popped T\<rparr>)" (is "slot_inv ?s'")
proof -
  note so = free_owner [OF inv free] and lg = slot_inv_log [OF inv]
  have one: "owners ?s' = 1" using so T by (simp add: owners_def)
  have "base_count ?s' = base_count s" using so one T by (simp add: base_count_def)
  then have n: "unat (sl_IOCount ?s') = holders s + base_count ?s'" using lg(5) [OF so(5)] by simp
  show ?thesis
  proof (rule owner_ok [OF inv T, where q = Popped])
    show "0 < sl_opened s \<longrightarrow> (sl_number ?s' \<in> set (sl_log ?s') \<longleftrightarrow> Named \<notin># sl_threads ?s')"
      using lg(4) so T by simp
  qed (use so lg(1-3) one n in auto)
qed

lemma set_id_ok:
  assumes inv: "slot_inv s" and T: "sl_threads s = add_mset Popped T" and n: "sl_number s < n"
  shows "slot_inv (s\<lparr>sl_ID := sid, sl_number := n, sl_threads := add_mset Named T\<rparr>)" (is "slot_inv ?s'")
proof -
  have ow: "owner Popped" by simp
  note so = sole_owner [OF inv T ow] and lg = slot_inv_log [OF inv]
  have one: "owners ?s' = 1" using so by (simp add: owners_def)
  have "base_count ?s' = base_count s" using so one T by (simp add: base_count_def)
  then have c: "unat (sl_IOCount ?s') = holders s + base_count ?s'" using lg(5) [OF so(6)] by simp
  show ?thesis
  proof (rule owner_ok [OF inv T, where q = Named])
    show "0 < sl_opened s \<longrightarrow> (sl_number ?s' \<in> set (sl_log ?s') \<longleftrightarrow> Named \<notin># sl_threads ?s')"
      using lg(2) n by auto
    show "\<forall>k\<in>set (sl_log ?s'). k \<le> sl_number ?s'" using lg(2) n by fastforce
  qed (use so lg(1,3) one c in auto)
qed

lemma open_ok:
  assumes inv: "slot_inv s" and T: "sl_threads s = add_mset Named T"
  shows "slot_inv (s\<lparr>sl_IOCount := sl_IOCount s AND 0x7fffffff, sl_opened := sl_opened s + 1,
      sl_threads := add_mset (Opened (sl_ID s)) T\<rparr>)" (is "slot_inv ?s'")
proof -
  have ow: "owner Named" by simp
  note so = sole_owner [OF inv T ow] and lg = slot_inv_log [OF inv]
  have zero: "owners ?s' = 0" using so by (simp add: owners_def)
  have h: "holders ?s' = holders s + 1" using T by (simp add: holders_def)
  have size: "size (sl_threads s) < 2 ^ 31 - 2" using inv by (simp add: slot_inv_def count_inv_def)
  have "unat (sl_IOCount s) = holders s + 1 + (if sl_opened s = 0 then 0 else 2 ^ 31)"
    using lg(5) [OF so(6)] so T by (simp add: base_count_def)
  then have n: "unat (sl_IOCount ?s') = holders ?s'"
    using holders_le [of s] size h mod_add_self1 [of "2 ^ 31 :: nat" "holders s + 1"]
    by (cases "sl_opened s = 0") (simp_all add: unat_unflag)
  have "attaching s = 0"
  proof -
    have "\<not> opened_pc r" if "r \<in># sl_threads s" for r
      using inv_thread [OF inv that] so(1) by (cases r) (simp_all add: thread_ok_def)
    then have "filter_mset opened_pc (sl_threads s) = filter_mset (\<lambda>_. False) (sl_threads s)"
      by (intro filter_mset_cong) auto
    then show ?thesis by (simp add: attaching_def)
  qed
  then have opn: "attaching ?s' = 1" using T by (simp add: attaching_def)
  have "\<forall>r\<in>#sl_threads ?s'. thread_ok ?s' r"
  proof
    fix r assume "r \<in># sl_threads ?s'"
    then have "r = Opened (sl_ID s) \<or> thread_ok s r" using inv_thread [OF inv, of r] T by auto
    then show "thread_ok ?s' r" using so(1) zero by (auto simp: thread_ok_def split: pc.splits)
  qed
  moreover have "sl_number s \<notin> set (sl_log s)"
    using lg(3,4) T by (cases "sl_opened s = 0") auto
  moreover have "count_inv ?s'" using n zero size T so(6) opn by (simp add: count_inv_def base_count_def lost_count_def)
  ultimately show ?thesis using lg zero h by (simp add: slot_inv_def)
qed

lemma attach_fails_ok:
  assumes inv: "slot_inv s" and T: "sl_threads s = add_mset (Opened sid) T"
  shows "slot_inv (s\<lparr>sl_lost := True, sl_threads := add_mset Idle T\<rparr>)" (is "slot_inv ?s'")
proof -
  have c: "count_inv s" and op: "0 < sl_opened s" using inv T by (auto simp: slot_inv_def)
  have none: "owners s = 0" using inv_thread [OF inv, of "Opened sid"] T by (simp add: thread_ok_def)
  have o: "owners ?s' = 0" and h: "holders s = holders ?s' + 1" using none T by (simp_all add: owners_def holders_def)
  have nl: "\<not> sl_lost s" "attaching ?s' = 0"
    using c T by (auto simp: count_inv_def attaching_def lost_count_def split: if_splits)
  have c': "count_inv ?s'" using c none o h nl T by (simp add: count_inv_def base_count_def lost_count_def)
  moreover have "\<forall>r\<in>#sl_threads ?s'. thread_ok ?s' r"
  proof
    fix r assume "r \<in># sl_threads ?s'"
    then have "r = Idle \<or> r \<in># sl_threads s" using T by auto
    then show "thread_ok ?s' r"
      using inv_thread [OF inv] thread_ok_cong [of "?s'" s r] o none by (auto simp: thread_ok_def)
  qed
  moreover have "Named \<in># sl_threads ?s' \<longleftrightarrow> Named \<in># sl_threads s" using T by auto
  ultimately show ?thesis using inv o none op by (simp add: slot_inv_def)
qed


lemma opened_of: "slot_inv s \<Longrightarrow> sl_threads s = add_mset p T \<Longrightarrow> p \<notin> {Idle, Popped, Named} \<Longrightarrow> 0 < sl_opened s"
  by (auto simp: slot_inv_def)

lemma acquire_step_inv:
  assumes inv: "slot_inv s" and st: "acquire_step new s s'"
  shows "slot_inv s'"
  using st
proof (cases rule: acquire_step.cases)
  case (enter T sid)
  then show ?thesis using enter_ok [OF inv, of T "Entered sid"] by (simp add: thread_ok_def)
next
  case (test_flag sid T)
  then have op: "0 < sl_opened s" using opened_of [OF inv] by simp
  have "owners s \<le> 1" using inv by (simp add: slot_inv_def count_inv_def)
  then have "sl_IOCount s AND 0x80000000 = 0 \<Longrightarrow> owners s = 0"
    using flag_owner [OF inv] flag_iff [of "sl_IOCount s"] op by auto
  then show ?thesis
    unfolding test_flag(2) by (intro move_ok [OF inv test_flag(3) op]) (auto simp: thread_ok_def)
next
  case (test_id sid T)
  then have op: "0 < sl_opened s" using opened_of [OF inv] by simp
  have "thread_ok s (Checked sid)" using inv_thread [OF inv] test_id(3) by simp
  then show ?thesis
    unfolding test_id(2) by (intro move_ok [OF inv test_id(3) op]) (auto simp: thread_ok_def)
next
  case (fail T)
  then show ?thesis using decrement_ok [OF inv fail(3)] by simp
qed

lemma holder_step_inv:
  assumes inv: "slot_inv s" and st: "holder_step new s s'"
  shows "slot_inv s'"
  using st
proof (cases rule: holder_step.cases)
  case (leave sid T)
  then show ?thesis using decrement_ok [OF inv leave(3)] by simp
next
  case (start_io sid T)
  then have T: "sl_threads s = add_mset Idle (add_mset (Holding sid) T)" by (simp add: add_mset_commute)
  have op: "0 < sl_opened s" using opened_of [OF inv start_io(3)] by simp
  have "thread_ok s (Holding sid)" using inv_thread [OF inv] start_io(3) by simp
  then show ?thesis using enter_ok [OF inv T op] start_io(2) by simp
qed

lemma release_step_inv:
  assumes inv: "slot_inv s" and st: "release_step new s s'"
  shows "slot_inv s'"
  using st
proof (cases rule: release_step.cases)
  case (no_release T)
  then have op: "0 < sl_opened s" using opened_of [OF inv] by simp
  show ?thesis
    unfolding no_release(2) using no_release(4)
    by (intro move_ok [OF inv no_release(3) op]) (auto simp: thread_ok_def)
qed (use release_ok [OF inv] clear_ok [OF inv] push_ok [OF inv] in simp_all)

lemma accept_step_inv:
  assumes inv: "slot_inv s" and st: "accept_step i new s s'"
  shows "slot_inv s'"
  using st
proof (cases rule: accept_step.cases)
  case (attach sid T)
  have op: "0 < sl_opened s" using opened_of [OF inv attach(3)] by simp
  have "thread_ok s (Opened sid)" using inv_thread [OF inv] attach(3) by simp
  then show ?thesis
    unfolding attach(2) by (intro move_ok [OF inv attach(3) op]) (auto simp: thread_ok_def)
qed (use pop_ok [OF inv] set_id_ok [OF inv] open_ok [OF inv] attach_fails_ok [OF inv] in simp_all)

lemma slot_step_inv: "slot_inv s \<Longrightarrow> slot_step i new s s' \<Longrightarrow> slot_inv s'"
  unfolding slot_step_def
  by (elim disjE; erule (1) acquire_step_inv holder_step_inv release_step_inv accept_step_inv)

lemma filter_replicate_none [simp]: "\<not> P x \<Longrightarrow> filter_mset P (replicate_mset n x) = {#}"
  by (induction n) simp_all

lemma slot_init_inv: "n < 2 ^ 31 - 2 \<Longrightarrow> slot_init n s \<Longrightarrow> slot_inv s"
  by (auto simp: slot_init_def slot_inv_def count_inv_def slot_defs)

section \<open>Work that is left\<close>

fun pc_work :: "pc \<Rightarrow> nat" where
  "pc_work Idle = 0"
| "pc_work Cleared = 1"
| "pc_work Releasing = 2"
| "pc_work Zero = 3"
| "pc_work (Holding sid) = 4"
| "pc_work Failing = 4"
| "pc_work (Checked sid) = 5"
| "pc_work (Opened sid) = 5"
| "pc_work Named = 6"
| "pc_work (Entered sid) = 6"
| "pc_work Popped = 7"

definition slot_work :: "Slot \<Rightarrow> nat" where
  "slot_work s = sum_mset (image_mset pc_work (sl_threads s))"

lemma slot_work_less: "slot_step i False s s' \<Longrightarrow> slot_work s' < slot_work s"
  unfolding slot_step_def slot_work_def
  by (elim disjE; erule acquire_step.cases holder_step.cases release_step.cases accept_step.cases;
      simp add: after_decrement_def)


lemma slot_step_size: "slot_step i new s s' \<Longrightarrow> size (sl_threads s') = size (sl_threads s)"
  unfolding slot_step_def
  by (elim disjE; erule acquire_step.cases holder_step.cases release_step.cases accept_step.cases; simp)

definition any_step :: "nat \<Rightarrow> Slot \<Rightarrow> Slot \<Rightarrow> bool" where
  "any_step i s s' \<longleftrightarrow> (\<exists>new. slot_step i new s s')"

text \<open>The number of threads is part of the invariant, and bounds the work.\<close>

definition slot_inv_n :: "nat \<Rightarrow> Slot \<Rightarrow> bool" where
  "slot_inv_n n s \<longleftrightarrow> (n < 2 ^ 31 - 2 \<longrightarrow> slot_inv s) \<and> size (sl_threads s) = n"

interpretation slot_protocol: finishing_steps "slot_init n" "any_step i" "slot_inv_n n" "slot_step i False" slot_work
proof unfold_locales
  show "slot_inv_n n s" if "slot_init n s" for s
    using that slot_init_inv [of n s] by (auto simp: slot_inv_n_def slot_init_def)
  show "slot_inv_n n s'" if "slot_inv_n n s" "any_step i s s'" for s s'
    using that slot_step_inv slot_step_size unfolding slot_inv_n_def any_step_def by metis
  show "any_step i s s'" if "slot_step i False s s'" for s s' using that by (auto simp: any_step_def)
  show "slot_work s' < slot_work s" if "slot_step i False s s'" for s s' using that by (rule slot_work_less)
qed





section \<open>Properties\<close>

text \<open>
  C1. Whatever the interleaving of fewer than \<open>2^31 - 2\<close> threads on a slot: who holds the slot
  after \<open>AcquireSession\<close> finds it neither released nor free and still with the identifier asked
  for; at most one thread is in the release, the slot's hand-over or its next accept, and it is
  none while the slot is free; while a thread is between the compare-exchange and \<open>SessionClear\<close>
  of \<open>ReleaseSession\<close> the count has its top bit, so the one of that function's \<open>Crash()\<close> calls that
  tests the count against the flag is never reached; and no session is released twice.  The other \<open>Crash()\<close> calls of \<open>ReleaseSession\<close>, on a client that did not
  announce its end and on an unknown error code, are not part of this protocol and do happen,
  see \<open>release_unannounced_crashes\<close>.
\<close>

theorem slot_protocol_safe:
  assumes "reachable (slot_init n) (any_step i) s" and "n < 2 ^ 31 - 2"
  shows "(\<forall>sid. Holding sid \<in># sl_threads s \<longrightarrow>
      sl_ID s = sid \<and> sl_IOCount s AND 0x80000000 = 0 \<and> \<not> sl_free s) \<and>
    owners s \<le> 1 \<and> (Releasing \<in># sl_threads s \<longrightarrow> 0x80000000 \<le> sl_IOCount s) \<and> distinct (sl_log s)"
proof -
  have inv: "slot_inv s"
    using slot_protocol.inv_reachable [OF assms(1)] assms(2) by (simp add: slot_inv_n_def)
  have "sl_ID s = sid \<and> sl_IOCount s AND 0x80000000 = 0 \<and> \<not> sl_free s" if h: "Holding sid \<in># sl_threads s" for sid
  proof -
    have "owners s = 0" "sl_ID s = sid" using inv_thread [OF inv h] by (simp_all add: thread_ok_def)
    moreover have "\<not> 2 ^ 31 \<le> unat (sl_IOCount s)" using flag_owner [OF inv] \<open>owners s = 0\<close> by simp
    moreover have "\<not> sl_free s" using \<open>owners s = 0\<close> by (simp add: owners_def split: if_splits)
    ultimately show ?thesis using flag_iff [of "sl_IOCount s"] by blast
  qed
  moreover have "0x80000000 \<le> sl_IOCount s" if r: "Releasing \<in># sl_threads s"
  proof -
    obtain T where T: "sl_threads s = add_mset Releasing T" using r by (metis mset_add)
    then have "owners s = 1" "0 < sl_opened s" using sole_owner(1) [OF inv T] inv by (auto simp: slot_inv_def)
    then show ?thesis using flag_owner [OF inv] by (simp add: word_le_nat_alt)
  qed
  ultimately show ?thesis
    using inv slot_inv_log(1) [OF inv] by (simp add: slot_inv_def count_inv_def)
qed

text \<open>A first session whose accept is still under way, and the two ends of that accept.\<close>

lemma slot_first_session:
  "\<exists>s. reachable (slot_init 1) (any_step 0) s \<and> sl_threads s = {#Opened (session_id 0 1)#} \<and>
     reachable (slot_init 1) (any_step 0) (s\<lparr>sl_threads := {#Holding (session_id 0 1)#}\<rparr>) \<and>
     reachable (slot_init 1) (any_step 0) (s\<lparr>sl_lost := True, sl_threads := {#Idle#}\<rparr>)"
proof -
  define s0 where "s0 = \<lparr>sl_IOCount = 1, sl_ID = 0, sl_free = True, sl_lost = False, sl_threads = {#Idle#},
     sl_number = 0, sl_opened = 0, sl_log = []\<rparr>"
  let ?s1 = "s0\<lparr>sl_free := False, sl_threads := {#Popped#}\<rparr>"
  let ?s2 = "?s1\<lparr>sl_ID := session_id 0 1, sl_number := 1, sl_threads := {#Named#}\<rparr>"
  let ?s3 = "?s2\<lparr>sl_IOCount := 1, sl_opened := 1, sl_threads := {#Opened (session_id 0 1)#}\<rparr>"
  have "any_step 0 s0 ?s1"
    unfolding any_step_def using pop [of s0 "{#}" 0] by (auto simp: s0_def intro: slot_stepI)
  moreover have "any_step 0 ?s1 ?s2"
    unfolding any_step_def using set_id [of ?s1 "{#}" 1 0] by (auto simp: s0_def intro: slot_stepI)
  moreover have "any_step 0 ?s2 ?s3"
    unfolding any_step_def using open_slot [of ?s2 "{#}" 0] by (auto simp: s0_def intro: slot_stepI)
  moreover have "slot_init 1 s0" by (simp add: slot_init_def s0_def)
  ultimately have r: "reachable (slot_init 1) (any_step 0) ?s3"
    by (meson reachable_init reachable_step)
  obtain s3 where s3: "reachable (slot_init 1) (any_step 0) s3" "sl_threads s3 = {#Opened (session_id 0 1)#}"
    by (rule that [OF r]) simp
  have "any_step 0 s3 (s3\<lparr>sl_threads := {#Holding (session_id 0 1)#}\<rparr>)"
    "any_step 0 s3 (s3\<lparr>sl_lost := True, sl_threads := {#Idle#}\<rparr>)"
    unfolding any_step_def using attach [of s3 _ "{#}" 0] attach_fails [of s3 _ "{#}" 0] s3(2)
    by (blast intro: slot_stepI)+
  with s3 show ?thesis by (blast intro: reachable_step)
qed

theorem slot_protocol_safe_witness:
  "\<exists>s. reachable (slot_init 1) (any_step 0) s \<and> sl_ID s = session_id 0 1 \<and>
     sl_IOCount s AND 0x80000000 = 0 \<and> \<not> sl_free s \<and> owners s \<le> 1"
proof -
  obtain s where s: "reachable (slot_init 1) (any_step 0) s" "sl_threads s = {#Holding (session_id 0 1)#}"
    using slot_first_session by force
  have "(1::nat) < 2 ^ 31 - 2" by simp
  from slot_protocol_safe [OF s(1) this] s show ?thesis by (intro exI [of _ s]) simp
qed



end
