(* ===== verification/SendProtocol.thy ===== *)
theory SendProtocol
  imports Transition ServerState "HOL-Library.Multiset"
begin

text \<open>
  The send flag of one live session under any number of threads: messages are queued by
  \<open>SendUnicast\<close>, each followed by a completion posted to the worker threads; a worker that wins
  the flag in \<open>SendPost\<close> moves the queue into the packet array and starts one send; the
  completion of the send clears the array, resets the flag and calls \<open>SendPost\<close> again.
  Linking a packet into the queue and adding it to the queue's count, which \<^verbatim>\<open>EnQ\<close> does one after the
  other, are one step here; theory QueueProtocol takes them apart.
\<close>

section \<open>The session and where the threads are\<close>

text \<open>
  \<open>Queued\<close> has queued a message and not yet posted; \<open>Exchanging\<close> is about to exchange the flag,
  \<open>Won\<close> found it clear, \<open>Emptying\<close> then found the queue empty, \<open>Rechecking\<close> has reset the flag and
  tests the queue once more.  \<open>Draining\<close> moves the queue, \<open>InFlight\<close> is the send the operating
  system performs, \<open>Completed\<close> and \<open>Giving\<close> are in the worker that got its completion, before and
  after the array is cleared.  \<open>Broken\<close> is a send that failed or was cancelled, or the \<open>Crash()\<close>.
\<close>

datatype spc = Elsewhere | Queued | Exchanging | Won | Emptying | Rechecking | Draining | InFlight
  | Completed | Giving | Broken

text \<open>\<open>wi_given\<close> and \<open>wi_sent\<close> are kept for the properties only.\<close>

record 'm Wire =
  wi_queue :: "'m list"
  wi_flag :: bool
  wi_array :: "'m list"
  wi_posts :: nat
  wi_threads :: "spc multiset"
  wi_given :: "'m list"
  wi_sent :: "'m list"

text \<open>\<open>SendUnicast\<close>: the only step that brings new work.\<close>

inductive unicast_step :: "bool \<Rightarrow> 'm Wire \<Rightarrow> 'm Wire \<Rightarrow> bool" where
  enqueue: "wi_threads s = add_mset Elsewhere T \<Longrightarrow>
    unicast_step True s (s\<lparr>wi_queue := wi_queue s @ [m], wi_given := wi_given s @ [m],
      wi_threads := add_mset Queued T\<rparr>)"
| post: "wi_threads s = add_mset Queued T \<Longrightarrow>
    unicast_step False s (s\<lparr>wi_posts := wi_posts s + 1, wi_threads := add_mset Elsewhere T\<rparr>)"

text \<open>\<open>SendPost\<close>, entered by a worker that takes a posted completion.\<close>

inductive sendpost_step :: "bool \<Rightarrow> 'm Wire \<Rightarrow> 'm Wire \<Rightarrow> bool" where
  take_post: "wi_threads s = add_mset Elsewhere T \<Longrightarrow> 0 < wi_posts s \<Longrightarrow>
    sendpost_step False s (s\<lparr>wi_posts := wi_posts s - 1, wi_threads := add_mset Exchanging T\<rparr>)"
| exchange: "wi_threads s = add_mset Exchanging T \<Longrightarrow>
    sendpost_step False s (s\<lparr>wi_flag := True,
      wi_threads := add_mset (if wi_flag s then Elsewhere else Won) T\<rparr>)"
| test_queue: "wi_threads s = add_mset Won T \<Longrightarrow>
    sendpost_step False s (s\<lparr>wi_threads := add_mset (if wi_queue s = [] then Emptying else Draining) T\<rparr>)"
| reset_flag: "wi_threads s = add_mset Emptying T \<Longrightarrow>
    sendpost_step False s (s\<lparr>wi_flag := False, wi_threads := add_mset Rechecking T\<rparr>)"
| retest_queue: "wi_threads s = add_mset Rechecking T \<Longrightarrow>
    sendpost_step False s (s\<lparr>wi_threads := add_mset (if wi_queue s \<noteq> [] then Exchanging else Elsewhere) T\<rparr>)"
| drain: "wi_threads s = add_mset Draining T \<Longrightarrow> wi_queue s = m # ms \<Longrightarrow>
      length (wi_array s) \<le> DEQ_PACKET_ARRAY_SIZE - 1 \<Longrightarrow>
    sendpost_step False s (s\<lparr>wi_queue := ms, wi_array := wi_array s @ [m]\<rparr>)"
| array_full: "wi_threads s = add_mset Draining T \<Longrightarrow> wi_queue s \<noteq> [] \<Longrightarrow>
      length (wi_array s) > DEQ_PACKET_ARRAY_SIZE - 1 \<Longrightarrow>
    sendpost_step False s (s\<lparr>wi_threads := add_mset Broken T\<rparr>)"
| send: "wi_threads s = add_mset Draining T \<Longrightarrow> wi_queue s = [] \<Longrightarrow>
    sendpost_step False s (s\<lparr>wi_sent := wi_sent s @ wi_array s, wi_threads := add_mset InFlight T\<rparr>)"
| send_fails: "wi_threads s = add_mset Draining T \<Longrightarrow> wi_queue s = [] \<Longrightarrow>
    sendpost_step False s (s\<lparr>wi_threads := add_mset Broken T\<rparr>)"

text \<open>The worker that gets the completion of the send.\<close>

inductive completion_step :: "bool \<Rightarrow> 'm Wire \<Rightarrow> 'm Wire \<Rightarrow> bool" where
  complete: "wi_threads s = add_mset InFlight T \<Longrightarrow>
    completion_step False s (s\<lparr>wi_threads := add_mset Completed T\<rparr>)"
| give_back: "wi_threads s = add_mset Completed T \<Longrightarrow>
    completion_step False s (s\<lparr>wi_array := [], wi_threads := add_mset Giving T\<rparr>)"
| unflag: "wi_threads s = add_mset Giving T \<Longrightarrow>
    completion_step False s (s\<lparr>wi_flag := False, wi_threads := add_mset Exchanging T\<rparr>)"

definition wire_step :: "bool \<Rightarrow> 'm Wire \<Rightarrow> 'm Wire \<Rightarrow> bool" where
  "wire_step new s s' \<longleftrightarrow> unicast_step new s s' \<or> sendpost_step new s s' \<or> completion_step new s s'"

lemmas wire_step_intros = unicast_step.intros sendpost_step.intros completion_step.intros
lemmas wire_step_cases = unicast_step.cases sendpost_step.cases completion_step.cases

lemma wire_stepI:
  "unicast_step new s s' \<Longrightarrow> wire_step new s s'" "sendpost_step new s s' \<Longrightarrow> wire_step new s s'"
  "completion_step new s s' \<Longrightarrow> wire_step new s s'"
  by (simp_all add: wire_step_def)

definition wire_init :: "nat \<Rightarrow> 'm Wire \<Rightarrow> bool" where
  "wire_init n s \<longleftrightarrow> s = \<lparr>wi_queue = [], wi_flag = False, wi_array = [], wi_posts = 0,
     wi_threads = replicate_mset n Elsewhere, wi_given = [], wi_sent = []\<rparr>"

section \<open>The invariant\<close>

text \<open>The threads that own the flag, and those of them whose array may be in use.\<close>

fun has_flag :: "spc \<Rightarrow> bool" where
  "has_flag Won = True"
| "has_flag Emptying = True"
| "has_flag Draining = True"
| "has_flag InFlight = True"
| "has_flag Completed = True"
| "has_flag Giving = True"
| "has_flag Broken = True"
| "has_flag _ = False"

definition in_flight :: "'m Wire \<Rightarrow> bool" where
  "in_flight s \<longleftrightarrow> InFlight \<in># wi_threads s \<or> Completed \<in># wi_threads s"

definition unsent :: "'m Wire \<Rightarrow> 'm list" where
  "unsent s = (if in_flight s then [] else wi_array s)"

definition wire_inv :: "'m Wire \<Rightarrow> bool" where
  "wire_inv s \<longleftrightarrow>
     size (filter_mset has_flag (wi_threads s)) = (if wi_flag s then 1 else 0) \<and>
     (wi_array s \<noteq> [] \<longrightarrow> (\<exists>p\<in>{Draining, InFlight, Completed, Broken}. p \<in># wi_threads s)) \<and>
     length (wi_array s) \<le> DEQ_PACKET_ARRAY_SIZE \<and>
     wi_given s = wi_sent s @ unsent s @ wi_queue s \<and>
     (wi_queue s \<noteq> [] \<longrightarrow> 0 < wi_posts s \<or> (\<exists>p. p \<in># wi_threads s \<and> p \<noteq> Elsewhere))"

lemma filter_empty_iff: "filter_mset P M = {#} \<longleftrightarrow> (\<forall>x\<in>#M. \<not> P x)"
  by (induction M) auto

lemma flag_sole:
  assumes "wire_inv s" and "wi_threads s = add_mset p T" and "has_flag p"
  shows "wi_flag s" "\<forall>q\<in>#T. \<not> has_flag q"
  using assms by (auto simp: wire_inv_def filter_empty_iff split: if_splits)

lemma flag_none: "wire_inv s \<Longrightarrow> \<not> wi_flag s \<Longrightarrow> \<forall>q\<in>#wi_threads s. \<not> has_flag q"
  by (simp add: wire_inv_def filter_empty_iff)

lemma mem_owner: "\<forall>r\<in>#T. \<not> has_flag r \<Longrightarrow> has_flag r \<Longrightarrow> r \<in># add_mset q T \<longleftrightarrow> r = q"
  by auto

lemma in_flight_owner:
  "wi_threads s = add_mset q T \<Longrightarrow> \<forall>r\<in>#T. \<not> has_flag r \<Longrightarrow> in_flight s \<longleftrightarrow> q \<in> {InFlight, Completed}"
  using mem_owner [of T InFlight q] mem_owner [of T Completed q] by (simp add: in_flight_def) blast

text \<open>A thread without the flag moves on; the flag, the array and the queue stay.\<close>

lemma move_inv:
  assumes inv: "wire_inv s" and T: "wi_threads s = add_mset p T" and no: "\<not> has_flag p" "\<not> has_flag q"
    and s': "wi_threads s' = add_mset q T" "wi_flag s' = wi_flag s" "wi_array s' = wi_array s" "wi_sent s' = wi_sent s"
    and ms: "wi_queue s' = wi_queue s @ ms" "wi_given s' = wi_given s @ ms"
    and act: "wi_queue s' \<noteq> [] \<Longrightarrow> 0 < wi_posts s' \<or> q \<noteq> Elsewhere \<or> (\<exists>p. p \<in># T \<and> p \<noteq> Elsewhere)"
  shows "wire_inv s'"
proof -
  have mem: "r \<in># wi_threads s' \<longleftrightarrow> r \<in># wi_threads s" if "has_flag r" for r
    using T s'(1) no that by auto
  have "unsent s' = unsent s" by (simp add: unsent_def in_flight_def mem s'(3))
  moreover have "filter_mset has_flag (wi_threads s') = filter_mset has_flag (wi_threads s)"
    using T s'(1) no by simp
  moreover have "(\<exists>p\<in>{Draining, InFlight, Completed, Broken}. p \<in># wi_threads s') \<longleftrightarrow>
      (\<exists>p\<in>{Draining, InFlight, Completed, Broken}. p \<in># wi_threads s)"
    by (simp add: mem)
  moreover have "wi_queue s' \<noteq> [] \<longrightarrow> 0 < wi_posts s' \<or> (\<exists>p. p \<in># wi_threads s' \<and> p \<noteq> Elsewhere)"
    using act s'(1) by auto
  ultimately show ?thesis using inv s'(2-4) ms by (simp add: wire_inv_def)
qed

text \<open>The flag is taken, given up, or stays with its owner, who may change the array and the queue.\<close>

lemma owner_inv:
  assumes inv: "wire_inv s" and T: "wi_threads s' = add_mset q T" "\<forall>r\<in>#T. \<not> has_flag r"
    and flag: "wi_flag s' = has_flag q"
    and arr: "wi_array s' \<noteq> [] \<Longrightarrow> q \<in> {Draining, InFlight, Completed, Broken}"
      "length (wi_array s') \<le> DEQ_PACKET_ARRAY_SIZE"
    and given: "wi_given s' = wi_sent s' @ (if q \<in> {InFlight, Completed} then [] else wi_array s') @ wi_queue s'"
    and act: "q \<noteq> Elsewhere \<or> wi_queue s' = []"
  shows "wire_inv s'"
proof -
  have "filter_mset has_flag T = {#}" using T(2) by (simp add: filter_empty_iff)
  moreover have "in_flight s' \<longleftrightarrow> q \<in> {InFlight, Completed}" by (rule in_flight_owner [OF T])
  ultimately show ?thesis
    using T(1) flag arr given act by (auto simp: wire_inv_def unsent_def)
qed

lemma unsent_owner:
  assumes inv: "wire_inv s" and T: "wi_threads s = add_mset p T" and p: "has_flag p"
  shows "wi_given s = wi_sent s @ (if p \<in> {InFlight, Completed} then [] else wi_array s) @ wi_queue s"
    and "p \<in> {Won, Emptying, Giving} \<Longrightarrow> wi_array s = []" "length (wi_array s) \<le> DEQ_PACKET_ARRAY_SIZE"
proof -
  note so = flag_sole [OF inv T p]
  have "in_flight s \<longleftrightarrow> p \<in> {InFlight, Completed}" by (rule in_flight_owner [OF T so(2)])
  then show "wi_given s = wi_sent s @ (if p \<in> {InFlight, Completed} then [] else wi_array s) @ wi_queue s"
    using inv by (auto simp: wire_inv_def unsent_def)
  show "wi_array s = []" if p': "p \<in> {Won, Emptying, Giving}"
  proof (rule ccontr)
    assume "wi_array s \<noteq> []"
    then obtain r where r: "r \<in> {Draining, InFlight, Completed, Broken}" "r \<in># wi_threads s"
      using inv unfolding wire_inv_def by blast
    then have "has_flag r" by auto
    then have "r = p" using r(2) mem_owner [OF so(2), of r p] by (simp add: T)
    with r(1) p' show False by auto
  qed
  show "length (wi_array s) \<le> DEQ_PACKET_ARRAY_SIZE" using inv by (simp add: wire_inv_def)
qed

lemma no_flag_unsent:
  assumes "wire_inv s" and "\<not> wi_flag s"
  shows "wi_array s = []" "wi_given s = wi_sent s @ wi_queue s"
proof -
  have "\<forall>q\<in>#wi_threads s. \<not> has_flag q" by (rule flag_none [OF assms])
  then have "\<not> (\<exists>p\<in>{Draining, InFlight, Completed, Broken}. p \<in># wi_threads s)" by auto
  then show a: "wi_array s = []" using assms(1) unfolding wire_inv_def by blast
  then show "wi_given s = wi_sent s @ wi_queue s" using assms(1) by (simp add: wire_inv_def unsent_def)
qed

lemma unicast_inv:
  assumes inv: "wire_inv s" and st: "unicast_step new s s'"
  shows "wire_inv s'"
  using st
proof (cases rule: unicast_step.cases)
  case (enqueue T m)
  show ?thesis by (rule move_inv [OF inv enqueue(3), where q = Queued and ms = "[m]"]) (simp_all add: enqueue(2))
next
  case (post T)
  show ?thesis by (rule move_inv [OF inv post(3), where q = Elsewhere and ms = "[]"]) (simp_all add: post(2))
qed

lemma completion_inv:
  assumes inv: "wire_inv s" and st: "completion_step new s s'"
  shows "wire_inv s'"
  using st
proof (cases rule: completion_step.cases)
  case (complete T)
  have f: "has_flag InFlight" by simp
  note so = flag_sole [OF inv complete(3) f] and un = unsent_owner [OF inv complete(3) f]
  show ?thesis
    by (rule owner_inv [OF inv _ so(2), where q = Completed]) (use so un in \<open>auto simp: complete(2)\<close>)
next
  case (give_back T)
  have f: "has_flag Completed" by simp
  note so = flag_sole [OF inv give_back(3) f] and un = unsent_owner [OF inv give_back(3) f]
  show ?thesis
    by (rule owner_inv [OF inv _ so(2), where q = Giving]) (use so un in \<open>auto simp: give_back(2)\<close>)
next
  case (unflag T)
  have f: "has_flag Giving" by simp
  note so = flag_sole [OF inv unflag(3) f] and un = unsent_owner [OF inv unflag(3) f]
  show ?thesis
    by (rule owner_inv [OF inv _ so(2), where q = Exchanging]) (use so un in \<open>auto simp: unflag(2)\<close>)
qed

lemma sendpost_inv:
  assumes inv: "wire_inv s" and st: "sendpost_step new s s'"
  shows "wire_inv s'"
  using st
proof (cases rule: sendpost_step.cases)
  case (take_post T)
  show ?thesis by (rule move_inv [OF inv take_post(3), where q = Exchanging and ms = "[]"]) (simp_all add: take_post(2))
next
  case (exchange T)
  show ?thesis
  proof (cases "wi_flag s")
    case True
    have "size (filter_mset has_flag T) = 1"
      using inv True exchange(3) by (simp add: wire_inv_def)
    then have "filter_mset has_flag T \<noteq> {#}" by (metis size_empty zero_neq_one)
    then have "\<exists>p. p \<in># T \<and> has_flag p" unfolding filter_empty_iff by blast
    then have "\<exists>p. p \<in># T \<and> p \<noteq> Elsewhere" by (metis has_flag.simps(8))
    then show ?thesis
      using True by (intro move_inv [OF inv exchange(3), where q = Elsewhere and ms = "[]"]) (simp_all add: exchange(2))
  next
    case False
    note no = no_flag_unsent [OF inv False]
    have "\<forall>r\<in>#T. \<not> has_flag r" using flag_none [OF inv False] exchange(3) by auto
    then show ?thesis
      using False no by (intro owner_inv [OF inv, of s' Won T]) (auto simp: exchange(2))
  qed
next
  case (test_queue T)
  have f: "has_flag Won" by simp
  note so = flag_sole [OF inv test_queue(3) f] and un = unsent_owner [OF inv test_queue(3) f]
  show ?thesis
    by (rule owner_inv [OF inv _ so(2), where q = "if wi_queue s = [] then Emptying else Draining"])
      (use so un in \<open>auto simp: test_queue(2)\<close>)
next
  case (reset_flag T)
  have f: "has_flag Emptying" by simp
  note so = flag_sole [OF inv reset_flag(3) f] and un = unsent_owner [OF inv reset_flag(3) f]
  show ?thesis
    by (rule owner_inv [OF inv _ so(2), where q = Rechecking]) (use so un in \<open>auto simp: reset_flag(2)\<close>)
next
  case (retest_queue T)
  show ?thesis
    by (rule move_inv [OF inv retest_queue(3), where q = "if wi_queue s \<noteq> [] then Exchanging else Elsewhere" and ms = "[]"])
      (simp_all add: retest_queue(2))
next
  case (drain T m ms)
  have f: "has_flag Draining" by simp
  note so = flag_sole [OF inv drain(3) f] and un = unsent_owner [OF inv drain(3) f]
  have "DEQ_PACKET_ARRAY_SIZE \<noteq> 0" by (simp add: DEQ_PACKET_ARRAY_SIZE_def)
  then show ?thesis
    by (intro owner_inv [OF inv _ so(2), where q = Draining]) (use so un drain(3-5) in \<open>auto simp: drain(2)\<close>)
next
  case (array_full T)
  have f: "has_flag Draining" by simp
  note so = flag_sole [OF inv array_full(3) f] and un = unsent_owner [OF inv array_full(3) f]
  show ?thesis
    by (rule owner_inv [OF inv _ so(2), where q = Broken]) (use so un in \<open>auto simp: array_full(2)\<close>)
next
  case (send T)
  have f: "has_flag Draining" by simp
  note so = flag_sole [OF inv send(3) f] and un = unsent_owner [OF inv send(3) f]
  show ?thesis
    by (rule owner_inv [OF inv _ so(2), where q = InFlight]) (use so un send(4) in \<open>auto simp: send(2)\<close>)
next
  case (send_fails T)
  have f: "has_flag Draining" by simp
  note so = flag_sole [OF inv send_fails(3) f] and un = unsent_owner [OF inv send_fails(3) f]
  show ?thesis
    by (rule owner_inv [OF inv _ so(2), where q = Broken]) (use so un in \<open>auto simp: send_fails(2)\<close>)
qed

lemma wire_step_inv: "wire_inv s \<Longrightarrow> wire_step new s s' \<Longrightarrow> wire_inv s'"
  unfolding wire_step_def by (elim disjE; erule (1) unicast_inv sendpost_inv completion_inv)

section \<open>Work that is left\<close>

text \<open>
  A thread may go round the loop of \<open>SendPost\<close> only while the queue is not empty, and draining
  shortens the queue: a step that shortens it outweighs whatever the threads' shares do.
\<close>

fun spc_work :: "bool \<Rightarrow> spc \<Rightarrow> nat" where
  "spc_work b Elsewhere = 0"
| "spc_work b Queued = 15"
| "spc_work b Exchanging = 9"
| "spc_work b Won = 8"
| "spc_work b Emptying = (if b then 11 else 2)"
| "spc_work b Rechecking = (if b then 10 else 1)"
| "spc_work b Draining = (if b then 1 else 13)"
| "spc_work b InFlight = 12"
| "spc_work b Completed = 11"
| "spc_work b Giving = 10"
| "spc_work b Broken = 0"

definition wire_work :: "'m Wire \<Rightarrow> nat" where
  "wire_work s = 16 * size (wi_threads s) * length (wi_queue s) + 14 * wi_posts s +
     sum_mset (image_mset (spc_work (wi_queue s \<noteq> [])) (wi_threads s))"

lemma spc_work_le: "sum_mset (image_mset (spc_work b) M) \<le> 15 * size M"
proof -
  have "spc_work b p \<le> 15" for p by (cases p) simp_all
  then show ?thesis by (induction M) (simp_all add: add_mono)
qed

lemma wire_work_le: "wire_work s \<le> 16 * size (wi_threads s) * (length (wi_queue s) + 1) + 14 * wi_posts s"
  using spc_work_le [of "wi_queue s \<noteq> []" "wi_threads s"] by (simp add: wire_work_def algebra_simps)

lemma unicast_work: "unicast_step False s s' \<Longrightarrow> wire_work s' < wire_work s"
  by (erule unicast_step.cases) (simp_all add: wire_work_def)

lemma completion_work: "completion_step False s s' \<Longrightarrow> wire_work s' < wire_work s"
  by (erule completion_step.cases) (simp_all add: wire_work_def)

lemma sendpost_work:
  assumes "sendpost_step False s s'"
  shows "wire_work s' < wire_work s"
  using assms
proof (cases rule: sendpost_step.cases)
  case (drain T m ms)
  let ?N = "size (wi_threads s)"
  have N: "0 < ?N" using drain(2) by simp
  have "wire_work s' \<le> 16 * ?N * length ms + 14 * wi_posts s + 15 * ?N"
    using spc_work_le [of "ms \<noteq> []" "wi_threads s"] drain(1) by (simp add: wire_work_def)
  also have "\<dots> < 16 * ?N * length (m # ms) + 14 * wi_posts s" using N by (simp add: algebra_simps)
  also have "\<dots> \<le> wire_work s" using drain(3) by (simp add: wire_work_def)
  finally show ?thesis .
qed (auto simp: wire_work_def)

lemma wire_work_less: "wire_step False s s' \<Longrightarrow> wire_work s' < wire_work s"
  unfolding wire_step_def by (elim disjE; erule unicast_work sendpost_work completion_work)

lemma wire_step_size: "wire_step new s s' \<Longrightarrow> size (wi_threads s') = size (wi_threads s)"
  unfolding wire_step_def by (elim disjE; erule wire_step_cases; simp)

definition any_wire_step :: "'m Wire \<Rightarrow> 'm Wire \<Rightarrow> bool" where
  "any_wire_step s s' \<longleftrightarrow> (\<exists>new. wire_step new s s')"

lemma wire_init_inv: "wire_init n s \<Longrightarrow> wire_inv s \<and> size (wi_threads s) = n"
proof -
  assume s: "wire_init n s"
  have "\<forall>p\<in>#replicate_mset n Elsewhere. \<not> has_flag p" by (simp add: set_mset_replicate_mset_subset)
  then have "filter_mset has_flag (replicate_mset n Elsewhere) = {#}" unfolding filter_empty_iff .
  with s show ?thesis by (simp add: wire_init_def wire_inv_def unsent_def)
qed

interpretation wire_protocol: finishing_steps "wire_init n" any_wire_step
  "\<lambda>s. wire_inv s \<and> size (wi_threads s) = n" "wire_step False" wire_work
proof unfold_locales
  show "wire_inv s' \<and> size (wi_threads s') = n" if "wire_inv s \<and> size (wi_threads s) = n" "any_wire_step s s'" for s s'
    using that wire_step_inv [of s _ s'] wire_step_size [of _ s s'] unfolding any_wire_step_def by auto
  show "any_wire_step s s'" if "wire_step False s s'" for s s' using that by (auto simp: any_wire_step_def)
qed (auto dest: wire_init_inv intro: wire_work_less)

lemma wire_stuck:
  assumes "\<nexists>t. wire_step False s t" and "p \<in># wi_threads s"
  shows "p = Elsewhere \<or> p = Broken"
proof (rule ccontr)
  assume no: "\<not> (p = Elsewhere \<or> p = Broken)"
  obtain T where T: "wi_threads s = add_mset p T" using assms(2) by (metis mset_add)
  have "\<exists>t. wire_step False s t"
  proof (cases p)
    case Draining
    then show ?thesis
      using T send [of s T] by (cases "wi_queue s"; cases "length (wi_array s) > DEQ_PACKET_ARRAY_SIZE - 1")
        (fastforce intro: wire_stepI drain array_full)+
  qed (use no T in \<open>auto intro: wire_stepI wire_step_intros\<close>)
  with assms(1) show False ..
qed

lemma wire_at_rest:
  assumes inv: "wire_inv s" and stuck: "\<nexists>t. wire_step False s t" and whole: "Broken \<notin># wi_threads s"
    and some: "wi_threads s \<noteq> {#}"
  shows "(\<forall>p\<in>#wi_threads s. p = Elsewhere) \<and> wi_queue s = [] \<and> \<not> wi_flag s \<and> wi_sent s = wi_given s"
proof -
  have idle: "\<forall>p\<in>#wi_threads s. p = Elsewhere" using wire_stuck [OF stuck] whole by blast
  obtain T where T: "wi_threads s = add_mset Elsewhere T"
    using some idle by (metis multiset_nonemptyE mset_add)
  have "wi_posts s = 0" using stuck take_post [OF T] by (auto dest: wire_stepI)
  then have q: "wi_queue s = []" using inv idle unfolding wire_inv_def by (metis less_irrefl)
  have "\<forall>p\<in>#wi_threads s. \<not> has_flag p" using idle by auto
  then have "filter_mset has_flag (wi_threads s) = {#}" unfolding filter_empty_iff .
  moreover have "size (filter_mset has_flag (wi_threads s)) = (if wi_flag s then 1 else 0)"
    using inv unfolding wire_inv_def by blast
  ultimately have f: "\<not> wi_flag s" by (metis size_empty zero_neq_one)
  with no_flag_unsent(2) [OF inv f] q idle show ?thesis by simp
qed

section \<open>Properties\<close>

text \<open>
  C2. Sending under any interleaving: at most one thread owns the send flag, so a session never
  has two sends in flight; who wins the flag finds the packet array empty, so the \<open>Crash()\<close> that
  tests it is never reached; and what was given to \<open>SendUnicast\<close> is, in order and without loss or
  duplicate, what was sent, then what stands in the array, then what stands in the queue.
\<close>

theorem wire_protocol_safe:
  assumes "reachable (wire_init n) any_wire_step s"
  shows "size (filter_mset has_flag (wi_threads s)) = (if wi_flag s then 1 else 0) \<and>
    (Won \<in># wi_threads s \<longrightarrow> wi_array s = []) \<and>
    wi_given s = wi_sent s @ unsent s @ wi_queue s"
proof -
  have inv: "wire_inv s" using wire_protocol.inv_reachable [OF assms] by blast
  have "wi_array s = []" if w: "Won \<in># wi_threads s"
  proof -
    obtain T where "wi_threads s = add_mset Won T" using w by (metis mset_add)
    then show ?thesis using unsent_owner(2) [OF inv, of Won T] by simp
  qed
  then show ?thesis using inv unfolding wire_inv_def by blast
qed

text \<open>
  C16. No message is forgotten: from any reachable state with at least one worker, once nothing
  new is sent, the threads come to rest after a bounded number of steps whatever the order they
  run in; then, unless a send failed or more than a hundred messages had queued up, every
  message given to \<open>SendUnicast\<close> has been sent and the send flag is clear.  The second test of
  the queue after the flag is reset is what this rests on.
\<close>

theorem wire_protocol_live:
  assumes "reachable (wire_init n) any_wire_step s" and "0 < n"
  shows "((wire_step False ^^ k) s s' \<longrightarrow> k \<le> 16 * n * (length (wi_queue s) + 1) + 14 * wi_posts s) \<and>
    (\<exists>t. (wire_step False)\<^sup>*\<^sup>* s t \<and> (\<nexists>u. wire_step False t u)) \<and>
    ((wire_step False)\<^sup>*\<^sup>* s t \<and> (\<nexists>u. wire_step False t u) \<and> Broken \<notin># wi_threads t \<longrightarrow>
       wi_sent t = wi_given t \<and> wi_queue t = [] \<and> \<not> wi_flag t)"
proof -
  note inv = wire_protocol.inv_reachable [OF assms(1)]
  have "k \<le> 16 * n * (length (wi_queue s) + 1) + 14 * wi_posts s" if "(wire_step False ^^ k) s s'"
    using wire_protocol.finish_bound [OF inv that] wire_work_le [of s] inv by simp
  moreover have "wi_sent t = wi_given t \<and> wi_queue t = [] \<and> \<not> wi_flag t"
    if run: "(wire_step False)\<^sup>*\<^sup>* s t" and stuck: "\<nexists>u. wire_step False t u" and b: "Broken \<notin># wi_threads t"
  proof -
    obtain k where "(wire_step False ^^ k) s t" using run by (auto simp: rtranclp_power)
    then have t: "wire_inv t" "size (wi_threads t) = n" using wire_protocol.finish_bound [OF inv] by blast+
    have "wi_threads t \<noteq> {#}" using t(2) assms(2) by auto
    from wire_at_rest [OF t(1) stuck b this] show ?thesis by blast
  qed
  ultimately show ?thesis using wire_protocol.finish_end [OF inv] by blast
qed

text \<open>One worker has queued a message and another has won the flag for it.\<close>

lemma wire_first_message:
  "\<exists>s :: nat Wire. reachable (wire_init 2) any_wire_step s \<and> wi_threads s = {#Won, Elsewhere#} \<and>
     wi_queue s = [7] \<and> wi_posts s = 0 \<and> wi_given s = [7] \<and> wi_sent s = []"
proof -
  define s0 :: "nat Wire" where "s0 = \<lparr>wi_queue = [], wi_flag = False, wi_array = [], wi_posts = 0,
     wi_threads = {#Elsewhere, Elsewhere#}, wi_given = [], wi_sent = []\<rparr>"
  let ?s1 = "s0\<lparr>wi_queue := [7], wi_given := [7], wi_threads := {#Queued, Elsewhere#}\<rparr>"
  let ?s2 = "?s1\<lparr>wi_posts := 1, wi_threads := {#Elsewhere, Elsewhere#}\<rparr>"
  let ?s3 = "?s2\<lparr>wi_posts := 0, wi_threads := {#Exchanging, Elsewhere#}\<rparr>"
  let ?s4 = "?s3\<lparr>wi_flag := True, wi_threads := {#Won, Elsewhere#}\<rparr>"
  have "any_wire_step s0 ?s1"
    unfolding any_wire_step_def using enqueue [of s0 "{#Elsewhere#}" 7] by (auto simp: s0_def intro: wire_stepI)
  moreover have "any_wire_step ?s1 ?s2"
    unfolding any_wire_step_def using post [of ?s1 "{#Elsewhere#}"] by (auto simp: s0_def intro: wire_stepI)
  moreover have "any_wire_step ?s2 ?s3"
    unfolding any_wire_step_def using take_post [of ?s2 "{#Elsewhere#}"] by (auto simp: s0_def intro: wire_stepI)
  moreover have "any_wire_step ?s3 ?s4"
    unfolding any_wire_step_def using exchange [of ?s3 "{#Elsewhere#}"] by (auto simp: s0_def intro: wire_stepI)
  moreover have "wire_init 2 s0" by (simp add: wire_init_def s0_def numeral_2_eq_2)
  ultimately have "reachable (wire_init 2) any_wire_step ?s4" by (meson reachable_init reachable_step)
  then show ?thesis by (intro exI [of _ ?s4]) (simp add: s0_def)
qed

theorem wire_protocol_safe_witness:
  "\<exists>s :: nat Wire. reachable (wire_init 2) any_wire_step s \<and> Won \<in># wi_threads s \<and> wi_queue s = [7] \<and>
     wi_array s = [] \<and> size (filter_mset has_flag (wi_threads s)) = 1"
proof -
  obtain s :: "nat Wire" where s: "reachable (wire_init 2) any_wire_step s" "wi_threads s = {#Won, Elsewhere#}"
      "wi_queue s = [7]" using wire_first_message by blast
  from wire_protocol_safe [OF s(1)] s show ?thesis by (intro exI [of _ s]) simp
qed

theorem wire_protocol_live_witness:
  "\<exists>s t :: nat Wire. reachable (wire_init 2) any_wire_step s \<and> wi_queue s = [7] \<and>
     (wire_step False)\<^sup>*\<^sup>* s t \<and> (Broken \<notin># wi_threads t \<longrightarrow> wi_sent t = wi_given t)"
proof -
  obtain s :: "nat Wire" where s: "reachable (wire_init 2) any_wire_step s" "wi_queue s = [7]"
    using wire_first_message by blast
  have n: "0 < (2::nat)" by simp
  note live = wire_protocol_live [OF s(1) n]
  obtain t where t: "(wire_step False)\<^sup>*\<^sup>* s t" "\<nexists>u. wire_step False t u" using live by blast
  with live s show ?thesis by blast
qed

end
