(* ===== verification/StackProtocol.thy ===== *)
theory StackProtocol
  imports Transition LockFreeStack "HOL-Library.Multiset"
begin

text \<open>
  \<^verbatim>\<open>LockFreeStack<T>\<close> of LockFreeStack.h under any number of threads, instruction by instruction:
  every read and write of shared memory and every interlocked operation of \<open>Push\<close> and \<open>Pop\<close> is a
  step.  The pointer and the identifier of the top are read one after the other, so a thread may
  hold a pair that never was; and a node read through an old pointer may have been freed and be in
  use again.  The pool of nodes is its contract, which
  FreeListProtocol proves of the program's pool: it hands out any block that nobody holds.
\<close>

section \<open>The stack and where the threads are\<close>

text \<open>
  In \<open>Push\<close>: \<open>Filling\<close> has its node and is about to write the data, then \<open>Nulling\<close> the next
  pointer; \<open>PushReadPtr\<close> and \<open>PushReadID\<close> copy the top, \<open>Linking\<close> is about to set the next
  pointer, \<open>Swapping\<close> about to compare and exchange, \<open>Counting\<close> to increment the count.  In \<open>Pop\<close>:
  \<open>Refused\<close> has found the count negative, \<open>Reserved\<close> has not; \<open>HalfRead\<close> has copied the pointer,
  \<open>Popping\<close> the identifier too and is about to read the next pointer of the top, \<open>Taking\<close> about to
  compare and exchange; \<open>Taken\<close> owns the old top and is about to read its data, \<open>Returning\<close> about to
  free the node.  The first value of the last two is the one at the top of the list at the
  exchange, the second the one read.  \<open>NullRead\<close> has read through a null pointer.
\<close>

datatype 'a kpc = Away
  | Filling addr 'a | Nulling addr 'a | PushReadPtr addr 'a | PushReadID addr 'a "addr option"
  | Linking addr 'a "addr option" "64 word" | Swapping addr 'a "addr option" "64 word" | Counting
  | Refused | Reserved | HalfRead "addr option" | Popping "addr option" "64 word"
  | Taking addr "64 word" "addr option" | Taken addr 'a | Returning addr 'a 'a | NullRead

text \<open>
  \<open>sk_used\<close> are the nodes the pool has handed out.  The last two fields are kept for the properties
  only: the list the stack stands for, which only a successful exchange changes, and the number of
  these changes.
\<close>

record 'a Stack =
  sk_TopPtr :: "addr option"
  sk_TopID :: "64 word"
  sk_Count :: "32 word"
  sk_Data :: "addr \<Rightarrow> 'a"
  sk_Next :: "addr \<Rightarrow> addr option"
  sk_used :: "addr set"
  sk_threads :: "'a kpc multiset"
  sk_list :: "'a list"
  sk_changes :: nat

text \<open>The steps; the first argument is the number of nodes the memory has room for, the second as in the other protocols.\<close>

inductive push_step :: "nat \<Rightarrow> bool \<Rightarrow> 'a Stack \<Rightarrow> 'a Stack \<Rightarrow> bool" for K where
  alloc: "sk_threads s = add_mset Away T \<Longrightarrow> n \<notin> sk_used s \<Longrightarrow> n < K \<Longrightarrow>
    push_step K True s (s\<lparr>sk_used := insert n (sk_used s), sk_threads := add_mset (Filling n x) T\<rparr>)"
| fill: "sk_threads s = add_mset (Filling n x) T \<Longrightarrow>
    push_step K False s (s\<lparr>sk_Data := (sk_Data s)(n := x), sk_threads := add_mset (Nulling n x) T\<rparr>)"
| set_null: "sk_threads s = add_mset (Nulling n x) T \<Longrightarrow>
    push_step K False s (s\<lparr>sk_Next := (sk_Next s)(n := None), sk_threads := add_mset (PushReadPtr n x) T\<rparr>)"
| push_read_ptr: "sk_threads s = add_mset (PushReadPtr n x) T \<Longrightarrow>
    push_step K False s (s\<lparr>sk_threads := add_mset (PushReadID n x (sk_TopPtr s)) T\<rparr>)"
| push_read_id: "sk_threads s = add_mset (PushReadID n x p) T \<Longrightarrow>
    push_step K False s (s\<lparr>sk_threads := add_mset (Linking n x p (sk_TopID s)) T\<rparr>)"
| link: "sk_threads s = add_mset (Linking n x p i) T \<Longrightarrow>
    push_step K False s (s\<lparr>sk_Next := (sk_Next s)(n := p), sk_threads := add_mset (Swapping n x p i) T\<rparr>)"
| push_swap: "sk_threads s = add_mset (Swapping n x p i) T \<Longrightarrow> sk_TopPtr s = p \<Longrightarrow> sk_TopID s = i \<Longrightarrow>
    push_step K False s (s\<lparr>sk_TopPtr := Some n, sk_TopID := i + 1, sk_threads := add_mset Counting T,
      sk_list := x # sk_list s, sk_changes := sk_changes s + 1\<rparr>)"
| push_retry: "sk_threads s = add_mset (Swapping n x p i) T \<Longrightarrow> sk_TopPtr s \<noteq> p \<or> sk_TopID s \<noteq> i \<Longrightarrow>
    push_step K False s (s\<lparr>sk_threads := add_mset (Linking n x (sk_TopPtr s) (sk_TopID s)) T\<rparr>)"
| count_up: "sk_threads s = add_mset Counting T \<Longrightarrow>
    push_step K False s (s\<lparr>sk_Count := sk_Count s + 1, sk_threads := add_mset Away T\<rparr>)"

inductive pop_step :: "bool \<Rightarrow> 'a Stack \<Rightarrow> 'a Stack \<Rightarrow> bool" where
  count_down: "sk_threads s = add_mset Away T \<Longrightarrow>
    pop_step True s (s\<lparr>sk_Count := sk_Count s - 1,
      sk_threads := add_mset (if sk_Count s - 1 <s 0 then Refused else Reserved) T\<rparr>)"
| refuse: "sk_threads s = add_mset Refused T \<Longrightarrow>
    pop_step False s (s\<lparr>sk_Count := sk_Count s + 1, sk_threads := add_mset Away T\<rparr>)"
| pop_read_ptr: "sk_threads s = add_mset Reserved T \<Longrightarrow>
    pop_step False s (s\<lparr>sk_threads := add_mset (HalfRead (sk_TopPtr s)) T\<rparr>)"
| pop_read_id: "sk_threads s = add_mset (HalfRead p) T \<Longrightarrow>
    pop_step False s (s\<lparr>sk_threads := add_mset (Popping p (sk_TopID s)) T\<rparr>)"
| read_next: "sk_threads s = add_mset (Popping p i) T \<Longrightarrow>
    pop_step False s (s\<lparr>sk_threads :=
      add_mset (case p of None \<Rightarrow> NullRead | Some n \<Rightarrow> Taking n i (sk_Next s n)) T\<rparr>)"
| pop_swap: "sk_threads s = add_mset (Taking n i p) T \<Longrightarrow> sk_TopPtr s = Some n \<Longrightarrow> sk_TopID s = i \<Longrightarrow>
    pop_step False s (s\<lparr>sk_TopPtr := p, sk_TopID := i + 1, sk_threads := add_mset (Taken n (hd (sk_list s))) T,
      sk_list := tl (sk_list s), sk_changes := sk_changes s + 1\<rparr>)"
| pop_retry: "sk_threads s = add_mset (Taking n i p) T \<Longrightarrow> sk_TopPtr s \<noteq> Some n \<or> sk_TopID s \<noteq> i \<Longrightarrow>
    pop_step False s (s\<lparr>sk_threads := add_mset (Popping (sk_TopPtr s) (sk_TopID s)) T\<rparr>)"
| read_data: "sk_threads s = add_mset (Taken n x) T \<Longrightarrow>
    pop_step False s (s\<lparr>sk_threads := add_mset (Returning n x (sk_Data s n)) T\<rparr>)"
| give_back: "sk_threads s = add_mset (Returning n x y) T \<Longrightarrow>
    pop_step False s (s\<lparr>sk_used := sk_used s - {n}, sk_threads := add_mset Away T\<rparr>)"

definition stack_step :: "nat \<Rightarrow> bool \<Rightarrow> 'a Stack \<Rightarrow> 'a Stack \<Rightarrow> bool" where
  "stack_step K new s s' \<longleftrightarrow> push_step K new s s' \<or> pop_step new s s'"

definition stack_init :: "nat \<Rightarrow> 'a Stack \<Rightarrow> bool" where
  "stack_init n s \<longleftrightarrow> sk_TopPtr s = None \<and> sk_TopID s = - 1 \<and> sk_Count s = 0 \<and> sk_used s = {} \<and>
     sk_threads s = replicate_mset n Away \<and> sk_list s = [] \<and> sk_changes s = 0"

section \<open>The invariant\<close>

text \<open>The node a thread owns, and the two ways to wait.\<close>

fun own :: "'a kpc \<Rightarrow> addr multiset" where
  "own (Filling n x) = {#n#}"
| "own (Nulling n x) = {#n#}"
| "own (PushReadPtr n x) = {#n#}"
| "own (PushReadID n x p) = {#n#}"
| "own (Linking n x p i) = {#n#}"
| "own (Swapping n x p i) = {#n#}"
| "own (Taken n x) = {#n#}"
| "own (Returning n x y) = {#n#}"
| "own _ = {#}"

definition owned :: "'a kpc multiset \<Rightarrow> addr multiset" where
  "owned M = \<Sum>\<^sub># (image_mset own M)"

lemma owned_simps [simp]: "owned {#} = {#}" "owned (add_mset q M) = own q + owned M"
  by (simp_all add: owned_def)

fun reserved :: "'a kpc \<Rightarrow> bool" where
  "reserved Reserved = True"
| "reserved (HalfRead p) = True"
| "reserved (Popping p i) = True"
| "reserved (Taking n i p) = True"
| "reserved _ = False"

fun uncounted :: "'a kpc \<Rightarrow> bool" where
  "uncounted Counting = True"
| "uncounted Refused = True"
| "uncounted _ = False"

definition waiting :: "'a kpc multiset \<Rightarrow> nat" where
  "waiting M = size (filter_mset reserved M)"

definition missing :: "'a kpc multiset \<Rightarrow> nat" where
  "missing M = size (filter_mset uncounted M)"

lemma waiting_simps [simp]:
  "waiting {#} = 0" "waiting (add_mset q M) = (if reserved q then Suc (waiting M) else waiting M)"
  by (simp_all add: waiting_def)

lemma missing_simps [simp]:
  "missing {#} = 0" "missing (add_mset q M) = (if uncounted q then Suc (missing M) else missing M)"
  by (simp_all add: missing_def)

text \<open>The nodes on the stack, from the top down.\<close>

fun linked :: "(addr \<Rightarrow> addr option) \<Rightarrow> addr option \<Rightarrow> addr list \<Rightarrow> bool" where
  "linked nx t [] \<longleftrightarrow> t = None"
| "linked nx t (n # ns) \<longleftrightarrow> t = Some n \<and> linked nx (nx n) ns"

lemma linked_upd [simp]: "n \<notin> set ns \<Longrightarrow> linked (nx(n := p)) t ns = linked nx t ns"
  by (induction nx t ns rule: linked.induct) auto

text \<open>
  Identifiers are counted up: who holds the newest one knows that nothing has changed since it
  was copied.
\<close>

definition stamp :: "nat \<Rightarrow> 64 word" where
  "stamp c = of_nat c - 1"

definition copied :: "'a Stack \<Rightarrow> 64 word \<Rightarrow> bool \<Rightarrow> bool" where
  "copied s i now \<longleftrightarrow> (\<exists>c \<le> sk_changes s. i = stamp c \<and> (c = sk_changes s \<longrightarrow> now))"

fun thread_ok :: "'a Stack \<Rightarrow> 'a kpc \<Rightarrow> bool" where
  "thread_ok s (Nulling n x) \<longleftrightarrow> sk_Data s n = x"
| "thread_ok s (PushReadPtr n x) \<longleftrightarrow> sk_Data s n = x"
| "thread_ok s (PushReadID n x p) \<longleftrightarrow> sk_Data s n = x"
| "thread_ok s (Linking n x p i) \<longleftrightarrow> sk_Data s n = x"
| "thread_ok s (Swapping n x p i) \<longleftrightarrow> sk_Data s n = x \<and> sk_Next s n = p"
| "thread_ok s (HalfRead p) \<longleftrightarrow> p \<noteq> None"
| "thread_ok s (Popping p i) \<longleftrightarrow> p \<noteq> None \<and> copied s i True"
| "thread_ok s (Taking n i p) \<longleftrightarrow> copied s i (sk_TopPtr s = Some n \<longrightarrow> sk_Next s n = p)"
| "thread_ok s (Taken n x) \<longleftrightarrow> sk_Data s n = x"
| "thread_ok s (Returning n x y) \<longleftrightarrow> y = x"
| "thread_ok s NullRead \<longleftrightarrow> False"
| "thread_ok s _ \<longleftrightarrow> True"

definition stack_inv :: "nat \<Rightarrow> 'a Stack \<Rightarrow> bool" where
  "stack_inv K s \<longleftrightarrow>
     (\<exists>ns. linked (sk_Next s) (sk_TopPtr s) ns \<and> map (sk_Data s) ns = sk_list s \<and>
        mset ns + owned (sk_threads s) = mset_set (sk_used s) \<and> waiting (sk_threads s) \<le> length ns \<and>
        sk_Count s = word_of_int (int (length ns) - int (waiting (sk_threads s)) - int (missing (sk_threads s)))) \<and>
     sk_used s \<subseteq> {..<K} \<and> sk_TopID s = stamp (sk_changes s) \<and> (\<forall>q\<in>#sk_threads s. thread_ok s q)"

lemma stamp_inject: "b < 2 ^ 64 \<Longrightarrow> c < 2 ^ 64 \<Longrightarrow> stamp b = stamp c \<longleftrightarrow> b = c"
proof -
  assume "b < 2 ^ 64" "c < 2 ^ 64"
  then have "(of_nat b :: 64 word) = of_nat c \<longleftrightarrow> b = c" by (simp add: word_unat_eq_iff unat_of_nat)
  then show ?thesis by (simp add: stamp_def)
qed

lemma copied_now: "copied s (stamp (sk_changes s)) now \<Longrightarrow> sk_changes s < 2 ^ 64 \<Longrightarrow> now"
  by (auto simp: copied_def stamp_inject)

lemma copied_new: "sk_TopID s = stamp (sk_changes s) \<Longrightarrow> now \<Longrightarrow> copied s (sk_TopID s) now"
  by (auto simp: copied_def)

lemma own_owned: "q \<in># M \<Longrightarrow> n \<in># own q \<Longrightarrow> n \<in># owned M"
  by (metis UnI1 insert_DiffM owned_simps(2) set_mset_union)

text \<open>How the other threads fare: nothing they look at changes, a node they do not own is written, or the top changes.\<close>

lemma thread_ok_same:
  assumes "sk_Data s' = sk_Data s" "sk_Next s' = sk_Next s" "sk_TopPtr s' = sk_TopPtr s" "sk_changes s' = sk_changes s"
  shows "thread_ok s' q = thread_ok s q"
  using assms by (cases q) (simp_all add: copied_def)

lemma thread_ok_written:
  assumes "thread_ok s q" and "n \<notin># own q" and "sk_TopPtr s \<noteq> Some n"
    and "\<And>m. m \<noteq> n \<Longrightarrow> sk_Data s' m = sk_Data s m" "\<And>m. m \<noteq> n \<Longrightarrow> sk_Next s' m = sk_Next s m"
    and "sk_TopPtr s' = sk_TopPtr s" "sk_changes s' = sk_changes s"
  shows "thread_ok s' q"
  using assms by (cases q) (auto simp: copied_def)

lemma thread_ok_changed:
  assumes "thread_ok s q" and "sk_Data s' = sk_Data s" "sk_Next s' = sk_Next s" "sk_changes s' = Suc (sk_changes s)"
  shows "thread_ok s' q"
proof -
  have "copied s' i now" if "copied s i now'" for i now now'
    using that assms(4) by (auto simp: copied_def intro: le_SucI)
  then show ?thesis using assms(1-3) by (cases q) auto
qed

text \<open>A node owned is on the stack nowhere and owned by nobody else.\<close>

lemma sole_owner_node:
  assumes "mset ns + owned (add_mset q T) = mset_set U" and "n \<in># own q"
  shows "n \<notin> set ns" "r \<in># T \<Longrightarrow> n \<notin># own r"
proof -
  have "count (mset ns + owned (add_mset q T)) n \<le> 1" unfolding assms(1) by (simp add: count_mset_set')
  moreover have "0 < count (own q) n" using assms(2) by simp
  ultimately have "count (mset ns) n = 0" "count (owned T) n = 0"
    unfolding count_union owned_simps by linarith+
  then have "n \<notin> set ns" "n \<notin># owned T" by (simp_all add: count_mset_0_iff not_in_iff)
  then show "n \<notin> set ns" "r \<in># T \<Longrightarrow> n \<notin># own r" using own_owned by blast+
qed

lemma linked_top: "linked nx t ns \<Longrightarrow> t = Some n \<Longrightarrow> n \<in> set ns"
  by (cases ns) auto

text \<open>A step of one thread, in the parts the invariant has.\<close>

lemma stack_inv_step:
  assumes inv: "stack_inv K s" and T: "sk_threads s = add_mset q T" "sk_threads s' = add_mset q' T"
    and others: "\<And>r. r \<in># T \<Longrightarrow> thread_ok s r \<Longrightarrow> thread_ok s' r" and own: "thread_ok s' q'"
    and top: "sk_TopID s' = stamp (sk_changes s')" "sk_used s' \<subseteq> {..<K}"
    and list: "\<And>ns. linked (sk_Next s) (sk_TopPtr s) ns \<Longrightarrow> map (sk_Data s) ns = sk_list s \<Longrightarrow>
        mset ns + owned (sk_threads s) = mset_set (sk_used s) \<Longrightarrow> waiting (sk_threads s) \<le> length ns \<Longrightarrow>
        sk_Count s = word_of_int (int (length ns) - int (waiting (sk_threads s)) - int (missing (sk_threads s))) \<Longrightarrow>
      \<exists>ns'. linked (sk_Next s') (sk_TopPtr s') ns' \<and> map (sk_Data s') ns' = sk_list s' \<and>
        mset ns' + owned (sk_threads s') = mset_set (sk_used s') \<and> waiting (sk_threads s') \<le> length ns' \<and>
        sk_Count s' = word_of_int (int (length ns') - int (waiting (sk_threads s')) - int (missing (sk_threads s')))"
  shows "stack_inv K s'"
proof -
  have "\<forall>r\<in>#sk_threads s'. thread_ok s' r" using inv T others own by (simp add: stack_inv_def)
  moreover have "\<exists>ns'. linked (sk_Next s') (sk_TopPtr s') ns' \<and> map (sk_Data s') ns' = sk_list s' \<and>
        mset ns' + owned (sk_threads s') = mset_set (sk_used s') \<and> waiting (sk_threads s') \<le> length ns' \<and>
        sk_Count s' = word_of_int (int (length ns') - int (waiting (sk_threads s')) - int (missing (sk_threads s')))"
    using inv list unfolding stack_inv_def by blast
  ultimately show ?thesis using top by (simp add: stack_inv_def)
qed

text \<open>A thread moves on without writing anything but the count.\<close>

lemma stack_inv_move:
  assumes inv: "stack_inv K s" and T: "sk_threads s = add_mset q T"
    and own: "own q' = own q" "thread_ok s q'" and w: "\<And>ns. reserved q' \<Longrightarrow> \<not> reserved q \<Longrightarrow> linked (sk_Next s) (sk_TopPtr s) ns \<Longrightarrow> waiting (sk_threads s) < length ns"
    and d: "int (if reserved q' then 1 else 0) + int (if uncounted q' then 1 else 0) + d =
      int (if reserved q then 1 else 0) + int (if uncounted q then 1 else 0)"
  shows "stack_inv K (s\<lparr>sk_Count := sk_Count s + word_of_int d, sk_threads := add_mset q' T\<rparr>)" (is "stack_inv K ?s'")
proof (rule stack_inv_step [OF inv T])
  show "sk_TopID ?s' = stamp (sk_changes ?s')" "sk_used ?s' \<subseteq> {..<K}" using inv by (simp_all add: stack_inv_def)
  show "thread_ok ?s' q'" using own(2) thread_ok_same [of ?s' s q'] by simp
  show "thread_ok ?s' r" if "thread_ok s r" for r using that thread_ok_same [of ?s' s r] by simp
  fix ns assume a: "linked (sk_Next s) (sk_TopPtr s) ns" "map (sk_Data s) ns = sk_list s"
    "mset ns + owned (sk_threads s) = mset_set (sk_used s)" "waiting (sk_threads s) \<le> length ns"
    and c: "sk_Count s = word_of_int (int (length ns) - int (waiting (sk_threads s)) - int (missing (sk_threads s)))"
  have "int (length ns) - int (waiting (add_mset q' T)) - int (missing (add_mset q' T)) =
      int (length ns) - int (waiting (add_mset q T)) - int (missing (add_mset q T)) + d"
    using d by (simp split: if_splits)
  moreover have "sk_Count ?s' = sk_Count s + word_of_int d" by simp
  moreover note c [unfolded T]
  ultimately have "sk_Count ?s' = word_of_int (int (length ns) - int (waiting (add_mset q' T)) - int (missing (add_mset q' T)))"
    by (simp only: of_int_add)
  then have "sk_Count ?s' = word_of_int (int (length ns) - int (waiting (sk_threads ?s')) - int (missing (sk_threads ?s')))" by simp
  then show "\<exists>ns'. linked (sk_Next ?s') (sk_TopPtr ?s') ns' \<and> map (sk_Data ?s') ns' = sk_list ?s' \<and>
        mset ns' + owned (sk_threads ?s') = mset_set (sk_used ?s') \<and> waiting (sk_threads ?s') \<le> length ns' \<and>
        sk_Count ?s' = word_of_int (int (length ns') - int (waiting (sk_threads ?s')) - int (missing (sk_threads ?s')))"
    using a T own(1) w [OF _ _ a(1)] by (intro exI [of _ ns]) (auto split: if_splits)
qed (rule refl | simp)+

lemma stack_inv_stay:
  assumes "stack_inv K s" and "sk_threads s = add_mset q T" and "own q' = own q" "thread_ok s q'"
    and "reserved q' = reserved q" "uncounted q' = uncounted q"
  shows "stack_inv K (s\<lparr>sk_threads := add_mset q' T\<rparr>)"
proof -
  have "s\<lparr>sk_Count := sk_Count s + word_of_int 0, sk_threads := add_mset q' T\<rparr> = s\<lparr>sk_threads := add_mset q' T\<rparr>"
    by (cases s) simp
  then show ?thesis using stack_inv_move [OF assms(1-4), of 0] assms(5,6) by simp
qed

text \<open>A thread writes to the node it owns.\<close>

lemma stack_inv_write:
  assumes inv: "stack_inv K s" and T: "sk_threads s = add_mset q T"
    and own: "own q = {#n#}" "own q' = {#n#}" "\<not> reserved q" "\<not> uncounted q" "\<not> reserved q'" "\<not> uncounted q'"
    and s': "s' = s\<lparr>sk_Data := (sk_Data s)(n := x), sk_Next := (sk_Next s)(n := p), sk_threads := add_mset q' T\<rparr>"
    and ok: "thread_ok s' q'"
  shows "stack_inv K s'"
proof (rule stack_inv_step [OF inv T])
  obtain ns where ns: "linked (sk_Next s) (sk_TopPtr s) ns" "mset ns + owned (sk_threads s) = mset_set (sk_used s)"
    using inv unfolding stack_inv_def by blast
  have n: "n \<in># own q" by (simp add: own(1))
  note sole = sole_owner_node [OF ns(2) [unfolded T] n]
  show "sk_threads s' = add_mset q' T" by (simp add: s')
  show "sk_TopID s' = stamp (sk_changes s')" "sk_used s' \<subseteq> {..<K}" using inv by (simp_all add: stack_inv_def s')
  show "thread_ok s' r" if "r \<in># T" "thread_ok s r" for r
    by (rule thread_ok_written [OF that(2) sole(2) [OF that(1)]]) (use linked_top [OF ns(1)] sole(1) in \<open>auto simp: s'\<close>)
  show "thread_ok s' q'" by (rule ok)
  fix ns assume a: "linked (sk_Next s) (sk_TopPtr s) ns" "map (sk_Data s) ns = sk_list s"
    "mset ns + owned (sk_threads s) = mset_set (sk_used s)" "waiting (sk_threads s) \<le> length ns"
    "sk_Count s = word_of_int (int (length ns) - int (waiting (sk_threads s)) - int (missing (sk_threads s)))"
  have "n \<notin> set ns" by (rule sole_owner_node(1) [OF a(3) [unfolded T] n])
  moreover from this have "map ((sk_Data s)(n := x)) ns = map (sk_Data s) ns" by auto
  ultimately show "\<exists>ns'. linked (sk_Next s') (sk_TopPtr s') ns' \<and> map (sk_Data s') ns' = sk_list s' \<and>
        mset ns' + owned (sk_threads s') = mset_set (sk_used s') \<and> waiting (sk_threads s') \<le> length ns' \<and>
        sk_Count s' = word_of_int (int (length ns') - int (waiting (sk_threads s')) - int (missing (sk_threads s')))"
    using a own T by (intro exI [of _ ns]) (simp add: s')
qed

section \<open>The steps keep it\<close>

lemma stack_inv_top: "stack_inv K s \<Longrightarrow> sk_TopID s = stamp (sk_changes s)"
  by (simp add: stack_inv_def)

lemma stack_inv_head: "stack_inv K s \<Longrightarrow> sk_threads s = add_mset q T \<Longrightarrow> thread_ok s q"
  by (simp add: stack_inv_def)

lemma stack_inv_list:
  assumes "stack_inv K s" and "linked (sk_Next s) (sk_TopPtr s) ns"
  shows "map (sk_Data s) ns = sk_list s" "mset ns + owned (sk_threads s) = mset_set (sk_used s)"
    "waiting (sk_threads s) \<le> length ns" "length ns \<le> K"
    "sk_Count s = word_of_int (int (length ns) - int (waiting (sk_threads s)) - int (missing (sk_threads s)))"
proof -
  have unique: "linked nx t ms \<Longrightarrow> linked nx t ns \<Longrightarrow> ms = ns" for nx and t :: "addr option" and ms ns
  proof (induction nx t ms arbitrary: ns rule: linked.induct)
    case (2 nx t m ms)
    then show ?case by (cases ns) auto
  next
    case (1 nx t)
    then show ?case by (cases ns) auto
  qed
  have n: "map (sk_Data s) ns = sk_list s \<and> mset ns + owned (sk_threads s) = mset_set (sk_used s) \<and>
      waiting (sk_threads s) \<le> length ns \<and>
      sk_Count s = word_of_int (int (length ns) - int (waiting (sk_threads s)) - int (missing (sk_threads s)))"
    using assms unique unfolding stack_inv_def by metis
  then show "map (sk_Data s) ns = sk_list s" "mset ns + owned (sk_threads s) = mset_set (sk_used s)"
    "waiting (sk_threads s) \<le> length ns"
    "sk_Count s = word_of_int (int (length ns) - int (waiting (sk_threads s)) - int (missing (sk_threads s)))" by simp_all
  have "size (mset ns + owned (sk_threads s)) = card (sk_used s)" using n by (simp only: size_mset_set)
  moreover have "card (sk_used s) \<le> K" using assms(1) card_mono [of "{..<K}" "sk_used s"] by (simp add: stack_inv_def)
  ultimately show "length ns \<le> K" by simp
qed

lemma push_step_inv:
  assumes inv: "stack_inv K s" and step: "push_step K new s s'"
  shows "stack_inv K s'"
  using step
proof cases
  case (alloc T n x)
  show ?thesis
  proof (rule stack_inv_step [OF inv alloc(3), where q' = "Filling n x"])
    have fin: "finite (sk_used s)" using inv by (auto simp: stack_inv_def intro: finite_subset)
    show "sk_TopID s' = stamp (sk_changes s')" "sk_used s' \<subseteq> {..<K}" using inv alloc by (simp_all add: stack_inv_def)
    show "thread_ok s' r" if "thread_ok s r" for r using that thread_ok_same [of s' s r] alloc(2) by simp
    fix ns assume "linked (sk_Next s) (sk_TopPtr s) ns" "map (sk_Data s) ns = sk_list s"
      "mset ns + owned (sk_threads s) = mset_set (sk_used s)" "waiting (sk_threads s) \<le> length ns"
      "sk_Count s = word_of_int (int (length ns) - int (waiting (sk_threads s)) - int (missing (sk_threads s)))"
    then show "\<exists>ns'. linked (sk_Next s') (sk_TopPtr s') ns' \<and> map (sk_Data s') ns' = sk_list s' \<and>
        mset ns' + owned (sk_threads s') = mset_set (sk_used s') \<and> waiting (sk_threads s') \<le> length ns' \<and>
        sk_Count s' = word_of_int (int (length ns') - int (waiting (sk_threads s')) - int (missing (sk_threads s')))"
      using alloc fin by (intro exI [of _ ns]) simp
  qed (use alloc in simp_all)
next
  case (fill n x T)
  show ?thesis by (rule stack_inv_write [OF inv fill(3), where q' = "Nulling n x" and n = n and x = x and p = "sk_Next s n"]) (use fill in simp_all)
next
  case (set_null n x T)
  have "sk_Data s n = x" using stack_inv_head [OF inv set_null(3)] by simp
  with set_null show ?thesis by (intro stack_inv_write [OF inv set_null(3), where q' = "PushReadPtr n x" and n = n and x = x and p = None]) auto
next
  case (push_read_ptr n x T)
  have "sk_Data s n = x" using stack_inv_head [OF inv push_read_ptr(3)] by simp
  then show ?thesis unfolding push_read_ptr(2) by (intro stack_inv_stay [OF inv push_read_ptr(3)]) simp_all
next
  case (push_read_id n x p T)
  have "sk_Data s n = x" using stack_inv_head [OF inv push_read_id(3)] by simp
  then show ?thesis unfolding push_read_id(2) by (intro stack_inv_stay [OF inv push_read_id(3)]) simp_all
next
  case (link n x p i T)
  have "sk_Data s n = x" using stack_inv_head [OF inv link(3)] by simp
  with link show ?thesis by (intro stack_inv_write [OF inv link(3), where q' = "Swapping n x p i" and n = n and x = x and p = p]) auto
next
  case (push_swap n x p i T)
  have "thread_ok s (Swapping n x p i)" by (rule stack_inv_head [OF inv push_swap(3)])
  then have d: "sk_Data s n = x" "sk_Next s n = p" by simp_all
  show ?thesis
  proof (rule stack_inv_step [OF inv push_swap(3), where q' = Counting])
    show "sk_TopID s' = stamp (sk_changes s')" "sk_used s' \<subseteq> {..<K}"
      using inv push_swap by (simp_all add: stack_inv_def) (simp add: stamp_def)
    show "thread_ok s' r" if "thread_ok s r" for r by (rule thread_ok_changed [OF that]) (simp_all add: push_swap(2))
    fix ns assume "linked (sk_Next s) (sk_TopPtr s) ns" "map (sk_Data s) ns = sk_list s"
      "mset ns + owned (sk_threads s) = mset_set (sk_used s)" "waiting (sk_threads s) \<le> length ns"
      "sk_Count s = word_of_int (int (length ns) - int (waiting (sk_threads s)) - int (missing (sk_threads s)))"
    then show "\<exists>ns'. linked (sk_Next s') (sk_TopPtr s') ns' \<and> map (sk_Data s') ns' = sk_list s' \<and>
        mset ns' + owned (sk_threads s') = mset_set (sk_used s') \<and> waiting (sk_threads s') \<le> length ns' \<and>
        sk_Count s' = word_of_int (int (length ns') - int (waiting (sk_threads s')) - int (missing (sk_threads s')))"
      using push_swap(3-) d by (intro exI [of _ "n # ns"]) (simp add: push_swap(2))
  qed (use push_swap in simp_all)
next
  case (push_retry n x p i T)
  have "sk_Data s n = x" using stack_inv_head [OF inv push_retry(3)] by simp
  then show ?thesis unfolding push_retry(2) by (intro stack_inv_stay [OF inv push_retry(3)]) simp_all
next
  case (count_up T)
  have "s' = s\<lparr>sk_Count := sk_Count s + word_of_int 1, sk_threads := add_mset Away T\<rparr>" using count_up(2) by simp
  then show ?thesis using stack_inv_move [OF inv count_up(3), of Away 1] by simp
qed

text \<open>The count decides whether a node is left for this thread, as long as it is small.\<close>

lemma count_left:
  assumes inv: "stack_inv K s" and ns: "linked (sk_Next s) (sk_TopPtr s) ns"
    and few: "K + size (sk_threads s) < 2 ^ 31 - 1" and pos: "\<not> sk_Count s - 1 <s 0"
  shows "waiting (sk_threads s) < length ns"
proof -
  let ?W = "waiting (sk_threads s)" and ?M = "missing (sk_threads s)"
  note l = stack_inv_list [OF inv ns]
  have size: "?W \<le> size (sk_threads s)" "?M \<le> size (sk_threads s)"
    unfolding waiting_def missing_def by (rule size_filter_mset_lesseq)+
  define v where "v = int (length ns) - int ?W - int ?M - 1"
  have "sk_Count s - 1 = word_of_int v" using l(5) by (simp add: v_def)
  moreover have "- (2 ^ 31) \<le> v" "v < 2 ^ 31" using l(3,4) size(2) few by (simp_all add: v_def)
  ultimately have "sint (sk_Count s - 1) = v" using sint_LONG by simp
  with pos have "0 \<le> v" by (simp add: word_sless_alt)
  then show ?thesis by (simp add: v_def)
qed

lemma waiting_pos: "q \<in># M \<Longrightarrow> reserved q \<Longrightarrow> 0 < waiting M"
  by (metis multi_member_split waiting_simps(2) zero_less_Suc)

lemma top_when_waiting:
  assumes inv: "stack_inv K s" and q: "q \<in># sk_threads s" "reserved q"
  shows "sk_TopPtr s \<noteq> None"
proof -
  obtain ns where ns: "linked (sk_Next s) (sk_TopPtr s) ns" using inv unfolding stack_inv_def by blast
  have "0 < length ns" by (rule less_le_trans [OF waiting_pos [OF q] stack_inv_list(3) [OF inv ns]])
  then show ?thesis using ns by (cases ns) auto
qed

lemma pop_step_inv:
  assumes inv: "stack_inv K s" and few: "K + size (sk_threads s) < 2 ^ 31 - 1" and new: "sk_changes s < 2 ^ 64"
    and step: "pop_step b s s'"
  shows "stack_inv K s'"
  using step
proof cases
  case (count_down T)
  let ?q = "if sk_Count s - 1 <s 0 then Refused else Reserved"
  have "s' = s\<lparr>sk_Count := sk_Count s + word_of_int (- 1), sk_threads := add_mset ?q T\<rparr>" using count_down(2) by simp
  moreover have "stack_inv K (s\<lparr>sk_Count := sk_Count s + word_of_int (- 1), sk_threads := add_mset ?q T\<rparr>)"
    by (rule stack_inv_move [OF inv count_down(3)]) (use count_left [OF inv _ few] in \<open>simp_all split: if_splits\<close>)
  ultimately show ?thesis by simp
next
  case (refuse T)
  have "s' = s\<lparr>sk_Count := sk_Count s + word_of_int 1, sk_threads := add_mset Away T\<rparr>" using refuse(2) by simp
  then show ?thesis using stack_inv_move [OF inv refuse(3), of Away 1] by simp
next
  case (pop_read_ptr T)
  then have "sk_TopPtr s \<noteq> None" by (intro top_when_waiting [OF inv, of Reserved]) simp_all
  then show ?thesis unfolding pop_read_ptr(2) by (intro stack_inv_stay [OF inv pop_read_ptr(3)]) simp_all
next
  case (pop_read_id p T)
  have "p \<noteq> None" using stack_inv_head [OF inv pop_read_id(3)] by simp
  then show ?thesis unfolding pop_read_id(2)
    by (intro stack_inv_stay [OF inv pop_read_id(3)]) (simp_all add: copied_new [OF stack_inv_top [OF inv]])
next
  case (read_next p i T)
  have "thread_ok s (Popping p i)" by (rule stack_inv_head [OF inv read_next(3)])
  then obtain n where p: "p = Some n" and c: "copied s i True" by auto
  have "copied s i (sk_TopPtr s = Some n \<longrightarrow> sk_Next s n = sk_Next s n)" using c by simp
  then show ?thesis unfolding read_next(2) p option.case
    by (intro stack_inv_stay [OF inv read_next(3) [unfolded p]]) simp_all
next
  case (pop_swap n i p T)
  have "thread_ok s (Taking n i p)" by (rule stack_inv_head [OF inv pop_swap(3)])
  then have p: "sk_Next s n = p" using pop_swap(4,5) stack_inv_top [OF inv] copied_now [of s] new by auto
  obtain ns where ns: "linked (sk_Next s) (sk_TopPtr s) ns" using inv unfolding stack_inv_def by blast
  then obtain ms where ms: "ns = n # ms" using pop_swap(4) by (cases ns) auto
  have data: "sk_Data s n = hd (sk_list s)" "map (sk_Data s) ms = tl (sk_list s)"
    using stack_inv_list(1) [OF inv ns] ms by (cases "sk_list s"; simp)+
  show ?thesis
  proof (rule stack_inv_step [OF inv pop_swap(3), where q' = "Taken n (hd (sk_list s))"])
    show "sk_TopID s' = stamp (sk_changes s')" "sk_used s' \<subseteq> {..<K}"
      using inv pop_swap by (simp_all add: stack_inv_def) (simp add: stamp_def)
    show "thread_ok s' r" if "thread_ok s r" for r by (rule thread_ok_changed [OF that]) (simp_all add: pop_swap(2))
    fix ks assume "linked (sk_Next s) (sk_TopPtr s) ks"
    note l = stack_inv_list [OF inv ns]
    show "\<exists>ns'. linked (sk_Next s') (sk_TopPtr s') ns' \<and> map (sk_Data s') ns' = sk_list s' \<and>
        mset ns' + owned (sk_threads s') = mset_set (sk_used s') \<and> waiting (sk_threads s') \<le> length ns' \<and>
        sk_Count s' = word_of_int (int (length ns') - int (waiting (sk_threads s')) - int (missing (sk_threads s')))"
      using l ns p data pop_swap(3-) by (intro exI [of _ ms]) (simp add: pop_swap(2) ms)
  qed (use pop_swap data in simp_all)
next
  case (pop_retry n i p T)
  then have "sk_TopPtr s \<noteq> None" by (intro top_when_waiting [OF inv, of "Taking n i p"]) simp_all
  then show ?thesis unfolding pop_retry(2)
    by (intro stack_inv_stay [OF inv pop_retry(3)]) (simp_all add: copied_new [OF stack_inv_top [OF inv]])
next
  case (read_data n x T)
  have "sk_Data s n = x" using stack_inv_head [OF inv read_data(3)] by simp
  then show ?thesis unfolding read_data(2) by (intro stack_inv_stay [OF inv read_data(3)]) simp_all
next
  case (give_back n x y T)
  show ?thesis
  proof (rule stack_inv_step [OF inv give_back(3), where q' = Away])
    have fin: "finite (sk_used s)" using inv by (auto simp: stack_inv_def intro: finite_subset)
    show "sk_TopID s' = stamp (sk_changes s')" "sk_used s' \<subseteq> {..<K}" using inv give_back(2) by (auto simp: stack_inv_def)
    show "thread_ok s' r" if "thread_ok s r" for r using that thread_ok_same [of s' s r] give_back(2) by simp
    fix ns assume a: "linked (sk_Next s) (sk_TopPtr s) ns" "map (sk_Data s) ns = sk_list s"
      "mset ns + owned (sk_threads s) = mset_set (sk_used s)" "waiting (sk_threads s) \<le> length ns"
      "sk_Count s = word_of_int (int (length ns) - int (waiting (sk_threads s)) - int (missing (sk_threads s)))"
    have e: "mset_set (sk_used s) = add_mset n (mset ns + owned T)" using a(3) give_back(3) by simp
    then have "n \<in># mset_set (sk_used s)" by simp
    then have n: "n \<in> sk_used s" using fin by simp
    have "mset_set (sk_used s - {n}) = mset_set (sk_used s) - {#n#}" using fin n by (simp add: mset_set_Diff)
    then have "mset_set (sk_used s - {n}) = mset ns + owned T" using e by simp
    then show "\<exists>ns'. linked (sk_Next s') (sk_TopPtr s') ns' \<and> map (sk_Data s') ns' = sk_list s' \<and>
        mset ns' + owned (sk_threads s') = mset_set (sk_used s') \<and> waiting (sk_threads s') \<le> length ns' \<and>
        sk_Count s' = word_of_int (int (length ns') - int (waiting (sk_threads s')) - int (missing (sk_threads s')))"
      using a give_back by (intro exI [of _ ns]) simp
  qed (use give_back in simp_all)
qed

section \<open>The operations end\<close>

text \<open>
  An exchange fails only if another thread's has succeeded since the top was copied.  So the work
  left is counted by the exchanges still to come, each of which may send the other threads back by
  one turn, and by how far each thread is from its exchange.
\<close>

fun before_swap :: "'a kpc \<Rightarrow> bool" where
  "before_swap (Filling n x) = True"
| "before_swap (Nulling n x) = True"
| "before_swap (PushReadPtr n x) = True"
| "before_swap (PushReadID n x p) = True"
| "before_swap (Linking n x p i) = True"
| "before_swap (Swapping n x p i) = True"
| "before_swap q = reserved q"

fun stage :: "'a Stack \<Rightarrow> 'a kpc \<Rightarrow> nat" where
  "stage s (Filling n x) = 10"
| "stage s (Nulling n x) = 9"
| "stage s (PushReadPtr n x) = 8"
| "stage s (PushReadID n x p) = 7"
| "stage s (Linking n x p i) = (if sk_TopPtr s = p \<and> sk_TopID s = i then 4 else 6)"
| "stage s (Swapping n x p i) = (if sk_TopPtr s = p \<and> sk_TopID s = i then 3 else 5)"
| "stage s Reserved = 8"
| "stage s (HalfRead p) = 7"
| "stage s (Popping p i) = (if sk_TopPtr s = p \<and> sk_TopID s = i then 4 else 6)"
| "stage s (Taking n i p) = (if sk_TopPtr s = Some n \<and> sk_TopID s = i then 3 else 5)"
| "stage s (Taken n x) = 2"
| "stage s Counting = 1"
| "stage s Refused = 1"
| "stage s (Returning n x y) = 1"
| "stage s _ = 0"

definition swaps_left :: "'a kpc multiset \<Rightarrow> nat" where
  "swaps_left M = size (filter_mset before_swap M)"

definition stack_work :: "'a Stack \<Rightarrow> nat" where
  "stack_work s = swaps_left (sk_threads s) * (2 * size (sk_threads s)) + (\<Sum>q\<in>#sk_threads s. stage s q)"

lemma swaps_left_simps [simp]:
  "swaps_left {#} = 0" "swaps_left (add_mset q M) = (if before_swap q then Suc (swaps_left M) else swaps_left M)"
  by (simp_all add: swaps_left_def)

lemma stage_same: "sk_TopPtr s' = sk_TopPtr s \<Longrightarrow> sk_TopID s' = sk_TopID s \<Longrightarrow> stage s' q = stage s q"
  by (cases q) simp_all

lemma stage_other: "stage s' q \<le> stage s q + 2"
  by (cases q) simp_all

lemma stages_other: "(\<Sum>q\<in>#T. stage s' q) \<le> (\<Sum>q\<in>#T. stage s q) + 2 * size T"
proof (induction T)
  case (add q T)
  then show ?case using stage_other [of s' q s] by simp
qed simp

lemma stack_work_move:
  assumes "sk_threads s = add_mset q T" "sk_threads s' = add_mset q' T"
    and "sk_TopPtr s' = sk_TopPtr s" "sk_TopID s' = sk_TopID s"
    and "before_swap q' \<longrightarrow> before_swap q" "stage s q' < stage s q"
  shows "stack_work s' < stack_work s"
proof -
  have "(\<Sum>r\<in>#T. stage s' r) = (\<Sum>r\<in>#T. stage s r)" by (simp add: stage_same [OF assms(3,4)])
  then show ?thesis using assms(1,2,5,6) by (simp add: stack_work_def stage_same [OF assms(3,4)])
qed

lemma stack_work_swap:
  assumes "sk_threads s = add_mset q T" "sk_threads s' = add_mset q' T"
    and "before_swap q" "\<not> before_swap q'" "stage s' q' < stage s q"
  shows "stack_work s' < stack_work s"
  using assms stages_other [of s' T s] by (simp add: stack_work_def)

lemma push_work_less: "push_step K False s s' \<Longrightarrow> stack_work s' < stack_work s"
proof -
  assume "push_step K False s s'"
  then show ?thesis
  proof cases
    case (fill n x T)
    then show ?thesis by (intro stack_work_move [OF fill(2), where q' = "Nulling n x"]) (auto)
  next
    case (set_null n x T)
    then show ?thesis by (intro stack_work_move [OF set_null(2), where q' = "PushReadPtr n x"]) (auto)
  next
    case (push_read_ptr n x T)
    then show ?thesis by (intro stack_work_move [OF push_read_ptr(2), where q' = "PushReadID n x (sk_TopPtr s)"]) (auto)
  next
    case (push_read_id n x p T)
    then show ?thesis by (intro stack_work_move [OF push_read_id(2), where q' = "Linking n x p (sk_TopID s)"]) (auto)
  next
    case (link n x p i T)
    then show ?thesis by (intro stack_work_move [OF link(2), where q' = "Swapping n x p i"]) (auto)
  next
    case (push_swap n x p i T)
    then show ?thesis by (intro stack_work_swap [OF push_swap(2), where q' = "Counting"]) (auto)
  next
    case (push_retry n x p i T)
    then show ?thesis by (intro stack_work_move [OF push_retry(2), where q' = "Linking n x (sk_TopPtr s) (sk_TopID s)"]) (auto)
  next
    case (count_up T)
    then show ?thesis by (intro stack_work_move [OF count_up(2), where q' = "Away"]) (auto)
  qed simp_all
qed

lemma pop_work_less: "pop_step False s s' \<Longrightarrow> stack_work s' < stack_work s"
proof -
  assume "pop_step False s s'"
  then show ?thesis
  proof cases
    case (refuse T)
    then show ?thesis by (intro stack_work_move [OF refuse(2), where q' = "Away"]) (auto)
  next
    case (pop_read_ptr T)
    then show ?thesis by (intro stack_work_move [OF pop_read_ptr(2), where q' = "HalfRead (sk_TopPtr s)"]) (auto)
  next
    case (pop_read_id p T)
    then show ?thesis by (intro stack_work_move [OF pop_read_id(2), where q' = "Popping p (sk_TopID s)"]) (auto)
  next
    case (read_next p i T)
    then show ?thesis by (intro stack_work_move [OF read_next(2), where q' = "case p of None \<Rightarrow> NullRead | Some n \<Rightarrow> Taking n i (sk_Next s n)"]) (auto split: option.splits)
  next
    case (pop_swap n i p T)
    then show ?thesis by (intro stack_work_swap [OF pop_swap(2), where q' = "Taken n (hd (sk_list s))"]) (auto)
  next
    case (pop_retry n i p T)
    then show ?thesis by (intro stack_work_move [OF pop_retry(2), where q' = "Popping (sk_TopPtr s) (sk_TopID s)"]) (auto)
  next
    case (read_data n x T)
    then show ?thesis by (intro stack_work_move [OF read_data(2), where q' = "Returning n x (sk_Data s n)"]) (auto)
  next
    case (give_back n x y T)
    then show ?thesis by (intro stack_work_move [OF give_back(2), where q' = "Away"]) (auto)
  qed simp_all
qed

lemma stack_work_less: "stack_step K False s s' \<Longrightarrow> stack_work s' < stack_work s"
  using push_work_less pop_work_less unfolding stack_step_def by blast

lemma stack_work_le: "stack_work s \<le> size (sk_threads s) * (2 * size (sk_threads s) + 10)"
proof -
  have "stage s q \<le> 10" for q by (cases q) simp_all
  then have "(\<Sum>q\<in>#M. stage s q) \<le> 10 * size M" for M
    by (induction M) (simp_all add: add_mono)
  moreover have "swaps_left (sk_threads s) \<le> size (sk_threads s)"
    unfolding swaps_left_def by (rule size_filter_mset_lesseq)
  ultimately show ?thesis
    unfolding stack_work_def by (simp add: add_mult_distrib2 add_mono mult.commute)
qed

section \<open>All interleavings\<close>

definition any_stack_step :: "nat \<Rightarrow> 'a Stack \<Rightarrow> 'a Stack \<Rightarrow> bool" where
  "any_stack_step K s s' \<longleftrightarrow> (\<exists>new. stack_step K new s s')"

lemmas stack_steps = push_step.intros pop_step.intros

lemma stack_stepI: "push_step K new s s' \<Longrightarrow> stack_step K new s s'" "pop_step new s s' \<Longrightarrow> stack_step K new s s'"
  by (simp_all add: stack_step_def)

lemma stack_step_size: "stack_step K new s s' \<Longrightarrow> size (sk_threads s') = size (sk_threads s) \<and> sk_changes s \<le> sk_changes s'"
  unfolding stack_step_def by (elim disjE; erule push_step.cases pop_step.cases; simp)

text \<open>The invariant holds while the memory is small enough and the identifiers have not gone round.\<close>

definition stack_inv_n :: "nat \<Rightarrow> nat \<Rightarrow> 'a Stack \<Rightarrow> bool" where
  "stack_inv_n K n s \<longleftrightarrow> size (sk_threads s) = n \<and>
     (K + n < 2 ^ 31 - 1 \<and> sk_changes s < 2 ^ 64 \<longrightarrow> stack_inv K s)"

lemma waiting_none: "\<forall>q\<in>#M. q = Away \<Longrightarrow> waiting M = 0 \<and> missing M = 0 \<and> owned M = {#}"
  by (induction M) auto

lemma stack_init_inv: "stack_init n s \<Longrightarrow> stack_inv K s" for s :: "'a Stack"
proof -
  assume "stack_init n s"
  moreover let ?M = "replicate_mset n (Away :: 'a kpc)"
  have "waiting ?M = 0 \<and> missing ?M = 0 \<and> owned ?M = {#}"
    by (rule waiting_none) simp
  ultimately show ?thesis by (auto simp: stack_init_def stack_inv_def stamp_def split: if_splits)
qed

interpretation stack_protocol: finishing_steps "stack_init n" "any_stack_step K" "stack_inv_n K n" "stack_step K False" stack_work
proof unfold_locales
  show "stack_inv_n K n s" if "stack_init n s" for s :: "'a Stack"
    using that stack_init_inv [of n s K] by (auto simp: stack_inv_n_def stack_init_def)
  show "stack_inv_n K n s'" if i: "stack_inv_n K n s" and a: "any_stack_step K s s'" for s s' :: "'a Stack"
  proof -
    obtain new where st: "stack_step K new s s'" using a by (auto simp: any_stack_step_def)
    note z = stack_step_size [OF st]
    have "stack_inv K s'" if "K + n < 2 ^ 31 - 1" "sk_changes s' < 2 ^ 64"
    proof -
      have "stack_inv K s" "sk_changes s < 2 ^ 64" "K + size (sk_threads s) < 2 ^ 31 - 1"
        using i that z by (simp_all add: stack_inv_n_def)
      then show ?thesis using st push_step_inv pop_step_inv unfolding stack_step_def by blast
    qed
    then show ?thesis using i z by (simp add: stack_inv_n_def)
  qed
  show "any_stack_step K s s'" if "stack_step K False s s'" for s s' :: "'a Stack" using that by (auto simp: any_stack_step_def)
  show "stack_work s' < stack_work s" if "stack_step K False s s'" for s s' :: "'a Stack" using that by (rule stack_work_less)
qed

lemma stack_stuck_away:
  assumes stuck: "\<nexists>t. stack_step K False s t" and q: "q \<in># sk_threads s"
  shows "q = Away \<or> q = NullRead"
proof (rule ccontr)
  assume no: "\<not> (q = Away \<or> q = NullRead)"
  obtain T where T: "sk_threads s = add_mset q T" using q by (metis mset_add)
  have "\<exists>t. push_step K False s t \<or> pop_step False s t"
  proof (cases q)
    case (Filling n x)
    then show ?thesis using T fill [of s n x T K] by blast
  next
    case (Nulling n x)
    then show ?thesis using T set_null [of s n x T K] by blast
  next
    case (PushReadPtr n x)
    then show ?thesis using T push_read_ptr [of s n x T K] by blast
  next
    case (PushReadID n x p)
    then show ?thesis using T push_read_id [of s n x p T K] by blast
  next
    case (Linking n x p i)
    then show ?thesis using T link [of s n x p i T K] by blast
  next
    case (Swapping n x p i)
    then show ?thesis using T push_swap [of s n x p i T K] push_retry [of s n x p i T K] by blast
  next
    case Counting
    then show ?thesis using T count_up [of s T K] by blast
  next
    case Refused
    then show ?thesis using T refuse [of s T] by blast
  next
    case Reserved
    then show ?thesis using T pop_read_ptr [of s T] by blast
  next
    case (HalfRead p)
    then show ?thesis using T pop_read_id [of s p T] by blast
  next
    case (Popping p i)
    then show ?thesis using T read_next [of s p i T] by blast
  next
    case (Taking n i p)
    then show ?thesis using T pop_swap [of s n i p T] pop_retry [of s n i p T] by blast
  next
    case (Taken n x)
    then show ?thesis using T read_data [of s n x T] by blast
  next
    case (Returning n x y)
    then show ?thesis using T give_back [of s n x y T] by blast
  qed (use no in simp_all)
  with stuck show False by (auto simp: stack_step_def)
qed

lemma stack_reachable_inv:
  assumes "reachable (stack_init n) (any_stack_step K) s" and "K + n < 2 ^ 31 - 1" and "sk_changes s < 2 ^ 64"
  shows "stack_inv K s" "size (sk_threads s) = n"
  using stack_protocol.inv_reachable [OF assms(1)] assms(2,3) by (simp_all add: stack_inv_n_def)

text \<open>What a step does to the list the stack stands for.\<close>

lemma stack_step_list:
  assumes "stack_inv K s" and "stack_step K new s s'"
  shows "sk_list s' = sk_list s \<or>
    (\<exists>n x p i. Swapping n x p i \<in># sk_threads s \<and> sk_list s' = x # sk_list s) \<or>
    (\<exists>n x p i. Taking n i p \<in># sk_threads s \<and> sk_list s = x # sk_list s' \<and> Taken n x \<in># sk_threads s')"
  using assms(2) unfolding stack_step_def
proof (elim disjE)
  assume "push_step K new s s'"
  then show ?thesis by cases auto
next
  assume "pop_step new s s'"
  then show ?thesis
  proof cases
    case (pop_swap n i p T)
    obtain ns where ns: "linked (sk_Next s) (sk_TopPtr s) ns" using assms(1) unfolding stack_inv_def by blast
    then have "sk_list s \<noteq> []" using stack_inv_list(1) [OF assms(1) ns] pop_swap(4) by (cases ns) auto
    then have "sk_list s = hd (sk_list s) # sk_list s'" using pop_swap(2) by simp
    moreover have "Taking n i p \<in># sk_threads s" "Taken n (hd (sk_list s)) \<in># sk_threads s'" using pop_swap(2,3) by simp_all
    ultimately show ?thesis by blast
  qed simp_all
qed

section \<open>Properties\<close>

text \<open>
  C3. The lock free stack under any interleaving of any number of threads: the nodes linked from the
  top hold the list the stack stands for, no node is in the hands of two threads or of a thread and
  the stack, no null pointer is followed, and a \<open>Pop\<close> that has read its data has read what was at
  the top of the list at its exchange.  That list changes at successful exchanges only, by the value
  pushed at its head or the head taken.  So the identifier beside the pointer does prevent that a
  node freed and pushed again is mistaken for what it was.
\<close>

theorem stack_protocol_safe:
  assumes "reachable (stack_init n) (any_stack_step K) s" and "K + n < 2 ^ 31 - 1" and "sk_changes s < 2 ^ 64"
  shows "(\<exists>ns. linked (sk_Next s) (sk_TopPtr s) ns \<and> map (sk_Data s) ns = sk_list s \<and>
      mset ns + owned (sk_threads s) = mset_set (sk_used s)) \<and>
    NullRead \<notin># sk_threads s \<and> (\<forall>m x y. Returning m x y \<in># sk_threads s \<longrightarrow> y = x) \<and>
    (stack_step K new s s' \<longrightarrow> sk_list s' = sk_list s \<or>
      (\<exists>m x p i. Swapping m x p i \<in># sk_threads s \<and> sk_list s' = x # sk_list s) \<or>
      (\<exists>m x p i. Taking m i p \<in># sk_threads s \<and> sk_list s = x # sk_list s' \<and> Taken m x \<in># sk_threads s'))"
proof -
  have inv: "stack_inv K s" by (rule stack_reachable_inv [OF assms])
  then have ok: "thread_ok s q" if "q \<in># sk_threads s" for q using that by (simp add: stack_inv_def)
  have "NullRead \<notin># sk_threads s" using ok [of NullRead] by auto
  moreover have "y = x" if "Returning m x y \<in># sk_threads s" for m x y using ok [OF that] by simp
  moreover obtain ns where ns: "linked (sk_Next s) (sk_TopPtr s) ns" using inv unfolding stack_inv_def by blast
  moreover note stack_inv_list(1,2) [OF inv ns]
  ultimately show ?thesis using stack_step_list [OF inv, of new s'] by blast
qed

lemma stack_first_push:
  "\<exists>s s' :: nat Stack. reachable (stack_init 1) (any_stack_step 4) s \<and> stack_step 4 False s s' \<and>
     sk_threads s = {#Swapping 0 7 None (- 1)#} \<and> sk_list s = [] \<and> sk_changes s = 0 \<and>
     sk_threads s' = {#Counting#} \<and> sk_list s' = [7] \<and> sk_changes s' = 1"
proof -
  define s0 :: "nat Stack" where "s0 = \<lparr>sk_TopPtr = None, sk_TopID = - 1, sk_Count = 0, sk_Data = (\<lambda>n. 0),
     sk_Next = (\<lambda>n. None), sk_used = {}, sk_threads = {#Away#}, sk_list = [], sk_changes = 0\<rparr>"
  let ?s1 = "s0\<lparr>sk_used := {0}, sk_threads := {#Filling 0 7#}\<rparr>"
  let ?s2 = "?s1\<lparr>sk_Data := (sk_Data s0)(0 := 7), sk_threads := {#Nulling 0 7#}\<rparr>"
  let ?s3 = "?s2\<lparr>sk_Next := (sk_Next s0)(0 := None), sk_threads := {#PushReadPtr 0 7#}\<rparr>"
  let ?s4 = "?s3\<lparr>sk_threads := {#PushReadID 0 7 None#}\<rparr>"
  let ?s5 = "?s4\<lparr>sk_threads := {#Linking 0 7 None (- 1)#}\<rparr>"
  let ?s6 = "?s5\<lparr>sk_Next := (sk_Next s0)(0 := None), sk_threads := {#Swapping 0 7 None (- 1)#}\<rparr>"
  let ?s7 = "?s6\<lparr>sk_TopPtr := Some 0, sk_TopID := 0, sk_threads := {#Counting#}, sk_list := [7], sk_changes := 1\<rparr>"
  have step: "any_stack_step 4 s s'" if "push_step 4 b s s'" for b and s s' :: "nat Stack"
    using that by (auto simp: any_stack_step_def intro: stack_stepI)
  have "any_stack_step 4 s0 ?s1" using step [OF alloc [of s0 "{#}" 0 4 7]] by (simp add: s0_def)
  moreover have "any_stack_step 4 ?s1 ?s2" using step [OF fill [of ?s1 0 7 "{#}" 4]] by (simp add: s0_def)
  moreover have "any_stack_step 4 ?s2 ?s3" using step [OF set_null [of ?s2 0 7 "{#}" 4]] by (simp add: s0_def)
  moreover have "any_stack_step 4 ?s3 ?s4" using step [OF push_read_ptr [of ?s3 0 7 "{#}" 4]] by (simp add: s0_def)
  moreover have "any_stack_step 4 ?s4 ?s5" using step [OF push_read_id [of ?s4 0 7 None "{#}" 4]] by (simp add: s0_def)
  moreover have "any_stack_step 4 ?s5 ?s6" using step [OF link [of ?s5 0 7 None "- 1" "{#}" 4]] by (simp add: s0_def)
  moreover have "stack_init 1 s0" by (simp add: stack_init_def s0_def)
  ultimately have r: "reachable (stack_init 1) (any_stack_step 4) ?s6" by (meson reachable_init reachable_step)
  have "push_step 4 False ?s6 ?s7" using push_swap [of ?s6 0 7 None "- 1" "{#}" 4] by (simp add: s0_def)
  then have "stack_step 4 False ?s6 ?s7" by (rule stack_stepI)
  with r show ?thesis by (intro exI [of _ ?s6] exI [of _ ?s7]) (simp add: s0_def)
qed

theorem stack_protocol_safe_witness:
  "\<exists>s s' :: nat Stack. reachable (stack_init 1) (any_stack_step 4) s \<and> stack_step 4 False s s' \<and> sk_list s' = [7] \<and>
     mset [] + owned (sk_threads s) = mset_set (sk_used s) \<and> sk_list s' \<noteq> sk_list s \<and>
     Swapping 0 7 None (- 1) \<in># sk_threads s"
proof -
  obtain s s' :: "nat Stack" where s: "reachable (stack_init 1) (any_stack_step 4) s" "stack_step 4 False s s'"
      "sk_threads s = {#Swapping 0 7 None (- 1)#}" "sk_list s = []" "sk_changes s = 0" "sk_list s' = [7]"
    using stack_first_push by blast
  have b: "(4::nat) + 1 < 2 ^ 31 - 1" "sk_changes s < 2 ^ 64" using s(5) by simp_all
  from stack_protocol_safe [OF s(1) b, of False s'] s(4) obtain ns where
      "map (sk_Data s) ns = []" "mset ns + owned (sk_threads s) = mset_set (sk_used s)" by auto
  then show ?thesis using s by (intro exI [of _ s] exI [of _ s']) simp
qed

text \<open>
  C17. Every \<open>Push\<close> and \<open>Pop\<close> ends: once no operation begins, \<open>n\<close> threads are done after at most
  \<open>n * (2 * n + 10)\<close> steps in whatever order they run, since a failed exchange means that another
  one succeeded; and then the count is the length of the list and no node is in use but those on
  the stack.
\<close>

theorem stack_protocol_live:
  assumes "reachable (stack_init n) (any_stack_step K) s" and "K + n < 2 ^ 31 - 1"
  shows "((stack_step K False ^^ k) s s' \<longrightarrow> k \<le> n * (2 * n + 10)) \<and>
    (\<exists>t. (stack_step K False)\<^sup>*\<^sup>* s t \<and> (\<nexists>u. stack_step K False t u)) \<and>
    ((stack_step K False)\<^sup>*\<^sup>* s t \<and> (\<nexists>u. stack_step K False t u) \<and> sk_changes t < 2 ^ 64 \<longrightarrow>
       sk_threads t = replicate_mset n Away \<and> sk_Count t = of_nat (length (sk_list t)) \<and>
       card (sk_used t) = length (sk_list t))"
proof -
  have inv: "stack_inv_n K n s" by (rule stack_protocol.inv_reachable [OF assms(1)])
  have "k \<le> n * (2 * n + 10)" if "(stack_step K False ^^ k) s s'"
    using stack_protocol.finish_bound [OF inv that] stack_work_le [of s] inv by (simp add: stack_inv_n_def)
  moreover have "sk_threads t = replicate_mset n Away \<and> sk_Count t = of_nat (length (sk_list t)) \<and>
       card (sk_used t) = length (sk_list t)"
    if run: "(stack_step K False)\<^sup>*\<^sup>* s t" and stuck: "\<nexists>u. stack_step K False t u" and c: "sk_changes t < 2 ^ 64"
  proof -
    obtain k where "(stack_step K False ^^ k) s t" using run by (auto simp: rtranclp_power)
    then have t: "stack_inv K t" "size (sk_threads t) = n"
      using stack_protocol.finish_bound [OF inv] assms(2) c by (auto simp: stack_inv_n_def)
    then have "NullRead \<notin># sk_threads t" by (auto simp: stack_inv_def)
    then have away: "\<forall>q\<in>#sk_threads t. q = Away" using stack_stuck_away [OF stuck] by blast
    then have "sk_threads t = replicate_mset n Away"
      using t(2) by (metis set_mset_subset_singletonD subsetI singleton_iff)
    moreover obtain ns where ns: "linked (sk_Next t) (sk_TopPtr t) ns" using t(1) unfolding stack_inv_def by blast
    note l = stack_inv_list [OF t(1) ns] and z = waiting_none [OF away]
    have "length ns = length (sk_list t)" using l(1) by (metis length_map)
    moreover have "card (sk_used t) = length ns" using l(2) z by (metis add.right_neutral size_mset size_mset_set)
    ultimately show ?thesis using l(5) z by simp
  qed
  ultimately show ?thesis using stack_protocol.finish_end [OF inv] by blast
qed

theorem stack_protocol_live_witness:
  "\<exists>s t :: nat Stack. reachable (stack_init 1) (any_stack_step 4) s \<and> sk_threads s = {#Swapping 0 7 None (- 1)#} \<and>
     (stack_step 4 False)\<^sup>*\<^sup>* s t \<and> (\<nexists>u. stack_step 4 False t u) \<and>
     (sk_changes t < 2 ^ 64 \<longrightarrow> sk_threads t = {#Away#} \<and> sk_Count t = of_nat (length (sk_list t)))"
proof -
  obtain s s' :: "nat Stack" where s: "reachable (stack_init 1) (any_stack_step 4) s"
      "sk_threads s = {#Swapping 0 7 None (- 1)#}" using stack_first_push by blast
  have b: "(4::nat) + 1 < 2 ^ 31 - 1" by simp
  note live = stack_protocol_live [OF s(1) b]
  obtain t where t: "(stack_step 4 False)\<^sup>*\<^sup>* s t" "\<nexists>u. stack_step 4 False t u" using live by blast
  with live have "sk_changes t < 2 ^ 64 \<longrightarrow> sk_threads t = replicate_mset 1 Away \<and> sk_Count t = of_nat (length (sk_list t))" by blast
  with s t show ?thesis by (intro exI [of _ s] exI [of _ t]) simp
qed

end
