(* ===== verification/FreeListProtocol.thy ===== *)
theory FreeListProtocol
  imports StackProtocol
begin

text \<open>
  \<^verbatim>\<open>FreeList<T>\<close> of FreeList.h under any number of threads, instruction by instruction: the pool from
  which the lock free stack and queue take their nodes.  A block is on the list, in the hands of a
  client, or in a call of \<open>Alloc\<close> or \<open>Free\<close>.  When the list is empty \<open>Alloc\<close> asks the allocator of
  the system, whose contract is that it returns memory nobody has.  Clients free only what they
  hold, with the marks around it intact; the model for one caller (theory FreeList) has the marks.
  Constructors and destructors of the contents (\<^verbatim>\<open>m_bPlacementNew\<close>) touch no memory of the list.
\<close>

section \<open>The list and where the threads are\<close>

text \<open>
  In \<open>Free\<close>: \<open>FReadPtr\<close> and \<open>FReadID\<close> copy the top, \<open>FLink\<close> is about to set the next pointer, \<open>FSwap\<close> to
  compare and exchange, \<open>FUse\<close> and \<open>FPool\<close> to correct the two counts.  In \<open>Alloc\<close>: \<open>AHalf\<close> has copied
  the pointer, \<open>ATop\<close> the identifier too and is about to test it for null, \<open>ASwap\<close> about to compare
  and exchange, \<open>AUse\<close> and \<open>APool\<close> to correct the counts; \<open>AMalloc\<close> is about to ask the system, \<open>ACount\<close>
  and \<open>ANew\<close> to count the new block.
\<close>

datatype fpc = FAway
  | FReadPtr addr | FReadID addr "addr option" | FLink addr "addr option" "64 word" | FSwap addr "addr option" "64 word"
  | FUse | FPool
  | AHalf "addr option" | ATop "addr option" "64 word" | ASwap addr "64 word" "addr option" | AUse addr | APool addr
  | AMalloc | ACount addr | ANew addr

text \<open>
  \<open>fp_blocks\<close> is the memory the system has given to the list, \<open>fp_held\<close> what the clients hold; with
  \<open>fp_changes\<close>, the number of successful exchanges, they are kept for the properties only.
\<close>

record Pool =
  fp_TopPtr :: "addr option"
  fp_TopID :: "64 word"
  fp_Next :: "addr \<Rightarrow> addr option"
  fp_PoolCount :: "32 word"
  fp_UseCount :: "32 word"
  fp_AllocCount :: "32 word"
  fp_threads :: "fpc multiset"
  fp_blocks :: "addr set"
  fp_held :: "addr set"
  fp_changes :: nat

inductive free_step :: "bool \<Rightarrow> Pool \<Rightarrow> Pool \<Rightarrow> bool" where
  free_begin: "fp_threads s = add_mset FAway T \<Longrightarrow> b \<in> fp_held s \<Longrightarrow>
    free_step True s (s\<lparr>fp_threads := add_mset (FReadPtr b) T, fp_held := fp_held s - {b}\<rparr>)"
| free_read_ptr: "fp_threads s = add_mset (FReadPtr b) T \<Longrightarrow>
    free_step False s (s\<lparr>fp_threads := add_mset (FReadID b (fp_TopPtr s)) T\<rparr>)"
| free_read_id: "fp_threads s = add_mset (FReadID b p) T \<Longrightarrow>
    free_step False s (s\<lparr>fp_threads := add_mset (FLink b p (fp_TopID s)) T\<rparr>)"
| free_link: "fp_threads s = add_mset (FLink b p i) T \<Longrightarrow>
    free_step False s (s\<lparr>fp_Next := (fp_Next s)(b := p), fp_threads := add_mset (FSwap b p i) T\<rparr>)"
| free_swap: "fp_threads s = add_mset (FSwap b p i) T \<Longrightarrow> fp_TopPtr s = p \<Longrightarrow> fp_TopID s = i \<Longrightarrow>
    free_step False s (s\<lparr>fp_TopPtr := Some b, fp_TopID := i + 1, fp_threads := add_mset FUse T, fp_changes := fp_changes s + 1\<rparr>)"
| free_retry: "fp_threads s = add_mset (FSwap b p i) T \<Longrightarrow> fp_TopPtr s \<noteq> p \<or> fp_TopID s \<noteq> i \<Longrightarrow>
    free_step False s (s\<lparr>fp_threads := add_mset (FLink b (fp_TopPtr s) (fp_TopID s)) T\<rparr>)"
| free_use: "fp_threads s = add_mset FUse T \<Longrightarrow>
    free_step False s (s\<lparr>fp_UseCount := fp_UseCount s - 1, fp_threads := add_mset FPool T\<rparr>)"
| free_pool: "fp_threads s = add_mset FPool T \<Longrightarrow>
    free_step False s (s\<lparr>fp_PoolCount := fp_PoolCount s + 1, fp_threads := add_mset FAway T\<rparr>)"

inductive alloc_step :: "bool \<Rightarrow> Pool \<Rightarrow> Pool \<Rightarrow> bool" where
  alloc_read_ptr: "fp_threads s = add_mset FAway T \<Longrightarrow>
    alloc_step True s (s\<lparr>fp_threads := add_mset (AHalf (fp_TopPtr s)) T\<rparr>)"
| alloc_read_id: "fp_threads s = add_mset (AHalf p) T \<Longrightarrow>
    alloc_step False s (s\<lparr>fp_threads := add_mset (ATop p (fp_TopID s)) T\<rparr>)"
| alloc_next: "fp_threads s = add_mset (ATop p i) T \<Longrightarrow>
    alloc_step False s (s\<lparr>fp_threads :=
      add_mset (case p of None \<Rightarrow> AMalloc | Some n \<Rightarrow> ASwap n i (fp_Next s n)) T\<rparr>)"
| alloc_swap: "fp_threads s = add_mset (ASwap n i p) T \<Longrightarrow> fp_TopPtr s = Some n \<Longrightarrow> fp_TopID s = i \<Longrightarrow>
    alloc_step False s (s\<lparr>fp_TopPtr := p, fp_TopID := i + 1, fp_threads := add_mset (AUse n) T, fp_changes := fp_changes s + 1\<rparr>)"
| alloc_retry: "fp_threads s = add_mset (ASwap n i p) T \<Longrightarrow> fp_TopPtr s \<noteq> Some n \<or> fp_TopID s \<noteq> i \<Longrightarrow>
    alloc_step False s (s\<lparr>fp_threads := add_mset (ATop (fp_TopPtr s) (fp_TopID s)) T\<rparr>)"
| alloc_use: "fp_threads s = add_mset (AUse n) T \<Longrightarrow>
    alloc_step False s (s\<lparr>fp_UseCount := fp_UseCount s + 1, fp_threads := add_mset (APool n) T\<rparr>)"
| alloc_pool: "fp_threads s = add_mset (APool n) T \<Longrightarrow>
    alloc_step False s (s\<lparr>fp_PoolCount := fp_PoolCount s - 1, fp_threads := add_mset FAway T, fp_held := insert n (fp_held s)\<rparr>)"
| alloc_malloc: "fp_threads s = add_mset AMalloc T \<Longrightarrow> n \<notin> fp_blocks s \<Longrightarrow>
    alloc_step False s (s\<lparr>fp_threads := add_mset (ACount n) T, fp_blocks := insert n (fp_blocks s)\<rparr>)"
| alloc_count: "fp_threads s = add_mset (ACount n) T \<Longrightarrow>
    alloc_step False s (s\<lparr>fp_AllocCount := fp_AllocCount s + 1, fp_threads := add_mset (ANew n) T\<rparr>)"
| alloc_new: "fp_threads s = add_mset (ANew n) T \<Longrightarrow>
    alloc_step False s (s\<lparr>fp_UseCount := fp_UseCount s + 1, fp_threads := add_mset FAway T, fp_held := insert n (fp_held s)\<rparr>)"

definition pool_step :: "bool \<Rightarrow> Pool \<Rightarrow> Pool \<Rightarrow> bool" where
  "pool_step new s s' \<longleftrightarrow> free_step new s s' \<or> alloc_step new s s'"

definition pool_init :: "nat \<Rightarrow> Pool \<Rightarrow> bool" where
  "pool_init n s \<longleftrightarrow> fp_TopPtr s = None \<and> fp_TopID s = 0 \<and> fp_PoolCount s = 0 \<and> fp_UseCount s = 0 \<and> fp_AllocCount s = 0 \<and>
     fp_threads s = replicate_mset n FAway \<and> fp_blocks s = {} \<and> fp_held s = {} \<and> fp_changes s = 0"

section \<open>The invariant\<close>

definition fcount :: "(fpc \<Rightarrow> bool) \<Rightarrow> fpc multiset \<Rightarrow> nat" where
  "fcount P M = size (filter_mset P M)"

lemma fcount_simps [simp]: "fcount P {#} = 0" "fcount P (add_mset q M) = (if P q then Suc (fcount P M) else fcount P M)"
  by (simp_all add: fcount_def)

fun fown :: "fpc \<Rightarrow> addr multiset" where
  "fown (FReadPtr b) = {#b#}"
| "fown (FReadID b p) = {#b#}"
| "fown (FLink b p i) = {#b#}"
| "fown (FSwap b p i) = {#b#}"
| "fown (AUse n) = {#n#}"
| "fown (APool n) = {#n#}"
| "fown (ACount n) = {#n#}"
| "fown (ANew n) = {#n#}"
| "fown _ = {#}"

definition fowned :: "fpc multiset \<Rightarrow> addr multiset" where
  "fowned M = \<Sum>\<^sub># (image_mset fown M)"

lemma fowned_simps [simp]: "fowned {#} = {#}" "fowned (add_mset q M) = fown q + fowned M"
  by (simp_all add: fowned_def)

text \<open>
  What each thread is yet to add to or take from the counts of use and of the list, and who is yet
  to count a new block.
\<close>

fun use_due :: "fpc \<Rightarrow> int" where
  "use_due (FReadPtr b) = 1"
| "use_due (FReadID b p) = 1"
| "use_due (FLink b p i) = 1"
| "use_due (FSwap b p i) = 1"
| "use_due FUse = 1"
| "use_due (APool n) = 1"
| "use_due _ = 0"

fun pool_due :: "fpc \<Rightarrow> int" where
  "pool_due FUse = - 1"
| "pool_due FPool = - 1"
| "pool_due (AUse n) = 1"
| "pool_due (APool n) = 1"
| "pool_due _ = 0"

fun alloc_due :: "fpc \<Rightarrow> int" where
  "alloc_due (ACount n) = - 1"
| "alloc_due _ = 0"

definition due :: "(fpc \<Rightarrow> int) \<Rightarrow> fpc multiset \<Rightarrow> int" where
  "due f M = \<Sum>\<^sub># (image_mset f M)"

lemma due_simps [simp]: "due f {#} = 0" "due f (add_mset q M) = f q + due f M"
  by (simp_all add: due_def)

definition dated :: "Pool \<Rightarrow> 64 word \<Rightarrow> bool \<Rightarrow> bool" where
  "dated s i now \<longleftrightarrow> (\<exists>c \<le> fp_changes s. i = of_nat c \<and> (c = fp_changes s \<longrightarrow> now))"

fun fthread_ok :: "Pool \<Rightarrow> fpc \<Rightarrow> bool" where
  "fthread_ok s (FSwap b p i) \<longleftrightarrow> fp_Next s b = p"
| "fthread_ok s (ATop p i) \<longleftrightarrow> dated s i True"
| "fthread_ok s (ASwap n i p) \<longleftrightarrow> dated s i (fp_TopPtr s = Some n \<longrightarrow> fp_Next s n = p)"
| "fthread_ok s _ \<longleftrightarrow> True"

definition pool_line :: "Pool \<Rightarrow> addr list \<Rightarrow> bool" where
  "pool_line s ns \<longleftrightarrow> linked (fp_Next s) (fp_TopPtr s) ns \<and>
     mset ns + fowned (fp_threads s) + mset_set (fp_held s) = mset_set (fp_blocks s) \<and>
     fp_PoolCount s = word_of_int (int (length ns) + due pool_due (fp_threads s))"

definition pool_inv :: "Pool \<Rightarrow> bool" where
  "pool_inv s \<longleftrightarrow> (\<exists>ns. pool_line s ns) \<and> finite (fp_blocks s) \<and> finite (fp_held s) \<and>
     fp_UseCount s = word_of_int (int (card (fp_held s)) + due use_due (fp_threads s)) \<and>
     fp_AllocCount s = word_of_int (int (card (fp_blocks s)) + due alloc_due (fp_threads s)) \<and>
     fp_TopID s = of_nat (fp_changes s) \<and> (\<forall>q\<in>#fp_threads s. fthread_ok s q)"

lemma fown_fowned: "q \<in># M \<Longrightarrow> n \<in># fown q \<Longrightarrow> n \<in># fowned M"
  by (metis UnI1 insert_DiffM fowned_simps(2) set_mset_union)

text \<open>A block in a call is on the list nowhere, held by no client and in no other call.\<close>

lemma sole_caller:
  assumes "pool_line s ns" and "finite (fp_held s)" and "fp_threads s = add_mset q T" and "n \<in># fown q"
  shows "n \<notin> set ns" "n \<notin> fp_held s" "r \<in># T \<Longrightarrow> n \<notin># fown r" "n \<in> fp_blocks s"
proof -
  have e: "mset ns + (fown q + fowned T) + mset_set (fp_held s) = mset_set (fp_blocks s)"
    using assms(1,3) by (simp add: pool_line_def)
  have "count (mset ns + (fown q + fowned T) + mset_set (fp_held s)) n \<le> 1" unfolding e by (simp add: count_mset_set')
  moreover have "0 < count (fown q) n" using assms(4) by simp
  ultimately have z: "count (mset ns) n = 0" "count (fowned T) n = 0" "count (mset_set (fp_held s)) n = 0"
    unfolding count_union by linarith+
  show "n \<notin> set ns" using z(1) by (simp add: count_mset_0_iff)
  show "n \<notin># fown r" if "r \<in># T" using fown_fowned [OF that] z(2) by (metis count_eq_zero_iff)
  show "n \<notin> fp_held s" using z(3) assms(2) by (simp add: count_mset_set' split: if_splits)
  have "n \<in># mset_set (fp_blocks s)" using assms(4) by (simp flip: e)
  then show "n \<in> fp_blocks s" by (cases "finite (fp_blocks s)") simp_all
qed

lemma listed_block: "pool_line s ns \<Longrightarrow> n \<in> set ns \<Longrightarrow> n \<in> fp_blocks s"
proof -
  assume a: "pool_line s ns" "n \<in> set ns"
  then have "n \<in># mset_set (fp_blocks s)" unfolding pool_line_def by (metis set_mset_mset union_iff)
  then show ?thesis by (cases "finite (fp_blocks s)") simp_all
qed

lemma dated_now: "dated s (fp_TopID s) now \<Longrightarrow> fp_TopID s = of_nat (fp_changes s) \<Longrightarrow> fp_changes s < 2 ^ 64 \<Longrightarrow> now"
proof -
  assume a: "dated s (fp_TopID s) now" "fp_TopID s = of_nat (fp_changes s)" "fp_changes s < 2 ^ 64"
  then obtain c where c: "c \<le> fp_changes s" "(of_nat c :: 64 word) = of_nat (fp_changes s)" "c = fp_changes s \<longrightarrow> now"
    by (auto simp: dated_def)
  then have "c = fp_changes s" using le_less_trans [OF c(1) a(3)] a(3) by (simp add: word_unat_eq_iff unat_of_nat)
  then show now using c(3) by simp
qed

lemma fthread_same:
  assumes "fp_Next s' = fp_Next s" "fp_TopPtr s' = fp_TopPtr s" "fp_changes s' = fp_changes s"
  shows "fthread_ok s' q = fthread_ok s q"
  using assms by (cases q) (simp_all add: dated_def)

lemma fthread_written:
  assumes "fthread_ok s q" and "b \<notin># fown q" and "fp_TopPtr s \<noteq> Some b"
    and "fp_Next s' = (fp_Next s)(b := p)" "fp_TopPtr s' = fp_TopPtr s" "fp_changes s' = fp_changes s"
  shows "fthread_ok s' q"
  using assms by (cases q) (auto simp: dated_def)

lemma fthread_changed:
  assumes "fthread_ok s q" and "fp_Next s' = fp_Next s" "fp_changes s' = Suc (fp_changes s)"
  shows "fthread_ok s' q"
proof -
  have "dated s' i now" if "dated s i now'" for i now now' using that assms(3) by (auto simp: dated_def intro: le_SucI)
  then show ?thesis using assms(1,2) by (cases q) auto
qed

lemma pool_inv_step:
  assumes inv: "pool_inv s" and T: "fp_threads s = add_mset q T" "fp_threads s' = add_mset q' T"
    and line: "\<And>ns. pool_line s ns \<Longrightarrow> \<exists>ns'. pool_line s' ns'"
    and fin: "finite (fp_blocks s')" "finite (fp_held s')"
    and use: "fp_UseCount s' = fp_UseCount s + word_of_int u"
      "int (card (fp_held s')) + use_due q' = int (card (fp_held s)) + use_due q + u"
    and new: "fp_AllocCount s' = fp_AllocCount s + word_of_int a"
      "int (card (fp_blocks s')) + alloc_due q' = int (card (fp_blocks s)) + alloc_due q + a"
    and top: "fp_TopID s' = of_nat (fp_changes s')"
    and own: "fthread_ok s' q'" and others: "\<And>r. r \<in># T \<Longrightarrow> fthread_ok s r \<Longrightarrow> fthread_ok s' r"
  shows "pool_inv s'"
proof -
  have "int (card (fp_held s')) + due use_due (fp_threads s') = int (card (fp_held s)) + due use_due (fp_threads s) + u"
    "int (card (fp_blocks s')) + due alloc_due (fp_threads s') = int (card (fp_blocks s)) + due alloc_due (fp_threads s) + a"
    using T use(2) new(2) by simp_all
  moreover have "fp_UseCount s = word_of_int (int (card (fp_held s)) + due use_due (fp_threads s))"
    "fp_AllocCount s = word_of_int (int (card (fp_blocks s)) + due alloc_due (fp_threads s))" using inv by (simp_all add: pool_inv_def)
  ultimately have "fp_UseCount s' = word_of_int (int (card (fp_held s')) + due use_due (fp_threads s'))"
    "fp_AllocCount s' = word_of_int (int (card (fp_blocks s')) + due alloc_due (fp_threads s'))"
    using use(1) new(1) by (simp_all only: of_int_add)
  moreover have "\<forall>r\<in>#fp_threads s'. fthread_ok s' r" using inv T others own by (simp add: pool_inv_def)
  moreover have "\<exists>ns'. pool_line s' ns'" using inv line by (auto simp: pool_inv_def)
  ultimately show ?thesis using fin top by (simp add: pool_inv_def)
qed

lemma pool_head: "pool_inv s \<Longrightarrow> fp_threads s = add_mset q T \<Longrightarrow> fthread_ok s q"
  by (simp add: pool_inv_def)

lemma pool_inv_parts: "pool_inv s \<Longrightarrow> finite (fp_blocks s)" "pool_inv s \<Longrightarrow> finite (fp_held s)"
  "pool_inv s \<Longrightarrow> fp_TopID s = of_nat (fp_changes s)"
  by (simp_all add: pool_inv_def)

text \<open>A thread moves on and at most corrects the counts of use and of the list.\<close>

lemma pool_inv_move:
  assumes inv: "pool_inv s" and T: "fp_threads s = add_mset q T"
    and own: "fown q' = fown q" "fthread_ok s q'" "alloc_due q' = alloc_due q"
    and u: "use_due q' = use_due q + u" and l: "pool_due q' = pool_due q + l"
  shows "pool_inv (s\<lparr>fp_PoolCount := fp_PoolCount s + word_of_int l, fp_UseCount := fp_UseCount s + word_of_int u,
    fp_threads := add_mset q' T\<rparr>)" (is "pool_inv ?s'")
proof (rule pool_inv_step [OF inv T, where q' = q' and u = u and a = 0])
  show "\<exists>ns'. pool_line ?s' ns'" if ns: "pool_line s ns" for ns
  proof -
    have "int (length ns) + due pool_due (fp_threads ?s') = int (length ns) + due pool_due (fp_threads s) + l" using T l by simp
    then have "fp_PoolCount ?s' = word_of_int (int (length ns) + due pool_due (fp_threads ?s'))"
      using ns by (simp only: pool_line_def of_int_add) simp
    then show ?thesis using ns T own(1) by (intro exI [of _ ns]) (simp add: pool_line_def)
  qed
  show "fthread_ok ?s' q'" using own(2) fthread_same [of ?s' s q'] by simp
  show "fthread_ok ?s' r" if "fthread_ok s r" for r using that fthread_same [of ?s' s r] by simp
qed (use inv own u in \<open>simp_all add: pool_inv_def\<close>)

lemma pool_inv_stay:
  assumes "pool_inv s" and "fp_threads s = add_mset q T" and "fown q' = fown q" "fthread_ok s q'" "alloc_due q' = alloc_due q"
    and "use_due q' = use_due q" "pool_due q' = pool_due q"
  shows "pool_inv (s\<lparr>fp_threads := add_mset q' T\<rparr>)"
proof -
  have "s\<lparr>fp_PoolCount := fp_PoolCount s + word_of_int 0, fp_UseCount := fp_UseCount s + word_of_int 0, fp_threads := add_mset q' T\<rparr> =
    s\<lparr>fp_threads := add_mset q' T\<rparr>" by (cases s) simp
  then show ?thesis using pool_inv_move [OF assms(1-5), of 0 0] assms(6,7) by simp
qed

section \<open>The steps keep it\<close>

lemma int_card_Diff: "finite A \<Longrightarrow> b \<in> A \<Longrightarrow> int (card (A - {b})) = int (card A) - 1"
  by (metis card_Suc_Diff1 add_diff_cancel_left' of_nat_Suc)

lemma mset_set_held: "finite A \<Longrightarrow> b \<in> A \<Longrightarrow> mset_set A = add_mset b (mset_set (A - {b}))"
  by (metis finite_Diff insert_Diff mset_set.insert Diff_iff singletonI)

lemma free_step_inv:
  assumes inv: "pool_inv s" and step: "free_step new s s'"
  shows "pool_inv s'"
  using step
proof cases
  case (free_begin T b)
  note f = pool_inv_parts [OF inv]
  show ?thesis
  proof (rule pool_inv_step [OF inv free_begin(3), where q' = "FReadPtr b" and u = 0 and a = 0])
    show "\<exists>ns'. pool_line s' ns'" if "pool_line s ns" for ns
      using that free_begin mset_set_held [OF f(2) free_begin(4)] by (intro exI [of _ ns]) (simp add: pool_line_def)
    show "int (card (fp_held s')) + use_due (FReadPtr b) = int (card (fp_held s)) + use_due FAway + 0"
      using int_card_Diff [OF f(2) free_begin(4)] by (simp add: free_begin(2))
    show "fthread_ok s' r" if "fthread_ok s r" for r using that fthread_same [of s' s r] free_begin(2) by simp
  qed (use f free_begin(2) in simp_all)
next
  case (free_read_ptr b T)
  show ?thesis unfolding free_read_ptr(2) by (rule pool_inv_stay [OF inv free_read_ptr(3)]) simp_all
next
  case (free_read_id b p T)
  show ?thesis unfolding free_read_id(2) by (rule pool_inv_stay [OF inv free_read_id(3)]) simp_all
next
  case (free_link b p i T)
  have b: "b \<in># fown (FLink b p i)" by simp
  note f = pool_inv_parts [OF inv]
  obtain ns where ns: "pool_line s ns" using inv by (auto simp: pool_inv_def)
  note o = sole_caller [OF ns f(2) free_link(3) b]
  show ?thesis
  proof (rule pool_inv_step [OF inv free_link(3), where q' = "FSwap b p i" and u = 0 and a = 0])
    show "\<exists>ns'. pool_line s' ns'" using ns o(1) free_link by (intro exI [of _ ns]) (simp add: pool_line_def)
    have "fp_TopPtr s \<noteq> Some b" using linked_top [of "fp_Next s" "fp_TopPtr s" ns b] ns o(1) by (auto simp: pool_line_def)
    then show "fthread_ok s' r" if "r \<in># T" "fthread_ok s r" for r
      by (intro fthread_written [OF that(2) o(3) [OF that(1)]]) (simp_all add: free_link(2))
  qed (use f free_link in simp_all)
next
  case (free_swap b p i T)
  have b: "b \<in># fown (FSwap b p i)" by simp
  note f = pool_inv_parts [OF inv]
  have n: "fp_Next s b = p" using pool_head [OF inv free_swap(3)] by simp
  show ?thesis
  proof (rule pool_inv_step [OF inv free_swap(3), where q' = FUse and u = 0 and a = 0])
    show "\<exists>ns'. pool_line s' ns'" if "pool_line s ns" for ns
      using that n free_swap(3,4) by (intro exI [of _ "b # ns"]) (simp add: pool_line_def free_swap(2))
    show "fthread_ok s' r" if "fthread_ok s r" for r by (rule fthread_changed [OF that]) (simp_all add: free_swap(2))
  qed (use f free_swap in simp_all)
next
  case (free_retry b p i T)
  show ?thesis unfolding free_retry(2) by (rule pool_inv_stay [OF inv free_retry(3)]) simp_all
next
  case (free_use T)
  have "s' = s\<lparr>fp_PoolCount := fp_PoolCount s + word_of_int 0, fp_UseCount := fp_UseCount s + word_of_int (- 1), fp_threads := add_mset FPool T\<rparr>"
    by (simp add: free_use(2))
  then show ?thesis using pool_inv_move [OF inv free_use(3), of FPool "- 1" 0] by simp
next
  case (free_pool T)
  have "s' = s\<lparr>fp_PoolCount := fp_PoolCount s + word_of_int 1, fp_UseCount := fp_UseCount s + word_of_int 0, fp_threads := add_mset FAway T\<rparr>"
    by (simp add: free_pool(2))
  then show ?thesis using pool_inv_move [OF inv free_pool(3), of FAway 0 1] by simp
qed

lemma dated_new: "pool_inv s \<Longrightarrow> now \<Longrightarrow> dated s (fp_TopID s) now"
  by (auto simp: pool_inv_def dated_def)

lemma alloc_hand_out:
  assumes inv: "pool_inv s" and T: "fp_threads s = add_mset q T" and q: "fown q = {#n#}" "alloc_due q = 0" "use_due q = 1 - u"
    and s': "s' = s\<lparr>fp_PoolCount := fp_PoolCount s + word_of_int (- pool_due q), fp_UseCount := fp_UseCount s + word_of_int u,
      fp_threads := add_mset FAway T, fp_held := insert n (fp_held s)\<rparr>"
  shows "pool_inv s'"
proof (rule pool_inv_step [OF inv T, where q' = FAway and u = u and a = 0])
  note f = pool_inv_parts [OF inv]
  have n: "n \<notin> fp_held s"
  proof -
    obtain ns where "pool_line s ns" using inv by (auto simp: pool_inv_def)
    then show ?thesis using sole_caller(2) [OF _ f(2) T, of ns n] q(1) by simp
  qed
  show "\<exists>ns'. pool_line s' ns'" if "pool_line s ns" for ns
    using that n f(2) q(1) T by (intro exI [of _ ns]) (simp add: pool_line_def s')
  show "int (card (fp_held s')) + use_due FAway = int (card (fp_held s)) + use_due q + u" using n f(2) q(3) by (simp add: s')
  show "fthread_ok s' r" if "fthread_ok s r" for r using that fthread_same [of s' s r] s' by simp
qed (use pool_inv_parts [OF inv] q s' in simp_all)

lemma alloc_step_inv:
  assumes inv: "pool_inv s" and new: "fp_changes s < 2 ^ 64" and step: "alloc_step b s s'"
  shows "pool_inv s'"
  using step
proof cases
  case (alloc_read_ptr T)
  show ?thesis unfolding alloc_read_ptr(2) by (rule pool_inv_stay [OF inv alloc_read_ptr(3)]) simp_all
next
  case (alloc_read_id p T)
  show ?thesis unfolding alloc_read_id(2) by (rule pool_inv_stay [OF inv alloc_read_id(3)]) (simp_all add: dated_new [OF inv])
next
  case (alloc_next p i T)
  have "dated s i True" using pool_head [OF inv alloc_next(3)] by simp
  then show ?thesis unfolding alloc_next(2) by (intro pool_inv_stay [OF inv alloc_next(3)]) (simp_all split: option.splits)
next
  case (alloc_swap n i p T)
  note f = pool_inv_parts [OF inv]
  have "dated s (fp_TopID s) (fp_TopPtr s = Some n \<longrightarrow> fp_Next s n = p)" using pool_head [OF inv alloc_swap(3)] alloc_swap(5) by simp
  then have p: "fp_Next s n = p" using dated_now [OF _ f(3) new] alloc_swap(4) by blast
  show ?thesis
  proof (rule pool_inv_step [OF inv alloc_swap(3), where q' = "AUse n" and u = 0 and a = 0])
    show "\<exists>ns'. pool_line s' ns'" if ns: "pool_line s ns" for ns
    proof -
      obtain ms where "ns = n # ms" using ns alloc_swap(4) by (cases ns) (auto simp: pool_line_def)
      then show ?thesis using ns p alloc_swap(3,4) by (intro exI [of _ ms]) (simp add: pool_line_def alloc_swap(2))
    qed
    show "fthread_ok s' r" if "fthread_ok s r" for r by (rule fthread_changed [OF that]) (simp_all add: alloc_swap(2))
  qed (use f alloc_swap in simp_all)
next
  case (alloc_retry n i p T)
  show ?thesis unfolding alloc_retry(2) by (rule pool_inv_stay [OF inv alloc_retry(3)]) (simp_all add: dated_new [OF inv])
next
  case (alloc_use n T)
  have "s' = s\<lparr>fp_PoolCount := fp_PoolCount s + word_of_int 0, fp_UseCount := fp_UseCount s + word_of_int 1, fp_threads := add_mset (APool n) T\<rparr>"
    by (simp add: alloc_use(2))
  then show ?thesis using pool_inv_move [OF inv alloc_use(3), of "APool n" 1 0] by simp
next
  case (alloc_pool n T)
  show ?thesis by (rule alloc_hand_out [OF inv alloc_pool(3), where n = n and u = 0]) (simp_all add: alloc_pool(2))
next
  case (alloc_malloc T n)
  note f = pool_inv_parts [OF inv]
  show ?thesis
  proof (rule pool_inv_step [OF inv alloc_malloc(3), where q' = "ACount n" and u = 0 and a = 0])
    show "\<exists>ns'. pool_line s' ns'" if "pool_line s ns" for ns
      using that alloc_malloc(3,4) f(1) by (intro exI [of _ ns]) (simp add: pool_line_def alloc_malloc(2))
    show "fthread_ok s' r" if "fthread_ok s r" for r using that fthread_same [of s' s r] alloc_malloc(2) by simp
  qed (use f alloc_malloc in simp_all)
next
  case (alloc_count n T)
  note f = pool_inv_parts [OF inv]
  show ?thesis
  proof (rule pool_inv_step [OF inv alloc_count(3), where q' = "ANew n" and u = 0 and a = 1])
    show "\<exists>ns'. pool_line s' ns'" if "pool_line s ns" for ns
      using that alloc_count(3) by (intro exI [of _ ns]) (simp add: pool_line_def alloc_count(2))
    show "fthread_ok s' r" if "fthread_ok s r" for r using that fthread_same [of s' s r] alloc_count(2) by simp
  qed (use f alloc_count in simp_all)
next
  case (alloc_new n T)
  show ?thesis by (rule alloc_hand_out [OF inv alloc_new(3), where n = n and u = 1]) (simp_all add: alloc_new(2))
qed

section \<open>The calls end\<close>

fun to_swap :: "fpc \<Rightarrow> bool" where
  "to_swap (FReadPtr b) = True"
| "to_swap (FReadID b p) = True"
| "to_swap (FLink b p i) = True"
| "to_swap (FSwap b p i) = True"
| "to_swap (AHalf p) = True"
| "to_swap (ATop p i) = True"
| "to_swap (ASwap n i p) = True"
| "to_swap _ = False"

fun fstage :: "Pool \<Rightarrow> fpc \<Rightarrow> nat" where
  "fstage s (FReadPtr b) = 8"
| "fstage s (FReadID b p) = 7"
| "fstage s (FLink b p i) = (if fp_TopPtr s = p \<and> fp_TopID s = i then 4 else 6)"
| "fstage s (FSwap b p i) = (if fp_TopPtr s = p \<and> fp_TopID s = i then 3 else 5)"
| "fstage s FUse = 2"
| "fstage s FPool = 1"
| "fstage s (AHalf p) = 7"
| "fstage s (ATop p i) = (if fp_TopPtr s = p \<and> fp_TopID s = i then 4 else 6)"
| "fstage s (ASwap n i p) = (if fp_TopPtr s = Some n \<and> fp_TopID s = i then 3 else 5)"
| "fstage s (AUse n) = 2"
| "fstage s (APool n) = 1"
| "fstage s AMalloc = 3"
| "fstage s (ACount n) = 2"
| "fstage s (ANew n) = 1"
| "fstage s FAway = 0"

definition pool_work :: "Pool \<Rightarrow> nat" where
  "pool_work s = fcount to_swap (fp_threads s) * (2 * size (fp_threads s)) + (\<Sum>q\<in>#fp_threads s. fstage s q)"

lemma fstage_same: "fp_TopPtr s' = fp_TopPtr s \<Longrightarrow> fp_TopID s' = fp_TopID s \<Longrightarrow> fstage s' q = fstage s q"
  by (cases q) simp_all

lemma fstages_other: "(\<Sum>q\<in>#T. fstage s' q) \<le> (\<Sum>q\<in>#T. fstage s q) + 2 * size T"
proof (induction T)
  case (add q T)
  have "fstage s' q \<le> fstage s q + 2" by (cases q) simp_all
  then show ?case using add by simp
qed simp

lemma pool_work_move:
  assumes "fp_threads s = add_mset q T" "fp_threads s' = add_mset q' T" and "fp_TopPtr s' = fp_TopPtr s" "fp_TopID s' = fp_TopID s"
    and "to_swap q' \<longrightarrow> to_swap q" "fstage s q' < fstage s q"
  shows "pool_work s' < pool_work s"
proof -
  have "(\<Sum>r\<in>#T. fstage s' r) = (\<Sum>r\<in>#T. fstage s r)" by (simp add: fstage_same [OF assms(3,4)])
  then show ?thesis using assms(1,2,5,6) by (simp add: pool_work_def fstage_same [OF assms(3,4)])
qed

lemma pool_work_swap:
  assumes "fp_threads s = add_mset q T" "fp_threads s' = add_mset q' T" and "to_swap q" "\<not> to_swap q'" "fstage s' q' < fstage s q"
  shows "pool_work s' < pool_work s"
  using assms fstages_other [of s' T s] by (simp add: pool_work_def)

lemma free_work_less: "free_step False s s' \<Longrightarrow> pool_work s' < pool_work s"
proof -
  assume "free_step False s s'"
  then show ?thesis
  proof cases
    case (free_read_ptr b T)
    then show ?thesis by (intro pool_work_move [OF free_read_ptr(2), where q' = "FReadID b (fp_TopPtr s)"]) auto
  next
    case (free_read_id b p T)
    then show ?thesis by (intro pool_work_move [OF free_read_id(2), where q' = "FLink b p (fp_TopID s)"]) auto
  next
    case (free_link b p i T)
    then show ?thesis by (intro pool_work_move [OF free_link(2), where q' = "FSwap b p i"]) auto
  next
    case (free_swap b p i T)
    then show ?thesis by (intro pool_work_swap [OF free_swap(2), where q' = FUse]) auto
  next
    case (free_retry b p i T)
    then show ?thesis by (intro pool_work_move [OF free_retry(2), where q' = "FLink b (fp_TopPtr s) (fp_TopID s)"]) auto
  next
    case (free_use T)
    then show ?thesis by (intro pool_work_move [OF free_use(2), where q' = FPool]) auto
  next
    case (free_pool T)
    then show ?thesis by (intro pool_work_move [OF free_pool(2), where q' = FAway]) auto
  qed simp_all
qed

lemma alloc_work_less: "alloc_step False s s' \<Longrightarrow> pool_work s' < pool_work s"
proof -
  assume "alloc_step False s s'"
  then show ?thesis
  proof cases
    case (alloc_read_id p T)
    then show ?thesis by (intro pool_work_move [OF alloc_read_id(2), where q' = "ATop p (fp_TopID s)"]) auto
  next
    case (alloc_next p i T)
    then show ?thesis
      by (intro pool_work_move [OF alloc_next(2), where q' = "case p of None \<Rightarrow> AMalloc | Some n \<Rightarrow> ASwap n i (fp_Next s n)"])
        (auto split: option.splits)
  next
    case (alloc_swap n i p T)
    then show ?thesis by (intro pool_work_swap [OF alloc_swap(2), where q' = "AUse n"]) auto
  next
    case (alloc_retry n i p T)
    then show ?thesis by (intro pool_work_move [OF alloc_retry(2), where q' = "ATop (fp_TopPtr s) (fp_TopID s)"]) auto
  next
    case (alloc_use n T)
    then show ?thesis by (intro pool_work_move [OF alloc_use(2), where q' = "APool n"]) auto
  next
    case (alloc_pool n T)
    then show ?thesis by (intro pool_work_move [OF alloc_pool(2), where q' = FAway]) auto
  next
    case (alloc_malloc T n)
    then show ?thesis by (intro pool_work_move [OF alloc_malloc(2), where q' = "ACount n"]) auto
  next
    case (alloc_count n T)
    then show ?thesis by (intro pool_work_move [OF alloc_count(2), where q' = "ANew n"]) auto
  next
    case (alloc_new n T)
    then show ?thesis by (intro pool_work_move [OF alloc_new(2), where q' = FAway]) auto
  qed simp_all
qed

lemma pool_work_le: "pool_work s \<le> size (fp_threads s) * (2 * size (fp_threads s) + 8)"
proof -
  have "fstage s q \<le> 8" for q by (cases q) simp_all
  then have "(\<Sum>q\<in>#M. fstage s q) \<le> 8 * size M" for M
    by (induction M) (simp_all add: add_mono)
  moreover have "fcount to_swap (fp_threads s) \<le> size (fp_threads s)"
    unfolding fcount_def by (rule size_filter_mset_lesseq)
  ultimately show ?thesis
    unfolding pool_work_def by (simp add: add_mult_distrib2 add_mono mult.commute)
qed

section \<open>All interleavings\<close>

definition any_pool_step :: "Pool \<Rightarrow> Pool \<Rightarrow> bool" where
  "any_pool_step s s' \<longleftrightarrow> (\<exists>new. pool_step new s s')"

lemma pool_stepI: "free_step new s s' \<Longrightarrow> pool_step new s s'" "alloc_step new s s' \<Longrightarrow> pool_step new s s'"
  by (simp_all add: pool_step_def)

lemma pool_step_size: "pool_step new s s' \<Longrightarrow> size (fp_threads s') = size (fp_threads s) \<and> fp_changes s \<le> fp_changes s'"
  unfolding pool_step_def by (elim disjE; erule free_step.cases alloc_step.cases; simp)

definition pool_inv_n :: "nat \<Rightarrow> Pool \<Rightarrow> bool" where
  "pool_inv_n n s \<longleftrightarrow> size (fp_threads s) = n \<and> (fp_changes s < 2 ^ 64 \<longrightarrow> pool_inv s)"

lemma fcalls_none: "\<forall>q\<in>#M. q = FAway \<Longrightarrow> fowned M = {#} \<and> due use_due M = 0 \<and> due pool_due M = 0 \<and> due alloc_due M = 0"
  by (induction M) auto

lemma pool_init_inv: "pool_init n s \<Longrightarrow> pool_inv s"
proof -
  assume i: "pool_init n s"
  have "fowned (replicate_mset n FAway) = {#} \<and> due use_due (replicate_mset n FAway) = 0 \<and>
      due pool_due (replicate_mset n FAway) = 0 \<and> due alloc_due (replicate_mset n FAway) = 0"
    by (rule fcalls_none) simp
  then have "pool_line s []" using i by (simp add: pool_init_def pool_line_def)
  then have "\<exists>ns. pool_line s ns" ..
  moreover have "\<forall>q\<in>#fp_threads s. fthread_ok s q" using i by (auto simp: pool_init_def split: if_splits)
  ultimately show ?thesis using i fcalls_none [of "fp_threads s"] unfolding pool_inv_def by (simp add: pool_init_def)
qed

interpretation pool_protocol: finishing_steps "pool_init n" any_pool_step "pool_inv_n n" "pool_step False" pool_work
proof unfold_locales
  show "pool_inv_n n s" if "pool_init n s" for s
    using that pool_init_inv [of n s] by (simp add: pool_inv_n_def pool_init_def)
  show "pool_inv_n n s'" if i: "pool_inv_n n s" and a: "any_pool_step s s'" for s s'
  proof -
    obtain new where st: "pool_step new s s'" using a by (auto simp: any_pool_step_def)
    note z = pool_step_size [OF st]
    have "pool_inv s'" if "fp_changes s' < 2 ^ 64"
    proof -
      have "pool_inv s" "fp_changes s < 2 ^ 64" using i that z by (simp_all add: pool_inv_n_def)
      then show ?thesis using st free_step_inv alloc_step_inv unfolding pool_step_def by blast
    qed
    then show ?thesis using i z by (simp add: pool_inv_n_def)
  qed
  show "any_pool_step s s'" if "pool_step False s s'" for s s' using that by (auto simp: any_pool_step_def)
  show "pool_work s' < pool_work s" if "pool_step False s s'" for s s'
    using that free_work_less alloc_work_less unfolding pool_step_def by blast
qed

lemma pool_stuck_away:
  assumes stuck: "\<nexists>t. pool_step False s t" and fin: "finite (fp_blocks s)" and q: "q \<in># fp_threads s"
  shows "q = FAway"
proof (rule ccontr)
  assume no: "q \<noteq> FAway"
  obtain T where T: "fp_threads s = add_mset q T" using q by (metis mset_add)
  obtain n where n: "n \<notin> fp_blocks s" using ex_new_if_finite [OF _ fin] by auto
  have "\<exists>t. free_step False s t \<or> alloc_step False s t"
  proof (cases q)
    case (FReadPtr b)
    then show ?thesis using T free_read_ptr by blast
  next
    case (FReadID b p)
    then show ?thesis using T free_read_id by blast
  next
    case (FLink b p i)
    then show ?thesis using T free_link by blast
  next
    case (FSwap b p i)
    then show ?thesis using T free_swap [of s b p i T] free_retry [of s b p i T] by blast
  next
    case FUse
    then show ?thesis using T free_use by blast
  next
    case FPool
    then show ?thesis using T free_pool by blast
  next
    case (AHalf p)
    then show ?thesis using T alloc_read_id by blast
  next
    case (ATop p i)
    then show ?thesis using T alloc_next by blast
  next
    case (ASwap m i p)
    then show ?thesis using T alloc_swap [of s m i p T] alloc_retry [of s m i p T] by blast
  next
    case (AUse m)
    then show ?thesis using T alloc_use by blast
  next
    case (APool m)
    then show ?thesis using T alloc_pool by blast
  next
    case AMalloc
    then show ?thesis using T n alloc_malloc by blast
  next
    case (ACount m)
    then show ?thesis using T alloc_count by blast
  next
    case (ANew m)
    then show ?thesis using T alloc_new by blast
  qed (use no in simp)
  with stuck show False by (auto simp: pool_step_def)
qed

text \<open>
  What the stack and the queue assume of their pool: it hands out a block that is not in use, or takes
  one back that is.  In use are the blocks clients hold and those in a call.
\<close>

inductive pool_contract :: "addr set \<Rightarrow> addr set \<Rightarrow> bool" where
  "n \<notin> U \<Longrightarrow> pool_contract U (insert n U)"
| "n \<in> U \<Longrightarrow> pool_contract U (U - {n})"

definition given_out :: "Pool \<Rightarrow> addr set" where
  "given_out s = fp_held s \<union> set_mset (fowned (fp_threads s))"

lemma listed_not_given:
  assumes "pool_line s ns" and "finite (fp_held s)" and "n \<in> set ns"
  shows "n \<notin> given_out s"
proof
  assume g: "n \<in> given_out s"
  have "count (mset ns + fowned (fp_threads s) + mset_set (fp_held s)) n \<le> 1"
    using assms(1) unfolding pool_line_def by (metis count_mset_set' order_refl zero_le_one)
  moreover have "0 < count (mset ns) n" using assms(3) by simp
  ultimately have "count (fowned (fp_threads s)) n = 0" "count (mset_set (fp_held s)) n = 0" unfolding count_union by linarith+
  then show False using g assms(2) by (auto simp: given_out_def count_mset_set' not_in_iff [symmetric] split: if_splits)
qed

lemma pool_step_given:
  assumes inv: "pool_inv s" and new: "fp_changes s < 2 ^ 64" and step: "pool_step b s s'"
  shows "given_out s' = given_out s \<or> pool_contract (given_out s) (given_out s')"
proof -
  note f = pool_inv_parts [OF inv]
  obtain ns where ns: "pool_line s ns" using inv by (auto simp: pool_inv_def)
  from step show ?thesis unfolding pool_step_def
  proof (elim disjE)
    assume "free_step b s s'"
    then show ?thesis
    proof cases
      case (free_swap c p i T)
      have c: "c \<in># fown (FSwap c p i)" by simp
      note o = sole_caller [OF ns f(2) free_swap(3) c]
      have "c \<notin># fowned T"
      proof
        assume "c \<in># fowned T"
        then obtain r where "r \<in># T" "c \<in># fown r" by (auto simp: fowned_def)
        then show False using o(3) by blast
      qed
      then have "given_out s' = given_out s - {c}" using o(2) free_swap by (auto simp: given_out_def)
      moreover have "c \<in> given_out s" using free_swap(3) by (simp add: given_out_def)
      ultimately show ?thesis using pool_contract.intros(2) by metis
    qed (auto simp: given_out_def)
  next
    assume "alloc_step b s s'"
    then show ?thesis
    proof cases
      case (alloc_swap n i p T)
      have "n \<in> set ns" using linked_top [of "fp_Next s" "fp_TopPtr s" ns n] ns alloc_swap(4) by (simp add: pool_line_def)
      then have "n \<notin> given_out s" by (rule listed_not_given [OF ns f(2)])
      moreover have "given_out s' = insert n (given_out s)" using alloc_swap by (auto simp: given_out_def)
      ultimately show ?thesis using pool_contract.intros(1) by metis
    next
      case (alloc_malloc T n)
      have "given_out s \<subseteq> fp_blocks s"
      proof
        fix m assume "m \<in> given_out s"
        then have "m \<in># mset ns + fowned (fp_threads s) + mset_set (fp_held s)" using f(2) by (auto simp: given_out_def)
        moreover have "mset ns + fowned (fp_threads s) + mset_set (fp_held s) = mset_set (fp_blocks s)" using ns by (simp add: pool_line_def)
        ultimately have "m \<in># mset_set (fp_blocks s)" by (simp only:)
        then show "m \<in> fp_blocks s" using f(1) by simp
      qed
      then have "n \<notin> given_out s" using alloc_malloc(4) by blast
      moreover have "given_out s' = insert n (given_out s)" using alloc_malloc by (auto simp: given_out_def)
      ultimately show ?thesis using pool_contract.intros(1) by metis
    qed (auto simp: given_out_def split: option.splits)
  qed
qed

section \<open>Properties\<close>

text \<open>
  C5. The free list under any interleaving of any number of threads: every block the system has given
  is on the list, in one call or held by one client, once; and every step leaves the blocks in use
  alone, hands out a block that was not in use, or takes one back.  This is the contract under which
  the lock free stack and queue are proved.
\<close>

theorem pool_protocol_safe:
  assumes "reachable (pool_init n) any_pool_step s" and "fp_changes s < 2 ^ 64"
  shows "(\<exists>ns. linked (fp_Next s) (fp_TopPtr s) ns \<and>
      mset ns + fowned (fp_threads s) + mset_set (fp_held s) = mset_set (fp_blocks s)) \<and>
    (pool_step new s s' \<longrightarrow> given_out s' = given_out s \<or> pool_contract (given_out s) (given_out s'))"
proof -
  have inv: "pool_inv s" using pool_protocol.inv_reachable [OF assms(1)] assms(2) by (simp add: pool_inv_n_def)
  then show ?thesis using pool_step_given [OF inv assms(2), of new s'] by (auto simp: pool_inv_def pool_line_def)
qed

lemma first_alloc:
  "\<exists>s s'. reachable (pool_init 1) any_pool_step s \<and> pool_step False s s' \<and> fp_threads s = {#AMalloc#} \<and> fp_held s = {} \<and>
     fp_changes s = 0 \<and> given_out s' = {5}"
proof -
  define s0 where "s0 = \<lparr>fp_TopPtr = None, fp_TopID = 0, fp_Next = (\<lambda>n. None), fp_PoolCount = 0, fp_UseCount = 0, fp_AllocCount = 0,
     fp_threads = {#FAway#}, fp_blocks = {}, fp_held = {}, fp_changes = 0\<rparr>"
  let ?s = "\<lambda>q. s0\<lparr>fp_threads := {#q#}\<rparr>"
  let ?s4 = "s0\<lparr>fp_threads := {#ACount 5#}, fp_blocks := {5}\<rparr>"
  have step: "any_pool_step s s'" if "alloc_step b s s'" for b s s' using that by (auto simp: any_pool_step_def intro: pool_stepI)
  have "any_pool_step s0 (?s (AHalf None))" using step [OF alloc_read_ptr [of s0 "{#}"]] by (simp add: s0_def)
  moreover have "any_pool_step (?s (AHalf None)) (?s (ATop None 0))" using step [OF alloc_read_id [of "?s (AHalf None)" None "{#}"]] by (simp add: s0_def)
  moreover have "any_pool_step (?s (ATop None 0)) (?s AMalloc)" using step [OF alloc_next [of "?s (ATop None 0)" None 0 "{#}"]] by (simp add: s0_def)
  moreover have "pool_init 1 s0" by (simp add: pool_init_def s0_def)
  ultimately have r: "reachable (pool_init 1) any_pool_step (?s AMalloc)" by (meson reachable_init reachable_step)
  have "pool_step False (?s AMalloc) ?s4" using pool_stepI(2) [OF alloc_malloc [of "?s AMalloc" "{#}" 5]] by (simp add: s0_def)
  with r show ?thesis by (intro exI [of _ "?s AMalloc"] exI [of _ ?s4]) (simp add: s0_def given_out_def)
qed

theorem pool_protocol_safe_witness:
  "\<exists>s s'. reachable (pool_init 1) any_pool_step s \<and> fp_threads s = {#AMalloc#} \<and> fp_held s = {} \<and> pool_step False s s' \<and>
     given_out s' = {5} \<and> pool_contract (given_out s) (given_out s')"
proof -
  obtain s s' where s: "reachable (pool_init 1) any_pool_step s" "pool_step False s s'" "fp_threads s = {#AMalloc#}" "fp_held s = {}"
    "fp_changes s = 0" "given_out s' = {5}" using first_alloc by blast
  have b: "fp_changes s < 2 ^ 64" using s(5) by simp
  have "given_out s = {}" using s(3,4) by (simp add: given_out_def)
  then show ?thesis using pool_protocol_safe [OF s(1) b, of False s'] s by (intro exI [of _ s] exI [of _ s']) simp
qed

text \<open>
  C20. Every \<open>Alloc\<close> and \<open>Free\<close> ends: once none begins, \<open>n\<close> threads are done after at most
  \<open>n * (2 * n + 8)\<close> steps in whatever order they run, and then the three counters are exact: all
  blocks there are, those that clients hold, and those on the list.
\<close>

theorem pool_protocol_live:
  assumes "reachable (pool_init n) any_pool_step s"
  shows "((pool_step False ^^ k) s s' \<longrightarrow> k \<le> n * (2 * n + 8)) \<and>
    (\<exists>t. (pool_step False)\<^sup>*\<^sup>* s t \<and> (\<nexists>u. pool_step False t u)) \<and>
    ((pool_step False)\<^sup>*\<^sup>* s t \<and> (\<nexists>u. pool_step False t u) \<and> fp_changes t < 2 ^ 64 \<longrightarrow>
       fp_threads t = replicate_mset n FAway \<and> fp_AllocCount t = of_nat (card (fp_blocks t)) \<and>
       fp_UseCount t = of_nat (card (fp_held t)) \<and>
       (\<exists>ns. linked (fp_Next t) (fp_TopPtr t) ns \<and> mset ns + mset_set (fp_held t) = mset_set (fp_blocks t) \<and>
          fp_PoolCount t = of_nat (length ns)))"
proof -
  have inv: "pool_inv_n n s" by (rule pool_protocol.inv_reachable [OF assms])
  have "k \<le> n * (2 * n + 8)" if "(pool_step False ^^ k) s s'"
    using pool_protocol.finish_bound [OF inv that] pool_work_le [of s] inv by (simp add: pool_inv_n_def)
  moreover have "fp_threads t = replicate_mset n FAway \<and> fp_AllocCount t = of_nat (card (fp_blocks t)) \<and>
       fp_UseCount t = of_nat (card (fp_held t)) \<and>
       (\<exists>ns. linked (fp_Next t) (fp_TopPtr t) ns \<and> mset ns + mset_set (fp_held t) = mset_set (fp_blocks t) \<and>
          fp_PoolCount t = of_nat (length ns))"
    if run: "(pool_step False)\<^sup>*\<^sup>* s t" and stuck: "\<nexists>u. pool_step False t u" and c: "fp_changes t < 2 ^ 64"
  proof -
    obtain k where "(pool_step False ^^ k) s t" using run by (auto simp: rtranclp_power)
    then have t: "pool_inv t" "size (fp_threads t) = n"
      using pool_protocol.finish_bound [OF inv] c by (auto simp: pool_inv_n_def)
    have away: "\<forall>q\<in>#fp_threads t. q = FAway" using pool_stuck_away [OF stuck pool_inv_parts(1) [OF t(1)]] by blast
    then have "fp_threads t = replicate_mset n FAway"
      using t(2) by (metis set_mset_subset_singletonD subsetI singleton_iff)
    then show ?thesis using t(1) fcalls_none [OF away] by (auto simp: pool_inv_def pool_line_def)
  qed
  ultimately show ?thesis using pool_protocol.finish_end [OF inv] by blast
qed

theorem pool_protocol_live_witness:
  "\<exists>s t. reachable (pool_init 1) any_pool_step s \<and> fp_threads s = {#AMalloc#} \<and> (pool_step False)\<^sup>*\<^sup>* s t \<and>
     (\<nexists>u. pool_step False t u) \<and>
     (fp_changes t < 2 ^ 64 \<longrightarrow> fp_threads t = {#FAway#} \<and> fp_UseCount t = of_nat (card (fp_held t)))"
proof -
  obtain s s' where s: "reachable (pool_init 1) any_pool_step s" "pool_step False s s'" "fp_threads s = {#AMalloc#}"
    using first_alloc by blast
  note live = pool_protocol_live [OF s(1)]
  obtain t where t: "(pool_step False)\<^sup>*\<^sup>* s t" "\<nexists>u. pool_step False t u" using live by blast
  with live have "fp_changes t < 2 ^ 64 \<longrightarrow> fp_threads t = replicate_mset 1 FAway \<and> fp_UseCount t = of_nat (card (fp_held t))" by blast
  with s t show ?thesis by (intro exI [of _ s] exI [of _ t]) simp
qed

end
