(* ===== verification/QueueProtocol.thy ===== *)
theory QueueProtocol
  imports Transition LockFreeQ "HOL-Library.Multiset"
begin

text \<open>
  \<^verbatim>\<open>LockFreeQ<T>\<close> of LockFreeQ.h under any number of threads, instruction by instruction: every
  read and write of shared memory and every interlocked operation of \<open>EnQ\<close> and \<open>DeQ\<close> is a step.
  The memory is the machine's: addresses and the contents of \<^verbatim>\<open>_Next\<close> are words of 64 bit, and
  whether such a word is an address or a tag is decided by the comparison with \<^verbatim>\<open>KERNEL_ADDRESS\<close>.
  The pool of nodes is its contract, which FreeListProtocol
  proves of the program's pool: it hands out any of its blocks that nobody holds.  The
  statistics \<^verbatim>\<open>m_EnQTPS\<close> and \<^verbatim>\<open>m_DeQTPS\<close> and the calls of the log in memory are left out.
\<close>

section \<open>The queue and where the threads are\<close>

type_synonym ptr = "64 word"

text \<open>
  In \<open>EnQ\<close>: \<open>EStart\<close> has found room and is about to allocate; \<open>EData\<close>, \<open>ENumber\<close> and \<open>ETag\<close> have
  their node and are about to write the data, to draw a tag, to write it; \<open>EReadPtr\<close> and \<open>EReadID\<close>
  copy the rear, \<open>ELink\<close> is about to append by the first compare-exchange.  Who fails reads the
  next pointer (\<open>EHelp\<close>), reads that node's next pointer (\<open>EHelpRead\<close>) and moves the rear on
  (\<open>EHelpSwap\<close>); who succeeds reads the tag of its node (\<open>ELinked\<close>), moves the rear (\<open>ESwap\<close>) and
  increments the count (\<open>ECount\<close>).  In \<open>DeQ\<close>: \<open>DRefused\<close> has found the count negative, \<open>DReserved\<close>
  has not; \<open>DHalf\<close> has copied the front pointer, \<open>DLoop\<close> the identifier too, \<open>DData\<close> has the next
  node and is about to read its data, \<open>DSwap\<close> about to compare and exchange, \<open>DTook\<close> to free the
  old front.  The first value of \<open>DTook\<close> is the one at the head of the list at the exchange, the
  second the one read.  \<open>Overfull\<close> and \<open>Crashed\<close> have called \<^verbatim>\<open>Crash()\<close>, \<open>BadRead\<close> has followed a
  word that is no node.
\<close>

datatype 'a qpc = QAway | Overfull | Crashed | BadRead
  | EStart 'a | EData ptr 'a | ENumber ptr 'a | ETag ptr 'a ptr | EReadPtr ptr 'a | EReadID ptr 'a ptr
  | ELink ptr 'a ptr ptr | EHelp ptr 'a ptr ptr | EHelpRead ptr 'a ptr ptr ptr | EHelpSwap ptr 'a ptr ptr ptr ptr
  | ELinked ptr ptr ptr | ESwap ptr ptr ptr ptr | ECount
  | DRefused | DReserved | DHalf ptr | DLoop ptr ptr | DData ptr ptr ptr | DSwap ptr ptr ptr 'a | DTook ptr 'a 'a

text \<open>
  \<open>qp_used\<close> are the nodes the pool has handed out.  The fields after the threads are kept for the
  properties only: the list the queue stands for, its nodes from the dummy on, how often the front
  has changed, how many tags were drawn, the tags that have been beside the rear pointer, and the
  node that each tag was drawn for.
\<close>

record 'a Queue =
  qp_FrontPtr :: ptr
  qp_FrontID :: "64 word"
  qp_RearPtr :: ptr
  qp_RearCk :: "64 word"
  qp_RearID :: "64 word"
  qp_Count :: "32 word"
  qp_Max :: "32 word"
  qp_Data :: "ptr \<Rightarrow> 'a"
  qp_Next :: "ptr \<Rightarrow> 64 word"
  qp_used :: "ptr set"
  qp_threads :: "'a qpc multiset"
  qp_list :: "'a list"
  qp_nodes :: "ptr list"
  qp_changes :: nat
  qp_tags :: nat
  qp_shown :: "64 word set"
  qp_home :: "64 word \<Rightarrow> ptr"

definition is_tag :: "64 word \<Rightarrow> bool" where
  "is_tag w \<longleftrightarrow> word_of_int KERNEL_ADDRESS \<le>s w"

text \<open>
  The steps; the first argument holds the blocks of the pool, the flag says that an operation
  begins or waits for the pool, as in the other protocols.
\<close>

inductive enq_step :: "ptr set \<Rightarrow> bool \<Rightarrow> 'a Queue \<Rightarrow> 'a Queue \<Rightarrow> bool" for B where
  enq_begin: "qp_threads s = add_mset QAway T \<Longrightarrow>
    enq_step B True s (s\<lparr>qp_threads := add_mset (if qp_Max s <s qp_Count s then Overfull else EStart x) T\<rparr>)"
| enq_alloc: "qp_threads s = add_mset (EStart x) T \<Longrightarrow> n \<in> B \<Longrightarrow> n \<notin> qp_used s \<Longrightarrow>
    enq_step B True s (s\<lparr>qp_used := insert n (qp_used s), qp_threads := add_mset (EData n x) T\<rparr>)"
| enq_data: "qp_threads s = add_mset (EData n x) T \<Longrightarrow>
    enq_step B False s (s\<lparr>qp_Data := (qp_Data s)(n := x), qp_threads := add_mset (ENumber n x) T\<rparr>)"
| enq_number: "qp_threads s = add_mset (ENumber n x) T \<Longrightarrow>
    enq_step B False s (s\<lparr>qp_RearID := qp_RearID s + 1, qp_threads := add_mset (ETag n x (qp_RearID s + 1)) T,
      qp_tags := qp_tags s + 1, qp_home := (qp_home s)(qp_RearID s + 1 := n)\<rparr>)"
| enq_tag: "qp_threads s = add_mset (ETag n x t) T \<Longrightarrow>
    enq_step B False s (s\<lparr>qp_Next := (qp_Next s)(n := t), qp_threads := add_mset (EReadPtr n x) T\<rparr>)"
| enq_read_ptr: "qp_threads s = add_mset (EReadPtr n x) T \<Longrightarrow>
    enq_step B False s (s\<lparr>qp_threads := add_mset (EReadID n x (qp_RearPtr s)) T\<rparr>)"
| enq_read_id: "qp_threads s = add_mset (EReadID n x p) T \<Longrightarrow>
    enq_step B False s (s\<lparr>qp_threads := add_mset (if p = n then Crashed else ELink n x p (qp_RearCk s)) T\<rparr>)"
| enq_link: "qp_threads s = add_mset (ELink n x p i) T \<Longrightarrow> p \<in> B \<Longrightarrow> qp_Next s p = i \<Longrightarrow>
    enq_step B False s (s\<lparr>qp_Next := (qp_Next s)(p := n), qp_threads := add_mset (ELinked n p i) T,
      qp_list := qp_list s @ [x], qp_nodes := qp_nodes s @ [n]\<rparr>)"
| enq_link_fail: "qp_threads s = add_mset (ELink n x p i) T \<Longrightarrow> p \<notin> B \<or> qp_Next s p \<noteq> i \<Longrightarrow>
    enq_step B False s (s\<lparr>qp_threads := add_mset (if p \<in> B then EHelp n x p i else BadRead) T\<rparr>)"
| enq_help: "qp_threads s = add_mset (EHelp n x p i) T \<Longrightarrow> c = qp_Next s p \<Longrightarrow>
    enq_step B False s (s\<lparr>qp_threads := add_mset (if is_tag c then EReadPtr n x else EHelpRead n x p i c) T\<rparr>)"
| enq_help_read: "qp_threads s = add_mset (EHelpRead n x p i c) T \<Longrightarrow>
    enq_step B False s (s\<lparr>qp_threads := add_mset (if c \<in> B then EHelpSwap n x p i c (qp_Next s c) else BadRead) T\<rparr>)"
| enq_help_swap: "qp_threads s = add_mset (EHelpSwap n x p i c d) T \<Longrightarrow> qp_RearPtr s = p \<Longrightarrow> qp_RearCk s = i \<Longrightarrow>
    enq_step B False s (s\<lparr>qp_RearPtr := c, qp_RearCk := d, qp_threads := add_mset (EReadPtr n x) T,
      qp_shown := insert d (qp_shown s)\<rparr>)"
| enq_help_late: "qp_threads s = add_mset (EHelpSwap n x p i c d) T \<Longrightarrow> qp_RearPtr s \<noteq> p \<or> qp_RearCk s \<noteq> i \<Longrightarrow>
    enq_step B False s (s\<lparr>qp_threads := add_mset (EReadPtr n x) T\<rparr>)"
| enq_own_tag: "qp_threads s = add_mset (ELinked n p i) T \<Longrightarrow>
    enq_step B False s (s\<lparr>qp_threads := add_mset (ESwap n p i (qp_Next s n)) T\<rparr>)"
| enq_swap: "qp_threads s = add_mset (ESwap n p i d) T \<Longrightarrow> qp_RearPtr s = p \<Longrightarrow> qp_RearCk s = i \<Longrightarrow>
    enq_step B False s (s\<lparr>qp_RearPtr := n, qp_RearCk := d, qp_threads := add_mset ECount T,
      qp_shown := insert d (qp_shown s)\<rparr>)"
| enq_swap_late: "qp_threads s = add_mset (ESwap n p i d) T \<Longrightarrow> qp_RearPtr s \<noteq> p \<or> qp_RearCk s \<noteq> i \<Longrightarrow>
    enq_step B False s (s\<lparr>qp_threads := add_mset ECount T\<rparr>)"
| enq_count: "qp_threads s = add_mset ECount T \<Longrightarrow>
    enq_step B False s (s\<lparr>qp_Count := qp_Count s + 1, qp_threads := add_mset QAway T\<rparr>)"

fun consumer :: "'a qpc \<Rightarrow> bool" where
  "consumer DReserved = True"
| "consumer (DHalf p) = True"
| "consumer (DLoop p i) = True"
| "consumer (DData p i c) = True"
| "consumer (DSwap p i c y) = True"
| "consumer _ = False"

definition consumers :: "'a qpc multiset \<Rightarrow> nat" where
  "consumers M = size (filter_mset consumer M)"

text \<open>
  \<open>M\<close> is the number of threads that may be between the decrement and the exchange of \<open>DeQ\<close> at once.
  On a tag in the next pointer the loop continues without reading the front again.
\<close>

inductive deq_step :: "ptr set \<Rightarrow> nat \<Rightarrow> bool \<Rightarrow> 'a Queue \<Rightarrow> 'a Queue \<Rightarrow> bool" for B M where
  deq_begin: "qp_threads s = add_mset QAway T \<Longrightarrow> consumers T < M \<Longrightarrow>
    deq_step B M True s (s\<lparr>qp_Count := qp_Count s - 1,
      qp_threads := add_mset (if qp_Count s - 1 <s 0 then DRefused else DReserved) T\<rparr>)"
| deq_refuse: "qp_threads s = add_mset DRefused T \<Longrightarrow>
    deq_step B M False s (s\<lparr>qp_Count := qp_Count s + 1, qp_threads := add_mset QAway T\<rparr>)"
| deq_read_ptr: "qp_threads s = add_mset DReserved T \<Longrightarrow>
    deq_step B M False s (s\<lparr>qp_threads := add_mset (DHalf (qp_FrontPtr s)) T\<rparr>)"
| deq_read_id: "qp_threads s = add_mset (DHalf p) T \<Longrightarrow>
    deq_step B M False s (s\<lparr>qp_threads := add_mset (DLoop p (qp_FrontID s)) T\<rparr>)"
| deq_next: "qp_threads s = add_mset (DLoop p i) T \<Longrightarrow> c = qp_Next s p \<Longrightarrow>
    deq_step B M False s (s\<lparr>qp_threads := add_mset
      (if p \<notin> B then BadRead else if is_tag c then DLoop p i else DData p i c) T\<rparr>)"
| deq_data: "qp_threads s = add_mset (DData p i c) T \<Longrightarrow>
    deq_step B M False s (s\<lparr>qp_threads := add_mset (if c \<in> B then DSwap p i c (qp_Data s c) else BadRead) T\<rparr>)"
| deq_swap: "qp_threads s = add_mset (DSwap p i c y) T \<Longrightarrow> qp_FrontPtr s = p \<Longrightarrow> qp_FrontID s = i \<Longrightarrow>
    deq_step B M False s (s\<lparr>qp_FrontPtr := c, qp_FrontID := i + 1, qp_threads := add_mset (DTook p (hd (qp_list s)) y) T,
      qp_list := tl (qp_list s), qp_nodes := tl (qp_nodes s), qp_changes := qp_changes s + 1\<rparr>)"
| deq_retry: "qp_threads s = add_mset (DSwap p i c y) T \<Longrightarrow> qp_FrontPtr s \<noteq> p \<or> qp_FrontID s \<noteq> i \<Longrightarrow>
    deq_step B M False s (s\<lparr>qp_threads := add_mset (DLoop (qp_FrontPtr s) (qp_FrontID s)) T\<rparr>)"
| deq_free: "qp_threads s = add_mset (DTook p x y) T \<Longrightarrow>
    deq_step B M False s (s\<lparr>qp_used := qp_used s - {p}, qp_threads := add_mset QAway T\<rparr>)"

definition queue_step :: "ptr set \<Rightarrow> nat \<Rightarrow> bool \<Rightarrow> 'a Queue \<Rightarrow> 'a Queue \<Rightarrow> bool" where
  "queue_step B M new s s' \<longleftrightarrow> enq_step B new s s' \<or> deq_step B M new s s'"

text \<open>The tags in the order they are drawn.\<close>

definition tag :: "nat \<Rightarrow> 64 word" where
  "tag k = word_of_int (KERNEL_ADDRESS + int k)"

text \<open>
  The blocks lie below \<^verbatim>\<open>KERNEL_ADDRESS\<close> and there are so few that the count stays in its
  range; blocks are constructed with a null \<^verbatim>\<open>_Next\<close>.
\<close>

definition queue_pool :: "ptr set \<Rightarrow> nat \<Rightarrow> bool" where
  "queue_pool B n \<longleftrightarrow> finite B \<and> card B + n < 2 ^ 31 - 1 \<and> (\<forall>b\<in>B. 0 <s b \<and> b <s word_of_int KERNEL_ADDRESS)"

definition queue_init :: "ptr set \<Rightarrow> nat \<Rightarrow> 'a Queue \<Rightarrow> bool" where
  "queue_init B n s \<longleftrightarrow> queue_pool B n \<and> (\<exists>f\<in>B. qp_FrontPtr s = f \<and> qp_RearPtr s = f \<and> qp_used s = {f} \<and>
       qp_Next s = (\<lambda>q. 0)(f := tag 0) \<and> qp_nodes s = [f] \<and> qp_home s (tag 0) = f) \<and>
     qp_FrontID s = 0 \<and> qp_RearID s = tag 0 \<and> qp_RearCk s = tag 0 \<and> qp_Count s = 0 \<and>
     qp_threads s = replicate_mset n QAway \<and> qp_list s = [] \<and> qp_changes s = 0 \<and> qp_tags s = 0 \<and> qp_shown s = {tag 0}"

section \<open>The invariant\<close>

text \<open>How many threads stand somewhere, and the node a thread owns.\<close>

definition tally :: "('a qpc \<Rightarrow> bool) \<Rightarrow> 'a qpc multiset \<Rightarrow> nat" where
  "tally P M = size (filter_mset P M)"

lemma tally_simps [simp]: "tally P {#} = 0" "tally P (add_mset q M) = (if P q then Suc (tally P M) else tally P M)"
  by (simp_all add: tally_def)

lemma consumers_tally: "consumers M = tally consumer M"
  by (simp add: consumers_def tally_def)

lemma tally_size: "tally P M \<le> size M"
  unfolding tally_def by (rule size_filter_mset_lesseq)

lemma tally_pos: "q \<in># M \<Longrightarrow> P q \<Longrightarrow> 0 < tally P M"
  by (metis multi_member_split tally_simps(2) zero_less_Suc)

fun qown :: "'a qpc \<Rightarrow> ptr multiset" where
  "qown (EData n x) = {#n#}"
| "qown (ENumber n x) = {#n#}"
| "qown (ETag n x t) = {#n#}"
| "qown (EReadPtr n x) = {#n#}"
| "qown (EReadID n x p) = {#n#}"
| "qown (ELink n x p i) = {#n#}"
| "qown (EHelp n x p i) = {#n#}"
| "qown (EHelpRead n x p i c) = {#n#}"
| "qown (EHelpSwap n x p i c d) = {#n#}"
| "qown (DTook p x y) = {#p#}"
| "qown _ = {#}"

definition qowned :: "'a qpc multiset \<Rightarrow> ptr multiset" where
  "qowned M = \<Sum>\<^sub># (image_mset qown M)"

lemma qowned_simps [simp]: "qowned {#} = {#}" "qowned (add_mset q M) = qown q + qowned M"
  by (simp_all add: qowned_def)

text \<open>The threads whose element is in the list and not yet in the count, and those that must correct the count.\<close>

fun pending :: "'a qpc \<Rightarrow> bool" where
  "pending (ELinked n p i) = True"
| "pending (ESwap n p i d) = True"
| "pending ECount = True"
| "pending _ = False"

fun lfq_refused :: "'a qpc \<Rightarrow> bool" where
  "lfq_refused DRefused = True"
| "lfq_refused _ = False"

text \<open>The thread that is about to move the rear from \<open>p\<close> with tag \<open>i\<close> to the node it has appended.\<close>

fun moves :: "'a qpc \<Rightarrow> ptr \<Rightarrow> ptr \<Rightarrow> 64 word \<Rightarrow> bool" where
  "moves (ELinked n p i) c p' i' = (n = c \<and> p = p' \<and> i = i')"
| "moves (ESwap n p i d) c p' i' = (n = c \<and> p = p' \<and> i = i')"
| "moves _ c p' i' = False"

text \<open>The nodes are linked in order and the last one holds a tag.\<close>

fun chain :: "(ptr \<Rightarrow> 64 word) \<Rightarrow> ptr list \<Rightarrow> bool" where
  "chain nx [] \<longleftrightarrow> False"
| "chain nx [p] \<longleftrightarrow> is_tag (nx p)"
| "chain nx (p # q # ms) \<longleftrightarrow> nx p = q \<and> chain nx (q # ms)"

definition mem_part :: "ptr set \<Rightarrow> 'a Queue \<Rightarrow> bool" where
  "mem_part B s \<longleftrightarrow> qp_used s \<subseteq> B \<and> (\<forall>q. qp_Next s q = 0 \<or> is_tag (qp_Next s q) \<or> qp_Next s q \<in> B) \<and>
     mset (qp_nodes s) + qowned (qp_threads s) = mset_set (qp_used s)"

definition line_part :: "'a Queue \<Rightarrow> bool" where
  "line_part s \<longleftrightarrow> chain (qp_Next s) (qp_nodes s) \<and> hd (qp_nodes s) = qp_FrontPtr s \<and>
     map (qp_Data s) (tl (qp_nodes s)) = qp_list s"

text \<open>
  The rear stands at the last node, with its tag beside it, or at the one before; then the thread
  that has appended the last node is still to move it.
\<close>

definition settled :: "'a Queue \<Rightarrow> bool" where
  "settled s \<longleftrightarrow> qp_RearPtr s = last (qp_nodes s) \<and> qp_RearCk s = qp_Next s (last (qp_nodes s))"

definition lagging :: "'a Queue \<Rightarrow> ptr \<Rightarrow> bool" where
  "lagging s c \<longleftrightarrow> (\<exists>ms. qp_nodes s = ms @ [qp_RearPtr s, c]) \<and>
     (\<exists>q\<in>#qp_threads s. moves q c (qp_RearPtr s) (qp_RearCk s))"

definition rear_part :: "'a Queue \<Rightarrow> bool" where
  "rear_part s \<longleftrightarrow> settled s \<or> (\<exists>c. lagging s c)"

text \<open>A tag is in one node only, and of the tags once shown beside the rear only the present one can still be in its node.\<close>

definition drawn :: "'a Queue \<Rightarrow> 64 word set" where
  "drawn s = tag ` {..qp_tags s}"

definition tag_part :: "'a Queue \<Rightarrow> bool" where
  "tag_part s \<longleftrightarrow> qp_RearID s = tag (qp_tags s) \<and> qp_shown s \<subseteq> drawn s \<and>
     qp_RearCk s \<in> qp_shown s \<and> qp_home s (qp_RearCk s) = qp_RearPtr s \<and>
     (\<forall>q. is_tag (qp_Next s q) \<longrightarrow> qp_home s (qp_Next s q) = q \<and> qp_Next s q \<in> drawn s) \<and>
     (\<forall>i\<in>qp_shown s. qp_Next s (qp_home s i) = i \<longrightarrow> i = qp_RearCk s)"

definition count_part :: "nat \<Rightarrow> 'a Queue \<Rightarrow> bool" where
  "count_part M s \<longleftrightarrow> (let T = qp_threads s; k = length (qp_list s) in
     tally consumer T + tally pending T \<le> k \<and> tally consumer T \<le> M \<and>
     qp_Count s = word_of_int (int k - int (tally consumer T) - int (tally pending T) - int (tally lfq_refused T)))"

text \<open>Who holds the newest identifier of the front knows that the front has not changed since.\<close>

definition recent :: "'a Queue \<Rightarrow> 64 word \<Rightarrow> bool \<Rightarrow> bool" where
  "recent s i now \<longleftrightarrow> (\<exists>c \<le> qp_changes s. i = of_nat c \<and> (c = qp_changes s \<longrightarrow> now))"

definition been :: "ptr set \<Rightarrow> 'a Queue \<Rightarrow> ptr \<Rightarrow> bool" where
  "been B s p \<longleftrightarrow> p \<in> B \<and> qp_Next s p \<noteq> 0"

definition at_rear :: "'a Queue \<Rightarrow> ptr \<Rightarrow> 64 word \<Rightarrow> bool" where
  "at_rear s p i \<longleftrightarrow> qp_RearPtr s = p \<and> qp_RearCk s = i"

definition at_front :: "nat \<Rightarrow> 'a Queue \<Rightarrow> ptr \<Rightarrow> 64 word \<Rightarrow> bool" where
  "at_front M s p i \<longleftrightarrow> (M = 1 \<longrightarrow> qp_FrontPtr s = p \<and> qp_FrontID s = i)"

fun qthread_ok :: "ptr set \<Rightarrow> nat \<Rightarrow> 'a Queue \<Rightarrow> 'a qpc \<Rightarrow> bool" where
  "qthread_ok B M s (ENumber n x) \<longleftrightarrow> qp_Data s n = x"
| "qthread_ok B M s (ETag n x t) \<longleftrightarrow> qp_Data s n = x \<and> t \<in> drawn s \<and> qp_home s t = n \<and> t \<notin> qp_shown s"
| "qthread_ok B M s (EReadPtr n x) \<longleftrightarrow> qp_Data s n = x \<and> is_tag (qp_Next s n)"
| "qthread_ok B M s (EReadID n x p) \<longleftrightarrow> qp_Data s n = x \<and> is_tag (qp_Next s n) \<and> been B s p \<and> p \<noteq> n"
| "qthread_ok B M s (ELink n x p i) \<longleftrightarrow> qp_Data s n = x \<and> is_tag (qp_Next s n) \<and> been B s p \<and> i \<in> qp_shown s"
| "qthread_ok B M s (EHelp n x p i) \<longleftrightarrow> qp_Data s n = x \<and> is_tag (qp_Next s n) \<and> been B s p \<and> i \<in> qp_shown s \<and>
     (at_rear s p i \<longrightarrow> \<not> is_tag (qp_Next s p))"
| "qthread_ok B M s (EHelpRead n x p i c) \<longleftrightarrow> qp_Data s n = x \<and> is_tag (qp_Next s n) \<and> c \<in> B \<and> i \<in> qp_shown s \<and>
     (at_rear s p i \<longrightarrow> qp_Next s p = c)"
| "qthread_ok B M s (EHelpSwap n x p i c d) \<longleftrightarrow> qp_Data s n = x \<and> is_tag (qp_Next s n) \<and> c \<in> B \<and> i \<in> qp_shown s \<and>
     (at_rear s p i \<longrightarrow> qp_Next s p = c \<and> qp_Next s c = d)"
| "qthread_ok B M s (ELinked n p i) \<longleftrightarrow> n \<in> B \<and> i \<in> qp_shown s \<and> (at_rear s p i \<longrightarrow> qp_Next s p = n)"
| "qthread_ok B M s (ESwap n p i d) \<longleftrightarrow> n \<in> B \<and> i \<in> qp_shown s \<and> (at_rear s p i \<longrightarrow> qp_Next s p = n \<and> qp_Next s n = d)"
| "qthread_ok B M s (DHalf p) \<longleftrightarrow> been B s p \<and> at_front M s p (qp_FrontID s)"
| "qthread_ok B M s (DLoop p i) \<longleftrightarrow> been B s p \<and> recent s i True \<and> at_front M s p i"
| "qthread_ok B M s (DData p i c) \<longleftrightarrow> c \<in> B \<and> recent s i (qp_FrontPtr s = p \<longrightarrow> qp_Next s p = c) \<and> at_front M s p i"
| "qthread_ok B M s (DSwap p i c y) \<longleftrightarrow> c \<in> B \<and> recent s i (qp_FrontPtr s = p \<longrightarrow> qp_Next s p = c \<and> qp_Data s c = y) \<and>
     at_front M s p i"
| "qthread_ok B M s (DTook p x y) \<longleftrightarrow> y = x"
| "qthread_ok B M s Crashed \<longleftrightarrow> False"
| "qthread_ok B M s BadRead \<longleftrightarrow> False"
| "qthread_ok B M s _ \<longleftrightarrow> True"

definition lfq_inv :: "ptr set \<Rightarrow> nat \<Rightarrow> 'a Queue \<Rightarrow> bool" where
  "lfq_inv B M s \<longleftrightarrow> mem_part B s \<and> line_part s \<and> rear_part s \<and> tag_part s \<and> count_part M s \<and>
     qp_FrontID s = of_nat (qp_changes s) \<and> (\<forall>q\<in>#qp_threads s. qthread_ok B M s q)"

text \<open>Room for the tags and for the identifiers of the front, counting those about to be drawn.\<close>

fun undrawn :: "'a qpc \<Rightarrow> bool" where
  "undrawn (EStart x) = True"
| "undrawn (EData n x) = True"
| "undrawn (ENumber n x) = True"
| "undrawn _ = False"

definition lfq_room :: "'a Queue \<Rightarrow> bool" where
  "lfq_room s \<longleftrightarrow> qp_tags s + tally undrawn (qp_threads s) < 2 ^ 63 - 2 ^ 43 \<and>
     qp_changes s + tally consumer (qp_threads s) < 2 ^ 64"

section \<open>What the invariant gives\<close>

lemma sint_KERNEL: "sint (word_of_int KERNEL_ADDRESS :: 64 word) = KERNEL_ADDRESS"
  by (simp add: KERNEL_ADDRESS_def)

lemma is_tag_0 [simp]: "\<not> is_tag 0"
  by (simp add: is_tag_def word_sle_eq sint_KERNEL KERNEL_ADDRESS_def)

lemma sint_tag: "k < 2 ^ 63 - 2 ^ 43 \<Longrightarrow> sint (tag k) = KERNEL_ADDRESS + int k"
proof -
  assume "k < 2 ^ 63 - 2 ^ 43"
  then have "- (2 ^ 63) \<le> KERNEL_ADDRESS + int k" "KERNEL_ADDRESS + int k < 2 ^ 63" by (simp_all add: KERNEL_ADDRESS_def)
  then show "sint (tag k) = KERNEL_ADDRESS + int k"
    unfolding tag_def by (simp only: signed_of_int) (simp add: signed_take_bit_int_eq_self)
qed

lemma is_tag_tag: "k < 2 ^ 63 - 2 ^ 43 \<Longrightarrow> is_tag (tag k)"
  by (simp add: is_tag_def word_sle_eq sint_KERNEL sint_tag)

lemma tag_inject: "j < 2 ^ 63 - 2 ^ 43 \<Longrightarrow> k < 2 ^ 63 - 2 ^ 43 \<Longrightarrow> tag j = tag k \<longleftrightarrow> j = k"
  by (metis add_left_cancel of_nat_eq_iff sint_tag)

lemma tag_Suc: "tag (Suc k) = tag k + 1"
  by (simp add: tag_def)

lemma tag_new: "k < 2 ^ 63 - 2 ^ 43 \<Longrightarrow> Suc k < 2 ^ 63 - 2 ^ 43 \<Longrightarrow> tag k + 1 \<notin> tag ` {..k}"
proof
  assume k: "k < 2 ^ 63 - 2 ^ 43" "Suc k < 2 ^ 63 - 2 ^ 43" and "tag k + 1 \<in> tag ` {..k}"
  then obtain j where j: "j \<le> k" "tag (Suc k) = tag j" by (auto simp: tag_Suc)
  then have "j < 2 ^ 63 - 2 ^ 43" using k(1) by linarith
  then show False using j tag_inject [OF k(2)] by simp
qed

lemma block_not_tag: "queue_pool B n \<Longrightarrow> b \<in> B \<Longrightarrow> \<not> is_tag b \<and> b \<noteq> 0"
  by (auto simp: queue_pool_def is_tag_def word_sless_alt word_sle_eq)

lemma drawn_tag: "lfq_room s \<Longrightarrow> t \<in> drawn s \<Longrightarrow> is_tag t"
  by (auto simp: drawn_def lfq_room_def intro: is_tag_tag)

lemma chain_not_Nil: "chain nx ms \<Longrightarrow> ms \<noteq> []"
  by auto

lemma chain_last: "chain nx ms \<Longrightarrow> is_tag (nx (last ms))"
  by (induction nx ms rule: chain.induct) auto

lemma chain_step: "chain nx (ms @ p # c # ks) \<Longrightarrow> nx p = c"
proof (induction ms)
  case (Cons m ms)
  then show ?case by (cases ms) auto
qed simp

lemma chain_cong: "(\<And>q. q \<in> set ms \<Longrightarrow> nx' q = nx q) \<Longrightarrow> chain nx' ms = chain nx ms"
  by (induction nx ms rule: chain.induct) auto

lemma chain_append:
  "chain nx ms \<Longrightarrow> distinct ms \<Longrightarrow> n \<notin> set ms \<Longrightarrow> is_tag (nx n) \<Longrightarrow> chain (nx(last ms := n)) (ms @ [n])"
proof (induction nx ms rule: chain.induct)
  case (3 nx p q ms)
  then have "p \<noteq> last (q # ms)" by (metis distinct.simps(2) last_in_set list.distinct(1))
  with 3 show ?case by auto
qed auto

lemma chain_tl: "chain nx (f # ms) \<Longrightarrow> ms \<noteq> [] \<Longrightarrow> nx f = hd ms \<and> chain nx ms"
  by (cases ms) auto

lemma qown_qowned: "q \<in># M \<Longrightarrow> n \<in># qown q \<Longrightarrow> n \<in># qowned M"
  by (metis UnI1 insert_DiffM qowned_simps(2) set_mset_union)

lemma mem_count: "mem_part B s \<Longrightarrow> count (mset (qp_nodes s)) n + count (qowned (qp_threads s)) n \<le> 1"
  unfolding mem_part_def by (metis count_mset_set' count_union order_refl zero_le_one)

lemma mem_distinct:
  assumes "mem_part B s"
  shows "distinct (qp_nodes s)"
proof -
  have c: "count (mset (qp_nodes s)) n \<le> 1" for n using mem_count [OF assms, of n] by linarith
  have "count (mset (qp_nodes s)) n = (if n \<in> set (qp_nodes s) then 1 else 0)" for n
  proof (cases "n \<in> set (qp_nodes s)")
    case True
    then have "count (mset (qp_nodes s)) n \<noteq> 0" by (simp add: count_mset_0_iff)
    with c [of n] have "count (mset (qp_nodes s)) n = 1" by linarith
    with True show ?thesis by simp
  next
    case False
    then show ?thesis by (simp add: count_mset_0_iff)
  qed
  then show ?thesis by (simp add: distinct_count_atmost_1)
qed

lemma mem_used:
  assumes "mem_part B s" and "n \<in># mset (qp_nodes s) + qowned (qp_threads s)"
  shows "n \<in> B"
proof -
  have "n \<in># mset_set (qp_used s)" using assms unfolding mem_part_def by simp
  then have "n \<in> qp_used s" by (cases "finite (qp_used s)") simp_all
  then show ?thesis using assms(1) unfolding mem_part_def by blast
qed

lemma mem_owned:
  assumes "mem_part B s" and "qp_threads s = add_mset q T" and "n \<in># qown q"
  shows "n \<notin> set (qp_nodes s)" "r \<in># T \<Longrightarrow> n \<notin># qown r" "n \<in> B"
proof -
  have "count (mset (qp_nodes s)) n + (count (qown q) n + count (qowned T) n) \<le> 1"
    using mem_count [OF assms(1), of n] assms(2) by simp
  moreover have "0 < count (qown q) n" using assms(3) by simp
  ultimately have "count (mset (qp_nodes s)) n = 0" "count (qowned T) n = 0" by linarith+
  then show "n \<notin> set (qp_nodes s)" "r \<in># T \<Longrightarrow> n \<notin># qown r"
    using qown_qowned [of r T n] by (simp add: count_mset_0_iff, metis count_eq_zero_iff)
  have "n \<in># mset (qp_nodes s) + qowned (qp_threads s)" using assms(2,3) by simp
  then show "n \<in> B" by (rule mem_used [OF assms(1)])
qed

lemma mem_not_owned:
  assumes "mem_part B s" and "r \<in># qp_threads s" and "n \<in> set (qp_nodes s)"
  shows "n \<notin># qown r"
proof -
  obtain T where "qp_threads s = add_mset r T" using assms(2) by (metis mset_add)
  then show ?thesis using mem_owned(1) [OF assms(1)] assms(3) by blast
qed

lemma mem_nodes: "mem_part B s \<Longrightarrow> n \<in> set (qp_nodes s) \<Longrightarrow> n \<in> B"
  by (rule mem_used [of B s]) simp_all

lemma inv_parts:
  assumes "lfq_inv B M s"
  shows "mem_part B s" "line_part s" "rear_part s" "tag_part s" "count_part M s"
    "qp_FrontID s = of_nat (qp_changes s)" "q \<in># qp_threads s \<Longrightarrow> qthread_ok B M s q"
    "distinct (qp_nodes s)" "chain (qp_Next s) (qp_nodes s)"
  using assms mem_distinct [of B s] by (simp_all add: lfq_inv_def line_part_def)

lemma front_in_nodes: "lfq_inv B M s \<Longrightarrow> qp_FrontPtr s \<in> set (qp_nodes s)"
  using inv_parts(2,9) [of B M s] chain_not_Nil by (metis line_part_def list.set_sel(1))

lemma rear_in_nodes: "lfq_inv B M s \<Longrightarrow> qp_RearPtr s \<in> set (qp_nodes s)"
  using inv_parts(3,9) [of B M s] chain_not_Nil [of "qp_Next s" "qp_nodes s"]
  by (auto simp: rear_part_def settled_def lagging_def)

lemma next_in_nodes: "chain nx ms \<Longrightarrow> q \<in> set ms \<Longrightarrow> \<not> is_tag (nx q) \<Longrightarrow> nx q \<in> set ms"
  by (induction nx ms rule: chain.induct) auto

lemma nodes_been: "lfq_inv B M s \<Longrightarrow> queue_pool B n \<Longrightarrow> q \<in> set (qp_nodes s) \<Longrightarrow> been B s q"
proof -
  assume a: "lfq_inv B M s" "queue_pool B n" "q \<in> set (qp_nodes s)"
  have "qp_Next s q \<noteq> 0"
  proof (cases "is_tag (qp_Next s q)")
    case False
    then have "qp_Next s q \<in> B" using mem_nodes [OF inv_parts(1) [OF a(1)]] next_in_nodes [OF inv_parts(9) [OF a(1)] a(3)] by blast
    then show ?thesis using block_not_tag [OF a(2)] by blast
  qed auto
  then show ?thesis using mem_nodes [OF inv_parts(1) [OF a(1)] a(3)] by (simp add: been_def)
qed

text \<open>The rear is at the last node, which holds a tag, or the node after it is known.\<close>

lemma rear_cases:
  assumes "lfq_inv B M s" "queue_pool B n"
  obtains "settled s" "is_tag (qp_Next s (qp_RearPtr s))"
  | c where "lagging s c" "qp_Next s (qp_RearPtr s) = c" "c \<in> set (qp_nodes s)" "last (qp_nodes s) = c"
      "\<not> is_tag (qp_Next s (qp_RearPtr s))" "is_tag (qp_Next s c)" "c \<noteq> qp_RearPtr s"
proof (cases "settled s")
  case True
  then show ?thesis using that(1) chain_last [OF inv_parts(9) [OF assms(1)]] by (simp add: settled_def)
next
  case False
  then obtain c where c: "lagging s c" using inv_parts(3) [OF assms(1)] by (auto simp: rear_part_def)
  then obtain ms where ms: "qp_nodes s = ms @ [qp_RearPtr s, c]" by (auto simp: lagging_def)
  have n: "qp_Next s (qp_RearPtr s) = c" using chain_step [of "qp_Next s" ms "qp_RearPtr s" c "[]"] inv_parts(9) [OF assms(1)] ms by simp
  moreover have "\<not> is_tag c" using mem_nodes [OF inv_parts(1) [OF assms(1)], of c] block_not_tag [OF assms(2)] ms by simp
  moreover have "is_tag (qp_Next s c)" using chain_last [OF inv_parts(9) [OF assms(1)]] ms by simp
  moreover have "c \<noteq> qp_RearPtr s" using inv_parts(8) [OF assms(1)] ms by auto
  ultimately show ?thesis using that(2) [OF c n] ms by simp
qed

lemma shown_drawn: "lfq_inv B M s \<Longrightarrow> i \<in> qp_shown s \<Longrightarrow> i \<in> drawn s"
  using inv_parts(4) [of B M s] by (auto simp: tag_part_def)

text \<open>Appending succeeds at the last node only, although pointer and tag may have been copied at different times.\<close>

lemma link_at_rear:
  assumes "lfq_inv B M s" "queue_pool B n" "lfq_room s" and "i \<in> qp_shown s" and "qp_Next s p = i"
  shows "p = qp_RearPtr s" "i = qp_RearCk s" "settled s"
proof -
  have t: "is_tag (qp_Next s p)" using drawn_tag [OF assms(3) shown_drawn [OF assms(1,4)]] assms(5) by simp
  have "tag_part s" by (rule inv_parts(4) [OF assms(1)])
  then have h: "qp_home s i = p" "i = qp_RearCk s" "qp_home s (qp_RearCk s) = qp_RearPtr s"
    using t assms(4,5) by (auto simp: tag_part_def)
  then show r: "p = qp_RearPtr s" "i = qp_RearCk s" by simp_all
  show "settled s" by (rule rear_cases [OF assms(1,2)]) (use t r in simp_all)
qed

section \<open>How the other threads fare\<close>

lemma others_same:
  assumes "qp_Data s' = qp_Data s" "qp_Next s' = qp_Next s" "qp_RearPtr s' = qp_RearPtr s" "qp_RearCk s' = qp_RearCk s"
    and "qp_FrontPtr s' = qp_FrontPtr s" "qp_FrontID s' = qp_FrontID s" "qp_shown s' = qp_shown s" "qp_home s' = qp_home s"
    and "qp_tags s' = qp_tags s" "qp_changes s' = qp_changes s"
  shows "qthread_ok B M s' q = qthread_ok B M s q"
  using assms by (cases q) (simp_all add: recent_def been_def at_rear_def at_front_def drawn_def)

lemma recent_mono: "recent s i now \<Longrightarrow> qp_changes s' = qp_changes s \<Longrightarrow> (now \<Longrightarrow> now') \<Longrightarrow> recent s' i now'"
  by (auto simp: recent_def)

lemma others_data:
  assumes inv: "lfq_inv B M s" "queue_pool B k" and r: "qthread_ok B M s r" and n: "n \<notin># qown r" "n \<notin> set (qp_nodes s)"
  shows "qthread_ok B M (s\<lparr>qp_Data := (qp_Data s)(n := x), qp_threads := U\<rparr>) r" (is "qthread_ok B M ?s' r")
proof -
  have d: "qp_FrontPtr s = p \<Longrightarrow> qp_Next s p = c \<Longrightarrow> c \<in> B \<Longrightarrow> c \<noteq> n" for p c
    using next_in_nodes [OF inv_parts(9) [OF inv(1)] front_in_nodes [OF inv(1)]] block_not_tag [OF inv(2)] n(2) by blast
  have "recent ?s' i (qp_FrontPtr s = p \<longrightarrow> qp_Next s p = c \<and> ((qp_Data s)(n := x)) c = y)"
    if "recent s i (qp_FrontPtr s = p \<longrightarrow> qp_Next s p = c \<and> qp_Data s c = y)" "c \<in> B" for i p c y
    by (rule recent_mono [OF that(1)]) (use d [of p c] that(2) in auto)
  then show ?thesis using r n(1) by (cases r) (auto simp: recent_def been_def at_rear_def at_front_def drawn_def)
qed

lemma others_tag:
  assumes inv: "lfq_inv B M s" "queue_pool B k" and r: "qthread_ok B M s r"
    and n: "n \<notin># qown r" "n \<notin> set (qp_nodes s)" and t: "t \<noteq> 0"
  shows "qthread_ok B M (s\<lparr>qp_Next := (qp_Next s)(n := t), qp_threads := U\<rparr>) r" (is "qthread_ok B M ?s' r")
proof -
  have nodes: "q \<noteq> n" if "q \<in> set (qp_nodes s)" for q using that n(2) by blast
  have nxt: "c \<noteq> n" if "p \<in> set (qp_nodes s)" "qp_Next s p = c" "c \<in> B" for p c
    using next_in_nodes [OF inv_parts(9) [OF inv(1)] that(1)] block_not_tag [OF inv(2) that(3)] that(2) n(2) by blast
  note f = nodes [OF front_in_nodes [OF inv(1)]] and re = nodes [OF rear_in_nodes [OF inv(1)]]
  have "recent ?s' i (qp_FrontPtr s = p \<longrightarrow> ((qp_Next s)(n := t)) p = c)"
    if "recent s i (qp_FrontPtr s = p \<longrightarrow> qp_Next s p = c)" for i p c
    by (rule recent_mono [OF that]) (use f in auto)
  moreover have "recent ?s' i (qp_FrontPtr s = p \<longrightarrow> ((qp_Next s)(n := t)) p = c \<and> qp_Data s c = y)"
    if "recent s i (qp_FrontPtr s = p \<longrightarrow> qp_Next s p = c \<and> qp_Data s c = y)" for i p c y
    by (rule recent_mono [OF that]) (use f in auto)
  moreover have "recent ?s' i True" if "recent s i True" for i by (rule recent_mono [OF that]) simp_all
  ultimately show ?thesis using r n(1) t re nxt [OF rear_in_nodes [OF inv(1)]]
    by (cases r) (auto simp: been_def at_rear_def at_front_def drawn_def)
qed

lemma others_link:
  assumes inv: "lfq_inv B M s" "queue_pool B k" and r: "qthread_ok B M s r"
    and p: "p = qp_RearPtr s" "settled s" "p \<notin># qown r" and n: "n \<in> B"
  shows "qthread_ok B M (s\<lparr>qp_Next := (qp_Next s)(p := n), qp_threads := U, qp_list := l, qp_nodes := ms\<rparr>) r"
    (is "qthread_ok B M ?s' r")
proof -
  have t: "is_tag (qp_Next s p)" using chain_last [OF inv_parts(9) [OF inv(1)]] p(1,2) by (simp add: settled_def)
  have ne: "qp_Next s p \<notin> B" using t block_not_tag [OF inv(2)] by blast
  have nn: "\<not> is_tag n" "n \<noteq> 0" using block_not_tag [OF inv(2) n] by auto
  have "recent ?s' i (qp_FrontPtr s = q \<longrightarrow> ((qp_Next s)(p := n)) q = c)"
    if "recent s i (qp_FrontPtr s = q \<longrightarrow> qp_Next s q = c)" "c \<in> B" for i q c
    by (rule recent_mono [OF that(1)]) (use ne that(2) in auto)
  moreover have "recent ?s' i (qp_FrontPtr s = q \<longrightarrow> ((qp_Next s)(p := n)) q = c \<and> qp_Data s c = y)"
    if "recent s i (qp_FrontPtr s = q \<longrightarrow> qp_Next s q = c \<and> qp_Data s c = y)" "c \<in> B" for i q c y
    by (rule recent_mono [OF that(1)]) (use ne that(2) in auto)
  moreover have "recent ?s' i True" if "recent s i True" for i by (rule recent_mono [OF that]) simp_all
  ultimately show ?thesis using r p(3) ne t nn unfolding p(1)
    by (cases r) (auto simp: been_def at_rear_def at_front_def drawn_def)
qed

lemma others_rear:
  assumes r: "qthread_ok B M s r" and d: "d \<notin> qp_shown s" "qp_home s d \<notin># qown r"
  shows "qthread_ok B M (s\<lparr>qp_RearPtr := c, qp_RearCk := d, qp_threads := U, qp_shown := insert d (qp_shown s)\<rparr>) r"
  using r d by (cases r) (auto simp: recent_def been_def at_rear_def at_front_def drawn_def)

lemma others_front:
  assumes r: "qthread_ok B M s r" "M = 1 \<Longrightarrow> \<not> consumer r"
  shows "qthread_ok B M (s\<lparr>qp_FrontPtr := c, qp_FrontID := j, qp_threads := U, qp_list := l, qp_nodes := ms,
    qp_changes := qp_changes s + 1\<rparr>) r" (is "qthread_ok B M ?s' r")
proof -
  have "recent ?s' i now'" if "recent s i now" for i now now' using that by (auto simp: recent_def intro: le_SucI)
  then show ?thesis using r by (cases r) (auto simp: been_def at_rear_def at_front_def drawn_def)
qed

lemma others_number:
  assumes r: "qthread_ok B M s r" and t: "t \<notin> drawn s"
  shows "qthread_ok B M (s\<lparr>qp_RearID := j, qp_threads := U, qp_tags := qp_tags s + 1, qp_home := (qp_home s)(t := n)\<rparr>) r"
  using r t by (cases r) (auto simp: recent_def been_def at_rear_def at_front_def drawn_def atMost_Suc)

section \<open>A step of one thread\<close>

lemma lfq_inv_step:
  assumes inv: "lfq_inv B M s" and T: "qp_threads s = add_mset q T" "qp_threads s' = add_mset q' T"
    and parts: "mem_part B s'" "line_part s'" "rear_part s'" "tag_part s'" "count_part M s'" "qp_FrontID s' = of_nat (qp_changes s')"
    and own: "qthread_ok B M s' q'"
    and others: "\<And>r. r \<in># T \<Longrightarrow> qthread_ok B M s r \<Longrightarrow> qthread_ok B M s' r"
  shows "lfq_inv B M s'"
  using assms by (simp add: lfq_inv_def)

text \<open>The parts that a step which only moves a thread leaves alone.\<close>

lemma rear_part_move:
  assumes "rear_part s" and T: "qp_threads s = add_mset q T"
    and m: "\<And>c. moves q c (qp_RearPtr s) (qp_RearCk s) \<Longrightarrow> moves q' c (qp_RearPtr s) (qp_RearCk s)"
    and same: "qp_threads s' = add_mset q' T" "qp_RearPtr s' = qp_RearPtr s" "qp_RearCk s' = qp_RearCk s"
      "qp_nodes s' = qp_nodes s" "qp_Next s' (last (qp_nodes s)) = qp_Next s (last (qp_nodes s))"
  shows "rear_part s'"
  using assms(1) m unfolding rear_part_def settled_def lagging_def T same
  by (metis insert_iff set_mset_add_mset_insert)

definition unit :: "('a qpc \<Rightarrow> bool) \<Rightarrow> 'a qpc \<Rightarrow> int" where
  "unit P q = (if P q then 1 else 0)"

lemma count_part_step:
  assumes c: "count_part M s" and T: "qp_threads s = add_mset q T" "qp_threads s' = add_mset q' T"
    and len: "int (length (qp_list s')) = int (length (qp_list s)) + e"
    and d: "qp_Count s' = qp_Count s + word_of_int d"
      "unit consumer q' + unit pending q' + unit lfq_refused q' + d = unit consumer q + unit pending q + unit lfq_refused q + e"
    and w: "unit consumer q' + unit pending q' \<le> unit consumer q + unit pending q + e \<or>
        tally consumer (qp_threads s') + tally pending (qp_threads s') \<le> length (qp_list s')"
      "unit consumer q' \<le> unit consumer q \<or> tally consumer (qp_threads s') \<le> M"
  shows "count_part M s'"
proof -
  let ?a = "\<lambda>P. int (tally P (qp_threads s))" and ?b = "\<lambda>P. int (tally P (qp_threads s'))"
  have t: "?b P = ?a P + unit P q' - unit P q" for P using T by (simp add: unit_def)
  have c': "?a consumer + ?a pending \<le> int (length (qp_list s))" "?a consumer \<le> int M"
    "qp_Count s = word_of_int (int (length (qp_list s)) - ?a consumer - ?a pending - ?a lfq_refused)"
    using c by (simp_all add: count_part_def Let_def)
  have "?b consumer + ?b pending \<le> int (length (qp_list s'))" "?b consumer \<le> int M"
    using c'(1,2) t [of consumer] t [of pending] len w by linarith+
  moreover have "int (length (qp_list s')) - ?b consumer - ?b pending - ?b lfq_refused =
      (int (length (qp_list s)) - ?a consumer - ?a pending - ?a lfq_refused) + d"
    using t [of consumer] t [of pending] t [of lfq_refused] len d(2) by linarith
  then have "qp_Count s' = word_of_int (int (length (qp_list s')) - ?b consumer - ?b pending - ?b lfq_refused)"
    using c'(3) d(1) by (simp only: of_int_add)
  ultimately show ?thesis by (simp add: count_part_def Let_def)
qed

lemma lfq_inv_move:
  assumes inv: "lfq_inv B M s" and T: "qp_threads s = add_mset q T"
    and own: "qown q' = qown q" "qthread_ok B M s q'"
    and m: "\<And>c. moves q c (qp_RearPtr s) (qp_RearCk s) \<Longrightarrow> moves q' c (qp_RearPtr s) (qp_RearCk s)"
    and d: "unit consumer q' + unit pending q' + unit lfq_refused q' + d = unit consumer q + unit pending q + unit lfq_refused q"
    and w: "unit consumer q' + unit pending q' \<le> unit consumer q + unit pending q \<and> unit consumer q' \<le> unit consumer q \<or>
      tally consumer (add_mset q' T) + tally pending (add_mset q' T) \<le> length (qp_list s) \<and> tally consumer (add_mset q' T) \<le> M"
  shows "lfq_inv B M (s\<lparr>qp_Count := qp_Count s + word_of_int d, qp_threads := add_mset q' T\<rparr>)" (is "lfq_inv B M ?s'")
proof (rule lfq_inv_step [OF inv T])
  show "mem_part B ?s'" using inv_parts(1) [OF inv] T own(1) by (simp add: mem_part_def)
  show "line_part ?s'" using inv_parts(2) [OF inv] by (simp add: line_part_def)
  show "rear_part ?s'" by (rule rear_part_move [OF inv_parts(3) [OF inv] T m]) simp_all
  show "tag_part ?s'" using inv_parts(4) [OF inv] by (simp add: tag_part_def drawn_def)
  show "count_part M ?s'" by (rule count_part_step [OF inv_parts(5) [OF inv] T, where e = 0 and d = d]) (use d w in auto)
  show "qthread_ok B M ?s' q'" using own(2) others_same [of ?s' s B M q'] by simp
  show "qthread_ok B M ?s' r" if "qthread_ok B M s r" for r using that others_same [of ?s' s B M r] by simp
qed (use inv_parts(6) [OF inv] in simp_all)

lemma lfq_inv_stay:
  assumes "lfq_inv B M s" and "qp_threads s = add_mset q T" and "qown q' = qown q" "qthread_ok B M s q'"
    and "\<And>c. moves q c (qp_RearPtr s) (qp_RearCk s) \<Longrightarrow> moves q' c (qp_RearPtr s) (qp_RearCk s)"
    and "consumer q' = consumer q" "pending q' = pending q" "lfq_refused q' = lfq_refused q"
  shows "lfq_inv B M (s\<lparr>qp_threads := add_mset q' T\<rparr>)"
proof -
  have "s\<lparr>qp_Count := qp_Count s + word_of_int 0, qp_threads := add_mset q' T\<rparr> = s\<lparr>qp_threads := add_mset q' T\<rparr>"
    by (cases s) simp
  then show ?thesis using lfq_inv_move [OF assms(1-5), of 0] assms(6-8) by (simp add: unit_def)
qed

section \<open>The steps of \<^verbatim>\<open>EnQ\<close>\<close>

lemma inv_head: "lfq_inv B M s \<Longrightarrow> qp_threads s = add_mset q T \<Longrightarrow> qthread_ok B M s q"
  by (simp add: lfq_inv_def)

lemma enq_alloc_inv:
  assumes inv: "lfq_inv B M s" "queue_pool B k" and T: "qp_threads s = add_mset (EStart x) T" and n: "n \<in> B" "n \<notin> qp_used s"
  shows "lfq_inv B M (s\<lparr>qp_used := insert n (qp_used s), qp_threads := add_mset (EData n x) T\<rparr>)" (is "lfq_inv B M ?s'")
proof (rule lfq_inv_step [OF inv(1) T, where q' = "EData n x"])
  have "finite (qp_used s)" using inv_parts(1) [OF inv(1)] inv(2) by (auto simp: mem_part_def queue_pool_def intro: finite_subset)
  then show "mem_part B ?s'" using inv_parts(1) [OF inv(1)] T n by (simp add: mem_part_def)
  show "line_part ?s'" using inv_parts(2) [OF inv(1)] by (simp add: line_part_def)
  show "rear_part ?s'" by (rule rear_part_move [OF inv_parts(3) [OF inv(1)] T, where q' = "EData n x"]) simp_all
  show "tag_part ?s'" using inv_parts(4) [OF inv(1)] by (simp add: tag_part_def drawn_def)
  show "count_part M ?s'" by (rule count_part_step [OF inv_parts(5) [OF inv(1)] T, where q' = "EData n x" and e = 0 and d = 0]) (simp_all add: unit_def)
  show "qthread_ok B M ?s' r" if "qthread_ok B M s r" for r using that others_same [of ?s' s B M r] by simp
qed (use inv_parts(6) [OF inv(1)] in simp_all)

lemma enq_data_inv:
  assumes inv: "lfq_inv B M s" "queue_pool B k" and T: "qp_threads s = add_mset (EData n x) T"
  shows "lfq_inv B M (s\<lparr>qp_Data := (qp_Data s)(n := x), qp_threads := add_mset (ENumber n x) T\<rparr>)" (is "lfq_inv B M ?s'")
proof (rule lfq_inv_step [OF inv(1) T, where q' = "ENumber n x"])
  have n: "n \<in># qown (EData n x)" by simp
  note o = mem_owned [OF inv_parts(1) [OF inv(1)] T n]
  show "mem_part B ?s'" using inv_parts(1) [OF inv(1)] T by (simp add: mem_part_def)
  have "n \<notin> set (tl (qp_nodes s))" using o(1) by (cases "qp_nodes s") simp_all
  then show "line_part ?s'" using inv_parts(2) [OF inv(1)] by (simp add: line_part_def)
  show "rear_part ?s'" by (rule rear_part_move [OF inv_parts(3) [OF inv(1)] T, where q' = "ENumber n x"]) simp_all
  show "tag_part ?s'" using inv_parts(4) [OF inv(1)] by (simp add: tag_part_def drawn_def)
  show "count_part M ?s'" by (rule count_part_step [OF inv_parts(5) [OF inv(1)] T, where q' = "ENumber n x" and e = 0 and d = 0]) (simp_all add: unit_def)
  show "qthread_ok B M ?s' r" if "r \<in># T" "qthread_ok B M s r" for r
    by (rule others_data [OF inv that(2) o(2) [OF that(1)] o(1)])
qed (use inv_parts(6) [OF inv(1)] in simp_all)

lemma enq_number_inv:
  assumes inv: "lfq_inv B M s" "queue_pool B k" "lfq_room s" and T: "qp_threads s = add_mset (ENumber n x) T"
  shows "lfq_inv B M (s\<lparr>qp_RearID := qp_RearID s + 1, qp_threads := add_mset (ETag n x (qp_RearID s + 1)) T,
      qp_tags := qp_tags s + 1, qp_home := (qp_home s)(qp_RearID s + 1 := n)\<rparr>)" (is "lfq_inv B M ?s'")
proof (rule lfq_inv_step [OF inv(1) T, where q' = "ETag n x (qp_RearID s + 1)"])
  let ?t = "qp_RearID s + 1"
  have tp: "tag_part s" by (rule inv_parts(4) [OF inv(1)])
  have lim: "qp_tags s < 2 ^ 63 - 2 ^ 43" "Suc (qp_tags s) < 2 ^ 63 - 2 ^ 43" using inv(3) T by (simp_all add: lfq_room_def)
  have new: "?t \<notin> drawn s" using tag_new [OF lim] tp by (simp add: tag_part_def drawn_def)
  have dr: "drawn ?s' = insert ?t (drawn s)" using tp by (simp add: drawn_def tag_part_def atMost_Suc tag_Suc)
  have ns: "?t \<notin> qp_shown s" using new tp by (auto simp: tag_part_def)
  show "mem_part B ?s'" using inv_parts(1) [OF inv(1)] T by (simp add: mem_part_def)
  show "line_part ?s'" using inv_parts(2) [OF inv(1)] by (simp add: line_part_def)
  show "rear_part ?s'" by (rule rear_part_move [OF inv_parts(3) [OF inv(1)] T, where q' = "ETag n x (qp_RearID s + 1)"]) simp_all
  have "qp_Next s q \<noteq> ?t" if "is_tag (qp_Next s q)" for q
  proof -
    have "qp_Next s q \<in> drawn s" using tp that by (simp add: tag_part_def)
    with new show ?thesis by metis
  qed
  moreover have "qp_RearCk s \<noteq> ?t" using tp ns by (simp add: tag_part_def) metis
  moreover have "i \<noteq> ?t" if "i \<in> qp_shown s" for i using ns that by blast
  ultimately show "tag_part ?s'" using tp unfolding tag_part_def dr by (simp add: tag_Suc) blast
  show "count_part M ?s'" by (rule count_part_step [OF inv_parts(5) [OF inv(1)] T, where q' = "ETag n x (qp_RearID s + 1)" and e = 0 and d = 0]) (simp_all add: unit_def)
  show "qthread_ok B M ?s' r" if "qthread_ok B M s r" for r by (rule others_number [OF that new])
  show "qthread_ok B M ?s' (ETag n x ?t)" using inv_head [OF inv(1) T] ns dr by simp
qed (use inv_parts(6) [OF inv(1)] in simp_all)

lemma enq_tag_inv:
  assumes inv: "lfq_inv B M s" "queue_pool B k" "lfq_room s" and T: "qp_threads s = add_mset (ETag n x t) T"
  shows "lfq_inv B M (s\<lparr>qp_Next := (qp_Next s)(n := t), qp_threads := add_mset (EReadPtr n x) T\<rparr>)" (is "lfq_inv B M ?s'")
proof (rule lfq_inv_step [OF inv(1) T, where q' = "EReadPtr n x"])
  have tp: "tag_part s" by (rule inv_parts(4) [OF inv(1)])
  have ok: "qp_Data s n = x" "t \<in> drawn s" "qp_home s t = n" "t \<notin> qp_shown s" using inv_head [OF inv(1) T] by simp_all
  have t: "is_tag t" by (rule drawn_tag [OF inv(3) ok(2)])
  then have t0: "t \<noteq> 0" by auto
  have n: "n \<in># qown (ETag n x t)" by simp
  note o = mem_owned [OF inv_parts(1) [OF inv(1)] T n]
  have last: "last (qp_nodes s) \<noteq> n" using o(1) chain_not_Nil [OF inv_parts(9) [OF inv(1)]] last_in_set by blast
  show "mem_part B ?s'" using inv_parts(1) [OF inv(1)] T t by (simp add: mem_part_def)
  have "chain ((qp_Next s)(n := t)) (qp_nodes s) = chain (qp_Next s) (qp_nodes s)" by (rule chain_cong) (use o(1) in auto)
  then show "line_part ?s'" using inv_parts(2) [OF inv(1)] by (simp add: line_part_def)
  show "rear_part ?s'" by (rule rear_part_move [OF inv_parts(3) [OF inv(1)] T, where q' = "EReadPtr n x"]) (use last in simp_all)
  show "tag_part ?s'" using tp ok t unfolding tag_part_def drawn_def by simp
  show "count_part M ?s'"
    by (rule count_part_step [OF inv_parts(5) [OF inv(1)] T, where q' = "EReadPtr n x" and e = 0 and d = 0]) (simp_all add: unit_def)
  show "qthread_ok B M ?s' r" if "r \<in># T" "qthread_ok B M s r" for r
    by (rule others_tag [OF inv(1,2) that(2) o(2) [OF that(1)] o(1) t0])
  show "qthread_ok B M ?s' (EReadPtr n x)" using ok t by simp
qed (use inv_parts(6) [OF inv(1)] in simp_all)

lemma enq_link_inv:
  assumes inv: "lfq_inv B M s" "queue_pool B k" "lfq_room s" and T: "qp_threads s = add_mset (ELink n x p i) T"
    and nx: "qp_Next s p = i"
  shows "lfq_inv B M (s\<lparr>qp_Next := (qp_Next s)(p := n), qp_threads := add_mset (ELinked n p i) T,
      qp_list := qp_list s @ [x], qp_nodes := qp_nodes s @ [n]\<rparr>)" (is "lfq_inv B M ?s'")
proof (rule lfq_inv_step [OF inv(1) T, where q' = "ELinked n p i"])
  have tp: "tag_part s" by (rule inv_parts(4) [OF inv(1)])
  have ok: "qp_Data s n = x" "is_tag (qp_Next s n)" "i \<in> qp_shown s" using inv_head [OF inv(1) T] by simp_all
  note at = link_at_rear [OF inv ok(3) nx]
  have n: "n \<in># qown (ELink n x p i)" by simp
  note o = mem_owned [OF inv_parts(1) [OF inv(1)] T n]
  note nt = block_not_tag [OF inv(2) o(3)]
  have ne: "qp_nodes s \<noteq> []" by (rule chain_not_Nil [OF inv_parts(9) [OF inv(1)]])
  have last: "last (qp_nodes s) = p" using at(1,3) by (simp add: settled_def)
  show "mem_part B ?s'" using inv_parts(1) [OF inv(1)] T o(3) by (simp add: mem_part_def)
  have "chain ((qp_Next s)(p := n)) (qp_nodes s @ [n])"
    using chain_append [OF inv_parts(9,8) [OF inv(1)] o(1) ok(2)] last by simp
  then show "line_part ?s'" using inv_parts(2) [OF inv(1)] ne ok(1) by (simp add: line_part_def)
  have "qp_nodes s @ [n] = butlast (qp_nodes s) @ [p, n]" using append_butlast_last_id [OF ne] last by simp
  then show "rear_part ?s'" using at by (auto simp: rear_part_def lagging_def)
  have "is_tag j" if "j \<in> qp_shown s" for j using drawn_tag [OF inv(3) shown_drawn [OF inv(1) that]] .
  then show "tag_part ?s'" using tp nt unfolding tag_part_def drawn_def by auto
  show "count_part M ?s'"
    by (rule count_part_step [OF inv_parts(5) [OF inv(1)] T, where q' = "ELinked n p i" and e = 1 and d = 0]) (simp_all add: unit_def)
  have p: "p \<in> set (qp_nodes s)" using last ne last_in_set by blast
  show "qthread_ok B M ?s' r" if "r \<in># T" "qthread_ok B M s r" for r
    by (rule others_link [OF inv(1,2) that(2) at(1,3) mem_not_owned [OF inv_parts(1) [OF inv(1)] _ p] o(3)])
      (use T that(1) in simp)
  show "qthread_ok B M ?s' (ELinked n p i)" using ok(3) o(3) by simp
qed (use inv_parts(6) [OF inv(1)] in simp_all)

text \<open>The rear moves to the last node.\<close>

lemma rear_move_inv:
  assumes inv: "lfq_inv B M s" "queue_pool B k" "lfq_room s" and T: "qp_threads s = add_mset q T"
    and at: "qp_Next s (qp_RearPtr s) = c" "qp_Next s c = d" "c \<in> B"
    and q': "qthread_ok B M s q'" "qown q' = qown q" "consumer q' = consumer q" "pending q' = pending q" "lfq_refused q' = lfq_refused q"
  shows "lfq_inv B M (s\<lparr>qp_RearPtr := c, qp_RearCk := d, qp_threads := add_mset q' T, qp_shown := insert d (qp_shown s)\<rparr>)"
    (is "lfq_inv B M ?s'")
proof (rule lfq_inv_step [OF inv(1) T, where q' = q'])
  have tp: "tag_part s" by (rule inv_parts(4) [OF inv(1)])
  have nt: "\<not> is_tag c" using block_not_tag [OF inv(2) at(3)] by simp
  have lag: "c \<in> set (qp_nodes s)" "last (qp_nodes s) = c" "is_tag d" "c \<noteq> qp_RearPtr s"
    by (rule rear_cases [OF inv(1,2)]; use at nt in auto)+
  have home: "qp_home s d = c" "d \<in> drawn s" using tp at(2) lag(3) by (auto simp: tag_part_def)
  have new: "d \<notin> qp_shown s"
  proof
    assume "d \<in> qp_shown s"
    then have "d = qp_RearCk s" using tp home(1) at(2) by (auto simp: tag_part_def)
    then show False using tp home(1) lag(4) by (simp add: tag_part_def)
  qed
  note owner = mem_not_owned [OF inv_parts(1) [OF inv(1)] _ lag(1)]
  show "mem_part B ?s'" using inv_parts(1) [OF inv(1)] T q'(2) by (simp add: mem_part_def)
  show "line_part ?s'" using inv_parts(2) [OF inv(1)] by (simp add: line_part_def)
  show "rear_part ?s'" using lag(2) at(2) by (simp add: rear_part_def settled_def)
  have "qp_RearCk s \<in> drawn s" using tp by (auto simp: tag_part_def)
  then have "qp_RearCk s \<noteq> c" using nt drawn_tag [OF inv(3)] by blast
  then show "tag_part ?s'" using tp home at unfolding tag_part_def drawn_def by simp metis
  show "count_part M ?s'"
    by (rule count_part_step [OF inv_parts(5) [OF inv(1)] T, where q' = q' and e = 0 and d = 0]) (use q' in \<open>simp_all add: unit_def\<close>)
  show "qthread_ok B M ?s' r" if "r \<in># T" "qthread_ok B M s r" for r
    by (rule others_rear [OF that(2) new]) (use home(1) owner [of r] T that(1) in simp)
  show "qthread_ok B M ?s' q'" by (rule others_rear [OF q'(1) new]) (use home(1) owner [of q] T q'(2) in simp)
qed (use inv_parts(6) [OF inv(1)] in simp_all)

lemma enq_step_inv:
  assumes inv: "lfq_inv B M s" "queue_pool B k" "lfq_room s" and step: "enq_step B new s s'"
  shows "lfq_inv B M s'"
  using step
proof cases
  case (enq_begin T x)
  show ?thesis unfolding enq_begin(2) by (rule lfq_inv_stay [OF inv(1) enq_begin(3)]) simp_all
next
  case (enq_alloc x T n)
  show ?thesis unfolding enq_alloc(2) by (rule enq_alloc_inv [OF inv(1,2) enq_alloc(3-5)])
next
  case (enq_data n x T)
  show ?thesis unfolding enq_data(2) by (rule enq_data_inv [OF inv(1,2) enq_data(3)])
next
  case (enq_number n x T)
  show ?thesis unfolding enq_number(2) by (rule enq_number_inv [OF inv enq_number(3)])
next
  case (enq_tag n x t T)
  show ?thesis unfolding enq_tag(2) by (rule enq_tag_inv [OF inv enq_tag(3)])
next
  case (enq_read_ptr n x T)
  have "qp_RearPtr s \<noteq> n"
    using mem_not_owned [OF inv_parts(1) [OF inv(1)] _ rear_in_nodes [OF inv(1)], of "EReadPtr n x"] enq_read_ptr(3) by simp
  then show ?thesis unfolding enq_read_ptr(2)
    using inv_head [OF inv(1) enq_read_ptr(3)] nodes_been [OF inv(1,2) rear_in_nodes [OF inv(1)]]
    by (intro lfq_inv_stay [OF inv(1) enq_read_ptr(3)]) simp_all
next
  case (enq_read_id n x p T)
  have "qp_RearCk s \<in> qp_shown s" using inv_parts(4) [OF inv(1)] by (simp add: tag_part_def)
  then show ?thesis unfolding enq_read_id(2)
    using inv_head [OF inv(1) enq_read_id(3)] by (intro lfq_inv_stay [OF inv(1) enq_read_id(3)]) simp_all
next
  case (enq_link n x p i T)
  show ?thesis unfolding enq_link(2) by (rule enq_link_inv [OF inv enq_link(3,5)])
next
  case (enq_link_fail n x p i T)
  have ok: "qthread_ok B M s (ELink n x p i)" by (rule inv_head [OF inv(1) enq_link_fail(3)])
  then have p: "p \<in> B" "qp_Next s p \<noteq> i" using enq_link_fail(4) by (simp_all add: been_def)
  have "\<not> is_tag (qp_Next s p)" if "at_rear s p i"
  proof
    assume t: "is_tag (qp_Next s p)"
    have "settled s" by (rule rear_cases [OF inv(1,2)]) (use t that in \<open>simp_all add: at_rear_def\<close>)
    then show False using p(2) that by (metis settled_def at_rear_def)
  qed
  then show ?thesis unfolding enq_link_fail(2) using ok p(1)
    by (intro lfq_inv_stay [OF inv(1) enq_link_fail(3)]) simp_all
next
  case (enq_help n x p i T c)
  have ok: "qthread_ok B M s (EHelp n x p i)" by (rule inv_head [OF inv(1) enq_help(3)])
  have "c \<in> B" if "\<not> is_tag c" using inv_parts(1) [OF inv(1)] ok that enq_help(4) by (auto simp: mem_part_def been_def)
  then show ?thesis unfolding enq_help(2) using ok enq_help(4)
    by (intro lfq_inv_stay [OF inv(1) enq_help(3)]) simp_all
next
  case (enq_help_read n x p i c T)
  have "qthread_ok B M s (EHelpRead n x p i c)" by (rule inv_head [OF inv(1) enq_help_read(3)])
  then show ?thesis unfolding enq_help_read(2)
    by (intro lfq_inv_stay [OF inv(1) enq_help_read(3)]) simp_all
next
  case (enq_help_swap n x p i c d T)
  have ok: "qthread_ok B M s (EHelpSwap n x p i c d)" by (rule inv_head [OF inv(1) enq_help_swap(3)])
  show ?thesis unfolding enq_help_swap(2)
    by (rule rear_move_inv [OF inv enq_help_swap(3)]) (use ok enq_help_swap(4,5) in \<open>simp_all add: at_rear_def\<close>)
next
  case (enq_help_late n x p i c d T)
  have "qthread_ok B M s (EHelpSwap n x p i c d)" by (rule inv_head [OF inv(1) enq_help_late(3)])
  then show ?thesis unfolding enq_help_late(2) by (intro lfq_inv_stay [OF inv(1) enq_help_late(3)]) simp_all
next
  case (enq_own_tag n p i T)
  have "qthread_ok B M s (ELinked n p i)" by (rule inv_head [OF inv(1) enq_own_tag(3)])
  then show ?thesis unfolding enq_own_tag(2) by (intro lfq_inv_stay [OF inv(1) enq_own_tag(3)]) simp_all
next
  case (enq_swap n p i d T)
  have ok: "qthread_ok B M s (ESwap n p i d)" by (rule inv_head [OF inv(1) enq_swap(3)])
  show ?thesis unfolding enq_swap(2)
    by (rule rear_move_inv [OF inv enq_swap(3)]) (use ok enq_swap(4,5) in \<open>simp_all add: at_rear_def\<close>)
next
  case (enq_swap_late n p i d T)
  then show ?thesis unfolding enq_swap_late(2) by (intro lfq_inv_stay [OF inv(1) enq_swap_late(3)]) auto
next
  case (enq_count T)
  have "s' = s\<lparr>qp_Count := qp_Count s + word_of_int 1, qp_threads := add_mset QAway T\<rparr>" using enq_count(2) by simp
  then show ?thesis using lfq_inv_move [OF inv(1) enq_count(3), of QAway 1] by (simp add: unit_def)
qed

section \<open>The steps of \<^verbatim>\<open>DeQ\<close>\<close>

text \<open>The count decides whether an element is left for this thread, as long as it is small.\<close>

lemma length_list: "lfq_inv B M s \<Longrightarrow> length (qp_list s) = length (tl (qp_nodes s))"
  using inv_parts(2) [of B M s] unfolding line_part_def by (metis length_map)

lemma nodes_few: "lfq_inv B M s \<Longrightarrow> queue_pool B n \<Longrightarrow> length (qp_nodes s) \<le> card B"
proof -
  assume a: "lfq_inv B M s" "queue_pool B n"
  have "card (set (qp_nodes s)) \<le> card B"
    using mem_nodes [OF inv_parts(1) [OF a(1)]] a(2) by (intro card_mono) (auto simp: queue_pool_def)
  then show ?thesis using distinct_card [OF inv_parts(8) [OF a(1)]] by simp
qed

lemma queue_count_left:
  assumes inv: "lfq_inv B M s" "queue_pool B n" and n: "size (qp_threads s) = n" and pos: "\<not> qp_Count s - 1 <s 0"
  shows "tally consumer (qp_threads s) + tally pending (qp_threads s) < length (qp_list s)"
proof -
  let ?t = "\<lambda>P. tally P (qp_threads s)"
  define v where "v = int (length (qp_list s)) - int (?t consumer) - int (?t pending) - int (?t lfq_refused) - 1"
  have c: "?t consumer + ?t pending \<le> length (qp_list s)" "qp_Count s - 1 = word_of_int v"
    using inv_parts(5) [OF inv(1)] by (simp_all add: count_part_def Let_def v_def)
  have "length (qp_list s) \<le> card B" using length_list [OF inv(1)] nodes_few [OF inv] by simp
  moreover have "?t lfq_refused \<le> n" using tally_size n by metis
  moreover have "card B + n < 2 ^ 31 - 1" using inv(2) by (simp add: queue_pool_def)
  ultimately have "- (2 ^ 31) \<le> v" "v < 2 ^ 31" using c(1) by (simp_all add: v_def)
  then have "sint (qp_Count s - 1) = v" using c(2) sint_LONG by simp
  with pos have "0 \<le> v" by (simp add: word_sless_alt)
  then show ?thesis by (simp add: v_def)
qed

text \<open>Who has been given a place in the count finds an element behind the dummy.\<close>

lemma waiting_nonempty:
  assumes inv: "lfq_inv B M s" and q: "q \<in># qp_threads s" "consumer q"
  obtains f c ms where "qp_nodes s = f # c # ms" "qp_FrontPtr s = f" "qp_Next s f = c" "qp_list s \<noteq> []"
    "chain (qp_Next s) (c # ms)"
proof -
  have "0 < tally consumer (qp_threads s)" using tally_pos q by blast
  moreover have "tally consumer (qp_threads s) + tally pending (qp_threads s) \<le> length (qp_list s)"
    using inv_parts(5) [OF inv] by (simp add: count_part_def Let_def)
  ultimately have l: "0 < length (qp_list s)" by linarith
  obtain f c ms where n: "qp_nodes s = f # c # ms"
    using l length_list [OF inv] by (cases "qp_nodes s"; cases "tl (qp_nodes s)") auto
  show ?thesis using that [OF n] l inv_parts(2,9) [OF inv] n by (simp add: line_part_def)
qed

lemma recent_now: "recent s (qp_FrontID s) now \<Longrightarrow> lfq_inv B M s \<Longrightarrow> lfq_room s \<Longrightarrow> now"
proof -
  assume a: "recent s (qp_FrontID s) now" "lfq_inv B M s" "lfq_room s"
  have l: "qp_changes s < 2 ^ 64" using a(3) by (simp add: lfq_room_def)
  obtain c where c: "c \<le> qp_changes s" "qp_FrontID s = of_nat c" "c = qp_changes s \<longrightarrow> now" using a(1) by (auto simp: recent_def)
  have "(of_nat c :: 64 word) = of_nat (qp_changes s)" using c(2) inv_parts(6) [OF a(2)] by simp
  then have "c = qp_changes s" using le_less_trans [OF c(1) l] l by (simp add: word_unat_eq_iff unat_of_nat)
  then show now using c(3) by simp
qed

lemma other_consumers: "lfq_inv B M s \<Longrightarrow> qp_threads s = add_mset q T \<Longrightarrow> consumer q \<Longrightarrow> M = 1 \<Longrightarrow> r \<in># T \<Longrightarrow> \<not> consumer r"
proof
  assume a: "lfq_inv B M s" "qp_threads s = add_mset q T" "consumer q" "M = 1" "r \<in># T" "consumer r"
  have "tally consumer (qp_threads s) \<le> 1" using inv_parts(5) [OF a(1)] a(4) by (simp add: count_part_def Let_def)
  moreover have "0 < tally consumer T" using tally_pos a(5,6) by blast
  ultimately show False using a(2,3) by simp
qed

lemma deq_swap_inv:
  assumes inv: "lfq_inv B M s" "queue_pool B k" "lfq_room s" and T: "qp_threads s = add_mset (DSwap p i c y) T"
    and at: "qp_FrontPtr s = p" "qp_FrontID s = i"
  shows "lfq_inv B M (s\<lparr>qp_FrontPtr := c, qp_FrontID := i + 1, qp_threads := add_mset (DTook p (hd (qp_list s)) y) T,
      qp_list := tl (qp_list s), qp_nodes := tl (qp_nodes s), qp_changes := qp_changes s + 1\<rparr>)" (is "lfq_inv B M ?s'")
proof (rule lfq_inv_step [OF inv(1) T, where q' = "DTook p (hd (qp_list s)) y"])
  have "qthread_ok B M s (DSwap p i c y)" by (rule inv_head [OF inv(1) T])
  then have "recent s (qp_FrontID s) (qp_FrontPtr s = p \<longrightarrow> qp_Next s p = c \<and> qp_Data s c = y)" using at by simp
  from recent_now [OF this inv(1,3)] have nx: "qp_Next s p = c" "qp_Data s c = y" using at(1) by auto
  have "DSwap p i c y \<in># qp_threads s" using T by simp
  then obtain ms where ms: "qp_nodes s = p # c # ms" "qp_list s \<noteq> []" "chain (qp_Next s) (c # ms)"
    by (rule waiting_nonempty [OF inv(1)]) (use at nx in auto)
  have l: "qp_list s = qp_Data s c # map (qp_Data s) ms" using inv_parts(2) [OF inv(1)] ms(1) by (simp add: line_part_def)
  show "mem_part B ?s'" using inv_parts(1) [OF inv(1)] T ms(1) by (simp add: mem_part_def)
  show "line_part ?s'" using ms l by (simp add: line_part_def)
  show "rear_part ?s'"
  proof (cases "settled s")
    case True
    then show ?thesis using ms(1) by (simp add: rear_part_def settled_def)
  next
    case False
    then obtain e where e: "lagging s e" using inv_parts(3) [OF inv(1)] by (auto simp: rear_part_def)
    then obtain ks q where ks: "qp_nodes s = ks @ [qp_RearPtr s, e]" and q: "q \<in># qp_threads s" "moves q e (qp_RearPtr s) (qp_RearCk s)"
      by (auto simp: lagging_def)
    have "pending q" using q(2) by (cases q) simp_all
    then have "0 < tally pending (qp_threads s)" using tally_pos q(1) by blast
    moreover have "tally consumer (qp_threads s) + tally pending (qp_threads s) \<le> length (qp_list s)" "0 < tally consumer (qp_threads s)"
      using inv_parts(5) [OF inv(1)] T by (simp_all add: count_part_def Let_def)
    ultimately have "2 \<le> length (qp_list s)" by linarith
    then have "ks \<noteq> []" using ks ms(1) l by auto
    then have "tl (qp_nodes s) = tl ks @ [qp_RearPtr s, e]" using ks by simp
    moreover have "q \<in># T" using q T by auto
    ultimately have "lagging ?s' e" using q(2) by (auto simp: lagging_def)
    then show ?thesis by (auto simp: rear_part_def)
  qed
  show "tag_part ?s'" using inv_parts(4) [OF inv(1)] by (simp add: tag_part_def drawn_def)
  show "count_part M ?s'"
    by (rule count_part_step [OF inv_parts(5) [OF inv(1)] T, where q' = "DTook p (hd (qp_list s)) y" and e = "- 1" and d = 0])
      (use l in \<open>simp_all add: unit_def\<close>)
  show "qthread_ok B M ?s' r" if "r \<in># T" "qthread_ok B M s r" for r
    by (rule others_front [OF that(2)]) (use other_consumers [OF inv(1) T _ _ that(1)] in simp)
  show "qthread_ok B M ?s' (DTook p (hd (qp_list s)) y)" using nx l by simp
  show "qp_FrontID ?s' = of_nat (qp_changes ?s')" using inv_parts(6) [OF inv(1)] at by simp
qed simp

lemma deq_free_inv:
  assumes inv: "lfq_inv B M s" "queue_pool B k" and T: "qp_threads s = add_mset (DTook p x y) T"
  shows "lfq_inv B M (s\<lparr>qp_used := qp_used s - {p}, qp_threads := add_mset QAway T\<rparr>)" (is "lfq_inv B M ?s'")
proof (rule lfq_inv_step [OF inv(1) T, where q' = QAway])
  have m: "mem_part B s" by (rule inv_parts(1) [OF inv(1)])
  have fin: "finite (qp_used s)" using m inv(2) by (auto simp: mem_part_def queue_pool_def intro: finite_subset)
  have e: "mset_set (qp_used s) = add_mset p (mset (qp_nodes s) + qowned T)" using m T by (simp add: mem_part_def)
  then have "p \<in># mset_set (qp_used s)" by simp
  then have "mset_set (qp_used s - {p}) = mset_set (qp_used s) - {#p#}" using fin by (simp add: mset_set_Diff)
  then show "mem_part B ?s'" using m e by (auto simp: mem_part_def)
  show "line_part ?s'" using inv_parts(2) [OF inv(1)] by (simp add: line_part_def)
  show "rear_part ?s'" by (rule rear_part_move [OF inv_parts(3) [OF inv(1)] T, where q' = QAway]) simp_all
  show "tag_part ?s'" using inv_parts(4) [OF inv(1)] by (simp add: tag_part_def drawn_def)
  show "count_part M ?s'"
    by (rule count_part_step [OF inv_parts(5) [OF inv(1)] T, where q' = QAway and e = 0 and d = 0]) (simp_all add: unit_def)
  show "qthread_ok B M ?s' r" if "qthread_ok B M s r" for r using that others_same [of ?s' s B M r] by simp
qed (use inv_parts(6) [OF inv(1)] in simp_all)

lemma deq_step_inv:
  assumes inv: "lfq_inv B M s" "queue_pool B n" "lfq_room s" and n: "size (qp_threads s) = n" and step: "deq_step B M new s s'"
  shows "lfq_inv B M s'"
  using step
proof cases
  case (deq_begin T)
  let ?q = "if qp_Count s - 1 <s 0 then DRefused else DReserved"
  have "s' = s\<lparr>qp_Count := qp_Count s + word_of_int (- 1), qp_threads := add_mset ?q T\<rparr>" using deq_begin(2) by simp
  moreover have "lfq_inv B M (s\<lparr>qp_Count := qp_Count s + word_of_int (- 1), qp_threads := add_mset ?q T\<rparr>)"
    by (rule lfq_inv_move [OF inv(1) deq_begin(3)])
      (use queue_count_left [OF inv(1,2) n] deq_begin(3,4) in \<open>auto simp: unit_def consumers_tally\<close>)
  ultimately show ?thesis by simp
next
  case (deq_refuse T)
  have "s' = s\<lparr>qp_Count := qp_Count s + word_of_int 1, qp_threads := add_mset QAway T\<rparr>" using deq_refuse(2) by simp
  then show ?thesis using lfq_inv_move [OF inv(1) deq_refuse(3), of QAway 1] by (simp add: unit_def)
next
  case (deq_read_ptr T)
  show ?thesis unfolding deq_read_ptr(2)
    by (rule lfq_inv_stay [OF inv(1) deq_read_ptr(3)]) (use nodes_been [OF inv(1,2) front_in_nodes [OF inv(1)]] in \<open>simp_all add: at_front_def\<close>)
next
  case (deq_read_id p T)
  have ok: "qthread_ok B M s (DHalf p)" by (rule inv_head [OF inv(1) deq_read_id(3)])
  have "recent s (qp_FrontID s) True" using inv_parts(6) [OF inv(1)] by (auto simp: recent_def)
  then show ?thesis unfolding deq_read_id(2) using ok
    by (intro lfq_inv_stay [OF inv(1) deq_read_id(3)]) simp_all
next
  case (deq_next p i T c)
  have ok: "qthread_ok B M s (DLoop p i)" by (rule inv_head [OF inv(1) deq_next(3)])
  have "c \<in> B" if "\<not> is_tag c" using inv_parts(1) [OF inv(1)] ok that deq_next(4) by (auto simp: mem_part_def been_def)
  moreover have "recent s i (qp_FrontPtr s = p \<longrightarrow> qp_Next s p = c)" by (rule recent_mono [of s i True]) (use ok deq_next(4) in simp_all)
  ultimately show ?thesis unfolding deq_next(2) using ok
    by (intro lfq_inv_stay [OF inv(1) deq_next(3)]) (auto simp: been_def)
next
  case (deq_data p i c T)
  have ok: "qthread_ok B M s (DData p i c)" by (rule inv_head [OF inv(1) deq_data(3)])
  then have "recent s i (qp_FrontPtr s = p \<longrightarrow> qp_Next s p = c \<and> qp_Data s c = qp_Data s c)" by simp
  then show ?thesis unfolding deq_data(2) using ok
    by (intro lfq_inv_stay [OF inv(1) deq_data(3)]) simp_all
next
  case (deq_swap p i c y T)
  show ?thesis unfolding deq_swap(2) by (rule deq_swap_inv [OF inv deq_swap(3-5)])
next
  case (deq_retry p i c y T)
  have "recent s (qp_FrontID s) True" using inv_parts(6) [OF inv(1)] by (auto simp: recent_def)
  then show ?thesis unfolding deq_retry(2) using nodes_been [OF inv(1,2) front_in_nodes [OF inv(1)]]
    by (intro lfq_inv_stay [OF inv(1) deq_retry(3)]) (simp_all add: at_front_def)
next
  case (deq_free p x y T)
  show ?thesis unfolding deq_free(2) by (rule deq_free_inv [OF inv(1,2) deq_free(3)])
qed

section \<open>All interleavings\<close>

definition any_queue_step :: "ptr set \<Rightarrow> nat \<Rightarrow> 'a Queue \<Rightarrow> 'a Queue \<Rightarrow> bool" where
  "any_queue_step B M s s' \<longleftrightarrow> (\<exists>new. queue_step B M new s s')"

lemma queue_stepI: "enq_step B new s s' \<Longrightarrow> queue_step B M new s s'" "deq_step B M new s s' \<Longrightarrow> queue_step B M new s s'"
  by (simp_all add: queue_step_def)

lemma enq_step_due: "enq_step B new s s' \<Longrightarrow> size (qp_threads s') = size (qp_threads s) \<and>
    qp_tags s \<le> qp_tags s' \<and> qp_changes s \<le> qp_changes s'"
  by (erule enq_step.cases) simp_all

lemma deq_step_due: "deq_step B M new s s' \<Longrightarrow> size (qp_threads s') = size (qp_threads s) \<and>
    qp_tags s \<le> qp_tags s' \<and> qp_changes s \<le> qp_changes s'"
  by (erule deq_step.cases) simp_all

lemma queue_step_due: "queue_step B M new s s' \<Longrightarrow> size (qp_threads s') = size (qp_threads s) \<and>
    qp_tags s \<le> qp_tags s' \<and> qp_changes s \<le> qp_changes s'"
  using enq_step_due deq_step_due unfolding queue_step_def by blast

lemma lfq_room_n:
  "size (qp_threads s) = n \<Longrightarrow> qp_tags s + n < 2 ^ 63 - 2 ^ 43 \<Longrightarrow> qp_changes s + n < 2 ^ 64 \<Longrightarrow> lfq_room s"
  using tally_size [of undrawn "qp_threads s"] tally_size [of consumer "qp_threads s"] by (simp add: lfq_room_def)

lemma queue_step_inv:
  assumes "lfq_inv B M s" "queue_pool B n" "lfq_room s" "size (qp_threads s) = n" and "queue_step B M new s s'"
  shows "lfq_inv B M s'"
  using assms(5) enq_step_inv [OF assms(1-3)] deq_step_inv [OF assms(1-4)] unfolding queue_step_def by blast

definition lfq_inv_n :: "ptr set \<Rightarrow> nat \<Rightarrow> nat \<Rightarrow> 'a Queue \<Rightarrow> bool" where
  "lfq_inv_n B M n s \<longleftrightarrow> queue_pool B n \<and> size (qp_threads s) = n \<and>
     (qp_tags s + n < 2 ^ 63 - 2 ^ 43 \<and> qp_changes s + n < 2 ^ 64 \<longrightarrow> lfq_inv B M s)"

lemma tally_none: "\<not> P QAway \<Longrightarrow> tally P (replicate_mset n QAway) = 0" "qowned (replicate_mset n QAway) = {#}"
  by (induction n) simp_all

lemma queue_init_inv: "queue_init B n s \<Longrightarrow> lfq_inv B M s" for s :: "'a Queue"
proof -
  assume i: "queue_init B n s"
  then obtain f where f: "f \<in> B" "qp_FrontPtr s = f" "qp_RearPtr s = f" "qp_used s = {f}" "qp_Next s = (\<lambda>q. 0)(f := tag 0)"
      "qp_nodes s = [f]" "qp_home s (tag 0) = f" by (auto simp: queue_init_def)
  have s: "qp_FrontID s = 0" "qp_RearID s = tag 0" "qp_RearCk s = tag 0" "qp_Count s = 0" "qp_threads s = replicate_mset n QAway"
      "qp_list s = []" "qp_changes s = 0" "qp_tags s = 0" "qp_shown s = {tag 0}"
    using i by (simp_all add: queue_init_def)
  have t: "is_tag (tag 0)" by (rule is_tag_tag) simp
  have "mem_part B s" using f s t tally_none by (simp add: mem_part_def)
  moreover have "line_part s" using f s t by (simp add: line_part_def)
  moreover have "rear_part s" using f s by (simp add: rear_part_def settled_def)
  moreover have "tag_part s" using f s by (simp add: tag_part_def drawn_def)
  moreover have "count_part M s" using s by (simp add: count_part_def Let_def tally_none)
  ultimately show ?thesis using s by (simp add: lfq_inv_def)
qed

interpretation queue_protocol: inductive_invariant "queue_init B n" "any_queue_step B M" "lfq_inv_n B M n"
proof unfold_locales
  show "lfq_inv_n B M n s" if "queue_init B n s" for s :: "'a Queue"
    using that queue_init_inv [of B n s M] by (simp add: lfq_inv_n_def) (simp add: queue_init_def)
  show "lfq_inv_n B M n s'" if i: "lfq_inv_n B M n s" and a: "any_queue_step B M s s'" for s s' :: "'a Queue"
  proof -
    obtain new where st: "queue_step B M new s s'" using a by (auto simp: any_queue_step_def)
    note d = queue_step_due [OF st]
    have "lfq_inv B M s'" if "qp_tags s' + n < 2 ^ 63 - 2 ^ 43" "qp_changes s' + n < 2 ^ 64"
    proof -
      have b: "qp_tags s + n < 2 ^ 63 - 2 ^ 43" "qp_changes s + n < 2 ^ 64" using that d by linarith+
      then have r: "lfq_inv B M s" "queue_pool B n" "size (qp_threads s) = n" using i by (simp_all add: lfq_inv_n_def)
      show ?thesis by (rule queue_step_inv [OF r(1,2) lfq_room_n [OF r(3) b] r(3) st])
    qed
    then show ?thesis using i d by (simp add: lfq_inv_n_def)
  qed
qed

lemma queue_reachable_inv:
  assumes "reachable (queue_init B n) (any_queue_step B M) s"
    and "qp_tags s + n < 2 ^ 63 - 2 ^ 43" "qp_changes s + n < 2 ^ 64"
  shows "lfq_inv B M s" "queue_pool B n" "size (qp_threads s) = n" "lfq_room s"
proof -
  have "lfq_inv_n B M n s" by (rule queue_protocol.inv_reachable [OF assms(1)])
  then show "lfq_inv B M s" "queue_pool B n" and z: "size (qp_threads s) = n" using assms(2,3) by (simp_all add: lfq_inv_n_def)
  show "lfq_room s" by (rule lfq_room_n [OF z assms(2,3)])
qed

text \<open>What a step does to the list the queue stands for.\<close>

lemma queue_step_list:
  assumes inv: "lfq_inv B M s" "lfq_room s" and step: "queue_step B M new s s'"
  shows "qp_list s' = qp_list s \<or>
    (\<exists>n x p i. ELink n x p i \<in># qp_threads s \<and> qp_list s' = qp_list s @ [x]) \<or>
    (\<exists>p i c x y. DSwap p i c y \<in># qp_threads s \<and> qp_list s = x # qp_list s' \<and> DTook p x y \<in># qp_threads s')"
  using step unfolding queue_step_def
proof (elim disjE)
  assume "enq_step B new s s'"
  then show ?thesis by cases auto
next
  assume "deq_step B M new s s'"
  then show ?thesis
  proof cases
    case (deq_swap p i c y T)
    have "DSwap p i c y \<in># qp_threads s" using deq_swap(3) by simp
    moreover from this have "qp_list s \<noteq> []" by (rule waiting_nonempty [OF inv(1)]) simp_all
    then have "qp_list s = hd (qp_list s) # qp_list s'" using deq_swap(2) by simp
    moreover have "DTook p (hd (qp_list s)) y \<in># qp_threads s'" using deq_swap(2) by simp
    ultimately show ?thesis by blast
  qed simp_all
qed

end
