(* ===== verification/QueueRuns.thy ===== *)
theory QueueRuns
  imports QueueProtocol
begin

text \<open>
  What the invariant of QueueProtocol gives: the safety of the lock free queue under all
  interleavings, that every call ends while one thread at a time takes, and an interleaving of two
  takers after which one of them reads a stale front for ever.
\<close>

section \<open>A thread running alone\<close>

abbreviation runs :: "ptr set \<Rightarrow> nat \<Rightarrow> 'a Queue \<Rightarrow> 'a Queue \<Rightarrow> bool" where
  "runs B M \<equiv> (any_queue_step B M)\<^sup>*\<^sup>*"

lemma any_enq: "enq_step B new s s' \<Longrightarrow> s' = t \<Longrightarrow> any_queue_step B M s t"
  by (auto simp: any_queue_step_def intro: queue_stepI)

lemma any_deq: "deq_step B M new s s' \<Longrightarrow> s' = t \<Longrightarrow> any_queue_step B M s t"
  by (auto simp: any_queue_step_def intro: queue_stepI)

text \<open>\<open>EnQ\<close> up to its first exchange, and the rest when nobody interferes.\<close>

lemma enq_upto_link:
  assumes "qp_threads s = add_mset QAway T" and "\<not> qp_Max s <s qp_Count s" and "n \<in> B" "n \<notin> qp_used s" and "qp_RearPtr s \<noteq> n"
  shows "runs B M s (s\<lparr>qp_RearID := qp_RearID s + 1, qp_Data := (qp_Data s)(n := x), qp_Next := (qp_Next s)(n := qp_RearID s + 1),
    qp_used := insert n (qp_used s), qp_threads := add_mset (ELink n x (qp_RearPtr s) (qp_RearCk s)) T,
    qp_tags := qp_tags s + 1, qp_home := (qp_home s)(qp_RearID s + 1 := n)\<rparr>)"
proof -
  let ?t = "qp_RearID s + 1"
  let ?s1 = "s\<lparr>qp_threads := add_mset (EStart x) T\<rparr>"
  let ?s2 = "s\<lparr>qp_used := insert n (qp_used s), qp_threads := add_mset (EData n x) T\<rparr>"
  let ?s3 = "s\<lparr>qp_Data := (qp_Data s)(n := x), qp_used := insert n (qp_used s), qp_threads := add_mset (ENumber n x) T\<rparr>"
  let ?s4 = "s\<lparr>qp_RearID := ?t, qp_Data := (qp_Data s)(n := x), qp_used := insert n (qp_used s),
    qp_threads := add_mset (ETag n x ?t) T, qp_tags := qp_tags s + 1, qp_home := (qp_home s)(?t := n)\<rparr>"
  let ?s5 = "\<lambda>q. s\<lparr>qp_RearID := ?t, qp_Data := (qp_Data s)(n := x), qp_Next := (qp_Next s)(n := ?t), qp_used := insert n (qp_used s),
    qp_threads := add_mset q T, qp_tags := qp_tags s + 1, qp_home := (qp_home s)(?t := n)\<rparr>"
  have "any_queue_step B M s ?s1" by (rule any_enq [OF enq_begin [OF assms(1)]]) (use assms(2) in simp)
  moreover have "any_queue_step B M ?s1 ?s2" by (rule any_enq [OF enq_alloc [of ?s1 x T n]]) (use assms(3,4) in simp_all)
  moreover have "any_queue_step B M ?s2 ?s3" by (rule any_enq [OF enq_data [of ?s2 n x T]]) simp_all
  moreover have "any_queue_step B M ?s3 ?s4" by (rule any_enq [OF enq_number [of ?s3 n x T]]) simp_all
  moreover have "any_queue_step B M ?s4 (?s5 (EReadPtr n x))" by (rule any_enq [OF enq_tag [of ?s4 n x ?t T]]) simp_all
  moreover have "any_queue_step B M (?s5 (EReadPtr n x)) (?s5 (EReadID n x (qp_RearPtr s)))"
    by (rule any_enq [OF enq_read_ptr [of "?s5 (EReadPtr n x)" n x T]]) simp_all
  moreover have "any_queue_step B M (?s5 (EReadID n x (qp_RearPtr s))) (?s5 (ELink n x (qp_RearPtr s) (qp_RearCk s)))"
    by (rule any_enq [OF enq_read_id [of "?s5 (EReadID n x (qp_RearPtr s))" n x "qp_RearPtr s" T]]) (use assms(5) in simp_all)
  ultimately show ?thesis by (meson rtranclp.rtrancl_into_rtrancl rtranclp.rtrancl_refl)
qed

lemma enq_from_link:
  assumes "qp_threads s = add_mset (ELink n x p i) T" and "p \<in> B" and "qp_Next s p = i" and "qp_RearPtr s = p" "qp_RearCk s = i" "p \<noteq> n"
  shows "runs B M s (s\<lparr>qp_RearPtr := n, qp_RearCk := qp_Next s n, qp_Count := qp_Count s + 1, qp_Next := (qp_Next s)(p := n),
    qp_threads := add_mset QAway T, qp_list := qp_list s @ [x], qp_nodes := qp_nodes s @ [n], qp_shown := insert (qp_Next s n) (qp_shown s)\<rparr>)"
proof -
  let ?s1 = "\<lambda>q. s\<lparr>qp_Next := (qp_Next s)(p := n), qp_threads := add_mset q T, qp_list := qp_list s @ [x], qp_nodes := qp_nodes s @ [n]\<rparr>"
  let ?s2 = "s\<lparr>qp_RearPtr := n, qp_RearCk := qp_Next s n, qp_Next := (qp_Next s)(p := n),
    qp_threads := add_mset ECount T, qp_list := qp_list s @ [x], qp_nodes := qp_nodes s @ [n], qp_shown := insert (qp_Next s n) (qp_shown s)\<rparr>"
  have "any_queue_step B M s (?s1 (ELinked n p i))" by (rule any_enq [OF enq_link [OF assms(1,2)]]) (use assms in simp_all)
  moreover have "any_queue_step B M (?s1 (ELinked n p i)) (?s1 (ESwap n p i (qp_Next s n)))"
    by (rule any_enq [OF enq_own_tag [of "?s1 (ELinked n p i)" n p i T]]) (use assms(6) in simp_all)
  moreover have "any_queue_step B M (?s1 (ESwap n p i (qp_Next s n))) ?s2"
    by (rule any_enq [OF enq_swap [of "?s1 (ESwap n p i (qp_Next s n))" n p i "qp_Next s n" T]]) (use assms(4,5) in simp_all)
  moreover have "any_queue_step B M ?s2 (s\<lparr>qp_RearPtr := n, qp_RearCk := qp_Next s n, qp_Count := qp_Count s + 1, qp_Next := (qp_Next s)(p := n),
      qp_threads := add_mset QAway T, qp_list := qp_list s @ [x], qp_nodes := qp_nodes s @ [n], qp_shown := insert (qp_Next s n) (qp_shown s)\<rparr>)"
    by (rule any_enq [OF enq_count [of ?s2 T]]) simp_all
  ultimately show ?thesis by (meson rtranclp.rtrancl_into_rtrancl rtranclp.rtrancl_refl)
qed

text \<open>\<open>DeQ\<close> up to the loop, and one turn of the loop and the rest when nobody interferes.\<close>

lemma deq_upto_loop:
  assumes "qp_threads s = add_mset QAway T" and "consumers T < M" and "\<not> qp_Count s - 1 <s 0"
  shows "runs B M s (s\<lparr>qp_Count := qp_Count s - 1, qp_threads := add_mset (DLoop (qp_FrontPtr s) (qp_FrontID s)) T\<rparr>)"
proof -
  let ?s1 = "\<lambda>q. s\<lparr>qp_Count := qp_Count s - 1, qp_threads := add_mset q T\<rparr>"
  have "any_queue_step B M s (?s1 DReserved)" by (rule any_deq [OF deq_begin [OF assms(1,2)]]) (use assms(3) in simp)
  moreover have "any_queue_step B M (?s1 DReserved) (?s1 (DHalf (qp_FrontPtr s)))"
    by (rule any_deq [OF deq_read_ptr [of "?s1 DReserved" T]]) simp_all
  moreover have "any_queue_step B M (?s1 (DHalf (qp_FrontPtr s))) (?s1 (DLoop (qp_FrontPtr s) (qp_FrontID s)))"
    by (rule any_deq [OF deq_read_id [of "?s1 (DHalf (qp_FrontPtr s))" "qp_FrontPtr s" T]]) simp_all
  ultimately show ?thesis by (meson rtranclp.rtrancl_into_rtrancl rtranclp.rtrancl_refl)
qed

lemma deq_from_loop:
  assumes "qp_threads s = add_mset (DLoop p i) T" and "p \<in> B" "qp_Next s p = c" "\<not> is_tag c" "c \<in> B"
    and "qp_FrontPtr s = p" "qp_FrontID s = i"
  shows "runs B M s (s\<lparr>qp_FrontPtr := c, qp_FrontID := i + 1, qp_used := qp_used s - {p}, qp_threads := add_mset QAway T,
    qp_list := tl (qp_list s), qp_nodes := tl (qp_nodes s), qp_changes := qp_changes s + 1\<rparr>)"
proof -
  let ?s1 = "\<lambda>q. s\<lparr>qp_threads := add_mset q T\<rparr>"
  let ?q = "DTook p (hd (qp_list s)) (qp_Data s c)"
  let ?s2 = "s\<lparr>qp_FrontPtr := c, qp_FrontID := i + 1, qp_threads := add_mset ?q T,
    qp_list := tl (qp_list s), qp_nodes := tl (qp_nodes s), qp_changes := qp_changes s + 1\<rparr>"
  have "any_queue_step B M s (?s1 (DData p i c))" by (rule any_deq [OF deq_next [OF assms(1) refl]]) (use assms in simp)
  moreover have "any_queue_step B M (?s1 (DData p i c)) (?s1 (DSwap p i c (qp_Data s c)))"
    by (rule any_deq [OF deq_data [of "?s1 (DData p i c)" p i c T]]) (use assms(5) in simp_all)
  moreover have "any_queue_step B M (?s1 (DSwap p i c (qp_Data s c))) ?s2"
    by (rule any_deq [OF deq_swap [of "?s1 (DSwap p i c (qp_Data s c))" p i c "qp_Data s c" T]]) (use assms(6,7) in simp_all)
  moreover have "any_queue_step B M ?s2 (s\<lparr>qp_FrontPtr := c, qp_FrontID := i + 1, qp_used := qp_used s - {p}, qp_threads := add_mset QAway T,
    qp_list := tl (qp_list s), qp_nodes := tl (qp_nodes s), qp_changes := qp_changes s + 1\<rparr>)"
    by (rule any_deq [OF deq_free [of ?s2 p "hd (qp_list s)" "qp_Data s c" T]]) simp_all
  ultimately show ?thesis by (meson rtranclp.rtrancl_into_rtrancl rtranclp.rtrancl_refl)
qed

text \<open>Both parts together, as equations for the fields.\<close>

lemma enq_alone:
  assumes "qp_threads s = add_mset QAway T" and "\<not> qp_Max s <s qp_Count s" and "n \<in> B" "n \<notin> qp_used s"
    and "qp_RearPtr s = r" "qp_Next s r = qp_RearCk s" "r \<in> B" "r \<noteq> n"
  obtains s' where "runs B M s s'" "qp_threads s' = add_mset QAway T" "qp_FrontPtr s' = qp_FrontPtr s" "qp_FrontID s' = qp_FrontID s"
    "qp_Max s' = qp_Max s" "qp_RearPtr s' = n" "qp_RearCk s' = qp_RearID s + 1" "qp_RearID s' = qp_RearID s + 1"
    "qp_Count s' = qp_Count s + 1" "qp_Next s' = (qp_Next s)(n := qp_RearID s + 1, r := n)" "qp_used s' = insert n (qp_used s)"
    "qp_list s' = qp_list s @ [x]" "qp_changes s' = qp_changes s" "qp_tags s' = qp_tags s + 1"
proof -
  have ne: "qp_RearPtr s \<noteq> n" using assms(5,8) by simp
  note a = enq_upto_link [OF assms(1-4) ne, of M x]
  note b = enq_from_link [where s = "s\<lparr>qp_RearID := qp_RearID s + 1, qp_Data := (qp_Data s)(n := x), qp_Next := (qp_Next s)(n := qp_RearID s + 1),
    qp_used := insert n (qp_used s), qp_threads := add_mset (ELink n x (qp_RearPtr s) (qp_RearCk s)) T,
    qp_tags := qp_tags s + 1, qp_home := (qp_home s)(qp_RearID s + 1 := n)\<rparr>" and n = n and x = x and p = r and i = "qp_RearCk s"
    and T = T and B = B and M = M]
  show ?thesis by (rule that [OF rtranclp_trans [OF a b]]) (use assms in simp_all)
qed

lemma deq_alone:
  assumes "qp_threads s = add_mset QAway T" and "consumers T < M" and "\<not> qp_Count s - 1 <s 0"
    and "qp_FrontPtr s = p" "p \<in> B" "qp_Next s p = c" "\<not> is_tag c" "c \<in> B"
  obtains s' where "runs B M s s'" "qp_threads s' = add_mset QAway T" "qp_FrontPtr s' = c" "qp_FrontID s' = qp_FrontID s + 1"
    "qp_Max s' = qp_Max s" "qp_RearPtr s' = qp_RearPtr s" "qp_RearCk s' = qp_RearCk s" "qp_RearID s' = qp_RearID s"
    "qp_Count s' = qp_Count s - 1" "qp_Next s' = qp_Next s" "qp_used s' = qp_used s - {p}"
    "qp_list s' = tl (qp_list s)" "qp_changes s' = qp_changes s + 1" "qp_tags s' = qp_tags s"
proof -
  note a = deq_upto_loop [OF assms(1-3), of B]
  note b = deq_from_loop [where s = "s\<lparr>qp_Count := qp_Count s - 1, qp_threads := add_mset (DLoop (qp_FrontPtr s) (qp_FrontID s)) T\<rparr>"
    and p = p and i = "qp_FrontID s" and c = c and T = T and B = B and M = M]
  show ?thesis by (rule that [OF rtranclp_trans [OF a b]]) (use assms in simp_all)
qed

lemma reachable_runs: "reachable init step s \<Longrightarrow> step\<^sup>*\<^sup>* s t \<Longrightarrow> reachable init step t"
  by (rotate_tac, induction rule: rtranclp_induct) (auto intro: reachable_step)

text \<open>A queue with three blocks, all threads away.\<close>

definition queue_start :: "nat \<Rightarrow> nat Queue" where
  "queue_start n = \<lparr>qp_FrontPtr = 1, qp_FrontID = 0, qp_RearPtr = 1, qp_RearCk = tag 0, qp_RearID = tag 0, qp_Count = 0, qp_Max = 5000,
     qp_Data = (\<lambda>q. 0), qp_Next = (\<lambda>q. 0)(1 := tag 0), qp_used = {1}, qp_threads = replicate_mset n QAway, qp_list = [],
     qp_nodes = [1], qp_changes = 0, qp_tags = 0, qp_shown = {tag 0}, qp_home = (\<lambda>t. 1)\<rparr>"

lemma queue_start_pool: "n \<le> 1000 \<Longrightarrow> queue_pool {1, 2, 3} n"
  by (simp add: queue_pool_def KERNEL_ADDRESS_def card_insert_if word_sless_alt)

lemma queue_start_init: "n \<le> 1000 \<Longrightarrow> queue_init {1, 2, 3} n (queue_start n)"
  using queue_start_pool [of n] by (simp add: queue_init_def queue_start_def)

lemma first_enq:
  obtains s :: "nat Queue" where "reachable (queue_init {1, 2, 3} 1) (any_queue_step {1, 2, 3} 1) s"
    "qp_threads s = {#ELink 2 7 1 (tag 0)#}" "qp_tags s = 1" "qp_changes s = 0" "qp_list s = []" "qp_Next s 1 = tag 0"
proof -
  let ?B = "{1, 2, 3 :: ptr}" and ?s0 = "queue_start 1"
  obtain s where s: "runs ?B 1 ?s0 s" "qp_threads s = {#ELink 2 7 1 (tag 0)#}" "qp_tags s = 1" "qp_changes s = 0" "qp_list s = []"
      "qp_Next s 1 = tag 0"
    by (rule that [OF enq_upto_link [of ?s0 "{#}" 2 ?B 1 7]]) (simp_all add: queue_start_def word_sless_alt)
  have "reachable (queue_init ?B 1) (any_queue_step ?B 1) s"
    by (rule reachable_runs [OF _ s(1)], rule reachable_init) (simp add: queue_start_init)
  then show ?thesis by (rule that) (use s in simp_all)
qed

section \<open>Properties\<close>

text \<open>
  C4. The lock free queue under any interleaving of any number of threads, of which \<open>M\<close> may be
  taking at once: from the dummy on the nodes are linked in the order of the list the queue stands
  for, no node is in the hands of two threads or of a thread and the queue, the rear pointer is at
  the last node or the one before, no thread follows a word that is no node or finds its own node at
  the rear, and a \<open>DeQ\<close> returns what was at the head of the list at its exchange.  That list
  changes at successful exchanges only, by the value appended or the head taken.  So the tags do
  prevent that a node freed and appended again is mistaken for what it was, although tag and
  pointer are read apart.
\<close>

theorem queue_protocol_safe:
  assumes "reachable (queue_init B n) (any_queue_step B M) s"
    and "qp_tags s + n < 2 ^ 63 - 2 ^ 43" and "qp_changes s + n < 2 ^ 64"
  shows "(\<exists>f ns. chain (qp_Next s) (f # ns) \<and> qp_FrontPtr s = f \<and> map (qp_Data s) ns = qp_list s \<and>
      mset (f # ns) + qowned (qp_threads s) = mset_set (qp_used s) \<and>
      (\<exists>ks e. f # ns = ks @ [qp_RearPtr s] \<or> f # ns = ks @ [qp_RearPtr s, e])) \<and>
    Crashed \<notin># qp_threads s \<and> BadRead \<notin># qp_threads s \<and> (\<forall>p x y. DTook p x y \<in># qp_threads s \<longrightarrow> y = x) \<and>
    (queue_step B M new s s' \<longrightarrow> qp_list s' = qp_list s \<or>
      (\<exists>m x p i. ELink m x p i \<in># qp_threads s \<and> qp_list s' = qp_list s @ [x]) \<or>
      (\<exists>p i c x y. DSwap p i c y \<in># qp_threads s \<and> qp_list s = x # qp_list s' \<and> DTook p x y \<in># qp_threads s'))"
proof -
  note r = queue_reachable_inv [OF assms]
  note ok = inv_parts(7) [OF r(1)]
  have "Crashed \<notin># qp_threads s" "BadRead \<notin># qp_threads s" using ok [of Crashed] ok [of BadRead] by auto
  moreover have "y = x" if "DTook p x y \<in># qp_threads s" for p x y using ok [OF that] by simp
  moreover obtain f ns where n: "qp_nodes s = f # ns" using chain_not_Nil [OF inv_parts(9) [OF r(1)]] by (cases "qp_nodes s") auto
  have "\<exists>ks e. f # ns = ks @ [qp_RearPtr s] \<or> f # ns = ks @ [qp_RearPtr s, e]"
    using inv_parts(3) [OF r(1)] append_butlast_last_id [of "f # ns"] n unfolding rear_part_def settled_def lagging_def
    by (metis list.distinct(1))
  then have "\<exists>f ns. chain (qp_Next s) (f # ns) \<and> qp_FrontPtr s = f \<and> map (qp_Data s) ns = qp_list s \<and>
      mset (f # ns) + qowned (qp_threads s) = mset_set (qp_used s) \<and>
      (\<exists>ks e. f # ns = ks @ [qp_RearPtr s] \<or> f # ns = ks @ [qp_RearPtr s, e])"
    using inv_parts(1,2) [OF r(1)] n unfolding mem_part_def line_part_def by (intro exI [of _ f] exI [of _ ns]) auto
  ultimately show ?thesis using queue_step_list [OF r(1,4), of new s'] by blast
qed

theorem queue_protocol_safe_witness:
  "\<exists>s s' :: nat Queue. reachable (queue_init {1, 2, 3} 1) (any_queue_step {1, 2, 3} 1) s \<and>
     queue_step {1, 2, 3} 1 False s s' \<and> qp_list s = [] \<and> qp_list s' = [7] \<and> qp_threads s = {#ELink 2 7 1 (tag 0)#} \<and>
     (\<exists>m x p i. ELink m x p i \<in># qp_threads s \<and> qp_list s' = qp_list s @ [x])"
proof -
  obtain s :: "nat Queue" where s: "reachable (queue_init {1, 2, 3} 1) (any_queue_step {1, 2, 3} 1) s"
    "qp_threads s = {#ELink 2 7 1 (tag 0)#}" "qp_tags s = 1" "qp_changes s = 0" "qp_list s = []" "qp_Next s 1 = tag 0" by (rule first_enq)
  obtain s' where s': "queue_step {1, 2, 3} 1 False s s'" "qp_list s' = [7]"
    by (rule that [OF queue_stepI(1) [OF enq_link [OF s(2)]]]) (use s(5,6) in simp_all)
  have b: "qp_tags s + 1 < 2 ^ 63 - 2 ^ 43" "qp_changes s + 1 < 2 ^ 64" using s(3,4) by simp_all
  have "\<exists>m x p i. ELink m x p i \<in># qp_threads s \<and> qp_list s' = qp_list s @ [x]"
    using queue_protocol_safe [OF s(1) b, of False s'] s' s(2,5) by auto
  then show ?thesis using s s' by blast
qed

text \<open>The interleaving: one thread copies the front, another takes that node, appends it again and goes away.\<close>

lemma stale_front:
  obtains s :: "nat Queue" where "reachable (queue_init {1, 2, 3} 2) (any_queue_step {1, 2, 3} 2) s"
    "qp_threads s = {#DLoop 1 0, QAway#}" "qp_list s = [6, 7]" "qp_Count s = 1" "qp_Next s 1 = tag 3"
proof -
  let ?B = "{1, 2, 3 :: ptr}" and ?s0 = "queue_start 2" and ?T = "{#DLoop 1 0 :: nat qpc#}"
  have r2: "replicate_mset 2 (QAway :: nat qpc) = {#QAway, QAway#}" by (simp add: numeral_2_eq_2)
  have t: "tag 0 + 1 = tag 1" "tag (Suc 0) + 1 = tag 2" "tag 2 + 1 = tag 3"
    using tag_Suc [of 0] tag_Suc [of 1] tag_Suc [of 2] by (simp_all add: numeral_eq_Suc)
  have nt: "\<not> is_tag 2" using block_not_tag [OF queue_start_pool [of 2], of 2] by simp
  note eval = word_sless_alt insert_commute consumers_tally
  obtain s1 where s1: "runs ?B 2 ?s0 s1" "qp_threads s1 = add_mset QAway {#QAway#}" "qp_FrontPtr s1 = 1" "qp_FrontID s1 = 0"
    "qp_Max s1 = 5000" "qp_RearPtr s1 = 2" "qp_RearCk s1 = tag 1" "qp_RearID s1 = tag 1" "qp_Count s1 = 1"
    "qp_Next s1 2 = tag 1" "qp_Next s1 1 = 2" "qp_used s1 = {1, 2}" "qp_list s1 = [5]"
    by (rule enq_alone [of ?s0 "{#QAway#}" 2 ?B 1 2 5]) (simp_all add: queue_start_def t r2 eval)
  obtain s2 where s2: "runs ?B 2 s1 s2" "qp_threads s2 = add_mset QAway ?T" "qp_FrontPtr s2 = 1" "qp_FrontID s2 = 0"
    "qp_Max s2 = 5000" "qp_RearPtr s2 = 2" "qp_RearCk s2 = tag 1" "qp_RearID s2 = tag 1" "qp_Count s2 = 0"
    "qp_Next s2 2 = tag 1" "qp_Next s2 1 = 2" "qp_used s2 = {1, 2}" "qp_list s2 = [5]"
    by (rule that [OF deq_upto_loop [OF s1(2)]]) (simp_all add: s1 eval add_mset_commute)
  obtain s3 where s3: "runs ?B 2 s2 s3" "qp_threads s3 = add_mset QAway ?T" "qp_FrontPtr s3 = 1" "qp_FrontID s3 = 0"
    "qp_Max s3 = 5000" "qp_RearPtr s3 = 3" "qp_RearCk s3 = tag 2" "qp_RearID s3 = tag 2" "qp_Count s3 = 1"
    "qp_Next s3 3 = tag 2" "qp_Next s3 2 = 3" "qp_Next s3 1 = 2" "qp_used s3 = {1, 2, 3}" "qp_list s3 = [5, 6]"
    by (rule enq_alone [OF s2(2), of 3 ?B 2 2 6]) (auto simp: s2 t eval)
  obtain s4 where s4: "runs ?B 2 s3 s4" "qp_threads s4 = add_mset QAway ?T"
    "qp_Max s4 = 5000" "qp_RearPtr s4 = 3" "qp_RearCk s4 = tag 2" "qp_RearID s4 = tag 2" "qp_Count s4 = 0"
    "qp_Next s4 3 = tag 2" "qp_used s4 = {2, 3}" "qp_list s4 = [6]"
    by (rule deq_alone [OF s3(2), of 2 1 ?B 2]) (auto simp: s3 nt eval)
  obtain s5 where s5: "runs ?B 2 s4 s5" "qp_threads s5 = add_mset QAway ?T" "qp_Count s5 = 1" "qp_Next s5 1 = tag 3" "qp_list s5 = [6, 7]"
    by (rule enq_alone [OF s4(2), of 1 ?B 3 2 7]) (auto simp: s4 t eval)
  have "reachable (queue_init ?B 2) (any_queue_step ?B 2) ?s0" by (rule reachable_init) (simp add: queue_start_init)
  then have "reachable (queue_init ?B 2) (any_queue_step ?B 2) s5"
    by (intro reachable_runs [OF _ rtranclp_trans [OF s1(1) rtranclp_trans [OF s2(1) rtranclp_trans [OF s3(1) rtranclp_trans [OF s4(1) s5(1)]]]]])
  then show ?thesis by (rule that) (use s5 in \<open>simp_all add: add_mset_commute\<close>)
qed

text \<open>
  C19. A \<open>DeQ\<close> can hang although the queue holds elements and its own place in the count is granted.
  Two threads take; one copies the front and stops; the other takes that node, frees it and is given
  it again by its next \<open>EnQ\<close>, which appends it.  The first thread now reads a tag in the node and
  continues without copying the front again: when the other thread is away, the only step left in
  the whole system changes nothing.
\<close>

theorem queue_two_takers_hang:
  "\<exists>s :: nat Queue. reachable (queue_init {1, 2, 3} 2) (any_queue_step {1, 2, 3} 2) s \<and>
     qp_threads s = {#DLoop 1 0, QAway#} \<and> qp_list s = [6, 7] \<and> qp_Count s = 1 \<and>
     {s'. queue_step {1, 2, 3} 2 False s s'} = {s}"
proof -
  obtain s :: "nat Queue" where s: "reachable (queue_init {1, 2, 3} 2) (any_queue_step {1, 2, 3} 2) s"
    "qp_threads s = {#DLoop 1 0, QAway#}" "qp_list s = [6, 7]" "qp_Count s = 1" "qp_Next s 1 = tag 3" by (rule stale_front)
  have t: "is_tag (tag 3)" by (rule is_tag_tag) simp
  have one: "q = DLoop 1 0 \<or> q = QAway" if "qp_threads s = add_mset q T" for q T
  proof -
    have "q \<in># qp_threads s" using that by simp
    then show ?thesis using s(2) by auto
  qed
  have same: "s\<lparr>qp_threads := add_mset q T\<rparr> = s" if "qp_threads s = add_mset q T" for q T using that by simp
  have "s' = s" if "queue_step {1, 2, 3} 2 False s s'" for s'
    using that unfolding queue_step_def
  proof (elim disjE)
    assume "deq_step {1, 2, 3} 2 False s s'"
    then show ?thesis
    proof cases
      case (deq_next p i T c)
      then have p: "p = 1" "i = 0" using one [OF deq_next(2)] by simp_all
      show ?thesis unfolding deq_next(1) using same [OF deq_next(2)] deq_next(3) s(5) t p by simp
    qed (drule one, simp)+
  next
    assume "enq_step {1, 2, 3} False s s'"
    then show ?thesis by cases (drule one, simp)+
  qed
  moreover have "queue_step {1, 2, 3} 2 False s s"
    using queue_stepI(2) [OF deq_next [OF s(2) refl, of "{1, 2, 3}" 2]] s(5) t same [OF s(2)] by simp
  ultimately show ?thesis using s by blast
qed

section \<open>The operations end while one thread at a time takes\<close>

text \<open>
  An \<open>EnQ\<close> is sent back only when the rear has moved since it was copied.  The rear moves once for
  each element appended, so the work left is counted by the elements still to be appended, the move
  that may be outstanding, and how far each thread is from its exchange.
\<close>

fun before_link :: "'a qpc \<Rightarrow> bool" where
  "before_link (EData n x) = True"
| "before_link (ENumber n x) = True"
| "before_link (ETag n x t) = True"
| "before_link (EReadPtr n x) = True"
| "before_link (EReadID n x p) = True"
| "before_link (ELink n x p i) = True"
| "before_link (EHelp n x p i) = True"
| "before_link (EHelpRead n x p i c) = True"
| "before_link (EHelpSwap n x p i c d) = True"
| "before_link _ = False"

fun qstage :: "'a Queue \<Rightarrow> 'a qpc \<Rightarrow> nat" where
  "qstage s (EData n x) = 10"
| "qstage s (ENumber n x) = 9"
| "qstage s (ETag n x t) = 8"
| "qstage s (EReadPtr n x) = 7"
| "qstage s (EReadID n x p) = (if qp_RearPtr s = p then 6 else 12)"
| "qstage s (ELink n x p i) = (if at_rear s p i then 5 else 11)"
| "qstage s (EHelp n x p i) = (if at_rear s p i then 4 else 10)"
| "qstage s (EHelpRead n x p i c) = (if at_rear s p i then 3 else 9)"
| "qstage s (EHelpSwap n x p i c d) = (if at_rear s p i then 2 else 8)"
| "qstage s (ELinked n p i) = 3"
| "qstage s (ESwap n p i d) = 2"
| "qstage s ECount = 1"
| "qstage s DRefused = 1"
| "qstage s DReserved = 6"
| "qstage s (DHalf p) = 5"
| "qstage s (DLoop p i) = 4"
| "qstage s (DData p i c) = 3"
| "qstage s (DSwap p i c y) = 2"
| "qstage s (DTook p x y) = 1"
| "qstage s _ = 0"

definition rear_moves :: "'a Queue \<Rightarrow> nat" where
  "rear_moves s = tally before_link (qp_threads s) + (if is_tag (qp_Next s (qp_RearPtr s)) then 0 else 1)"

definition queue_work :: "'a Queue \<Rightarrow> nat" where
  "queue_work s = rear_moves s * (6 * size (qp_threads s)) + (\<Sum>q\<in>#qp_threads s. qstage s q)"

lemma qstage_same: "qp_RearPtr s' = qp_RearPtr s \<Longrightarrow> qp_RearCk s' = qp_RearCk s \<Longrightarrow> qstage s' q = qstage s q"
  by (cases q) (simp_all add: at_rear_def)

lemma qstage_other: "qstage s' q \<le> qstage s q + 6"
  by (cases q) simp_all

lemma qstages_other: "(\<Sum>q\<in>#T. qstage s' q) \<le> (\<Sum>q\<in>#T. qstage s q) + 6 * size T"
proof (induction T)
  case (add q T)
  then show ?case using qstage_other [of s' q s] by simp
qed simp

lemma queue_work_move:
  assumes "qp_threads s = add_mset q T" "qp_threads s' = add_mset q' T"
    and "qp_RearPtr s' = qp_RearPtr s" "qp_RearCk s' = qp_RearCk s"
    and "rear_moves s' \<le> rear_moves s" "qstage s q' < qstage s q"
  shows "queue_work s' < queue_work s"
proof -
  have "(\<Sum>r\<in>#T. qstage s' r) = (\<Sum>r\<in>#T. qstage s r)" by (simp add: qstage_same [OF assms(3,4)])
  moreover have "qstage s' q' = qstage s q'" by (rule qstage_same [OF assms(3,4)])
  ultimately show ?thesis using assms(1,2,5,6) by (simp add: queue_work_def add_le_less_mono)
qed

lemma queue_work_rear:
  assumes "qp_threads s = add_mset q T" "qp_threads s' = add_mset q' T"
    and "Suc (rear_moves s') = rear_moves s" "qstage s' q' < qstage s q + 6"
  shows "queue_work s' < queue_work s"
proof -
  have "rear_moves s * (6 * Suc (size T)) = rear_moves s' * (6 * Suc (size T)) + 6 * Suc (size T)" by (simp flip: assms(3))
  then show ?thesis using assms(1,2,4) qstages_other [of s' T s] unfolding queue_work_def by simp
qed

lemma rear_moves_same:
  assumes "qp_threads s = add_mset q T" "qp_threads s' = add_mset q' T" and "before_link q' \<longrightarrow> before_link q"
    and "is_tag (qp_Next s' (qp_RearPtr s')) = is_tag (qp_Next s (qp_RearPtr s))"
  shows "rear_moves s' \<le> rear_moves s"
  using assms by (simp add: rear_moves_def)

text \<open>An outstanding move of the rear, when it is made.\<close>

lemma rear_moves_rear:
  assumes inv: "lfq_inv B M s" "queue_pool B k" and T: "qp_threads s = add_mset q T" "qp_threads s' = add_mset q' T"
    and b: "before_link q' = before_link q" and at: "qp_Next s (qp_RearPtr s) = c" "c \<in> B"
    and s': "qp_RearPtr s' = c" "qp_Next s' = qp_Next s"
  shows "Suc (rear_moves s') = rear_moves s"
proof -
  have nt: "\<not> is_tag c" using block_not_tag [OF inv(2) at(2)] by simp
  have "is_tag (qp_Next s c)" by (rule rear_cases [OF inv]) (use at nt in auto)
  then show ?thesis using T b at nt s' by (simp add: rear_moves_def)
qed

lemma enq_work_less:
  assumes inv: "lfq_inv B M s" "queue_pool B k" "lfq_room s" and step: "enq_step B False s s'"
  shows "queue_work s' < queue_work s"
  using step
proof cases
  case (enq_data n x T)
  show ?thesis by (rule queue_work_move [OF enq_data(2), where q' = "ENumber n x"])
      (use enq_data in \<open>auto intro: rear_moves_same [OF enq_data(2)]\<close>)
next
  case (enq_number n x T)
  show ?thesis by (rule queue_work_move [OF enq_number(2), where q' = "ETag n x (qp_RearID s + 1)"])
      (use enq_number in \<open>auto intro: rear_moves_same [OF enq_number(2)]\<close>)
next
  case (enq_tag n x t T)
  have "qp_RearPtr s \<noteq> n" using mem_not_owned [OF inv_parts(1) [OF inv(1)] _ rear_in_nodes [OF inv(1)], of "ETag n x t"] enq_tag(2) by simp
  then show ?thesis by (intro queue_work_move [OF enq_tag(2), where q' = "EReadPtr n x"])
      (use enq_tag in \<open>auto intro: rear_moves_same [OF enq_tag(2)]\<close>)
next
  case (enq_read_ptr n x T)
  show ?thesis by (rule queue_work_move [OF enq_read_ptr(2), where q' = "EReadID n x (qp_RearPtr s)"])
      (use enq_read_ptr in \<open>auto intro: rear_moves_same [OF enq_read_ptr(2)]\<close>)
next
  case (enq_read_id n x p T)
  show ?thesis by (rule queue_work_move [OF enq_read_id(2), where q' = "if p = n then Crashed else ELink n x p (qp_RearCk s)"])
      (use enq_read_id in \<open>auto simp: at_rear_def intro: rear_moves_same [OF enq_read_id(2)]\<close>)
next
  case (enq_link n x p i T)
  have ok: "qthread_ok B M s (ELink n x p i)" by (rule inv_head [OF inv(1) enq_link(2)])
  then have "is_tag (qp_Next s p)" using drawn_tag [OF inv(3) shown_drawn [OF inv(1)]] enq_link(4) by simp
  moreover have "p = qp_RearPtr s" by (rule link_at_rear(1) [OF inv _ enq_link(4)]) (use ok in simp)
  ultimately have "rear_moves s' \<le> rear_moves s" using enq_link(1,2) by (simp add: rear_moves_def)
  then show ?thesis by (intro queue_work_move [OF enq_link(2), where q' = "ELinked n p i"]) (use enq_link in auto)
next
  case (enq_link_fail n x p i T)
  show ?thesis by (rule queue_work_move [OF enq_link_fail(2), where q' = "if p \<in> B then EHelp n x p i else BadRead"])
      (use enq_link_fail in \<open>auto intro: rear_moves_same [OF enq_link_fail(2)]\<close>)
next
  case (enq_help n x p i T c)
  have "qthread_ok B M s (EHelp n x p i)" by (rule inv_head [OF inv(1) enq_help(2)])
  then have "is_tag c \<longrightarrow> \<not> at_rear s p i" using enq_help(3) by auto
  then show ?thesis by (intro queue_work_move [OF enq_help(2), where q' = "if is_tag c then EReadPtr n x else EHelpRead n x p i c"])
      (use enq_help in \<open>auto intro: rear_moves_same [OF enq_help(2)]\<close>)
next
  case (enq_help_read n x p i c T)
  show ?thesis by (rule queue_work_move [OF enq_help_read(2), where q' = "if c \<in> B then EHelpSwap n x p i c (qp_Next s c) else BadRead"])
      (use enq_help_read in \<open>auto intro: rear_moves_same [OF enq_help_read(2)]\<close>)
next
  case (enq_help_swap n x p i c d T)
  have ok: "qthread_ok B M s (EHelpSwap n x p i c d)" by (rule inv_head [OF inv(1) enq_help_swap(2)])
  have "Suc (rear_moves s') = rear_moves s"
    by (rule rear_moves_rear [OF inv(1,2) enq_help_swap(2), where q' = "EReadPtr n x" and c = c])
      (use ok enq_help_swap in \<open>simp_all add: at_rear_def\<close>)
  then show ?thesis by (intro queue_work_rear [OF enq_help_swap(2), where q' = "EReadPtr n x"]) (use enq_help_swap in auto)
next
  case (enq_help_late n x p i c d T)
  then have "\<not> at_rear s p i" by (auto simp: at_rear_def)
  then show ?thesis by (intro queue_work_move [OF enq_help_late(2), where q' = "EReadPtr n x"])
      (use enq_help_late in \<open>auto intro: rear_moves_same [OF enq_help_late(2)]\<close>)
next
  case (enq_own_tag n p i T)
  show ?thesis by (rule queue_work_move [OF enq_own_tag(2), where q' = "ESwap n p i (qp_Next s n)"])
      (use enq_own_tag in \<open>auto intro: rear_moves_same [OF enq_own_tag(2)]\<close>)
next
  case (enq_swap n p i d T)
  have ok: "qthread_ok B M s (ESwap n p i d)" by (rule inv_head [OF inv(1) enq_swap(2)])
  have "Suc (rear_moves s') = rear_moves s"
    by (rule rear_moves_rear [OF inv(1,2) enq_swap(2), where q' = ECount and c = n])
      (use ok enq_swap in \<open>simp_all add: at_rear_def\<close>)
  then show ?thesis by (intro queue_work_rear [OF enq_swap(2), where q' = ECount]) (use enq_swap in auto)
next
  case (enq_swap_late n p i d T)
  show ?thesis by (rule queue_work_move [OF enq_swap_late(2), where q' = ECount])
      (use enq_swap_late in \<open>auto intro: rear_moves_same [OF enq_swap_late(2)]\<close>)
next
  case (enq_count T)
  show ?thesis by (rule queue_work_move [OF enq_count(2), where q' = QAway])
      (use enq_count in \<open>auto intro: rear_moves_same [OF enq_count(2)]\<close>)
qed simp_all

lemma deq_work_less:
  assumes inv: "lfq_inv B 1 s" "queue_pool B k" and step: "deq_step B 1 False s s'"
  shows "queue_work s' < queue_work s"
  using step
proof cases
  case (deq_refuse T)
  show ?thesis by (rule queue_work_move [OF deq_refuse(2), where q' = QAway])
      (use deq_refuse in \<open>auto intro: rear_moves_same [OF deq_refuse(2)]\<close>)
next
  case (deq_read_ptr T)
  show ?thesis by (rule queue_work_move [OF deq_read_ptr(2), where q' = "DHalf (qp_FrontPtr s)"])
      (use deq_read_ptr in \<open>auto intro: rear_moves_same [OF deq_read_ptr(2)]\<close>)
next
  case (deq_read_id p T)
  show ?thesis by (rule queue_work_move [OF deq_read_id(2), where q' = "DLoop p (qp_FrontID s)"])
      (use deq_read_id in \<open>auto intro: rear_moves_same [OF deq_read_id(2)]\<close>)
next
  case (deq_next p i T c)
  have p: "qp_FrontPtr s = p" using inv_head [OF inv(1) deq_next(2)] by (simp add: at_front_def)
  have "DLoop p i \<in># qp_threads s" using deq_next(2) by simp
  then obtain ms where "qp_nodes s = p # c # ms" using p deq_next(3) by (rule_tac waiting_nonempty [OF inv(1)]) auto
  then have "\<not> is_tag c" using mem_nodes [OF inv_parts(1) [OF inv(1)], of c] block_not_tag [OF inv(2)] by simp
  then show ?thesis by (intro queue_work_move [OF deq_next(2), where q' = "if p \<notin> B then BadRead else DData p i c"])
      (use deq_next in \<open>auto intro: rear_moves_same [OF deq_next(2)]\<close>)
next
  case (deq_data p i c T)
  show ?thesis by (rule queue_work_move [OF deq_data(2), where q' = "if c \<in> B then DSwap p i c (qp_Data s c) else BadRead"])
      (use deq_data in \<open>auto intro: rear_moves_same [OF deq_data(2)]\<close>)
next
  case (deq_swap p i c y T)
  show ?thesis by (rule queue_work_move [OF deq_swap(2), where q' = "DTook p (hd (qp_list s)) y"])
      (use deq_swap in \<open>auto intro: rear_moves_same [OF deq_swap(2)]\<close>)
next
  case (deq_retry p i c y T)
  then show ?thesis using inv_head [OF inv(1) deq_retry(2)] by (simp add: at_front_def)
next
  case (deq_free p x y T)
  show ?thesis by (rule queue_work_move [OF deq_free(2), where q' = QAway])
      (use deq_free in \<open>auto intro: rear_moves_same [OF deq_free(2)]\<close>)
qed simp_all

lemma queue_work_le: "queue_work s \<le> 6 * size (qp_threads s) * (size (qp_threads s) + 3)"
proof -
  let ?n = "size (qp_threads s)"
  have "qstage s q \<le> 12" for q by (cases q) simp_all
  then have "(\<Sum>q\<in>#M. qstage s q) \<le> 12 * size M" for M
    by (induction M) (simp_all add: add_mono)
  moreover have "rear_moves s \<le> ?n + 1" using tally_size [of before_link "qp_threads s"] by (simp add: rear_moves_def)
  then have "rear_moves s * (6 * ?n) \<le> (?n + 1) * (6 * ?n)" by (rule mult_le_mono1)
  ultimately have "queue_work s \<le> (?n + 1) * (6 * ?n) + 12 * ?n" unfolding queue_work_def by (meson add_mono)
  also have "\<dots> = 6 * ?n * (?n + 3)" by (simp add: algebra_simps)
  finally show ?thesis .
qed

text \<open>What holds while no operation begins.\<close>

definition queue_busy :: "ptr set \<Rightarrow> nat \<Rightarrow> 'a Queue \<Rightarrow> bool" where
  "queue_busy B n s \<longleftrightarrow> queue_pool B n \<and> size (qp_threads s) = n \<and> lfq_room s \<and> lfq_inv B 1 s"

lemma enq_step_room: "enq_step B False s s' \<Longrightarrow> lfq_room s \<Longrightarrow> lfq_room s'"
  by (erule enq_step.cases) (auto simp: lfq_room_def split: if_splits)

lemma deq_step_room: "deq_step B M False s s' \<Longrightarrow> lfq_room s \<Longrightarrow> lfq_room s'"
  by (erule deq_step.cases) (auto simp: lfq_room_def split: if_splits)

interpretation queue_finish: finishing_steps "queue_busy B n" "queue_step B 1 False" "queue_busy B n" "queue_step B 1 False" queue_work
proof unfold_locales
  show "queue_busy B n s'" if "queue_busy B n s" "queue_step B 1 False s s'" for s s' :: "'a Queue"
    using that enq_step_room deq_step_room queue_step_due [OF that(2)] queue_step_inv [of B 1 s n False s']
    unfolding queue_busy_def queue_step_def by blast
  show "queue_work s' < queue_work s" if "queue_busy B n s" "queue_step B 1 False s s'" for s s' :: "'a Queue"
    using that enq_work_less deq_work_less unfolding queue_busy_def queue_step_def by blast
qed

lemma tally_idle:
  "\<forall>q\<in>#M. q = QAway \<or> q = Overfull \<or> (\<exists>x. q = EStart x) \<Longrightarrow>
   tally consumer M = 0 \<and> tally pending M = 0 \<and> tally lfq_refused M = 0 \<and> qowned M = {#}"
proof (induction M)
  case (add q M)
  then have "q = QAway \<or> q = Overfull \<or> (\<exists>x. q = EStart x)" by simp
  then show ?case by (elim disjE exE) (use add in simp_all)
qed simp

lemma queue_stuck:
  assumes stuck: "\<nexists>t. queue_step B M False s t" and q: "q \<in># qp_threads s"
  shows "q = QAway \<or> q = Overfull \<or> q = Crashed \<or> q = BadRead \<or> (\<exists>x. q = EStart x)"
proof (rule ccontr)
  assume no: "\<not> ?thesis"
  obtain T where T: "qp_threads s = add_mset q T" using q by (metis mset_add)
  have "\<exists>t. enq_step B False s t \<or> deq_step B M False s t"
  proof (cases q)
    case (EData n x)
    then show ?thesis using T enq_data [of s n x T B] by blast
  next
    case (ENumber n x)
    then show ?thesis using T enq_number [of s n x T B] by blast
  next
    case (ETag n x t)
    then show ?thesis using T enq_tag [of s n x t T B] by blast
  next
    case (EReadPtr n x)
    then show ?thesis using T enq_read_ptr [of s n x T B] by blast
  next
    case (EReadID n x p)
    then show ?thesis using T enq_read_id [of s n x p T B] by blast
  next
    case (ELink n x p i)
    then show ?thesis using T enq_link [of s n x p i T B] enq_link_fail [of s n x p i T B] by blast
  next
    case (EHelp n x p i)
    then show ?thesis using T enq_help [of s n x p i T _ B] by blast
  next
    case (EHelpRead n x p i c)
    then show ?thesis using T enq_help_read [of s n x p i c T B] by blast
  next
    case (EHelpSwap n x p i c d)
    then show ?thesis using T enq_help_swap [of s n x p i c d T B] enq_help_late [of s n x p i c d T B] by blast
  next
    case (ELinked n p i)
    then show ?thesis using T enq_own_tag [of s n p i T B] by blast
  next
    case (ESwap n p i d)
    then show ?thesis using T enq_swap [of s n p i d T B] enq_swap_late [of s n p i d T B] by blast
  next
    case ECount
    then show ?thesis using T enq_count [of s T B] by blast
  next
    case DRefused
    then show ?thesis using T deq_refuse [of s T B M] by blast
  next
    case DReserved
    then show ?thesis using T deq_read_ptr [of s T B M] by blast
  next
    case (DHalf p)
    then show ?thesis using T deq_read_id [of s p T B M] by blast
  next
    case (DLoop p i)
    then show ?thesis using T deq_next [of s p i T _ B M] by blast
  next
    case (DData p i c)
    then show ?thesis using T deq_data [of s p i c T B M] by blast
  next
    case (DSwap p i c y)
    then show ?thesis using T deq_swap [of s p i c y T B M] deq_retry [of s p i c y T B M] by blast
  next
    case (DTook p x y)
    then show ?thesis using T deq_free [of s p x y T B M] by blast
  qed (use no in simp_all)
  with stuck show False by (auto simp: queue_step_def)
qed

text \<open>
  C18. While at most one thread at a time is taking (as it is in this program), every \<open>EnQ\<close> and
  \<open>DeQ\<close> that has its node ends: once no operation begins, \<open>n\<close> threads are done after at most
  \<open>6 * n * (n + 3)\<close> steps in whatever order they run; then the count is the length of the list, the
  nodes in use are those of the list and the dummy, and threads not away wait for the pool or have
  found the queue overfull.
\<close>

theorem queue_protocol_live:
  assumes "reachable (queue_init B n) (any_queue_step B 1) s"
    and "qp_tags s + n < 2 ^ 63 - 2 ^ 43" and "qp_changes s + n < 2 ^ 64"
  shows "((queue_step B 1 False ^^ k) s s' \<longrightarrow> k \<le> 6 * n * (n + 3)) \<and>
    (\<exists>t. (queue_step B 1 False)\<^sup>*\<^sup>* s t \<and> (\<nexists>u. queue_step B 1 False t u)) \<and>
    ((queue_step B 1 False)\<^sup>*\<^sup>* s t \<and> (\<nexists>u. queue_step B 1 False t u) \<longrightarrow>
       (\<forall>q\<in>#qp_threads t. q = QAway \<or> q = Overfull \<or> (\<exists>x. q = EStart x)) \<and>
       qp_Count t = of_nat (length (qp_list t)) \<and> card (qp_used t) = length (qp_list t) + 1)"
proof -
  note r = queue_reachable_inv [OF assms]
  then have busy: "queue_busy B n s" by (simp add: queue_busy_def)
  have "k \<le> 6 * n * (n + 3)" if "(queue_step B 1 False ^^ k) s s'"
    using queue_finish.finish_bound [OF busy that] queue_work_le [of s] r(3) by simp
  moreover have "(\<forall>q\<in>#qp_threads t. q = QAway \<or> q = Overfull \<or> (\<exists>x. q = EStart x)) \<and>
       qp_Count t = of_nat (length (qp_list t)) \<and> card (qp_used t) = length (qp_list t) + 1"
    if run: "(queue_step B 1 False)\<^sup>*\<^sup>* s t" and stuck: "\<nexists>u. queue_step B 1 False t u"
  proof -
    obtain k where "(queue_step B 1 False ^^ k) s t" using run by (auto simp: rtranclp_power)
    then have t: "lfq_inv B 1 t" using queue_finish.finish_bound [OF busy] by (auto simp: queue_busy_def)
    have a: "\<forall>q\<in>#qp_threads t. q = QAway \<or> q = Overfull \<or> (\<exists>x. q = EStart x)"
      using queue_stuck [OF stuck] inv_parts(7) [OF t, of Crashed] inv_parts(7) [OF t, of BadRead] by auto
    then have "tally consumer (qp_threads t) = 0 \<and> tally pending (qp_threads t) = 0 \<and> tally lfq_refused (qp_threads t) = 0 \<and>
        qowned (qp_threads t) = {#}" by (rule tally_idle)
    moreover from this have "mset (qp_nodes t) = mset_set (qp_used t)" using inv_parts(1) [OF t] by (simp add: mem_part_def)
    then have "length (qp_nodes t) = card (qp_used t)" by (metis size_mset size_mset_set)
    moreover have "length (qp_nodes t) = length (qp_list t) + 1"
      using length_list [OF t] chain_not_Nil [OF inv_parts(9) [OF t]] by (cases "qp_nodes t") auto
    ultimately show ?thesis using a inv_parts(5) [OF t] by (simp add: count_part_def Let_def)
  qed
  ultimately show ?thesis using queue_finish.finish_end [OF busy] by blast
qed

theorem queue_protocol_live_witness:
  "\<exists>s t :: nat Queue. reachable (queue_init {1, 2, 3} 1) (any_queue_step {1, 2, 3} 1) s \<and> qp_threads s = {#ELink 2 7 1 (tag 0)#} \<and>
     (queue_step {1, 2, 3} 1 False)\<^sup>*\<^sup>* s t \<and> (\<nexists>u. queue_step {1, 2, 3} 1 False t u) \<and>
     qp_Count t = of_nat (length (qp_list t)) \<and> card (qp_used t) = length (qp_list t) + 1"
proof -
  obtain s :: "nat Queue" where s: "reachable (queue_init {1, 2, 3} 1) (any_queue_step {1, 2, 3} 1) s"
    "qp_threads s = {#ELink 2 7 1 (tag 0)#}" "qp_tags s = 1" "qp_changes s = 0" by (rule first_enq)
  have b: "qp_tags s + 1 < 2 ^ 63 - 2 ^ 43" "qp_changes s + 1 < 2 ^ 64" using s(3,4) by simp_all
  note live = queue_protocol_live [OF s(1) b]
  obtain t where "(queue_step {1, 2, 3} 1 False)\<^sup>*\<^sup>* s t" "\<nexists>u. queue_step {1, 2, 3} 1 False t u" using live by blast
  with live s show ?thesis by blast
qed

end
