(* ===== verification/SmartPacket.thy ===== *)
theory SmartPacket
  imports PacketPool "HOL-Library.Multiset"
begin

text \<open>
  \<^verbatim>\<open>SmartLanPacket\<close> of SerializeBuffer.cpp: a handle on a packet with a shared count in a \<^verbatim>\<open>LONG\<close> of
  its own on the heap.  \<open>sw_counts\<close> holds the \<^verbatim>\<open>LONG\<close>s that exist, \<open>sw_pool\<close> the packets; the address
  \<^verbatim>\<open>new\<close> returns is an argument.  Destructor, copy and assignment act on handles as the compiler calls
  them.  The class is compiled but, with \<^verbatim>\<open>SMART_PACKET_USE\<close> 0, the server passes plain pointers.
\<close>

section \<open>Handles\<close>

record SmartLanPacket =
  sp_Packet :: "objptr option"
  sp_RefCount :: "addr option"

record SmartWorld =
  sw_counts :: "addr \<rightharpoonup> 32 word"
  sw_pool :: LanPacketPool

definition SmartLanPacket_default :: SmartLanPacket where
  "SmartLanPacket_default = \<lparr>sp_Packet = None, sp_RefCount = None\<rparr>"

definition SmartLanPacket_new :: "addr \<Rightarrow> objptr option \<Rightarrow> SmartWorld \<Rightarrow> SmartLanPacket \<times> SmartWorld" where
  "SmartLanPacket_new a packet w =
     (if packet \<noteq> None
      then (\<lparr>sp_Packet = packet, sp_RefCount = Some a\<rparr>, w\<lparr>sw_counts := (sw_counts w)(a \<mapsto> 1)\<rparr>)
      else (\<lparr>sp_Packet = None, sp_RefCount = None\<rparr>, w))"

text \<open>The test for a negative count behind the test for zero is the code's.\<close>

definition SmartLanPacket_delete :: "SmartLanPacket \<Rightarrow> SmartWorld \<Rightarrow> SmartWorld run" where
  "SmartLanPacket_delete h w =
     (case sp_RefCount h of
        None \<Rightarrow> Inr w
      | Some a \<Rightarrow>
          (case sw_counts w a of
             None \<Rightarrow> Inl OutOfBounds
           | Some c \<Rightarrow>
               let w = w\<lparr>sw_counts := (sw_counts w)(a \<mapsto> c - 1)\<rparr> in
               if c - 1 = 0 then
                 if c - 1 <s 0 then Inl NullDeref
                 else bnd (case sp_Packet h of None \<Rightarrow> Inr w
                           | Some p \<Rightarrow> bnd (LanPacket_Free p (sw_pool w)) (\<lambda>pool. Inr (w\<lparr>sw_pool := pool\<rparr>)))
                        (\<lambda>w. Inr (w\<lparr>sw_counts := (sw_counts w)(a := None)\<rparr>))
               else Inr w))"

definition SmartLanPacket_copy :: "SmartLanPacket \<Rightarrow> SmartWorld \<Rightarrow> (SmartLanPacket \<times> SmartWorld) run" where
  "SmartLanPacket_copy rhs w =
     (case sp_RefCount rhs of
        None \<Rightarrow> Inr (rhs, w)
      | Some a \<Rightarrow> (case sw_counts w a of None \<Rightarrow> Inl OutOfBounds
                   | Some c \<Rightarrow> Inr (rhs, w\<lparr>sw_counts := (sw_counts w)(a \<mapsto> c + 1)\<rparr>)))"

definition SmartLanPacket_assign :: "SmartLanPacket \<Rightarrow> SmartLanPacket \<Rightarrow> SmartWorld \<Rightarrow> (SmartLanPacket \<times> SmartWorld) run" where
  "SmartLanPacket_assign lhs rhs w =
     (let lhs = lhs\<lparr>sp_Packet := sp_Packet rhs, sp_RefCount := sp_RefCount rhs\<rparr> in
      case sp_RefCount lhs of
        None \<Rightarrow> Inr (lhs, w)
      | Some a \<Rightarrow> (case sw_counts w a of None \<Rightarrow> Inl OutOfBounds
                   | Some c \<Rightarrow> Inr (lhs, w\<lparr>sw_counts := (sw_counts w)(a \<mapsto> c + 1)\<rparr>)))"

section \<open>The pool of the other packet class\<close>

lemma LanPacket_Free_ok:
  assumes inv: "mp_inv s U" and p: "p \<in> U"
  shows "\<exists>s'. LanPacket_Free p s = Inr s' \<and> mp_inv s' (U - {p}) \<and> (\<forall>q\<in>U - {p}. mp_get s' q = mp_get s q)"
proof -
  note put = mp_put_ok [OF inv p, where d = "LanPacket_Clear (mp_get s p)"]
  have "mp_object s p \<noteq> None" using pool_data_used [OF inv p] by (auto simp: pool_data_def)
  then show ?thesis using MemoryPool_Free_ok [OF put(1) p, of id] put(3) by (auto simp: LanPacket_Free_def)
qed

interpretation lan_packets: object_pool mp_inv mp_get LanPacket_Alloc LanPacket_Free
proof unfold_locales
  show "\<And>s U t. mp_inv s U \<Longrightarrow> \<exists>p s'. LanPacket_Alloc t s = Inr (p, s') \<and> p \<notin> U \<and>
      mp_inv s' (insert p U) \<and> (\<forall>q\<in>U. mp_get s' q = mp_get s q)"
    unfolding LanPacket_Alloc_def by (rule MemoryPool_Alloc_ok)
qed (erule (1) LanPacket_Free_ok)

section \<open>Counting handles\<close>

definition smart_refs :: "addr \<Rightarrow> SmartLanPacket multiset \<Rightarrow> nat" where
  "smart_refs a H = size (filter_mset (\<lambda>h. sp_RefCount h = Some a) H)"

lemma smart_refs_simps [simp]: "smart_refs a {#} = 0" "smart_refs a (add_mset h H) = (if sp_RefCount h = Some a then Suc (smart_refs a H) else smart_refs a H)"
  by (simp_all add: smart_refs_def)

lemma smart_refs_size: "smart_refs a H \<le> size H"
  unfolding smart_refs_def by (rule size_filter_mset_lesseq)

lemma smart_refs_0: "smart_refs a H = 0 \<longleftrightarrow> (\<forall>h\<in>#H. sp_RefCount h \<noteq> Some a)"
  by (induction H) auto

text \<open>
  \<open>own\<close> says which packet a count is for.  \<open>H\<close> are the handles alive, \<open>U\<close> the packets taken from the
  pool.
\<close>

definition handle_ok :: "(addr \<rightharpoonup> objptr) \<Rightarrow> SmartLanPacket \<Rightarrow> bool" where
  "handle_ok own h \<longleftrightarrow> (case sp_RefCount h of None \<Rightarrow> sp_Packet h = None
     | Some a \<Rightarrow> own a \<noteq> None \<and> sp_Packet h = own a)"

lemma handle_ok_other: "handle_ok own h \<Longrightarrow> sp_RefCount h \<noteq> Some a \<Longrightarrow> handle_ok (own(a := x)) h"
  by (cases "sp_RefCount h") (auto simp: handle_ok_def)

definition smart_inv :: "(addr \<rightharpoonup> objptr) \<Rightarrow> objptr set \<Rightarrow> SmartLanPacket multiset \<Rightarrow> SmartWorld \<Rightarrow> bool" where
  "smart_inv own U H w \<longleftrightarrow> mp_inv (sw_pool w) U \<and> (\<forall>h\<in>#H. handle_ok own h) \<and>
     (\<forall>a. sw_counts w a = (if own a = None then None else Some (of_nat (smart_refs a H)))) \<and>
     (\<forall>a. own a \<noteq> None \<longrightarrow> 0 < smart_refs a H) \<and> inj_on own (dom own) \<and> ran own \<subseteq> U \<and> size H < 2 ^ 31"

lemma of_nat_32_zero: "k < 2 ^ 31 \<Longrightarrow> (of_nat k :: 32 word) = 0 \<longleftrightarrow> k = 0"
  by (simp add: word_unat_eq_iff unat_of_nat)

lemma SmartLanPacket_new_ok:
  assumes inv: "smart_inv own U H w" and "own a = None" "p \<in> U" "p \<notin> ran own" "Suc (size H) < 2 ^ 31"
  shows "\<exists>h w'. SmartLanPacket_new a (Some p) w = (h, w') \<and> sp_Packet h = Some p \<and>
           smart_inv (own(a \<mapsto> p)) U (add_mset h H) w'"
proof -
  have none: "\<forall>h\<in>#H. sp_RefCount h \<noteq> Some a" using inv assms(2) by (fastforce simp: smart_inv_def handle_ok_def)
  then have z: "smart_refs a H = 0" by (simp add: smart_refs_0)
  have "inj_on (own(a \<mapsto> p)) (dom (own(a \<mapsto> p)))"
    using inv assms(4) by (auto simp: smart_inv_def inj_on_def ran_def)
  moreover have "handle_ok (own(a \<mapsto> p)) h" if "h \<in># H" for h
    by (rule handle_ok_other) (use inv none that in \<open>simp_all add: smart_inv_def\<close>)
  moreover have "ran (own(a \<mapsto> p)) \<subseteq> U" using inv assms(2,3) by (auto simp: smart_inv_def ran_def)
  ultimately show ?thesis using inv assms(2,5) z
    by (auto simp: SmartLanPacket_new_def smart_inv_def) (simp_all add: handle_ok_def)
qed

lemma SmartLanPacket_copy_ok:
  assumes inv: "smart_inv own U H w" and r: "r \<in># H" "Suc (size H) < 2 ^ 31"
  shows "\<exists>w'. SmartLanPacket_copy r w = Inr (r, w') \<and> smart_inv own U (add_mset r H) w'"
proof (cases "sp_RefCount r")
  case None
  then show ?thesis using inv r by (simp add: SmartLanPacket_copy_def smart_inv_def)
next
  case (Some a)
  have o: "own a \<noteq> None" using inv r(1) Some by (auto simp: smart_inv_def handle_ok_def)
  then have "sw_counts w a = Some (of_nat (smart_refs a H))" using inv by (simp add: smart_inv_def)
  then show ?thesis using inv r Some o by (simp add: SmartLanPacket_copy_def smart_inv_def)
qed

lemma SmartLanPacket_delete_ok:
  assumes inv: "smart_inv own U (add_mset h H) w"
  shows "\<exists>w'. SmartLanPacket_delete h w = Inr w' \<and>
    (case sp_RefCount h of None \<Rightarrow> smart_inv own U H w'
     | Some a \<Rightarrow> if smart_refs a H = 0 then smart_inv (own(a := None)) (U - set_option (sp_Packet h)) H w' else smart_inv own U H w')"
proof (cases "sp_RefCount h")
  case None
  then show ?thesis using inv by (auto simp: SmartLanPacket_delete_def smart_inv_def)
next
  case (Some a)
  obtain p where p: "own a = Some p" "sp_Packet h = Some p" using inv Some by (auto simp: smart_inv_def handle_ok_def)
  have c: "sw_counts w a = Some (of_nat (Suc (smart_refs a H)))" using inv Some p(1) by (simp add: smart_inv_def)
  have pU: "p \<in> U" using inv p(1) by (auto simp: smart_inv_def ran_def)
  have small: "smart_refs a H < 2 ^ 31" using smart_refs_size [of a H] inv by (simp add: smart_inv_def)
  have pos: "0 < smart_refs b H" if "own b \<noteq> None" "b \<noteq> a" for b
  proof -
    have "0 < smart_refs b (add_mset h H)" using inv that(1) by (simp add: smart_inv_def)
    then show ?thesis using that(2) Some by simp
  qed
  show ?thesis
  proof (cases "smart_refs a H = 0")
    case True
    have "mp_inv (sw_pool w) U" using inv by (simp add: smart_inv_def)
    from LanPacket_Free_ok [OF this pU] obtain pool where f: "LanPacket_Free p (sw_pool w) = Inr pool" "mp_inv pool (U - {p})" by blast
    let ?w = "w\<lparr>sw_counts := (sw_counts w)(a := None), sw_pool := pool\<rparr>"
    have d: "SmartLanPacket_delete h w = Inr ?w" using Some c True p(2) f(1) by (simp add: SmartLanPacket_delete_def)
    have "p \<notin> ran (own(a := None))" using inv p(1) by (auto simp: smart_inv_def ran_def inj_on_def split: if_splits) (metis domI option.inject)
    then have "ran (own(a := None)) \<subseteq> U - {p}" using inv by (auto simp: smart_inv_def ran_def split: if_splits)
    moreover have "inj_on (own(a := None)) (dom (own(a := None)))" using inv by (auto simp: smart_inv_def inj_on_def)
    moreover have "handle_ok (own(a := None)) k" if "k \<in># H" for k
      by (rule handle_ok_other) (use inv True that in \<open>simp_all add: smart_inv_def smart_refs_0\<close>)
    moreover note pos
    ultimately have "smart_inv (own(a := None)) (U - {p}) H ?w"
      using inv f(2) Some unfolding smart_inv_def by (simp split: if_splits)
    then show ?thesis using d Some True p(2) by simp
  next
    case False
    have "(of_nat (smart_refs a H) :: 32 word) \<noteq> 0" using of_nat_32_zero [OF small] False by simp
    then have "SmartLanPacket_delete h w = Inr (w\<lparr>sw_counts := (sw_counts w)(a \<mapsto> of_nat (smart_refs a H))\<rparr>)"
      using Some c by (simp add: SmartLanPacket_delete_def)
    moreover have "smart_inv own U H (w\<lparr>sw_counts := (sw_counts w)(a \<mapsto> of_nat (smart_refs a H))\<rparr>)"
    proof -
      have "0 < smart_refs b H" if "own b \<noteq> None" for b using pos [OF that] False by (cases "b = a") simp_all
      then show ?thesis using inv Some p(1) unfolding smart_inv_def by simp
    qed
    ultimately show ?thesis using Some False by simp
  qed
qed

text \<open>
  Assignment to an empty handle counts one handle more.  Assignment to the last handle of a packet
  forgets that packet without counting down: its count stays at one with no handle left, so it never
  goes back to the pool.
\<close>

lemma SmartLanPacket_assign_empty:
  assumes inv: "smart_inv own U (add_mset l H) w" and r: "r \<in># H" and l: "sp_RefCount l = None" and size: "Suc (size H) < 2 ^ 31"
  shows "\<exists>l' w'. SmartLanPacket_assign l r w = Inr (l', w') \<and> sp_Packet l' = sp_Packet r \<and> smart_inv own U (add_mset l' H) w'"
proof -
  have H: "smart_inv own U H w" using inv l size by (simp add: smart_inv_def)
  have e: "l\<lparr>sp_Packet := sp_Packet r, sp_RefCount := sp_RefCount r\<rparr> = r" by (cases l; cases r) simp
  have "SmartLanPacket_assign l r w = SmartLanPacket_copy r w"
    by (simp add: SmartLanPacket_assign_def SmartLanPacket_copy_def e)
  then show ?thesis using SmartLanPacket_copy_ok [OF H r size] by auto
qed

lemma SmartLanPacket_assign_leaks:
  assumes inv: "smart_inv own U (add_mset l H) w" and r: "r \<in># H" "sp_RefCount r = Some b"
    and l: "sp_RefCount l = Some a" "smart_refs a H = 0"
  shows "\<exists>l' w'. SmartLanPacket_assign l r w = Inr (l', w') \<and> smart_refs a (add_mset l' H) = 0 \<and> sw_counts w' a = Some 1 \<and>
           sw_pool w' = sw_pool w"
proof -
  have ab: "a \<noteq> b" using l(2) r by (auto simp: smart_refs_0)
  have o: "own a \<noteq> None" "own b \<noteq> None" using inv l(1) r by (auto simp: smart_inv_def handle_ok_def)
  have c: "sw_counts w a = Some (of_nat (Suc (smart_refs a H)))" "sw_counts w b = Some (of_nat (smart_refs b H))"
    using inv o l(1) ab by (simp_all add: smart_inv_def)
  then show ?thesis using l r ab by (simp add: SmartLanPacket_assign_def)
qed

lemma SmartLanPacket_default_ok: "smart_inv own U H w \<Longrightarrow> Suc (size H) < 2 ^ 31 \<Longrightarrow> smart_inv own U (add_mset SmartLanPacket_default H) w"
  by (simp add: smart_inv_def handle_ok_def SmartLanPacket_default_def)

end
