(* ===== verification/WideText.thy ===== *)
theory WideText
  imports Prelude
begin

text \<open>
  The C runtime's formatted output as the program uses it.  A \<^verbatim>\<open>WCHAR\<close> string is the list of
  its 16 bit units up to the terminating null, a format literal is written with \<^term>\<open>wide\<close>.
  \<open>vprintf\<close> interprets the directives that occur in the program's formats (decimal, unsigned
  and hexadecimal integers with a width and zero padding, strings, percent signs); a directive
  it does not know, one whose argument is missing or one whose argument has the wrong kind is
  undefined behaviour.
\<close>

type_synonym wchar = "16 word"
type_synonym wtext = "wchar list"

definition wide :: "string \<Rightarrow> wtext" where
  "wide s = map of_char s"

datatype farg = IntArg int | TextArg wtext

section \<open>Numerals\<close>

definition digit_char :: "nat \<Rightarrow> wchar" where
  "digit_char d = of_nat (if d < 10 then 48 + d else 87 + d)"

function digits :: "nat \<Rightarrow> nat \<Rightarrow> wtext" where
  "digits b n =
     (if n < b \<or> b < 2 then [digit_char n] else digits b (n div b) @ [digit_char (n mod b)])"
  by auto
termination by (relation "measure snd") (auto simp: not_le)

declare digits.simps [simp del]

text \<open>A width pads on the left: with zeros behind the sign, or with blanks before it.\<close>

definition padded :: "bool \<Rightarrow> nat \<Rightarrow> wtext \<Rightarrow> wtext \<Rightarrow> wtext" where
  "padded zero width sign ds =
     (let fill = width - (length sign + length ds)
      in if zero then sign @ replicate fill 48 @ ds else replicate fill 32 @ sign @ ds)"

definition decimal :: "bool \<Rightarrow> nat \<Rightarrow> int \<Rightarrow> wtext" where
  "decimal zero width i =
     padded zero width (if i < 0 then wide ''-'' else []) (digits 10 (nat \<bar>i\<bar>))"

section \<open>Directives\<close>

text \<open>
  An integer argument travels in an eight byte slot; without \<^verbatim>\<open>ll\<close> the low four bytes are
  read.
\<close>

definition int_argument :: "bool \<Rightarrow> bool \<Rightarrow> int \<Rightarrow> int" where
  "int_argument sg long i =
     (if long then (if sg then sint (word_of_int i :: 64 word) else uint (word_of_int i :: 64 word))
      else (if sg then sint (word_of_int i :: 32 word) else uint (word_of_int i :: 32 word)))"

definition directive :: "bool \<Rightarrow> nat \<Rightarrow> bool \<Rightarrow> wchar \<Rightarrow> farg \<Rightarrow> wtext run" where
  "directive zero width long k a =
     (case a of
        IntArg i \<Rightarrow>
          if k = of_char (CHR ''d'') then Inr (decimal zero width (int_argument True long i))
          else if k = of_char (CHR ''u'') then Inr (decimal zero width (int_argument False long i))
          else if k = of_char (CHR ''x'')
            then Inr (padded zero width [] (digits 16 (nat (int_argument False long i))))
          else Inl Undefined
      | TextArg t \<Rightarrow>
          if k = of_char (CHR ''s'') then Inr (padded zero width [] t) else Inl Undefined)"

definition zero_flag :: "wtext \<Rightarrow> bool \<times> wtext" where
  "zero_flag cs =
     (case cs of [] \<Rightarrow> (False, []) | c # r \<Rightarrow> if c = 48 then (True, r) else (False, cs))"

definition is_digit :: "wchar \<Rightarrow> bool" where
  "is_digit c = (48 \<le> c \<and> c \<le> 57)"

definition field_width :: "wtext \<Rightarrow> nat \<times> wtext" where
  "field_width cs =
     (foldl (\<lambda>n c. 10 * n + unat (c - 48)) 0 (takeWhile is_digit cs), dropWhile is_digit cs)"

definition long_flag :: "wtext \<Rightarrow> bool \<times> wtext" where
  "long_flag cs = (if take 2 cs = wide ''ll'' then (True, drop 2 cs) else (False, cs))"

lemma directive_shorter:
  "length (snd (zero_flag cs)) \<le> length cs"
  "length (snd (field_width cs)) \<le> length cs"
  "length (snd (long_flag cs)) \<le> length cs"
  by (simp_all add: zero_flag_def field_width_def long_flag_def length_dropWhile_le split: list.split)

text \<open>What stands between the percent sign and the conversion letter, read left to right.\<close>

definition directive_head :: "wtext \<Rightarrow> (bool \<times> nat \<times> bool) \<times> wtext" where
  "directive_head cs =
     (let (z, cs1) = zero_flag cs; (w, cs2) = field_width cs1; (l, cs3) = long_flag cs2
      in ((z, w, l), cs3))"

lemma directive_head_shorter: "directive_head cs = (zwl, cs') \<Longrightarrow> length cs' < Suc (length cs)"
  using directive_shorter(1) [of cs] directive_shorter(2) [of "snd (zero_flag cs)"]
    directive_shorter(3) [of "snd (field_width (snd (zero_flag cs)))"]
  by (auto simp: directive_head_def split: prod.splits)

function vprintf :: "wtext \<Rightarrow> farg list \<Rightarrow> wtext run" where
  "vprintf [] va = Inr []"
| "vprintf (c # cs) va =
     (if c \<noteq> of_char (CHR ''%'') then bnd (vprintf cs va) (\<lambda>t. Inr (c # t))
      else if take 1 cs = wide ''%'' then bnd (vprintf (drop 1 cs) va) (\<lambda>t. Inr (c # t))
      else case directive_head cs of
             ((z, w, l), k # rest) \<Rightarrow>
               (case va of
                  [] \<Rightarrow> Inl Undefined
                | a # va' \<Rightarrow> bnd (directive z w l k a) (\<lambda>t.
                            bnd (vprintf rest va') (\<lambda>u. Inr (t @ u))))
           | ((z, w, l), []) \<Rightarrow> Inl Undefined)"
  by pat_completeness auto
termination
  by (relation "measure (\<lambda>(cs, va). length cs)")
    (auto dest!: sym [of "((_, _, _), _)"] dest: directive_head_shorter)

text \<open>
  \<^verbatim>\<open>StringCchVPrintf\<close> into a buffer of \<open>n\<close> units: the result says whether the text was cut
  (\<^verbatim>\<open>STRSAFE_E_INSUFFICIENT_BUFFER\<close>), the buffer always ends in a null.
\<close>

definition StringCchVPrintf :: "nat \<Rightarrow> wtext \<Rightarrow> farg list \<Rightarrow> (bool \<times> wtext) run" where
  "StringCchVPrintf n fmt va =
     bnd (vprintf fmt va) (\<lambda>t. Inr (\<not> length t < n, take (n - 1) t))"

section \<open>What a format without directives prints\<close>

lemma vprintf_append:
  "of_char (CHR ''%'') \<notin> set t \<Longrightarrow> vprintf (t @ u) va = bnd (vprintf u va) (\<lambda>v. Inr (t @ v))"
proof (induction t)
  case Nil
  then show ?case by (cases "vprintf u va") simp_all
next
  case (Cons c t)
  then have "c \<noteq> of_char (CHR ''%'')" and "of_char (CHR ''%'') \<notin> set t" by auto
  with Cons.IH show ?case by (cases "vprintf u va") simp_all
qed

lemma vprintf_plain: "of_char (CHR ''%'') \<notin> set t \<Longrightarrow> vprintf t va = Inr t"
  using vprintf_append [of t "[]" va] by simp

text \<open>A directive without an argument is undefined, whatever stands around it.\<close>

lemma vprintf_missing_argument:
  assumes "of_char (CHR ''%'') \<notin> set t" and "take 1 u \<noteq> wide ''%''"
  shows "vprintf (t @ of_char (CHR ''%'') # u) [] = Inl Undefined"
proof -
  have "vprintf (of_char (CHR ''%'') # u) [] = Inl Undefined"
    using assms(2) by (simp split: prod.split list.split)
  with vprintf_append [OF assms(1)] show ?thesis by simp
qed

lemma StringCchVPrintf_fits:
  "vprintf fmt va = Inr t \<Longrightarrow> length t < n \<Longrightarrow> StringCchVPrintf n fmt va = Inr (False, t)"
  by (simp add: StringCchVPrintf_def)

lemma StringCchVPrintf_cut:
  "vprintf fmt va = Inr t \<Longrightarrow> n \<le> length t \<Longrightarrow>
     StringCchVPrintf n fmt va = Inr (True, take (n - 1) t)"
  by (simp add: StringCchVPrintf_def)

section \<open>Reading numerals back\<close>

definition digit_value :: "wchar \<Rightarrow> nat" where
  "digit_value c = (if c < 58 then unat c - 48 else unat c - 87)"

definition read_digits :: "nat \<Rightarrow> wtext \<Rightarrow> nat" where
  "read_digits b = foldl (\<lambda>n c. b * n + digit_value c) 0"

lemma read_digits_snoc [simp]: "read_digits b (cs @ [c]) = b * read_digits b cs + digit_value c"
  by (simp add: read_digits_def)

lemma digit_value_char: "d < 16 \<Longrightarrow> digit_value (digit_char d) = d"
  by (auto simp: digit_value_def digit_char_def word_less_nat_alt unat_of_nat)

lemma read_digits_digits:
  "2 \<le> b \<Longrightarrow> b \<le> 16 \<Longrightarrow> read_digits b (digits b n) = n"
proof (induction b n rule: digits.induct)
  case (1 b n)
  show ?case
  proof (cases "n < b")
    case True
    with 1(2,3) show ?thesis
      by (simp add: digits.simps [of b n] read_digits_def digit_value_char)
  next
    case False
    have "n mod b < b" using 1(2) by simp
    with 1(3) have "digit_value (digit_char (n mod b)) = n mod b"
      by (simp add: digit_value_char)
    with 1 False show ?thesis by (subst digits.simps) (simp add: not_less)
  qed
qed

text \<open>Zeros in front of a numeral do not change what it denotes.\<close>

lemma read_digits_zeros: "read_digits b (replicate k 48 @ ds) = read_digits b ds"
proof (induction k)
  case (Suc k)
  have "read_digits b (48 # cs) = read_digits b cs" for cs
    by (simp add: read_digits_def digit_value_def)
  with Suc show ?case by simp
qed simp

lemma length_digits:
  "2 \<le> b \<Longrightarrow> n < b ^ Suc k \<Longrightarrow> length (digits b n) \<le> Suc k"
proof (induction k arbitrary: n)
  case 0
  then show ?case by (simp add: digits.simps [of b n])
next
  case (Suc k)
  show ?case
  proof (cases "n < b")
    case True
    then show ?thesis by (simp add: digits.simps [of b n])
  next
    case False
    have "n div b < b ^ Suc k"
      using Suc.prems by (simp add: less_mult_imp_div_less mult.commute)
    from Suc.IH [OF Suc.prems(1) this] False Suc.prems(1) show ?thesis
      by (subst digits.simps) simp
  qed
qed

lemma digit_char_no_percent: "d < 16 \<Longrightarrow> of_char (CHR ''%'') \<noteq> digit_char d"
  by (auto simp: digit_char_def word_unat_eq_iff unat_of_nat)

lemma digits_no_percent:
  "2 \<le> b \<Longrightarrow> b \<le> 16 \<Longrightarrow> of_char (CHR ''%'') \<notin> set (digits b n)"
proof (induction b n rule: digits.induct)
  case (1 b n)
  show ?case
  proof (cases "n < b")
    case True
    with 1(2,3) digit_char_no_percent [of n] show ?thesis
      by (simp add: digits.simps [of b n])
  next
    case False
    have "n mod b < 16" using 1(2,3) mod_less_divisor [of b n] by linarith
    with 1 False digit_char_no_percent [of "n mod b"] show ?thesis
      by (subst digits.simps) (simp add: not_less)
  qed
qed

lemmas printf_simps =
  wide_def directive_head_def zero_flag_def field_width_def long_flag_def is_digit_def
  directive_def padded_def

end
