(* ===== verification/SystemReports.thy ===== *)
theory SystemReports
  imports WideText Complex_Main
begin

text \<open>
  What the program has of its own in MonitorPDH.cpp and MemoryDump.h: the counters it asks the
  performance data helper for and how it reads them, and the exception filter that writes a dump.
  The helper (PDH) and the dump library are the system's: the helper is a record of functions on a
  state of its own, a dump written is the name of its file.
\<close>

section \<open>Performance counters\<close>

type_synonym pdh = nat

text \<open>
  \<open>PdhGetLarge\<close> and \<open>PdhGetDouble\<close> are \<^verbatim>\<open>PdhGetFormattedCounterValue\<close> with the two formats the program
  asks for; \<^const>\<open>None\<close> is a status other than success, which leaves the caller's variable alone.
\<close>

record 'o pdh_api =
  PdhOpenQuery :: "'o \<Rightarrow> pdh \<times> 'o"
  PdhAddCounter :: "pdh \<Rightarrow> wtext \<Rightarrow> 'o \<Rightarrow> pdh \<times> 'o"
  PdhCollectQueryData :: "pdh \<Rightarrow> 'o \<Rightarrow> 'o"
  PdhGetLarge :: "pdh \<Rightarrow> 'o \<Rightarrow> 64 word option"
  PdhGetDouble :: "pdh \<Rightarrow> 'o \<Rightarrow> rat option"

record MonitorPDH =
  m_MemQuery :: pdh
  m_MemCounter :: pdh
  m_NPMemQuery :: pdh
  m_NPMemCounter :: pdh
  m_AvailableMemQuery :: pdh
  m_AvailableMemCounter :: pdh
  m_TCPRetransQuery :: pdh
  m_TCPRetransCounter :: pdh

definition MAX_PATH :: nat where
  "MAX_PATH = 260"

text \<open>
  The name of the program's file up to its first dot; when the system does not tell it the array
  keeps its initial text.
\<close>

definition process_name :: "wtext option \<Rightarrow> wtext" where
  "process_name base = takeWhile (\<lambda>c. c \<noteq> of_char (CHR ''.'')) (case base of None \<Rightarrow> wide ''PDH'' | Some t \<Rightarrow> t)"

definition slash :: wtext where
  "slash = [0x5C]"

definition open_counter :: "'o pdh_api \<Rightarrow> wtext \<Rightarrow> 'o \<Rightarrow> (pdh \<times> pdh) \<times> 'o" where
  "open_counter api path os =
     (let (query, os) = PdhOpenQuery api os;
          (counter, os) = PdhAddCounter api query path os;
          os = PdhCollectQueryData api query os
      in ((query, counter), os))"

definition MonitorPDH_new :: "'o pdh_api \<Rightarrow> wtext option \<Rightarrow> 'o \<Rightarrow> (MonitorPDH \<times> 'o) run" where
  "MonitorPDH_new api base os =
     bnd (vprintf (slash @ wide ''Process(%s)'' @ slash @ wide ''Private Bytes'') [TextArg (process_name base)]) (\<lambda>mem.
     let ((q1, c1), os) = open_counter api mem os;
         ((q2, c2), os) = open_counter api (slash @ wide ''Memory'' @ slash @ wide ''Pool Nonpaged Bytes'') os;
         ((q3, c3), os) = open_counter api (slash @ wide ''Memory'' @ slash @ wide ''Available MBytes'') os;
         ((q4, c4), os) = open_counter api (slash @ wide ''TCPv4'' @ slash @ wide ''Segments Retransmitted/sec'') os
     in Inr (\<lparr>m_MemQuery = q1, m_MemCounter = c1, m_NPMemQuery = q2, m_NPMemCounter = c2,
             m_AvailableMemQuery = q3, m_AvailableMemCounter = c3, m_TCPRetransQuery = q4, m_TCPRetransCounter = c4\<rparr>, os))"

definition ReNewPDH :: "'o pdh_api \<Rightarrow> MonitorPDH \<Rightarrow> 'o \<Rightarrow> 'o" where
  "ReNewPDH api m os =
     PdhCollectQueryData api (m_TCPRetransQuery m) (PdhCollectQueryData api (m_AvailableMemQuery m)
       (PdhCollectQueryData api (m_NPMemQuery m) (PdhCollectQueryData api (m_MemQuery m) os)))"

text \<open>The status is not looked at: without a value the variable read is uninitialised.\<close>

definition counter_value :: "'v option \<Rightarrow> 'v run" where
  "counter_value v = (case v of None \<Rightarrow> Inl Undefined | Some x \<Rightarrow> Inr x)"

definition GetPrivateMemory :: "'o pdh_api \<Rightarrow> MonitorPDH \<Rightarrow> 'o \<Rightarrow> 64 word run" where
  "GetPrivateMemory api m os = counter_value (PdhGetLarge api (m_MemCounter m) os)"

definition GetNPMemory :: "'o pdh_api \<Rightarrow> MonitorPDH \<Rightarrow> 'o \<Rightarrow> 64 word run" where
  "GetNPMemory api m os = counter_value (PdhGetLarge api (m_NPMemCounter m) os)"

definition GetAvailableMemory :: "'o pdh_api \<Rightarrow> MonitorPDH \<Rightarrow> 'o \<Rightarrow> rat run" where
  "GetAvailableMemory api m os = counter_value (PdhGetDouble api (m_AvailableMemCounter m) os)"

definition GetTCPRetrans :: "'o pdh_api \<Rightarrow> MonitorPDH \<Rightarrow> 'o \<Rightarrow> 64 word run" where
  "GetTCPRetrans api m os = counter_value (PdhGetLarge api (m_TCPRetransCounter m) os)"

section \<open>Crash dumps\<close>

record SYSTEMTIME =
  wYear :: "16 word"
  wMonth :: "16 word"
  wDay :: "16 word"
  wHour :: "16 word"
  wMinute :: "16 word"
  wSecond :: "16 word"

text \<open>What the system answers the filter: a handle on the process, its working set, whether the file opens.\<close>

record dump_env =
  de_process :: bool
  de_working_set :: "64 word option"
  de_file :: bool
  de_time :: SYSTEMTIME

definition dump_name :: "SYSTEMTIME \<Rightarrow> 32 word \<Rightarrow> 32 word \<Rightarrow> wtext run" where
  "dump_name t dumpCount workingMemory =
     vprintf (wide ''Dump_%d%02d%02d_%02d.%02d.%02d_%d_%dMB.dmp'')
       [IntArg (uint (wYear t)), IntArg (uint (wMonth t)), IntArg (uint (wDay t)), IntArg (uint (wHour t)),
        IntArg (uint (wMinute t)), IntArg (uint (wSecond t)), IntArg (sint dumpCount), IntArg (sint workingMemory)]"

text \<open>The filter's result, the dumps it wrote (none or one) and the new count; 1 is \<^verbatim>\<open>EXCEPTION_EXECUTE_HANDLER\<close>.\<close>

definition MyExceptionFilter :: "dump_env \<Rightarrow> 32 word \<Rightarrow> (int \<times> wtext list \<times> 32 word) run" where
  "MyExceptionFilter e m_DumpCount =
     (let dumpCount = m_DumpCount + 1 in
      if \<not> de_process e then Inr (0, [], dumpCount)
      else
        let workingMemory = (case de_working_set e of None \<Rightarrow> 0 | Some bytes \<Rightarrow> ucast (bytes div 1024 div 1024)) in
        bnd (dump_name (de_time e) dumpCount workingMemory) (\<lambda>fileName.
          Inr (1, if de_file e then [fileName] else [], dumpCount)))"

text \<open>The handlers installed for invalid parameters, report hooks and pure virtual calls all crash, so that the filter runs.\<close>

definition CrashDump_Crash :: "unit run" where
  "CrashDump_Crash = Inl NullDeref"

definition myInvalidParameterHandler :: "unit run" where
  "myInvalidParameterHandler = CrashDump_Crash"

definition custom_Report_hook :: "bool run" where
  "custom_Report_hook = bnd CrashDump_Crash (\<lambda>_. Inr True)"

definition myPurecallHandler :: "unit run" where
  "myPurecallHandler = CrashDump_Crash"

section \<open>What they do\<close>

text \<open>The path with the program's name fits the array of 500 units, and the constructor does not fault.\<close>

lemma counter_path:
  assumes "\<forall>t. base = Some t \<longrightarrow> length t < MAX_PATH"
  shows "\<exists>path. vprintf (slash @ wide ''Process(%s)'' @ slash @ wide ''Private Bytes'') [TextArg (process_name base)] = Inr path \<and>
    path = slash @ wide ''Process('' @ process_name base @ wide '')'' @ slash @ wide ''Private Bytes'' \<and> length path < 500"
proof -
  have "length (process_name base) < MAX_PATH"
  proof (cases base)
    case (Some t)
    then show ?thesis using assms length_takeWhile_le [of _ t] by (auto simp: process_name_def intro: le_less_trans)
  qed (simp add: process_name_def wide_def MAX_PATH_def)
  then show ?thesis by (simp add: slash_def printf_simps MAX_PATH_def)
qed

lemma process_name_no_dot: "of_char (CHR ''.'') \<notin> set (process_name base)"
  unfolding process_name_def by (auto dest: set_takeWhileD)

text \<open>
  A dump's name fits its array of \<^const>\<open>MAX_PATH\<close> units whatever the date and the counts, and every
  crash with a process handle and a file to write to leaves exactly one dump and counts it.
\<close>

lemma length_padded: "length (padded zero width sg ds) = max width (length sg + length ds)"
  by (simp add: padded_def Let_def max_def)

lemma length_decimal: "\<bar>i\<bar> < 10 ^ Suc k \<Longrightarrow> width \<le> Suc k \<Longrightarrow> length (decimal zero width i) \<le> Suc (Suc k)"
proof -
  assume a: "\<bar>i\<bar> < 10 ^ Suc k" "width \<le> Suc k"
  have "nat \<bar>i\<bar> < 10 ^ Suc k" using a(1) by (simp add: nat_less_iff)
  then have "length (digits 10 (nat \<bar>i\<bar>)) \<le> Suc k" by (intro length_digits) simp_all
  then show ?thesis using a(2) by (cases "i < 0") (simp_all add: decimal_def length_padded wide_def abs_if)
qed

lemma dump_name_text:
  "dump_name t n m = Inr (wide ''Dump_'' @ decimal False 0 (int_argument True False (uint (wYear t))) @
     decimal True 2 (int_argument True False (uint (wMonth t))) @ decimal True 2 (int_argument True False (uint (wDay t))) @ wide ''_'' @
     decimal True 2 (int_argument True False (uint (wHour t))) @ wide ''.'' @
     decimal True 2 (int_argument True False (uint (wMinute t))) @ wide ''.'' @
     decimal True 2 (int_argument True False (uint (wSecond t))) @ wide ''_'' @
     decimal False 0 (int_argument True False (sint n)) @ wide ''_'' @ decimal False 0 (int_argument True False (sint m)) @ wide ''MB.dmp'')"
  by (simp add: dump_name_def printf_simps)

lemma dump_name_fits: "\<exists>name. dump_name t n m = Inr name \<and> length name < MAX_PATH"
proof -
  have "length (decimal z w (int_argument True False i)) \<le> 11" if "w \<le> 2" for z w i
  proof -
    have "- (2 ^ 31) \<le> int_argument True False i" "int_argument True False i < 2 ^ 31"
      using sint_greater_eq [of "word_of_int i :: 32 word"] sint_less [of "word_of_int i :: 32 word"] by (simp_all add: int_argument_def)
    then have "\<bar>int_argument True False i\<bar> < 10 ^ Suc 9" by (simp add: abs_less_iff)
    then show ?thesis using length_decimal [of _ 9 w z] that by fastforce
  qed
  note d = this [of 0 False] this [of 2 True]
  show ?thesis unfolding dump_name_text MAX_PATH_def
    using d(1) [of "uint (wYear t)"] d(1) [of "sint n"] d(1) [of "sint m"] d(2) [of "uint (wMonth t)"] d(2) [of "uint (wDay t)"]
      d(2) [of "uint (wHour t)"] d(2) [of "uint (wMinute t)"] d(2) [of "uint (wSecond t)"]
    by (simp add: wide_def)
qed

lemma MyExceptionFilter_dumps:
  assumes "de_process e" and "de_file e"
  shows "\<exists>name. MyExceptionFilter e n = Inr (1, [name], n + 1) \<and> length name < MAX_PATH"
proof -
  let ?m = "case de_working_set e of None \<Rightarrow> 0 | Some bytes \<Rightarrow> ucast (bytes div 1024 div 1024)"
  obtain name where "dump_name (de_time e) (n + 1) ?m = Inr name" "length name < MAX_PATH"
    using dump_name_fits by blast
  then show ?thesis using assms by (simp add: MyExceptionFilter_def Let_def)
qed

text \<open>A counter without a value, as a rate has until two samples are taken, is an uninitialised variable to the caller.\<close>

lemma counter_value_undefined: "PdhGetLarge api (m_TCPRetransCounter m) os = None \<Longrightarrow> GetTCPRetrans api m os = Inl Undefined"
  by (simp add: GetTCPRetrans_def counter_value_def)

lemma MonitorPDH_new_returns:
  assumes "\<forall>t. base = Some t \<longrightarrow> length t < MAX_PATH"
  shows "\<exists>m os'. MonitorPDH_new api base os = Inr (m, os')"
  using counter_path [OF assms] by (auto simp: MonitorPDH_new_def Let_def split: prod.split)

end
