(* ===== verification/Replies.thy ===== *)
theory Replies
  imports PacketProcess PacketPool
begin

text \<open>
  The bytes of the replies: what the functions of PacketProcess.cpp write into an empty packet,
  and that a reply is ready to be sent.
\<close>

section \<open>Writing to a packet nobody has read or encoded\<close>

definition unread :: "NetPacket \<Rightarrow> bool" where
  "unread d \<longleftrightarrow> net_inv d \<and> m_ReadPos d = 0 \<and> \<not> m_bSetHeader d \<and> \<not> m_bEencode d"

text \<open>\<open>wrote d bs d'\<close>: the packet \<open>d'\<close> is \<open>d\<close> with \<open>bs\<close> appended.\<close>

definition wrote :: "NetPacket \<Rightarrow> byte list \<Rightarrow> NetPacket \<Rightarrow> bool" where
  "wrote d bs d' \<longleftrightarrow> unread d' \<and> payload d' = payload d @ bs \<and> m_RefCount d' = m_RefCount d"

lemma unread_size: "unread d \<Longrightarrow> int (length (payload d)) = m_PayloadSize d"
  using length_payload [of sizeof_NetHeader NetPacket_BUFFER_SIZE d] by (simp add: unread_def net_inv_def)

lemma unread_free:
  assumes "unread d"
  shows "m_PayloadFreeSize d = 295 - int (length (payload d))" "m_WritePos d = int (length (payload d))"
proof -
  have "m_PayloadFreeSize d = 295 - m_PayloadSize d" "m_WritePos d = m_PayloadSize d"
    using assms by (simp_all add: unread_def net_inv_def serbuf_inv_def packet_consts)
  then show "m_PayloadFreeSize d = 295 - int (length (payload d))" "m_WritePos d = int (length (payload d))"
    by (simp_all add: unread_size [OF assms])
qed

lemma fresh_unread: "fresh_packet d \<Longrightarrow> unread d \<and> payload d = []"
  by (simp add: fresh_packet_def unread_def payload_def)

lemma wrote_refl [simp]: "unread d \<Longrightarrow> wrote d [] d"
  by (simp add: wrote_def)

lemma put_scalar_encode: "put_scalar bs d = Inr d' \<Longrightarrow> m_bEencode d' = m_bEencode (d :: NetPacket)"
  by (auto simp: put_scalar_def run_simps Let_def split: if_splits)

lemma put_scalar_wrote:
  assumes "unread d" and "length (payload d) + length bs \<le> 295"
  shows "\<exists>d'. put_scalar bs d = Inr d' \<and> wrote d bs d'"
proof -
  have inv: "serbuf_inv sizeof_NetHeader NetPacket_BUFFER_SIZE d"
    using assms(1) by (simp add: unread_def net_inv_def)
  have "m_WritePos d + int (length bs) \<le> NetPacket_BUFFER_SIZE - sizeof_NetHeader"
    using assms unread_free(2) [OF assms(1)] by (simp add: packet_consts)
  from put_scalar_ok [OF inv this] obtain d' where d': "put_scalar bs d = Inr d'"
      "serbuf_inv sizeof_NetHeader NetPacket_BUFFER_SIZE d'" "payload d' = payload d @ bs"
      "m_ReadPos d' = m_ReadPos d" "m_RefCount d' = m_RefCount d" "m_bSetHeader d' = m_bSetHeader d" by blast
  with put_scalar_encode [OF d'(1)] assms(1) show ?thesis
    by (auto simp: wrote_def unread_def net_inv_def)
qed

lemma PutData_wrote:
  assumes "unread d" and "0 \<le> n" and "n \<le> int (length src)"
  shows "\<exists>d'. NetPacket_PutData src n d = Inr (min n (295 - int (length (payload d))), d') \<and>
    wrote d (take (nat (min n (295 - int (length (payload d))))) src) d'"
proof -
  have "net_inv d" "m_ReadPos d = 0" using assms(1) by (simp_all add: unread_def)
  from NetPacket_PutData_ok [OF this assms(2,3)] obtain d' where
      "NetPacket_PutData src n d = Inr (min n (m_PayloadFreeSize d), d')" "net_inv d'"
      "payload d' = payload d @ take (nat (min n (m_PayloadFreeSize d))) src" "m_ReadPos d' = 0"
      "m_bSetHeader d' = m_bSetHeader d" "m_bEencode d' = m_bEencode d" "m_RefCount d' = m_RefCount d" by metis
  with assms(1) show ?thesis by (auto simp: wrote_def unread_def unread_free(1))
qed

lemma wrote_trans: "wrote d as d' \<Longrightarrow> wrote d' bs d'' \<Longrightarrow> wrote d (as @ bs) d''"
  by (simp add: wrote_def)

lemma wroteD: "wrote d bs d' \<Longrightarrow> unread d'" "wrote d bs d' \<Longrightarrow> length (payload d') = length (payload d) + length bs"
  by (simp_all add: wrote_def)

text \<open>The next value of a message that is being written into an empty packet.\<close>

lemma put_next:
  assumes "wrote d as d1" and "payload d = []" and "length as + length bs \<le> 295"
  shows "\<exists>d2. put_scalar bs d1 = Inr d2 \<and> wrote d (as @ bs) d2"
  using put_scalar_wrote [OF wroteD(1) [OF assms(1)], of bs] wroteD(2) [OF assms(1)] assms(2,3)
    wrote_trans [OF assms(1)] by auto

lemma PutData_next:
  assumes "wrote d as d1" and "payload d = []" and "length as \<le> 295" and "0 \<le> n" "n \<le> int (length src)"
  shows "\<exists>k d2. NetPacket_PutData src n d1 = Inr (k, d2) \<and> wrote d (as @ take (min (nat n) (295 - length as)) src) d2"
proof -
  have l: "length (payload d1) = length as" using wroteD(2) [OF assms(1)] assms(2) by simp
  have m: "nat (min n (295 - int (length as))) = min (nat n) (295 - length as)"
    using assms(3,4) by (simp add: min_def nat_diff_distrib)
  from PutData_wrote [OF wroteD(1) [OF assms(1)] assms(4,5)] wrote_trans [OF assms(1)] show ?thesis
    unfolding l m by blast
qed

text \<open>The three replies.\<close>

lemma RES_LOGIN_wrote:
  assumes "unread d" and "payload d = []"
  shows "\<exists>d'. MakePacket_RES_LOGIN type status accountNo d = Inr d' \<and>
    wrote d (le_bytes 2 type @ le_bytes 1 status @ le_bytes 8 accountNo) d'"
proof -
  from put_next [OF wrote_refl [OF assms(1)] assms(2), of "le_bytes 2 type"] obtain d1 where d1:
      "put_scalar (le_bytes 2 type) d = Inr d1" "wrote d (le_bytes 2 type) d1" by auto
  from put_next [OF d1(2) assms(2), of "le_bytes 1 status"] obtain d2 where d2:
      "put_scalar (le_bytes 1 status) d1 = Inr d2" "wrote d (le_bytes 2 type @ le_bytes 1 status) d2" by auto
  from put_next [OF d2(2) assms(2), of "le_bytes 8 accountNo"] obtain d3 where d3:
      "put_scalar (le_bytes 8 accountNo) d2 = Inr d3"
      "wrote d (le_bytes 2 type @ le_bytes 1 status @ le_bytes 8 accountNo) d3" by auto
  show ?thesis using d1(1) d2(1) d3 by (auto simp: MakePacket_RES_LOGIN_def packet_put_defs)
qed

lemma RES_SECTOR_MOVE_wrote:
  assumes "unread d" and "payload d = []"
  shows "\<exists>d'. MakePacket_RES_SECTOR_MOVE type accountNo sectorX sectorY d = Inr d' \<and>
    wrote d (le_bytes 2 type @ le_bytes 8 accountNo @ le_bytes 2 sectorX @ le_bytes 2 sectorY) d'"
proof -
  from put_next [OF wrote_refl [OF assms(1)] assms(2), of "le_bytes 2 type"] obtain d1 where d1:
      "put_scalar (le_bytes 2 type) d = Inr d1" "wrote d (le_bytes 2 type) d1" by auto
  from put_next [OF d1(2) assms(2), of "le_bytes 8 accountNo"] obtain d4 where d4:
      "put_scalar (le_bytes 8 accountNo) d1 = Inr d4" "wrote d (le_bytes 2 type @ le_bytes 8 accountNo) d4" by auto
  from put_next [OF d4(2) assms(2), of "le_bytes 2 sectorX"] obtain d5 where d5:
      "put_scalar (le_bytes 2 sectorX) d4 = Inr d5"
      "wrote d ((le_bytes 2 type @ le_bytes 8 accountNo) @ le_bytes 2 sectorX) d5" by auto
  from put_next [OF d5(2) assms(2), of "le_bytes 2 sectorY"] obtain d6 where d6:
      "put_scalar (le_bytes 2 sectorY) d5 = Inr d6"
      "wrote d (((le_bytes 2 type @ le_bytes 8 accountNo) @ le_bytes 2 sectorX) @ le_bytes 2 sectorY) d6" by auto
  show ?thesis using d1(1) d4(1) d5(1) d6 by (auto simp: MakePacket_RES_SECTOR_MOVE_def packet_put_defs)
qed

lemma RES_MESSAGE_wrote:
  assumes "unread d" and "payload d = []" and "length cid = 40" and "length nick = 40"
    and "2 * unat messageLen \<le> length message"
  shows "\<exists>d'. MakePacket_RES_MESSAGE type accountNo cid nick messageLen message d = Inr d' \<and>
    wrote d (le_bytes 2 type @ le_bytes 8 accountNo @ cid @ nick @ le_bytes 2 messageLen @
      take (min (2 * unat messageLen) 203) message) d'"
proof -
  from put_next [OF wrote_refl [OF assms(1)] assms(2), of "le_bytes 2 type"] obtain d1 where d1:
      "put_scalar (le_bytes 2 type) d = Inr d1" "wrote d (le_bytes 2 type) d1" by auto
  from put_next [OF d1(2) assms(2), of "le_bytes 8 accountNo"] obtain d2 where d2:
      "put_scalar (le_bytes 8 accountNo) d1 = Inr d2" "wrote d (le_bytes 2 type @ le_bytes 8 accountNo) d2" by auto
  from PutData_next [OF d2(2) assms(2), of 40 cid] assms(3) obtain k3 d3 where d3:
      "NetPacket_PutData cid 40 d2 = Inr (k3, d3)" "wrote d ((le_bytes 2 type @ le_bytes 8 accountNo) @ cid) d3" by auto
  from PutData_next [OF d3(2) assms(2), of 40 nick] assms(3,4) obtain k4 d4 where d4:
      "NetPacket_PutData nick 40 d3 = Inr (k4, d4)"
      "wrote d (((le_bytes 2 type @ le_bytes 8 accountNo) @ cid) @ nick) d4" by auto
  from put_next [OF d4(2) assms(2), of "le_bytes 2 messageLen"] assms(3,4) obtain d5 where d5:
      "put_scalar (le_bytes 2 messageLen) d4 = Inr d5"
      "wrote d ((((le_bytes 2 type @ le_bytes 8 accountNo) @ cid) @ nick) @ le_bytes 2 messageLen) d5" by auto
  have len: "uint messageLen * 2 \<le> int (length message)"
    using assms(5) by (metis of_nat_le_iff of_nat_mult of_nat_numeral mult.commute uint_nat)
  have "length ((((le_bytes 2 type @ le_bytes 8 accountNo) @ cid) @ nick) @ le_bytes 2 messageLen) = 92"
    using assms(3,4) by simp
  with PutData_next [OF d5(2) assms(2) _ _ len] obtain k6 d6 where d6:
      "NetPacket_PutData message (uint messageLen * 2) d5 = Inr (k6, d6)"
      "wrote d (((((le_bytes 2 type @ le_bytes 8 accountNo) @ cid) @ nick) @ le_bytes 2 messageLen) @
         take (min (nat (uint messageLen * 2)) 203) message) d6" by auto
  have "nat (uint messageLen * 2) = 2 * unat messageLen" by (simp add: nat_mult_distrib)
  then show ?thesis
    using d1(1) d2(1) d3(1) d4(1) d5(1) d6 by (auto simp: MakePacket_RES_MESSAGE_def packet_put_defs)
qed

section \<open>Properties\<close>

text \<open>
  The replies to a login and to a sector move: on an empty packet they never fault and write
  the message type and the values one after the other, little-endian, eleven and fourteen bytes.
\<close>

theorem fixed_reply_layout:
  assumes "unread d" and "payload d = []"
  shows "(\<exists>d'. MakePacket_RES_LOGIN type status accountNo d = Inr d' \<and>
      wrote d (le_bytes 2 type @ le_bytes 1 status @ le_bytes 8 accountNo) d') \<and>
    (\<exists>d'. MakePacket_RES_SECTOR_MOVE type accountNo sectorX sectorY d = Inr d' \<and>
      wrote d (le_bytes 2 type @ le_bytes 8 accountNo @ le_bytes 2 sectorX @ le_bytes 2 sectorY) d')"
  using RES_LOGIN_wrote [OF assms] RES_SECTOR_MOVE_wrote [OF assms] by blast

theorem fixed_reply_layout_witness:
  "\<exists>d'. MakePacket_RES_LOGIN en_PACKET_CS_CHAT_RES_LOGIN 1 0x102 NetPacket_new = Inr d' \<and>
     payload d' = [2, 0, 1, 2, 1, 0, 0, 0, 0, 0, 0]"
proof -
  have u: "unread NetPacket_new" "payload NetPacket_new = []" using fresh_unread [OF fresh_packet_new] by simp_all
  have "le_bytes 2 (en_PACKET_CS_CHAT_RES_LOGIN) @ le_bytes 1 (1 :: 8 word) @ le_bytes 8 (0x102 :: 64 word)
      = [2, 0, 1, 2, 1, 0, 0, 0, 0, 0, 0]" by code_simp
  moreover from conjunct1 [OF fixed_reply_layout [OF u, where type = en_PACKET_CS_CHAT_RES_LOGIN and status = 1
      and accountNo = "0x102"]]
  obtain d' where "MakePacket_RES_LOGIN en_PACKET_CS_CHAT_RES_LOGIN 1 0x102 NetPacket_new = Inr d'"
      "wrote NetPacket_new (le_bytes 2 en_PACKET_CS_CHAT_RES_LOGIN @ le_bytes 1 (1 :: 8 word) @
         le_bytes 8 (0x102 :: 64 word)) d'" by blast
  ultimately show ?thesis unfolding wrote_def u(2) by auto
qed

text \<open>
  C40. The chat message: the reply writes type, account number, identifier, nick name, the length
  as given and twice as many bytes of the message, cut off silently at the end of the packet's
  295 bytes; so a message of 102 bytes or more is sent shorter than the length it announces
  calls for.
\<close>

theorem RES_MESSAGE_layout:
  assumes "unread d" and "payload d = []" and "length cid = 40" and "length nick = 40"
    and "2 * unat messageLen \<le> length message"
  shows "\<exists>d'. MakePacket_RES_MESSAGE type accountNo cid nick messageLen message d = Inr d' \<and>
    wrote d (le_bytes 2 type @ le_bytes 8 accountNo @ cid @ nick @ le_bytes 2 messageLen @
      take (min (2 * unat messageLen) 203) message) d'"
  by (rule RES_MESSAGE_wrote [OF assms])

theorem RES_MESSAGE_layout_witness:
  "\<exists>d'. MakePacket_RES_MESSAGE 6 1 (replicate 40 0) (replicate 40 0) 120 (replicate 10000 65) NetPacket_new = Inr d' \<and>
     length (payload d') = 295 \<and> 2 + 8 + 40 + 40 + 2 + 2 * unat (120 :: 16 word) = (332 :: nat)"
proof -
  have u: "unread NetPacket_new" "payload NetPacket_new = []" using fresh_unread [OF fresh_packet_new] by simp_all
  have l: "2 * unat (120 :: 16 word) \<le> length (replicate 10000 (65 :: byte))" by simp
  from RES_MESSAGE_layout [OF u _ _ l, of "replicate 40 0" "replicate 40 0" 6 1] u(2) show ?thesis
    by (auto simp: wrote_def)
qed

end
