(* ===== verification/Building.thy ===== *)
theory Building
  imports ChatServer Replies Accepting
begin

text \<open>
  Packets the server makes itself: a packet taken from the pool is held once, by its maker, who
  writes a reply into it and passes the reference on; and the callback that answers a login.
\<close>

section \<open>Packets in hand\<close>

lemma packet_Alloc_world:
  assumes inv: "world_core w H J"
  shows "\<exists>p pool'. let w' = w\<lparr>w_NetPacketPool := pool'\<rparr> in
    packet_Alloc e w = Inr (p, w') \<and> world_core w' (add_mset p H) J \<and> p \<notin># refs w + H \<and>
    fresh_packet (mp_get pool' p) \<and> pool_keeps (set_mset (refs w + H)) (w_NetPacketPool w) pool'"
proof -
  from packet_Alloc_ok [OF world_coreD(1) [OF inv], of e] obtain p pool' where a:
      "packet_Alloc e w = Inr (p, w\<lparr>w_NetPacketPool := pool'\<rparr>)" "p \<notin># refs w + H"
      "packets_inv pool' (add_mset p (refs w + H))" "fresh_packet (mp_get pool' p)"
      "pool_keeps (set_mset (refs w + H)) (w_NetPacketPool w) pool'" by blast
  have "packets_inv pool' (refs w + add_mset p H)" using a(3) by simp
  moreover have "pool_keeps (set_mset (refs w)) (w_NetPacketPool w) pool'"
    by (rule pool_keeps_mono [OF a(5)]) simp
  ultimately have "world_core (w\<lparr>w_NetPacketPool := pool'\<rparr>) (add_mset p H) J"
    by (rule world_core_pool_refs [OF inv]) simp_all
  with a show ?thesis unfolding Let_def by blast
qed

lemma send_list_refs: "k < length (m_SessionArray w) \<Longrightarrow> p \<in> set (send_list (sess w k)) \<Longrightarrow> p \<in># refs w"
  by (rule session_refs_in [of "sess w k"]) (simp_all add: sess_def session_refs_def send_list_def)

text \<open>A packet only its holder refers to may be changed as the holder likes.\<close>

lemma on_packet_held:
  assumes inv: "world_core w H J" and p: "p \<in># H" "p \<notin># refs w"
    and f: "f (mp_get (w_NetPacketPool w) p) = Inr (x, d)"
    and d: "packet_shape d" "m_RefCount d = m_RefCount (mp_get (w_NetPacketPool w) p)"
  defines "w' \<equiv> w\<lparr>w_NetPacketPool := mp_put p d (w_NetPacketPool w)\<rparr>"
  shows "on_packet p f w = Inr (x, w')" "world_core w' H J" "mp_get (w_NetPacketPool w') p = d"
    "pool_keeps (set_mset (refs w)) (w_NetPacketPool w) (w_NetPacketPool w')"
proof -
  have pin: "p \<in># refs w + H" using p(1) by simp
  have q: "queued_ok d" if "k < length (m_SessionArray w)" "p \<in> set (send_list (sess w k))" for k
    using send_list_refs [OF that] p(2) by simp
  show "on_packet p f w = Inr (x, w')" "world_core w' H J" "mp_get (w_NetPacketPool w') p = d"
    unfolding w'_def using on_packet_world [OF inv pin, of f x d] f d q by blast+
  have "mp_get (w_NetPacketPool w') r = mp_get (w_NetPacketPool w) r" if r: "r \<in># refs w" for r
  proof -
    have "r \<in># refs w + H" "r \<noteq> p" using r p(2) by auto
    then show ?thesis unfolding w'_def using on_packet_world(4) [OF inv pin, of f x d r] f d q by blast
  qed
  then show "pool_keeps (set_mset (refs w)) (w_NetPacketPool w) (w_NetPacketPool w')"
    by (simp add: pool_keeps_def)
qed

lemma build_packet_held:
  fixes f :: "NetPacket \<Rightarrow> NetPacket run"
  assumes inv: "world_core w H J" and p: "p \<in># H" "p \<notin># refs w"
    and f: "f (mp_get (w_NetPacketPool w) p) = Inr d" and d: "wrote (mp_get (w_NetPacketPool w) p) bs d"
  shows "\<exists>pool'. let w' = w\<lparr>w_NetPacketPool := pool'\<rparr> in
    build_packet p f w = Inr w' \<and> world_core w' H J \<and> mp_get pool' p = d"
proof -
  have "packet_shape d" using d queued_shape [of d] by (simp add: wrote_def unread_def)
  moreover have "m_RefCount d = m_RefCount (mp_get (w_NetPacketPool w) p)" using d by (simp add: wrote_def)
  ultimately have d2: "packet_shape d" "m_RefCount d = m_RefCount (mp_get (w_NetPacketPool w) p)" .
  note held = on_packet_held [OF inv p, where f = "\<lambda>d. bnd (f d) (\<lambda>d. Inr ((), d))" and x = "()" and d = d]
  show ?thesis
    unfolding Let_def
    by (intro exI [of _ "mp_put p d (w_NetPacketPool w)"])
      (use held f d2 in \<open>simp add: build_packet_def\<close>)
qed

lemma wrote_ready:
  assumes "wrote d bs d'" and "payload d = []" and "bs \<noteq> []"
  shows "ready d'"
proof -
  have d': "unread d'" "payload d' = bs" using assms(1,2) by (simp_all add: wrote_def)
  have "0 < m_PayloadSize d'" using unread_size [OF d'(1)] d'(2) assms(3) by (cases bs) simp_all
  then show ?thesis using d'(1) by (simp add: unread_def ready_def)
qed

text \<open>Freeing a packet without looking at its count, as the handlers of bad messages do.\<close>

lemma packet_Free_world:
  assumes inv: "world_core w (add_mset p H) J" and last: "p \<notin># refs w + H"
  shows "\<exists>pool'. let w' = w\<lparr>w_NetPacketPool := pool'\<rparr> in packet_Free p w = Inr w' \<and> world_core w' H J \<and>
    pool_keeps (set_mset (refs w + H)) (w_NetPacketPool w) pool'"
proof -
  let ?R = "refs w + H"
  have pk: "packets_inv (w_NetPacketPool w) (add_mset p ?R)" using world_coreD(1) [OF inv] by simp
  then have "packet_pool_inv (w_NetPacketPool w) (insert p (set_mset ?R))" by (simp add: packets_inv_def)
  from NetPacket_Free_ok [OF this insertI1] last obtain pool' where f:
      "NetPacket_Free p (w_NetPacketPool w) = Inr pool'" "packet_pool_inv pool' (set_mset ?R)"
      "\<forall>q\<in>set_mset ?R. mp_get pool' q = mp_get (w_NetPacketPool w) q" by (auto simp: insert_Diff_if)
  have "packets_inv pool' ?R"
    unfolding packets_inv_def
  proof (intro conjI ballI allI)
    fix q assume q: "q \<in># ?R"
    then show "m_RefCount (mp_get pool' q) = of_nat (count ?R q)"
      using packets_count [OF pk, of q] f(3) last by auto
  next
    fix q show "count ?R q < 2 ^ 32" using packets_less [OF pk, of q] by (auto split: if_splits)
  qed (use f(2) in simp)
  moreover have keep: "pool_keeps (set_mset ?R) (w_NetPacketPool w) pool'" using f(3) by (simp add: pool_keeps_def)
  ultimately have "world_core (w\<lparr>w_NetPacketPool := pool'\<rparr>) H J"
    by (intro world_core_pool [OF inv]) simp_all
  then show ?thesis
    unfolding Let_def using keep f(1) by (intro exI [of _ pool']) (simp add: packet_Free_def)
qed

section \<open>The answer to a login\<close>

text \<open>A login succeeds when the stored key is the client's key, read as a C string.\<close>

definition key_matches :: "byte list option \<Rightarrow> byte list \<Rightarrow> bool" where
  "key_matches result key \<longleftrightarrow> result = Some (takeWhile (\<lambda>b. b \<noteq> 0) key)"

lemma APCCompleteCallBack_world:
  assumes inv: "world_core w H J" and room: "queue_room (m_ThreadQ w)"
    and key: "result = None \<or> 0 \<in> set (r_SessionKey redisJob)"
  shows "\<exists>pool jobs q p j. let w' = emit SetUpdateEvent (w\<lparr>w_NetPacketPool := pool, m_JobPool := jobs, m_ThreadQ := q\<rparr>) in
    APCCompleteCallBack e result redisJob w = Inr w' \<and> world_core w' H J \<and> p \<notin># refs w + H \<and>
    job_list w' = job_list w @ [j] \<and>
    job_of w' j = \<lparr>j_TYPE = ON_LOGIN_RESULT, j_SessionID = r_SessionID redisJob, j_NetPacketPtr = Some p\<rparr> \<and>
    (\<forall>k\<in>set (job_list w). job_of w' k = job_of w k) \<and>
    ready (mp_get pool p) \<and> payload (mp_get pool p) = le_bytes 2 en_PACKET_CS_CHAT_RES_LOGIN @
      le_bytes 1 (if key_matches result (r_SessionKey redisJob) then 1 else 0 :: 8 word) @ le_bytes 8 (r_AccoutAno redisJob)"
proof -
  let ?status = "if key_matches result (r_SessionKey redisJob) then 1 else 0 :: 8 word"
  let ?bytes = "le_bytes 2 en_PACKET_CS_CHAT_RES_LOGIN @ le_bytes 1 ?status @ le_bytes 8 (r_AccoutAno redisJob)"
  from packet_Alloc_world [OF inv, of e] obtain p pool1 where a:
      "packet_Alloc e w = Inr (p, w\<lparr>w_NetPacketPool := pool1\<rparr>)"
      "world_core (w\<lparr>w_NetPacketPool := pool1\<rparr>) (add_mset p H) J" "p \<notin># refs w + H" "fresh_packet (mp_get pool1 p)"
    unfolding Let_def by blast
  let ?w1 = "w\<lparr>w_NetPacketPool := pool1\<rparr>"
  note u = fresh_unread [OF a(4)]
  have status: "(case result of None \<Rightarrow> Inr 0
      | Some key \<Rightarrow> bnd (c_string (r_SessionKey redisJob)) (\<lambda>k. Inr (if key \<noteq> k then 0 else 1))) = (Inr ?status :: 8 word run)"
    using key by (auto simp: c_string_def key_matches_def split: option.splits)
  from RES_LOGIN_wrote [OF u [THEN conjunct1] u [THEN conjunct2], of en_PACKET_CS_CHAT_RES_LOGIN ?status "r_AccoutAno redisJob"]
  obtain d where d: "MakePacket_RES_LOGIN en_PACKET_CS_CHAT_RES_LOGIN ?status (r_AccoutAno redisJob) (mp_get pool1 p) = Inr d"
      "wrote (mp_get pool1 p) ?bytes d" by blast
  have "refs ?w1 = refs w" by (rule refs_cong) simp_all
  then have p: "p \<in># add_mset p H" "p \<notin># refs ?w1" using a(3) by simp_all
  have "MakePacket_RES_LOGIN en_PACKET_CS_CHAT_RES_LOGIN ?status (r_AccoutAno redisJob) (mp_get (w_NetPacketPool ?w1) p) = Inr d"
      "wrote (mp_get (w_NetPacketPool ?w1) p) ?bytes d" using d by simp_all
  from build_packet_held [OF a(2) p, where f = "MakePacket_RES_LOGIN en_PACKET_CS_CHAT_RES_LOGIN ?status (r_AccoutAno redisJob)",
      OF this] obtain pool2 where b:
      "build_packet p (MakePacket_RES_LOGIN en_PACKET_CS_CHAT_RES_LOGIN ?status (r_AccoutAno redisJob)) ?w1
         = Inr (w\<lparr>w_NetPacketPool := pool2\<rparr>)"
      "world_core (w\<lparr>w_NetPacketPool := pool2\<rparr>) (add_mset p H) J" "mp_get pool2 p = d"
    unfolding Let_def by auto
  let ?w2 = "w\<lparr>w_NetPacketPool := pool2\<rparr>"
  have "world_core ?w2 (job_ref (Some p) + H) J" "queue_room (m_ThreadQ ?w2)" using b(2) room by simp_all
  from MakeJobNEnQ_world [OF this, of e ON_LOGIN_RESULT "r_SessionID redisJob"] obtain jobs q j where m:
      "MakeJobNEnQ e ON_LOGIN_RESULT (r_SessionID redisJob) (Some p) ?w2
         = Inr (emit SetUpdateEvent (?w2\<lparr>m_JobPool := jobs, m_ThreadQ := q\<rparr>))"
      "world_core (emit SetUpdateEvent (?w2\<lparr>m_JobPool := jobs, m_ThreadQ := q\<rparr>)) H J"
      "job_list (emit SetUpdateEvent (?w2\<lparr>m_JobPool := jobs, m_ThreadQ := q\<rparr>)) = job_list ?w2 @ [j]"
      "job_of (emit SetUpdateEvent (?w2\<lparr>m_JobPool := jobs, m_ThreadQ := q\<rparr>)) j =
         \<lparr>j_TYPE = ON_LOGIN_RESULT, j_SessionID = r_SessionID redisJob, j_NetPacketPtr = Some p\<rparr>"
      "\<forall>k\<in>set (job_list ?w2) \<union> J. job_of (emit SetUpdateEvent (?w2\<lparr>m_JobPool := jobs, m_ThreadQ := q\<rparr>)) k = job_of ?w2 k"
    unfolding Let_def by blast
  have "APCCompleteCallBack e result redisJob w = Inr (emit SetUpdateEvent (?w2\<lparr>m_JobPool := jobs, m_ThreadQ := q\<rparr>))"
    unfolding APCCompleteCallBack_def a(1) bnd_Inr prod.case status b(1) m(1) ..
  moreover have "job_list ?w2 = job_list w" "\<And>k. job_of ?w2 k = job_of w k" by (simp_all add: job_list_def job_of_def)
  moreover have "?bytes \<noteq> []" by (simp flip: length_greater_0_conv)
  then have "ready d" by (rule wrote_ready [OF d(2) u [THEN conjunct2]])
  moreover have "payload d = ?bytes" using d(2) u by (simp add: wrote_def)
  ultimately show ?thesis
    unfolding Let_def using m(2-5) a(3) b(3)
    by (intro exI [of _ pool2] exI [of _ jobs] exI [of _ q] exI [of _ p] exI [of _ j]) simp
qed

section \<open>Properties\<close>

text \<open>
  The login callback queues one job for the update thread, which carries the identifier of the
  session that asked and owns the only reference to a packet taken from the pool; the packet holds
  the login reply, with status 1 exactly when the data base has a key and it is the client's.
\<close>

theorem login_reply_queued:
  assumes "world_inv w H J" and "queue_room (m_ThreadQ w)"
    and "result = None \<or> 0 \<in> set (r_SessionKey redisJob)"
  shows "\<exists>w' p j. APCCompleteCallBack e result redisJob w = Inr w' \<and> world_inv w' H J \<and>
    p \<notin># refs w + H \<and> refs w' = add_mset p (refs w) \<and> m_SessionArray w' = m_SessionArray w \<and>
    w_io w' = w_io w @ [SetUpdateEvent] \<and> job_list w' = job_list w @ [j] \<and>
    job_of w' j = \<lparr>j_TYPE = ON_LOGIN_RESULT, j_SessionID = r_SessionID redisJob, j_NetPacketPtr = Some p\<rparr> \<and>
    ready (mp_get (w_NetPacketPool w') p) \<and>
    payload (mp_get (w_NetPacketPool w') p) = le_bytes 2 en_PACKET_CS_CHAT_RES_LOGIN @
      le_bytes 1 (if result = Some (takeWhile (\<lambda>b. b \<noteq> 0) (r_SessionKey redisJob)) then 1 else 0 :: 8 word) @
      le_bytes 8 (r_AccoutAno redisJob)"
proof -
  from APCCompleteCallBack_world [OF world_invD(1) [OF assms(1)] assms(2,3), of e] obtain pool jobs q p j where b:
      "APCCompleteCallBack e result redisJob w =
         Inr (emit SetUpdateEvent (w\<lparr>w_NetPacketPool := pool, m_JobPool := jobs, m_ThreadQ := q\<rparr>))"
      "world_core (emit SetUpdateEvent (w\<lparr>w_NetPacketPool := pool, m_JobPool := jobs, m_ThreadQ := q\<rparr>)) H J"
      "p \<notin># refs w + H"
      "job_list (emit SetUpdateEvent (w\<lparr>w_NetPacketPool := pool, m_JobPool := jobs, m_ThreadQ := q\<rparr>)) = job_list w @ [j]"
      "job_of (emit SetUpdateEvent (w\<lparr>w_NetPacketPool := pool, m_JobPool := jobs, m_ThreadQ := q\<rparr>)) j =
        \<lparr>j_TYPE = ON_LOGIN_RESULT, j_SessionID = r_SessionID redisJob, j_NetPacketPtr = Some p\<rparr>"
      "\<forall>k\<in>set (job_list w). job_of (emit SetUpdateEvent (w\<lparr>w_NetPacketPool := pool, m_JobPool := jobs, m_ThreadQ := q\<rparr>)) k = job_of w k"
      "ready (mp_get pool p)" "payload (mp_get pool p) = le_bytes 2 en_PACKET_CS_CHAT_RES_LOGIN @
        le_bytes 1 (if key_matches result (r_SessionKey redisJob) then 1 else 0 :: 8 word) @ le_bytes 8 (r_AccoutAno redisJob)"
    unfolding Let_def by blast
  let ?w' = "emit SetUpdateEvent (w\<lparr>w_NetPacketPool := pool, m_JobPool := jobs, m_ThreadQ := q\<rparr>)"
  have "world_inv ?w' H J"
    by (rule world_invI [OF b(2) assms(1)]) simp_all
  moreover have "refs ?w' = add_mset p (refs w)"
    using refs_new_job [of ?w' w j] b(4-6) by simp
  ultimately show ?thesis
    using b(1,3-5,7,8) unfolding key_matches_def
    by (intro exI [of _ ?w'] exI [of _ p] exI [of _ j]) simp
qed

theorem login_reply_queued_witness:
  "\<exists>w w' p. world_inv w {#} {} \<and> APCCompleteCallBack quiet (Some [65, 66]) \<lparr>r_SessionID = 1, r_AccoutAno = 0x102,
       r_SessionKey = [65, 66] @ replicate 62 0\<rparr> w = Inr w' \<and> refs w' = {#p#} \<and>
     payload (mp_get (w_NetPacketPool w') p) = [2, 0, 1, 2, 1, 0, 0, 0, 0, 0, 0]"
proof -
  let ?job = "\<lparr>r_SessionID = 1, r_AccoutAno = 0x102, r_SessionKey = [65, 66] @ replicate 62 0\<rparr>"
  obtain w where w: "world_inv w {#} {}" "queue_room (m_ThreadQ w)" "refs w = {#}" using started_server by blast
  have key: "Some [65, 66] = None \<or> 0 \<in> set (r_SessionKey ?job)" by simp
  have bytes: "le_bytes 2 en_PACKET_CS_CHAT_RES_LOGIN @ le_bytes 1 (1 :: 8 word) @ le_bytes 8 (0x102 :: 64 word)
      = [2, 0, 1, 2, 1, 0, 0, 0, 0, 0, 0]" by code_simp
  from login_reply_queued [OF w(1,2) key, of quiet] obtain w' p where w':
      "APCCompleteCallBack quiet (Some [65, 66]) ?job w = Inr w'" "refs w' = add_mset p (refs w)"
      "payload (mp_get (w_NetPacketPool w') p) = le_bytes 2 en_PACKET_CS_CHAT_RES_LOGIN @
        le_bytes 1 (1 :: 8 word) @ le_bytes 8 (0x102 :: 64 word)" by auto
  have "refs w' = {#p#}" using w'(2) w(3) by simp
  with w(1) w'(1,3) bytes show ?thesis by metis
qed

text \<open>
  A session key of 64 bytes without a zero byte makes the login callback read behind the array
  as soon as the data base has a key for the account.
\<close>

theorem login_key_overread:
  assumes "world_inv w H J" and "0 \<notin> set (r_SessionKey redisJob)"
  shows "APCCompleteCallBack e (Some key) redisJob w = Inl OutOfBounds"
proof -
  from packet_Alloc_world [OF world_invD(1) [OF assms(1)], of e] obtain p w' where "packet_Alloc e w = Inr (p, w')"
    unfolding Let_def by blast
  then show ?thesis using assms(2) by (simp add: APCCompleteCallBack_def c_string_def)
qed

theorem login_key_overread_witness:
  "\<exists>w. APCCompleteCallBack quiet (Some [65]) \<lparr>r_SessionID = 1, r_AccoutAno = 7, r_SessionKey = replicate 64 65\<rparr> w
     = Inl OutOfBounds"
proof -
  obtain w where w: "world_inv w {#} {}" using started_server by blast
  have "0 \<notin> set (r_SessionKey \<lparr>r_SessionID = 1, r_AccoutAno = 7, r_SessionKey = replicate 64 65\<rparr>)" by simp
  from login_key_overread [OF w this] show ?thesis by blast
qed

end
