(* ===== verification/Frames.thy ===== *)
theory Frames
  imports RingBuffer Cipher
begin

text \<open>
  The stream format of the protocol, as a specification of what \<open>RecvPacket\<close> does with the bytes
  of its ring: cutting the next message off a byte list, and all messages one after the other.
  A frame is a header of five bytes, which has the length of the payload, and the encoded payload.
\<close>

section \<open>One frame\<close>

text \<open>The payload under a header, where its check sum is right.\<close>

definition open_frame :: "NetHeader \<Rightarrow> byte list \<Rightarrow> byte list option" where
  "open_frame h bs =
     (let pl = decode_loop (h_RandKey h) 0 (h_CheckSum h) (h_CheckSum h XOR (dfPACKET_KEY + 1)) bs in
      if (h_CheckSum h XOR (dfPACKET_KEY + 1)) XOR (h_RandKey h + 1) = checksum_loop 0 pl then Some pl else None)"

text \<open>
  Not enough bytes yet; a frame that ends the connection; a frame longer than a packet's buffer;
  a message and the bytes behind it.
\<close>

datatype cut = NeedMore | BadFrame | Overrun | Message "byte list" "byte list"

definition ring_capacity :: nat where
  "ring_capacity = nat (RING_BUFFER_SIZE - 1)"

definition cut_frame :: "byte list \<Rightarrow> cut" where
  "cut_frame bs =
     (if length bs < 5 then NeedMore
      else let h = NetHeader_of_bytes bs; n = unat (h_Len h) in
        if h_Code h \<noteq> dfPACKET_CODE \<or> n = 0 then BadFrame
        else if length bs < 5 + n then (if ring_capacity < n + length bs then BadFrame else NeedMore)
        else if 295 < n then Overrun
        else case open_frame h (take n (drop 5 bs)) of
               None \<Rightarrow> BadFrame
             | Some pl \<Rightarrow> Message pl (drop (5 + n) bs))"

lemma decode_loop_Nil [simp]: "decode_loop rk i e p ds = [] \<longleftrightarrow> ds = []"
  by (cases ds) (simp_all add: Let_def)

lemma cut_frame_shorter: "cut_frame bs = Message pl rest \<Longrightarrow> length rest + 6 \<le> length bs"
  by (auto simp: cut_frame_def Let_def split: if_splits option.splits)

lemma cut_frame_message: "cut_frame bs = Message pl rest \<Longrightarrow> length pl + length rest + 5 = length bs \<and> pl \<noteq> []"
  by (auto simp: cut_frame_def open_frame_def Let_def split: if_splits option.splits simp flip: length_greater_0_conv)

lemma cut_frame_room:
  "cut_frame bs = NeedMore \<Longrightarrow> length bs \<le> ring_capacity \<Longrightarrow> length bs < ring_capacity"
  by (auto simp: cut_frame_def Let_def ring_capacity_def RING_BUFFER_SIZE_def split: if_splits option.splits)

section \<open>All frames\<close>

text \<open>The messages of a byte list, how the cutting ends, and the bytes that remain.\<close>

function cut_frames :: "byte list \<Rightarrow> byte list list \<times> cut \<times> byte list" where
  "cut_frames bs =
     (case cut_frame bs of
        Message pl rest \<Rightarrow> (let (pls, c, r) = cut_frames rest in (pl # pls, c, r))
      | c \<Rightarrow> ([], c, bs))"
  by auto

termination
  by (relation "measure length") (use cut_frame_shorter in fastforce)+

declare cut_frames.simps [simp del]

lemma cut_frames_cases:
  "cut_frame bs = NeedMore \<Longrightarrow> cut_frames bs = ([], NeedMore, bs)"
  "cut_frame bs = BadFrame \<Longrightarrow> cut_frames bs = ([], BadFrame, bs)"
  "cut_frame bs = Overrun \<Longrightarrow> cut_frames bs = ([], Overrun, bs)"
  "cut_frame bs = Message pl rest \<Longrightarrow> cut_frames bs =
     (pl # fst (cut_frames rest), fst (snd (cut_frames rest)), snd (snd (cut_frames rest)))"
  by (subst cut_frames.simps; simp split: prod.split)+

lemma cut_frames_end: "fst (snd (cut_frames bs)) \<noteq> Message pl rest"
proof (induction bs rule: cut_frames.induct)
  case (1 bs)
  then show ?case by (cases "cut_frame bs") (simp_all add: cut_frames_cases)
qed

lemma cut_frames_rest: "cut_frame (snd (snd (cut_frames bs))) = fst (snd (cut_frames bs))"
proof (induction bs rule: cut_frames.induct)
  case (1 bs)
  then show ?case by (cases "cut_frame bs") (simp_all add: cut_frames_cases)
qed

section \<open>What the sender writes\<close>

text \<open>The bytes of an encoded packet from the first byte of its buffer, as \<open>SendPost\<close> sends them.\<close>

definition frame_bytes :: "NetPacket \<Rightarrow> byte list" where
  "frame_bytes d = take (nat (NetPacket_GetFullPacketSize d)) (m_Buffer d)"

lemma cut_encoded:
  assumes d: "net_inv d" "m_ReadPos d = 0" "\<not> m_bEencode d" "\<not> m_bSetHeader d" "payload d \<noteq> []"
    and enc: "HeaderSettingAndEncoding rnd d = Inr (ok, d')"
  shows "cut_frame (frame_bytes d' @ tail) = Message (payload d) tail"
proof -
  let ?rk = "word_of_int (rnd smod 256) :: 8 word" and ?cs = "checksum_loop 0 (payload d)"
  let ?pd = "?cs XOR (?rk + 1)"
  let ?ed = "?pd XOR (dfPACKET_KEY + 1)"
  let ?h = "\<lparr>h_Code = dfPACKET_CODE, h_Len = word_of_int (m_PayloadSize d), h_RandKey = ?rk, h_CheckSum = ?ed\<rparr>"
  let ?body = "encode_loop ?rk 0 ?ed ?pd (payload d)"
  have d': "net_inv d'" "payload d' = ?body" "header_bytes d' = NetHeader_bytes ?h" "m_ReadPos d' = 0"
      "m_bSetHeader d'" "m_PayloadSize d' = m_PayloadSize d"
    by (rule Encoding_payload [OF d(1-4), of rnd]; use enc in simp)+
  note u = payload_unread [OF d(1,2)] and u' = payload_unread [OF d'(1,4)]
  have hd: "NetHeader_bytes ?h = take 5 (m_Buffer d')" using d'(3) u'(2) by (simp add: header_bytes_def)
  have body: "?body = take (nat (m_PayloadSize d)) (drop 5 (m_Buffer d'))"
    using d'(2,4,6) u'(2) by (simp add: payload_def)
  have full: "nat (NetPacket_GetFullPacketSize d') = 5 + nat (m_PayloadSize d)"
    using d'(5,6) u(3) by (simp add: NetPacket_GetFullPacketSize_def sizeof_NetHeader_def nat_add_distrib)
  have fb: "frame_bytes d' = NetHeader_bytes ?h @ ?body"
    unfolding frame_bytes_def full hd body by (rule take_add)
  have len: "unat (word_of_int (m_PayloadSize d) :: 16 word) = length (payload d)"
  proof -
    have "uint (word_of_int (m_PayloadSize d) :: 16 word) = m_PayloadSize d"
      using u(3,4) by (simp add: uint_word_of_int)
    then show ?thesis using u(6) by (simp add: unat_eq_nat_uint)
  qed
  have hdr: "NetHeader_of_bytes (frame_bytes d' @ tail) = ?h"
    unfolding fb append_assoc by (rule NetHeader_of_bytes_inverse)
  have "length (payload d) \<le> 295" using u(4,6) by simp
  moreover have "open_frame ?h ?body = Some (payload d)"
    by (simp add: open_frame_def decode_encode_loop)
  ultimately show ?thesis
    using d(5) by (simp add: cut_frame_def hdr len) (simp add: fb)
qed

definition encoding :: "NetPacket \<Rightarrow> NetPacket \<Rightarrow> bool" where
  "encoding d d' \<longleftrightarrow> net_inv d \<and> m_ReadPos d = 0 \<and> \<not> m_bEencode d \<and> \<not> m_bSetHeader d \<and> payload d \<noteq> [] \<and>
     (\<exists>rnd. HeaderSettingAndEncoding rnd d = Inr (True, d'))"

section \<open>Properties\<close>

text \<open>
  C22. The two ends of a connection fit together: the bytes of encoded packets, sent one after the
  other in any number and with any random keys, are cut into exactly the payloads that were
  written, in order, with nothing left over; the first bytes of a further frame are kept.
\<close>

theorem cut_frames_sent:
  assumes "list_all2 encoding ds ds'" and "cut_frame tail = NeedMore"
  shows "cut_frames (concat (map frame_bytes ds') @ tail) = (map payload ds, NeedMore, tail)"
  using assms
proof (induction rule: list_all2_induct)
  case Nil
  then show ?case by (simp add: cut_frames_cases)
next
  case (Cons d ds d' ds')
  let ?rest = "concat (map frame_bytes ds') @ tail"
  from Cons.hyps(1) have "cut_frame (frame_bytes d' @ ?rest) = Message (payload d) ?rest"
    using cut_encoded [of d] by (auto simp: encoding_def)
  with Cons.IH [OF Cons.prems] show ?case by (simp add: cut_frames_cases)
qed

theorem cut_frames_sent_witness:
  "\<exists>d'. HeaderSettingAndEncoding 41 sample_packet = Inr (True, d') \<and>
     cut_frames (frame_bytes d' @ frame_bytes d' @ [0x77, 1]) = ([[1, 2, 3], [1, 2, 3]], NeedMore, [0x77, 1])"
proof -
  obtain d' where d': "HeaderSettingAndEncoding 41 sample_packet = Inr (True, d')"
    by (rule Encoding_payload [OF sample_packet_facts(1-4), of 41]) blast
  have tail: "cut_frame [0x77, 1] = NeedMore" by (simp add: cut_frame_def)
  have enc: "encoding sample_packet d'" using d' sample_packet_facts by (auto simp: encoding_def)
  then have "list_all2 encoding [sample_packet, sample_packet] [d', d']" by simp
  from cut_frames_sent [OF this tail] d' show ?thesis by (auto simp: sample_packet_facts)
qed

end
