(* ===== verification/Receiving.thy ===== *)
theory Receiving
  imports Building Frames
begin

text \<open>
  \<open>RecvPacket\<close> against the specification of the stream format: the bytes of a session's ring are
  cut into messages, each becomes a packet and a job for the update thread, and the loop ends as
  the cutting of the byte list does.
\<close>

section \<open>Messages waiting for the update thread\<close>

definition message_of :: "World \<Rightarrow> objptr \<Rightarrow> (64 word \<times> byte list) option" where
  "message_of w j =
     (case j_NetPacketPtr (job_of w j) of
        None \<Rightarrow> None
      | Some p \<Rightarrow> if j_TYPE (job_of w j) = ON_MESSAGE
                  then Some (j_SessionID (job_of w j), payload (mp_get (w_NetPacketPool w) p)) else None)"

definition inbox :: "World \<Rightarrow> (64 word \<times> byte list) list" where
  "inbox w = somes (map (message_of w) (job_list w))"

lemma inbox_keeps:
  assumes "job_list w' = job_list w" and "\<forall>j\<in>set (job_list w). job_of w' j = job_of w j"
    and keep: "pool_keeps (set_mset (refs w)) (w_NetPacketPool w) (w_NetPacketPool w')"
  shows "inbox w' = inbox w"
proof -
  have "message_of w' j = message_of w j" if j: "j \<in> set (job_list w)" for j
  proof (cases "j_NetPacketPtr (job_of w j)")
    case (Some p)
    then have "p \<in> set (job_packets w)" using j by (force simp: job_packets_def set_somes)
    then have "p \<in># refs w" by (simp add: refs_def)
    then have "payload (mp_get (w_NetPacketPool w') p) = payload (mp_get (w_NetPacketPool w) p)"
      using keep same_packet_inv(2) by (auto simp: pool_keeps_def)
    then show ?thesis using Some assms(2) j by (simp add: message_of_def)
  qed (use assms(2) j in \<open>simp add: message_of_def\<close>)
  then show ?thesis unfolding inbox_def assms(1) by (intro somes_map_cong)
qed

lemma inbox_new_job:
  assumes "job_list w' = job_list w @ [j]" and "\<forall>k\<in>set (job_list w). job_of w' k = job_of w k"
    and "w_NetPacketPool w' = w_NetPacketPool w"
  shows "inbox w' = inbox w @ somes [message_of w' j]"
proof -
  have "somes (map (message_of w') (job_list w)) = inbox w"
    unfolding inbox_def by (rule somes_map_cong) (use assms(2,3) in \<open>simp add: message_of_def split: option.split\<close>)
  then show ?thesis unfolding inbox_def [of w'] assms(1) map_somes_job by simp
qed

section \<open>Disconnecting\<close>

definition cancelled :: "nat \<Rightarrow> World \<Rightarrow> World" where
  "cancelled i w = emit (CancelIoEx (s_Socket (sess w i)))
     (upd_sess i (\<lambda>s. s\<lparr>s_bIOCancel := True\<rparr>) (w\<lparr>g_DisconnectCount := g_DisconnectCount w + 1\<rparr>))"

lemma Disconnect_live:
  assumes lv: "live sid i w"
  shows "Disconnect e sid w = Inr (True, cancelled i w)"
proof -
  have i: "i < length (m_SessionArray w)" and f: "FindSession sid w = Inr i"
    using lv live_less by (simp_all add: live_def)
  define w1 where "w1 = IO_Cancel i (upd_sess i (\<lambda>s. s\<lparr>s_bIOCancel := True\<rparr>)
    ((IO_Increment i w)\<lparr>g_DisconnectCount := g_DisconnectCount w + 1\<rparr>))"
  have i1: "i < length (m_SessionArray w1)" using i by (simp add: w1_def IO_Cancel_def IO_Increment_def)
  have "s_IOCount (sess w1 i) = s_IOCount (sess w i) + 1"
    using i by (simp add: w1_def IO_Cancel_def IO_Increment_def sess_upd)
  moreover have "s_IOCount (sess w i) \<noteq> 0" using lv by (simp add: live_def count_ok_def)
  ultimately have "s_IOCount (sess w1 i) \<noteq> 1" by simp
  from IO_Decrement_held [OF i1 this, of e]
  have d: "IO_Decrement e i w1 = Inr (upd_sess i (\<lambda>s. s\<lparr>s_IOCount := s_IOCount s - 1\<rparr>) w1)" .
  have "upd_sess i (\<lambda>s. s\<lparr>s_IOCount := s_IOCount s - 1\<rparr>) w1 = cancelled i w"
    using i by (simp add: w1_def cancelled_def IO_Cancel_def IO_Increment_def upd_sess_def sess_def emit_def)
  then show ?thesis
    using d f by (simp add: Disconnect_def AcquireSession_fst live_acquire [OF lv] w1_def IO_Increment_def FindSession_def
        GetSessionIndex_def Let_def)
qed

lemma cancelled_world:
  assumes inv: "world_inv w H J" and i: "i < length (m_SessionArray w)"
  shows "world_inv (cancelled i w) H J" "inbox (cancelled i w) = inbox w"
    "sess (cancelled i w) k = (if k = i then (sess w i)\<lparr>s_bIOCancel := True\<rparr> else sess w k)"
proof -
  note core = world_invD(1) [OF inv]
  have ring: "ring_inv (s_RecvRingQ (sess w i))"
    using sessions_invD(1) [OF world_coreD(2) [OF core] i] by (simp add: session_ok_def)
  have "world_core (w\<lparr>g_DisconnectCount := g_DisconnectCount w + 1\<rparr>) H J"
    by (rule iffD2 [OF world_core_cong core]) simp_all
  then have core': "world_core (cancelled i w) H J"
    unfolding cancelled_def world_core_emit
    by (rule world_core_session_field) (use i ring in simp_all)
  show s: "sess (cancelled i w) k = (if k = i then (sess w i)\<lparr>s_bIOCancel := True\<rparr> else sess w k)" for k
    using i by (simp add: cancelled_def sess_upd)
  show "world_inv (cancelled i w) H J"
    by (rule world_invI [OF core' inv]) (use s in \<open>auto simp: cancelled_def array_full_def\<close>)
  show "inbox (cancelled i w) = inbox w"
    by (rule inbox_keeps) (simp_all add: cancelled_def job_list_def job_of_def)
qed

section \<open>The header\<close>

lemma Peek_eq:
  assumes "ring_inv q" and "0 < sz" and "sz \<le> GetUsedSize q" "sz \<le> int (length dest)"
  shows "Peek q dest 0 sz = Inr (sz, mem_write dest 0 (take (nat sz) (contents q)))"
proof -
  have "Peek q dest 0 sz = bnd (Dequeue q dest 0 sz) (\<lambda>(k, dest', q'). Inr (k, dest'))"
    by (simp add: Peek_def Dequeue_def Let_def size_members bnd_assoc)
  moreover have "min sz (GetUsedSize q) = sz" using assms(3) by simp
  ultimately show ?thesis using Dequeue_eq [OF assms(1,2), of 0 dest] assms(4) by simp
qed

lemma NetHeader_of_take: "5 \<le> length bs \<Longrightarrow> NetHeader_of_bytes (take 5 bs) = NetHeader_of_bytes bs"
  by (simp add: NetHeader_of_bytes_def)

lemma MoveFront_contents:
  assumes "ring_inv q" and "0 \<le> k" "k \<le> GetUsedSize q"
  shows "contents (MoveFront k q) = drop (nat k) (contents q)" "ring_inv (MoveFront k q)"
proof -
  have "0 \<le> m_Front q" using assms(1) by (simp add: ring_inv_def)
  then have "MoveFront k q = q\<lparr>m_Front := (m_Front q + k) mod RING_BUFFER_SIZE\<rparr>"
    using assms(2) by (simp add: MoveFront_def Let_def smod_nonneg less_imp_le)
  with drop_step(1,2) [OF assms] show "contents (MoveFront k q) = drop (nat k) (contents q)" "ring_inv (MoveFront k q)"
    by simp_all
qed

section \<open>One message\<close>

text \<open>What may change while messages are cut: the ring of the session, packets and jobs.\<close>

definition same_but_ring :: "nat \<Rightarrow> World \<Rightarrow> World \<Rightarrow> bool" where
  "same_but_ring i w w' \<longleftrightarrow> length (m_SessionArray w') = length (m_SessionArray w) \<and> m_MaxUserCount w' = m_MaxUserCount w \<and>
     (\<forall>k. k \<noteq> i \<longrightarrow> sess w' k = sess w k) \<and> (\<exists>q. sess w' i = (sess w i)\<lparr>s_RecvRingQ := q\<rparr>)"

lemma same_but_ring_refl [simp]: "same_but_ring i w w"
  unfolding same_but_ring_def by (auto intro!: exI [of _ "s_RecvRingQ (sess w i)"])

lemma same_but_ringI:
  "length (m_SessionArray w') = length (m_SessionArray w) \<Longrightarrow> m_MaxUserCount w' = m_MaxUserCount w \<Longrightarrow>
   (\<And>k. sess w' k = sess w k) \<Longrightarrow> same_but_ring i w w'"
  unfolding same_but_ring_def by (auto intro!: exI [of _ "s_RecvRingQ (sess w i)"])

lemma same_but_ring_trans: "same_but_ring i w w' \<Longrightarrow> same_but_ring i w' w'' \<Longrightarrow> same_but_ring i w w''"
  by (auto simp: same_but_ring_def)

lemma same_but_ring_fields:
  assumes "same_but_ring i w w'"
  shows "s_IOCount (sess w' i) = s_IOCount (sess w i)" "s_ID (sess w' i) = s_ID (sess w i)"
    "s_bIOCancel (sess w' i) = s_bIOCancel (sess w i)" "s_Socket (sess w' i) = s_Socket (sess w i)"
    "array_full (sess w' k) = array_full (sess w k)" "length (m_SessionArray w') = length (m_SessionArray w)"
    "FindSession sid w' = FindSession sid w"
proof -
  obtain q where s: "sess w' i = (sess w i)\<lparr>s_RecvRingQ := q\<rparr>" and o: "k \<noteq> i \<Longrightarrow> sess w' k = sess w k"
      and l: "length (m_SessionArray w') = length (m_SessionArray w)" "m_MaxUserCount w' = m_MaxUserCount w"
    using assms by (auto simp: same_but_ring_def)
  show "s_IOCount (sess w' i) = s_IOCount (sess w i)" "s_ID (sess w' i) = s_ID (sess w i)"
    "s_bIOCancel (sess w' i) = s_bIOCancel (sess w i)" "s_Socket (sess w' i) = s_Socket (sess w i)"
    by (simp_all add: s)
  show "array_full (sess w' k) = array_full (sess w k)" using o by (cases "k = i") (simp_all add: s array_full_def)
  show "length (m_SessionArray w') = length (m_SessionArray w)" by (rule l)
  show "FindSession sid w' = FindSession sid w" using l by (simp add: FindSession_def GetSessionIndex_def)
qed

lemma same_but_ring_live: "same_but_ring i w w' \<Longrightarrow> live sid i w \<Longrightarrow> live sid i w'"
  using same_but_ring_fields [of i w w'] by (simp add: live_def count_ok_def released_def)

lemma same_but_ring_inv: "same_but_ring i w w' \<Longrightarrow> world_core w' H J \<Longrightarrow> world_inv w H0 J0 \<Longrightarrow> world_inv w' H J"
  by (rule world_invI) (simp_all add: same_but_ring_fields)

text \<open>The bytes of a frame in a fresh packet, before and after decoding.\<close>

lemma received_packet:
  assumes d: "fresh_packet d" and bs: "length bs \<le> 295"
  defines "d' \<equiv> snd (NetPacket_MoveWritePos (int (length bs)) (d\<lparr>m_Buffer := mem_write (m_Buffer d) 5 bs\<rparr>))"
  shows "unread d'" "payload d' = bs" "m_RefCount d' = m_RefCount d" "m_PayloadSize d' = int (length bs)"
    "length (m_Buffer d) = 300"
proof -
  have inv: "serbuf_inv sizeof_NetHeader NetPacket_BUFFER_SIZE d" and z: "m_WritePos d = 0" "m_PayloadSize d = 0"
      "m_ReadPos d = 0" "\<not> m_bSetHeader d" "\<not> m_bEencode d"
    using d by (simp_all add: fresh_packet_def net_inv_def)
  show "length (m_Buffer d) = 300" using inv by (simp add: serbuf_inv_def packet_consts)
  have ptr: "m_PayloadPtr d = 5" "m_PayloadFreeSize d = 295"
    using inv z by (simp_all add: serbuf_inv_def packet_consts)
  have eq: "d' = d\<lparr>m_Buffer := mem_write (m_Buffer d) 5 bs, m_WritePos := int (length bs),
      m_PayloadSize := int (length bs), m_PayloadFreeSize := 295 - int (length bs)\<rparr>"
    using bs z ptr by (auto simp: d'_def NetPacket_MoveWritePos_def Let_def)
  have room: "m_WritePos d + int (length bs) \<le> NetPacket_BUFFER_SIZE - sizeof_NetHeader"
    using bs z by (simp add: packet_consts)
  have "payload d = []" using z by (simp add: payload_def)
  with payload_append(1,2) [OF inv refl room] show "unread d'" "payload d' = bs"
    using z ptr by (simp_all add: eq unread_def net_inv_def)
  show "m_RefCount d' = m_RefCount d" "m_PayloadSize d' = int (length bs)" by (simp_all add: eq)
qed

lemma decoded_packet:
  assumes "unread d"
  shows "\<exists>d' h'. Decoding h d = Inr (open_frame h (payload d) \<noteq> None, h', d') \<and> unread d' \<and>
    m_RefCount d' = m_RefCount d \<and> (\<forall>pl. open_frame h (payload d) = Some pl \<longrightarrow> payload d' = pl)"
proof -
  have "net_inv d" "m_ReadPos d = 0" using assms by (simp_all add: unread_def)
  from Decoding_payload [OF this, of h] obtain d' where
      "Decoding h d = Inr ((h_CheckSum h XOR (dfPACKET_KEY + 1)) XOR (h_RandKey h + 1) = checksum_loop 0
         (decode_loop (h_RandKey h) 0 (h_CheckSum h) (h_CheckSum h XOR (dfPACKET_KEY + 1)) (payload d)),
         h\<lparr>h_CheckSum := (h_CheckSum h XOR (dfPACKET_KEY + 1)) XOR (h_RandKey h + 1)\<rparr>, d')"
      "net_inv d'" "payload d' = decode_loop (h_RandKey h) 0 (h_CheckSum h) (h_CheckSum h XOR (dfPACKET_KEY + 1)) (payload d)"
      "m_ReadPos d' = 0" "m_RefCount d' = m_RefCount d" "m_bSetHeader d' = m_bSetHeader d" "m_bEencode d' = m_bEencode d"
    by metis
  then show ?thesis using assms by (auto simp: open_frame_def unread_def Let_def)
qed

lemma refs_ring:
  assumes "i < length (m_SessionArray w)"
  shows "refs (upd_sess i (\<lambda>s. s\<lparr>s_RecvRingQ := q\<rparr>) w) = refs w"
  using refs_upd_sess [OF assms, of "\<lambda>s. s\<lparr>s_RecvRingQ := q\<rparr>" "{#}" "{#}"] by (simp add: session_refs_def)

lemma Dequeue_exact:
  assumes ring: "ring_inv q" and n: "0 < n" "n \<le> length (contents q)" and dest: "5 + n \<le> length dest"
  shows "\<exists>q'. Dequeue q dest 5 (int n) = Inr (int n, mem_write dest 5 (take n (contents q)), q') \<and> ring_inv q' \<and>
    contents q' = drop n (contents q)"
proof -
  have m: "min (int n) (GetUsedSize q) = int n" using n(2) length_contents [OF ring] by simp
  have "0 < int n" "5 + int n \<le> int (length dest)" using n(1) dest by simp_all
  with Dequeue_step [OF ring, of "int n" 5 dest] show ?thesis unfolding m by (metis nat_int nat_numeral zero_le_numeral)
qed

text \<open>From the header to the decoded packet in the hands of the worker thread.\<close>

lemma payload_in_hand:
  assumes inv: "world_core w H J" and i: "i < length (m_SessionArray w)"
    and n: "0 < unat (h_Len h)" "unat (h_Len h) \<le> 295" "unat (h_Len h) \<le> length (contents (s_RecvRingQ (sess w i)))"
  defines "frame \<equiv> take (unat (h_Len h)) (contents (s_RecvRingQ (sess w i)))"
  shows "\<exists>p w'. RecvPacket_payload e i h w =
      (if open_frame h frame = None
       then bnd (packet_Free p (w'\<lparr>g_FreeMemoryCount := g_FreeMemoryCount w' + 1\<rparr>)) (RecvPacket_fail e i)
       else bnd (OnRecv e (s_ID (sess w' i)) p (w'\<lparr>m_RecvTPS := m_RecvTPS w' + 1\<rparr>)) (\<lambda>w. Inr (NextPacket, w))) \<and>
    world_core w' (add_mset p H) J \<and> p \<notin># refs w' + H \<and> unread (mp_get (w_NetPacketPool w') p) \<and>
    (\<forall>pl. open_frame h frame = Some pl \<longrightarrow> payload (mp_get (w_NetPacketPool w') p) = pl) \<and>
    same_but_ring i w w' \<and> contents (s_RecvRingQ (sess w' i)) = drop (unat (h_Len h)) (contents (s_RecvRingQ (sess w i))) \<and>
    inbox w' = inbox w \<and> m_ThreadQ w' = m_ThreadQ w \<and> m_JobPool w' = m_JobPool w \<and> w_io w' = w_io w"
proof -
  let ?q = "s_RecvRingQ (sess w i)" and ?n = "unat (h_Len h)"
  have ring: "ring_inv ?q" using sessions_invD(1) [OF world_coreD(2) [OF inv] i] by (simp add: session_ok_def)
  have used: "GetUsedSize ?q = int (length (contents ?q))" using length_contents [OF ring] by simp
  have un: "uint (h_Len h) = int ?n" by simp
  have nz: "uint (h_Len h) \<noteq> 0"
  proof
    assume "uint (h_Len h) = 0"
    then have "nat (uint (h_Len h)) = 0" by (simp only: nat_0)
    then show False using n(1) by simp
  qed
  from packet_Alloc_world [OF inv, of e] obtain p pool1 where a:
      "packet_Alloc e w = Inr (p, w\<lparr>w_NetPacketPool := pool1\<rparr>)"
      "world_core (w\<lparr>w_NetPacketPool := pool1\<rparr>) (add_mset p H) J" "p \<notin># refs w + H" "fresh_packet (mp_get pool1 p)"
      "pool_keeps (set_mset (refs w + H)) (w_NetPacketPool w) pool1"
    unfolding Let_def by blast
  let ?d = "mp_get pool1 p"
  let ?w1 = "w\<lparr>w_NetPacketPool := pool1\<rparr>"
  define w2 where "w2 = ?w1\<lparr>g_AllocMemoryCount := g_AllocMemoryCount ?w1 + 1\<rparr>"
  have c2: "world_core w2 (add_mset p H) J"
    unfolding w2_def by (rule iffD2 [OF world_core_cong a(2)]) simp_all
  have f2: "sess w2 k = sess w k" "m_SessionArray w2 = m_SessionArray w" for k by (simp_all add: w2_def)
  have at2: "packet_at p w2 = Inr ?d"
    using packets_at [OF world_coreD(1) [OF c2], of p] by (simp add: w2_def)
  have lf: "length frame = ?n" using n(3) by (simp add: frame_def)
  note rp = received_packet [OF a(4), of frame, unfolded lf, OF n(2)]
  have "5 + ?n \<le> length (m_Buffer ?d)" using n(2) rp(5) by simp
  from Dequeue_exact [OF ring n(1,3) this] obtain q' where q':
      "Dequeue ?q (m_Buffer ?d) 5 (int ?n) = Inr (int ?n, mem_write (m_Buffer ?d) 5 frame, q')"
      "ring_inv q'" "contents q' = drop ?n (contents ?q)"
    unfolding frame_def by blast
  define w3 where "w3 = upd_sess i (\<lambda>s. s\<lparr>s_RecvRingQ := q'\<rparr>) w2"
  have i2: "i < length (m_SessionArray w2)" using i f2(2) by simp
  have c3: "world_core w3 (add_mset p H) J"
    unfolding w3_def by (rule world_core_session_field [OF c2 i2]) (simp_all add: q'(2))
  have refs3: "refs w3 = refs w"
    unfolding w3_def refs_ring [OF i2] by (rule refs_cong) (simp_all add: w2_def)
  have pool3: "w_NetPacketPool w3 = pool1" by (simp add: w3_def w2_def)
  define d2 where "d2 = snd (NetPacket_MoveWritePos (int ?n) (?d\<lparr>m_Buffer := mem_write (m_Buffer ?d) 5 frame\<rparr>))"
  obtain x where x: "NetPacket_MoveWritePos (int ?n) (?d\<lparr>m_Buffer := mem_write (m_Buffer ?d) 5 frame\<rparr>) = (x, d2)"
    unfolding d2_def by (metis prod.collapse)
  have d2: "unread d2" "payload d2 = frame" "m_RefCount d2 = m_RefCount ?d" "m_PayloadSize d2 = int ?n"
    using rp(1-4) by (simp_all add: d2_def)
  have shape: "packet_shape d" if "unread d" for d using that queued_shape [of d] by (simp add: unread_def)
  have p: "p \<in># add_mset p H" "p \<notin># refs w3" using a(3) refs3 by simp_all
  let ?f2 = "\<lambda>d. Inr (NetPacket_MoveWritePos (int ?n) (d\<lparr>m_Buffer := mem_write (m_Buffer ?d) 5 frame\<rparr>))"
  have x2: "?f2 (mp_get (w_NetPacketPool w3) p) = Inr (x, d2)" using x by (simp add: pool3)
  note on2 = on_packet_held [OF c3 p, where f = ?f2, OF x2 shape [OF d2(1)]]
  define w4 where "w4 = w3\<lparr>w_NetPacketPool := mp_put p d2 (w_NetPacketPool w3)\<rparr>"
  have c4: "world_core w4 (add_mset p H) J" and get4: "mp_get (w_NetPacketPool w4) p = d2"
      and k4: "pool_keeps (set_mset (refs w3)) pool1 (w_NetPacketPool w4)"
      and o4: "on_packet p ?f2 w3 = Inr (x, w4)"
    using on2 d2(3) unfolding w4_def by (simp_all add: pool3)
  have refs4: "refs w4 = refs w" using refs_cong [of w4 w3] refs3 by (simp add: w4_def)
  have at4: "packet_at p w4 = Inr d2" using packets_at [OF world_coreD(1) [OF c4], of p] by (simp add: get4)
  from decoded_packet [OF d2(1), of h] obtain d3 h' where d3:
      "Decoding h d2 = Inr (open_frame h frame \<noteq> None, h', d3)" "unread d3" "m_RefCount d3 = m_RefCount d2"
      "\<forall>pl. open_frame h frame = Some pl \<longrightarrow> payload d3 = pl"
    unfolding d2(2) by blast
  let ?f3 = "\<lambda>d. bnd (Decoding h d) (\<lambda>(ok, _, d). Inr (ok, d))"
  have x3: "?f3 (mp_get (w_NetPacketPool w4) p) = Inr (open_frame h frame \<noteq> None, d3)" using d3(1) by (simp add: get4)
  have p4: "p \<notin># refs w4" using a(3) refs4 by simp
  note on3 = on_packet_held [OF c4 p(1) p4, where f = ?f3, OF x3 shape [OF d3(2)]]
  define w5 where "w5 = w4\<lparr>w_NetPacketPool := mp_put p d3 (w_NetPacketPool w4)\<rparr>"
  have c5: "world_core w5 (add_mset p H) J" and get5: "mp_get (w_NetPacketPool w5) p = d3"
      and k5: "pool_keeps (set_mset (refs w4)) (w_NetPacketPool w4) (w_NetPacketPool w5)"
      and o5: "on_packet p ?f3 w4 = Inr (open_frame h frame \<noteq> None, w5)"
    using on3 d3(3) unfolding w5_def by (simp_all add: get4)
  have refs5: "refs w5 = refs w" using refs_cong [of w5 w4] refs4 by (simp add: w5_def)
  have s5: "sess w5 k = (if k = i then (sess w i)\<lparr>s_RecvRingQ := q'\<rparr> else sess w k)" for k
    using i2 f2(1) by (simp add: w5_def w4_def w3_def sess_upd)
  have other: "length (m_SessionArray w5) = length (m_SessionArray w)" "m_MaxUserCount w5 = m_MaxUserCount w"
      "m_ThreadQ w5 = m_ThreadQ w" "m_JobPool w5 = m_JobPool w" "w_io w5 = w_io w"
    by (simp_all add: w5_def w4_def w3_def w2_def)
  have "pool_keeps (set_mset (refs w)) (w_NetPacketPool w) pool1" by (rule pool_keeps_mono [OF a(5)]) simp
  then have keep: "pool_keeps (set_mset (refs w)) (w_NetPacketPool w) (w_NetPacketPool w5)"
    using k4 k5 unfolding refs3 refs4 by (blast intro: pool_keeps_trans)
  have "RecvPacket_payload e i h w =
      (if open_frame h frame = None
       then bnd (packet_Free p (w5\<lparr>g_FreeMemoryCount := g_FreeMemoryCount w5 + 1\<rparr>)) (RecvPacket_fail e i)
       else bnd (OnRecv e (s_ID (sess w5 i)) p (w5\<lparr>m_RecvTPS := m_RecvTPS w5 + 1\<rparr>)) (\<lambda>w. Inr (NextPacket, w)))"
    unfolding RecvPacket_payload_def a(1) bnd_Inr prod.case un Let_def w2_def [symmetric] at2
    unfolding f2(1) NetPacket_GetPayloadPtr_def NetPacket_GetBufferPtr_def sizeof_NetHeader_def add_0 q'(1) bnd_Inr prod.case
      w3_def [symmetric] o4 at4 o5
    using nz by (simp add: crash_if_def NetPacket_GetPayloadSize_def d2(4))
  moreover have "same_but_ring i w w5" using s5 other(1,2) by (auto simp: same_but_ring_def)
  moreover have "inbox w5 = inbox w" by (rule inbox_keeps [OF _ _ keep]) (simp_all add: job_list_def job_of_def other)
  moreover have "contents (s_RecvRingQ (sess w5 i)) = drop ?n (contents ?q)" by (simp add: s5 q'(3))
  ultimately show ?thesis
    using c5 a(3) get5 d3(2,4) other(3-5) by (intro exI [of _ p] exI [of _ w5]) (simp add: refs5)
qed

text \<open>The two ways a frame ends: a job for the update thread, or a disconnect.\<close>

lemma deliver_message:
  assumes inv: "world_core w (add_mset p H) J" and lv: "live sid i w" and room: "queue_room (m_ThreadQ w)"
    and p: "p \<notin># refs w" "payload (mp_get (w_NetPacketPool w) p) = pl"
  shows "\<exists>w'. OnRecv e sid p w = Inr w' \<and> world_core w' H J \<and> same_but_ring i w w' \<and> sess w' i = sess w i \<and>
    inbox w' = inbox w @ [(sid, pl)] \<and> w_io w' = w_io w @ [SetUpdateEvent] \<and>
    length (job_list w') = Suc (length (job_list w)) \<and> queue_cap (m_ThreadQ w) \<le> queue_cap (m_ThreadQ w') + 1"
proof -
  have "world_core w (job_ref (Some p) + H) J" using inv by simp
  from MakeJobNEnQ_world [OF this room, of e ON_MESSAGE sid] obtain pool q j where m:
      "MakeJobNEnQ e ON_MESSAGE sid (Some p) w = Inr (emit SetUpdateEvent (w\<lparr>m_JobPool := pool, m_ThreadQ := q\<rparr>))"
      "world_core (emit SetUpdateEvent (w\<lparr>m_JobPool := pool, m_ThreadQ := q\<rparr>)) H J"
      "job_list (emit SetUpdateEvent (w\<lparr>m_JobPool := pool, m_ThreadQ := q\<rparr>)) = job_list w @ [j]"
      "job_of (emit SetUpdateEvent (w\<lparr>m_JobPool := pool, m_ThreadQ := q\<rparr>)) j =
         \<lparr>j_TYPE = ON_MESSAGE, j_SessionID = sid, j_NetPacketPtr = Some p\<rparr>"
      "\<forall>k\<in>set (job_list w) \<union> J. job_of (emit SetUpdateEvent (w\<lparr>m_JobPool := pool, m_ThreadQ := q\<rparr>)) k = job_of w k"
      "queue_cap (m_ThreadQ w) \<le> queue_cap q + 1"
    unfolding Let_def by blast
  let ?w' = "emit SetUpdateEvent (w\<lparr>m_JobPool := pool, m_ThreadQ := q\<rparr>)"
  have "OnRecv e sid p w = Inr ?w'" using lv m(1) by (simp add: OnRecv_def live_def)
  moreover have "same_but_ring i w ?w'" by (rule same_but_ringI) simp_all
  moreover have "inbox ?w' = inbox w @ [(sid, pl)]"
    using inbox_new_job [OF m(3)] m(4,5) p(2) by (simp add: message_of_def)
  ultimately show ?thesis using m(2,3,6) by (intro exI [of _ ?w']) simp
qed

lemma refuse_frame:
  assumes inv: "world_core w (add_mset p H) J" and lv: "live sid i w" and p: "p \<notin># refs w + H"
  shows "\<exists>w'. bnd (packet_Free p w) (RecvPacket_fail e i) = Inr (ReturnFalse, cancelled i w') \<and>
    world_core w' H J \<and> same_but_ring i w w' \<and> sess w' i = sess w i \<and> inbox w' = inbox w \<and> w_io w' = w_io w"
proof -
  from packet_Free_world [OF inv p] obtain pool where f:
      "packet_Free p w = Inr (w\<lparr>w_NetPacketPool := pool\<rparr>)" "world_core (w\<lparr>w_NetPacketPool := pool\<rparr>) H J"
      "pool_keeps (set_mset (refs w + H)) (w_NetPacketPool w) pool" unfolding Let_def by blast
  let ?w' = "w\<lparr>w_NetPacketPool := pool\<rparr>"
  have "live sid i ?w'" "s_ID (sess ?w' i) = sid" using lv by (simp_all add: live_pool) (simp add: live_def)
  then have "RecvPacket_fail e i ?w' = Inr (ReturnFalse, cancelled i ?w')"
    using Disconnect_live [of sid i ?w' e] by (simp add: RecvPacket_fail_def)
  moreover have "same_but_ring i w ?w'" by (rule same_but_ringI) simp_all
  moreover have "pool_keeps (set_mset (refs w)) (w_NetPacketPool w) pool" by (rule pool_keeps_mono [OF f(3)]) simp
  then have "inbox ?w' = inbox w" by (intro inbox_keeps) (simp_all add: job_list_def job_of_def)
  ultimately show ?thesis using f(1,2) by (intro exI [of _ ?w']) simp
qed

section \<open>One turn of the loop\<close>

text \<open>A copy out of the ring that does not fit its destination.\<close>

lemma memcpy_overrun: "nat off + length bs > length buf \<Longrightarrow> memcpy_in buf off bs = Inl OutOfBounds"
  by (simp add: memcpy_in_def)

lemma memcpy_fault:
  "memcpy_out buf off n = Inl x \<Longrightarrow> x = OutOfBounds" "memcpy_in buf off bs = Inl x \<Longrightarrow> x = OutOfBounds"
  by (auto simp: memcpy_out_def memcpy_in_def split: if_splits)

lemma copy_overrun:
  assumes "0 \<le> at" "0 \<le> d" "0 \<le> n" and "int (length dest) < at + d + n"
  shows "bnd (memcpy_out buf a d) (\<lambda>part1. bnd (memcpy_in dest at part1) (\<lambda>dest1.
     bnd (memcpy_out buf b n) (\<lambda>part2. bnd (memcpy_in dest1 (at + d) part2) (f dest1 part1 part2)))) = Inl OutOfBounds"
proof (cases "memcpy_out buf a d")
  case (Inr part1)
  then have l1: "length part1 = nat d" by (auto simp: run_simps)
  show ?thesis
  proof (cases "memcpy_in dest at part1")
    case (Inr dest1)
    then have l: "length dest1 = length dest" by (auto simp: run_simps)
    show ?thesis
    proof (cases "memcpy_out buf b n")
      case (Inr part2)
      then have "length part2 = nat n" by (auto simp: run_simps)
      then have "length dest1 < nat (at + d) + length part2" using assms l by (simp add: nat_add_distrib)
      then show ?thesis using \<open>memcpy_out buf a d = Inr part1\<close> \<open>memcpy_in dest at part1 = Inr dest1\<close> Inr
        by (simp add: memcpy_overrun)
    qed (use \<open>memcpy_out buf a d = Inr part1\<close> Inr memcpy_fault in auto)
  qed (use Inr memcpy_fault in auto)
qed (use memcpy_fault in auto)

lemma Dequeue_overrun:
  assumes "ring_inv q" and "0 < sz" "sz \<le> GetUsedSize q" "0 \<le> at" and "int (length dest) < at + sz"
  shows "Dequeue q dest at sz = Inl OutOfBounds"
proof -
  let ?d = "GetDirectDequeueSize_at (m_Front q) (m_Rear q)"
  have used: "\<not> GetUsedSize_at (m_Front q) (m_Rear q) < sz" using assms(3) by (simp add: size_members)
  have d: "0 \<le> ?d"
    using GetDirectDequeueSize_at_min [of "m_Front q" "m_Rear q"] assms(1) used_bounds(1) [OF assms(1)]
      slot_bounds(2) [of "m_Front q"] by (simp add: ring_inv_def size_members less_imp_le)
  show ?thesis
  proof (cases "?d < sz")
    case True
    have "int (length dest) < at + ?d + (sz - ?d)" using assms(5) by simp
    from copy_overrun [OF assms(4) d _ this] True show ?thesis
      unfolding Dequeue_def Let_def if_not_P [OF used] using used by simp
  next
    case False
    have "bnd (memcpy_out (ring_Buffer q) a sz) (\<lambda>part. bnd (memcpy_in dest at part) (f part)) = Inl OutOfBounds" for a f
    proof (cases "memcpy_out (ring_Buffer q) a sz")
      case (Inr part)
      then have "length part = nat sz" by (auto simp: run_simps)
      then have "length dest < nat at + length part" using assms(2,4,5) by simp
      then show ?thesis using Inr by (simp add: memcpy_overrun)
    qed (use memcpy_fault in auto)
    then show ?thesis using False used by (simp add: Dequeue_def Let_def)
  qed
qed

definition ring_bytes :: "nat \<Rightarrow> World \<Rightarrow> byte list" where
  "ring_bytes i w = contents (s_RecvRingQ (sess w i))"

text \<open>A turn as a case distinction on the bytes in the ring.\<close>

lemma behind_header:
  fixes h :: "16 word"
  assumes "5 \<le> n" "n < 2 ^ 31"
  shows "(word_of_int (int n) - word_of_int 5 :: 64 word) < ucast h \<longleftrightarrow> n < 5 + unat h"
proof -
  have "(word_of_int (int n) - word_of_int 5 :: 64 word) = of_nat (n - 5)" using assms(1) by (simp add: of_nat_diff)
  then have "unat (word_of_int (int n) - word_of_int 5 :: 64 word) = n - 5"
    using unat_addr [of "n - 5"] assms by simp
  moreover have "unat (ucast h :: 64 word) = unat h"
    by (simp add: unsigned_ucast_eq take_bit_nat_eq_self less_trans [OF unsigned_less])
  ultimately show ?thesis using assms(1) unfolding word_less_nat_alt by linarith
qed

lemma RecvPacket_turn_eq:
  assumes ring: "ring_inv (s_RecvRingQ (sess w i))"
  defines "bs \<equiv> ring_bytes i w" and "h \<equiv> NetHeader_of_bytes (ring_bytes i w)"
  shows "RecvPacket_turn e i w =
    (if length bs < 5 then Inr (LeaveLoop, w)
     else if h_Code h \<noteq> dfPACKET_CODE \<or> unat (h_Len h) = 0 then RecvPacket_fail e i w
     else if length bs < 5 + unat (h_Len h) then
       (if ring_capacity < unat (h_Len h) + length bs then RecvPacket_fail e i w else Inr (LeaveLoop, w))
     else RecvPacket_payload e i h (upd_sess i (\<lambda>s. s\<lparr>s_RecvRingQ := MoveFront 5 (s_RecvRingQ s)\<rparr>) w))"
proof -
  let ?q = "s_RecvRingQ (sess w i)"
  have used: "GetUsedSize ?q = int (length bs)" using length_contents [OF ring] by (simp add: bs_def ring_bytes_def)
  have free: "GetFreeSize ?q = int ring_capacity - int (length bs)"
    unfolding free_eq [OF ring] used by (simp add: ring_capacity_def RING_BUFFER_SIZE_def)
  show ?thesis
  proof (cases "length bs < 5")
    case True
    then show ?thesis by (simp add: RecvPacket_turn_def Let_def used lt_sizeof_def sizeof_NetHeader_def)
  next
    case False
    then have five: "5 \<le> GetUsedSize ?q" using used by simp
    have "Peek ?q (replicate (nat 5) 0) 0 5 = Inr (5, mem_write (replicate (nat 5) 0) 0 (take (nat 5) (contents ?q)))"
      by (rule Peek_eq [OF ring _ five]) simp_all
    also have "mem_write (replicate (nat 5) 0) 0 (take (nat 5) (contents ?q)) = take 5 bs"
      using False by (simp add: mem_write_def bs_def ring_bytes_def)
    finally have peek: "Peek ?q (replicate (nat 5) 0) 0 5 = Inr (5, take 5 bs)" .
    have hd: "NetHeader_of_bytes (take 5 bs) = h" using False NetHeader_of_take [of bs] by (simp add: h_def bs_def)
    have z: "h_Len h = 0 \<longleftrightarrow> unat (h_Len h) = 0" by (simp add: unat_eq_0)
    have "int (length bs) \<le> int ring_capacity"
      using used used_bounds(2) [OF ring] by (simp add: ring_capacity_def RING_BUFFER_SIZE_def)
    then have "length bs < 2 ^ 31" by (simp add: ring_capacity_def RING_BUFFER_SIZE_def)
    then have u: "(word_of_int (int (length bs)) - word_of_int 5 :: 64 word) < ucast (h_Len h) \<longleftrightarrow> length bs < 5 + unat (h_Len h)"
      using False by (intro behind_header) simp_all
    have v: "uint (h_Len h) > int ring_capacity - int (length bs) \<longleftrightarrow> ring_capacity < unat (h_Len h) + length bs"
      unfolding uint_nat by linarith
    show ?thesis
      using False unfolding RecvPacket_turn_def Let_def sizeof_NetHeader_def peek bnd_Inr prod.case hd used free z u v
      by (simp add: lt_sizeof_def)
  qed
qed

lemma RecvPacket_fail_live:
  "live sid i w \<Longrightarrow> RecvPacket_fail e i w = Inr (ReturnFalse, cancelled i w)"
  using Disconnect_live [of sid i w e] by (simp add: RecvPacket_fail_def live_def)

text \<open>The packet after the header was taken from the ring.\<close>

lemma header_taken:
  assumes inv: "world_inv w H J" and lv: "live sid i w" and five: "5 \<le> length (ring_bytes i w)"
  defines "w1 \<equiv> upd_sess i (\<lambda>s. s\<lparr>s_RecvRingQ := MoveFront 5 (s_RecvRingQ s)\<rparr>) w"
  shows "world_core w1 H J" "same_but_ring i w w1" "contents (s_RecvRingQ (sess w1 i)) = drop 5 (ring_bytes i w)"
    "inbox w1 = inbox w"
proof -
  note core = world_invD(1) [OF inv]
  have i: "i < length (m_SessionArray w)" by (rule live_less [OF lv])
  let ?q = "s_RecvRingQ (sess w i)"
  have ring: "ring_inv ?q" using sessions_invD(1) [OF world_coreD(2) [OF core] i] by (simp add: session_ok_def)
  have "5 \<le> GetUsedSize ?q" using length_contents [OF ring] five by (simp add: ring_bytes_def)
  from MoveFront_contents [OF ring _ this] have mf: "contents (MoveFront 5 ?q) = drop 5 (contents ?q)" "ring_inv (MoveFront 5 ?q)"
    by simp_all
  show "world_core w1 H J" unfolding w1_def by (rule world_core_session_field [OF core i]) (simp_all add: mf(2))
  have s: "sess w1 k = (if k = i then (sess w i)\<lparr>s_RecvRingQ := MoveFront 5 ?q\<rparr> else sess w k)" for k
    using i by (simp add: w1_def sess_upd)
  show "same_but_ring i w w1" using s by (auto simp: same_but_ring_def w1_def)
  show "contents (s_RecvRingQ (sess w1 i)) = drop 5 (ring_bytes i w)" by (simp add: s mf(1) ring_bytes_def)
  show "inbox w1 = inbox w" by (rule inbox_keeps) (simp_all add: w1_def job_list_def job_of_def)
qed

text \<open>A payload longer than the packet's buffer is copied behind its end.\<close>

lemma payload_overrun:
  assumes inv: "world_core w H J" and i: "i < length (m_SessionArray w)"
    and n: "295 < unat (h_Len h)" "unat (h_Len h) \<le> length (contents (s_RecvRingQ (sess w i)))"
  shows "RecvPacket_payload e i h w = Inl OutOfBounds"
proof -
  let ?q = "s_RecvRingQ (sess w i)" and ?n = "unat (h_Len h)"
  have ring: "ring_inv ?q" using sessions_invD(1) [OF world_coreD(2) [OF inv] i] by (simp add: session_ok_def)
  have un: "uint (h_Len h) = int ?n" by simp
  from packet_Alloc_world [OF inv, of e] obtain p pool1 where a:
      "packet_Alloc e w = Inr (p, w\<lparr>w_NetPacketPool := pool1\<rparr>)"
      "world_core (w\<lparr>w_NetPacketPool := pool1\<rparr>) (add_mset p H) J" "fresh_packet (mp_get pool1 p)"
    unfolding Let_def by blast
  let ?w1 = "w\<lparr>w_NetPacketPool := pool1\<rparr>" and ?d = "mp_get pool1 p"
  define w2 where "w2 = ?w1\<lparr>g_AllocMemoryCount := g_AllocMemoryCount ?w1 + 1\<rparr>"
  have "world_core w2 (add_mset p H) J" unfolding w2_def by (rule iffD2 [OF world_core_cong a(2)]) simp_all
  then have at2: "packet_at p w2 = Inr ?d" using packets_at [of w2 _ p] world_coreD(1) by (fastforce simp: w2_def)
  have s2: "sess w2 i = sess w i" by (simp add: w2_def)
  have "Dequeue ?q (m_Buffer ?d) 5 (int ?n) = Inl OutOfBounds"
  proof (rule Dequeue_overrun [OF ring])
    show "int ?n \<le> GetUsedSize ?q" unfolding length_contents [OF ring, symmetric] using n(2) by (simp only: of_nat_le_iff)
    show "0 < int ?n" using n(1) by (simp only: of_nat_0_less_iff)
    have "length (m_Buffer ?d) = 300" using received_packet(5) [OF a(3), of "[]"] by simp
    then show "int (length (m_Buffer ?d)) < 5 + int ?n" using n(1) by (simp only:)
  qed simp
  then show ?thesis
    unfolding RecvPacket_payload_def a(1) bnd_Inr prod.case un Let_def w2_def [symmetric] at2 s2
      NetPacket_GetPayloadPtr_def NetPacket_GetBufferPtr_def sizeof_NetHeader_def add_0
    by simp
qed

text \<open>What a turn does, by the outcome of cutting the bytes in the ring.\<close>

lemma turn_outcomes:
  assumes inv: "world_inv w H J" and lv: "live sid i w"
  shows "cut_frame (ring_bytes i w) = NeedMore \<Longrightarrow> RecvPacket_turn e i w = Inr (LeaveLoop, w)"
    and "cut_frame (ring_bytes i w) = Overrun \<Longrightarrow> RecvPacket_turn e i w = Inl OutOfBounds"
    and "cut_frame (ring_bytes i w) = BadFrame \<Longrightarrow>
      \<exists>w'. RecvPacket_turn e i w = Inr (ReturnFalse, cancelled i w') \<and> world_inv w' H J \<and> same_but_ring i w w' \<and>
        inbox w' = inbox w \<and> w_io w' = w_io w"
    and "cut_frame (ring_bytes i w) = Message pl rest \<Longrightarrow> queue_room (m_ThreadQ w) \<Longrightarrow>
      \<exists>w'. RecvPacket_turn e i w = Inr (NextPacket, w') \<and> world_inv w' H J \<and> same_but_ring i w w' \<and>
        ring_bytes i w' = rest \<and> inbox w' = inbox w @ [(sid, pl)] \<and> w_io w' = w_io w @ [SetUpdateEvent] \<and>
        length (job_list w') = Suc (length (job_list w)) \<and> queue_cap (m_ThreadQ w) \<le> queue_cap (m_ThreadQ w') + 1"
proof -
  note core = world_invD(1) [OF inv]
  have i: "i < length (m_SessionArray w)" by (rule live_less [OF lv])
  have ring: "ring_inv (s_RecvRingQ (sess w i))"
    using sessions_invD(1) [OF world_coreD(2) [OF core] i] by (simp add: session_ok_def)
  let ?bs = "ring_bytes i w" and ?h = "NetHeader_of_bytes (ring_bytes i w)"
  let ?n = "unat (h_Len ?h)"
  note eq = RecvPacket_turn_eq [OF ring, of e] and cut = cut_frame_def [of ?bs, unfolded Let_def]
  note fail = RecvPacket_fail_live [OF lv, of e]
  define w1 where "w1 = upd_sess i (\<lambda>s. s\<lparr>s_RecvRingQ := MoveFront 5 (s_RecvRingQ s)\<rparr>) w"
  note taken = header_taken [OF inv lv, folded w1_def]
  have lv1: "live sid i w1" and i1: "i < length (m_SessionArray w1)" if "5 \<le> length ?bs"
    using same_but_ring_live [OF taken(2) [OF that] lv] i by (simp_all add: w1_def)
  have jobs1: "m_ThreadQ w1 = m_ThreadQ w" "job_list w1 = job_list w" "w_io w1 = w_io w"
    by (simp_all add: w1_def job_list_def)
  show "cut_frame ?bs = NeedMore \<Longrightarrow> RecvPacket_turn e i w = Inr (LeaveLoop, w)"
    unfolding eq cut by (simp split: if_splits option.splits)
  have frame: "RecvPacket_turn e i w = RecvPacket_payload e i ?h w1"
      "?n \<le> length (contents (s_RecvRingQ (sess w1 i)))" "0 < ?n" "5 \<le> length ?bs"
    if "\<not> length ?bs < 5" "h_Code ?h = dfPACKET_CODE" "?n \<noteq> 0" "\<not> length ?bs < 5 + ?n"
  proof -
    show "5 \<le> length ?bs" "0 < ?n" using that by simp_all
    then show "?n \<le> length (contents (s_RecvRingQ (sess w1 i)))" using taken(3) that(4) by simp
    show "RecvPacket_turn e i w = RecvPacket_payload e i ?h w1"
      unfolding eq w1_def using that by simp
  qed
  show "RecvPacket_turn e i w = Inl OutOfBounds" if c: "cut_frame ?bs = Overrun"
  proof -
    have k: "\<not> length ?bs < 5" "h_Code ?h = dfPACKET_CODE" "?n \<noteq> 0" "\<not> length ?bs < 5 + ?n" "295 < ?n"
      using c unfolding cut by (auto split: if_splits option.splits)
    note f = frame [OF k(1-4)]
    show ?thesis unfolding f(1) by (rule payload_overrun [OF taken(1) [OF f(4)] i1 [OF f(4)] k(5) f(2)])
  qed
  show "\<exists>w'. RecvPacket_turn e i w = Inr (ReturnFalse, cancelled i w') \<and> world_inv w' H J \<and> same_but_ring i w w' \<and>
      inbox w' = inbox w \<and> w_io w' = w_io w" if c: "cut_frame ?bs = BadFrame"
  proof (cases "\<not> length ?bs < 5 \<and> h_Code ?h = dfPACKET_CODE \<and> ?n \<noteq> 0 \<and> \<not> length ?bs < 5 + ?n")
    case True
    then have k: "\<not> length ?bs < 5" "h_Code ?h = dfPACKET_CODE" "?n \<noteq> 0" "\<not> length ?bs < 5 + ?n" "?n \<le> 295"
      using c unfolding cut by (auto split: if_splits option.splits)
    note f = frame [OF k(1-4)]
    note t = taken [OF f(4)]
    from payload_in_hand [OF t(1) i1 [OF f(4)] f(3) k(5) f(2), of e] c k obtain p w2 where w2:
        "RecvPacket_payload e i ?h w1 = bnd (packet_Free p (w2\<lparr>g_FreeMemoryCount := g_FreeMemoryCount w2 + 1\<rparr>)) (RecvPacket_fail e i)"
        "world_core w2 (add_mset p H) J" "p \<notin># refs w2 + H" "same_but_ring i w1 w2" "inbox w2 = inbox w1" "w_io w2 = w_io w1"
      unfolding cut t(3) by (auto split: option.splits)
    define w3 where "w3 = w2\<lparr>g_FreeMemoryCount := g_FreeMemoryCount w2 + 1\<rparr>"
    have c3: "world_core w3 (add_mset p H) J"
      unfolding w3_def by (rule iffD2 [OF world_core_cong w2(2)]) simp_all
    have s23: "same_but_ring i w2 w3" by (rule same_but_ringI) (simp_all add: w3_def)
    have s13: "same_but_ring i w w3" by (rule same_but_ring_trans [OF t(2) same_but_ring_trans [OF w2(4) s23]])
    have "refs w3 = refs w2" by (rule refs_cong) (simp_all add: w3_def)
    then have p3: "p \<notin># refs w3 + H" using w2(3) by simp
    have inbox3: "inbox w3 = inbox w" 
      using inbox_keeps [of w3 w2] w2(5) t(4) by (simp add: w3_def job_list_def job_of_def)
    from refuse_frame [OF c3 same_but_ring_live [OF s13 lv] p3, of e] obtain w' where w':
        "bnd (packet_Free p w3) (RecvPacket_fail e i) = Inr (ReturnFalse, cancelled i w')" "world_core w' H J"
        "same_but_ring i w3 w'" "inbox w' = inbox w3" "w_io w' = w_io w3" by blast
    have s: "same_but_ring i w w'" by (rule same_but_ring_trans [OF s13 w'(3)])
    from same_but_ring_inv [OF this w'(2) inv] s w' inbox3 show ?thesis
      unfolding f(1) w2(1) w3_def [symmetric] by (intro exI [of _ w']) (simp add: w3_def w2(6) jobs1)
  next
    case False
    then have "RecvPacket_turn e i w = Inr (ReturnFalse, cancelled i w)"
      using c unfolding eq cut by (auto simp: fail split: if_splits option.splits)
    then show ?thesis using inv by (intro exI [of _ w]) simp
  qed
  show "\<exists>w'. RecvPacket_turn e i w = Inr (NextPacket, w') \<and> world_inv w' H J \<and> same_but_ring i w w' \<and>
      ring_bytes i w' = rest \<and> inbox w' = inbox w @ [(sid, pl)] \<and> w_io w' = w_io w @ [SetUpdateEvent] \<and>
      length (job_list w') = Suc (length (job_list w)) \<and> queue_cap (m_ThreadQ w) \<le> queue_cap (m_ThreadQ w') + 1"
    if c: "cut_frame ?bs = Message pl rest" and room: "queue_room (m_ThreadQ w)"
  proof -
    have k: "\<not> length ?bs < 5" "h_Code ?h = dfPACKET_CODE" "?n \<noteq> 0" "\<not> length ?bs < 5 + ?n" "?n \<le> 295"
        "open_frame ?h (take ?n (drop 5 ?bs)) = Some pl" "rest = drop (5 + ?n) ?bs"
      using c unfolding cut by (auto split: if_splits option.splits)
    note f = frame [OF k(1-4)]
    note t = taken [OF f(4)]
    from payload_in_hand [OF t(1) i1 [OF f(4)] f(3) k(5) f(2), of e] k(6) obtain p w2 where w2:
        "RecvPacket_payload e i ?h w1 = bnd (OnRecv e (s_ID (sess w2 i)) p (w2\<lparr>m_RecvTPS := m_RecvTPS w2 + 1\<rparr>)) (\<lambda>w. Inr (NextPacket, w))"
        "world_core w2 (add_mset p H) J" "p \<notin># refs w2 + H" "payload (mp_get (w_NetPacketPool w2) p) = pl"
        "same_but_ring i w1 w2" "contents (s_RecvRingQ (sess w2 i)) = drop ?n (drop 5 ?bs)" "inbox w2 = inbox w1"
        "m_ThreadQ w2 = m_ThreadQ w1" "w_io w2 = w_io w1"
      unfolding t(3) by auto
    define w3 where "w3 = w2\<lparr>m_RecvTPS := m_RecvTPS w2 + 1\<rparr>"
    have c3: "world_core w3 (add_mset p H) J"
      unfolding w3_def by (rule iffD2 [OF world_core_cong w2(2)]) simp_all
    have s23: "same_but_ring i w2 w3" by (rule same_but_ringI) (simp_all add: w3_def)
    have s13: "same_but_ring i w w3" by (rule same_but_ring_trans [OF t(2) same_but_ring_trans [OF w2(5) s23]])
    have lv3: "live sid i w3" by (rule same_but_ring_live [OF s13 lv])
    have "refs w3 = refs w2" by (rule refs_cong) (simp_all add: w3_def)
    then have p3: "p \<notin># refs w3" "payload (mp_get (w_NetPacketPool w3) p) = pl" using w2(3,4) by (simp_all add: w3_def)
    have inbox3: "inbox w3 = inbox w"
      using inbox_keeps [of w3 w2] w2(7) t(4) by (simp add: w3_def job_list_def job_of_def)
    have q3: "m_ThreadQ w3 = m_ThreadQ w" "job_list w3 = job_list w" "w_io w3 = w_io w"
      using w2(8,9) jobs1 by (simp_all add: w3_def job_list_def)
    have "queue_room (m_ThreadQ w3)" using room q3 by simp
    from deliver_message [OF c3 lv3 this p3, of e] obtain w' where w':
        "OnRecv e sid p w3 = Inr w'" "world_core w' H J" "same_but_ring i w3 w'" "sess w' i = sess w3 i"
        "inbox w' = inbox w3 @ [(sid, pl)]" "w_io w' = w_io w3 @ [SetUpdateEvent]"
        "length (job_list w') = Suc (length (job_list w3))" "queue_cap (m_ThreadQ w3) \<le> queue_cap (m_ThreadQ w') + 1"
      by blast
    have "s_ID (sess w2 i) = sid" using lv3 by (simp add: live_def w3_def)
    then have "RecvPacket_turn e i w = Inr (NextPacket, w')"
      unfolding f(1) w2(1) w3_def [symmetric] using w'(1) by simp
    moreover have s: "same_but_ring i w w'" by (rule same_but_ring_trans [OF s13 w'(3)])
    moreover have "world_inv w' H J" by (rule same_but_ring_inv [OF s w'(2) inv])
    moreover have "ring_bytes i w' = rest"
      using w2(6) k(7) by (simp add: ring_bytes_def w'(4) w3_def add.commute)
    ultimately show ?thesis using w'(5-8) by (intro exI [of _ w']) (simp add: inbox3 q3)
  qed
qed

section \<open>The loop\<close>

definition delivered :: "64 word \<Rightarrow> nat \<Rightarrow> byte list list \<Rightarrow> World \<Rightarrow> World \<Rightarrow> bool" where
  "delivered sid i pls w w' \<longleftrightarrow> same_but_ring i w w' \<and> inbox w' = inbox w @ map (Pair sid) pls \<and>
     w_io w' = w_io w @ replicate (length pls) SetUpdateEvent"

lemma delivered_refl [simp]: "delivered sid i [] w w"
  by (simp add: delivered_def)

lemma delivered_Cons:
  assumes "same_but_ring i w w1" "inbox w1 = inbox w @ [(sid, pl)]" "w_io w1 = w_io w @ [SetUpdateEvent]"
    and "delivered sid i pls w1 w2"
  shows "delivered sid i (pl # pls) w w2"
  using assms same_but_ring_trans [of i w w1 w2] by (simp add: delivered_def)

lemma job_room:
  assumes "world_core w H J" and "length (job_list w) < queue_cap (m_ThreadQ w)"
  shows "queue_room (m_ThreadQ w)"
proof -
  have "None \<notin> set (queue_list (m_ThreadQ w))" using world_coreD(3) [OF assms(1)] by (simp add: jobs_inv_def)
  then have "map Some (job_list w) = queue_list (m_ThreadQ w)" unfolding job_list_def by (rule map_Some_somes)
  then have "length (queue_list (m_ThreadQ w)) = length (job_list w)" by (metis length_map)
  then show ?thesis using assms(2) by (simp add: queue_room_def)
qed

lemma RecvPacket_loop_ok:
  assumes "world_inv w H J" and "live sid i w" and "length (ring_bytes i w) < fuel"
    and "cut_frames (ring_bytes i w) = (pls, c, rest)"
    and "length (job_list w) + 2 * length pls \<le> queue_cap (m_ThreadQ w)"
  shows "case c of
      NeedMore \<Rightarrow> \<exists>w'. RecvPacket_loop fuel e i w = Inr (True, w') \<and> world_inv w' H J \<and> delivered sid i pls w w' \<and>
        ring_bytes i w' = rest
    | BadFrame \<Rightarrow> \<exists>w'. RecvPacket_loop fuel e i w = Inr (False, cancelled i w') \<and> world_inv w' H J \<and> delivered sid i pls w w'
    | Overrun \<Rightarrow> RecvPacket_loop fuel e i w = Inl OutOfBounds
    | Message pl r \<Rightarrow> False"
  using assms
proof (induction fuel arbitrary: w pls)
  case (Suc fuel)
  note inv = Suc.prems(1) and lv = Suc.prems(2) and cut = Suc.prems(4)
  note turn = turn_outcomes [OF inv lv, where e = e]
  show ?case
  proof (cases "cut_frame (ring_bytes i w)")
    case NeedMore
    with cut have c: "pls = []" "c = NeedMore" "rest = ring_bytes i w" by (simp_all add: cut_frames_cases)
    have "RecvPacket_loop (Suc fuel) e i w = Inr (True, w)" using turn(1) [OF NeedMore] by simp
    then show ?thesis unfolding c using inv by simp
  next
    case Overrun
    with cut have c: "c = Overrun" by (simp add: cut_frames_cases)
    show ?thesis unfolding c using turn(2) [OF Overrun] by simp
  next
    case BadFrame
    with cut have c: "pls = []" "c = BadFrame" by (simp_all add: cut_frames_cases)
    from turn(3) [OF BadFrame] obtain w' where "RecvPacket_turn e i w = Inr (ReturnFalse, cancelled i w')"
        "world_inv w' H J" "same_but_ring i w w'" "inbox w' = inbox w" "w_io w' = w_io w" by blast
    then show ?thesis unfolding c by (auto simp: delivered_def)
  next
    case (Message pl r)
    with cut obtain pls' where c: "pls = pl # pls'" "cut_frames r = (pls', c, rest)"
      by (auto simp: cut_frames_cases prod_eq_iff)
    have "queue_room (m_ThreadQ w)" by (rule job_room [OF world_invD(1) [OF inv]]) (use Suc.prems(5) c(1) in simp)
    from turn(4) [OF Message this] obtain w1 where w1: "RecvPacket_turn e i w = Inr (NextPacket, w1)" "world_inv w1 H J"
        "same_but_ring i w w1" "ring_bytes i w1 = r" "inbox w1 = inbox w @ [(sid, pl)]" "w_io w1 = w_io w @ [SetUpdateEvent]"
        "length (job_list w1) = Suc (length (job_list w))" "queue_cap (m_ThreadQ w) \<le> queue_cap (m_ThreadQ w1) + 1" by blast
    have lv1: "live sid i w1" by (rule same_but_ring_live [OF w1(3) lv])
    have "length (ring_bytes i w1) < fuel" using cut_frame_shorter [OF Message] Suc.prems(3) w1(4) by simp
    moreover have "cut_frames (ring_bytes i w1) = (pls', c, rest)" using c(2) w1(4) by simp
    moreover have "length (job_list w1) + 2 * length pls' \<le> queue_cap (m_ThreadQ w1)"
      using Suc.prems(5) c(1) w1(7,8) by simp
    ultimately have ih: "case c of
        NeedMore \<Rightarrow> \<exists>w'. RecvPacket_loop fuel e i w1 = Inr (True, w') \<and> world_inv w' H J \<and> delivered sid i pls' w1 w' \<and>
          ring_bytes i w' = rest
      | BadFrame \<Rightarrow> \<exists>w'. RecvPacket_loop fuel e i w1 = Inr (False, cancelled i w') \<and> world_inv w' H J \<and> delivered sid i pls' w1 w'
      | Overrun \<Rightarrow> RecvPacket_loop fuel e i w1 = Inl OutOfBounds
      | Message pl r \<Rightarrow> False"
      by (rule Suc.IH [OF w1(2) lv1])
    have run: "RecvPacket_loop (Suc fuel) e i w = RecvPacket_loop fuel e i w1" using w1(1) by simp
    note more = delivered_Cons [OF w1(3,5,6)]
    show ?thesis
      unfolding run c(1) using ih by (cases c) (use more in auto)
  qed
qed simp

section \<open>Posting the next receive\<close>

lemma RecvPost_ok:
  assumes inv: "world_inv w H J" and lv: "live sid i w" and nc: "\<not> s_bIOCancel (sess w i)" and env: "recv_ok e"
    and free: "0 < GetFreeSize (s_RecvRingQ (sess w i))"
  shows "\<exists>bufs. RecvPost e i w = Inr (True, emit (WSARecv (s_Socket (sess w i)) bufs) (IO_Increment i w))"
proof -
  have i: "i < length (m_SessionArray w)" by (rule live_less [OF lv])
  let ?q = "s_RecvRingQ (sess w i)"
  have ring: "ring_inv ?q" using sessions_invD(1) [OF world_coreD(2) [OF world_invD(1) [OF inv]] i] by (simp add: session_ok_def)
  note seg = direct_segments(1,2) [OF ring]
  have cap: "GetFreeSize ?q < RING_BUFFER_SIZE" using used_bounds(1) [OF ring] by (simp add: free_eq [OF ring])
  have "(m_Rear ?q + 1) mod RING_BUFFER_SIZE < RING_BUFFER_SIZE" by (rule slot_bounds)
  then have sizes: "\<not> (Direct1 (GetDirectEnQData ?q) < 0 \<or> Direct2 (GetDirectEnQData ?q) < 0 \<or>
      Direct1 (GetDirectEnQData ?q) > RING_BUFFER_SIZE \<or> Direct2 (GetDirectEnQData ?q) > RING_BUFFER_SIZE)"
    using seg free cap by linarith
  have nz: "s_IOCount (sess w i) \<noteq> 0" "s_IOCount (sess w i) + 1 \<noteq> 0"
    using lv small_count(1) [of "sess w i"] by (simp_all add: live_def count_ok_def)
  have s: "s_IOCount (sess (IO_Increment i w) i) = s_IOCount (sess w i) + 1" "s_bIOCancel (sess (IO_Increment i w) i) = s_bIOCancel (sess w i)"
      "s_Socket (sess (IO_Increment i w) i) = s_Socket (sess w i)"
    using i by (simp_all add: IO_Increment_def sess_upd)
  show ?thesis
    using sizes free nz nc env by (auto simp: RecvPost_def Let_def s recv_ok_def crash_if_def)
qed

section \<open>The handler of a completed receive\<close>

definition received_at :: "env \<Rightarrow> int \<Rightarrow> nat \<Rightarrow> World \<Rightarrow> World" where
  "received_at e n i w = upd_sess i (\<lambda>s. s\<lparr>s_RecvRingQ := MoveRear n (s_RecvRingQ s), s_LastRecvTime := e_time e\<rparr>) w"

lemma received_ring:
  assumes q: "ring_inv q" and bs: "bs \<noteq> []" "int (length bs) \<le> GetFreeSize q"
  defines "q' \<equiv> MoveRear (int (length bs)) (q\<lparr>ring_Buffer := wsabuf_fill (GetDirectEnQData q) bs (ring_Buffer q)\<rparr>)"
  shows "ring_inv q'" "contents q' = contents q @ bs"
proof -
  have fill: "wsabuf_fill (GetDirectEnQData q) bs (ring_Buffer q)
      = ring_write (ring_Buffer q) (nat ((m_Rear q + 1) mod RING_BUFFER_SIZE)) bs"
    using q bs by (intro fill_is_ring_write) simp_all
  have "0 \<le> m_Rear q" using q by (simp add: ring_inv_def)
  then have "q' = q\<lparr>ring_Buffer := ring_write (ring_Buffer q) (nat ((m_Rear q + 1) mod RING_BUFFER_SIZE)) bs,
      m_Rear := (m_Rear q + int (length bs)) mod RING_BUFFER_SIZE\<rparr>"
    by (simp add: q'_def MoveRear_def Let_def fill smod_nonneg less_imp_le)
  with append_step(1,2) [OF q bs(2)] show "ring_inv q'" "contents q' = contents q @ bs" by simp_all
qed

lemma received_at_world:
  fixes e :: env
  assumes inv: "world_inv w H J" and lv: "live sid i w"
    and q: "ring_inv q" "bs \<noteq> []" "int (length bs) \<le> GetFreeSize q"
    and r: "s_RecvRingQ (sess w i) = q\<lparr>ring_Buffer := wsabuf_fill (GetDirectEnQData q) bs (ring_Buffer q)\<rparr>"
  defines "w' \<equiv> received_at e (int (length bs)) i w"
  shows "world_inv w' H J" "live sid i w'" "ring_bytes i w' = contents q @ bs" "inbox w' = inbox w" "job_list w' = job_list w"
    "sess w' k = (if k = i then (sess w i)\<lparr>s_RecvRingQ := MoveRear (int (length bs)) (s_RecvRingQ (sess w i)),
        s_LastRecvTime := e_time e\<rparr> else sess w k)"
proof -
  note core = world_invD(1) [OF inv]
  have i: "i < length (m_SessionArray w)" by (rule live_less [OF lv])
  note ring = received_ring [OF q]
  show s: "sess w' k = (if k = i then (sess w i)\<lparr>s_RecvRingQ := MoveRear (int (length bs)) (s_RecvRingQ (sess w i)),
        s_LastRecvTime := e_time e\<rparr> else sess w k)"
    for k using i by (simp add: w'_def received_at_def sess_upd)
  have rq: "s_RecvRingQ (sess w' i) = MoveRear (int (length bs)) (s_RecvRingQ (sess w i))" by (simp add: s)
  have "FindSession sid w' = FindSession sid w" by (simp add: w'_def received_at_def FindSession_def GetSessionIndex_def)
  then show "live sid i w'" using lv by (simp add: live_def count_ok_def released_def s)
  have "world_core w' H J"
    unfolding w'_def received_at_def by (rule world_core_session_field [OF core i]) (use ring(1) in \<open>simp_all add: r\<close>)
  then show "world_inv w' H J"
    by (rule world_invI [OF _ inv]) (use s in \<open>auto simp: w'_def received_at_def array_full_def\<close>)
  show "ring_bytes i w' = contents q @ bs" using ring(2) by (simp add: ring_bytes_def rq r)
  show "inbox w' = inbox w" by (rule inbox_keeps) (simp_all add: w'_def received_at_def job_list_def job_of_def)
  show "job_list w' = job_list w" by (simp add: w'_def received_at_def job_list_def)
qed

end
