(* ===== verification/SendPosting.thy ===== *)
theory SendPosting
  imports Releasing
begin

text \<open>
  \<open>SendPost\<close> for one caller: the whole send queue of a session becomes one send, whose buffers are
  the encoded packets in the order they were queued.
\<close>

section \<open>Draining the queue\<close>

definition wire_size :: "NetPacketPool \<Rightarrow> objptr \<Rightarrow> int" where
  "wire_size pool p = NetPacket_GetFullPacketSize (mp_get pool p)"

lemma queued_header:
  assumes "queued_ok d"
  shows "\<exists>hdr. memcpy_out (m_Buffer d) (NetPacket_GetBufferPtr d) sizeof_NetHeader = Inr hdr \<and>
    h_Code (NetHeader_of_bytes hdr) = dfPACKET_CODE"
  using assms
  by (simp add: queued_ok_def net_inv_def serbuf_inv_def packet_consts sizeof_NetHeader_def memcpy_out_def
      NetPacket_GetBufferPtr_def NetHeader_of_bytes_def)

lemma queued_size:
  assumes "queued_ok d"
  shows "0 < NetPacket_GetFullPacketSize d" "NetPacket_GetFullPacketSize d \<le> 300" "0 < NetPacket_GetPayloadSize d"
  using assms
  by (simp_all add: queued_ok_def net_inv_def serbuf_inv_def packet_consts sizeof_NetHeader_def
      NetPacket_GetFullPacketSize_def NetPacket_GetPayloadSize_def)

text \<open>Moving one queued packet into the next cell of the array.\<close>

definition array_put :: "objptr \<Rightarrow> int \<Rightarrow> Session \<Rightarrow> Session" where
  "array_put p len s = s\<lparr>s_SendByte := s_SendByte s + word_of_int len,
     s_DeQPacketArray := (s_DeQPacketArray s)[s_DeQArraySize s := Some p], s_DeQArraySize := s_DeQArraySize s + 1\<rparr>"

lemma array_put_ok:
  assumes ok: "session_ok s" and full: "array_full s" and room: "s_DeQArraySize s < DEQ_PACKET_ARRAY_SIZE"
  shows "session_ok (array_put p len s)" "array_full (array_put p len s)"
    "session_refs (array_put p len s) = add_mset p (session_refs s)"
proof -
  have len: "length (s_DeQPacketArray s) = DEQ_PACKET_ARRAY_SIZE" and free: "s_DeQPacketArray s ! s_DeQArraySize s = None"
    using ok room by (simp_all add: session_ok_def)
  show "session_ok (array_put p len s)" using ok room by (simp add: session_ok_def array_put_def)
  show "array_full (array_put p len s)"
    using full room len by (auto simp: array_full_def array_put_def nth_list_update less_Suc_eq)
  show "session_refs (array_put p len s) = add_mset p (session_refs s)"
    using somes_update_Some [of "s_DeQArraySize s" "s_DeQPacketArray s" p] room len free
    by (simp add: session_refs_def array_put_def)
qed

lemma array_put_world:
  assumes inv: "world_core w (add_mset p H) J" and i: "i < length (m_SessionArray w)"
    and full: "array_full (sess w i)" and room: "s_DeQArraySize (sess w i) < DEQ_PACKET_ARRAY_SIZE"
  shows "world_core (upd_sess i (array_put p len) w) H J"
proof (rule world_core_upd_sess [OF inv i])
  have ok: "session_ok (sess w i)" by (rule sessions_invD [OF world_coreD(2) [OF inv] i])
  note put = array_put_ok [OF ok full room, of p len]
  show "session_ok (array_put p len (sess w i))" by (rule put)
  show "session_refs (array_put p len (sess w i)) + H = session_refs (sess w i) + add_mset p H" by (simp add: put(3))
  show "\<forall>q\<in>set (somes (queue_list (s_SendQ (array_put p len (sess w i))))). queued_ok (mp_get (w_NetPacketPool w) q)"
    using sessions_invD(2) [OF world_coreD(2) [OF inv] i] by (simp add: array_put_def)
qed

text \<open>One turn of the loop, on a queue with a packet \<open>p\<close> in front.\<close>

lemma drain_turn:
  assumes inv: "world_core w H J" and i: "i < length (m_SessionArray w)" and full: "array_full (sess w i)"
    and ps: "send_list (sess w i) = p # ps"
  defines "len \<equiv> wire_size (w_NetPacketPool w) p"
  shows "if s_DeQArraySize (sess w i) < DEQ_PACKET_ARRAY_SIZE
    then \<exists>q. let w2 = upd_sess i (\<lambda>s. array_put p len (s\<lparr>s_SendQ := q\<rparr>)) w in
      SendPost_drain (Suc fuel) i w = bnd (SendPost_drain fuel i w2) (\<lambda>(bufs, w). Inr ((p, len) # bufs, w)) \<and>
      world_core w2 H J \<and> array_full (sess w2 i) \<and> send_list (sess w2 i) = ps
    else SendPost_drain (Suc fuel) i w = Inl Crash"
proof -
  have ok: "session_ok (sess w i)" by (rule sessions_invD [OF world_coreD(2) [OF inv] i])
  from session_DeQ [OF inv i] ps obtain q where q:
      "LockFreeQ_DeQ spin_fuel (s_SendQ (sess w i)) = Inr (Some (Some p), q)" "queue_list q = map Some ps"
      "world_core (upd_sess i (\<lambda>s. s\<lparr>s_SendQ := q\<rparr>) w) (add_mset p H) J" by auto
  let ?w1 = "upd_sess i (\<lambda>s. s\<lparr>s_SendQ := q\<rparr>) w"
  have s1: "sess ?w1 i = (sess w i)\<lparr>s_SendQ := q\<rparr>" using i by (simp add: sess_upd)
  have i1: "i < length (m_SessionArray ?w1)" using i by simp
  have "p \<in> set (somes (queue_list (s_SendQ (sess w i))))" using ps by (simp add: send_list_def)
  then have qp: "queued_ok (mp_get (w_NetPacketPool w) p)"
    by (rule sessions_invD(2) [OF world_coreD(2) [OF inv] i])
  have at1: "packet_at p ?w1 = Inr (mp_get (w_NetPacketPool w) p)"
    using packets_at [OF world_coreD(1) [OF q(3)], of p] by simp
  obtain hdr where hdr: "memcpy_out (m_Buffer (mp_get (w_NetPacketPool w) p))
      (NetPacket_GetBufferPtr (mp_get (w_NetPacketPool w) p)) sizeof_NetHeader = Inr hdr"
      "h_Code (NetHeader_of_bytes hdr) = dfPACKET_CODE" using queued_header [OF qp] by blast
  show ?thesis
  proof (cases "s_DeQArraySize (sess w i) < DEQ_PACKET_ARRAY_SIZE")
    case True
    let ?w2 = "upd_sess i (array_put p len) ?w1"
    have full1: "array_full (sess ?w1 i)" "s_DeQArraySize (sess ?w1 i) < DEQ_PACKET_ARRAY_SIZE"
      unfolding s1 using full True by simp_all
    have c2: "world_core ?w2 H J" by (rule array_put_world [OF q(3) i1 full1])
    have eq: "?w2 = upd_sess i (\<lambda>s. array_put p len (s\<lparr>s_SendQ := q\<rparr>)) w" by (simp add: upd_sess_upd)
    have ok1: "session_ok (sess ?w1 i)" by (rule sessions_invD [OF world_coreD(2) [OF q(3)] i1])
    have s2: "sess ?w2 i = array_put p len (sess ?w1 i)" using i1 by (simp add: sess_upd)
    have "array_full (sess ?w2 i)" unfolding s2 by (rule array_put_ok [OF ok1 full1])
    moreover have "send_list (sess ?w2 i) = ps" unfolding s2 s1 using q(2) by (simp add: send_list_def array_put_def)
    moreover have "SendPost_drain (Suc fuel) i w = bnd (SendPost_drain fuel i ?w2) (\<lambda>(bufs, w). Inr ((p, len) # bufs, w))"
    proof -
      have "\<not> DEQ_PACKET_ARRAY_SIZE - 1 < s_DeQArraySize (sess ?w1 i)" using full1(2) by simp
      moreover have "upd_sess i (\<lambda>s. s\<lparr>s_SendByte := s_SendByte s + word_of_int len,
          s_DeQPacketArray := (s_DeQPacketArray s)[s_DeQArraySize s := Some p],
          s_DeQArraySize := s_DeQArraySize s + 1\<rparr>) ?w1 = ?w2" by (rule upd_sess_cong) (simp_all add: array_put_def)
      ultimately show ?thesis
        using q(1) at1 hdr queued_size(3) [OF qp] unfolding SendPost_drain.simps Let_def len_def wire_size_def
        by simp
    qed
    ultimately show ?thesis
      unfolding if_P [OF True] Let_def using c2 eq by (intro exI [of _ q]) simp
  next
    case False
    have "DEQ_PACKET_ARRAY_SIZE - 1 < s_DeQArraySize (sess ?w1 i)"
      unfolding s1 using False by (simp add: DEQ_PACKET_ARRAY_SIZE_def)
    then have "SendPost_drain (Suc fuel) i w = Inl Crash" using q(1) by (simp add: Let_def)
    then show ?thesis using False by simp
  qed
qed

text \<open>The whole loop.\<close>

definition posted :: "NetPacketPool \<Rightarrow> Session \<Rightarrow> Session \<Rightarrow> bool" where
  "posted pool s s' \<longleftrightarrow> (\<exists>q a. queue_list q = [] \<and>
     (\<forall>k < s_DeQArraySize s. a ! k = s_DeQPacketArray s ! k) \<and>
     (\<forall>k<length (send_list s). a ! (s_DeQArraySize s + k) = Some (send_list s ! k)) \<and>
     s' = s\<lparr>s_SendQ := q, s_DeQPacketArray := a, s_DeQArraySize := s_DeQArraySize s + length (send_list s),
       s_SendByte := s_SendByte s + word_of_int (sum_list (map (wire_size pool) (send_list s)))\<rparr>)"

lemma SendPost_drain_ok:
  assumes "world_core w H J" and "i < length (m_SessionArray w)" and "array_full (sess w i)"
    and "length (send_list (sess w i)) < fuel"
    and "s_DeQArraySize (sess w i) + length (send_list (sess w i)) \<le> DEQ_PACKET_ARRAY_SIZE"
  shows "\<exists>w'. SendPost_drain fuel i w =
      Inr (map (\<lambda>p. (p, wire_size (w_NetPacketPool w) p)) (send_list (sess w i)), w') \<and>
    world_core w' H J \<and> array_full (sess w' i) \<and> other_parts i w w' \<and> w_NetPacketPool w' = w_NetPacketPool w \<and>
    posted (w_NetPacketPool w) (sess w i) (sess w' i)"
  using assms
proof (induction fuel arbitrary: w)
  case (Suc fuel)
  note inv = Suc.prems(1) and i = Suc.prems(2) and full = Suc.prems(3)
  have ok: "session_ok (sess w i)" by (rule sessions_invD [OF world_coreD(2) [OF inv] i])
  show ?case
  proof (cases "send_list (sess w i)")
    case Nil
    from session_DeQ [OF inv i] Nil obtain q where q: "LockFreeQ_DeQ spin_fuel (s_SendQ (sess w i)) = Inr (None, q)"
        "queue_list q = []" "world_core (upd_sess i (\<lambda>s. s\<lparr>s_SendQ := q\<rparr>) w) H J" by auto
    let ?w1 = "upd_sess i (\<lambda>s. s\<lparr>s_SendQ := q\<rparr>) w"
    have s1: "sess ?w1 i = (sess w i)\<lparr>s_SendQ := q\<rparr>" using i by (simp add: sess_upd)
    have "posted (w_NetPacketPool w) (sess w i) (sess ?w1 i)"
      unfolding posted_def s1 by (intro exI [of _ q] exI [of _ "s_DeQPacketArray (sess w i)"]) (simp add: q(2) Nil)
    moreover have "array_full (sess ?w1 i)" unfolding s1 using full by simp
    ultimately show ?thesis using q(1,3) Nil i by (intro exI [of _ ?w1]) simp
  next
    case (Cons p ps)
    let ?len = "wire_size (w_NetPacketPool w) p"
    have room: "s_DeQArraySize (sess w i) < DEQ_PACKET_ARRAY_SIZE" using Suc.prems(5) Cons by simp
    from drain_turn [OF inv i full Cons, of fuel] obtain q w2 where w2:
        "w2 = upd_sess i (\<lambda>s. array_put p ?len (s\<lparr>s_SendQ := q\<rparr>)) w"
        "SendPost_drain (Suc fuel) i w = bnd (SendPost_drain fuel i w2) (\<lambda>(bufs, w). Inr ((p, ?len) # bufs, w))"
        "world_core w2 H J" "array_full (sess w2 i)" "send_list (sess w2 i) = ps"
      unfolding if_P [OF room] Let_def by blast
    have i2: "i < length (m_SessionArray w2)" using i w2(1) by simp
    have pool2: "w_NetPacketPool w2 = w_NetPacketPool w" and op2: "other_parts i w w2" using i by (simp_all add: w2(1))
    have s2: "sess w2 i = array_put p ?len ((sess w i)\<lparr>s_SendQ := q\<rparr>)" using i by (simp add: w2(1) sess_upd)
    have size2: "s_DeQArraySize (sess w2 i) = s_DeQArraySize (sess w i) + 1" by (simp add: s2 array_put_def)
    have "length (send_list (sess w2 i)) < fuel"
        "s_DeQArraySize (sess w2 i) + length (send_list (sess w2 i)) \<le> DEQ_PACKET_ARRAY_SIZE"
      using Suc.prems(4,5) Cons w2(5) size2 by simp_all
    from Suc.IH [OF w2(3) i2 w2(4) this] obtain w' where w':
        "SendPost_drain fuel i w2 = Inr (map (\<lambda>p. (p, wire_size (w_NetPacketPool w2) p)) ps, w')"
        "world_core w' H J" "array_full (sess w' i)" "other_parts i w2 w'" "w_NetPacketPool w' = w_NetPacketPool w2"
        "posted (w_NetPacketPool w2) (sess w2 i) (sess w' i)" by (auto simp: w2(5))
    from w'(6) obtain q' a where a: "queue_list q' = []" "\<forall>k < s_DeQArraySize (sess w2 i). a ! k = s_DeQPacketArray (sess w2 i) ! k"
        "\<forall>k<length ps. a ! (s_DeQArraySize (sess w2 i) + k) = Some (ps ! k)"
        "sess w' i = (sess w2 i)\<lparr>s_SendQ := q', s_DeQPacketArray := a, s_DeQArraySize := s_DeQArraySize (sess w2 i) + length ps,
           s_SendByte := s_SendByte (sess w2 i) + word_of_int (sum_list (map (wire_size (w_NetPacketPool w)) ps))\<rparr>"
      by (auto simp: posted_def w2(5) pool2)
    have len: "length (s_DeQPacketArray (sess w i)) = DEQ_PACKET_ARRAY_SIZE" using ok by (simp add: session_ok_def)
    have a0: "a ! s_DeQArraySize (sess w i) = Some p"
      using a(2) room len by (simp add: s2 array_put_def)
    have "posted (w_NetPacketPool w) (sess w i) (sess w' i)"
      unfolding posted_def
    proof (intro exI [of _ q'] exI [of _ a] conjI allI impI)
      show "a ! k = s_DeQPacketArray (sess w i) ! k" if "k < s_DeQArraySize (sess w i)" for k
        using a(2) that by (simp add: s2 array_put_def)
      show "a ! (s_DeQArraySize (sess w i) + k) = Some (send_list (sess w i) ! k)" if "k < length (send_list (sess w i))" for k
        using a0 a(3) that Cons size2 by (cases k) simp_all
      show "sess w' i = (sess w i)\<lparr>s_SendQ := q', s_DeQPacketArray := a,
          s_DeQArraySize := s_DeQArraySize (sess w i) + length (send_list (sess w i)),
          s_SendByte := s_SendByte (sess w i) + word_of_int (sum_list (map (wire_size (w_NetPacketPool w)) (send_list (sess w i))))\<rparr>"
        using a(4) by (simp add: s2 array_put_def Cons)
    qed (rule a(1))
    moreover have "SendPost_drain (Suc fuel) i w = Inr ((p, ?len) # map (\<lambda>p. (p, wire_size (w_NetPacketPool w) p)) ps, w')"
      using w2(2) w'(1) by (simp add: pool2)
    moreover have "other_parts i w w'" by (rule other_parts_trans [OF op2 w'(4)])
    ultimately show ?thesis using w'(2,3,5) Cons pool2 by (intro exI [of _ w']) simp
  qed
qed simp

lemma SendPost_drain_crash:
  assumes "world_core w H J" and "i < length (m_SessionArray w)" and "array_full (sess w i)"
    and "length (send_list (sess w i)) < fuel"
    and "DEQ_PACKET_ARRAY_SIZE < s_DeQArraySize (sess w i) + length (send_list (sess w i))"
  shows "SendPost_drain fuel i w = Inl Crash"
  using assms
proof (induction fuel arbitrary: w)
  case (Suc fuel)
  note inv = Suc.prems(1) and i = Suc.prems(2) and full = Suc.prems(3)
  have "s_DeQArraySize (sess w i) \<le> DEQ_PACKET_ARRAY_SIZE"
    using sessions_invD(1) [OF world_coreD(2) [OF inv] i] by (simp add: session_ok_def)
  then obtain p ps where Cons: "send_list (sess w i) = p # ps"
    using Suc.prems(5) by (cases "send_list (sess w i)") auto
  let ?len = "wire_size (w_NetPacketPool w) p"
  show ?case
  proof (cases "s_DeQArraySize (sess w i) < DEQ_PACKET_ARRAY_SIZE")
    case True
    from drain_turn [OF inv i full Cons, of fuel] obtain q w2 where w2:
        "w2 = upd_sess i (\<lambda>s. array_put p ?len (s\<lparr>s_SendQ := q\<rparr>)) w"
        "SendPost_drain (Suc fuel) i w = bnd (SendPost_drain fuel i w2) (\<lambda>(bufs, w). Inr ((p, ?len) # bufs, w))"
        "world_core w2 H J" "array_full (sess w2 i)" "send_list (sess w2 i) = ps"
      unfolding if_P [OF True] Let_def by blast
    have i2: "i < length (m_SessionArray w2)" using i w2(1) by simp
    have "s_DeQArraySize (sess w2 i) = s_DeQArraySize (sess w i) + 1"
      using i by (simp add: w2(1) sess_upd array_put_def)
    then have "length (send_list (sess w2 i)) < fuel"
        "DEQ_PACKET_ARRAY_SIZE < s_DeQArraySize (sess w2 i) + length (send_list (sess w2 i))"
      using Suc.prems(4,5) Cons w2(5) by simp_all
    from Suc.IH [OF w2(3) i2 w2(4) this] w2(2) show ?thesis by simp
  next
    case False
    from drain_turn [OF inv i full Cons, of fuel] show ?thesis unfolding if_not_P [OF False] .
  qed
qed simp

section \<open>The send\<close>

lemma wire_sizes:
  assumes "\<forall>p\<in>set ps. queued_ok (mp_get pool p)" and "ps \<noteq> []" and "length ps \<le> DEQ_PACKET_ARRAY_SIZE"
  shows "0 < sum_list (map (wire_size pool) ps)" "sum_list (map (wire_size pool) ps) \<le> 30000"
proof -
  have each: "0 < wire_size pool p \<and> wire_size pool p \<le> 300" if "p \<in> set ps" for p
    using queued_size(1,2) [of "mp_get pool p"] assms(1) that by (simp add: wire_size_def)
  have "int (length qs) \<le> sum_list (map (wire_size pool) qs) \<and> sum_list (map (wire_size pool) qs) \<le> 300 * int (length qs)"
    if "set qs \<subseteq> set ps" for qs
    using that by (induction qs) (use each in fastforce)+
  from this [of ps] show "0 < sum_list (map (wire_size pool) ps)" "sum_list (map (wire_size pool) ps) \<le> 30000"
    using assms(2,3) by (cases ps; simp add: DEQ_PACKET_ARRAY_SIZE_def)+
qed

lemma word_of_pos: "0 < n \<Longrightarrow> n \<le> 30000 \<Longrightarrow> (word_of_int n :: 32 word) \<noteq> 0"
  by (simp add: word_of_int_eq_0_iff zdvd_not_zless)

text \<open>What the send buffers hold: the packets as they go over the wire.\<close>

definition wire_image :: "NetPacketPool \<Rightarrow> objptr \<Rightarrow> byte list" where
  "wire_image pool p = take (nat (wire_size pool p)) (m_Buffer (mp_get pool p))"

definition send_ok :: "env \<Rightarrow> bool" where
  "send_ok e \<longleftrightarrow> e_WSASend e = WsaOk \<or> e_WSASend e = WsaError WSA_IO_PENDING"

text \<open>A session that may start a send: no send is in flight.\<close>

definition sendable :: "Session \<Rightarrow> bool" where
  "sendable s \<longleftrightarrow> s_SendFlag s = 0 \<and> s_DeQArraySize s = 0 \<and> s_SendByte s = 0 \<and> \<not> s_bIOCancel s"

definition sending :: "NetPacketPool \<Rightarrow> Session \<Rightarrow> Session \<Rightarrow> bool" where
  "sending pool s s' \<longleftrightarrow> send_list s' = [] \<and> s_DeQArraySize s' = length (send_list s) \<and>
     (\<forall>k<length (send_list s). s_DeQPacketArray s' ! k = Some (send_list s ! k)) \<and> s_SendFlag s' = 1 \<and>
     s_SendByte s' = word_of_int (sum_list (map (wire_size pool) (send_list s))) \<and>
     s_IOCount s' = s_IOCount s + 1 \<and> s_ID s' = s_ID s \<and> s_RecvRingQ s' = s_RecvRingQ s"

lemma SendPost_world:
  assumes inv: "world_inv w H J" and lv: "live sid i w" and sd: "sendable (sess w i)" and env: "send_ok e"
    and ps: "send_list (sess w i) \<noteq> []" "length (send_list (sess w i)) \<le> DEQ_PACKET_ARRAY_SIZE"
  shows "\<exists>w'. SendPost e sid w = Inr (True, w') \<and> world_inv w' H J \<and>
    sending (w_NetPacketPool w) (sess w i) (sess w' i) \<and> (\<forall>k. k \<noteq> i \<longrightarrow> sess w' k = sess w k) \<and>
    w_io w' = w_io w @ [WSASend (s_Socket (sess w i)) (map (wire_image (w_NetPacketPool w)) (send_list (sess w i)))]"
proof -
  note core = world_invD(1) [OF inv]
  have i: "i < length (m_SessionArray w)" using lv by (rule live_less)
  note full = world_invD(2) [OF inv i]
  let ?s = "sess w i" and ?pool = "w_NetPacketPool w"
  let ?G = "\<lambda>s. s\<lparr>s_SendFlag := 1, s_IOCount := s_IOCount s + 1 + 1\<rparr>"
  define w3 where "w3 = upd_sess i ?G w"
  have w3: "IO_Increment i (upd_sess i (\<lambda>s. s\<lparr>s_SendFlag := 1\<rparr>) (IO_Increment i w)) = w3"
    unfolding w3_def IO_Increment_def upd_sess_upd by (rule upd_sess_cong) simp_all
  have ok: "session_ok ?s" by (rule sessions_invD [OF world_coreD(2) [OF core] i])
  have ring: "ring_inv (s_RecvRingQ ?s)" using ok by (simp add: session_ok_def)
  have c3: "world_core w3 H J" unfolding w3_def by (rule world_core_session_field [OF core i]) (simp_all add: ring)
  have i3: "i < length (m_SessionArray w3)" using i by (simp add: w3_def)
  have s3: "sess w3 i = ?G ?s" using i by (simp add: sess_upd w3_def)
  have pool3: "w_NetPacketPool w3 = ?pool" by (simp add: w3_def)
  have op3: "other_parts i w w3" using i by (simp add: w3_def)
  have sl3: "send_list (sess w3 i) = send_list ?s" "s_DeQArraySize (sess w3 i) = 0"
      "LockFreeQ_GetQCount (s_SendQ (sess w3 i)) = LockFreeQ_GetQCount (s_SendQ ?s)"
    unfolding s3 using sd by (simp_all add: send_list_def sendable_def)
  have full3: "array_full (sess w3 i)" unfolding s3 using full by simp
  have cnt: "LockFreeQ_GetQCount (s_SendQ ?s) = int (length (send_list ?s))" by (rule session_queue(3) [OF ok])
  have "length (send_list (sess w3 i)) < Suc (nat (LockFreeQ_GetQCount (s_SendQ (sess w3 i))))"
      "s_DeQArraySize (sess w3 i) + length (send_list (sess w3 i)) \<le> DEQ_PACKET_ARRAY_SIZE"
    unfolding sl3 cnt using ps(2) by simp_all
  from SendPost_drain_ok [OF c3 i3 full3 this] obtain w4 where w4:
      "SendPost_drain (Suc (nat (LockFreeQ_GetQCount (s_SendQ (sess w3 i))))) i w3
         = Inr (map (\<lambda>p. (p, wire_size ?pool p)) (send_list ?s), w4)"
      "world_core w4 H J" "array_full (sess w4 i)" "other_parts i w3 w4" "w_NetPacketPool w4 = ?pool"
      "posted ?pool (sess w3 i) (sess w4 i)"
    unfolding sl3(1) pool3 by blast
  have op4: "other_parts i w w4" by (rule other_parts_trans [OF op3 w4(4)])
  from w4(6) obtain q a where a: "queue_list q = []" "\<forall>k<length (send_list ?s). a ! k = Some (send_list ?s ! k)"
      "sess w4 i = ?s\<lparr>s_SendQ := q, s_DeQPacketArray := a, s_DeQArraySize := length (send_list ?s), s_SendFlag := 1,
         s_IOCount := s_IOCount ?s + 1 + 1, s_SendByte := word_of_int (sum_list (map (wire_size ?pool) (send_list ?s)))\<rparr>"
    unfolding posted_def sl3 unfolding s3 using sd by (auto simp: sendable_def)
  have queued: "\<forall>p\<in>set (send_list ?s). queued_ok (mp_get ?pool p)"
    using sessions_invD(2) [OF world_coreD(2) [OF core] i] by (simp add: send_list_def)
  have bytes: "s_SendByte (sess w4 i) \<noteq> 0"
    unfolding a(3) using wire_sizes [OF queued ps] by (simp add: word_of_pos)
  have cok: "count_ok ?s" "\<not> released ?s" using lv by (simp_all add: live_def)
  note small = small_count [OF cok(2,1)]
  have nz: "s_IOCount (sess w4 i) = s_IOCount ?s + 1 + 1" "\<not> s_bIOCancel (sess w4 i)" "s_Socket (sess w4 i) = s_Socket ?s"
    unfolding a(3) using sd by (simp_all add: sendable_def)
  have io3: "s_IOCount (sess w3 i) \<noteq> 0" unfolding s3 using small(2) by simp
  have images: "map (wsabuf_bytes w4) (map (\<lambda>p. (p, wire_size ?pool p)) (send_list ?s)) = map (wire_image ?pool) (send_list ?s)"
    by (simp add: wsabuf_bytes_def wire_image_def w4(5))
  let ?w5 = "emit (WSASend (s_Socket ?s) (map (wire_image ?pool) (send_list ?s))) w4"
  have i4: "i < length (m_SessionArray w4)" using op4 i by (simp add: other_parts_def)
  have s5: "sess ?w5 i = sess w4 i" by simp
  have "i < length (m_SessionArray ?w5)" using i4 by simp
  from IO_Decrement_held [OF this, of e] have dec:
      "IO_Decrement e i ?w5 = Inr (upd_sess i (\<lambda>s. s\<lparr>s_IOCount := s_IOCount s - 1\<rparr>) ?w5)"
    using small(3) by (simp add: nz(1))
  let ?w6 = "upd_sess i (\<lambda>s. s\<lparr>s_IOCount := s_IOCount s - 1\<rparr>) ?w5"
  have send: "SendPost_send e i (upd_sess i (\<lambda>s. s\<lparr>s_SendFlag := 1\<rparr>) (IO_Increment i w)) = Inr (True, ?w6)"
    using io3 sl3(2) w4(1) bytes nz small(2) env dec unfolding SendPost_send_def Let_def w3
    by (auto simp: send_ok_def images simp del: SendPost_drain.simps map_map)
  have flag: "s_SendFlag (sess (IO_Increment i w) i) = 0" "\<not> LockFreeQ_GetQCount (s_SendQ (sess (upd_sess i (\<lambda>s. s\<lparr>s_SendFlag := 1\<rparr>) (IO_Increment i w)) i)) \<le> 0"
    using i sd ps(1) cnt by (simp_all add: IO_Increment_def sess_upd sendable_def)
  have run: "SendPost e sid w = Inr (True, ?w6)"
    using flag send by (simp add: SendPost_def live_acquire [OF lv] spin_fuel_def numeral_2_eq_2 Let_def)
  have c5: "world_core ?w5 H J" using w4(2) by simp
  have i5: "i < length (m_SessionArray ?w5)" using i4 by simp
  have "world_core ?w6 H J"
    by (rule world_core_session_field [OF c5 i5]) (use ring in \<open>simp_all add: a(3)\<close>)
  moreover have s6: "sess ?w6 k = (if k = i then (sess w4 i)\<lparr>s_IOCount := s_IOCount ?s + 1\<rparr> else sess w k)" for k
    using i4 op4 i nz(1) by (auto simp: sess_upd other_parts_def)
  ultimately have "world_inv ?w6 H J"
    using w4(3) op4 by (auto intro!: world_invI [OF _ inv] simp: other_parts_def)
  moreover have "sending ?pool ?s (sess ?w6 i)"
    unfolding s6 if_P [OF refl] a(3) sending_def using a(1,2) by (simp add: send_list_def)
  moreover have "w_io ?w6 = w_io w @ [WSASend (s_Socket ?s) (map (wire_image ?pool) (send_list ?s))]"
    using op4 by (simp add: other_parts_def)
  ultimately show ?thesis using run s6 by (intro exI [of _ ?w6]) simp
qed

text \<open>More than a hundred queued packets do not fit the array.\<close>

lemma SendPost_overflow:
  assumes inv: "world_inv w H J" and lv: "live sid i w" and sd: "sendable (sess w i)"
    and many: "DEQ_PACKET_ARRAY_SIZE < length (send_list (sess w i))"
  shows "SendPost e sid w = Inl Crash"
proof -
  note core = world_invD(1) [OF inv]
  have i: "i < length (m_SessionArray w)" using lv by (rule live_less)
  let ?s = "sess w i"
  let ?G = "\<lambda>s. s\<lparr>s_SendFlag := 1, s_IOCount := s_IOCount s + 1 + 1\<rparr>"
  define w3 where "w3 = upd_sess i ?G w"
  have w3: "IO_Increment i (upd_sess i (\<lambda>s. s\<lparr>s_SendFlag := 1\<rparr>) (IO_Increment i w)) = w3"
    unfolding w3_def IO_Increment_def upd_sess_upd by (rule upd_sess_cong) simp_all
  have ok: "session_ok ?s" by (rule sessions_invD [OF world_coreD(2) [OF core] i])
  have ring: "ring_inv (s_RecvRingQ ?s)" using ok by (simp add: session_ok_def)
  have c3: "world_core w3 H J" unfolding w3_def by (rule world_core_session_field [OF core i]) (simp_all add: ring)
  have i3: "i < length (m_SessionArray w3)" using i by (simp add: w3_def)
  have s3: "sess w3 i = ?G ?s" using i by (simp add: sess_upd w3_def)
  have sl3: "send_list (sess w3 i) = send_list ?s" "s_DeQArraySize (sess w3 i) = 0"
      "LockFreeQ_GetQCount (s_SendQ (sess w3 i)) = LockFreeQ_GetQCount (s_SendQ ?s)"
    unfolding s3 using sd by (simp_all add: send_list_def sendable_def)
  have full3: "array_full (sess w3 i)" unfolding s3 using world_invD(2) [OF inv i] by simp
  have cnt: "LockFreeQ_GetQCount (s_SendQ ?s) = int (length (send_list ?s))" by (rule session_queue(3) [OF ok])
  have "length (send_list (sess w3 i)) < Suc (nat (LockFreeQ_GetQCount (s_SendQ (sess w3 i))))"
      "DEQ_PACKET_ARRAY_SIZE < s_DeQArraySize (sess w3 i) + length (send_list (sess w3 i))"
    unfolding sl3 cnt using many by simp_all
  note drain = SendPost_drain_crash [OF c3 i3 full3 this]
  have "\<not> released ?s" "count_ok ?s" using lv by (simp_all add: live_def)
  note small = small_count [OF this]
  have io3: "s_IOCount (sess w3 i) \<noteq> 0" unfolding s3 using small(2) by simp
  have send: "SendPost_send e i (upd_sess i (\<lambda>s. s\<lparr>s_SendFlag := 1\<rparr>) (IO_Increment i w)) = Inl Crash"
    using io3 sl3(2) drain unfolding SendPost_send_def Let_def w3 by (simp del: SendPost_drain.simps)
  have "send_list ?s \<noteq> []" using many by auto
  then have "s_SendFlag (sess (IO_Increment i w) i) = 0"
      "\<not> LockFreeQ_GetQCount (s_SendQ (sess (upd_sess i (\<lambda>s. s\<lparr>s_SendFlag := 1\<rparr>) (IO_Increment i w)) i)) \<le> 0"
    using i sd cnt by (simp_all add: IO_Increment_def sess_upd sendable_def)
  then show ?thesis
    using send by (simp add: SendPost_def live_acquire [OF lv] spin_fuel_def numeral_2_eq_2 Let_def)
qed

end
