(* ===== verification/Clients.thy ===== *)
theory Clients
  imports ChatServer SessionFacts
begin

text \<open>
  The update thread's registry: clients by session and by sector.  Every client in the map is an
  object of the pool, knows its session, and stands in exactly the sector list that its
  coordinates name, or in none before its first move.
\<close>

section \<open>The registry\<close>

definition client_of :: "World \<Rightarrow> objptr \<Rightarrow> Client" where
  "client_of w c = mp_get (m_ClientPool w) c"

definition unplaced :: "Client \<Rightarrow> bool" where
  "unplaced c \<longleftrightarrow> c_SectorX c = 0xffff \<and> c_SectorY c = 0xffff"

definition on_map :: "Client \<Rightarrow> bool" where
  "on_map c \<longleftrightarrow> c_SectorX c < dfSECTOR_X_MAX \<and> c_SectorY c < dfSECTOR_Y_MAX"

text \<open>The arrays of a client keep their sizes.\<close>

definition client_ok :: "Client \<Rightarrow> bool" where
  "client_ok c \<longleftrightarrow> (unplaced c \<or> on_map c) \<and> length (c_ID c) = 40 \<and> length (c_NickName c) = 40 \<and>
     length (c_SessionKey c) = 64"

definition standing :: "World \<Rightarrow> nat \<Rightarrow> nat \<Rightarrow> objptr set" where
  "standing w y x = {c \<in> ran (m_ClientMap w). on_map (client_of w c) \<and>
     unat (c_SectorY (client_of w c)) = y \<and> unat (c_SectorX (client_of w c)) = x}"

definition clients_inv :: "World \<Rightarrow> bool" where
  "clients_inv w \<longleftrightarrow>
     mp_inv (m_ClientPool w) (ran (m_ClientMap w)) \<and> mp_bPlacementNew (m_ClientPool w) \<and>
     (\<forall>sid c. m_ClientMap w sid = Some c \<longrightarrow> c_SessionID (client_of w c) = sid \<and>
        client_ok (client_of w c)) \<and>
     (\<forall>y x. distinct (m_Sector w y x) \<and> set (m_Sector w y x) = standing w y x)"

lemma clients_invD:
  assumes "clients_inv w"
  shows "mp_inv (m_ClientPool w) (ran (m_ClientMap w))" "mp_bPlacementNew (m_ClientPool w)"
    "m_ClientMap w sid = Some c \<Longrightarrow> c_SessionID (client_of w c) = sid"
    "m_ClientMap w sid = Some c \<Longrightarrow> client_ok (client_of w c)"
    "distinct (m_Sector w y x)" "set (m_Sector w y x) = standing w y x"
  using assms unfolding clients_inv_def by blast+

lemma unplaced_off_map: "unplaced c \<Longrightarrow> \<not> on_map c"
  by (simp add: unplaced_def on_map_def dfSECTOR_X_MAX_def)

text \<open>Two sessions never share a client.\<close>

lemma client_inj: "clients_inv w \<Longrightarrow> m_ClientMap w a = Some c \<Longrightarrow> m_ClientMap w b = Some c \<Longrightarrow> a = b"
  using clients_invD(3) by blast

lemma ran_delete:
  assumes "clients_inv w" and "m_ClientMap w sid = Some c"
  shows "ran ((m_ClientMap w)(sid := None)) = ran (m_ClientMap w) - {c}"
proof (intro equalityI subsetI)
  fix d assume "d \<in> ran (m_ClientMap w) - {c}"
  then obtain a where "m_ClientMap w a = Some d" "d \<noteq> c" unfolding ran_def by blast
  moreover from this have "a \<noteq> sid" using assms(2) by auto
  ultimately have "((m_ClientMap w)(sid := None)) a = Some d" by simp
  then show "d \<in> ran ((m_ClientMap w)(sid := None))" by (rule ranI)
next
  fix d assume "d \<in> ran ((m_ClientMap w)(sid := None))"
  then obtain a where a: "((m_ClientMap w)(sid := None)) a = Some d" unfolding ran_def by blast
  then have a': "a \<noteq> sid" "m_ClientMap w a = Some d" by (auto split: if_splits)
  then have "d \<noteq> c" using client_inj [OF assms(1) a'(2)] assms(2) by blast
  then show "d \<in> ran (m_ClientMap w) - {c}" using ranI [of "m_ClientMap w", OF a'(2)] by simp
qed

text \<open>The parts the registry depends on.\<close>

lemma clients_inv_cong:
  "m_ClientPool w' = m_ClientPool w \<Longrightarrow> m_ClientMap w' = m_ClientMap w \<Longrightarrow> m_Sector w' = m_Sector w
   \<Longrightarrow> clients_inv w' = clients_inv w"
  by (simp add: clients_inv_def standing_def client_of_def)

definition registry :: "World \<Rightarrow> Client MemoryPool \<times> (64 word \<Rightarrow> objptr option) \<times> (nat \<Rightarrow> nat \<Rightarrow> objptr list)" where
  "registry w = (m_ClientPool w, m_ClientMap w, m_Sector w)"

lemma registry_cong:
  assumes "registry w' = registry w"
  shows "clients_inv w' = clients_inv w" "client_of w' c = client_of w c" "m_ClientMap w' = m_ClientMap w"
    "sector_clients w' x y = sector_clients w x y"
  using assms clients_inv_cong [of w' w] by (simp_all add: registry_def client_of_def sector_clients_def)

lemma no_clients_inv:
  "m_ClientMap w = (\<lambda>_. None) \<Longrightarrow> m_Sector w = (\<lambda>_ _. []) \<Longrightarrow> m_ClientPool w = MemoryPool_new 1 500 True \<Longrightarrow> clients_inv w"
  using mp_inv_new [of 500 1 True] by (simp add: clients_inv_def standing_def ran_def MemoryPool_new_def)

lemma upd_client_ok:
  fixes f :: "Client \<Rightarrow> Client"
  assumes "mp_inv (m_ClientPool w) U" and "c \<in> U"
  defines "w' \<equiv> upd_client c f w"
  shows "mp_inv (m_ClientPool w') U" "client_of w' c = f (client_of w c)"
    "d \<in> U \<Longrightarrow> d \<noteq> c \<Longrightarrow> client_of w' d = client_of w d" "mp_bPlacementNew (m_ClientPool w') = mp_bPlacementNew (m_ClientPool w)"
    "m_ClientMap w' = m_ClientMap w" "m_Sector w' = m_Sector w"
  using mp_put_ok [OF assms(1,2)] by (simp_all add: w'_def upd_client_def client_of_def mp_put_def Let_def)

lemma client_at_ok:
  assumes "clients_inv w" and "m_ClientMap w sid = Some c"
  shows "client_at c w = Inr (client_of w c)"
proof -
  have c: "c \<in> ran (m_ClientMap w)" using assms(2) by (rule ranI)
  obtain V where "mp_core (m_ClientPool w) (ran (m_ClientMap w)) V"
    using clients_invD(1) [OF assms(1)] by (auto simp: mp_inv_def)
  with c obtain obj where "mp_object (m_ClientPool w) c = Some obj" by (metis mp_object_used prod.collapse)
  then show ?thesis by (simp add: client_at_def client_of_def)
qed

section \<open>Joining and leaving\<close>

lemma CreateNewUser_ok:
  assumes inv: "clients_inv w" and f: "FindSession sid w = Inr i" and new: "m_ClientMap w sid = None"
  shows "\<exists>pool c. let w' = w\<lparr>m_ClientPool := pool, m_ClientMap := (m_ClientMap w)(sid \<mapsto> c)\<rparr> in
    CreateNewUser e sid w = Inr w' \<and> clients_inv w' \<and> c \<notin> ran (m_ClientMap w) \<and>
    client_of w' c = Client_new\<lparr>c_SessionID := sid\<rparr> \<and>
    (\<forall>d\<in>ran (m_ClientMap w). client_of w' d = client_of w d)"
proof -
  let ?U = "ran (m_ClientMap w)"
  from MemoryPool_Alloc_placed [OF clients_invD(1) [OF inv], of Client_new Client_new "e_tid e"] obtain c pool1 where a:
      "MemoryPool_Alloc Client_new Client_new (e_tid e) (m_ClientPool w) = Inr (c, pool1)" "c \<notin> ?U" "mp_inv pool1 (insert c ?U)"
      "\<forall>q\<in>?U. mp_get pool1 q = mp_get (m_ClientPool w) q" "placed Client_new (m_ClientPool w) c pool1" by blast
  have p: "mp_bPlacementNew pool1" "mp_get pool1 c = Client_new"
    using a(5) clients_invD(2) [OF inv] by (simp_all add: placed_def)
  let ?w1 = "w\<lparr>m_ClientPool := pool1\<rparr>"
  let ?f = "\<lambda>c :: Client. c\<lparr>c_SessionID := sid\<rparr>"
  have "mp_inv (m_ClientPool ?w1) (insert c ?U)" using a(3) by simp
  note u = upd_client_ok [OF this insertI1, where f = ?f]
  define pool2 where "pool2 = mp_put c (?f Client_new) pool1"
  have u1: "upd_client c ?f ?w1 = w\<lparr>m_ClientPool := pool2\<rparr>" by (simp add: upd_client_def pool2_def p(2))
  let ?w' = "w\<lparr>m_ClientPool := pool2, m_ClientMap := (m_ClientMap w)(sid \<mapsto> c)\<rparr>"
  have get: "client_of ?w' c = ?f Client_new" "\<And>d. d \<in> ?U \<Longrightarrow> client_of ?w' d = client_of w d"
  proof -
    show "client_of ?w' c = ?f Client_new" using u(2) p(2) by (simp add: u1 client_of_def)
    fix d assume "d \<in> ?U"
    then show "client_of ?w' d = client_of w d" using u(3) [of d] a(2,4) by (auto simp: u1 client_of_def)
  qed
  have ran: "ran ((m_ClientMap w)(sid \<mapsto> c)) = insert c ?U" using new by simp
  have un: "unplaced (client_of ?w' c)" by (simp add: get(1) unplaced_def Client_new_def)
  have ok: "client_ok (client_of ?w' c)" using un by (simp add: client_ok_def get(1) Client_new_def)
  have stand: "standing ?w' y x = standing w y x" for y x
    using unplaced_off_map [OF un] get(2) by (auto simp: standing_def ran)
  have "clients_inv ?w'"
    unfolding clients_inv_def
  proof (intro conjI allI impI)
    show "mp_inv (m_ClientPool ?w') (ran (m_ClientMap ?w'))" using u(1) by (simp add: u1 ran)
    show "mp_bPlacementNew (m_ClientPool ?w')" using u(4) p(1) by (simp add: u1)
  next
    fix s d assume d: "m_ClientMap ?w' s = Some d"
    have "c_SessionID (client_of ?w' d) = s \<and> client_ok (client_of ?w' d)"
    proof (cases "s = sid")
      case True
      then have "d = c" using d by simp
      show ?thesis unfolding \<open>d = c\<close> using ok True by (simp add: get(1))
    next
      case False
      then have "m_ClientMap w s = Some d" using d by simp
      moreover from this have "d \<in> ?U" by (rule ranI)
      ultimately show ?thesis using clients_invD(3,4) [OF inv] by (simp add: get(2))
    qed
    then show "c_SessionID (client_of ?w' d) = s" "client_ok (client_of ?w' d)" by simp_all
  next
    fix y x
    show "distinct (m_Sector ?w' y x)" using clients_invD(5) [OF inv] by simp
    show "set (m_Sector ?w' y x) = standing ?w' y x" unfolding stand using clients_invD(6) [OF inv] by simp
  qed
  moreover have "CreateNewUser e sid w = Inr ?w'"
    using new by (simp add: CreateNewUser_def f a(1) u1)
  ultimately show ?thesis
    unfolding Let_def using a(2) get by (intro exI [of _ pool2] exI [of _ c] conjI) simp_all
qed

lemma MemoryPool_Free_placement:
  "MemoryPool_Free dtor p s = Inr s' \<Longrightarrow> mp_bPlacementNew s' = mp_bPlacementNew s"
  by (auto simp: MemoryPool_Free_def ChunkMemory_Free_def run_simps Let_def split: option.splits if_splits prod.splits)

lemma outside_map: "c_SectorY c > dfSECTOR_Y_MAX - 1 \<or> c_SectorX c > dfSECTOR_X_MAX - 1 \<longleftrightarrow> \<not> on_map c"
  by (auto simp: on_map_def dfSECTOR_X_MAX_def dfSECTOR_Y_MAX_def word_less_nat_alt word_le_nat_alt)

lemma sector_erase_eq:
  assumes "on_map c"
  shows "sector_erase (c_SectorY c) (c_SectorX c) p w = Inr (w\<lparr>m_Sector := (m_Sector w)(unat (c_SectorY c) :=
    (m_Sector w (unat (c_SectorY c)))(unat (c_SectorX c) := remove1 p (m_Sector w (unat (c_SectorY c)) (unat (c_SectorX c)))))\<rparr>)"
  using assms by (simp add: sector_erase_def on_map_def not_le)

text \<open>A client on the map leaves its own list and no other.\<close>

lemma erase_from_sector:
  assumes inv: "clients_inv w" and on: "on_map (client_of w c)" and w1: "m_Sector w1 = m_Sector w"
  shows "\<exists>S. sector_erase (c_SectorY (client_of w c)) (c_SectorX (client_of w c)) c w1 = Inr (w1\<lparr>m_Sector := S\<rparr>) \<and>
    (\<forall>y x. distinct (S y x) \<and> set (S y x) = set (m_Sector w y x) - {c})"
proof -
  let ?y = "unat (c_SectorY (client_of w c))" and ?x = "unat (c_SectorX (client_of w c))"
  let ?S = "(m_Sector w)(?y := (m_Sector w ?y)(?x := remove1 c (m_Sector w ?y ?x)))"
  have stand: "set (m_Sector w y x) = standing w y x" "distinct (m_Sector w y x)" for y x
    using clients_invD(5,6) [OF inv] by blast+
  have "distinct (?S y x) \<and> set (?S y x) = set (m_Sector w y x) - {c}" for y x
  proof (cases "y = ?y \<and> x = ?x")
    case True
    then show ?thesis using stand(2) by (simp add: set_remove1_eq)
  next
    case False
    then have "?S y x = m_Sector w y x" by auto
    moreover have "c \<notin> standing w y x" using False by (auto simp: standing_def)
    ultimately show ?thesis using stand by simp
  qed
  then show ?thesis using sector_erase_eq [OF on, of c w1] w1 by (intro exI [of _ ?S]) simp
qed

text \<open>Taking a client out of the map, the sector lists and the pool.\<close>

lemma forget_client:
  assumes inv: "clients_inv w" and c: "m_ClientMap w sid = Some c"
    and w1: "m_ClientMap w1 = (m_ClientMap w)(sid := None)" "m_ClientPool w1 = m_ClientPool w"
    and sec: "\<And>y x. distinct (m_Sector w1 y x) \<and> set (m_Sector w1 y x) = set (m_Sector w y x) - {c}"
  shows "\<exists>pool. client_Free c w1 = Inr (w1\<lparr>m_ClientPool := pool\<rparr>) \<and> clients_inv (w1\<lparr>m_ClientPool := pool\<rparr>) \<and>
    (\<forall>d\<in>ran (m_ClientMap w1). client_of (w1\<lparr>m_ClientPool := pool\<rparr>) d = client_of w d)"
proof -
  have "c \<in> ran (m_ClientMap w)" using c by (rule ranI)
  from MemoryPool_Free_ok [OF clients_invD(1) [OF inv] this, of id] obtain pool where f:
      "MemoryPool_Free id c (m_ClientPool w) = Inr pool" "mp_inv pool (ran (m_ClientMap w) - {c})"
      "\<forall>q\<in>ran (m_ClientMap w) - {c}. mp_get pool q = mp_get (m_ClientPool w) q" by blast
  let ?w' = "w1\<lparr>m_ClientPool := pool\<rparr>"
  have ran: "ran (m_ClientMap w1) = ran (m_ClientMap w) - {c}" using ran_delete [OF inv c] w1(1) by simp
  have get: "client_of ?w' d = client_of w d" if "d \<in> ran (m_ClientMap w1)" for d
    using f(3) that ran by (simp add: client_of_def)
  have stand: "standing ?w' y x = standing w y x - {c}" for y x
    using get ran by (auto simp: standing_def)
  have "clients_inv ?w'"
    unfolding clients_inv_def
  proof (intro conjI allI impI)
    show "mp_inv (m_ClientPool ?w') (ran (m_ClientMap ?w'))" using f(2) ran by simp
    show "mp_bPlacementNew (m_ClientPool ?w')" using MemoryPool_Free_placement [OF f(1)] clients_invD(2) [OF inv] by simp
  next
    fix s d assume "m_ClientMap ?w' s = Some d"
    then have d1: "m_ClientMap w1 s = Some d" by simp
    then have "m_ClientMap w s = Some d" using w1(1) by (simp split: if_splits)
    then have "c_SessionID (client_of w d) = s \<and> client_ok (client_of w d)"
      using clients_invD(3,4) [OF inv] by blast
    then show "c_SessionID (client_of ?w' d) = s" "client_ok (client_of ?w' d)"
      using get [OF ranI [of "m_ClientMap w1" s d, OF d1]] by simp_all
  next
    fix y x
    show "distinct (m_Sector ?w' y x)" using sec by simp
    show "set (m_Sector ?w' y x) = standing ?w' y x" unfolding stand using sec clients_invD(6) [OF inv] by simp
  qed
  then show ?thesis using f(1) w1(2) get by (intro exI [of _ pool]) (simp add: client_Free_def)
qed

lemma DeleteUser_ok:
  assumes inv: "clients_inv w" and f: "FindSession sid w = Inr i" and c: "m_ClientMap w sid = Some c"
  shows "\<exists>w'. DeleteUser sid w = Inr w' \<and> clients_inv w' \<and> m_ClientMap w' = (m_ClientMap w)(sid := None) \<and>
    (\<forall>d\<in>ran (m_ClientMap w'). client_of w' d = client_of w d)"
proof -
  let ?k = "client_of w c"
  define w1 where "w1 = w\<lparr>g_OnClientLeaveCall := g_OnClientLeaveCall w + 1, m_ClientMap := (m_ClientMap w)(sid := None)\<rparr>"
  have w1: "m_ClientMap w1 = (m_ClientMap w)(sid := None)" "m_ClientPool w1 = m_ClientPool w" "m_Sector w1 = m_Sector w"
    by (simp_all add: w1_def)
  have at: "client_at c w1 = Inr ?k"
    using client_at_ok [OF inv c] unfolding client_at_def w1(2) .
  have del: "DeleteUser sid w = (if \<not> on_map ?k then client_Free c w1
      else bnd (sector_erase (c_SectorY ?k) (c_SectorX ?k) c w1) (client_Free c))"
  proof -
    have "FindSession sid (w\<lparr>g_OnClientLeaveCall := g_OnClientLeaveCall w + 1\<rparr>) = Inr i"
      using f by (simp add: FindSession_def GetSessionIndex_def)
    then show ?thesis using c at by (simp add: DeleteUser_def Let_def outside_map flip: w1_def)
  qed
  have stand: "set (m_Sector w y x) = standing w y x" "distinct (m_Sector w y x)" for y x
    using clients_invD(5,6) [OF inv] by blast+
  show ?thesis
  proof (cases "on_map ?k")
    case False
    then have "distinct (m_Sector w1 y x) \<and> set (m_Sector w1 y x) = set (m_Sector w y x) - {c}" for y x
      using stand by (auto simp: w1(3) standing_def)
    from forget_client [OF inv c w1(1,2) this] obtain pool where f: "client_Free c w1 = Inr (w1\<lparr>m_ClientPool := pool\<rparr>)"
        "clients_inv (w1\<lparr>m_ClientPool := pool\<rparr>)"
        "\<forall>d\<in>ran (m_ClientMap w1). client_of (w1\<lparr>m_ClientPool := pool\<rparr>) d = client_of w d" by blast
    moreover have "m_ClientMap (w1\<lparr>m_ClientPool := pool\<rparr>) = m_ClientMap w1" by simp
    moreover have "DeleteUser sid w = client_Free c w1" using False by (simp add: del)
    ultimately show ?thesis
      unfolding w1(1) [symmetric] by (intro exI [of _ "w1\<lparr>m_ClientPool := pool\<rparr>"]) (simp only: simp_thms)
  next
    case True
    from erase_from_sector [OF inv True w1(3)] obtain S where S:
        "sector_erase (c_SectorY ?k) (c_SectorX ?k) c w1 = Inr (w1\<lparr>m_Sector := S\<rparr>)"
        "\<forall>y x. distinct (S y x) \<and> set (S y x) = set (m_Sector w y x) - {c}" by blast
    define w2 where "w2 = w1\<lparr>m_Sector := S\<rparr>"
    have w2: "m_ClientMap w2 = (m_ClientMap w)(sid := None)" "m_ClientPool w2 = m_ClientPool w"
      by (simp_all add: w2_def w1)
    have del2: "DeleteUser sid w = client_Free c w2" unfolding del using True S(1) by (simp add: w2_def)
    have "distinct (m_Sector w2 y x) \<and> set (m_Sector w2 y x) = set (m_Sector w y x) - {c}" for y x
      using S(2) by (simp add: w2_def)
    from forget_client [OF inv c w2 this] obtain pool where f: "client_Free c w2 = Inr (w2\<lparr>m_ClientPool := pool\<rparr>)"
        "clients_inv (w2\<lparr>m_ClientPool := pool\<rparr>)"
        "\<forall>d\<in>ran (m_ClientMap w2). client_of (w2\<lparr>m_ClientPool := pool\<rparr>) d = client_of w d" by blast
    moreover have "m_ClientMap (w2\<lparr>m_ClientPool := pool\<rparr>) = m_ClientMap w2" by simp
    ultimately show ?thesis
      unfolding del2 w2(1) [symmetric] by (intro exI [of _ "w2\<lparr>m_ClientPool := pool\<rparr>"]) (simp only: simp_thms)
  qed
qed

lemma DeleteUser_unknown:
  "FindSession sid w = Inr i \<Longrightarrow> m_ClientMap w sid = None \<Longrightarrow> DeleteUser sid w = Inl Crash"
  by (simp add: DeleteUser_def Let_def FindSession_def GetSessionIndex_def)

section \<open>Moving\<close>

text \<open>The first half of a move: a client that stands somewhere is taken off the map.\<close>

lemma taken_off:
  assumes inv: "clients_inv w" and c: "m_ClientMap w sid = Some c"
  defines "k \<equiv> client_of w c"
  shows "\<exists>S. (if c_SectorX k \<noteq> 0xffff \<and> c_SectorY k \<noteq> 0xffff then sector_erase (c_SectorY k) (c_SectorX k) c w else Inr w)
      = Inr (w\<lparr>m_Sector := S\<rparr>) \<and> (\<forall>y x. distinct (S y x) \<and> set (S y x) = standing w y x - {c})"
proof (cases "on_map k")
  case True
  then have "c_SectorX k \<noteq> 0xffff" "c_SectorY k \<noteq> 0xffff"
    by (auto simp: on_map_def dfSECTOR_X_MAX_def dfSECTOR_Y_MAX_def)
  then show ?thesis
    using erase_from_sector [OF inv, of c w] True clients_invD(6) [OF inv] by (simp add: k_def)
next
  case False
  then have "unplaced k" using clients_invD(4) [OF inv c] by (simp add: k_def client_ok_def)
  then have n: "\<not> (c_SectorX k \<noteq> 0xffff \<and> c_SectorY k \<noteq> 0xffff)" by (simp add: unplaced_def)
  have "c \<notin> standing w y x" for y x using False by (simp add: standing_def k_def)
  then have "\<forall>y x. distinct (m_Sector w y x) \<and> set (m_Sector w y x) = standing w y x - {c}"
    using clients_invD(5,6) [OF inv] by simp
  then show ?thesis unfolding if_not_P [OF n] by (intro exI [of _ "m_Sector w"]) simp
qed

text \<open>The second half: it gets its new coordinates and joins the list of its new sector.\<close>

lemma put_on:
  assumes inv: "clients_inv w" and c: "m_ClientMap w sid = Some c"
    and S: "\<And>y x. distinct (m_Sector w1 y x) \<and> set (m_Sector w1 y x) = standing w y x - {c}"
    and w1: "m_ClientMap w1 = m_ClientMap w" "m_ClientPool w1 = m_ClientPool w"
    and xy: "y < dfSECTOR_Y_MAX" "x < dfSECTOR_X_MAX"
  defines "f \<equiv> \<lambda>c. c\<lparr>c_SectorX := x, c_SectorY := y\<rparr>"
  shows "\<exists>w2. sector_push y x c (upd_client c f w1) = Inr w2 \<and> clients_inv w2 \<and>
    (\<exists>pool S. w2 = w1\<lparr>m_ClientPool := pool, m_Sector := S\<rparr>) \<and> client_of w2 c = f (client_of w c) \<and>
    (\<forall>d\<in>ran (m_ClientMap w). d \<noteq> c \<longrightarrow> client_of w2 d = client_of w d)"
proof -
  let ?U = "ran (m_ClientMap w)"
  have cU: "c \<in> ?U" using c by (rule ranI)
  have mp: "mp_inv (m_ClientPool w1) ?U" using clients_invD(1) [OF inv] w1(2) by simp
  note u = upd_client_ok [OF mp cU, where f = f]
  have of1: "client_of w1 d = client_of w d" for d by (simp add: client_of_def w1(2))
  define w2 where "w2 = (upd_client c f w1)\<lparr>m_Sector := (m_Sector w1)(unat y := (m_Sector w1 (unat y))
    (unat x := m_Sector w1 (unat y) (unat x) @ [c]))\<rparr>"
  have push: "sector_push y x c (upd_client c f w1) = Inr w2"
    using xy u(6) by (simp add: sector_push_def w2_def not_le)
  have of2: "client_of w2 d = client_of (upd_client c f w1) d" for d by (simp add: w2_def client_of_def)
  have get: "client_of w2 c = f (client_of w c)" using u(2) by (simp add: of2 of1)
  have oth: "client_of w2 d = client_of w d" if "d \<in> ?U" "d \<noteq> c" for d using u(3) [OF that] by (simp add: of2 of1)
  have map2: "m_ClientMap w2 = m_ClientMap w" using u(5) w1(1) by (simp add: w2_def)
  have on: "on_map (client_of w2 c)" using xy by (simp add: get f_def on_map_def)
  have stand: "standing w2 b a = (if b = unat y \<and> a = unat x then insert c (standing w b a) else standing w b a - {c})" for b a
  proof -
    have "d \<in> standing w2 b a \<longleftrightarrow> (if d = c then b = unat y \<and> a = unat x else d \<in> standing w b a)" for d
      using on oth [of d] cU unfolding standing_def map2 by (cases "d = c") (auto simp: get f_def)
    note mem = this
    show ?thesis by (rule set_eqI, subst mem) auto
  qed
  have "clients_inv w2"
    unfolding clients_inv_def
  proof (intro conjI allI impI)
    show "mp_inv (m_ClientPool w2) (ran (m_ClientMap w2))" using u(1) unfolding map2 by (simp add: w2_def)
    show "mp_bPlacementNew (m_ClientPool w2)" using u(4) clients_invD(2) [OF inv] w1(2) by (simp add: w2_def)
  next
    fix s d assume "m_ClientMap w2 s = Some d"
    then have d: "m_ClientMap w s = Some d" by (simp add: map2)
    then have "d \<in> ?U" by (rule ranI)
    then have "c_SessionID (client_of w2 d) = c_SessionID (client_of w d) \<and>
        client_ok (client_of w2 d)"
      using clients_invD(4) [OF inv d] clients_invD(4) [OF inv c] on get oth [of d] by (cases "d = c") (simp_all add: f_def client_ok_def)
    then show "c_SessionID (client_of w2 d) = s" "client_ok (client_of w2 d)"
      using clients_invD(3) [OF inv d] by simp_all
  next
    fix b a
    have eq: "m_Sector w2 b a = (if b = unat y \<and> a = unat x then m_Sector w1 b a @ [c] else m_Sector w1 b a)"
      by (simp add: w2_def)
    show "distinct (m_Sector w2 b a)" using S [of b a] unfolding eq by auto
    show "set (m_Sector w2 b a) = standing w2 b a" using S [of b a] unfolding stand eq by auto
  qed
  moreover have "\<exists>pool S. w2 = w1\<lparr>m_ClientPool := pool, m_Sector := S\<rparr>" by (auto simp: w2_def upd_client_def)
  ultimately show ?thesis using push get oth by blast
qed

section \<open>The neighbourhood of a sector\<close>

text \<open>Sectors that touch: the coordinates differ by one at most, and both lie on the map.\<close>

lemma nat_image_iff: "v \<in> nat ` {z \<in> A. 0 \<le> z \<and> z \<le> 49} \<longleftrightarrow> int v \<in> A \<and> v \<le> 49"
  by (auto intro!: image_eqI [of _ _ "int v"])

lemma set_around:
  assumes "s < 50"
  shows "set (around s) = {v. v < 50 \<and> v \<le> unat s + 1 \<and> unat s \<le> v + 1}"
proof (rule set_eqI)
  fix v
  obtain n where n: "uint s = int n" "unat s = n" by (simp add: uint_nat)
  have "set (around s) = nat ` {z \<in> {uint s - 1, uint s, uint s + 1}. 0 \<le> z \<and> z \<le> 49}"
    by (simp only: around_def set_map set_filter set_simps)
  then have "v \<in> set (around s) \<longleftrightarrow> int v \<in> {int n - 1, int n, int n + 1} \<and> v \<le> 49"
    by (simp only: nat_image_iff n(1))
  also have "\<dots> \<longleftrightarrow> v \<in> {v. v < 50 \<and> v \<le> n + 1 \<and> n \<le> v + 1}"
    by auto
  finally show "v \<in> set (around s) \<longleftrightarrow> v \<in> {v. v < 50 \<and> v \<le> unat s + 1 \<and> unat s \<le> v + 1}" unfolding n(2) .
qed

lemma distinct_around: "distinct (around s)"
proof -
  have inj: "inj_on nat {z \<in> A. 0 \<le> z \<and> z \<le> 49}" for A :: "int set" by (auto simp: inj_on_def)
  have "distinct [uint s - 1, uint s, uint s + 1]" by simp
  then show ?thesis unfolding around_def distinct_map set_filter using inj by (intro conjI distinct_filter)
qed

lemma distinct_concat_map:
  assumes "distinct xs" and "\<And>x. x \<in> set xs \<Longrightarrow> distinct (f x)"
    and "\<And>x y. x \<in> set xs \<Longrightarrow> y \<in> set xs \<Longrightarrow> x \<noteq> y \<Longrightarrow> set (f x) \<inter> set (f y) = {}"
  shows "distinct (concat (map f xs))"
  using assms
proof (induction xs)
  case Nil
  show ?case by simp
next
  case (Cons x xs)
  have "set (f x) \<inter> set (f y) = {}" if "y \<in> set xs" for y using Cons.prems(1,3) that by auto
  then show ?case using Cons by auto
qed

text \<open>The clients around a sector: those who stand at most one sector away in either direction.\<close>

definition near :: "16 word \<Rightarrow> 16 word \<Rightarrow> Client \<Rightarrow> bool" where
  "near x y c \<longleftrightarrow> on_map c \<and> unat (c_SectorX c) \<le> unat x + 1 \<and> unat x \<le> unat (c_SectorX c) + 1 \<and>
     unat (c_SectorY c) \<le> unat y + 1 \<and> unat y \<le> unat (c_SectorY c) + 1"

lemma sector_clients_near:
  assumes inv: "clients_inv w" and xy: "x < dfSECTOR_X_MAX" "y < dfSECTOR_Y_MAX"
  shows "set (sector_clients w x y) = {c \<in> ran (m_ClientMap w). near x y (client_of w c)}"
    and "distinct (sector_clients w x y)"
proof -
  have stand: "set (m_Sector w b a) = standing w b a" "distinct (m_Sector w b a)" for b a
    using clients_invD(5,6) [OF inv] by blast+
  have xy': "x < 50" "y < 50" using xy by (simp_all add: dfSECTOR_X_MAX_def dfSECTOR_Y_MAX_def)
  have on: "unat (c_SectorX k) < 50" "unat (c_SectorY k) < 50" if "on_map k" for k
    using that by (simp_all add: on_map_def dfSECTOR_X_MAX_def dfSECTOR_Y_MAX_def word_less_nat_alt)
  show "set (sector_clients w x y) = {c \<in> ran (m_ClientMap w). near x y (client_of w c)}"
  proof (intro set_eqI)
    fix c
    have "c \<in> set (sector_clients w x y) \<longleftrightarrow> (\<exists>b\<in>set (around y). \<exists>a\<in>set (around x). c \<in> standing w b a)"
      by (simp add: sector_clients_def stand)
    also have "\<dots> \<longleftrightarrow> c \<in> {c \<in> ran (m_ClientMap w). near x y (client_of w c)}"
      using on [of "client_of w c"] by (auto simp: set_around xy' standing_def near_def)
    finally show "c \<in> set (sector_clients w x y) \<longleftrightarrow> c \<in> {c \<in> ran (m_ClientMap w). near x y (client_of w c)}" .
  qed
  have row: "set (concat (map (\<lambda>a. m_Sector w b a) (around x))) \<subseteq>
      {c. unat (c_SectorY (client_of w c)) = b}" for b
    by (auto simp: stand standing_def)
  show "distinct (sector_clients w x y)"
    unfolding sector_clients_def
  proof (intro distinct_concat_map distinct_around)
    fix b a show "distinct (m_Sector w b a)" by (rule stand(2))
  next
    fix b a a' :: nat assume "a \<noteq> a'"
    then show "set (m_Sector w b a) \<inter> set (m_Sector w b a') = {}" by (auto simp: stand(1) standing_def)
  next
    fix b b' :: nat assume "b \<noteq> b'"
    then show "set (concat (map (m_Sector w b) (around x))) \<inter> set (concat (map (m_Sector w b') (around x))) = {}"
      using row [of b] row [of b'] by blast
  qed
qed

end
