(* ===== verification/Delivering.thy ===== *)
theory Delivering
  imports Building SendPosting Clients
begin

text \<open>
  From a message in the hands of the update thread to the wire: \<open>SendUnicast\<close> puts it into the
  send queue of its session, or gives it back when the session is gone; \<open>SendPost\<close> sends what is
  queued.  The theory also builds the worlds on which the properties are shown to apply.
\<close>

section \<open>Worlds with an open session\<close>

definition sid1 :: "64 word" where
  "sid1 = session_id 2 1"

text \<open>An identifier of the same slot that nobody has yet.\<close>

definition sid2 :: "64 word" where
  "sid2 = session_id 2 2"

lemma sid1_sid2: "sid1 \<noteq> sid2"
  using session_id_inject [of 1 2 2 2] by (auto simp: sid1_def sid2_def)

text \<open>The first session accepted by a started server.\<close>

lemma open_session:
  "\<exists>w. world_inv w {#} {} \<and> free_inv w \<and> live sid1 2 w \<and> new_session sid1 77 (sess w 2) \<and>
     4000 \<le> queue_cap (s_SendQ (sess w 2)) \<and> length (m_SessionArray w) = 3 \<and> FindSession sid2 w = Inr 2 \<and>
     2 ^ 31 - 1 \<le> queue_cap (m_ThreadQ w) + 1 \<and> no_clients w \<and>
     (\<exists>j. job_list w = [j] \<and> job_of w j = \<lparr>j_TYPE = ON_CLIENT_JOIN, j_SessionID = sid1, j_NetPacketPtr = None\<rparr>)"
proof -
  obtain w where w: "world_inv w {#} {}" "free_inv w" "free_slots w = [2, 1, 0]" "queue_room (m_ThreadQ w)"
      "m_SessionID w = 0" "length (m_SessionArray w) = 3" "\<forall>k<3. 4000 \<le> queue_cap (s_SendQ (sess w k))"
      "job_list w = []" "queue_cap (m_ThreadQ w) = 2 ^ 31 - 1" "no_clients w"
    using started_server by blast
  have num: "unat (m_SessionID w) + 1 < 2 ^ 48" and ip: "length ''10.0.1.2'' < 17" using w(5) by simp_all
  from AcceptUser_world [OF w(1-3) num ip w(4) quiet_env, of 77 4000] w(5,6,8-10) obtain w' j where w':
      "world_inv w' {#} {}" "new_session sid1 77 (sess w' 2)" "live sid1 2 w'" "free_slots w' = [1, 0]"
      "\<forall>k. k \<noteq> 2 \<longrightarrow> sess w' k = sess w k" "s_SendQ (sess w' 2) = s_SendQ (sess w 2)" "length (m_SessionArray w') = 3"
      "2 ^ 31 - 1 \<le> queue_cap (m_ThreadQ w') + 1" "no_clients w'" "job_list w' = [j]"
      "job_of w' j = \<lparr>j_TYPE = ON_CLIENT_JOIN, j_SessionID = sid1, j_NetPacketPtr = None\<rparr>"
    by (auto simp: sid1_def no_clients_def)
  have "free_inv w'" by (rule free_inv_pop [OF w(2,3) w'(4)]) (use w' w(6) in simp_all)
  moreover have "FindSession sid2 w' = Inr 2"
    using FindSession_id [of 2 2 w'] world_coreD(4) [OF world_invD(1) [OF w'(1)]] w'(7)
    by (simp add: slots_inv_def sid2_def)
  moreover have "4000 \<le> queue_cap (s_SendQ (sess w' 2))" using w'(6) w(7) by simp
  ultimately show ?thesis using w' by blast
qed

lemma new_session_sendable: "new_session sid socket s \<Longrightarrow> sendable s"
  by (simp add: new_session_def sendable_def)

text \<open>A login reply in the hands of the update thread.\<close>

lemma reply_in_hand:
  "\<exists>w p. world_inv w {#p#} {} \<and> live sid1 2 w \<and> sendable (sess w 2) \<and> send_list (sess w 2) = [] \<and>
     4000 \<le> queue_cap (s_SendQ (sess w 2)) \<and> p \<notin># refs w \<and> ready (mp_get (w_NetPacketPool w) p) \<and>
     length (m_SessionArray w) = 3 \<and> s_Socket (sess w 2) = 77 \<and> dead sid2 w"
proof -
  obtain w where w: "world_inv w {#} {}" "free_inv w" "live sid1 2 w" "new_session sid1 77 (sess w 2)"
      "4000 \<le> queue_cap (s_SendQ (sess w 2))" "length (m_SessionArray w) = 3" "FindSession sid2 w = Inr 2"
    using open_session by blast
  from packet_Alloc_world [OF world_invD(1) [OF w(1)], of quiet] obtain p pool1 where a:
      "world_core (w\<lparr>w_NetPacketPool := pool1\<rparr>) {#p#} {}" "p \<notin># refs w" "fresh_packet (mp_get pool1 p)"
    unfolding Let_def by auto
  let ?w1 = "w\<lparr>w_NetPacketPool := pool1\<rparr>"
  note u = fresh_unread [OF a(3)]
  from RES_LOGIN_wrote [OF u [THEN conjunct1] u [THEN conjunct2], of en_PACKET_CS_CHAT_RES_LOGIN 1 7]
  obtain d where d: "MakePacket_RES_LOGIN en_PACKET_CS_CHAT_RES_LOGIN 1 7 (mp_get pool1 p) = Inr d"
      "wrote (mp_get pool1 p) (le_bytes 2 en_PACKET_CS_CHAT_RES_LOGIN @ le_bytes 1 (1 :: 8 word) @ le_bytes 8 (7 :: 64 word)) d"
    by blast
  have refs1: "refs ?w1 = refs w" by (rule refs_cong) simp_all
  then have p: "p \<in># {#p#}" "p \<notin># refs ?w1" using a(2) by simp_all
  from build_packet_held [OF a(1) p, where f = "MakePacket_RES_LOGIN en_PACKET_CS_CHAT_RES_LOGIN 1 7"] d obtain pool2 where b:
      "world_core (w\<lparr>w_NetPacketPool := pool2\<rparr>) {#p#} {}" "mp_get pool2 p = d"
    unfolding Let_def by auto
  let ?w2 = "w\<lparr>w_NetPacketPool := pool2\<rparr>"
  have "ready d" by (rule wrote_ready [OF d(2)]) (use u in \<open>simp_all flip: length_greater_0_conv\<close>)
  moreover have "world_inv ?w2 {#p#} {}" by (rule world_invI [OF b(1) w(1)]) simp_all
  moreover have "refs ?w2 = refs w" by (rule refs_cong) simp_all
  moreover have "dead sid2 w" using w(3,7) sid1_sid2 by (auto simp: dead_def live_def)
  ultimately show ?thesis using w a(2) b(2) new_session_sendable [OF w(4)]
    by (intro exI [of _ ?w2] exI [of _ p]) (auto simp: live_pool dead_pool new_session_def)
qed

section \<open>Sending one message\<close>

lemma SendUnicast_world:
  assumes inv: "world_inv w (add_mset p H) J" and lv: "live sid i w"
    and p: "ready (mp_get (w_NetPacketPool w) p)" and room: "queue_room (s_SendQ (sess w i))"
    and few: "count (refs w + H) p + 2 < 2 ^ 32"
  shows "\<exists>w'. SendUnicast e sid p w = Inr w' \<and> world_inv w' H J \<and> live sid i w' \<and>
    send_list (sess w' i) = send_list (sess w i) @ [p] \<and> sess w' i = (sess w i)\<lparr>s_SendQ := s_SendQ (sess w' i)\<rparr> \<and>
    queue_cap (s_SendQ (sess w i)) \<le> queue_cap (s_SendQ (sess w' i)) + 1 \<and>
    refs w' = add_mset p (refs w) \<and> (\<forall>k. k \<noteq> i \<longrightarrow> sess w' k = sess w k) \<and>
    length (m_SessionArray w') = length (m_SessionArray w) \<and> w_io w' = w_io w @ [PostQueued sid] \<and>
    registry w' = registry w"
proof -
  note core = world_invD(1) [OF inv]
  have i: "i < length (m_SessionArray w)" using lv by (rule live_less)
  have "count (refs w + add_mset p H) p + 1 < 2 ^ 32" using few by simp
  from SendUnicast_live [OF core lv p room this, of e] obtain pool q n where u:
      "SendUnicast e sid p w = Inr (upd_sess i (\<lambda>s. s\<lparr>s_SendQ := q\<rparr>)
         (emit (PostQueued sid) (w\<lparr>w_NetPacketPool := pool, g_FreeMemoryCount := n\<rparr>)))"
      "world_core (upd_sess i (\<lambda>s. s\<lparr>s_SendQ := q\<rparr>)
         (emit (PostQueued sid) (w\<lparr>w_NetPacketPool := pool, g_FreeMemoryCount := n\<rparr>))) H J"
      "queue_list q = queue_list (s_SendQ (sess w i)) @ [Some p]" "queue_cap (s_SendQ (sess w i)) \<le> queue_cap q + 1"
    unfolding Let_def by blast
  define w1 where "w1 = emit (PostQueued sid) (w\<lparr>w_NetPacketPool := pool, g_FreeMemoryCount := n\<rparr>)"
  let ?w' = "upd_sess i (\<lambda>s. s\<lparr>s_SendQ := q\<rparr>) w1"
  have w1: "sess w1 k = sess w k" "m_SessionArray w1 = m_SessionArray w" "job_packets w1 = job_packets w"
      "w_io w1 = w_io w @ [PostQueued sid]" "registry (upd_sess i g w1) = registry w" for k g
    by (simp_all add: w1_def job_packets_def job_list_def job_of_def registry_def)
  have s: "sess ?w' k = (if k = i then (sess w i)\<lparr>s_SendQ := q\<rparr> else sess w k)" for k
    using i w1(1,2) by (simp add: sess_upd)
  have core': "world_core ?w' H J" using u(2) by (simp add: w1_def)
  have "world_inv ?w' H J"
    by (rule world_invI [OF core' inv]) (use s w1(2) in \<open>auto simp: array_full_def\<close>)
  moreover have "live sid i ?w'"
    using lv s FindSession_cong [of ?w' w] by (auto simp: live_def count_ok_def released_def w1_def FindSession_def GetSessionIndex_def)
  moreover have "refs ?w' = add_mset p (refs w)"
  proof -
    have "refs ?w' + session_refs (sess w1 i) = refs w1 + session_refs ((sess w1 i)\<lparr>s_SendQ := q\<rparr>)"
      using refs_upd_sess [of i w1] i w1(2) by simp
    moreover have "session_refs ((sess w i)\<lparr>s_SendQ := q\<rparr>) = add_mset p (session_refs (sess w i))"
      by (simp add: session_refs_def u(3))
    moreover have "refs w1 = refs w" using w1(2,3) by (simp add: refs_def)
    ultimately show ?thesis by (simp add: w1(1))
  qed
  moreover have "send_list (sess ?w' i) = send_list (sess w i) @ [p]" by (simp add: s u(3)) (simp add: send_list_def)
  ultimately show ?thesis
    using u(1,4) s w1(2,4,5) by (intro exI [of _ ?w']) (simp add: w1_def)
qed

text \<open>A session with many messages queued, for examples: the same packet queued again and again.\<close>

lemma queued_messages:
  assumes "n \<le> 1000"
  shows "\<exists>w p. world_inv w {#p#} {} \<and> live sid1 2 w \<and> sendable (sess w 2) \<and> send_list (sess w 2) = replicate n p \<and>
    4000 \<le> queue_cap (s_SendQ (sess w 2)) + n \<and> count (refs w) p = n \<and> ready (mp_get (w_NetPacketPool w) p) \<and>
    length (m_SessionArray w) = 3 \<and> s_Socket (sess w 2) = 77"
  using assms
proof (induction n)
  case 0
  then show ?case using reply_in_hand by (auto simp: not_in_iff)
next
  case (Suc n)
  then obtain w p where w: "world_inv w {#p#} {}" "live sid1 2 w" "sendable (sess w 2)" "send_list (sess w 2) = replicate n p"
      "4000 \<le> queue_cap (s_SendQ (sess w 2)) + n" "count (refs w) p = n" "ready (mp_get (w_NetPacketPool w) p)"
      "length (m_SessionArray w) = 3" "s_Socket (sess w 2) = 77" by auto
  note core = world_invD(1) [OF w(1)]
  have "p \<in># refs w + {#p#}" "count (refs w + {#p#}) p + 1 < 2 ^ 32" using w(6) Suc.prems by simp_all
  from packet_IncRef_world [OF core this] obtain pool where a:
      "world_core (w\<lparr>w_NetPacketPool := pool\<rparr>) {#p, p#} {}"
      "pool_keeps (set_mset (refs w + {#p#})) (w_NetPacketPool w) pool" by auto
  let ?w1 = "w\<lparr>w_NetPacketPool := pool\<rparr>"
  have inv1: "world_inv ?w1 {#p, p#} {}" by (rule world_invI [OF a(1) w(1)]) simp_all
  have "same_packet (mp_get (w_NetPacketPool w) p) (mp_get pool p)" using a(2) by (simp add: pool_keeps_def)
  then have r1: "ready (mp_get (w_NetPacketPool ?w1) p)" using w(7) by (simp add: ready_same)
  have lv1: "live sid1 2 ?w1" using w(2) by (simp add: live_pool)
  have len: "length (queue_list (s_SendQ (sess w 2))) = n"
    using session_queue(2) [of "sess w 2"] sessions_invD(1) [OF world_coreD(2) [OF core], of 2] w(4,8) by simp
  then have room: "queue_room (s_SendQ (sess ?w1 2))" using w(5) Suc.prems by (simp add: queue_room_def)
  have refs1: "refs ?w1 = refs w" by (rule refs_cong) simp_all
  then have few: "count (refs ?w1 + {#p#}) p + 2 < 2 ^ 32" using w(6) Suc.prems by simp
  have inv1': "world_inv ?w1 (add_mset p {#p#}) {}" using inv1 by simp
  from SendUnicast_world [OF inv1' lv1 r1 room few, of quiet] obtain w' where w':
      "world_inv w' {#p#} {}" "live sid1 2 w'" "send_list (sess w' 2) = send_list (sess w 2) @ [p]"
      "sess w' 2 = (sess w 2)\<lparr>s_SendQ := s_SendQ (sess w' 2)\<rparr>" "queue_cap (s_SendQ (sess w 2)) \<le> queue_cap (s_SendQ (sess w' 2)) + 1"
      "refs w' = add_mset p (refs w)" "length (m_SessionArray w') = 3" unfolding refs1 using w(8) by auto
  have "ready (mp_get (w_NetPacketPool w') p)"
  proof -
    have "p \<in> set (send_list (sess w' 2))" using w'(3) by simp
    then show ?thesis
      using sessions_invD(2) [OF world_coreD(2) [OF world_invD(1) [OF w'(1)]], of 2 p] w'(7)
      by (simp add: send_list_def queued_ready)
  qed
  moreover have "sendable (sess w' 2)" "s_Socket (sess w' 2) = 77"
    using w(3,9) by (subst w'(4), simp add: sendable_def)+
  moreover have "send_list (sess w' 2) = replicate (Suc n) p" using w'(3) w(4) by (simp add: replicate_append_same)
  ultimately show ?case
    using w'(1,2,5-7) w(5,6) by (intro exI [of _ w'] exI [of _ p]) simp
qed

section \<open>Properties\<close>

text \<open>
  C11. \<open>SendUnicast\<close> uses up the caller's reference to the packet.  On a live session the packet
  goes to the end of the send queue, which now owns the reference, and a send is requested; where
  the identifier names no live session nothing is sent and the reference is given back.  No other
  slot changes and the invariant of the server is kept.
\<close>

theorem SendUnicast_outcomes:
  assumes "world_inv w (add_mset p H) J" and "count (refs w + H) p + 2 < 2 ^ 32"
  shows "(live sid i w \<longrightarrow> ready (mp_get (w_NetPacketPool w) p) \<longrightarrow> queue_room (s_SendQ (sess w i)) \<longrightarrow>
      (\<exists>w'. SendUnicast e sid p w = Inr w' \<and> world_inv w' H J \<and> send_list (sess w' i) = send_list (sess w i) @ [p] \<and>
        refs w' = add_mset p (refs w) \<and> (\<forall>k. k \<noteq> i \<longrightarrow> sess w' k = sess w k) \<and> w_io w' = w_io w @ [PostQueued sid])) \<and>
    (dead sid w \<longrightarrow>
      (\<exists>w'. SendUnicast e sid p w = Inr w' \<and> world_inv w' H J \<and> m_SessionArray w' = m_SessionArray w \<and> w_io w' = w_io w))"
proof
  show "live sid i w \<longrightarrow> ready (mp_get (w_NetPacketPool w) p) \<longrightarrow> queue_room (s_SendQ (sess w i)) \<longrightarrow>
      (\<exists>w'. SendUnicast e sid p w = Inr w' \<and> world_inv w' H J \<and> send_list (sess w' i) = send_list (sess w i) @ [p] \<and>
        refs w' = add_mset p (refs w) \<and> (\<forall>k. k \<noteq> i \<longrightarrow> sess w' k = sess w k) \<and> w_io w' = w_io w @ [PostQueued sid])"
    using SendUnicast_world [OF assms(1) _ _ _ assms(2), of sid i e] by blast
  show "dead sid w \<longrightarrow>
      (\<exists>w'. SendUnicast e sid p w = Inr w' \<and> world_inv w' H J \<and> m_SessionArray w' = m_SessionArray w \<and> w_io w' = w_io w)"
  proof
    assume d: "dead sid w"
    have "count (refs w + add_mset p H) p + 1 < 2 ^ 32" using assms(2) by simp
    from SendUnicast_dead [OF world_invD(1) [OF assms(1)] d this, of e] obtain pool n where u:
        "SendUnicast e sid p w = Inr (w\<lparr>w_NetPacketPool := pool, g_FreeMemoryCount := n\<rparr>)"
        "world_core (w\<lparr>w_NetPacketPool := pool, g_FreeMemoryCount := n\<rparr>) H J" unfolding Let_def by blast
    have "world_inv (w\<lparr>w_NetPacketPool := pool, g_FreeMemoryCount := n\<rparr>) H J"
      by (rule world_invI [OF u(2) assms(1)]) simp_all
    with u(1) show "\<exists>w'. SendUnicast e sid p w = Inr w' \<and> world_inv w' H J \<and> m_SessionArray w' = m_SessionArray w \<and> w_io w' = w_io w"
      by (intro exI [of _ "w\<lparr>w_NetPacketPool := pool, g_FreeMemoryCount := n\<rparr>"]) simp
  qed
qed

theorem SendUnicast_outcomes_witness:
  "\<exists>w p. live sid1 2 w \<and> (\<exists>w'. SendUnicast quiet sid1 p w = Inr w' \<and> world_inv w' {#} {} \<and>
     send_list (sess w' 2) = [p] \<and> w_io w' = w_io w @ [PostQueued sid1]) \<and>
     (\<exists>w'. SendUnicast quiet sid2 p w = Inr w' \<and> world_inv w' {#} {} \<and> w_io w' = w_io w)"
proof -
  obtain w p where w: "world_inv w {#p#} {}" "live sid1 2 w" "send_list (sess w 2) = []"
      "4000 \<le> queue_cap (s_SendQ (sess w 2))" "p \<notin># refs w" "ready (mp_get (w_NetPacketPool w) p)" "dead sid2 w"
      "length (m_SessionArray w) = 3"
    using reply_in_hand by auto
  have few: "count (refs w + {#}) p + 2 < 2 ^ 32" using w(5) by (simp add: not_in_iff)
  have "length (queue_list (s_SendQ (sess w 2))) = 0"
    using session_queue(2) [of "sess w 2"] sessions_invD(1) [OF world_coreD(2) [OF world_invD(1) [OF w(1)]], of 2] w(3,8) by simp
  then have "queue_room (s_SendQ (sess w 2))" using w(4) by (simp add: queue_room_def)
  then show ?thesis
    using SendUnicast_outcomes [OF w(1) few, of sid1 2 quiet] SendUnicast_outcomes [OF w(1) few, of sid2 2 quiet] w
    by (intro exI [of _ w] exI [of _ p]) auto
qed

text \<open>
  C8. A requested send empties the queue: \<open>SendPost\<close> on a session with no send in flight hands all
  queued packets, at most a hundred, to one send, header and encoded payload of each in queue
  order; it keeps them in the packet array until the completion, takes one more reference to the
  session, sets the send flag and the number of bytes to expect, and keeps the invariant.
\<close>

theorem SendPost_sends_queue:
  assumes "world_inv w H J" and "live sid i w" and "sendable (sess w i)" and "send_ok e"
    and "send_list (sess w i) \<noteq> []" and "length (send_list (sess w i)) \<le> DEQ_PACKET_ARRAY_SIZE"
  shows "\<exists>w'. SendPost e sid w = Inr (True, w') \<and> world_inv w' H J \<and>
    send_list (sess w' i) = [] \<and> s_DeQArraySize (sess w' i) = length (send_list (sess w i)) \<and>
    (\<forall>k<length (send_list (sess w i)). s_DeQPacketArray (sess w' i) ! k = Some (send_list (sess w i) ! k)) \<and>
    s_IOCount (sess w' i) = s_IOCount (sess w i) + 1 \<and> s_SendFlag (sess w' i) = 1 \<and>
    s_SendByte (sess w' i) = word_of_int (sum_list (map (wire_size (w_NetPacketPool w)) (send_list (sess w i)))) \<and>
    (\<forall>k. k \<noteq> i \<longrightarrow> sess w' k = sess w k) \<and>
    w_io w' = w_io w @ [WSASend (s_Socket (sess w i)) (map (wire_image (w_NetPacketPool w)) (send_list (sess w i)))]"
  using SendPost_world [OF assms] by (auto simp: sending_def)

theorem SendPost_sends_queue_witness:
  "\<exists>w w' p. SendPost quiet sid1 w = Inr (True, w') \<and> world_inv w' {#p#} {} \<and> s_DeQArraySize (sess w' 2) = 3 \<and>
     w_io w' = w_io w @ [WSASend 77 (replicate 3 (wire_image (w_NetPacketPool w) p))]"
proof -
  have le: "3 \<le> (1000 :: nat)" by simp
  obtain w p where w: "world_inv w {#p#} {}" "live sid1 2 w" "sendable (sess w 2)" "send_list (sess w 2) = replicate 3 p"
      "s_Socket (sess w 2) = 77" using queued_messages [OF le] by blast
  have q: "send_list (sess w 2) \<noteq> []" "length (send_list (sess w 2)) \<le> DEQ_PACKET_ARRAY_SIZE" "send_ok quiet"
    using w(4) by (simp_all add: DEQ_PACKET_ARRAY_SIZE_def send_ok_def quiet_def)
  from SendPost_sends_queue [OF w(1-3) q(3,1,2)] obtain w' where "SendPost quiet sid1 w = Inr (True, w')"
      "world_inv w' {#p#} {}" "s_DeQArraySize (sess w' 2) = length (send_list (sess w 2))"
      "w_io w' = w_io w @ [WSASend (s_Socket (sess w 2)) (map (wire_image (w_NetPacketPool w)) (send_list (sess w 2)))]"
    by blast
  then show ?thesis using w(4,5) by (intro exI [of _ w] exI [of _ w'] exI [of _ p]) (simp add: map_replicate)
qed

text \<open>
  A backlog of more than a hundred messages for one session ends the server: with that many
  packets in the queue the next \<open>SendPost\<close> calls \<open>Crash()\<close>, although the queue takes five thousand.
\<close>

theorem SendPost_backlog_crashes:
  assumes "world_inv w H J" and "live sid i w" and "sendable (sess w i)"
    and "DEQ_PACKET_ARRAY_SIZE < length (send_list (sess w i))"
  shows "SendPost e sid w = Inl Crash"
  by (rule SendPost_overflow [OF assms])

theorem SendPost_backlog_crashes_witness:
  "\<exists>w p. world_inv w {#p#} {} \<and> live sid1 2 w \<and> send_list (sess w 2) = replicate 101 p \<and>
     queue_room (s_SendQ (sess w 2)) \<and> SendPost quiet sid1 w = Inl Crash"
proof -
  have le: "101 \<le> (1000 :: nat)" by simp
  obtain w p where w: "world_inv w {#p#} {}" "live sid1 2 w" "sendable (sess w 2)" "send_list (sess w 2) = replicate 101 p"
      "4000 \<le> queue_cap (s_SendQ (sess w 2)) + 101" "length (m_SessionArray w) = 3"
    using queued_messages [OF le] by blast
  have "DEQ_PACKET_ARRAY_SIZE < length (send_list (sess w 2))" using w(4) by (simp add: DEQ_PACKET_ARRAY_SIZE_def)
  from SendPost_backlog_crashes [OF w(1-3) this, of quiet] have "SendPost quiet sid1 w = Inl Crash" .
  moreover have "length (queue_list (s_SendQ (sess w 2))) = 101"
    using session_queue(2) [of "sess w 2"] sessions_invD(1) [OF world_coreD(2) [OF world_invD(1) [OF w(1)]], of 2] w(4,6) by simp
  ultimately show ?thesis using w(1,2,4,5) by (intro exI [of _ w] exI [of _ p]) (simp add: queue_room_def)
qed

end
