(* ===== verification/StreamReceive.thy ===== *)
theory StreamReceive
  imports Receiving Delivering
begin

text \<open>
  What \<open>RecvPacket\<close> promises on a completed receive: the messages it delivers, that it returns, and
  the frame lengths on which it writes outside a packet.
\<close>

section \<open>The handler\<close>

lemma recv_count:
  assumes "ring_inv q" and "bs \<noteq> []" "int (length bs) \<le> GetFreeSize q"
  shows "sint (of_nat (length bs) :: 32 word) = int (length bs)"
proof -
  have "int (length bs) < 10000"
    using assms(3) used_bounds(1) [OF assms(1)] by (simp add: free_eq [OF assms(1)] RING_BUFFER_SIZE_def)
  then show ?thesis by (simp add: signed_of_nat signed_take_bit_int_eq_self)
qed

lemma RecvPacket_unfold:
  fixes e :: env
  assumes inv: "world_inv w H J" and lv: "live sid i w"
    and q: "ring_inv q" "bs \<noteq> []" "int (length bs) \<le> GetFreeSize q"
    and r: "s_RecvRingQ (sess w i) = q\<lparr>ring_Buffer := wsabuf_fill (GetDirectEnQData q) bs (ring_Buffer q)\<rparr>"
  defines "w1 \<equiv> received_at e (int (length bs)) i w"
  shows "RecvPacket e i (of_nat (length bs)) w =
    bnd (RecvPacket_loop (Suc (length (contents q @ bs))) e i w1) (\<lambda>(go, w).
      if go then bnd (RecvPost e i w) (\<lambda>(_, w). Inr (True, w)) else Inr (False, w))"
proof -
  note at = received_at_world [OF assms(1-6), of e, folded w1_def]
  have i: "i < length (m_SessionArray w1)" by (rule live_less [OF at(2)])
  have ring: "ring_inv (s_RecvRingQ (sess w1 i))"
    using sessions_invD(1) [OF world_coreD(2) [OF world_invD(1) [OF at(1)]] i] by (simp add: session_ok_def)
  have used: "nat (GetUsedSize (s_RecvRingQ (sess w1 i))) = length (contents q @ bs)"
    unfolding length_contents [OF ring, symmetric] using at(3) by (simp add: ring_bytes_def)
  have "GetFreeSize (s_RecvRingQ (sess w i)) = GetFreeSize q" by (simp add: r size_members)
  then have small: "\<not> int (length bs) > GetFreeSize (s_RecvRingQ (sess w i))" using q(3) by simp
  show ?thesis
    unfolding RecvPacket_def Let_def recv_count [OF q] received_at_def [symmetric] w1_def [symmetric] used if_not_P [OF small] ..
qed

lemma RecvPacket_world:
  assumes inv: "world_inv w H J" and lv: "live sid i w" and nc: "\<not> s_bIOCancel (sess w i)" and env: "recv_ok e"
    and q: "ring_inv q" "bs \<noteq> []" "int (length bs) \<le> GetFreeSize q"
    and r: "s_RecvRingQ (sess w i) = q\<lparr>ring_Buffer := wsabuf_fill (GetDirectEnQData q) bs (ring_Buffer q)\<rparr>"
    and cut: "cut_frames (contents q @ bs) = (pls, c, rest)"
    and room: "length (job_list w) + 2 * length pls \<le> queue_cap (m_ThreadQ w)"
  shows "case c of
      NeedMore \<Rightarrow> \<exists>w' bufs. RecvPacket e i (of_nat (length bs)) w = Inr (True, w') \<and> world_inv w' H J \<and>
        inbox w' = inbox w @ map (Pair sid) pls \<and> ring_bytes i w' = rest \<and> s_ID (sess w' i) = sid \<and>
        s_IOCount (sess w' i) = s_IOCount (sess w i) + 1 \<and> (\<forall>k. k \<noteq> i \<longrightarrow> sess w' k = sess w k) \<and>
        w_io w' = w_io w @ replicate (length pls) SetUpdateEvent @ [WSARecv (s_Socket (sess w i)) bufs]
    | BadFrame \<Rightarrow> \<exists>w'. RecvPacket e i (of_nat (length bs)) w = Inr (False, w') \<and> world_inv w' H J \<and>
        inbox w' = inbox w @ map (Pair sid) pls \<and> s_bIOCancel (sess w' i) \<and> s_ID (sess w' i) = sid \<and>
        s_IOCount (sess w' i) = s_IOCount (sess w i) \<and> (\<forall>k. k \<noteq> i \<longrightarrow> sess w' k = sess w k) \<and>
        w_io w' = w_io w @ replicate (length pls) SetUpdateEvent @ [CancelIoEx (s_Socket (sess w i))]
    | Overrun \<Rightarrow> RecvPacket e i (of_nat (length bs)) w = Inl OutOfBounds
    | Message pl r \<Rightarrow> False"
proof -
  let ?n = "Suc (length (contents q @ bs))"
  define w1 where "w1 = received_at e (int (length bs)) i w"
  note run = RecvPacket_unfold [OF inv lv q r, of e, folded w1_def]
  note at = received_at_world [OF inv lv q r, of e, folded w1_def]
  have s1: "s_IOCount (sess w1 i) = s_IOCount (sess w i)" "s_ID (sess w1 i) = sid" "s_Socket (sess w1 i) = s_Socket (sess w i)"
      "s_bIOCancel (sess w1 i) = s_bIOCancel (sess w i)" "k \<noteq> i \<Longrightarrow> sess w1 k = sess w k" for k
    using lv by (simp_all add: at(6) live_def)
  have io1: "w_io w1 = w_io w" and jobs1: "queue_cap (m_ThreadQ w1) = queue_cap (m_ThreadQ w)"
    by (simp_all add: w1_def received_at_def)
  have loop: "case c of
      NeedMore \<Rightarrow> \<exists>w'. RecvPacket_loop ?n e i w1 = Inr (True, w') \<and> world_inv w' H J \<and> delivered sid i pls w1 w' \<and>
        ring_bytes i w' = rest
    | BadFrame \<Rightarrow> \<exists>w'. RecvPacket_loop ?n e i w1 = Inr (False, cancelled i w') \<and> world_inv w' H J \<and> delivered sid i pls w1 w'
    | Overrun \<Rightarrow> RecvPacket_loop ?n e i w1 = Inl OutOfBounds
    | Message pl r \<Rightarrow> False"
    by (rule RecvPacket_loop_ok [OF at(1,2)]) (use at(3,5) cut room jobs1 in simp_all)
  show ?thesis
  proof (cases c)
    case NeedMore
    with loop obtain w2 where w2: "RecvPacket_loop ?n e i w1 = Inr (True, w2)" "world_inv w2 H J"
        "same_but_ring i w1 w2" "inbox w2 = inbox w @ map (Pair sid) pls" "w_io w2 = w_io w @ replicate (length pls) SetUpdateEvent"
        "ring_bytes i w2 = rest" by (auto simp: delivered_def at(4) io1)
    have lv2: "live sid i w2" by (rule same_but_ring_live [OF w2(3) at(2)])
    have i2: "i < length (m_SessionArray w2)" by (rule live_less [OF lv2])
    note f2 = same_but_ring_fields [OF w2(3)]
    have ring2: "ring_inv (s_RecvRingQ (sess w2 i))"
      using sessions_invD(1) [OF world_coreD(2) [OF world_invD(1) [OF w2(2)]] i2] by (simp add: session_ok_def)
    have "cut_frame rest = NeedMore" using cut_frames_rest [of "contents q @ bs"] cut NeedMore by simp
    moreover have "length rest \<le> ring_capacity"
      using length_contents [OF ring2] used_bounds(2) [OF ring2] w2(6) by (simp add: ring_capacity_def ring_bytes_def)
    ultimately have "length rest < ring_capacity" by (rule cut_frame_room)
    then have "0 < GetFreeSize (s_RecvRingQ (sess w2 i))"
      unfolding free_eq [OF ring2] length_contents [OF ring2, symmetric] using w2(6) by (simp add: ring_capacity_def ring_bytes_def)
    from RecvPost_ok [OF w2(2) lv2 _ env this] nc f2(3,4) s1 obtain bufs where post:
        "RecvPost e i w2 = Inr (True, emit (WSARecv (s_Socket (sess w i)) bufs) (IO_Increment i w2))" by auto
    let ?w' = "emit (WSARecv (s_Socket (sess w i)) bufs) (IO_Increment i w2)"
    have s: "sess ?w' k = (if k = i then (sess w2 i)\<lparr>s_IOCount := s_IOCount (sess w2 i) + 1\<rparr> else sess w2 k)" for k
      using i2 by (simp add: IO_Increment_def sess_upd)
    have "world_core (IO_Increment i w2) H J"
      unfolding IO_Increment_def by (rule world_core_session_field [OF world_invD(1) [OF w2(2)] i2]) (simp_all add: ring2)
    then have "world_core ?w' H J" by simp
    then have "world_inv ?w' H J"
      by (rule world_invI [OF _ w2(2)]) (use s in \<open>auto simp: IO_Increment_def array_full_def\<close>)
    moreover have "inbox ?w' = inbox w @ map (Pair sid) pls"
      unfolding w2(4) [symmetric] by (rule inbox_keeps) (simp_all add: IO_Increment_def job_list_def job_of_def)
    moreover have "ring_bytes i ?w' = rest" using w2(6) by (simp only: ring_bytes_def s if_True simp_thms) simp
    moreover have "sess ?w' k = sess w k" if "k \<noteq> i" for k
      using s [of k] that w2(3) s1(5) by (simp add: same_but_ring_def)
    moreover have "s_ID (sess ?w' i) = sid" "s_IOCount (sess ?w' i) = s_IOCount (sess w i) + 1"
      unfolding s using f2(1,2) s1 by simp_all
    moreover have "w_io ?w' = w_io w @ replicate (length pls) SetUpdateEvent @ [WSARecv (s_Socket (sess w i)) bufs]"
      using w2(5) by (simp add: IO_Increment_def)
    moreover have "RecvPacket e i (of_nat (length bs)) w = Inr (True, ?w')"
      using w2(1) post by (simp add: run del: RecvPacket_loop.simps)
    ultimately show ?thesis unfolding NeedMore cut.case by blast
  next
    case BadFrame
    with loop obtain w2 where w2: "RecvPacket_loop ?n e i w1 = Inr (False, cancelled i w2)" "world_inv w2 H J"
        "same_but_ring i w1 w2" "inbox w2 = inbox w @ map (Pair sid) pls" "w_io w2 = w_io w @ replicate (length pls) SetUpdateEvent"
      by (auto simp: delivered_def at(4) io1)
    have i2: "i < length (m_SessionArray w2)" by (rule live_less [OF same_but_ring_live [OF w2(3) at(2)]])
    note f2 = same_but_ring_fields [OF w2(3)] and cw = cancelled_world [OF w2(2) i2]
    have "RecvPacket e i (of_nat (length bs)) w = Inr (False, cancelled i w2)"
      using w2(1) by (simp add: run del: RecvPacket_loop.simps)
    moreover have "sess (cancelled i w2) k = sess w k" if "k \<noteq> i" for k
      using cw(3) [of k] that w2(3) s1(5) by (simp add: same_but_ring_def)
    moreover have "w_io (cancelled i w2) = w_io w @ replicate (length pls) SetUpdateEvent @ [CancelIoEx (s_Socket (sess w i))]"
      using w2(5) f2(4) s1(3) by (simp add: cancelled_def)
    ultimately show ?thesis
      unfolding BadFrame cut.case using cw w2(4) f2(1,2) s1 by (intro exI [of _ "cancelled i w2"]) simp
  qed (use loop in \<open>simp_all add: run del: RecvPacket_loop.simps\<close>)
qed

section \<open>Fuel\<close>

lemma RecvPacket_loop_more:
  "RecvPacket_loop fuel e i w \<noteq> Inl Blocked \<Longrightarrow> RecvPacket_loop (fuel + k) e i w = RecvPacket_loop fuel e i w"
proof (induction fuel arbitrary: w)
  case (Suc fuel)
  show ?case
  proof (cases "RecvPacket_turn e i w")
    case (Inr r)
    then show ?thesis using Suc by (cases r; cases "fst r") auto
  qed simp
qed simp

section \<open>Worlds with bytes received\<close>

lemma bytes_received:
  assumes "bs \<noteq> []" and "length bs \<le> 9000"
  shows "\<exists>w q. world_inv w {#} {} \<and> live sid1 2 w \<and> \<not> s_bIOCancel (sess w 2) \<and> ring_inv q \<and> contents q = [] \<and>
    int (length bs) \<le> GetFreeSize q \<and> s_Socket (sess w 2) = 77 \<and> s_IOCount (sess w 2) = 1 \<and>
    s_RecvRingQ (sess w 2) = q\<lparr>ring_Buffer := wsabuf_fill (GetDirectEnQData q) bs (ring_Buffer q)\<rparr> \<and>
    inbox w = [] \<and> length (job_list w) \<le> 1 \<and> 20000 \<le> queue_cap (m_ThreadQ w)"
proof -
  obtain w j where w: "world_inv w {#} {}" "live sid1 2 w" "new_session sid1 77 (sess w 2)" "length (m_SessionArray w) = 3"
      "2 ^ 31 - 1 \<le> queue_cap (m_ThreadQ w) + 1" "job_list w = [j]"
      "job_of w j = \<lparr>j_TYPE = ON_CLIENT_JOIN, j_SessionID = sid1, j_NetPacketPtr = None\<rparr>"
    using open_session by blast
  note core = world_invD(1) [OF w(1)]
  let ?q = "s_RecvRingQ (sess w 2)"
  have i: "2 < length (m_SessionArray w)" using w(4) by simp
  have ring: "ring_inv ?q" and empty: "contents ?q = []"
    using sessions_invD(1) [OF world_coreD(2) [OF core] i] w(3) by (simp_all add: session_ok_def new_session_def)
  have used: "GetUsedSize ?q = 0" using length_contents [OF ring] empty by simp
  have "int (length bs) \<le> 9000" using assms(2) by simp
  then have room: "int (length bs) \<le> GetFreeSize ?q" by (simp add: free_eq [OF ring] used RING_BUFFER_SIZE_def)
  let ?r = "?q\<lparr>ring_Buffer := wsabuf_fill (GetDirectEnQData ?q) bs (ring_Buffer ?q)\<rparr>"
  have ring': "ring_inv ?r"
    using ring fill_is_ring_write [OF ring _ room] assms(1) by (simp add: ring_inv_def)
  let ?w' = "upd_sess 2 (\<lambda>s. s\<lparr>s_RecvRingQ := ?r\<rparr>) w"
  have s: "sess ?w' k = (if k = 2 then (sess w 2)\<lparr>s_RecvRingQ := ?r\<rparr> else sess w k)" for k using i by (simp add: sess_upd)
  have "world_core ?w' {#} {}" by (rule world_core_session_field [OF core i]) (simp_all add: ring')
  then have "world_inv ?w' {#} {}" by (rule world_invI [OF _ w(1)]) (use s in \<open>auto simp: array_full_def\<close>)
  moreover have "same_but_ring 2 w ?w'" using s by (auto simp: same_but_ring_def)
  then have "live sid1 2 ?w'" using w(2) by (rule same_but_ring_live)
  moreover have "job_list ?w' = [j]" "job_of ?w' j = job_of w j" using w(6) by (simp_all add: job_list_def job_of_def)
  then have "inbox ?w' = []" using w(7) by (simp add: inbox_def message_of_def)
  ultimately show ?thesis
    using w(3,5) ring empty room \<open>job_list ?w' = [j]\<close> by (intro exI [of _ ?w'] exI [of _ ?q]) (simp add: s new_session_def)
qed

section \<open>Properties\<close>

text \<open>
  C6. Receiving refines the stream format.  When a receive into the free part of a session's ring
  completes, the bytes in the ring are cut into messages as the format says, and exactly these,
  decoded and in order, are queued for the update thread under the identifier of the session.  If
  the cutting ends for want of bytes, they stay in the ring and the next receive is posted; if it
  ends at a bad frame, the session's transfers are cancelled; if it ends at a frame longer than a
  packet's buffer, the handler writes behind the buffer.
\<close>

theorem RecvPacket_delivers:
  assumes "world_inv w H J" and "live sid i w" and "\<not> s_bIOCancel (sess w i)" and "recv_ok e"
    and "ring_inv q" and "bs \<noteq> []" and "int (length bs) \<le> GetFreeSize q"
    and "s_RecvRingQ (sess w i) = q\<lparr>ring_Buffer := wsabuf_fill (GetDirectEnQData q) bs (ring_Buffer q)\<rparr>"
    and "cut_frames (contents q @ bs) = (pls, c, rest)"
    and "length (job_list w) + 2 * length pls \<le> queue_cap (m_ThreadQ w)"
  shows "case c of
      NeedMore \<Rightarrow> \<exists>w' bufs. RecvPacket e i (of_nat (length bs)) w = Inr (True, w') \<and> world_inv w' H J \<and>
        inbox w' = inbox w @ map (Pair sid) pls \<and> ring_bytes i w' = rest \<and> s_ID (sess w' i) = sid \<and>
        s_IOCount (sess w' i) = s_IOCount (sess w i) + 1 \<and> (\<forall>k. k \<noteq> i \<longrightarrow> sess w' k = sess w k) \<and>
        w_io w' = w_io w @ replicate (length pls) SetUpdateEvent @ [WSARecv (s_Socket (sess w i)) bufs]
    | BadFrame \<Rightarrow> \<exists>w'. RecvPacket e i (of_nat (length bs)) w = Inr (False, w') \<and> world_inv w' H J \<and>
        inbox w' = inbox w @ map (Pair sid) pls \<and> s_bIOCancel (sess w' i) \<and> s_ID (sess w' i) = sid \<and>
        s_IOCount (sess w' i) = s_IOCount (sess w i) \<and> (\<forall>k. k \<noteq> i \<longrightarrow> sess w' k = sess w k) \<and>
        w_io w' = w_io w @ replicate (length pls) SetUpdateEvent @ [CancelIoEx (s_Socket (sess w i))]
    | Overrun \<Rightarrow> RecvPacket e i (of_nat (length bs)) w = Inl OutOfBounds
    | Message pl r \<Rightarrow> False"
  by (rule RecvPacket_world [OF assms])

theorem RecvPacket_delivers_witness:
  "\<exists>d' w w' bufs. HeaderSettingAndEncoding 41 sample_packet = Inr (True, d') \<and>
     RecvPacket quiet 2 (of_nat (length (frame_bytes d' @ [0x77, 1]))) w = Inr (True, w') \<and> world_inv w' {#} {} \<and>
     inbox w = [] \<and> inbox w' = [(sid1, [1, 2, 3])] \<and> ring_bytes 2 w' = [0x77, 1] \<and>
     w_io w' = w_io w @ [SetUpdateEvent, WSARecv 77 bufs]"
proof -
  obtain d' where d': "HeaderSettingAndEncoding 41 sample_packet = Inr (True, d')"
    by (rule Encoding_payload [OF sample_packet_facts(1-4), of 41]) blast
  let ?bs = "frame_bytes d' @ [0x77, 1]"
  have cut1: "cut_frame ?bs = Message [1, 2, 3] [0x77, 1]"
    using cut_encoded [OF sample_packet_facts(1-4) _ d', of "[0x77, 1]"] sample_packet_facts(5) by simp
  moreover have "cut_frame [0x77, 1] = NeedMore" by (simp add: cut_frame_def)
  ultimately have cut: "cut_frames ?bs = ([[1, 2, 3]], NeedMore, [0x77, 1])" by (simp add: cut_frames_cases)
  have ne: "?bs \<noteq> []" and le: "length ?bs \<le> 9000" using cut_frame_message [OF cut1] by simp_all
  obtain w q where w: "world_inv w {#} {}" "live sid1 2 w" "\<not> s_bIOCancel (sess w 2)" "ring_inv q" "contents q = []"
      "int (length ?bs) \<le> GetFreeSize q" "s_Socket (sess w 2) = 77"
      "s_RecvRingQ (sess w 2) = q\<lparr>ring_Buffer := wsabuf_fill (GetDirectEnQData q) ?bs (ring_Buffer q)\<rparr>"
      "inbox w = []" "length (job_list w) \<le> 1" "20000 \<le> queue_cap (m_ThreadQ w)"
    using bytes_received [OF ne le] by blast
  have "cut_frames (contents q @ ?bs) = ([[1, 2, 3]], NeedMore, [0x77, 1])" using cut w(5) by simp
  moreover have "length (job_list w) + 2 * length [[1, 2, 3 :: byte]] \<le> queue_cap (m_ThreadQ w)" using w(10,11) by simp
  ultimately have "case NeedMore of
      NeedMore \<Rightarrow> \<exists>w' bufs. RecvPacket quiet 2 (of_nat (length ?bs)) w = Inr (True, w') \<and> world_inv w' {#} {} \<and>
        inbox w' = inbox w @ map (Pair sid1) [[1, 2, 3]] \<and> ring_bytes 2 w' = [0x77, 1] \<and> s_ID (sess w' 2) = sid1 \<and>
        s_IOCount (sess w' 2) = s_IOCount (sess w 2) + 1 \<and> (\<forall>k. k \<noteq> 2 \<longrightarrow> sess w' k = sess w k) \<and>
        w_io w' = w_io w @ replicate (length [[1, 2, 3 :: byte]]) SetUpdateEvent @ [WSARecv (s_Socket (sess w 2)) bufs]
    | BadFrame \<Rightarrow> \<exists>w'. RecvPacket quiet 2 (of_nat (length ?bs)) w = Inr (False, w') \<and> world_inv w' {#} {} \<and>
        inbox w' = inbox w @ map (Pair sid1) [[1, 2, 3]] \<and> s_bIOCancel (sess w' 2) \<and> s_ID (sess w' 2) = sid1 \<and>
        s_IOCount (sess w' 2) = s_IOCount (sess w 2) \<and> (\<forall>k. k \<noteq> 2 \<longrightarrow> sess w' k = sess w k) \<and>
        w_io w' = w_io w @ replicate (length [[1, 2, 3 :: byte]]) SetUpdateEvent @ [CancelIoEx (s_Socket (sess w 2))]
    | Overrun \<Rightarrow> RecvPacket quiet 2 (of_nat (length ?bs)) w = Inl OutOfBounds
    | Message pl r \<Rightarrow> False"
    by (rule RecvPacket_delivers [OF w(1-3) quiet_env(3) w(4) ne w(6,8)])
  then obtain w' bufs where "RecvPacket quiet 2 (of_nat (length ?bs)) w = Inr (True, w')" "world_inv w' {#} {}"
      "inbox w' = [(sid1, [1, 2, 3])]" "ring_bytes 2 w' = [0x77, 1]" "w_io w' = w_io w @ [SetUpdateEvent, WSARecv 77 bufs]"
    using w(7,9) unfolding cut.case by auto
  with d' w(9) show ?thesis by blast
qed

text \<open>
  C29. \<open>RecvPacket\<close> returns.  The loop over the messages needs at most one turn more than there are
  bytes in the ring, which is the fuel the handler gives it: with that fuel it never runs out,
  and any more fuel gives the same result.
\<close>

theorem RecvPacket_loop_terminates:
  assumes "world_inv w H J" and "live sid i w"
    and "length (job_list w) + 2 * length (fst (cut_frames (ring_bytes i w))) \<le> queue_cap (m_ThreadQ w)"
    and "length (ring_bytes i w) < fuel"
  shows "RecvPacket_loop fuel e i w \<noteq> Inl Blocked \<and>
    RecvPacket_loop fuel e i w = RecvPacket_loop (Suc (length (ring_bytes i w))) e i w"
proof -
  have "RecvPacket_loop fuel e i w \<noteq> Inl Blocked" if f: "length (ring_bytes i w) < fuel" for fuel
  proof -
    obtain pls c rest where cut: "cut_frames (ring_bytes i w) = (pls, c, rest)" by (cases "cut_frames (ring_bytes i w)")
    have room: "length (job_list w) + 2 * length pls \<le> queue_cap (m_ThreadQ w)" using assms(3) cut by simp
    show ?thesis using RecvPacket_loop_ok [OF assms(1,2) f cut room, of e] by (cases c) auto
  qed
  note nb = this
  have "RecvPacket_loop (Suc (length (ring_bytes i w)) + (fuel - Suc (length (ring_bytes i w)))) e i w
      = RecvPacket_loop (Suc (length (ring_bytes i w))) e i w"
    by (rule RecvPacket_loop_more) (rule nb, simp)
  then show ?thesis using nb [OF assms(4)] assms(4) by (simp del: RecvPacket_loop.simps)
qed

theorem RecvPacket_loop_terminates_witness:
  "\<exists>w. world_inv w {#} {} \<and> live sid1 2 w \<and> RecvPacket_loop 7 quiet 2 w = RecvPacket_loop 1 quiet 2 w \<and>
     RecvPacket_loop 7 quiet 2 w \<noteq> Inl Blocked"
proof -
  obtain w j where w: "world_inv w {#} {}" "live sid1 2 w" "new_session sid1 77 (sess w 2)" "2 ^ 31 - 1 \<le> queue_cap (m_ThreadQ w) + 1"
      "job_list w = [j]" using open_session by blast
  have empty: "ring_bytes 2 w = []" using w(3) by (simp add: ring_bytes_def new_session_def)
  have "cut_frames [] = ([], NeedMore, [])" by (rule cut_frames_cases) (simp add: cut_frame_def)
  then have room: "length (job_list w) + 2 * length (fst (cut_frames (ring_bytes 2 w))) \<le> queue_cap (m_ThreadQ w)"
    using w(4,5) empty by simp
  have "length (ring_bytes 2 w) < 7" using empty by simp
  from RecvPacket_loop_terminates [OF w(1,2) room this, of quiet]
  have "RecvPacket_loop 7 quiet 2 w \<noteq> Inl Blocked \<and> RecvPacket_loop 7 quiet 2 w = RecvPacket_loop 1 quiet 2 w"
    unfolding empty list.size(3) One_nat_def .
  with w(1,2) show ?thesis by blast
qed

text \<open>
  C30. A frame may announce up to 65535 bytes, a packet's buffer has 295 for them: once such a frame
  is complete in the ring, the handler copies it into a fresh packet and past the end of its buffer.
  Any client that is connected can send one.
\<close>

theorem long_frame_overruns:
  assumes "world_inv w H J" and "live sid i w"
    and "ring_inv q" and "bs \<noteq> []" and "int (length bs) \<le> GetFreeSize q"
    and "s_RecvRingQ (sess w i) = q\<lparr>ring_Buffer := wsabuf_fill (GetDirectEnQData q) bs (ring_Buffer q)\<rparr>"
    and "contents q @ bs = NetHeader_bytes h @ body" and "h_Code h = dfPACKET_CODE"
    and "295 < unat (h_Len h)" and "unat (h_Len h) \<le> length body"
  shows "RecvPacket e i (of_nat (length bs)) w = Inl OutOfBounds"
proof -
  have "cut_frame (contents q @ bs) = Overrun"
    unfolding assms(7) using assms(8-10) NetHeader_of_bytes_inverse [of h body] by (simp add: cut_frame_def)
  then have cut: "cut_frame (ring_bytes i (received_at e (int (length bs)) i w)) = Overrun"
    using received_at_world(3) [OF assms(1-6)] by simp
  note at = received_at_world(1,2) [OF assms(1-6)]
  show ?thesis using turn_outcomes(2) [OF at cut, of e] by (simp add: RecvPacket_unfold [OF assms(1-6)])
qed

theorem long_frame_overruns_witness:
  "\<exists>w. world_inv w {#} {} \<and> live sid1 2 w \<and> RecvPacket quiet 2 305 w = Inl OutOfBounds"
proof -
  let ?h = "\<lparr>h_Code = dfPACKET_CODE, h_Len = 300, h_RandKey = 0, h_CheckSum = 0\<rparr>"
  let ?bs = "NetHeader_bytes ?h @ replicate 300 0"
  have ne: "?bs \<noteq> []" and le: "length ?bs \<le> 9000" by (simp_all flip: length_greater_0_conv)
  obtain w q where w: "world_inv w {#} {}" "live sid1 2 w" "ring_inv q" "contents q = []" "int (length ?bs) \<le> GetFreeSize q"
      "s_RecvRingQ (sess w 2) = q\<lparr>ring_Buffer := wsabuf_fill (GetDirectEnQData q) ?bs (ring_Buffer q)\<rparr>"
    using bytes_received [OF ne le] by blast
  have bytes: "contents q @ ?bs = NetHeader_bytes ?h @ replicate 300 0" using w(4) by simp
  have "RecvPacket quiet 2 (of_nat (length ?bs)) w = Inl OutOfBounds"
    by (rule long_frame_overruns [OF w(1-3) ne w(5,6) bytes]) simp_all
  moreover have "of_nat (length ?bs) = (305 :: 32 word)" by simp
  ultimately show ?thesis using w(1,2) by metis
qed

end
