(* ===== verification/Messages.thy ===== *)
theory Messages
  imports Clients Delivering
begin

text \<open>
  A message in the hands of the update thread: how its fields are read, how the handler of a sector
  move takes it apart and answers in the same packet, and how a chat message is passed on to the
  clients around its sender.
\<close>

section \<open>A message being read\<close>

text \<open>A packet only its reader refers to, with the bytes not read yet.\<close>

definition holding :: "World \<Rightarrow> objptr \<Rightarrow> objptr multiset \<Rightarrow> objptr set \<Rightarrow> byte list \<Rightarrow> bool" where
  "holding w p H J bs \<longleftrightarrow> world_core w (add_mset p H) J \<and> p \<notin># refs w + H \<and>
     net_inv (mp_get (w_NetPacketPool w) p) \<and> payload (mp_get (w_NetPacketPool w) p) = bs"

lemma holdingD:
  assumes "holding w p H J bs"
  shows "world_core w (add_mset p H) J" "p \<notin># refs w + H" "net_inv (mp_get (w_NetPacketPool w) p)"
    "payload (mp_get (w_NetPacketPool w) p) = bs"
  using assms by (auto simp: holding_def)

lemma holding_at:
  assumes h: "holding w p H J bs"
  shows "packet_at p w = Inr (mp_get (w_NetPacketPool w) p)"
    "m_PayloadSize (mp_get (w_NetPacketPool w) p) = int (length bs)"
    "m_RefCount (mp_get (w_NetPacketPool w) p) = 1"
proof -
  have pk: "packets_inv (w_NetPacketPool w) (add_mset p (refs w + H))"
    using world_coreD(1) [OF holdingD(1) [OF h]] by simp
  then show "packet_at p w = Inr (mp_get (w_NetPacketPool w) p)" by (rule packets_at) simp
  show "m_PayloadSize (mp_get (w_NetPacketPool w) p) = int (length bs)"
    using length_payload [of sizeof_NetHeader NetPacket_BUFFER_SIZE "mp_get (w_NetPacketPool w) p"] holdingD(3,4) [OF h]
    by (simp add: net_inv_def)
  have "count (add_mset p (refs w + H)) p = 1" using holdingD(2) [OF h] by (simp add: not_in_iff)
  then show "m_RefCount (mp_get (w_NetPacketPool w) p) = 1" using packets_count [OF pk, of p] by simp
qed

text \<open>What the registry keeps does not matter to the packet.\<close>

lemma holding_cong:
  assumes "m_SessionArray w' = m_SessionArray w" "m_ThreadQ w' = m_ThreadQ w" "m_JobPool w' = m_JobPool w"
    "m_MaxUserCount w' = m_MaxUserCount w" "m_IndexStack w' = m_IndexStack w"
    "w_NetPacketPool w' = w_NetPacketPool w"
  shows "holding w' p H J bs = holding w p H J bs"
  using world_core_cong [OF assms] refs_cong [OF assms(1-3)] assms(6) by (simp add: holding_def)

lemma refs_pool [simp]: "refs (w\<lparr>w_NetPacketPool := pool\<rparr>) = refs w"
  by (rule refs_cong) simp_all

lemma holding_step:
  assumes h: "holding w p H J bs" and f: "f (mp_get (w_NetPacketPool w) p) = Inr (x, d)"
    and d: "net_inv d" "payload d = cs" "m_RefCount d = m_RefCount (mp_get (w_NetPacketPool w) p)"
  shows "\<exists>pool. on_packet p f w = Inr (x, w\<lparr>w_NetPacketPool := pool\<rparr>) \<and>
    holding (w\<lparr>w_NetPacketPool := pool\<rparr>) p H J cs \<and> mp_get pool p = d"
proof -
  note held = on_packet_held [OF holdingD(1) [OF h], where p = p, of f x d, OF _ _ f queued_shape [OF d(1)] d(3)]
  have "p \<in># add_mset p H" "p \<notin># refs w" using holdingD(2) [OF h] by simp_all
  note held = held [OF this]
  show ?thesis
    by (intro exI [of _ "mp_put p d (w_NetPacketPool w)"])
      (use held(1-3) holdingD(2) [OF h] d in \<open>simp add: holding_def\<close>)
qed

lemma read_word:
  fixes x :: "'w::len word"
  assumes h: "holding w p H J (le_bytes n x @ rest)" and n: "LENGTH('w) = 8 * n"
  shows "\<exists>pool. on_packet p (get_word (int n)) w = Inr (x, w\<lparr>w_NetPacketPool := pool\<rparr>) \<and>
    holding (w\<lparr>w_NetPacketPool := pool\<rparr>) p H J rest"
proof -
  let ?d = "mp_get (w_NetPacketPool w) p"
  have inv: "serbuf_inv sizeof_NetHeader NetPacket_BUFFER_SIZE ?d" using holdingD(3) [OF h] by (simp add: net_inv_def)
  have "int n \<le> m_PayloadSize ?d" using holding_at(2) [OF h] by simp
  from get_scalar_ok [OF inv _ this] obtain d where d: "get_scalar (int n) ?d = Inr (le_bytes n x, d)"
      "serbuf_inv sizeof_NetHeader NetPacket_BUFFER_SIZE d" "payload d = rest" "m_RefCount d = m_RefCount ?d"
    using holdingD(4) [OF h] by auto
  have "get_word (int n) ?d = Inr (x, d)" using d(1) n by (simp add: get_word_def of_le_le_bytes)
  from holding_step [OF h, where f = "get_word (int n)", OF this] d show ?thesis by (simp add: net_inv_def) blast
qed

lemmas read_int64 = read_word [where 'w = 64 and n = 8, simplified]
lemmas read_WORD = read_word [where 'w = 16 and n = 2, simplified]

lemma clear_held:
  assumes h: "holding w p H J bs"
  shows "\<exists>pool. build_packet p (\<lambda>d. Inr (NetPacket_Clear d)) w = Inr (w\<lparr>w_NetPacketPool := pool\<rparr>) \<and>
    holding (w\<lparr>w_NetPacketPool := pool\<rparr>) p H J [] \<and> unread (mp_get pool p)"
proof -
  let ?d = "mp_get (w_NetPacketPool w) p"
  have fr: "fresh_packet (NetPacket_Clear ?d)" using fresh_packet_Clear queued_shape holdingD(3) [OF h] by blast
  note u = fresh_unread [OF fr]
  have "m_RefCount (NetPacket_Clear ?d) = m_RefCount ?d" using holding_at(3) [OF h] by (simp add: NetPacket_Clear_def)
  from holding_step [OF h, where f = "\<lambda>d. bnd (Inr (NetPacket_Clear d)) (\<lambda>d. Inr ((), d))" and x = "()", OF _ _ _ this]
  obtain pool where "on_packet p (\<lambda>d. bnd (Inr (NetPacket_Clear d)) (\<lambda>d. Inr ((), d))) w = Inr ((), w\<lparr>w_NetPacketPool := pool\<rparr>)"
      "holding (w\<lparr>w_NetPacketPool := pool\<rparr>) p H J []" "mp_get pool p = NetPacket_Clear ?d"
    using u fr by (auto simp: fresh_packet_def)
  then show ?thesis using u by (intro exI [of _ pool]) (simp add: build_packet_def)
qed

lemma write_held:
  fixes f :: "NetPacket \<Rightarrow> NetPacket run"
  assumes h: "holding w p H J []" and f: "f (mp_get (w_NetPacketPool w) p) = Inr d"
    and d: "wrote (mp_get (w_NetPacketPool w) p) bs d" and bs: "bs \<noteq> []"
  shows "\<exists>pool. build_packet p f w = Inr (w\<lparr>w_NetPacketPool := pool\<rparr>) \<and>
    holding (w\<lparr>w_NetPacketPool := pool\<rparr>) p H J bs \<and> ready (mp_get pool p)"
proof -
  have p: "p \<in># add_mset p H" "p \<notin># refs w" using holdingD(2) [OF h] by simp_all
  have "ready d" by (rule wrote_ready [OF d holdingD(4) [OF h] bs])
  then show ?thesis
    using build_packet_held [OF holdingD(1) [OF h] p, where f = f, OF f d] d holdingD(2,4) [OF h]
    by (auto simp: Let_def holding_def wrote_def ready_def)
qed

section \<open>A sector move\<close>

lemma world_inv_core:
  assumes "world_inv w H J" "world_core w' H' J'" "m_SessionArray w' = m_SessionArray w"
  shows "world_inv w' H' J'"
  by (rule world_invI [OF assms(2,1)]) (use assms(3) in \<open>simp_all add: sess_def\<close>)

text \<open>
  The handler reads the three fields, takes the client off the map, puts it where it wants to be,
  and makes the answer in the packet of the request.
\<close>

lemma SECTOR_MOVE_handled:
  assumes h: "holding w p H J (le_bytes 8 acc @ le_bytes 2 x @ le_bytes 2 y)"
    and reg: "clients_inv w" and c: "m_ClientMap w sid = Some c" and acc: "c_AccoutNo (client_of w c) = acc"
    and xy: "x < dfSECTOR_X_MAX" "y < dfSECTOR_Y_MAX"
  shows "\<exists>pool clients S. let w' = w\<lparr>w_NetPacketPool := pool, m_ClientPool := clients, m_Sector := S\<rparr> in
    PacketProcess_REQ_SECTOR_MOVE e sid p w = SendUnicast e sid p w' \<and>
    holding w' p H J (le_bytes 2 en_PACKET_CS_CHAT_RES_SECTOR_MOVE @ le_bytes 8 acc @ le_bytes 2 x @ le_bytes 2 y) \<and>
    ready (mp_get pool p) \<and> clients_inv w' \<and>
    client_of w' c = (client_of w c)\<lparr>c_SectorX := x, c_SectorY := y\<rparr> \<and>
    (\<forall>d\<in>ran (m_ClientMap w). d \<noteq> c \<longrightarrow> client_of w' d = client_of w d)"
proof -
  let ?k = "client_of w c"
  let ?reply = "MakePacket_RES_SECTOR_MOVE en_PACKET_CS_CHAT_RES_SECTOR_MOVE acc x y"
  let ?bytes = "le_bytes 2 en_PACKET_CS_CHAT_RES_SECTOR_MOVE @ le_bytes 8 acc @ le_bytes 2 x @ le_bytes 2 y"
  from read_int64 [OF h] obtain p1 where r1: "on_packet p NetPacket_get_int64 w = Inr (acc, w\<lparr>w_NetPacketPool := p1\<rparr>)"
      "holding (w\<lparr>w_NetPacketPool := p1\<rparr>) p H J (le_bytes 2 x @ le_bytes 2 y)"
    by (auto simp: NetPacket_get_int64_def [abs_def])
  define w1 where "w1 = w\<lparr>w_NetPacketPool := p1\<rparr>"
  have reg1: "clients_inv w1" "m_ClientMap w1 = m_ClientMap w" "client_of w1 d = client_of w d" for d
    using registry_cong [of w1 w] reg by (simp_all add: w1_def registry_def)
  have c1: "m_ClientMap w1 sid = Some c" using c reg1(2) by simp
  from taken_off [OF reg1(1) c1] obtain S where S: "(if c_SectorX ?k \<noteq> 0xffff \<and> c_SectorY ?k \<noteq> 0xffff
       then sector_erase (c_SectorY ?k) (c_SectorX ?k) c w1 else Inr w1) = Inr (w1\<lparr>m_Sector := S\<rparr>)"
      "\<forall>y x. distinct (S y x) \<and> set (S y x) = standing w1 y x - {c}" unfolding reg1(3) by blast
  have "holding (w1\<lparr>m_Sector := S\<rparr>) p H J (le_bytes 2 x @ le_bytes 2 y)"
    using r1(2) holding_cong [of "w1\<lparr>m_Sector := S\<rparr>" w1] by (simp add: w1_def)
  from read_WORD [OF this] obtain p2 where r2:
      "on_packet p NetPacket_get_WORD (w1\<lparr>m_Sector := S\<rparr>) = Inr (x, w1\<lparr>m_Sector := S, w_NetPacketPool := p2\<rparr>)"
      "holding (w1\<lparr>m_Sector := S, w_NetPacketPool := p2\<rparr>) p H J (le_bytes 2 y @ [])"
    by (auto simp: NetPacket_get_WORD_def [abs_def])
  from read_WORD [OF r2(2)] obtain p3 where r3:
      "on_packet p NetPacket_get_WORD (w1\<lparr>m_Sector := S, w_NetPacketPool := p2\<rparr>) = Inr (y, w1\<lparr>m_Sector := S, w_NetPacketPool := p3\<rparr>)"
      "holding (w1\<lparr>m_Sector := S, w_NetPacketPool := p3\<rparr>) p H J []"
    by (auto simp: NetPacket_get_WORD_def [abs_def])
  define w2 where "w2 = w1\<lparr>m_Sector := S, w_NetPacketPool := p3\<rparr>"
  have w2: "m_ClientMap w2 = m_ClientMap w1" "m_ClientPool w2 = m_ClientPool w1" "m_Sector w2 = S"
    by (simp_all add: w2_def)
  from put_on [OF reg1(1) c1, of w2 y x] S(2) w2 xy obtain w3 pool3 S3 where w3:
      "sector_push y x c (upd_client c (\<lambda>c. c\<lparr>c_SectorX := x, c_SectorY := y\<rparr>) w2) = Inr w3" "clients_inv w3"
      "w3 = w2\<lparr>m_ClientPool := pool3, m_Sector := S3\<rparr>" "client_of w3 c = ?k\<lparr>c_SectorX := x, c_SectorY := y\<rparr>"
      "\<forall>d\<in>ran (m_ClientMap w). d \<noteq> c \<longrightarrow> client_of w3 d = client_of w d"
    unfolding reg1(2,3) by blast
  have "holding w3 p H J []" using r3(2) holding_cong [of w3 w2] by (simp add: w2_def w3(3))
  from clear_held [OF this] obtain p4 where r4: "build_packet p (\<lambda>d. Inr (NetPacket_Clear d)) w3 = Inr (w3\<lparr>w_NetPacketPool := p4\<rparr>)"
      "holding (w3\<lparr>w_NetPacketPool := p4\<rparr>) p H J []" "unread (mp_get p4 p)" by blast
  have e4: "payload (mp_get p4 p) = []" using holdingD(4) [OF r4(2)] by simp
  from RES_SECTOR_MOVE_wrote [OF r4(3) e4, of en_PACKET_CS_CHAT_RES_SECTOR_MOVE acc x y] obtain d where
      "?reply (mp_get p4 p) = Inr d" "wrote (mp_get p4 p) ?bytes d" by blast
  then have d: "?reply (mp_get (w_NetPacketPool (w3\<lparr>w_NetPacketPool := p4\<rparr>)) p) = Inr d"
      "wrote (mp_get (w_NetPacketPool (w3\<lparr>w_NetPacketPool := p4\<rparr>)) p) ?bytes d" by simp_all
  have "?bytes \<noteq> []" by (simp flip: length_greater_0_conv)
  from write_held [OF r4(2), where f = ?reply, OF d this] obtain p5 where r5:
      "build_packet p ?reply (w3\<lparr>w_NetPacketPool := p4\<rparr>) = Inr (w3\<lparr>w_NetPacketPool := p5\<rparr>)"
      "holding (w3\<lparr>w_NetPacketPool := p5\<rparr>) p H J ?bytes" "ready (mp_get p5 p)" by auto
  have w': "w3\<lparr>w_NetPacketPool := p5\<rparr> = w\<lparr>w_NetPacketPool := p5, m_ClientPool := pool3, m_Sector := S3\<rparr>"
    by (simp add: w3(3) w2_def w1_def)
  have at: "client_at c w1 = Inr ?k" using client_at_ok [OF reg1(1) c1] reg1(3) by simp
  have size: "m_PayloadSize (mp_get (w_NetPacketPool w) p) = 12" using holding_at(2) [OF h] by simp
  have nocrash: "\<not> (x > dfSECTOR_X_MAX - 1 \<or> y > dfSECTOR_Y_MAX - 1)"
    using outside_map [of "Client_new\<lparr>c_SectorX := x, c_SectorY := y\<rparr>"] xy by (auto simp: on_map_def)
  have "PacketProcess_REQ_SECTOR_MOVE e sid p w = SendUnicast e sid p (w3\<lparr>w_NetPacketPool := p5\<rparr>)"
    using c nocrash
    by (simp add: PacketProcess_REQ_SECTOR_MOVE_def FindClient_def holding_at(1) [OF h] NetPacket_GetPayloadSize_def size
        r1(1) at acc S(1) r2(1) r3(1) r4(1) r5(1) w3(1) crash_if_def flip: w1_def w2_def)
  moreover have "registry (w3\<lparr>w_NetPacketPool := p5\<rparr>) = registry w3" by (simp add: registry_def)
  ultimately show ?thesis
    unfolding Let_def using r5(2,3) registry_cong [of "w3\<lparr>w_NetPacketPool := p5\<rparr>" w3] w3(2,4,5)
    by (intro exI [of _ p5] exI [of _ pool3] exI [of _ S3]) (simp flip: w')
qed

section \<open>Sending to several clients\<close>

text \<open>A session can be sent to, or is gone: the two cases the handlers cope with.\<close>

definition reachable_or_gone :: "World \<Rightarrow> 64 word \<Rightarrow> bool" where
  "reachable_or_gone w sid \<longleftrightarrow> (\<exists>i. live sid i w \<and> queue_room (s_SendQ (sess w i))) \<or> dead sid w"

text \<open>What a broadcast may change: the send queues of some slots, each by one packet at the end.\<close>

definition posted :: "objptr \<Rightarrow> nat set \<Rightarrow> World \<Rightarrow> World \<Rightarrow> bool" where
  "posted p ks w w' \<longleftrightarrow> length (m_SessionArray w') = length (m_SessionArray w) \<and>
     m_MaxUserCount w' = m_MaxUserCount w \<and> registry w' = registry w \<and>
     (\<forall>k. (\<exists>q. sess w' k = (sess w k)\<lparr>s_SendQ := q\<rparr>)) \<and>
     (\<forall>k. k \<notin> ks \<longrightarrow> sess w' k = sess w k) \<and>
     (\<forall>k\<in>ks. send_list (sess w' k) = send_list (sess w k) @ [p])"

lemma SendQ_same: "\<exists>q. (s :: Session) = s\<lparr>s_SendQ := q\<rparr>"
  by (intro exI [of _ "s_SendQ s"]) simp

lemma posted_none: "length (m_SessionArray w') = length (m_SessionArray w) \<Longrightarrow> m_MaxUserCount w' = m_MaxUserCount w \<Longrightarrow>
   registry w' = registry w \<Longrightarrow> (\<And>k. sess w' k = sess w k) \<Longrightarrow> posted p {} w w'"
  by (simp add: posted_def SendQ_same)

lemma posted_fields:
  assumes "posted p ks w w'"
  shows "s_IOCount (sess w' k) = s_IOCount (sess w k)" "s_ID (sess w' k) = s_ID (sess w k)"
    "array_full (sess w' k) = array_full (sess w k)" "FindSession sid w' = FindSession sid w"
    "length (m_SessionArray w') = length (m_SessionArray w)"
proof -
  obtain q where q: "sess w' k = (sess w k)\<lparr>s_SendQ := q\<rparr>" using assms unfolding posted_def by blast
  then show "s_IOCount (sess w' k) = s_IOCount (sess w k)" "s_ID (sess w' k) = s_ID (sess w k)"
    "array_full (sess w' k) = array_full (sess w k)" by simp_all
  show "FindSession sid w' = FindSession sid w" "length (m_SessionArray w') = length (m_SessionArray w)"
    using assms by (simp_all add: posted_def FindSession_def GetSessionIndex_def)
qed

lemma posted_live:
  assumes "posted p ks w w'"
  shows "live sid k w' = live sid k w" "dead sid w' = dead sid w"
  using posted_fields [OF assms] by (simp_all add: live_def dead_def count_ok_def released_def)

lemma posted_trans:
  assumes a: "posted p ks w w'" and b: "posted p ls w' w''" and disj: "ks \<inter> ls = {}"
  shows "posted p (ks \<union> ls) w w''"
proof -
  have "\<exists>q. sess w'' k = (sess w k)\<lparr>s_SendQ := q\<rparr>" for k
  proof -
    obtain q1 q2 where "sess w' k = (sess w k)\<lparr>s_SendQ := q1\<rparr>" "sess w'' k = (sess w' k)\<lparr>s_SendQ := q2\<rparr>"
      using a b unfolding posted_def by blast
    then show ?thesis by (intro exI [of _ q2]) simp
  qed
  moreover have "send_list (sess w'' k) = send_list (sess w k) @ [p]" if "k \<in> ks \<union> ls" for k
    using that a b disj unfolding posted_def by (metis Int_iff Un_iff empty_iff)
  moreover have "length (m_SessionArray w'') = length (m_SessionArray w)" "m_MaxUserCount w'' = m_MaxUserCount w"
      "registry w'' = registry w" "\<forall>k. k \<notin> ks \<union> ls \<longrightarrow> sess w'' k = sess w k"
    using a b unfolding posted_def by simp_all
  ultimately show ?thesis unfolding posted_def by blast
qed

text \<open>The slots that hold a live session of one of the clients.\<close>

definition slots_of :: "World \<Rightarrow> objptr list \<Rightarrow> nat set" where
  "slots_of w cs = {k. \<exists>c\<in>set cs. live (c_SessionID (client_of w c)) k w}"

definition alive :: "World \<Rightarrow> objptr \<Rightarrow> bool" where
  "alive w c \<longleftrightarrow> (\<exists>k. live (c_SessionID (client_of w c)) k w)"

lemma live_unique: "live sid k w \<Longrightarrow> live sid l w \<Longrightarrow> l = k"
  by (simp add: live_def)

lemma live_id: "live sid k w \<Longrightarrow> s_ID (sess w k) = sid"
  by (simp add: live_def)

lemma dead_not_live: "dead sid w \<Longrightarrow> \<not> live sid k w"
  by (auto simp: dead_def live_def)

lemma refs_posted_one:
  assumes "i < length (m_SessionArray w)" and "queue_list q = queue_list (s_SendQ (sess w i)) @ [Some p]"
  shows "refs (upd_sess i (\<lambda>s. s\<lparr>s_SendQ := q\<rparr>) w) = add_mset p (refs w)"
proof -
  have "refs (upd_sess i (\<lambda>s. s\<lparr>s_SendQ := q\<rparr>) w) + session_refs (sess w i)
      = refs w + session_refs ((sess w i)\<lparr>s_SendQ := q\<rparr>)" using refs_upd_sess [OF assms(1)] by simp
  moreover have "session_refs ((sess w i)\<lparr>s_SendQ := q\<rparr>) = add_mset p (session_refs (sess w i))"
    using assms(2) by (simp add: session_refs_def)
  ultimately show ?thesis by simp
qed

text \<open>One turn of the broadcast.\<close>

lemma SendSector_turn:
  assumes core: "world_core w (add_mset p H) J" and reg: "clients_inv w" and c: "m_ClientMap w s = Some c"
    and rdy: "ready (mp_get (w_NetPacketPool w) p)" and reach: "reachable_or_gone w (c_SessionID (client_of w c))"
    and few: "count (refs w + add_mset p H) p + 1 < 2 ^ 32"
  defines "sid \<equiv> c_SessionID (client_of w c)"
  shows "\<exists>w'. (\<forall>n cs. SendSector_loop e p (c # cs) n w = SendSector_loop e p cs (if alive w c then n + 1 else n) w') \<and>
    world_core w' (add_mset p H) J \<and> posted p {k. live sid k w} w w' \<and> ready (mp_get (w_NetPacketPool w') p) \<and>
    refs w' = (if alive w c then add_mset p (refs w) else refs w) \<and>
    w_io w' = w_io w @ (if alive w c then [PostQueued sid] else [])"
proof -
  have "p \<in># refs w + add_mset p H" by simp
  from packet_IncRef_world [OF core this few] obtain pool1 where a:
      "packet_IncRef p w = Inr (w\<lparr>w_NetPacketPool := pool1\<rparr>)"
      "world_core (w\<lparr>w_NetPacketPool := pool1\<rparr>) (add_mset p (add_mset p H)) J"
      "pool_keeps (set_mset (refs w + add_mset p H)) (w_NetPacketPool w) pool1" by blast
  let ?w1 = "w\<lparr>w_NetPacketPool := pool1\<rparr>"
  have "same_packet (mp_get (w_NetPacketPool w) p) (mp_get pool1 p)" using a(3) by (simp add: pool_keeps_def)
  then have r1: "ready (mp_get (w_NetPacketPool ?w1) p)" using rdy by (simp add: ready_same)
  have at: "packet_at p ?w1 = Inr (mp_get pool1 p)" using packets_at [OF world_coreD(1) [OF a(2)], of p] by simp
  have size: "0 < m_PayloadSize (mp_get pool1 p)" using r1 by (simp add: ready_def)
  have turn: "SendSector_loop e p (c # cs) n w = bnd (SendPacket e sid p ?w1) (\<lambda>(sent, w).
       if \<not> sent then SendSector_loop e p cs n w else SendSector_loop e p cs (n + 1) (emit (PostQueued sid) w))" for cs n
    using client_at_ok [OF reg c] a(1) at size unfolding sid_def
    by (simp add: NetPacket_GetPayloadSize_def crash_if_def Let_def)
  show ?thesis
  proof (cases "dead sid w")
    case False
    then obtain i where lv: "live sid i w" and room: "queue_room (s_SendQ (sess w i))"
      using reach by (auto simp: reachable_or_gone_def sid_def)
    have al: "alive w c" using lv by (auto simp: alive_def sid_def)
    have ks: "{k. live sid k w} = {i}" using lv live_unique [OF lv] by blast
    have i: "i < length (m_SessionArray w)" using lv by (rule live_less)
    have lv1: "live sid i ?w1" "queue_room (s_SendQ (sess ?w1 i))" using lv room by (simp_all add: live_pool)
    from SendPacket_live [OF a(2) lv1(1) r1 lv1(2), of e] obtain pool2 q where b:
        "SendPacket e sid p ?w1 = Inr (True, upd_sess i (\<lambda>s. s\<lparr>s_SendQ := q\<rparr>) (w\<lparr>w_NetPacketPool := pool2\<rparr>))"
        "world_core (upd_sess i (\<lambda>s. s\<lparr>s_SendQ := q\<rparr>) (w\<lparr>w_NetPacketPool := pool2\<rparr>)) (add_mset p H) J"
        "queue_list q = queue_list (s_SendQ (sess w i)) @ [Some p]" "queued_ok (mp_get pool2 p)"
      unfolding Let_def by (simp add: world_simps) blast
    let ?w2 = "upd_sess i (\<lambda>s. s\<lparr>s_SendQ := q\<rparr>) (w\<lparr>w_NetPacketPool := pool2\<rparr>)"
    have s2: "sess (emit (PostQueued sid) ?w2) k = (if k = i then (sess w i)\<lparr>s_SendQ := q\<rparr> else sess w k)" for k
      using i by (simp add: sess_upd)
    have len: "length (m_SessionArray (emit (PostQueued sid) ?w2)) = length (m_SessionArray w)" by simp
    have "send_list ((sess w i)\<lparr>s_SendQ := q\<rparr>) = send_list (sess w i) @ [p]" by (simp add: b(3)) (simp add: send_list_def)
    moreover have "\<exists>q'. sess (emit (PostQueued sid) ?w2) k = (sess w k)\<lparr>s_SendQ := q'\<rparr>" for k
      using s2 [of k] by (cases "k = i") (auto intro: exI [of _ "s_SendQ (sess w k)"])
    ultimately have post: "posted p {i} w (emit (PostQueued sid) ?w2)"
      unfolding posted_def using s2 len by (simp add: registry_def)
    have "refs (emit (PostQueued sid) ?w2) = add_mset p (refs w)"
      using refs_posted_one [of i "w\<lparr>w_NetPacketPool := pool2\<rparr>" q p] i b(3) refs_cong [of "emit (PostQueued sid) ?w2" ?w2] by simp
    then show ?thesis
      using turn b(1,2,4) al post ks
      by (intro exI [of _ "emit (PostQueued sid) ?w2"]) (simp add: queued_ready)
  next
    case True
    have al: "\<not> alive w c" "{k. live sid k w} = {}"
      using dead_not_live [OF True] by (auto simp: alive_def sid_def)
    have "dead sid ?w1" using True by (simp add: dead_pool)
    from SendPacket_dead [OF a(2) this, of e] obtain pool2 n2 where b:
        "SendPacket e sid p ?w1 = Inr (False, w\<lparr>w_NetPacketPool := pool2, g_FreeMemoryCount := n2\<rparr>)"
        "world_core (w\<lparr>w_NetPacketPool := pool2, g_FreeMemoryCount := n2\<rparr>) (add_mset p H) J"
        "pool_keeps (set_mset (refs ?w1 + add_mset p H)) pool1 pool2"
      by (auto simp: Let_def)
    let ?w2 = "w\<lparr>w_NetPacketPool := pool2, g_FreeMemoryCount := n2\<rparr>"
    have "same_packet (mp_get pool1 p) (mp_get pool2 p)" using b(3) by (simp add: pool_keeps_def)
    then have "ready (mp_get pool2 p)" using r1 by (simp add: ready_same)
    moreover have "refs ?w2 = refs w" by (rule refs_cong) simp_all
    moreover have "posted p {} w ?w2" by (rule posted_none) (simp_all add: registry_def)
    ultimately show ?thesis
      using turn b(1,2) al by (intro exI [of _ ?w2]) simp
  qed
qed

lemma registered:
  assumes "clients_inv w" and "m_ClientMap w t = Some d"
  shows "m_ClientMap w (c_SessionID (client_of w d)) = Some d"
  using assms(2) unfolding clients_invD(3) [OF assms] .

lemma SendSector_loop_ok:
  assumes "world_core w (add_mset p H) J" "clients_inv w" "distinct cs" "set cs \<subseteq> ran (m_ClientMap w)"
    and "ready (mp_get (w_NetPacketPool w) p)" "\<forall>c\<in>set cs. reachable_or_gone w (c_SessionID (client_of w c))"
    and "count (refs w + add_mset p H) p + length cs < 2 ^ 32"
  shows "\<exists>w'. SendSector_loop e p cs n w = Inr (n + length (filter (alive w) cs), w') \<and>
    world_core w' (add_mset p H) J \<and> posted p (slots_of w cs) w w' \<and>
    refs w' = refs w + replicate_mset (length (filter (alive w) cs)) p \<and>
    w_io w' = w_io w @ map (\<lambda>c. PostQueued (c_SessionID (client_of w c))) (filter (alive w) cs)"
  using assms
proof (induction cs arbitrary: w n)
  case Nil
  have "posted p {} w w" by (rule posted_none) simp_all
  then show ?case using Nil by (intro exI [of _ w]) (simp add: slots_of_def)
next
  case (Cons c cs)
  note prems = Cons.prems
  let ?sid = "c_SessionID (client_of w c)"
  obtain s where s: "m_ClientMap w s = Some c" using prems(4) by (auto simp: ran_def)
  have few: "count (refs w + add_mset p H) p + 1 < 2 ^ 32" using prems(7) by simp
  have reach: "reachable_or_gone w ?sid" using prems(6) by simp
  from SendSector_turn [OF prems(1,2) s prems(5) reach few, of e] obtain w1 where w1:
      "\<And>n cs. SendSector_loop e p (c # cs) n w = SendSector_loop e p cs (if alive w c then n + 1 else n) w1"
      "world_core w1 (add_mset p H) J" "posted p {k. live ?sid k w} w w1" "ready (mp_get (w_NetPacketPool w1) p)"
      "refs w1 = (if alive w c then add_mset p (refs w) else refs w)"
      "w_io w1 = w_io w @ (if alive w c then [PostQueued ?sid] else [])" by blast
  have reg1: "clients_inv w1 = clients_inv w" "m_ClientMap w1 = m_ClientMap w" "client_of w1 d = client_of w d" for d
    using registry_cong [of w1 w] w1(3) by (simp_all add: posted_def)
  have al: "alive w1 d = alive w d" for d using posted_live(1) [OF w1(3)] reg1(3) by (simp add: alive_def)
  have other: "live (c_SessionID (client_of w d)) k w \<Longrightarrow> \<not> live ?sid k w" if "d \<in> set cs" for d k
  proof
    assume l: "live (c_SessionID (client_of w d)) k w" "live ?sid k w"
    have "d \<in> ran (m_ClientMap w)" using prems(4) that by auto
    then obtain s' where "m_ClientMap w s' = Some d" unfolding ran_def by blast
    then have d: "m_ClientMap w (c_SessionID (client_of w d)) = Some d" using registered [OF prems(2)] by blast
    have eq: "c_SessionID (client_of w d) = ?sid" by (rule trans [OF live_id [OF l(1), symmetric] live_id [OF l(2)]])
    have "Some d = Some c" by (rule trans [OF d [unfolded eq, symmetric] registered [OF prems(2) s]])
    then have "d = c" by (rule option.inject [THEN iffD1])
    then show False using prems(3) that by simp
  qed
  have reach1: "reachable_or_gone w1 (c_SessionID (client_of w1 d))" if d: "d \<in> set cs" for d
  proof -
    have "reachable_or_gone w (c_SessionID (client_of w d))" using prems(6) d by simp
    moreover have "sess w1 k = sess w k" if "live (c_SessionID (client_of w d)) k w" for k
      using w1(3) other [OF d that] by (simp add: posted_def)
    ultimately show ?thesis
      unfolding reachable_or_gone_def reg1(3) posted_live [OF w1(3)] by metis
  qed
  have cnt: "count (refs w1 + add_mset p H) p + length cs < 2 ^ 32" using prems(7) w1(5) by simp
  have "\<exists>w'. SendSector_loop e p cs (if alive w c then n + 1 else n) w1
      = Inr ((if alive w c then n + 1 else n) + length (filter (alive w1) cs), w') \<and>
    world_core w' (add_mset p H) J \<and> posted p (slots_of w1 cs) w1 w' \<and>
    refs w' = refs w1 + replicate_mset (length (filter (alive w1) cs)) p \<and>
    w_io w' = w_io w1 @ map (\<lambda>c. PostQueued (c_SessionID (client_of w1 c))) (filter (alive w1) cs)"
    by (rule Cons.IH [OF w1(2)]) (use prems(2-4) reg1 w1(4) reach1 cnt in auto)
  then obtain w' where w': "SendSector_loop e p cs (if alive w c then n + 1 else n) w1
      = Inr ((if alive w c then n + 1 else n) + length (filter (alive w) cs), w')"
    "world_core w' (add_mset p H) J" "posted p (slots_of w1 cs) w1 w'"
    "refs w' = refs w1 + replicate_mset (length (filter (alive w) cs)) p"
    "w_io w' = w_io w1 @ map (\<lambda>c. PostQueued (c_SessionID (client_of w c))) (filter (alive w) cs)"
    unfolding reg1(3) al [abs_def] by blast
  have sl: "slots_of w1 cs = slots_of w cs" by (simp add: slots_of_def reg1(3) posted_live(1) [OF w1(3)])
  have "{k. live ?sid k w} \<inter> slots_of w cs = {}" using other by (auto simp: slots_of_def)
  from posted_trans [OF w1(3) w'(3) [unfolded sl] this]
  have "posted p (slots_of w (c # cs)) w w'" by (simp add: slots_of_def Un_def)
  then show ?case
    unfolding w1(1) using w'(1,2,4,5) w1(5,6) by (intro exI [of _ w']) simp
qed

lemma bnd_Inr_right: "bnd m Inr = m"
  by (cases m) simp_all

text \<open>The whole broadcast: the sender's reference is given back at the end, and the packet freed if nobody got it.\<close>

lemma DecRef_tail:
  assumes core: "world_core w (add_mset p H) J" and n: "n = 0 \<longrightarrow> p \<notin># refs w + H"
  shows "bnd (on_packet p (\<lambda>d. Inr (NetPacket_DecrementRefCount d)) w) (\<lambda>(m, w).
      bnd (if m = 0 then packet_Free p (w\<lparr>g_FreeMemoryCount := g_FreeMemoryCount w + 1\<rparr>) else Inr w) (\<lambda>w.
      bnd (crash_if (n = 0 \<and> m \<noteq> 0)) (\<lambda>_. Inr w))) = packet_DecRef p w"
proof (cases "n = 0")
  case True
  have pk: "packets_inv (w_NetPacketPool w) (add_mset p (refs w + H))" using world_coreD(1) [OF core] by simp
  have "count (add_mset p (refs w + H)) p = 1" using True n by (simp add: not_in_iff)
  then have "m_RefCount (mp_get (w_NetPacketPool w) p) = 1" using packets_count [OF pk, of p] by simp
  then obtain d where d: "NetPacket_DecrementRefCount (mp_get (w_NetPacketPool w) p) = (0, d)"
    by (simp add: NetPacket_DecrementRefCount_def)
  have "packet_at p w = Inr (mp_get (w_NetPacketPool w) p)" using packets_at [OF pk] by simp
  then have "on_packet p (\<lambda>d. Inr (NetPacket_DecrementRefCount d)) w
      = Inr (0, w\<lparr>w_NetPacketPool := mp_put p d (w_NetPacketPool w)\<rparr>)"
    by (simp add: on_packet_def d)
  then show ?thesis by (simp add: packet_DecRef_def crash_if_def bnd_Inr_right)
next
  case False
  then show ?thesis by (simp add: packet_DecRef_def crash_if_def bnd_Inr_right)
qed

lemma SendSector_ok:
  assumes core: "world_core w (add_mset p H) J" and last: "p \<notin># refs w + H" and reg: "clients_inv w"
    and xy: "x < dfSECTOR_X_MAX" "y < dfSECTOR_Y_MAX" and rdy: "ready (mp_get (w_NetPacketPool w) p)"
    and reach: "\<forall>c\<in>set (sector_clients w x y). reachable_or_gone w (c_SessionID (client_of w c))"
    and few: "length (sector_clients w x y) + 1 < 2 ^ 32"
  shows "\<exists>w'. SendSector e x y p w = Inr w' \<and> world_core w' H J \<and> posted p (slots_of w (sector_clients w x y)) w w' \<and>
    w_io w' = w_io w @ map (\<lambda>c. PostQueued (c_SessionID (client_of w c))) (filter (alive w) (sector_clients w x y))"
proof -
  let ?cs = "sector_clients w x y"
  let ?n = "length (filter (alive w) ?cs)"
  have cs: "distinct ?cs" "set ?cs \<subseteq> ran (m_ClientMap w)" using sector_clients_near [OF reg xy] by auto
  have "count (refs w + add_mset p H) p = 1" using last by (simp add: not_in_iff)
  then have cnt: "count (refs w + add_mset p H) p + length ?cs < 2 ^ 32" using few by simp
  from SendSector_loop_ok [OF core reg cs rdy reach cnt, of e 0] obtain w1 where w1:
      "SendSector_loop e p ?cs 0 w = Inr (?n, w1)" "world_core w1 (add_mset p H) J" "posted p (slots_of w ?cs) w w1"
      "refs w1 = refs w + replicate_mset ?n p"
      "w_io w1 = w_io w @ map (\<lambda>c. PostQueued (c_SessionID (client_of w c))) (filter (alive w) ?cs)" by auto
  have "?n = 0 \<longrightarrow> p \<notin># refs w1 + H"
  proof
    assume "?n = 0"
    then show "p \<notin># refs w1 + H" using last unfolding w1(4) by (simp only:) simp
  qed
  note tail = DecRef_tail [OF w1(2) this]
  from packet_DecRef_world [OF w1(2)] obtain pool n where d:
      "packet_DecRef p w1 = Inr (w1\<lparr>w_NetPacketPool := pool, g_FreeMemoryCount := n\<rparr>)"
      "world_core (w1\<lparr>w_NetPacketPool := pool, g_FreeMemoryCount := n\<rparr>) H J" by blast
  let ?w2 = "w1\<lparr>w_NetPacketPool := pool, g_FreeMemoryCount := n\<rparr>"
  have nocrash: "\<not> y > dfSECTOR_Y_MAX - 1" "\<not> x > dfSECTOR_X_MAX - 1"
    using outside_map [of "Client_new\<lparr>c_SectorX := x, c_SectorY := y\<rparr>"] xy by (auto simp: on_map_def)
  have "SendSector e x y p w = packet_DecRef p w1"
    unfolding tail [symmetric] using nocrash w1(1) by (simp add: SendSector_def crash_if_def Let_def)
  moreover have "posted p (slots_of w ?cs) w ?w2"
    using w1(3) unfolding posted_def by (simp add: registry_def)
  ultimately show ?thesis using d w1(5) by (intro exI [of _ ?w2]) simp
qed

end
