(* ===== verification/ChatMessages.thy ===== *)
theory ChatMessages
  imports Messages Receiving
begin

text \<open>
  What the update thread does with a message of a client, from the packet to the send queues: the
  dispatch on the message type, the sector move, the chat message with its announcement of a
  disconnection, and the messages that are refused or end the server.
\<close>

section \<open>Chat messages\<close>

text \<open>An update of one slot that leaves its references alone keeps the packet in hand.\<close>

lemma holding_session_field:
  assumes h: "holding w p H J bs" and i: "i < length (m_SessionArray w)"
    and f: "s_SendQ (f (sess w i)) = s_SendQ (sess w i)" "s_DeQPacketArray (f (sess w i)) = s_DeQPacketArray (sess w i)"
      "s_DeQArraySize (f (sess w i)) = s_DeQArraySize (sess w i)" "s_RecvRingQ (f (sess w i)) = s_RecvRingQ (sess w i)"
  shows "holding (upd_sess i f w) p H J bs"
proof -
  have "ring_inv (s_RecvRingQ (f (sess w i)))"
    using sessions_invD(1) [OF world_coreD(2) [OF holdingD(1) [OF h]] i] f(4) by (simp add: session_ok_def)
  from world_core_session_field [OF holdingD(1) [OF h] i, where f = f, OF f(1-3) this]
  have "world_core (upd_sess i f w) (add_mset p H) J" .
  moreover have "refs (upd_sess i f w) = refs w"
    using refs_upd_sess [OF i, of f "{#}" "{#}"] f by (simp add: session_refs_def)
  ultimately show ?thesis using h by (simp add: holding_def)
qed

text \<open>The announcement of a disconnection, a message of one equals sign.\<close>

definition announced :: "byte list \<Rightarrow> 64 word \<Rightarrow> World \<Rightarrow> World" where
  "announced message sid w =
     (case FindSession sid w of
        Inl _ \<Rightarrow> w
      | Inr i \<Rightarrow> if is_discon_message message \<and> live sid i w
                then upd_sess i (\<lambda>s. s\<lparr>s_bReserveDiscon := True\<rparr>) w else w)"

lemma announced_eq:
  assumes r: "reachable_or_gone w sid"
  shows "(if is_discon_message message then
       bnd (AcquireSession_out e sid w) (\<lambda>(ok, i, w).
         if ok then IO_Decrement e i (upd_sess i (\<lambda>s. s\<lparr>s_bReserveDiscon := True\<rparr>) w) else Inr w)
     else Inr w) = Inr (announced message sid w)"
proof (cases "is_discon_message message")
  case False
  then show ?thesis by (simp add: announced_def split: sum.splits)
next
  case True
  show ?thesis
  proof (cases "dead sid w")
    case False
    then obtain i where lv: "live sid i w" using r by (auto simp: reachable_or_gone_def)
    have i: "i < length (m_SessionArray w)" using lv by (rule live_less)
    let ?w1 = "upd_sess i (\<lambda>s. s\<lparr>s_bReserveDiscon := True\<rparr>) (IO_Increment i w)"
    have "s_IOCount (sess ?w1 i) = s_IOCount (sess w i) + 1" using i by (simp add: IO_Increment_def sess_upd)
    then have "s_IOCount (sess ?w1 i) \<noteq> 1" using lv by (simp add: live_def count_ok_def)
    from IO_Decrement_held [OF _ this, of e] i
    have "IO_Decrement e i ?w1 = Inr (upd_sess i (\<lambda>s. s\<lparr>s_IOCount := s_IOCount s - 1\<rparr>) ?w1)"
      by (simp add: IO_Increment_def)
    also have "upd_sess i (\<lambda>s. s\<lparr>s_IOCount := s_IOCount s - 1\<rparr>) ?w1 = upd_sess i (\<lambda>s. s\<lparr>s_bReserveDiscon := True\<rparr>) w"
      using i by (simp add: IO_Increment_def upd_sess_def sess_def)
    finally have "IO_Decrement e i ?w1 = Inr (upd_sess i (\<lambda>s. s\<lparr>s_bReserveDiscon := True\<rparr>) w)" .
    moreover have "FindSession sid w = Inr i" using lv by (simp add: live_def)
    ultimately show ?thesis using True lv by (simp add: live_acquire [OF lv] announced_def)
  next
    case d: True
    obtain i where a: "AcquireSession_out e sid w = Inr (False, i, w)" using dead_acquire [OF d] by blast
    have "announced message sid w = w" using dead_not_live [OF d] by (auto simp: announced_def split: sum.splits)
    then show ?thesis using True a by simp
  qed
qed

lemma announced_keeps:
  shows "registry (announced message sid w) = registry w" "w_NetPacketPool (announced message sid w) = w_NetPacketPool w"
    "w_io (announced message sid w) = w_io w" "length (m_SessionArray (announced message sid w)) = length (m_SessionArray w)"
    "m_MaxUserCount (announced message sid w) = m_MaxUserCount w"
    "sess (announced message sid w) k = (if is_discon_message message \<and> live sid k w
       then (sess w k)\<lparr>s_bReserveDiscon := True\<rparr> else sess w k)"
  using live_less by (auto simp: announced_def registry_def sess_upd live_def split: sum.splits)

lemma announced_holding:
  assumes h: "holding w p H J bs"
  shows "holding (announced message sid w) p H J bs"
  using h holding_session_field [OF h, of _ "\<lambda>s. s\<lparr>s_bReserveDiscon := True\<rparr>"] live_less
  by (auto simp: announced_def split: sum.splits)

lemma announced_live:
  shows "live s k (announced message sid w) = live s k w" "dead s (announced message sid w) = dead s w"
proof -
  have f: "FindSession s (announced message sid w) = FindSession s w" for s
    using announced_keeps(4,5) [of message sid w] by (simp add: FindSession_def GetSessionIndex_def)
  have "s_IOCount (sess (announced message sid w) k) = s_IOCount (sess w k)"
    "s_ID (sess (announced message sid w) k) = s_ID (sess w k)" for k by (simp_all add: announced_keeps(6))
  then show "live s k (announced message sid w) = live s k w" "dead s (announced message sid w) = dead s w"
    by (simp_all add: live_def dead_def count_ok_def released_def f)
qed

lemma announced_reachable: "reachable_or_gone (announced message sid w) s = reachable_or_gone w s"
  by (auto simp: reachable_or_gone_def announced_live announced_keeps(6))

text \<open>The text of a message, copied into the handler's buffer.\<close>

definition text_buffer :: "byte list \<Rightarrow> byte list" where
  "text_buffer message = mem_write (replicate 10000 0) 0 message"

lemma length_text_buffer: "length message \<le> 10000 \<Longrightarrow> length (text_buffer message) = 10000"
  by (simp add: text_buffer_def)

lemma read_data:
  assumes h: "holding w p H J (bs @ rest)" and dest: "length bs \<le> length dest"
  shows "\<exists>pool. packet_GetData p dest (int (length bs)) w = Inr (mem_write dest 0 bs, w\<lparr>w_NetPacketPool := pool\<rparr>) \<and>
    holding (w\<lparr>w_NetPacketPool := pool\<rparr>) p H J rest"
proof -
  let ?d = "mp_get (w_NetPacketPool w) p"
  have m: "min (int (length bs)) (m_PayloadSize ?d) = int (length bs)" using holding_at(2) [OF h] by simp
  from NetPacket_GetData_ok [OF holdingD(3) [OF h], of "int (length bs)" dest] dest obtain d where d:
      "NetPacket_GetData dest (int (length bs)) ?d = Inr (int (length bs), mem_write dest 0 bs, d)" "net_inv d"
      "payload d = rest" "m_RefCount d = m_RefCount ?d"
    unfolding m holdingD(4) [OF h] by auto
  from holding_step [OF h, where f = "\<lambda>d. bnd (NetPacket_GetData dest (int (length bs)) d) (\<lambda>(_, bs, d). Inr (bs, d))"
      and x = "mem_write dest 0 bs" and d = d and cs = rest] d show ?thesis
    unfolding packet_GetData_def by auto
qed

lemma announced_pool: "announced message sid (w\<lparr>w_NetPacketPool := pool\<rparr>) = (announced message sid w)\<lparr>w_NetPacketPool := pool\<rparr>"
proof -
  have "FindSession sid (w\<lparr>w_NetPacketPool := pool\<rparr>) = FindSession sid w" by (simp add: FindSession_def GetSessionIndex_def)
  then show ?thesis by (simp add: announced_def live_pool upd_sess_def sess_def split: sum.splits)
qed

lemma reachable_pool: "reachable_or_gone (w\<lparr>w_NetPacketPool := pool\<rparr>) s = reachable_or_gone w s"
  by (simp add: reachable_or_gone_def live_pool dead_pool)

text \<open>The reply: the text as the client gave it, twice its length as far as the packet takes it.\<close>

definition message_reply :: "64 word \<Rightarrow> Client \<Rightarrow> 16 word \<Rightarrow> byte list \<Rightarrow> byte list" where
  "message_reply acc c len message = le_bytes 2 en_PACKET_CS_CHAT_RES_MESSAGE @ le_bytes 8 acc @ c_ID c @ c_NickName c @
     le_bytes 2 len @ take (min (2 * unat len) 203) (text_buffer message)"

lemma message_reply_nonempty: "message_reply acc c len message \<noteq> []"
  by (simp add: message_reply_def flip: length_greater_0_conv)

lemma REQ_MESSAGE_handled:
  assumes h: "holding w p H J (le_bytes 8 acc @ le_bytes 2 len @ message @ rest)" and len: "length message = unat len"
    and reg: "clients_inv w" and c: "m_ClientMap w sid = Some c" and acc: "c_AccoutNo (client_of w c) = acc"
    and r: "reachable_or_gone w sid"
  shows "\<exists>pool. let w' = (announced (text_buffer message) sid w)\<lparr>w_NetPacketPool := pool\<rparr> in
    PacketProcess_REQ_MESSAGE e sid p w = SendSector e (c_SectorX (client_of w c)) (c_SectorY (client_of w c)) p w' \<and>
    holding w' p H J (message_reply acc (client_of w c) len message) \<and> ready (mp_get pool p)"
proof -
  let ?k = "client_of w c" and ?text = "text_buffer message"
  let ?reply = "MakePacket_RES_MESSAGE en_PACKET_CS_CHAT_RES_MESSAGE acc (c_ID ?k) (c_NickName ?k) len ?text"
  have size: "m_PayloadSize (mp_get (w_NetPacketPool w) p) = 10 + int (unat len) + int (length rest)"
    using holding_at(2) [OF h] len by simp
  moreover have "m_PayloadSize (mp_get (w_NetPacketPool w) p) \<le> 295"
    using holdingD(3) [OF h] by (simp add: net_inv_def serbuf_inv_def packet_consts)
  ultimately have small: "unat len \<le> 285" by linarith
  from read_int64 [OF h] obtain p1 where r1: "on_packet p NetPacket_get_int64 w = Inr (acc, w\<lparr>w_NetPacketPool := p1\<rparr>)"
      "holding (w\<lparr>w_NetPacketPool := p1\<rparr>) p H J (le_bytes 2 len @ message @ rest)"
    by (auto simp: NetPacket_get_int64_def [abs_def])
  from read_WORD [OF r1(2)] obtain p2 where r2:
      "on_packet p NetPacket_get_WORD (w\<lparr>w_NetPacketPool := p1\<rparr>) = Inr (len, w\<lparr>w_NetPacketPool := p2\<rparr>)"
      "holding (w\<lparr>w_NetPacketPool := p2\<rparr>) p H J (message @ rest)"
    by (auto simp: NetPacket_get_WORD_def [abs_def])
  have "length message \<le> length (replicate 10000 (0 :: byte))" using len small by simp
  from read_data [OF r2(2) this] len obtain p3 where r3:
      "packet_GetData p (replicate 10000 0) (uint len) (w\<lparr>w_NetPacketPool := p2\<rparr>) = Inr (?text, w\<lparr>w_NetPacketPool := p3\<rparr>)"
      "holding (w\<lparr>w_NetPacketPool := p3\<rparr>) p H J rest"
    by (auto simp: text_buffer_def simp flip: uint_nat)
  let ?w4 = "announced ?text sid (w\<lparr>w_NetPacketPool := p3\<rparr>)"
  have ann: "(if is_discon_message ?text then
       bnd (AcquireSession_out e sid (w\<lparr>w_NetPacketPool := p3\<rparr>)) (\<lambda>(ok, i, w).
         if ok then IO_Decrement e i (upd_sess i (\<lambda>s. s\<lparr>s_bReserveDiscon := True\<rparr>) w) else Inr w)
     else Inr (w\<lparr>w_NetPacketPool := p3\<rparr>)) = Inr ?w4"
    using announced_eq [of "w\<lparr>w_NetPacketPool := p3\<rparr>" sid] r by (simp add: reachable_pool)
  from clear_held [OF announced_holding [OF r3(2), of ?text sid]] obtain p5 where r5:
      "build_packet p (\<lambda>d. Inr (NetPacket_Clear d)) ?w4 = Inr (?w4\<lparr>w_NetPacketPool := p5\<rparr>)"
      "holding (?w4\<lparr>w_NetPacketPool := p5\<rparr>) p H J []" "unread (mp_get p5 p)" by blast
  have e5: "payload (mp_get p5 p) = []" using holdingD(4) [OF r5(2)] by simp
  have ok: "client_ok ?k" by (rule clients_invD(4) [OF reg c])
  have "length ?text = 10000" using len small by (intro length_text_buffer) simp
  then have "2 * unat len \<le> length ?text" using small by simp
  from RES_MESSAGE_wrote [OF r5(3) e5 _ _ this, of "c_ID ?k" "c_NickName ?k" en_PACKET_CS_CHAT_RES_MESSAGE acc] ok
  obtain d where "?reply (mp_get p5 p) = Inr d" "wrote (mp_get p5 p) (message_reply acc ?k len message) d"
    by (auto simp: client_ok_def message_reply_def)
  then have d: "?reply (mp_get (w_NetPacketPool (?w4\<lparr>w_NetPacketPool := p5\<rparr>)) p) = Inr d"
      "wrote (mp_get (w_NetPacketPool (?w4\<lparr>w_NetPacketPool := p5\<rparr>)) p) (message_reply acc ?k len message) d" by simp_all
  from write_held [OF r5(2), where f = ?reply, OF d message_reply_nonempty] obtain p6 where r6:
      "build_packet p ?reply (?w4\<lparr>w_NetPacketPool := p5\<rparr>) = Inr (?w4\<lparr>w_NetPacketPool := p6\<rparr>)"
      "holding (?w4\<lparr>w_NetPacketPool := p6\<rparr>) p H J (message_reply acc ?k len message)" "ready (mp_get p6 p)" by auto
  have w': "?w4\<lparr>w_NetPacketPool := p6\<rparr> = (announced ?text sid w)\<lparr>w_NetPacketPool := p6\<rparr>" by (simp add: announced_pool)
  have "registry (w\<lparr>w_NetPacketPool := p1\<rparr>) = registry w" by (simp add: registry_def)
  note reg1 = registry_cong [OF this]
  have at: "client_at c (w\<lparr>w_NetPacketPool := p1\<rparr>) = Inr ?k"
    using client_at_ok [of "w\<lparr>w_NetPacketPool := p1\<rparr>" sid c] reg c reg1 by simp
  have at2: "packet_at p (w\<lparr>w_NetPacketPool := p2\<rparr>) = Inr (mp_get p2 p)" "m_PayloadSize (mp_get p2 p) \<ge> uint len"
    using holding_at(1,2) [OF r2(2)] len by simp_all
  have at3: "packet_at p (?w4\<lparr>w_NetPacketPool := p5\<rparr>) = Inr (mp_get p5 p)" "\<not> m_bSetHeader (mp_get p5 p)"
    using holding_at(1) [OF r5(2)] r5(3) by (simp_all add: unread_def)
  have nn: "0 \<le> uint len + int (length rest)" by (intro add_nonneg_nonneg uint_ge_0) simp
  have guards: "\<not> lt_sizeof (NetPacket_GetPayloadSize (mp_get (w_NetPacketPool w) p)) (8 + 2)"
      "\<not> NetPacket_GetPayloadSize (mp_get p2 p) < uint len" "crash_if (m_bSetHeader (mp_get p5 p)) = Inr ()"
    using size at2(2) at3(2) nn by (simp_all add: not_less NetPacket_GetPayloadSize_def lt_sizeof_def crash_if_def)
  have "PacketProcess_REQ_MESSAGE e sid p w = SendSector e (c_SectorX ?k) (c_SectorY ?k) p (?w4\<lparr>w_NetPacketPool := p6\<rparr>)"
    by (simp only: PacketProcess_REQ_MESSAGE_def FindClient_def c option.case holding_at(1) [OF h] bnd_Inr guards if_False
        r1(1) prod.case at acc simp_thms r2(1) at2(1) r3(1) ann r5(1) at3(1) r6(1))
  then show ?thesis using r6(2,3) unfolding Let_def w' by (intro exI [of _ p6] conjI)
qed

section \<open>Sending the answer\<close>

lemma posted_one:
  assumes i: "i < length (m_SessionArray w)" and q: "queue_list q = queue_list (s_SendQ (sess w i)) @ [Some p]"
    and w': "w' = upd_sess i (\<lambda>s. s\<lparr>s_SendQ := q\<rparr>) w1" "m_SessionArray w1 = m_SessionArray w"
      "m_MaxUserCount w1 = m_MaxUserCount w" "registry w1 = registry w"
  shows "posted p {i} w w'"
proof -
  have s1: "sess w1 k = sess w k" for k using w'(2) by (simp add: sess_def)
  have s: "sess w' k = (if k = i then (sess w i)\<lparr>s_SendQ := q\<rparr> else sess w k)" for k
    using i w'(2) s1 unfolding w'(1) by (simp add: sess_upd)
  have "send_list ((sess w i)\<lparr>s_SendQ := q\<rparr>) = send_list (sess w i) @ [p]" by (simp add: q) (simp add: send_list_def)
  moreover have "\<exists>q'. sess w' k = (sess w k)\<lparr>s_SendQ := q'\<rparr>" for k
    using s [of k] SendQ_same [of "sess w k"] by (cases "k = i") auto
  ultimately show ?thesis
    unfolding posted_def using s w' by (simp add: registry_def)
qed

lemma SendUnicast_posted:
  assumes core: "world_core w (add_mset p H) J" and rdy: "ready (mp_get (w_NetPacketPool w) p)"
    and reach: "reachable_or_gone w sid" and few: "count (refs w + add_mset p H) p + 1 < 2 ^ 32"
  shows "\<exists>w'. SendUnicast e sid p w = Inr w' \<and> world_core w' H J \<and> posted p {k. live sid k w} w w' \<and>
    (w_io w' = w_io w \<or> w_io w' = w_io w @ [PostQueued sid])"
proof (cases "dead sid w")
  case False
  then obtain i where lv: "live sid i w" and room: "queue_room (s_SendQ (sess w i))"
    using reach by (auto simp: reachable_or_gone_def)
  have ks: "{k. live sid k w} = {i}" using lv live_unique [OF lv] by blast
  from SendUnicast_live [OF core lv rdy room few, of e] obtain pool q n where u:
      "SendUnicast e sid p w = Inr (upd_sess i (\<lambda>s. s\<lparr>s_SendQ := q\<rparr>)
         (emit (PostQueued sid) (w\<lparr>w_NetPacketPool := pool, g_FreeMemoryCount := n\<rparr>)))"
      "world_core (upd_sess i (\<lambda>s. s\<lparr>s_SendQ := q\<rparr>)
         (emit (PostQueued sid) (w\<lparr>w_NetPacketPool := pool, g_FreeMemoryCount := n\<rparr>))) H J"
      "queue_list q = queue_list (s_SendQ (sess w i)) @ [Some p]"
    unfolding Let_def by blast
  have "posted p {i} w (upd_sess i (\<lambda>s. s\<lparr>s_SendQ := q\<rparr>)
         (emit (PostQueued sid) (w\<lparr>w_NetPacketPool := pool, g_FreeMemoryCount := n\<rparr>)))"
    by (rule posted_one [OF live_less [OF lv] u(3) refl]) (simp_all add: registry_def)
  then show ?thesis unfolding ks using u(1,2) by (intro exI conjI) (assumption | simp)+
next
  case True
  have ks: "{k. live sid k w} = {}" using dead_not_live [OF True] by blast
  from SendUnicast_dead [OF core True few, of e] obtain pool n where u:
      "SendUnicast e sid p w = Inr (w\<lparr>w_NetPacketPool := pool, g_FreeMemoryCount := n\<rparr>)"
      "world_core (w\<lparr>w_NetPacketPool := pool, g_FreeMemoryCount := n\<rparr>) H J" unfolding Let_def by blast
  have "posted p {} w (w\<lparr>w_NetPacketPool := pool, g_FreeMemoryCount := n\<rparr>)"
    by (rule posted_none) (simp_all add: registry_def)
  then show ?thesis unfolding ks using u by (intro exI conjI) (assumption | simp)+
qed

section \<open>The dispatch\<close>

lemma MessageMarshalling_type:
  assumes h: "holding w p H J (le_bytes 2 type @ rest)" and f: "FindSession sid w = Inr i"
  shows "\<exists>pool. let w' = w\<lparr>w_NetPacketPool := pool\<rparr> in holding w' p H J rest \<and>
    MessageMarshalling e sid p w =
      (if type = en_PACKET_CS_CHAT_REQ_LOGIN then PacketProcess_REQ_LOGIN e sid p w'
       else if type = en_PACKET_CS_CHAT_REQ_SECTOR_MOVE then PacketProcess_REQ_SECTOR_MOVE e sid p w'
       else if type = en_PACKET_CS_CHAT_REQ_MESSAGE then PacketProcess_REQ_MESSAGE e sid p w'
       else if type = en_PACKET_CS_CHAT_REQ_HEARTBEAT then Inl Crash
       else refuse_message e sid p w')"
proof -
  from read_WORD [OF h] obtain p1 where r: "on_packet p NetPacket_get_WORD w = Inr (type, w\<lparr>w_NetPacketPool := p1\<rparr>)"
      "holding (w\<lparr>w_NetPacketPool := p1\<rparr>) p H J rest"
    by (auto simp: NetPacket_get_WORD_def [abs_def])
  have f1: "FindSession sid (w\<lparr>w_NetPacketPool := p1\<rparr>) = Inr i" using f by (simp add: FindSession_def GetSessionIndex_def)
  have g: "crash_if (lt_sizeof (NetPacket_GetPayloadSize (mp_get (w_NetPacketPool w) p)) 2) = Inr ()"
    using holding_at(2) [OF h] by (simp add: NetPacket_GetPayloadSize_def lt_sizeof_def crash_if_def)
  show ?thesis
    unfolding Let_def using r(2)
    by (intro exI [of _ p1] conjI) (simp_all only: MessageMarshalling_def holding_at(1) [OF h] bnd_Inr g r(1) prod.case f1)
qed

lemma reachable_FindSession: "reachable_or_gone w sid \<Longrightarrow> \<exists>i. FindSession sid w = Inr i"
  by (auto simp: reachable_or_gone_def live_def dead_def)

lemma short_message_crashes:
  assumes h: "holding w p H J bs" and short: "length bs < 2"
  shows "MessageMarshalling e sid p w = Inl Crash"
  using holding_at(1,2) [OF h] short
  by (simp add: MessageMarshalling_def NetPacket_GetPayloadSize_def lt_sizeof_def crash_if_def)

section \<open>Refusing a message\<close>

lemma refuse_message_ok:
  assumes h: "holding w p H J bs" and lv: "live sid i w" and inv: "world_inv w (add_mset p H) J"
  shows "\<exists>w'. refuse_message e sid p w = Inr w' \<and> world_inv w' H J \<and> registry w' = registry w \<and>
    w_io w' = w_io w @ [CancelIoEx (s_Socket (sess w i))] \<and>
    (\<forall>k. sess w' k = (if k = i then (sess w i)\<lparr>s_bIOCancel := True\<rparr> else sess w k))"
proof -
  let ?w1 = "w\<lparr>g_FreeMemoryCount := g_FreeMemoryCount w + 1\<rparr>"
  have core1: "world_core ?w1 (add_mset p H) J" by (rule iffD2 [OF world_core_cong holdingD(1) [OF h]]) simp_all
  have "refs ?w1 = refs w" by (rule refs_cong) simp_all
  then have "p \<notin># refs ?w1 + H" using holdingD(2) [OF h] by simp
  from packet_Free_world [OF core1 this] obtain pool where f: "packet_Free p ?w1 = Inr (?w1\<lparr>w_NetPacketPool := pool\<rparr>)"
      "world_core (?w1\<lparr>w_NetPacketPool := pool\<rparr>) H J" unfolding Let_def by blast
  let ?w2 = "?w1\<lparr>w_NetPacketPool := pool\<rparr>"
  have inv2: "world_inv ?w2 H J" by (rule world_inv_core [OF inv f(2)]) simp
  have lv2: "live sid i ?w2" using lv by (simp add: live_def FindSession_def GetSessionIndex_def)
  have i: "i < length (m_SessionArray ?w2)" using live_less [OF lv2] .
  have "refuse_message e sid p w = Inr (cancelled i ?w2)"
    by (simp add: refuse_message_def f(1) Disconnect_live [OF lv2])
  moreover have "registry (cancelled i ?w2) = registry w" "w_io (cancelled i ?w2) = w_io w @ [CancelIoEx (s_Socket (sess w i))]"
    by (simp_all add: cancelled_def registry_def)
  ultimately show ?thesis using cancelled_world [OF inv2 i] by (intro exI [of _ "cancelled i ?w2"]) simp
qed

end
