(* ===== verification/Conversations.thy ===== *)
theory Conversations
  imports ChatMessages
begin

text \<open>
  What the update thread guarantees about the clients: who is registered, who stands where, what
  a message does that is served, which messages are refused, and which end the server.
\<close>

section \<open>Requests\<close>

definition sector_move_request :: "64 word \<Rightarrow> 16 word \<Rightarrow> 16 word \<Rightarrow> byte list" where
  "sector_move_request acc x y = le_bytes 2 en_PACKET_CS_CHAT_REQ_SECTOR_MOVE @ le_bytes 8 acc @ le_bytes 2 x @ le_bytes 2 y"

definition chat_request :: "64 word \<Rightarrow> byte list \<Rightarrow> byte list" where
  "chat_request acc message = le_bytes 2 en_PACKET_CS_CHAT_REQ_MESSAGE @ le_bytes 8 acc @
     le_bytes 2 (of_nat (length message) :: 16 word) @ message"

text \<open>The requests that are answered by disconnecting the sender.\<close>

definition refused :: "16 word \<Rightarrow> byte list \<Rightarrow> Client \<Rightarrow> bool" where
  "refused type rest c \<longleftrightarrow>
     (if type = en_PACKET_CS_CHAT_REQ_LOGIN then length rest \<noteq> 152
      else if type = en_PACKET_CS_CHAT_REQ_SECTOR_MOVE then length rest \<noteq> 12 \<or> of_le (take 8 rest) \<noteq> c_AccoutNo c
      else if type = en_PACKET_CS_CHAT_REQ_MESSAGE then
        length rest < 10 \<or> of_le (take 8 rest) \<noteq> c_AccoutNo c \<or>
        length rest - 10 < unat (of_le (take 2 (drop 8 rest)) :: 16 word)
      else type \<noteq> en_PACKET_CS_CHAT_REQ_HEARTBEAT)"

lemmas message_types = en_PACKET_CS_CHAT_REQ_LOGIN_def en_PACKET_CS_CHAT_REQ_SECTOR_MOVE_def
  en_PACKET_CS_CHAT_REQ_MESSAGE_def en_PACKET_CS_CHAT_REQ_HEARTBEAT_def

text \<open>Reading the packet does not touch the sessions or the registry.\<close>

lemma pool_registry: "registry (w\<lparr>w_NetPacketPool := pool\<rparr>) = registry w"
  by (simp add: registry_def)

lemmas pool_reg = registry_cong [OF pool_registry]

lemma same_sessions_reachable:
  assumes "m_SessionArray w' = m_SessionArray w" "m_MaxUserCount w' = m_MaxUserCount w"
  shows "reachable_or_gone w' s = reachable_or_gone w s" "live s k w' = live s k w"
  using assms by (simp_all add: reachable_or_gone_def live_def dead_def FindSession_def GetSessionIndex_def sess_def)

lemma posted_core:
  assumes "world_inv w H J" "m_SessionArray w1 = m_SessionArray w" "posted p ks w1 w'" "world_core w' H' J'"
  shows "world_inv w' H' J'"
proof (rule world_invI [OF assms(4,1)])
  show "length (m_SessionArray w') = length (m_SessionArray w)" using assms(2,3) by (simp add: posted_def)
  fix k assume "array_full (sess w k)"
  then show "array_full (sess w' k)" using posted_fields(3) [OF assms(3), of k] assms(2) by (simp add: sess_def)
qed

lemma posted_send_list:
  "posted p ks w w' \<Longrightarrow> send_list (sess w' k) = send_list (sess w k) @ (if k \<in> ks then [p] else [])"
  by (simp add: posted_def)

section \<open>Examples\<close>

lemma joined_client:
  "\<exists>w c. world_inv w {#} {} \<and> clients_inv w \<and> live sid1 2 w \<and> reachable_or_gone w sid1 \<and>
     m_ClientMap w = [sid1 \<mapsto> c] \<and> client_of w c = Client_new\<lparr>c_SessionID := sid1\<rparr> \<and> send_list (sess w 2) = [] \<and>
     s_Socket (sess w 2) = 77 \<and> \<not> s_bReserveDiscon (sess w 2) \<and> FindSession sid2 w = Inr 2"
proof -
  obtain w where w: "world_inv w {#} {}" "live sid1 2 w" "new_session sid1 77 (sess w 2)"
      "4000 \<le> queue_cap (s_SendQ (sess w 2))" "length (m_SessionArray w) = 3" "FindSession sid2 w = Inr 2" "no_clients w"
    using open_session by blast
  have nc: "m_ClientMap w = (\<lambda>_. None)" "m_Sector w = (\<lambda>_ _. [])" "m_ClientPool w = MemoryPool_new 1 500 True"
    using w(7) by (simp_all add: no_clients_def)
  have f: "FindSession sid1 w = Inr 2" using w(2) by (simp add: live_def)
  have none: "m_ClientMap w sid1 = None" by (simp add: nc)
  from CreateNewUser_ok [OF no_clients_inv [OF nc] f none, of quiet] obtain pool c where c:
      "clients_inv (w\<lparr>m_ClientPool := pool, m_ClientMap := [sid1 \<mapsto> c]\<rparr>)"
      "client_of (w\<lparr>m_ClientPool := pool, m_ClientMap := [sid1 \<mapsto> c]\<rparr>) c = Client_new\<lparr>c_SessionID := sid1\<rparr>"
    unfolding Let_def nc(1) by blast
  let ?w = "w\<lparr>m_ClientPool := pool, m_ClientMap := [sid1 \<mapsto> c]\<rparr>"
  have core: "world_core ?w {#} {}" by (rule iffD2 [OF world_core_cong world_invD(1) [OF w(1)]]) simp_all
  have inv: "world_inv ?w {#} {}" by (rule world_inv_core [OF w(1) core]) simp
  have sess: "sess ?w 2 = sess w 2" by simp
  have "send_list (sess w 2) = []" "s_Socket (sess w 2) = 77" "\<not> s_bReserveDiscon (sess w 2)" using w(3) by (simp_all add: new_session_def)
  moreover have "length (queue_list (s_SendQ (sess w 2))) = 0"
    using session_queue(2) [of "sess w 2"] sessions_invD(1) [OF world_coreD(2) [OF world_invD(1) [OF w(1)]], of 2] calculation(1) w(5)
    by simp
  then have "queue_room (s_SendQ (sess w 2))" using w(4) by (simp add: queue_room_def)
  then have "reachable_or_gone ?w sid1" "live sid1 2 ?w"
    using w(2) same_sessions_reachable [of ?w w] by (auto simp: reachable_or_gone_def)
  moreover have "FindSession sid2 ?w = Inr 2" using w(6) by (simp add: FindSession_def GetSessionIndex_def)
  ultimately show ?thesis using c inv unfolding sess [symmetric]
    by (intro exI [of _ ?w] exI [of _ c]) simp
qed

lemma message_in_hand:
  assumes inv: "world_inv w {#} {}" and bs: "length bs \<le> 295"
  shows "\<exists>pool p. world_inv (w\<lparr>w_NetPacketPool := pool\<rparr>) {#p#} {} \<and> holding (w\<lparr>w_NetPacketPool := pool\<rparr>) p {#} {} bs"
proof -
  from packet_Alloc_world [OF world_invD(1) [OF inv], of quiet] obtain p pool1 where a:
      "world_core (w\<lparr>w_NetPacketPool := pool1\<rparr>) {#p#} {}" "p \<notin># refs w" "fresh_packet (mp_get pool1 p)"
    unfolding Let_def by auto
  let ?w1 = "w\<lparr>w_NetPacketPool := pool1\<rparr>"
  note u = fresh_unread [OF a(3)]
  have h1: "holding ?w1 p {#} {} []" using a u by (simp add: holding_def unread_def)
  from PutData_wrote [OF u [THEN conjunct1], of "int (length bs)" bs] bs u obtain d where d:
      "NetPacket_PutData bs (int (length bs)) (mp_get pool1 p) = Inr (int (length bs), d)" "wrote (mp_get pool1 p) bs d"
    by auto
  have p: "net_inv d" "payload d = bs" "m_RefCount d = m_RefCount (mp_get (w_NetPacketPool ?w1) p)"
    using d(2) u by (simp_all add: wrote_def unread_def)
  from holding_step [OF h1, where f = "NetPacket_PutData bs (int (length bs))", OF _ p] d(1) obtain pool where
      h: "holding (w\<lparr>w_NetPacketPool := pool\<rparr>) p {#} {} bs" by auto
  have "world_inv (w\<lparr>w_NetPacketPool := pool\<rparr>) {#p#} {}" by (rule world_inv_core [OF inv holdingD(1) [OF h]]) simp
  with h show ?thesis by blast
qed

text \<open>A client that has moved to a sector.\<close>

lemma placed_client:
  assumes xy: "x < dfSECTOR_X_MAX" "y < dfSECTOR_Y_MAX"
  shows "\<exists>w c. world_inv w {#} {} \<and> clients_inv w \<and> live sid1 2 w \<and> reachable_or_gone w sid1 \<and>
     m_ClientMap w = [sid1 \<mapsto> c] \<and> send_list (sess w 2) = [] \<and> s_Socket (sess w 2) = 77 \<and>
     \<not> s_bReserveDiscon (sess w 2) \<and> client_of w c = Client_new\<lparr>c_SessionID := sid1, c_SectorX := x, c_SectorY := y\<rparr>"
proof -
  obtain w c where w: "world_inv w {#} {}" "clients_inv w" "live sid1 2 w" "reachable_or_gone w sid1"
      "m_ClientMap w = [sid1 \<mapsto> c]" "client_of w c = Client_new\<lparr>c_SessionID := sid1\<rparr>" "send_list (sess w 2) = []"
      "s_Socket (sess w 2) = 77" "\<not> s_bReserveDiscon (sess w 2)"
    using joined_client by blast
  have c: "m_ClientMap w sid1 = Some c" by (simp add: w(5))
  from taken_off [OF w(2) c] obtain S where S: "\<forall>y x. distinct (S y x) \<and> set (S y x) = standing w y x - {c}" by blast
  let ?w1 = "w\<lparr>m_Sector := S\<rparr>"
  have "\<And>y x. distinct (m_Sector ?w1 y x) \<and> set (m_Sector ?w1 y x) = standing w y x - {c}" using S by simp
  from put_on [OF w(2) c this _ _ xy(2,1)] obtain w2 pool T where w2: "clients_inv w2"
      "w2 = ?w1\<lparr>m_ClientPool := pool, m_Sector := T\<rparr>" "client_of w2 c = (client_of w c)\<lparr>c_SectorX := x, c_SectorY := y\<rparr>" by auto
  have f: "m_SessionArray w2 = m_SessionArray w" "m_MaxUserCount w2 = m_MaxUserCount w" "m_ClientMap w2 = m_ClientMap w"
      "sess w2 2 = sess w 2" by (simp_all add: w2(2))
  have "world_core w2 {#} {}" by (rule iffD2 [OF world_core_cong world_invD(1) [OF w(1)]]) (simp_all add: w2(2))
  then have "world_inv w2 {#} {}" by (rule world_inv_core [OF w(1)]) (rule f(1))
  then show ?thesis
    using w(3-9) w2(1,3) f same_sessions_reachable [OF f(1,2)] by (intro exI [of _ w2] exI [of _ c]) simp
qed

section \<open>Properties\<close>

text \<open>
  C24. Joining and leaving keep the registry: a new session gets a client of its own, fresh from the
  pool and nowhere on the map; a session that leaves takes exactly its client out of the map, out
  of its sector and back to the pool, and no other client changes.  A session that leaves
  without having joined ends the server.
\<close>

theorem join_and_leave:
  assumes "clients_inv w" and "FindSession sid w = Inr i"
  shows "(m_ClientMap w sid = None \<longrightarrow>
      (\<exists>w' c. CreateNewUser e sid w = Inr w' \<and> clients_inv w' \<and> c \<notin> ran (m_ClientMap w) \<and>
        m_ClientMap w' = (m_ClientMap w)(sid \<mapsto> c) \<and> client_of w' c = Client_new\<lparr>c_SessionID := sid\<rparr> \<and>
        (\<forall>d\<in>ran (m_ClientMap w). client_of w' d = client_of w d)) \<and> DeleteUser sid w = Inl Crash) \<and>
    (\<forall>c. m_ClientMap w sid = Some c \<longrightarrow>
      (\<exists>w'. DeleteUser sid w = Inr w' \<and> clients_inv w' \<and> m_ClientMap w' = (m_ClientMap w)(sid := None) \<and>
        (\<forall>d\<in>ran (m_ClientMap w'). client_of w' d = client_of w d)))"
proof (intro conjI impI allI)
  assume none: "m_ClientMap w sid = None"
  from CreateNewUser_ok [OF assms none, of e] obtain pool c where
      "CreateNewUser e sid w = Inr (w\<lparr>m_ClientPool := pool, m_ClientMap := (m_ClientMap w)(sid \<mapsto> c)\<rparr>)"
      "clients_inv (w\<lparr>m_ClientPool := pool, m_ClientMap := (m_ClientMap w)(sid \<mapsto> c)\<rparr>)" "c \<notin> ran (m_ClientMap w)"
      "client_of (w\<lparr>m_ClientPool := pool, m_ClientMap := (m_ClientMap w)(sid \<mapsto> c)\<rparr>) c = Client_new\<lparr>c_SessionID := sid\<rparr>"
      "\<forall>d\<in>ran (m_ClientMap w). client_of (w\<lparr>m_ClientPool := pool, m_ClientMap := (m_ClientMap w)(sid \<mapsto> c)\<rparr>) d = client_of w d"
    unfolding Let_def by blast
  then show "\<exists>w' c. CreateNewUser e sid w = Inr w' \<and> clients_inv w' \<and> c \<notin> ran (m_ClientMap w) \<and>
      m_ClientMap w' = (m_ClientMap w)(sid \<mapsto> c) \<and> client_of w' c = Client_new\<lparr>c_SessionID := sid\<rparr> \<and>
      (\<forall>d\<in>ran (m_ClientMap w). client_of w' d = client_of w d)" by (intro exI conjI) (assumption | simp)+
next
  show "DeleteUser sid w = Inl Crash" if "m_ClientMap w sid = None" by (rule DeleteUser_unknown [OF assms(2) that])
next
  fix c assume "m_ClientMap w sid = Some c"
  then show "\<exists>w'. DeleteUser sid w = Inr w' \<and> clients_inv w' \<and> m_ClientMap w' = (m_ClientMap w)(sid := None) \<and>
      (\<forall>d\<in>ran (m_ClientMap w'). client_of w' d = client_of w d)" by (rule DeleteUser_ok [OF assms])
qed

theorem join_and_leave_witness:
  "\<exists>w w' w'' c. clients_inv w \<and> m_ClientMap w = [sid1 \<mapsto> c] \<and> DeleteUser sid1 w = Inr w' \<and> clients_inv w' \<and>
     m_ClientMap w' = Map.empty \<and> CreateNewUser quiet sid2 w = Inr w'' \<and> clients_inv w'' \<and> card (dom (m_ClientMap w'')) = 2"
proof -
  obtain w c where w: "clients_inv w" "live sid1 2 w" "m_ClientMap w = [sid1 \<mapsto> c]" "FindSession sid2 w = Inr 2"
    using joined_client by blast
  have f: "FindSession sid1 w = Inr 2" using w(2) by (simp add: live_def)
  from join_and_leave [OF w(1) f] w(3) obtain w' where w': "DeleteUser sid1 w = Inr w'" "clients_inv w'"
      "m_ClientMap w' = (m_ClientMap w)(sid1 := None)" by auto
  have "m_ClientMap w sid2 = None" using w(3) sid1_sid2 by simp
  with conjunct1 [OF join_and_leave [OF w(1,4), of quiet]] obtain w'' d where
      w'': "CreateNewUser quiet sid2 w = Inr w''" "clients_inv w''" "m_ClientMap w'' = (m_ClientMap w)(sid2 \<mapsto> d)" by blast
  have "card (dom (m_ClientMap w'')) = 2" unfolding w''(3) w(3) using sid1_sid2 by (simp add: card_insert_if)
  then show ?thesis using w w' w'' by (intro exI [of _ w] exI [of _ w'] exI [of _ w''] exI [of _ c]) simp
qed

text \<open>
  C25. The neighbourhood a message reaches: the list that \<open>SendSector\<close> goes through holds, once
  each, exactly the registered clients whose sector differs from the given one by at most one
  in either coordinate, at the edges of the map too.
\<close>

theorem sector_neighbourhood:
  assumes "clients_inv w" and "x < dfSECTOR_X_MAX" "y < dfSECTOR_Y_MAX"
  shows "distinct (sector_clients w x y) \<and> set (sector_clients w x y) =
    {c \<in> ran (m_ClientMap w). on_map (client_of w c) \<and>
       \<bar>int (unat (c_SectorX (client_of w c))) - int (unat x)\<bar> \<le> 1 \<and>
       \<bar>int (unat (c_SectorY (client_of w c))) - int (unat y)\<bar> \<le> 1}"
proof -
  have "near x y k \<longleftrightarrow> on_map k \<and> \<bar>int (unat (c_SectorX k)) - int (unat x)\<bar> \<le> 1 \<and> \<bar>int (unat (c_SectorY k)) - int (unat y)\<bar> \<le> 1"
    for k
  proof -
    have "m \<le> n + 1 \<and> n \<le> m + 1 \<longleftrightarrow> \<bar>int m - int n\<bar> \<le> 1" for m n by linarith
    then show ?thesis unfolding near_def by blast
  qed
  then show ?thesis using sector_clients_near [OF assms] by (simp only: simp_thms)
qed

theorem sector_neighbourhood_witness:
  "\<exists>w c. clients_inv w \<and> c \<in> ran (m_ClientMap w) \<and> sector_clients w 0 49 = [c] \<and> sector_clients w 3 49 = []"
proof -
  have xy: "(1 :: 16 word) < dfSECTOR_X_MAX" "(48 :: 16 word) < dfSECTOR_Y_MAX" "(0 :: 16 word) < dfSECTOR_X_MAX"
      "(49 :: 16 word) < dfSECTOR_Y_MAX" "(3 :: 16 word) < dfSECTOR_X_MAX"
    by (simp_all add: dfSECTOR_X_MAX_def dfSECTOR_Y_MAX_def)
  obtain w c where w: "clients_inv w" "m_ClientMap w = [sid1 \<mapsto> c]"
      "client_of w c = Client_new\<lparr>c_SessionID := sid1, c_SectorX := 1, c_SectorY := 48\<rparr>"
    using placed_client [OF xy(1,2)] by blast
  have on: "on_map (client_of w c)" using xy by (simp add: w(3) on_map_def)
  have u: "unat (1 :: 16 word) = 1" "unat (48 :: 16 word) = 48" "unat (49 :: 16 word) = 49" "unat (3 :: 16 word) = 3" by simp_all
  have ran: "ran (m_ClientMap w) = {c}" by (simp add: w(2))
  have sel: "{d \<in> {c}. P d} = (if P c then {c} else {})" for P by auto
  have "set (sector_clients w 0 49) = {c}" "distinct (sector_clients w 0 49)"
    using sector_neighbourhood [OF w(1) xy(3,4)] on unfolding ran sel w(3) by (simp_all add: u)
  then have "length (sector_clients w 0 49) = 1" using distinct_card [of "sector_clients w 0 49"] by simp
  then have "sector_clients w 0 49 = [c]"
    using \<open>set (sector_clients w 0 49) = {c}\<close> by (cases "sector_clients w 0 49") simp_all
  moreover have "set (sector_clients w 3 49) = {}"
    using sector_neighbourhood [OF w(1) xy(5,4)] unfolding ran sel w(3) by (simp add: u)
  ultimately show ?thesis using w(1,2) by (intro exI [of _ w] exI [of _ c]) simp
qed

text \<open>
  C12. A sector move that is served: the client leaves its old sector and stands in the new one and
  nowhere else, no other client changes, and the answer, with the sector granted, goes to the end of
  the send queue of the client's session if that is still live.  The packet of the request becomes
  the answer, so the handler's reference is used up and the server's invariant kept.
\<close>

theorem sector_move_served:
  assumes "world_inv w (add_mset p H) J" and "clients_inv w" and "holding w p H J (sector_move_request acc x y)"
    and "m_ClientMap w sid = Some c" and "c_AccoutNo (client_of w c) = acc"
    and "x < dfSECTOR_X_MAX" "y < dfSECTOR_Y_MAX" and "reachable_or_gone w sid"
  shows "\<exists>w1 w'. MessageMarshalling e sid p w = SendUnicast e sid p w1 \<and>
    payload (mp_get (w_NetPacketPool w1) p) =
      le_bytes 2 en_PACKET_CS_CHAT_RES_SECTOR_MOVE @ le_bytes 8 acc @ le_bytes 2 x @ le_bytes 2 y \<and>
    SendUnicast e sid p w1 = Inr w' \<and> world_inv w' H J \<and> clients_inv w' \<and> m_ClientMap w' = m_ClientMap w \<and>
    client_of w' c = (client_of w c)\<lparr>c_SectorX := x, c_SectorY := y\<rparr> \<and>
    (\<forall>d\<in>ran (m_ClientMap w). d \<noteq> c \<longrightarrow> client_of w' d = client_of w d) \<and>
    (\<forall>k. send_list (sess w' k) = send_list (sess w k) @ (if live sid k w then [p] else []))"
proof -
  obtain i where f: "FindSession sid w = Inr i" using reachable_FindSession [OF assms(8)] by blast
  from MessageMarshalling_type [OF assms(3) [unfolded sector_move_request_def] f, of e] obtain p0 where m:
      "holding (w\<lparr>w_NetPacketPool := p0\<rparr>) p H J (le_bytes 8 acc @ le_bytes 2 x @ le_bytes 2 y)"
      "MessageMarshalling e sid p w = PacketProcess_REQ_SECTOR_MOVE e sid p (w\<lparr>w_NetPacketPool := p0\<rparr>)"
    unfolding Let_def by (auto simp: message_types)
  let ?w0 = "w\<lparr>w_NetPacketPool := p0\<rparr>"
  note reg0 = pool_reg [where w = w and pool = p0]
  from SECTOR_MOVE_handled [OF m(1), of sid c e] assms(2,4-7) reg0 obtain pool clients S where h:
      "PacketProcess_REQ_SECTOR_MOVE e sid p ?w0 = SendUnicast e sid p (?w0\<lparr>w_NetPacketPool := pool, m_ClientPool := clients, m_Sector := S\<rparr>)"
      "holding (?w0\<lparr>w_NetPacketPool := pool, m_ClientPool := clients, m_Sector := S\<rparr>) p H J
         (le_bytes 2 en_PACKET_CS_CHAT_RES_SECTOR_MOVE @ le_bytes 8 acc @ le_bytes 2 x @ le_bytes 2 y)"
      "ready (mp_get pool p)" "clients_inv (?w0\<lparr>w_NetPacketPool := pool, m_ClientPool := clients, m_Sector := S\<rparr>)"
      "client_of (?w0\<lparr>w_NetPacketPool := pool, m_ClientPool := clients, m_Sector := S\<rparr>) c = (client_of w c)\<lparr>c_SectorX := x, c_SectorY := y\<rparr>"
      "\<forall>d\<in>ran (m_ClientMap w). d \<noteq> c \<longrightarrow>
         client_of (?w0\<lparr>w_NetPacketPool := pool, m_ClientPool := clients, m_Sector := S\<rparr>) d = client_of w d"
    unfolding Let_def by (simp only:) blast
  define w1 where "w1 = ?w0\<lparr>w_NetPacketPool := pool, m_ClientPool := clients, m_Sector := S\<rparr>"
  note h = h [folded w1_def]
  have s1: "m_SessionArray w1 = m_SessionArray w" "m_MaxUserCount w1 = m_MaxUserCount w" "m_ClientMap w1 = m_ClientMap w"
      "w_NetPacketPool w1 = pool" by (simp_all add: w1_def)
  note same = same_sessions_reachable [OF s1(1,2)]
  have "count (refs w1 + add_mset p H) p + 1 < 2 ^ 32" using holdingD(2) [OF h(2)] by (simp add: not_in_iff)
  from SendUnicast_posted [OF holdingD(1) [OF h(2)] _ _ this, of sid e] h(3) s1(4) same assms(8) obtain w' where u:
      "SendUnicast e sid p w1 = Inr w'" "world_core w' H J" "posted p {k. live sid k w} w1 w'" by auto
  have reg: "registry w' = registry w1" using u(3) by (simp add: posted_def)
  have "sess w1 k = sess w k" for k using s1(1) by (simp add: sess_def)
  then have sl: "send_list (sess w' k) = send_list (sess w k) @ (if live sid k w then [p] else [])" for k
    using posted_send_list [OF u(3), of k] by simp
  show ?thesis
    by (intro exI [of _ w1] exI [of _ w'] conjI posted_core [OF assms(1) s1(1) u(3,2)] u(1))
      (use m(2) h(1,4-6) holdingD(4) [OF h(2)] registry_cong [OF reg] s1(3) sl in simp_all)
qed

theorem sector_move_served_witness:
  "\<exists>w w' p c. world_inv w {#p#} {} \<and> unplaced (client_of w c) \<and> MessageMarshalling quiet sid1 p w = Inr w' \<and>
     world_inv w' {#} {} \<and> sector_clients w' 7 9 = [c] \<and> send_list (sess w' 2) = [p]"
proof -
  obtain w0 c where w0: "world_inv w0 {#} {}" "clients_inv w0" "live sid1 2 w0" "reachable_or_gone w0 sid1"
      "m_ClientMap w0 = [sid1 \<mapsto> c]" "client_of w0 c = Client_new\<lparr>c_SessionID := sid1\<rparr>" "send_list (sess w0 2) = []"
    using joined_client by blast
  have "length (sector_move_request 0 7 9) \<le> 295" by (simp add: sector_move_request_def)
  from message_in_hand [OF w0(1) this] obtain pool p where m: "world_inv (w0\<lparr>w_NetPacketPool := pool\<rparr>) {#p#} {}"
      "holding (w0\<lparr>w_NetPacketPool := pool\<rparr>) p {#} {} (sector_move_request 0 7 9)" by blast
  define w where "w = w0\<lparr>w_NetPacketPool := pool\<rparr>"
  note reg = pool_reg [where w = w0 and pool = pool, folded w_def]
  have xy: "(7 :: 16 word) < dfSECTOR_X_MAX" "(9 :: 16 word) < dfSECTOR_Y_MAX"
    by (simp_all add: dfSECTOR_X_MAX_def dfSECTOR_Y_MAX_def)
  have s: "sess w 2 = sess w0 2" "live sid1 2 w" "reachable_or_gone w sid1"
    using w0(3,4) same_sessions_reachable [of w w0] by (simp_all add: w_def)
  have c: "m_ClientMap w sid1 = Some c" "c_AccoutNo (client_of w c) = 0" "unplaced (client_of w c)"
    by (simp_all add: reg w0(5,6) Client_new_def unplaced_def)
  have inv: "clients_inv w" using w0(2) by (simp add: reg)
  from sector_move_served [OF m(1) [folded w_def] inv m(2) [folded w_def] c(1,2) xy s(3), of quiet] obtain w1 w' where w':
      "MessageMarshalling quiet sid1 p w = SendUnicast quiet sid1 p w1" "SendUnicast quiet sid1 p w1 = Inr w'"
      "world_inv w' {#} {}" "clients_inv w'" "m_ClientMap w' = m_ClientMap w"
      "client_of w' c = (client_of w c)\<lparr>c_SectorX := 7, c_SectorY := 9\<rparr>"
      "send_list (sess w' 2) = send_list (sess w 2) @ (if live sid1 2 w then [p] else [])" by blast
  have ran: "ran (m_ClientMap w') = {c}" by (simp add: w'(5) reg w0(5))
  have "near 7 9 (client_of w' c)" using xy by (simp add: w'(6) near_def on_map_def)
  moreover have "{d \<in> {c}. P d} = (if P c then {c} else {})" for P by auto
  ultimately have "set (sector_clients w' 7 9) = {c}" using sector_clients_near(1) [OF w'(4) xy] unfolding ran by simp
  moreover from this have "length (sector_clients w' 7 9) = 1"
    using distinct_card [OF sector_clients_near(2) [OF w'(4) xy]] by simp
  ultimately have "sector_clients w' 7 9 = [c]" by (cases "sector_clients w' 7 9") simp_all
  then show ?thesis
    using m(1) [folded w_def] c(3) w' s w0(7) by (intro exI [of _ w] exI [of _ w'] exI [of _ p] exI [of _ c]) simp
qed

lemma posted_reserve: "posted p ks w w' \<Longrightarrow> s_bReserveDiscon (sess w' k) = s_bReserveDiscon (sess w k)"
proof -
  assume "posted p ks w w'"
  then obtain q where "sess w' k = (sess w k)\<lparr>s_SendQ := q\<rparr>" unfolding posted_def by blast
  then show ?thesis by simp
qed

text \<open>A chat message up to the broadcast.\<close>

lemma chat_handled:
  assumes inv: "clients_inv w" and h: "holding w p H J (chat_request acc message)"
    and c: "m_ClientMap w sid = Some c" and acc: "c_AccoutNo (client_of w c) = acc" and r: "reachable_or_gone w sid"
  shows "\<exists>w1. MessageMarshalling e sid p w = SendSector e (c_SectorX (client_of w c)) (c_SectorY (client_of w c)) p w1 \<and>
    holding w1 p H J (message_reply acc (client_of w c) (of_nat (length message)) message) \<and>
    ready (mp_get (w_NetPacketPool w1) p) \<and> registry w1 = registry w \<and>
    length (m_SessionArray w1) = length (m_SessionArray w) \<and>
    (\<forall>s. reachable_or_gone w1 s = reachable_or_gone w s) \<and> (\<forall>s k. live s k w1 = live s k w) \<and>
    (\<forall>k. sess w1 k = (if is_discon_message (text_buffer message) \<and> live sid k w
      then (sess w k)\<lparr>s_bReserveDiscon := True\<rparr> else sess w k))"
proof -
  obtain i where f: "FindSession sid w = Inr i" using reachable_FindSession [OF r] by blast
  have "10 + int (length message) \<le> 295 - 2"
    using holding_at(2) [OF h] holdingD(3) [OF h]
    by (simp add: net_inv_def serbuf_inv_def packet_consts chat_request_def)
  then have len: "length message = unat (of_nat (length message) :: 16 word)" by (simp add: unat_of_nat)
  from MessageMarshalling_type [OF h [unfolded chat_request_def] f, of e] obtain p0 where m:
      "holding (w\<lparr>w_NetPacketPool := p0\<rparr>) p H J (le_bytes 8 acc @ le_bytes 2 (of_nat (length message) :: 16 word) @ message @ [])"
      "MessageMarshalling e sid p w = PacketProcess_REQ_MESSAGE e sid p (w\<lparr>w_NetPacketPool := p0\<rparr>)"
    unfolding Let_def by (auto simp: message_types)
  let ?w0 = "w\<lparr>w_NetPacketPool := p0\<rparr>"
  note reg0 = pool_reg [where w = w and pool = p0]
  have "clients_inv ?w0" "m_ClientMap ?w0 sid = Some c" "c_AccoutNo (client_of ?w0 c) = acc" "reachable_or_gone ?w0 sid"
    using inv c acc r reg0 by (simp_all add: reachable_pool)
  from REQ_MESSAGE_handled [OF m(1) len this, of e] obtain pool where h0:
      "PacketProcess_REQ_MESSAGE e sid p ?w0 = SendSector e (c_SectorX (client_of w c)) (c_SectorY (client_of w c)) p
         ((announced (text_buffer message) sid ?w0)\<lparr>w_NetPacketPool := pool\<rparr>)"
      "holding ((announced (text_buffer message) sid ?w0)\<lparr>w_NetPacketPool := pool\<rparr>) p H J
         (message_reply acc (client_of w c) (of_nat (length message)) message)" "ready (mp_get pool p)"
    unfolding Let_def reg0 by blast
  let ?w1 = "(announced (text_buffer message) sid w)\<lparr>w_NetPacketPool := pool\<rparr>"
  have w1: "(announced (text_buffer message) sid ?w0)\<lparr>w_NetPacketPool := pool\<rparr> = ?w1" by (simp add: announced_pool)
  note h1 = h0 [unfolded w1]
  show ?thesis
    by (intro exI [of _ ?w1] conjI allI trans [OF m(2) h1(1)] h1(2))
      (simp_all add: h1(3) pool_registry announced_keeps reachable_pool live_pool announced_reachable announced_live)
qed

text \<open>
  C7. A chat message that is served: one packet, with the sender's account number, identifier, nick
  name and text, goes to the end of the send queue of every live session whose client stands in the
  nine sectors around the sender, and of no other session; the packet is one for all, and freed
  at once when nobody is left to take it.  No client changes.  A single equals sign marks the
  sender's session as about to leave.
\<close>

theorem message_broadcast:
  assumes "world_inv w (add_mset p H) J" and "clients_inv w" and "holding w p H J (chat_request acc message)"
    and "m_ClientMap w sid = Some c" and "c_AccoutNo (client_of w c) = acc" and "on_map (client_of w c)"
    and "\<forall>d\<in>ran (m_ClientMap w). reachable_or_gone w (c_SessionID (client_of w d))"
    and "c_SectorX (client_of w c) = x" and "c_SectorY (client_of w c) = y"
    and "length (sector_clients w x y) + 1 < 2 ^ 32"
  shows "\<exists>w1 w'. MessageMarshalling e sid p w = SendSector e x y p w1 \<and>
    payload (mp_get (w_NetPacketPool w1) p) = message_reply acc (client_of w c) (of_nat (length message)) message \<and>
    SendSector e x y p w1 = Inr w' \<and> world_inv w' H J \<and> registry w' = registry w \<and>
    (\<forall>k. send_list (sess w' k) = send_list (sess w k) @
       (if \<exists>d\<in>ran (m_ClientMap w). near x y (client_of w d) \<and> live (c_SessionID (client_of w d)) k w then [p] else [])) \<and>
    (\<forall>k. s_bReserveDiscon (sess w' k) \<longleftrightarrow>
       s_bReserveDiscon (sess w k) \<or> is_discon_message (text_buffer message) \<and> live sid k w)"
proof -
  have xy: "x < dfSECTOR_X_MAX" "y < dfSECTOR_Y_MAX" using assms(6,8,9) by (simp_all add: on_map_def)
  have "c_SessionID (client_of w c) = sid" "c \<in> ran (m_ClientMap w)"
    using clients_invD(3) [OF assms(2,4)] ranI [of "m_ClientMap w", OF assms(4)] by simp_all
  then have "reachable_or_gone w sid" using assms(7) by blast
  from chat_handled [OF assms(2-5) this, of e] obtain w1 where m: "MessageMarshalling e sid p w = SendSector e x y p w1"
      "holding w1 p H J (message_reply acc (client_of w c) (of_nat (length message)) message)"
      "ready (mp_get (w_NetPacketPool w1) p)" "registry w1 = registry w"
      "length (m_SessionArray w1) = length (m_SessionArray w)"
      "\<And>s. reachable_or_gone w1 s = reachable_or_gone w s" "\<And>s k. live s k w1 = live s k w"
      "\<And>k. sess w1 k = (if is_discon_message (text_buffer message) \<and> live sid k w
          then (sess w k)\<lparr>s_bReserveDiscon := True\<rparr> else sess w k)" unfolding assms(8,9) by blast
  note reg = registry_cong [OF m(4)] and near = sector_clients_near(1) [OF assms(2) xy]
  have inv1: "clients_inv w1" using assms(2) reg(1) by simp
  have reach: "\<forall>d\<in>set (sector_clients w1 x y). reachable_or_gone w1 (c_SessionID (client_of w1 d))"
    using assms(7) unfolding reg(2,4) near m(6) by blast
  have few: "length (sector_clients w1 x y) + 1 < 2 ^ 32" using assms(10) unfolding reg(4) .
  from SendSector_ok [OF holdingD(1,2) [OF m(2)] inv1 xy m(3) reach few, of e] obtain w' where u:
      "SendSector e x y p w1 = Inr w'" "world_core w' H J" "posted p (slots_of w1 (sector_clients w1 x y)) w1 w'" by blast
  have slots: "slots_of w1 (sector_clients w1 x y) =
      {k. \<exists>d\<in>ran (m_ClientMap w). near x y (client_of w d) \<and> live (c_SessionID (client_of w d)) k w}"
    unfolding slots_of_def reg(2,4) near m(7) by blast
  have "array_full (sess w k) \<Longrightarrow> array_full (sess w' k)" for k
    using posted_fields(3) [OF u(3), of k] m(8) [of k] by (simp add: array_full_def)
  then have inv': "world_inv w' H J"
    using u(3) m(5) by (intro world_invI [OF u(2) assms(1)]) (simp_all add: posted_def)
  have sl: "send_list (sess w1 k) = send_list (sess w k)" for k by (simp add: m(8) send_list_def)
  have rs: "s_bReserveDiscon (sess w' k) \<longleftrightarrow>
      s_bReserveDiscon (sess w k) \<or> is_discon_message (text_buffer message) \<and> live sid k w" for k
    by (auto simp: posted_reserve [OF u(3)] m(8))
  have rg: "registry w' = registry w" using u(3) m(4) by (simp add: posted_def)
  show ?thesis
    by (rule exI [of _ w1], rule exI [of _ w'])
      (simp add: m(1) holdingD(4) [OF m(2)] u(1) inv' posted_send_list [OF u(3) [unfolded slots]] sl rs rg)
qed

lemma text_buffer_eq: "length message \<le> 10000 \<Longrightarrow> text_buffer message = message @ replicate (10000 - length message) 0"
  by (simp add: text_buffer_def mem_write_def)

theorem message_broadcast_witness:
  "\<exists>w w' p c. world_inv w {#p#} {} \<and> \<not> s_bReserveDiscon (sess w 2) \<and> m_ClientMap w = [sid1 \<mapsto> c] \<and>
     MessageMarshalling quiet sid1 p w = Inr w' \<and> world_inv w' {#} {} \<and> send_list (sess w' 2) = [p] \<and>
     s_bReserveDiscon (sess w' 2)"
proof -
  have xy: "(7 :: 16 word) < dfSECTOR_X_MAX" "(9 :: 16 word) < dfSECTOR_Y_MAX"
    by (simp_all add: dfSECTOR_X_MAX_def dfSECTOR_Y_MAX_def)
  obtain w0 c where w0: "world_inv w0 {#} {}" "clients_inv w0" "live sid1 2 w0" "reachable_or_gone w0 sid1"
      "m_ClientMap w0 = [sid1 \<mapsto> c]" "send_list (sess w0 2) = []" "\<not> s_bReserveDiscon (sess w0 2)"
      "client_of w0 c = Client_new\<lparr>c_SessionID := sid1, c_SectorX := 7, c_SectorY := 9\<rparr>"
    using placed_client [OF xy] by blast
  have "length (chat_request 0 [0x3d, 0]) \<le> 295" by (simp add: chat_request_def)
  from message_in_hand [OF w0(1) this] obtain pool p where m: "world_inv (w0\<lparr>w_NetPacketPool := pool\<rparr>) {#p#} {}"
      "holding (w0\<lparr>w_NetPacketPool := pool\<rparr>) p {#} {} (chat_request 0 [0x3d, 0])" by blast
  define w where "w = w0\<lparr>w_NetPacketPool := pool\<rparr>"
  note reg = pool_reg [where w = w0 and pool = pool, folded w_def]
  have s: "sess w 2 = sess w0 2" "live sid1 2 w" "reachable_or_gone w sid1"
    using w0(3,4) same_sessions_reachable [of w w0] by (simp_all add: w_def)
  have c: "m_ClientMap w sid1 = Some c" "c_AccoutNo (client_of w c) = 0" "on_map (client_of w c)"
      "c_SectorX (client_of w c) = 7" "c_SectorY (client_of w c) = 9" "c_SessionID (client_of w c) = sid1"
    using xy by (simp_all add: reg w0(5,8) Client_new_def on_map_def)
  have inv: "clients_inv w" using w0(2) by (simp add: reg)
  have ran: "ran (m_ClientMap w) = {c}" by (simp add: reg w0(5))
  have reach: "\<forall>d\<in>ran (m_ClientMap w). reachable_or_gone w (c_SessionID (client_of w d))" using s(3) c(6) by (simp add: ran)
  have "length (sector_clients w 7 9) \<le> 1"
    using distinct_card [OF sector_clients_near(2) [OF inv xy]] card_mono [of "{c}" "set (sector_clients w 7 9)"]
      sector_clients_near(1) [OF inv xy] by (auto simp: ran)
  then have few: "length (sector_clients w 7 9) + 1 < 2 ^ 32" by simp
  from message_broadcast [OF m(1) [folded w_def] inv m(2) [folded w_def] c(1-3) reach c(4,5) few, of quiet] obtain w1 w' where w':
      "MessageMarshalling quiet sid1 p w = SendSector quiet 7 9 p w1" "SendSector quiet 7 9 p w1 = Inr w'" "world_inv w' {#} {}"
      "send_list (sess w' 2) = send_list (sess w 2) @
        (if \<exists>d\<in>ran (m_ClientMap w). near 7 9 (client_of w d) \<and> live (c_SessionID (client_of w d)) 2 w then [p] else [])"
      "s_bReserveDiscon (sess w' 2) \<longleftrightarrow>
         s_bReserveDiscon (sess w 2) \<or> is_discon_message (text_buffer [0x3d, 0]) \<and> live sid1 2 w" by blast
  have "near 7 9 (client_of w c)" using c(3-5) by (simp add: near_def)
  then have "send_list (sess w' 2) = [p]" using w'(4) w0(6) s c(6) by (simp add: ran)
  moreover have "is_discon_message (text_buffer [0x3d, 0])" by (simp add: text_buffer_eq is_discon_message_def numeral_2_eq_2)
  ultimately have "world_inv w {#p#} {} \<and> \<not> s_bReserveDiscon (sess w 2) \<and> m_ClientMap w = [sid1 \<mapsto> c] \<and>
     MessageMarshalling quiet sid1 p w = Inr w' \<and> world_inv w' {#} {} \<and> send_list (sess w' 2) = [p] \<and>
     s_bReserveDiscon (sess w' 2)"
    using m(1) [folded w_def] w'(1-3,5) s(1,2) w0(5,7) reg(3) by simp
  then show ?thesis by blast
qed

lemma refuses_at_once: "holding w p H J rest \<Longrightarrow> X = refuse_message e sid p w \<Longrightarrow>
   \<exists>pool bs. X = refuse_message e sid p (w\<lparr>w_NetPacketPool := pool\<rparr>) \<and> holding (w\<lparr>w_NetPacketPool := pool\<rparr>) p H J bs"
  by (rule exI [of _ "w_NetPacketPool w"], rule exI [of _ rest]) simp

lemma first_word: "n \<le> length bs \<Longrightarrow> LENGTH('a::len) = 8 * n \<Longrightarrow> le_bytes n (of_le (take n bs) :: 'a word) @ drop n bs = bs"
  by (simp add: le_bytes_of_le)

lemma handler_refuses:
  assumes h: "holding w p H J rest" and reg: "clients_inv w" and c: "m_ClientMap w sid = Some c"
    and r: "refused type rest (client_of w c)"
  shows "\<exists>pool bs. (if type = en_PACKET_CS_CHAT_REQ_LOGIN then PacketProcess_REQ_LOGIN e sid p w
       else if type = en_PACKET_CS_CHAT_REQ_SECTOR_MOVE then PacketProcess_REQ_SECTOR_MOVE e sid p w
       else if type = en_PACKET_CS_CHAT_REQ_MESSAGE then PacketProcess_REQ_MESSAGE e sid p w
       else if type = en_PACKET_CS_CHAT_REQ_HEARTBEAT then Inl Crash
       else refuse_message e sid p w) = refuse_message e sid p (w\<lparr>w_NetPacketPool := pool\<rparr>) \<and>
     holding (w\<lparr>w_NetPacketPool := pool\<rparr>) p H J bs"
proof -
  have c': "FindClient sid w = Some c" using c by (simp add: FindClient_def)
  have size: "NetPacket_GetPayloadSize (mp_get (w_NetPacketPool w) p) = int (length rest)"
    using holding_at(2) [OF h] by (simp add: NetPacket_GetPayloadSize_def)
  have at: "client_at c (w\<lparr>w_NetPacketPool := pool\<rparr>) = Inr (client_of w c)" for pool
    using client_at_ok [of "w\<lparr>w_NetPacketPool := pool\<rparr>" sid c] reg c by (simp add: pool_reg)
  let ?a = "of_le (take 8 rest) :: 64 word"
  have account: "\<exists>pool. on_packet p NetPacket_get_int64 w = Inr (?a, w\<lparr>w_NetPacketPool := pool\<rparr>) \<and>
      holding (w\<lparr>w_NetPacketPool := pool\<rparr>) p H J (drop 8 rest)" if "8 \<le> length rest"
  proof -
    have "le_bytes 8 ?a @ drop 8 rest = rest" using that by (rule first_word) simp
    then have "holding w p H J (le_bytes 8 ?a @ drop 8 rest)" using h by simp
    from read_int64 [OF this] show ?thesis by (simp add: NetPacket_get_int64_def [abs_def])
  qed
  note at_once = refuses_at_once [OF h]
  consider "type = en_PACKET_CS_CHAT_REQ_LOGIN" | "type = en_PACKET_CS_CHAT_REQ_SECTOR_MOVE" |
    "type = en_PACKET_CS_CHAT_REQ_MESSAGE" |
    "type \<notin> {en_PACKET_CS_CHAT_REQ_LOGIN, en_PACKET_CS_CHAT_REQ_SECTOR_MOVE, en_PACKET_CS_CHAT_REQ_MESSAGE}" by blast
  then show ?thesis
  proof cases
    case 1
    then have "length rest \<noteq> 152" using r by (simp add: refused_def)
    then have "PacketProcess_REQ_LOGIN e sid p w = refuse_message e sid p w"
      by (simp add: PacketProcess_REQ_LOGIN_def c' holding_at(1) [OF h] size REQ_LOGIN_size_def)
    from at_once [OF this] show ?thesis using 1 by simp
  next
    case 2
    then have bad: "length rest \<noteq> 12 \<or> ?a \<noteq> c_AccoutNo (client_of w c)" using r by (simp add: refused_def message_types)
    show ?thesis
    proof (cases "length rest = 12")
      case False
      then have "PacketProcess_REQ_SECTOR_MOVE e sid p w = refuse_message e sid p w"
        by (simp add: PacketProcess_REQ_SECTOR_MOVE_def c' holding_at(1) [OF h] size)
      from at_once [OF this] show ?thesis using 2 by (simp add: message_types)
    next
      case True
      then obtain pool where q: "on_packet p NetPacket_get_int64 w = Inr (?a, w\<lparr>w_NetPacketPool := pool\<rparr>)"
          "holding (w\<lparr>w_NetPacketPool := pool\<rparr>) p H J (drop 8 rest)" using account by auto
      have "PacketProcess_REQ_SECTOR_MOVE e sid p w = refuse_message e sid p (w\<lparr>w_NetPacketPool := pool\<rparr>)"
        using bad True by (simp add: PacketProcess_REQ_SECTOR_MOVE_def c' holding_at(1) [OF h] size q(1) at)
      with q(2) show ?thesis using 2 by (simp add: message_types) blast
    qed
  next
    case 3
    let ?n = "of_le (take 2 (drop 8 rest)) :: 16 word"
    have bad: "length rest < 10 \<or> ?a \<noteq> c_AccoutNo (client_of w c) \<or> length rest - 10 < unat ?n"
      using r 3 by (simp add: refused_def message_types)
    show ?thesis
    proof (cases "length rest < 10")
      case True
      then have "PacketProcess_REQ_MESSAGE e sid p w = refuse_message e sid p w"
        by (simp add: PacketProcess_REQ_MESSAGE_def c' holding_at(1) [OF h] size lt_sizeof_def)
      from at_once [OF this] show ?thesis using 3 by (simp add: message_types)
    next
      case long: False
      then obtain pool where q: "on_packet p NetPacket_get_int64 w = Inr (?a, w\<lparr>w_NetPacketPool := pool\<rparr>)"
          "holding (w\<lparr>w_NetPacketPool := pool\<rparr>) p H J (drop 8 rest)" using account by auto
      have "le_bytes 2 ?n @ drop 2 (drop 8 rest) = drop 8 rest" by (rule first_word) (use long in simp_all)
      then have "holding (w\<lparr>w_NetPacketPool := pool\<rparr>) p H J (le_bytes 2 ?n @ drop 10 rest)" using q(2) by simp
      from read_WORD [OF this] obtain pool2 where q2: "on_packet p NetPacket_get_WORD (w\<lparr>w_NetPacketPool := pool\<rparr>) =
          Inr (?n, w\<lparr>w_NetPacketPool := pool2\<rparr>)" "holding (w\<lparr>w_NetPacketPool := pool2\<rparr>) p H J (drop 10 rest)"
        by (auto simp: NetPacket_get_WORD_def [abs_def])
      have size2: "NetPacket_GetPayloadSize (mp_get pool2 p) = int (length rest - 10)"
        using holding_at(2) [OF q2(2)] by (simp add: NetPacket_GetPayloadSize_def)
      have ge: "\<not> lt_sizeof (int (length rest)) (8 + 2)" using long by (simp add: lt_sizeof_def)
      show ?thesis
      proof (cases "?a = c_AccoutNo (client_of w c)")
        case False
        have "PacketProcess_REQ_MESSAGE e sid p w = refuse_message e sid p (w\<lparr>w_NetPacketPool := pool\<rparr>)"
          using False ge by (simp add: PacketProcess_REQ_MESSAGE_def c' holding_at(1) [OF h] size q(1) at)
        with q(2) show ?thesis using 3 by (simp add: message_types) blast
      next
        case True
        then have "length rest - 10 < unat ?n" using bad long by blast
        then have "int (length rest - 10) < int (unat ?n)" by (simp only: of_nat_less_iff)
        then have "int (length rest - 10) < uint ?n" by (simp only: uint_nat)
        then have "PacketProcess_REQ_MESSAGE e sid p w = refuse_message e sid p (w\<lparr>w_NetPacketPool := pool2\<rparr>)"
          using True ge holding_at(1) [OF q2(2)] by (simp add: PacketProcess_REQ_MESSAGE_def c' holding_at(1) [OF h] size q(1) at q2(1) size2)
        with q2(2) show ?thesis using 3 by (simp add: message_types) blast
      qed
    qed
  next
    case 4
    have "type \<noteq> en_PACKET_CS_CHAT_REQ_HEARTBEAT" using r 4 by (simp add: refused_def)
    then show ?thesis using 4 at_once [OF refl] by simp
  qed
qed

text \<open>
  C26. A message that is refused: one of unknown type, with a length that does not fit its type,
  or with an account number that is not the sender's.  Its packet is freed, the socket operations of
  the sender's session are cancelled, which ends the session, and neither another session nor any
  client changes.
\<close>

theorem message_refused:
  assumes "world_inv w (add_mset p H) J" and "clients_inv w" and "holding w p H J (le_bytes 2 type @ rest)"
    and "m_ClientMap w sid = Some c" and "refused type rest (client_of w c)" and "live sid i w"
  shows "\<exists>w'. MessageMarshalling e sid p w = Inr w' \<and> world_inv w' H J \<and> registry w' = registry w \<and>
    w_io w' = w_io w @ [CancelIoEx (s_Socket (sess w i))] \<and>
    (\<forall>k. sess w' k = (if k = i then (sess w i)\<lparr>s_bIOCancel := True\<rparr> else sess w k))"
proof -
  have f: "FindSession sid w = Inr i" using assms(6) by (simp add: live_def)
  from MessageMarshalling_type [OF assms(3) f, of e] obtain p0 where m: "holding (w\<lparr>w_NetPacketPool := p0\<rparr>) p H J rest"
      "MessageMarshalling e sid p w =
        (if type = en_PACKET_CS_CHAT_REQ_LOGIN then PacketProcess_REQ_LOGIN e sid p (w\<lparr>w_NetPacketPool := p0\<rparr>)
         else if type = en_PACKET_CS_CHAT_REQ_SECTOR_MOVE then PacketProcess_REQ_SECTOR_MOVE e sid p (w\<lparr>w_NetPacketPool := p0\<rparr>)
         else if type = en_PACKET_CS_CHAT_REQ_MESSAGE then PacketProcess_REQ_MESSAGE e sid p (w\<lparr>w_NetPacketPool := p0\<rparr>)
         else if type = en_PACKET_CS_CHAT_REQ_HEARTBEAT then Inl Crash
         else refuse_message e sid p (w\<lparr>w_NetPacketPool := p0\<rparr>))"
    unfolding Let_def by blast
  note reg = pool_reg [where w = w and pool = p0]
  have "clients_inv (w\<lparr>w_NetPacketPool := p0\<rparr>)" "m_ClientMap (w\<lparr>w_NetPacketPool := p0\<rparr>) sid = Some c"
      "refused type rest (client_of (w\<lparr>w_NetPacketPool := p0\<rparr>) c)" using assms(2,4,5) by (simp_all add: reg)
  from handler_refuses [OF m(1) this, of e, folded m(2)] obtain pool bs where r:
      "MessageMarshalling e sid p w = refuse_message e sid p (w\<lparr>w_NetPacketPool := pool\<rparr>)"
      "holding (w\<lparr>w_NetPacketPool := pool\<rparr>) p H J bs" by auto
  have "live sid i (w\<lparr>w_NetPacketPool := pool\<rparr>)" using assms(6) by (simp add: live_pool)
  moreover have "world_inv (w\<lparr>w_NetPacketPool := pool\<rparr>) (add_mset p H) J"
    by (rule world_inv_core [OF assms(1) holdingD(1) [OF r(2)]]) simp
  moreover have s: "sess (w\<lparr>w_NetPacketPool := pool\<rparr>) = sess w" by (simp add: fun_eq_iff)
  moreover have "w_io (w\<lparr>w_NetPacketPool := pool\<rparr>) = w_io w" by simp
  ultimately show ?thesis
    using refuse_message_ok [OF r(2), of sid i e] unfolding r(1) pool_registry s by metis
qed

theorem message_refused_witness:
  "\<exists>w w' p. world_inv w {#p#} {} \<and> payload (mp_get (w_NetPacketPool w) p) = [99, 0, 1] \<and>
     MessageMarshalling quiet sid1 p w = Inr w' \<and> world_inv w' {#} {} \<and> w_io w' = w_io w @ [CancelIoEx 77]"
proof -
  obtain w0 c where w0: "world_inv w0 {#} {}" "clients_inv w0" "live sid1 2 w0" "m_ClientMap w0 = [sid1 \<mapsto> c]"
      "s_Socket (sess w0 2) = 77" using joined_client by blast
  have b: "le_bytes 2 (99 :: 16 word) @ [1] = [99, 0, 1]" by code_simp
  have "length (le_bytes 2 (99 :: 16 word) @ [1]) \<le> 295" by simp
  from message_in_hand [OF w0(1) this] obtain pool p where m: "world_inv (w0\<lparr>w_NetPacketPool := pool\<rparr>) {#p#} {}"
      "holding (w0\<lparr>w_NetPacketPool := pool\<rparr>) p {#} {} (le_bytes 2 (99 :: 16 word) @ [1])" by blast
  define w where "w = w0\<lparr>w_NetPacketPool := pool\<rparr>"
  note reg = pool_reg [where w = w0 and pool = pool, folded w_def]
  have "clients_inv w" "m_ClientMap w sid1 = Some c" "live sid1 2 w" "sess w 2 = sess w0 2"
    using w0(2,3,4) by (simp_all add: reg) (simp_all add: w_def live_pool)
  moreover have "refused 99 [1] (client_of w c)" by (simp add: refused_def message_types)
  ultimately obtain w' where "MessageMarshalling quiet sid1 p w = Inr w'" "world_inv w' {#} {}"
      "w_io w' = w_io w @ [CancelIoEx (s_Socket (sess w 2))]"
    using message_refused [OF m(1) [folded w_def] _ m(2) [folded w_def], of sid1 c 2 quiet] by blast
  moreover have "payload (mp_get (w_NetPacketPool w) p) = [99, 0, 1]" using holdingD(4) [OF m(2)] b by (simp add: w_def)
  ultimately have "world_inv w {#p#} {} \<and> payload (mp_get (w_NetPacketPool w) p) = [99, 0, 1] \<and>
     MessageMarshalling quiet sid1 p w = Inr w' \<and> world_inv w' {#} {} \<and> w_io w' = w_io w @ [CancelIoEx 77]"
    using m(1) [folded w_def] w0(5) \<open>sess w 2 = sess w0 2\<close> by simp
  then show ?thesis by blast
qed

lemma sector_outside_crashes:
  assumes reg: "clients_inv w" and h: "holding w p H J (sector_move_request (c_AccoutNo (client_of w c)) x y)"
    and c: "m_ClientMap w sid = Some c" and f: "FindSession sid w = Inr i"
    and out: "dfSECTOR_X_MAX \<le> x \<or> dfSECTOR_Y_MAX \<le> y"
  shows "MessageMarshalling e sid p w = Inl Crash"
proof -
  let ?k = "client_of w c"
  from MessageMarshalling_type [OF h [unfolded sector_move_request_def] f, of e] obtain p0 where m:
      "holding (w\<lparr>w_NetPacketPool := p0\<rparr>) p H J (le_bytes 8 (c_AccoutNo ?k) @ le_bytes 2 x @ le_bytes 2 y)"
      "MessageMarshalling e sid p w = PacketProcess_REQ_SECTOR_MOVE e sid p (w\<lparr>w_NetPacketPool := p0\<rparr>)"
    unfolding Let_def by (auto simp: message_types)
  from read_int64 [OF m(1)] obtain p1 where r1:
      "on_packet p NetPacket_get_int64 (w\<lparr>w_NetPacketPool := p0\<rparr>) = Inr (c_AccoutNo ?k, w\<lparr>w_NetPacketPool := p1\<rparr>)"
      "holding (w\<lparr>w_NetPacketPool := p1\<rparr>) p H J (le_bytes 2 x @ le_bytes 2 y)"
    by (auto simp: NetPacket_get_int64_def [abs_def])
  define w1 where "w1 = w\<lparr>w_NetPacketPool := p1\<rparr>"
  have reg1: "clients_inv w1" "m_ClientMap w1 = m_ClientMap w" "client_of w1 c = ?k"
    using reg by (simp_all add: w1_def pool_reg)
  from taken_off [OF reg1(1), of sid c] obtain S where S: "(if c_SectorX ?k \<noteq> 0xffff \<and> c_SectorY ?k \<noteq> 0xffff
       then sector_erase (c_SectorY ?k) (c_SectorX ?k) c w1 else Inr w1) = Inr (w1\<lparr>m_Sector := S\<rparr>)"
    unfolding reg1(2,3) using c by blast
  have "holding (w1\<lparr>m_Sector := S\<rparr>) p H J (le_bytes 2 x @ le_bytes 2 y)"
    using r1(2) holding_cong [of "w1\<lparr>m_Sector := S\<rparr>" w1] by (simp add: w1_def)
  from read_WORD [OF this] obtain p2 where r2:
      "on_packet p NetPacket_get_WORD (w1\<lparr>m_Sector := S\<rparr>) = Inr (x, w1\<lparr>m_Sector := S, w_NetPacketPool := p2\<rparr>)"
      "holding (w1\<lparr>m_Sector := S, w_NetPacketPool := p2\<rparr>) p H J (le_bytes 2 y @ [])"
    by (auto simp: NetPacket_get_WORD_def [abs_def])
  from read_WORD [OF r2(2)] obtain p3 where r3:
      "on_packet p NetPacket_get_WORD (w1\<lparr>m_Sector := S, w_NetPacketPool := p2\<rparr>) = Inr (y, w1\<lparr>m_Sector := S, w_NetPacketPool := p3\<rparr>)"
    by (auto simp: NetPacket_get_WORD_def [abs_def])
  have at: "client_at c w1 = Inr ?k" using client_at_ok [OF reg1(1), of sid c] reg1(2,3) c by simp
  have size: "NetPacket_GetPayloadSize (mp_get p0 p) = 12"
    using holding_at(2) [OF m(1)] by (simp add: NetPacket_GetPayloadSize_def)
  have crash: "crash_if (x > dfSECTOR_X_MAX - 1 \<or> y > dfSECTOR_Y_MAX - 1) = Inl Crash"
    using outside_map [of "Client_new\<lparr>c_SectorX := x, c_SectorY := y\<rparr>"] out by (auto simp: on_map_def crash_if_def not_le)
  show ?thesis
    using c holding_at(1) [OF m(1)] unfolding m(2)
    by (simp add: PacketProcess_REQ_SECTOR_MOVE_def FindClient_def size r1(1) at S r2(1) r3 crash Let_def flip: w1_def)
qed

lemma unplaced_chat_crashes:
  assumes "clients_inv w" and "holding w p H J (chat_request (c_AccoutNo (client_of w c)) message)"
    and "m_ClientMap w sid = Some c" and "reachable_or_gone w sid" and "unplaced (client_of w c)"
  shows "MessageMarshalling e sid p w = Inl Crash"
proof -
  from chat_handled [OF assms(1-3) refl assms(4), of e] obtain w1 where
      "MessageMarshalling e sid p w = SendSector e (c_SectorX (client_of w c)) (c_SectorY (client_of w c)) p w1" by blast
  moreover have "crash_if (c_SectorY (client_of w c) > dfSECTOR_Y_MAX - 1) = Inl Crash"
    using assms(5) by (simp add: unplaced_def crash_if_def dfSECTOR_Y_MAX_def)
  ultimately show ?thesis by (simp add: SendSector_def)
qed

text \<open>
  C27. The messages that end the server, whoever sends them: one of less than two bytes, a
  heartbeat, which the protocol asks every client for, a sector move to a place off the map, and a
  chat message of a client that has not moved to a sector yet.
\<close>

theorem message_crashes:
  assumes "clients_inv w" and "holding w p H J bs" and "m_ClientMap w sid = Some c" and "reachable_or_gone w sid"
    and "length bs < 2 \<or> take 2 bs = le_bytes 2 en_PACKET_CS_CHAT_REQ_HEARTBEAT \<or>
      (\<exists>x y. bs = sector_move_request (c_AccoutNo (client_of w c)) x y \<and> (dfSECTOR_X_MAX \<le> x \<or> dfSECTOR_Y_MAX \<le> y)) \<or>
      (\<exists>message. bs = chat_request (c_AccoutNo (client_of w c)) message \<and> unplaced (client_of w c))"
  shows "MessageMarshalling e sid p w = Inl Crash"
proof -
  obtain i where f: "FindSession sid w = Inr i" using reachable_FindSession [OF assms(4)] by blast
  have beat: "MessageMarshalling e sid p w = Inl Crash" if "take 2 bs = le_bytes 2 en_PACKET_CS_CHAT_REQ_HEARTBEAT"
  proof -
    have "holding w p H J (le_bytes 2 en_PACKET_CS_CHAT_REQ_HEARTBEAT @ drop 2 bs)"
      using assms(2) append_take_drop_id [of 2 bs] unfolding that by simp
    from MessageMarshalling_type [OF this f, of e] show ?thesis unfolding Let_def by (auto simp: message_types)
  qed
  from assms(5) show ?thesis
    using short_message_crashes [OF assms(2)] beat sector_outside_crashes [OF assms(1) _ assms(3) f]
      unplaced_chat_crashes [OF assms(1) _ assms(3,4)] assms(2) by blast
qed

theorem message_crashes_witness:
  "\<exists>w c. unplaced (client_of w c) \<and> (\<forall>bs\<in>{[], [7, 0], sector_move_request 0 50 0, chat_request 0 [72, 0]}.
     \<exists>pool p. holding (w\<lparr>w_NetPacketPool := pool\<rparr>) p {#} {} bs \<and>
       MessageMarshalling quiet sid1 p (w\<lparr>w_NetPacketPool := pool\<rparr>) = Inl Crash)"
proof -
  obtain w c where w: "world_inv w {#} {}" "clients_inv w" "reachable_or_gone w sid1" "m_ClientMap w = [sid1 \<mapsto> c]"
      "client_of w c = Client_new\<lparr>c_SessionID := sid1\<rparr>" using joined_client by blast
  have un: "unplaced (client_of w c)" "c_AccoutNo (client_of w c) = 0" by (simp_all add: w(5) unplaced_def Client_new_def)
  have "\<exists>pool p. holding (w\<lparr>w_NetPacketPool := pool\<rparr>) p {#} {} bs \<and>
      MessageMarshalling quiet sid1 p (w\<lparr>w_NetPacketPool := pool\<rparr>) = Inl Crash"
    if len: "length bs \<le> 295" and bad: "length bs < 2 \<or> take 2 bs = le_bytes 2 en_PACKET_CS_CHAT_REQ_HEARTBEAT \<or>
      (\<exists>x y. bs = sector_move_request 0 x y \<and> (dfSECTOR_X_MAX \<le> x \<or> dfSECTOR_Y_MAX \<le> y)) \<or>
      (\<exists>message. bs = chat_request 0 message \<and> unplaced (client_of w c))" for bs
  proof -
    from message_in_hand [OF w(1) len] obtain pool p where h: "holding (w\<lparr>w_NetPacketPool := pool\<rparr>) p {#} {} bs" by blast
    note reg = pool_reg [where w = w and pool = pool]
    have "clients_inv (w\<lparr>w_NetPacketPool := pool\<rparr>)" "m_ClientMap (w\<lparr>w_NetPacketPool := pool\<rparr>) sid1 = Some c"
      "reachable_or_gone (w\<lparr>w_NetPacketPool := pool\<rparr>) sid1" using w(2-4) by (simp_all add: reg reachable_pool)
    from message_crashes [OF this(1) h this(2,3), of quiet] bad un show ?thesis
      unfolding reg using h by metis
  qed
  note bad = this
  have beat: "le_bytes 2 en_PACKET_CS_CHAT_REQ_HEARTBEAT = [7, 0]" by code_simp
  have "dfSECTOR_X_MAX \<le> 50" by (simp add: dfSECTOR_X_MAX_def)
  then show ?thesis
    using un bad [of "[]"] bad [of "[7, 0]"] bad [of "sector_move_request 0 50 0"] bad [of "chat_request 0 [72, 0]"] beat
    by (intro exI [of _ w] exI [of _ c]) (simp add: sector_move_request_def chat_request_def, blast)
qed

end
