(* ===== verification/LoginMessage.thy ===== *)
theory LoginMessage
  imports Conversations
begin

text \<open>
  A login message that is accepted.  Its handler gives the packet of the request back to the pool
  and then builds the first answer in it and sends it: the packet that ends up in the send queue is
  one that the pool takes for free.
\<close>

section \<open>A packet behind the pool's back\<close>

text \<open>
  The pool's memory is never given back, so an object that is not handed out can still be read
  and written through an old pointer; the pool's own data does not change by that.
\<close>

lemma mp_core_write:
  assumes core: "mp_core s U V" and p: "mp_object s (c, i) = Some obj"
  shows "mp_core (mp_put (c, i) d s) U V"
proof -
  let ?pool = "m_ChunkMemoryPool s" and ?ck = "fl_get (m_ChunkMemoryPool s) c"
  obtain arr where arr: "c < length (fl_blocks ?pool)" "m_Chunk ?ck = Some arr" "i < length arr"
    using p by (auto simp: mp_object_def split: if_splits option.splits)
  let ?ck' = "?ck\<lparr>m_Chunk := Some (arr[i := (arr ! i)\<lparr>ca_Data := d\<rparr>])\<rparr>"
  have eq: "mp_put (c, i) d s = s\<lparr>m_ChunkMemoryPool := fl_put c ?ck' ?pool\<rparr>"
    using arr by (simp add: mp_put_def)
  have wf: "chunk_wf n b c ?ck'" if "chunk_wf n b c ?ck" for n b
    using that arr by (auto simp: chunk_wf_def nth_update_if)
  have used: "chunk_used n U c ?ck'" if "chunk_used n U c ?ck" for n
    using that by (simp add: chunk_used_def)
  show ?thesis
    using core wf used unfolding eq mp_core_def by (auto simp: fl_get_put)
qed

definition stray :: "NetPacketPool \<Rightarrow> objptr set \<Rightarrow> objptr \<Rightarrow> NetPacket \<Rightarrow> bool" where
  "stray pool U p d \<longleftrightarrow> mp_inv pool U \<and> p \<notin> U \<and> pool_data pool p = Some d"

lemma stray_get: "stray pool U p d \<Longrightarrow> mp_get pool p = d"
  by (simp add: stray_def pool_data_get)

lemma stray_put:
  assumes s: "stray pool U p d"
  shows "stray (mp_put p d' pool) U p d'" and "q \<in> U \<Longrightarrow> mp_get (mp_put p d' pool) q = mp_get pool q"
proof -
  obtain c i where pc: "p = (c, i)" by (cases p)
  obtain V where V: "mp_core pool U V" "mp_tls UNIV pool V" using s by (auto simp: stray_def mp_inv_def)
  obtain obj where obj: "mp_object pool (c, i) = Some obj" using s by (auto simp: stray_def pool_data_def pc)
  have pd: "pool_data pool p = Some d" using s by (simp add: stray_def)
  note put = pool_data_put [OF pd, where d = d']
  have tls: "mp_tls UNIV (mp_put p d' pool) V"
    unfolding mp_put_def Let_def using V(2) by (rule mp_tls_put) simp
  then have inv: "mp_inv (mp_put p d' pool) U"
    using mp_core_write [OF V(1) obj, of d'] by (auto simp: mp_inv_def pc)
  then show "stray (mp_put p d' pool) U p d'" using s put by (simp add: stray_def)
  show "q \<in> U \<Longrightarrow> mp_get (mp_put p d' pool) q = mp_get pool q"
  proof -
    assume q: "q \<in> U"
    then have "q \<noteq> p" using s by (auto simp: stray_def)
    moreover have "pool_data pool q = Some (mp_get pool q)" by (rule pool_data_used [OF _ q]) (use s in \<open>simp add: stray_def\<close>)
    ultimately have "pool_data (mp_put p d' pool) q = Some (mp_get pool q)" by (simp add: put)
    then show ?thesis by (rule pool_data_get)
  qed
qed

lemma stray_at: "stray (w_NetPacketPool w) U p d \<Longrightarrow> packet_at p w = Inr d"
  using stray_get [of "w_NetPacketPool w" U p d] by (auto simp: stray_def packet_at_def pool_data_def)

lemma stray_on:
  assumes "stray (w_NetPacketPool w) U p d" and "f d = Inr (x, d')"
  shows "on_packet p f w = Inr (x, w\<lparr>w_NetPacketPool := mp_put p d' (w_NetPacketPool w)\<rparr>)"
  using stray_at [OF assms(1)] assms(2) by (simp add: on_packet_def)

text \<open>Writes to the stray packet, one after the other.\<close>

definition scribbled :: "objptr set \<Rightarrow> NetPacketPool \<Rightarrow> NetPacketPool \<Rightarrow> bool" where
  "scribbled U pool pool' \<longleftrightarrow> (\<forall>q\<in>U. mp_get pool' q = mp_get pool q)"

lemma scribbled_trans: "scribbled U a b \<Longrightarrow> scribbled U b c \<Longrightarrow> scribbled U a c"
  by (simp add: scribbled_def)

lemma stray_step:
  assumes "stray (w_NetPacketPool w) U p d" and "f d = Inr (x, d')"
  shows "\<exists>pool. on_packet p f w = Inr (x, w\<lparr>w_NetPacketPool := pool\<rparr>) \<and> stray pool U p d' \<and>
    scribbled U (w_NetPacketPool w) pool"
  using stray_on [where f = f, OF assms] stray_put(1) [OF assms(1), where d' = d'] stray_put(2) [OF assms(1), where d' = d'] by (auto simp: scribbled_def)

section \<open>Sending it\<close>

lemma SendPacket_stray:
  assumes s: "stray (w_NetPacketPool w) U p d" and lv: "live sid i w" and d: "ready d"
    and sq: "queue_inv (s_SendQ (sess w i))" and room: "queue_room (s_SendQ (sess w i))"
  shows "\<exists>pool q d'. SendPacket e sid p w =
      Inr (True, upd_sess i (\<lambda>s. s\<lparr>s_SendQ := q\<rparr>) (w\<lparr>w_NetPacketPool := pool\<rparr>)) \<and>
    queue_list q = queue_list (s_SendQ (sess w i)) @ [Some p] \<and> stray pool U p d' \<and>
    queued_ok d' \<and> m_RefCount d' = m_RefCount d \<and> HeaderSettingAndEncoding (e_rand e) d = Inr (True, d') \<and>
    scribbled U (w_NetPacketPool w) pool"
proof -
  have i: "i < length (m_SessionArray w)" using lv by (rule live_less)
  let ?w1 = "IO_Increment i w"
  have w1: "w_NetPacketPool ?w1 = w_NetPacketPool w" by (simp add: IO_Increment_def)
  from encode_ready [OF d, of "e_rand e"] obtain d' where d':
      "HeaderSettingAndEncoding (e_rand e) d = Inr (True, d')" "queued_ok d'" "m_RefCount d' = m_RefCount d" by blast
  from stray_step [of ?w1, unfolded w1, OF s, where f = "HeaderSettingAndEncoding (e_rand e)", OF d'(1)] obtain pool where p1:
      "on_packet p (HeaderSettingAndEncoding (e_rand e)) ?w1 = Inr (True, ?w1\<lparr>w_NetPacketPool := pool\<rparr>)"
      "stray pool U p d'" "scribbled U (w_NetPacketPool w) pool" by blast
  let ?w2 = "?w1\<lparr>w_NetPacketPool := pool\<rparr>"
  have q2: "s_SendQ (sess ?w2 i) = s_SendQ (sess w i)" "s_SendQ (sess ?w1 i) = s_SendQ (sess w i)"
    using i by (simp_all add: IO_Increment_def sess_upd)
  from queue_enq [OF sq, of None "Some p"] room obtain q where q:
      "LockFreeQ_EnQ spin_fuel None (Some p) (s_SendQ (sess w i)) = Inr (True, q)"
      "queue_list q = queue_list (s_SendQ (sess w i)) @ [Some p]" by (auto simp: queue_room_def)
  let ?w3 = "upd_sess i (\<lambda>s. s\<lparr>s_SendQ := q\<rparr>) ?w2"
  have "s_IOCount (sess ?w3 i) \<noteq> 1" using lv i by (simp add: IO_Increment_def sess_upd live_def count_ok_def)
  then have "IO_Decrement e i ?w3 = Inr (upd_sess i (\<lambda>s. s\<lparr>s_IOCount := s_IOCount s - 1\<rparr>) ?w3)"
    using i by (intro IO_Decrement_held) (simp_all add: IO_Increment_def)
  also have "upd_sess i (\<lambda>s. s\<lparr>s_IOCount := s_IOCount s - 1\<rparr>) ?w3 = upd_sess i (\<lambda>s. s\<lparr>s_SendQ := q\<rparr>) (w\<lparr>w_NetPacketPool := pool\<rparr>)"
    using i by (simp add: IO_Increment_def upd_sess_def sess_def)
  finally have dec: "IO_Decrement e i ?w3 = Inr (upd_sess i (\<lambda>s. s\<lparr>s_SendQ := q\<rparr>) (w\<lparr>w_NetPacketPool := pool\<rparr>))" .
  have "packet_at p ?w2 = Inr d'" by (rule stray_at [where U = U]) (simp add: p1(2))
  then have "SendPacket e sid p w = Inr (True, upd_sess i (\<lambda>s. s\<lparr>s_SendQ := q\<rparr>) (w\<lparr>w_NetPacketPool := pool\<rparr>))"
    using p1(1) q(1) d'(2) dec
    by (simp add: SendPacket_def live_acquire [OF lv] q2 NetPacket_GetPayloadSize_def queued_ok_def crash_if_def)
  then show ?thesis using q(2) p1(2,3) d' by blast
qed


lemma SendUnicast_stray:
  assumes s: "stray (w_NetPacketPool w) U p d" and lv: "live sid i w" and d: "ready d" "m_RefCount d = 1"
    and sq: "queue_inv (s_SendQ (sess w i))" and room: "queue_room (s_SendQ (sess w i))"
  shows "\<exists>pool q d'. SendUnicast e sid p w =
      Inr (upd_sess i (\<lambda>s. s\<lparr>s_SendQ := q\<rparr>) (emit (PostQueued sid) (w\<lparr>w_NetPacketPool := pool\<rparr>))) \<and>
    queue_list q = queue_list (s_SendQ (sess w i)) @ [Some p] \<and> stray pool U p d' \<and>
    queued_ok d' \<and> m_RefCount d' = 1 \<and> scribbled U (w_NetPacketPool w) pool"
proof -
  let ?d1 = "d\<lparr>m_RefCount := 2\<rparr>"
  have inc: "(\<lambda>d. Inr (NetPacket_IncrementRefCount d)) d = Inr (2, ?d1)"
    using d(2) by (simp add: NetPacket_IncrementRefCount_def)
  from stray_step [where f = "\<lambda>d. Inr (NetPacket_IncrementRefCount d)", OF s inc] obtain p1 where 1:
      "on_packet p (\<lambda>d. Inr (NetPacket_IncrementRefCount d)) w = Inr (2, w\<lparr>w_NetPacketPool := p1\<rparr>)"
      "stray p1 U p ?d1" "scribbled U (w_NetPacketPool w) p1" by blast
  let ?w1 = "w\<lparr>w_NetPacketPool := p1\<rparr>"
  have s1: "stray (w_NetPacketPool ?w1) U p ?d1" using 1(2) by simp
  have d1: "ready ?d1" by (rule ready_same [OF _ d(1)]) simp
  have "live sid i ?w1" "queue_inv (s_SendQ (sess ?w1 i))" "queue_room (s_SendQ (sess ?w1 i))"
    using lv sq room by (simp_all add: live_pool)
  from SendPacket_stray [OF s1 this(1) d1 this(2,3), of e] obtain p2 q d2 where 2:
      "SendPacket e sid p ?w1 = Inr (True, upd_sess i (\<lambda>s. s\<lparr>s_SendQ := q\<rparr>) (w\<lparr>w_NetPacketPool := p2\<rparr>))"
      "queue_list q = queue_list (s_SendQ (sess w i)) @ [Some p]" "stray p2 U p d2" "queued_ok d2" "m_RefCount d2 = 2"
      "scribbled U p1 p2" by auto
  let ?w2 = "emit (PostQueued sid) (upd_sess i (\<lambda>s. s\<lparr>s_SendQ := q\<rparr>) (w\<lparr>w_NetPacketPool := p2\<rparr>))"
  have s2: "stray (w_NetPacketPool ?w2) U p d2" using 2(3) by simp
  have dec: "(\<lambda>d. Inr (NetPacket_DecrementRefCount d)) d2 = Inr (1, d2\<lparr>m_RefCount := 1\<rparr>)"
    using 2(5) by (simp add: NetPacket_DecrementRefCount_def)
  from stray_step [where f = "\<lambda>d. Inr (NetPacket_DecrementRefCount d)", OF s2 dec] obtain p3 where 3:
      "on_packet p (\<lambda>d. Inr (NetPacket_DecrementRefCount d)) ?w2 = Inr (1, ?w2\<lparr>w_NetPacketPool := p3\<rparr>)"
      "stray p3 U p (d2\<lparr>m_RefCount := 1\<rparr>)" "scribbled U p2 p3" by auto
  have w': "?w2\<lparr>w_NetPacketPool := p3\<rparr> = upd_sess i (\<lambda>s. s\<lparr>s_SendQ := q\<rparr>) (emit (PostQueued sid) (w\<lparr>w_NetPacketPool := p3\<rparr>))"
    by (simp add: upd_sess_def sess_def emit_def)
  have "SendUnicast e sid p w = Inr (?w2\<lparr>w_NetPacketPool := p3\<rparr>)"
    using 1(1) 2(1) 3(1) by (simp add: SendUnicast_def packet_IncRef_def packet_DecRef_def)
  moreover have "queued_ok (d2\<lparr>m_RefCount := 1\<rparr>)" using 2(4) by (simp add: queued_ok_def same_packet_inv(1) [of d2 "d2\<lparr>m_RefCount := 1\<rparr>"])
  ultimately show ?thesis
    unfolding w' using 2(2) 3(2) scribbled_trans [OF 1(3) scribbled_trans [OF 2(6) 3(3)]]
    by (intro exI [of _ p3] exI [of _ q] exI [of _ "d2\<lparr>m_RefCount := 1\<rparr>"]) simp
qed

section \<open>The handler\<close>

text \<open>A packet just given back is as the pool keeps it: cleared, and still in memory.\<close>

lemma freed_stray:
  assumes inv: "packet_pool_inv s U" and p: "p \<in> U"
  shows "\<exists>s' d. NetPacket_Free p s = Inr s' \<and> packet_pool_inv s' (U - {p}) \<and> stray s' (U - {p}) p d \<and> fresh_packet d \<and>
    (\<forall>q\<in>U - {p}. mp_get s' q = mp_get s q)"
proof -
  from NetPacket_Free_ok [OF inv p] obtain s' where f: "NetPacket_Free p s = Inr s'" "packet_pool_inv s' (U - {p})"
      "\<forall>q\<in>U - {p}. mp_get s' q = mp_get s q" by blast
  have mp: "mp_inv s U" "mp_inv s' (U - {p})" using inv f(2) by (simp_all add: packet_pool_inv_def)
  let ?s1 = "mp_put p (NetPacket_Clear (mp_get s p)) s"
  have pd: "pool_data s p = Some (mp_get s p)" by (rule pool_data_used [OF mp(1) p])
  then have "MemoryPool_Free id p ?s1 = Inr s'"
    using f(1) by (auto simp: NetPacket_Free_def pool_data_def)
  moreover have "\<not> fl_bPlacementNew (m_ChunkMemoryPool ?s1)"
    using mp_put_ok(1) [OF mp(1) p, where d = "NetPacket_Clear (mp_get s p)"] by (auto simp: mp_inv_def mp_core_def)
  ultimately have "pool_data s' p = pool_data ?s1 p" by (rule MemoryPool_Free_data(1))
  then have d: "pool_data s' p = Some (NetPacket_Clear (mp_get s p))" by (simp add: pool_data_put [OF pd])
  then have "fresh_packet (NetPacket_Clear (mp_get s p))" using f(2) unfolding packet_pool_inv_def by (metis Diff_iff insertI1)
  then show ?thesis using f d mp(2) by (auto simp: stray_def)
qed

definition login_request :: "64 word \<Rightarrow> byte list \<Rightarrow> byte list \<Rightarrow> byte list \<Rightarrow> byte list" where
  "login_request acc cid nick key = le_bytes 2 en_PACKET_CS_CHAT_REQ_LOGIN @ le_bytes 8 acc @ cid @ nick @ key"

text \<open>What the client says of itself is entered in the registry.\<close>

definition logged_in :: "64 word \<Rightarrow> byte list \<Rightarrow> byte list \<Rightarrow> byte list \<Rightarrow> Client \<Rightarrow> Client" where
  "logged_in acc cid nick key k =
     k\<lparr>c_AccoutNo := acc, c_ID := cid, c_NickName := nick, c_SessionKey := key\<rparr>"

lemma logged_in_registry:
  fixes acc :: "64 word"
  assumes inv: "clients_inv w" and c: "m_ClientMap w sid = Some c"
    and len: "length cid = 40" "length nick = 40" "length key = 64"
  defines "w' \<equiv> upd_client c (logged_in acc cid nick key) w"
  shows "clients_inv w'" "client_of w' c = logged_in acc cid nick key (client_of w c)"
    "\<And>d. d \<in> ran (m_ClientMap w) \<Longrightarrow> d \<noteq> c \<Longrightarrow> client_of w' d = client_of w d"
proof -
  have ran: "c \<in> ran (m_ClientMap w)" using c by (rule ranI)
  note u = upd_client_ok [OF clients_invD(1) [OF inv] ran, where f = "logged_in acc cid nick key", folded w'_def]
  show c': "client_of w' c = logged_in acc cid nick key (client_of w c)" by (rule u(2))
  show d': "client_of w' d = client_of w d" if "d \<in> ran (m_ClientMap w)" "d \<noteq> c" for d
    using u(3) [OF that] .
  have sec: "c_SectorX (client_of w' d) = c_SectorX (client_of w d)" "c_SectorY (client_of w' d) = c_SectorY (client_of w d)"
    "c_SessionID (client_of w' d) = c_SessionID (client_of w d)"
    if "d \<in> ran (m_ClientMap w)" for d
    using that c' d' by (cases "d = c"; simp add: logged_in_def)+
  then have "standing w' y x = standing w y x" for y x
    unfolding standing_def u(5) on_map_def by auto
  moreover have "client_ok (client_of w' d)" if "m_ClientMap w t = Some d" for t d
    using clients_invD(4) [OF inv that] c' d' [OF ranI [of "m_ClientMap w", OF that]] len
    by (cases "d = c") (auto simp: client_ok_def logged_in_def unplaced_def on_map_def)
  moreover have "c_SessionID (client_of w' d) = t" if "m_ClientMap w t = Some d" for t d
    using clients_invD(3) [OF inv that] sec(3) [OF ranI [of "m_ClientMap w", OF that]] by simp
  ultimately show "clients_inv w'" using inv u(1,4,5,6) by (simp add: clients_inv_def)
qed


lemma mem_write_all: "length bs = length dest \<Longrightarrow> mem_write dest 0 bs = bs"
  by (simp add: mem_write_def)

text \<open>The fields of the request, read one after the other.\<close>

lemma login_fields_read:
  assumes h: "holding w p H J (le_bytes 8 acc @ cid @ nick @ key)"
    and len: "length cid = 40" "length nick = 40" "length key = 64"
    and k: "length (c_ID k) = 40" "length (c_NickName k) = 40" "length (c_SessionKey k) = 64"
  shows "\<exists>p1 p2 p3 p4. on_packet p NetPacket_get_int64 w = Inr (acc, w\<lparr>w_NetPacketPool := p1\<rparr>) \<and>
    packet_GetData p (c_ID k) (2 * 20) (w\<lparr>w_NetPacketPool := p1\<rparr>) = Inr (cid, w\<lparr>w_NetPacketPool := p2\<rparr>) \<and>
    packet_GetData p (c_NickName k) (2 * 20) (w\<lparr>w_NetPacketPool := p2\<rparr>) = Inr (nick, w\<lparr>w_NetPacketPool := p3\<rparr>) \<and>
    packet_GetData p (c_SessionKey k) 64 (w\<lparr>w_NetPacketPool := p3\<rparr>) = Inr (key, w\<lparr>w_NetPacketPool := p4\<rparr>) \<and>
    holding (w\<lparr>w_NetPacketPool := p4\<rparr>) p H J []"
proof -
  from read_int64 [OF h] obtain p1 where 1: "on_packet p NetPacket_get_int64 w = Inr (acc, w\<lparr>w_NetPacketPool := p1\<rparr>)"
      "holding (w\<lparr>w_NetPacketPool := p1\<rparr>) p H J (cid @ nick @ key)"
    by (auto simp: NetPacket_get_int64_def [abs_def])
  from read_data [OF 1(2), of "c_ID k"] len(1) k(1) obtain p2 where 2:
      "packet_GetData p (c_ID k) 40 (w\<lparr>w_NetPacketPool := p1\<rparr>) = Inr (cid, w\<lparr>w_NetPacketPool := p2\<rparr>)"
      "holding (w\<lparr>w_NetPacketPool := p2\<rparr>) p H J (nick @ key)" by (auto simp: mem_write_all)
  from read_data [OF 2(2), of "c_NickName k"] len(2) k(2) obtain p3 where 3:
      "packet_GetData p (c_NickName k) 40 (w\<lparr>w_NetPacketPool := p2\<rparr>) = Inr (nick, w\<lparr>w_NetPacketPool := p3\<rparr>)"
      "holding (w\<lparr>w_NetPacketPool := p3\<rparr>) p H J (key @ [])" by (auto simp: mem_write_all)
  from read_data [OF 3(2), of "c_SessionKey k"] len(3) k(3) obtain p4 where 4:
      "packet_GetData p (c_SessionKey k) 64 (w\<lparr>w_NetPacketPool := p3\<rparr>) = Inr (key, w\<lparr>w_NetPacketPool := p4\<rparr>)"
      "holding (w\<lparr>w_NetPacketPool := p4\<rparr>) p H J []" by (auto simp: mem_write_all)
  show ?thesis using 1 2 3 4 by (intro exI conjI) (assumption | simp)+
qed

text \<open>The packet cleared, its count brought to zero, and the packet freed.\<close>

lemma give_back:
  assumes h: "holding w p H J []"
  shows "\<exists>p1 p2 p3 d. build_packet p (\<lambda>d. Inr (NetPacket_Clear d)) w = Inr (w\<lparr>w_NetPacketPool := p1\<rparr>) \<and>
    on_packet p (\<lambda>d. Inr (NetPacket_DecrementRefCount d)) (w\<lparr>w_NetPacketPool := p1\<rparr>) = Inr (0, w\<lparr>w_NetPacketPool := p2\<rparr>) \<and>
    packet_Free p (w\<lparr>w_NetPacketPool := p2\<rparr>) = Inr (w\<lparr>w_NetPacketPool := p3\<rparr>) \<and>
    stray p3 (set_mset (refs w + H)) p d \<and> fresh_packet d"
proof -
  let ?U = "set_mset (refs w + H)"
  from clear_held [OF h] obtain p1 where 1: "build_packet p (\<lambda>d. Inr (NetPacket_Clear d)) w = Inr (w\<lparr>w_NetPacketPool := p1\<rparr>)"
      "holding (w\<lparr>w_NetPacketPool := p1\<rparr>) p H J []" by blast
  let ?w1 = "w\<lparr>w_NetPacketPool := p1\<rparr>" and ?d1 = "(mp_get p1 p)\<lparr>m_RefCount := 0\<rparr>"
  have "packets_inv p1 (add_mset p (refs w + H))" using world_coreD(1) [OF holdingD(1) [OF 1(2)]] by simp
  then have inv: "packet_pool_inv p1 (insert p ?U)" and shape: "packet_shape (mp_get p1 p)"
    using packet_shape_get [of p1 "add_mset p (refs w + H)" p] by (simp_all add: packets_inv_def)
  have at: "packet_at p ?w1 = Inr (mp_get p1 p)" "m_RefCount (mp_get p1 p) = 1" using holding_at(1,3) [OF 1(2)] by simp_all
  let ?p2 = "mp_put p ?d1 p1"
  have 2: "on_packet p (\<lambda>d. Inr (NetPacket_DecrementRefCount d)) ?w1 = Inr (0, w\<lparr>w_NetPacketPool := ?p2\<rparr>)"
    using at by (simp add: on_packet_def NetPacket_DecrementRefCount_def)
  have "packet_shape ?d1" using shape by (simp add: packet_shape_def)
  from packet_pool_put(1) [OF inv insertI1 this] have "packet_pool_inv ?p2 (insert p ?U)" .
  from freed_stray [OF this insertI1] obtain p3 d where 3: "NetPacket_Free p ?p2 = Inr p3"
      "stray p3 (insert p ?U - {p}) p d" "fresh_packet d" by blast
  have "insert p ?U - {p} = ?U" using holdingD(2) [OF h] by auto
  then have "stray p3 ?U p d" using 3(2) by simp
  moreover have "packet_Free p (w\<lparr>w_NetPacketPool := ?p2\<rparr>) = Inr (w\<lparr>w_NetPacketPool := p3\<rparr>)"
    using 3(1) by (simp add: packet_Free_def)
  ultimately show ?thesis using 1(1) 2 3(3) by blast
qed


lemma REQ_LOGIN_handled:
  assumes h: "holding w p H J (le_bytes 8 acc @ cid @ nick @ key)" and reg: "clients_inv w" and c: "m_ClientMap w sid = Some c"
    and len: "length cid = 40" "length nick = 40" "length key = 64" and f: "FindSession sid w = Inr i"
  defines "job \<equiv> QueueUserAPC (FunctionAddress ''RedisAPCThread'') \<lparr>r_SessionID = sid, r_AccoutAno = acc, r_SessionKey = key\<rparr>"
  shows "\<exists>pool d. let w1 = upd_sess i (\<lambda>s. s\<lparr>s_AccountNo := acc\<rparr>)
      (emit job ((upd_client c (logged_in acc cid nick key) w)\<lparr>w_NetPacketPool := pool\<rparr>)) in
    PacketProcess_REQ_LOGIN e sid p w = SendUnicast e sid p w1 \<and> stray pool (set_mset (refs w + H)) p d \<and>
    ready d \<and> m_RefCount d = 1 \<and>
    payload d = le_bytes 2 en_PACKET_CS_CHAT_RES_LOGIN @ le_bytes 1 (1 :: 8 word) @ le_bytes 8 acc"
proof -
  let ?k = "client_of w c" and ?f = "logged_in acc cid nick key"
  let ?reply = "MakePacket_RES_LOGIN en_PACKET_CS_CHAT_RES_LOGIN 1 acc"
  let ?bytes = "le_bytes 2 en_PACKET_CS_CHAT_RES_LOGIN @ le_bytes 1 (1 :: 8 word) @ le_bytes 8 acc"
  have size: "NetPacket_GetPayloadSize (mp_get (w_NetPacketPool w) p) = REQ_LOGIN_size"
    using holding_at(2) [OF h] len by (simp add: NetPacket_GetPayloadSize_def REQ_LOGIN_size_def)
  have "client_ok ?k" by (rule clients_invD(4) [OF reg c])
  then have "length (c_ID ?k) = 40" "length (c_NickName ?k) = 40" "length (c_SessionKey ?k) = 64"
    by (simp_all add: client_ok_def)
  from login_fields_read [OF h len this] obtain p1 p2 p3 p4 where r:
      "on_packet p NetPacket_get_int64 w = Inr (acc, w\<lparr>w_NetPacketPool := p1\<rparr>)"
      "packet_GetData p (c_ID ?k) (2 * 20) (w\<lparr>w_NetPacketPool := p1\<rparr>) = Inr (cid, w\<lparr>w_NetPacketPool := p2\<rparr>)"
      "packet_GetData p (c_NickName ?k) (2 * 20) (w\<lparr>w_NetPacketPool := p2\<rparr>) = Inr (nick, w\<lparr>w_NetPacketPool := p3\<rparr>)"
      "packet_GetData p (c_SessionKey ?k) 64 (w\<lparr>w_NetPacketPool := p3\<rparr>) = Inr (key, w\<lparr>w_NetPacketPool := p4\<rparr>)"
      "holding (w\<lparr>w_NetPacketPool := p4\<rparr>) p H J []" by blast
  let ?w4 = "upd_client c ?f (w\<lparr>w_NetPacketPool := p4\<rparr>)"
  have w4: "?w4 = (upd_client c ?f w)\<lparr>w_NetPacketPool := p4\<rparr>" by (simp add: upd_client_def)
  have "holding ?w4 p H J []"
    by (rule iffD2 [OF holding_cong r(5)]) (simp_all add: upd_client_def)
  moreover have "refs ?w4 = refs w" by (rule refs_cong) (simp_all add: upd_client_def)
  ultimately obtain p5 p6 p7 d where g: "build_packet p (\<lambda>d. Inr (NetPacket_Clear d)) ?w4 = Inr (?w4\<lparr>w_NetPacketPool := p5\<rparr>)"
      "on_packet p (\<lambda>d. Inr (NetPacket_DecrementRefCount d)) (?w4\<lparr>w_NetPacketPool := p5\<rparr>) = Inr (0, ?w4\<lparr>w_NetPacketPool := p6\<rparr>)"
      "packet_Free p (?w4\<lparr>w_NetPacketPool := p6\<rparr>) = Inr (?w4\<lparr>w_NetPacketPool := p7\<rparr>)"
      "stray p7 (set_mset (refs w + H)) p d" "fresh_packet d" using give_back [of ?w4 p H J] by auto
  let ?w8 = "upd_sess i (\<lambda>s. s\<lparr>s_AccountNo := acc\<rparr>) (emit job ((upd_client c ?f w)\<lparr>w_NetPacketPool := p7\<rparr>))"
  note u = fresh_unread [OF g(5)]
  from RES_LOGIN_wrote [of d en_PACKET_CS_CHAT_RES_LOGIN 1 acc] u obtain d' where d': "?reply d = Inr d'" "wrote d ?bytes d'" by auto
  have s8: "stray (w_NetPacketPool ?w8) (set_mset (refs w + H)) p d" using g(4) by simp
  have "(\<lambda>d. bnd (?reply d) (\<lambda>d. Inr ((), d))) d = Inr ((), d')" using d'(1) by simp
  from stray_step [where f = "\<lambda>d. bnd (?reply d) (\<lambda>d. Inr ((), d))", OF s8 this] obtain p9 where 9:
      "on_packet p (\<lambda>d. bnd (?reply d) (\<lambda>d. Inr ((), d))) ?w8 = Inr ((), ?w8\<lparr>w_NetPacketPool := p9\<rparr>)"
      "stray p9 (set_mset (refs w + H)) p d'" by blast
  have b9: "build_packet p ?reply ?w8 = Inr (?w8\<lparr>w_NetPacketPool := p9\<rparr>)" using 9(1) by (simp add: build_packet_def)
  have w9: "?w8\<lparr>w_NetPacketPool := p9\<rparr> = upd_sess i (\<lambda>s. s\<lparr>s_AccountNo := acc\<rparr>)
      (emit job ((upd_client c ?f w)\<lparr>w_NetPacketPool := p9\<rparr>))" by (simp add: upd_sess_def sess_def emit_def)
  have f4: "FindSession sid (emit job ((upd_client c ?f w)\<lparr>w_NetPacketPool := p7\<rparr>)) = Inr i"
    using f by (simp add: FindSession_def GetSessionIndex_def upd_client_def)
  have pool1: "registry (w\<lparr>w_NetPacketPool := p1\<rparr>) = registry w" by (simp add: registry_def)
  have at: "client_at c w = Inr ?k" by (rule client_at_ok [OF reg c])
  have ff: "(\<lambda>c. c\<lparr>c_AccoutNo := acc, c_ID := cid, c_NickName := nick, c_SessionKey := key\<rparr>) = ?f"
    by (simp add: logged_in_def fun_eq_iff)
  have "PacketProcess_REQ_LOGIN e sid p w = SendUnicast e sid p (?w8\<lparr>w_NetPacketPool := p9\<rparr>)"
    using g(1-3) r(2-4) by (simp add: PacketProcess_REQ_LOGIN_def FindClient_def c holding_at(1) [OF h] size at r(1) ff w4 Let_def
      f4 [unfolded job_def] b9 [unfolded job_def] job_def)
  moreover have "ready d'" "m_RefCount d' = 1" "payload d' = ?bytes"
    using wrote_ready [OF d'(2)] d'(2) u g(5) by (simp_all add: wrote_def fresh_packet_def flip: length_greater_0_conv)
  ultimately show ?thesis unfolding Let_def w9 using 9(2) by (intro exI [of _ p9] exI [of _ d']) simp
qed


section \<open>Properties\<close>

text \<open>
  C13. A login message that is served: the client's account number, names and session key are entered
  in the registry, which is otherwise unchanged, and an answer with status 1, before any lookup, goes
  to the end of the send queue of the client's session.  The call that should queue the lookup of
  the key names the thread by the address of its function \<open>RedisAPCThread\<close>: as that is no thread
  handle, no lookup is queued, and the answer with status 1 is the only one.  The answer is built in
  the packet of the request after that packet was given back: the pool and the references counted do
  not include it, although it stands in the send queue.
\<close>

theorem login_message_served:
  assumes "clients_inv w" and "holding w p H J (login_request acc cid nick key)" and "m_ClientMap w sid = Some c"
    and "length cid = 40" and "length nick = 40" and "length key = 64"
    and "live sid i w" and "queue_room (s_SendQ (sess w i))"
  shows "\<exists>w1 w'. MessageMarshalling e sid p w = SendUnicast e sid p w1 \<and>
    payload (mp_get (w_NetPacketPool w1) p) =
      le_bytes 2 en_PACKET_CS_CHAT_RES_LOGIN @ le_bytes 1 (1 :: 8 word) @ le_bytes 8 acc \<and>
    SendUnicast e sid p w1 = Inr w' \<and> clients_inv w' \<and> m_ClientMap w' = m_ClientMap w \<and>
    client_of w' c = (client_of w c)\<lparr>c_AccoutNo := acc, c_ID := cid, c_NickName := nick, c_SessionKey := key\<rparr> \<and>
    (\<forall>d\<in>ran (m_ClientMap w). d \<noteq> c \<longrightarrow> client_of w' d = client_of w d) \<and>
    w_io w' = w_io w @ [QueueUserAPC (FunctionAddress ''RedisAPCThread'') \<lparr>r_SessionID = sid, r_AccoutAno = acc, r_SessionKey = key\<rparr>, PostQueued sid] \<and>
    (\<forall>k. send_list (sess w' k) = send_list (sess w k) @ (if k = i then [p] else [])) \<and>
    (\<forall>is_thread. \<not> is_thread (FunctionAddress ''RedisAPCThread'') \<longrightarrow>
       apc_jobs is_thread (w_io w') = apc_jobs is_thread (w_io w)) \<and>
    mp_inv (w_NetPacketPool w') (set_mset (refs w + H)) \<and> p \<notin># refs w + H"
proof -
  have f: "FindSession sid w = Inr i" using assms(7) by (simp add: live_def)
  have i: "i < length (m_SessionArray w)" using assms(7) by (rule live_less)
  from MessageMarshalling_type [OF assms(2) [unfolded login_request_def] f, of e] obtain p0 where m:
      "holding (w\<lparr>w_NetPacketPool := p0\<rparr>) p H J (le_bytes 8 acc @ cid @ nick @ key)"
      "MessageMarshalling e sid p w = PacketProcess_REQ_LOGIN e sid p (w\<lparr>w_NetPacketPool := p0\<rparr>)"
    unfolding Let_def by auto
  let ?w0 = "w\<lparr>w_NetPacketPool := p0\<rparr>" and ?f = "logged_in acc cid nick key"
  note reg0 = pool_reg [where w = w and pool = p0]
  have inv0: "clients_inv ?w0" "m_ClientMap ?w0 sid = Some c" "FindSession sid ?w0 = Inr i"
    using assms(1,3) f reg0 by (simp_all add: FindSession_def GetSessionIndex_def)
  from REQ_LOGIN_handled [OF m(1) inv0(1,2) assms(4-6) inv0(3), of e] obtain pool d where h:
      "PacketProcess_REQ_LOGIN e sid p ?w0 = SendUnicast e sid p (upd_sess i (\<lambda>s. s\<lparr>s_AccountNo := acc\<rparr>)
         (emit (QueueUserAPC (FunctionAddress ''RedisAPCThread'') \<lparr>r_SessionID = sid, r_AccoutAno = acc, r_SessionKey = key\<rparr>)
           ((upd_client c ?f ?w0)\<lparr>w_NetPacketPool := pool\<rparr>)))"
      "stray pool (set_mset (refs w + H)) p d" "ready d" "m_RefCount d = 1"
      "payload d = le_bytes 2 en_PACKET_CS_CHAT_RES_LOGIN @ le_bytes 1 (1 :: 8 word) @ le_bytes 8 acc"
    unfolding Let_def by auto
  define w1 where "w1 = upd_sess i (\<lambda>s. s\<lparr>s_AccountNo := acc\<rparr>)
      (emit (QueueUserAPC (FunctionAddress ''RedisAPCThread'') \<lparr>r_SessionID = sid, r_AccoutAno = acc, r_SessionKey = key\<rparr>)
        ((upd_client c ?f ?w0)\<lparr>w_NetPacketPool := pool\<rparr>))"
  have s1: "sess w1 k = (if k = i then (sess w i)\<lparr>s_AccountNo := acc\<rparr> else sess w k)" for k
    using i by (simp add: w1_def sess_upd upd_client_def)
  have "live sid i w1"
    using assms(7) s1 [of i] by (simp add: live_def FindSession_def GetSessionIndex_def count_ok_def released_def)
      (simp add: w1_def upd_client_def)
  moreover have "stray (w_NetPacketPool w1) (set_mset (refs w + H)) p d" using h(2) by (simp add: w1_def)
  moreover have "queue_inv (s_SendQ (sess w1 i))"
    using sessions_invD(1) [OF world_coreD(2) [OF holdingD(1) [OF assms(2)]] i] s1 [of i] by (simp add: session_ok_def)
  moreover have "queue_room (s_SendQ (sess w1 i))" using assms(8) s1 [of i] by simp
  ultimately obtain pool' q d' where u: "SendUnicast e sid p w1 =
      Inr (upd_sess i (\<lambda>s. s\<lparr>s_SendQ := q\<rparr>) (emit (PostQueued sid) (w1\<lparr>w_NetPacketPool := pool'\<rparr>)))"
      "queue_list q = queue_list (s_SendQ (sess w1 i)) @ [Some p]" "stray pool' (set_mset (refs w + H)) p d'"
    using SendUnicast_stray [of w1 "set_mset (refs w + H)" p d sid i e] h(3,4) by blast
  define w' where "w' = upd_sess i (\<lambda>s. s\<lparr>s_SendQ := q\<rparr>) (emit (PostQueued sid) (w1\<lparr>w_NetPacketPool := pool'\<rparr>))"
  have mm: "MessageMarshalling e sid p w = SendUnicast e sid p w1" using m(2) h(1) by (simp add: w1_def)
  have "registry w' = registry (upd_client c ?f ?w0)" by (simp add: registry_def w'_def w1_def)
  note reg' = registry_cong [OF this]
  note li = logged_in_registry [OF inv0(1,2) assms(4-6), where acc = acc]
  have cm: "m_ClientMap (upd_client c ?f ?w0) = m_ClientMap w" by (simp add: upd_client_def)
  have io: "w_io w' = w_io w @ [QueueUserAPC (FunctionAddress ''RedisAPCThread'') \<lparr>r_SessionID = sid, r_AccoutAno = acc, r_SessionKey = key\<rparr>, PostQueued sid]"
    by (simp add: w'_def w1_def) (simp add: upd_client_def)
  have s': "sess w' k = (if k = i then (sess w1 i)\<lparr>s_SendQ := q\<rparr> else sess w k)" for k
    using i s1 [of k] by (simp add: w'_def sess_upd w1_def upd_client_def)
  have sl: "send_list (sess w' k) = send_list (sess w k) @ (if k = i then [p] else [])" for k
    using u(2) s1 [of i] by (simp add: s') (simp add: send_list_def)
  have pay: "payload (mp_get (w_NetPacketPool w1) p) = payload d" using stray_get [OF h(2)] by (simp add: w1_def)
  have st: "mp_inv (w_NetPacketPool w') (set_mset (refs w + H)) \<and> p \<notin># refs w + H"
    using u(3) by (simp add: stray_def w'_def)
  have old: "\<forall>d\<in>ran (m_ClientMap w). d \<noteq> c \<longrightarrow> client_of w' d = client_of w d"
    using li(3) unfolding reg' reg0 by blast
  have none: "\<forall>is_thread. \<not> is_thread (FunctionAddress ''RedisAPCThread'') \<longrightarrow>
      apc_jobs is_thread (w_io w') = apc_jobs is_thread (w_io w)"
    unfolding io by (simp add: apc_jobs_def)
  show ?thesis
    by (rule exI [of _ w1], rule exI [of _ w'], intro conjI mm io none allI [OF sl] old conjunct1 [OF st] conjunct2 [OF st] trans [OF pay h(5)])
      (simp_all only: u(1) w'_def [symmetric] reg' cm li(1,2) reg0(2) logged_in_def)
qed

theorem login_message_served_witness:
  "\<exists>w w' p c. holding w p {#} {} (login_request 5 (replicate 40 1) (replicate 40 2) (replicate 64 3)) \<and>
     MessageMarshalling quiet sid1 p w = Inr w' \<and> clients_inv w' \<and> c_AccoutNo (client_of w' c) = 5 \<and>
     c_SessionKey (client_of w' c) = replicate 64 3 \<and> send_list (sess w' 2) = [p] \<and>
     apc_jobs (\<lambda>h. h = ThreadHandle 4) (w_io w') = apc_jobs (\<lambda>h. h = ThreadHandle 4) (w_io w) \<and>
     mp_inv (w_NetPacketPool w') (set_mset (refs w)) \<and> p \<notin># refs w"
proof -
  let ?req = "login_request 5 (replicate 40 1) (replicate 40 2) (replicate 64 3)"
  obtain w0 c where w0: "world_inv w0 {#} {}" "clients_inv w0" "live sid1 2 w0" "reachable_or_gone w0 sid1"
      "m_ClientMap w0 = [sid1 \<mapsto> c]" "send_list (sess w0 2) = []"
    using joined_client by blast
  have room0: "queue_room (s_SendQ (sess w0 2))"
  proof -
    have "\<not> dead sid1 w0" using dead_not_live [of sid1 w0 2] w0(3) by blast
    then obtain k where "live sid1 k w0" "queue_room (s_SendQ (sess w0 k))" using w0(4) by (auto simp: reachable_or_gone_def)
    then show ?thesis using live_unique [OF w0(3), of k] by simp
  qed
  have "length ?req \<le> 295" by (simp add: login_request_def)
  from message_in_hand [OF w0(1) this] obtain pool p where m: "holding (w0\<lparr>w_NetPacketPool := pool\<rparr>) p {#} {} ?req" by blast
  define w where "w = w0\<lparr>w_NetPacketPool := pool\<rparr>"
  note reg = pool_reg [where w = w0 and pool = pool, folded w_def]
  have s: "live sid1 2 w" "queue_room (s_SendQ (sess w 2))" "send_list (sess w 2) = []"
    using w0(3,6) room0 by (simp_all add: w_def live_pool)
  have c: "clients_inv w" "m_ClientMap w sid1 = Some c" using w0(2,5) by (simp_all add: reg)
  have len: "length (replicate 40 1 :: byte list) = 40" "length (replicate 40 2 :: byte list) = 40"
    "length (replicate 64 3 :: byte list) = 64" by simp_all
  from login_message_served [OF c(1) m [folded w_def] c(2) len s(1,2), of quiet] obtain w1 w' where w':
      "MessageMarshalling quiet sid1 p w = SendUnicast quiet sid1 p w1" "SendUnicast quiet sid1 p w1 = Inr w'" "clients_inv w'"
      "client_of w' c = (client_of w c)\<lparr>c_AccoutNo := 5, c_ID := replicate 40 1, c_NickName := replicate 40 2,
         c_SessionKey := replicate 64 3\<rparr>"
      "send_list (sess w' 2) = send_list (sess w 2) @ (if (2 :: nat) = 2 then [p] else [])"
      "\<forall>is_thread. \<not> is_thread (FunctionAddress ''RedisAPCThread'') \<longrightarrow>
         apc_jobs is_thread (w_io w') = apc_jobs is_thread (w_io w)"
      "mp_inv (w_NetPacketPool w') (set_mset (refs w + {#}))" "p \<notin># refs w + {#}" by blast
  then show ?thesis
    using m [folded w_def] s(3) by (intro exI [of _ w] exI [of _ w'] exI [of _ p] exI [of _ c]) simp
qed

end
