(* ===== verification/LogRecords.thy ===== *)
theory LogRecords
  imports Prelude
begin

text \<open>
  The records a line of an in-memory log is made of (\<^verbatim>\<open>MemoryLog.h\<close>): the enumerations of
  positions in the code, and the four structures with the function that fills each.
\<close>

section \<open>Log records\<close>

datatype eSendFlag =
    SENDPOST_ENTRY | BEFORE_SEND | AFTER_SEND | GQCS_SENDFLAG | SEND_COMPLETE_BEFORE
  | SEND_COMPLETE_AFTER | RECVPOST | SIZE_SHORT | YIELD | IO_PENDING

datatype eIOCP_LINE =
    GQCS | ACCEPT_BEFORE_RECV | ACCEPT_NEW_USER | ACCEPT_AFTER_RECV | RECVPOST_BEFORE_RECV
  | RECVPOST_AFTER_RECV | SENDPOST_BEFORE_SEND | SENDPACKET | SENDPOST_AFTER_SEND | RECV_COMPLETE
  | SEND_COMPLETE | LAST_COMPLETE | TRANSFER_ZERO_RECV | TRANSFER_ZERO_SEND | CLOSE_SOCKET_ENTRY
  | RELEASE_SESSION | RELASE_SESSION_CLEAR_IO_INC | RECVPOST_RECVRTN | SENDPOST_SENDRTN
  | ACCEPT_RECVRTN | ELSE_OVERLAP | CLOSE_SOCKET_INVALIDSOCKET | CLOSE_SOCKET_CLOSESOCKET
  | SENDCOMPLETE_BEFROE_GETUSEDSIZE | SENDCOMPLETE_AFTER_GETUSEDSIZE | CRASH | ON_RECV
  | ON_RECV_ALLOC | ON_RECV_FREE | ON_RECV_LAST | DEQPACKET_ENTRY | DEQPACKET_LAST
  | DEQPACKET_FREE | RELEASEPACKET_FREE | ON_CLIENTJOIN_ALLOC | ON_CLIENTJOIN_LAST
  | WSABUF_SETTING | WSABUF_SETTING_LAST | SMARTPACKET_COPY_STRUCTOR | SMARTPACKET_EXCHANGE
  | SMARTPACKET_DESTRUCTOR | SMARTPACKET_DELETE | UPDATETHREAD_JOB_SWITCH | MESSAGE_MARSHAL
  | MESSAGE | ACQUIRE_SESSION_SUC | ACQUIRE_SESSION_FAIL | ON_CLIENT_LEAVE | ON_CLIENT_JOIN
  | CREATE_NEW_CLIENT | DELETE_CLIENT | DISCONNECT_CLIENT | RECVPOST_FREESIZE_NON
  | PQCS_SENDPOST | DISCON_RELEASE

datatype eRecvMessageType = NOTHING | LOGIN | SECTOR_MOVE | MESSAGE_RECV

datatype eFreeListPos =
  DEQ_POINTER | ENQ_POINTER | FREE_FLAG_CHECK | FREE_OKAY | ALLOC_OKAY | ALLOC_MEMORY

datatype ePOS =
    ENTRY_ENQ | ALLOC_NODE_ENQ | TEMP_REAR_SETTING_ENQ | CHANGEVALUE_SETTING_ENQ
  | CAS1_FAIL_BUT_CHANGE_REAR_ENQ | CAS1_FAIL_NO_CHANGE | CAS1_SUC_ENQ | CAS2_SUC_NEWNODE1_ENQ
  | CAS2_FAIL_NEWNODE1_ENQ | CAS2_SUC_NEWNODE2_ENQ | CAS2_FAIL_NEWNODE2_ENQ | LOOP_OUT_ENQ
  | ENTRY_DEQ | NODE_ZERO_DEQ1 | NODE_ZERO_DEQ2 | TEMP_FRONT_SETTING_DEQ
  | CHANGEVALUE_SETTING_DEQ | CAS2_SUC_DEQ | CAS2_FAIL_DEQ | LOOP_OUT_DEQ | FREE_NODE_DEQ
  | RETURN_DATA_DEQ | TEMPREAR_NEWNODE_SAME | NEWNODE_NEXT_NOT_NULL

record SendFlag_Log =
  sf_No :: "64 word"
  sf_Pos :: eSendFlag
  sf_ThreadID :: "32 word"
  sf_Socket :: "64 word"
  sf_CurSession :: "64 word"
  sf_RecvOL :: "64 word"
  sf_SendOL :: "64 word"
  sf_SendFlag :: "32 word"
  sf_SendQUsedSize :: "32 word"

definition SendFlag_Log_DataSettiong ::
  "64 word \<Rightarrow> eSendFlag \<Rightarrow> 32 word \<Rightarrow> 64 word \<Rightarrow> 64 word \<Rightarrow> 64 word \<Rightarrow> 64 word \<Rightarrow> 32 word \<Rightarrow> 32 word
   \<Rightarrow> SendFlag_Log \<Rightarrow> SendFlag_Log" where
  "SendFlag_Log_DataSettiong no pos threadid socket curSession recvOL sendOL snedFlag
     sendQUsedSize l =
   l\<lparr>sf_No := no, sf_Pos := pos, sf_ThreadID := threadid, sf_Socket := socket,
     sf_CurSession := curSession, sf_RecvOL := recvOL, sf_SendOL := sendOL,
     sf_SendFlag := snedFlag, sf_SendQUsedSize := sendQUsedSize\<rparr>"

record IOCP_Log =
  io_No :: "64 word"
  io_Pos :: eIOCP_LINE
  io_ThreadID :: "32 word"
  io_Socket :: "64 word"
  io_IOCount :: "32 word"
  io_CurSession :: "64 word"
  io_CurSessionID :: "64 word"
  io_RecvOL :: "64 word"
  io_SendOL :: "64 word"
  io_SendFlag :: "32 word"
  io_JobType :: "32 word"
  io_JobQCount :: "32 word"
  io_RecvMessageType :: eRecvMessageType
  io_PacketRefCount :: "32 word"
  io_AccountNo :: "64 word"

text \<open>The last five parameters have default arguments: an absent one is \<^const>\<open>None\<close>.\<close>

definition default_arg :: "'a \<Rightarrow> 'a option \<Rightarrow> 'a" where
  "default_arg d a = (case a of None \<Rightarrow> d | Some x \<Rightarrow> x)"

definition IOCP_Log_DataSettiong ::
  "64 word \<Rightarrow> eIOCP_LINE \<Rightarrow> 32 word \<Rightarrow> 64 word \<Rightarrow> 32 word \<Rightarrow> 64 word \<Rightarrow> 64 word \<Rightarrow> 64 word \<Rightarrow> 64 word
   \<Rightarrow> 32 word \<Rightarrow> 32 word option \<Rightarrow> 32 word option \<Rightarrow> eRecvMessageType option \<Rightarrow> 32 word option
   \<Rightarrow> 64 word option \<Rightarrow> IOCP_Log \<Rightarrow> IOCP_Log" where
  "IOCP_Log_DataSettiong no pos threadid socket ioCount curSession curSessionID recvOL sendOL
     snedFlag jobType jobQCount type refCount accountNo l =
   l\<lparr>io_No := no, io_Pos := pos, io_ThreadID := threadid, io_Socket := socket,
     io_IOCount := ioCount, io_CurSession := curSession, io_CurSessionID := curSessionID,
     io_RecvOL := recvOL, io_SendOL := sendOL, io_SendFlag := snedFlag,
     io_JobType := default_arg (- 1) jobType, io_JobQCount := default_arg (- 1) jobQCount,
     io_RecvMessageType := default_arg NOTHING type,
     io_PacketRefCount := default_arg (- 1) refCount,
     io_AccountNo := default_arg (- 1) accountNo\<rparr>"

record FreeList_Log =
  fl_No :: "64 word"
  fl_POS :: eFreeListPos
  fl_ThreadID :: "32 word"
  fl_TopPtr :: "64 word"
  fl_TempTopPtr :: "64 word"
  fl_FreeNode :: "64 word"
  fl_ReturnNode :: "64 word"

text \<open>
  The fourth and fifth parameters are called \<^verbatim>\<open>_TopPtr\<close> and \<^verbatim>\<open>_TempTopPtr\<close> like the members, so
  \<^verbatim>\<open>_TopPtr = _TopPtr;\<close> and \<^verbatim>\<open>_TempTopPtr = _TempTopPtr;\<close> assign the parameters to themselves.
\<close>

definition FreeList_Log_DataSettiong ::
  "64 word \<Rightarrow> eFreeListPos \<Rightarrow> 32 word \<Rightarrow> 64 word \<Rightarrow> 64 word \<Rightarrow> 64 word \<Rightarrow> 64 word
   \<Rightarrow> FreeList_Log \<Rightarrow> FreeList_Log" where
  "FreeList_Log_DataSettiong no pos threadid TopPtr TempTopPtr freeNode returnNode l =
   l\<lparr>fl_No := no, fl_POS := pos, fl_ThreadID := threadid, fl_FreeNode := freeNode,
     fl_ReturnNode := returnNode\<rparr>"

record Q_LOG =
  q_No :: "64 word"
  q_POS :: ePOS
  q_ThreadID :: "32 word"
  q_FrontPtr :: "64 word"
  q_RearPtr :: "64 word"
  q_TempFrontPtr :: "64 word"
  q_TempRearPtr :: "64 word"
  q_NewNodePtr :: "64 word"
  q_Data :: "64 word"
  q_RearNext :: "64 word"
  q_CurDummyNode :: "64 word"
  q_NewNext :: "64 word"
  q_Count :: "32 word"
  q_LoopCount :: "32 word"

definition Q_LOG_DataSettiong ::
  "64 word \<Rightarrow> ePOS \<Rightarrow> 32 word \<Rightarrow> 64 word \<Rightarrow> 64 word \<Rightarrow> 64 word \<Rightarrow> 64 word \<Rightarrow> 64 word \<Rightarrow> 64 word
   \<Rightarrow> 64 word \<Rightarrow> 64 word \<Rightarrow> 64 word option \<Rightarrow> 32 word option \<Rightarrow> 32 word option \<Rightarrow> Q_LOG \<Rightarrow> Q_LOG" where
  "Q_LOG_DataSettiong no pos threadid frontPtr rearPtr tempFrontPtr tempRearPtr newNodePtr data
     rearNext curDummy newNext count loopCount l =
   l\<lparr>q_No := no, q_POS := pos, q_ThreadID := threadid, q_FrontPtr := frontPtr,
     q_RearPtr := rearPtr, q_TempFrontPtr := tempFrontPtr, q_TempRearPtr := tempRearPtr,
     q_NewNodePtr := newNodePtr, q_Data := data, q_RearNext := rearNext,
     q_CurDummyNode := curDummy, q_NewNext := default_arg (- 1) newNext,
     q_Count := default_arg (- 1) count, q_LoopCount := default_arg (- 1) loopCount\<rparr>"

end
