(* ===== verification/MemoryLog.thy ===== *)
theory MemoryLog
  imports LogRecords
begin

text \<open>
  The in-memory logs of \<^verbatim>\<open>MemoryLog.h\<close>: the two rings of records (\<^verbatim>\<open>MemoryLogging_New\<close>,
  \<^verbatim>\<open>MemoryLogging_ST\<close>) and the ring of integer rows (\<^verbatim>\<open>MyMemoryLog\<close>).  A slot that has only
  been filled with zeros is \<^const>\<open>None\<close>.
\<close>

section \<open>Rings of records\<close>

record 'a memory_ring =
  m_Buffer :: "'a option list"
  m_Index :: "64 word"
  m_Count :: "64 word"

text \<open>\<open>sz\<close> is the template argument; a C++ array has at least one element.\<close>

definition MemoryLogging_New_ctor :: "nat \<Rightarrow> 'a memory_ring" where
  "MemoryLogging_New_ctor sz = \<lparr>m_Buffer = replicate sz None, m_Index = 0, m_Count = 0\<rparr>"

definition MemoryLogging_New_MemoryLogging :: "'a \<Rightarrow> 'a memory_ring \<Rightarrow> 'a memory_ring" where
  "MemoryLogging_New_MemoryLogging logData m =
     (let index = m_Index m + 1;
          tempIndex = unat index mod length (m_Buffer m);
          zeroed = (m_Buffer m)[tempIndex := None]
      in m\<lparr>m_Index := index, m_Buffer := zeroed[tempIndex := Some logData]\<rparr>)"

definition MemoryLogging_New_Clear :: "'a memory_ring \<Rightarrow> 'a memory_ring" where
  "MemoryLogging_New_Clear m =
     m\<lparr>m_Buffer := replicate (length (m_Buffer m)) None, m_Index := 0, m_Count := 0\<rparr>"

text \<open>\<^verbatim>\<open>MemoryLogging_ST\<close> repeats the class for the one record type \<^verbatim>\<open>Q_LOG\<close>.\<close>

definition MemoryLogging_ST_ctor :: "nat \<Rightarrow> Q_LOG memory_ring" where
  "MemoryLogging_ST_ctor sz = \<lparr>m_Buffer = replicate sz None, m_Index = 0, m_Count = 0\<rparr>"

definition MemoryLogging_ST_MemoryLogging :: "Q_LOG \<Rightarrow> Q_LOG memory_ring \<Rightarrow> Q_LOG memory_ring" where
  "MemoryLogging_ST_MemoryLogging logData m =
     (let index = m_Index m + 1;
          tempIndex = unat index mod length (m_Buffer m);
          zeroed = (m_Buffer m)[tempIndex := None]
      in m\<lparr>m_Index := index, m_Buffer := zeroed[tempIndex := Some logData]\<rparr>)"

definition MemoryLogging_ST_Clear :: "Q_LOG memory_ring \<Rightarrow> Q_LOG memory_ring" where
  "MemoryLogging_ST_Clear m =
     m\<lparr>m_Buffer := replicate (length (m_Buffer m)) None, m_Index := 0, m_Count := 0\<rparr>"

lemma MemoryLogging_ST_is_New:
  "MemoryLogging_ST_ctor = MemoryLogging_New_ctor"
  "MemoryLogging_ST_MemoryLogging = MemoryLogging_New_MemoryLogging"
  "MemoryLogging_ST_Clear = MemoryLogging_New_Clear"
  by (simp_all add: fun_eq_iff MemoryLogging_ST_ctor_def MemoryLogging_New_ctor_def
      MemoryLogging_ST_MemoryLogging_def MemoryLogging_New_MemoryLogging_def
      MemoryLogging_ST_Clear_def MemoryLogging_New_Clear_def)

section \<open>Rings of integer rows\<close>

record 'a memory_rows =
  r_Buffer :: "'a list"
  r_Index :: "64 word"
  r_Count :: "64 word"

abbreviation MAX_PROPERTY :: nat where
  "MAX_PROPERTY \<equiv> 10"

definition MyMemoryLog_ctor :: "nat \<Rightarrow> 'a::len word memory_rows" where
  "MyMemoryLog_ctor sz =
     \<lparr>r_Buffer = replicate (sz * MAX_PROPERTY) 0, r_Index = 0, r_Count = 0\<rparr>"

text \<open>
  The body the overloads share: the next row is zeroed, then its first cells are the count
  and the arguments.
\<close>

definition MyMemoryLog_row :: "'a::len word list \<Rightarrow> 'a word memory_rows \<Rightarrow> 'a word memory_rows" where
  "MyMemoryLog_row cells m =
     (let index = r_Index m + 1;
          row = MAX_PROPERTY * (unat index mod (length (r_Buffer m) div MAX_PROPERTY));
          zeroed = mem_write (r_Buffer m) row (replicate MAX_PROPERTY 0);
          count = r_Count m + 1
      in \<lparr>r_Buffer = mem_write zeroed row (ucast count # cells), r_Index = index,
          r_Count = count\<rparr>)"

definition MyMemoryLog_MemoryLogging3 ::
  "'a::len word \<Rightarrow> 'a word \<Rightarrow> 'a word \<Rightarrow> 'a word memory_rows \<Rightarrow> 'a word memory_rows" where
  "MyMemoryLog_MemoryLogging3 pos threadID data = MyMemoryLog_row [threadID, pos, data]"

definition MyMemoryLog_MemoryLogging4 ::
  "'a::len word \<Rightarrow> 'a word \<Rightarrow> 'a word \<Rightarrow> 'a word \<Rightarrow> 'a word memory_rows \<Rightarrow> 'a word memory_rows" where
  "MyMemoryLog_MemoryLogging4 pos threadID sessionID data =
     MyMemoryLog_row [sessionID, threadID, pos, data]"

text \<open>The five overloads with two to six data arguments, told apart by the length of the list.\<close>

definition MyMemoryLog_MemoryLogging_data ::
  "'a::len word \<Rightarrow> 'a word \<Rightarrow> 'a word \<Rightarrow> 'a word list \<Rightarrow> 'a word memory_rows \<Rightarrow> 'a word memory_rows" where
  "MyMemoryLog_MemoryLogging_data pos threadID sessionID data =
     MyMemoryLog_row ([sessionID, threadID, pos] @ data)"

text \<open>\<^verbatim>\<open>Clear\<close> zeroes \<^verbatim>\<open>sizeof(T) * MAX_SIZE\<close> bytes of a buffer ten times as long.\<close>

definition MyMemoryLog_Clear :: "'a::len word memory_rows \<Rightarrow> 'a word memory_rows" where
  "MyMemoryLog_Clear m =
     (let sz = length (r_Buffer m) div MAX_PROPERTY
      in \<lparr>r_Buffer = mem_write (r_Buffer m) 0 (replicate sz 0), r_Index = 0, r_Count = 0\<rparr>)"

section \<open>What the rings keep\<close>

text \<open>
  Reading a ring back: the slots that were filled last, oldest first, as a debugger would show
  them from the index on.
\<close>

definition slot_of :: "'a memory_ring \<Rightarrow> nat \<Rightarrow> nat" where
  "slot_of m k = (unat (m_Index m) - k) mod length (m_Buffer m)"

definition history :: "'a memory_ring \<Rightarrow> 'a option list" where
  "history m =
     map (\<lambda>k. m_Buffer m ! slot_of m k)
       (rev [0..<min (unat (m_Index m)) (length (m_Buffer m))])"

text \<open>The abstract log: the last \<open>sz\<close> of the records written.\<close>

definition last_records :: "nat \<Rightarrow> 'a list \<Rightarrow> 'a list" where
  "last_records n xs = drop (length xs - n) xs"

text \<open>A ring that has received \<open>xs\<close> since it was made, before its index wraps around.\<close>

definition logged :: "nat \<Rightarrow> 'a list \<Rightarrow> 'a memory_ring \<Rightarrow> bool" where
  "logged sz xs m \<longleftrightarrow>
     length (m_Buffer m) = sz \<and> 0 < sz \<and> unat (m_Index m) = length xs \<and>
     (\<forall>k < min (length xs) sz.
        m_Buffer m ! ((length xs - k) mod sz) = Some (xs ! (length xs - 1 - k)))"

lemma logged_ctor: "0 < sz \<Longrightarrow> logged sz [] (MemoryLogging_New_ctor sz)"
  by (simp add: logged_def MemoryLogging_New_ctor_def)

lemma slots_apart:
  assumes "0 < k" "k < (sz::nat)" "k \<le> n"
  shows "(n - k) mod sz \<noteq> n mod sz"
proof
  assume "(n - k) mod sz = n mod sz"
  then have "sz dvd n - (n - k)" using assms(3) by (metis diff_le_self mod_eq_dvd_iff_nat)
  with assms show False by (simp add: nat_dvd_not_less)
qed

lemma logged_MemoryLogging:
  assumes "logged sz xs m" and "length xs < 2 ^ 64 - 1"
  shows "logged sz (xs @ [x]) (MemoryLogging_New_MemoryLogging x m)"
proof -
  let ?n = "Suc (length xs)"
  have m: "length (m_Buffer m) = sz" "0 < sz" "unat (m_Index m) = length xs"
    using assms(1) by (simp_all add: logged_def)
  have index: "unat (m_Index m + 1) = ?n"
    using assms(2) m(3) by (simp add: unat_word_ariths)
  have old: "m_Buffer m ! ((length xs - k) mod sz) = Some (xs ! (length xs - 1 - k))"
    if "k < min (length xs) sz" for k
    using assms(1) that by (simp add: logged_def)
  have "(m_Buffer m)[?n mod sz := None, ?n mod sz := Some x] ! ((?n - k) mod sz) =
      Some ((xs @ [x]) ! (?n - 1 - k))" if k: "k < min ?n sz" for k
  proof (cases k)
    case 0
    with m show ?thesis by simp
  next
    case (Suc j)
    with k have "(?n - k) mod sz \<noteq> ?n mod sz" by (intro slots_apart) simp_all
    moreover have "length xs - Suc j < length xs" using Suc k by linarith
    ultimately show ?thesis using Suc k old [of j] by (simp add: nth_append)
  qed
  then show ?thesis
    using m by (simp add: logged_def MemoryLogging_New_MemoryLogging_def Let_def index)
qed

lemma last_records_by_index:
  "last_records n xs = map (\<lambda>k. xs ! (length xs - 1 - k)) (rev [0..<min (length xs) n])"
  by (rule nth_equalityI) (auto simp: last_records_def rev_nth min_def)

lemma logged_history:
  assumes "logged sz xs m"
  shows "history m = map Some (last_records sz xs)"
  using assms unfolding history_def last_records_by_index logged_def slot_of_def map_map
  by (intro map_cong) simp_all

text \<open>
  C38. A memory log refines the list of its last records: after any number of writes, below the
  wrap-around of its 64 bit index, reading the ring back from its index gives exactly the last
  \<open>sz\<close> records written, in order; and clearing it gives the log the constructor makes.
\<close>

theorem memory_log_keeps_last:
  assumes "0 < sz" and "length xs < 2 ^ 64"
  shows "history (fold MemoryLogging_New_MemoryLogging xs (MemoryLogging_New_ctor sz)) =
      map Some (last_records sz xs) \<and>
    MemoryLogging_New_Clear (fold MemoryLogging_New_MemoryLogging xs (MemoryLogging_New_ctor sz)) =
      MemoryLogging_New_ctor sz"
proof -
  have "logged sz xs (fold MemoryLogging_New_MemoryLogging xs (MemoryLogging_New_ctor sz))"
    using assms(2)
  proof (induction xs rule: rev_induct)
    case Nil
    with assms(1) show ?case by (simp add: logged_ctor)
  next
    case (snoc x xs)
    then show ?case by (auto intro: logged_MemoryLogging)
  qed
  from logged_history [OF this] this show ?thesis
    by (simp add: logged_def MemoryLogging_New_Clear_def MemoryLogging_New_ctor_def)
qed

theorem memory_log_keeps_last_witness:
  "history (fold MemoryLogging_New_MemoryLogging [1, 2, 3, 4 :: nat] (MemoryLogging_New_ctor 3)) =
     [Some 2, Some 3, Some 4]"
  using memory_log_keeps_last [of 3 "[1, 2, 3, 4 :: nat]"] by (simp add: last_records_def)

section \<open>What the integer rows keep\<close>

definition row :: "'a memory_rows \<Rightarrow> nat \<Rightarrow> 'a list" where
  "row m j = take MAX_PROPERTY (drop (MAX_PROPERTY * j) (r_Buffer m))"

definition rows_ok :: "nat \<Rightarrow> 'a memory_rows \<Rightarrow> bool" where
  "rows_ok sz m \<longleftrightarrow> 0 < sz \<and> length (r_Buffer m) = sz * MAX_PROPERTY"

text \<open>A full row: the running number, the arguments, and zeros up to the end of the row.\<close>

definition full_row :: "nat \<Rightarrow> 'a::len word list \<Rightarrow> 'a word list" where
  "full_row n cells =
     ucast (of_nat n :: 64 word) # cells @ replicate (MAX_PROPERTY - Suc (length cells)) 0"

lemma length_row: "rows_ok sz m \<Longrightarrow> j < sz \<Longrightarrow> length (row m j) = MAX_PROPERTY"
  by (simp add: row_def rows_ok_def)

lemma rows_apart: "i \<noteq> j \<Longrightarrow> 10 * i + 10 \<le> 10 * j \<or> 10 * j + 10 \<le> 10 * (i::nat)"
  by arith

lemma row_write:
  assumes "rows_ok sz m" "i < sz" "j < sz" "length cells \<le> MAX_PROPERTY"
  shows "take MAX_PROPERTY (drop (MAX_PROPERTY * j) (mem_write (r_Buffer m) (MAX_PROPERTY * i) cells)) =
    (if j = i then cells @ drop (length cells) (row m i) else row m j)"
proof (rule nth_equalityI)
  have len: "length (r_Buffer m) = sz * 10" "10 * i + 10 \<le> sz * 10" "10 * j + 10 \<le> sz * 10"
    using assms by (simp_all add: rows_ok_def)
  with assms(4) have fits: "10 * i + length cells \<le> length (r_Buffer m)" by simp
  show "length (take MAX_PROPERTY (drop (MAX_PROPERTY * j)
      (mem_write (r_Buffer m) (MAX_PROPERTY * i) cells))) =
    length (if j = i then cells @ drop (length cells) (row m i) else row m j)"
    using len fits assms(4) by (simp add: row_def)
  fix k
  assume "k < length (take MAX_PROPERTY (drop (MAX_PROPERTY * j)
      (mem_write (r_Buffer m) (MAX_PROPERTY * i) cells)))"
  then have k: "k < 10" by simp
  show "take MAX_PROPERTY (drop (MAX_PROPERTY * j)
      (mem_write (r_Buffer m) (MAX_PROPERTY * i) cells)) ! k =
    (if j = i then cells @ drop (length cells) (row m i) else row m j) ! k"
  proof (cases "j = i")
    case True
    with len fits k show ?thesis
      by (simp add: row_def nth_mem_write nth_append)
  next
    case False
    with rows_apart [OF this] len fits k assms(4) show ?thesis
      by (auto simp: row_def nth_mem_write)
  qed
qed

text \<open>A row that has received the argument lists \<open>xs\<close> since the log was made.\<close>

definition rows_logged :: "nat \<Rightarrow> 'a::len word list list \<Rightarrow> 'a word memory_rows \<Rightarrow> bool" where
  "rows_logged sz xs m \<longleftrightarrow>
     rows_ok sz m \<and> r_Index m = of_nat (length xs) \<and> r_Count m = of_nat (length xs) \<and>
     (\<forall>k < min (length xs) sz.
        row m ((length xs - k) mod sz) = full_row (length xs - k) (xs ! (length xs - 1 - k)))"

lemma rows_logged_ctor: "0 < sz \<Longrightarrow> rows_logged sz [] (MyMemoryLog_ctor sz)"
  by (simp add: rows_logged_def rows_ok_def MyMemoryLog_ctor_def)

lemma row_MyMemoryLog_row:
  assumes "rows_ok sz m" and "length cells < MAX_PROPERTY" and "j < sz"
  shows "rows_ok sz (MyMemoryLog_row cells m)"
    and "row (MyMemoryLog_row cells m) j =
      (if j = unat (r_Index m + 1) mod sz
       then ucast (r_Count m + 1) # cells @ replicate (MAX_PROPERTY - Suc (length cells)) 0
       else row m j)"
proof -
  let ?i = "unat (r_Index m + 1) mod sz"
  let ?z = "mem_write (r_Buffer m) (MAX_PROPERTY * ?i) (replicate MAX_PROPERTY 0)"
  let ?m = "m\<lparr>r_Buffer := ?z\<rparr>"
  have sz: "length (r_Buffer m) div MAX_PROPERTY = sz" "0 < sz" "length (r_Buffer m) = sz * 10"
    using assms(1) by (simp_all add: rows_ok_def)
  have i: "?i < sz" using sz(2) by simp
  then have fits: "10 * ?i + 10 \<le> length (r_Buffer m)" using sz(3) by simp
  have m: "rows_ok sz ?m" using assms(1) fits by (simp add: rows_ok_def)
  have z: "row ?m j = (if j = ?i then replicate MAX_PROPERTY 0 else row m j)" if "j < sz" for j
    using row_write [OF assms(1) i that, of "replicate MAX_PROPERTY 0"]
      length_row [OF assms(1) i] by (simp add: row_def)
  have w: "take MAX_PROPERTY (drop (MAX_PROPERTY * j)
      (mem_write (r_Buffer ?m) (MAX_PROPERTY * ?i) (ucast (r_Count m + 1) # cells))) =
    (if j = ?i then (ucast (r_Count m + 1) # cells) @ drop (Suc (length cells)) (row ?m ?i)
     else row ?m j)"
    using row_write [OF m i assms(3), of "ucast (r_Count m + 1) # cells"] assms(2) by simp
  show "rows_ok sz (MyMemoryLog_row cells m)"
    using assms(1,2) fits sz by (simp add: MyMemoryLog_row_def Let_def rows_ok_def)
  show "row (MyMemoryLog_row cells m) j =
      (if j = ?i then ucast (r_Count m + 1) # cells @ replicate (MAX_PROPERTY - Suc (length cells)) 0
       else row m j)"
    using w z [OF assms(3)] z [OF i] sz(1)
    by (simp add: MyMemoryLog_row_def Let_def row_def)
qed

lemma rows_logged_row:
  assumes "rows_logged sz xs m" and "length xs < 2 ^ 64 - 1" and "length cells < MAX_PROPERTY"
  shows "rows_logged sz (xs @ [cells]) (MyMemoryLog_row cells m)"
proof -
  let ?n = "Suc (length xs)"
  have m: "rows_ok sz m" "r_Index m = of_nat (length xs)" "r_Count m = of_nat (length xs)"
    using assms(1) by (simp_all add: rows_logged_def)
  then have sz: "0 < sz" by (simp add: rows_ok_def)
  have index: "unat (r_Index m + 1) = ?n"
    using assms(2) m(2) by (simp add: unat_word_ariths unat_of_nat)
  have count: "r_Count m + 1 = of_nat ?n" using m(3) by simp
  have old: "row m ((length xs - k) mod sz) = full_row (length xs - k) (xs ! (length xs - 1 - k))"
    if "k < min (length xs) sz" for k
    using assms(1) that by (simp add: rows_logged_def)
  have "row (MyMemoryLog_row cells m) ((?n - k) mod sz) =
      full_row (?n - k) ((xs @ [cells]) ! (?n - 1 - k))" if k: "k < min ?n sz" for k
  proof (cases k)
    case 0
    then show ?thesis
      using row_MyMemoryLog_row(2) [OF m(1) assms(3), of "?n mod sz"] sz index count
      by (simp add: full_row_def)
  next
    case (Suc j)
    with k have "(?n - k) mod sz \<noteq> ?n mod sz" by (intro slots_apart) simp_all
    moreover have "length xs - Suc j < length xs" using Suc k by linarith
    ultimately show ?thesis
      using row_MyMemoryLog_row(2) [OF m(1) assms(3), of "(?n - k) mod sz"] sz index
        Suc k old [of j] by (simp add: nth_append)
  qed
  moreover have "r_Index (MyMemoryLog_row cells m) = of_nat ?n"
      "r_Count (MyMemoryLog_row cells m) = of_nat ?n"
    using m(2,3) by (simp_all add: MyMemoryLog_row_def Let_def)
  ultimately show ?thesis
    using row_MyMemoryLog_row(1) [OF m(1) assms(3) sz] by (simp add: rows_logged_def)
qed

type_synonym 'a log_call = "'a \<times> 'a \<times> 'a \<times> 'a list"

fun log_cells :: "'a::len word log_call \<Rightarrow> 'a word list" where
  "log_cells (pos, threadID, sessionID, data) = [sessionID, threadID, pos] @ data"

fun MyMemoryLog_call :: "'a::len word log_call \<Rightarrow> 'a word memory_rows \<Rightarrow> 'a word memory_rows" where
  "MyMemoryLog_call (pos, threadID, sessionID, data) =
     MyMemoryLog_MemoryLogging_data pos threadID sessionID data"

lemma MyMemoryLog_call_row: "MyMemoryLog_call c = MyMemoryLog_row (log_cells c)"
  by (cases c) (simp add: MyMemoryLog_MemoryLogging_data_def)

lemma rows_logged_last:
  "rows_logged sz xs m \<Longrightarrow> k < min (length xs) sz \<Longrightarrow>
     row m ((length xs - k) mod sz) = full_row (length xs - k) (xs ! (length xs - 1 - k))"
  by (simp add: rows_logged_def)

lemma rows_logged_calls:
  assumes "0 < sz" and "length calls < 2 ^ 64" and "\<forall>c\<in>set calls. length (log_cells c) < MAX_PROPERTY"
  shows "rows_logged sz (map log_cells calls) (fold MyMemoryLog_call calls (MyMemoryLog_ctor sz))"
  using assms(2,3)
proof (induction calls rule: rev_induct)
  case Nil
  with assms(1) show ?case by (simp add: rows_logged_ctor)
next
  case (snoc c calls)
  then have "rows_logged sz (map log_cells calls)
      (fold MyMemoryLog_call calls (MyMemoryLog_ctor sz))" by simp
  from rows_logged_row [OF this, of "log_cells c"] snoc.prems show ?case
    by (simp add: MyMemoryLog_call_row [of c])
qed

text \<open>
  The integer log holds, for each of its last \<open>sz\<close> calls, a full row: the running number of
  the call, the session, the thread, the position and the data, and zeros behind them, in the
  slot its number selects.
\<close>

theorem integer_log_keeps_last:
  assumes "0 < sz" and "length calls < 2 ^ 64" and "\<forall>c\<in>set calls. length (log_cells c) < MAX_PROPERTY"
    and "k < min (length calls) sz"
  shows "row (fold MyMemoryLog_call calls (MyMemoryLog_ctor sz)) ((length calls - k) mod sz) =
    full_row (length calls - k) (log_cells (calls ! (length calls - 1 - k)))"
proof -
  have "length calls - 1 - k < length calls" using assms(4) by linarith
  with rows_logged_last [OF rows_logged_calls [OF assms(1-3)], of k] assms(4) show ?thesis
    by simp
qed

theorem integer_log_keeps_last_witness:
  "row (fold MyMemoryLog_call [(1, 2, 3, [4, 5]), (6, 7, 8, []), (9, 10, 11, [12 :: 64 word])]
     (MyMemoryLog_ctor 2)) 1 = [3, 11, 10, 9, 12, 0, 0, 0, 0, 0]"
proof -
  have "full_row 3 [11, 10, 9, 12] = [3, 11, 10, 9, 12, 0, 0, 0, 0, 0 :: 64 word]" by code_simp
  then show ?thesis
    using integer_log_keeps_last
      [of 2 "[(1, 2, 3, [4, 5]), (6, 7, 8, []), (9, 10, 11, [12 :: 64 word])]" 0]
    by (simp flip: numeral_3_eq_3)
qed

text \<open>
  \<^verbatim>\<open>MyMemoryLog::Clear\<close> restarts the numbering but zeroes only a tenth of the buffer: every
  row that starts beyond the first \<open>sz\<close> cells keeps what it held before.
\<close>

theorem integer_log_Clear_keeps_rows:
  assumes "rows_ok sz m" and "j < sz" and "sz \<le> MAX_PROPERTY * j"
  shows "row (MyMemoryLog_Clear m) j = row m j \<and> r_Index (MyMemoryLog_Clear m) = 0 \<and>
    r_Count (MyMemoryLog_Clear m) = 0"
  using assms by (simp add: rows_ok_def row_def MyMemoryLog_Clear_def Let_def mem_write_def)

theorem integer_log_Clear_keeps_rows_witness:
  "row (MyMemoryLog_Clear (fold MyMemoryLog_call [(1, 2, 3, [4, 5]), (6, 7, 8, [9 :: 64 word])]
     (MyMemoryLog_ctor 20))) 2 = [2, 8, 7, 6, 9, 0, 0, 0, 0, 0]"
proof -
  let ?calls = "[(1, 2, 3, [4, 5]), (6, 7, 8, [9 :: 64 word])]"
  have m: "rows_logged 20 (map log_cells ?calls) (fold MyMemoryLog_call ?calls (MyMemoryLog_ctor 20))"
    by (rule rows_logged_calls) simp_all
  have "row (fold MyMemoryLog_call ?calls (MyMemoryLog_ctor 20)) 2 = full_row 2 [8, 7, 6, 9]"
    using rows_logged_last [OF m, of 0] by (simp flip: numeral_2_eq_2)
  moreover have "full_row 2 [8, 7, 6, 9] = [2, 8, 7, 6, 9, 0, 0, 0, 0, 0 :: 64 word]" by code_simp
  moreover have "rows_ok 20 (fold MyMemoryLog_call ?calls (MyMemoryLog_ctor 20))"
    using m unfolding rows_logged_def by blast
  ultimately show ?thesis
    using integer_log_Clear_keeps_rows [of 20 "fold MyMemoryLog_call ?calls (MyMemoryLog_ctor 20)" 2]
    by simp
qed

text \<open>
  \<^verbatim>\<open>FreeList_Log::DataSettiong\<close> never stores the two list heads it is given.
\<close>

lemma FreeList_Log_forgets_heads:
  "fl_TopPtr (FreeList_Log_DataSettiong no pos threadid top tempTop freeNode returnNode l) = fl_TopPtr l"
  "fl_TempTopPtr (FreeList_Log_DataSettiong no pos threadid top tempTop freeNode returnNode l) =
     fl_TempTopPtr l"
  by (simp_all add: FreeList_Log_DataSettiong_def)

end
