(* ===== verification/Retry.thy ===== *)
theory Retry
  imports Prelude
begin

text \<open>
  Loops of the form \<^verbatim>\<open>while (!attempt()) { }\<close>, which the program writes around opening a log
  file and around connecting to a data base.  Nothing in the program bounds them, so a loop
  that never succeeds, or one with an attempt that does not return, is the value \<^const>\<open>None\<close>; \<open>retry_iff\<close> says exactly when one returns.
\<close>

partial_function (option) retry :: "('s \<Rightarrow> (bool \<times> 's) run option) \<Rightarrow> 's \<Rightarrow> 's run option" where
  "retry attempt s =
     (case attempt s of
        None \<Rightarrow> None
      | Some (Inl e) \<Rightarrow> Some (Inl e)
      | Some (Inr (ok, s')) \<Rightarrow> if ok then Some (Inr s') else retry attempt s')"

text \<open>Steps that may not return, one after the other.\<close>

definition andthen :: "'a run option \<Rightarrow> ('a \<Rightarrow> 'b run option) \<Rightarrow> 'b run option" where
  "andthen m f =
     (case m of None \<Rightarrow> None | Some (Inl e) \<Rightarrow> Some (Inl e) | Some (Inr x) \<Rightarrow> f x)"

definition after :: "'a run option \<Rightarrow> ('a \<Rightarrow> 'b run) \<Rightarrow> 'b run option" where
  "after m f = andthen m (\<lambda>x. Some (f x))"

lemma andthen_simps [simp]:
  "andthen None f = None"
  "andthen (Some (Inl e)) f = Some (Inl e)"
  "andthen (Some (Inr x)) f = f x"
  by (simp_all add: andthen_def)

lemma after_simps [simp]:
  "after None g = None"
  "after (Some r) g = Some (bnd r g)"
  by (simp_all add: after_def) (cases r, simp_all)

lemma after_eq_None [simp]: "after m g = None \<longleftrightarrow> m = None"
  by (cases m) simp_all

text \<open>The states the attempts go through while they fail.\<close>

inductive failing :: "('s \<Rightarrow> (bool \<times> 's) run option) \<Rightarrow> 's \<Rightarrow> 's \<Rightarrow> bool" for attempt where
  failing_refl: "failing attempt s s"
| failing_step: "attempt s = Some (Inr (False, s')) \<Longrightarrow> failing attempt s' t \<Longrightarrow> failing attempt s t"

lemma retry_success: "attempt s = Some (Inr (True, s')) \<Longrightarrow> retry attempt s = Some (Inr s')"
  by (subst retry.simps) simp

lemma retry_fault: "attempt s = Some (Inl e) \<Longrightarrow> retry attempt s = Some (Inl e)"
  by (subst retry.simps) simp

lemma retry_again: "attempt s = Some (Inr (False, s')) \<Longrightarrow> retry attempt s = retry attempt s'"
  by (subst retry.simps) simp

lemmas retry_cases = retry_success retry_fault retry_again

lemma failing_retry: "failing attempt s t \<Longrightarrow> retry attempt s = retry attempt t"
  by (induction rule: failing.induct) (simp_all add: retry_again)

lemma retry_trace:
  "retry attempt s = Some r \<Longrightarrow>
     \<exists>t. failing attempt s t \<and>
       (case r of Inl e \<Rightarrow> attempt t = Some (Inl e) | Inr s' \<Rightarrow> attempt t = Some (Inr (True, s')))"
proof (induction attempt s r rule: retry.raw_induct [rotated, consumes 1, case_names step])
  case (step loop attempt s r)
  show ?case
  proof (cases "attempt s")
    case None
    with step(2) show ?thesis by simp
  next
    case (Some a)
    show ?thesis
    proof (cases a)
      case (Inl e)
      with Some step(2) have "r = Inl e" by simp
      with Some Inl failing.intros(1) [of attempt s] show ?thesis by auto
    next
      case (Inr p)
      obtain ok s' where p: "p = (ok, s')" by (cases p)
      show ?thesis
      proof (cases ok)
        case True
        with step(2) Some Inr p have "r = Inr s'" "attempt s = Some (Inr (True, s'))" by simp_all
        with failing.intros(1) [of attempt s] show ?thesis by auto
      next
        case False
        with Some Inr p have fails: "attempt s = Some (Inr (False, s'))" by simp
        with step(2) have "loop attempt s' = Some r" by simp
        from step(1) [OF this] fails show ?thesis by (blast intro: failing.intros)
      qed
    qed
  qed
qed

text \<open>A loop returns exactly when, after finitely many failures, an attempt does something else.\<close>

theorem retry_iff:
  "retry attempt s = Some r \<longleftrightarrow>
     (\<exists>t. failing attempt s t \<and>
       (case r of Inl e \<Rightarrow> attempt t = Some (Inl e) | Inr s' \<Rightarrow> attempt t = Some (Inr (True, s'))))"
  (is "?l \<longleftrightarrow> ?r")
proof
  assume ?l
  then show ?r by (rule retry_trace)
next
  assume ?r
  then obtain t where t: "failing attempt s t"
      "case r of Inl e \<Rightarrow> attempt t = Some (Inl e) | Inr s' \<Rightarrow> attempt t = Some (Inr (True, s'))"
    by blast
  have "retry attempt s = retry attempt t" by (rule failing_retry [OF t(1)])
  also have "retry attempt t = Some r"
    using t(2) by (cases r) (simp_all add: retry_success retry_fault)
  finally show ?l .
qed

lemma retry_never:
  assumes "\<And>t. failing attempt s t \<Longrightarrow> attempt t = None \<or> (\<exists>t'. attempt t = Some (Inr (False, t')))"
  shows "retry attempt s = None"
proof (cases "retry attempt s")
  case (Some r)
  from retry_trace [OF this] obtain t where t: "failing attempt s t"
      "case r of Inl e \<Rightarrow> attempt t = Some (Inl e) | Inr s' \<Rightarrow> attempt t = Some (Inr (True, s'))"
    by blast
  from assms [OF t(1)] t(2) show ?thesis by (cases r) auto
qed simp

end
