(* ===== verification/ThreadSlots.thy ===== *)
theory ThreadSlots
  imports Retry
begin

text \<open>
  Objects that every thread has one of.  The profiler and the two data base connectors keep them
  alike: a thread that \<^verbatim>\<open>TlsGetValue\<close> answers null for makes an object, enters its pointer in an
  array at \<^verbatim>\<open>InterlockedIncrement(&index)\<close>, which is never compared with the array's length, and
  remembers it with \<^verbatim>\<open>TlsSetValue\<close>.  A pointer is the position of the object in \<open>ts_Objects\<close>.
\<close>

record 'o thread_slots =
  ts_Objects :: "'o list"
  ts_Array :: "nat option list"
  ts_Index :: int
  ts_Value :: "32 word \<Rightarrow> nat option"

definition slots_new :: "nat \<Rightarrow> 'o thread_slots" where
  "slots_new n =
     \<lparr>ts_Objects = [], ts_Array = replicate n None, ts_Index = - 1, ts_Value = Map.empty\<rparr>"

text \<open>Make an object and enter it in the array.\<close>

definition slots_enter :: "'o \<Rightarrow> 'o thread_slots \<Rightarrow> (nat \<times> 'o thread_slots) run" where
  "slots_enter new s =
     (let ptr = length (ts_Objects s); index = ts_Index s + 1
      in if 0 \<le> index \<and> nat index < length (ts_Array s)
         then Inr (ptr, s\<lparr>ts_Objects := ts_Objects s @ [new], ts_Index := index,
                ts_Array := (ts_Array s)[nat index := Some ptr]\<rparr>)
         else Inl OutOfBounds)"

definition slots_set :: "32 word \<Rightarrow> nat \<Rightarrow> 'o thread_slots \<Rightarrow> 'o thread_slots" where
  "slots_set thread ptr s = s\<lparr>ts_Value := (ts_Value s)(thread \<mapsto> ptr)\<rparr>"

definition slots_update :: "nat \<Rightarrow> 'o \<Rightarrow> 'o thread_slots \<Rightarrow> 'o thread_slots" where
  "slots_update ptr x s = s\<lparr>ts_Objects := (ts_Objects s)[ptr := x]\<rparr>"

text \<open>
  Well formed: the array's entries up to the index are the objects in the order they were made,
  and no two threads share one.
\<close>

definition slots_ok :: "'o thread_slots \<Rightarrow> bool" where
  "slots_ok s \<longleftrightarrow>
     ts_Index s = int (length (ts_Objects s)) - 1 \<and> length (ts_Objects s) \<le> length (ts_Array s) \<and>
     (\<forall>i < length (ts_Objects s). ts_Array s ! i = Some i) \<and>
     (\<forall>t ptr. ts_Value s t = Some ptr \<longrightarrow> ptr < length (ts_Objects s)) \<and>
     inj_on (ts_Value s) (dom (ts_Value s))"

lemma slots_ok_new: "slots_ok (slots_new n)"
  by (simp add: slots_ok_def slots_new_def)

lemma slots_ok_enter:
  "slots_ok s \<Longrightarrow> slots_enter x s = Inr (ptr, s') \<Longrightarrow>
     slots_ok s' \<and> ptr = length (ts_Objects s) \<and> ts_Objects s' = ts_Objects s @ [x] \<and>
     ts_Value s' = ts_Value s \<and> ptr \<notin> ran (ts_Value s)"
  by (auto simp: slots_ok_def slots_enter_def Let_def nth_append nth_list_update ran_def
      less_Suc_eq split: if_splits)

lemma slots_ok_set:
  assumes "slots_ok s" and "ptr < length (ts_Objects s)" and "ptr \<notin> ran (ts_Value s)"
  shows "slots_ok (slots_set thread ptr s)"
proof -
  have "inj_on ((ts_Value s)(thread \<mapsto> ptr)) (dom ((ts_Value s)(thread \<mapsto> ptr)))"
    using assms(1,3) by (auto simp: slots_ok_def inj_on_def ran_def dom_def)
  with assms(1,2) show ?thesis by (auto simp: slots_ok_def slots_set_def)
qed

lemma slots_ok_update [simp]: "slots_ok (slots_update ptr x s) = slots_ok s"
  by (simp add: slots_ok_def slots_update_def)

lemma slots_update_fields [simp]:
  "ts_Value (slots_update ptr x s) = ts_Value s"
  "length (ts_Objects (slots_update ptr x s)) = length (ts_Objects s)"
  by (simp_all add: slots_update_def)

text \<open>The array takes exactly as many objects as it has entries; the next one is written past it.\<close>

lemma slots_enter_iff:
  "slots_ok s \<Longrightarrow>
     (slots_enter x s = Inl OutOfBounds \<longleftrightarrow> length (ts_Objects s) = length (ts_Array s)) \<and>
     (\<forall>e. slots_enter x s = Inl e \<longrightarrow> e = OutOfBounds)"
  by (auto simp: slots_ok_def slots_enter_def Let_def split: if_splits)

lemma slots_enter_room:
  "slots_ok s \<Longrightarrow> length (ts_Objects s) < length (ts_Array s) \<Longrightarrow>
     slots_enter x s = Inr (length (ts_Objects s),
       s\<lparr>ts_Objects := ts_Objects s @ [x], ts_Index := ts_Index s + 1,
         ts_Array := (ts_Array s)[length (ts_Objects s) := Some (length (ts_Objects s))]\<rparr>)"
  by (simp add: slots_ok_def slots_enter_def Let_def)

section \<open>Objects that have to be connected first\<close>

text \<open>
  \<^verbatim>\<open>GetPointerTLS\<close> of both connectors: a thread without an object makes one, enters it in the
  array, prepares the arguments of the connection, and then tries to connect until it succeeds;
  only then is the object remembered for the thread.  The second component of the state is what
  the attempts change besides the object.
\<close>

definition slots_connect ::
  "'o \<Rightarrow> 'p run \<Rightarrow> ('p \<Rightarrow> 'o \<times> 'l \<Rightarrow> (bool \<times> 'o \<times> 'l) run option) \<Rightarrow> 32 word
   \<Rightarrow> 'o thread_slots \<times> 'l \<Rightarrow> (nat \<times> 'o thread_slots \<times> 'l) run option" where
  "slots_connect new prepare connect thread sl =
     (let (s, l) = sl in
      case ts_Value s thread of
        Some ptr \<Rightarrow> Some (Inr (ptr, s, l))
      | None \<Rightarrow>
          andthen (Some (slots_enter new s)) (\<lambda>(ptr, s).
          andthen (Some prepare) (\<lambda>arg.
          after (retry (connect arg) (new, l)) (\<lambda>(obj, l).
            Inr (ptr, slots_set thread ptr (slots_update ptr obj s), l)))))"

lemma slots_connect_known:
  "ts_Value s thread = Some ptr \<Longrightarrow> slots_connect new prepare connect thread (s, l) = Some (Inr (ptr, s, l))"
  by (simp add: slots_connect_def)

lemma slots_connect_full:
  "slots_ok s \<Longrightarrow> ts_Value s thread = None \<Longrightarrow> length (ts_Objects s) = length (ts_Array s) \<Longrightarrow>
     slots_connect new prepare connect thread (s, l) = Some (Inl OutOfBounds)"
  using slots_enter_iff [of s new] by (simp add: slots_connect_def)

text \<open>
  With room in the array, the call is its loop: it ends as the loop ends, and when the loop
  succeeds the thread has a new object of its own.
\<close>

lemma slots_connect_loop:
  assumes "slots_ok s" and "ts_Value s thread = None" and "length (ts_Objects s) < length (ts_Array s)"
    and "prepare = Inr arg"
  shows "retry (connect arg) (new, l) = None \<Longrightarrow> slots_connect new prepare connect thread (s, l) = None"
    and "retry (connect arg) (new, l) = Some (Inl e) \<Longrightarrow>
      slots_connect new prepare connect thread (s, l) = Some (Inl e)"
    and "retry (connect arg) (new, l) = Some (Inr (obj, l')) \<Longrightarrow>
      \<exists>s'. slots_connect new prepare connect thread (s, l) = Some (Inr (length (ts_Objects s), s', l')) \<and>
        slots_ok s' \<and> ts_Objects s' = ts_Objects s @ [obj] \<and>
        ts_Value s' = (ts_Value s)(thread \<mapsto> length (ts_Objects s))"
proof -
  obtain s1 where enter: "slots_enter new s = Inr (length (ts_Objects s), s1)"
    using slots_enter_room [OF assms(1,3), of new] by blast
  show "retry (connect arg) (new, l) = None \<Longrightarrow> slots_connect new prepare connect thread (s, l) = None"
    and "retry (connect arg) (new, l) = Some (Inl e) \<Longrightarrow>
      slots_connect new prepare connect thread (s, l) = Some (Inl e)"
    using assms(2,4) enter by (simp_all add: slots_connect_def)
  assume loop: "retry (connect arg) (new, l) = Some (Inr (obj, l'))"
  let ?ptr = "length (ts_Objects s)"
  let ?s = "slots_set thread ?ptr (slots_update ?ptr obj s1)"
  from slots_ok_enter [OF assms(1) enter] have s1: "slots_ok s1" "ts_Objects s1 = ts_Objects s @ [new]"
      "ts_Value s1 = ts_Value s" "?ptr \<notin> ran (ts_Value s)"
    by simp_all
  have "slots_ok ?s"
    using s1 by (intro slots_ok_set) simp_all
  moreover have "ts_Objects ?s = ts_Objects s @ [obj]" "ts_Value ?s = (ts_Value s)(thread \<mapsto> ?ptr)"
    using s1 by (simp_all add: slots_set_def slots_update_def)
  moreover have "slots_connect new prepare connect thread (s, l) = Some (Inr (?ptr, ?s, l'))"
    using assms(2,4) enter loop by (simp add: slots_connect_def)
  ultimately show "\<exists>s'. slots_connect new prepare connect thread (s, l) =
      Some (Inr (length (ts_Objects s), s', l')) \<and>
    slots_ok s' \<and> ts_Objects s' = ts_Objects s @ [obj] \<and>
    ts_Value s' = (ts_Value s)(thread \<mapsto> length (ts_Objects s))"
    by blast
qed

end
