(* ===== verification/Profiler.thy ===== *)
theory Profiler
  imports WideText ThreadSlots "HOL-Library.Multiset"
begin

text \<open>
  The profiler of \<^verbatim>\<open>Profiler.cpp\<close>: every thread has an array of a hundred tags, found through
  thread local storage (\<open>ThreadSlots\<close>), and every tag the statistics of its samples.  The time
  stamps that \<^verbatim>\<open>QueryPerformanceCounter\<close> answers and the identity of the calling thread are
  arguments.
\<close>

section \<open>Samples\<close>

record ProfileData =
  pd_StartTime :: "64 word"
  pd_TotalTime :: "64 word"
  pd_Min :: "64 word \<times> 64 word"
  pd_Max :: "64 word \<times> 64 word"
  pd_Call :: "64 word"

definition MAXINT64 :: "64 word" where "MAXINT64 = 0x7FFFFFFFFFFFFFFF"
definition MININT64 :: "64 word" where "MININT64 = 0x8000000000000000"

definition ProfileData_ctor :: ProfileData where
  "ProfileData_ctor =
     \<lparr>pd_StartTime = 0, pd_TotalTime = 0, pd_Min = (MAXINT64, MAXINT64),
      pd_Max = (MININT64, MININT64), pd_Call = 0\<rparr>"

definition max_setting :: "64 word \<Rightarrow> 64 word \<times> 64 word \<Rightarrow> 64 word \<times> 64 word" where
  "max_setting workingTime m =
     (if fst m <s workingTime then (workingTime, fst m)
      else if snd m <s workingTime then (fst m, workingTime)
      else m)"

definition min_setting :: "64 word \<Rightarrow> 64 word \<times> 64 word \<Rightarrow> 64 word \<times> 64 word" where
  "min_setting workingTime m =
     (if workingTime <s fst m then (workingTime, fst m)
      else if workingTime <s snd m then (fst m, workingTime)
      else m)"

text \<open>What \<^verbatim>\<open>ProfileEnd\<close> does with the working time.\<close>

definition add_sample :: "64 word \<Rightarrow> ProfileData \<Rightarrow> ProfileData" where
  "add_sample workingTime d =
     d\<lparr>pd_TotalTime := pd_TotalTime d + workingTime, pd_Call := pd_Call d + 1,
       pd_Max := max_setting workingTime (pd_Max d),
       pd_Min := min_setting workingTime (pd_Min d)\<rparr>"

section \<open>Tags and threads\<close>

record ProfileInfo =
  pi_TagName :: wtext
  pi_SampleData :: ProfileData
  pi_bUsed :: bool
  pi_ThreadID :: "32 word"

definition ProfileInfo_ctor :: ProfileInfo where
  "ProfileInfo_ctor =
     \<lparr>pi_TagName = [], pi_SampleData = ProfileData_ctor, pi_bUsed = False, pi_ThreadID = 0\<rparr>"

type_synonym Profiler = "ProfileInfo list thread_slots"

abbreviation MAX_INFO :: nat where "MAX_INFO \<equiv> 100"
abbreviation TAG_MAX :: nat where "TAG_MAX \<equiv> 100"

definition Profiler_ctor :: Profiler where
  "Profiler_ctor = slots_new MAX_INFO"

text \<open>The first position at which a test holds, as the two search loops find it.\<close>

primrec first_index :: "('a \<Rightarrow> bool) \<Rightarrow> 'a list \<Rightarrow> nat option" where
  "first_index P [] = None"
| "first_index P (x # xs) = (if P x then Some 0 else map_option Suc (first_index P xs))"

definition update_info ::
  "nat \<Rightarrow> nat \<Rightarrow> (ProfileInfo \<Rightarrow> ProfileInfo) \<Rightarrow> Profiler \<Rightarrow> Profiler" where
  "update_info block i f p =
     slots_update block ((ts_Objects p ! block)[i := f (ts_Objects p ! block ! i)]) p"

text \<open>\<^verbatim>\<open>TlsGetValue\<close>, and for a thread that is new a fresh array, entered in the manager.\<close>

definition thread_block :: "32 word \<Rightarrow> Profiler \<Rightarrow> (nat \<times> Profiler) run" where
  "thread_block thread p =
     (case ts_Value p thread of
        Some block \<Rightarrow> Inr (block, p)
      | None \<Rightarrow>
          bnd (slots_enter (replicate TAG_MAX ProfileInfo_ctor) p) (\<lambda>(block, p).
          Inr (block, slots_set thread block p)))"

text \<open>
  \<^verbatim>\<open>wcscpy_s\<close> ends the process when the name does not fit its 128 units.  A name that has no
  slot when all are used is dropped without a word.
\<close>

definition ProfileBegin :: "32 word \<Rightarrow> 64 word \<Rightarrow> wtext \<Rightarrow> Profiler \<Rightarrow> Profiler run" where
  "ProfileBegin thread beginTime name p =
     bnd (thread_block thread p) (\<lambda>(block, p).
       case first_index (\<lambda>i. pi_TagName i = name) (ts_Objects p ! block) of
         Some i \<Rightarrow>
           Inr (update_info block i
             (\<lambda>info. info\<lparr>pi_SampleData := (pi_SampleData info)\<lparr>pd_StartTime := beginTime\<rparr>\<rparr>) p)
       | None \<Rightarrow>
           (case first_index (\<lambda>i. \<not> pi_bUsed i) (ts_Objects p ! block) of
              None \<Rightarrow> Inr p
            | Some i \<Rightarrow>
                if length name < 128
                then Inr (update_info block i
                  (\<lambda>info. info\<lparr>pi_bUsed := True, pi_TagName := name, pi_ThreadID := thread,
                     pi_SampleData := (pi_SampleData info)\<lparr>pd_StartTime := beginTime\<rparr>\<rparr>) p)
                else Inl Crash))"

definition ProfileEnd :: "32 word \<Rightarrow> 64 word \<Rightarrow> wtext \<Rightarrow> Profiler \<Rightarrow> Profiler run" where
  "ProfileEnd thread endTime name p =
     (case ts_Value p thread of
        None \<Rightarrow> Inl Crash
      | Some block \<Rightarrow>
          (case first_index (\<lambda>i. pi_TagName i = name) (ts_Objects p ! block) of
             None \<Rightarrow> Inl Crash
           | Some i \<Rightarrow>
               Inr (update_info block i
                 (\<lambda>info. info\<lparr>pi_SampleData :=
                    add_sample (endTime - pd_StartTime (pi_SampleData info)) (pi_SampleData info)\<rparr>) p)))"

text \<open>\<^verbatim>\<open>ProfileReset\<close> has its whole body commented out.\<close>

definition ProfileReset :: "Profiler \<Rightarrow> Profiler" where
  "ProfileReset p = p"

text \<open>
  The two operands of the average that \<^verbatim>\<open>ProfileDataOutText\<close> prints for a used tag; the division
  is in \<^verbatim>\<open>double\<close> and the text goes to a file.
\<close>

definition average_operands :: "ProfileData \<Rightarrow> int \<times> int" where
  "average_operands d =
     (sint (pd_TotalTime d -
        (fst (pd_Max d) + snd (pd_Max d) + fst (pd_Min d) + snd (pd_Min d))),
      sint (pd_Call d) - 4)"

section \<open>Selecting the extremes\<close>

lemma sort_snoc: "sort (xs @ [x]) = insort x (sort (xs :: int list))"
  by (rule properties_for_sort) (simp_all add: sorted_insort)

lemma insort_top:
  assumes "sorted (ys @ [b, a :: int])"
  shows "take 2 (rev (insort t (ys @ [b, a]))) =
    (if a < t then [t, a] else if b < t then [a, t] else [a, b])"
proof -
  have "b \<le> a" "\<forall>y\<in>set ys. y \<le> b" using assms by (auto simp: sorted_append)
  then have "insort t (ys @ [b, a]) =
      (if a < t then ys @ [b, a, t] else if b < t then ys @ [b, t, a] else insort t ys @ [b, a])"
  proof (induction ys)
    case (Cons y ys)
    then show ?case by (cases "t \<le> y") auto
  qed auto
  then show ?thesis by simp
qed

lemma top_two_insort:
  assumes "take 2 (rev (sort xs)) = [a, b :: int]"
  shows "take 2 (rev (sort (xs @ [t]))) =
    (if a < t then [t, a] else if b < t then [a, t] else [a, b])"
proof -
  obtain ys where "rev (sort xs) = a # b # ys"
    using assms by (cases "rev (sort xs)"; cases "tl (rev (sort xs))") auto
  then have ys: "sort xs = rev ys @ [b, a]" by (simp add: rev_eq_Cons_iff)
  have "sorted (sort xs)" by simp
  with insort_top [of "rev ys" b a t] show ?thesis
    unfolding sort_snoc ys by simp
qed

lemma bottom_two_insort:
  assumes "take 2 (sort xs) = [a, b :: int]"
  shows "take 2 (sort (xs @ [t])) =
    (if t < a then [t, a] else if t < b then [a, t] else [a, b])"
proof -
  obtain ys where ys: "sort xs = a # b # ys"
    using assms by (cases "sort xs"; cases "tl (sort xs)") auto
  have "sorted (sort xs)" by simp
  then show ?thesis unfolding sort_snoc ys by auto
qed

text \<open>A pair of a sample record as the two numbers it stands for.\<close>

definition two :: "64 word \<times> 64 word \<Rightarrow> int list" where
  "two m = [sint (fst m), sint (snd m)]"

lemma two_max: "two (max_setting t m) =
    (if sint (fst m) < sint t then [sint t, sint (fst m)]
     else if sint (snd m) < sint t then [sint (fst m), sint t] else two m)"
  by (simp add: two_def max_setting_def word_sless_alt)

lemma two_min: "two (min_setting t m) =
    (if sint t < sint (fst m) then [sint t, sint (fst m)]
     else if sint t < sint (snd m) then [sint (fst m), sint t] else two m)"
  by (simp add: two_def min_setting_def word_sless_alt)

text \<open>What a record holds after the samples \<open>ws\<close>: the sentinels count as samples.\<close>

definition sampled :: "64 word list \<Rightarrow> ProfileData \<Rightarrow> bool" where
  "sampled ws d \<longleftrightarrow>
     two (pd_Max d) = take 2 (rev (sort (map sint ([MININT64, MININT64] @ ws)))) \<and>
     two (pd_Min d) = take 2 (sort (map sint ([MAXINT64, MAXINT64] @ ws))) \<and>
     pd_Call d = of_nat (length ws) \<and> pd_TotalTime d = sum_list ws"

lemma sampled_ctor: "sampled [] ProfileData_ctor"
  by (simp add: sampled_def ProfileData_ctor_def two_def)

lemma sampled_start [simp]: "sampled ws (d\<lparr>pd_StartTime := b\<rparr>) = sampled ws d"
  by (simp add: sampled_def)

lemma sampled_add_sample:
  assumes "sampled ws d"
  shows "sampled (ws @ [t]) (add_sample t d)"
proof -
  let ?lo = "map sint ([MININT64, MININT64] @ ws)" and ?hi = "map sint ([MAXINT64, MAXINT64] @ ws)"
  have snoc: "map sint ([MININT64, MININT64] @ ws @ [t]) = ?lo @ [sint t]"
      "map sint ([MAXINT64, MAXINT64] @ ws @ [t]) = ?hi @ [sint t]"
    by simp_all
  have "take 2 (rev (sort ?lo)) = [sint (fst (pd_Max d)), sint (snd (pd_Max d))]"
      "take 2 (sort ?hi) = [sint (fst (pd_Min d)), sint (snd (pd_Min d))]"
    using assms unfolding sampled_def two_def by metis+
  from top_two_insort [OF this(1), of "sint t"] bottom_two_insort [OF this(2), of "sint t"]
  have "two (max_setting t (pd_Max d)) = take 2 (rev (sort (?lo @ [sint t])))"
      "two (min_setting t (pd_Min d)) = take 2 (sort (?hi @ [sint t]))"
    unfolding two_max two_min unfolding two_def by (simp_all only:)
  with assms show ?thesis
    unfolding sampled_def snoc by (simp add: add_sample_def)
qed

lemma sampled_fold: "sampled ws d \<Longrightarrow> sampled (ws @ ts) (fold add_sample ts d)"
proof (induction ts arbitrary: ws d)
  case (Cons t ts)
  from Cons.IH [OF sampled_add_sample [OF Cons.prems, of t]] show ?case by simp
qed simp

section \<open>A thread that profiles one tag\<close>

lemma first_index_Some:
  "first_index P xs = Some i \<Longrightarrow> i < length xs \<and> P (xs ! i) \<and> (\<forall>j<i. \<not> P (xs ! j))"
proof (induction xs arbitrary: i)
  case (Cons x xs)
  then show ?case by (auto split: if_splits simp: nth_Cons split: nat.splits)
qed simp

lemma first_index_None: "first_index P xs = None \<longleftrightarrow> (\<forall>x\<in>set xs. \<not> P x)"
  by (induction xs) auto

lemma first_index_replicate: "\<not> P x \<Longrightarrow> first_index P (replicate n x) = None"
  by (simp add: first_index_None)

text \<open>The tag's slot is the first one of the thread's array, and it holds the samples \<open>ws\<close>.\<close>

definition profiled :: "32 word \<Rightarrow> wtext \<Rightarrow> 64 word list \<Rightarrow> Profiler \<Rightarrow> bool" where
  "profiled thread name ws p \<longleftrightarrow>
     (\<exists>block info rest. ts_Value p thread = Some block \<and> block < length (ts_Objects p) \<and>
        ts_Objects p ! block = info # rest \<and> pi_TagName info = name \<and> pi_bUsed info \<and>
        sampled ws (pi_SampleData info))"

lemma ProfileBegin_again:
  assumes "profiled thread name ws p"
  shows "\<exists>p'. ProfileBegin thread b name p = Inr p' \<and> profiled thread name ws p' \<and>
    (\<exists>block info rest. ts_Value p' thread = Some block \<and> ts_Objects p' ! block = info # rest \<and>
       pd_StartTime (pi_SampleData info) = b)"
  using assms
  by (auto simp: profiled_def ProfileBegin_def thread_block_def update_info_def slots_update_def)

lemma ProfileBegin_first:
  assumes "name \<noteq> []" and "length name < 128"
  shows "\<exists>p'. ProfileBegin thread b name Profiler_ctor = Inr p' \<and> profiled thread name [] p' \<and>
    (\<exists>block info rest. ts_Value p' thread = Some block \<and> ts_Objects p' ! block = info # rest \<and>
       pd_StartTime (pi_SampleData info) = b)"
proof -
  have one: "replicate TAG_MAX ProfileInfo_ctor = ProfileInfo_ctor # replicate 99 ProfileInfo_ctor"
    using replicate_Suc [of 99 ProfileInfo_ctor] by simp
  have "first_index (\<lambda>i. pi_TagName i = name) (replicate TAG_MAX ProfileInfo_ctor) = None"
    using assms(1) by (intro first_index_replicate) (simp add: ProfileInfo_ctor_def)
  then show ?thesis
    using assms(2)
    by (simp add: ProfileBegin_def thread_block_def Profiler_ctor_def Let_def one update_info_def
        profiled_def slots_new_def slots_enter_def slots_set_def slots_update_def) (simp add: ProfileInfo_ctor_def sampled_ctor)
qed

lemma ProfileEnd_sample:
  assumes "profiled thread name ws p"
    and "ts_Value p thread = Some block" "ts_Objects p ! block = info # rest"
    and "pd_StartTime (pi_SampleData info) = b"
  shows "\<exists>p'. ProfileEnd thread e name p = Inr p' \<and> profiled thread name (ws @ [e - b]) p'"
  using assms sampled_add_sample [of ws "pi_SampleData info" "e - b"]
  by (auto simp: profiled_def ProfileEnd_def update_info_def slots_update_def)

primrec profile_runs ::
  "32 word \<Rightarrow> wtext \<Rightarrow> (64 word \<times> 64 word) list \<Rightarrow> Profiler \<Rightarrow> Profiler run" where
  "profile_runs thread name [] p = Inr p"
| "profile_runs thread name (be # bes) p =
     bnd (ProfileBegin thread (fst be) name p) (\<lambda>p.
     bnd (ProfileEnd thread (snd be) name p) (profile_runs thread name bes))"

lemma profile_runs_profiled:
  "profiled thread name ws p \<Longrightarrow>
   \<exists>p'. profile_runs thread name bes p = Inr p' \<and>
     profiled thread name (ws @ map (\<lambda>(b, e). e - b) bes) p'"
proof (induction bes arbitrary: ws p)
  case Nil
  then show ?case by simp
next
  case (Cons be bes)
  obtain b e where be: "be = (b, e)" by (cases be)
  from ProfileBegin_again [OF Cons.prems, of b] obtain p1 block info rest where p1:
      "ProfileBegin thread b name p = Inr p1" "profiled thread name ws p1"
      "ts_Value p1 thread = Some block" "ts_Objects p1 ! block = info # rest"
      "pd_StartTime (pi_SampleData info) = b"
    by blast
  from ProfileEnd_sample [OF p1(2-5), of e] obtain p2 where p2:
      "ProfileEnd thread e name p1 = Inr p2" "profiled thread name (ws @ [e - b]) p2"
    by blast
  from Cons.IH [OF p2(2)] p1(1) p2(1) be show ?case by simp
qed

text \<open>
  After any number of begin and end pairs of one tag on one thread, started on a fresh
  profiler, the tag's record holds exactly the number of pairs, the sum of their working times,
  and the two largest and the two smallest of them among the sentinels it began with.
\<close>

theorem profiler_statistics:
  assumes "name \<noteq> []" and "length name < 128"
  shows "\<exists>p' block info rest. profile_runs thread name (be # bes) Profiler_ctor = Inr p' \<and>
    ts_Value p' thread = Some block \<and> ts_Objects p' ! block = info # rest \<and> pi_TagName info = name \<and>
    (let d = pi_SampleData info; ws = map (\<lambda>(b, e). e - b) (be # bes)
     in pd_Call d = of_nat (length ws) \<and> pd_TotalTime d = sum_list ws \<and>
        two (pd_Max d) = take 2 (rev (sort (map sint ([MININT64, MININT64] @ ws)))) \<and>
        two (pd_Min d) = take 2 (sort (map sint ([MAXINT64, MAXINT64] @ ws))))"
proof -
  obtain b e where be: "be = (b, e)" by (cases be)
  from ProfileBegin_first [OF assms, of thread b] obtain p1 block info rest where p1:
      "ProfileBegin thread b name Profiler_ctor = Inr p1" "profiled thread name [] p1"
      "ts_Value p1 thread = Some block" "ts_Objects p1 ! block = info # rest"
      "pd_StartTime (pi_SampleData info) = b"
    by blast
  from ProfileEnd_sample [OF p1(2-5), of e] obtain p2 where p2:
      "ProfileEnd thread e name p1 = Inr p2" "profiled thread name [e - b] p2"
    by auto
  from profile_runs_profiled [OF p2(2), of bes] obtain p' where p':
      "profile_runs thread name bes p2 = Inr p'"
      "profiled thread name ([e - b] @ map (\<lambda>(b, e). e - b) bes) p'"
    by blast
  from p1(1) p2(1) p'(1) be have "profile_runs thread name (be # bes) Profiler_ctor = Inr p'"
    by simp
  with p'(2) be show ?thesis
    by (simp add: profiled_def sampled_def Let_def) blast
qed

theorem profiler_statistics_witness:
  "\<exists>p' block info rest. profile_runs 9 (wide ''tag'') [(10, 17), (20, 23)] Profiler_ctor = Inr p' \<and>
    ts_Value p' 9 = Some block \<and> ts_Objects p' ! block = info # rest \<and> pi_TagName info = wide ''tag'' \<and>
    pd_Call (pi_SampleData info) = 2 \<and> pd_TotalTime (pi_SampleData info) = 10 \<and>
    two (pd_Max (pi_SampleData info)) = [7, 3] \<and> two (pd_Min (pi_SampleData info)) = [3, 7]"
proof -
  have sorts: "take 2 (rev (sort (map sint [MININT64, MININT64, 7, 3]))) = [7, 3]"
      "take 2 (sort (map sint [MAXINT64, MAXINT64, 7, 3])) = [3, 7]"
    by (simp_all add: MININT64_def MAXINT64_def)
  have "wide ''tag'' \<noteq> []" "length (wide ''tag'') < 128" by (simp_all add: wide_def)
  from profiler_statistics [OF this, of 9 "(10, 17)" "[(20, 23)]"] sorts show ?thesis
    by (simp add: Let_def)
qed

section \<open>The average\<close>

lemma sum_sint: "of_int (sum_list (map sint ws)) = (sum_list ws :: 64 word)"
  by (induction ws) simp_all

lemma sort_two_large: "\<forall>x\<in>set xs. x \<le> m \<Longrightarrow> sort ([m, m] @ xs) = sort xs @ [m, m :: int]"
  by (rule properties_for_sort) (auto simp: sorted_append)

lemma sort_two_small: "\<forall>x\<in>set xs. m \<le> x \<Longrightarrow> sort ([m, m] @ xs) = [m, m :: int] @ sort xs"
  by (rule properties_for_sort) auto

lemma sint_bounds: "sint MININT64 \<le> sint (w :: 64 word)" "sint w \<le> sint MAXINT64"
  using sint_ge [of w] sint_lt [of w] by (simp_all add: MININT64_def MAXINT64_def)

text \<open>The samples without the two largest and the two smallest.\<close>

definition trimmed :: "64 word list \<Rightarrow> int list" where
  "trimmed ws = drop 2 (take (length ws - 2) (sort (map sint ws)))"

lemma sum_list_sort: "sum_list (sort xs) = sum_list (xs :: int list)"
  by (metis mset_sort sum_mset_sum_list)

lemma extremes_and_trimmed:
  assumes "sampled ws d" and "4 \<le> length ws"
  shows "sum_list (two (pd_Max d)) + sum_list (two (pd_Min d)) + sum_list (trimmed ws) =
    sum_list (map sint ws)"
proof -
  let ?s = "sort (map sint ws)" and ?n = "length ws"
  have "two (pd_Max d) = take 2 (rev ([sint MININT64, sint MININT64] @ ?s))"
    using assms(1) sort_two_small [of "map sint ws" "sint MININT64"] sint_bounds
    by (simp add: sampled_def)
  then have max: "two (pd_Max d) = rev (drop (?n - 2) ?s)"
    using assms(2) by (simp add: take_rev)
  have "two (pd_Min d) = take 2 (?s @ [sint MAXINT64, sint MAXINT64])"
    using assms(1) sort_two_large [of "map sint ws" "sint MAXINT64"] sint_bounds
    by (simp add: sampled_def)
  then have min: "two (pd_Min d) = take 2 ?s"
    using assms(2) by simp
  have "?s = take 2 ?s @ trimmed ws @ drop (?n - 2) ?s"
  proof -
    have "take (?n - 2) ?s = take 2 ?s @ trimmed ws"
    proof -
      have "2 \<le> ?n - 2" using assms(2) by arith
      then have "take 2 (take (?n - 2) ?s) = take 2 ?s" by (simp add: min_def)
      with append_take_drop_id [of 2 "take (?n - 2) ?s"] show ?thesis
        unfolding trimmed_def by metis
    qed
    then have front: "take 2 ?s @ trimmed ws = take (?n - 2) ?s" by (rule sym)
    show ?thesis
      unfolding append_assoc [symmetric] front append_take_drop_id ..
  qed
  from arg_cong [where f = sum_list, OF this]
  have "sum_list ?s = sum_list (take 2 ?s) + sum_list (trimmed ws) + sum_list (drop (?n - 2) ?s)"
    by (simp only: sum_list_append add.assoc)
  then show ?thesis
    unfolding max min sum_list_rev sum_list_sort by simp
qed

text \<open>
  From the fifth sample on, the printed average is the mean of the samples without the two
  largest and the two smallest; a tag sampled four times is divided by zero, and one sampled
  once prints a value computed from the sentinels.
\<close>

theorem profiler_average:
  assumes "sampled ws d" and "length ws < 2 ^ 63"
  shows "(4 \<le> length ws \<longrightarrow>
      average_operands d = (sint (of_int (sum_list (trimmed ws)) :: 64 word), int (length ws) - 4)) \<and>
    (\<forall>t. ws = [t] \<longrightarrow> average_operands d = (sint (1 - t), - 3))"
proof (intro conjI impI allI)
  assume four: "4 \<le> length ws"
  let ?mid = "sum_list (trimmed ws)"
  have total: "pd_TotalTime d = of_int (sum_list (map sint ws))"
    using assms(1) by (simp add: sampled_def sum_sint)
  have "fst (pd_Max d) + snd (pd_Max d) + fst (pd_Min d) + snd (pd_Min d) =
      of_int (sum_list (two (pd_Max d)) + sum_list (two (pd_Min d)))"
    by (simp add: two_def)
  then have "pd_TotalTime d - (fst (pd_Max d) + snd (pd_Max d) + fst (pd_Min d) + snd (pd_Min d)) =
      of_int ?mid"
    unfolding total extremes_and_trimmed [OF assms(1) four, symmetric] by simp
  moreover have "sint (pd_Call d) = int (length ws)"
  proof -
    have "pd_Call d = word_of_int (int (length ws))" using assms(1) by (simp add: sampled_def)
    then show ?thesis using assms(2) by (simp only: int_word_sint) simp
  qed
  ultimately show "average_operands d =
      (sint (of_int ?mid :: 64 word), int (length ws) - 4)"
    by (simp add: average_operands_def)
next
  fix t
  assume ws: "ws = [t]"
  have "sort (map sint ([MININT64, MININT64] @ ws)) = [sint MININT64, sint MININT64, sint t]"
      "sort (map sint ([MAXINT64, MAXINT64] @ ws)) = [sint t, sint MAXINT64, sint MAXINT64]"
    using sort_two_small [of "map sint ws" "sint MININT64"]
      sort_two_large [of "map sint ws" "sint MAXINT64"] sint_bounds ws
    by simp_all
  with assms(1) ws have two: "two (pd_Max d) = [sint t, sint MININT64]"
      "two (pd_Min d) = [sint t, sint MAXINT64]" "pd_Call d = 1" "pd_TotalTime d = t"
    by (simp_all add: sampled_def)
  then have "fst (pd_Max d) = t" "snd (pd_Max d) = MININT64" "fst (pd_Min d) = t"
      "snd (pd_Min d) = MAXINT64"
    by (auto simp: two_def intro: signed_word_eqI)
  with two have "average_operands d = (sint (t - (t + MININT64 + t + MAXINT64)), - 3)"
    by (simp add: average_operands_def)
  moreover have "t - (t + MININT64 + t + MAXINT64) = - t - (MININT64 + MAXINT64)"
    by (simp add: algebra_simps)
  moreover have "MININT64 + MAXINT64 = - 1" by (simp add: MININT64_def MAXINT64_def)
  ultimately show "average_operands d = (sint (1 - t), - 3)" by simp
qed

theorem profiler_average_witness:
  "average_operands (add_sample 7 ProfileData_ctor) = (- 6, - 3) \<and>
   average_operands (fold add_sample [5, 9, 1, 3, 4, 20] ProfileData_ctor) = (9, 2)"
proof -
  have one: "sampled [7] (add_sample 7 ProfileData_ctor)"
    using sampled_add_sample [OF sampled_ctor, of 7] by simp
  have six: "sampled [5, 9, 1, 3, 4, 20] (fold add_sample [5, 9, 1, 3, 4, 20] ProfileData_ctor)"
    using sampled_fold [OF sampled_ctor, of "[5, 9, 1, 3, 4, 20]"] by simp
  have "sum_list (trimmed [5, 9, 1, 3, 4, 20]) = 9" by code_simp
  then show ?thesis
    using profiler_average [OF one] profiler_average [OF six] by simp
qed

section \<open>The limits\<close>

text \<open>
  A thread that has used all its slots loses a new tag without notice, and ending that tag
  ends the process, as does ending a tag on a thread that never began one; the thread after the
  hundredth writes outside the manager's array.
\<close>

theorem profiler_limits:
  assumes "ts_Value p thread = Some block" and "length (ts_Objects p ! block) = TAG_MAX"
    and "\<forall>info\<in>set (ts_Objects p ! block). pi_bUsed info \<and> pi_TagName info \<noteq> name"
    and "ts_Value p newcomer = None" and "slots_ok p" and "length (ts_Objects p) = length (ts_Array p)"
  shows "ProfileBegin thread t name p = Inr p \<and> ProfileEnd thread t name p = Inl Crash \<and>
    ProfileEnd newcomer t name p = Inl Crash \<and> ProfileBegin newcomer t name p = Inl OutOfBounds"
proof -
  have "first_index (\<lambda>i. pi_TagName i = name) (ts_Objects p ! block) = None"
      "first_index (\<lambda>i. \<not> pi_bUsed i) (ts_Objects p ! block) = None"
    using assms(3) by (auto simp: first_index_None)
  moreover have "slots_enter (replicate TAG_MAX ProfileInfo_ctor) p = Inl OutOfBounds"
    using slots_enter_iff [OF assms(5)] assms(6) by blast
  ultimately show ?thesis
    using assms by (simp add: ProfileBegin_def ProfileEnd_def thread_block_def)
qed

text \<open>A hundred threads, each with a hundred used tags.\<close>

definition full_profiler :: Profiler where
  "full_profiler =
     \<lparr>ts_Objects = replicate MAX_INFO (replicate TAG_MAX (ProfileInfo_ctor\<lparr>pi_bUsed := True, pi_TagName := wide ''t''\<rparr>)),
      ts_Array = map Some [0..<MAX_INFO], ts_Index = 99, ts_Value = [1 \<mapsto> 0]\<rparr>"

lemma full_profiler_ok: "slots_ok full_profiler"
  by (auto simp: slots_ok_def full_profiler_def inj_on_def simp del: upt_rec_numeral split: if_splits)

theorem profiler_limits_witness:
  "ProfileBegin 1 0 (wide ''x'') full_profiler = Inr full_profiler \<and>
   ProfileEnd 1 0 (wide ''x'') full_profiler = Inl Crash \<and>
   ProfileBegin 2 0 (wide ''x'') full_profiler = Inl OutOfBounds"
  using profiler_limits [of full_profiler 1 0 "wide ''x''" 2 0, OF _ _ _ _ full_profiler_ok]
  by (simp add: full_profiler_def ProfileInfo_ctor_def wide_def del: upt_rec_numeral)

end
