(* ===== verification/SysLog.thy ===== *)
theory SysLog
  imports WideText Retry
begin

text \<open>
  The text log of \<^verbatim>\<open>Log.cpp\<close>, compiled with \<^verbatim>\<open>SERVER_ON_LOG\<close> set: one file per start of the
  server.  The log object is the record \<open>SysLog\<close>; the files, by name, are in \<open>files\<close>.  A file is
  opened in a loop until the operating system agrees: \<open>opens k\<close> says whether the attempt number
  \<open>k\<close> succeeds and \<open>attempts\<close> counts them.  The lock serialises the calls, so a call is one step.
\<close>

section \<open>The log levels\<close>

datatype eLogLevel = LOG_LEVEL_DEBUG | LOG_LEVEL_ERROR | LOG_LEVEL_SYSTEM

primrec level_number :: "eLogLevel \<Rightarrow> nat" where
  "level_number LOG_LEVEL_DEBUG = 0"
| "level_number LOG_LEVEL_ERROR = 1"
| "level_number LOG_LEVEL_SYSTEM = 2"

lemma level_number_inject: "level_number a = level_number b \<longleftrightarrow> a = b"
  by (cases a; cases b) simp_all

text \<open>Enumerators compare by their numbers.\<close>

instantiation eLogLevel :: linorder
begin

definition less_eq_eLogLevel :: "eLogLevel \<Rightarrow> eLogLevel \<Rightarrow> bool" where
  "less_eq_eLogLevel a b = (level_number a \<le> level_number b)"

definition less_eLogLevel :: "eLogLevel \<Rightarrow> eLogLevel \<Rightarrow> bool" where
  "less_eLogLevel a b = (level_number a < level_number b)"

instance
  by standard (auto simp: less_eq_eLogLevel_def less_eLogLevel_def level_number_inject)

end

primrec level_text :: "eLogLevel \<Rightarrow> wtext" where
  "level_text LOG_LEVEL_DEBUG = wide ''DEBUG''"
| "level_text LOG_LEVEL_ERROR = wide ''ERROR''"
| "level_text LOG_LEVEL_SYSTEM = wide ''SYSTEM''"

section \<open>State\<close>

record tm =
  tm_sec :: int
  tm_min :: int
  tm_hour :: int
  tm_mday :: int
  tm_mon :: int
  tm_year :: int

record SysLog =
  m_LogLevel :: eLogLevel
  m_ServerONLogFileName :: wtext
  m_DirectoryName :: wtext
  m_LogCount :: "64 word"
  files :: "wtext \<Rightarrow> wtext option"
  attempts :: nat

abbreviation BUFFER_SIZE :: nat where "BUFFER_SIZE \<equiv> 1000"
abbreviation MAX_PATH :: nat where "MAX_PATH \<equiv> 260"

text \<open>\<^verbatim>\<open>while (filePtr == nullptr) _wfopen_s(...)\<close>.\<close>

definition open_attempt :: "(nat \<Rightarrow> bool) \<Rightarrow> SysLog \<Rightarrow> (bool \<times> SysLog) run option" where
  "open_attempt opens l = Some (Inr (opens (attempts l), l\<lparr>attempts := Suc (attempts l)\<rparr>))"

definition wfopen :: "(nat \<Rightarrow> bool) \<Rightarrow> SysLog \<Rightarrow> SysLog run option" where
  "wfopen opens l = retry (open_attempt opens) l"

definition file_text :: "SysLog \<Rightarrow> wtext \<Rightarrow> wtext" where
  "file_text l name = (case files l name of None \<Rightarrow> [] | Some t \<Rightarrow> t)"

definition fwprintf :: "wtext \<Rightarrow> wtext \<Rightarrow> farg list \<Rightarrow> SysLog \<Rightarrow> SysLog run" where
  "fwprintf name fmt va l =
     bnd (vprintf fmt va) (\<lambda>t. Inr (l\<lparr>files := (files l)(name \<mapsto> file_text l name @ t)\<rparr>))"

section \<open>Operations\<close>

definition date_args :: "tm \<Rightarrow> farg list" where
  "date_args today =
     [IntArg (tm_year today - 100), IntArg (tm_mon today + 1), IntArg (tm_mday today),
      IntArg (tm_hour today), IntArg (tm_min today), IntArg (tm_sec today)]"

definition SysLog_ctor ::
  "(nat \<Rightarrow> bool) \<Rightarrow> tm \<Rightarrow> (wtext \<Rightarrow> wtext option) \<Rightarrow> nat \<Rightarrow> SysLog run option" where
  "SysLog_ctor opens today disk tries =
     (case vprintf (wide ''ServerLog[20%d%02d%02d -%d[h]%d[m]%d[s]].txt'') (date_args today) of
        Inl e \<Rightarrow> Some (Inl e)
      | Inr name \<Rightarrow>
          after
            (wfopen opens
              \<lparr>m_LogLevel = LOG_LEVEL_DEBUG, m_ServerONLogFileName = name, m_DirectoryName = [],
               m_LogCount = 0, files = disk, attempts = tries\<rparr>)
            (\<lambda>l. Inr (l\<lparr>files := (files l)(name \<mapsto> [])\<rparr>)))"

definition fail_line :: wtext where
  "fail_line = wide (''[%d/%d/%d %d:%d:%d][%s//%s] %s'' @ [CHR 0x0A])"

definition log_line :: wtext where
  "log_line = wide (''[%d/%d/%d %d:%d:%d][%s//%s//%010lld] %s'' @ [CHR 0x0A])"

text \<open>
  The branch for \<^verbatim>\<open>type == nullptr\<close>, which the log uses for its own failures.  When the message
  was cut, the notice that says so is formatted into \<^verbatim>\<open>mustSucMessage\<close>, but the line written is
  the cut message.
\<close>

definition WriteLog_fail ::
  "(nat \<Rightarrow> bool) \<Rightarrow> tm \<Rightarrow> eLogLevel \<Rightarrow> wtext \<Rightarrow> farg list \<Rightarrow> SysLog \<Rightarrow> SysLog run option" where
  "WriteLog_fail opens today logLevel stringFormat va l =
     (case StringCchVPrintf MAX_PATH (wide ''%s[20%d0%d].txt'')
             [TextArg (wide ''LogFail''), IntArg (tm_year today - 100), IntArg (tm_mon today + 1)] of
        Inl e \<Rightarrow> Some (Inl e)
      | Inr (_, fileName) \<Rightarrow>
          after (wfopen opens l) (\<lambda>l.
            bnd (StringCchVPrintf BUFFER_SIZE stringFormat va) (\<lambda>(insufficient, message).
            bnd (if insufficient
                 then fwprintf fileName fail_line
                        (date_args today @
                         [TextArg (wide ''LogFail''), TextArg (wide ''ERROR''), TextArg message]) l
                 else Inr l) (\<lambda>l.
            fwprintf fileName fail_line
              (date_args today @
               [TextArg (wide ''LogFail''), TextArg (level_text logLevel), TextArg message]) l))))"

definition WriteLog_type ::
  "(nat \<Rightarrow> bool) \<Rightarrow> tm \<Rightarrow> wtext \<Rightarrow> eLogLevel \<Rightarrow> wtext \<Rightarrow> farg list \<Rightarrow> SysLog \<Rightarrow> SysLog run option" where
  "WriteLog_type opens today type logLevel stringFormat va l =
     (let fileName = m_ServerONLogFileName l
      in after (wfopen opens l) (\<lambda>l.
           bnd (StringCchVPrintf BUFFER_SIZE stringFormat va) (\<lambda>(insufficient, message).
           bnd (if insufficient
                then fwprintf fileName fail_line
                       (date_args today @
                        [TextArg (wide ''LogFail''), TextArg (wide ''ERROR''), TextArg message]) l
                else Inr l) (\<lambda>l.
           let count = m_LogCount l + 1
           in fwprintf fileName log_line
                (date_args today @
                 [TextArg type, TextArg (level_text logLevel), IntArg (uint count), TextArg message])
                (l\<lparr>m_LogCount := count\<rparr>)))))"

definition WriteLog ::
  "(nat \<Rightarrow> bool) \<Rightarrow> tm \<Rightarrow> wtext option \<Rightarrow> eLogLevel \<Rightarrow> wtext \<Rightarrow> farg list \<Rightarrow> SysLog
   \<Rightarrow> SysLog run option" where
  "WriteLog opens today type logLevel stringFormat va l =
     (if logLevel < m_LogLevel l then Some (Inr l)
      else case type of
             None \<Rightarrow> WriteLog_fail opens today logLevel stringFormat va l
           | Some t \<Rightarrow> WriteLog_type opens today t logLevel stringFormat va l)"

text \<open>
  \<^verbatim>\<open>WriteLogHex\<close>: the title is cut to a hundred units, each byte becomes five units, and the
  text is handed to \<^verbatim>\<open>WriteLog\<close> as its format.  \<open>bytes\<close> is the memory from the pointer on.
\<close>

fun hex_bytes :: "nat \<Rightarrow> byte list \<Rightarrow> wtext run" where
  "hex_bytes 0 bytes = Inr []"
| "hex_bytes (Suc n) [] = Inl OutOfBounds"
| "hex_bytes (Suc n) (b # bytes) =
     bnd (StringCchVPrintf 8 (wide '' 0x%02x'') [IntArg (uint b)]) (\<lambda>(_, buffer).
     bnd (hex_bytes n bytes) (\<lambda>rest. Inr (buffer @ rest)))"

definition WriteLogHex ::
  "(nat \<Rightarrow> bool) \<Rightarrow> tm \<Rightarrow> wtext option \<Rightarrow> eLogLevel \<Rightarrow> wtext \<Rightarrow> byte list \<Rightarrow> int \<Rightarrow> wtext \<Rightarrow> SysLog
   \<Rightarrow> SysLog run option" where
  "WriteLogHex opens today type logLevel string bytes byteLen cutNotice l =
     andthen (Some (StringCchVPrintf 100 (wide ''%s:ByteLen[%d] -'')
                      [TextArg string, IntArg byteLen])) (\<lambda>(insufficient, initStr).
     andthen (if insufficient
              then WriteLog opens today None LOG_LEVEL_ERROR cutNotice [] l
              else Some (Inr l)) (\<lambda>l.
     andthen (Some (hex_bytes (nat byteLen) bytes)) (\<lambda>str.
     WriteLog opens today type logLevel (initStr @ str) [] l)))"

text \<open>\<open>made\<close> is the answer of \<^verbatim>\<open>_wmkdir\<close>, \<open>lastError\<close> the one of \<^verbatim>\<open>GetLastError\<close>.\<close>

definition SetDirectory ::
  "(nat \<Rightarrow> bool) \<Rightarrow> tm \<Rightarrow> bool \<Rightarrow> int \<Rightarrow> wtext \<Rightarrow> SysLog \<Rightarrow> SysLog run option" where
  "SetDirectory opens today made lastError directoryName l =
     andthen (Some (StringCchVPrintf MAX_PATH (wide ''./%s/'') [TextArg directoryName]))
       (\<lambda>(_, name). let l = l\<lparr>m_DirectoryName := name\<rparr> in
       if made then Some (Inr l)
       else WriteLog opens today None LOG_LEVEL_ERROR (wide ''Make Directory Fail :%d'')
              [IntArg lastError] l)"

definition SetLogLevel :: "eLogLevel \<Rightarrow> SysLog \<Rightarrow> SysLog" where
  "SetLogLevel logLevel l = l\<lparr>m_LogLevel := logLevel\<rparr>"

section \<open>Opening a file\<close>

lemma wfopen_opens:
  "opens (attempts l + d) \<Longrightarrow> \<exists>n. wfopen opens l = Some (Inr (l\<lparr>attempts := n\<rparr>))"
proof (induction d arbitrary: l)
  case 0
  then show ?case by (auto simp: wfopen_def open_attempt_def retry_success)
next
  case (Suc d)
  show ?case
  proof (cases "opens (attempts l)")
    case True
    then show ?thesis by (auto simp: wfopen_def open_attempt_def retry_success)
  next
    case False
    let ?l = "l\<lparr>attempts := Suc (attempts l)\<rparr>"
    have "wfopen opens l = wfopen opens ?l"
      using False unfolding wfopen_def by (intro retry_again) (simp add: open_attempt_def)
    with Suc.IH [of ?l] Suc.prems show ?thesis by simp
  qed
qed

lemma failing_attempts: "failing (open_attempt opens) l t \<Longrightarrow> attempts l \<le> attempts t"
  by (induction rule: failing.induct) (auto simp: open_attempt_def)

text \<open>The loop returns exactly when some later attempt succeeds.\<close>

lemma wfopen_returns: "wfopen opens l = None \<longleftrightarrow> (\<forall>n \<ge> attempts l. \<not> opens n)"
proof
  assume none: "wfopen opens l = None"
  show "\<forall>n \<ge> attempts l. \<not> opens n"
  proof (intro allI impI notI)
    fix n
    assume "attempts l \<le> n" and "opens n"
    with wfopen_opens [of opens l "n - attempts l"] none show False by simp
  qed
next
  assume "\<forall>n \<ge> attempts l. \<not> opens n"
  then show "wfopen opens l = None"
    unfolding wfopen_def
    by (intro retry_never) (auto simp: open_attempt_def dest: failing_attempts)
qed

section \<open>The lines of the log\<close>

abbreviation dec :: "int \<Rightarrow> wtext" where
  "dec i \<equiv> decimal False 0 (int_argument True False i)"

definition stamp :: "tm \<Rightarrow> wtext" where
  "stamp today =
     wide ''['' @ dec (tm_year today - 100) @ wide ''/'' @ dec (tm_mon today + 1) @ wide ''/'' @
     dec (tm_mday today) @ wide '' '' @ dec (tm_hour today) @ wide '':'' @ dec (tm_min today) @
     wide '':'' @ dec (tm_sec today) @ wide '']''"

definition fail_name :: "tm \<Rightarrow> wtext" where
  "fail_name today =
     wide ''LogFail[20'' @ dec (tm_year today - 100) @ wide ''0'' @ dec (tm_mon today + 1) @
     wide ''].txt''"

lemma fail_name_text:
  "vprintf (wide ''%s[20%d0%d].txt'')
     [TextArg (wide ''LogFail''), IntArg (tm_year today - 100), IntArg (tm_mon today + 1)] =
   Inr (fail_name today)"
  by (simp add: printf_simps fail_name_def)

lemma fail_line_text:
  "vprintf fail_line (date_args today @ [TextArg a, TextArg b, TextArg msg]) =
   Inr (stamp today @ wide ''['' @ a @ wide ''//'' @ b @ wide ''] '' @ msg @ [10])"
  by (simp add: printf_simps fail_line_def stamp_def date_args_def)

lemma log_line_text:
  "vprintf log_line (date_args today @ [TextArg a, TextArg b, IntArg n, TextArg msg]) =
   Inr (stamp today @ wide ''['' @ a @ wide ''//'' @ b @ wide ''//'' @
     decimal True 10 (int_argument True True n) @ wide ''] '' @ msg @ [10])"
  by (simp add: printf_simps log_line_def stamp_def date_args_def)

lemma length_dec: "length (dec i) \<le> 11"
proof -
  let ?k = "sint (word_of_int i :: 32 word)"
  have "\<bar>?k\<bar> \<le> 2 ^ 31"
    using sint_ge [of "word_of_int i :: 32 word"] sint_lt [of "word_of_int i :: 32 word"]
    by (simp add: abs_le_iff)
  then have "nat \<bar>?k\<bar> < 10 ^ Suc 9" by simp
  from length_digits [OF _ this] have "length (digits 10 (nat \<bar>?k\<bar>)) \<le> Suc 9" by simp
  then show ?thesis
    by (auto simp: decimal_def padded_def int_argument_def wide_def abs_if split: if_splits)
qed

lemma fail_name_fits:
  "StringCchVPrintf MAX_PATH (wide ''%s[20%d0%d].txt'')
     [TextArg (wide ''LogFail''), IntArg (tm_year today - 100), IntArg (tm_mon today + 1)] =
   Inr (False, fail_name today)"
  using length_dec [of "tm_year today - 100"] length_dec [of "tm_mon today + 1"]
  by (intro StringCchVPrintf_fits fail_name_text) (simp add: fail_name_def wide_def)

text \<open>
  A call of the log returns exactly when its level is filtered out or the operating system
  lets some later attempt open the file; otherwise it spins while it holds the log's lock.
\<close>

theorem WriteLog_returns:
  "WriteLog opens today type logLevel stringFormat va l = None \<longleftrightarrow>
     m_LogLevel l \<le> logLevel \<and> (\<forall>n. opens n \<longrightarrow> n < attempts l)"
  by (auto simp: WriteLog_def WriteLog_fail_def WriteLog_type_def Let_def fail_name_fits
      wfopen_returns not_less not_le split: option.split)

text \<open>A call whose format fits its arguments returns once the file opens, cut or not.\<close>

lemma WriteLog_prints:
  assumes "opens (attempts l)" and "vprintf fmt va = Inr t"
  shows "\<exists>l'. WriteLog opens today (Some type) logLevel fmt va l = Some (Inr l')"
proof -
  have "wfopen opens l = Some (Inr (l\<lparr>attempts := Suc (attempts l)\<rparr>))"
    using assms(1) by (simp add: wfopen_def open_attempt_def retry_success)
  with assms(2) show ?thesis
    by (simp add: WriteLog_def WriteLog_type_def Let_def StringCchVPrintf_def fwprintf_def
        log_line_text fail_line_text)
qed

section \<open>A session of the log\<close>

text \<open>A call with a category, as the server makes them.\<close>

record log_call =
  c_today :: tm
  c_type :: wtext
  c_level :: eLogLevel
  c_format :: wtext
  c_va :: "farg list"

text \<open>What the call prints, when the format is fit for its arguments and the text for the buffer.\<close>

definition call_ok :: "log_call \<Rightarrow> wtext \<Rightarrow> bool" where
  "call_ok c msg \<longleftrightarrow> vprintf (c_format c) (c_va c) = Inr msg \<and> length msg < BUFFER_SIZE"

primrec WriteLogs :: "(nat \<Rightarrow> bool) \<Rightarrow> log_call list \<Rightarrow> SysLog \<Rightarrow> SysLog run option" where
  "WriteLogs opens [] l = Some (Inr l)"
| "WriteLogs opens (c # cs) l =
     andthen (WriteLog opens (c_today c) (Some (c_type c)) (c_level c) (c_format c) (c_va c) l)
       (WriteLogs opens cs)"

text \<open>The abstract log: the lines of the calls at or above the level, numbered from \<open>n\<close> on.\<close>

definition numbered_line :: "nat \<Rightarrow> log_call \<Rightarrow> wtext \<Rightarrow> wtext" where
  "numbered_line n c msg =
     stamp (c_today c) @ wide ''['' @ c_type c @ wide ''//'' @ level_text (c_level c) @
     wide ''//'' @ decimal True 10 (int n) @ wide ''] '' @ msg @ [10]"

fun log_lines :: "eLogLevel \<Rightarrow> nat \<Rightarrow> (log_call \<times> wtext) list \<Rightarrow> wtext" where
  "log_lines level n [] = []"
| "log_lines level n ((c, msg) # cs) =
     (if c_level c < level then log_lines level n cs
      else numbered_line n c msg @ log_lines level (Suc n) cs)"

definition accepted :: "eLogLevel \<Rightarrow> (log_call \<times> wtext) list \<Rightarrow> nat" where
  "accepted level cs = length (filter (\<lambda>(c, msg). level \<le> c_level c) cs)"

lemma accepted_simps [simp]:
  "accepted level [] = 0"
  "accepted level ((c, msg) # cs) =
     (if c_level c < level then accepted level cs else Suc (accepted level cs))"
  by (auto simp: accepted_def not_less)

lemma sint_small: "n < 2 ^ 63 \<Longrightarrow> int_argument True True (int n) = int n"
  unfolding int_argument_def by (simp only: int_word_sint if_True) simp

lemma WriteLog_type_line:
  assumes "call_ok c msg" and "m_LogLevel l \<le> c_level c" and "\<forall>k. \<exists>n\<ge>k. opens n"
    and "unat (m_LogCount l) + 1 < 2 ^ 63"
  shows "\<exists>n. WriteLog opens (c_today c) (Some (c_type c)) (c_level c) (c_format c) (c_va c) l =
    Some (Inr (l\<lparr>attempts := n, m_LogCount := m_LogCount l + 1,
      files := (files l)(m_ServerONLogFileName l \<mapsto>
        file_text l (m_ServerONLogFileName l) @ numbered_line (unat (m_LogCount l) + 1) c msg)\<rparr>))"
proof -
  from assms(3) obtain k where "attempts l \<le> k" "opens k" by blast
  then have "opens (attempts l + (k - attempts l))" by simp
  from wfopen_opens [of opens l, OF this] obtain n where n: "wfopen opens l = Some (Inr (l\<lparr>attempts := n\<rparr>))"
    by blast
  have msg: "StringCchVPrintf BUFFER_SIZE (c_format c) (c_va c) = Inr (False, msg)"
    using assms(1) by (simp add: call_ok_def StringCchVPrintf_fits)
  have "unat (m_LogCount l + 1) = unat (m_LogCount l) + 1"
    using assms(4) by (simp add: unat_word_ariths)
  then have count: "uint (m_LogCount l + 1) = int (unat (m_LogCount l) + 1)"
    by (simp only: uint_nat)
  have num: "int_argument True True (uint (m_LogCount l + 1)) = int (unat (m_LogCount l) + 1)"
    unfolding count by (rule sint_small) (rule assms(4))
  show ?thesis
    using assms(2) n
    by (intro exI [of _ n])
      (simp add: WriteLog_def not_less WriteLog_type_def Let_def msg fwprintf_def log_line_text
        num numbered_line_def file_text_def del: of_nat_add)
qed

text \<open>
  C37. The log refines a numbered list of lines: after any sequence of calls whose texts fit the
  buffer, the file of this server start has exactly the lines of the calls at or above the log
  level added, in order and numbered consecutively, and the counter has moved by their number.
\<close>

theorem log_file_lines:
  assumes "list_all (\<lambda>(c, msg). call_ok c msg) cs" and "\<forall>k. \<exists>n\<ge>k. opens n"
    and "unat (m_LogCount l) + length cs < 2 ^ 63"
  shows "\<exists>l'. WriteLogs opens (map fst cs) l = Some (Inr l') \<and>
    file_text l' (m_ServerONLogFileName l) =
      file_text l (m_ServerONLogFileName l) @
      log_lines (m_LogLevel l) (unat (m_LogCount l) + 1) cs \<and>
    unat (m_LogCount l') = unat (m_LogCount l) + accepted (m_LogLevel l) cs"
  using assms(1,3)
proof (induction cs arbitrary: l)
  case Nil
  then show ?case by simp
next
  case (Cons p cs)
  obtain c msg where p: "p = (c, msg)" by (cases p)
  from Cons.prems p have ok: "call_ok c msg" "list_all (\<lambda>(c, msg). call_ok c msg) cs" by simp_all
  show ?case
  proof (cases "c_level c < m_LogLevel l")
    case True
    then have "WriteLog opens (c_today c) (Some (c_type c)) (c_level c) (c_format c) (c_va c) l =
        Some (Inr l)"
      by (simp add: WriteLog_def)
    with Cons.IH [OF ok(2), of l] Cons.prems(2) p True show ?thesis by simp
  next
    case False
    have small: "unat (m_LogCount l) + 1 < 2 ^ 63" using Cons.prems(2) by simp
    from WriteLog_type_line [OF ok(1) _ assms(2) small] False
    obtain n where step:
      "WriteLog opens (c_today c) (Some (c_type c)) (c_level c) (c_format c) (c_va c) l =
       Some (Inr (l\<lparr>attempts := n, m_LogCount := m_LogCount l + 1,
         files := (files l)(m_ServerONLogFileName l \<mapsto>
           file_text l (m_ServerONLogFileName l) @ numbered_line (unat (m_LogCount l) + 1) c msg)\<rparr>))"
      by (auto simp: not_less)
    let ?l = "l\<lparr>attempts := n, m_LogCount := m_LogCount l + 1,
      files := (files l)(m_ServerONLogFileName l \<mapsto>
        file_text l (m_ServerONLogFileName l) @ numbered_line (unat (m_LogCount l) + 1) c msg)\<rparr>"
    have count: "unat (m_LogCount ?l) = unat (m_LogCount l) + 1"
      using small by (simp add: unat_word_ariths)
    have contents: "file_text ?l (m_ServerONLogFileName l) =
        file_text l (m_ServerONLogFileName l) @ numbered_line (unat (m_LogCount l) + 1) c msg"
      by (simp add: file_text_def)
    from Cons.prems(2) have "unat (m_LogCount ?l) + length cs < 2 ^ 63"
      unfolding count by simp
    from Cons.IH [OF ok(2) this] obtain l' where l':
        "WriteLogs opens (map fst cs) ?l = Some (Inr l')"
        "file_text l' (m_ServerONLogFileName ?l) = file_text ?l (m_ServerONLogFileName ?l) @
           log_lines (m_LogLevel ?l) (unat (m_LogCount ?l) + 1) cs"
        "unat (m_LogCount l') = unat (m_LogCount ?l) + accepted (m_LogLevel ?l) cs"
      by blast
    have "WriteLogs opens (map fst (p # cs)) l = Some (Inr l')"
      using p step l'(1) by simp
    moreover have "file_text l' (m_ServerONLogFileName l) = file_text l (m_ServerONLogFileName l) @
        log_lines (m_LogLevel l) (unat (m_LogCount l) + 1) (p # cs)"
      using l'(2) contents False p unfolding count by simp
    moreover have "unat (m_LogCount l') = unat (m_LogCount l) + accepted (m_LogLevel l) (p # cs)"
      using l'(3) False p unfolding count by simp
    ultimately show ?thesis by blast
  qed
qed

definition sample_day :: tm where
  "sample_day = \<lparr>tm_sec = 5, tm_min = 4, tm_hour = 3, tm_mday = 2, tm_mon = 10, tm_year = 121\<rparr>"

definition sample_log :: SysLog where
  "sample_log =
     \<lparr>m_LogLevel = LOG_LEVEL_ERROR, m_ServerONLogFileName = wide ''log'', m_DirectoryName = [],
      m_LogCount = 7, files = Map.empty, attempts = 0\<rparr>"

definition sample_calls :: "(log_call \<times> wtext) list" where
  "sample_calls =
     [(\<lparr>c_today = sample_day, c_type = wide ''Net'', c_level = LOG_LEVEL_DEBUG,
        c_format = wide ''hidden'', c_va = []\<rparr>, wide ''hidden''),
      (\<lparr>c_today = sample_day, c_type = wide ''Net'', c_level = LOG_LEVEL_SYSTEM,
        c_format = wide ''count %d'', c_va = [IntArg 42]\<rparr>, wide ''count 42'')]"

text \<open>
  At level ERROR one debug call is dropped and one system call becomes line 8 of the log.
\<close>

lemma sample_calls_ok: "list_all (\<lambda>(c, msg). call_ok c msg) sample_calls"
proof -
  have "vprintf (wide ''count %d'') [IntArg 42] = Inr (wide ''count 42'')" by code_simp
  moreover have "vprintf (wide ''hidden'') [] = Inr (wide ''hidden'')" by code_simp
  ultimately show ?thesis by (simp add: sample_calls_def call_ok_def) (simp add: wide_def)
qed

lemma sample_lines:
  "log_lines LOG_LEVEL_ERROR 8 sample_calls =
     wide (''[21/11/2 3:4:5][Net//SYSTEM//0000000008] count 42'' @ [CHR 0x0A])"
  by code_simp

theorem log_file_lines_witness:
  "\<exists>l'. WriteLogs (\<lambda>n. True) (map fst sample_calls) sample_log = Some (Inr l') \<and>
    file_text l' (wide ''log'') =
      wide (''[21/11/2 3:4:5][Net//SYSTEM//0000000008] count 42'' @ [CHR 0x0A])"
proof -
  have log: "m_LogLevel sample_log = LOG_LEVEL_ERROR" "m_ServerONLogFileName sample_log = wide ''log''"
      "unat (m_LogCount sample_log) = 7" "file_text sample_log (wide ''log'') = []"
    by (simp_all add: sample_log_def file_text_def)
  have "length sample_calls = 2" by (simp add: sample_calls_def)
  then have "unat (m_LogCount sample_log) + length sample_calls < 2 ^ 63" using log by simp
  from log_file_lines [OF sample_calls_ok _ this, of "\<lambda>n. True"] show ?thesis
    using sample_lines by (auto simp: log)
qed

text \<open>
  A message of a thousand units or more is cut to its first 999, and it is that cut message,
  not the notice prepared for the purpose, that is written as the line announcing the cut; it is
  then written once more as the line itself.
\<close>

theorem long_message_logged_twice:
  assumes "vprintf fmt va = Inr msg" and "BUFFER_SIZE \<le> length msg" and "m_LogLevel l \<le> logLevel"
    and "opens (attempts l)" and "unat (m_LogCount l) + 1 < 2 ^ 63"
  shows "\<exists>l'. WriteLog opens today (Some type) logLevel fmt va l = Some (Inr l') \<and>
    file_text l' (m_ServerONLogFileName l) =
      file_text l (m_ServerONLogFileName l) @
      stamp today @ wide ''[LogFail//ERROR] '' @ take 999 msg @ [10] @
      numbered_line (unat (m_LogCount l) + 1) \<lparr>c_today = today, c_type = type, c_level = logLevel,
        c_format = fmt, c_va = va\<rparr> (take 999 msg)"
proof -
  have n: "wfopen opens l = Some (Inr (l\<lparr>attempts := Suc (attempts l)\<rparr>))"
    using assms(4) by (simp add: wfopen_def open_attempt_def retry_success)
  have msg: "StringCchVPrintf BUFFER_SIZE fmt va = Inr (True, take 999 msg)"
    using StringCchVPrintf_cut [OF assms(1,2)] by simp
  have "unat (m_LogCount l + 1) = unat (m_LogCount l) + 1"
    using assms(5) by (simp add: unat_word_ariths)
  then have count: "uint (m_LogCount l + 1) = int (unat (m_LogCount l) + 1)"
    by (simp only: uint_nat)
  have num: "int_argument True True (uint (m_LogCount l + 1)) = int (unat (m_LogCount l) + 1)"
    unfolding count by (rule sint_small) (rule assms(5))
  have fail: "wide ''[LogFail//ERROR] '' = wide ''['' @ wide ''LogFail'' @ wide ''//'' @
      wide ''ERROR'' @ wide ''] ''"
    by (simp add: wide_def)
  have "\<not> logLevel < m_LogLevel l" using assms(3) by simp
  with n show ?thesis
    by (simp add: WriteLog_def WriteLog_type_def Let_def msg fwprintf_def log_line_text
        fail_line_text num numbered_line_def file_text_def fail del: of_nat_add)
qed

theorem long_message_logged_twice_witness:
  "\<exists>l'. WriteLog (\<lambda>n. True) sample_day (Some (wide ''Net'')) LOG_LEVEL_ERROR
      (replicate 1200 (of_char (CHR ''a''))) [] sample_log = Some (Inr l') \<and>
    file_text l' (wide ''log'') =
      stamp sample_day @ wide ''[LogFail//ERROR] '' @ replicate 999 (of_char (CHR ''a'')) @ [10] @
      numbered_line 8 \<lparr>c_today = sample_day, c_type = wide ''Net'', c_level = LOG_LEVEL_ERROR,
        c_format = replicate 1200 (of_char (CHR ''a'')), c_va = []\<rparr>
        (replicate 999 (of_char (CHR ''a'')))"
proof -
  let ?a = "replicate 1200 (of_char (CHR ''a'')) :: wtext"
  have log: "m_LogLevel sample_log \<le> LOG_LEVEL_ERROR" "m_ServerONLogFileName sample_log = wide ''log''"
      "unat (m_LogCount sample_log) = 7" "file_text sample_log (wide ''log'') = []"
    by (simp_all add: sample_log_def file_text_def)
  have "of_char (CHR ''%'') \<notin> set ?a" by simp
  then have "vprintf ?a [] = Inr ?a" by (rule vprintf_plain)
  moreover have "BUFFER_SIZE \<le> length ?a" by simp
  moreover have "unat (m_LogCount sample_log) + 1 < 2 ^ 63" using log by simp
  ultimately show ?thesis
    using long_message_logged_twice [of ?a "[]" ?a sample_log LOG_LEVEL_ERROR "\<lambda>n. True" sample_day
      "wide ''Net''"] log by simp
qed

section \<open>The hexadecimal dump\<close>

definition hex_unit :: "byte \<Rightarrow> wtext" where
  "hex_unit b = wide '' 0x'' @ padded True 2 [] (digits 16 (unat b))"

text \<open>Reading a dump: the fourth and fifth of each five units are the digits of a byte.\<close>

fun unhex :: "wtext \<Rightarrow> byte list" where
  "unhex (s # z # x # a # b # r) = of_nat (read_digits 16 [a, b]) # unhex r"
| "unhex r = []"

lemma length_hex_unit: "length (padded True 2 [] (digits 16 (unat (b::byte)))) = 2"
proof -
  have "unat b < 16 ^ Suc 1" using unsigned_less [of b, where ?'a = nat] by simp
  from length_digits [OF _ this] have "length (digits 16 (unat b)) \<le> 2" by simp
  then show ?thesis by (simp add: padded_def)
qed

lemma read_hex_unit: "read_digits 16 (padded True 2 [] (digits 16 (unat (b::byte)))) = unat b"
  by (simp add: padded_def read_digits_zeros read_digits_digits)

lemma hex_unit_text:
  "StringCchVPrintf 8 (wide '' 0x%02x'') [IntArg (uint (b::byte))] = Inr (False, hex_unit b)"
proof (rule StringCchVPrintf_fits)
  have "uint b mod 2 ^ 32 = uint b" using uint_lt2p [of b] by simp
  then have "nat (int_argument False False (uint b)) = unat b"
    unfolding int_argument_def by (simp only: if_False uint_word_of_int) simp
  then show "vprintf (wide '' 0x%02x'') [IntArg (uint b)] = Inr (hex_unit b)"
    by (simp add: wide_def directive_head_def zero_flag_def field_width_def long_flag_def
        is_digit_def directive_def hex_unit_def)
  show "length (hex_unit b) < 8"
    using length_hex_unit [of b] by (simp add: hex_unit_def wide_def)
qed

lemma hex_bytes_text: "hex_bytes (length bytes) bytes = Inr (concat (map hex_unit bytes))"
  by (induction bytes) (simp_all add: hex_unit_text)

lemma unhex_dump: "unhex (concat (map hex_unit bytes)) = bytes"
proof (induction bytes)
  case (Cons b bytes)
  obtain x y where xy: "padded True 2 [] (digits 16 (unat b)) = [x, y]"
    using length_hex_unit [of b] by (auto simp: length_Suc_conv numeral_2_eq_2)
  with read_hex_unit [of b] Cons show ?case by (simp add: hex_unit_def wide_def)
qed simp

lemma hex_unit_no_percent: "of_char (CHR ''%'') \<notin> set (hex_unit b)"
  using digits_no_percent [of 16 "unat b"] by (auto simp: hex_unit_def padded_def wide_def)

lemma length_dump: "length (concat (map hex_unit bytes)) = 5 * length bytes"
  using length_hex_unit by (induction bytes) (simp_all add: hex_unit_def wide_def)

definition hex_title :: "wtext \<Rightarrow> int \<Rightarrow> wtext" where
  "hex_title string n = string @ wide '':ByteLen['' @ dec n @ wide ''] -''"

lemma hex_title_text:
  "length string \<le> 76 \<Longrightarrow>
   StringCchVPrintf 100 (wide ''%s:ByteLen[%d] -'') [TextArg string, IntArg n] =
   Inr (False, hex_title string n)"
  using length_dec [of n]
  by (intro StringCchVPrintf_fits) (simp_all add: printf_simps hex_title_def)

lemma dec_no_percent: "of_char (CHR ''%'') \<notin> set (dec i)"
  using digits_no_percent [of 10] by (auto simp: decimal_def padded_def wide_def)

text \<open>
  A dump of at most 180 bytes under a title without percent signs is one line of the log,
  and its hexadecimal part reads back as exactly the bytes dumped.
\<close>

theorem hex_dump_reads_back:
  assumes "of_char (CHR ''%'') \<notin> set string" and "length string \<le> 76" and "length bytes \<le> 180"
    and "m_LogLevel l \<le> logLevel" and "\<forall>k. \<exists>n\<ge>k. opens n" and "unat (m_LogCount l) + 1 < 2 ^ 63"
  shows "\<exists>l' dump. WriteLogHex opens today (Some type) logLevel string bytes (int (length bytes)) notice l =
      Some (Inr l') \<and>
    file_text l' (m_ServerONLogFileName l) =
      file_text l (m_ServerONLogFileName l) @
      numbered_line (unat (m_LogCount l) + 1) \<lparr>c_today = today, c_type = type, c_level = logLevel,
        c_format = hex_title string (int (length bytes)) @ dump, c_va = []\<rparr>
        (hex_title string (int (length bytes)) @ dump) \<and>
    unhex dump = bytes"
proof -
  let ?title = "hex_title string (int (length bytes))"
  let ?dump = "concat (map hex_unit bytes)"
  let ?c = "\<lparr>c_today = today, c_type = type, c_level = logLevel, c_format = ?title @ ?dump, c_va = []\<rparr>"
  have "of_char (CHR ''%'') \<notin> set (?title @ ?dump)"
    using assms(1) dec_no_percent hex_unit_no_percent by (auto simp: hex_title_def wide_def)
  then have "call_ok ?c (?title @ ?dump)"
    using assms(2,3) length_dec [of "int (length bytes)"]
    by (simp add: call_ok_def vprintf_plain length_dump) (simp add: hex_title_def wide_def)
  then obtain n where call:
    "WriteLog opens today (Some type) logLevel (?title @ ?dump) [] l =
      Some (Inr (l\<lparr>attempts := n, m_LogCount := m_LogCount l + 1,
      files := (files l)(m_ServerONLogFileName l \<mapsto>
        file_text l (m_ServerONLogFileName l) @
        numbered_line (unat (m_LogCount l) + 1) ?c (?title @ ?dump))\<rparr>))"
    (is "_ = Some (Inr ?l)")
    using WriteLog_type_line [of ?c "?title @ ?dump" l opens] assms(4-6) by auto
  have "WriteLogHex opens today (Some type) logLevel string bytes (int (length bytes)) notice l =
      Some (Inr ?l)"
    by (simp add: WriteLogHex_def hex_title_text assms(2) hex_bytes_text call)
  moreover have "file_text ?l (m_ServerONLogFileName l) = file_text l (m_ServerONLogFileName l) @
      numbered_line (unat (m_LogCount l) + 1) ?c (?title @ ?dump)"
    by (simp add: file_text_def)
  ultimately show ?thesis using unhex_dump by blast
qed

theorem hex_dump_reads_back_witness:
  "\<exists>l' dump. WriteLogHex (\<lambda>n. True) sample_day (Some (wide ''Net'')) LOG_LEVEL_ERROR (wide ''Ring'')
      [0xAB, 7] 2 [] sample_log = Some (Inr l') \<and>
    file_text l' (wide ''log'') =
      numbered_line 8 \<lparr>c_today = sample_day, c_type = wide ''Net'', c_level = LOG_LEVEL_ERROR,
        c_format = hex_title (wide ''Ring'') 2 @ dump, c_va = []\<rparr> (hex_title (wide ''Ring'') 2 @ dump) \<and>
    unhex dump = [0xAB, 7]"
proof -
  have log: "m_LogLevel sample_log \<le> LOG_LEVEL_ERROR" "m_ServerONLogFileName sample_log = wide ''log''"
      "unat (m_LogCount sample_log) = 7" "file_text sample_log (wide ''log'') = []"
    by (simp_all add: sample_log_def file_text_def)
  have title: "of_char (CHR ''%'') \<notin> set (wide ''Ring'')" "length (wide ''Ring'') \<le> 76"
    by (simp_all add: wide_def)
  have "unat (m_LogCount sample_log) + 1 < 2 ^ 63" using log by simp
  from hex_dump_reads_back [OF title _ log(1) _ this, of "[0xAB, 7]" "\<lambda>n. True" sample_day
      "wide ''Net''" "[]"] log
  show ?thesis by auto
qed

text \<open>
  The dump is passed on as a format string: a title with a percent sign has a directive without
  an argument.
\<close>

lemma WriteLogHex_bad_format:
  assumes "vprintf (hex_title string (int (length bytes)) @ concat (map hex_unit bytes)) [] = Inl e"
    and "length string \<le> 76" and "m_LogLevel l \<le> logLevel" and "opens (attempts l)"
  shows "WriteLogHex opens today (Some type) logLevel string bytes (int (length bytes)) notice l =
    Some (Inl e)"
proof -
  have "wfopen opens l = Some (Inr (l\<lparr>attempts := Suc (attempts l)\<rparr>))"
    using assms(4) by (simp add: wfopen_def open_attempt_def retry_success)
  moreover have "\<not> logLevel < m_LogLevel l" using assms(3) by simp
  moreover have "StringCchVPrintf BUFFER_SIZE
      (hex_title string (int (length bytes)) @ concat (map hex_unit bytes)) [] = Inl e"
    using assms(1) by (simp add: StringCchVPrintf_def)
  ultimately show ?thesis
    by (simp add: WriteLogHex_def hex_title_text assms(2) hex_bytes_text WriteLog_def
        WriteLog_type_def Let_def)
qed

lemma hex_title_directive_undefined:
  assumes "of_char (CHR ''%'') \<notin> set t" and "take 1 u \<noteq> wide ''%''" and "u \<noteq> []"
    and "length (t @ u) \<le> 75" and "m_LogLevel l \<le> logLevel" and "opens (attempts l)"
  shows "WriteLogHex opens today (Some type) logLevel (t @ of_char (CHR ''%'') # u) bytes
    (int (length bytes)) notice l = Some (Inl Undefined)"
proof (rule WriteLogHex_bad_format)
  let ?r = "u @ wide '':ByteLen['' @ dec (int (length bytes)) @ wide ''] -''"
  let ?d = "concat (map hex_unit bytes)"
  have "take 1 (?r @ ?d) \<noteq> wide ''%''"
    using assms(2,3) by (cases u) simp_all
  from vprintf_missing_argument [OF assms(1) this]
  show "vprintf (hex_title (t @ of_char (CHR ''%'') # u) (int (length bytes)) @ ?d) [] =
      Inl Undefined"
    by (simp add: hex_title_def)
qed (use assms(4-6) in simp_all)

end
