(* ===== verification/CharacterEncoding.thy ===== *)
theory CharacterEncoding
  imports WideText
begin

text \<open>
  The two text conversions of \<^verbatim>\<open>CharacterEncoding.cpp\<close>.  The operating system's conversion is a
  parameter: \<open>os s n\<close> is what \<^verbatim>\<open>WideCharToMultiByte\<close> or \<^verbatim>\<open>MultiByteToWideChar\<close> answers for the
  null terminated text \<open>s\<close> and a buffer of \<open>n\<close> elements, and the elements it writes.  So is the
  allocator: \<open>new n\<close> is the block, with its old contents, that \<^verbatim>\<open>new T[n]\<close> hands out; it may be
  larger than asked for.
\<close>

type_synonym ('a, 'b) os_conversion = "'a list \<Rightarrow> nat \<Rightarrow> nat \<times> 'b list"

text \<open>Both functions have this body, on exchanged character types.\<close>

definition convert_string ::
  "(nat \<Rightarrow> 'b::zero list) \<Rightarrow> ('a, 'b) os_conversion \<Rightarrow> 'a list \<Rightarrow> 'b list run" where
  "convert_string new os string =
     (let len = fst (os string 0);
          (nullIndex, written) = os string len
      in bnd (memcpy_in (new len) 0 written) (\<lambda>tempString.
         if nullIndex < length tempString
         then Inr (takeWhile (\<lambda>c. c \<noteq> 0) (tempString[nullIndex := 0]))
         else Inl OutOfBounds))"

definition UTF16ToUTF8 ::
  "(nat \<Rightarrow> byte list) \<Rightarrow> (wchar, byte) os_conversion \<Rightarrow> wtext \<Rightarrow> byte list run" where
  "UTF16ToUTF8 new wideCharToMultiByte string = convert_string new wideCharToMultiByte string"

definition UTF8ToUTF16 ::
  "(nat \<Rightarrow> wtext) \<Rightarrow> (byte, wchar) os_conversion \<Rightarrow> byte list \<Rightarrow> wtext run" where
  "UTF8ToUTF16 new multiByteToWideChar string = convert_string new multiByteToWideChar string"

text \<open>
  The documented behaviour of the operating system's conversions for a null terminated text:
  a call with size zero answers the size needed, the terminating null included; a call with a
  buffer of that size answers the same number and writes the encoded text and the null.
\<close>

definition os_converts :: "('a, 'b::zero) os_conversion \<Rightarrow> ('a list \<Rightarrow> 'b list) \<Rightarrow> bool" where
  "os_converts os enc \<longleftrightarrow>
     (\<forall>s. 0 \<notin> set (enc s) \<and> fst (os s 0) = Suc (length (enc s)) \<and>
          os s (Suc (length (enc s))) = (Suc (length (enc s)), enc s @ [0]))"

lemma convert_string_exact:
  assumes "os_converts os enc" and "\<And>n. n \<le> length (new n)"
  shows "convert_string new os s =
    (if Suc (length (enc s)) < length (new (Suc (length (enc s)))) then Inr (enc s)
     else Inl OutOfBounds)"
proof -
  let ?n = "Suc (length (enc s))"
  from assms(1) have os: "fst (os s 0) = ?n" "os s ?n = (?n, enc s @ [0])" "0 \<notin> set (enc s)"
    by (simp_all add: os_converts_def)
  have "memcpy_in (new ?n) 0 (enc s @ [0]) = Inr (mem_write (new ?n) 0 (enc s @ [0]))"
    using assms(2) [of ?n] by (simp add: mem_simps)
  moreover have "takeWhile (\<lambda>c. c \<noteq> 0) ((mem_write (new ?n) 0 (enc s @ [0]))[?n := 0]) = enc s"
    using os(3) by (simp add: mem_write_def list_update_append takeWhile_append)
  ultimately show ?thesis
    using os(1,2) assms(2) [of ?n] by (simp add: convert_string_def)
qed

text \<open>
  The terminator is written one element past the converted text that already ends in a
  null: with a conversion that behaves as documented, either function returns the encoded text
  exactly when the allocator granted more than the number of elements asked for, and writes
  outside its array otherwise.
\<close>

theorem conversion_overruns:
  assumes "os_converts wideCharToMultiByte utf8" and "os_converts multiByteToWideChar utf16"
    and "\<And>n. n \<le> length (newA n)" and "\<And>n. n \<le> length (newW n)"
  shows "UTF16ToUTF8 newA wideCharToMultiByte w =
      (if Suc (length (utf8 w)) < length (newA (Suc (length (utf8 w)))) then Inr (utf8 w)
       else Inl OutOfBounds) \<and>
    UTF8ToUTF16 newW multiByteToWideChar s =
      (if Suc (length (utf16 s)) < length (newW (Suc (length (utf16 s)))) then Inr (utf16 s)
       else Inl OutOfBounds)"
  using convert_string_exact [OF assms(1,3)] convert_string_exact [OF assms(2,4)]
  by (simp add: UTF16ToUTF8_def UTF8ToUTF16_def)

text \<open>A conversion of ASCII texts that behaves as documented.\<close>

definition ascii_enc :: "'a::len word list \<Rightarrow> 'b::len word list" where
  "ascii_enc s = map (\<lambda>c. if uint c < 128 \<and> 0 < uint c then ucast c else 1) s"

definition ascii_os :: "('a::len word, 'b::len word) os_conversion" where
  "ascii_os s n = (Suc (length s), if n < Suc (length s) then [] else ascii_enc s @ [0])"

lemma ascii_os_converts:
  assumes "8 \<le> LENGTH('b)"
  shows "os_converts (ascii_os :: ('a::len word, 'b::len word) os_conversion) ascii_enc"
proof -
  have "(ucast x :: 'b word) \<noteq> 0" if "0 < uint x" "uint x < 128" for x :: "'a word"
  proof -
    have "(2::int) ^ 8 \<le> 2 ^ LENGTH('b)" using assms by (intro power_increasing) simp_all
    then have "uint (ucast x :: 'b word) = uint x"
      using that by (simp add: uint_up_ucast unsigned_ucast_eq take_bit_eq_mod)
    with that show ?thesis by auto
  qed
  then show ?thesis by (auto simp: os_converts_def ascii_os_def ascii_enc_def)
qed

text \<open>
  Both outcomes at the text \<^verbatim>\<open>ab\<close>: an allocator that grants exactly what is asked for, and one
  that rounds blocks up to sixteen elements.
\<close>

theorem conversion_overruns_witness:
  "UTF16ToUTF8 (\<lambda>n. replicate n 0) ascii_os (wide ''ab'') = Inl OutOfBounds \<and>
   UTF8ToUTF16 (\<lambda>n. replicate (n + 16) 0) ascii_os [97, 98] = Inr (wide ''ab'')"
proof -
  have os: "os_converts (ascii_os :: (wchar, byte) os_conversion) ascii_enc"
      "os_converts (ascii_os :: (byte, wchar) os_conversion) ascii_enc"
    by (simp_all add: ascii_os_converts)
  have len: "n \<le> length (replicate n (0::byte))" "n \<le> length (replicate (n + 16) (0::wchar))" for n
    by simp_all
  have enc: "ascii_enc [97, 98 :: byte] = wide ''ab''" by (simp add: ascii_enc_def wide_def)
  from conversion_overruns [OF os len, of "wide ''ab''" "[97, 98]"] show ?thesis
    by (simp add: enc ascii_enc_def wide_def)
qed

end
