(* ===== verification/RedisConnector.thy ===== *)
theory RedisConnector
  imports SysLog CharacterEncoding ThreadSlots
begin

text \<open>
  The Redis client of \<^verbatim>\<open>RedisConnector.cpp\<close>.  The third-party client is a parameter: a record of
  its operations on its own state \<open>'c\<close>, each of which may throw (the text is what \<^verbatim>\<open>what()\<close>
  answers).  The operating system's text conversions, the allocator, the clock and the file
  system of the log are the record \<open>platform\<close>.  A call may not return (the log's loop, the
  connecting loop), so operations have type \<^typ>\<open>'w run option\<close>.
\<close>

type_synonym what = "byte list"

section \<open>What the connector calls\<close>

record ('c, 'f, 'r) redis_api =
  api_new :: 'c
  api_is_connected :: "'c \<Rightarrow> bool"
  api_connect :: "byte list \<Rightarrow> 64 word \<Rightarrow> 'c \<Rightarrow> (what + unit) \<times> 'c"
  api_sync_commit :: "'c \<Rightarrow> (what + unit) \<times> 'c"
  api_disconnect :: "'c \<Rightarrow> (what + unit) \<times> 'c"
  api_get :: "byte list \<Rightarrow> 'c \<Rightarrow> (what + 'f) \<times> 'c"
  api_future_get :: "'f \<Rightarrow> 'c \<Rightarrow> (what + 'r) \<times> 'c"
  api_set :: "byte list \<Rightarrow> byte list \<Rightarrow> 'c \<Rightarrow> (what + unit) \<times> 'c"
  api_setex :: "byte list \<Rightarrow> 64 word \<Rightarrow> byte list \<Rightarrow> 'c \<Rightarrow> (what + unit) \<times> 'c"

record platform =
  pf_opens :: "nat \<Rightarrow> bool"
  pf_today :: tm
  pf_newA :: "nat \<Rightarrow> byte list"
  pf_newW :: "nat \<Rightarrow> wtext"
  pf_wideCharToMultiByte :: "(wchar, byte) os_conversion"
  pf_multiByteToWideChar :: "(byte, wchar) os_conversion"

text \<open>What an error handler does: convert the message and log it in the category \<open>Redis\<close>.\<close>

definition log_error ::
  "platform \<Rightarrow> wtext \<Rightarrow> wtext \<Rightarrow> what \<Rightarrow> SysLog \<Rightarrow> SysLog run option" where
  "log_error pf type fmt what l =
     andthen (Some (UTF8ToUTF16 (pf_newW pf) (pf_multiByteToWideChar pf) what)) (\<lambda>errorMessage.
     WriteLog (pf_opens pf) (pf_today pf) (Some type) LOG_LEVEL_ERROR fmt [TextArg errorMessage] l)"

section \<open>A connector\<close>

text \<open>
  The connector is its client; the log is the other state an operation changes.  The handler of
  \<^verbatim>\<open>Connect\<close> passes one argument to a format with two directives.
\<close>

type_synonym 'c conn = "'c \<times> SysLog"

definition RedisConnector_Connect ::
  "('c, 'f, 'r) redis_api \<Rightarrow> platform \<Rightarrow> byte list \<Rightarrow> 64 word \<Rightarrow> 'c conn \<Rightarrow> (bool \<times> 'c conn) run option" where
  "RedisConnector_Connect api pf ip port cl =
     (let (c, l) = cl in
      if api_is_connected api c then Some (Inr (False, c, l))
      else
        let (r, c) = (case api_connect api ip port c of
                        (Inl what, c) \<Rightarrow> (Inl what, c)
                      | (Inr u, c) \<Rightarrow> api_sync_commit api c)
        in case r of
             Inr u \<Rightarrow> Some (Inr (True, c, l))
           | Inl what \<Rightarrow>
               after (log_error pf (wide ''Redis'') (wide ''Connect() Error :%s ErrorCode:%d'') what l)
                 (\<lambda>l. Inr (False, c, l)))"

definition RedisConnector_Disconnect ::
  "('c, 'f, 'r) redis_api \<Rightarrow> platform \<Rightarrow> 'c conn \<Rightarrow> (bool \<times> 'c conn) run option" where
  "RedisConnector_Disconnect api pf cl =
     (let (c, l) = cl in
      if api_is_connected api c
      then case api_disconnect api c of
             (Inr u, c) \<Rightarrow> Some (Inr (True, c, l))
           | (Inl what, c) \<Rightarrow>
               after (log_error pf (wide ''Redis'') (wide ''Disconnect() Error :%s'') what l)
                 (\<lambda>l. Inr (False, c, l))
      else Some (Inr (True, c, l)))"

text \<open>
  \<^verbatim>\<open>Get\<close>: the handler asks the future again.  \<open>rd_fetch\<close> answers what went wrong together with the
  future the handler finds: one that was never set or was already consumed has no state, and
  asking it throws out of the handler.
\<close>

datatype 'f future = NoState | Pending 'f

definition rd_fetch ::
  "('c, 'f, 'r) redis_api \<Rightarrow> byte list \<Rightarrow> 'c \<Rightarrow> (what \<times> 'f future + 'r) \<times> 'c" where
  "rd_fetch api key c =
     (case api_get api key c of
        (Inl what, c) \<Rightarrow> (Inl (what, NoState), c)
      | (Inr f, c) \<Rightarrow>
          (case api_sync_commit api c of
             (Inl what, c) \<Rightarrow> (Inl (what, Pending f), c)
           | (Inr u, c) \<Rightarrow>
               (case api_future_get api f c of
                  (Inl what, c) \<Rightarrow> (Inl (what, NoState), c)
                | (Inr r, c) \<Rightarrow> (Inr r, c))))"

definition future_again ::
  "('c, 'f, 'r) redis_api \<Rightarrow> 'f future \<Rightarrow> 'c \<Rightarrow> ('r \<times> 'c) run" where
  "future_again api f c =
     (case f of
        NoState \<Rightarrow> Inl Escaped
      | Pending f \<Rightarrow>
          (case api_future_get api f c of (Inl what, c) \<Rightarrow> Inl Escaped | (Inr r, c) \<Rightarrow> Inr (r, c)))"

definition RedisConnector_Get ::
  "('c, 'f, 'r) redis_api \<Rightarrow> platform \<Rightarrow> byte list \<Rightarrow> 'c conn \<Rightarrow> ('r \<times> 'c conn) run option" where
  "RedisConnector_Get api pf key cl =
     (let (c, l) = cl in
      case rd_fetch api key c of
        (Inr r, c) \<Rightarrow> Some (Inr (r, c, l))
      | (Inl (what, f), c) \<Rightarrow>
          after (log_error pf (wide ''Redis'') (wide ''Get() Error :%s'') what l)
            (\<lambda>l. bnd (future_again api f c) (\<lambda>(r, c). Inr (r, c, l))))"

text \<open>\<^verbatim>\<open>Set\<close> and \<^verbatim>\<open>SetEx\<close>: queue the command, then commit.\<close>

definition commit_command ::
  "('c, 'f, 'r) redis_api \<Rightarrow> platform \<Rightarrow> ('c \<Rightarrow> (what + unit) \<times> 'c) \<Rightarrow> wtext \<Rightarrow> 'c conn
   \<Rightarrow> (bool \<times> 'c conn) run option" where
  "commit_command api pf command fmt cl =
     (let (c, l) = cl;
          (r, c) = (case command c of (Inl what, c) \<Rightarrow> (Inl what, c) | (Inr u, c) \<Rightarrow> api_sync_commit api c)
      in case r of
           Inr u \<Rightarrow> Some (Inr (True, c, l))
         | Inl what \<Rightarrow> after (log_error pf (wide ''Redis'') fmt what l) (\<lambda>l. Inr (False, c, l)))"

definition RedisConnector_Set ::
  "('c, 'f, 'r) redis_api \<Rightarrow> platform \<Rightarrow> byte list \<Rightarrow> byte list \<Rightarrow> 'c conn
   \<Rightarrow> (bool \<times> 'c conn) run option" where
  "RedisConnector_Set api pf key value_text =
     commit_command api pf (api_set api key value_text) (wide ''Set() Error :%s'')"

definition RedisConnector_SetEx ::
  "('c, 'f, 'r) redis_api \<Rightarrow> platform \<Rightarrow> byte list \<Rightarrow> 64 word \<Rightarrow> byte list \<Rightarrow> 'c conn
   \<Rightarrow> (bool \<times> 'c conn) run option" where
  "RedisConnector_SetEx api pf key second value_text =
     commit_command api pf (api_setex api key second value_text) (wide ''SetEx() Error :%s'')"

section \<open>One connector per thread\<close>

record 'c TLSRedisConnector =
  rd_Slots :: "'c thread_slots"
  rd_IP :: wtext
  rd_Port :: "64 word"
  rd_Log :: SysLog

definition TLSRedisConnector_ctor :: "wtext \<Rightarrow> 64 word \<Rightarrow> nat \<Rightarrow> SysLog \<Rightarrow> 'c TLSRedisConnector" where
  "TLSRedisConnector_ctor ip port threadCount l =
     \<lparr>rd_Slots = slots_new threadCount, rd_IP = ip, rd_Port = port, rd_Log = l\<rparr>"

definition TLSRedis_GetPointerTLS ::
  "('c, 'f, 'r) redis_api \<Rightarrow> platform \<Rightarrow> 32 word \<Rightarrow> 'c TLSRedisConnector
   \<Rightarrow> (nat \<times> 'c TLSRedisConnector) run option" where
  "TLSRedis_GetPointerTLS api pf thread w =
     after
       (slots_connect (api_new api)
         (UTF16ToUTF8 (pf_newA pf) (pf_wideCharToMultiByte pf) (rd_IP w))
         (\<lambda>ip. RedisConnector_Connect api pf ip (rd_Port w)) thread (rd_Slots w, rd_Log w))
       (\<lambda>(ptr, s, l). Inr (ptr, w\<lparr>rd_Slots := s, rd_Log := l\<rparr>))"

text \<open>An operation on the calling thread's connector.\<close>

definition on_thread ::
  "('c, 'f, 'r) redis_api \<Rightarrow> platform \<Rightarrow> 32 word \<Rightarrow> ('c conn \<Rightarrow> ('x \<times> 'c conn) run option)
   \<Rightarrow> 'c TLSRedisConnector \<Rightarrow> ('x \<times> 'c TLSRedisConnector) run option" where
  "on_thread api pf thread operation w =
     andthen (TLSRedis_GetPointerTLS api pf thread w) (\<lambda>(ptr, w).
     after (operation (ts_Objects (rd_Slots w) ! ptr, rd_Log w)) (\<lambda>(x, c, l).
       Inr (x, w\<lparr>rd_Slots := slots_update ptr c (rd_Slots w), rd_Log := l\<rparr>)))"

definition TLSRedis_Get ::
  "('c, 'f, 'r) redis_api \<Rightarrow> platform \<Rightarrow> 32 word \<Rightarrow> byte list \<Rightarrow> 'c TLSRedisConnector
   \<Rightarrow> ('r \<times> 'c TLSRedisConnector) run option" where
  "TLSRedis_Get api pf thread key = on_thread api pf thread (RedisConnector_Get api pf key)"

definition TLSRedis_Set ::
  "('c, 'f, 'r) redis_api \<Rightarrow> platform \<Rightarrow> 32 word \<Rightarrow> byte list \<Rightarrow> byte list \<Rightarrow> 'c TLSRedisConnector
   \<Rightarrow> (bool \<times> 'c TLSRedisConnector) run option" where
  "TLSRedis_Set api pf thread key value_text =
     on_thread api pf thread (RedisConnector_Set api pf key value_text)"

definition TLSRedis_SetEx ::
  "('c, 'f, 'r) redis_api \<Rightarrow> platform \<Rightarrow> 32 word \<Rightarrow> byte list \<Rightarrow> 64 word \<Rightarrow> byte list
   \<Rightarrow> 'c TLSRedisConnector \<Rightarrow> (bool \<times> 'c TLSRedisConnector) run option" where
  "TLSRedis_SetEx api pf thread key second value_text =
     on_thread api pf thread (RedisConnector_SetEx api pf key second value_text)"

text \<open>The destructor: every connector entered in the array is disconnected, in order.\<close>

primrec disconnect_all ::
  "('c, 'f, 'r) redis_api \<Rightarrow> platform \<Rightarrow> 'c list \<Rightarrow> SysLog \<Rightarrow> ('c list \<times> SysLog) run option" where
  "disconnect_all api pf [] l = Some (Inr ([], l))"
| "disconnect_all api pf (c # cs) l =
     andthen (RedisConnector_Disconnect api pf (c, l)) (\<lambda>(ok, c, l).
     after (disconnect_all api pf cs l) (\<lambda>(cs, l). Inr (c # cs, l)))"

definition TLSRedisConnector_dtor ::
  "('c, 'f, 'r) redis_api \<Rightarrow> platform \<Rightarrow> 'c TLSRedisConnector \<Rightarrow> ('c list \<times> SysLog) run option" where
  "TLSRedisConnector_dtor api pf w =
     disconnect_all api pf
       (map (\<lambda>i. ts_Objects (rd_Slots w) ! the (ts_Array (rd_Slots w) ! i))
         [0..<nat (ts_Index (rd_Slots w) + 1)]) (rd_Log w)"

section \<open>When a connection fails\<close>

text \<open>The platform at rest: files open, and both conversions find room for their terminator.\<close>

definition platform_ok :: "platform \<Rightarrow> SysLog \<Rightarrow> bool" where
  "platform_ok pf l \<longleftrightarrow>
     pf_opens pf (attempts l) \<and> m_LogLevel l \<le> LOG_LEVEL_ERROR"

lemma missing_error_code:
  "vprintf (wide ''Connect() Error :%s ErrorCode:%d'') [TextArg t] = Inl Undefined"
  by (simp add: printf_simps)

lemma WriteLog_undefined:
  assumes "platform_ok pf l" and "vprintf fmt va = Inl e"
  shows "WriteLog (pf_opens pf) (pf_today pf) (Some type) LOG_LEVEL_ERROR fmt va l = Some (Inl e)"
proof -
  have "wfopen (pf_opens pf) l = Some (Inr (l\<lparr>attempts := Suc (attempts l)\<rparr>))"
    using assms(1) by (simp add: platform_ok_def wfopen_def open_attempt_def retry_success)
  moreover have "\<not> LOG_LEVEL_ERROR < m_LogLevel l" using assms(1) by (simp add: platform_ok_def not_less)
  ultimately show ?thesis
    using assms(2) by (simp add: WriteLog_def WriteLog_type_def Let_def StringCchVPrintf_def)
qed

text \<open>The two calls of the client in \<^verbatim>\<open>Connect\<close>.\<close>

definition open_client ::
  "('c, 'f, 'r) redis_api \<Rightarrow> byte list \<Rightarrow> 64 word \<Rightarrow> 'c \<Rightarrow> (what + unit) \<times> 'c" where
  "open_client api ip port c =
     (case api_connect api ip port c of
        (Inl what, c) \<Rightarrow> (Inl what, c)
      | (Inr u, c) \<Rightarrow> api_sync_commit api c)"

lemma Connect_outcomes:
  assumes "\<not> api_is_connected api c"
  shows "open_client api ip port c = (Inr (), c') \<Longrightarrow>
      RedisConnector_Connect api pf ip port (c, l) = Some (Inr (True, c', l))"
    and "open_client api ip port c = (Inl what, c') \<Longrightarrow> platform_ok pf l \<Longrightarrow>
      UTF8ToUTF16 (pf_newW pf) (pf_multiByteToWideChar pf) what = Inr message \<Longrightarrow>
      RedisConnector_Connect api pf ip port (c, l) = Some (Inl Undefined)"
  using assms WriteLog_undefined [OF _ missing_error_code]
  unfolding RedisConnector_Connect_def open_client_def log_error_def by simp_all

text \<open>
  C35. \<^verbatim>\<open>GetPointerTLS\<close> on a thread that has no connector yet.  When the array is full the pointer
  is written past it.  Otherwise, if the client connects, the thread gets a connector of its own
  in a table that stays well formed, and every later call answers that connector and changes
  nothing; if the first connection attempt fails, its handler calls the log with a format that
  asks for one argument more than it passes, which is undefined: the loop that would try again
  is never reached.
\<close>

theorem TLSRedis_GetPointerTLS_outcomes:
  assumes "slots_ok (rd_Slots w)" and "ts_Value (rd_Slots w) thread = None"
    and "\<not> api_is_connected api (api_new api)" and "platform_ok pf (rd_Log w)"
    and "UTF16ToUTF8 (pf_newA pf) (pf_wideCharToMultiByte pf) (rd_IP w) = Inr ip"
  shows "(length (ts_Objects (rd_Slots w)) = length (ts_Array (rd_Slots w)) \<longrightarrow>
      TLSRedis_GetPointerTLS api pf thread w = Some (Inl OutOfBounds)) \<and>
    (length (ts_Objects (rd_Slots w)) < length (ts_Array (rd_Slots w)) \<longrightarrow>
      (\<forall>c. open_client api ip (rd_Port w) (api_new api) = (Inr (), c) \<longrightarrow>
        (\<exists>w'. TLSRedis_GetPointerTLS api pf thread w = Some (Inr (length (ts_Objects (rd_Slots w)), w')) \<and>
           slots_ok (rd_Slots w') \<and> ts_Objects (rd_Slots w') = ts_Objects (rd_Slots w) @ [c] \<and>
           TLSRedis_GetPointerTLS api pf thread w' =
             Some (Inr (length (ts_Objects (rd_Slots w)), w')))) \<and>
      (\<forall>what c message. open_client api ip (rd_Port w) (api_new api) = (Inl what, c) \<and>
         UTF8ToUTF16 (pf_newW pf) (pf_multiByteToWideChar pf) what = Inr message \<longrightarrow>
        TLSRedis_GetPointerTLS api pf thread w = Some (Inl Undefined)))"
proof (intro conjI impI allI)
  assume "length (ts_Objects (rd_Slots w)) = length (ts_Array (rd_Slots w))"
  then show "TLSRedis_GetPointerTLS api pf thread w = Some (Inl OutOfBounds)"
    by (simp add: TLSRedis_GetPointerTLS_def slots_connect_full [OF assms(1,2)])
next
  fix c
  let ?connect = "\<lambda>ip. RedisConnector_Connect api pf ip (rd_Port w)"
  assume room: "length (ts_Objects (rd_Slots w)) < length (ts_Array (rd_Slots w))"
    and ok: "open_client api ip (rd_Port w) (api_new api) = (Inr (), c)"
  have "retry (?connect ip) (api_new api, rd_Log w) = Some (Inr (c, rd_Log w))"
    by (rule retry_success) (rule Connect_outcomes(1) [OF assms(3) ok])
  from slots_connect_loop(3) [where connect = ?connect, OF assms(1,2) room assms(5) this]
  obtain s' where s': "slots_connect (api_new api)
        (UTF16ToUTF8 (pf_newA pf) (pf_wideCharToMultiByte pf) (rd_IP w)) ?connect thread
        (rd_Slots w, rd_Log w) = Some (Inr (length (ts_Objects (rd_Slots w)), s', rd_Log w))"
      "slots_ok s'" "ts_Objects s' = ts_Objects (rd_Slots w) @ [c]"
      "ts_Value s' = (ts_Value (rd_Slots w))(thread \<mapsto> length (ts_Objects (rd_Slots w)))"
    by blast
  let ?w = "w\<lparr>rd_Slots := s', rd_Log := rd_Log w\<rparr>"
  have "TLSRedis_GetPointerTLS api pf thread w = Some (Inr (length (ts_Objects (rd_Slots w)), ?w))"
    by (simp add: TLSRedis_GetPointerTLS_def s'(1))
  moreover have "TLSRedis_GetPointerTLS api pf thread ?w =
      Some (Inr (length (ts_Objects (rd_Slots w)), ?w))"
    by (simp add: TLSRedis_GetPointerTLS_def slots_connect_known s'(4))
  ultimately show "\<exists>w'. TLSRedis_GetPointerTLS api pf thread w =
        Some (Inr (length (ts_Objects (rd_Slots w)), w')) \<and>
      slots_ok (rd_Slots w') \<and> ts_Objects (rd_Slots w') = ts_Objects (rd_Slots w) @ [c] \<and>
      TLSRedis_GetPointerTLS api pf thread w' = Some (Inr (length (ts_Objects (rd_Slots w)), w'))"
    using s'(2,3) by (intro exI [of _ ?w]) simp
next
  fix what c message
  let ?connect = "\<lambda>ip. RedisConnector_Connect api pf ip (rd_Port w)"
  assume room: "length (ts_Objects (rd_Slots w)) < length (ts_Array (rd_Slots w))"
    and "open_client api ip (rd_Port w) (api_new api) = (Inl what, c) \<and>
      UTF8ToUTF16 (pf_newW pf) (pf_multiByteToWideChar pf) what = Inr message"
  then have "retry (?connect ip) (api_new api, rd_Log w) = Some (Inl Undefined)"
    using Connect_outcomes(2) [OF assms(3) _ assms(4)] by (intro retry_fault) blast
  from slots_connect_loop(2) [where connect = ?connect, OF assms(1,2) room assms(5) this]
  show "TLSRedis_GetPointerTLS api pf thread w = Some (Inl Undefined)"
    by (simp add: TLSRedis_GetPointerTLS_def)
qed

section \<open>A reply that could not be fetched\<close>

text \<open>
  \<^verbatim>\<open>Get\<close> answers the reply when the three calls of the client succeed.  When the command or
  the future itself failed, the handler asks a future that has no state any more, and the
  exception this throws leaves \<^verbatim>\<open>Get\<close> after the error has been logged.
\<close>

theorem RedisConnector_Get_outcomes:
  assumes "platform_ok pf l"
  shows "(\<forall>r c'. rd_fetch api key c = (Inr r, c') \<longrightarrow>
      RedisConnector_Get api pf key (c, l) = Some (Inr (r, c', l))) \<and>
    (\<forall>what c' message. rd_fetch api key c = (Inl (what, NoState), c') \<and>
       UTF8ToUTF16 (pf_newW pf) (pf_multiByteToWideChar pf) what = Inr message \<longrightarrow>
      RedisConnector_Get api pf key (c, l) = Some (Inl Escaped))"
proof (intro conjI allI impI)
  fix what c' message
  assume *: "rd_fetch api key c = (Inl (what, NoState), c') \<and>
       UTF8ToUTF16 (pf_newW pf) (pf_multiByteToWideChar pf) what = Inr message"
  have "vprintf (wide ''Get() Error :%s'') [TextArg message] = Inr (wide ''Get() Error :'' @ message)"
    by (simp add: printf_simps)
  from WriteLog_prints [OF _ this] assms(1) obtain l' where
      "WriteLog (pf_opens pf) (pf_today pf) (Some (wide ''Redis'')) LOG_LEVEL_ERROR
        (wide ''Get() Error :%s'') [TextArg message] l = Some (Inr l')"
    unfolding platform_ok_def by blast
  with * show "RedisConnector_Get api pf key (c, l) = Some (Inl Escaped)"
    by (simp add: RedisConnector_Get_def log_error_def future_again_def)
qed (simp add: RedisConnector_Get_def)

section \<open>A client that may refuse\<close>

text \<open>
  A client for the witnesses: its state is the number of its connections; the address \<^verbatim>\<open>up\<close> can be
  reached, any other throws; the only key it has is \<^verbatim>\<open>k\<close>.
\<close>

definition tiny_api :: "(nat, byte list, byte list) redis_api" where
  "tiny_api =
     \<lparr>api_new = 0, api_is_connected = (\<lambda>c. 0 < c),
      api_connect = (\<lambda>ip port c. if ip = [117, 112] then (Inr (), Suc c) else (Inl [110, 111], c)),
      api_sync_commit = (\<lambda>c. (Inr (), c)), api_disconnect = (\<lambda>c. (Inr (), 0)),
      api_get = (\<lambda>key c. if 0 < c then (Inr key, c) else (Inl [110, 111], c)),
      api_future_get = (\<lambda>f c. (Inr f, c)), api_set = (\<lambda>k v c. (Inr (), c)),
      api_setex = (\<lambda>k s v c. (Inr (), c))\<rparr>"

definition tiny_platform :: platform where
  "tiny_platform =
     \<lparr>pf_opens = (\<lambda>n. True), pf_today = sample_day, pf_newA = (\<lambda>n. replicate (n + 16) 0),
      pf_newW = (\<lambda>n. replicate (n + 16) 0), pf_wideCharToMultiByte = ascii_os,
      pf_multiByteToWideChar = ascii_os\<rparr>"

lemma tiny_platform_ok: "platform_ok tiny_platform sample_log"
  by (simp add: platform_ok_def tiny_platform_def sample_log_def)

lemma tiny_conversions:
  "UTF16ToUTF8 (pf_newA tiny_platform) (pf_wideCharToMultiByte tiny_platform) (wide ''up'') =
     Inr [117, 112]"
  "UTF16ToUTF8 (pf_newA tiny_platform) (pf_wideCharToMultiByte tiny_platform) (wide ''down'') =
     Inr [100, 111, 119, 110]"
  "UTF8ToUTF16 (pf_newW tiny_platform) (pf_multiByteToWideChar tiny_platform) [110, 111] =
     Inr (wide ''no'')"
  by code_simp+

theorem TLSRedis_GetPointerTLS_outcomes_witness:
  "(\<exists>w'. TLSRedis_GetPointerTLS tiny_api tiny_platform 5
      (TLSRedisConnector_ctor (wide ''up'') 6379 2 sample_log) = Some (Inr (0, w')) \<and>
     ts_Objects (rd_Slots w') = [1]) \<and>
   TLSRedis_GetPointerTLS tiny_api tiny_platform 5
     (TLSRedisConnector_ctor (wide ''down'') 6379 2 sample_log) = Some (Inl Undefined) \<and>
   TLSRedis_GetPointerTLS tiny_api tiny_platform 5
     (TLSRedisConnector_ctor (wide ''up'') 6379 0 sample_log) = Some (Inl OutOfBounds)"
proof -
  let ?up = "\<lambda>n. TLSRedisConnector_ctor (wide ''up'') 6379 n sample_log :: nat TLSRedisConnector"
  let ?down = "TLSRedisConnector_ctor (wide ''down'') 6379 2 sample_log :: nat TLSRedisConnector"
  have fields: "rd_Slots (TLSRedisConnector_ctor ip port n l) = slots_new n"
      "rd_IP (TLSRedisConnector_ctor ip port n l) = ip"
      "rd_Port (TLSRedisConnector_ctor ip port n l) = port"
      "rd_Log (TLSRedisConnector_ctor ip port n l) = l" for ip port n l
    by (simp_all add: TLSRedisConnector_ctor_def)
  have new: "\<not> api_is_connected tiny_api (api_new tiny_api)" by (simp add: tiny_api_def)
  have slots: "slots_ok (slots_new n)" "ts_Value (slots_new n) 5 = None"
      "ts_Objects (slots_new n) = []" "length (ts_Array (slots_new n)) = n" for n
    by (simp_all add: slots_ok_new) (simp_all add: slots_new_def)
  have "open_client tiny_api [117, 112] 6379 (api_new tiny_api) = (Inr (), 1)"
      "open_client tiny_api [100, 111, 119, 110] 6379 (api_new tiny_api) = (Inl [110, 111], 0)"
    by (simp_all add: open_client_def tiny_api_def)
  then show ?thesis
    using TLSRedis_GetPointerTLS_outcomes [of "?up 2" 5 tiny_api tiny_platform "[117, 112]"]
      TLSRedis_GetPointerTLS_outcomes [of "?up 0" 5 tiny_api tiny_platform "[117, 112]"]
      TLSRedis_GetPointerTLS_outcomes [of ?down 5 tiny_api tiny_platform "[100, 111, 119, 110]"]
      tiny_conversions tiny_platform_ok new
    unfolding fields slots by (auto simp: slots_ok_new)
qed

theorem RedisConnector_Get_outcomes_witness:
  "RedisConnector_Get tiny_api tiny_platform [107] (1, sample_log) =
     Some (Inr ([107], 1, sample_log)) \<and>
   RedisConnector_Get tiny_api tiny_platform [107] (0, sample_log) = Some (Inl Escaped)"
  using RedisConnector_Get_outcomes [OF tiny_platform_ok, of tiny_api "[107]" 1]
    RedisConnector_Get_outcomes [OF tiny_platform_ok, of tiny_api "[107]" 0] tiny_conversions(3)
  by (simp add: rd_fetch_def tiny_api_def wide_def)

end
