(* ===== verification/DBConnector.thy ===== *)
theory DBConnector
  imports RedisConnector
begin

text \<open>
  The MySQL client of \<^verbatim>\<open>DBConnector.cpp\<close>.  The third-party connector library is a record of its
  operations on the state \<open>'d\<close> of the data base side; each may throw a \<^verbatim>\<open>SQLException\<close> with a
  message and a code.  The constructor leaves \<^verbatim>\<open>m_Connect\<close>, \<^verbatim>\<open>m_Query\<close> and \<^verbatim>\<open>m_Result\<close> as it finds
  them in the memory the object was made in: a pointer member is null, a pointer to an object,
  or a pattern of bits that is neither, and using one of the last kind is undefined.
\<close>

section \<open>What the connector calls\<close>

datatype 'a pointer = Null | Dangling | To 'a

type_synonym sql_exception = "what \<times> int"

record ('n, 's, 'r, 'd) sql_api =
  sql_connect :: "byte list \<Rightarrow> byte list \<Rightarrow> byte list \<Rightarrow> 'd \<Rightarrow> (sql_exception + 'n) \<times> 'd"
  sql_isClosed :: "'n \<Rightarrow> 'd \<Rightarrow> bool"
  sql_close :: "'n \<Rightarrow> 'd \<Rightarrow> 'd"
  sql_setSchema :: "'n \<Rightarrow> byte list \<Rightarrow> 'd \<Rightarrow> (sql_exception + unit) \<times> 'd"
  sql_createStatement :: "'n \<Rightarrow> 'd \<Rightarrow> (sql_exception + 's) \<times> 'd"
  sql_executeUpdate :: "'s \<Rightarrow> byte list \<Rightarrow> 'd \<Rightarrow> (sql_exception + unit) \<times> 'd"
  sql_executeQuery :: "'s \<Rightarrow> byte list \<Rightarrow> 'd \<Rightarrow> (sql_exception + 'r) \<times> 'd"

record ('n, 's, 'r) DBConnector =
  m_UserID :: wtext
  m_DBIP :: wtext
  m_DBPORT :: wtext
  m_DBPassword :: wtext
  m_DBName :: wtext
  m_Query :: "'s pointer"
  m_Result :: "'r pointer"
  m_Connect :: "'n pointer"

abbreviation QUERY_MAX_LEN :: nat where "QUERY_MAX_LEN \<equiv> 2048"
abbreviation LOG_TIME :: int where "LOG_TIME \<equiv> 500"

text \<open>\<open>junk\<close> is the memory \<^verbatim>\<open>new DBConnector\<close> gets.\<close>

definition DBConnector_ctor ::
  "('n, 's, 'r) DBConnector \<Rightarrow> wtext \<Rightarrow> wtext \<Rightarrow> wtext \<Rightarrow> wtext \<Rightarrow> wtext \<Rightarrow> ('n, 's, 'r) DBConnector" where
  "DBConnector_ctor junk dbIP dbPort user password dbName =
     junk\<lparr>m_DBIP := dbIP, m_DBPORT := dbPort, m_UserID := user, m_DBPassword := password,
       m_DBName := dbName\<rparr>"

definition deref :: "'a pointer \<Rightarrow> 'a run" where
  "deref p = (case p of Null \<Rightarrow> Inl NullDeref | Dangling \<Rightarrow> Inl Undefined | To x \<Rightarrow> Inr x)"

section \<open>A connector\<close>

type_synonym ('n, 's, 'r, 'd) db = "('n, 's, 'r) DBConnector \<times> 'd \<times> SysLog"

text \<open>\<^verbatim>\<open>m_Connect != nullptr\<close> and then \<^verbatim>\<open>!m_Connect->isClosed()\<close>.\<close>

definition connection_open ::
  "('n, 's, 'r, 'd) sql_api \<Rightarrow> ('n, 's, 'r) DBConnector \<Rightarrow> 'd \<Rightarrow> bool run" where
  "connection_open api c d =
     (if m_Connect c = Null then Inr False
      else bnd (deref (m_Connect c)) (\<lambda>n. Inr (\<not> sql_isClosed api n d)))"

primrec convert_texts :: "platform \<Rightarrow> wtext list \<Rightarrow> byte list list run" where
  "convert_texts pf [] = Inr []"
| "convert_texts pf (t # ts) =
     bnd (UTF16ToUTF8 (pf_newA pf) (pf_wideCharToMultiByte pf) t) (\<lambda>u.
     bnd (convert_texts pf ts) (\<lambda>us. Inr (u # us)))"

text \<open>
  The body of the \<^verbatim>\<open>try\<close> block: what it threw, if anything, and the connector as it leaves it.
  \<^verbatim>\<open>m_Connect\<close> is assigned before the schema is set, \<^verbatim>\<open>m_Query\<close> only at the end.
\<close>

definition open_connection ::
  "('n, 's, 'r, 'd) sql_api \<Rightarrow> byte list \<Rightarrow> byte list \<Rightarrow> byte list \<Rightarrow> byte list
   \<Rightarrow> ('n, 's, 'r) DBConnector \<times> 'd \<Rightarrow> (sql_exception + unit) \<times> ('n, 's, 'r) DBConnector \<times> 'd" where
  "open_connection api hostAddr user password dbName cd =
     (let (c, d) = cd in
      case sql_connect api hostAddr user password d of
        (Inl e, d) \<Rightarrow> (Inl e, c, d)
      | (Inr n, d) \<Rightarrow>
          (let c = c\<lparr>m_Connect := To n\<rparr> in
           case sql_setSchema api n dbName d of
             (Inl e, d) \<Rightarrow> (Inl e, c, d)
           | (Inr u, d) \<Rightarrow>
               (case sql_createStatement api n d of
                  (Inl e, d) \<Rightarrow> (Inl e, c, d)
                | (Inr s, d) \<Rightarrow> (Inr (), c\<lparr>m_Query := To s\<rparr>, d))))"

definition ascii :: "string \<Rightarrow> byte list" where
  "ascii s = map of_char s"

text \<open>
  An error of the data base is converted and logged in the category \<open>SQL\<close>, with the arguments
  \<open>before\<close> in front of the message.
\<close>

definition log_sql ::
  "platform \<Rightarrow> wtext \<Rightarrow> farg list \<Rightarrow> sql_exception \<Rightarrow> SysLog \<Rightarrow> SysLog run option" where
  "log_sql pf fmt before e l =
     andthen (Some (UTF8ToUTF16 (pf_newW pf) (pf_multiByteToWideChar pf) (fst e))) (\<lambda>errorMessage.
     WriteLog (pf_opens pf) (pf_today pf) (Some (wide ''SQL'')) LOG_LEVEL_ERROR fmt
       (before @ [TextArg errorMessage, IntArg (snd e)]) l)"

text \<open>\<^verbatim>\<open>sprintf_s\<close> ends the process when the address does not fit its hundred bytes.\<close>

definition DBConnector_Connect ::
  "('n, 's, 'r, 'd) sql_api \<Rightarrow> platform \<Rightarrow> ('n, 's, 'r, 'd) db \<Rightarrow> (bool \<times> ('n, 's, 'r, 'd) db) run option" where
  "DBConnector_Connect api pf cdl =
     (let (c, d, l) = cdl in
      andthen (Some (connection_open api c d)) (\<lambda>isOpen.
      if isOpen then Some (Inr (True, c, d, l))
      else
        andthen (Some (convert_texts pf [m_DBIP c, m_DBPORT c, m_UserID c, m_DBPassword c, m_DBName c]))
          (\<lambda>texts.
          let hostAddr = ascii ''tcp://'' @ texts ! 0 @ ascii '':'' @ texts ! 1 in
          if 100 \<le> length hostAddr then Some (Inl Crash)
          else
            case open_connection api hostAddr (texts ! 2) (texts ! 3) (texts ! 4) (c, d) of
              (Inr u, c, d) \<Rightarrow> Some (Inr (True, c, d, l))
            | (Inl e, c, d) \<Rightarrow>
                after (log_sql pf (wide ''SQL Connect() [ErroMessage:%s][ErrorCode:%d]'') [] e l)
                  (\<lambda>l. Inr (False, c, d, l)))))"

definition DBConnector_Disconnect ::
  "('n, 's, 'r, 'd) sql_api \<Rightarrow> ('n, 's, 'r) DBConnector \<times> 'd \<Rightarrow> (bool \<times> ('n, 's, 'r) DBConnector \<times> 'd) run" where
  "DBConnector_Disconnect api cd =
     (let (c, d) = cd in
      bnd (connection_open api c d) (\<lambda>isOpen.
      if isOpen
      then bnd (deref (m_Connect c)) (\<lambda>n. Inr (True, c, sql_close api n d))
      else Inr (False, c, d)))"

text \<open>The destructor closes an open connection; what it deletes is not used any more.\<close>

definition DBConnector_dtor ::
  "('n, 's, 'r, 'd) sql_api \<Rightarrow> ('n, 's, 'r) DBConnector \<times> 'd \<Rightarrow> 'd run" where
  "DBConnector_dtor api cd =
     (let (c, d) = cd in
      bnd (DBConnector_Disconnect api (c, d)) (\<lambda>(ok, c, d).
      bnd (if m_Query c = Dangling then Inl Undefined else Inr ()) (\<lambda>u. Inr d)))"

section \<open>Queries\<close>

definition ping_error :: wtext where
  "ping_error = wide ''Query_Result() Ping Error :'' @ [0xC751, 0xB2F5, 0xC5C6, 0xC74C]"

definition slow_query :: "string \<Rightarrow> wtext" where
  "slow_query name =
     wide name @ wide '' ['' @ [0xAC78, 0xB9B0, 0xC2DC, 0xAC04] @ wide '':%lld] [Query:%s]''"

text \<open>
  The part the four query functions share, from the ping on: \<open>message\<close> is the query as it is
  logged, \<open>outString\<close> its conversion, \<open>execute\<close> the call of the statement and what it does to
  the connector, \<open>ticks\<close> the difference of the two readings of the performance counter.
\<close>

definition run_statement ::
  "('n, 's, 'r, 'd) sql_api \<Rightarrow> platform
   \<Rightarrow> ('s \<Rightarrow> byte list \<Rightarrow> ('n, 's, 'r) DBConnector \<times> 'd
       \<Rightarrow> (sql_exception + unit) \<times> ('n, 's, 'r) DBConnector \<times> 'd)
   \<Rightarrow> wtext \<Rightarrow> wtext \<Rightarrow> int \<Rightarrow> wtext \<Rightarrow> ('n, 's, 'r, 'd) db \<Rightarrow> (bool \<times> ('n, 's, 'r, 'd) db) run option" where
  "run_statement api pf execute slow failed ticks message cdl =
     (let (c, d, l) = cdl in
      andthen (Some (UTF16ToUTF8 (pf_newA pf) (pf_wideCharToMultiByte pf) message)) (\<lambda>outString.
      andthen (Some (deref (m_Connect c))) (\<lambda>n.
      if sql_isClosed api n d
      then after (WriteLog (pf_opens pf) (pf_today pf) (Some (wide ''SQL'')) LOG_LEVEL_ERROR ping_error [] l)
             (\<lambda>l. Inr (False, c, d, l))
      else
        andthen (Some (deref (m_Query c))) (\<lambda>s.
        case execute s outString (c, d) of
          (Inr u, c, d) \<Rightarrow>
            (if LOG_TIME < ticks sdiv 10000
             then after (WriteLog (pf_opens pf) (pf_today pf) (Some (wide ''SQL'')) LOG_LEVEL_ERROR slow
                           [IntArg (ticks sdiv 10000), TextArg message] l)
                    (\<lambda>l. Inr (True, c, d, l))
             else Some (Inr (True, c, d, l)))
        | (Inl e, c, d) \<Rightarrow>
            after (log_sql pf failed [TextArg message] e l) (\<lambda>l. Inr (False, c, d, l))))))"

definition execute_update ::
  "('n, 's, 'r, 'd) sql_api \<Rightarrow> 's \<Rightarrow> byte list \<Rightarrow> ('n, 's, 'r) DBConnector \<times> 'd
   \<Rightarrow> (sql_exception + unit) \<times> ('n, 's, 'r) DBConnector \<times> 'd" where
  "execute_update api s outString cd =
     (let (r, d) = sql_executeUpdate api s outString (snd cd) in (r, fst cd, d))"

definition execute_query ::
  "('n, 's, 'r, 'd) sql_api \<Rightarrow> 's \<Rightarrow> byte list \<Rightarrow> ('n, 's, 'r) DBConnector \<times> 'd
   \<Rightarrow> (sql_exception + unit) \<times> ('n, 's, 'r) DBConnector \<times> 'd" where
  "execute_query api s outString cd =
     (case sql_executeQuery api s outString (snd cd) of
        (Inl e, d) \<Rightarrow> (Inl e, fst cd, d)
      | (Inr r, d) \<Rightarrow> (Inr (), (fst cd)\<lparr>m_Result := To r\<rparr>, d))"

text \<open>The overload that takes a finished text, and the variadic one, which formats first.\<close>

definition DBConnector_Query_text ::
  "('n, 's, 'r, 'd) sql_api \<Rightarrow> platform \<Rightarrow> int \<Rightarrow> wtext \<Rightarrow> ('n, 's, 'r, 'd) db
   \<Rightarrow> (bool \<times> ('n, 's, 'r, 'd) db) run option" where
  "DBConnector_Query_text api pf ticks =
     run_statement api pf (execute_update api) (slow_query ''SQL Query()'')
       (wide ''SQL Query():[Query:%s] [ErrorMessage:%s] [ErrorCode:%d]'') ticks"

definition DBConnector_Query ::
  "('n, 's, 'r, 'd) sql_api \<Rightarrow> platform \<Rightarrow> int \<Rightarrow> wtext \<Rightarrow> farg list \<Rightarrow> ('n, 's, 'r, 'd) db
   \<Rightarrow> (bool \<times> ('n, 's, 'r, 'd) db) run option" where
  "DBConnector_Query api pf ticks stringFormat va cdl =
     andthen (Some (StringCchVPrintf QUERY_MAX_LEN stringFormat va)) (\<lambda>(insufficient, message).
     run_statement api pf (execute_update api) (slow_query ''SQL Query()'')
       (wide ''SQL Query():[Query:%s] [ErrorMessage:%s] [ErrorCode:%d]'') ticks message cdl)"

definition DBConnector_Query_Result ::
  "('n, 's, 'r, 'd) sql_api \<Rightarrow> platform \<Rightarrow> int \<Rightarrow> wtext \<Rightarrow> farg list \<Rightarrow> ('n, 's, 'r, 'd) db
   \<Rightarrow> (bool \<times> ('n, 's, 'r, 'd) db) run option" where
  "DBConnector_Query_Result api pf ticks stringFormat va cdl =
     andthen (Some (StringCchVPrintf QUERY_MAX_LEN stringFormat va)) (\<lambda>(insufficient, message).
     run_statement api pf (execute_query api) (slow_query ''SQL QueryResult()'')
       (wide ''SQL QueryResult()[Query:%s] [ErrorMessage:%s] [ErrorCode:%d]'') ticks message cdl)"

definition DBConnector_Query_Result_text ::
  "('n, 's, 'r, 'd) sql_api \<Rightarrow> platform \<Rightarrow> int \<Rightarrow> wtext \<Rightarrow> ('n, 's, 'r, 'd) db
   \<Rightarrow> (bool \<times> ('n, 's, 'r, 'd) db) run option" where
  "DBConnector_Query_Result_text api pf ticks =
     run_statement api pf (execute_query api) (slow_query ''SQL QueryResult()'')
       (wide ''SQL QueryResult()[Query:%s] [ErrorMessage:%s] [ErrorCode:%d]'') ticks"

definition DBConnector_FetchResult :: "('n, 's, 'r) DBConnector \<Rightarrow> 'r pointer" where
  "DBConnector_FetchResult c = (if m_Result c = Null then Null else m_Result c)"

section \<open>One connector per thread\<close>

record ('n, 's, 'r, 'd) TLSDBConnector =
  tdb_Slots :: "('n, 's, 'r) DBConnector thread_slots"
  tdb_UserID :: wtext
  tdb_DBIP :: wtext
  tdb_DBPORT :: wtext
  tdb_DBPassword :: wtext
  tdb_DBName :: wtext
  tdb_Data :: 'd
  tdb_Log :: SysLog

definition TLSDBConnector_ctor ::
  "wtext \<Rightarrow> wtext \<Rightarrow> wtext \<Rightarrow> wtext \<Rightarrow> wtext \<Rightarrow> nat \<Rightarrow> 'd \<Rightarrow> SysLog \<Rightarrow> ('n, 's, 'r, 'd) TLSDBConnector" where
  "TLSDBConnector_ctor dbIP dbPort user password dbName threadCount d l =
     \<lparr>tdb_Slots = slots_new threadCount, tdb_UserID = user, tdb_DBIP = dbIP, tdb_DBPORT = dbPort,
      tdb_DBPassword = password, tdb_DBName = dbName, tdb_Data = d, tdb_Log = l\<rparr>"

definition new_connector ::
  "('n, 's, 'r) DBConnector \<Rightarrow> ('n, 's, 'r, 'd) TLSDBConnector \<Rightarrow> ('n, 's, 'r) DBConnector" where
  "new_connector junk w =
     DBConnector_ctor junk (tdb_DBIP w) (tdb_DBPORT w) (tdb_UserID w) (tdb_DBPassword w) (tdb_DBName w)"

definition TLSDB_GetPointerTLS ::
  "('n, 's, 'r, 'd) sql_api \<Rightarrow> platform \<Rightarrow> ('n, 's, 'r) DBConnector \<Rightarrow> 32 word
   \<Rightarrow> ('n, 's, 'r, 'd) TLSDBConnector \<Rightarrow> (nat \<times> ('n, 's, 'r, 'd) TLSDBConnector) run option" where
  "TLSDB_GetPointerTLS api pf junk thread w =
     after
       (slots_connect (new_connector junk w) (Inr ()) (\<lambda>u. DBConnector_Connect api pf) thread
         (tdb_Slots w, tdb_Data w, tdb_Log w))
       (\<lambda>(ptr, s, d, l). Inr (ptr, w\<lparr>tdb_Slots := s, tdb_Data := d, tdb_Log := l\<rparr>))"

text \<open>An operation on the connector a pointer stands for.\<close>

definition on_connector ::
  "nat \<Rightarrow> (('n, 's, 'r, 'd) db \<Rightarrow> ('x \<times> ('n, 's, 'r, 'd) db) run option)
   \<Rightarrow> ('n, 's, 'r, 'd) TLSDBConnector \<Rightarrow> ('x \<times> ('n, 's, 'r, 'd) TLSDBConnector) run option" where
  "on_connector ptr operation w =
     after (operation (ts_Objects (tdb_Slots w) ! ptr, tdb_Data w, tdb_Log w)) (\<lambda>(x, c, d, l).
       Inr (x, w\<lparr>tdb_Slots := slots_update ptr c (tdb_Slots w), tdb_Data := d, tdb_Log := l\<rparr>))"

text \<open>
  Both forms format first.  The finished text then selects the overload for a constant text in
  \<^verbatim>\<open>Query\<close>; \<^verbatim>\<open>Query_Result\<close> has its overload for a text that may be written, so the only candidate
  left is the variadic one, which takes the text as a format again.
\<close>

definition TLSDB_Query ::
  "('n, 's, 'r, 'd) sql_api \<Rightarrow> platform \<Rightarrow> ('n, 's, 'r) DBConnector \<Rightarrow> 32 word \<Rightarrow> int \<Rightarrow> wtext \<Rightarrow> farg list
   \<Rightarrow> ('n, 's, 'r, 'd) TLSDBConnector \<Rightarrow> (bool \<times> ('n, 's, 'r, 'd) TLSDBConnector) run option" where
  "TLSDB_Query api pf junk thread ticks stringFormat va w =
     andthen (TLSDB_GetPointerTLS api pf junk thread w) (\<lambda>(ptr, w).
     andthen (Some (StringCchVPrintf QUERY_MAX_LEN stringFormat va)) (\<lambda>(insufficient, message).
     on_connector ptr (DBConnector_Query_text api pf ticks message) w))"

definition TLSDB_Query_Result ::
  "('n, 's, 'r, 'd) sql_api \<Rightarrow> platform \<Rightarrow> ('n, 's, 'r) DBConnector \<Rightarrow> 32 word \<Rightarrow> int \<Rightarrow> wtext \<Rightarrow> farg list
   \<Rightarrow> ('n, 's, 'r, 'd) TLSDBConnector \<Rightarrow> (bool \<times> ('n, 's, 'r, 'd) TLSDBConnector) run option" where
  "TLSDB_Query_Result api pf junk thread ticks stringFormat va w =
     andthen (TLSDB_GetPointerTLS api pf junk thread w) (\<lambda>(ptr, w).
     andthen (Some (StringCchVPrintf QUERY_MAX_LEN stringFormat va)) (\<lambda>(insufficient, message).
     on_connector ptr (DBConnector_Query_Result api pf ticks message []) w))"

definition TLSDB_FetchResult ::
  "('n, 's, 'r, 'd) sql_api \<Rightarrow> platform \<Rightarrow> ('n, 's, 'r) DBConnector \<Rightarrow> 32 word
   \<Rightarrow> ('n, 's, 'r, 'd) TLSDBConnector \<Rightarrow> ('r pointer \<times> ('n, 's, 'r, 'd) TLSDBConnector) run option" where
  "TLSDB_FetchResult api pf junk thread w =
     after (TLSDB_GetPointerTLS api pf junk thread w) (\<lambda>(ptr, w).
       Inr (DBConnector_FetchResult (ts_Objects (tdb_Slots w) ! ptr), w))"

primrec close_connectors ::
  "('n, 's, 'r, 'd) sql_api \<Rightarrow> ('n, 's, 'r) DBConnector list \<Rightarrow> 'd \<Rightarrow> 'd run" where
  "close_connectors api [] d = Inr d"
| "close_connectors api (c # cs) d =
     bnd (DBConnector_Disconnect api (c, d)) (\<lambda>(ok, c, d).
     bnd (DBConnector_dtor api (c, d)) (close_connectors api cs))"

definition TLSDBConnector_dtor ::
  "('n, 's, 'r, 'd) sql_api \<Rightarrow> ('n, 's, 'r, 'd) TLSDBConnector \<Rightarrow> 'd run" where
  "TLSDBConnector_dtor api w =
     close_connectors api
       (map (\<lambda>i. ts_Objects (tdb_Slots w) ! the (ts_Array (tdb_Slots w) ! i))
         [0..<nat (ts_Index (tdb_Slots w) + 1)]) (tdb_Data w)"

section \<open>A data base for the witnesses\<close>

text \<open>
  It accepts every connection (its state counts them) and knows the schema \<open>chat\<close> only; a
  statement records nothing.
\<close>

definition tiny_sql :: "(nat, nat, byte list, nat) sql_api" where
  "tiny_sql =
     \<lparr>sql_connect = (\<lambda>host user password d. (Inr d, Suc d)), sql_isClosed = (\<lambda>n d. False),
      sql_close = (\<lambda>n d. d),
      sql_setSchema = (\<lambda>n name d. if name = ascii ''chat'' then (Inr (), d) else (Inl ([110, 111], 1049), d)),
      sql_createStatement = (\<lambda>n d. (Inr n, d)),
      sql_executeUpdate = (\<lambda>s q d. (Inr (), d)), sql_executeQuery = (\<lambda>s q d. (Inr q, d))\<rparr>"

definition tiny_memory :: "'s pointer \<Rightarrow> (nat, 's, byte list) DBConnector" where
  "tiny_memory q =
     \<lparr>m_UserID = [], m_DBIP = [], m_DBPORT = [], m_DBPassword = [], m_DBName = [], m_Query = q,
      m_Result = Null, m_Connect = Null\<rparr>"

definition tiny_db :: "wtext \<Rightarrow> (nat, nat, byte list, nat) TLSDBConnector" where
  "tiny_db schema =
     TLSDBConnector_ctor (wide ''h'') (wide ''3306'') (wide ''u'') (wide ''p'') schema 2 0 sample_log"

section \<open>Formatting twice\<close>

text \<open>
  What the two queries of a connected thread execute, for a format whose text fits the
  buffer: \<^verbatim>\<open>Query\<close> runs the text as formatted; so does \<^verbatim>\<open>Query_Result\<close> when the text has no percent
  sign, but a text with a lone percent sign, such as a pattern after \<^verbatim>\<open>LIKE\<close>, is formatted again
  without arguments, which is undefined.
\<close>

theorem TLSDB_queries_format:
  assumes "ts_Value (tdb_Slots w) thread = Some ptr" and "vprintf stringFormat va = Inr message"
    and "length message < QUERY_MAX_LEN"
  shows "TLSDB_Query api pf junk thread ticks stringFormat va w =
      on_connector ptr (DBConnector_Query_text api pf ticks message) w \<and>
    (of_char (CHR ''%'') \<notin> set message \<longrightarrow>
      TLSDB_Query_Result api pf junk thread ticks stringFormat va w =
      on_connector ptr (DBConnector_Query_Result_text api pf ticks message) w) \<and>
    (\<forall>t u. message = t @ of_char (CHR ''%'') # u \<and> of_char (CHR ''%'') \<notin> set t \<and>
        take 1 u \<noteq> wide ''%'' \<longrightarrow>
      TLSDB_Query_Result api pf junk thread ticks stringFormat va w = Some (Inl Undefined))"
proof -
  have ptr: "TLSDB_GetPointerTLS api pf junk thread w = Some (Inr (ptr, w))"
    using assms(1) by (simp add: TLSDB_GetPointerTLS_def slots_connect_known)
  have message: "StringCchVPrintf QUERY_MAX_LEN stringFormat va = Inr (False, message)"
    by (rule StringCchVPrintf_fits [OF assms(2,3)])
  show ?thesis
  proof (intro conjI impI allI)
    show "TLSDB_Query api pf junk thread ticks stringFormat va w =
        on_connector ptr (DBConnector_Query_text api pf ticks message) w"
      by (simp add: TLSDB_Query_def ptr message)
  next
    assume "of_char (CHR ''%'') \<notin> set message"
    then have "StringCchVPrintf QUERY_MAX_LEN message [] = Inr (False, message)"
      using assms(3) by (intro StringCchVPrintf_fits vprintf_plain)
    then have "DBConnector_Query_Result api pf ticks message [] =
        DBConnector_Query_Result_text api pf ticks message"
      by (simp add: fun_eq_iff DBConnector_Query_Result_def DBConnector_Query_Result_text_def)
    then show "TLSDB_Query_Result api pf junk thread ticks stringFormat va w =
        on_connector ptr (DBConnector_Query_Result_text api pf ticks message) w"
      by (simp add: TLSDB_Query_Result_def ptr message)
  next
    fix t u
    assume "message = t @ of_char (CHR ''%'') # u \<and> of_char (CHR ''%'') \<notin> set t \<and> take 1 u \<noteq> wide ''%''"
    then have "vprintf message [] = Inl Undefined" by (metis vprintf_missing_argument)
    then have "DBConnector_Query_Result api pf ticks message [] = (\<lambda>cdl. Some (Inl Undefined))"
      by (simp add: fun_eq_iff DBConnector_Query_Result_def StringCchVPrintf_def)
    then show "TLSDB_Query_Result api pf junk thread ticks stringFormat va w = Some (Inl Undefined)"
      by (simp add: TLSDB_Query_Result_def ptr message on_connector_def)
  qed
qed

text \<open>A connected thread whose query pattern ends in a percent sign.\<close>

definition connected_db :: "(nat, nat, byte list, nat) TLSDBConnector" where
  "connected_db =
     (tiny_db (wide ''chat''))\<lparr>tdb_Slots :=
        \<lparr>ts_Objects = [(tiny_memory (To 0))\<lparr>m_Connect := To 0\<rparr>], ts_Array = [Some 0, None], ts_Index = 0,
         ts_Value = [5 \<mapsto> 0]\<rparr>\<rparr>"

theorem TLSDB_queries_format_witness:
  "TLSDB_Query tiny_sql tiny_platform (tiny_memory Null) 5 0 (wide ''LIKE %s%%x'') [TextArg (wide ''a'')]
      connected_db =
     on_connector 0 (DBConnector_Query_text tiny_sql tiny_platform 0 (wide ''LIKE a%x'')) connected_db \<and>
   TLSDB_Query_Result tiny_sql tiny_platform (tiny_memory Null) 5 0 (wide ''LIKE %s%%x'')
      [TextArg (wide ''a'')] connected_db = Some (Inl Undefined)"
proof -
  let ?m = "wide ''LIKE a%x''"
  have ptr: "ts_Value (tdb_Slots connected_db) 5 = Some 0" by (simp add: connected_db_def)
  have printed: "vprintf (wide ''LIKE %s%%x'') [TextArg (wide ''a'')] = Inr ?m" by code_simp
  have "length ?m < QUERY_MAX_LEN" by (simp add: wide_def)
  moreover have "?m = wide ''LIKE a'' @ of_char (CHR ''%'') # wide ''x''"
      "of_char (CHR ''%'') \<notin> set (wide ''LIKE a'')" "take 1 (wide ''x'') \<noteq> wide ''%''"
    by (simp_all add: wide_def)
  ultimately show ?thesis
    using TLSDB_queries_format [OF ptr printed, of tiny_sql tiny_platform "tiny_memory Null" 0] by blast
qed

section \<open>A connection without a statement\<close>

lemma log_sql_prints:
  assumes "platform_ok pf l" and "UTF8ToUTF16 (pf_newW pf) (pf_multiByteToWideChar pf) what = Inr message"
  shows "\<exists>l'. log_sql pf (wide ''SQL Connect() [ErroMessage:%s][ErrorCode:%d]'') [] (what, code) l =
    Some (Inr l')"
proof -
  have "vprintf (wide ''SQL Connect() [ErroMessage:%s][ErrorCode:%d]'') [TextArg message, IntArg code] =
      Inr (wide ''SQL Connect() [ErroMessage:'' @ message @ wide ''][ErrorCode:'' @ dec code @ wide '']'')"
    by (simp add: printf_simps)
  from WriteLog_prints [OF _ this] assms show ?thesis
    by (simp add: log_sql_def platform_ok_def)
qed

lemma Connect_half_open:
  assumes "m_Connect c = Null"
    and "convert_texts pf [m_DBIP c, m_DBPORT c, m_UserID c, m_DBPassword c, m_DBName c] =
      Inr [ip, dbPort, user, password, dbName]"
    and "length ip + length dbPort < 93"
    and "sql_connect api (ascii ''tcp://'' @ ip @ ascii '':'' @ dbPort) user password d = (Inr n, d1)"
    and "sql_setSchema api n dbName d1 = (Inl (what, code), d2)" and "\<not> sql_isClosed api n d2"
    and "platform_ok pf l"
    and "UTF8ToUTF16 (pf_newW pf) (pf_multiByteToWideChar pf) what = Inr message"
  shows "\<exists>l'. DBConnector_Connect api pf (c, d, l) = Some (Inr (False, c\<lparr>m_Connect := To n\<rparr>, d2, l')) \<and>
    DBConnector_Connect api pf (c\<lparr>m_Connect := To n\<rparr>, d2, l') =
      Some (Inr (True, c\<lparr>m_Connect := To n\<rparr>, d2, l'))"
proof -
  from log_sql_prints [OF assms(7,8), of code] obtain l' where
      "log_sql pf (wide ''SQL Connect() [ErroMessage:%s][ErrorCode:%d]'') [] (what, code) l = Some (Inr l')"
    by blast
  moreover have "\<not> 100 \<le> length (ascii ''tcp://'' @ ip @ ascii '':'' @ dbPort)"
    using assms(3) by (simp add: ascii_def)
  ultimately have "DBConnector_Connect api pf (c, d, l) =
      Some (Inr (False, c\<lparr>m_Connect := To n\<rparr>, d2, l'))"
    using assms(1,2,4,5) unfolding DBConnector_Connect_def
    by (simp add: connection_open_def open_connection_def Let_def del: convert_texts.simps)
  moreover have "DBConnector_Connect api pf (c\<lparr>m_Connect := To n\<rparr>, d2, l') =
      Some (Inr (True, c\<lparr>m_Connect := To n\<rparr>, d2, l'))"
    using assms(6) by (simp add: DBConnector_Connect_def connection_open_def deref_def)
  ultimately show ?thesis by blast
qed

text \<open>
  When the server accepts the connection but the schema cannot be set, \<^verbatim>\<open>Connect\<close> reports
  failure with the connection left open, and the loop in \<^verbatim>\<open>GetPointerTLS\<close> tries again: the second
  attempt finds the open connection and succeeds.  The thread is given a connector that never
  had a statement made for it, and its first query goes through whatever the pointer member held
  when the object was allocated.
\<close>

theorem TLSDB_connects_without_statement:
  assumes "slots_ok (tdb_Slots w)" and "ts_Value (tdb_Slots w) thread = None"
    and "length (ts_Objects (tdb_Slots w)) < length (ts_Array (tdb_Slots w))"
    and "m_Connect junk = Null"
    and "convert_texts pf [tdb_DBIP w, tdb_DBPORT w, tdb_UserID w, tdb_DBPassword w, tdb_DBName w] =
      Inr [ip, dbPort, user, password, dbName]"
    and "length ip + length dbPort < 93"
    and "sql_connect api (ascii ''tcp://'' @ ip @ ascii '':'' @ dbPort) user password (tdb_Data w) =
      (Inr n, d1)"
    and "sql_setSchema api n dbName d1 = (Inl (what, code), d2)" and "\<not> sql_isClosed api n d2"
    and "platform_ok pf (tdb_Log w)"
    and "UTF8ToUTF16 (pf_newW pf) (pf_multiByteToWideChar pf) what = Inr message"
    and "UTF16ToUTF8 (pf_newA pf) (pf_wideCharToMultiByte pf) query = Inr outString"
  shows "\<exists>w' ptr. TLSDB_GetPointerTLS api pf junk thread w = Some (Inr (ptr, w')) \<and>
    slots_ok (tdb_Slots w') \<and> m_Query (ts_Objects (tdb_Slots w') ! ptr) = m_Query junk \<and>
    (m_Query junk = Dangling \<longrightarrow>
      on_connector ptr (DBConnector_Query_text api pf ticks query) w' = Some (Inl Undefined)) \<and>
    (m_Query junk = Null \<longrightarrow>
      on_connector ptr (DBConnector_Query_text api pf ticks query) w' = Some (Inl NullDeref))"
proof -
  let ?c = "new_connector junk w" and ?c' = "(new_connector junk w)\<lparr>m_Connect := To n\<rparr>"
  let ?connect = "\<lambda>u::unit. DBConnector_Connect api pf"
  have fields: "m_Connect ?c = Null"
      "convert_texts pf [m_DBIP ?c, m_DBPORT ?c, m_UserID ?c, m_DBPassword ?c, m_DBName ?c] =
        Inr [ip, dbPort, user, password, dbName]"
    using assms(4,5) unfolding new_connector_def DBConnector_ctor_def
    by (simp_all del: convert_texts.simps)
  from Connect_half_open [OF fields assms(6-11)] obtain l' where l':
      "DBConnector_Connect api pf (?c, tdb_Data w, tdb_Log w) = Some (Inr (False, ?c', d2, l'))"
      "DBConnector_Connect api pf (?c', d2, l') = Some (Inr (True, ?c', d2, l'))"
    by blast
  have loop: "retry (?connect ()) (?c, tdb_Data w, tdb_Log w) = Some (Inr (?c', d2, l'))"
    using retry_again [where attempt = "?connect ()", OF l'(1)]
      retry_success [where attempt = "?connect ()", OF l'(2)] by simp
  from slots_connect_loop(3) [where connect = ?connect, OF assms(1-3) _ loop] obtain s' where s':
      "slots_connect ?c (Inr ()) ?connect thread (tdb_Slots w, tdb_Data w, tdb_Log w) =
        Some (Inr (length (ts_Objects (tdb_Slots w)), s', d2, l'))"
      "slots_ok s'" "ts_Objects s' = ts_Objects (tdb_Slots w) @ [?c']"
    by blast
  let ?w = "w\<lparr>tdb_Slots := s', tdb_Data := d2, tdb_Log := l'\<rparr>" and ?ptr = "length (ts_Objects (tdb_Slots w))"
  have object: "ts_Objects (tdb_Slots ?w) ! ?ptr = ?c'" using s'(3) by simp
  have query: "m_Query ?c' = m_Query junk" by (simp add: new_connector_def DBConnector_ctor_def)
  have "TLSDB_GetPointerTLS api pf junk thread w = Some (Inr (?ptr, ?w))"
    by (simp add: TLSDB_GetPointerTLS_def s'(1))
  moreover have "on_connector ?ptr (DBConnector_Query_text api pf ticks query) ?w = Some (Inl e)"
    if "deref (m_Query junk) = Inl e" for e
    unfolding on_connector_def object DBConnector_Query_text_def run_statement_def
    using assms(9,12) that query by (simp add: deref_def)
  ultimately show ?thesis
    using s'(2) object query by (intro exI [of _ ?w] exI [of _ ?ptr]) (simp add: deref_def)
qed

text \<open>
  When the memory of a new connector is not zero where \<^verbatim>\<open>m_Connect\<close> lies, already the test
  whether it is connected goes through that pattern.
\<close>

lemma TLSDB_fresh_dangling:
  assumes "slots_ok (tdb_Slots w)" and "ts_Value (tdb_Slots w) thread = None"
    and "length (ts_Objects (tdb_Slots w)) < length (ts_Array (tdb_Slots w))"
    and "m_Connect junk = Dangling"
  shows "TLSDB_GetPointerTLS api pf junk thread w = Some (Inl Undefined)"
proof -
  let ?connect = "\<lambda>u::unit. DBConnector_Connect api pf"
  have "?connect () (new_connector junk w, tdb_Data w, tdb_Log w) = Some (Inl Undefined)"
    using assms(4) by (simp add: DBConnector_Connect_def connection_open_def deref_def
        new_connector_def DBConnector_ctor_def)
  then have "retry (?connect ()) (new_connector junk w, tdb_Data w, tdb_Log w) = Some (Inl Undefined)"
    by (rule retry_fault)
  from slots_connect_loop(2) [where connect = ?connect, OF assms(1-3) refl this] show ?thesis
    by (simp add: TLSDB_GetPointerTLS_def)
qed

lemma tiny_texts:
  "convert_texts tiny_platform [wide ''h'', wide ''3306'', wide ''u'', wide ''p'', wide ''nochat''] =
     Inr [ascii ''h'', ascii ''3306'', ascii ''u'', ascii ''p'', ascii ''nochat'']"
  "UTF16ToUTF8 (pf_newA tiny_platform) (pf_wideCharToMultiByte tiny_platform) (wide ''q'') =
     Inr (ascii ''q'')"
  by code_simp+

theorem TLSDB_connects_without_statement_witness:
  "\<exists>w' ptr. TLSDB_GetPointerTLS tiny_sql tiny_platform (tiny_memory Dangling) 5 (tiny_db (wide ''nochat'')) =
      Some (Inr (ptr, w')) \<and>
    on_connector ptr (DBConnector_Query_text tiny_sql tiny_platform 0 (wide ''q'')) w' =
      Some (Inl Undefined)"
proof -
  let ?w = "tiny_db (wide ''nochat'')" and ?junk = "tiny_memory Dangling :: (nat, nat, byte list) DBConnector"
  have w: "tdb_Slots ?w = slots_new 2" "tdb_DBIP ?w = wide ''h''" "tdb_DBPORT ?w = wide ''3306''"
      "tdb_UserID ?w = wide ''u''" "tdb_DBPassword ?w = wide ''p''" "tdb_DBName ?w = wide ''nochat''"
      "tdb_Data ?w = 0" "tdb_Log ?w = sample_log"
    by (simp_all add: tiny_db_def TLSDBConnector_ctor_def)
  have slots: "slots_ok (tdb_Slots ?w)" "ts_Value (tdb_Slots ?w) 5 = None"
      "length (ts_Objects (tdb_Slots ?w)) < length (ts_Array (tdb_Slots ?w))"
    unfolding w by (simp_all add: slots_ok_new) (simp_all add: slots_new_def)
  have junk: "m_Connect ?junk = Null" "m_Query ?junk = Dangling" by (simp_all add: tiny_memory_def)
  have short: "length (ascii ''h'') + length (ascii ''3306'') < 93" by (simp add: ascii_def)
  have sql: "sql_connect tiny_sql (ascii ''tcp://'' @ ascii ''h'' @ ascii '':'' @ ascii ''3306'')
        (ascii ''u'') (ascii ''p'') (tdb_Data ?w) = (Inr 0, 1)"
      "sql_setSchema tiny_sql 0 (ascii ''nochat'') 1 = (Inl ([110, 111], 1049), 1)"
      "\<not> sql_isClosed tiny_sql 0 1"
    by (simp_all add: tiny_sql_def w ascii_def)
  have texts: "convert_texts tiny_platform
      [tdb_DBIP ?w, tdb_DBPORT ?w, tdb_UserID ?w, tdb_DBPassword ?w, tdb_DBName ?w] =
      Inr [ascii ''h'', ascii ''3306'', ascii ''u'', ascii ''p'', ascii ''nochat'']"
    unfolding w by (rule tiny_texts(1))
  have log: "platform_ok tiny_platform (tdb_Log ?w)" unfolding w by (rule tiny_platform_ok)
  from TLSDB_connects_without_statement
    [OF slots junk(1) texts short sql log tiny_conversions(3) tiny_texts(2), of 0] junk(2)
  show ?thesis by blast
qed

end
