(* ===== verification/Login.thy ===== *)
theory Login
  imports Building RedisConnector
begin

text \<open>
  The login of the chat server, from the callback of the asynchronous call on: the account
  number is looked up in Redis, the stored key is compared with the client's, and the reply is
  handed to the update thread as a job.  Here the chat server and its Redis connector meet:
  \<open>lw_World\<close> is the server, \<open>lw_Redis\<close> the member \<^verbatim>\<open>m_RedisCon\<close>, \<open>lw_Log\<close> the log.  \<open>reply_key\<close>
  reads a reply of the client library: \<^const>\<open>None\<close> when \<^verbatim>\<open>is_null()\<close>, its text otherwise.
\<close>

record 'c login_world =
  lw_World :: World
  lw_Redis :: 'c
  lw_Log :: SysLog

definition REDIS_IP :: "byte list" where
  "REDIS_IP = map of_char ''127.0.0.1''"

definition REDIS_PORT :: "64 word" where
  "REDIS_PORT = 6379"

text \<open>\<^verbatim>\<open>std::to_string\<close> of the account number.\<close>

definition account_text :: "64 word \<Rightarrow> byte list" where
  "account_text accountNo = map ucast (decimal False 0 (sint accountNo))"

definition APC_login ::
  "('c, 'f, 'r) redis_api \<Rightarrow> platform \<Rightarrow> ('r \<Rightarrow> byte list option) \<Rightarrow> env \<Rightarrow> RedisJob \<Rightarrow> 'c login_world
   \<Rightarrow> 'c login_world run option" where
  "APC_login api pf reply_key e redisJob lw =
     after (RedisConnector_Get api pf (account_text (r_AccoutAno redisJob)) (lw_Redis lw, lw_Log lw))
       (\<lambda>(result, c, l).
         bnd (APCCompleteCallBack e (reply_key result) redisJob (lw_World lw)) (\<lambda>w.
         Inr \<lparr>lw_World = w, lw_Redis = c, lw_Log = l\<rparr>))"

text \<open>
  Starting: a new connector, the loop that connects it, and the server.  Stopping: the server,
  then the connector.
\<close>

definition login_start ::
  "('c, 'f, 'r) redis_api \<Rightarrow> platform \<Rightarrow> net_env \<Rightarrow> (nat \<Rightarrow> Session) \<Rightarrow> string option \<Rightarrow> 16 word \<Rightarrow> SocketOption
   \<Rightarrow> 32 word \<Rightarrow> 32 word \<Rightarrow> TimeOutOption \<Rightarrow> 'c login_world \<Rightarrow> 'c login_world run option" where
  "login_start api pf ne raw ip port opt workerThreadCount maxUserCount timeOutOption lw =
     after (retry (RedisConnector_Connect api pf REDIS_IP REDIS_PORT) (api_new api, lw_Log lw)) (\<lambda>(c, l).
       bnd (ChattingServerStart ne raw ip port opt workerThreadCount maxUserCount timeOutOption (lw_World lw))
         (\<lambda>(ok, calls, w). Inr \<lparr>lw_World = w, lw_Redis = c, lw_Log = l\<rparr>))"

definition login_stop ::
  "('c, 'f, 'r) redis_api \<Rightarrow> platform \<Rightarrow> 'c login_world \<Rightarrow> 'c login_world run option" where
  "login_stop api pf lw =
     andthen (Some (ChattingServerStop (lw_World lw))) (\<lambda>(ok, w).
     after (RedisConnector_Disconnect api pf (lw_Redis lw, lw_Log lw)) (\<lambda>(ok, c, l).
       Inr \<lparr>lw_World = w, lw_Redis = c, lw_Log = l\<rparr>))"

section \<open>A login\<close>

text \<open>
  What the callback leaves behind when it has queued its reply: one more job for the update thread,
  which owns the only reference to a packet taken from the pool.
\<close>

definition reply_queued ::
  "RedisJob \<Rightarrow> byte list option \<Rightarrow> objptr multiset \<Rightarrow> objptr set \<Rightarrow> World \<Rightarrow> World \<Rightarrow> bool" where
  "reply_queued redisJob key H J w w' \<longleftrightarrow> (\<exists>p j.
     world_inv w' H J \<and> p \<notin># refs w + H \<and> refs w' = add_mset p (refs w) \<and>
     m_SessionArray w' = m_SessionArray w \<and> w_io w' = w_io w @ [SetUpdateEvent] \<and>
     job_list w' = job_list w @ [j] \<and>
     job_of w' j = \<lparr>j_TYPE = ON_LOGIN_RESULT, j_SessionID = r_SessionID redisJob, j_NetPacketPtr = Some p\<rparr> \<and>
     ready (mp_get (w_NetPacketPool w') p) \<and>
     payload (mp_get (w_NetPacketPool w') p) = le_bytes 2 en_PACKET_CS_CHAT_RES_LOGIN @
       le_bytes 1 (if key = Some (takeWhile (\<lambda>b. b \<noteq> 0) (r_SessionKey redisJob)) then 1 else 0 :: 8 word) @
       le_bytes 8 (r_AccoutAno redisJob))"

text \<open>
  How the callback goes on with a reply: the key of the client is only looked at when the data base
  has one for the account, and it is read as a text that ends with a zero byte.
\<close>

definition goes_on ::
  "RedisJob \<Rightarrow> byte list option \<Rightarrow> objptr multiset \<Rightarrow> objptr set \<Rightarrow> 'c login_world \<Rightarrow> 'c \<Rightarrow> SysLog
   \<Rightarrow> 'c login_world run option \<Rightarrow> bool" where
  "goes_on redisJob key H J lw c l outcome \<longleftrightarrow>
     (if key = None \<or> 0 \<in> set (r_SessionKey redisJob)
      then \<exists>w'. outcome = Some (Inr \<lparr>lw_World = w', lw_Redis = c, lw_Log = l\<rparr>) \<and>
             reply_queued redisJob key H J (lw_World lw) w'
      else outcome = Some (Inl OutOfBounds))"

lemma APC_goes_on:
  assumes "world_inv (lw_World lw) H J" and "queue_room (m_ThreadQ (lw_World lw))"
    and "RedisConnector_Get api pf (account_text (r_AccoutAno redisJob)) (lw_Redis lw, lw_Log lw) =
      Some (Inr (r, c, l))"
  shows "goes_on redisJob (reply_key r) H J lw c l (APC_login api pf reply_key e redisJob lw)"
proof (cases "reply_key r = None \<or> 0 \<in> set (r_SessionKey redisJob)")
  case True
  from login_reply_queued [OF assms(1,2) True, of e] obtain w' where
      "APCCompleteCallBack e (reply_key r) redisJob (lw_World lw) = Inr w'"
      "reply_queued redisJob (reply_key r) H J (lw_World lw) w'"
    unfolding reply_queued_def by blast
  with True show ?thesis by (simp add: goes_on_def APC_login_def assms(3))
next
  case False
  then obtain key where "reply_key r = Some key" "0 \<notin> set (r_SessionKey redisJob)" by auto
  with login_key_overread [OF assms(1), of redisJob e key] show ?thesis
    by (simp add: goes_on_def APC_login_def assms(3))
qed

text \<open>The error handler of \<^verbatim>\<open>Get\<close>, once the message is converted: it logs, then asks the future again.\<close>

lemma RedisConnector_Get_handler:
  assumes "platform_ok pf l" and "rd_fetch api key c = (Inl (what, f), c')"
    and "UTF8ToUTF16 (pf_newW pf) (pf_multiByteToWideChar pf) what = Inr message"
  shows "\<exists>l'. log_error pf (wide ''Redis'') (wide ''Get() Error :%s'') what l = Some (Inr l') \<and>
    RedisConnector_Get api pf key (c, l) = Some (bnd (future_again api f c') (\<lambda>(r, c). Inr (r, c, l')))"
proof -
  have "vprintf (wide ''Get() Error :%s'') [TextArg message] = Inr (wide ''Get() Error :'' @ message)"
    by (simp add: printf_simps)
  from WriteLog_prints [OF _ this] assms(1) obtain l' where
      "WriteLog (pf_opens pf) (pf_today pf) (Some (wide ''Redis'')) LOG_LEVEL_ERROR
        (wide ''Get() Error :%s'') [TextArg message] l = Some (Inr l')"
    unfolding platform_ok_def by blast
  with assms(2,3) show ?thesis by (simp add: RedisConnector_Get_def log_error_def)
qed

text \<open>
  C28. What the login callback does with every outcome of its Redis lookup, for a data base whose
  replies are null or a text.  When the lookup answers, the callback goes on with the reply: if there
  is no key for the account, or the client's key contains a zero byte, one job is queued for the
  update thread, which carries the identifier of the session that asked and owns the only reference
  to a packet taken from the pool; the packet holds the login reply, whose status is 1 exactly when
  there is a key and it is the client's.  A client's key without a zero byte is read past its end as
  soon as there is a key to compare it with.  When the lookup throws, its message is converted
  (a conversion that writes past its buffer ends the callback there) and logged, and the future is
  asked again: if it has no state any more, or throws again, the exception leaves the callback and no
  reply is ever made; if only the commit had failed and the future answers now, the callback goes on
  with that answer.  The callback runs when an asynchronous call with it was queued, which the call
  in the login handler does not achieve (C13).
\<close>

theorem login_through_redis:
  assumes "world_inv (lw_World lw) H J" and "queue_room (m_ThreadQ (lw_World lw))"
    and "platform_ok pf (lw_Log lw)"
  shows "case rd_fetch api (account_text (r_AccoutAno redisJob)) (lw_Redis lw) of
      (Inr r, c) \<Rightarrow> goes_on redisJob (reply_key r) H J lw c (lw_Log lw) (APC_login api pf reply_key e redisJob lw)
    | (Inl (what, f), c) \<Rightarrow>
        (case UTF8ToUTF16 (pf_newW pf) (pf_multiByteToWideChar pf) what of
           Inl err \<Rightarrow> APC_login api pf reply_key e redisJob lw = Some (Inl err)
         | Inr message \<Rightarrow> \<exists>l. log_error pf (wide ''Redis'') (wide ''Get() Error :%s'') what (lw_Log lw) = Some (Inr l) \<and>
             (case f of
                NoState \<Rightarrow> APC_login api pf reply_key e redisJob lw = Some (Inl Escaped)
              | Pending g \<Rightarrow>
                  (case api_future_get api g c of
                     (Inl what, c) \<Rightarrow> APC_login api pf reply_key e redisJob lw = Some (Inl Escaped)
                   | (Inr r, c) \<Rightarrow>
                       goes_on redisJob (reply_key r) H J lw c l (APC_login api pf reply_key e redisJob lw))))"
proof -
  let ?key = "account_text (r_AccoutAno redisJob)"
  obtain x c where x: "rd_fetch api ?key (lw_Redis lw) = (x, c)" by fastforce
  show ?thesis
  proof (cases x)
    case (Inr r)
    with x have "RedisConnector_Get api pf ?key (lw_Redis lw, lw_Log lw) = Some (Inr (r, c, lw_Log lw))"
      by (simp add: RedisConnector_Get_def)
    from APC_goes_on [OF assms(1,2) this] show ?thesis by (simp add: x Inr)
  next
    case (Inl failure)
    obtain what f where f: "failure = (what, f)" by fastforce
    note x = x [unfolded Inl f]
    show ?thesis
    proof (cases "UTF8ToUTF16 (pf_newW pf) (pf_multiByteToWideChar pf) what")
      case (Inl err)
      then show ?thesis by (simp add: x APC_login_def RedisConnector_Get_def log_error_def)
    next
      case (Inr message)
      from RedisConnector_Get_handler [OF assms(3) x Inr] obtain l where
          l: "log_error pf (wide ''Redis'') (wide ''Get() Error :%s'') what (lw_Log lw) = Some (Inr l)"
          "RedisConnector_Get api pf ?key (lw_Redis lw, lw_Log lw) =
             Some (bnd (future_again api f c) (\<lambda>(r, c). Inr (r, c, l)))" by blast
      from l(2) APC_goes_on [OF assms(1,2), of api pf redisJob _ _ l reply_key e] show ?thesis
        by (auto simp: x Inr l(1) APC_login_def future_again_def split: future.split sum.split prod.split)
    qed
  qed
qed

theorem login_through_redis_witness:
  "\<exists>w w' p. world_inv w {#} {} \<and>
     APC_login tiny_api tiny_platform Some quiet \<lparr>r_SessionID = 1, r_AccoutAno = 258,
         r_SessionKey = [50, 53, 56] @ replicate 61 0\<rparr>
       \<lparr>lw_World = w, lw_Redis = 1, lw_Log = sample_log\<rparr> =
       Some (Inr \<lparr>lw_World = w', lw_Redis = 1, lw_Log = sample_log\<rparr>) \<and>
     payload (mp_get (w_NetPacketPool w') p) = [2, 0, 1, 2, 1, 0, 0, 0, 0, 0, 0] \<and>
     APC_login tiny_api tiny_platform Some quiet \<lparr>r_SessionID = 1, r_AccoutAno = 258,
         r_SessionKey = replicate 64 65\<rparr>
       \<lparr>lw_World = w, lw_Redis = 1, lw_Log = sample_log\<rparr> = Some (Inl OutOfBounds) \<and>
     APC_login tiny_api tiny_platform Some quiet \<lparr>r_SessionID = 1, r_AccoutAno = 258,
         r_SessionKey = [50, 53, 56] @ replicate 61 0\<rparr>
       \<lparr>lw_World = w, lw_Redis = 0, lw_Log = sample_log\<rparr> = Some (Inl Escaped)"
proof -
  let ?job = "\<lambda>key. \<lparr>r_SessionID = 1, r_AccoutAno = 258, r_SessionKey = key\<rparr>"
  let ?key = "[50, 53, 56] @ replicate 61 0"
  obtain w where w: "world_inv w {#} {}" "queue_room (m_ThreadQ w)" using started_server by blast
  let ?lw = "\<lambda>c. \<lparr>lw_World = w, lw_Redis = c, lw_Log = sample_log\<rparr>"
  have lw: "world_inv (lw_World (?lw c)) {#} {}" "queue_room (m_ThreadQ (lw_World (?lw c)))"
      "platform_ok tiny_platform (lw_Log (?lw c))" for c :: nat
    using w tiny_platform_ok by simp_all
  have account: "account_text 258 = [50, 53, 56]" by code_simp
  have bytes: "le_bytes 2 en_PACKET_CS_CHAT_RES_LOGIN @ le_bytes 1 (1 :: 8 word) @ le_bytes 8 (258 :: 64 word)
      = [2, 0, 1, 2, 1, 0, 0, 0, 0, 0, 0]" by code_simp
  have fetch: "rd_fetch tiny_api [50, 53, 56] 1 = (Inr [50, 53, 56], 1)"
      "rd_fetch tiny_api [50, 53, 56] 0 = (Inl ([110, 111], NoState), 0)"
    by (simp_all add: rd_fetch_def tiny_api_def)
  note login = login_through_redis [where api = tiny_api and reply_key = Some and e = quiet]
  from login [OF lw [of 0], where redisJob = "?job ?key"] account fetch(2) tiny_conversions(3)
  have "APC_login tiny_api tiny_platform Some quiet (?job ?key) (?lw 0) = Some (Inl Escaped)" by auto
  moreover from login [OF lw [of 1], where redisJob = "?job (replicate 64 65)"] account fetch(1)
  have "APC_login tiny_api tiny_platform Some quiet (?job (replicate 64 65)) (?lw 1) = Some (Inl OutOfBounds)"
    by (simp add: goes_on_def)
  moreover from login [OF lw [of 1], where redisJob = "?job ?key"] account fetch(1)
  obtain w' p where "APC_login tiny_api tiny_platform Some quiet (?job ?key) (?lw 1) =
        Some (Inr \<lparr>lw_World = w', lw_Redis = 1, lw_Log = sample_log\<rparr>)"
      "payload (mp_get (w_NetPacketPool w') p) =
        le_bytes 2 en_PACKET_CS_CHAT_RES_LOGIN @ le_bytes 1 (1 :: 8 word) @ le_bytes 8 (258 :: 64 word)"
    by (auto simp: goes_on_def reply_queued_def)
  ultimately show ?thesis using w(1) unfolding bytes by blast
qed

end
