(* ===== verification/CPUUsage.thy ===== *)
theory CPUUsage
  imports Prelude Complex_Main
begin

text \<open>
  The load meter of \<^verbatim>\<open>CPUUsage.cpp\<close>.  What the operating system answers, in units of 100
  nanoseconds, are arguments.  The percentages are \<^verbatim>\<open>float\<close> in the program; here they are exact
  rationals, and a division by zero, which yields an infinity or no number there, is \<^const>\<open>None\<close>.
\<close>

record system_times =
  t_idle :: "64 word"
  t_kernel :: "64 word"
  t_user :: "64 word"

record process_times =
  t_now :: "64 word"
  t_process_kernel :: "64 word"
  t_process_user :: "64 word"

record CPUUsage =
  m_NuberOfProcessors :: nat
  m_ProcessorTotal :: rat
  m_ProcessorUser :: rat
  m_ProcessorKernel :: rat
  m_ProcessTotal :: "rat option"
  m_ProcessUser :: "rat option"
  m_ProcessKernel :: "rat option"
  m_Processor_LastKernel :: "64 word"
  m_Processor_LastUser :: "64 word"
  m_Processor_LastIdle :: "64 word"
  m_Process_LastKernel :: "64 word"
  m_Process_LastUser :: "64 word"
  m_Process_LastTime :: "64 word"

definition percent :: "64 word \<Rightarrow> 64 word \<Rightarrow> rat" where
  "percent part whole = of_int (uint part) / of_int (uint whole) * 100"

text \<open>Both divisions are in \<^verbatim>\<open>double\<close>, by the number of processors and by the time passed.\<close>

definition process_share :: "nat \<Rightarrow> 64 word \<Rightarrow> 64 word \<Rightarrow> rat option" where
  "process_share processors part timeDiff =
     (if processors = 0 \<or> timeDiff = 0 then None
      else Some (of_int (uint part) / of_nat processors / of_int (uint timeDiff) * 100))"

definition processor_update :: "system_times \<Rightarrow> CPUUsage \<Rightarrow> CPUUsage" where
  "processor_update t u =
     (let kernelDiff = t_kernel t - m_Processor_LastKernel u;
          userDiff = t_user t - m_Processor_LastUser u;
          idleDiff = t_idle t - m_Processor_LastIdle u;
          total = kernelDiff + userDiff;
          u = (if total = 0
               then u\<lparr>m_ProcessorUser := 0, m_ProcessorKernel := 0, m_ProcessorTotal := 0\<rparr>
               else u\<lparr>m_ProcessorTotal := percent (total - idleDiff) total,
                      m_ProcessorUser := percent userDiff total,
                      m_ProcessorKernel := percent (kernelDiff - idleDiff) total\<rparr>)
      in u\<lparr>m_Processor_LastKernel := t_kernel t, m_Processor_LastUser := t_user t,
           m_Processor_LastIdle := t_idle t\<rparr>)"

definition process_update :: "process_times \<Rightarrow> CPUUsage \<Rightarrow> CPUUsage" where
  "process_update t u =
     (let timeDiff = t_now t - m_Process_LastTime u;
          userDiff = t_process_user t - m_Process_LastUser u;
          kernelDiff = t_process_kernel t - m_Process_LastKernel u;
          total = kernelDiff + userDiff
      in u\<lparr>m_ProcessTotal := process_share (m_NuberOfProcessors u) total timeDiff,
           m_ProcessKernel := process_share (m_NuberOfProcessors u) kernelDiff timeDiff,
           m_ProcessUser := process_share (m_NuberOfProcessors u) userDiff timeDiff,
           m_Process_LastTime := t_now t, m_Process_LastKernel := t_process_kernel t,
           m_Process_LastUser := t_process_user t\<rparr>)"

text \<open>A failed \<^verbatim>\<open>GetSystemTimes\<close> is \<^const>\<open>None\<close> and leaves everything as it is.\<close>

definition UpdateCPUTime :: "system_times option \<Rightarrow> process_times \<Rightarrow> CPUUsage \<Rightarrow> CPUUsage" where
  "UpdateCPUTime st pt u =
     (case st of None \<Rightarrow> u | Some t \<Rightarrow> process_update pt (processor_update t u))"

definition CPUUsage_ctor :: "nat \<Rightarrow> system_times option \<Rightarrow> process_times \<Rightarrow> CPUUsage" where
  "CPUUsage_ctor processors st pt =
     UpdateCPUTime st pt
       \<lparr>m_NuberOfProcessors = processors, m_ProcessorTotal = 0, m_ProcessorUser = 0,
        m_ProcessorKernel = 0, m_ProcessTotal = Some 0, m_ProcessUser = Some 0,
        m_ProcessKernel = Some 0, m_Processor_LastKernel = 0, m_Processor_LastUser = 0,
        m_Processor_LastIdle = 0, m_Process_LastKernel = 0, m_Process_LastUser = 0,
        m_Process_LastTime = 0\<rparr>"

section \<open>The percentages add up\<close>

lemma uint_plus_fits: "uint a + uint b < 2 ^ 64 \<Longrightarrow> uint (a + b :: 64 word) = uint a + uint b"
  by (simp add: uint_word_ariths)

lemma percent_add:
  "uint a + uint b < 2 ^ 64 \<Longrightarrow> percent (a + b) t = percent a t + percent (b :: 64 word) t"
  by (simp add: percent_def uint_word_ariths add_divide_distrib distrib_right)

lemma ratio_bounds:
  fixes a b :: int
  assumes "0 \<le> a" and "a \<le> b"
  shows "0 \<le> of_int a / of_int b * (100::rat) \<and> of_int a / of_int b * (100::rat) \<le> 100"
proof -
  have "0 \<le> (of_int a :: rat)" "(of_int a :: rat) \<le> of_int b" using assms by simp_all
  then have "of_int a / of_int b \<le> (1::rat)" "0 \<le> of_int a / (of_int b :: rat)"
    by (auto simp: divide_le_eq_1)
  from mult_right_mono [OF this(1), of 100] mult_right_mono [OF this(2), of 100] show ?thesis
    by (simp only: mult_1_left mult_zero_left)
qed

lemma percent_bounds: "part \<le> whole \<Longrightarrow> 0 \<le> percent part whole \<and> percent part whole \<le> 100"
  unfolding percent_def word_le_def by (intro ratio_bounds) simp_all

lemma uint_minus_le: "b \<le> a \<Longrightarrow> uint (a - b :: 64 word) = uint a - uint b"
  by (simp add: uint_minus_simple_alt)

text \<open>
  After an update, with counters that behave as documented (the kernel time includes the
  idle time, and no difference wraps around), the processor's load lies between 0 and 100 and is
  exactly the sum of its user and kernel shares, whatever the counters started at; the same sum
  holds for the process.
\<close>

theorem cpu_shares_add_up:
  assumes "t_idle t - m_Processor_LastIdle u \<le> t_kernel t - m_Processor_LastKernel u"
    and "uint (t_kernel t - m_Processor_LastKernel u) + uint (t_user t - m_Processor_LastUser u) < 2 ^ 64"
    and "uint (t_process_kernel p - m_Process_LastKernel u) +
      uint (t_process_user p - m_Process_LastUser u) < 2 ^ 64"
    and "t_now p \<noteq> m_Process_LastTime u" and "m_NuberOfProcessors u \<noteq> 0"
  shows "let u' = UpdateCPUTime (Some t) p u in
    0 \<le> m_ProcessorTotal u' \<and> m_ProcessorTotal u' \<le> 100 \<and>
    m_ProcessorTotal u' = m_ProcessorUser u' + m_ProcessorKernel u' \<and>
    (\<exists>user kernel. m_ProcessUser u' = Some user \<and> m_ProcessKernel u' = Some kernel \<and>
       m_ProcessTotal u' = Some (kernel + user))"
proof -
  let ?k = "t_kernel t - m_Processor_LastKernel u" and ?us = "t_user t - m_Processor_LastUser u"
    and ?i = "t_idle t - m_Processor_LastIdle u"
  let ?pk = "t_process_kernel p - m_Process_LastKernel u"
    and ?pu = "t_process_user p - m_Process_LastUser u" and ?pt = "t_now p - m_Process_LastTime u"
  have sum: "uint (?k + ?us) = uint ?k + uint ?us"
    by (rule uint_plus_fits [OF assms(2)])
  have whole: "?k + ?us - ?i = ?us + (?k - ?i)" by (simp only: add_diff_eq add.commute)
  have minus: "uint (?k - ?i) = uint ?k - uint ?i" using assms(1) by (rule uint_minus_le)
  have fits: "uint ?us + uint (?k - ?i) < 2 ^ 64"
    unfolding minus using assms(2) uint_ge_0 [of ?i] by linarith
  then have "uint (?us + (?k - ?i)) = uint ?us + uint (?k - ?i)"
    by (rule uint_plus_fits)
  then have part: "?k + ?us - ?i \<le> ?k + ?us"
    unfolding word_le_def whole sum minus using uint_ge_0 [of ?i] by linarith
  have split: "percent (?k + ?us - ?i) (?k + ?us) =
      percent ?us (?k + ?us) + percent (?k - ?i) (?k + ?us)"
    unfolding whole by (rule percent_add [OF fits])
  have processor: "0 \<le> m_ProcessorTotal u1 \<and> m_ProcessorTotal u1 \<le> 100 \<and>
      m_ProcessorTotal u1 = m_ProcessorUser u1 + m_ProcessorKernel u1"
    if "u1 = processor_update t u" for u1
    using percent_bounds [OF part] split
    unfolding that processor_update_def Let_def by simp
  have kept: "m_NuberOfProcessors (processor_update t u) = m_NuberOfProcessors u"
      "m_Process_LastTime (processor_update t u) = m_Process_LastTime u"
      "m_Process_LastKernel (processor_update t u) = m_Process_LastKernel u"
      "m_Process_LastUser (processor_update t u) = m_Process_LastUser u"
    by (simp_all add: processor_update_def Let_def)
  have "?pt \<noteq> 0" using assms(4) by simp
  moreover have "of_int (uint (?pk + ?pu)) = (of_int (uint ?pk) + of_int (uint ?pu) :: rat)"
    unfolding uint_plus_fits [OF assms(3)] by (rule of_int_add)
  ultimately have "\<exists>user kernel. m_ProcessUser u2 = Some user \<and> m_ProcessKernel u2 = Some kernel \<and>
      m_ProcessTotal u2 = Some (kernel + user)"
    if "u2 = process_update p (processor_update t u)" for u2
    using assms(5) unfolding that process_update_def Let_def kept process_share_def
    by (simp add: add_divide_distrib distrib_right)
  moreover have "m_ProcessorTotal (process_update p v) = m_ProcessorTotal v"
      "m_ProcessorUser (process_update p v) = m_ProcessorUser v"
      "m_ProcessorKernel (process_update p v) = m_ProcessorKernel v" for v
    by (simp_all add: process_update_def Let_def)
  ultimately show ?thesis
    using processor by (simp add: UpdateCPUTime_def Let_def)
qed

theorem cpu_shares_add_up_witness:
  "let u' = UpdateCPUTime (Some \<lparr>t_idle = 5, t_kernel = 9, t_user = 3\<rparr>)
      \<lparr>t_now = 20, t_process_kernel = 4, t_process_user = 2\<rparr>
      (CPUUsage_ctor 2 None \<lparr>t_now = 0, t_process_kernel = 0, t_process_user = 0\<rparr>)
   in 0 \<le> m_ProcessorTotal u' \<and> m_ProcessorTotal u' \<le> 100 \<and>
      m_ProcessorTotal u' = m_ProcessorUser u' + m_ProcessorKernel u'"
  using cpu_shares_add_up [of "\<lparr>t_idle = 5, t_kernel = 9, t_user = 3\<rparr>"
      "CPUUsage_ctor 2 None \<lparr>t_now = 0, t_process_kernel = 0, t_process_user = 0\<rparr>"
      "\<lparr>t_now = 20, t_process_kernel = 4, t_process_user = 2\<rparr>"]
  by (simp add: CPUUsage_ctor_def UpdateCPUTime_def Let_def)

end
