(* ===== verification/Console.thy ===== *)
theory Console
  imports Login CPUUsage
begin

text \<open>
  The program's entry (\<^verbatim>\<open>main.cpp\<close>): the server is started, then once a second the keys are read
  and the statistics refreshed and printed.  \<open>con_Login\<close> is the chat server with its Redis client,
  \<open>con_CPU\<close> the load meter; \<open>con_Calls\<close> records, newest first, the starts and stops made.  What
  \<^verbatim>\<open>ServerMonitorPrint\<close> only prints is left out.
\<close>

datatype server_call = CallStart | CallStop

record 'c console =
  con_Login :: "'c login_world"
  con_StartFlag :: bool
  con_CPU :: CPUUsage
  m_MaxTCPRetrans :: "64 word"
  m_Min_MaxTCPRetrans :: "64 word"
  con_Calls :: "server_call list"

text \<open>What one turn of the loop sees of the outside.\<close>

record turn =
  tn_F4 :: bool
  tn_key :: "wchar option"
  tn_system :: "system_times option"
  tn_process :: process_times
  tn_retrans :: "64 word"

text \<open>The constants \<^verbatim>\<open>main\<close> passes on; the numbers it asks for are \<open>running\<close> and \<open>maxUser\<close>.\<close>

definition main_options :: SocketOption where
  "main_options = SocketOption_new\<lparr>KeepAlive := False, Linger := True, TCPNoDelay := False, SendBufferZero := False\<rparr>"

definition main_timeouts :: TimeOutOption where
  "main_timeouts = \<lparr>OptionOn = False, LoginTimeOut = 20000, HeartBeatTimeOut = 60000\<rparr>"

definition main_start ::
  "('k, 'f, 'r) redis_api \<Rightarrow> platform \<Rightarrow> net_env \<Rightarrow> (nat \<Rightarrow> Session) \<Rightarrow> 32 word \<Rightarrow> 32 word \<Rightarrow> 'k console
   \<Rightarrow> 'k console run option" where
  "main_start api pf ne raw threads maxUser c =
     after (login_start api pf ne raw None 12001 main_options threads maxUser main_timeouts (con_Login c))
       (\<lambda>lw. Inr (c\<lparr>con_Login := lw, con_StartFlag := True, con_Calls := CallStart # con_Calls c\<rparr>))"

definition main_stop ::
  "('k, 'f, 'r) redis_api \<Rightarrow> platform \<Rightarrow> 'k console \<Rightarrow> 'k console run option" where
  "main_stop api pf c =
     after (login_stop api pf (con_Login c))
       (\<lambda>lw. Inr (c\<lparr>con_Login := lw, con_StartFlag := False, con_Calls := CallStop # con_Calls c\<rparr>))"

definition main_key ::
  "('k, 'f, 'r) redis_api \<Rightarrow> platform \<Rightarrow> net_env \<Rightarrow> (nat \<Rightarrow> Session) \<Rightarrow> 32 word \<Rightarrow> 32 word \<Rightarrow> wchar \<Rightarrow> 'k console
   \<Rightarrow> 'k console run option" where
  "main_key api pf ne raw threads maxUser temp c =
     andthen (if temp \<in> set (wide ''Qq'') \<and> con_StartFlag c then main_stop api pf c else Some (Inr c))
       (\<lambda>c. if temp \<in> set (wide ''sS'') \<and> \<not> con_StartFlag c
            then main_start api pf ne raw threads maxUser c else Some (Inr c))"

definition ServerMonitorPrint :: "turn \<Rightarrow> 'k console \<Rightarrow> 'k console" where
  "ServerMonitorPrint t c =
     (let v = tn_retrans t;
          c = c\<lparr>con_CPU := UpdateCPUTime (tn_system t) (tn_process t) (con_CPU c)\<rparr>;
          c = (if m_MaxTCPRetrans c <s v then c\<lparr>m_MaxTCPRetrans := v\<rparr> else c);
          c = (if v <s m_Min_MaxTCPRetrans c then c\<lparr>m_Min_MaxTCPRetrans := v\<rparr> else c)
      in c\<lparr>con_Login := (con_Login c)\<lparr>lw_World := (lw_World (con_Login c))\<lparr>m_UpdateTPS := 0\<rparr>\<rparr>\<rparr>)"

text \<open>The loop, up to F4 or the end of the list; the answer is whether F4 ended it.\<close>

primrec main_loop ::
  "('k, 'f, 'r) redis_api \<Rightarrow> platform \<Rightarrow> net_env \<Rightarrow> (nat \<Rightarrow> Session) \<Rightarrow> 32 word \<Rightarrow> 32 word \<Rightarrow> turn list \<Rightarrow> 'k console
   \<Rightarrow> (bool \<times> 'k console) run option" where
  "main_loop api pf ne raw threads maxUser [] c = Some (Inr (False, c))"
| "main_loop api pf ne raw threads maxUser (t # ts) c =
     (if tn_F4 t then Some (Inr (True, c))
      else
        andthen (case tn_key t of
                   None \<Rightarrow> Some (Inr c)
                 | Some temp \<Rightarrow> main_key api pf ne raw threads maxUser temp c) (\<lambda>c.
        main_loop api pf ne raw threads maxUser ts (ServerMonitorPrint t c)))"

section \<open>Starts and stops alternate\<close>

text \<open>Newest first: no two calls in a row are alike, and the flag says which one was last.\<close>

definition calls_alternate :: "'k console \<Rightarrow> bool" where
  "calls_alternate c \<longleftrightarrow>
     distinct_adj (con_Calls c) \<and> con_Calls c \<noteq> [] \<and>
     (hd (con_Calls c) = CallStart \<longleftrightarrow> con_StartFlag c)"

lemma andthen_Inr: "andthen m f = Some (Inr y) \<longleftrightarrow> (\<exists>x. m = Some (Inr x) \<and> f x = Some (Inr y))"
  by (auto simp: andthen_def split: option.splits sum.splits)

lemma after_Inr: "after m f = Some (Inr y) \<longleftrightarrow> (\<exists>x. m = Some (Inr x) \<and> f x = Inr y)"
  by (simp add: after_def andthen_Inr)

lemma ServerMonitorPrint_calls [simp]:
  "calls_alternate (ServerMonitorPrint t c) = calls_alternate c"
  by (simp add: calls_alternate_def ServerMonitorPrint_def Let_def)

lemma main_start_calls:
  "calls_alternate c \<Longrightarrow> \<not> con_StartFlag c \<Longrightarrow> main_start api pf ne raw n u c = Some (Inr c') \<Longrightarrow>
     calls_alternate c'"
  by (cases "con_Calls c") (auto simp: main_start_def after_Inr calls_alternate_def)

lemma main_stop_calls:
  "calls_alternate c \<Longrightarrow> con_StartFlag c \<Longrightarrow> main_stop api pf c = Some (Inr c') \<Longrightarrow>
     calls_alternate c'"
  by (cases "con_Calls c") (auto simp: main_stop_def after_Inr calls_alternate_def)

lemma main_key_calls:
  "calls_alternate c \<Longrightarrow> main_key api pf ne raw n u temp c = Some (Inr c') \<Longrightarrow> calls_alternate c'"
  by (auto simp: main_key_def andthen_Inr split: if_splits intro: main_start_calls main_stop_calls)

text \<open>Whatever keys are pressed, the server is only started when stopped and stopped when started.\<close>

lemma main_loop_calls:
  "calls_alternate c \<Longrightarrow> main_loop api pf ne raw n u ts c = Some (Inr (b, c')) \<Longrightarrow> calls_alternate c'"
proof (induction ts arbitrary: c)
  case (Cons t ts)
  show ?case
  proof (cases "tn_F4 t")
    case True
    with Cons.prems show ?thesis by simp
  next
    case False
    with Cons.prems(2) obtain x where
        "(case tn_key t of None \<Rightarrow> Some (Inr c) | Some temp \<Rightarrow> main_key api pf ne raw n u temp c) = Some (Inr x)"
        and rest: "main_loop api pf ne raw n u ts (ServerMonitorPrint t x) = Some (Inr (b, c'))"
      by (auto simp: andthen_Inr)
    then have "calls_alternate x"
      using Cons.prems(1) main_key_calls by (cases "tn_key t") auto
    with Cons.IH [OF _ rest] show ?thesis by simp
  qed
qed simp

end
