(* ===== verification/Spec2Isabelle.thy ===== *)
theory Spec2Isabelle
  imports Releasing SessionProtocol SendProtocol FreeListProtocol QueueRuns SmartPacket SystemReports StreamReceive LoginMessage MemoryLog Profiler DBConnector Console
begin

text \<open>
  A verified model of the chat server in \<^verbatim>\<open>src/SingleThread_ChattingServer_LoginVer\<close>.

  \<^bold>\<open>The program.\<close>  \<^verbatim>\<open>NetServer\<close> (NetServerLib.cpp) accepts connections, keeps a fixed array of session
  slots, and serves completed reads and writes with a pool of worker threads on a Windows
  completion port.  Its subclass \<^verbatim>\<open>MyChattingServer\<close> (ChattingServer.cpp) is told of every join,
  leave and packet by a call-back, which queues a job; a single update thread takes the jobs,
  keeps the clients by session and by sector of a map of 50 by 50, and answers by building packets
  (PacketProcess.cpp) and queueing them at sessions.  A packet (SerializeBuffer.cpp) is one block
  of a pool, shared by all sessions it is sent to and counted.  All pools, stacks and queues are
  the program's own (FreeList.h, MemoryPool_TLS.h, LockFreeStack.h, LockFreeQ.h, RingBuffer.cpp).
  Logins are looked up in Redis (RedisConnector.cpp).  Around this stand a text log (Log.cpp), logs
  in memory (MemoryLog.h), a profiler, a MySQL client that nothing calls (DBConnector.cpp), a load
  meter (CPUUsage.cpp) and the main loop (main.cpp).

  \<^bold>\<open>How code is written.\<close>  A call is a function from state to \<open>fault + result\<close> (\<open>'a run\<close>, theory
  Prelude), sequenced by \<open>bnd\<close>.  The faults are \<open>OutOfBounds\<close> (an access outside an array or a
  block), \<open>NullDeref\<close>, \<open>Crash\<close> (the program's own \<^verbatim>\<open>Crash()\<close>), \<open>PacketExcept\<close> and the two of the free
  list (exceptions the code throws), \<open>Blocked\<close> (a loop waiting for another thread), \<open>Escaped\<close> (an exception no handler catches) and \<open>Undefined\<close> (behaviour
  the C standard leaves open).  Integers are words of their width; the signed index arithmetic of
  the ring is on \<open>int\<close> with the C remainder; \<open>objptr\<close> is an address in a pool.  A result the operating system gives
  is an argument (\<open>env\<close>, \<open>net_env\<close>, \<open>platform\<close>); a call made for its effect is appended to a trace
  (\<open>w_io\<close>).  The third-party clients of Redis and MySQL are records of functions (\<open>redis_api\<close>,
  \<open>sql_api\<close>) that the definitions take as arguments.

  \<^bold>\<open>Theories, bottom up.\<close>
  Prelude (faults, \<^verbatim>\<open>memcpy\<close>, little-endian bytes); Contracts (the locales \<open>byte_stream\<close>,
  \<open>object_pool\<close>, \<open>resource_stack\<close>, \<open>message_queue\<close>, each interpreted on the component that provides
  it on the model's own definitions); Transition (the locales \<open>inductive_invariant\<close> and \<open>finishing_steps\<close> for concurrent protocols).

  Containers.  RingBuffer: every member of \<^verbatim>\<open>RingQ\<close>, and that it is a bounded first-in first-out
  stream.  FreeList, MemoryPool: both pools; no object is handed out twice, and what is held
  keeps its value.  LockFreeStack, LockFreeQ: the index stack and the queue of node pointers tagged with
  identifiers, one caller at a time (both under concurrent callers below).  The counters of these three
  are the 32 bit words of the code and their tags 64 bit words: the free list's counters are its sizes
  modulo \<open>2 ^ 32\<close>, and runs of the queue of any length are first in, first out while it has room
  (\<open>queue_limit\<close>) and tags (\<open>queue_stamps\<close>) left.  Packet, Cipher, PacketPool: typed reading and
  writing, header, check sum and obfuscation, allocation and release of packets, with runs
  (\<open>packet_run\<close>) in which the packets held are written, encoded and counted; SmartPacket: the counted
  handle on a packet, which the server is not configured to use.

  Network server.  ServerState holds the records \<open>Session\<close>, \<open>Client\<close>, \<open>Job\<close> and \<open>World\<close> (the server
  object with the globals).  NetServer and ChatServer translate the two classes function by
  function under the names of the code; PacketProcess the replies.  SessionFacts, PacketRefs and
  ServerInv state the invariant of the server between two handlers: \<open>world_inv w H J\<close> says that
  the slots are well formed, that every packet's count is the number of places that keep it
  (queues, packet arrays, jobs, the running handler \<open>H\<close>), and that the job queue holds valid jobs.
  Startup establishes it; Accepting, Frames, Receiving, StreamReceive (receiving against a
  specification of the stream format, \<open>cut_frame\<close> and \<open>cut_frames\<close>), Sending, SendPosting,
  Delivering (unicast and the collected send), Releasing, Jobs, Replies and Building keep it and say what each handler does.

  Chat server.  Clients has the invariant of the registry (who stands in which sector); Messages,
  ChatMessages and Conversations follow a message from the packet to the queues of its receivers,
  with the messages that are refused and those that end the server.  Login joins the login
  call-back with its Redis lookup, LoginMessage follows a login request from the worker through
  the job to the reply, Console holds the main loop.  The login handler names the thread
  of its asynchronous call by the address of a function (\<open>apc_thread\<close>), so no lookup is queued by it;
  \<open>login_through_redis\<close> says what the call-back does if it is run, for every outcome of the lookup.

  Concurrency.  SessionProtocol takes one slot under any number of threads, each interlocked
  operation and each plain read of the count and the identifier in \<^verbatim>\<open>AcquireSession\<close>,
  \<^verbatim>\<open>ReleaseSession\<close>, \<^verbatim>\<open>SessionClear\<close> and \<^verbatim>\<open>AcceptUser\<close> being a step, with the early return of
  \<^verbatim>\<open>AcceptUser\<close> that loses the slot (\<open>sl_lost\<close>); SendProtocol does the same for the
  send flag, with the linking of a packet and the counting of it as one step.  StackProtocol runs \<^verbatim>\<open>Push\<close> and \<^verbatim>\<open>Pop\<close> of the tagged stack instruction by
  instruction, with the reads of the top, the identifier and the next node apart and the two-word
  compare-exchange as one step; its nodes come from a pool that may hand a freed node out again
  at once, which is the situation the identifier is for.  QueueProtocol does it for \<^verbatim>\<open>EnQ\<close> and
  \<^verbatim>\<open>DeQ\<close> of the tagged queue, with addresses and tags as the machine's words, so that what is a
  pointer is decided by the code's own comparison; QueueRuns states its properties, and shows that
  two threads in \<^verbatim>\<open>DeQ\<close> can leave one of them spinning, which one taker at a time cannot.
  FreeListProtocol takes \<^verbatim>\<open>Alloc\<close> and \<^verbatim>\<open>Free\<close> of the pool apart in the same way and shows that they refine
  the contract (\<open>pool_contract\<close>) the other two take their nodes under.  Their safety properties are invariants over all interleavings, their liveness
  properties bound the steps until all threads have left.

  Support.  WideText (\<^verbatim>\<open>printf\<close> formats with their undefined cases), Retry (loops of the form
  \<^verbatim>\<open>while (!attempt()) { }\<close>), SysLog, LogRecords, MemoryLog, ThreadSlots (one object per thread found
  through \<^verbatim>\<open>TlsGetValue\<close>), Profiler, CharacterEncoding, RedisConnector, DBConnector, CPUUsage,
  SystemReports (performance counters and the exception filter).

  \<^bold>\<open>Loops.\<close>  Loops over a queue have its count plus one as fuel, the loop of \<open>RecvPacket\<close> one turn per
  byte in the ring and one more; that this is enough is part of the theorems (\<open>RecvPacket_loop_terminates\<close>
  says it on its own).  The compare-exchange loops of the queue have fuel \<open>spin_fuel\<close>; for one caller
  one turn is enough, which \<open>LockFreeQ_is_fifo\<close> includes.  Retry loops are
  \<open>partial_function (option)\<close>: \<open>None\<close> is a loop that does not end, and the theorems say when it does.

  \<^bold>\<open>Bounds.\<close>  Statistics are words and wrap.  The slot protocol is safe for fewer than \<open>2 ^ 31 - 2\<close>
  threads and pending operations, distinct identifiers take fewer than \<open>2 ^ 48\<close> accepts, and the stack protocol fewer than
  \<open>2 ^ 31 - 1\<close> elements and \<open>2 ^ 64\<close> changes, the queue protocol also fewer than
  \<open>2 ^ 63 - 2 ^ 43\<close> tags and blocks below \<^verbatim>\<open>KERNEL_ADDRESS\<close>, as the hypotheses and \<open>queue_pool\<close> say.
  For one caller the stack holds at most \<open>2 ^ 31 - 1\<close> elements (\<open>stack_limit\<close>) and the queue as many
  messages as its configured maximum and its 32 bit count allow.  \<^verbatim>\<open>ReleaseSession\<close> ends the process
  on a client that did not announce its end, which \<open>ReleaseSession_returns_slot\<close> says; the slot
  protocol leaves that check out.

  \<^bold>\<open>Not modelled.\<close>  In NetServer and ChatServer handlers run one at a time, except in the
  protocol theories; of the containers the free list, the stack and the queue are modelled under
  concurrent callers, the thread local pool one operation at a time on any thread.  Calls of the text log
  and of the logs in memory are left out of the handlers, which never read them; the logs are
  modelled alone.  Registering the crash handlers with the C runtime is the system's.
  Printing of statistics, reading the configuration from the console and writing the logs in
  memory to files are left out.  The queue variants \<^verbatim>\<open>ENQ_MODE\<close> 1 and 3 are
  compiled out.  \<^verbatim>\<open>MYSQLLib\<close> and \<^verbatim>\<open>RedisLib\<close> are third-party code.  Floating-point percentages are
  rationals.
\<close>

end
